(* ===== verification/Prelude.thy ===== *)
theory Prelude
  imports Main "HOL-Library.Word"
begin

text \<open>
  Shared vocabulary of the development: the machine integers of the C++ sources, the
  failures a call can end in, sequencing of calls that can fail, the two ways a property
  of such a call is stated, and the facts on lists, maps and words that several
  components use.
\<close>

unbundle bit_operations_syntax

section \<open>Machine integers\<close>

text \<open>
  Counters, ticks, logical addresses and bytes keep their width as words. Indices into
  arrays are natural numbers: the code bounds them by an array length that itself fits
  the index type, so no index computation of the modelled code wraps before the access
  fails.
\<close>

type_synonym u8 = "8 word"
type_synonym u16 = "16 word"
type_synonym u32 = "32 word"
type_synonym u64 = "64 word"
type_synonym tick = "64 word"

section \<open>Failures\<close>

text \<open>
  A call ends in one of three failures besides returning: \<open>Panic\<close> is the macro
  \<^verbatim>\<open>panic(...)\<close> of \<^verbatim>\<open>sim/trace.hh\<close>, which ends the simulation; \<open>OutOfRange\<close> is
  the exception \<^verbatim>\<open>std::out_of_range\<close> of \<^verbatim>\<open>at()\<close>; \<open>Undefined\<close> marks an
  operation the C++ standard gives no meaning to (an access outside an allocation, a
  decrement of the begin iterator). The string tells the source's message or the
  operation.
\<close>

datatype failure = Panic string | OutOfRange string | Undefined string

type_synonym 'a res = "failure + 'a"

definition bindR :: "'a res \<Rightarrow> ('a \<Rightarrow> 'b res) \<Rightarrow> 'b res" where
  "bindR m f = (case m of Inl e \<Rightarrow> Inl e | Inr x \<Rightarrow> f x)"

text \<open>A loop over a list whose body can fail; the first failure ends the loop.\<close>

fun foldR :: "('a \<Rightarrow> 's \<Rightarrow> 's res) \<Rightarrow> 'a list \<Rightarrow> 's \<Rightarrow> 's res" where
  "foldR f [] s = Inr s"
| "foldR f (x # xs) s = bindR (f x s) (foldR f xs)"

text \<open>
  \<open>on_ok m Q\<close>: if the call returns, its result satisfies \<open>Q\<close> (partial correctness).
  \<open>runs_to m Q\<close>: the call returns and its result satisfies \<open>Q\<close> (total correctness).
\<close>

definition on_ok :: "'a res \<Rightarrow> ('a \<Rightarrow> bool) \<Rightarrow> bool" where
  "on_ok m Q = (case m of Inl e \<Rightarrow> True | Inr x \<Rightarrow> Q x)"

definition runs_to :: "'a res \<Rightarrow> ('a \<Rightarrow> bool) \<Rightarrow> bool" where
  "runs_to m Q = (case m of Inl e \<Rightarrow> False | Inr x \<Rightarrow> Q x)"

named_theorems res_simps \<open>rewriting of calls that can fail\<close>
named_theorems vcg \<open>backward rules for calls that can fail\<close>

lemma bindR_Inl [simp, res_simps]: "bindR (Inl e) f = Inl e"
  by (simp add: bindR_def)

lemma bindR_Inr [simp, res_simps]: "bindR (Inr x) f = f x"
  by (simp add: bindR_def)

lemma bindR_eq_Inr: "bindR m f = Inr y \<longleftrightarrow> (\<exists>x. m = Inr x \<and> f x = Inr y)"
  by (cases m) auto

lemma bindR_assoc: "bindR (bindR m f) g = bindR m (\<lambda>x. bindR (f x) g)"
  by (cases m) auto

lemma bindR_cong [fundef_cong]:
  "m = m' \<Longrightarrow> (\<And>x. m' = Inr x \<Longrightarrow> f x = f' x) \<Longrightarrow> bindR m f = bindR m' f'"
  by (cases m') auto

lemma on_ok_Inl [simp, res_simps]: "on_ok (Inl e) Q"
  by (simp add: on_ok_def)

lemma on_ok_Inr [simp, res_simps]: "on_ok (Inr x) Q \<longleftrightarrow> Q x"
  by (simp add: on_ok_def)

lemma on_ok_bindR [res_simps]: "on_ok (bindR m f) Q \<longleftrightarrow> on_ok m (\<lambda>x. on_ok (f x) Q)"
  by (cases m) auto

lemma runs_to_Inl [simp, res_simps]: "\<not> runs_to (Inl e) Q"
  by (simp add: runs_to_def)

lemma runs_to_Inr [simp, res_simps]: "runs_to (Inr x) Q \<longleftrightarrow> Q x"
  by (simp add: runs_to_def)

lemma runs_to_bindR [res_simps]: "runs_to (bindR m f) Q \<longleftrightarrow> runs_to m (\<lambda>x. runs_to (f x) Q)"
  by (cases m) auto

lemma on_okD: "on_ok m Q \<Longrightarrow> m = Inr x \<Longrightarrow> Q x"
  by simp

lemma on_okI: "(\<And>x. m = Inr x \<Longrightarrow> Q x) \<Longrightarrow> on_ok m Q"
  by (cases m) auto

lemma on_ok_mono: "on_ok m P \<Longrightarrow> (\<And>x. m = Inr x \<Longrightarrow> P x \<Longrightarrow> Q x) \<Longrightarrow> on_ok m Q"
  by (cases m) auto

lemma runs_to_mono: "runs_to m P \<Longrightarrow> (\<And>x. m = Inr x \<Longrightarrow> P x \<Longrightarrow> Q x) \<Longrightarrow> runs_to m Q"
  by (cases m) auto

lemma runs_to_iff: "runs_to m Q \<longleftrightarrow> (\<exists>x. m = Inr x \<and> Q x)"
  by (cases m) auto

lemma runs_to_on_ok: "runs_to m Q \<Longrightarrow> on_ok m Q"
  by (cases m) auto

lemma runs_to_and_on_ok: "runs_to m P \<Longrightarrow> on_ok m Q \<Longrightarrow> runs_to m (\<lambda>x. P x \<and> Q x)"
  by (cases m) auto

text \<open>The loop rules: an invariant that the body keeps at every element.\<close>

lemma foldR_append: "foldR f (xs @ ys) s = bindR (foldR f xs s) (foldR f ys)"
proof (induction xs arbitrary: s)
  case Nil
  then show ?case by simp
next
  case (Cons x xs)
  then show ?case by (simp add: bindR_assoc cong: bindR_cong)
qed

lemma foldR_on_ok:
  assumes "I s"
    and "\<And>x s. x \<in> set xs \<Longrightarrow> I s \<Longrightarrow> on_ok (f x s) I"
  shows "on_ok (foldR f xs s) I"
  using assms
proof (induction xs arbitrary: s)
  case Nil
  then show ?case by simp
next
  case (Cons x xs)
  have "on_ok (f x s) I" using Cons.prems by simp
  then show ?case
    unfolding foldR.simps on_ok_bindR by (rule on_ok_mono) (use Cons in auto)
qed

text \<open>The same with an invariant indexed by the elements already done.\<close>

lemma foldR_on_ok_prefix:
  assumes "I [] s"
    and "\<And>ys x zs s. xs = ys @ x # zs \<Longrightarrow> I ys s \<Longrightarrow> on_ok (f x s) (I (ys @ [x]))"
  shows "on_ok (foldR f xs s) (I xs)"
proof -
  have "on_ok (foldR f zs s) (I (ys @ zs))" if "xs = ys @ zs" "I ys s" for ys zs s
    using that
  proof (induction zs arbitrary: ys s)
    case Nil
    then show ?case by simp
  next
    case (Cons z zs)
    from assms(2) [OF Cons.prems] have "on_ok (f z s) (I (ys @ [z]))" .
    then show ?case
      unfolding foldR.simps on_ok_bindR
      by (rule on_ok_mono) (use Cons.IH [of "ys @ [z]"] Cons.prems in auto)
  qed
  from this [of "[]" xs s] assms(1) show ?thesis by simp
qed

lemma foldR_runs_to_prefix:
  assumes "I [] s"
    and "\<And>ys x zs s. xs = ys @ x # zs \<Longrightarrow> I ys s \<Longrightarrow> runs_to (f x s) (I (ys @ [x]))"
  shows "runs_to (foldR f xs s) (I xs)"
proof -
  have "runs_to (foldR f zs s) (I (ys @ zs))" if "xs = ys @ zs" "I ys s" for ys zs s
    using that
  proof (induction zs arbitrary: ys s)
    case Nil
    then show ?case by simp
  next
    case (Cons z zs)
    from assms(2) [OF Cons.prems] have "runs_to (f z s) (I (ys @ [z]))" .
    then show ?case
      unfolding foldR.simps runs_to_bindR
      by (rule runs_to_mono) (use Cons.IH [of "ys @ [z]"] Cons.prems in auto)
  qed
  from this [of "[]" xs s] assms(1) show ?thesis by simp
qed

text \<open>A loop counter names the number of rounds done.\<close>

lemma upt_prefix:
  assumes "[0..<n] = ys @ x # zs" shows "ys = [0..<x]" "x < n"
proof -
  have "length ys < n" using arg_cong [OF assms, of length] by simp
  moreover have "x = [0..<n] ! length ys" unfolding assms by simp
  ultimately have x: "x = length ys" "x < n" by simp_all
  have "ys = take (length ys) [0..<n]" unfolding assms by simp
  then show "ys = [0..<x]" "x < n" using x by (simp_all add: take_upt)
qed

text \<open>Blocks of one length one behind the other.\<close>

lemma concat_blocks:
  "concat (map (\<lambda>i. map (f i) [0..<p]) [0..<n]) = map (\<lambda>j. f (j div p) (j mod p)) [0..<n * (p :: nat)]"
proof (induction n)
  case (Suc n)
  have "[0..<Suc n * p] = [0..<n * p] @ map (\<lambda>j. j + n * p) [0..<p]"
    by (simp only: map_add_upt mult_Suc add.commute [of p] upt_add_eq_append [OF zero_le])
  moreover have "f n j = f ((j + n * p) div p) ((j + n * p) mod p)" if "j < p" for j
    using that by simp
  ultimately show ?case using Suc by simp
qed simp

lemma nth_concat_blocks:
  assumes "\<And>i. i < n \<Longrightarrow> length (f i) = p" "j < n * p"
  shows "concat (map f [0..<n]) ! j = f (j div p) ! (j mod p)"
proof -
  have "map f [0..<n] = map (\<lambda>i. map ((!) (f i)) [0..<p]) [0..<n]"
    using assms(1) by (intro map_cong) (auto intro: nth_equalityI)
  then have "concat (map f [0..<n]) = map (\<lambda>j. f (j div p) ! (j mod p)) [0..<n * p]"
    by (simp only: concat_blocks)
  then show ?thesis using assms(2) by simp
qed

lemma length_concat_blocks:
  assumes "\<And>i. i < n \<Longrightarrow> length (f i) = p"
  shows "length (concat (map f [0..<n])) = n * p"
proof -
  have "map (length \<circ> f) [0..<n] = replicate n p" using assms by (intro nth_equalityI) auto
  then show ?thesis by (simp add: length_concat sum_list_replicate)
qed

end
