(* ===== verification/Algorithm.thy ===== *)
theory Algorithm
  imports Prelude
begin

text \<open>
  The arithmetic helpers of \<^verbatim>\<open>util/algorithm.hh\<close>: the macros \<^verbatim>\<open>MIN\<close>, \<^verbatim>\<open>MAX\<close> (\<open>cMIN\<close>, \<open>cMAX\<close>) and
  \<open>DIVCEIL\<close>, the population count and the mask generator.
\<close>

section \<open>Macros\<close>

definition cMIN :: "'a::ord \<Rightarrow> 'a \<Rightarrow> 'a" where
  "cMIN x y = (if x > y then y else x)"

definition cMAX :: "'a::ord \<Rightarrow> 'a \<Rightarrow> 'a" where
  "cMAX x y = (if x > y then x else y)"

definition DIVCEIL :: "'a::len word \<Rightarrow> 'a word \<Rightarrow> 'a word" where
  "DIVCEIL x y = (x - 1) div y + 1"

lemma cMIN_min [simp]: "cMIN (x::'a::linorder) y = min x y"
  by (simp add: cMIN_def min.absorb1 min.absorb2 not_less)

lemma unat_cMIN: "unat (cMIN a b :: 'a::len word) = min (unat a) (unat b)"
  by (simp add: min_def word_le_nat_alt)

lemma cMAX_max [simp]: "cMAX (x::'a::linorder) y = max x y"
  by (simp add: cMAX_def max.absorb1 max.absorb2 not_less)

section \<open>Population count\<close>

text \<open>
  The template \<^verbatim>\<open>popcount<T>\<close>. The sources compute in \<open>int\<close> after promotion and store
  back into \<open>T\<close>; all operations are ring operations followed by a mask or a store, so
  computing in \<open>T\<close> itself gives the same value.
\<close>

definition popcount :: "'a::len word \<Rightarrow> u8" where
  "popcount v0 =
    (let m = (- 1 :: 'a word);
         v1 = v0 - (drop_bit 1 v0 AND m div 3);
         v2 = (v1 AND m div 15 * 3) + (drop_bit 2 v1 AND m div 15 * 3);
         v3 = (v2 + drop_bit 4 v2) AND m div 255 * 15;
         v4 = drop_bit (LENGTH('a) - 8) (v3 * (m div 255))
     in ucast v4)"

text \<open>The reference: the number of one bits.\<close>

definition ones :: "'a::len word \<Rightarrow> nat" where
  "ones v = length (filter (bit v) [0..<LENGTH('a)])"

lemma popcount_u8_table: "\<forall>n\<in>set [0..<256]. unat (popcount (word_of_nat n :: u8)) = ones (word_of_nat n :: u8)"
  by code_simp

lemma popcount_u8: "unat (popcount (v :: u8)) = ones v"
proof -
  have "unat v < 256" using unsigned_less [where ?'a = nat, of v] by simp
  then have "unat v \<in> set [0..<256]" by simp
  with popcount_u8_table have "unat (popcount (word_of_nat (unat v) :: u8)) = ones (word_of_nat (unat v) :: u8)"
    by blast
  then show ?thesis by simp
qed

lemma ones_le: "ones (v :: 'a::len word) \<le> LENGTH('a)"
  unfolding ones_def by (rule order_trans [OF length_filter_le]) simp

lemma ones_eq_0: "ones v = 0 \<longleftrightarrow> v = 0" for v :: "'a::len word"
  proof
  assume "ones v = 0"
  then have "\<not> bit v n" if "n < LENGTH('a)" for n
    using that by (simp add: ones_def filter_empty_conv)
  then have "\<not> bit v n" for n using bit_imp_le_length by blast
  then show "v = 0" by (simp add: bit_eq_iff)
qed (simp add: ones_def)

section \<open>Masks\<close>

text \<open>
  The two compiler builtins on the value widened to \<^verbatim>\<open>unsigned long\<close>: the number of
  leading zeros (undefined for 0, and called for positive values only) and one plus the
  index of the lowest one bit.
\<close>

definition clzl :: "u64 \<Rightarrow> nat" where
  "clzl v = length (takeWhile (\<lambda>i. \<not> bit v i) (rev [0..<64]))"

definition ffsl :: "u64 \<Rightarrow> nat" where
  "ffsl v = (if v = 0 then 0 else Suc (length (takeWhile (\<lambda>i. \<not> bit v i) [0..<64])))"

definition generateMask :: "u32 \<Rightarrow> u32 \<Rightarrow> u64 \<times> u32" where
  "generateMask val count =
    (let mask = (- 1 :: u64);
         (tmp, mask) =
           (if val > 0 then
              (let shift = clzl (ucast val);
                   shift = (if shift + ffsl (ucast val) = 64 then shift + 1 else shift);
                   tmp = 64 - shift
               in (tmp, push_bit tmp mask))
            else (0, mask))
     in (push_bit (unat count) (NOT mask), count + word_of_nat tmp))"

end
