(* ===== verification/Bitset.thy ===== *)
theory Bitset
  imports Algorithm
begin

text \<open>
  The bit vector of \<^verbatim>\<open>util/bitset.cc\<close>, byte by byte as the class stores it, and the
  interface \<open>bit_vector\<close> that its clients (requests, blocks, the page mapping) rely on.
  Bits are indexed from the lowest bit of the first byte. The operations on single bits
  access byte \<open>idx / 8\<close>; where that byte is outside the allocation the class reads or
  writes foreign memory, and \<open>Bitset_in_range\<close> is what a caller has to guarantee.
\<close>

section \<open>The class\<close>

record bitset =
  data :: "u8 list"
  dataSize :: nat
  allocSize :: nat

definition Bitset_new :: "nat \<Rightarrow> bitset" where
  "Bitset_new sz =
     (if sz > 0 then
        (let alloc = (sz - 1) div 8 + 1
         in \<lparr>data = replicate alloc 0, dataSize = sz, allocSize = alloc\<rparr>)
      else \<lparr>data = [], dataSize = 0, allocSize = 0\<rparr>)"

definition Bitset_in_range :: "bitset \<Rightarrow> nat \<Rightarrow> bool" where
  "Bitset_in_range b idx \<longleftrightarrow> idx div 8 < allocSize b"

definition Bitset_test :: "bitset \<Rightarrow> nat \<Rightarrow> bool" where
  "Bitset_test b idx \<longleftrightarrow> (data b ! (idx div 8)) AND push_bit (idx mod 8) 1 \<noteq> 0"

definition Bitset_all :: "bitset \<Rightarrow> bool" where
  "Bitset_all b =
     (let mask = push_bit (dataSize b + 8 - allocSize b * 8) (0xFF :: u8);
          ret = foldl (\<lambda>ret i. ret AND data b ! i) 0xFF [0..<allocSize b - 1];
          ret = ret AND (data b ! (allocSize b - 1) OR mask)
      in ret = 0xFF)"

definition Bitset_none :: "bitset \<Rightarrow> bool" where
  "Bitset_none b = (foldl (\<lambda>ret i. ret OR data b ! i) (0x00 :: u8) [0..<allocSize b] = 0x00)"

definition Bitset_any :: "bitset \<Rightarrow> bool" where
  "Bitset_any b = (\<not> Bitset_none b)"

definition Bitset_count :: "bitset \<Rightarrow> nat" where
  "Bitset_count b = foldl (\<lambda>count i. count + unat (popcount (data b ! i))) 0 [0..<allocSize b]"

definition Bitset_size :: "bitset \<Rightarrow> nat" where
  "Bitset_size b = dataSize b"

definition Bitset_set_all :: "bitset \<Rightarrow> bitset" where
  "Bitset_set_all b =
     (let mask = drop_bit (allocSize b * 8 - dataSize b) (0xFF :: u8);
          d = foldl (\<lambda>d i. d[i := 0xFF]) (data b) [0..<allocSize b - 1]
      in b\<lparr>data := d[allocSize b - 1 := mask]\<rparr>)"

definition Bitset_reset :: "bitset \<Rightarrow> nat \<Rightarrow> bitset" where
  "Bitset_reset b idx =
     b\<lparr>data := (data b)[idx div 8 := (data b ! (idx div 8)) AND NOT (push_bit (idx mod 8) 1)]\<rparr>"

definition Bitset_set_to :: "bitset \<Rightarrow> nat \<Rightarrow> bool \<Rightarrow> bitset" where
  "Bitset_set_to b idx value =
     (let b = b\<lparr>data := (data b)[idx div 8 :=
                 (data b ! (idx div 8)) AND NOT (push_bit (idx mod 8) 1)]\<rparr>
      in if value then
           b\<lparr>data := (data b)[idx div 8 := (data b ! (idx div 8)) OR push_bit (idx mod 8) 1]\<rparr>
         else b)"

abbreviation Bitset_set :: "bitset \<Rightarrow> nat \<Rightarrow> bitset" where
  "Bitset_set b idx \<equiv> Bitset_set_to b idx True"

definition Bitset_reset_all :: "bitset \<Rightarrow> bitset" where
  "Bitset_reset_all b = b\<lparr>data := foldl (\<lambda>d i. d[i := 0x00]) (data b) [0..<allocSize b]\<rparr>"

definition Bitset_flip_all :: "bitset \<Rightarrow> bitset" where
  "Bitset_flip_all b =
     (let mask = drop_bit (allocSize b * 8 - dataSize b) (0xFF :: u8);
          d = foldl (\<lambda>d i. d[i := NOT (d ! i)]) (data b) [0..<allocSize b];
          n = allocSize b - 1
      in b\<lparr>data := d[n := d ! n AND mask]\<rparr>)"

definition Bitset_flip :: "bitset \<Rightarrow> nat \<Rightarrow> bitset" where
  "Bitset_flip b idx =
     (let x = data b ! (idx div 8); m = push_bit (idx mod 8) 1
      in b\<lparr>data := (data b)[idx div 8 := (NOT x AND m) OR (x AND NOT m)]\<rparr>)"

text \<open>The compound assignments share their loop; they panic on a size mismatch.\<close>

definition Bitset_zip :: "(u8 \<Rightarrow> u8 \<Rightarrow> u8) \<Rightarrow> bitset \<Rightarrow> bitset \<Rightarrow> bitset res" where
  "Bitset_zip f b rhs =
     (if dataSize b \<noteq> dataSize rhs then Inl (Panic ''Size does not match'')
      else Inr (b\<lparr>data := foldl (\<lambda>d i. d[i := f (d ! i) (data rhs ! i)]) (data b) [0..<allocSize b]\<rparr>))"

definition Bitset_and :: "bitset \<Rightarrow> bitset \<Rightarrow> bitset res" where
  "Bitset_and = Bitset_zip (AND)"

definition Bitset_or :: "bitset \<Rightarrow> bitset \<Rightarrow> bitset res" where
  "Bitset_or = Bitset_zip (OR)"

definition Bitset_xor :: "bitset \<Rightarrow> bitset \<Rightarrow> bitset res" where
  "Bitset_xor = Bitset_zip (XOR)"

definition Bitset_not :: "bitset \<Rightarrow> bitset" where
  "Bitset_not b = Bitset_flip_all b"

definition Bitset_eq :: "bitset \<Rightarrow> bitset \<Rightarrow> bool res" where
  "Bitset_eq lhs rhs =
     (if dataSize lhs \<noteq> dataSize rhs then Inl (Panic ''Size does not match'')
      else Inr (list_all (\<lambda>i. data lhs ! i = data rhs ! i) [0..<allocSize lhs]))"

section \<open>Well-formed bit vectors\<close>

text \<open>
  A vector the constructor made for a positive size and the operations keep: enough
  bytes for its bits, and the padding bits of the last byte zero, which \<open>count\<close>,
  \<open>none\<close> and \<open>==\<close> need. On the empty vector \<open>set()\<close>, \<open>flip()\<close> and \<open>all()\<close> access the
  byte before the allocation, so well-formed vectors are not empty.
\<close>

definition Bitset_wf :: "bitset \<Rightarrow> bool" where
  "Bitset_wf b \<longleftrightarrow>
     0 < dataSize b \<and> allocSize b = (dataSize b - 1) div 8 + 1 \<and> length (data b) = allocSize b \<and>
     (\<forall>i. dataSize b \<le> i \<longrightarrow> i < 8 * allocSize b \<longrightarrow> \<not> bit (data b ! (i div 8)) (i mod 8))"

definition bits :: "bitset \<Rightarrow> bool list" where
  "bits b = map (Bitset_test b) [0..<dataSize b]"

lemma Bitset_test_bit: "Bitset_test b idx = bit (data b ! (idx div 8)) (idx mod 8)"
proof -
  have "x AND push_bit n 1 \<noteq> 0 \<longleftrightarrow> bit x n" if "n < 8" for x :: u8 and n
  proof -
    have "bit (x AND push_bit n 1) m \<longleftrightarrow> m = n \<and> bit x n" for m
      using that by (auto simp: bit_simps)
    then show ?thesis by (metis bit_0_eq bot_apply bot_bool_def bit_word_eqI)
  qed
  then show ?thesis by (simp add: Bitset_test_def)
qed

lemma length_bits [simp]: "length (bits b) = dataSize b"
  by (simp add: bits_def)

lemma nth_bits [simp]: "i < dataSize b \<Longrightarrow> bits b ! i = Bitset_test b i"
  by (simp add: bits_def)

lemma Bitset_wf_alloc:
  assumes "Bitset_wf b"
  shows "dataSize b \<le> 8 * allocSize b" "8 * allocSize b < dataSize b + 8" "0 < allocSize b"
    "i < dataSize b \<Longrightarrow> i div 8 < allocSize b"
  using assms by (auto simp: Bitset_wf_def)


section \<open>Loops over the bytes\<close>

lemma foldl_update_upt:
  "n \<le> length xs \<Longrightarrow>
   foldl (\<lambda>d i. d[i := f i (d ! i)]) xs [0..<n] = map (\<lambda>i. if i < n then f i (xs ! i) else xs ! i) [0..<length xs]"
proof (induction n)
  case 0
  then show ?case by (simp add: map_nth)
next
  case (Suc n)
  then show ?case by (auto intro!: nth_equalityI simp: nth_list_update)
qed

lemma foldl_update_all:
  "length xs = n \<Longrightarrow> foldl (\<lambda>d i. d[i := f i (d ! i)]) xs [0..<n] = map (\<lambda>i. f i (xs ! i)) [0..<n]"
  by (simp add: foldl_update_upt)

lemma bit_foldl_and:
  "bit (foldl (\<lambda>r i. r AND f i) (r :: u8) [0..<n]) m \<longleftrightarrow> bit r m \<and> (\<forall>i<n. bit (f i) m)"
  by (induction n) (auto simp: bit_simps less_Suc_eq)

lemma foldl_or_upt: "foldl (\<lambda>r i. r OR f i) 0 [0..<n] = (0 :: u8) \<longleftrightarrow> (\<forall>i<n. f i = 0)"
proof (induction n)
  case (Suc n)
  have "x OR y = 0 \<longleftrightarrow> x = 0 \<and> y = 0" for x y :: u8
    by (auto simp: bit_eq_iff [where ?'a = "8 word"] bit_simps)
  with Suc show ?case by (auto simp: less_Suc_eq)
qed simp

lemma foldl_plus_upt: "foldl (\<lambda>c i. c + f i) (a :: nat) [0..<n] = a + (\<Sum>i<n. f i)"
  by (induction n) auto

lemma filter_upt_bytes:
  "length (filter P [0..<8 * n]) = (\<Sum>i<n. length (filter (\<lambda>j. P (8 * i + j)) [0..<8]))"
proof (induction n)
  case (Suc n)
  have "[0..<8 * Suc n] = [0..<8 * n] @ map (\<lambda>j. 8 * n + j) [0..<8]"
    using upt_add_eq_append [of 0 "8 * n" 8] map_add_upt [of "8 * n" 8] by (simp add: add.commute)
  then show ?case by (simp add: Suc filter_map comp_def)
qed simp

lemma byte_index: "i div 8 = k div 8 \<and> i mod 8 = k mod (8 :: nat) \<longleftrightarrow> i = k"
  by (metis div_mult_mod_eq)

section \<open>Every operation implements its meaning on lists of bits\<close>

lemma Bitset_test_update:
  "k < length (data b) \<Longrightarrow>
   Bitset_test (b\<lparr>data := (data b)[k := x]\<rparr>) i = (if i div 8 = k then bit x (i mod 8) else Bitset_test b i)"
  by (simp add: Bitset_test_bit nth_list_update)

lemma Bitset_wfI:
  assumes "Bitset_wf b" "dataSize b' = dataSize b" "allocSize b' = allocSize b" "length (data b') = allocSize b"
    and "\<And>i. dataSize b \<le> i \<Longrightarrow> i < 8 * allocSize b \<Longrightarrow> \<not> Bitset_test b' i"
  shows "Bitset_wf b'"
  using assms by (auto simp: Bitset_wf_def Bitset_test_bit)

lemma Bitset_wf_padding: "Bitset_wf b \<Longrightarrow> dataSize b \<le> i \<Longrightarrow> i < 8 * allocSize b \<Longrightarrow> \<not> Bitset_test b i"
  by (auto simp: Bitset_wf_def Bitset_test_bit)

lemma bits_eqI:
  "dataSize b = length xs \<Longrightarrow> (\<And>i. i < length xs \<Longrightarrow> Bitset_test b i = xs ! i) \<Longrightarrow> bits b = xs"
  by (auto intro!: nth_equalityI)

lemma Bitset_new_wf: "0 < n \<Longrightarrow> Bitset_wf (Bitset_new n)"
  by (auto simp: Bitset_wf_def Bitset_new_def Let_def less_Suc_eq_le nth_Cons' nth_append
      simp flip: replicate_Suc intro!: bit_0_eq)


lemma Bitset_new_bits [simp]: "bits (Bitset_new n) = replicate n False"
  by (rule bits_eqI) (auto simp: Bitset_new_def Let_def Bitset_test_bit nth_append simp flip: replicate_Suc)

text \<open>Updating one byte in one bit position: the pattern of all single-bit operations.\<close>

lemma Bitset_byte_update:
  assumes wf: "Bitset_wf b" and idx: "idx < dataSize b"
    and x: "\<And>j. j < 8 \<Longrightarrow> bit x j = (if j = idx mod 8 then v else bit (data b ! (idx div 8)) j)"
    and b': "b' = b\<lparr>data := (data b)[idx div 8 := x]\<rparr>"
  shows "Bitset_wf b'" "bits b' = (bits b)[idx := v]"
proof -
  have k: "idx div 8 < length (data b)"
    using wf Bitset_wf_alloc(4) [OF wf idx] by (simp add: Bitset_wf_def)
  have t: "Bitset_test b' i = (if i = idx then v else Bitset_test b i)" for i
  proof (cases "i div 8 = idx div 8")
    case True
    then have "Bitset_test b' i = bit x (i mod 8)"
      using k by (simp add: b' Bitset_test_bit)
    also have "\<dots> = (if i mod 8 = idx mod 8 then v else bit (data b ! (i div 8)) (i mod 8))"
      using True by (simp add: x)
    also have "i mod 8 = idx mod 8 \<longleftrightarrow> i = idx" using True byte_index by blast
    finally show ?thesis by (simp add: Bitset_test_bit)
  next
    case False
    then show ?thesis using k by (auto simp: b' Bitset_test_bit)
  qed
  show "Bitset_wf b'"
  proof (rule Bitset_wfI [OF wf])
    fix i assume "dataSize b \<le> i" "i < 8 * allocSize b"
    then show "\<not> Bitset_test b' i" using idx Bitset_wf_padding [OF wf] by (simp add: t)
  qed (use wf in \<open>simp_all add: b' Bitset_wf_def\<close>)
  show "bits b' = (bits b)[idx := v]"
    using idx by (intro bits_eqI) (auto simp: b' t [unfolded b'] nth_list_update)
qed

lemma Bitset_reset:
  assumes "Bitset_wf b" "idx < dataSize b"
  shows "Bitset_wf (Bitset_reset b idx)" "bits (Bitset_reset b idx) = (bits b)[idx := False]"
  by (rule Bitset_byte_update [OF assms, of "(data b ! (idx div 8)) AND NOT (push_bit (idx mod 8) 1)"];
      auto simp: Bitset_reset_def bit_simps)+

lemma Bitset_set_to_True:
  "Bitset_wf b \<Longrightarrow> idx < dataSize b \<Longrightarrow>
   Bitset_set_to b idx True = b\<lparr>data := (data b)[idx div 8 := (data b ! (idx div 8)) AND NOT (push_bit (idx mod 8) 1)
      OR push_bit (idx mod 8) 1]\<rparr>"
  using Bitset_wf_alloc(4) [of b idx] by (simp add: Bitset_set_to_def Bitset_wf_def Let_def)

lemma Bitset_set_to_False: "Bitset_set_to b idx False = Bitset_reset b idx"
  by (simp add: Bitset_set_to_def Bitset_reset_def)

lemma Bitset_set_to:
  assumes "Bitset_wf b" "idx < dataSize b"
  shows "Bitset_wf (Bitset_set_to b idx v)" "bits (Bitset_set_to b idx v) = (bits b)[idx := v]"
proof -
  have "Bitset_wf (Bitset_set_to b idx True)" "bits (Bitset_set_to b idx True) = (bits b)[idx := True]"
    by (rule Bitset_byte_update [OF assms, of "(data b ! (idx div 8)) AND NOT (push_bit (idx mod 8) 1)
      OR push_bit (idx mod 8) 1"]; auto simp: Bitset_set_to_True [OF assms] bit_simps)+
  then show "Bitset_wf (Bitset_set_to b idx v)" "bits (Bitset_set_to b idx v) = (bits b)[idx := v]"
    using Bitset_reset [OF assms] by (cases v; simp add: Bitset_set_to_False)+
qed

lemma Bitset_flip:
  assumes "Bitset_wf b" "idx < dataSize b"
  shows "Bitset_wf (Bitset_flip b idx)" "bits (Bitset_flip b idx) = (bits b)[idx := \<not> Bitset_test b idx]"
  by (rule Bitset_byte_update [OF assms, where x = "(NOT (data b ! (idx div 8)) AND push_bit (idx mod 8) 1) OR
        (data b ! (idx div 8) AND NOT (push_bit (idx mod 8) 1))" and v = "\<not> Bitset_test b idx"];
      auto simp: Bitset_flip_def Let_def bit_simps Bitset_test_bit)+

text \<open>Rewriting all bytes: the pattern of the operations on whole vectors.\<close>

lemma Bitset_bytes_update:
  assumes wf: "Bitset_wf b" and d: "length d = allocSize b" and b': "b' = b\<lparr>data := d\<rparr>"
    and t: "\<And>i. i < 8 * allocSize b \<Longrightarrow> bit (d ! (i div 8)) (i mod 8) \<longleftrightarrow> i < dataSize b \<and> f i"
  shows "Bitset_wf b'" "bits b' = map f [0..<dataSize b]"
proof -
  show "Bitset_wf b'"
    by (rule Bitset_wfI [OF wf]) (use d t in \<open>simp_all add: b' Bitset_test_bit\<close>)
  show "bits b' = map f [0..<dataSize b]"
    using t Bitset_wf_alloc(1) [OF wf] by (intro bits_eqI) (auto simp: b' Bitset_test_bit)
qed

lemma bit_0xFF [simp]: "bit (0xFF :: int) m \<longleftrightarrow> m < 8"
  using bit_mask_iff [where ?'a = int, of 8 m] by (auto simp: mask_eq_exp_minus_1)

lemma bit_last_mask:
  assumes "Bitset_wf b" "i div 8 = allocSize b - 1"
  shows "bit (drop_bit (allocSize b * 8 - dataSize b) (0xFF :: u8)) (i mod 8) \<longleftrightarrow> i < dataSize b"
proof -
  have "i = 8 * (allocSize b - 1) + i mod 8" using assms(2) by (metis mult_div_mod_eq)
  then show ?thesis using Bitset_wf_alloc [OF assms(1)] by (auto simp: bit_simps)
qed

lemma bit_before_last: "Bitset_wf b \<Longrightarrow> i div 8 < allocSize b - 1 \<Longrightarrow> i < dataSize b"
  using Bitset_wf_alloc [of b] by linarith

lemma byte_cases:
  assumes "i < 8 * allocSize b" obtains "i div 8 < allocSize b - 1" | "i div 8 = allocSize b - 1"
  using assms by linarith

lemma Bitset_set_all:
  assumes wf: "Bitset_wf b"
  shows "Bitset_wf (Bitset_set_all b)" "bits (Bitset_set_all b) = map (\<lambda>_. True) [0..<dataSize b]"
proof -
  define d where "d = (foldl (\<lambda>d i. d[i := 0xFF]) (data b) [0..<allocSize b - 1])
    [allocSize b - 1 := drop_bit (allocSize b * 8 - dataSize b) (0xFF :: u8)]"
  have len: "length (data b) = allocSize b" using wf by (simp add: Bitset_wf_def)
  then have d_map: "d = (map (\<lambda>i. if i < allocSize b - 1 then 0xFF else data b ! i) [0..<allocSize b])
    [allocSize b - 1 := drop_bit (allocSize b * 8 - dataSize b) (0xFF :: u8)]"
    unfolding d_def using foldl_update_upt [of "allocSize b - 1" "data b" "\<lambda>i x. 0xFF"] by simp
  have nth: "bit (d ! (i div 8)) (i mod 8) \<longleftrightarrow> i < dataSize b \<and> True" if "i < 8 * allocSize b" for i
    using that
  proof (cases rule: byte_cases)
    case 1
    then show ?thesis using bit_before_last [OF wf 1] by (simp add: d_map)
  next
    case 2
    then show ?thesis using Bitset_wf_alloc(3) [OF wf] bit_last_mask [OF wf 2] by (simp add: d_map)
  qed
  have "Bitset_set_all b = b\<lparr>data := d\<rparr>" by (simp add: Bitset_set_all_def d_def Let_def)
  from Bitset_bytes_update [OF wf _ this nth] show
    "Bitset_wf (Bitset_set_all b)" "bits (Bitset_set_all b) = map (\<lambda>_. True) [0..<dataSize b]"
    by (simp_all add: d_map)
qed

lemma Bitset_reset_all:
  assumes wf: "Bitset_wf b"
  shows "Bitset_wf (Bitset_reset_all b)" "bits (Bitset_reset_all b) = map (\<lambda>_. False) [0..<dataSize b]"
proof -
  have len: "length (data b) = allocSize b" using wf by (simp add: Bitset_wf_def)
  have "Bitset_reset_all b = b\<lparr>data := map (\<lambda>i. 0) [0..<allocSize b]\<rparr>"
    using foldl_update_all [of "data b" "allocSize b" "\<lambda>i x. 0"] len
    by (simp add: Bitset_reset_all_def)
  from Bitset_bytes_update [OF wf _ this, of "\<lambda>_. False"] show
    "Bitset_wf (Bitset_reset_all b)" "bits (Bitset_reset_all b) = map (\<lambda>_. False) [0..<dataSize b]"
    by (simp_all add: less_mult_imp_div_less mult.commute)
qed

lemma Bitset_flip_all:
  assumes wf: "Bitset_wf b"
  shows "Bitset_wf (Bitset_flip_all b)" "bits (Bitset_flip_all b) = map (\<lambda>i. \<not> Bitset_test b i) [0..<dataSize b]"
proof -
  define d where "d = (map (\<lambda>i. NOT (data b ! i)) [0..<allocSize b])
    [allocSize b - 1 := NOT (data b ! (allocSize b - 1)) AND drop_bit (allocSize b * 8 - dataSize b) (0xFF :: u8)]"
  have len: "length (data b) = allocSize b" using wf by (simp add: Bitset_wf_def)
  have nth: "bit (d ! (i div 8)) (i mod 8) \<longleftrightarrow> i < dataSize b \<and> \<not> Bitset_test b i" if "i < 8 * allocSize b" for i
    using that
  proof (cases rule: byte_cases)
    case 1
    then have "i div 8 < allocSize b" by simp
    with 1 show ?thesis using bit_before_last [OF wf 1] by (simp add: d_def Bitset_test_bit bit_simps)
  next
    case 2
    then show ?thesis using Bitset_wf_alloc(3) [OF wf] bit_last_mask [OF wf 2]
      by (auto simp: d_def Bitset_test_bit bit_and_iff bit_not_iff)
  qed
  have "Bitset_flip_all b = b\<lparr>data := d\<rparr>"
    using foldl_update_all [of "data b" "allocSize b" "\<lambda>i x. NOT x"] len Bitset_wf_alloc(3) [OF wf]
    by (simp add: Bitset_flip_all_def d_def Let_def)
  from Bitset_bytes_update [OF wf _ this nth] show
    "Bitset_wf (Bitset_flip_all b)" "bits (Bitset_flip_all b) = map (\<lambda>i. \<not> Bitset_test b i) [0..<dataSize b]"
    by (simp_all add: d_def)
qed

lemma Bitset_zip:
  assumes wf: "Bitset_wf b" "Bitset_wf c" "dataSize b = dataSize c"
    and f: "\<And>x y m. m < 8 \<Longrightarrow> bit (f x y) m = g (bit x m) (bit y m)" and g: "\<not> g False False"
  shows "\<exists>b'. Bitset_zip f b c = Inr b' \<and> Bitset_wf b' \<and> dataSize b' = dataSize b \<and>
           bits b' = map (\<lambda>i. g (Bitset_test b i) (Bitset_test c i)) [0..<dataSize b]"
proof -
  define b' where "b' = b\<lparr>data := map (\<lambda>i. f (data b ! i) (data c ! i)) [0..<allocSize b]\<rparr>"
  have len: "length (data b) = allocSize b" "allocSize c = allocSize b" using wf by (auto simp: Bitset_wf_def)
  have "Bitset_zip f b c = Inr b'"
    using foldl_update_all [of "data b" "allocSize b" "\<lambda>i x. f x (data c ! i)"] len wf(3)
    by (simp add: Bitset_zip_def b'_def)
  moreover have nth: "bit (map (\<lambda>i. f (data b ! i) (data c ! i)) [0..<allocSize b] ! (i div 8)) (i mod 8) \<longleftrightarrow>
      i < dataSize b \<and> g (Bitset_test b i) (Bitset_test c i)" if "i < 8 * allocSize b" for i
    using that Bitset_wf_padding [OF wf(1), of i] Bitset_wf_padding [OF wf(2), of i] g f wf(3) len(2)
    by (cases "i < dataSize b") (auto simp: Bitset_test_bit less_mult_imp_div_less mult.commute)
  ultimately show ?thesis
    using Bitset_bytes_update [OF wf(1) _ b'_def nth] by (simp add: b'_def)
qed

section \<open>Observers\<close>

lemma all_bytes: "(\<forall>k<n. \<forall>m<8. P (8 * k + m)) \<longleftrightarrow> (\<forall>i<8 * n. P i)" for n :: nat
proof safe
  fix i assume *: "\<forall>k<n. \<forall>m<8. P (8 * k + m)" and "i < 8 * n"
  then have "i div 8 < n" by linarith
  moreover have "i mod 8 < 8" by simp
  ultimately have "P (8 * (i div 8) + i mod 8)" using * by blast
  then show "P i" by simp
qed simp

lemma Bitset_none: 
  assumes wf: "Bitset_wf b" shows "Bitset_none b \<longleftrightarrow> True \<notin> set (bits b)"
proof -
  have "Bitset_none b \<longleftrightarrow> (\<forall>k<allocSize b. data b ! k = 0)"
    by (simp add: Bitset_none_def foldl_or_upt)
  also have "\<dots> \<longleftrightarrow> (\<forall>k<allocSize b. \<forall>m<8. \<not> Bitset_test b (8 * k + m))"
    by (auto simp: bit_eq_iff [where ?'a = "8 word"] Bitset_test_bit)
  also have "\<dots> \<longleftrightarrow> (\<forall>i<8 * allocSize b. \<not> Bitset_test b i)" by (rule all_bytes)
  also have "\<dots> \<longleftrightarrow> (\<forall>i<dataSize b. \<not> Bitset_test b i)"
    using Bitset_wf_padding [OF wf] Bitset_wf_alloc(1) [OF wf] by (meson le_less_linear less_le_trans)
  finally show ?thesis by (auto simp: bits_def)
qed

lemma Bitset_any: "Bitset_wf b \<Longrightarrow> Bitset_any b \<longleftrightarrow> True \<in> set (bits b)"
  by (simp add: Bitset_any_def Bitset_none)

lemma bit_all_mask:
  assumes wf: "Bitset_wf b" and m: "m < 8"
  shows "bit (push_bit (dataSize b + 8 - allocSize b * 8) (0xFF :: u8)) m \<longleftrightarrow> dataSize b \<le> 8 * (allocSize b - 1) + m"
  using Bitset_wf_alloc [OF wf] m by (auto simp: bit_simps)

lemma Bitset_all:
  assumes wf: "Bitset_wf b" shows "Bitset_all b \<longleftrightarrow> False \<notin> set (bits b)"
proof -
  define n where "n = allocSize b - 1"
  have n: "allocSize b = Suc n" using Bitset_wf_alloc(3) [OF wf] by (simp add: n_def)
  have "Bitset_all b \<longleftrightarrow> (\<forall>m<8. (\<forall>k<n. bit (data b ! k) m) \<and> (bit (data b ! n) m \<or> dataSize b \<le> 8 * n + m))"
    unfolding Bitset_all_def Let_def n_def [symmetric] bit_eq_iff [where ?'a = "8 word"]
    using bit_all_mask [OF wf]
    by (auto simp: bit_and_iff bit_or_iff bit_foldl_and n_def simp del: push_bit_numeral)
  also have "\<dots> \<longleftrightarrow> (\<forall>k<Suc n. \<forall>m<8. 8 * k + m < dataSize b \<longrightarrow> Bitset_test b (8 * k + m))"
    using bit_before_last [OF wf] n by (auto simp: less_Suc_eq Bitset_test_bit not_less)
  also have "\<dots> \<longleftrightarrow> (\<forall>i<8 * Suc n. i < dataSize b \<longrightarrow> Bitset_test b i)" by (rule all_bytes)
  also have "\<dots> \<longleftrightarrow> (\<forall>i<dataSize b. Bitset_test b i)"
    using Bitset_wf_alloc(1) [OF wf] n by auto
  finally show ?thesis by (auto simp: bits_def)
qed

lemma Bitset_count:
  assumes wf: "Bitset_wf b" shows "Bitset_count b = length (filter id (bits b))"
proof -
  have "Bitset_count b = (\<Sum>k<allocSize b. length (filter (\<lambda>m. Bitset_test b (8 * k + m)) [0..<8]))"
    by (simp add: Bitset_count_def foldl_plus_upt popcount_u8 ones_def Bitset_test_bit)
      (intro sum.cong refl arg_cong [where f = length] filter_cong; simp)
  also have "\<dots> = length (filter (Bitset_test b) [0..<8 * allocSize b])"
    by (rule filter_upt_bytes [symmetric])
  also have "[0..<8 * allocSize b] = [0..<dataSize b] @ [dataSize b..<8 * allocSize b]"
    using Bitset_wf_alloc(1) [OF wf] upt_add_eq_append [of 0 "dataSize b" "8 * allocSize b - dataSize b"] by simp
  also have "filter (Bitset_test b) \<dots> = filter (Bitset_test b) [0..<dataSize b]"
    using Bitset_wf_padding [OF wf] by (simp add: filter_empty_conv)
  finally show ?thesis by (simp add: bits_def filter_map comp_def)
qed

section \<open>The interface\<close>

text \<open>
  What a client may assume of a bit vector: every operation is the evident one on the
  list of its bits. The lemmas of the locale are what blocks and the page mapping use.
\<close>

locale bit_vector =
  fixes invar :: "'v \<Rightarrow> bool" and abs_bits :: "'v \<Rightarrow> bool list"
    and test :: "'v \<Rightarrow> nat \<Rightarrow> bool" and set_to :: "'v \<Rightarrow> nat \<Rightarrow> bool \<Rightarrow> 'v"
    and reset :: "'v \<Rightarrow> nat \<Rightarrow> 'v" and set_all :: "'v \<Rightarrow> 'v" and reset_all :: "'v \<Rightarrow> 'v"
    and flip_all :: "'v \<Rightarrow> 'v" and any :: "'v \<Rightarrow> bool" and all :: "'v \<Rightarrow> bool" and count :: "'v \<Rightarrow> nat"
  assumes test: "invar v \<Longrightarrow> i < length (abs_bits v) \<Longrightarrow> test v i = abs_bits v ! i"
    and set_to: "invar v \<Longrightarrow> i < length (abs_bits v) \<Longrightarrow>
          invar (set_to v i x) \<and> abs_bits (set_to v i x) = (abs_bits v)[i := x]"
    and reset: "invar v \<Longrightarrow> i < length (abs_bits v) \<Longrightarrow>
          invar (reset v i) \<and> abs_bits (reset v i) = (abs_bits v)[i := False]"
    and set_all: "invar v \<Longrightarrow> invar (set_all v) \<and> abs_bits (set_all v) = map (\<lambda>_. True) (abs_bits v)"
    and reset_all: "invar v \<Longrightarrow> invar (reset_all v) \<and> abs_bits (reset_all v) = map (\<lambda>_. False) (abs_bits v)"
    and flip_all: "invar v \<Longrightarrow> invar (flip_all v) \<and> abs_bits (flip_all v) = map Not (abs_bits v)"
    and any: "invar v \<Longrightarrow> any v \<longleftrightarrow> True \<in> set (abs_bits v)"
    and all: "invar v \<Longrightarrow> all v \<longleftrightarrow> False \<notin> set (abs_bits v)"
    and count: "invar v \<Longrightarrow> count v = length (filter id (abs_bits v))"
begin

lemma test_set_to:
  "invar v \<Longrightarrow> i < length (abs_bits v) \<Longrightarrow> j < length (abs_bits v) \<Longrightarrow>
   test (set_to v i x) j = (if i = j then x else test v j)"
  by (simp add: set_to test nth_list_update)

lemma test_reset:
  "invar v \<Longrightarrow> i < length (abs_bits v) \<Longrightarrow> j < length (abs_bits v) \<Longrightarrow>
   test (reset v i) j = (i \<noteq> j \<and> test v j)"
  by (simp add: reset test nth_list_update)

lemma test_set_all: "invar v \<Longrightarrow> i < length (abs_bits v) \<Longrightarrow> test (set_all v) i"
  by (simp add: set_all test)

lemma test_reset_all: "invar v \<Longrightarrow> i < length (abs_bits v) \<Longrightarrow> \<not> test (reset_all v) i"
  by (simp add: reset_all test)

lemma test_flip_all: "invar v \<Longrightarrow> i < length (abs_bits v) \<Longrightarrow> test (flip_all v) i = (\<not> test v i)"
  by (simp add: flip_all test)

lemma any_test: "invar v \<Longrightarrow> any v \<longleftrightarrow> (\<exists>i<length (abs_bits v). test v i)"
  by (simp add: any test in_set_conv_nth cong: conj_cong) 

lemma all_test: "invar v \<Longrightarrow> all v \<longleftrightarrow> (\<forall>i<length (abs_bits v). test v i)"
  by (auto simp: all test in_set_conv_nth)

lemma count_pos_any: "invar v \<Longrightarrow> 0 < count v \<longleftrightarrow> any v"
  by (auto simp: count any filter_empty_conv)

lemma count_test: "invar v \<Longrightarrow> count v = card {i. i < length (abs_bits v) \<and> test v i}"
  by (simp add: count length_filter_conv_card test cong: conj_cong)

lemma flip_flip: "invar v \<Longrightarrow> abs_bits (flip_all (flip_all v)) = abs_bits v"
  by (simp add: flip_all comp_def)

lemma count_flip_all: "invar v \<Longrightarrow> count (flip_all v) + count v = length (abs_bits v)"
proof -
  assume "invar v"
  then have "count (flip_all v) = length (filter (\<lambda>x. \<not> x) (abs_bits v))"
    by (simp add: count flip_all filter_map comp_def)
  with \<open>invar v\<close> show ?thesis
    using sum_length_filter_compl [of id "abs_bits v"] by (simp add: count)
qed

end

interpretation bv: bit_vector Bitset_wf bits Bitset_test Bitset_set_to Bitset_reset Bitset_set_all
  Bitset_reset_all Bitset_flip_all Bitset_any Bitset_all Bitset_count
proof unfold_locales
  fix v i x
  assume v: "Bitset_wf v"
  show "Bitset_wf (Bitset_set_all v) \<and> bits (Bitset_set_all v) = map (\<lambda>_. True) (bits v)"
    using Bitset_set_all [OF v] by (simp add: bits_def comp_def)
  show "Bitset_wf (Bitset_reset_all v) \<and> bits (Bitset_reset_all v) = map (\<lambda>_. False) (bits v)"
    using Bitset_reset_all [OF v] by (simp add: bits_def comp_def)
  show "Bitset_wf (Bitset_flip_all v) \<and> bits (Bitset_flip_all v) = map Not (bits v)"
    using Bitset_flip_all [OF v] by (simp add: bits_def comp_def)
qed (simp_all add: Bitset_set_to Bitset_reset Bitset_any Bitset_all Bitset_count)

text \<open>The size of a vector is never changed; the clients need it to keep indices in range.\<close>

lemma dataSize_simps [simp]:
  "dataSize (Bitset_set_to b i v) = dataSize b" "dataSize (Bitset_reset b i) = dataSize b"
  "dataSize (Bitset_set_all b) = dataSize b" "dataSize (Bitset_reset_all b) = dataSize b"
  "dataSize (Bitset_flip_all b) = dataSize b" "dataSize (Bitset_new n) = n"
  by (simp_all add: Bitset_set_to_def Bitset_reset_def Bitset_set_all_def Bitset_reset_all_def
      Bitset_flip_all_def Bitset_new_def Let_def)

lemma Bitset_in_range: "Bitset_wf b \<Longrightarrow> i < dataSize b \<Longrightarrow> Bitset_in_range b i"
  by (simp add: Bitset_in_range_def Bitset_wf_alloc)

lemma Bitset_and:
  assumes "Bitset_wf b" "Bitset_wf c" "dataSize b = dataSize c"
  shows "\<exists>d. Bitset_and b c = Inr d \<and> Bitset_wf d \<and> dataSize d = dataSize b \<and>
           bits d = map (\<lambda>i. Bitset_test b i \<and> Bitset_test c i) [0..<dataSize b]"
  using Bitset_zip [OF assms, of "(AND)" "(\<and>)"] by (simp add: Bitset_and_def bit_and_iff)

lemma Bitset_or:
  assumes "Bitset_wf b" "Bitset_wf c" "dataSize b = dataSize c"
  shows "\<exists>d. Bitset_or b c = Inr d \<and> Bitset_wf d \<and> dataSize d = dataSize b \<and>
           bits d = map (\<lambda>i. Bitset_test b i \<or> Bitset_test c i) [0..<dataSize b]"
  using Bitset_zip [OF assms, of "(OR)" "(\<or>)"] by (simp add: Bitset_or_def bit_or_iff)

lemma Bitset_xor:
  assumes "Bitset_wf b" "Bitset_wf c" "dataSize b = dataSize c"
  shows "\<exists>d. Bitset_xor b c = Inr d \<and> Bitset_wf d \<and> dataSize d = dataSize b \<and>
           bits d = map (\<lambda>i. Bitset_test b i \<noteq> Bitset_test c i) [0..<dataSize b]"
  using Bitset_zip [OF assms, of "(XOR)" "(\<noteq>)"] by (simp add: Bitset_xor_def bit_xor_iff)

lemma Bitset_eq:
  assumes "Bitset_wf b" "Bitset_wf c" "dataSize b = dataSize c"
  shows "Bitset_eq b c = Inr (bits b = bits c)"
proof -
  have len: "length (data b) = allocSize b" "length (data c) = allocSize b" "allocSize c = allocSize b"
    using assms by (auto simp: Bitset_wf_def)
  have "(\<forall>k<allocSize b. data b ! k = data c ! k) \<longleftrightarrow>
      (\<forall>k<allocSize b. \<forall>m<8. Bitset_test b (8 * k + m) = Bitset_test c (8 * k + m))"
    by (auto simp: bit_eq_iff [where ?'a = "8 word"] Bitset_test_bit)
  also have "\<dots> \<longleftrightarrow> (\<forall>i<8 * allocSize b. Bitset_test b i = Bitset_test c i)" by (rule all_bytes)
  also have "\<dots> \<longleftrightarrow> (\<forall>i<dataSize b. Bitset_test b i = Bitset_test c i)"
    using Bitset_wf_padding [OF assms(1)] Bitset_wf_padding [OF assms(2)] Bitset_wf_alloc(1) [OF assms(1)]
      assms(3) len(3) by (metis le_less_linear less_le_trans)
  finally show ?thesis
    using assms(3) by (auto simp: Bitset_eq_def list_all_iff bits_def)
qed

end
