(* ===== verification/Block.thy ===== *)
theory Block
  imports Bitset
begin

text \<open>
  A flash block of \<^verbatim>\<open>ftl/common/block.cc\<close>: pages that are written in order, unit by unit,
  invalidated, and erased together. The class keeps two layouts, one bit vector over the
  pages when a page is one I/O unit and one bit vector per page otherwise; the model keeps
  both. \<open>block_view\<close> is the abstraction over them, the state of every unit of every page,
  and the interface \<open>flash_block\<close> says what each operation does to it.
\<close>

section \<open>The class\<close>

record block =
  blkIdx :: nat
  blkPageCount :: nat
  blkIoUnit :: nat
  pNextWritePageIndex :: "nat list"
  pValidBits :: bitset
  pErasedBits :: bitset
  pLPNs :: "u64 list"
  validBits :: "bitset list"
  erasedBits :: "bitset list"
  ppLPNs :: "u64 list list"
  blkLastAccessed :: tick
  eraseCount :: nat

definition Block_erase :: "block \<Rightarrow> block" where
  "Block_erase b =
     (let b = (if blkIoUnit b = 1 then
                 b\<lparr>pValidBits := Bitset_reset_all (pValidBits b),
                   pErasedBits := Bitset_set_all (pErasedBits b)\<rparr>
               else
                 b\<lparr>validBits := map Bitset_reset_all (validBits b),
                   erasedBits := map Bitset_set_all (erasedBits b)\<rparr>)
      in b\<lparr>pNextWritePageIndex := replicate (blkIoUnit b) 0,
           eraseCount := (eraseCount b + 1) mod 2 ^ 32\<rparr>)"

definition Block_new :: "nat \<Rightarrow> nat \<Rightarrow> nat \<Rightarrow> block res" where
  "Block_new blockIdx count ioUnit =
     (let b = \<lparr>blkIdx = blockIdx, blkPageCount = count, blkIoUnit = ioUnit, pNextWritePageIndex = [],
               pValidBits = Bitset_new 0, pErasedBits = Bitset_new 0, pLPNs = [],
               validBits = [], erasedBits = [], ppLPNs = [], blkLastAccessed = 0, eraseCount = 0\<rparr>;
          alloc = (if ioUnit = 1 then
                     Inr (b\<lparr>pValidBits := Bitset_new count, pErasedBits := Bitset_new count,
                            pLPNs := replicate count 0\<rparr>)
                   else if ioUnit > 1 then
                     Inr (b\<lparr>validBits := replicate count (Bitset_new ioUnit),
                            erasedBits := replicate count (Bitset_new ioUnit),
                            ppLPNs := replicate count (replicate ioUnit 0)\<rparr>)
                   else Inl (Panic ''Invalid I/O unit in page''))
      in bindR alloc (\<lambda>b.
           let b = b\<lparr>pNextWritePageIndex := replicate ioUnit 0\<rparr>;
               b = Block_erase b
           in Inr (b\<lparr>eraseCount := 0\<rparr>)))"

text \<open>The copy constructor delegates to the constructor above, so it does not copy \<open>lastAccessed\<close>.\<close>

definition Block_copy :: "block \<Rightarrow> block res" where
  "Block_copy old =
     bindR (Block_new (blkIdx old) (blkPageCount old) (blkIoUnit old)) (\<lambda>b.
       let b = (if blkIoUnit b = 1 then
                  b\<lparr>pValidBits := pValidBits old, pErasedBits := pErasedBits old, pLPNs := pLPNs old\<rparr>
                else
                  b\<lparr>validBits := validBits old, erasedBits := erasedBits old, ppLPNs := ppLPNs old\<rparr>)
       in Inr (b\<lparr>pNextWritePageIndex := pNextWritePageIndex old, eraseCount := eraseCount old\<rparr>))"

definition Block_getValidPageCount :: "block \<Rightarrow> nat" where
  "Block_getValidPageCount b =
     (if blkIoUnit b = 1 then Bitset_count (pValidBits b)
      else foldl (\<lambda>ret it. if Bitset_any it then ret + 1 else ret) 0 (validBits b))"

definition Block_getValidPageCountRaw :: "block \<Rightarrow> nat" where
  "Block_getValidPageCountRaw b =
     (if blkIoUnit b = 1 then Bitset_count (pValidBits b)
      else foldl (\<lambda>ret it. ret + Bitset_count it) 0 (validBits b))"

definition Block_getDirtyPageCount :: "block \<Rightarrow> nat res" where
  "Block_getDirtyPageCount b =
     (if blkIoUnit b = 1 then
        bindR (Bitset_or (pValidBits b) (pErasedBits b)) (\<lambda>u. Inr (Bitset_count (Bitset_not u)))
      else
        foldR (\<lambda>i ret.
          if i < length (validBits b) \<and> i < length (erasedBits b) then
            bindR (Bitset_or (validBits b ! i) (erasedBits b ! i)) (\<lambda>u.
              Inr (if Bitset_any (Bitset_not u) then ret + 1 else ret))
          else Inl (OutOfRange ''validBits.at'')) [0..<blkPageCount b] 0)"

definition Block_getNextWritePageIndex :: "block \<Rightarrow> nat" where
  "Block_getNextWritePageIndex b =
     foldl (\<lambda>r i. if r < pNextWritePageIndex b ! i then pNextWritePageIndex b ! i else r) 0 [0..<blkIoUnit b]"

definition Block_getNextWritePageIndexAt :: "block \<Rightarrow> nat \<Rightarrow> nat res" where
  "Block_getNextWritePageIndexAt b idx =
     (if idx < length (pNextWritePageIndex b) then Inr (pNextWritePageIndex b ! idx)
      else Inl (Undefined ''pNextWritePageIndex[idx]''))"

text \<open>The page information: whether a unit is valid, the LPNs and the map of valid units.\<close>

definition Block_getPageInfo :: "block \<Rightarrow> nat \<Rightarrow> bitset \<Rightarrow> (bool \<times> u64 list \<times> bitset) res" where
  "Block_getPageInfo b pageIndex iomap =
     (if blkIoUnit b = 1 \<and> Bitset_size iomap = 1 then
        (let iomap = Bitset_set_all iomap
         in if pageIndex < length (pLPNs b) then
              Inr (Bitset_any iomap, [pLPNs b ! pageIndex], iomap)
            else Inl (Undefined ''pLPNs[pageIndex]''))
      else if Bitset_size iomap = blkIoUnit b then
        (if pageIndex < length (validBits b) then
           (let iomap = validBits b ! pageIndex
            in Inr (Bitset_any iomap, ppLPNs b ! pageIndex, iomap))
         else Inl (OutOfRange ''validBits.at''))
      else Inl (Panic ''I/O map size mismatch''))"

text \<open>The common look-up of \<open>read\<close> and \<open>write\<close> in one of the two layouts.\<close>

definition Block_testBit :: "bitset \<Rightarrow> bitset list \<Rightarrow> block \<Rightarrow> nat \<Rightarrow> nat \<Rightarrow> bool res" where
  "Block_testBit pBits vBits b pageIndex idx =
     (if blkIoUnit b = 1 \<and> idx = 0 then
        (if Bitset_in_range pBits pageIndex then Inr (Bitset_test pBits pageIndex)
         else Inl (Undefined ''Bitset::test''))
      else if idx < blkIoUnit b then
        (if pageIndex < length vBits then Inr (Bitset_test (vBits ! pageIndex) idx)
         else Inl (OutOfRange ''Bits.at''))
      else Inl (Panic ''I/O map size mismatch''))"

definition Block_read :: "block \<Rightarrow> nat \<Rightarrow> nat \<Rightarrow> tick \<Rightarrow> (bool \<times> block) res" where
  "Block_read b pageIndex idx t =
     bindR (Block_testBit (pValidBits b) (validBits b) b pageIndex idx) (\<lambda>read.
       Inr (read, if read then b\<lparr>blkLastAccessed := t\<rparr> else b))"

definition Block_write :: "block \<Rightarrow> nat \<Rightarrow> u64 \<Rightarrow> nat \<Rightarrow> tick \<Rightarrow> (bool \<times> block) res" where
  "Block_write b pageIndex lpn idx t =
     bindR (Block_testBit (pErasedBits b) (erasedBits b) b pageIndex idx) (\<lambda>write.
       if write then
         (if pageIndex < pNextWritePageIndex b ! idx then Inl (Panic ''Write to block should sequential'')
          else
            (let b = b\<lparr>blkLastAccessed := t\<rparr>;
                 b = (if blkIoUnit b = 1 then
                        b\<lparr>pErasedBits := Bitset_reset (pErasedBits b) pageIndex,
                          pValidBits := Bitset_set (pValidBits b) pageIndex,
                          pLPNs := (pLPNs b)[pageIndex := lpn]\<rparr>
                      else
                        b\<lparr>erasedBits := (erasedBits b)[pageIndex := Bitset_reset (erasedBits b ! pageIndex) idx],
                          validBits := (validBits b)[pageIndex := Bitset_set (validBits b ! pageIndex) idx],
                          ppLPNs := (ppLPNs b)[pageIndex := (ppLPNs b ! pageIndex)[idx := lpn]]\<rparr>)
             in Inr (write, b\<lparr>pNextWritePageIndex := (pNextWritePageIndex b)[idx := pageIndex + 1]\<rparr>)))
       else Inl (Panic ''Write to non erased page''))"

definition Block_invalidate :: "block \<Rightarrow> nat \<Rightarrow> nat \<Rightarrow> block res" where
  "Block_invalidate b pageIndex idx =
     (if blkIoUnit b = 1 then
        (if Bitset_in_range (pValidBits b) pageIndex then
           Inr (b\<lparr>pValidBits := Bitset_reset (pValidBits b) pageIndex\<rparr>)
         else Inl (Undefined ''Bitset::reset''))
      else if pageIndex < length (validBits b) then
        (if Bitset_in_range (validBits b ! pageIndex) idx then
           Inr (b\<lparr>validBits := (validBits b)[pageIndex := Bitset_reset (validBits b ! pageIndex) idx]\<rparr>)
         else Inl (Undefined ''Bitset::reset''))
      else Inl (OutOfRange ''validBits.at''))"

section \<open>Abstraction and invariant\<close>

text \<open>
  Every unit of every page is erased, holds the page of an LPN, or held one that has been
  invalidated. Outside the block's pages and units the view is \<open>Erased\<close>.
\<close>

datatype unit_state = Erased | Valid u64 | Invalid

definition block_valid :: "block \<Rightarrow> nat \<Rightarrow> nat \<Rightarrow> bool" where
  "block_valid b p i = (if blkIoUnit b = 1 then Bitset_test (pValidBits b) p else Bitset_test (validBits b ! p) i)"

definition block_erased :: "block \<Rightarrow> nat \<Rightarrow> nat \<Rightarrow> bool" where
  "block_erased b p i = (if blkIoUnit b = 1 then Bitset_test (pErasedBits b) p else Bitset_test (erasedBits b ! p) i)"

definition block_lpn :: "block \<Rightarrow> nat \<Rightarrow> nat \<Rightarrow> u64" where
  "block_lpn b p i = (if blkIoUnit b = 1 then pLPNs b ! p else ppLPNs b ! p ! i)"

definition block_view :: "block \<Rightarrow> nat \<times> nat \<Rightarrow> unit_state" where
  "block_view b = (\<lambda>(p, i).
     if p < blkPageCount b \<and> i < blkIoUnit b then
       if block_erased b p i then Erased
       else if block_valid b p i then Valid (block_lpn b p i) else Invalid
     else Erased)"

definition block_next :: "block \<Rightarrow> nat \<Rightarrow> nat" where
  "block_next b i = (if i < blkIoUnit b then pNextWritePageIndex b ! i else 0)"

definition block_layout :: "block \<Rightarrow> bool" where
  "block_layout b \<longleftrightarrow>
     0 < blkPageCount b \<and> 0 < blkIoUnit b \<and> length (pNextWritePageIndex b) = blkIoUnit b \<and>
     (if blkIoUnit b = 1 then
        Bitset_wf (pValidBits b) \<and> dataSize (pValidBits b) = blkPageCount b \<and>
        Bitset_wf (pErasedBits b) \<and> dataSize (pErasedBits b) = blkPageCount b \<and>
        length (pLPNs b) = blkPageCount b
      else
        length (validBits b) = blkPageCount b \<and> length (erasedBits b) = blkPageCount b \<and>
        length (ppLPNs b) = blkPageCount b \<and>
        (\<forall>p<blkPageCount b.
           Bitset_wf (validBits b ! p) \<and> dataSize (validBits b ! p) = blkIoUnit b \<and>
           Bitset_wf (erasedBits b ! p) \<and> dataSize (erasedBits b ! p) = blkIoUnit b \<and>
           length (ppLPNs b ! p) = blkIoUnit b))"

definition Block_inv :: "block \<Rightarrow> bool" where
  "Block_inv b \<longleftrightarrow>
     block_layout b \<and>
     (\<forall>p<blkPageCount b. \<forall>i<blkIoUnit b. block_valid b p i \<longrightarrow> \<not> block_erased b p i) \<and>
     (\<forall>i<blkIoUnit b. block_next b i \<le> blkPageCount b \<and>
        (\<forall>p<blkPageCount b. block_next b i \<le> p \<longrightarrow> block_erased b p i))"


section \<open>The effect of every operation on the view\<close>

text \<open>What no operation but \<open>erase\<close> changes.\<close>

definition block_frame :: "block \<Rightarrow> block \<Rightarrow> bool" where
  "block_frame b b' \<longleftrightarrow> blkIdx b' = blkIdx b \<and> blkPageCount b' = blkPageCount b \<and> blkIoUnit b' = blkIoUnit b \<and>
     eraseCount b' = eraseCount b"

lemma Block_inv_layout: "Block_inv b \<Longrightarrow> block_layout b"
  by (simp add: Block_inv_def)

lemma layout_bits:
  assumes "block_layout b" "p < blkPageCount b"
  shows "blkIoUnit b = 1 \<Longrightarrow> Bitset_wf (pValidBits b) \<and> Bitset_wf (pErasedBits b) \<and> p < dataSize (pValidBits b) \<and>
           p < dataSize (pErasedBits b) \<and> p < length (pLPNs b)"
    and "blkIoUnit b \<noteq> 1 \<Longrightarrow> Bitset_wf (validBits b ! p) \<and> Bitset_wf (erasedBits b ! p) \<and> p < length (validBits b) \<and>
           p < length (erasedBits b) \<and> p < length (ppLPNs b) \<and> length (ppLPNs b ! p) = blkIoUnit b \<and>
           dataSize (validBits b ! p) = blkIoUnit b \<and> dataSize (erasedBits b ! p) = blkIoUnit b"
  using assms by (auto simp: block_layout_def)

lemma testBit_valid:
  assumes "block_layout b" "p < blkPageCount b" "i < blkIoUnit b"
  shows "Block_testBit (pValidBits b) (validBits b) b p i = Inr (block_valid b p i)"
  using assms layout_bits [OF assms(1,2)]
  by (cases "blkIoUnit b = 1") (auto simp: Block_testBit_def block_valid_def Bitset_in_range)

lemma testBit_erased:
  assumes "block_layout b" "p < blkPageCount b" "i < blkIoUnit b"
  shows "Block_testBit (pErasedBits b) (erasedBits b) b p i = Inr (block_erased b p i)"
  using assms layout_bits [OF assms(1,2)]
  by (cases "blkIoUnit b = 1") (auto simp: Block_testBit_def block_erased_def Bitset_in_range)

lemma block_view_cases:
  "Block_inv b \<Longrightarrow> p < blkPageCount b \<Longrightarrow> i < blkIoUnit b \<Longrightarrow>
   block_view b (p, i) = (if block_erased b p i then Erased
     else if block_valid b p i then Valid (block_lpn b p i) else Invalid)"
  by (simp add: block_view_def)

lemma block_valid_view:
  "Block_inv b \<Longrightarrow> p < blkPageCount b \<Longrightarrow> i < blkIoUnit b \<Longrightarrow>
   block_valid b p i \<longleftrightarrow> block_view b (p, i) = Valid (block_lpn b p i)"
  by (auto simp: block_view_def Block_inv_def)

text \<open>Equality of views, and the invariant, from the three accessors.\<close>

lemma block_view_eqI:
  assumes "blkPageCount b' = blkPageCount b" "blkIoUnit b' = blkIoUnit b"
    and "\<And>p i. p < blkPageCount b \<Longrightarrow> i < blkIoUnit b \<Longrightarrow> block_view b' (p, i) = v (p, i)"
    and "\<And>p i. \<not> (p < blkPageCount b \<and> i < blkIoUnit b) \<Longrightarrow> v (p, i) = Erased"
  shows "block_view b' = v"
proof
  fix x show "block_view b' x = v x"
  proof (cases x)
    case (Pair p i)
    with assms show ?thesis
      by (cases "p < blkPageCount b \<and> i < blkIoUnit b") (auto simp: block_view_def)
  qed
qed

lemma block_view_outside: "\<not> (p < blkPageCount b \<and> i < blkIoUnit b) \<Longrightarrow> block_view b (p, i) = Erased"
  by (auto simp: block_view_def)

lemma write_layout:
  assumes L: "block_layout b" and p: "p < blkPageCount b" and i: "i < blkIoUnit b"
    and b': "b' = (if blkIoUnit b = 1 then
                b\<lparr>pErasedBits := Bitset_reset (pErasedBits b) p, pValidBits := Bitset_set (pValidBits b) p,
                  pLPNs := (pLPNs b)[p := lpn]\<rparr>
              else
                b\<lparr>erasedBits := (erasedBits b)[p := Bitset_reset (erasedBits b ! p) i],
                  validBits := (validBits b)[p := Bitset_set (validBits b ! p) i],
                  ppLPNs := (ppLPNs b)[p := (ppLPNs b ! p)[i := lpn]]\<rparr>)"
  shows "block_layout b'"
    and "q < blkPageCount b \<Longrightarrow> j < blkIoUnit b \<Longrightarrow>
      block_valid b' q j = ((q, j) = (p, i) \<or> block_valid b q j) \<and>
      block_erased b' q j = ((q, j) \<noteq> (p, i) \<and> block_erased b q j) \<and>
      block_lpn b' q j = (if (q, j) = (p, i) then lpn else block_lpn b q j)"
proof -
  show "block_layout b'"
    using L p i layout_bits [OF L p] unfolding b'
    by (cases "blkIoUnit b = 1") (auto simp: block_layout_def nth_list_update bv.reset bv.set_to)
  assume q: "q < blkPageCount b" and j: "j < blkIoUnit b"
  show "block_valid b' q j = ((q, j) = (p, i) \<or> block_valid b q j) \<and>
      block_erased b' q j = ((q, j) \<noteq> (p, i) \<and> block_erased b q j) \<and>
      block_lpn b' q j = (if (q, j) = (p, i) then lpn else block_lpn b q j)"
  proof (cases "blkIoUnit b = 1")
    case True
    then show ?thesis
      using layout_bits(1) [OF L p True] layout_bits(1) [OF L q True] i j
      by (auto simp: b' block_valid_def block_erased_def block_lpn_def bv.test_set_to bv.test_reset nth_list_update)
  next
    case False
    then show ?thesis
      using layout_bits(2) [OF L p False] layout_bits(2) [OF L q False] i j
      by (auto simp: b' block_valid_def block_erased_def block_lpn_def bv.test_set_to bv.test_reset nth_list_update)
  qed
qed

lemma Block_write_erased:
  assumes I: "Block_inv b" and p: "p < blkPageCount b" and i: "i < blkIoUnit b"
    and e: "block_view b (p, i) = Erased" and seq: "block_next b i \<le> p"
  shows "\<exists>b'. Block_write b p lpn i t = Inr (True, b') \<and> Block_inv b' \<and> block_frame b b' \<and>
     block_view b' = (block_view b)((p, i) := Valid lpn) \<and> block_next b' = (block_next b)(i := Suc p)"
proof -
  have L: "block_layout b" using I by (rule Block_inv_layout)
  have er: "block_erased b p i"
    using e p i by (auto simp: block_view_cases [OF I p i] split: if_splits)
  define b1 where "b1 = (if blkIoUnit b = 1 then
                b\<lparr>pErasedBits := Bitset_reset (pErasedBits b) p, pValidBits := Bitset_set (pValidBits b) p,
                  pLPNs := (pLPNs b)[p := lpn]\<rparr>
              else
                b\<lparr>erasedBits := (erasedBits b)[p := Bitset_reset (erasedBits b ! p) i],
                  validBits := (validBits b)[p := Bitset_set (validBits b ! p) i],
                  ppLPNs := (ppLPNs b)[p := (ppLPNs b ! p)[i := lpn]]\<rparr>)"
  define b' where "b' = b1\<lparr>blkLastAccessed := t, pNextWritePageIndex := (pNextWritePageIndex b)[i := p + 1]\<rparr>"
  have W1: "block_layout b1" using write_layout(1) [OF L p i b1_def] .
  have W2: "block_valid b1 q j = ((q, j) = (p, i) \<or> block_valid b q j)"
    "block_erased b1 q j = ((q, j) \<noteq> (p, i) \<and> block_erased b q j)"
    "block_lpn b1 q j = (if (q, j) = (p, i) then lpn else block_lpn b q j)"
    if "q < blkPageCount b" "j < blkIoUnit b" for q j
    using write_layout(2) [OF L p i b1_def that] by blast+
  have b1: "blkIdx b1 = blkIdx b" "blkPageCount b1 = blkPageCount b" "blkIoUnit b1 = blkIoUnit b"
    "eraseCount b1 = eraseCount b" "pNextWritePageIndex b1 = pNextWritePageIndex b" "blkLastAccessed b1 = blkLastAccessed b"
    by (auto simp: b1_def)
  have ns: "\<not> p < pNextWritePageIndex b ! i" using seq i by (simp add: block_next_def)
  have "Block_write b p lpn i t = Inr (True, b')"
    unfolding Block_write_def testBit_erased [OF L p i]
    using er ns by (simp add: b'_def b1_def Let_def)
  moreover have acc: "block_valid b' q j = block_valid b1 q j" "block_erased b' q j = block_erased b1 q j"
    "block_lpn b' q j = block_lpn b1 q j" for q j
    by (simp_all add: b'_def block_valid_def block_erased_def block_lpn_def)
  moreover have b'f: "blkPageCount b' = blkPageCount b" "blkIoUnit b' = blkIoUnit b"
    by (simp_all add: b'_def b1)
  moreover have fr: "block_frame b b'" by (simp add: block_frame_def b'_def b1)
  moreover have nx: "block_next b' = (block_next b)(i := Suc p)"
    using i L by (auto simp: block_next_def b'_def b1 block_layout_def nth_list_update)
  moreover have "block_layout b'"
    using W1 L by (simp add: b'_def b1 block_layout_def)
  moreover have view: "block_view b' = (block_view b)((p, i) := Valid lpn)"
    using p i by (intro block_view_eqI [of b' b]) (auto simp: b'f block_view_def acc W2)
  moreover have "Block_inv b'"
    using I p \<open>block_layout b'\<close> seq
    by (auto simp: Block_inv_def nx acc b'f W2)
  ultimately show ?thesis by blast
qed

text \<open>The two panics of \<open>write\<close> are exactly the writes out of order and on a unit that is not erased.\<close>

lemma Block_write_panics:
  assumes I: "Block_inv b" and p: "p < blkPageCount b" and i: "i < blkIoUnit b"
  shows "block_view b (p, i) \<noteq> Erased \<Longrightarrow> Block_write b p lpn i t = Inl (Panic ''Write to non erased page'')"
    and "block_view b (p, i) = Erased \<Longrightarrow> p < block_next b i \<Longrightarrow>
           Block_write b p lpn i t = Inl (Panic ''Write to block should sequential'')"
  using testBit_erased [OF Block_inv_layout [OF I] p i] i
  by (auto simp: Block_write_def block_view_cases [OF I p i] block_next_def split: if_splits)

lemma Block_invalidate_unit:
  assumes I: "Block_inv b" and p: "p < blkPageCount b" and i: "i < blkIoUnit b"
  shows "\<exists>b'. Block_invalidate b p i = Inr b' \<and> Block_inv b' \<and> block_frame b b' \<and>
     block_view b' = (block_view b)((p, i) := (if block_view b (p, i) = Erased then Erased else Invalid)) \<and>
     block_next b' = block_next b \<and> blkLastAccessed b' = blkLastAccessed b"
proof -
  have L: "block_layout b" using I by (rule Block_inv_layout)
  define b' where "b' = (if blkIoUnit b = 1 then b\<lparr>pValidBits := Bitset_reset (pValidBits b) p\<rparr>
    else b\<lparr>validBits := (validBits b)[p := Bitset_reset (validBits b ! p) i]\<rparr>)"
  have b': "blkIdx b' = blkIdx b" "blkPageCount b' = blkPageCount b" "blkIoUnit b' = blkIoUnit b"
    "eraseCount b' = eraseCount b" "pNextWritePageIndex b' = pNextWritePageIndex b" "blkLastAccessed b' = blkLastAccessed b"
    by (auto simp: b'_def)
  have eq: "Block_invalidate b p i = Inr b'"
    using layout_bits [OF L p] i
    by (cases "blkIoUnit b = 1") (auto simp: Block_invalidate_def b'_def Bitset_in_range)
  have acc: "block_erased b' q j = block_erased b q j" "block_lpn b' q j = block_lpn b q j" for q j
    by (simp_all add: b'_def block_erased_def block_lpn_def)
  have v: "block_valid b' q j = ((q, j) \<noteq> (p, i) \<and> block_valid b q j)" if "q < blkPageCount b" "j < blkIoUnit b" for q j
    using layout_bits [OF L p] layout_bits [OF L that(1)] that i
    by (cases "blkIoUnit b = 1") (auto simp: b'_def block_valid_def bv.test_reset nth_list_update)
  have lay: "block_layout b'"
    using L layout_bits [OF L p] p i
    by (cases "blkIoUnit b = 1") (auto simp: b'_def block_layout_def nth_list_update bv.reset)
  have nx: "block_next b' = block_next b" by (auto simp: block_next_def b')
  have "Block_inv b'"
    using I lay v by (auto simp: Block_inv_def nx acc b')
  moreover have "block_view b' = (block_view b)((p, i) := (if block_view b (p, i) = Erased then Erased else Invalid))"
    using p i by (intro block_view_eqI [of b' b]) (auto simp: b' block_view_def acc v)
  ultimately show ?thesis using eq nx b' by (auto simp: block_frame_def)
qed

lemma Block_erase_block:
  assumes I: "block_layout b"
  shows "Block_inv (Block_erase b)" "block_view (Block_erase b) = (\<lambda>_. Erased)" "block_next (Block_erase b) = (\<lambda>_. 0)"
    "blkIdx (Block_erase b) = blkIdx b" "blkPageCount (Block_erase b) = blkPageCount b"
    "blkIoUnit (Block_erase b) = blkIoUnit b" "eraseCount (Block_erase b) = (eraseCount b + 1) mod 2 ^ 32"
    "Block_getValidPageCount (Block_erase b) = 0"
proof -
  show fr: "blkIdx (Block_erase b) = blkIdx b" "blkPageCount (Block_erase b) = blkPageCount b"
    "blkIoUnit (Block_erase b) = blkIoUnit b" "eraseCount (Block_erase b) = (eraseCount b + 1) mod 2 ^ 32"
    by (simp_all add: Block_erase_def Let_def)
  have e: "block_erased (Block_erase b) p i" "\<not> block_valid (Block_erase b) p i"
    if "p < blkPageCount b" "i < blkIoUnit b" for p i
    using layout_bits [OF I that(1)] that
    by (cases "blkIoUnit b = 1";
        simp add: Block_erase_def Let_def block_erased_def block_valid_def bv.test_set_all bv.test_reset_all)+
  have lay: "block_layout (Block_erase b)"
    using I by (cases "blkIoUnit b = 1")
      (auto simp: block_layout_def Block_erase_def Let_def bv.set_all bv.reset_all)
  show nx: "block_next (Block_erase b) = (\<lambda>_. 0)"
    by (auto simp: block_next_def Block_erase_def Let_def)
  show "Block_inv (Block_erase b)"
    using lay e by (auto simp: Block_inv_def nx fr)
  show "block_view (Block_erase b) = (\<lambda>_. Erased)"
    using e by (auto simp: block_view_def fr fun_eq_iff)
  show "Block_getValidPageCount (Block_erase b) = 0"
  proof (cases "blkIoUnit b = 1")
    case True
    then have "Bitset_wf (pValidBits b)" using I by (simp add: block_layout_def)
    with True show ?thesis
      using bv.reset_all [of "pValidBits b"] bv.count [of "Bitset_reset_all (pValidBits b)"]
      by (simp add: Block_getValidPageCount_def Block_erase_def Let_def filter_empty_conv)
  next
    case False
    have "foldl (\<lambda>ret it. if Bitset_any it then ret + 1 else ret) (0::nat) xs = 0" if "\<forall>x\<in>set xs. \<not> Bitset_any x" for xs
      using that by (induction xs) auto
    moreover have "\<not> Bitset_any (Bitset_reset_all x)" if "x \<in> set (validBits b)" for x
      using I False that bv.any [of "Bitset_reset_all x"] bv.reset_all [of x]
      by (auto simp: block_layout_def in_set_conv_nth)
    ultimately show ?thesis
      using False by (simp add: Block_getValidPageCount_def Block_erase_def Let_def)
  qed
qed

lemma Block_read_unit:
  assumes I: "Block_inv b" and p: "p < blkPageCount b" and i: "i < blkIoUnit b"
  shows "\<exists>b' r. Block_read b p i t = Inr (r, b') \<and> Block_inv b' \<and> block_frame b b' \<and> block_view b' = block_view b \<and>
     block_next b' = block_next b \<and> (r \<longleftrightarrow> (\<exists>lpn. block_view b (p, i) = Valid lpn)) \<and>
     blkLastAccessed b' = (if r then t else blkLastAccessed b)"
proof -
  have L: "block_layout b" using I by (rule Block_inv_layout)
  let ?b = "b\<lparr>blkLastAccessed := t\<rparr>"
  have acc: "block_valid ?b = block_valid b" "block_erased ?b = block_erased b" "block_lpn ?b = block_lpn b"
    "block_next ?b = block_next b" "block_layout ?b = block_layout b"
    by (auto simp: block_valid_def block_erased_def block_lpn_def block_next_def block_layout_def fun_eq_iff)
  have "block_view ?b = block_view b" "Block_inv ?b"
    using I by (auto simp: block_view_def acc Block_inv_def)
  moreover have "block_valid b p i \<longleftrightarrow> (\<exists>lpn. block_view b (p, i) = Valid lpn)"
    using I p i by (auto simp: block_view_def Block_inv_def)
  ultimately show ?thesis
    using I by (simp add: Block_read_def testBit_valid [OF L p i] block_frame_def acc)
qed

lemma Block_new_block:
  assumes "0 < count" "0 < ioUnit"
  shows "\<exists>b. Block_new n count ioUnit = Inr b \<and> Block_inv b \<and> block_view b = (\<lambda>_. Erased) \<and> block_next b = (\<lambda>_. 0) \<and>
     blkIdx b = n \<and> blkPageCount b = count \<and> blkIoUnit b = ioUnit \<and> eraseCount b = 0 \<and> blkLastAccessed b = 0"
proof -
  define b0 where "b0 = \<lparr>blkIdx = n, blkPageCount = count, blkIoUnit = ioUnit, pNextWritePageIndex = replicate ioUnit 0,
       pValidBits = (if ioUnit = 1 then Bitset_new count else Bitset_new 0),
       pErasedBits = (if ioUnit = 1 then Bitset_new count else Bitset_new 0),
       pLPNs = (if ioUnit = 1 then replicate count 0 else []),
       validBits = (if ioUnit = 1 then [] else replicate count (Bitset_new ioUnit)),
       erasedBits = (if ioUnit = 1 then [] else replicate count (Bitset_new ioUnit)),
       ppLPNs = (if ioUnit = 1 then [] else replicate count (replicate ioUnit 0)),
       blkLastAccessed = 0, eraseCount = 0\<rparr>"
  have L: "block_layout b0" using assms by (auto simp: b0_def block_layout_def Bitset_new_wf)
  define b where "b = Block_erase b0\<lparr>eraseCount := 0\<rparr>"
  have "Block_new n count ioUnit = Inr b"
    using assms by (cases "ioUnit = 1") (simp_all add: Block_new_def b_def b0_def Let_def)
  moreover have "block_view b = block_view (Block_erase b0)" "block_next b = block_next (Block_erase b0)"
    "Block_inv b = Block_inv (Block_erase b0)"
    by (auto simp: b_def block_view_def block_next_def Block_inv_def block_layout_def block_erased_def
        block_valid_def block_lpn_def)
  moreover have "blkIdx b = n" "blkPageCount b = count" "blkIoUnit b = ioUnit" "eraseCount b = 0" "blkLastAccessed b = 0"
    by (simp_all add: b_def Block_erase_def Let_def b0_def)
  ultimately show ?thesis using Block_erase_block [OF L] by auto
qed

lemma foldl_count: "foldl (\<lambda>ret it. if P it then ret + 1 else ret) (n::nat) xs = n + length (filter P xs)"
  by (induction xs arbitrary: n) auto

text \<open>The valid page count is the number of pages with a valid unit.\<close>

lemma Block_getValidPageCount_card:
  assumes I: "Block_inv b"
  shows "Block_getValidPageCount b =
     card {p. p < blkPageCount b \<and> (\<exists>i<blkIoUnit b. \<exists>lpn. block_view b (p, i) = Valid lpn)}"
proof -
  have L: "block_layout b" using I by (rule Block_inv_layout)
  have v: "(\<exists>lpn. block_view b (p, i) = Valid lpn) \<longleftrightarrow> block_valid b p i"
    if "p < blkPageCount b" "i < blkIoUnit b" for p i
    using I that by (auto simp: block_view_def Block_inv_def)
  have "Block_getValidPageCount b = card {p. p < blkPageCount b \<and> (\<exists>i<blkIoUnit b. block_valid b p i)}"
  proof (cases "blkIoUnit b = 1")
    case True
    then show ?thesis using L bv.count_test [of "pValidBits b"]
      by (auto simp: Block_getValidPageCount_def block_layout_def block_valid_def)
  next
    case False
    then have "Bitset_any (validBits b ! p) \<longleftrightarrow> (\<exists>i<blkIoUnit b. block_valid b p i)" if "p < blkPageCount b" for p
      using layout_bits(2) [OF L that False] bv.any_test [of "validBits b ! p"] by (simp add: block_valid_def)
    with False L show ?thesis
      by (simp add: Block_getValidPageCount_def foldl_count length_filter_conv_card block_layout_def cong: conj_cong)
  qed
  also have "{p. p < blkPageCount b \<and> (\<exists>i<blkIoUnit b. block_valid b p i)} =
      {p. p < blkPageCount b \<and> (\<exists>i<blkIoUnit b. \<exists>lpn. block_view b (p, i) = Valid lpn)}"
    using v by blast
  finally show ?thesis .
qed

lemma Block_getValidPageCount_0:
  assumes I: "Block_inv b"
  shows "Block_getValidPageCount b = 0 \<longleftrightarrow> (\<forall>x lpn. block_view b x \<noteq> Valid lpn)"
proof -
  have "block_view b (p, i) \<noteq> Valid lpn" if "\<not> (p < blkPageCount b \<and> i < blkIoUnit b)" for p i lpn
    using block_view_outside [OF that] by simp
  then have "(\<forall>x lpn. block_view b x \<noteq> Valid lpn) \<longleftrightarrow>
      {p. p < blkPageCount b \<and> (\<exists>i<blkIoUnit b. \<exists>lpn. block_view b (p, i) = Valid lpn)} = {}"
    by (simp add: split_paired_all) blast
  then show ?thesis by (simp add: Block_getValidPageCount_card [OF I])
qed

lemma Block_getNextWritePageIndex_max:
  assumes "block_layout b"
  shows "block_next b i \<le> Block_getNextWritePageIndex b"
    "Block_getNextWritePageIndex b = 0 \<or> (\<exists>i<blkIoUnit b. Block_getNextWritePageIndex b = block_next b i)"
proof -
  define f where "f n = foldl (\<lambda>r i. if r < pNextWritePageIndex b ! i then pNextWritePageIndex b ! i else r) 0 [0..<n]" for n
  have "\<forall>i<n. pNextWritePageIndex b ! i \<le> f n" for n
    by (induction n) (auto simp: f_def less_Suc_eq intro: order_trans less_imp_le)
  then show "block_next b i \<le> Block_getNextWritePageIndex b"
    by (simp add: block_next_def Block_getNextWritePageIndex_def f_def)
  have "f n = 0 \<or> (\<exists>i<n. f n = pNextWritePageIndex b ! i)" for n
    by (induction n) (auto simp: f_def less_Suc_eq)
  then show "Block_getNextWritePageIndex b = 0 \<or> (\<exists>i<blkIoUnit b. Block_getNextWritePageIndex b = block_next b i)"
    using assms by (auto simp: block_next_def Block_getNextWritePageIndex_def f_def block_layout_def)
qed

lemma Block_getNextWritePageIndex_le: "Block_inv b \<Longrightarrow> Block_getNextWritePageIndex b \<le> blkPageCount b"
  using Block_getNextWritePageIndex_max(2) [of b] by (auto simp: Block_inv_def)

lemma Block_getNextWritePageIndexAt_next:
  "block_layout b \<Longrightarrow> i < blkIoUnit b \<Longrightarrow> Block_getNextWritePageIndexAt b i = Inr (block_next b i)"
  by (simp add: Block_getNextWritePageIndexAt_def block_next_def block_layout_def)

text \<open>The page information on a block with several units per page is exact.\<close>

lemma Block_getPageInfo_exact:
  assumes I: "Block_inv b" and p: "p < blkPageCount b" and m: "Bitset_size m = blkIoUnit b" and io: "blkIoUnit b \<noteq> 1"
  shows "\<exists>lpns bit. Block_getPageInfo b p m = Inr (\<exists>i<blkIoUnit b. Bitset_test bit i, lpns, bit) \<and>
     Bitset_wf bit \<and> dataSize bit = blkIoUnit b \<and> length lpns = blkIoUnit b \<and>
     (\<forall>i<blkIoUnit b. \<forall>lpn. block_view b (p, i) = Valid lpn \<longleftrightarrow> Bitset_test bit i \<and> lpn = lpns ! i)"
proof -
  have L: "block_layout b" using I by (rule Block_inv_layout)
  note B = layout_bits(2) [OF L p io]
  have v: "block_view b (p, i) = Valid lpn \<longleftrightarrow> Bitset_test (validBits b ! p) i \<and> lpn = ppLPNs b ! p ! i"
    if "i < blkIoUnit b" for i lpn
    using I p that io by (auto simp: block_view_cases Block_inv_def block_valid_def block_lpn_def)
  have "Bitset_any (validBits b ! p) \<longleftrightarrow> (\<exists>i<blkIoUnit b. Bitset_test (validBits b ! p) i)"
    using B bv.any_test [of "validBits b ! p"] by simp
  then have "Block_getPageInfo b p m = Inr (\<exists>i<blkIoUnit b. Bitset_test (validBits b ! p) i, ppLPNs b ! p, validBits b ! p)"
    using B m io by (simp add: Block_getPageInfo_def Let_def)
  with v B show ?thesis by blast
qed

text \<open>With one unit per page the returned map is full, whatever the state of the page.\<close>

lemma Block_getPageInfo_single:
  assumes "block_layout b" "blkIoUnit b = 1" "p < blkPageCount b" "Bitset_wf m" "dataSize m = 1"
  shows "Block_getPageInfo b p m = Inr (True, [pLPNs b ! p], Bitset_set_all m)"
proof -
  have "Bitset_any (Bitset_set_all m)"
    using assms bv.any_test [of "Bitset_set_all m"] bv.set_all [of m] bv.test_set_all [of m 0] by auto
  then show ?thesis
    using assms by (simp add: Block_getPageInfo_def block_layout_def Bitset_size_def)
qed

section \<open>The interface\<close>

text \<open>
  What the page mapping relies on: units of a block are programmed in page order, an
  invalidated unit stays unusable until the block is erased, and nothing else moves.
\<close>

locale flash_block =
  fixes invar :: "'b \<Rightarrow> bool" and view :: "'b \<Rightarrow> nat \<times> nat \<Rightarrow> unit_state" and nxt :: "'b \<Rightarrow> nat \<Rightarrow> nat"
    and pages :: "'b \<Rightarrow> nat" and units :: "'b \<Rightarrow> nat" and frame :: "'b \<Rightarrow> 'b \<Rightarrow> bool"
    and program :: "'b \<Rightarrow> nat \<Rightarrow> u64 \<Rightarrow> nat \<Rightarrow> tick \<Rightarrow> (bool \<times> 'b) res"
    and invalidate :: "'b \<Rightarrow> nat \<Rightarrow> nat \<Rightarrow> 'b res" and erase :: "'b \<Rightarrow> 'b"
  assumes nxt_erased: "invar b \<Longrightarrow> i < units b \<Longrightarrow> p < pages b \<Longrightarrow> nxt b i \<le> p \<Longrightarrow> view b (p, i) = Erased"
    and program: "invar b \<Longrightarrow> i < units b \<Longrightarrow> p < pages b \<Longrightarrow> nxt b i \<le> p \<Longrightarrow>
      \<exists>b'. program b p lpn i t = Inr (True, b') \<and> invar b' \<and> frame b b' \<and>
        view b' = (view b)((p, i) := Valid lpn) \<and> nxt b' = (nxt b)(i := Suc p)"
    and invalidate: "invar b \<Longrightarrow> i < units b \<Longrightarrow> p < pages b \<Longrightarrow>
      \<exists>b'. invalidate b p i = Inr b' \<and> invar b' \<and> frame b b' \<and> nxt b' = nxt b \<and>
        view b' = (view b)((p, i) := (if view b (p, i) = Erased then Erased else Invalid))"
    and erase: "invar b \<Longrightarrow> invar (erase b) \<and> view (erase b) = (\<lambda>_. Erased) \<and> nxt (erase b) = (\<lambda>_. 0) \<and>
      pages (erase b) = pages b \<and> units (erase b) = units b"
    and frame: "frame b b' \<Longrightarrow> pages b' = pages b \<and> units b' = units b"
    and frame_trans: "frame b b' \<Longrightarrow> frame b' b'' \<Longrightarrow> frame b b''"
    and frame_refl: "frame b b"
begin

text \<open>Programming the LPNs of a list one after the other on one unit stores them on consecutive pages.\<close>

lemma program_list:
  assumes "invar b" "i < units b" "nxt b i + length lpns \<le> pages b"
  shows "runs_to (foldR (\<lambda>lpn b. bindR (program b (nxt b i) lpn i t) (\<lambda>(_, b). Inr b)) lpns b)
    (\<lambda>b'. invar b' \<and> frame b b' \<and> nxt b' = (nxt b)(i := nxt b i + length lpns) \<and>
       view b' = (\<lambda>(p, j). if j = i \<and> nxt b i \<le> p \<and> p < nxt b i + length lpns then Valid (lpns ! (p - nxt b i))
                           else view b (p, j)))"
proof (rule foldR_runs_to_prefix [where I = "\<lambda>ys b'. invar b' \<and> frame b b' \<and> nxt b' = (nxt b)(i := nxt b i + length ys) \<and>
       view b' = (\<lambda>(p, j). if j = i \<and> nxt b i \<le> p \<and> p < nxt b i + length ys then Valid (ys ! (p - nxt b i))
                           else view b (p, j))"])
  show "invar b \<and> frame b b \<and> nxt b = (nxt b)(i := nxt b i + length []) \<and>
       view b = (\<lambda>(p, j). if j = i \<and> nxt b i \<le> p \<and> p < nxt b i + length [] then Valid ([] ! (p - nxt b i))
                           else view b (p, j))"
    using assms(1) frame_refl by (auto simp: fun_eq_iff)
next
  fix ys x zs c
  assume lp: "lpns = ys @ x # zs"
    and c: "invar c \<and> frame b c \<and> nxt c = (nxt b)(i := nxt b i + length ys) \<and>
       view c = (\<lambda>(p, j). if j = i \<and> nxt b i \<le> p \<and> p < nxt b i + length ys then Valid (ys ! (p - nxt b i))
                           else view b (p, j))"
  then have "i < units c" "nxt c i < pages c" using assms frame [of b c] by auto
  with c program [of c i "nxt c i" x t] obtain d where
    d: "program c (nxt c i) x i t = Inr (True, d)" "invar d" "frame c d"
      "view d = (view c)((nxt c i, i) := Valid x)" "nxt d = (nxt c)(i := Suc (nxt c i))"
    by blast
  show "runs_to (bindR (program c (nxt c i) x i t) (\<lambda>(_, b). Inr b)) (\<lambda>b'. invar b' \<and> frame b b' \<and>
       nxt b' = (nxt b)(i := nxt b i + length (ys @ [x])) \<and>
       view b' = (\<lambda>(p, j). if j = i \<and> nxt b i \<le> p \<and> p < nxt b i + length (ys @ [x])
                           then Valid ((ys @ [x]) ! (p - nxt b i)) else view b (p, j)))"
  proof -
    have "view d = (\<lambda>(p, j). if j = i \<and> nxt b i \<le> p \<and> p < nxt b i + length (ys @ [x])
                           then Valid ((ys @ [x]) ! (p - nxt b i)) else view b (p, j))"
    proof
      fix y show "view d y = (case y of (p, j) \<Rightarrow> if j = i \<and> nxt b i \<le> p \<and> p < nxt b i + length (ys @ [x])
                           then Valid ((ys @ [x]) ! (p - nxt b i)) else view b (p, j))"
        using c d(4) by (cases y) (auto simp: nth_append)
    qed
    moreover have "frame b d" using c d(3) frame_trans by blast
    moreover have "nxt d = (nxt b)(i := nxt b i + length (ys @ [x]))" using c d(5) by auto
    ultimately show ?thesis using d(1,2) by simp
  qed
qed

text \<open>Programming and invalidating never make a written unit writable again.\<close>

lemma program_keeps_written:
  assumes "invar b" "i < units b" "p < pages b" "nxt b i \<le> p" "program b p lpn i t = Inr (r, b')"
    and "view b x \<noteq> Erased"
  shows "view b' x = view b x"
  using assms program [of b i p lpn t] nxt_erased [of b i p] by auto

lemma invalidate_keeps_written:
  assumes "invar b" "i < units b" "p < pages b" "invalidate b p i = Inr b'"
  shows "view b' x = Erased \<longleftrightarrow> view b x = Erased"
  using assms invalidate [of b i p] by (auto split: if_splits)

end

lemma block_next_erased:
  "Block_inv b \<Longrightarrow> i < blkIoUnit b \<Longrightarrow> p < blkPageCount b \<Longrightarrow> block_next b i \<le> p \<Longrightarrow> block_view b (p, i) = Erased"
  by (simp add: block_view_def Block_inv_def)

interpretation fb: flash_block Block_inv block_view block_next blkPageCount blkIoUnit block_frame
  Block_write Block_invalidate Block_erase
proof unfold_locales
  fix b i p lpn t
  assume I: "Block_inv b" and i: "i < blkIoUnit b" and p: "p < blkPageCount b"
  show "block_next b i \<le> p \<Longrightarrow> block_view b (p, i) = Erased"
    using I i p by (rule block_next_erased)
  show "block_next b i \<le> p \<Longrightarrow> \<exists>b'. Block_write b p lpn i t = Inr (True, b') \<and> Block_inv b' \<and> block_frame b b' \<and>
        block_view b' = (block_view b)((p, i) := Valid lpn) \<and> block_next b' = (block_next b)(i := Suc p)"
    using Block_write_erased [OF I p i block_next_erased [OF I i p]] .
  show "\<exists>b'. Block_invalidate b p i = Inr b' \<and> Block_inv b' \<and> block_frame b b' \<and> block_next b' = block_next b \<and>
        block_view b' = (block_view b)((p, i) := (if block_view b (p, i) = Erased then Erased else Invalid))"
    using Block_invalidate_unit [OF I p i] by blast
qed (auto simp: Block_erase_block Block_inv_layout block_frame_def)

end
