(* ===== verification/Device.thy ===== *)
theory Device
  imports Bitset
begin

text \<open>
  The requests that travel between the layers (\<^verbatim>\<open>util/def.hh\<close>, \<^verbatim>\<open>util/def.cc\<close>) and
  the services a layer calls below itself. A layer holds pointers to the flash array
  (\<^verbatim>\<open>PAL::PAL\<close>), the controller DRAM (\<^verbatim>\<open>DRAM::AbstractDRAM\<close>) and the CPU model
  (\<^verbatim>\<open>applyLatency\<close>); all of them are called through virtual functions or globals, keep
  their own state and move the caller's tick. The model passes them as a record of
  functions over a state \<open>'w\<close> of their own, so that every statement about a layer holds
  for all of their implementations.
\<close>

section \<open>Requests\<close>

record lpn_range =
  slpn :: u64
  nlp :: u64

record icl_request =
  icReqID :: u64
  icReqSubID :: u64
  icOffset :: u64
  icLength :: u64
  icRange :: lpn_range
  icUserID :: u32
  icPrio :: u32

datatype op_type = OP_READ | OP_WRITE | OP_FLUSH | OP_COMPARE | OP_DATASET_MGMT | OP_ISC_SET | OP_ISC_GET
  | OP_CREDIT_ONLY | OP_ISC_RESULT

text \<open>
  The host request. Its completion function, the pointers to the namespace and the context,
  and the fields kept for a deferral that no code reads are left out.
\<close>

record hil_request =
  hrReqID :: u64
  hrReqSubID :: u64
  hrOffset :: u64
  hrLength :: u64
  hrRange :: lpn_range
  hrUserID :: u32
  hrPrio :: u32
  hrOp :: op_type
  hrFinishedAt :: tick

record ftl_request =
  frReqID :: u64
  frReqSubID :: u64
  frLpn :: u64
  frIoFlag :: bitset
  frIclReq :: icl_request

record pal_request =
  prReqID :: u64
  prReqSubID :: u64
  prBlockIndex :: nat
  prPageIndex :: nat
  prIoFlag :: bitset
  prFtlReq :: ftl_request

definition ICL_Request_new :: icl_request where
  "ICL_Request_new = \<lparr>icReqID = 0, icReqSubID = 0, icOffset = 0, icLength = 0,
     icRange = \<lparr>slpn = 0, nlp = 0\<rparr>, icUserID = 0, icPrio = 0\<rparr>"

definition HIL_Request_new :: hil_request where
  "HIL_Request_new = \<lparr>hrReqID = 0, hrReqSubID = 0, hrOffset = 0, hrLength = 0, hrRange = \<lparr>slpn = 0, nlp = 0\<rparr>,
     hrUserID = 0, hrPrio = 0, hrOp = OP_READ, hrFinishedAt = 0\<rparr>"

definition ICL_Request_hil :: "hil_request \<Rightarrow> icl_request" where
  "ICL_Request_hil r =
     \<lparr>icReqID = hrReqID r, icReqSubID = hrReqSubID r, icOffset = hrOffset r, icLength = hrLength r,
      icRange = hrRange r, icUserID = hrUserID r, icPrio = hrPrio r\<rparr>"

definition FTL_Request_new :: "nat \<Rightarrow> ftl_request" where
  "FTL_Request_new iocount = \<lparr>frReqID = 0, frReqSubID = 0, frLpn = 0, frIoFlag = Bitset_new iocount, frIclReq = ICL_Request_new\<rparr>"

definition FTL_Request_icl :: "nat \<Rightarrow> icl_request \<Rightarrow> ftl_request" where
  "FTL_Request_icl iocount r =
     \<lparr>frReqID = icReqID r, frReqSubID = icReqSubID r,
      frLpn = slpn (icRange r) div word_of_nat iocount,
      frIoFlag = Bitset_set (Bitset_new iocount) (unat (slpn (icRange r) mod word_of_nat iocount)),
      frIclReq = r\<rparr>"

definition PAL_Request_new :: "nat \<Rightarrow> pal_request" where
  "PAL_Request_new iocount =
     \<lparr>prReqID = 0, prReqSubID = 0, prBlockIndex = 0, prPageIndex = 0, prIoFlag = Bitset_new iocount,
      prFtlReq = FTL_Request_new 0\<rparr>"

definition PAL_Request_ftl :: "ftl_request \<Rightarrow> pal_request" where
  "PAL_Request_ftl r =
     \<lparr>prReqID = frReqID r, prReqSubID = frReqSubID r, prBlockIndex = 0, prPageIndex = 0, prIoFlag = frIoFlag r,
      prFtlReq = r\<rparr>"

section \<open>Services of the layers below\<close>

text \<open>The namespaces and functions of the CPU model's cost table that the modelled layers charge.\<close>

datatype cpu_namespace = NS_FTL | NS_FTL__PAGE_MAPPING | NS_ICL | NS_ICL__GENERIC_CACHE | NS_HIL | NS_FCFS_SCHEDULER

datatype cpu_function = FN_READ | FN_WRITE | FN_FLUSH | FN_TRIM | FN_FORMAT
  | FN_READ_INTERNAL | FN_WRITE_INTERNAL | FN_ERASE_INTERNAL | FN_TRIM_INTERNAL
  | FN_SELECT_VICTIM_BLOCK | FN_DO_GARBAGE_COLLECTION | FN_SCHEDULE

text \<open>
  Memory of the DRAM is addressed by host pointers that the DRAM model ignores, so its
  services take a size only. \<open>dRandom w lo hi\<close> draws from
  \<^verbatim>\<open>std::uniform_int_distribution(lo, hi)\<close>. \<open>dIterOrder w\<close> is the order in which an
  \<^verbatim>\<open>std::unordered_map\<close> keyed by block index is traversed: a list of indices of which the
  traversal visits those present.
\<close>

record 'w device =
  dPalRead :: "'w \<Rightarrow> pal_request \<Rightarrow> tick \<Rightarrow> 'w \<times> tick"
  dPalWrite :: "'w \<Rightarrow> pal_request \<Rightarrow> tick \<Rightarrow> 'w \<times> tick"
  dPalErase :: "'w \<Rightarrow> pal_request \<Rightarrow> tick \<Rightarrow> 'w \<times> tick"
  dDramRead :: "'w \<Rightarrow> u64 \<Rightarrow> tick \<Rightarrow> 'w \<times> tick"
  dDramWrite :: "'w \<Rightarrow> u64 \<Rightarrow> tick \<Rightarrow> 'w \<times> tick"
  dDramScheduling :: "'w \<Rightarrow> bool \<Rightarrow> 'w"
  dApplyLatency :: "'w \<Rightarrow> cpu_namespace \<Rightarrow> cpu_function \<Rightarrow> 'w \<times> tick"
  dRandom :: "'w \<Rightarrow> nat \<Rightarrow> nat \<Rightarrow> 'w \<times> nat"
  dIterOrder :: "'w \<Rightarrow> nat list"

end
