(* ===== verification/Fp.thy ===== *)
theory Fp
  imports Complex_Main Prelude
begin

text \<open>
  The floating-point arithmetic of the sources: \<^verbatim>\<open>float\<close> and \<^verbatim>\<open>double\<close> as IEEE 754
  binary32 and binary64 with round to nearest, ties to even. A finite value is a rational;
  every operation computes exactly and rounds once, with gradual underflow and overflow to
  infinity. The sign of zero is not represented: the modelled code never divides by a
  negative zero.
\<close>

datatype fl = Fin rat | PInf | NInf | NaN

text \<open>A format: precision in bits, exponent of the least subnormal, exponent bound of overflow.\<close>

type_synonym format = "nat \<times> int \<times> int"

definition f32 :: format where "f32 = (24, - 149, 128)"
definition f64 :: format where "f64 = (53, - 1074, 1024)"

fun nbits :: "nat \<Rightarrow> nat" where
  "nbits n = (if n = 0 then 0 else Suc (nbits (n div 2)))"

declare nbits.simps [simp del]

definition pow2 :: "int \<Rightarrow> rat" where
  "pow2 k = (if 0 \<le> k then 2 ^ nat k else 1 / 2 ^ nat (- k))"

text \<open>The floor of the binary logarithm of a positive rational.\<close>

definition ilog2 :: "rat \<Rightarrow> int" where
  "ilog2 x = (let (n, d) = quotient_of x;
                  k = int (nbits (nat n)) - int (nbits (nat d))
              in if pow2 k \<le> x then k else k - 1)"

definition round_even :: "rat \<Rightarrow> int" where
  "round_even x = (let f = \<lfloor>x\<rfloor>; r = x - of_int f
                   in if r < 1 / 2 then f else if 1 / 2 < r then f + 1 else if even f then f else f + 1)"

definition fround :: "format \<Rightarrow> rat \<Rightarrow> fl" where
  "fround fmt x =
     (case fmt of (prec, emin, emax) \<Rightarrow>
        if x = 0 then Fin 0
        else let e = max (ilog2 \<bar>x\<bar> - (int prec - 1)) emin;
                 y = of_int (round_even (x / pow2 e)) * pow2 e
             in if pow2 emax \<le> \<bar>y\<bar> then (if y > 0 then PInf else NInf) else Fin y)"

definition fl_of_nat :: "format \<Rightarrow> nat \<Rightarrow> fl" where
  "fl_of_nat fmt n = fround fmt (of_nat n)"

fun fl_neg :: "fl \<Rightarrow> fl" where
  "fl_neg (Fin x) = Fin (- x)"
| "fl_neg PInf = NInf"
| "fl_neg NInf = PInf"
| "fl_neg NaN = NaN"

fun fl_add :: "format \<Rightarrow> fl \<Rightarrow> fl \<Rightarrow> fl" where
  "fl_add fmt (Fin x) (Fin y) = fround fmt (x + y)"
| "fl_add fmt NaN _ = NaN"
| "fl_add fmt _ NaN = NaN"
| "fl_add fmt PInf NInf = NaN"
| "fl_add fmt NInf PInf = NaN"
| "fl_add fmt PInf _ = PInf"
| "fl_add fmt NInf _ = NInf"
| "fl_add fmt _ y = y"

definition fl_sub :: "format \<Rightarrow> fl \<Rightarrow> fl \<Rightarrow> fl" where
  "fl_sub fmt x y = fl_add fmt x (fl_neg y)"

definition fl_inf :: "bool \<Rightarrow> fl" where
  "fl_inf neg = (if neg then NInf else PInf)"

fun fl_mul :: "format \<Rightarrow> fl \<Rightarrow> fl \<Rightarrow> fl" where
  "fl_mul fmt (Fin x) (Fin y) = fround fmt (x * y)"
| "fl_mul fmt NaN _ = NaN"
| "fl_mul fmt _ NaN = NaN"
| "fl_mul fmt (Fin x) y = (if x = 0 then NaN else fl_inf ((x < 0) \<noteq> (y = NInf)))"
| "fl_mul fmt x (Fin y) = (if y = 0 then NaN else fl_inf ((y < 0) \<noteq> (x = NInf)))"
| "fl_mul fmt x y = fl_inf ((x = NInf) \<noteq> (y = NInf))"

fun fl_div :: "format \<Rightarrow> fl \<Rightarrow> fl \<Rightarrow> fl" where
  "fl_div fmt (Fin x) (Fin y) =
     (if y = 0 then (if x = 0 then NaN else fl_inf (x < 0)) else fround fmt (x / y))"
| "fl_div fmt NaN _ = NaN"
| "fl_div fmt _ NaN = NaN"
| "fl_div fmt (Fin x) _ = Fin 0"
| "fl_div fmt x (Fin y) = fl_inf ((x = NInf) \<noteq> (y < 0))"
| "fl_div fmt _ _ = NaN"

text \<open>Comparisons; every comparison with a NaN is false.\<close>

fun fl_lt :: "fl \<Rightarrow> fl \<Rightarrow> bool" where
  "fl_lt (Fin x) (Fin y) = (x < y)"
| "fl_lt NaN _ = False"
| "fl_lt _ NaN = False"
| "fl_lt NInf y = (y \<noteq> NInf)"
| "fl_lt x PInf = (x \<noteq> PInf)"
| "fl_lt _ _ = False"

definition fl_le :: "fl \<Rightarrow> fl \<Rightarrow> bool" where
  "fl_le x y = (fl_lt x y \<or> x = y \<and> x \<noteq> NaN)"

text \<open>
  Conversion to an unsigned 64-bit integer truncates; a value whose truncation does not
  fit has no defined result.
\<close>

fun fl_to_u64 :: "fl \<Rightarrow> u64 res" where
  "fl_to_u64 (Fin x) =
     (if - 1 < x \<and> x < 2 ^ 64 then Inr (word_of_int (if x < 0 then 0 else \<lfloor>x\<rfloor>))
      else Inl (Undefined ''float to uint64_t out of range''))"
| "fl_to_u64 _ = Inl (Undefined ''float to uint64_t out of range'')"

text \<open>The integral part as a floating-point value, as \<^verbatim>\<open>std::floor\<close> returns it.\<close>

fun fl_floor :: "fl \<Rightarrow> fl" where
  "fl_floor (Fin x) = Fin (of_int \<lfloor>x\<rfloor>)"
| "fl_floor x = x"

section \<open>Small naturals are exact\<close>

lemma nbits_1 [simp]: "nbits (Suc 0) = 1"
  by (simp add: nbits.simps [of "Suc 0"] nbits.simps [of 0])

lemma nbits_bounds: "0 < n \<Longrightarrow> 2 ^ (nbits n - 1) \<le> n \<and> n < 2 ^ nbits n \<and> 0 < nbits n"
proof (induction n rule: nbits.induct)
  case (1 n)
  show ?case
  proof (cases "n div 2 = 0")
    case True
    with 1(2) have "n = 1" by linarith
    then show ?thesis by simp
  next
    case False
    with 1 have IH: "2 ^ (nbits (n div 2) - 1) \<le> n div 2" "n div 2 < 2 ^ nbits (n div 2)" "0 < nbits (n div 2)"
      by auto
    have e: "nbits n = Suc (nbits (n div 2))" using 1(2) by (simp add: nbits.simps [of n])
    obtain k where k: "nbits (n div 2) = Suc k" using IH(3) by (cases "nbits (n div 2)") auto
    show ?thesis unfolding e k using IH k by simp linarith
  qed
qed

lemma ilog2_of_nat:
  assumes "0 < n" "n < 2 ^ k" shows "ilog2 (of_nat n) < int k"
proof -
  have q: "quotient_of (of_nat n :: rat) = (int n, 1)" by (simp add: quotient_of_int [of "int n", simplified])
  have "nbits n \<le> k"
  proof (rule ccontr)
    assume "\<not> nbits n \<le> k"
    then have "(2::nat) ^ k \<le> 2 ^ (nbits n - 1)" by (intro power_increasing) auto
    with nbits_bounds [OF assms(1)] assms(2) show False by (meson leD le_trans)
  qed
  then show ?thesis by (simp add: ilog2_def q Let_def)
qed

lemma round_even_of_int [simp]: "round_even (of_int n) = n"
  by (simp add: round_even_def)

lemma fround_exact_nat:
  assumes "n < 2 ^ prec" "emin \<le> 0" "int prec \<le> emax"
  shows "fround (prec, emin, emax) (of_nat n) = Fin (of_nat n)"
proof (cases "n = 0")
  case True
  then show ?thesis by (simp add: fround_def)
next
  case False
  define e where "e = max (ilog2 (of_nat n) - (int prec - 1)) emin"
  have e: "e \<le> 0" using ilog2_of_nat [of n prec] False assms by (simp add: e_def)
  define j where "j = nat (- e)"
  have p: "pow2 e = 1 / 2 ^ j" using e by (cases "e = 0") (auto simp: pow2_def j_def)
  have "(of_nat n :: rat) / pow2 e = of_int (int n * 2 ^ j)" by (simp add: p)
  then have "of_int (round_even (of_nat n / pow2 e)) * pow2 e = (of_nat n :: rat)"
    by (simp add: p del: of_int_mult) (simp add: field_simps)
  moreover have "\<not> pow2 emax \<le> (of_nat n :: rat)"
  proof -
    have "(of_nat n :: rat) < of_nat (2 ^ prec)" using assms(1) by (simp only: of_nat_less_iff)
    also have "\<dots> \<le> 2 ^ nat emax" using assms(3) by (simp add: power_increasing nat_le_iff)
    finally show ?thesis using assms(3) by (simp add: pow2_def)
  qed
  ultimately show ?thesis using False by (simp add: fround_def e_def Let_def)
qed

lemma fl_of_nat_f32: "n < 2 ^ 24 \<Longrightarrow> fl_of_nat f32 n = Fin (of_nat n)"
  unfolding fl_of_nat_def f32_def by (rule fround_exact_nat) auto

lemma fl_of_nat_f64: "n < 2 ^ 53 \<Longrightarrow> fl_of_nat f64 n = Fin (of_nat n)"
  unfolding fl_of_nat_def f64_def by (rule fround_exact_nat) auto

end
