(* ===== verification/PageMapping.thy ===== *)
theory PageMapping
  imports Block Device Fp
begin

text \<open>
  The page-level mapping of \<^verbatim>\<open>ftl/page_mapping.cc\<close>: the class \<^verbatim>\<open>PageMapping\<close> with every
  operation that changes its state. Definitions only; the theories \<open>PM_Invariant\<close>,
  \<open>PM_Write\<close> and \<open>PM_GC\<close> hold the properties.
\<close>

section \<open>Parameters, configuration and state\<close>

datatype gc_mode = GC_MODE_0 | GC_MODE_1 | GC_MODE_INVALID

datatype evict_policy = POLICY_GREEDY | POLICY_COST_BENEFIT | POLICY_RANDOM | POLICY_DCHOICE | POLICY_INVALID

text \<open>
  \<^verbatim>\<open>FTL::Parameter\<close>, the configuration values the class reads, and the services below.
  \<open>fuel\<close> bounds the rejection sampling of the random victim policies, the one loop of the
  class that may not end.
\<close>

record 'w pm_ctx =
  totalPhysicalBlocks :: nat
  totalLogicalBlocks :: nat
  pagesInBlock :: nat
  ioUnitInPage :: nat
  pageCountToMaxPerf :: nat
  bRandomTweak :: bool
  cfgGcThreshold :: fl
  cfgGcMode :: gc_mode
  cfgEvictPolicy :: evict_policy
  cfgDChoiceParam :: nat
  cfgReclaimBlock :: u64
  cfgReclaimThreshold :: fl
  cfgBadBlockThreshold :: nat
  cfgFuel :: nat
  dev :: "'w device"

definition bitsetSize :: "'w pm_ctx \<Rightarrow> nat" where
  "bitsetSize P = (if bRandomTweak P then ioUnitInPage P else 1)"

record 'w pm =
  table :: "u64 \<rightharpoonup> (nat \<times> nat) list"
  blocks :: "nat \<rightharpoonup> block"
  freeBlocks :: "block list"
  nFreeBlocks :: nat
  lastFreeBlock :: "nat list"
  lastFreeBlockIOMap :: bitset
  lastFreeBlockIndex :: nat
  bReclaimMore :: bool
  gcCount :: u64
  reclaimedBlocks :: u64
  validSuperPageCopies :: u64
  validPageCopies :: u64
  world :: 'w

section \<open>Calls to the layers below\<close>

definition palRead :: "'w pm_ctx \<Rightarrow> pal_request \<Rightarrow> tick \<Rightarrow> 'w pm \<Rightarrow> 'w pm \<times> tick" where
  "palRead P r t s = (let (w, t) = dPalRead (dev P) (world s) r t in (s\<lparr>world := w\<rparr>, t))"

definition palWrite :: "'w pm_ctx \<Rightarrow> pal_request \<Rightarrow> tick \<Rightarrow> 'w pm \<Rightarrow> 'w pm \<times> tick" where
  "palWrite P r t s = (let (w, t) = dPalWrite (dev P) (world s) r t in (s\<lparr>world := w\<rparr>, t))"

definition palErase :: "'w pm_ctx \<Rightarrow> pal_request \<Rightarrow> tick \<Rightarrow> 'w pm \<Rightarrow> 'w pm \<times> tick" where
  "palErase P r t s = (let (w, t) = dPalErase (dev P) (world s) r t in (s\<lparr>world := w\<rparr>, t))"

definition dramRead :: "'w pm_ctx \<Rightarrow> nat \<Rightarrow> tick \<Rightarrow> 'w pm \<Rightarrow> 'w pm \<times> tick" where
  "dramRead P sz t s = (let (w, t) = dDramRead (dev P) (world s) (word_of_nat sz) t in (s\<lparr>world := w\<rparr>, t))"

definition dramWrite :: "'w pm_ctx \<Rightarrow> nat \<Rightarrow> tick \<Rightarrow> 'w pm \<Rightarrow> 'w pm \<times> tick" where
  "dramWrite P sz t s = (let (w, t) = dDramWrite (dev P) (world s) (word_of_nat sz) t in (s\<lparr>world := w\<rparr>, t))"

text \<open>\<open>tick += applyLatency(FTL__PAGE_MAPPING, f)\<close>\<close>

definition addLatency :: "'w pm_ctx \<Rightarrow> cpu_function \<Rightarrow> tick \<Rightarrow> 'w pm \<Rightarrow> 'w pm \<times> tick" where
  "addLatency P f t s =
     (let (w, l) = dApplyLatency (dev P) (world s) NS_FTL__PAGE_MAPPING f in (s\<lparr>world := w\<rparr>, t + l))"

text \<open>An update of one block through an iterator or reference that is known to be valid.\<close>

definition updBlock :: "nat \<Rightarrow> (block \<Rightarrow> block res) \<Rightarrow> 'w pm \<Rightarrow> 'w pm res" where
  "updBlock k f s =
     (case blocks s k of
        None \<Rightarrow> Inl (Undefined ''dereference of blocks.end()'')
      | Some b \<Rightarrow> bindR (f b) (\<lambda>b. Inr (s\<lparr>blocks := (blocks s)(k \<mapsto> b)\<rparr>)))"

section \<open>Free blocks\<close>

definition freeBlockRatio :: "'w pm_ctx \<Rightarrow> 'w pm \<Rightarrow> fl" where
  "freeBlockRatio P s = fl_div f32 (fl_of_nat f32 (nFreeBlocks s)) (fl_of_nat f32 (totalPhysicalBlocks P))"

definition convertBlockIdx :: "'w pm_ctx \<Rightarrow> nat \<Rightarrow> nat" where
  "convertBlockIdx P blockIdx = blockIdx mod pageCountToMaxPerf P"

text \<open>Moves the found block \<open>b\<close> of the free list \<open>pre @ b # post\<close> to the blocks in use.\<close>

definition takeFreeBlock :: "block list \<Rightarrow> block \<Rightarrow> block list \<Rightarrow> 'w pm \<Rightarrow> (nat \<times> 'w pm) res" where
  "takeFreeBlock pre b post s =
     (if blocks s (blkIdx b) \<noteq> None then Inl (Panic ''Corrupted'')
      else Inr (blkIdx b,
        s\<lparr>blocks := (blocks s)(blkIdx b \<mapsto> b), freeBlocks := pre @ post, nFreeBlocks := nFreeBlocks s - 1\<rparr>))"

definition getFreeBlock :: "'w pm_ctx \<Rightarrow> nat \<Rightarrow> 'w pm \<Rightarrow> (nat \<times> 'w pm) res" where
  "getFreeBlock P idx s =
     (if idx \<ge> pageCountToMaxPerf P then Inl (Panic ''Index out of range'')
      else if nFreeBlocks s > 0 then
        (case List.extract (\<lambda>b. blkIdx b mod pageCountToMaxPerf P = idx) (freeBlocks s) of
           Some (pre, b, post) \<Rightarrow> takeFreeBlock pre b post s
         | None \<Rightarrow> (case freeBlocks s of
                       [] \<Rightarrow> Inl (Undefined ''dereference of freeBlocks.end()'')
                     | b # post \<Rightarrow> takeFreeBlock [] b post s))
      else Inl (Panic ''No free block left''))"

text \<open>The choice of the write stream: the next one, unless the units can share the current page.\<close>

definition selectStream :: "'w pm_ctx \<Rightarrow> bitset \<Rightarrow> 'w pm \<Rightarrow> 'w pm res" where
  "selectStream P iomap s =
     bindR (if \<not> bRandomTweak P then Inr True
            else bindR (Bitset_and (lastFreeBlockIOMap s) iomap) (\<lambda>m. Inr (Bitset_any m))) (\<lambda>advance.
     if advance then
       (let i = lastFreeBlockIndex s + 1
        in Inr (s\<lparr>lastFreeBlockIndex := (if i = pageCountToMaxPerf P then 0 else i),
                  lastFreeBlockIOMap := iomap\<rparr>))
     else bindR (Bitset_or (lastFreeBlockIOMap s) iomap) (\<lambda>m. Inr (s\<lparr>lastFreeBlockIOMap := m\<rparr>)))"

definition getLastFreeBlock :: "'w pm_ctx \<Rightarrow> bitset \<Rightarrow> 'w pm \<Rightarrow> (nat \<times> 'w pm) res" where
  "getLastFreeBlock P iomap s =
     bindR (selectStream P iomap s) (\<lambda>s.
     let i = lastFreeBlockIndex s
     in if i < length (lastFreeBlock s) then
          (case blocks s (lastFreeBlock s ! i) of
             None \<Rightarrow> Inl (Panic ''Corrupted'')
           | Some b \<Rightarrow>
               if Block_getNextWritePageIndex b = pagesInBlock P then
                 bindR (getFreeBlock P i s) (\<lambda>(nb, s).
                   Inr (nb, s\<lparr>lastFreeBlock := (lastFreeBlock s)[i := nb], bReclaimMore := True\<rparr>))
               else Inr (lastFreeBlock s ! i, s))
        else Inl (OutOfRange ''lastFreeBlock.at''))"

text \<open>
  The constructor: all blocks free, then one block per parallel unit taken in use.
\<close>

definition makeBlocks :: "'w pm_ctx \<Rightarrow> block list res" where
  "makeBlocks P =
     foldR (\<lambda>i bs. bindR (Block_new i (pagesInBlock P) (ioUnitInPage P)) (\<lambda>b. Inr (bs @ [b])))
       [0..<totalPhysicalBlocks P] []"

definition PageMapping_new :: "'w pm_ctx \<Rightarrow> 'w \<Rightarrow> 'w pm res" where
  "PageMapping_new P w =
     bindR (makeBlocks P) (\<lambda>bs.
       let s = \<lparr>table = Map.empty, blocks = Map.empty, freeBlocks = bs, nFreeBlocks = totalPhysicalBlocks P,
                lastFreeBlock = replicate (pageCountToMaxPerf P) 0,
                lastFreeBlockIOMap = Bitset_new (ioUnitInPage P), lastFreeBlockIndex = 0, bReclaimMore = False,
                gcCount = 0, reclaimedBlocks = 0, validSuperPageCopies = 0, validPageCopies = 0, world = w\<rparr>
       in foldR (\<lambda>i s. bindR (getFreeBlock P i s) (\<lambda>(b, s). Inr (s\<lparr>lastFreeBlock := (lastFreeBlock s)[i := b]\<rparr>)))
            [0..<pageCountToMaxPerf P] s)"

section \<open>Victim selection\<close>

text \<open>The loop over the blocks in use, in the container's order; blocks that are not full are skipped.\<close>

definition fullBlocks :: "'w pm_ctx \<Rightarrow> 'w pm \<Rightarrow> (nat \<times> block) list" where
  "fullBlocks P s =
     List.map_filter (\<lambda>k. case blocks s k of
         None \<Rightarrow> None
       | Some b \<Rightarrow> if Block_getNextWritePageIndex b \<noteq> pagesInBlock P then None else Some (k, b))
       (dIterOrder (dev P) (world s))"

definition calculateVictimWeight :: "'w pm_ctx \<Rightarrow> tick \<Rightarrow> 'w pm \<Rightarrow> (nat \<times> fl) list res" where
  "calculateVictimWeight P t s =
     (case cfgEvictPolicy P of
        POLICY_COST_BENEFIT \<Rightarrow>
          Inr (map (\<lambda>(k, b).
                 let temp = fl_div f32 (fl_of_nat f32 (Block_getValidPageCountRaw b)) (fl_of_nat f32 (pagesInBlock P))
                 in (k, fl_div f32 temp
                          (fl_mul f32 (fl_sub f32 (Fin 1) temp)
                             (fl_of_nat f32 (unat (t - blkLastAccessed b)))))) (fullBlocks P s))
      | POLICY_INVALID \<Rightarrow> Inl (Panic ''Invalid evict policy'')
      | _ \<Rightarrow> Inr (map (\<lambda>(k, b). (k, fl_of_nat f32 (Block_getValidPageCountRaw b))) (fullBlocks P s)))"

text \<open>
  The rejection sampling of the random policies: an entry already chosen carries the
  largest 32-bit index. The last failure stands for a loop that has not ended when the
  fuel is used up.
\<close>

fun sampleVictims :: "nat \<Rightarrow> 'w device \<Rightarrow> nat \<Rightarrow> (nat \<times> fl) list \<Rightarrow> (nat \<times> fl) list \<Rightarrow> 'w \<Rightarrow>
    ((nat \<times> fl) list \<times> 'w) res" where
  "sampleVictims 0 D randomRange weight selected w = Inl (Undefined ''sampling does not end'')"
| "sampleVictims (Suc n) D randomRange weight selected w =
     (if length selected < randomRange then
        (let (w, i) = dRandom D w 0 (if weight = [] then 2 ^ 64 - 1 else length weight - 1)
         in if i \<ge> length weight then Inl (OutOfRange ''weight.at'')
            else if fst (weight ! i) < 2 ^ 32 - 1 then
              sampleVictims n D randomRange (weight[i := (2 ^ 32 - 1, snd (weight ! i))]) (selected @ [weight ! i]) w
            else sampleVictims n D randomRange weight selected w)
      else Inr (selected, w))"

text \<open>
  \<^verbatim>\<open>std::sort\<close> by weight. The order of equal weights is unspecified; the stable order chosen
  here loses nothing because the traversal order of the blocks is arbitrary already. A NaN
  breaks the strict weak ordering that \<^verbatim>\<open>std::sort\<close> requires.
\<close>

fun insertWeight :: "nat \<times> fl \<Rightarrow> (nat \<times> fl) list \<Rightarrow> (nat \<times> fl) list" where
  "insertWeight x [] = [x]"
| "insertWeight x (y # ys) = (if fl_lt (snd y) (snd x) then y # insertWeight x ys else x # y # ys)"

definition sortWeights :: "(nat \<times> fl) list \<Rightarrow> (nat \<times> fl) list res" where
  "sortWeights ws =
     (if list_ex (\<lambda>(k, v). v = NaN) ws then Inl (Undefined ''std::sort with an inconsistent order'')
      else Inr (foldr insertWeight ws []))"

definition selectVictimBlock :: "'w pm_ctx \<Rightarrow> tick \<Rightarrow> 'w pm \<Rightarrow> (nat list \<times> 'w pm \<times> tick) res" where
  "selectVictimBlock P t s =
     bindR (case cfgGcMode P of
              GC_MODE_0 \<Rightarrow> Inr (cfgReclaimBlock P)
            | GC_MODE_1 \<Rightarrow>
                fl_to_u64 (fl_sub f32 (fl_mul f32 (fl_of_nat f32 (totalPhysicalBlocks P)) (cfgReclaimThreshold P))
                                      (fl_of_nat f32 (nFreeBlocks s)))
            | GC_MODE_INVALID \<Rightarrow> Inl (Panic ''Invalid GC mode'')) (\<lambda>nBlocks.
     let (nBlocks, s) =
           (if bReclaimMore s then (nBlocks + word_of_nat (pageCountToMaxPerf P), s\<lparr>bReclaimMore := False\<rparr>)
            else (nBlocks, s))
     in bindR (calculateVictimWeight P t s) (\<lambda>weight.
        bindR (if cfgEvictPolicy P = POLICY_RANDOM \<or> cfgEvictPolicy P = POLICY_DCHOICE then
                 (let randomRange = (if cfgEvictPolicy P = POLICY_RANDOM then unat nBlocks
                               else unat (word_of_nat (cfgDChoiceParam P) * nBlocks))
                  in bindR (sampleVictims (cfgFuel P) (dev P) randomRange weight [] (world s)) (\<lambda>(selected, w).
                       Inr (selected, s\<lparr>world := w\<rparr>)))
               else Inr (weight, s)) (\<lambda>(weight, s).
        bindR (sortWeights weight) (\<lambda>weight.
          let n = cMIN (unat nBlocks) (length weight);
              (s, t) = addLatency P FN_SELECT_VICTIM_BLOCK t s
          in Inr (map fst (take n weight), s, t)))))"

section \<open>Erasing\<close>

text \<open>
  The reverse search of the free list for the last block with at most as many erases,
  behind which the erased block is inserted.
\<close>

fun insertFromBack :: "block \<Rightarrow> block list \<Rightarrow> block list" where
  "insertFromBack b [] = [b]"
| "insertFromBack b (x # xs) = (if eraseCount x \<le> eraseCount b then b # x # xs else x # insertFromBack b xs)"

definition insertFreeBlock :: "block \<Rightarrow> block list \<Rightarrow> block list res" where
  "insertFreeBlock b fbs =
     (if fbs = [] then Inl (Undefined ''decrement of freeBlocks.begin()'')
      else Inr (rev (insertFromBack b (rev fbs))))"

definition eraseInternal :: "'w pm_ctx \<Rightarrow> pal_request \<Rightarrow> tick \<Rightarrow> 'w pm \<Rightarrow> ('w pm \<times> tick) res" where
  "eraseInternal P req t s =
     (case blocks s (prBlockIndex req) of
        None \<Rightarrow> Inl (Panic ''No such block'')
      | Some b \<Rightarrow>
          if Block_getValidPageCount b \<noteq> 0 then Inl (Panic ''There are valid pages in victim block'')
          else
            (let b = Block_erase b;
                 s = s\<lparr>blocks := (blocks s)(prBlockIndex req \<mapsto> b)\<rparr>;
                 (s, t) = palErase P req t s
             in bindR (if eraseCount b < cfgBadBlockThreshold P then
                         bindR (insertFreeBlock b (freeBlocks s)) (\<lambda>fbs.
                           Inr (s\<lparr>freeBlocks := fbs, nFreeBlocks := nFreeBlocks s + 1\<rparr>))
                       else Inr s) (\<lambda>s.
                let s = s\<lparr>blocks := (blocks s)(prBlockIndex req := None)\<rparr>
                in Inr (addLatency P FN_ERASE_INTERNAL t s))))"

section \<open>Garbage collection\<close>

text \<open>The requests collected by the first phase, beside the state and the tick.\<close>

record 'w gc =
  gcS :: "'w pm"
  gcBit :: bitset
  gcLpns :: "u64 list"
  gcReads :: "pal_request list"
  gcWrites :: "pal_request list"
  gcErases :: "pal_request list"
  gcTick :: tick

text \<open>The inner loop body: move unit \<open>idx\<close> of a page of block \<open>victim\<close> to block \<open>fb\<close>.\<close>

definition gcMoveUnit :: "'w pm_ctx \<Rightarrow> nat \<Rightarrow> nat \<Rightarrow> nat \<Rightarrow> nat \<Rightarrow> 'w gc \<Rightarrow> 'w gc res" where
  "gcMoveUnit P victim pageIndex fb idx g =
     (if Bitset_test (gcBit g) idx then
        bindR (updBlock victim (\<lambda>b. Block_invalidate b pageIndex idx) (gcS g)) (\<lambda>s.
        if idx \<ge> length (gcLpns g) then Inl (OutOfRange ''lpns.at'')
        else
          let lpn = gcLpns g ! idx
          in case table s lpn of
               None \<Rightarrow> Inl (Panic ''Invalid mapping table entry'')
             | Some mappingList \<Rightarrow>
                 let (s, t) = dramRead P (8 * ioUnitInPage P) (gcTick g) s
                 in if idx \<ge> length mappingList then Inl (OutOfRange ''mappingList.at'')
                    else
                      bindR (case blocks s fb of
                               None \<Rightarrow> Inl (Undefined ''dereference of blocks.end()'')
                             | Some f \<Rightarrow> Block_getNextWritePageIndexAt f idx) (\<lambda>newPageIdx.
                      let s = s\<lparr>table := (table s)(lpn \<mapsto> mappingList[idx := (fb, newPageIdx)])\<rparr>
                      in bindR (updBlock fb (\<lambda>f. bindR (Block_write f newPageIdx lpn idx 0) (\<lambda>(_, f). Inr f)) s) (\<lambda>s.
                         let flag = Bitset_new (ioUnitInPage P);
                             req = (PAL_Request_new (ioUnitInPage P))\<lparr>prBlockIndex := fb, prPageIndex := newPageIdx,
                                      prIoFlag := (if bRandomTweak P then Bitset_set (Bitset_reset_all flag) idx
                                                   else Bitset_set_all flag)\<rparr>
                         in Inr (g\<lparr>gcS := s\<lparr>validPageCopies := validPageCopies s + 1\<rparr>,
                                   gcWrites := gcWrites g @ [req], gcTick := t\<rparr>))))
      else Inr g)"

definition gcMovePage :: "'w pm_ctx \<Rightarrow> nat \<Rightarrow> nat \<Rightarrow> 'w gc \<Rightarrow> 'w gc res" where
  "gcMovePage P victim pageIndex g =
     (case blocks (gcS g) victim of
        None \<Rightarrow> Inl (Undefined ''dereference of blocks.end()'')
      | Some b \<Rightarrow>
          bindR (Block_getPageInfo b pageIndex (gcBit g)) (\<lambda>(valid, lpns, bit).
          let g = g\<lparr>gcLpns := lpns, gcBit := bit\<rparr>
          in if valid then
               (let bit = (if bRandomTweak P then bit else Bitset_set_all bit)
                in bindR (getLastFreeBlock P bit (gcS g)) (\<lambda>(fb, s).
                   let req = (PAL_Request_new (ioUnitInPage P))\<lparr>prBlockIndex := victim, prPageIndex := pageIndex,
                                prIoFlag := bit\<rparr>;
                       g = g\<lparr>gcS := s, gcBit := bit, gcReads := gcReads g @ [req]\<rparr>
                   in bindR (foldR (gcMoveUnit P victim pageIndex fb) [0..<bitsetSize P] g) (\<lambda>g.
                      let s = gcS g
                      in Inr (g\<lparr>gcS := s\<lparr>validSuperPageCopies := validSuperPageCopies s + 1\<rparr>\<rparr>))))
             else Inr g))"

definition gcBlock :: "'w pm_ctx \<Rightarrow> nat \<Rightarrow> 'w gc \<Rightarrow> 'w gc res" where
  "gcBlock P victim g =
     (if blocks (gcS g) victim = None then Inl (Panic ''Invalid block'')
      else
        bindR (foldR (gcMovePage P victim) [0..<pagesInBlock P] g) (\<lambda>g.
          let req = (PAL_Request_new (ioUnitInPage P))\<lparr>prBlockIndex := victim, prPageIndex := 0,
                       prIoFlag := Bitset_set_all (Bitset_new (ioUnitInPage P))\<rparr>
          in Inr (g\<lparr>gcErases := gcErases g @ [req]\<rparr>)))"

text \<open>The second phase: the collected requests go to the flash array.\<close>

definition gcReadAll :: "'w pm_ctx \<Rightarrow> pal_request list \<Rightarrow> tick \<Rightarrow> tick \<Rightarrow> 'w pm \<Rightarrow> 'w pm \<times> tick" where
  "gcReadAll P reqs t fin s =
     fold (\<lambda>req (s, fin). let (s, beginAt) = palRead P req t s in (s, cMAX fin beginAt)) reqs (s, fin)"

definition gcWriteAll :: "'w pm_ctx \<Rightarrow> pal_request list \<Rightarrow> tick \<Rightarrow> tick \<Rightarrow> 'w pm \<Rightarrow> 'w pm \<times> tick" where
  "gcWriteAll P reqs t fin s =
     fold (\<lambda>req (s, fin). let (s, beginAt) = palWrite P req t s in (s, cMAX fin beginAt)) reqs (s, fin)"

definition gcEraseAll :: "'w pm_ctx \<Rightarrow> pal_request list \<Rightarrow> tick \<Rightarrow> tick \<Rightarrow> 'w pm \<Rightarrow> ('w pm \<times> tick) res" where
  "gcEraseAll P reqs t fin s =
     foldR (\<lambda>req (s, fin). bindR (eraseInternal P req t s) (\<lambda>(s, beginAt). Inr (s, cMAX fin beginAt))) reqs (s, fin)"

definition doGarbageCollection :: "'w pm_ctx \<Rightarrow> nat list \<Rightarrow> tick \<Rightarrow> 'w pm \<Rightarrow> ('w pm \<times> tick) res" where
  "doGarbageCollection P blocksToReclaim t s =
     (if blocksToReclaim = [] then Inr (s, t)
      else
        bindR (foldR (gcBlock P) blocksToReclaim
                 \<lparr>gcS = s, gcBit = Bitset_new (ioUnitInPage P), gcLpns = [], gcReads = [], gcWrites = [],
                  gcErases = [], gcTick = t\<rparr>) (\<lambda>g.
          let (s, readFinishedAt) = gcReadAll P (gcReads g) (gcTick g) t (gcS g);
              (s, writeFinishedAt) = gcWriteAll P (gcWrites g) readFinishedAt t s
          in bindR (gcEraseAll P (gcErases g) readFinishedAt t s) (\<lambda>(s, eraseFinishedAt).
               Inr (addLatency P FN_DO_GARBAGE_COLLECTION (cMAX writeFinishedAt eraseFinishedAt) s))))"

section \<open>Reading, writing and trimming\<close>

text \<open>The flag of a single-unit request: the unit alone, or the whole page without the tweak.\<close>

definition unitFlag :: "'w pm_ctx \<Rightarrow> bitset \<Rightarrow> nat \<Rightarrow> bitset" where
  "unitFlag P flag idx = (if bRandomTweak P then Bitset_set (Bitset_reset_all flag) idx else Bitset_set_all flag)"

definition mapped :: "'w pm_ctx \<Rightarrow> nat \<times> nat \<Rightarrow> bool" where
  "mapped P m \<longleftrightarrow> fst m < totalPhysicalBlocks P \<and> snd m < pagesInBlock P"

definition readUnit :: "'w pm_ctx \<Rightarrow> ftl_request \<Rightarrow> (nat \<times> nat) list \<Rightarrow> tick \<Rightarrow> nat \<Rightarrow> 'w pm \<times> tick \<Rightarrow> ('w pm \<times> tick) res" where
  "readUnit P req mappingList t idx = (\<lambda>(s, finishedAt).
     if Bitset_test (frIoFlag req) idx \<or> \<not> bRandomTweak P then
       if idx \<ge> length mappingList then Inl (OutOfRange ''mappingList.at'')
       else
         let m = mappingList ! idx
         in if mapped P m then
              (case blocks s (fst m) of
                 None \<Rightarrow> Inl (Panic ''Block is not in use'')
               | Some b \<Rightarrow>
                   bindR (updBlock (fst m) (\<lambda>b. bindR (Block_read b (snd m) idx t) (\<lambda>(_, b). Inr b)) s) (\<lambda>s.
                     let r = (PAL_Request_ftl req)\<lparr>prBlockIndex := fst m, prPageIndex := snd m,
                               prIoFlag := unitFlag P (frIoFlag req) idx\<rparr>;
                         (s, beginAt) = palRead P r t s
                     in Inr (s, cMAX finishedAt beginAt)))
            else Inr (s, finishedAt)
     else Inr (s, finishedAt))"

definition readInternal :: "'w pm_ctx \<Rightarrow> ftl_request \<Rightarrow> tick \<Rightarrow> 'w pm \<Rightarrow> ('w pm \<times> tick) res" where
  "readInternal P req t s =
     (case table s (frLpn req) of
        None \<Rightarrow> Inr (s, t)
      | Some mappingList \<Rightarrow>
          let finishedAt = t;
              (s, t) = dramRead P (if bRandomTweak P then 8 * Bitset_count (frIoFlag req) else 8) t s
          in bindR (foldR (readUnit P req mappingList t) [0..<bitsetSize P] (s, finishedAt)) (\<lambda>(s, finishedAt).
               Inr (addLatency P FN_READ_INTERNAL finishedAt s)))"

definition invalidateOld :: "'w pm_ctx \<Rightarrow> ftl_request \<Rightarrow> (nat \<times> nat) list \<Rightarrow> nat \<Rightarrow> 'w pm \<Rightarrow> 'w pm res" where
  "invalidateOld P req mappingList idx s =
     (if Bitset_test (frIoFlag req) idx \<or> \<not> bRandomTweak P then
        if idx \<ge> length mappingList then Inl (OutOfRange ''mappingList.at'')
        else
          let m = mappingList ! idx
          in if mapped P m then updBlock (fst m) (\<lambda>b. Block_invalidate b (snd m) idx) s else Inr s
      else Inr s)"

definition writeUnit :: "'w pm_ctx \<Rightarrow> ftl_request \<Rightarrow> bool \<Rightarrow> bool \<Rightarrow> nat \<Rightarrow> tick \<Rightarrow> nat \<Rightarrow> 'w pm \<times> tick \<Rightarrow> ('w pm \<times> tick) res" where
  "writeUnit P req sendToPAL readBeforeWrite blk t idx = (\<lambda>(s, finishedAt).
     if Bitset_test (frIoFlag req) idx \<or> \<not> bRandomTweak P then
       bindR (case blocks s blk of
                None \<Rightarrow> Inl (Undefined ''dereference of blocks.end()'')
              | Some b \<Rightarrow> Block_getNextWritePageIndexAt b idx) (\<lambda>pageIndex.
       case table s (frLpn req) of
         None \<Rightarrow> Inl (Undefined ''dereference of table.end()'')
       | Some mappingList \<Rightarrow>
           if idx \<ge> length mappingList then Inl (OutOfRange ''mappingList.at'')
           else
             bindR (updBlock blk (\<lambda>b. bindR (Block_write b pageIndex (frLpn req) idx t) (\<lambda>(_, b). Inr b)) s) (\<lambda>s.
               let m = mappingList ! idx;
                   (s, beginAt) =
                     (if readBeforeWrite \<and> sendToPAL then
                        palRead P ((PAL_Request_ftl req)\<lparr>prBlockIndex := fst m, prPageIndex := snd m,
                                     prIoFlag := Bitset_flip_all (frIoFlag req)\<rparr>) t s
                      else (s, t));
                   s = s\<lparr>table := (table s)(frLpn req \<mapsto> mappingList[idx := (blk, pageIndex)])\<rparr>;
                   (s, beginAt) =
                     (if sendToPAL then
                        palWrite P ((PAL_Request_ftl req)\<lparr>prBlockIndex := blk, prPageIndex := pageIndex,
                                      prIoFlag := unitFlag P (frIoFlag req) idx\<rparr>) beginAt s
                      else (s, beginAt))
               in Inr (s, cMAX finishedAt beginAt)))
     else Inr (s, finishedAt))"

text \<open>The mapping part of \<open>writeInternal\<close>, up to the check for garbage collection.\<close>

definition writeMapping :: "'w pm_ctx \<Rightarrow> ftl_request \<Rightarrow> tick \<Rightarrow> bool \<Rightarrow> 'w pm \<Rightarrow> ('w pm \<times> tick) res" where
  "writeMapping P req t sendToPAL s =
     (let finishedAt = t
      in bindR (case table s (frLpn req) of
           Some mappingList \<Rightarrow> foldR (invalidateOld P req mappingList) [0..<bitsetSize P] s
         | None \<Rightarrow> Inr (s\<lparr>table := (table s)(frLpn req \<mapsto>
                       replicate (bitsetSize P) (totalPhysicalBlocks P, pagesInBlock P))\<rparr>)) (\<lambda>s.
      bindR (getLastFreeBlock P (frIoFlag req) s) (\<lambda>(blk, s).
      if blocks s blk = None then Inl (Panic ''No such block'')
      else
        let sz = (if bRandomTweak P then 8 * Bitset_count (frIoFlag req) else 8);
            (s, t) = (if sendToPAL then
                        (let (s, t) = dramRead P sz t s in dramWrite P sz t s)
                      else (s, t));
            readBeforeWrite = (\<not> bRandomTweak P \<and> \<not> Bitset_all (frIoFlag req))
        in bindR (foldR (writeUnit P req sendToPAL readBeforeWrite blk t) [0..<bitsetSize P] (s, finishedAt))
             (\<lambda>(s, finishedAt).
                Inr (if sendToPAL then addLatency P FN_WRITE_INTERNAL finishedAt s else (s, t))))))"

definition writeInternal :: "'w pm_ctx \<Rightarrow> ftl_request \<Rightarrow> tick \<Rightarrow> bool \<Rightarrow> 'w pm \<Rightarrow> ('w pm \<times> tick) res" where
  "writeInternal P req t sendToPAL s =
     bindR (writeMapping P req t sendToPAL s) (\<lambda>(s, t).
     if fl_lt (freeBlockRatio P s) (cfgGcThreshold P) then
       if \<not> sendToPAL then Inl (Panic ''ftl: GC triggered while in initialization'')
       else
         bindR (selectVictimBlock P t s) (\<lambda>(list, s, beginAt).
         bindR (doGarbageCollection P list beginAt s) (\<lambda>(s, beginAt).
           Inr (s\<lparr>gcCount := gcCount s + 1,
                  reclaimedBlocks := reclaimedBlocks s + word_of_nat (length list)\<rparr>, t)))
     else Inr (s, t))"

definition trimUnit :: "(nat \<times> nat) list \<Rightarrow> nat \<Rightarrow> 'w pm \<Rightarrow> 'w pm res" where
  "trimUnit mappingList idx s =
     (if idx \<ge> length mappingList then Inl (OutOfRange ''mappingList.at'')
      else
        let m = mappingList ! idx
        in case blocks s (fst m) of
             None \<Rightarrow> Inl (Panic ''Block is not in use'')
           | Some b \<Rightarrow> updBlock (fst m) (\<lambda>b. Block_invalidate b (snd m) idx) s)"

definition trimInternal :: "'w pm_ctx \<Rightarrow> ftl_request \<Rightarrow> tick \<Rightarrow> 'w pm \<Rightarrow> ('w pm \<times> tick) res" where
  "trimInternal P req t s =
     (case table s (frLpn req) of
        None \<Rightarrow> Inr (s, t)
      | Some mappingList \<Rightarrow>
          let (s, t) = dramRead P (if bRandomTweak P then 8 * Bitset_count (frIoFlag req) else 8) t s
          in bindR (foldR (trimUnit mappingList) [0..<bitsetSize P] s) (\<lambda>s.
               let s = s\<lparr>table := (table s)(frLpn req := None)\<rparr>
               in Inr (addLatency P FN_TRIM_INTERNAL t s)))"

section \<open>The public operations\<close>

definition PageMapping_read :: "'w pm_ctx \<Rightarrow> ftl_request \<Rightarrow> tick \<Rightarrow> 'w pm \<Rightarrow> ('w pm \<times> tick) res" where
  "PageMapping_read P req t s =
     bindR (if Bitset_count (frIoFlag req) > 0 then readInternal P req t s else Inr (s, t)) (\<lambda>(s, t).
       Inr (addLatency P FN_READ t s))"

definition PageMapping_write :: "'w pm_ctx \<Rightarrow> ftl_request \<Rightarrow> tick \<Rightarrow> 'w pm \<Rightarrow> ('w pm \<times> tick) res" where
  "PageMapping_write P req t s =
     bindR (if Bitset_count (frIoFlag req) > 0 then writeInternal P req t True s else Inr (s, t)) (\<lambda>(s, t).
       Inr (addLatency P FN_WRITE t s))"

definition PageMapping_trim :: "'w pm_ctx \<Rightarrow> ftl_request \<Rightarrow> tick \<Rightarrow> 'w pm \<Rightarrow> ('w pm \<times> tick) res" where
  "PageMapping_trim P req t s =
     bindR (trimInternal P req t s) (\<lambda>(s, t). Inr (addLatency P FN_TRIM t s))"

text \<open>
  \<open>format\<close> walks the mapping table, an \<^verbatim>\<open>std::unordered_map\<close>, in an order given by \<open>keys\<close>,
  the list of its keys; the collected block indices are sorted and made unique before
  they are reclaimed.
\<close>

definition formatEntry :: "'w pm_ctx \<Rightarrow> lpn_range \<Rightarrow> u64 \<Rightarrow> 'w pm \<times> nat list \<Rightarrow> ('w pm \<times> nat list) res" where
  "formatEntry P rng lpn = (\<lambda>(s, list).
     case table s lpn of
       None \<Rightarrow> Inr (s, list)
     | Some mappingList \<Rightarrow>
         if slpn rng \<le> lpn \<and> lpn < slpn rng + nlp rng then
           bindR (foldR (\<lambda>idx (s, list).
                     bindR (trimUnit mappingList idx s) (\<lambda>s. Inr (s, list @ [fst (mappingList ! idx)])))
                   [0..<bitsetSize P] (s, list)) (\<lambda>(s, list).
             Inr (s\<lparr>table := (table s)(lpn := None)\<rparr>, list))
         else Inr (s, list))"

definition PageMapping_format :: "'w pm_ctx \<Rightarrow> u64 list \<Rightarrow> lpn_range \<Rightarrow> tick \<Rightarrow> 'w pm \<Rightarrow> ('w pm \<times> tick) res" where
  "PageMapping_format P keys rng t s =
     bindR (foldR (formatEntry P rng) keys (s, [])) (\<lambda>(s, list).
     bindR (doGarbageCollection P (remdups_adj (sort list)) t s) (\<lambda>(s, t).
       Inr (addLatency P FN_FORMAT t s)))"

text \<open>The number of mapped logical pages in a range.\<close>

definition PageMapping_getStatus :: "'w pm_ctx \<Rightarrow> u64 \<Rightarrow> u64 \<Rightarrow> 'w pm \<Rightarrow> nat" where
  "PageMapping_getStatus P lpnBegin lpnEnd s =
     (if lpnBegin = 0 \<and> unat lpnEnd \<ge> totalLogicalBlocks P * pagesInBlock P then card (dom (table s))
      else foldl (\<lambda>n lpn. if table s (word_of_nat lpn) \<noteq> None then n + 1 else n) 0 [unat lpnBegin..<unat lpnEnd])"

definition PageMapping_resetStatValues :: "'w pm \<Rightarrow> 'w pm" where
  "PageMapping_resetStatValues s =
     s\<lparr>gcCount := 0, reclaimedBlocks := 0, validSuperPageCopies := 0, validPageCopies := 0\<rparr>"

section \<open>Statistics\<close>

text \<open>The loop over the free list stops at the first block, from the back, that was never erased.\<close>

definition freeEraseCounts :: "'w pm \<Rightarrow> nat list" where
  "freeEraseCounts s = takeWhile (\<lambda>n. n \<noteq> 0) (map eraseCount (rev (freeBlocks s)))"

definition usedEraseCounts :: "'w pm_ctx \<Rightarrow> 'w pm \<Rightarrow> nat list" where
  "usedEraseCounts P s = List.map_filter (\<lambda>k. map_option eraseCount (blocks s k)) (dIterOrder (dev P) (world s))"

definition calculateWearLeveling :: "'w pm_ctx \<Rightarrow> 'w pm \<Rightarrow> fl" where
  "calculateWearLeveling P s =
     (let (totalEraseCnt, sumOfSquaredEraseCnt) =
            foldl (\<lambda>(a :: u64, b :: u64) n. (a + word_of_nat n, b + word_of_nat n * word_of_nat n)) (0, 0)
              (usedEraseCounts P s @ freeEraseCounts s)
      in if sumOfSquaredEraseCnt = 0 then Fin (- 1)
         else fl_div f32
                (fl_mul f32 (fl_of_nat f32 (unat totalEraseCnt)) (fl_of_nat f32 (unat totalEraseCnt)))
                (fl_of_nat f32 (unat (word_of_nat (totalLogicalBlocks P) * sumOfSquaredEraseCnt))))"

definition calculateTotalPages :: "'w pm_ctx \<Rightarrow> 'w pm \<Rightarrow> (nat \<times> nat) res" where
  "calculateTotalPages P s =
     foldR (\<lambda>k (valid, invalid).
       case blocks s k of
         None \<Rightarrow> Inr (valid, invalid)
       | Some b \<Rightarrow> bindR (Block_getDirtyPageCount b) (\<lambda>d. Inr (valid + Block_getValidPageCount b, invalid + d)))
       (dIterOrder (dev P) (world s)) (0, 0)"

section \<open>Initialisation\<close>

datatype filling_mode = FILLING_MODE_0 | FILLING_MODE_1 | FILLING_MODE_2

text \<open>One filling write; the tick of the caller starts at 0 and is dropped.\<close>

definition fillWrite :: "'w pm_ctx \<Rightarrow> u64 \<Rightarrow> 'w pm \<Rightarrow> 'w pm res" where
  "fillWrite P lpn s =
     (let req = (FTL_Request_new (ioUnitInPage P))\<lparr>frIoFlag := Bitset_set_all (Bitset_new (ioUnitInPage P)), frLpn := lpn\<rparr>
      in bindR (writeInternal P req 0 False s) (\<lambda>(s, _). Inr s))"

definition fillSequential :: "'w pm_ctx \<Rightarrow> nat \<Rightarrow> 'w pm \<Rightarrow> 'w pm res" where
  "fillSequential P n = foldR (\<lambda>i. fillWrite P (word_of_nat i)) [0..<n]"

definition fillRandom :: "'w pm_ctx \<Rightarrow> nat \<Rightarrow> nat \<Rightarrow> 'w pm \<Rightarrow> 'w pm res" where
  "fillRandom P bound n = foldR (\<lambda>i s.
     let (w, lpn) = dRandom (dev P) (world s) 0 bound in fillWrite P (word_of_nat lpn) (s\<lparr>world := w\<rparr>)) [0..<n]"

text \<open>The amounts of pages to fill and to invalidate, computed in single precision.\<close>

definition fillAmounts :: "'w pm_ctx \<Rightarrow> fl \<Rightarrow> fl \<Rightarrow> (u64 \<times> u64) res" where
  "fillAmounts P fillRatio invalidRatio =
     (let total = totalLogicalBlocks P * pagesInBlock P
      in bindR (fl_to_u64 (fl_mul f32 (fl_of_nat f32 total) fillRatio)) (\<lambda>warm.
         bindR (fl_to_u64 (fl_mul f32 (fl_of_nat f32 total) invalidRatio)) (\<lambda>inval.
         bindR (fl_to_u64 (fl_mul f32 (fl_of_nat f32 (pagesInBlock P))
                  (fl_sub f32 (fl_mul f32 (fl_of_nat f32 (totalPhysicalBlocks P)) (fl_sub f32 (Fin 1) (cfgGcThreshold P)))
                              (fl_of_nat f32 (pageCountToMaxPerf P))))) (\<lambda>maxPages.
           Inr (warm, if warm + inval > maxPages then maxPages - warm else inval)))))"

definition PageMapping_initialize :: "'w pm_ctx \<Rightarrow> fl \<Rightarrow> fl \<Rightarrow> filling_mode \<Rightarrow> 'w pm \<Rightarrow> 'w pm res" where
  "PageMapping_initialize P fillRatio invalidRatio mode s =
     bindR (fillAmounts P fillRatio invalidRatio) (\<lambda>(warm, inval).
     let total = totalLogicalBlocks P * pagesInBlock P
     in bindR (if mode = FILLING_MODE_0 \<or> mode = FILLING_MODE_1 then fillSequential P (unat warm) s
               else fillRandom P (total - 1) (unat warm) s) (\<lambda>s.
        if mode = FILLING_MODE_0 then fillSequential P (unat inval) s
        else if mode = FILLING_MODE_1 then fillRandom P (unat (warm - 1)) (unat inval) s
        else fillRandom P (total - 1) (unat inval) s))"

end
