(* ===== verification/PM_Invariant.thy ===== *)
theory PM_Invariant
  imports PageMapping
begin

text \<open>
  The invariant of the page mapping and what the block pool keeps: free blocks are erased,
  unused and ordered by wear; every block in use is well formed; the write streams point to
  distinct blocks in use; the mapping table and the LPNs stored in the valid flash units
  are inverse to each other.
\<close>

section \<open>The pool of blocks\<close>

definition geometry :: "'w pm_ctx \<Rightarrow> block \<Rightarrow> bool" where
  "geometry P b \<longleftrightarrow> Block_inv b \<and> blkPageCount b = pagesInBlock P \<and> blkIoUnit b = ioUnitInPage P \<and>
     blkIdx b < totalPhysicalBlocks P"

definition clean :: "block \<Rightarrow> bool" where
  "clean b \<longleftrightarrow> block_view b = (\<lambda>_. Erased) \<and> block_next b = (\<lambda>_. 0)"

definition ctx_ok :: "'w pm_ctx \<Rightarrow> bool" where
  "ctx_ok P \<longleftrightarrow> 0 < pagesInBlock P \<and> 0 < ioUnitInPage P \<and> 0 < pageCountToMaxPerf P"

definition pool_inv :: "'w pm_ctx \<Rightarrow> 'w pm \<Rightarrow> bool" where
  "pool_inv P s \<longleftrightarrow>
     nFreeBlocks s = length (freeBlocks s) \<and> distinct (map blkIdx (freeBlocks s)) \<and>
     sorted (map eraseCount (freeBlocks s)) \<and>
     (\<forall>b\<in>set (freeBlocks s). geometry P b \<and> clean b \<and> blocks s (blkIdx b) = None) \<and>
     (\<forall>k b. blocks s k = Some b \<longrightarrow> geometry P b \<and> blkIdx b = k)"

definition active_inv :: "'w pm_ctx \<Rightarrow> 'w pm \<Rightarrow> bool" where
  "active_inv P s \<longleftrightarrow>
     length (lastFreeBlock s) = pageCountToMaxPerf P \<and> lastFreeBlockIndex s < pageCountToMaxPerf P \<and>
     distinct (lastFreeBlock s) \<and> set (lastFreeBlock s) \<subseteq> dom (blocks s) \<and>
     Bitset_wf (lastFreeBlockIOMap s) \<and> dataSize (lastFreeBlockIOMap s) = ioUnitInPage P"

section \<open>The mapping and the flash units\<close>

text \<open>The state of unit \<open>i\<close> of page \<open>p\<close> of block \<open>b\<close>; a block not in use holds nothing.\<close>

definition unitAt :: "'w pm \<Rightarrow> nat \<times> nat \<times> nat \<Rightarrow> unit_state" where
  "unitAt s = (\<lambda>(b, p, i). case blocks s b of None \<Rightarrow> Erased | Some blk \<Rightarrow> block_view blk (p, i))"

text \<open>Where unit \<open>i\<close> of logical page \<open>lpn\<close> is stored, if it is.\<close>

definition lookup :: "'w pm_ctx \<Rightarrow> 'w pm \<Rightarrow> u64 \<Rightarrow> nat \<Rightarrow> (nat \<times> nat) option" where
  "lookup P s lpn i =
     (case table s lpn of None \<Rightarrow> None
      | Some ml \<Rightarrow> if i < length ml \<and> mapped P (ml ! i) then Some (ml ! i) else None)"

definition table_inv :: "'w pm_ctx \<Rightarrow> 'w pm \<Rightarrow> bool" where
  "table_inv P s \<longleftrightarrow>
     (\<forall>lpn ml. table s lpn = Some ml \<longrightarrow> length ml = bitsetSize P \<and>
        (\<forall>m\<in>set ml. mapped P m \<or> m = (totalPhysicalBlocks P, pagesInBlock P)))"

text \<open>
  The mapping is the inverse of the LPNs in the flash, except on the pairs in \<open>D\<close>, whose
  old copies are invalid already and whose new copies are not written yet.
\<close>

definition consistent :: "(u64 \<times> nat) set \<Rightarrow> (u64 \<Rightarrow> nat \<Rightarrow> (nat \<times> nat) option) \<Rightarrow> (nat \<times> nat \<times> nat \<Rightarrow> unit_state) \<Rightarrow> bool" where
  "consistent D L U \<longleftrightarrow>
     (\<forall>lpn i b p. if (lpn, i) \<in> D then U (b, p, i) \<noteq> Valid lpn
        else L lpn i = Some (b, p) \<longleftrightarrow> U (b, p, i) = Valid lpn)"

definition pm_inv_but :: "(u64 \<times> nat) set \<Rightarrow> 'w pm_ctx \<Rightarrow> 'w pm \<Rightarrow> bool" where
  "pm_inv_but D P s \<longleftrightarrow> pool_inv P s \<and> active_inv P s \<and> table_inv P s \<and> consistent D (lookup P s) (unitAt s)"

abbreviation pm_inv :: "'w pm_ctx \<Rightarrow> 'w pm \<Rightarrow> bool" where
  "pm_inv \<equiv> pm_inv_but {}"

section \<open>Consistency under the elementary steps\<close>

lemma consistentD: "consistent D L U \<Longrightarrow> (lpn, i) \<notin> D \<Longrightarrow> L lpn i = Some (b, p) \<longleftrightarrow> U (b, p, i) = Valid lpn"
  unfolding consistent_def by presburger

lemma consistent_dirty: "consistent D L U \<Longrightarrow> (lpn, i) \<in> D \<Longrightarrow> U (b, p, i) \<noteq> Valid lpn"
  unfolding consistent_def by presburger

lemma consistent_invalidate:
  assumes C: "consistent D L U" and d: "(lpn, i) \<notin> D" and l: "L lpn i = Some (b, p)"
  shows "consistent (insert (lpn, i) D) L (U((b, p, i) := Invalid))"
  unfolding consistent_def
proof (intro allI)
  fix lpn' i' b' p'
  have u: "U (b, p, i) = Valid lpn" using consistentD [OF C d] l by blast
  show "if (lpn', i') \<in> insert (lpn, i) D then (U((b, p, i) := Invalid)) (b', p', i') \<noteq> Valid lpn'
        else L lpn' i' = Some (b', p') \<longleftrightarrow> (U((b, p, i) := Invalid)) (b', p', i') = Valid lpn'"
    using consistentD [OF C, of lpn' i' b' p'] consistent_dirty [OF C, of lpn' i' b' p'] consistentD [OF C d, of b' p'] u l
    by (auto split: if_splits)
qed

lemma consistent_miss:
  assumes C: "consistent D L U" and l: "L lpn i = None"
  shows "consistent (insert (lpn, i) D) L U"
  unfolding consistent_def
  using consistentD [OF C] consistent_dirty [OF C] l by (metis insert_iff option.distinct(1) prod.inject)

lemma consistent_write:
  assumes C: "consistent D L U" and d: "(lpn, i) \<in> D" and u: "U (b, p, i) = Erased"
    and L': "L' = (\<lambda>x j. if x = lpn \<and> j = i then Some (b, p) else L x j)"
  shows "consistent (D - {(lpn, i)}) L' (U((b, p, i) := Valid lpn))"
  unfolding consistent_def
proof (intro allI)
  fix x j b' p'
  show "if (x, j) \<in> D - {(lpn, i)} then (U((b, p, i) := Valid lpn)) (b', p', j) \<noteq> Valid x
        else L' x j = Some (b', p') \<longleftrightarrow> (U((b, p, i) := Valid lpn)) (b', p', j) = Valid x"
    using consistentD [OF C, of x j b' p'] consistent_dirty [OF C, of x j b' p'] u d
    by (auto simp: L')
qed

lemma consistent_forget:
  assumes C: "consistent D L U" and L': "L' = (\<lambda>x. if x = lpn then (\<lambda>_. None) else L x)"
    and d: "\<And>i. L lpn i \<noteq> None \<Longrightarrow> (lpn, i) \<in> D"
  shows "consistent (D - {lpn} \<times> UNIV) L' U"
  unfolding consistent_def
proof (intro allI)
  fix x j b p
  show "if (x, j) \<in> D - {lpn} \<times> UNIV then U (b, p, j) \<noteq> Valid x
        else L' x j = Some (b, p) \<longleftrightarrow> U (b, p, j) = Valid x"
    using consistentD [OF C, of x j b p] consistent_dirty [OF C, of x j b p] d [of j]
    by (auto simp: L')
qed

lemma consistent_inj: "consistent D L U \<Longrightarrow> (x, i) \<notin> D \<Longrightarrow> (y, i) \<notin> D \<Longrightarrow> L x i = Some m \<Longrightarrow> L y i = Some m \<Longrightarrow> x = y"
  by (cases m) (metis consistentD unit_state.inject)


section \<open>What the parts of the invariant depend on\<close>

lemma pool_inv_cong:
  "blocks s' = blocks s \<Longrightarrow> freeBlocks s' = freeBlocks s \<Longrightarrow> nFreeBlocks s' = nFreeBlocks s \<Longrightarrow> pool_inv P s' = pool_inv P s"
  by (simp add: pool_inv_def)

lemma active_inv_cong:
  "dom (blocks s') = dom (blocks s) \<Longrightarrow> lastFreeBlock s' = lastFreeBlock s \<Longrightarrow>
   lastFreeBlockIndex s' = lastFreeBlockIndex s \<Longrightarrow> lastFreeBlockIOMap s' = lastFreeBlockIOMap s \<Longrightarrow> active_inv P s' = active_inv P s"
  by (simp add: active_inv_def)

lemma table_inv_cong: "table s' = table s \<Longrightarrow> table_inv P s' = table_inv P s"
  by (simp add: table_inv_def)

lemma lookup_cong: "table s' = table s \<Longrightarrow> lookup P s' = lookup P s"
  by (simp add: lookup_def fun_eq_iff)

lemma unitAt_cong: "blocks s' = blocks s \<Longrightarrow> unitAt s' = unitAt s"
  by (simp add: unitAt_def fun_eq_iff)

text \<open>
  \<open>untouched s s'\<close>: the two states agree on everything the invariant is about; they may
  differ in the state of the layers below, the counters and the reclaim flag.
\<close>

definition untouched :: "'w pm \<Rightarrow> 'w pm \<Rightarrow> bool" where
  "untouched s s' \<longleftrightarrow>
     table s' = table s \<and> blocks s' = blocks s \<and> freeBlocks s' = freeBlocks s \<and> nFreeBlocks s' = nFreeBlocks s \<and>
     lastFreeBlock s' = lastFreeBlock s \<and> lastFreeBlockIOMap s' = lastFreeBlockIOMap s \<and>
     lastFreeBlockIndex s' = lastFreeBlockIndex s"

lemma untouched_simps [simp]:
  "untouched s s" "untouched s (s'\<lparr>world := w\<rparr>) = untouched s s'"
  "untouched s (s'\<lparr>gcCount := a\<rparr>) = untouched s s'" "untouched s (s'\<lparr>reclaimedBlocks := a\<rparr>) = untouched s s'"
  "untouched s (s'\<lparr>validPageCopies := a\<rparr>) = untouched s s'" "untouched s (s'\<lparr>validSuperPageCopies := a\<rparr>) = untouched s s'"
  "untouched s (s'\<lparr>bReclaimMore := f\<rparr>) = untouched s s'"
  by (simp_all add: untouched_def)

lemma untouched_trans: "untouched a b \<Longrightarrow> untouched b c \<Longrightarrow> untouched a c"
  by (simp add: untouched_def)

lemma untouched_inv:
  assumes "untouched s s'"
  shows "pm_inv_but D P s' = pm_inv_but D P s" "lookup P s' = lookup P s" "unitAt s' = unitAt s"
    "nFreeBlocks s' = nFreeBlocks s" "lastFreeBlock s' = lastFreeBlock s" "blocks s' = blocks s" "table s' = table s"
    "freeBlocks s' = freeBlocks s"
proof -
  show 1: "lookup P s' = lookup P s" by (rule lookup_cong) (use assms in \<open>simp add: untouched_def\<close>)
  show 2: "unitAt s' = unitAt s" by (rule unitAt_cong) (use assms in \<open>simp add: untouched_def\<close>)
  show "pm_inv_but D P s' = pm_inv_but D P s"
    unfolding pm_inv_but_def 1 2 pool_inv_def active_inv_def table_inv_def using assms by (simp only: untouched_def)
qed (use assms in \<open>simp_all add: untouched_def\<close>)

text \<open>The calls below the FTL move only the state of the layers below and the tick.\<close>

lemma service_untouched:
  "untouched s (fst (palRead P r t s))" "untouched s (fst (palWrite P r t s))" "untouched s (fst (palErase P r t s))"
  "untouched s (fst (dramRead P n t s))" "untouched s (fst (dramWrite P n t s))" "untouched s (fst (addLatency P f t s))"
  by (simp_all add: palRead_def palWrite_def palErase_def dramRead_def dramWrite_def addLatency_def split: prod.splits)

section \<open>Taking a free block\<close>

lemma extract_Some_filter:
  assumes "List.extract Q xs = Some (ys, x, zs)"
  shows "xs = ys @ x # zs" "Q x" "\<forall>y\<in>set ys. \<not> Q y"
  using assms by (auto simp: extract_Some_iff)

text \<open>
  A free block with the wanted parallel index is taken when there is one, and then a least
  worn one of those; otherwise a least worn block of the whole pool.
\<close>

lemma getFreeBlock_takes:
  assumes I: "pool_inv P s" and i: "i < pageCountToMaxPerf P" and n: "0 < nFreeBlocks s"
  obtains pre b post where "freeBlocks s = pre @ b # post"
    and "getFreeBlock P i s = Inr (blkIdx b,
           s\<lparr>blocks := (blocks s)(blkIdx b \<mapsto> b), freeBlocks := pre @ post, nFreeBlocks := nFreeBlocks s - 1\<rparr>)"
    and "\<And>c. c \<in> set (freeBlocks s) \<Longrightarrow> convertBlockIdx P (blkIdx c) = i \<Longrightarrow>
           convertBlockIdx P (blkIdx b) = i \<and> eraseCount b \<le> eraseCount c"
    and "(\<forall>c\<in>set (freeBlocks s). convertBlockIdx P (blkIdx c) \<noteq> i) \<Longrightarrow> (\<forall>c\<in>set (freeBlocks s). eraseCount b \<le> eraseCount c)"
proof -
  let ?Q = "\<lambda>b. blkIdx b mod pageCountToMaxPerf P = i"
  have ne: "freeBlocks s \<noteq> []" and srt: "sorted (map eraseCount (freeBlocks s))" using I n by (auto simp: pool_inv_def)
  have none: "blocks s (blkIdx b) = None" if "b \<in> set (freeBlocks s)" for b using I that by (simp add: pool_inv_def)
  show thesis
  proof (cases "List.extract ?Q (freeBlocks s)")
    case None
    then have no: "\<forall>c\<in>set (freeBlocks s). \<not> ?Q c" by (simp add: extract_None_iff)
    obtain b post where fb: "freeBlocks s = b # post" using ne by (cases "freeBlocks s") auto
    show thesis
    proof (rule that [of "[]" b post])
      show "getFreeBlock P i s = Inr (blkIdx b, s\<lparr>blocks := (blocks s)(blkIdx b \<mapsto> b), freeBlocks := [] @ post, nFreeBlocks := nFreeBlocks s - 1\<rparr>)"
        using i n None none [of b] fb by (simp add: getFreeBlock_def takeFreeBlock_def)
      show "\<forall>c\<in>set (freeBlocks s). eraseCount b \<le> eraseCount c" using srt fb by auto
    qed (use fb no in \<open>auto simp: convertBlockIdx_def\<close>)
  next
    case (Some x)
    then obtain pre b post where x: "List.extract ?Q (freeBlocks s) = Some (pre, b, post)" by (cases x) auto
    note E = extract_Some_filter [OF x]
    show thesis
    proof (rule that [of pre b post])
      show "getFreeBlock P i s = Inr (blkIdx b, s\<lparr>blocks := (blocks s)(blkIdx b \<mapsto> b), freeBlocks := pre @ post, nFreeBlocks := nFreeBlocks s - 1\<rparr>)"
        using i n x none [of b] E(1) by (simp add: getFreeBlock_def takeFreeBlock_def)
      show "convertBlockIdx P (blkIdx b) = i \<and> eraseCount b \<le> eraseCount c"
        if "c \<in> set (freeBlocks s)" "convertBlockIdx P (blkIdx c) = i" for c
        using E that srt by (auto simp: convertBlockIdx_def sorted_append)
      show "\<forall>c\<in>set (freeBlocks s). eraseCount b \<le> eraseCount c"
        if "\<forall>c\<in>set (freeBlocks s). convertBlockIdx P (blkIdx c) \<noteq> i"
        using that E by (auto simp: convertBlockIdx_def)
    qed (use E in simp)
  qed
qed

lemma pool_inv_take:
  assumes I: "pool_inv P s" and fb: "freeBlocks s = pre @ b # post"
    and s': "s' = s\<lparr>blocks := (blocks s)(blkIdx b \<mapsto> b), freeBlocks := pre @ post, nFreeBlocks := nFreeBlocks s - 1\<rparr>"
  shows "pool_inv P s'" "unitAt s' = unitAt s" "blocks s (blkIdx b) = None" "geometry P b" "clean b"
proof -
  have b: "geometry P b" "clean b" "blocks s (blkIdx b) = None" using I fb by (auto simp: pool_inv_def)
  then show "geometry P b" "clean b" "blocks s (blkIdx b) = None" by auto
  show "unitAt s' = unitAt s" using b by (auto simp: unitAt_def s' fun_eq_iff clean_def)
  have dst: "distinct (map blkIdx (pre @ b # post))" and srt: "sorted (map eraseCount (pre @ b # post))"
    and free: "\<forall>c\<in>set (pre @ b # post). geometry P c \<and> clean c \<and> blocks s (blkIdx c) = None"
    and used: "\<forall>k c. blocks s k = Some c \<longrightarrow> geometry P c \<and> blkIdx c = k"
    and n: "nFreeBlocks s = length (pre @ b # post)"
    using I unfolding pool_inv_def fb by blast+
  have "blkIdx b \<notin> blkIdx ` set (pre @ post)" using dst by auto
  then have "blkIdx c \<noteq> blkIdx b" if "c \<in> set (pre @ post)" for c using that by (metis imageI)
  then have "\<forall>c\<in>set (pre @ post). geometry P c \<and> clean c \<and> blocks s' (blkIdx c) = None"
    using free by (simp add: s' fun_upd_def)
  moreover have "sorted (map eraseCount (pre @ post))" using srt by (simp add: sorted_append)
  moreover have "distinct (map blkIdx (pre @ post))" using dst by simp
  moreover have "\<forall>k c. blocks s' k = Some c \<longrightarrow> geometry P c \<and> blkIdx c = k" using used b(1) by (simp add: s')
  moreover have "freeBlocks s' = pre @ post" "nFreeBlocks s' = length (pre @ post)" using n by (simp_all add: s')
  ultimately show "pool_inv P s'" by (simp only: pool_inv_def)
qed

lemma getFreeBlock_panics:
  "getFreeBlock P i s = (if pageCountToMaxPerf P \<le> i then Inl (Panic ''Index out of range'') else Inl (Panic ''No free block left''))"
  if "pageCountToMaxPerf P \<le> i \<or> nFreeBlocks s = 0"
  using that by (auto simp: getFreeBlock_def)

section \<open>The current write block\<close>

lemma pm_inv_butD:
  "pm_inv_but D P s \<Longrightarrow> pool_inv P s" "pm_inv_but D P s \<Longrightarrow> active_inv P s"
  "pm_inv_but D P s \<Longrightarrow> table_inv P s" "pm_inv_but D P s \<Longrightarrow> consistent D (lookup P s) (unitAt s)"
  by (simp_all add: pm_inv_but_def)

lemma selectStream_ok:
  assumes A: "active_inv P s" and m: "Bitset_wf iomap" "dataSize iomap = ioUnitInPage P"
  shows "\<exists>j m'. selectStream P iomap s = Inr (s\<lparr>lastFreeBlockIndex := j, lastFreeBlockIOMap := m'\<rparr>) \<and>
    j < pageCountToMaxPerf P \<and> Bitset_wf m' \<and> dataSize m' = ioUnitInPage P"
proof -
  let ?i = "if lastFreeBlockIndex s + 1 = pageCountToMaxPerf P then 0 else lastFreeBlockIndex s + 1"
  have i: "?i < pageCountToMaxPerf P" "lastFreeBlockIndex s < pageCountToMaxPerf P" using A by (auto simp: active_inv_def)
  have io: "Bitset_wf (lastFreeBlockIOMap s)" "dataSize (lastFreeBlockIOMap s) = dataSize iomap"
    using A m by (auto simp: active_inv_def)
  obtain d where d: "Bitset_and (lastFreeBlockIOMap s) iomap = Inr d" using Bitset_and [OF io(1) m(1) io(2)] by blast
  obtain e where e: "Bitset_or (lastFreeBlockIOMap s) iomap = Inr e" "Bitset_wf e" "dataSize e = ioUnitInPage P"
    using Bitset_or [OF io(1) m(1) io(2)] io m by metis
  show ?thesis
  proof (cases "\<not> bRandomTweak P \<or> Bitset_any d")
    case True
    then have "selectStream P iomap s = Inr (s\<lparr>lastFreeBlockIndex := ?i, lastFreeBlockIOMap := iomap\<rparr>)"
      using d by (cases "bRandomTweak P") (simp_all add: selectStream_def Let_def)
    then show ?thesis using i m by blast
  next
    case False
    then have "selectStream P iomap s = Inr (s\<lparr>lastFreeBlockIndex := lastFreeBlockIndex s, lastFreeBlockIOMap := e\<rparr>)"
      using d e by (simp add: selectStream_def)
    then show ?thesis using i e by blast
  qed
qed


text \<open>
  With a free block left the write block is found. It is in use, one of the streams, and
  has a page left for every unit; a fresh one is erased, so no unit of the flash changes.
\<close>

lemma getLastFreeBlock_ok:
  assumes I: "pm_inv_but D P s" and P: "ctx_ok P" and m: "Bitset_wf iomap" "dataSize iomap = ioUnitInPage P"
    and n: "0 < nFreeBlocks s"
  obtains k b s' j where "getLastFreeBlock P iomap s = Inr (k, s')" "pm_inv_but D P s'"
    "table s' = table s" "world s' = world s" "unitAt s' = unitAt s" "nFreeBlocks s \<le> Suc (nFreeBlocks s')"
    "blocks s' k = Some b" "\<And>i. block_next b i < pagesInBlock P" "blocks s \<subseteq>\<^sub>m blocks s'"
    "set (lastFreeBlock s') \<subseteq> set (lastFreeBlock s) \<union> - dom (blocks s)"
    "j < pageCountToMaxPerf P" "lastFreeBlock s' ! j = k"
    "lastFreeBlock s' = lastFreeBlock s \<and> nFreeBlocks s' = nFreeBlocks s \<and> blocks s' = blocks s \<or>
     lastFreeBlock s' = (lastFreeBlock s)[j := k] \<and> Suc (nFreeBlocks s') = nFreeBlocks s \<and> clean b \<and>
     k \<notin> dom (blocks s) \<and> blocks s' = (blocks s)(k \<mapsto> b) \<and>
     (\<exists>c. blocks s (lastFreeBlock s ! j) = Some c \<and> Block_getNextWritePageIndex c = pagesInBlock P)"
proof -
  have A: "active_inv P s" and Pool: "pool_inv P s" and T: "table_inv P s" and C: "consistent D (lookup P s) (unitAt s)"
    using I by (simp_all add: pm_inv_but_def)
  obtain j m' where sel: "selectStream P iomap s = Inr (s\<lparr>lastFreeBlockIndex := j, lastFreeBlockIOMap := m'\<rparr>)"
    and j: "j < pageCountToMaxPerf P" and m': "Bitset_wf m'" "dataSize m' = ioUnitInPage P"
    using selectStream_ok [OF A m] by blast
  define u where "u = s\<lparr>lastFreeBlockIndex := j, lastFreeBlockIOMap := m'\<rparr>"
  have u: "blocks u = blocks s" "freeBlocks u = freeBlocks s" "nFreeBlocks u = nFreeBlocks s" "table u = table s"
    "world u = world s" "lastFreeBlock u = lastFreeBlock s" "lastFreeBlockIndex u = j" "lastFreeBlockIOMap u = m'"
    by (simp_all add: u_def)
  have len: "j < length (lastFreeBlock s)" and dst: "distinct (lastFreeBlock s)" and sub: "set (lastFreeBlock s) \<subseteq> dom (blocks s)"
    using A j by (auto simp: active_inv_def)
  then obtain b where b: "blocks s (lastFreeBlock s ! j) = Some b" using nth_mem by blast
  have gb: "geometry P b" using Pool b by (auto simp: pool_inv_def)
  have Iu: "pm_inv_but D P u"
    using Pool T C A j m' unfolding pm_inv_but_def
    by (simp add: pool_inv_cong [of u s] table_inv_cong [of u s] lookup_cong [of u s] unitAt_cong [of u s] u)
      (simp add: active_inv_def u)
  note U = lookup_cong [of u s, OF u(4)] unitAt_cong [of u s, OF u(1)]
  show thesis
  proof (cases "Block_getNextWritePageIndex b = pagesInBlock P")
    case False
    then have eq: "getLastFreeBlock P iomap s = Inr (lastFreeBlock s ! j, u)"
      by (simp add: getLastFreeBlock_def sel u_def [symmetric] u len b Let_def)
    have "Block_getNextWritePageIndex b < pagesInBlock P"
      using Block_getNextWritePageIndex_le [of b] gb False by (simp add: geometry_def)
    then have "block_next b i < pagesInBlock P" for i
      using Block_getNextWritePageIndex_max(1) [of b i] gb by (simp add: geometry_def Block_inv_def)
    then show thesis using that [OF eq Iu, of b j] b j by (simp add: u U)
  next
    case True
    have "pool_inv P u" using Iu by (simp add: pm_inv_but_def)
    then obtain pre nb post where fb: "freeBlocks u = pre @ nb # post"
      and g: "getFreeBlock P j u = Inr (blkIdx nb,
           u\<lparr>blocks := (blocks u)(blkIdx nb \<mapsto> nb), freeBlocks := pre @ post, nFreeBlocks := nFreeBlocks u - 1\<rparr>)"
      using getFreeBlock_takes [of P u j] j n u by metis
    define v where "v = u\<lparr>blocks := (blocks u)(blkIdx nb \<mapsto> nb), freeBlocks := pre @ post, nFreeBlocks := nFreeBlocks u - 1\<rparr>"
    note V = pool_inv_take [OF \<open>pool_inv P u\<close> fb v_def]
    define s' where "s' = v\<lparr>lastFreeBlock := (lastFreeBlock s)[j := blkIdx nb], bReclaimMore := True\<rparr>"
    have s': "blocks s' = (blocks s)(blkIdx nb \<mapsto> nb)" "nFreeBlocks s' = nFreeBlocks s - 1" "table s' = table s"
      "world s' = world s" "lastFreeBlock s' = (lastFreeBlock s)[j := blkIdx nb]" "lastFreeBlockIndex s' = j"
      "lastFreeBlockIOMap s' = m'" "blocks s' = blocks v" "freeBlocks s' = freeBlocks v" "nFreeBlocks s' = nFreeBlocks v"
      by (simp_all add: s'_def v_def u)
    have eq: "getLastFreeBlock P iomap s = Inr (blkIdx nb, s')"
      by (simp add: getLastFreeBlock_def sel u_def [symmetric] u len b Let_def True g v_def [symmetric])
        (simp add: s'_def v_def u)
    have new: "blkIdx nb \<notin> dom (blocks s)" using V(3) u by auto
    have "distinct ((lastFreeBlock s)[j := blkIdx nb])" using new sub dst by (auto intro!: distinct_list_update)
    then have "active_inv P s'"
      using A j m' new sub unfolding active_inv_def s'
      by (auto dest: set_update_subset_insert [THEN subsetD])
    moreover have "unitAt s' = unitAt s" using V(2) unitAt_cong [OF s'(8)] U by simp
    moreover have "lookup P s' = lookup P s" by (rule lookup_cong) (rule s')
    ultimately have "pm_inv_but D P s'"
      using V(1) T C by (simp add: pm_inv_but_def pool_inv_cong [of s' v] table_inv_cong [of s' s] s'(3,8-10))
    moreover have "\<And>i. block_next nb i < pagesInBlock P" using V(5) P by (simp add: clean_def ctx_ok_def)
    moreover have "blocks s \<subseteq>\<^sub>m blocks s'" using new by (auto simp: s' map_le_def)
    moreover have "set (lastFreeBlock s') \<subseteq> set (lastFreeBlock s) \<union> - dom (blocks s)"
      using new set_update_subset_insert [of "lastFreeBlock s" j "blkIdx nb"] by (auto simp: s')
    moreover have "lastFreeBlock s' ! j = blkIdx nb" using len by (simp add: s')
    ultimately show thesis
      using that [OF eq, of nb j] \<open>unitAt s' = unitAt s\<close> j n new b True V(5) by (simp add: s')
  qed
qed

section \<open>Steps on one unit of the flash\<close>

text \<open>Replacing a block in use by one with the same frame.\<close>

lemma pool_inv_upd:
  assumes I: "pool_inv P s" and b: "blocks s k = Some b" and f: "block_frame b b'" and B: "Block_inv b'"
  shows "pool_inv P (s\<lparr>blocks := (blocks s)(k \<mapsto> b')\<rparr>)"
proof -
  have gb: "geometry P b" "blkIdx b = k" using I b by (auto simp: pool_inv_def)
  then have gb': "geometry P b'" "blkIdx b' = k" using f B by (auto simp: geometry_def block_frame_def)
  have "\<forall>c\<in>set (freeBlocks s). blkIdx c \<noteq> k" using I b by (auto simp: pool_inv_def)
  with I gb' show ?thesis by (simp add: pool_inv_def)
qed

lemma unitAt_upd:
  assumes "blocks s k = Some b" "block_view b' = (block_view b)((p, i) := v)"
  shows "unitAt (s\<lparr>blocks := (blocks s)(k \<mapsto> b')\<rparr>) = (unitAt s)((k, p, i) := v)"
  using assms by (auto simp: unitAt_def fun_eq_iff)

lemma active_inv_upd:
  "blocks s k = Some b \<Longrightarrow> active_inv P (s\<lparr>blocks := (blocks s)(k \<mapsto> b')\<rparr>) = active_inv P s"
  by (auto simp: active_inv_def)

lemma unitAt_block: "blocks s k = Some b \<Longrightarrow> unitAt s (k, p, i) = block_view b (p, i)"
  by (simp add: unitAt_def)

lemma unitAt_Valid:
  assumes "pool_inv P s" "unitAt s (k, p, i) = Valid lpn"
  obtains b where "blocks s k = Some b" "geometry P b" "block_view b (p, i) = Valid lpn"
    "p < pagesInBlock P" "i < ioUnitInPage P" "k < totalPhysicalBlocks P" "blkIdx b = k"
proof -
  obtain b where b: "blocks s k = Some b" "block_view b (p, i) = Valid lpn"
    using assms(2) by (auto simp: unitAt_def split: option.splits)
  have g: "geometry P b" "blkIdx b = k" using assms(1) b by (auto simp: pool_inv_def)
  have "p < pagesInBlock P \<and> i < ioUnitInPage P"
    using b(2) g block_view_outside [of p b i] by (auto simp: geometry_def)
  with b g that show thesis by (auto simp: geometry_def)
qed

text \<open>The old copy of a mapped unit is invalidated: the pair becomes one to be rewritten.\<close>

lemma invalidate_step:
  assumes I: "pm_inv_but D P s" and d: "(lpn, i) \<notin> D" and l: "lookup P s lpn i = Some (k, p)"
  obtains b b' where "updBlock k (\<lambda>b. Block_invalidate b p i) s = Inr (s\<lparr>blocks := (blocks s)(k \<mapsto> b')\<rparr>)"
    "blocks s k = Some b" "block_frame b b'" "block_next b' = block_next b" "Block_inv b'"
    "block_view b' = (block_view b)((p, i) := Invalid)"
    "pm_inv_but (insert (lpn, i) D) P (s\<lparr>blocks := (blocks s)(k \<mapsto> b')\<rparr>)"
    "lookup P (s\<lparr>blocks := (blocks s)(k \<mapsto> b')\<rparr>) = lookup P s"
proof -
  note J = pm_inv_butD [OF I]
  have v: "unitAt s (k, p, i) = Valid lpn" using consistentD [OF J(4) d] l by blast
  obtain b where b: "blocks s k = Some b" "geometry P b" "block_view b (p, i) = Valid lpn" "p < pagesInBlock P" "i < ioUnitInPage P"
    using unitAt_Valid [OF J(1) v] by metis
  obtain b' where b': "Block_invalidate b p i = Inr b'" "Block_inv b'" "block_frame b b'" "block_next b' = block_next b"
    "block_view b' = (block_view b)((p, i) := Invalid)"
    using fb.invalidate [of b i p] b by (auto simp: geometry_def)
  define s' where "s' = s\<lparr>blocks := (blocks s)(k \<mapsto> b')\<rparr>"
  have L: "lookup P s' = lookup P s" by (rule lookup_cong) (simp add: s'_def)
  have "pm_inv_but (insert (lpn, i) D) P s'"
    unfolding pm_inv_but_def L
    using pool_inv_upd [OF J(1) b(1) b'(3,2)] active_inv_upd [OF b(1), of P b'] J(2,3) unitAt_upd [OF b(1) b'(5)]
      consistent_invalidate [OF J(4) d l]
    by (simp add: s'_def table_inv_cong [of "s\<lparr>blocks := (blocks s)(k \<mapsto> b')\<rparr>" s])
  moreover have "updBlock k (\<lambda>b. Block_invalidate b p i) s = Inr s'"
    using b b' by (simp add: updBlock_def s'_def)
  ultimately show thesis using that b b' L unfolding s'_def by blast
qed

text \<open>The next erased unit of a block in use is programmed with a pair to be rewritten, and mapped.\<close>

lemma lookup_upd:
  assumes "table s lpn = Some ml" "i < length ml" "mapped P m" "table s' = (table s)(lpn \<mapsto> ml[i := m])"
  shows "lookup P s' = (\<lambda>x j. if x = lpn \<and> j = i then Some m else lookup P s x j)"
  using assms by (auto simp: lookup_def fun_eq_iff nth_list_update)

lemma table_inv_upd:
  assumes "table_inv P s" "table s lpn = Some ml" "mapped P m" "table s' = (table s)(lpn \<mapsto> ml[i := m])"
  shows "table_inv P s'"
  using assms by (auto simp: table_inv_def dest: set_update_subset_insert [THEN subsetD])

lemma write_step:
  assumes I: "pm_inv_but D P s" and d: "(lpn, i) \<in> D" and b: "blocks s k = Some b" and i: "i < bitsetSize P"
    and io: "i < ioUnitInPage P" and nx: "block_next b i < pagesInBlock P" and t: "table s lpn = Some ml"
  obtains b' where
    "Block_write b (block_next b i) lpn i tk = Inr (True, b')" "block_frame b b'" "Block_inv b'"
    "block_next b' = (block_next b)(i := Suc (block_next b i))"
    "\<And>s'. blocks s' = (blocks s)(k \<mapsto> b') \<Longrightarrow> table s' = (table s)(lpn \<mapsto> ml[i := (k, block_next b i)]) \<Longrightarrow>
       freeBlocks s' = freeBlocks s \<Longrightarrow> nFreeBlocks s' = nFreeBlocks s \<Longrightarrow> lastFreeBlock s' = lastFreeBlock s \<Longrightarrow>
       lastFreeBlockIndex s' = lastFreeBlockIndex s \<Longrightarrow> lastFreeBlockIOMap s' = lastFreeBlockIOMap s \<Longrightarrow>
       pm_inv_but (D - {(lpn, i)}) P s' \<and>
       lookup P s' = (\<lambda>x j. if x = lpn \<and> j = i then Some (k, block_next b i) else lookup P s x j) \<and>
       unitAt s' = (unitAt s)((k, block_next b i, i) := Valid lpn)"
proof -
  note J = pm_inv_butD [OF I]
  let ?p = "block_next b i"
  have g: "geometry P b" "blkIdx b = k" using J(1) b by (auto simp: pool_inv_def)
  have e: "unitAt s (k, ?p, i) = Erased"
    using fb.nxt_erased [of b i ?p] g io nx by (simp add: unitAt_block [OF b] geometry_def)
  obtain b' where b': "Block_write b ?p lpn i tk = Inr (True, b')" "Block_inv b'" "block_frame b b'"
    "block_view b' = (block_view b)((?p, i) := Valid lpn)" "block_next b' = (block_next b)(i := Suc ?p)"
    using fb.program [of b i ?p lpn tk] g io nx by (auto simp: geometry_def)
  have m: "mapped P (k, ?p)" using g nx by (auto simp: mapped_def geometry_def)
  have ml: "i < length ml" using J(3) t i by (auto simp: table_inv_def)
  show thesis
  proof (rule that [OF b'(1,3,2,5)])
    fix s' :: "'a pm"
    assume s': "blocks s' = (blocks s)(k \<mapsto> b')" "table s' = (table s)(lpn \<mapsto> ml[i := (k, ?p)])"
      "freeBlocks s' = freeBlocks s" "nFreeBlocks s' = nFreeBlocks s" "lastFreeBlock s' = lastFreeBlock s"
      "lastFreeBlockIndex s' = lastFreeBlockIndex s" "lastFreeBlockIOMap s' = lastFreeBlockIOMap s"
    let ?s = "s\<lparr>blocks := (blocks s)(k \<mapsto> b')\<rparr>"
    have U: "unitAt s' = (unitAt s)((k, ?p, i) := Valid lpn)"
      using unitAt_cong [of s' ?s] unitAt_upd [OF b b'(4)] s'(1) by simp
    have L: "lookup P s' = (\<lambda>x j. if x = lpn \<and> j = i then Some (k, ?p) else lookup P s x j)"
      by (rule lookup_upd [OF t ml m s'(2)])
    have "pool_inv P s'" using pool_inv_upd [OF J(1) b b'(3,2)] pool_inv_cong [of s' ?s P] s' by simp
    moreover have "active_inv P s'" using active_inv_upd [OF b, of P b'] active_inv_cong [of s' ?s P] J(2) s' by simp
    moreover have "table_inv P s'" by (rule table_inv_upd [OF J(3) t m s'(2)])
    moreover have "consistent (D - {(lpn, i)}) (lookup P s') (unitAt s')"
      unfolding U by (rule consistent_write [OF J(4) d e L])
    ultimately show "pm_inv_but (D - {(lpn, i)}) P s' \<and>
       lookup P s' = (\<lambda>x j. if x = lpn \<and> j = i then Some (k, ?p) else lookup P s x j) \<and>
       unitAt s' = (unitAt s)((k, ?p, i) := Valid lpn)"
      using L U by (simp add: pm_inv_but_def)
  qed
qed

section \<open>Returning an erased block to the pool\<close>

lemma insertFromBack_split:
  "\<exists>ys zs. xs = ys @ zs \<and> insertFromBack b xs = ys @ b # zs \<and> (\<forall>y\<in>set ys. eraseCount b < eraseCount y) \<and>
     (zs \<noteq> [] \<longrightarrow> eraseCount (hd zs) \<le> eraseCount b)"
proof (induction xs)
  case Nil
  then show ?case by simp
next
  case (Cons x xs)
  then obtain ys zs where yz: "xs = ys @ zs" "insertFromBack b xs = ys @ b # zs" "\<forall>y\<in>set ys. eraseCount b < eraseCount y"
    "zs \<noteq> [] \<longrightarrow> eraseCount (hd zs) \<le> eraseCount b" by blast
  show ?case
  proof (cases "eraseCount x \<le> eraseCount b")
    case True
    then show ?thesis by (intro exI [of _ "[]"] exI [of _ "x # xs"]) simp
  next
    case False
    with yz show ?thesis by (intro exI [of _ "x # ys"] exI [of _ zs]) auto
  qed
qed

text \<open>The erased block goes behind every block with at most as many erases and before all others.\<close>

lemma insertFreeBlock_split:
  assumes "fbs \<noteq> []"
  obtains ys zs where "fbs = ys @ zs" "insertFreeBlock b fbs = Inr (ys @ b # zs)"
    "\<forall>z\<in>set zs. eraseCount b < eraseCount z" "ys \<noteq> [] \<Longrightarrow> eraseCount (last ys) \<le> eraseCount b"
proof -
  obtain ys zs where yz: "rev fbs = ys @ zs" "insertFromBack b (rev fbs) = ys @ b # zs" "\<forall>y\<in>set ys. eraseCount b < eraseCount y"
     "zs \<noteq> [] \<longrightarrow> eraseCount (hd zs) \<le> eraseCount b"
    using insertFromBack_split [of "rev fbs" b] by blast
  have "fbs = rev zs @ rev ys" using yz(1) by (metis rev_append rev_rev_ident)
  moreover have "insertFreeBlock b fbs = Inr (rev zs @ b # rev ys)" using assms yz(2) by (simp add: insertFreeBlock_def)
  ultimately show thesis using that [of "rev zs" "rev ys"] yz(3,4) by (simp add: last_rev)
qed

lemma sorted_insertFreeBlock:
  assumes "sorted (map eraseCount (ys @ zs))" "\<forall>z\<in>set zs. eraseCount b < eraseCount z"
    "ys \<noteq> [] \<Longrightarrow> eraseCount (last ys) \<le> eraseCount b"
  shows "sorted (map eraseCount (ys @ b # zs))"
proof -
  have "eraseCount y \<le> eraseCount b" if y: "y \<in> set ys" for y
  proof -
    obtain us where us: "ys = us @ [last ys]" using y by (metis append_butlast_last_id empty_iff empty_set)
    have "sorted (map eraseCount us @ [eraseCount (last ys)])" using assms(1) us by (metis list.map map_append sorted_append)
    then have "eraseCount y \<le> eraseCount (last ys)" using y us by (auto simp: sorted_append) (metis Un_iff empty_iff insert_iff list.set order_refl set_append)
    also have "\<dots> \<le> eraseCount b" by (rule assms(3)) (use y in auto)
    finally show ?thesis .
  qed
  then show ?thesis using assms(1,2) by (auto simp: sorted_append less_imp_le)
qed

lemma pool_inv_insert:
  assumes I: "pool_inv P s" and b: "geometry P b" "clean b" "blocks s (blkIdx b) = None"
    and fb: "freeBlocks s = ys @ zs" and srt: "sorted (map eraseCount (ys @ b # zs))" and nw: "blkIdx b \<notin> blkIdx ` set (freeBlocks s)"
  shows "pool_inv P (s\<lparr>freeBlocks := ys @ b # zs, nFreeBlocks := nFreeBlocks s + 1\<rparr>)"
proof -
  have "distinct (map blkIdx (ys @ b # zs))" using I fb nw by (auto simp: pool_inv_def)
  moreover have "\<forall>c\<in>set (ys @ b # zs). geometry P c \<and> clean c \<and> blocks s (blkIdx c) = None"
    using I fb b by (auto simp: pool_inv_def)
  moreover have "nFreeBlocks s + 1 = length (ys @ b # zs)" using I fb by (simp add: pool_inv_def)
  moreover have "\<forall>k c. blocks s k = Some c \<longrightarrow> geometry P c \<and> blkIdx c = k" using I by (simp add: pool_inv_def)
  ultimately show ?thesis unfolding pool_inv_def using srt by simp
qed

lemma pool_inv_remove: "pool_inv P s \<Longrightarrow> pool_inv P (s\<lparr>blocks := (blocks s)(k := None)\<rparr>)"
  by (auto simp: pool_inv_def)

text \<open>Two states that hold the same valid units are consistent with the same mapping.\<close>

lemma consistent_cong_valid:
  assumes "\<And>b p i lpn. U' (b, p, i) = Valid lpn \<longleftrightarrow> U (b, p, i) = Valid lpn" shows "consistent D L U' = consistent D L U"
  by (simp add: consistent_def assms)

text \<open>
  Erasing a block without valid units that is no write stream returns it to the pool, unless
  it is worn out, and keeps the mapping.
\<close>

lemma eraseInternal_ok:
  assumes I: "pm_inv_but D P s" and b: "blocks s k = Some b" and v: "\<And>x lpn. block_view b x \<noteq> Valid lpn"
    and k: "k \<notin> set (lastFreeBlock s)" and ne: "freeBlocks s \<noteq> []" and r: "prBlockIndex req = k"
  obtains s' t' where "eraseInternal P req t s = Inr (s', t')" "pm_inv_but D P s'"
    "blocks s' = (blocks s)(k := None)" "table s' = table s" "lastFreeBlock s' = lastFreeBlock s" "freeBlocks s' \<noteq> []"
    "nFreeBlocks s' = nFreeBlocks s + (if (eraseCount b + 1) mod 2 ^ 32 < cfgBadBlockThreshold P then 1 else 0)"
proof -
  note J = pm_inv_butD [OF I]
  have g: "geometry P b" "blkIdx b = k" using J(1) b by (auto simp: pool_inv_def)
  then have B: "Block_inv b" by (simp add: geometry_def)
  note E = Block_erase_block [OF Block_inv_layout [OF B]]
  let ?e = "Block_erase b"
  have ge: "geometry P ?e" "clean ?e" "blkIdx ?e = k" using E g by (auto simp: geometry_def clean_def)
  have v0: "Block_getValidPageCount b = 0" using Block_getValidPageCount_0 [OF B] v by blast
  define u where "u = fst (palErase P req t (s\<lparr>blocks := (blocks s)(k \<mapsto> ?e)\<rparr>))"
  define t1 where "t1 = snd (palErase P req t (s\<lparr>blocks := (blocks s)(k \<mapsto> ?e)\<rparr>))"
  have u: "untouched (s\<lparr>blocks := (blocks s)(k \<mapsto> ?e)\<rparr>) u" unfolding u_def by (rule service_untouched)
  then have uf: "blocks u = (blocks s)(k \<mapsto> ?e)" "freeBlocks u = freeBlocks s" "nFreeBlocks u = nFreeBlocks s" "table u = table s"
    "lastFreeBlock u = lastFreeBlock s" "lastFreeBlockIndex u = lastFreeBlockIndex s" "lastFreeBlockIOMap u = lastFreeBlockIOMap s"
    by (simp_all add: untouched_def)
  obtain ys zs where yz: "freeBlocks s = ys @ zs" "insertFreeBlock ?e (freeBlocks s) = Inr (ys @ ?e # zs)"
    "\<forall>z\<in>set zs. eraseCount ?e < eraseCount z" "ys \<noteq> [] \<Longrightarrow> eraseCount (last ys) \<le> eraseCount ?e"
    using insertFreeBlock_split [OF ne, of ?e] by blast
  let ?ok = "eraseCount ?e < cfgBadBlockThreshold P"
  define w where "w = (if ?ok then u\<lparr>freeBlocks := ys @ ?e # zs, nFreeBlocks := nFreeBlocks u + 1\<rparr> else u)
    \<lparr>blocks := (blocks s)(k := None)\<rparr>"
  define s' where "s' = fst (addLatency P FN_ERASE_INTERNAL t1 w)"
  have s': "untouched w s'" unfolding s'_def by (rule service_untouched)
  have eq: "eraseInternal P req t s = Inr (s', snd (addLatency P FN_ERASE_INTERNAL t1 w))"
    by (simp add: eraseInternal_def r b v0 Let_def u_def [symmetric] t1_def [symmetric] uf yz(2) s'_def w_def split_beta)
  have wf: "blocks w = (blocks s)(k := None)" "table w = table s" "lastFreeBlock w = lastFreeBlock s"
    "lastFreeBlockIndex w = lastFreeBlockIndex s" "lastFreeBlockIOMap w = lastFreeBlockIOMap s"
    "freeBlocks w = (if ?ok then ys @ ?e # zs else freeBlocks s)"
    "nFreeBlocks w = (if ?ok then nFreeBlocks s + 1 else nFreeBlocks s)"
    by (simp_all add: w_def uf)
  have nw: "k \<notin> blkIdx ` set (freeBlocks s)" using J(1) b by (auto simp: pool_inv_def)
  let ?r = "s\<lparr>blocks := (blocks s)(k := None)\<rparr>"
  have R: "pool_inv P ?r" using J(1) by (rule pool_inv_remove)
  have srt: "sorted (map eraseCount (ys @ ?e # zs))"
    using J(1) yz by (intro sorted_insertFreeBlock) (auto simp: pool_inv_def)
  have "pool_inv P (?r\<lparr>freeBlocks := ys @ ?e # zs, nFreeBlocks := nFreeBlocks ?r + 1\<rparr>)"
    using pool_inv_insert [OF R ge(1,2) _ _ srt] ge(3) nw yz(1) by simp
  with R have "pool_inv P w" by (cases ?ok) (simp_all add: pool_inv_def wf)
  moreover have "active_inv P w" using J(2) k by (auto simp: active_inv_def wf)
  moreover have "table_inv P w" using J(3) by (simp add: table_inv_def wf)
  moreover have "consistent D (lookup P w) (unitAt w)"
  proof -
    have "unitAt w (a, p, i) = Valid lpn \<longleftrightarrow> unitAt s (a, p, i) = Valid lpn" for a p i lpn
      using v b by (auto simp: unitAt_def wf)
    moreover have "lookup P w = lookup P s" by (rule lookup_cong) (rule wf)
    ultimately show ?thesis using J(4) consistent_cong_valid by metis
  qed
  ultimately have "pm_inv_but D P w" by (simp add: pm_inv_but_def)
  then have "pm_inv_but D P s'" by (simp add: untouched_inv(1) [OF s'])
  moreover have "nFreeBlocks s' = nFreeBlocks s + (if (eraseCount b + 1) mod 2 ^ 32 < cfgBadBlockThreshold P then 1 else 0)"
    "freeBlocks s' \<noteq> []"
    using E(7) ne by (simp_all add: untouched_inv [OF s'] wf)
  ultimately show thesis
    using that [OF eq] by (simp add: untouched_inv [OF s'] wf)
qed

section \<open>The constructor\<close>

lemma makeBlocks_ok:
  assumes P: "ctx_ok P"
  shows "runs_to (makeBlocks P) (\<lambda>bs. map blkIdx bs = [0..<totalPhysicalBlocks P] \<and>
    (\<forall>b\<in>set bs. geometry P b \<and> clean b \<and> eraseCount b = 0))"
  unfolding makeBlocks_def
proof (rule foldR_runs_to_prefix [where I = "\<lambda>ys bs. map blkIdx bs = ys \<and>
    (\<forall>b\<in>set bs. geometry P b \<and> clean b \<and> eraseCount b = 0)"])
  fix ys x zs bs
  assume "[0..<totalPhysicalBlocks P] = ys @ x # zs" and I: "map blkIdx bs = ys \<and> (\<forall>b\<in>set bs. geometry P b \<and> clean b \<and> eraseCount b = 0)"
  then have x: "x < totalPhysicalBlocks P" using upt_prefix by blast
  obtain b where "Block_new x (pagesInBlock P) (ioUnitInPage P) = Inr b" "geometry P b" "clean b" "blkIdx b = x" "eraseCount b = 0"
    using Block_new_block [of "pagesInBlock P" "ioUnitInPage P" x] P x by (auto simp: ctx_ok_def geometry_def clean_def)
  with I show "runs_to (bindR (Block_new x (pagesInBlock P) (ioUnitInPage P)) (\<lambda>b. Inr (bs @ [b])))
      (\<lambda>bs. map blkIdx bs = ys @ [x] \<and> (\<forall>b\<in>set bs. geometry P b \<and> clean b \<and> eraseCount b = 0))"
    by auto
qed simp

definition starting :: "'w pm_ctx \<Rightarrow> nat \<Rightarrow> 'w pm \<Rightarrow> bool" where
  "starting P n s \<longleftrightarrow>
     pool_inv P s \<and> nFreeBlocks s = totalPhysicalBlocks P - n \<and> table s = Map.empty \<and> unitAt s = (\<lambda>_. Erased) \<and>
     length (lastFreeBlock s) = pageCountToMaxPerf P \<and> distinct (take n (lastFreeBlock s)) \<and>
     set (take n (lastFreeBlock s)) \<subseteq> dom (blocks s) \<and> lastFreeBlockIndex s = 0 \<and>
     lastFreeBlockIOMap s = Bitset_new (ioUnitInPage P)"

lemma starting_step:
  assumes S: "starting P i s" and i: "i < pageCountToMaxPerf P" and n: "pageCountToMaxPerf P \<le> totalPhysicalBlocks P"
  shows "runs_to (bindR (getFreeBlock P i s) (\<lambda>(b, s). Inr (s\<lparr>lastFreeBlock := (lastFreeBlock s)[i := b]\<rparr>))) (starting P (Suc i))"
proof -
  have Pool: "pool_inv P s" and f: "0 < nFreeBlocks s" and fr: "nFreeBlocks s = totalPhysicalBlocks P - i"
    and len: "i < length (lastFreeBlock s)" using S i n by (auto simp: starting_def)
  obtain pre b post where fb: "freeBlocks s = pre @ b # post" and g: "getFreeBlock P i s = Inr (blkIdx b,
       s\<lparr>blocks := (blocks s)(blkIdx b \<mapsto> b), freeBlocks := pre @ post, nFreeBlocks := nFreeBlocks s - 1\<rparr>)"
    using getFreeBlock_takes [OF Pool i f] by metis
  define v where "v = s\<lparr>blocks := (blocks s)(blkIdx b \<mapsto> b), freeBlocks := pre @ post, nFreeBlocks := nFreeBlocks s - 1\<rparr>"
  note V = pool_inv_take [OF Pool fb v_def]
  define s' where "s' = v\<lparr>lastFreeBlock := (lastFreeBlock s)[i := blkIdx b]\<rparr>"
  have "pool_inv P s'" using V(1) pool_inv_cong [of s' v P] by (simp add: s'_def)
  moreover have "unitAt s' = unitAt s" using V(2) unitAt_cong [of s' v] by (simp add: s'_def)
  moreover have "take (Suc i) ((lastFreeBlock s)[i := blkIdx b]) = take i (lastFreeBlock s) @ [blkIdx b]"
    using len by (simp add: take_Suc_conv_app_nth)
  ultimately have "starting P (Suc i) s'"
    using S V(3) fr by (auto simp: starting_def s'_def v_def)
  then show ?thesis by (simp add: g s'_def v_def)
qed

lemma PageMapping_new_starting:
  assumes P: "ctx_ok P" and n: "pageCountToMaxPerf P \<le> totalPhysicalBlocks P"
  shows "runs_to (PageMapping_new P w) (starting P (pageCountToMaxPerf P))"
proof -
  obtain bs where bs: "makeBlocks P = Inr bs" "map blkIdx bs = [0..<totalPhysicalBlocks P]"
    "\<forall>b\<in>set bs. geometry P b \<and> clean b \<and> eraseCount b = 0"
    using makeBlocks_ok [OF P] by (auto simp: runs_to_iff)
  define s :: "'a pm" where "s = \<lparr>table = Map.empty, blocks = Map.empty, freeBlocks = bs, nFreeBlocks = totalPhysicalBlocks P,
                lastFreeBlock = replicate (pageCountToMaxPerf P) 0,
                lastFreeBlockIOMap = Bitset_new (ioUnitInPage P), lastFreeBlockIndex = 0, bReclaimMore = False,
                gcCount = 0, reclaimedBlocks = 0, validSuperPageCopies = 0, validPageCopies = 0, world = w\<rparr>"
  have e0: "map eraseCount bs = replicate (length bs) 0" using bs(3) by (induction bs) auto
  have "length bs = totalPhysicalBlocks P" using bs(2) by (metis length_map length_upt minus_nat.diff_0)
  then have "starting P 0 s"
    using bs e0 by (simp add: starting_def pool_inv_def unitAt_def s_def fun_eq_iff)
  have "runs_to (foldR (\<lambda>i s. bindR (getFreeBlock P i s) (\<lambda>(b, s). Inr (s\<lparr>lastFreeBlock := (lastFreeBlock s)[i := b]\<rparr>)))
      [0..<pageCountToMaxPerf P] s) (starting P (length [0..<pageCountToMaxPerf P]))"
  proof (rule foldR_runs_to_prefix [where I = "\<lambda>ys. starting P (length ys)"])
    fix ys x zs s
    assume xs: "[0..<pageCountToMaxPerf P] = ys @ x # zs" and S: "starting P (length ys) s"
    note U = upt_prefix [OF xs]
    show "runs_to (bindR (getFreeBlock P x s) (\<lambda>(b, s). Inr (s\<lparr>lastFreeBlock := (lastFreeBlock s)[x := b]\<rparr>))) (starting P (length (ys @ [x])))"
      using starting_step [of P x s] S U n by simp
  qed (use \<open>starting P 0 s\<close> in simp)
  then show ?thesis by (simp add: PageMapping_new_def bs(1) s_def)
qed

lemma starting_pm_inv:
  assumes "starting P (pageCountToMaxPerf P) s" "ctx_ok P" shows "pm_inv P s"
proof -
  have "take (pageCountToMaxPerf P) (lastFreeBlock s) = lastFreeBlock s" using assms by (simp add: starting_def)
  with assms show ?thesis
    by (simp add: starting_def pm_inv_but_def active_inv_def table_inv_def consistent_def lookup_def ctx_ok_def Bitset_new_wf)
qed

end
