(* ===== verification/PM_Write.thy ===== *)
theory PM_Write
  imports PM_Invariant
begin

text \<open>
  Reading, writing and trimming keep the invariant, return without a panic while a free
  block is left, and do to the mapping what their names say. The abstract state is the set
  of stored units, pairs of a logical page and a unit in it.
\<close>

section \<open>Requests\<close>

definition selected :: "'w pm_ctx \<Rightarrow> ftl_request \<Rightarrow> nat \<Rightarrow> bool" where
  "selected P req i \<longleftrightarrow> Bitset_test (frIoFlag req) i \<or> \<not> bRandomTweak P"

definition req_ok :: "'w pm_ctx \<Rightarrow> ftl_request \<Rightarrow> bool" where
  "req_ok P req \<longleftrightarrow> Bitset_wf (frIoFlag req) \<and> dataSize (frIoFlag req) = ioUnitInPage P"

lemma bitsetSize_le: "ctx_ok P \<Longrightarrow> bitsetSize P \<le> ioUnitInPage P"
  by (auto simp: bitsetSize_def ctx_ok_def)

lemma lookup_bounds:
  "table_inv P s \<Longrightarrow> lookup P s lpn i = Some m \<Longrightarrow> i < bitsetSize P \<and> mapped P m"
  by (auto simp: lookup_def table_inv_def split: option.splits if_splits)

lemma lookup_table:
  assumes "table_inv P s" "table s lpn = Some ml" "i < bitsetSize P"
  shows "lookup P s lpn i = (if mapped P (ml ! i) then Some (ml ! i) else None)" "i < length ml"
  using assms by (auto simp: lookup_def table_inv_def)

lemma pool_inv_used: "pool_inv P s \<Longrightarrow> blocks s k = Some b \<Longrightarrow> geometry P b \<and> blkIdx b = k"
  by (simp add: pool_inv_def)

section \<open>Reading\<close>

text \<open>A read moves the access times of blocks in use and the state of the layers below only.\<close>

definition accessed :: "'w pm \<Rightarrow> 'w pm \<Rightarrow> bool" where
  "accessed s s' \<longleftrightarrow> (\<exists>w bs. s' = s\<lparr>blocks := bs, world := w\<rparr> \<and>
     (\<forall>k. rel_option (\<lambda>b b'. block_frame b b' \<and> block_view b' = block_view b \<and> block_next b' = block_next b \<and>
            (Block_inv b \<longrightarrow> Block_inv b')) (blocks s k) (bs k)))"

lemma accessed_refl: "accessed s s"
  unfolding accessed_def
  by (intro exI [of _ "world s"] exI [of _ "blocks s"]) (simp add: option.rel_refl block_frame_def)

lemma accessed_world: "accessed s s' \<Longrightarrow> accessed s (s'\<lparr>world := w\<rparr>)"
  by (fastforce simp: accessed_def)

lemma accessed_block:
  assumes "accessed s s'" "blocks s k = Some b"
  obtains b' where "blocks s' k = Some b'" "block_frame b b'" "block_view b' = block_view b" "Block_inv b \<Longrightarrow> Block_inv b'"
  using assms by (fastforce simp: accessed_def option_rel_Some1 dest!: spec [of _ k])

lemma accessed_step:
  assumes A: "accessed s s'" and b: "blocks s' k = Some b'" and f: "block_frame b' b''" "block_view b'' = block_view b'"
    "block_next b'' = block_next b'" "Block_inv b''"
  shows "accessed s (s'\<lparr>blocks := (blocks s')(k \<mapsto> b'')\<rparr>)"
proof -
  obtain w bs where s': "s' = s\<lparr>blocks := bs, world := w\<rparr>"
    and R: "\<And>k. rel_option (\<lambda>b b'. block_frame b b' \<and> block_view b' = block_view b \<and> block_next b' = block_next b \<and>
            (Block_inv b \<longrightarrow> Block_inv b')) (blocks s k) (bs k)"
    using A by (auto simp: accessed_def)
  show ?thesis
    unfolding accessed_def
  proof (intro exI [of _ w] exI [of _ "bs(k \<mapsto> b'')"] conjI allI)
    show "rel_option (\<lambda>b b'. block_frame b b' \<and> block_view b' = block_view b \<and> block_next b' = block_next b \<and>
            (Block_inv b \<longrightarrow> Block_inv b')) (blocks s j) ((bs(k \<mapsto> b'')) j)" for j
      using R [of j] b f by (auto simp: s' option_rel_Some2 block_frame_def)
  qed (simp add: s')
qed

lemma accessed_inv:
  assumes A: "accessed s s'" and I: "pm_inv_but D P s"
  shows "pm_inv_but D P s'" "lookup P s' = lookup P s" "unitAt s' = unitAt s" "table s' = table s" "nFreeBlocks s' = nFreeBlocks s"
    "lastFreeBlock s' = lastFreeBlock s" "freeBlocks s' = freeBlocks s"
proof -
  note J = pm_inv_butD [OF I]
  obtain w bs where s': "s' = s\<lparr>blocks := bs, world := w\<rparr>"
    and R: "\<And>k. rel_option (\<lambda>b b'. block_frame b b' \<and> block_view b' = block_view b \<and> block_next b' = block_next b \<and>
            (Block_inv b \<longrightarrow> Block_inv b')) (blocks s k) (bs k)"
    using A by (auto simp: accessed_def)
  show F: "table s' = table s" "nFreeBlocks s' = nFreeBlocks s" "lastFreeBlock s' = lastFreeBlock s" "freeBlocks s' = freeBlocks s"
    by (simp_all add: s')
  show L: "lookup P s' = lookup P s" by (rule lookup_cong) (simp add: s')
  show U: "unitAt s' = unitAt s"
  proof
    fix x show "unitAt s' x = unitAt s x"
      using R [of "fst x"] by (cases x; cases "blocks s (fst x)") (auto simp: unitAt_def s' option_rel_Some1)
  qed
  have dm: "dom bs = dom (blocks s)"
  proof (rule set_eqI)
    show "k \<in> dom bs \<longleftrightarrow> k \<in> dom (blocks s)" for k using R [of k] by (cases "blocks s k"; cases "bs k") auto
  qed
  have "geometry P b \<and> blkIdx b = k" if b: "bs k = Some b" for k b
  proof -
    obtain c where "blocks s k = Some c" "block_frame c b" "Block_inv c \<longrightarrow> Block_inv b"
      using R [of k] b by (auto simp: option_rel_Some2)
    with pool_inv_used [OF J(1), of k c] show ?thesis by (auto simp: geometry_def block_frame_def)
  qed
  moreover have "blocks s k = None \<Longrightarrow> bs k = None" for k using R [of k] by simp
  ultimately have "pool_inv P s'" using J(1) by (simp add: pool_inv_def s')
  moreover have "active_inv P s'" using J(2) dm by (simp add: active_inv_def s')
  ultimately show "pm_inv_but D P s'" using J(3,4) L U by (simp add: pm_inv_but_def table_inv_def s')
qed

text \<open>The requests a read sends to the flash: one per selected unit that is stored, to its copy.\<close>

definition readRequest :: "'w pm_ctx \<Rightarrow> ftl_request \<Rightarrow> 'w pm \<Rightarrow> nat \<Rightarrow> pal_request option" where
  "readRequest P req s i =
     (if selected P req i then
        map_option (\<lambda>m. (PAL_Request_ftl req)\<lparr>prBlockIndex := fst m, prPageIndex := snd m,
                          prIoFlag := unitFlag P (frIoFlag req) i\<rparr>) (lookup P s (frLpn req) i)
      else None)"

definition issueReads :: "'w pm_ctx \<Rightarrow> tick \<Rightarrow> pal_request list \<Rightarrow> 'w \<times> tick \<Rightarrow> 'w \<times> tick" where
  "issueReads P t = fold (\<lambda>r (w, fin). let (w, b) = dPalRead (dev P) w r t in (w, max fin b))"

lemma readUnit_ok:
  assumes I: "pm_inv_but D P s0" and D: "\<And>i. (frLpn req, i) \<notin> D" and A: "accessed s0 s" and P: "ctx_ok P" and i: "i < bitsetSize P"
    and t: "table s0 (frLpn req) = Some ml"
  obtains s' fin' where "readUnit P req ml t i (s, fin) = Inr (s', fin')" "accessed s0 s'"
    "(world s', fin') = issueReads P t (List.map_filter (readRequest P req s0) [i]) (world s, fin)"
proof -
  note J = pm_inv_butD [OF I]
  note L = lookup_table [OF J(3) t i]
  show thesis
  proof (cases "selected P req i \<and> mapped P (ml ! i)")
    case False
    then show thesis
      using that [of s fin] A L by (auto simp: readUnit_def selected_def readRequest_def issueReads_def Let_def)
  next
    case True
    obtain k p where m: "ml ! i = (k, p)" by (cases "ml ! i")
    have lk: "lookup P s0 (frLpn req) i = Some (k, p)" using L True m by simp
    then have "unitAt s0 (k, p, i) = Valid (frLpn req)" using consistentD [OF J(4) D] by blast
    then obtain b where b: "blocks s0 k = Some b" "geometry P b" "p < pagesInBlock P" "i < ioUnitInPage P"
      using unitAt_Valid [OF J(1)] by metis
    obtain b' where b': "blocks s k = Some b'" "block_frame b b'" "Block_inv b'"
      using accessed_block [OF A b(1)] b(2) by (auto simp: geometry_def)
    have pb: "p < blkPageCount b'" "i < blkIoUnit b'" using b b' by (auto simp: geometry_def block_frame_def)
    obtain b'' r where r: "Block_read b' p i t = Inr (r, b'')" "Block_inv b''" "block_frame b' b''" "block_view b'' = block_view b'"
      "block_next b'' = block_next b'"
      using Block_read_unit [OF b'(3) pb] by metis
    let ?s = "s\<lparr>blocks := (blocks s)(k \<mapsto> b'')\<rparr>"
    let ?r = "(PAL_Request_ftl req)\<lparr>prBlockIndex := k, prPageIndex := p, prIoFlag := unitFlag P (frIoFlag req) i\<rparr>"
    obtain w b1 where w: "dPalRead (dev P) (world s) ?r t = (w, b1)" by (cases "dPalRead (dev P) (world s) ?r t")
    have "readUnit P req ml t i (s, fin) = Inr (?s\<lparr>world := w\<rparr>, max fin b1)"
      using True L(2) m b'(1) r(1) w
      by (simp add: readUnit_def selected_def updBlock_def palRead_def Let_def)
    moreover have "accessed s0 (?s\<lparr>world := w\<rparr>)"
      by (rule accessed_world, rule accessed_step [OF A b'(1) r(3,4,5,2)])
    moreover have "readRequest P req s0 i = Some ?r" using True lk by (simp add: readRequest_def)
    ultimately show thesis using that w by (simp add: issueReads_def)
  qed
qed

lemma map_filter_append: "List.map_filter f (xs @ ys) = List.map_filter f xs @ List.map_filter f ys"
  by (simp add: List.map_filter_def)

lemma readUnits_ok:
  assumes I: "pm_inv_but D P s" and D: "\<And>i. (frLpn req, i) \<notin> D" and P: "ctx_ok P" and t: "table s (frLpn req) = Some ml"
    and s1: "accessed s s1"
  shows "runs_to (foldR (readUnit P req ml t) [0..<bitsetSize P] (s1, fin)) (\<lambda>(s', fin'). accessed s s' \<and>
     (world s', fin') = issueReads P t (List.map_filter (readRequest P req s) [0..<bitsetSize P]) (world s1, fin))"
proof (rule foldR_runs_to_prefix [where I = "\<lambda>ys (s', fin'). accessed s s' \<and>
     (world s', fin') = issueReads P t (List.map_filter (readRequest P req s) ys) (world s1, fin)"])
  fix ys x zs and s' :: "'a pm \<times> tick"
  assume xs: "[0..<bitsetSize P] = ys @ x # zs" and "case s' of (s', fin') \<Rightarrow> accessed s s' \<and>
     (world s', fin') = issueReads P t (List.map_filter (readRequest P req s) ys) (world s1, fin)"
  then obtain u fu where s': "s' = (u, fu)" and u: "accessed s u"
    "(world u, fu) = issueReads P t (List.map_filter (readRequest P req s) ys) (world s1, fin)" by (cases s') auto
  obtain v fv where v: "readUnit P req ml t x (u, fu) = Inr (v, fv)" "accessed s v"
    "(world v, fv) = issueReads P t (List.map_filter (readRequest P req s) [x]) (world u, fu)"
    using readUnit_ok [OF I D u(1) P upt_prefix(2) [OF xs] t] by metis
  then show "runs_to (readUnit P req ml t x s') (\<lambda>(s', fin'). accessed s s' \<and>
     (world s', fin') = issueReads P t (List.map_filter (readRequest P req s) (ys @ [x])) (world s1, fin))"
    using u by (simp add: s' map_filter_append issueReads_def del: map_filter_simps)
qed (use s1 in \<open>simp add: issueReads_def List.map_filter_def\<close>)

text \<open>The DRAM access and the reads of a mapped page, then the latency of the firmware.\<close>

definition readEffect :: "'w pm_ctx \<Rightarrow> ftl_request \<Rightarrow> tick \<Rightarrow> 'w pm \<Rightarrow> 'w \<times> tick" where
  "readEffect P req t s =
     (if table s (frLpn req) = None then (world s, t)
      else
        let (w, t1) = dDramRead (dev P) (world s)
              (word_of_nat (if bRandomTweak P then 8 * Bitset_count (frIoFlag req) else 8)) t;
            (w, fin) = issueReads P t1 (List.map_filter (readRequest P req s) [0..<bitsetSize P]) (w, t);
            (w, l) = dApplyLatency (dev P) w NS_FTL__PAGE_MAPPING FN_READ_INTERNAL
        in (w, fin + l))"

lemma readInternal_ok:
  assumes I: "pm_inv P s" and P: "ctx_ok P"
  obtains s' t' where "readInternal P req t s = Inr (s', t')" "accessed s s'" "(world s', t') = readEffect P req t s"
proof (cases "table s (frLpn req)")
  case None
  then show thesis using that [of s t] accessed_refl [of s] by (simp add: readInternal_def readEffect_def)
next
  case (Some ml)
  let ?n = "if bRandomTweak P then 8 * Bitset_count (frIoFlag req) else 8"
  obtain w t1 where d: "dDramRead (dev P) (world s) (word_of_nat ?n) t = (w, t1)"
    by (cases "dDramRead (dev P) (world s) (word_of_nat ?n) t")
  have d': "dramRead P ?n t s = (s\<lparr>world := w\<rparr>, t1)" using d by (simp add: dramRead_def)
  obtain u fin where u: "foldR (readUnit P req ml t1) [0..<bitsetSize P] (s\<lparr>world := w\<rparr>, t) = Inr (u, fin)" "accessed s u"
    "(world u, fin) = issueReads P t1 (List.map_filter (readRequest P req s) [0..<bitsetSize P]) (w, t)"
    using readUnits_ok [OF I _ P Some accessed_world [OF accessed_refl, of s w], where t = t1 and fin = t]
    by (auto simp: runs_to_iff)
  obtain w' l where l: "dApplyLatency (dev P) (world u) NS_FTL__PAGE_MAPPING FN_READ_INTERNAL = (w', l)"
    by (cases "dApplyLatency (dev P) (world u) NS_FTL__PAGE_MAPPING FN_READ_INTERNAL")
  have "readInternal P req t s = Inr (u\<lparr>world := w'\<rparr>, fin + l)"
    using Some d' u(1) l by (simp add: readInternal_def addLatency_def)
  moreover have "accessed s (u\<lparr>world := w'\<rparr>)" using u(2) by (rule accessed_world)
  moreover have "readEffect P req t s = (w', fin + l)"
    using Some d l by (simp add: readEffect_def u(3) [symmetric])
  ultimately show thesis using that by simp
qed

section \<open>Writing\<close>

text \<open>Programming and invalidating units leave the pool, the streams and the wear alone; write positions only grow.\<close>

definition progress :: "'w pm \<Rightarrow> 'w pm \<Rightarrow> bool" where
  "progress s s' \<longleftrightarrow>
     freeBlocks s' = freeBlocks s \<and> nFreeBlocks s' = nFreeBlocks s \<and> lastFreeBlock s' = lastFreeBlock s \<and>
     dom (blocks s') = dom (blocks s) \<and>
     (\<forall>k b. blocks s k = Some b \<longrightarrow> (\<exists>b'. blocks s' k = Some b' \<and> block_frame b b' \<and> (\<forall>i. block_next b i \<le> block_next b' i)))"

lemma progress_refl: "progress s s"
  by (auto simp: progress_def block_frame_def)

lemma progress_trans: "progress a b \<Longrightarrow> progress b c \<Longrightarrow> progress a c"
proof -
  assume ab: "progress a b" and bc: "progress b c"
  have "\<exists>z. blocks c k = Some z \<and> block_frame x z \<and> (\<forall>i. block_next x i \<le> block_next z i)" if x: "blocks a k = Some x" for k x
  proof -
    obtain y where y: "blocks b k = Some y" "block_frame x y" "\<And>i. block_next x i \<le> block_next y i"
      using ab x unfolding progress_def by blast
    obtain z where z: "blocks c k = Some z" "block_frame y z" "\<And>i. block_next y i \<le> block_next z i"
      using bc y(1) unfolding progress_def by blast
    show ?thesis using y z by (intro exI [of _ z]) (auto simp: block_frame_def intro: order_trans)
  qed
  then show "progress a c" using ab bc by (simp add: progress_def)
qed

lemma progress_untouched: "progress a b \<Longrightarrow> untouched b c \<Longrightarrow> progress a c"
  by (simp add: progress_def untouched_def)

lemma progress_upd:
  assumes "blocks s k = Some b" "block_frame b b'" "\<And>i. block_next b i \<le> block_next b' i" "blocks s' = (blocks s)(k \<mapsto> b')"
    "freeBlocks s' = freeBlocks s" "nFreeBlocks s' = nFreeBlocks s" "lastFreeBlock s' = lastFreeBlock s"
  shows "progress s s'"
  using assms by (auto simp: progress_def block_frame_def)

lemma invalidateOld_ok:
  assumes I: "pm_inv_but D P s" and d: "(frLpn req, i) \<notin> D" and i: "i < bitsetSize P" and t: "table s (frLpn req) = Some ml"
  obtains s' where "invalidateOld P req ml i s = Inr s'" "progress s s'" "table s' = table s"
    "pm_inv_but (if selected P req i then insert (frLpn req, i) D else D) P s'"
proof -
  note J = pm_inv_butD [OF I]
  note L = lookup_table [OF J(3) t i]
  consider "\<not> selected P req i" | "selected P req i" "\<not> mapped P (ml ! i)" | "selected P req i" "mapped P (ml ! i)" by blast
  then show thesis
  proof cases
    case 1
    then show thesis using that [of s] I progress_refl [of s] by (simp add: invalidateOld_def selected_def)
  next
    case 2
    then have "pm_inv_but (insert (frLpn req, i) D) P s"
      using J L by (simp add: pm_inv_but_def consistent_miss)
    then show thesis using that [of s] 2 L(2) progress_refl [of s] by (auto simp: invalidateOld_def selected_def Let_def)
  next
    case 3
    obtain k p where m: "ml ! i = (k, p)" by (cases "ml ! i")
    have lk: "lookup P s (frLpn req) i = Some (k, p)" using L 3 m by simp
    obtain b b' where b: "updBlock k (\<lambda>b. Block_invalidate b p i) s = Inr (s\<lparr>blocks := (blocks s)(k \<mapsto> b')\<rparr>)"
      "blocks s k = Some b" "block_frame b b'" "block_next b' = block_next b"
      "pm_inv_but (insert (frLpn req, i) D) P (s\<lparr>blocks := (blocks s)(k \<mapsto> b')\<rparr>)"
      by (rule invalidate_step [OF I d lk]) metis
    show thesis
    proof (rule that)
      show "invalidateOld P req ml i s = Inr (s\<lparr>blocks := (blocks s)(k \<mapsto> b')\<rparr>)"
        using b(1) 3 m L(2) by (auto simp: invalidateOld_def selected_def Let_def)
      show "progress s (s\<lparr>blocks := (blocks s)(k \<mapsto> b')\<rparr>)" by (rule progress_upd [OF b(2,3)]) (use b(4) in simp_all)
    qed (use b 3 in simp_all)
  qed
qed

text \<open>The pairs of the request whose position in the loop is in \<open>A\<close>.\<close>

definition dirtyPairs :: "'w pm_ctx \<Rightarrow> ftl_request \<Rightarrow> nat set \<Rightarrow> (u64 \<times> nat) set" where
  "dirtyPairs P req A = {(frLpn req, i) | i. i \<in> A \<and> selected P req i}"

lemma dirtyPairs_simps:
  "dirtyPairs P req {} = {}"
  "dirtyPairs P req (insert i A) = (if selected P req i then insert (frLpn req, i) (dirtyPairs P req A) else dirtyPairs P req A)"
  "(x, i) \<in> dirtyPairs P req A \<longleftrightarrow> x = frLpn req \<and> i \<in> A \<and> selected P req i"
  by (auto simp: dirtyPairs_def)

lemma invalidateAll_ok:
  assumes I: "pm_inv P s" and t: "table s (frLpn req) = Some ml"
  shows "runs_to (foldR (invalidateOld P req ml) [0..<bitsetSize P] s) (\<lambda>s'. progress s s' \<and> table s' = table s \<and>
     pm_inv_but (dirtyPairs P req (set [0..<bitsetSize P])) P s')"
proof (rule foldR_runs_to_prefix [where I = "\<lambda>ys s'. progress s s' \<and> table s' = table s \<and> pm_inv_but (dirtyPairs P req (set ys)) P s'"])
  fix ys x zs s'
  assume xs: "[0..<bitsetSize P] = ys @ x # zs" and A: "progress s s' \<and> table s' = table s \<and> pm_inv_but (dirtyPairs P req (set ys)) P s'"
  have x: "x < bitsetSize P" "x \<notin> set ys" using upt_prefix [OF xs] by auto
  then have d: "(frLpn req, x) \<notin> dirtyPairs P req (set ys)" by (simp add: dirtyPairs_simps)
  obtain v where "invalidateOld P req ml x s' = Inr v" "progress s' v" "table v = table s'"
    "pm_inv_but (if selected P req x then insert (frLpn req, x) (dirtyPairs P req (set ys)) else dirtyPairs P req (set ys)) P v"
    using invalidateOld_ok [of "dirtyPairs P req (set ys)" P s' req x ml] A d x t by metis
  with A show "runs_to (invalidateOld P req ml x s') (\<lambda>s'. progress s s' \<and> table s' = table s \<and> pm_inv_but (dirtyPairs P req (set (ys @ [x]))) P s')"
    using progress_trans by (auto simp: dirtyPairs_simps)
qed (use I progress_refl in \<open>simp add: dirtyPairs_simps\<close>)

text \<open>A page that was never written, or was trimmed, gets an entry that maps nothing.\<close>

lemma newEntry_ok:
  assumes I: "pm_inv P s" and t: "table s lpn = None"
    and s': "s' = s\<lparr>table := (table s)(lpn \<mapsto> replicate (bitsetSize P) (totalPhysicalBlocks P, pagesInBlock P))\<rparr>"
  shows "pm_inv P s'" "lookup P s' = lookup P s"
proof -
  note J = pm_inv_butD [OF I]
  show L: "lookup P s' = lookup P s" using t by (auto simp: lookup_def s' fun_eq_iff mapped_def)
  have "pool_inv P s'" "active_inv P s'" "unitAt s' = unitAt s"
    using J(1,2) by (simp_all add: s' pool_inv_def active_inv_def unitAt_def fun_eq_iff)
  moreover have "table_inv P s'" using J(3) by (auto simp: table_inv_def s')
  ultimately show "pm_inv P s'" using J(4) L by (simp add: pm_inv_but_def)
qed

lemma missAll:
  assumes "pm_inv P s" "\<And>i. lookup P s (frLpn req) i = None"
  shows "pm_inv_but (dirtyPairs P req {..<n}) P s"
proof (induction n)
  case (Suc n)
  then show ?case
    using consistent_miss [of "dirtyPairs P req {..<n}" "lookup P s" "unitAt s" "frLpn req" n] assms(2)
    by (simp add: pm_inv_but_def lessThan_Suc dirtyPairs_simps)
qed (use assms(1) in \<open>simp add: dirtyPairs_simps\<close>)

lemma prepare_ok:
  assumes I: "pm_inv P s"
  shows "runs_to (case table s (frLpn req) of
           Some mappingList \<Rightarrow> foldR (invalidateOld P req mappingList) [0..<bitsetSize P] s
         | None \<Rightarrow> Inr (s\<lparr>table := (table s)(frLpn req \<mapsto> replicate (bitsetSize P) (totalPhysicalBlocks P, pagesInBlock P))\<rparr>))
     (\<lambda>s'. progress s s' \<and> lookup P s' = lookup P s \<and> pm_inv_but (dirtyPairs P req {..<bitsetSize P}) P s' \<and>
        dom (table s') = insert (frLpn req) (dom (table s)))"
proof (cases "table s (frLpn req)")
  case None
  define s' where "s' = s\<lparr>table := (table s)(frLpn req \<mapsto> replicate (bitsetSize P) (totalPhysicalBlocks P, pagesInBlock P))\<rparr>"
  note N = newEntry_ok [OF I None s'_def]
  have "lookup P s' (frLpn req) i = None" for i using None N(2) by (simp add: lookup_def)
  then have "pm_inv_but (dirtyPairs P req {..<bitsetSize P}) P s'" by (rule missAll [OF N(1)])
  moreover have "progress s s'" by (auto simp: progress_def s'_def block_frame_def)
  ultimately show ?thesis using None N(2) by (simp add: s'_def)
next
  case (Some ml)
  have e: "set [0..<bitsetSize P] = {..<bitsetSize P}" by auto
  obtain s' where s': "foldR (invalidateOld P req ml) [0..<bitsetSize P] s = Inr s'" "progress s s'" "table s' = table s"
    "pm_inv_but (dirtyPairs P req {..<bitsetSize P}) P s'"
    using invalidateAll_ok [OF I Some] unfolding runs_to_iff e by blast
  moreover have "lookup P s' = lookup P s" by (rule lookup_cong) (rule s')
  ultimately show ?thesis using Some by auto
qed

lemma writeUnit_skip: "\<not> selected P req i \<Longrightarrow> writeUnit P req toPAL rbw k t i (s, fin) = Inr (s, fin)"
  by (simp add: writeUnit_def selected_def)

lemma writeUnit_ok:
  assumes I: "pm_inv_but D P s" and P: "ctx_ok P" and i: "i < bitsetSize P" and sel: "selected P req i" and d: "(frLpn req, i) \<in> D"
    and b: "blocks s k = Some b" and nx: "block_next b i < pagesInBlock P" and t: "table s (frLpn req) \<noteq> None"
  obtains s' fin' b' where "writeUnit P req toPAL rbw k tk i (s, fin) = Inr (s', fin')"
    "pm_inv_but (D - {(frLpn req, i)}) P s'" "progress s s'" "dom (table s') = dom (table s)"
    "lookup P s' = (\<lambda>x j. if x = frLpn req \<and> j = i then Some (k, block_next b i) else lookup P s x j)"
    "blocks s' k = Some b'" "block_next b' = (block_next b)(i := Suc (block_next b i))"
proof -
  note J = pm_inv_butD [OF I]
  obtain ml where ml: "table s (frLpn req) = Some ml" using t by blast
  have io: "i < ioUnitInPage P" using i bitsetSize_le [OF P] by simp
  have g: "geometry P b" using pool_inv_used [OF J(1) b] by simp
  then have at: "Block_getNextWritePageIndexAt b i = Inr (block_next b i)"
    using io by (simp add: Block_getNextWritePageIndexAt_next Block_inv_layout geometry_def)
  have len: "i < length ml" using lookup_table(2) [OF J(3) ml i] .
  obtain b' where b': "Block_write b (block_next b i) (frLpn req) i tk = Inr (True, b')" "block_frame b b'"
    "block_next b' = (block_next b)(i := Suc (block_next b i))"
    and W: "\<And>s'. blocks s' = (blocks s)(k \<mapsto> b') \<Longrightarrow> table s' = (table s)(frLpn req \<mapsto> ml[i := (k, block_next b i)]) \<Longrightarrow>
       freeBlocks s' = freeBlocks s \<Longrightarrow> nFreeBlocks s' = nFreeBlocks s \<Longrightarrow> lastFreeBlock s' = lastFreeBlock s \<Longrightarrow>
       lastFreeBlockIndex s' = lastFreeBlockIndex s \<Longrightarrow> lastFreeBlockIOMap s' = lastFreeBlockIOMap s \<Longrightarrow>
       pm_inv_but (D - {(frLpn req, i)}) P s' \<and>
       lookup P s' = (\<lambda>x j. if x = frLpn req \<and> j = i then Some (k, block_next b i) else lookup P s x j) \<and>
       unitAt s' = (unitAt s)((k, block_next b i, i) := Valid (frLpn req))"
    by (rule write_step [OF I d b i io nx ml]) blast
  define s1 where "s1 = s\<lparr>blocks := (blocks s)(k \<mapsto> b')\<rparr>"
  define s2 where "s2 = (if rbw \<and> toPAL then palRead P ((PAL_Request_ftl req)\<lparr>prBlockIndex := fst (ml ! i), prPageIndex := snd (ml ! i),
                                     prIoFlag := Bitset_flip_all (frIoFlag req)\<rparr>) tk s1 else (s1, tk))"
  have s2: "untouched s1 (fst s2)" by (simp add: s2_def service_untouched)
  define s3 where "s3 = (fst s2)\<lparr>table := (table (fst s2))(frLpn req \<mapsto> ml[i := (k, block_next b i)])\<rparr>"
  define s4 where "s4 = (if toPAL then palWrite P ((PAL_Request_ftl req)\<lparr>prBlockIndex := k, prPageIndex := block_next b i,
                                      prIoFlag := unitFlag P (frIoFlag req) i\<rparr>) (snd s2) s3 else (s3, snd s2))"
  have s4: "untouched s3 (fst s4)" by (simp add: s4_def service_untouched)
  have F: "blocks (fst s4) = (blocks s)(k \<mapsto> b')" "table (fst s4) = (table s)(frLpn req \<mapsto> ml[i := (k, block_next b i)])"
    "freeBlocks (fst s4) = freeBlocks s" "nFreeBlocks (fst s4) = nFreeBlocks s" "lastFreeBlock (fst s4) = lastFreeBlock s"
    "lastFreeBlockIndex (fst s4) = lastFreeBlockIndex s" "lastFreeBlockIOMap (fst s4) = lastFreeBlockIOMap s"
    using s4 s2 by (simp_all add: untouched_def s3_def s1_def)
  have eq: "writeUnit P req toPAL rbw k tk i (s, fin) = Inr (fst s4, cMAX fin (snd s4))"
    using sel b at ml len b'(1)
    by (cases toPAL; cases rbw; simp add: writeUnit_def selected_def updBlock_def Let_def split_beta s4_def s3_def s2_def s1_def)
  show thesis
  proof (rule that [OF eq])
    show "progress s (fst s4)" by (rule progress_upd [OF b b'(2)]) (use F b'(3) in simp_all)
    show "blocks (fst s4) k = Some b'" by (simp add: F)
    show "dom (table (fst s4)) = dom (table s)" using ml by (auto simp: F)
  qed (use W [OF F] b'(3) in simp_all)
qed

lemma writeUnits_ok:
  assumes I: "pm_inv_but (dirtyPairs P req {..<bitsetSize P}) P s" and P: "ctx_ok P"
    and b: "blocks s k = Some b" and nx: "\<And>i. block_next b i < pagesInBlock P" and t: "table s (frLpn req) \<noteq> None"
  shows "runs_to (foldR (writeUnit P req toPAL rbw k tk) [0..<bitsetSize P] (s, fin)) (\<lambda>(s', fin').
     pm_inv P s' \<and> progress s s' \<and> dom (table s') = dom (table s) \<and>
     lookup P s' = (\<lambda>x j. if x = frLpn req \<and> j < bitsetSize P \<and> selected P req j then Some (k, block_next b j) else lookup P s x j))"
proof -
  let ?I = "\<lambda>ys (s', fin').
     pm_inv_but (dirtyPairs P req ({..<bitsetSize P} - set ys)) P s' \<and> progress s s' \<and> dom (table s') = dom (table s) \<and>
     lookup P s' = (\<lambda>x j. if x = frLpn req \<and> j \<in> set ys \<and> selected P req j then Some (k, block_next b j) else lookup P s x j) \<and>
     (\<exists>b'. blocks s' k = Some b' \<and> (\<forall>j. j \<notin> set ys \<longrightarrow> block_next b' j = block_next b j))"
  have "runs_to (foldR (writeUnit P req toPAL rbw k tk) [0..<bitsetSize P] (s, fin)) (?I [0..<bitsetSize P])"
  proof (rule foldR_runs_to_prefix [where I = ?I])
    fix ys x zs and sf :: "'a pm \<times> tick"
    assume xs: "[0..<bitsetSize P] = ys @ x # zs" and A: "?I ys sf"
    have x: "x < bitsetSize P" "x \<notin> set ys" using upt_prefix [OF xs] by auto
    obtain u fu where sf: "sf = (u, fu)" by (cases sf)
    obtain b' where b': "blocks u k = Some b'" "\<And>j. j \<notin> set ys \<Longrightarrow> block_next b' j = block_next b j" using A sf by auto
    have Iu: "pm_inv_but (dirtyPairs P req ({..<bitsetSize P} - set ys)) P u" and pu: "progress s u" and du: "dom (table u) = dom (table s)"
      and Lu: "lookup P u = (\<lambda>x j. if x = frLpn req \<and> j \<in> set ys \<and> selected P req j then Some (k, block_next b j) else lookup P s x j)"
      using A sf by auto
    have rm: "{..<bitsetSize P} - set ys = insert x ({..<bitsetSize P} - set (ys @ [x]))" using x by auto
    show "runs_to (writeUnit P req toPAL rbw k tk x sf) (?I (ys @ [x]))"
    proof (cases "selected P req x")
      case False
      then show ?thesis
        using Iu pu du Lu b' unfolding sf writeUnit_skip [OF False] rm dirtyPairs_simps
        by (auto simp: fun_eq_iff)
    next
      case True
      have d: "(frLpn req, x) \<in> dirtyPairs P req ({..<bitsetSize P} - set ys)" using x True by (simp add: dirtyPairs_simps)
      have nxt: "block_next b' x < pagesInBlock P" using b'(2) x(2) nx by simp
      have tu: "table u (frLpn req) \<noteq> None" using t du by blast
      obtain v fv bv where v: "writeUnit P req toPAL rbw k tk x (u, fu) = Inr (v, fv)"
        "pm_inv_but (dirtyPairs P req ({..<bitsetSize P} - set ys) - {(frLpn req, x)}) P v" "progress u v" "dom (table v) = dom (table u)"
        "lookup P v = (\<lambda>y j. if y = frLpn req \<and> j = x then Some (k, block_next b' x) else lookup P u y j)"
        "blocks v k = Some bv" "block_next bv = (block_next b')(x := Suc (block_next b' x))"
        by (rule writeUnit_ok [OF Iu P x(1) True d b'(1) nxt tu]) blast
      have dd: "dirtyPairs P req ({..<bitsetSize P} - set ys) - {(frLpn req, x)} = dirtyPairs P req ({..<bitsetSize P} - set (ys @ [x]))"
        by (auto simp: dirtyPairs_def)
      have "lookup P v = (\<lambda>y j. if y = frLpn req \<and> j \<in> set (ys @ [x]) \<and> selected P req j then Some (k, block_next b j) else lookup P s y j)"
        unfolding v(5) Lu using b'(2) x(2) True by (auto simp: fun_eq_iff)
      moreover have "progress s v" using pu v(3) by (rule progress_trans)
      moreover have "\<forall>j. j \<notin> set (ys @ [x]) \<longrightarrow> block_next bv j = block_next b j" using v(7) b'(2) by simp
      ultimately show ?thesis using v du by (simp add: sf dd)
    qed
  qed (use I b progress_refl in \<open>auto simp: fun_eq_iff\<close>)
  then show ?thesis
  proof (rule runs_to_mono)
    fix sf assume A: "?I [0..<bitsetSize P] sf"
    have e: "{..<bitsetSize P} - {0..<bitsetSize P} = {}" by auto
    show "case sf of (s', fin') \<Rightarrow> pm_inv P s' \<and> progress s s' \<and> dom (table s') = dom (table s) \<and>
     lookup P s' = (\<lambda>x j. if x = frLpn req \<and> j < bitsetSize P \<and> selected P req j then Some (k, block_next b j) else lookup P s x j)"
      using A by (cases sf) (simp add: e dirtyPairs_simps)
  qed
qed

text \<open>
  The mapping part of a write: with a free block left it returns, keeps the invariant, and
  maps the selected units of the page to fresh units of one block; every other unit of
  every page stays where it is.
\<close>

lemma writeMapping_ok:
  assumes I: "pm_inv P s" and P: "ctx_ok P" and r: "req_ok P req" and n: "0 < nFreeBlocks s"
  obtains s' t' k pg where "writeMapping P req t toPAL s = Inr (s', t')" "pm_inv P s'"
    "lookup P s' = (\<lambda>x i. if x = frLpn req \<and> i < bitsetSize P \<and> selected P req i then Some (k, pg i) else lookup P s x i)"
    "dom (table s') = insert (frLpn req) (dom (table s))" "nFreeBlocks s \<le> Suc (nFreeBlocks s')"
    "set (lastFreeBlock s') \<subseteq> set (lastFreeBlock s) \<union> - dom (blocks s)"
proof -
  obtain u where u: "(case table s (frLpn req) of
           Some mappingList \<Rightarrow> foldR (invalidateOld P req mappingList) [0..<bitsetSize P] s
         | None \<Rightarrow> Inr (s\<lparr>table := (table s)(frLpn req \<mapsto> replicate (bitsetSize P) (totalPhysicalBlocks P, pagesInBlock P))\<rparr>)) = Inr u"
    and pu: "progress s u" and Lu: "lookup P u = lookup P s" and Iu: "pm_inv_but (dirtyPairs P req {..<bitsetSize P}) P u"
    and du: "dom (table u) = insert (frLpn req) (dom (table s))"
    using prepare_ok [OF I, of req] unfolding runs_to_iff by blast
  have fr: "Bitset_wf (frIoFlag req)" "dataSize (frIoFlag req) = ioUnitInPage P" using r by (auto simp: req_ok_def)
  have nu: "0 < nFreeBlocks u" "nFreeBlocks u = nFreeBlocks s" "lastFreeBlock u = lastFreeBlock s" "dom (blocks u) = dom (blocks s)"
    using n pu by (auto simp: progress_def)
  obtain k b v where v: "getLastFreeBlock P (frIoFlag req) u = Inr (k, v)" "pm_inv_but (dirtyPairs P req {..<bitsetSize P}) P v"
    "table v = table u" "nFreeBlocks u \<le> Suc (nFreeBlocks v)" "blocks v k = Some b" "\<And>i. block_next b i < pagesInBlock P"
    "set (lastFreeBlock v) \<subseteq> set (lastFreeBlock u) \<union> - dom (blocks u)"
    by (rule getLastFreeBlock_ok [OF Iu P fr nu(1)]) blast
  let ?n = "if bRandomTweak P then 8 * Bitset_count (frIoFlag req) else 8"
  let ?rbw = "\<not> bRandomTweak P \<and> \<not> Bitset_all (frIoFlag req)"
  define x where "x = (if toPAL then (let (s, t) = dramRead P ?n t v in dramWrite P ?n t s) else (v, t))"
  have x: "untouched v (fst x)"
    using untouched_trans [OF service_untouched(4) service_untouched(5)]
    by (auto simp: x_def Let_def split_beta)
  note X = untouched_inv [OF x]
  have tx: "table (fst x) (frLpn req) \<noteq> None" using v(3) X(7) du by auto
  obtain y fin where y: "foldR (writeUnit P req toPAL ?rbw k (snd x)) [0..<bitsetSize P] (fst x, t) = Inr (y, fin)"
    "pm_inv P y" "progress (fst x) y" "dom (table y) = dom (table (fst x))"
    "lookup P y = (\<lambda>z j. if z = frLpn req \<and> j < bitsetSize P \<and> selected P req j then Some (k, block_next b j) else lookup P (fst x) z j)"
    using writeUnits_ok [of P req "fst x" k b toPAL ?rbw "snd x" t] v(2,5,6) X P tx by (auto simp: runs_to_iff)
  define z where "z = (if toPAL then addLatency P FN_WRITE_INTERNAL fin y else (y, snd x))"
  have z: "untouched y (fst z)" by (simp add: z_def service_untouched)
  note Z = untouched_inv [OF z]
  have "writeMapping P req t toPAL s = Inr (fst z, snd z)"
    using u v(1,5) y(1) unfolding writeMapping_def Let_def
    by (cases toPAL; cases "bRandomTweak P"; simp add: x_def z_def Let_def split_beta)
  moreover have lx: "lookup P (fst x) = lookup P s" using X(2) lookup_cong [OF v(3)] Lu by simp
  moreover have "lookup P (fst z) = (\<lambda>x i. if x = frLpn req \<and> i < bitsetSize P \<and> selected P req i then Some (k, block_next b i) else lookup P s x i)"
    unfolding Z(2) y(5) lx ..
  ultimately show thesis
    using that [of "fst z" "snd z" k "block_next b"] y(2,3,4) Z X v(3,4,7) du nu by (simp add: progress_def)
qed

text \<open>The abstract state.\<close>

definition stored :: "'w pm_ctx \<Rightarrow> 'w pm \<Rightarrow> (u64 \<times> nat) set" where
  "stored P s = {(lpn, i). lookup P s lpn i \<noteq> None}"

definition requested :: "'w pm_ctx \<Rightarrow> ftl_request \<Rightarrow> (u64 \<times> nat) set" where
  "requested P req = {(frLpn req, i) | i. i < bitsetSize P \<and> selected P req i}"

section \<open>Trimming\<close>

lemma trimUnit_ok:
  assumes I: "pm_inv_but D P s" and d: "(lpn, i) \<notin> D" and i: "i < bitsetSize P" and t: "table s lpn = Some ml" and m: "mapped P (ml ! i)"
  obtains s' where "trimUnit ml i s = Inr s'" "progress s s'" "table s' = table s" "pm_inv_but (insert (lpn, i) D) P s'"
proof -
  note J = pm_inv_butD [OF I]
  note L = lookup_table [OF J(3) t i]
  obtain k p where kp: "ml ! i = (k, p)" by (cases "ml ! i")
  have lk: "lookup P s lpn i = Some (k, p)" using L m kp by simp
  obtain b b' where b: "updBlock k (\<lambda>b. Block_invalidate b p i) s = Inr (s\<lparr>blocks := (blocks s)(k \<mapsto> b')\<rparr>)"
    "blocks s k = Some b" "block_frame b b'" "block_next b' = block_next b"
    "pm_inv_but (insert (lpn, i) D) P (s\<lparr>blocks := (blocks s)(k \<mapsto> b')\<rparr>)"
    by (rule invalidate_step [OF I d lk]) metis
  show thesis
  proof (rule that)
    show "trimUnit ml i s = Inr (s\<lparr>blocks := (blocks s)(k \<mapsto> b')\<rparr>)" using b kp L(2) by (simp add: trimUnit_def)
    show "progress s (s\<lparr>blocks := (blocks s)(k \<mapsto> b')\<rparr>)" by (rule progress_upd [OF b(2,3)]) (use b(4) in simp_all)
  qed (use b in simp_all)
qed

text \<open>A page is whole when each of its units is stored.\<close>

definition whole :: "'w pm_ctx \<Rightarrow> 'w pm \<Rightarrow> u64 \<Rightarrow> bool" where
  "whole P s lpn \<longleftrightarrow> (\<forall>i<bitsetSize P. lookup P s lpn i \<noteq> None)"

lemma forget_ok:
  assumes I: "pm_inv_but ({lpn} \<times> {..<bitsetSize P}) P s" and s': "s' = s\<lparr>table := (table s)(lpn := None)\<rparr>"
  shows "pm_inv P s'" "lookup P s' = (\<lambda>x. if x = lpn then (\<lambda>_. None) else lookup P s x)"
proof -
  note J = pm_inv_butD [OF I]
  show L: "lookup P s' = (\<lambda>x. if x = lpn then (\<lambda>_. None) else lookup P s x)" by (auto simp: lookup_def s' fun_eq_iff)
  have "(lpn, i) \<in> {lpn} \<times> {..<bitsetSize P}" if "lookup P s lpn i \<noteq> None" for i
    using that lookup_bounds [OF J(3)] by auto
  then have "consistent ({lpn} \<times> {..<bitsetSize P} - {lpn} \<times> UNIV) (lookup P s') (unitAt s)"
    by (rule consistent_forget [OF J(4) L])
  moreover have "{lpn} \<times> {..<bitsetSize P} - {lpn} \<times> UNIV = {}" by auto
  moreover have "pool_inv P s'" "active_inv P s'" "unitAt s' = unitAt s" "table_inv P s'"
    using J(1,2,3) by (simp_all add: s' pool_inv_def active_inv_def unitAt_def fun_eq_iff table_inv_def)
  ultimately show "pm_inv P s'" by (simp add: pm_inv_but_def)
qed

lemma trimUnits_ok:
  assumes I: "pm_inv P s" and t: "table s lpn = Some ml" and w: "whole P s lpn"
  shows "runs_to (foldR (trimUnit ml) [0..<bitsetSize P] s) (\<lambda>s'. progress s s' \<and> table s' = table s \<and> pm_inv_but ({lpn} \<times> {..<bitsetSize P}) P s')"
proof -
  let ?I = "\<lambda>ys s'. progress s s' \<and> table s' = table s \<and> pm_inv_but ({lpn} \<times> set ys) P s'"
  have "runs_to (foldR (trimUnit ml) [0..<bitsetSize P] s) (?I [0..<bitsetSize P])"
  proof (rule foldR_runs_to_prefix [where I = ?I])
    fix ys x zs s'
    assume xs: "[0..<bitsetSize P] = ys @ x # zs" and A: "?I ys s'"
    have x: "x < bitsetSize P" "(lpn, x) \<notin> {lpn} \<times> set ys" using upt_prefix [OF xs] by auto
    have m: "mapped P (ml ! x)" using w t x pm_inv_butD(3) [OF I] by (auto simp: whole_def lookup_table split: if_splits)
    have t': "table s' lpn = Some ml" and I': "pm_inv_but ({lpn} \<times> set ys) P s'" using A t by auto
    obtain v where v: "trimUnit ml x s' = Inr v" "progress s' v" "table v = table s'" "pm_inv_but (insert (lpn, x) ({lpn} \<times> set ys)) P v"
      by (rule trimUnit_ok [OF I' x(2,1) t' m]) blast
    have e: "insert (lpn, x) ({lpn} \<times> set ys) = {lpn} \<times> set (ys @ [x])" by auto
    show "runs_to (trimUnit ml x s') (?I (ys @ [x]))"
      using v(1,3) v(4)[unfolded e] progress_trans [OF conjunct1 [OF A] v(2)] A by simp
  qed (use I progress_refl in simp)
  moreover have "set [0..<bitsetSize P] = {..<bitsetSize P}" by auto
  ultimately show ?thesis by simp
qed

lemma trimInternal_ok:
  assumes I: "pm_inv P s" and w: "table s (frLpn req) \<noteq> None \<Longrightarrow> whole P s (frLpn req)"
  obtains s' t' where "trimInternal P req t s = Inr (s', t')" "pm_inv P s'" "progress s s'"
    "lookup P s' = (\<lambda>x. if x = frLpn req then (\<lambda>_. None) else lookup P s x)"
    "table s' = (table s)(frLpn req := None)"
proof (cases "table s (frLpn req)")
  case None
  then have "lookup P s = (\<lambda>x. if x = frLpn req then (\<lambda>_. None) else lookup P s x)" by (auto simp: lookup_def fun_eq_iff)
  then show thesis using that [of s t] None I progress_refl [of s] by (simp add: trimInternal_def fun_upd_idem)
next
  case (Some ml)
  define x where "x = dramRead P (if bRandomTweak P then 8 * Bitset_count (frIoFlag req) else 8) t s"
  have x: "untouched s (fst x)" unfolding x_def by (rule service_untouched)
  note X = untouched_inv [OF x]
  have "whole P (fst x) (frLpn req)" using w Some X(2) by (simp add: whole_def)
  then obtain y where y: "foldR (trimUnit ml) [0..<bitsetSize P] (fst x) = Inr y" "progress (fst x) y" "table y = table (fst x)"
    "pm_inv_but ({frLpn req} \<times> {..<bitsetSize P}) P y"
    using trimUnits_ok [of P "fst x" "frLpn req" ml] I Some X by (auto simp: runs_to_iff)
  define z where "z = y\<lparr>table := (table y)(frLpn req := None)\<rparr>"
  note Z = forget_ok [OF y(4) z_def]
  define s' where "s' = fst (addLatency P FN_TRIM_INTERNAL (snd x) z)"
  have s': "untouched z s'" unfolding s'_def by (rule service_untouched)
  note S = untouched_inv [OF s']
  have "trimInternal P req t s = Inr (s', snd (addLatency P FN_TRIM_INTERNAL (snd x) z))"
    using Some y(1) by (simp add: trimInternal_def x_def s'_def z_def split_beta)
  moreover have "progress s s'"
    using y(2) X S by (simp add: progress_def z_def)
  moreover have ly: "lookup P y = lookup P s" using lookup_cong [OF y(3)] X(2) by simp
  moreover have "lookup P s' = (\<lambda>x. if x = frLpn req then (\<lambda>_. None) else lookup P s x)" unfolding S(2) Z(2) ly ..
  moreover have "pm_inv P s'" using Z(1) S(1) by simp
  moreover have "table s' = (table s)(frLpn req := None)" using S(7) X(7) y(3) by (simp add: z_def)
  ultimately show thesis using that by blast
qed

end
