(* ===== verification/PM_GC.thy ===== *)
theory PM_GC
  imports PM_Write
begin

text \<open>
  Garbage collection keeps every stored unit, empties and erases the victims and uses at
  most one free block per victim and write stream. It is stated for pages of several units:
  with one unit per page the page information of a block is not exact.
\<close>

section \<open>Moving one unit\<close>

text \<open>A full block is never the target of a move.\<close>

definition fullBlock :: "'w pm_ctx \<Rightarrow> 'w pm \<Rightarrow> nat \<Rightarrow> bool" where
  "fullBlock P s k \<longleftrightarrow> (\<exists>b. blocks s k = Some b \<and> (\<exists>i. pagesInBlock P \<le> block_next b i))"

lemma fullBlock_progress: "progress s s' \<Longrightarrow> fullBlock P s k \<Longrightarrow> fullBlock P s' k"
  unfolding progress_def fullBlock_def by (metis order_trans)

lemma fullBlock_le: "blocks s \<subseteq>\<^sub>m blocks s' \<Longrightarrow> fullBlock P s k \<Longrightarrow> fullBlock P s' k"
  unfolding fullBlock_def map_le_def by (metis domI)

text \<open>The valid units of the blocks in \<open>V\<close> only become fewer.\<close>

definition shrinks :: "nat set \<Rightarrow> 'w pm \<Rightarrow> 'w pm \<Rightarrow> bool" where
  "shrinks V s s' \<longleftrightarrow> (\<forall>k\<in>V. \<forall>p i lpn. unitAt s' (k, p, i) = Valid lpn \<longrightarrow> unitAt s (k, p, i) = Valid lpn)"

lemma shrinks_refl: "shrinks V s s"
  by (simp add: shrinks_def)

lemma shrinks_trans: "shrinks V a b \<Longrightarrow> shrinks V b c \<Longrightarrow> shrinks V a c"
  by (simp add: shrinks_def)

lemma gcMoveUnit_skip: "\<not> Bitset_test (gcBit g) i \<Longrightarrow> gcMoveUnit P v p k i g = Inr g"
  by (simp add: gcMoveUnit_def)

lemma gcMoveUnit_ok:
  assumes I: "pm_inv P (gcS g)" and P: "ctx_ok P" and i: "i < bitsetSize P" and bt: "Bitset_test (gcBit g) i"
    and ln: "i < length (gcLpns g)" and u: "unitAt (gcS g) (v, p, i) = Valid (gcLpns g ! i)"
    and vk: "v \<noteq> k" and f: "blocks (gcS g) k = Some f" and nx: "block_next f i < pagesInBlock P"
  obtains g' f' where "gcMoveUnit P v p k i g = Inr g'" "pm_inv P (gcS g')" "progress (gcS g) (gcS g')"
    "gcBit g' = gcBit g" "gcLpns g' = gcLpns g" "gcErases g' = gcErases g" "stored P (gcS g') = stored P (gcS g)"
    "blocks (gcS g') k = Some f'" "block_next f' = (block_next f)(i := Suc (block_next f i))"
    "\<And>b. b \<noteq> k \<Longrightarrow> b \<noteq> v \<Longrightarrow> blocks (gcS g') b = blocks (gcS g) b"
    "\<And>b q j. b \<noteq> k \<Longrightarrow> unitAt (gcS g') (b, q, j) = (if (b, q, j) = (v, p, i) then Invalid else unitAt (gcS g) (b, q, j))"
proof -
  define s where "s = gcS g"
  define lpn where "lpn = gcLpns g ! i"
  have I': "pm_inv P s" and u': "unitAt s (v, p, i) = Valid lpn" and fs: "blocks s k = Some f"
    using I u f by (simp_all add: s_def lpn_def)
  note J = pm_inv_butD [OF I']
  have io: "i < ioUnitInPage P" using i bitsetSize_le [OF P] by simp
  have lk: "lookup P s lpn i = Some (v, p)" using consistentD [OF J(4), of lpn i v p] u' by simp
  obtain ml where ml: "table s lpn = Some ml" using lk by (auto simp: lookup_def split: option.splits)
  have len: "i < length ml" using lookup_table(2) [OF J(3) ml i] .
  obtain b b' where b: "updBlock v (\<lambda>b. Block_invalidate b p i) s = Inr (s\<lparr>blocks := (blocks s)(v \<mapsto> b')\<rparr>)"
    "blocks s v = Some b" "block_frame b b'" "block_next b' = block_next b" "Block_inv b'"
    "block_view b' = (block_view b)((p, i) := Invalid)"
    "pm_inv_but {(lpn, i)} P (s\<lparr>blocks := (blocks s)(v \<mapsto> b')\<rparr>)"
    "lookup P (s\<lparr>blocks := (blocks s)(v \<mapsto> b')\<rparr>) = lookup P s"
    by (rule invalidate_step [OF I' _ lk]) auto
  define s1 where "s1 = s\<lparr>blocks := (blocks s)(v \<mapsto> b')\<rparr>"
  define x where "x = dramRead P (8 * ioUnitInPage P) (gcTick g) s1"
  have x: "untouched s1 (fst x)" unfolding x_def by (rule service_untouched)
  note X = untouched_inv [OF x]
  have Ix: "pm_inv_but {(lpn, i)} P (fst x)" and fx: "blocks (fst x) k = Some f" and tx: "table (fst x) lpn = Some ml"
    using b(7) X vk fs ml by (simp_all add: s1_def)
  have g: "geometry P f" using pool_inv_used [OF J(1) fs] by simp
  then have at: "Block_getNextWritePageIndexAt f i = Inr (block_next f i)"
    using io by (simp add: Block_getNextWritePageIndexAt_next Block_inv_layout geometry_def)
  obtain f' where f': "Block_write f (block_next f i) lpn i 0 = Inr (True, f')" "block_frame f f'" "block_next f' = (block_next f)(i := Suc (block_next f i))"
    and W: "\<And>s'. blocks s' = (blocks (fst x))(k \<mapsto> f') \<Longrightarrow> table s' = (table (fst x))(lpn \<mapsto> ml[i := (k, block_next f i)]) \<Longrightarrow>
       freeBlocks s' = freeBlocks (fst x) \<Longrightarrow> nFreeBlocks s' = nFreeBlocks (fst x) \<Longrightarrow> lastFreeBlock s' = lastFreeBlock (fst x) \<Longrightarrow>
       lastFreeBlockIndex s' = lastFreeBlockIndex (fst x) \<Longrightarrow> lastFreeBlockIOMap s' = lastFreeBlockIOMap (fst x) \<Longrightarrow>
       pm_inv_but ({(lpn, i)} - {(lpn, i)}) P s' \<and>
       lookup P s' = (\<lambda>x' j. if x' = lpn \<and> j = i then Some (k, block_next f i) else lookup P (fst x) x' j) \<and>
       unitAt s' = (unitAt (fst x))((k, block_next f i, i) := Valid lpn)"
    by (rule write_step [OF Ix singletonI fx i io nx tx]) blast
  define s2 where "s2 = (fst x)\<lparr>table := (table (fst x))(lpn \<mapsto> ml[i := (k, block_next f i)]), blocks := (blocks (fst x))(k \<mapsto> f')\<rparr>"
  define s3 where "s3 = s2\<lparr>validPageCopies := validPageCopies s2 + 1\<rparr>"
  define req where "req = (PAL_Request_new (ioUnitInPage P))\<lparr>prBlockIndex := k, prPageIndex := block_next f i,
     prIoFlag := (if bRandomTweak P then Bitset_set (Bitset_reset_all (Bitset_new (ioUnitInPage P))) i
                  else Bitset_set_all (Bitset_new (ioUnitInPage P)))\<rparr>"
  define g' where "g' = g\<lparr>gcS := s3, gcWrites := gcWrites g @ [req], gcTick := snd x\<rparr>"
  have eq: "gcMoveUnit P v p k i g = Inr g'"
  proof -
    have up: "updBlock v (\<lambda>b. Block_invalidate b p i) (gcS g) = Inr s1" using b(1) by (simp add: s1_def s_def)
    have up': "updBlock k (\<lambda>c. bindR (Block_write c (block_next f i) lpn i 0) (\<lambda>(_, f). Inr f))
        ((fst x)\<lparr>table := (table (fst x))(lpn \<mapsto> ml[i := (k, block_next f i)])\<rparr>) = Inr s2"
      using fx f'(1) by (simp add: updBlock_def s2_def)
    have "table s1 lpn = Some ml" using ml by (simp add: s1_def)
    then show ?thesis
      using bt ln len fx at tx up up' unfolding gcMoveUnit_def
      by (simp add: lpn_def [symmetric] Let_def split_beta x_def [symmetric] g'_def s3_def req_def)
  qed
  have s3: "untouched s2 s3" by (simp add: s3_def)
  note S3 = untouched_inv [OF s3]
  have S2: "pm_inv P s2" "lookup P s2 = (\<lambda>x' j. if x' = lpn \<and> j = i then Some (k, block_next f i) else lookup P (fst x) x' j)"
    "unitAt s2 = (unitAt (fst x))((k, block_next f i, i) := Valid lpn)"
    using W [of s2] by (simp_all add: s2_def)
  have Lx: "lookup P (fst x) = lookup P s" using X(2) b(8) by (simp add: s1_def)
  have U1: "unitAt s1 = (unitAt s)((v, p, i) := Invalid)" unfolding s1_def by (rule unitAt_upd [OF b(2,6)])
  show thesis
  proof (rule that [OF eq])
    show "pm_inv P (gcS g')" using S2(1) S3(1) by (simp add: g'_def)
    have "progress s s1" unfolding s1_def by (rule progress_upd [OF b(2,3)]) (simp_all add: b(4))
    moreover have "progress (fst x) s2" by (rule progress_upd [OF fx f'(2)]) (simp_all add: s2_def f'(3))
    ultimately have "progress s s2" using progress_trans progress_untouched x by blast
    then show "progress (gcS g) (gcS g')" using progress_untouched [OF _ s3] by (simp add: g'_def s_def)
    have "stored P s3 = stored P s"
      using lk unfolding stored_def S3(2) S2(2) Lx by (auto split: if_splits)
    then show "stored P (gcS g') = stored P (gcS g)" by (simp add: g'_def s_def)
    show "blocks (gcS g') k = Some f'" by (simp add: g'_def s3_def s2_def)
    show "blocks (gcS g') c = blocks (gcS g) c" if "c \<noteq> k" "c \<noteq> v" for c
      using that X(6) by (simp add: g'_def s3_def s2_def s1_def s_def)
    show "unitAt (gcS g') (c, q, j) = (if (c, q, j) = (v, p, i) then Invalid else unitAt (gcS g) (c, q, j))" if "c \<noteq> k" for c q j
      using that S3(3) S2(3) X(3) U1 by (simp add: g'_def s_def)
  qed (use f'(3) in \<open>simp_all add: g'_def\<close>)
qed

section \<open>Moving one page\<close>

lemma gcMoveUnits_ok:
  assumes I: "pm_inv P (gcS g)" and P: "ctx_ok P" and vk: "v \<noteq> k"
    and u: "\<And>i. i < bitsetSize P \<Longrightarrow> Bitset_test (gcBit g) i \<Longrightarrow> i < length (gcLpns g) \<and> unitAt (gcS g) (v, p, i) = Valid (gcLpns g ! i)"
    and f: "blocks (gcS g) k = Some f" and nx: "\<And>i. block_next f i < pagesInBlock P"
  obtains g' f' where "foldR (gcMoveUnit P v p k) [0..<bitsetSize P] g = Inr g'" "pm_inv P (gcS g')" "progress (gcS g) (gcS g')"
    "gcBit g' = gcBit g" "gcErases g' = gcErases g" "stored P (gcS g') = stored P (gcS g)"
    "blocks (gcS g') k = Some f'" "\<And>i. block_next f' i \<le> Suc (block_next f i)"
    "\<And>b. b \<noteq> k \<Longrightarrow> b \<noteq> v \<Longrightarrow> blocks (gcS g') b = blocks (gcS g) b"
    "\<And>b q j. b \<noteq> k \<Longrightarrow> unitAt (gcS g') (b, q, j) =
        (if b = v \<and> q = p \<and> j < bitsetSize P \<and> Bitset_test (gcBit g) j then Invalid else unitAt (gcS g) (b, q, j))"
proof -
  let ?I = "\<lambda>ys (h :: 'a gc). pm_inv P (gcS h) \<and> progress (gcS g) (gcS h) \<and> gcBit h = gcBit g \<and> gcLpns h = gcLpns g \<and> gcErases h = gcErases g \<and>
    stored P (gcS h) = stored P (gcS g) \<and>
    (\<exists>f'. blocks (gcS h) k = Some f' \<and> (\<forall>i. block_next f' i = block_next f i \<or> i \<in> set ys \<and> block_next f' i = Suc (block_next f i))) \<and>
    (\<forall>b. b \<noteq> k \<longrightarrow> b \<noteq> v \<longrightarrow> blocks (gcS h) b = blocks (gcS g) b) \<and>
    (\<forall>b q j. b \<noteq> k \<longrightarrow> unitAt (gcS h) (b, q, j) =
        (if b = v \<and> q = p \<and> j \<in> set ys \<and> Bitset_test (gcBit g) j then Invalid else unitAt (gcS g) (b, q, j)))"
  have "runs_to (foldR (gcMoveUnit P v p k) [0..<bitsetSize P] g) (?I [0..<bitsetSize P])"
  proof (rule foldR_runs_to_prefix [where I = ?I])
    fix ys x zs and h :: "'a gc"
    assume xs: "[0..<bitsetSize P] = ys @ x # zs" and A: "?I ys h"
    have x: "x < bitsetSize P" "x \<notin> set ys" using upt_prefix [OF xs] by auto
    have Ih: "pm_inv P (gcS h)" and ph: "progress (gcS g) (gcS h)" and fr: "gcBit h = gcBit g" "gcLpns h = gcLpns g" "gcErases h = gcErases g"
      and st: "stored P (gcS h) = stored P (gcS g)"
      and oth: "\<And>b. b \<noteq> k \<Longrightarrow> b \<noteq> v \<Longrightarrow> blocks (gcS h) b = blocks (gcS g) b"
      and un: "\<And>b q j. b \<noteq> k \<Longrightarrow> unitAt (gcS h) (b, q, j) =
        (if b = v \<and> q = p \<and> j \<in> set ys \<and> Bitset_test (gcBit g) j then Invalid else unitAt (gcS g) (b, q, j))"
      using A by blast+
    obtain f' where f': "blocks (gcS h) k = Some f'" "\<And>i. block_next f' i = block_next f i \<or> i \<in> set ys \<and> block_next f' i = Suc (block_next f i)"
      using A by blast
    show "runs_to (gcMoveUnit P v p k x h) (?I (ys @ [x]))"
    proof (cases "Bitset_test (gcBit g) x")
      case False
      then have "gcMoveUnit P v p k x h = Inr h" using fr gcMoveUnit_skip by metis
      moreover have "\<forall>i. block_next f' i = block_next f i \<or> i \<in> set (ys @ [x]) \<and> block_next f' i = Suc (block_next f i)"
        using f'(2) by (metis Un_iff set_append)
      moreover have "unitAt (gcS h) (b, q, j) =
        (if b = v \<and> q = p \<and> j \<in> set (ys @ [x]) \<and> Bitset_test (gcBit g) j then Invalid else unitAt (gcS g) (b, q, j))" if "b \<noteq> k" for b q j
        using un [OF that, of q j] False by auto
      ultimately show ?thesis using Ih ph fr st oth f'(1) by simp
    next
      case True
      have nxx: "block_next f' x = block_next f x" using f'(2) x(2) by blast
      have "i < length (gcLpns h) \<and> unitAt (gcS h) (v, p, i) = Valid (gcLpns h ! i)" if "i = x" for i
        using u [OF x(1) True] un [of v p x] vk x(2) fr that by simp
      then have ux: "x < length (gcLpns h)" "unitAt (gcS h) (v, p, x) = Valid (gcLpns h ! x)" by auto
      obtain g' f2 where g': "gcMoveUnit P v p k x h = Inr g'" "pm_inv P (gcS g')" "progress (gcS h) (gcS g')"
        "gcBit g' = gcBit h" "gcLpns g' = gcLpns h" "gcErases g' = gcErases h" "stored P (gcS g') = stored P (gcS h)"
        "blocks (gcS g') k = Some f2" "block_next f2 = (block_next f')(x := Suc (block_next f' x))"
        "\<And>b. b \<noteq> k \<Longrightarrow> b \<noteq> v \<Longrightarrow> blocks (gcS g') b = blocks (gcS h) b"
        "\<And>b q j. b \<noteq> k \<Longrightarrow> unitAt (gcS g') (b, q, j) = (if (b, q, j) = (v, p, x) then Invalid else unitAt (gcS h) (b, q, j))"
        using gcMoveUnit_ok [of P h x v p k f', OF Ih P x(1) _ ux vk f'(1)] True nx [of x] nxx fr(1) by metis
      have "block_next f2 i = block_next f i \<or> i \<in> set (ys @ [x]) \<and> block_next f2 i = Suc (block_next f i)" for i
        using f'(2) [of i] nxx by (auto simp: g'(9))
      moreover have "unitAt (gcS g') (b, q, j) =
        (if b = v \<and> q = p \<and> j \<in> set (ys @ [x]) \<and> Bitset_test (gcBit g) j then Invalid else unitAt (gcS g) (b, q, j))" if "b \<noteq> k" for b q j
        using g'(11) [OF that, of q j] un [OF that, of q j] True by auto
      moreover have "progress (gcS g) (gcS g')" using ph g'(3) by (rule progress_trans)
      ultimately show ?thesis using g' fr st oth by simp
    qed
  qed (use I f progress_refl in auto)
  then obtain g' where g': "foldR (gcMoveUnit P v p k) [0..<bitsetSize P] g = Inr g'" "?I [0..<bitsetSize P] g'"
    unfolding runs_to_iff by blast
  obtain f' where f': "blocks (gcS g') k = Some f'"
    "\<And>i. block_next f' i = block_next f i \<or> i \<in> set [0..<bitsetSize P] \<and> block_next f' i = Suc (block_next f i)" using g'(2) by blast
  show thesis
  proof (rule that [OF g'(1) _ _ _ _ _ f'(1)])
    show "block_next f' i \<le> Suc (block_next f i)" for i using f'(2) [of i] by auto
  qed (use g'(2) in \<open>simp_all\<close>)
qed

text \<open>
  What holds between two pages of a victim: \<open>R\<close> are the write streams that got a new block
  since the state \<open>s0\<close>; their blocks hold no more than the \<open>c\<close> pages moved since.
\<close>

definition gc_inv :: "'w pm_ctx \<Rightarrow> nat set \<Rightarrow> 'w pm \<Rightarrow> nat set \<Rightarrow> nat \<Rightarrow> 'w gc \<Rightarrow> bool" where
  "gc_inv P V s0 R c g \<longleftrightarrow>
     pm_inv P (gcS g) \<and> dataSize (gcBit g) = ioUnitInPage P \<and> stored P (gcS g) = stored P s0 \<and>
     (\<forall>k\<in>V. fullBlock P (gcS g) k \<and> k \<notin> set (lastFreeBlock (gcS g))) \<and> shrinks V s0 (gcS g) \<and>
     R \<subseteq> {..<pageCountToMaxPerf P} \<and> nFreeBlocks (gcS g) + card R = nFreeBlocks s0 \<and>
     (\<forall>j\<in>R. \<forall>b i. blocks (gcS g) (lastFreeBlock (gcS g) ! j) = Some b \<longrightarrow> block_next b i \<le> c)"

lemma gc_inv_mono: "gc_inv P V s0 R c g \<Longrightarrow> c \<le> d \<Longrightarrow> gc_inv P V s0 R d g"
  unfolding gc_inv_def by (meson order_trans)

text \<open>The page information gives the valid units of the page, also without the tweak.\<close>

lemma pageInfo_units:
  assumes I: "pm_inv P s" and P: "ctx_ok P" and io: "ioUnitInPage P \<noteq> 1" and b: "blocks s v = Some b" and p: "p < pagesInBlock P"
    and m: "dataSize m = ioUnitInPage P"
  shows "\<exists>lpns bm. (Block_getPageInfo b p m = Inr (True, lpns, bm) \<and> Bitset_wf bm \<and> dataSize bm = ioUnitInPage P \<and>
       (\<forall>i<bitsetSize P. let bit' = (if bRandomTweak P then bm else Bitset_set_all bm) in
          (Bitset_test bit' i \<longleftrightarrow> (\<exists>lpn. unitAt s (v, p, i) = Valid lpn)) \<and>
          (Bitset_test bit' i \<longrightarrow> i < length lpns \<and> unitAt s (v, p, i) = Valid (lpns ! i)))) \<or>
     (Block_getPageInfo b p m = Inr (False, lpns, bm) \<and> dataSize bm = ioUnitInPage P \<and> (\<forall>i lpn. unitAt s (v, p, i) \<noteq> Valid lpn))"
proof -
  note J = pm_inv_butD [OF I]
  have g: "geometry P b" using pool_inv_used [OF J(1) b] by simp
  then have B: "Block_inv b" "blkPageCount b = pagesInBlock P" "blkIoUnit b = ioUnitInPage P" by (auto simp: geometry_def)
  obtain lpns bit where e: "Block_getPageInfo b p m = Inr (\<exists>i<blkIoUnit b. Bitset_test bit i, lpns, bit)"
    and bit: "Bitset_wf bit" "dataSize bit = ioUnitInPage P" "length lpns = ioUnitInPage P"
    and V: "\<And>i lpn. i < ioUnitInPage P \<Longrightarrow> block_view b (p, i) = Valid lpn \<longleftrightarrow> Bitset_test bit i \<and> lpn = lpns ! i"
    using Block_getPageInfo_exact [of b p m] B p m io by (auto simp: Bitset_size_def)
  have U: "unitAt s (v, p, i) = Valid lpn \<longleftrightarrow> i < ioUnitInPage P \<and> Bitset_test bit i \<and> lpn = lpns ! i" for i lpn
    using V [of i lpn] block_view_outside [of p b i] B p by (cases "i < ioUnitInPage P") (auto simp: unitAt_block [OF b])
  have small: "i < bitsetSize P" if "unitAt s (v, p, i) = Valid lpn" for i lpn
    using consistentD [OF J(4), of lpn i v p] that lookup_bounds [OF J(3)] by blast
  show ?thesis
  proof (cases "\<exists>i<blkIoUnit b. Bitset_test bit i")
    case False
    then have "Block_getPageInfo b p m = Inr (False, lpns, bit)" using e by (simp only: simp_thms)
    moreover have "\<forall>i lpn. unitAt s (v, p, i) \<noteq> Valid lpn" using False U B by auto
    ultimately show ?thesis using bit by blast
  next
    case True
    then have "Block_getPageInfo b p m = Inr (True, lpns, bit)" using e by (simp only: simp_thms)
    moreover have "\<forall>i<bitsetSize P. let bit' = (if bRandomTweak P then bit else Bitset_set_all bit) in
          (Bitset_test bit' i \<longleftrightarrow> (\<exists>lpn. unitAt s (v, p, i) = Valid lpn)) \<and>
          (Bitset_test bit' i \<longrightarrow> i < length lpns \<and> unitAt s (v, p, i) = Valid (lpns ! i))"
    proof (intro allI impI)
      fix i assume i: "i < bitsetSize P"
      have io': "i < ioUnitInPage P" using i bitsetSize_le [OF P] by simp
      have "Bitset_test (if bRandomTweak P then bit else Bitset_set_all bit) i \<longleftrightarrow> Bitset_test bit i"
      proof (cases "bRandomTweak P")
        case False
        obtain j where "j < ioUnitInPage P" "Bitset_test bit j" using True B by auto
        then have "j < bitsetSize P" "Bitset_test bit j" using small [of j "lpns ! j"] U by auto
        then have "Bitset_test bit i" using False i by (simp add: bitsetSize_def)
        then show ?thesis using False bv.test_set_all [OF bit(1), of i] bit(2) io' by simp
      qed simp
      then show "let bit' = (if bRandomTweak P then bit else Bitset_set_all bit) in
          (Bitset_test bit' i \<longleftrightarrow> (\<exists>lpn. unitAt s (v, p, i) = Valid lpn)) \<and>
          (Bitset_test bit' i \<longrightarrow> i < length lpns \<and> unitAt s (v, p, i) = Valid (lpns ! i))"
        using U io' bit(3) unfolding Let_def by auto
    qed
    ultimately show ?thesis using bit by blast
  qed
qed

lemma gc_inv_page_skip:
  assumes G: "gc_inv P V s0 R c g" and d: "dataSize bm = ioUnitInPage P"
  shows "gc_inv P V s0 R (Suc c) (g\<lparr>gcLpns := lpns, gcBit := bm\<rparr>)"
  using gc_inv_mono [OF G, of "Suc c"] d by (simp add: gc_inv_def)

text \<open>The accounting of free blocks: a stream that got a new block does not need another one soon.\<close>

lemma streams_step:
  assumes A: "active_inv P s0" "active_inv P s" and c: "c < pagesInBlock P" and pool: "pool_inv P s0"
    and R: "R \<subseteq> {..<pageCountToMaxPerf P}" "nFreeBlocks s0 + card R = n"
    and Rc: "\<And>j b i. j \<in> R \<Longrightarrow> blocks s0 (lastFreeBlock s0 ! j) = Some b \<Longrightarrow> block_next b i \<le> c"
    and j: "j < pageCountToMaxPerf P" "lastFreeBlock s ! j = k"
    and step: "lastFreeBlock s = lastFreeBlock s0 \<and> nFreeBlocks s = nFreeBlocks s0 \<and> blocks s = blocks s0 \<or>
       lastFreeBlock s = (lastFreeBlock s0)[j := k] \<and> Suc (nFreeBlocks s) = nFreeBlocks s0 \<and> clean f \<and>
       k \<notin> dom (blocks s0) \<and> blocks s = (blocks s0)(k \<mapsto> f) \<and>
       (\<exists>c. blocks s0 (lastFreeBlock s0 ! j) = Some c \<and> Block_getNextWritePageIndex c = pagesInBlock P)"
    and f: "blocks s k = Some f" and s1: "lastFreeBlock s1 = lastFreeBlock s" "nFreeBlocks s1 = nFreeBlocks s"
    and f': "blocks s1 k = Some f'" "\<And>i. block_next f' i \<le> Suc (block_next f i)"
    and oth: "\<And>b. b \<noteq> k \<Longrightarrow> b \<noteq> v \<Longrightarrow> blocks s1 b = blocks s b" and v: "v \<notin> set (lastFreeBlock s)"
  obtains R' where "R' \<subseteq> {..<pageCountToMaxPerf P}" "nFreeBlocks s1 + card R' = n"
    "\<And>j b i. j \<in> R' \<Longrightarrow> blocks s1 (lastFreeBlock s1 ! j) = Some b \<Longrightarrow> block_next b i \<le> Suc c"
proof -
  have len: "length (lastFreeBlock s) = pageCountToMaxPerf P" "length (lastFreeBlock s0) = pageCountToMaxPerf P"
    and dst: "distinct (lastFreeBlock s)" using A by (auto simp: active_inv_def)
  have fR: "finite R" using R(1) by (rule finite_subset) simp
  have ne: "lastFreeBlock s ! x \<noteq> k \<and> lastFreeBlock s ! x \<noteq> v" if "x < pageCountToMaxPerf P" "x \<noteq> j" for x
    using that j dst len v nth_eq_iff_index_eq [OF dst, of x j] nth_mem [of x "lastFreeBlock s"] by auto
  from step show thesis
  proof
    assume E: "lastFreeBlock s = lastFreeBlock s0 \<and> nFreeBlocks s = nFreeBlocks s0 \<and> blocks s = blocks s0"
    show thesis
    proof (rule that [OF R(1)])
      show "nFreeBlocks s1 + card R = n" using E R(2) s1 by simp
      fix x b i assume x: "x \<in> R" and b: "blocks s1 (lastFreeBlock s1 ! x) = Some b"
      show "block_next b i \<le> Suc c"
      proof (cases "x = j")
        case True
        then have "block_next f i \<le> c" using Rc [OF x, of f i] E f j by simp
        moreover have "b = f'" using b True s1 j f' by simp
        ultimately show ?thesis using f'(2) [of i] by simp
      next
        case False
        then have "blocks s0 (lastFreeBlock s0 ! x) = Some b" using ne [of x] x R(1) b oth s1 E by auto
        then show ?thesis using Rc [OF x, of b i] by simp
      qed
    qed
  next
    assume E: "lastFreeBlock s = (lastFreeBlock s0)[j := k] \<and> Suc (nFreeBlocks s) = nFreeBlocks s0 \<and> clean f \<and>
       k \<notin> dom (blocks s0) \<and> blocks s = (blocks s0)(k \<mapsto> f) \<and>
       (\<exists>c. blocks s0 (lastFreeBlock s0 ! j) = Some c \<and> Block_getNextWritePageIndex c = pagesInBlock P)"
    then obtain b0 where b0: "blocks s0 (lastFreeBlock s0 ! j) = Some b0" "Block_getNextWritePageIndex b0 = pagesInBlock P" by blast
    have "block_layout b0" using pool_inv_used [OF pool b0(1)] by (simp add: geometry_def Block_inv_def)
    then obtain i0 where "block_next b0 i0 = pagesInBlock P"
      using Block_getNextWritePageIndex_max(2) [of b0] b0(2) c by auto
    then have jR: "j \<notin> R" using Rc [of j b0 i0] b0(1) c by auto
    show thesis
    proof (rule that [of "insert j R"])
      show "insert j R \<subseteq> {..<pageCountToMaxPerf P}" using R(1) j by simp
      show "nFreeBlocks s1 + card (insert j R) = n" using E R(2) s1 jR fR by simp
      fix x b i assume x: "x \<in> insert j R" and b: "blocks s1 (lastFreeBlock s1 ! x) = Some b"
      show "block_next b i \<le> Suc c"
      proof (cases "x = j")
        case True
        then have "b = f'" using b s1 j f' by simp
        then show ?thesis using f'(2) [of i] E by (simp add: clean_def)
      next
        case False
        then have xR: "x \<in> R" and xm: "x < pageCountToMaxPerf P" using x R(1) by auto
        have "lastFreeBlock s ! x = lastFreeBlock s0 ! x" using E False by simp
        then have "blocks s0 (lastFreeBlock s0 ! x) = Some b" using ne [OF xm False] b oth s1 E by auto
        then show ?thesis using Rc [OF xR, of b i] by simp
      qed
    qed
  qed
qed

lemma gcMovePage_move:
  assumes G: "gc_inv P V s0 R c g" and P: "ctx_ok P" and v: "v \<in> V"
    and c: "c < pagesInBlock P" and n: "pageCountToMaxPerf P < nFreeBlocks s0"
    and b: "blocks (gcS g) v = Some b" and pi: "Block_getPageInfo b p (gcBit g) = Inr (True, lpns, bm)"
    and bit: "Bitset_wf bm" "dataSize bm = ioUnitInPage P"
    and yes: "\<And>i bit'. bit' = (if bRandomTweak P then bm else Bitset_set_all bm) \<Longrightarrow> i < bitsetSize P \<Longrightarrow>
        (Bitset_test bit' i \<longleftrightarrow> (\<exists>lpn. unitAt (gcS g) (v, p, i) = Valid lpn)) \<and>
        (Bitset_test bit' i \<longrightarrow> i < length lpns \<and> unitAt (gcS g) (v, p, i) = Valid (lpns ! i))"
  obtains g' R' where "gcMovePage P v p g = Inr g'" "gc_inv P V s0 R' (Suc c) g'" "gcErases g' = gcErases g"
    "shrinks V (gcS g) (gcS g')" "\<And>i lpn. unitAt (gcS g') (v, p, i) \<noteq> Valid lpn"
proof -
  have I: "pm_inv P (gcS g)" and st: "stored P (gcS g) = stored P s0"
    and full: "\<And>k. k \<in> V \<Longrightarrow> fullBlock P (gcS g) k \<and> k \<notin> set (lastFreeBlock (gcS g))" and sh: "shrinks V s0 (gcS g)"
    and R: "R \<subseteq> {..<pageCountToMaxPerf P}" "nFreeBlocks (gcS g) + card R = nFreeBlocks s0"
    and Rc: "\<And>j b i. j \<in> R \<Longrightarrow> blocks (gcS g) (lastFreeBlock (gcS g) ! j) = Some b \<Longrightarrow> block_next b i \<le> c"
    using G by (auto simp: gc_inv_def)
  note J = pm_inv_butD [OF I]
  have fR: "card R \<le> pageCountToMaxPerf P" using R(1) card_mono [of "{..<pageCountToMaxPerf P}" R] by auto
  define bit' where "bit' = (if bRandomTweak P then bm else Bitset_set_all bm)"
  have bit': "Bitset_wf bit'" "dataSize bit' = ioUnitInPage P" using bit bv.set_all [OF bit(1)] by (auto simp: bit'_def)
  have nf: "0 < nFreeBlocks (gcS g)" using R(2) fR n by linarith
  obtain k f s j where l: "getLastFreeBlock P bit' (gcS g) = Inr (k, s)" "pm_inv P s" "table s = table (gcS g)" "unitAt s = unitAt (gcS g)"
    "blocks s k = Some f" "\<And>i. block_next f i < pagesInBlock P" "blocks (gcS g) \<subseteq>\<^sub>m blocks s"
    "set (lastFreeBlock s) \<subseteq> set (lastFreeBlock (gcS g)) \<union> - dom (blocks (gcS g))"
    "j < pageCountToMaxPerf P" "lastFreeBlock s ! j = k"
    "lastFreeBlock s = lastFreeBlock (gcS g) \<and> nFreeBlocks s = nFreeBlocks (gcS g) \<and> blocks s = blocks (gcS g) \<or>
     lastFreeBlock s = (lastFreeBlock (gcS g))[j := k] \<and> Suc (nFreeBlocks s) = nFreeBlocks (gcS g) \<and> clean f \<and>
     k \<notin> dom (blocks (gcS g)) \<and> blocks s = (blocks (gcS g))(k \<mapsto> f) \<and>
     (\<exists>c. blocks (gcS g) (lastFreeBlock (gcS g) ! j) = Some c \<and> Block_getNextWritePageIndex c = pagesInBlock P)"
    by (rule getLastFreeBlock_ok [OF I P bit' nf]) blast
  have full': "fullBlock P s x \<and> x \<notin> set (lastFreeBlock s)" if "x \<in> V" for x
    using full [OF that] fullBlock_le [OF l(7)] l(8) by (auto simp: fullBlock_def)
  have kV: "k \<notin> V" using full' [of k] l(5,6) unfolding fullBlock_def by (metis not_le option.inject)
  then have vk: "v \<noteq> k" using v by blast
  define h where "h = g\<lparr>gcLpns := lpns, gcS := s, gcBit := bit', gcReads := gcReads g @ [(PAL_Request_new (ioUnitInPage P))\<lparr>
     prBlockIndex := v, prPageIndex := p, prIoFlag := bit'\<rparr>]\<rparr>"
  have h: "gcS h = s" "gcBit h = bit'" "gcLpns h = lpns" "gcErases h = gcErases g" by (simp_all add: h_def)
  have uh: "i < length (gcLpns h) \<and> unitAt (gcS h) (v, p, i) = Valid (gcLpns h ! i)" if "i < bitsetSize P" "Bitset_test (gcBit h) i" for i
    using yes [OF bit'_def that(1)] that(2) l(4) by (simp add: h)
  obtain m f' where m: "foldR (gcMoveUnit P v p k) [0..<bitsetSize P] h = Inr m" "pm_inv P (gcS m)" "progress s (gcS m)"
    "gcBit m = bit'" "gcErases m = gcErases g" "stored P (gcS m) = stored P s"
    "blocks (gcS m) k = Some f'" "\<And>i. block_next f' i \<le> Suc (block_next f i)"
    "\<And>b. b \<noteq> k \<Longrightarrow> b \<noteq> v \<Longrightarrow> blocks (gcS m) b = blocks s b"
    "\<And>b q i. b \<noteq> k \<Longrightarrow> unitAt (gcS m) (b, q, i) =
        (if b = v \<and> q = p \<and> i < bitsetSize P \<and> Bitset_test bit' i then Invalid else unitAt s (b, q, i))"
    by (rule gcMoveUnits_ok [of P h v k p f, unfolded h, OF l(2) P vk uh [unfolded h] l(5,6)]) (blast+)
  define g' where "g' = m\<lparr>gcS := (gcS m)\<lparr>validSuperPageCopies := validSuperPageCopies (gcS m) + 1\<rparr>\<rparr>"
  have un: "untouched (gcS m) (gcS g')" by (simp add: g'_def)
  note U = untouched_inv [OF un]
  have pm: "lastFreeBlock (gcS m) = lastFreeBlock s" "nFreeBlocks (gcS m) = nFreeBlocks s" using m(3) by (auto simp: progress_def)
  obtain R' where R': "R' \<subseteq> {..<pageCountToMaxPerf P}" "nFreeBlocks (gcS m) + card R' = nFreeBlocks s0"
    "\<And>j b i. j \<in> R' \<Longrightarrow> blocks (gcS m) (lastFreeBlock (gcS m) ! j) = Some b \<Longrightarrow> block_next b i \<le> Suc c"
  proof (rule streams_step [OF J(2) pm_inv_butD(2) [OF l(2)] c J(1) R _ l(9,10,11,5) pm m(7,8)])
    show "blocks (gcS m) x = blocks s x" if "x \<noteq> k" "x \<noteq> v" for x using m(9) that .
    show "v \<notin> set (lastFreeBlock s)" using full' [OF v] by simp
  qed (use Rc in blast)+
  have units: "unitAt (gcS g') (x, q, i) = Valid lpn \<Longrightarrow> unitAt (gcS g) (x, q, i) = Valid lpn" if "x \<in> V" for x q i lpn
  proof -
    assume a: "unitAt (gcS g') (x, q, i) = Valid lpn"
    have "x \<noteq> k" using that kV by blast
    from m(10) [OF this, of q i] a show ?thesis using U(3) l(4) by (simp split: if_splits)
  qed
  have shr: "shrinks V (gcS g) (gcS g')" using units by (simp add: shrinks_def)
  have "stored P s = stored P (gcS g)" by (simp add: stored_def lookup_cong [OF l(3)])
  then have st': "stored P (gcS g') = stored P s0" using m(6) st U(2) by (simp add: stored_def)
  have "fullBlock P (gcS g') x \<and> x \<notin> set (lastFreeBlock (gcS g'))" if "x \<in> V" for x
    using full' [OF that] fullBlock_progress [OF progress_untouched [OF m(3) un]] U(5) pm by simp
  then have "gc_inv P V s0 R' (Suc c) g'"
    unfolding gc_inv_def using m(2,4) U st' R' shrinks_trans [OF sh shr] bit'(2) by (simp add: g'_def)
  moreover have "unitAt (gcS g') (v, p, i) \<noteq> Valid lpn" for i lpn
  proof
    assume a: "unitAt (gcS g') (v, p, i) = Valid lpn"
    then have "unitAt (gcS g) (v, p, i) = Valid lpn" by (rule units [OF v])
    moreover from this have "i < bitsetSize P" using consistentD [OF J(4), of lpn i v p] lookup_bounds [OF J(3)] by blast
    ultimately show False using yes [OF bit'_def, of i] m(10) [of v p i] vk a U(3) by auto
  qed
  moreover have "gcMovePage P v p g = Inr g'"
    using b pi l(1) m(1) by (cases "bRandomTweak P") (simp_all add: gcMovePage_def bit'_def h_def g'_def Let_def)
  ultimately show thesis using that shr m(5) by (simp add: g'_def)
qed

lemma gcMovePage_ok:
  assumes G: "gc_inv P V s0 R c g" and P: "ctx_ok P" and io: "ioUnitInPage P \<noteq> 1" and v: "v \<in> V" and p: "p < pagesInBlock P"
    and c: "c < pagesInBlock P" and n: "pageCountToMaxPerf P < nFreeBlocks s0"
  obtains g' R' where "gcMovePage P v p g = Inr g'" "gc_inv P V s0 R' (Suc c) g'" "gcErases g' = gcErases g"
    "shrinks V (gcS g) (gcS g')" "\<And>i lpn. unitAt (gcS g') (v, p, i) \<noteq> Valid lpn"
proof -
  have I: "pm_inv P (gcS g)" and d: "dataSize (gcBit g) = ioUnitInPage P" and full: "fullBlock P (gcS g) v"
    using G v by (auto simp: gc_inv_def)
  obtain b where b: "blocks (gcS g) v = Some b" using full by (auto simp: fullBlock_def)
  from pageInfo_units [OF I P io b p d] obtain lpns bm where
    "Block_getPageInfo b p (gcBit g) = Inr (True, lpns, bm) \<and> Bitset_wf bm \<and> dataSize bm = ioUnitInPage P \<and>
       (\<forall>i<bitsetSize P. let bit' = (if bRandomTweak P then bm else Bitset_set_all bm) in
          (Bitset_test bit' i \<longleftrightarrow> (\<exists>lpn. unitAt (gcS g) (v, p, i) = Valid lpn)) \<and>
          (Bitset_test bit' i \<longrightarrow> i < length lpns \<and> unitAt (gcS g) (v, p, i) = Valid (lpns ! i))) \<or>
     Block_getPageInfo b p (gcBit g) = Inr (False, lpns, bm) \<and> dataSize bm = ioUnitInPage P \<and>
       (\<forall>i lpn. unitAt (gcS g) (v, p, i) \<noteq> Valid lpn)" by blast
  then show thesis
  proof (elim disjE conjE)
    assume pi: "Block_getPageInfo b p (gcBit g) = Inr (False, lpns, bm)" and bm: "dataSize bm = ioUnitInPage P"
      and no: "\<forall>i lpn. unitAt (gcS g) (v, p, i) \<noteq> Valid lpn"
    have "gcMovePage P v p g = Inr (g\<lparr>gcLpns := lpns, gcBit := bm\<rparr>)" using b pi by (simp add: gcMovePage_def)
    moreover have "gc_inv P V s0 R (Suc c) (g\<lparr>gcLpns := lpns, gcBit := bm\<rparr>)" by (rule gc_inv_page_skip [OF G bm])
    ultimately show thesis using that no shrinks_refl [of V "gcS g"] by simp
  next
    assume pi: "Block_getPageInfo b p (gcBit g) = Inr (True, lpns, bm)" and bm: "Bitset_wf bm" "dataSize bm = ioUnitInPage P"
      and yes: "\<forall>i<bitsetSize P. let bit' = (if bRandomTweak P then bm else Bitset_set_all bm) in
          (Bitset_test bit' i \<longleftrightarrow> (\<exists>lpn. unitAt (gcS g) (v, p, i) = Valid lpn)) \<and>
          (Bitset_test bit' i \<longrightarrow> i < length lpns \<and> unitAt (gcS g) (v, p, i) = Valid (lpns ! i))"
    show thesis by (rule gcMovePage_move [OF G P v c n b pi bm]) (use yes that in \<open>simp_all add: Let_def\<close>)
  qed
qed

section \<open>Emptying the victims\<close>

lemma gcBlock_ok:
  assumes I: "pm_inv P (gcS g)" and d: "dataSize (gcBit g) = ioUnitInPage P" and P: "ctx_ok P" and io: "ioUnitInPage P \<noteq> 1"
    and v: "v \<in> V" and V: "\<And>k. k \<in> V \<Longrightarrow> fullBlock P (gcS g) k \<and> k \<notin> set (lastFreeBlock (gcS g))"
    and n: "pageCountToMaxPerf P < nFreeBlocks (gcS g)"
  obtains g' where "gcBlock P v g = Inr g'" "pm_inv P (gcS g')" "dataSize (gcBit g') = ioUnitInPage P"
    "stored P (gcS g') = stored P (gcS g)" "\<And>k. k \<in> V \<Longrightarrow> fullBlock P (gcS g') k \<and> k \<notin> set (lastFreeBlock (gcS g'))"
    "shrinks V (gcS g) (gcS g')" "nFreeBlocks (gcS g) \<le> nFreeBlocks (gcS g') + pageCountToMaxPerf P"
    "map prBlockIndex (gcErases g') = map prBlockIndex (gcErases g) @ [v]" "\<And>p i lpn. unitAt (gcS g') (v, p, i) \<noteq> Valid lpn"
proof -
  let ?I = "\<lambda>ys (h :: 'a gc). (\<exists>R. gc_inv P V (gcS g) R (length ys) h) \<and> gcErases h = gcErases g \<and>
     (\<forall>p\<in>set ys. \<forall>i lpn. unitAt (gcS h) (v, p, i) \<noteq> Valid lpn)"
  have "runs_to (foldR (gcMovePage P v) [0..<pagesInBlock P] g) (?I [0..<pagesInBlock P])"
  proof (rule foldR_runs_to_prefix [where I = ?I])
    show "?I [] g" using I d V shrinks_refl by (auto simp: gc_inv_def intro!: exI [of _ "{}"])
    fix ys x zs and h :: "'a gc"
    assume xs: "[0..<pagesInBlock P] = ys @ x # zs" and A: "?I ys h"
    have x: "ys = [0..<x]" "x < pagesInBlock P" using upt_prefix [OF xs] by auto
    obtain R where G: "gc_inv P V (gcS g) R x h" using A x(1) by auto
    obtain g' R' where g': "gcMovePage P v x h = Inr g'" "gc_inv P V (gcS g) R' (Suc x) g'" "gcErases g' = gcErases h"
      "shrinks V (gcS h) (gcS g')" "\<And>i lpn. unitAt (gcS g') (v, x, i) \<noteq> Valid lpn"
      by (rule gcMovePage_ok [OF G P io v x(2) x(2) n]) blast
    have "unitAt (gcS g') (v, p, i) \<noteq> Valid lpn" if "p \<in> set ys" for p i lpn
      using A that g'(4) v unfolding shrinks_def by blast
    moreover have "\<exists>R. gc_inv P V (gcS g) R (length (ys @ [x])) g'" using g'(2) x(1) by auto
    ultimately show "runs_to (gcMovePage P v x h) (?I (ys @ [x]))" using g' A by auto
  qed
  then obtain h where h: "foldR (gcMovePage P v) [0..<pagesInBlock P] g = Inr h" "?I [0..<pagesInBlock P] h" unfolding runs_to_iff by blast
  obtain R where G: "gc_inv P V (gcS g) R (pagesInBlock P) h" using h(2) by auto
  define g' where "g' = h\<lparr>gcErases := gcErases h @ [(PAL_Request_new (ioUnitInPage P))\<lparr>prBlockIndex := v, prPageIndex := 0,
                       prIoFlag := Bitset_set_all (Bitset_new (ioUnitInPage P))\<rparr>]\<rparr>"
  have "blocks (gcS g) v \<noteq> None" using V [OF v] by (auto simp: fullBlock_def)
  then have eq: "gcBlock P v g = Inr g'" using h(1) by (simp add: gcBlock_def g'_def)
  have R: "card R \<le> pageCountToMaxPerf P" using G card_mono [of "{..<pageCountToMaxPerf P}" R] by (simp add: gc_inv_def)
  have Ih: "pm_inv P (gcS h)" using G by (simp add: gc_inv_def)
  have "unitAt (gcS h) (v, p, i) \<noteq> Valid lpn" for p i lpn
  proof
    assume a: "unitAt (gcS h) (v, p, i) = Valid lpn"
    then have "p < pagesInBlock P" using unitAt_Valid [OF pm_inv_butD(1) [OF Ih]] by metis
    then show False using h(2) a by simp
  qed
  then show thesis
    using that [OF eq] G R h(2) by (simp add: gc_inv_def g'_def)
qed

lemma gcBlocks_ok:
  assumes I: "pm_inv P (gcS g)" and d: "dataSize (gcBit g) = ioUnitInPage P" and P: "ctx_ok P" and io: "ioUnitInPage P \<noteq> 1"
    and V: "\<And>k. k \<in> set vs \<Longrightarrow> fullBlock P (gcS g) k \<and> k \<notin> set (lastFreeBlock (gcS g))"
    and n: "pageCountToMaxPerf P * length vs < nFreeBlocks (gcS g)" and e: "gcErases g = []"
  obtains g' where "foldR (gcBlock P) vs g = Inr g'" "pm_inv P (gcS g')" "stored P (gcS g') = stored P (gcS g)"
    "\<And>k. k \<in> set vs \<Longrightarrow> fullBlock P (gcS g') k \<and> k \<notin> set (lastFreeBlock (gcS g'))"
    "nFreeBlocks (gcS g) \<le> nFreeBlocks (gcS g') + pageCountToMaxPerf P * length vs"
    "map prBlockIndex (gcErases g') = vs" "\<And>k p i lpn. k \<in> set vs \<Longrightarrow> unitAt (gcS g') (k, p, i) \<noteq> Valid lpn"
proof -
  let ?I = "\<lambda>ys (h :: 'a gc). pm_inv P (gcS h) \<and> dataSize (gcBit h) = ioUnitInPage P \<and> stored P (gcS h) = stored P (gcS g) \<and>
     (\<forall>k\<in>set vs. fullBlock P (gcS h) k \<and> k \<notin> set (lastFreeBlock (gcS h))) \<and>
     nFreeBlocks (gcS g) \<le> nFreeBlocks (gcS h) + pageCountToMaxPerf P * length ys \<and> map prBlockIndex (gcErases h) = ys \<and>
     (\<forall>k\<in>set ys. \<forall>p i lpn. unitAt (gcS h) (k, p, i) \<noteq> Valid lpn)"
  have "runs_to (foldR (gcBlock P) vs g) (?I vs)"
  proof (rule foldR_runs_to_prefix [where I = ?I])
    show "?I [] g" using I d V e by simp
    fix ys x zs and h :: "'a gc"
    assume xs: "vs = ys @ x # zs" and A: "?I ys h"
    have x: "x \<in> set vs" using xs by simp
    have nh: "pageCountToMaxPerf P < nFreeBlocks (gcS h)"
    proof -
      have "pageCountToMaxPerf P * length ys + pageCountToMaxPerf P \<le> pageCountToMaxPerf P * length vs"
        unfolding xs by (simp add: algebra_simps)
      then show ?thesis using A n by linarith
    qed
    have Ih: "pm_inv P (gcS h)" "dataSize (gcBit h) = ioUnitInPage P"
      and Vh: "\<And>k. k \<in> set vs \<Longrightarrow> fullBlock P (gcS h) k \<and> k \<notin> set (lastFreeBlock (gcS h))" using A by blast+
    obtain g' where g': "gcBlock P x h = Inr g'" "pm_inv P (gcS g')" "dataSize (gcBit g') = ioUnitInPage P"
      "stored P (gcS g') = stored P (gcS h)" "\<And>k. k \<in> set vs \<Longrightarrow> fullBlock P (gcS g') k \<and> k \<notin> set (lastFreeBlock (gcS g'))"
      "shrinks (set vs) (gcS h) (gcS g')" "nFreeBlocks (gcS h) \<le> nFreeBlocks (gcS g') + pageCountToMaxPerf P"
      "map prBlockIndex (gcErases g') = map prBlockIndex (gcErases h) @ [x]" "\<And>p i lpn. unitAt (gcS g') (x, p, i) \<noteq> Valid lpn"
      by (rule gcBlock_ok [OF Ih P io x Vh nh]) blast+
    have "unitAt (gcS g') (k, p, i) \<noteq> Valid lpn" if k: "k \<in> set ys" for k p i lpn
      using A k g'(6) xs unfolding shrinks_def by (metis Un_iff set_append)
    then show "runs_to (gcBlock P x h) (?I (ys @ [x]))" using g' A by auto
  qed
  then obtain g' where "foldR (gcBlock P) vs g = Inr g'" "?I vs g'" unfolding runs_to_iff by blast
  then show thesis using that by blast
qed

section \<open>Erasing the victims\<close>

lemma fold_untouched:
  assumes "\<And>x s t. untouched s (fst (f x s t))"
  shows "untouched s (fst (fold (\<lambda>x (s, fin). let (s, b) = f x s t in (s, cMAX fin b)) xs (s, fin)))"
proof (induction xs arbitrary: s fin)
  case (Cons x xs)
  then show ?case using untouched_trans [OF assms [of s x t]] by (simp add: split_beta Let_def)
qed simp

lemma gcReadAll_untouched: "untouched s (fst (gcReadAll P rs t fin s))"
  unfolding gcReadAll_def by (rule fold_untouched [of "\<lambda>r s t. palRead P r t s"]) (rule service_untouched)

lemma gcWriteAll_untouched: "untouched s (fst (gcWriteAll P rs t fin s))"
  unfolding gcWriteAll_def by (rule fold_untouched [of "\<lambda>r s t. palWrite P r t s"]) (rule service_untouched)

lemma gcEraseAll_ok:
  assumes I: "pm_inv P s" and d: "distinct (map prBlockIndex rs)" and ne: "freeBlocks s \<noteq> []"
    and V: "\<And>k. k \<in> prBlockIndex ` set rs \<Longrightarrow> blocks s k \<noteq> None \<and> k \<notin> set (lastFreeBlock s) \<and> (\<forall>p i lpn. unitAt s (k, p, i) \<noteq> Valid lpn)"
  shows "runs_to (gcEraseAll P rs t fin s) (\<lambda>(s', fin'). pm_inv P s' \<and> table s' = table s \<and>
     blocks s' = blocks s |` (- prBlockIndex ` set rs) \<and> nFreeBlocks s \<le> nFreeBlocks s')"
  using assms unfolding gcEraseAll_def
proof (induction rs arbitrary: s fin)
  case (Cons r rs)
  let ?k = "prBlockIndex r"
  obtain b where b: "blocks s ?k = Some b" using Cons.prems(4) [of ?k] by auto
  have v: "block_view b x \<noteq> Valid lpn" for x lpn
    using Cons.prems(4) [of ?k] unitAt_block [OF b] by (cases x) auto
  have k: "?k \<notin> set (lastFreeBlock s)" using Cons.prems(4) [of ?k] by simp
  obtain s' t' where s': "eraseInternal P r t s = Inr (s', t')" "pm_inv P s'" "blocks s' = (blocks s)(?k := None)" "table s' = table s"
    "lastFreeBlock s' = lastFreeBlock s" "freeBlocks s' \<noteq> []" "nFreeBlocks s \<le> nFreeBlocks s'"
    by (rule eraseInternal_ok [OF Cons.prems(1) b v k Cons.prems(3) refl, of t]) simp
  have "unitAt s' (k, p, i) = unitAt s (k, p, i)" if "k \<noteq> ?k" for k p i using that s'(3) by (simp add: unitAt_def)
  have V': "blocks s' k \<noteq> None \<and> k \<notin> set (lastFreeBlock s') \<and> (\<forall>p i lpn. unitAt s' (k, p, i) \<noteq> Valid lpn)"
    if "k \<in> prBlockIndex ` set rs" for k
  proof -
    have "?k \<notin> prBlockIndex ` set rs" using Cons.prems(2) by simp
    then have "k \<noteq> ?k" using that by metis
    with \<open>\<And>k p i. k \<noteq> ?k \<Longrightarrow> unitAt s' (k, p, i) = unitAt s (k, p, i)\<close> show ?thesis
      using Cons.prems(4) [of k] that s'(3,5) by simp
  qed
  have eq: "(blocks s)(?k := None) |` (- prBlockIndex ` set rs) = blocks s |` (- prBlockIndex ` set (r # rs))"
    by (auto simp: restrict_map_def fun_eq_iff)
  have "runs_to (foldR (\<lambda>req (s, fin). bindR (eraseInternal P req t s) (\<lambda>(s, beginAt). Inr (s, cMAX fin beginAt))) rs (s', cMAX fin t'))
     (\<lambda>(s'', fin'). pm_inv P s'' \<and> table s'' = table s' \<and> blocks s'' = blocks s' |` (- prBlockIndex ` set rs) \<and> nFreeBlocks s' \<le> nFreeBlocks s'')"
    using Cons.IH [OF s'(2) _ s'(6) V'] Cons.prems(2) by simp
  then show ?case
    by (simp add: s'(1) del: cMAX_def) (erule runs_to_mono, use s'(3,4,7) eq in \<open>auto\<close>)
qed (simp add: restrict_map_def)

text \<open>
  The whole collection: victims that are full, distinct and no write stream are emptied and
  erased, no stored unit is lost, and no panic happens while more than one free block per
  victim and stream is left.
\<close>

lemma doGarbageCollection_ok:
  assumes I: "pm_inv P s" and P: "ctx_ok P" and io: "ioUnitInPage P \<noteq> 1" and vs: "distinct vs"
    and V: "\<And>k. k \<in> set vs \<Longrightarrow> fullBlock P s k \<and> k \<notin> set (lastFreeBlock s)"
    and n: "pageCountToMaxPerf P * length vs < nFreeBlocks s"
  obtains s' t' where "doGarbageCollection P vs t s = Inr (s', t')" "pm_inv P s'" "stored P s' = stored P s"
    "set vs \<inter> dom (blocks s') = {}" "nFreeBlocks s \<le> nFreeBlocks s' + pageCountToMaxPerf P * length vs"
proof (cases "vs = []")
  case True
  then show thesis using that [of s t] I by (simp add: doGarbageCollection_def)
next
  case False
  define g0 where "g0 = \<lparr>gcS = s, gcBit = Bitset_new (ioUnitInPage P), gcLpns = [], gcReads = [], gcWrites = [],
                  gcErases = [], gcTick = t\<rparr>"
  have g0: "gcS g0 = s" "dataSize (gcBit g0) = ioUnitInPage P" "gcErases g0 = []" by (simp_all add: g0_def)
  obtain g where g: "foldR (gcBlock P) vs g0 = Inr g" "pm_inv P (gcS g)" "stored P (gcS g) = stored P s"
    "\<And>k. k \<in> set vs \<Longrightarrow> fullBlock P (gcS g) k \<and> k \<notin> set (lastFreeBlock (gcS g))"
    "nFreeBlocks s \<le> nFreeBlocks (gcS g) + pageCountToMaxPerf P * length vs"
    "map prBlockIndex (gcErases g) = vs" "\<And>k p i lpn. k \<in> set vs \<Longrightarrow> unitAt (gcS g) (k, p, i) \<noteq> Valid lpn"
    by (rule gcBlocks_ok [of P g0 vs, unfolded g0(1), OF I g0(2) P io V n g0(3)]) blast+
  define x where "x = gcReadAll P (gcReads g) (gcTick g) t (gcS g)"
  define y where "y = gcWriteAll P (gcWrites g) (snd x) t (fst x)"
  have y: "untouched (gcS g) (fst y)"
    using untouched_trans [OF gcReadAll_untouched gcWriteAll_untouched] by (simp add: y_def x_def)
  note Y = untouched_inv [OF y]
  have dv: "distinct (map prBlockIndex (gcErases g))" using g(6) vs by simp
  have sv: "prBlockIndex ` set (gcErases g) = set vs" using g(6) by (metis list.set_map)
  have "nFreeBlocks (fst y) \<noteq> 0" using Y(4) g(5) n by linarith
  then have ne: "freeBlocks (fst y) \<noteq> []" using Y(1) g(2) pm_inv_butD(1) [of "{}" P "fst y"] by (auto simp: pool_inv_def)
  have V': "blocks (fst y) k \<noteq> None \<and> k \<notin> set (lastFreeBlock (fst y)) \<and> (\<forall>p i lpn. unitAt (fst y) (k, p, i) \<noteq> Valid lpn)"
    if "k \<in> prBlockIndex ` set (gcErases g)" for k
  proof -
    have k: "k \<in> set vs" using that sv by simp
    show ?thesis using g(4) [OF k] g(7) [OF k] Y(3,5,6) by (auto simp: fullBlock_def)
  qed
  obtain z fin where z: "gcEraseAll P (gcErases g) (snd x) t (fst y) = Inr (z, fin)" "pm_inv P z" "table z = table (fst y)"
    "blocks z = blocks (fst y) |` (- set vs)" "nFreeBlocks (fst y) \<le> nFreeBlocks z"
    using gcEraseAll_ok [of P "fst y" "gcErases g" "snd x" t, OF _ dv ne V'] Y(1) g(2) sv by (auto simp: runs_to_iff)
  define s' where "s' = fst (addLatency P FN_DO_GARBAGE_COLLECTION (cMAX (snd y) fin) z)"
  have s': "untouched z s'" unfolding s'_def by (rule service_untouched)
  note S = untouched_inv [OF s']
  have "doGarbageCollection P vs t s = Inr (s', snd (addLatency P FN_DO_GARBAGE_COLLECTION (cMAX (snd y) fin) z))"
    using False g(1) z(1) by (simp add: doGarbageCollection_def g0_def x_def y_def s'_def split_beta)
  moreover have "stored P s' = stored P s"
    using g(3) S(2) lookup_cong [OF z(3)] Y(2) by (simp add: stored_def)
  ultimately show thesis using that S z Y g(5) by auto
qed

end
