(* ===== verification/PM_Victim.thy ===== *)
theory PM_Victim
  imports PM_GC "HOL-Library.Multiset"
begin

text \<open>
  The choice of the victims, and the operations that combine the parts: the greedy policy
  returns distinct full blocks with the least number of valid units, so a write that
  triggers garbage collection keeps the invariant and every stored unit.
\<close>

section \<open>Sorting by weight\<close>

lemma mset_insertWeight [simp]: "mset (insertWeight x xs) = add_mset x (mset xs)"
  by (induction xs) auto

lemma mset_foldr_insertWeight [simp]: "mset (foldr insertWeight ws []) = mset ws"
  by (induction ws) auto

definition byWeight :: "nat \<times> fl \<Rightarrow> nat \<times> fl \<Rightarrow> bool" where
  "byWeight x y \<longleftrightarrow> \<not> fl_lt (snd y) (snd x)"

lemma fl_lt_order:
  "x \<noteq> NaN \<Longrightarrow> y \<noteq> NaN \<Longrightarrow> z \<noteq> NaN \<Longrightarrow> \<not> fl_lt y x \<Longrightarrow> \<not> fl_lt z y \<Longrightarrow> \<not> fl_lt z x"
  by (cases x; cases y; cases z) auto

lemma fl_lt_asym: "fl_lt x y \<Longrightarrow> \<not> fl_lt y x"
  by (cases x; cases y) auto

lemma set_insertWeight [simp]: "set (insertWeight x xs) = insert x (set xs)"
  by (metis mset_insertWeight set_mset_add_mset_insert set_mset_mset)

lemma sorted_insertWeight:
  assumes "sorted_wrt byWeight xs" "snd x \<noteq> NaN" "\<forall>y\<in>set xs. snd y \<noteq> NaN"
  shows "sorted_wrt byWeight (insertWeight x xs)"
  using assms
proof (induction xs)
  case (Cons y ys)
  show ?case
  proof (cases "fl_lt (snd y) (snd x)")
    case True
    then have "byWeight y x" by (simp add: byWeight_def fl_lt_asym)
    then show ?thesis using Cons True by auto
  next
    case False
    then have "byWeight x z" if "z \<in> set (y # ys)" for z
      using Cons.prems that fl_lt_order [of "snd x" "snd y" "snd z"] by (auto simp: byWeight_def)
    then show ?thesis using Cons.prems False by auto
  qed
qed simp

lemma sorted_foldr_insertWeight:
  "\<forall>y\<in>set ws. snd y \<noteq> NaN \<Longrightarrow> sorted_wrt byWeight (foldr insertWeight ws [])"
proof (induction ws)
  case (Cons w ws)
  have "set (foldr insertWeight ws []) = set ws" by (metis mset_foldr_insertWeight set_mset_mset)
  then show ?case using Cons by (simp add: sorted_insertWeight)
qed simp

lemma sortWeights_ok:
  assumes "\<forall>w\<in>set ws. snd w \<noteq> NaN"
  obtains xs where "sortWeights ws = Inr xs" "mset xs = mset ws" "sorted_wrt byWeight xs"
proof (rule that)
  show "sortWeights ws = Inr (foldr insertWeight ws [])" using assms by (auto simp: sortWeights_def list_ex_iff)
qed (use assms sorted_foldr_insertWeight in simp_all)

text \<open>A prefix of a sorted list: no chosen element weighs more than one that is left.\<close>

lemma take_sorted_least:
  assumes "sorted_wrt R xs" "x \<in> set (take n xs)" "y \<in> set xs" "y \<notin> set (take n xs)"
  shows "R x y"
proof -
  have "y \<in> set (drop n xs)" using assms(3,4) by (metis Un_iff append_take_drop_id set_append)
  moreover have "sorted_wrt R (take n xs @ drop n xs)" using assms(1) by simp
  ultimately show ?thesis using assms(2) by (simp only: sorted_wrt_append)
qed

section \<open>The greedy choice\<close>

definition order_ok :: "'w pm_ctx \<Rightarrow> 'w pm \<Rightarrow> bool" where
  "order_ok P s \<longleftrightarrow> distinct (dIterOrder (dev P) (world s)) \<and> dom (blocks s) \<subseteq> set (dIterOrder (dev P) (world s))"

lemma map_filter_conv: "List.map_filter f xs = map (\<lambda>x. the (f x)) (filter (\<lambda>x. f x \<noteq> None) xs)"
  by (simp add: List.map_filter_def)

lemma fullBlocks_props:
  assumes "order_ok P s"
  shows "distinct (map fst (fullBlocks P s))"
    "(k, b) \<in> set (fullBlocks P s) \<longleftrightarrow> blocks s k = Some b \<and> Block_getNextWritePageIndex b = pagesInBlock P"
proof -
  let ?f = "\<lambda>k. case blocks s k of None \<Rightarrow> None
       | Some b \<Rightarrow> if Block_getNextWritePageIndex b \<noteq> pagesInBlock P then None else Some (k, b)"
  let ?o = "dIterOrder (dev P) (world s)"
  have "map fst (fullBlocks P s) = filter (\<lambda>x. ?f x \<noteq> None) ?o"
    unfolding fullBlocks_def map_filter_conv map_map
    by (rule map_idI) (auto split: option.splits if_splits)
  then show "distinct (map fst (fullBlocks P s))" using assms by (simp add: order_ok_def)
  have "k \<in> set ?o" if "blocks s k = Some b" using assms that by (auto simp: order_ok_def)
  then show "(k, b) \<in> set (fullBlocks P s) \<longleftrightarrow> blocks s k = Some b \<and> Block_getNextWritePageIndex b = pagesInBlock P"
    unfolding fullBlocks_def map_filter_conv by (force split: option.splits if_splits)
qed

text \<open>The number of blocks to reclaim in the mode with a fixed number.\<close>

definition reclaimCount :: "'w pm_ctx \<Rightarrow> 'w pm \<Rightarrow> u64" where
  "reclaimCount P s = cfgReclaimBlock P + (if bReclaimMore s then word_of_nat (pageCountToMaxPerf P) else 0)"

definition greedyWeights :: "'w pm_ctx \<Rightarrow> 'w pm \<Rightarrow> (nat \<times> fl) list" where
  "greedyWeights P s = map (\<lambda>(k, b). (k, fl_of_nat f32 (Block_getValidPageCountRaw b))) (fullBlocks P s)"

lemma selectVictimBlock_greedy:
  assumes m: "cfgGcMode P = GC_MODE_0" and e: "cfgEvictPolicy P = POLICY_GREEDY" and o: "order_ok P s"
    and c: "\<And>k b. blocks s k = Some b \<Longrightarrow> Block_getValidPageCountRaw b < 2 ^ 24"
  obtains vs s' t' where "selectVictimBlock P t s = Inr (vs, s', t')" "untouched s s'" "distinct vs"
    "length vs = min (unat (reclaimCount P s)) (length (fullBlocks P s))" "set vs \<subseteq> fst ` set (fullBlocks P s)"
    "\<And>k b k' b'. k \<in> set vs \<Longrightarrow> blocks s k = Some b \<Longrightarrow> (k', b') \<in> set (fullBlocks P s) \<Longrightarrow> k' \<notin> set vs \<Longrightarrow>
       Block_getValidPageCountRaw b \<le> Block_getValidPageCountRaw b'"
proof -
  let ?w = "greedyWeights P s"
  note F = fullBlocks_props [OF o]
  have w: "(k, x) \<in> set ?w \<longleftrightarrow> (\<exists>b. (k, b) \<in> set (fullBlocks P s) \<and> x = Fin (of_nat (Block_getValidPageCountRaw b)))" for k x
    using c F(2) by (force simp: greedyWeights_def fl_of_nat_f32)
  then have nn: "\<forall>v\<in>set ?w. snd v \<noteq> NaN" by auto
  obtain xs where xs: "sortWeights ?w = Inr xs" "mset xs = mset ?w" "sorted_wrt byWeight xs" using sortWeights_ok [OF nn] .
  have sx: "set xs = set ?w" using xs(2) by (metis set_mset_mset)
  have dx: "distinct (map fst xs)"
  proof -
    have "map fst ?w = map fst (fullBlocks P s)" by (auto simp: greedyWeights_def)
    then have "mset (map fst xs) = mset (map fst (fullBlocks P s))" using xs(2) by (metis mset_map)
    then show ?thesis using F(1) mset_eq_imp_distinct_iff by blast
  qed
  define s0 where "s0 = (if bReclaimMore s then s\<lparr>bReclaimMore := False\<rparr> else s)"
  have s0: "untouched s s0" "fullBlocks P s0 = fullBlocks P s" by (simp_all add: s0_def fullBlocks_def)
  have fb: "fullBlocks P (s\<lparr>bReclaimMore := False\<rparr>) = fullBlocks P s" by (simp add: fullBlocks_def)
  define n where "n = min (unat (reclaimCount P s)) (length xs)"
  define vs where "vs = map fst (take n xs)"
  define y where "y = addLatency P FN_SELECT_VICTIM_BLOCK t s0"
  have "selectVictimBlock P t s = Inr (vs, fst y, snd y)"
    using xs(1) fb m e
    by (simp add: selectVictimBlock_def calculateVictimWeight_def greedyWeights_def s0_def reclaimCount_def y_def vs_def n_def Let_def split_beta)
  moreover have "untouched s (fst y)" unfolding y_def by (rule untouched_trans [OF s0(1) service_untouched(6)])
  moreover have "distinct vs" using dx by (simp add: vs_def take_map [symmetric])
  moreover have "length vs = min (unat (reclaimCount P s)) (length (fullBlocks P s))"
    using arg_cong [OF xs(2), of size] by (simp add: vs_def n_def greedyWeights_def)
  moreover have "set vs \<subseteq> fst ` set (fullBlocks P s)"
  proof
    fix k assume "k \<in> set vs"
    then obtain x where "(k, x) \<in> set xs" unfolding vs_def using set_take_subset [of n xs] by auto
    then obtain b where "(k, b) \<in> set (fullBlocks P s)" using w sx by blast
    then show "k \<in> fst ` set (fullBlocks P s)" by force
  qed
  moreover have "Block_getValidPageCountRaw b \<le> Block_getValidPageCountRaw b'"
    if k: "k \<in> set vs" and b: "blocks s k = Some b" and f: "(k', b') \<in> set (fullBlocks P s)" and k': "k' \<notin> set vs" for k b k' b'
  proof -
    obtain x where x: "(k, x) \<in> set (take n xs)" using k by (auto simp: vs_def)
    have "(k, x) \<in> set ?w" using x sx set_take_subset [of n xs] by (metis subsetD)
    then obtain c' where "(k, c') \<in> set (fullBlocks P s)" "x = Fin (of_nat (Block_getValidPageCountRaw c'))" using w by blast
    then have xv: "x = Fin (of_nat (Block_getValidPageCountRaw b))" using b F(2) by simp
    let ?y = "(k', Fin (of_nat (Block_getValidPageCountRaw b')) :: fl)"
    have "?y \<in> set xs" using w f sx by blast
    moreover have "?y \<notin> set (take n xs)" using k' by (force simp: vs_def)
    ultimately have "byWeight (k, x) ?y" using take_sorted_least [OF xs(3) x] by blast
    then show ?thesis by (simp add: byWeight_def xv)
  qed
  ultimately show thesis using that by blast
qed

lemma fullBlocks_full:
  assumes P: "ctx_ok P" and I: "pool_inv P s" and b: "(k, b) \<in> set (fullBlocks P s)" and o: "order_ok P s"
  shows "fullBlock P s k"
proof -
  have b': "blocks s k = Some b" "Block_getNextWritePageIndex b = pagesInBlock P" using fullBlocks_props(2) [OF o] b by auto
  have "block_layout b" using pool_inv_used [OF I b'(1)] by (simp add: geometry_def Block_inv_def)
  then obtain i where "block_next b i = pagesInBlock P"
    using Block_getNextWritePageIndex_max(2) [of b] b'(2) P by (auto simp: ctx_ok_def)
  then show ?thesis using b'(1) unfolding fullBlock_def by (metis order_refl)
qed

section \<open>A write\<close>

text \<open>Whether a write goes on to collect garbage, in the state that its mapping part left.\<close>

definition needsGC :: "'w pm_ctx \<Rightarrow> 'w pm \<Rightarrow> bool" where
  "needsGC P s \<longleftrightarrow> fl_lt (freeBlockRatio P s) (cfgGcThreshold P)"

lemma stored_requested:
  assumes "lookup P s' = (\<lambda>x i. if x = frLpn req \<and> i < bitsetSize P \<and> selected P req i then Some (k, pg i) else lookup P s x i)"
  shows "stored P s' = stored P s \<union> requested P req"
  unfolding stored_def requested_def assms by (auto split: if_splits)

lemma writeInternal_ok:
  assumes I: "pm_inv P s" and P: "ctx_ok P" and r: "req_ok P req" and n: "0 < nFreeBlocks s"
    and m: "writeMapping P req t True s = Inr (s1, t1)"
    and gc: "needsGC P s1 \<Longrightarrow> ioUnitInPage P \<noteq> 1 \<and> cfgGcMode P = GC_MODE_0 \<and> cfgEvictPolicy P = POLICY_GREEDY \<and> order_ok P s1 \<and>
        (\<forall>k\<in>set (lastFreeBlock s1). \<not> fullBlock P s1 k) \<and>
        (\<forall>k b. blocks s1 k = Some b \<longrightarrow> Block_getValidPageCountRaw b < 2 ^ 24) \<and>
        pageCountToMaxPerf P * unat (reclaimCount P s1) < nFreeBlocks s1"
  obtains s' where "writeInternal P req t True s = Inr (s', t1)" "pm_inv P s'" "stored P s' = stored P s \<union> requested P req"
proof -
  obtain s1' t1' k pg where M: "writeMapping P req t True s = Inr (s1', t1')" "pm_inv P s1'"
    "lookup P s1' = (\<lambda>x i. if x = frLpn req \<and> i < bitsetSize P \<and> selected P req i then Some (k, pg i) else lookup P s x i)"
    by (rule writeMapping_ok [OF I P r n, of t True]) blast
  have I1: "pm_inv P s1" and st: "stored P s1 = stored P s \<union> requested P req"
    using M m stored_requested [OF M(3)] by auto
  show thesis
  proof (cases "needsGC P s1")
    case False
    then have "writeInternal P req t True s = Inr (s1, t1)" using m by (simp add: writeInternal_def needsGC_def)
    then show thesis using that I1 st by blast
  next
    case True
    note G = gc [OF True]
    have cnt: "\<And>k b. blocks s1 k = Some b \<Longrightarrow> Block_getValidPageCountRaw b < 2 ^ 24" and o: "order_ok P s1" using G by blast+
    obtain vs s2 t2 where v: "selectVictimBlock P t1 s1 = Inr (vs, s2, t2)" "untouched s1 s2" "distinct vs"
      "length vs = min (unat (reclaimCount P s1)) (length (fullBlocks P s1))" "set vs \<subseteq> fst ` set (fullBlocks P s1)"
      using selectVictimBlock_greedy [of P s1 t1] G cnt by metis
    note U = untouched_inv [OF v(2)]
    have V: "fullBlock P s2 x \<and> x \<notin> set (lastFreeBlock s2)" if x: "x \<in> set vs" for x
    proof -
      obtain b where "(x, b) \<in> set (fullBlocks P s1)" using x v(5) by force
      then have f: "fullBlock P s1 x" by (rule fullBlocks_full [OF P pm_inv_butD(1) [OF I1] _ o])
      then have "x \<notin> set (lastFreeBlock s1)" using G by blast
      then show ?thesis using f U by (simp add: fullBlock_def)
    qed
    have nf: "pageCountToMaxPerf P * length vs < nFreeBlocks s2"
    proof -
      have "pageCountToMaxPerf P * length vs \<le> pageCountToMaxPerf P * unat (reclaimCount P s1)" using v(4) by simp
      then show ?thesis using G U(4) by linarith
    qed
    have I2: "pm_inv P s2" using I1 U(1) by simp
    obtain s3 t3 where g: "doGarbageCollection P vs t2 s2 = Inr (s3, t3)" "pm_inv P s3" "stored P s3 = stored P s2"
      by (rule doGarbageCollection_ok [OF I2 P _ v(3) V nf, of t2]) (use G in blast)+
    define s' where "s' = s3\<lparr>gcCount := gcCount s3 + 1, reclaimedBlocks := reclaimedBlocks s3 + word_of_nat (length vs)\<rparr>"
    have s': "untouched s3 s'" by (simp add: s'_def)
    have "writeInternal P req t True s = Inr (s', t1)"
      using m True v(1) g(1) by (simp add: writeInternal_def needsGC_def s'_def)
    moreover have "stored P s' = stored P s \<union> requested P req"
      using untouched_inv(2) [OF s'] g(3) U(2) st by (simp add: stored_def)
    ultimately show thesis using that g(2) untouched_inv(1) [OF s'] by simp
  qed
qed

section \<open>Wear levelling\<close>

text \<open>
  The index computed from the erase counts of all blocks, in the machine arithmetic of the
  code: the square of their sum over the number of blocks times the sum of their squares.
\<close>

definition wearIndex :: "'w pm_ctx \<Rightarrow> nat list \<Rightarrow> fl" where
  "wearIndex P ns =
     (let total = (\<Sum>n\<leftarrow>ns. word_of_nat n :: u64);
          squares = (\<Sum>n\<leftarrow>ns. word_of_nat n * word_of_nat n :: u64)
      in if squares = 0 then Fin (- 1)
         else fl_div f32 (fl_mul f32 (fl_of_nat f32 (unat total)) (fl_of_nat f32 (unat total)))
                (fl_of_nat f32 (unat (word_of_nat (totalLogicalBlocks P) * squares))))"

lemma foldl_wear:
  "foldl (\<lambda>(a :: u64, b :: u64) n. (a + word_of_nat n, b + word_of_nat n * word_of_nat n)) (a, b) ns =
   (a + (\<Sum>n\<leftarrow>ns. word_of_nat n), b + (\<Sum>n\<leftarrow>ns. word_of_nat n * word_of_nat n))"
  by (induction ns arbitrary: a b) (simp_all add: add.assoc)

text \<open>Only blocks that were never erased lie before the point where the loop stops.\<close>

lemma freeEraseCounts_rest:
  assumes "sorted (map eraseCount (freeBlocks s))"
  obtains k where "map eraseCount (rev (freeBlocks s)) = freeEraseCounts s @ replicate k 0"
proof -
  let ?ns = "map eraseCount (rev (freeBlocks s))"
  have "sorted_wrt (\<ge>) ?ns" using assms by (simp add: rev_map [symmetric] sorted_wrt_rev)
  then have "sorted_wrt (\<ge>) (takeWhile (\<lambda>n. n \<noteq> 0) ?ns @ dropWhile (\<lambda>n. n \<noteq> 0) ?ns)" by simp
  then have srt: "sorted_wrt (\<ge>) (dropWhile (\<lambda>n. n \<noteq> 0) ?ns)" by (simp only: sorted_wrt_append)
  have "\<forall>n\<in>set (dropWhile (\<lambda>n. n \<noteq> 0) ?ns). n = 0"
  proof (cases "dropWhile (\<lambda>n. n \<noteq> 0) ?ns")
    case (Cons x xs)
    then have "x = 0" using hd_dropWhile [of "\<lambda>n. n \<noteq> 0" ?ns] by auto
    then show ?thesis using srt Cons by auto
  next
    case Nil
    then show ?thesis by (simp only: list.set ball_simps)
  qed
  then have "dropWhile (\<lambda>n. n \<noteq> 0) ?ns = replicate (length (dropWhile (\<lambda>n. n \<noteq> 0) ?ns)) 0"
    by (metis replicate_length_same)
  then show thesis using that takeWhile_dropWhile_id [of "\<lambda>n. n \<noteq> 0" ?ns] unfolding freeEraseCounts_def by metis
qed

lemma sum_list_rev_nat: "(\<Sum>n\<leftarrow>rev ns. f n) = (\<Sum>n\<leftarrow>ns. f n :: u64)"
  by (metis rev_map sum_list_rev)

lemma calculateWearLeveling_all:
  assumes "pool_inv P s"
  shows "calculateWearLeveling P s = wearIndex P (usedEraseCounts P s @ map eraseCount (freeBlocks s))"
proof -
  have "sorted (map eraseCount (freeBlocks s))" using assms by (simp add: pool_inv_def)
  then obtain k where k: "map eraseCount (rev (freeBlocks s)) = freeEraseCounts s @ replicate k 0" by (rule freeEraseCounts_rest)
  have "(\<Sum>n\<leftarrow>map eraseCount (freeBlocks s). f n) = (\<Sum>n\<leftarrow>freeEraseCounts s. f n :: u64)" if "f 0 = 0" for f
  proof -
    have "(\<Sum>n\<leftarrow>map eraseCount (freeBlocks s). f n) = (\<Sum>n\<leftarrow>map eraseCount (rev (freeBlocks s)). f n)"
      using sum_list_rev_nat [of f "map eraseCount (freeBlocks s)"] by (simp add: rev_map)
    also have "\<dots> = (\<Sum>n\<leftarrow>freeEraseCounts s. f n)" unfolding k using that by (simp add: sum_list_replicate)
    finally show ?thesis .
  qed
  from this [of word_of_nat] this [of "\<lambda>n. word_of_nat n * word_of_nat n"] show ?thesis
    by (simp add: calculateWearLeveling_def wearIndex_def foldl_wear Let_def)
qed

end
