(* ===== verification/FTL_Props.thy ===== *)
theory FTL_Props
  imports PM_Victim
begin

text \<open>
  The properties of the flash translation layer: bit vectors, blocks, the page mapping with
  its garbage collection and statistics. Each theorem with hypotheses is followed by an
  instance on a small device, whose definitions come first.
\<close>

section \<open>A small device\<close>

text \<open>Four blocks of \<open>n\<close> pages of two units, one write stream, a flash array that takes one tick per request.\<close>

definition exDevice :: "unit device" where
  "exDevice = \<lparr>dPalRead = (\<lambda>w r t. (w, t + 1)), dPalWrite = (\<lambda>w r t. (w, t + 1)), dPalErase = (\<lambda>w r t. (w, t + 1)),
     dDramRead = (\<lambda>w n t. (w, t)), dDramWrite = (\<lambda>w n t. (w, t)), dDramScheduling = (\<lambda>w b. w),
     dApplyLatency = (\<lambda>w ns fn. (w, 0)), dRandom = (\<lambda>w lo hi. (w, lo)), dIterOrder = (\<lambda>w. [0, 1, 2, 3])\<rparr>"

definition exCtx :: "nat \<Rightarrow> unit pm_ctx" where
  "exCtx n = \<lparr>totalPhysicalBlocks = 4, totalLogicalBlocks = 2, pagesInBlock = n, ioUnitInPage = 2, pageCountToMaxPerf = 1,
     bRandomTweak = True, cfgGcThreshold = Fin (1 / 4), cfgGcMode = GC_MODE_0, cfgEvictPolicy = POLICY_GREEDY,
     cfgDChoiceParam = 3, cfgReclaimBlock = 1, cfgReclaimThreshold = Fin 0, cfgBadBlockThreshold = 100000,
     cfgFuel = 100, dev = exDevice\<rparr>"

text \<open>A request for one unit, and one for both.\<close>

definition exUnit :: "u64 \<Rightarrow> nat \<Rightarrow> ftl_request" where
  "exUnit lpn i = \<lparr>frReqID = 0, frReqSubID = 0, frLpn = lpn, frIoFlag = Bitset_set (Bitset_new 2) i, frIclReq = ICL_Request_new\<rparr>"

definition exPage :: "u64 \<Rightarrow> ftl_request" where
  "exPage lpn = \<lparr>frReqID = 0, frReqSubID = 0, frLpn = lpn, frIoFlag = Bitset_set_all (Bitset_new 2), frIclReq = ICL_Request_new\<rparr>"

text \<open>A block with the given pages, and the state of the mapping around its blocks.\<close>

definition exBits :: "u8 \<Rightarrow> bitset" where
  "exBits v = \<lparr>data = [v], dataSize = 2, allocSize = 1\<rparr>"

definition exBlock :: "nat \<Rightarrow> (u8 \<times> u8 \<times> u64) list \<Rightarrow> nat \<Rightarrow> tick \<Rightarrow> block" where
  "exBlock k ps n t = \<lparr>blkIdx = k, blkPageCount = length ps, blkIoUnit = 2, pNextWritePageIndex = [n, n],
     pValidBits = \<lparr>data = [], dataSize = 0, allocSize = 0\<rparr>, pErasedBits = \<lparr>data = [], dataSize = 0, allocSize = 0\<rparr>, pLPNs = [],
     validBits = map (\<lambda>(v, e, l). exBits v) ps, erasedBits = map (\<lambda>(v, e, l). exBits e) ps,
     ppLPNs = map (\<lambda>(v, e, l). [l, l]) ps, blkLastAccessed = t, eraseCount = 0\<rparr>"

definition exState :: "(u64 \<rightharpoonup> (nat \<times> nat) list) \<Rightarrow> (nat \<rightharpoonup> block) \<Rightarrow> block list \<Rightarrow> nat \<Rightarrow> u8 \<Rightarrow> bool \<Rightarrow> unit pm" where
  "exState tbl bs free strm io rm = \<lparr>table = tbl, blocks = bs, freeBlocks = free, nFreeBlocks = length free, lastFreeBlock = [strm],
     lastFreeBlockIOMap = exBits io, lastFreeBlockIndex = 0, bReclaimMore = rm, gcCount = 0, reclaimedBlocks = 0,
     validSuperPageCopies = 0, validPageCopies = 0, world = ()\<rparr>"

lemma replicate_2: "replicate 2 x = [x, x]"
  by (simp add: numeral_2_eq_2)

lemmas exDefs = exCtx_def exDevice_def exUnit_def exPage_def exBits_def exBlock_def exState_def

lemmas run_simps = PageMapping_new_def makeBlocks_def Block_new_def upt_rec Let_def
  Bitset_new_def Block_erase_def Bitset_reset_all_def Bitset_set_all_def getFreeBlock_def extract_Cons_code takeFreeBlock_def
  PageMapping_write_def writeInternal_def writeMapping_def getLastFreeBlock_def selectStream_def writeUnit_def invalidateOld_def
  bitsetSize_def mapped_def unitFlag_def updBlock_def Block_write_def Block_testBit_def Block_invalidate_def
  Block_getNextWritePageIndex_def Block_getNextWritePageIndexAt_def Bitset_in_range_def Bitset_set_to_def Bitset_reset_def
  Bitset_test_def Bitset_and_def Bitset_or_def Bitset_zip_def Bitset_any_def Bitset_none_def Bitset_all_def Bitset_count_def
  popcount_def Bitset_size_def palRead_def palWrite_def palErase_def dramRead_def dramWrite_def addLatency_def
  PAL_Request_ftl_def PageMapping_trim_def trimInternal_def trimUnit_def replicate_2 nth_Cons'

lemma exCtx_ok: "0 < n \<Longrightarrow> ctx_ok (exCtx n)" "pageCountToMaxPerf (exCtx n) \<le> totalPhysicalBlocks (exCtx n)"
  by (simp_all add: ctx_ok_def exCtx_def)

lemma exReq_ok: "req_ok (exCtx n) (exPage lpn)" "i < 2 \<Longrightarrow> req_ok (exCtx n) (exUnit lpn i)"
  using Bitset_set_all(1) [OF Bitset_new_wf, of 2] Bitset_set_to(1) [OF Bitset_new_wf, of 2 i True]
  by (simp_all add: req_ok_def exPage_def exUnit_def exCtx_def)

text \<open>The device after construction, with one and with two pages per block.\<close>

definition exStart :: "(u8 \<times> u8 \<times> u64) list \<Rightarrow> unit pm" where
  "exStart ps = exState Map.empty [0 \<mapsto> exBlock 0 ps 0 0] [exBlock 1 ps 0 0, exBlock 2 ps 0 0, exBlock 3 ps 0 0] 0 0 False"

lemma exStart_new: "PageMapping_new (exCtx 1) () = Inr (exStart [(0, 3, 0)])"
  "PageMapping_new (exCtx 2) () = Inr (exStart [(0, 3, 0), (0, 3, 0)])"
  by (simp_all add: run_simps exDefs exStart_def numeral_2_eq_2 [symmetric])

lemma exStart_inv: "pm_inv (exCtx 1) (exStart [(0, 3, 0)])" "pm_inv (exCtx 2) (exStart [(0, 3, 0), (0, 3, 0)])"
proof -
  have "runs_to (PageMapping_new (exCtx n) ()) (pm_inv (exCtx n))" if "0 < n" for n
    using PageMapping_new_starting [OF exCtx_ok, OF that, of "()"] starting_pm_inv [OF _ exCtx_ok(1), OF _ that] by (rule runs_to_mono)
  from this [of 1] this [of 2] show "pm_inv (exCtx 1) (exStart [(0, 3, 0)])" "pm_inv (exCtx 2) (exStart [(0, 3, 0), (0, 3, 0)])"
    unfolding exStart_new runs_to_Inr by simp_all
qed

text \<open>With one page per block: logical page 5 in block 0, page 6 in block 1, the stream at block 1.\<close>

definition exFull :: "unit pm" where
  "exFull = exState [5 \<mapsto> [(0, 0), (0, 0)], 6 \<mapsto> [(1, 0), (1, 0)]] [0 \<mapsto> exBlock 0 [(3, 0, 5)] 1 0, 1 \<mapsto> exBlock 1 [(3, 0, 6)] 1 1]
     [exBlock 2 [(0, 3, 0)] 0 0, exBlock 3 [(0, 3, 0)] 0 0] 1 3 True"

definition exHalf :: "unit pm" where
  "exHalf = exState [5 \<mapsto> [(0, 0), (0, 0)]] [0 \<mapsto> exBlock 0 [(3, 0, 5)] 1 0]
     [exBlock 1 [(0, 3, 0)] 0 0, exBlock 2 [(0, 3, 0)] 0 0, exBlock 3 [(0, 3, 0)] 0 0] 0 3 False"

lemma exFull_run: "writeMapping (exCtx 1) (exPage 5) 0 True (exStart [(0, 3, 0)]) = Inr (exHalf, 1)"
  "writeMapping (exCtx 1) (exPage 6) 1 True exHalf = Inr (exFull, 2)"
  by (simp_all add: run_simps exDefs exStart_def exHalf_def exFull_def)

lemma writeMapping_keeps:
  assumes "pm_inv P s" "ctx_ok P" "req_ok P req" "0 < nFreeBlocks s" "writeMapping P req t toPAL s = Inr (s', t')"
  shows "pm_inv P s'"
  by (rule writeMapping_ok [OF assms(1-4), of t toPAL]) (use assms(5) in simp)

lemma exHalf_inv: "pm_inv (exCtx 1) exHalf"
  by (rule writeMapping_keeps [OF exStart_inv(1) exCtx_ok(1) exReq_ok(1) _ exFull_run(1)]) (simp_all add: exStart_def exState_def)

lemma exFull_inv: "pm_inv (exCtx 1) exFull"
  by (rule writeMapping_keeps [OF exHalf_inv exCtx_ok(1) exReq_ok(1) _ exFull_run(2)]) (simp_all add: exHalf_def exState_def)

section \<open>Bit vectors and blocks\<close>

text \<open>C1. \<open>Bitset::count\<close> returns the number of indices below the size whose bit is set.\<close>

theorem Bitset_count_correct:
  assumes "Bitset_wf b"
  shows "Bitset_count b = card {i. i < Bitset_size b \<and> Bitset_test b i}"
  using bv.count_test [OF assms] by (simp add: Bitset_size_def)

theorem Bitset_count_correct_witness:
  "Bitset_count (Bitset_set (Bitset_new 11) 9) = card {i. i < Bitset_size (Bitset_set (Bitset_new 11) 9) \<and> Bitset_test (Bitset_set (Bitset_new 11) 9) i}"
  by (rule Bitset_count_correct, rule Bitset_set_to) (simp_all add: Bitset_new_wf)

text \<open>
  C2. \<open>Block::write\<close> programs an erased unit at or behind the write pointer: the unit then
  holds the LPN and the pointer is behind it, nothing else changes. On a unit that is not
  erased, or in front of the pointer, it panics.
\<close>

theorem Block_write_correct:
  assumes "Block_inv b" "p < blkPageCount b" "i < blkIoUnit b"
  shows "case Block_write b p lpn i t of
      Inl e \<Rightarrow> e = Panic ''Write to non erased page'' \<and> block_view b (p, i) \<noteq> Erased \<or>
               e = Panic ''Write to block should sequential'' \<and> block_view b (p, i) = Erased \<and> p < block_next b i
    | Inr (ok, b') \<Rightarrow> ok \<and> block_view b (p, i) = Erased \<and> block_next b i \<le> p \<and> Block_inv b' \<and> block_frame b b' \<and>
        block_view b' = (block_view b)((p, i) := Valid lpn) \<and> block_next b' = (block_next b)(i := Suc p)"
  using Block_write_erased [OF assms, of lpn t] Block_write_panics [OF assms, of lpn t]
  by (cases "block_view b (p, i) = Erased"; cases "block_next b i \<le> p") auto

theorem Block_write_correct_witness:
  "\<exists>b. Block_new 3 4 2 = Inr b \<and> (case Block_write b 1 77 0 5 of Inl e \<Rightarrow> False
     | Inr (ok, b') \<Rightarrow> ok \<and> block_view b' (1, 0) = Valid 77 \<and> block_next b' 0 = 2)"
proof -
  obtain b where b: "Block_new 3 4 2 = Inr b" "Block_inv b" "block_view b = (\<lambda>_. Erased)" "block_next b = (\<lambda>_. 0)"
    "blkPageCount b = 4" "blkIoUnit b = 2" using Block_new_block [of 4 2 3] by auto
  then have "1 < blkPageCount b" "0 < blkIoUnit b" by simp_all
  from Block_write_correct [OF b(2) this, of 77 5] b show ?thesis by (auto split: sum.splits)
qed

section \<open>The page mapping\<close>

text \<open>
  The constructor of \<open>PageMapping\<close> returns whenever there are at least as many blocks as
  write streams, and establishes the invariant with nothing stored.
\<close>

theorem PageMapping_new_correct:
  assumes "ctx_ok P" "pageCountToMaxPerf P \<le> totalPhysicalBlocks P"
  shows "runs_to (PageMapping_new P w) (\<lambda>s. pm_inv P s \<and> stored P s = {} \<and>
    nFreeBlocks s = totalPhysicalBlocks P - pageCountToMaxPerf P)"
  using PageMapping_new_starting [OF assms, of w]
proof (rule runs_to_mono)
  fix s assume S: "starting P (pageCountToMaxPerf P) s"
  then have "pm_inv P s" using assms(1) by (rule starting_pm_inv)
  then show "pm_inv P s \<and> stored P s = {} \<and> nFreeBlocks s = totalPhysicalBlocks P - pageCountToMaxPerf P"
    using S by (auto simp: starting_def stored_def lookup_def)
qed

theorem PageMapping_new_correct_witness:
  "runs_to (PageMapping_new (exCtx 2) ()) (\<lambda>s. pm_inv (exCtx 2) s \<and> stored (exCtx 2) s = {} \<and> nFreeBlocks s = 3)"
  using PageMapping_new_correct [OF exCtx_ok, of 2 "()"] by (simp add: exCtx_def)

text \<open>
  C4. The mapping part of a write returns whenever a block is free: the units of the request
  are mapped to one block, each to a page of its own, every other unit stays where it
  was, and the invariant holds.
\<close>

theorem writeMapping_correct:
  assumes "pm_inv P s" "ctx_ok P" "req_ok P req" "0 < nFreeBlocks s"
  shows "runs_to (writeMapping P req t toPAL s) (\<lambda>(s', t'). pm_inv P s' \<and> (\<exists>k pg. \<forall>lpn i. lookup P s' lpn i =
    (if lpn = frLpn req \<and> i < bitsetSize P \<and> selected P req i then Some (k, pg i) else lookup P s lpn i)))"
proof (rule writeMapping_ok [OF assms])
  fix s' t' k pg
  assume "writeMapping P req t toPAL s = Inr (s', t')" "pm_inv P s'" and
    "lookup P s' = (\<lambda>x i. if x = frLpn req \<and> i < bitsetSize P \<and> selected P req i then Some (k, pg i) else lookup P s x i)"
  then show ?thesis by auto
qed

theorem writeMapping_correct_witness:
  "runs_to (writeMapping (exCtx 1) (exUnit 7 1) 0 True exFull) (\<lambda>(s', t').
     pm_inv (exCtx 1) s' \<and> (\<exists>k pg. \<forall>lpn i. lookup (exCtx 1) s' lpn i =
       (if lpn = frLpn (exUnit 7 1) \<and> i < bitsetSize (exCtx 1) \<and> selected (exCtx 1) (exUnit 7 1) i then Some (k, pg i)
        else lookup (exCtx 1) exFull lpn i)))"
  by (rule writeMapping_correct [OF exFull_inv exCtx_ok(1) exReq_ok(2)]) (simp_all add: exFull_def exState_def)

text \<open>
  What a collection started by a write needs: the modes it is proved for, victims that are not
  the streams themselves and free blocks for the copies.
\<close>

definition gcReady :: "'w pm_ctx \<Rightarrow> 'w pm \<Rightarrow> bool" where
  "gcReady P s \<longleftrightarrow> ioUnitInPage P \<noteq> 1 \<and> cfgGcMode P = GC_MODE_0 \<and> cfgEvictPolicy P = POLICY_GREEDY \<and> order_ok P s \<and>
     (\<forall>k\<in>set (lastFreeBlock s). \<not> fullBlock P s k) \<and>
     (\<forall>k b. blocks s k = Some b \<longrightarrow> Block_getValidPageCountRaw b < 2 ^ 24) \<and>
     pageCountToMaxPerf P * unat (reclaimCount P s) < nFreeBlocks s"

lemma PageMapping_write_ok:
  assumes "pm_inv P s" "ctx_ok P" "req_ok P req" "0 < nFreeBlocks s" "0 < Bitset_count (frIoFlag req)"
    and "\<And>s1 t1. writeMapping P req t True s = Inr (s1, t1) \<Longrightarrow> needsGC P s1 \<Longrightarrow> gcReady P s1"
  shows "runs_to (PageMapping_write P req t s) (\<lambda>(s', t'). pm_inv P s' \<and> stored P s' = stored P s \<union> requested P req)"
proof -
  have "\<exists>s1 t1. writeMapping P req t True s = Inr (s1, t1)" by (rule writeMapping_ok [OF assms(1-4)]) blast
  then obtain s1 t1 where m: "writeMapping P req t True s = Inr (s1, t1)" by blast
  obtain s2 where w: "writeInternal P req t True s = Inr (s2, t1)" "pm_inv P s2" "stored P s2 = stored P s \<union> requested P req"
    using writeInternal_ok [OF assms(1-4) m] assms(6) [OF m] unfolding gcReady_def by metis
  have u: "untouched s2 (fst (addLatency P FN_WRITE t1 s2))" by (rule service_untouched)
  have "stored P (fst (addLatency P FN_WRITE t1 s2)) = stored P s2" by (simp add: stored_def untouched_inv [OF u])
  then show ?thesis
    using w assms(5) untouched_inv(1) [OF u] by (simp add: PageMapping_write_def split_beta)
qed

text \<open>
  C5. With a free block left, \<open>PageMapping::write\<close> of a request that selects a unit returns, and
  afterwards exactly the units stored before and the units of the request are stored, each
  at the place the mapping names. This covers the garbage collection that the write may
  start, under the conditions of \<open>gcReady\<close> on the state after the mapping part: two or more
  units per page, the garbage collection mode with a fixed number of blocks, greedy victims,
  a traversal order that lists every block in use, no write stream on a full block, fewer
  than \<open>2^24\<close> valid units in a block, and more free blocks than write streams times blocks
  to reclaim.
\<close>

theorem PageMapping_write_correct:
  assumes "pm_inv P s" "ctx_ok P" "req_ok P req" "0 < nFreeBlocks s" "0 < Bitset_count (frIoFlag req)"
    and "\<And>s1 t1. writeMapping P req t True s = Inr (s1, t1) \<Longrightarrow> needsGC P s1 \<Longrightarrow> gcReady P s1"
  shows "runs_to (PageMapping_write P req t s) (\<lambda>(s', t'). pm_inv P s' \<and> stored P s' = stored P s \<union> requested P req)"
  using assms by (rule PageMapping_write_ok)

text \<open>
  A device of five blocks with two pages each that collects below three quarters of free
  blocks: block 0 is full, the write of page 6 opens another block and leaves three of five.
\<close>

definition exFive :: "unit pm_ctx" where
  "exFive = (exCtx 2)\<lparr>totalPhysicalBlocks := 5, cfgGcThreshold := Fin (3 / 4), dev := exDevice\<lparr>dIterOrder := (\<lambda>w. [0, 1, 2, 3, 4])\<rparr>\<rparr>"

definition exFiveState :: "(u64 \<rightharpoonup> (nat \<times> nat) list) \<Rightarrow> (u8 \<times> u8 \<times> u64) list \<Rightarrow> nat \<Rightarrow> tick \<Rightarrow> u8 \<Rightarrow> unit pm" where
  "exFiveState tbl ps n t io = exState tbl [0 \<mapsto> exBlock 0 ps n t]
     [exBlock 1 [(0, 3, 0), (0, 3, 0)] 0 0, exBlock 2 [(0, 3, 0), (0, 3, 0)] 0 0, exBlock 3 [(0, 3, 0), (0, 3, 0)] 0 0,
      exBlock 4 [(0, 3, 0), (0, 3, 0)] 0 0] 0 io False"

definition exFiveFull :: "unit pm" where
  "exFiveFull = exFiveState [4 \<mapsto> [(0, 0), (0, 0)], 5 \<mapsto> [(0, 1), (0, 1)]] [(3, 0, 4), (3, 0, 5)] 2 1 3"

definition exFiveAfter :: "unit pm" where
  "exFiveAfter = exState [4 \<mapsto> [(0, 0), (0, 0)], 5 \<mapsto> [(0, 1), (0, 1)], 6 \<mapsto> [(1, 0), (1, 0)]]
     [0 \<mapsto> exBlock 0 [(3, 0, 4), (3, 0, 5)] 2 1, 1 \<mapsto> exBlock 1 [(3, 0, 6), (0, 3, 0)] 1 2]
     [exBlock 2 [(0, 3, 0), (0, 3, 0)] 0 0, exBlock 3 [(0, 3, 0), (0, 3, 0)] 0 0, exBlock 4 [(0, 3, 0), (0, 3, 0)] 0 0] 1 3 True"

lemma exFive_ok: "ctx_ok exFive" "req_ok exFive (exPage lpn)" "0 < Bitset_count (frIoFlag (exPage lpn))"
proof -
  show "ctx_ok exFive" by (simp add: ctx_ok_def exFive_def exCtx_def)
  show "req_ok exFive (exPage lpn)" using exReq_ok(1) [of 2 lpn] by (simp add: req_ok_def exFive_def exCtx_def)
  show "0 < Bitset_count (frIoFlag (exPage lpn))" by (simp add: run_simps exPage_def)
qed

lemma exFive_run:
  "PageMapping_new exFive () = Inr (exFiveState Map.empty [(0, 3, 0), (0, 3, 0)] 0 0 0)"
  "writeMapping exFive (exPage 4) 0 True (exFiveState Map.empty [(0, 3, 0), (0, 3, 0)] 0 0 0) =
     Inr (exFiveState [4 \<mapsto> [(0, 0), (0, 0)]] [(3, 0, 4), (0, 3, 0)] 1 0 3, 1)"
  "writeMapping exFive (exPage 5) 1 True (exFiveState [4 \<mapsto> [(0, 0), (0, 0)]] [(3, 0, 4), (0, 3, 0)] 1 0 3) = Inr (exFiveFull, 2)"
  "writeMapping exFive (exPage 6) 2 True exFiveFull = Inr (exFiveAfter, 3)"
  by (simp_all add: run_simps exDefs exFive_def exFiveState_def exFiveFull_def exFiveAfter_def numeral_2_eq_2 [symmetric])

lemma exFiveFull_inv: "pm_inv exFive exFiveFull"
proof -
  have "runs_to (PageMapping_new exFive ()) (pm_inv exFive)"
    using PageMapping_new_starting [OF exFive_ok(1), of "()"] starting_pm_inv [OF _ exFive_ok(1)]
    by (auto simp: exFive_def exCtx_def elim!: runs_to_mono)
  then have "pm_inv exFive (exFiveState Map.empty [(0, 3, 0), (0, 3, 0)] 0 0 0)" by (simp add: exFive_run)
  from writeMapping_keeps [OF this exFive_ok(1,2) _ exFive_run(2)]
  have "pm_inv exFive (exFiveState [4 \<mapsto> [(0, 0), (0, 0)]] [(3, 0, 4), (0, 3, 0)] 1 0 3)" by (simp add: exFiveState_def exState_def)
  from writeMapping_keeps [OF this exFive_ok(1,2) _ exFive_run(3)]
  show ?thesis by (simp add: exFiveState_def exState_def)
qed

lemma fround_three_fifths: "fround f32 (3 / 5) = Fin (10066330 / 16777216)"
proof -
  have n: "nbits 3 = 2" "nbits 5 = 3"
    by (simp_all add: nbits.simps [of 3] nbits.simps [of 5] nbits.simps [of 2])
  have q: "quotient_of (3 / 5) = (3, 5)" by code_simp
  have "ilog2 (3 / 5) = - 1" by (simp add: ilog2_def q n pow2_def)
  moreover have "\<lfloor>50331648 / 5 :: rat\<rfloor> = 10066329" by (rule floor_unique) simp_all
  ultimately show ?thesis by (simp add: fround_def f32_def pow2_def round_even_def Let_def)
qed

lemma exFive_collects: "needsGC exFive exFiveAfter" "gcReady exFive exFiveAfter"
proof -
  have "fl_of_nat f32 n = Fin (of_nat n)" if "n < 2 ^ 24" for n using that by (rule fl_of_nat_f32)
  then have "freeBlockRatio exFive exFiveAfter = fround f32 (3 / 5)"
    by (simp add: freeBlockRatio_def exFiveAfter_def exFive_def exCtx_def exState_def)
  then show "needsGC exFive exFiveAfter" by (simp add: needsGC_def exFive_def fround_three_fifths)
  have raw: "Block_getValidPageCountRaw (exBlock 0 [(3, 0, 4), (3, 0, 5)] 2 1) = 4" "Block_getValidPageCountRaw (exBlock 1 [(3, 0, 6), (0, 3, 0)] 1 2) = 2"
    by (simp_all add: Block_getValidPageCountRaw_def exBlock_def exBits_def run_simps)
  have "block_next (exBlock 1 [(3, 0, 6), (0, 3, 0)] 1 2) i < 2" for i
    by (simp add: block_next_def exBlock_def nth_Cons')
  with raw show "gcReady exFive exFiveAfter"
    by (auto simp: gcReady_def order_ok_def fullBlock_def reclaimCount_def exFiveAfter_def exState_def exFive_def exCtx_def exDevice_def not_le
        intro: le_less_trans split: if_splits)
qed

theorem PageMapping_write_correct_witness:
  "writeMapping exFive (exPage 6) 2 True exFiveFull = Inr (exFiveAfter, 3) \<and> needsGC exFive exFiveAfter \<and>
   runs_to (PageMapping_write exFive (exPage 6) 2 exFiveFull) (\<lambda>(s', t'). pm_inv exFive s' \<and>
     stored exFive s' = stored exFive exFiveFull \<union> requested exFive (exPage 6))"
proof (intro conjI exFive_run(4) exFive_collects(1) PageMapping_write_correct [OF exFiveFull_inv exFive_ok(1,2) _ exFive_ok(3)])
  show "gcReady exFive s1" if "writeMapping exFive (exPage 6) 2 True exFiveFull = Inr (s1, t1)" for s1 t1
    using that exFive_collects(2) by (simp add: exFive_run)
qed (simp add: exFiveFull_def exFiveState_def exState_def)

text \<open>
  C6. \<open>readInternal\<close> always returns and refines the specification of a read: one flash read per
  stored and selected unit, at the place the mapping names, all issued at the tick after
  the table access; the mapping and the stored data do not change.
\<close>

theorem readInternal_refines:
  assumes "pm_inv P s" "ctx_ok P"
  shows "runs_to (readInternal P req t s) (\<lambda>(s', t'). accessed s s' \<and> (world s', t') = readEffect P req t s)"
  by (rule readInternal_ok [OF assms, of req t]) simp

theorem readInternal_refines_witness:
  "runs_to (readInternal (exCtx 1) (exPage 6) 9 exFull) (\<lambda>(s', t'). accessed exFull s' \<and> (world s', t') = readEffect (exCtx 1) (exPage 6) 9 exFull)"
  by (rule readInternal_refines [OF exFull_inv exCtx_ok(1)]) simp

lemma mapping_holds: "pm_inv P s \<Longrightarrow> lookup P s x i = Some m \<Longrightarrow> unitAt s (fst m, snd m, i) = Valid x"
  using consistentD [of "{}" "lookup P s" "unitAt s" x i "fst m" "snd m"] by (simp add: pm_inv_but_def)

text \<open>
  The histories of the page mapping that C7 is about, with the units they leave stored: a new
  mapping, reads, writes with the garbage collection they start, trims. A write needs a free
  block and, when it collects, the conditions of \<open>gcReady\<close>; a trim is of a logical page that
  is unmapped or stored in all its units.
\<close>

inductive ftl_run :: "'w pm_ctx \<Rightarrow> (u64 \<times> nat) set \<Rightarrow> 'w pm \<Rightarrow> bool" for P where
  run_new: "PageMapping_new P w = Inr s \<Longrightarrow> ftl_run P {} s"
| run_read: "ftl_run P S s \<Longrightarrow> PageMapping_read P req t s = Inr (s', t') \<Longrightarrow> ftl_run P S s'"
| run_write: "ftl_run P S s \<Longrightarrow> req_ok P req \<Longrightarrow> 0 < nFreeBlocks s \<Longrightarrow> 0 < Bitset_count (frIoFlag req) \<Longrightarrow>
    (\<And>s1 t1. writeMapping P req t True s = Inr (s1, t1) \<Longrightarrow> needsGC P s1 \<Longrightarrow> gcReady P s1) \<Longrightarrow>
    PageMapping_write P req t s = Inr (s', t') \<Longrightarrow> ftl_run P (S \<union> requested P req) s'"
| run_trim: "ftl_run P S s \<Longrightarrow> table s (frLpn req) = None \<or> whole P s (frLpn req) \<Longrightarrow>
    PageMapping_trim P req t s = Inr (s', t') \<Longrightarrow> ftl_run P (S - {frLpn req} \<times> UNIV) s'"

lemma pm_inv_latency:
  "pm_inv P (fst (addLatency P f t s)) = pm_inv P s" "stored P (fst (addLatency P f t s)) = stored P s"
proof -
  have u: "untouched s (fst (addLatency P f t s))" by (rule service_untouched)
  show "pm_inv P (fst (addLatency P f t s)) = pm_inv P s" by (rule untouched_inv(1) [OF u])
  show "stored P (fst (addLatency P f t s)) = stored P s" by (simp add: stored_def untouched_inv [OF u])
qed

lemma PageMapping_read_ok:
  assumes "pm_inv P s" "ctx_ok P"
  shows "runs_to (PageMapping_read P req t s) (\<lambda>(s', t'). pm_inv P s' \<and> stored P s' = stored P s)"
proof -
  obtain u x where r: "readInternal P req t s = Inr (u, x)" and a: "accessed s u"
    by (rule readInternal_ok [OF assms, of req t]) blast
  have "pm_inv P u \<and> stored P u = stored P s" using accessed_inv [OF a assms(1)] by (simp add: stored_def)
  then show ?thesis using r assms(1) pm_inv_latency [of P FN_READ] by (simp add: PageMapping_read_def split_beta)
qed

lemma PageMapping_trim_ok:
  assumes "pm_inv P s" "table s (frLpn req) = None \<or> whole P s (frLpn req)"
  shows "runs_to (PageMapping_trim P req t s) (\<lambda>(s', t'). pm_inv P s' \<and> stored P s' = stored P s - {frLpn req} \<times> UNIV)"
proof (rule trimInternal_ok [OF assms(1)])
  show "whole P s (frLpn req)" if "table s (frLpn req) \<noteq> None" using assms(2) that by blast
  fix u x assume t: "trimInternal P req t s = Inr (u, x)" "pm_inv P u"
    and l: "lookup P u = (\<lambda>x. if x = frLpn req then (\<lambda>_. None) else lookup P s x)"
  have "stored P u = stored P s - {frLpn req} \<times> UNIV" by (auto simp: stored_def l split: if_splits)
  with t show ?thesis using pm_inv_latency [of P FN_TRIM] by (simp add: PageMapping_trim_def split_beta)
qed

lemma ftl_run_inv:
  assumes "ftl_run P S s" "ctx_ok P" "pageCountToMaxPerf P \<le> totalPhysicalBlocks P"
  shows "pm_inv P s \<and> stored P s = S"
  using assms(1)
proof (induction rule: ftl_run.induct)
  case (run_new w s)
  then have S: "starting P (pageCountToMaxPerf P) s" using PageMapping_new_starting [OF assms(2,3), of w] by simp
  then have "pm_inv P s" using assms(2) by (rule starting_pm_inv)
  then show ?case using S by (auto simp: starting_def stored_def lookup_def)
next
  case (run_read S s req t s' t')
  then show ?case using PageMapping_read_ok [OF _ assms(2), of s req t] by simp
next
  case (run_write S s req t s' t')
  then have "runs_to (PageMapping_write P req t s) (\<lambda>(s', t'). pm_inv P s' \<and> stored P s' = stored P s \<union> requested P req)"
    by (intro PageMapping_write_ok assms(2)) auto
  then show ?case using run_write by simp
next
  case (run_trim S s req t s' t')
  then show ?case using PageMapping_trim_ok [of P s req t] by simp
qed

text \<open>
  C7. After any history of reads, writes with their garbage collection, and trims since
  construction on at least as many blocks as parallel units, under the side conditions of
  \<open>ftl_run\<close>, a unit is stored exactly if it was
  written and not trimmed since. The place the mapping names for it holds its LPN, no two
  stored units share a place, and no other valid unit is left in the flash.
\<close>

theorem ftl_stores_written_units:
  assumes "ftl_run P S s" "ctx_ok P" "pageCountToMaxPerf P \<le> totalPhysicalBlocks P"
  shows "((x, i) \<in> S \<longleftrightarrow> (\<exists>k p. lookup P s x i = Some (k, p) \<and> unitAt s (k, p, i) = Valid x)) \<and>
    (lookup P s x i = Some m \<and> lookup P s y i = Some m \<longrightarrow> x = y) \<and>
    (unitAt s (k, p, i) = Valid x \<longrightarrow> (x, i) \<in> S \<and> lookup P s x i = Some (k, p))"
proof -
  have I: "pm_inv P s" and st: "stored P s = S" using ftl_run_inv [OF assms] by simp_all
  have c: "consistent {} (lookup P s) (unitAt s)" using I by (simp add: pm_inv_but_def)
  have L: "lookup P s x i = Some (k, p) \<longleftrightarrow> unitAt s (k, p, i) = Valid x" for x i k p using consistentD [OF c] by simp
  have S: "(x, i) \<in> S \<longleftrightarrow> lookup P s x i \<noteq> None" for x i using st by (auto simp: stored_def)
  have "x = y" if "lookup P s x i = Some m" "lookup P s y i = Some m" using consistent_inj [OF c _ _ that] by simp
  then show ?thesis using L S by auto
qed

text \<open>Pages 4 and 5 fill block 0, the write of page 6 collects it, then page 5 is trimmed.\<close>

lemma fround_four_fifths: "fround f32 (4 / 5) = Fin (13421773 / 16777216)"
proof -
  have n: "nbits 4 = 3" "nbits 5 = 3"
    by (simp_all add: nbits.simps [of 4] nbits.simps [of 5] nbits.simps [of 2])
  have q: "quotient_of (4 / 5) = (4, 5)" by code_simp
  have "ilog2 (4 / 5) = - 1" by (simp add: ilog2_def q n pow2_def)
  moreover have "\<lfloor>67108864 / 5 :: rat\<rfloor> = 13421772" by (rule floor_unique) simp_all
  ultimately show ?thesis by (simp add: fround_def f32_def pow2_def round_even_def Let_def)
qed

lemma exFive_quiet: "\<not> needsGC exFive (exFiveState tbl ps n t io)"
proof -
  have "fl_of_nat f32 n = Fin (of_nat n)" if "n < 2 ^ 24" for n using that by (rule fl_of_nat_f32)
  then have "freeBlockRatio exFive (exFiveState tbl ps n t io) = fround f32 (4 / 5)"
    by (simp add: freeBlockRatio_def exFiveState_def exFive_def exCtx_def exState_def)
  then show ?thesis by (simp add: needsGC_def exFive_def fround_four_fifths)
qed

lemma exFive_writes:
  "PageMapping_write exFive (exPage 4) 0 (exFiveState Map.empty [(0, 3, 0), (0, 3, 0)] 0 0 0) =
     Inr (exFiveState [4 \<mapsto> [(0, 0), (0, 0)]] [(3, 0, 4), (0, 3, 0)] 1 0 3, 1)"
  "PageMapping_write exFive (exPage 5) 1 (exFiveState [4 \<mapsto> [(0, 0), (0, 0)]] [(3, 0, 4), (0, 3, 0)] 1 0 3) = Inr (exFiveFull, 2)"
proof -
  have lat: "addLatency exFive f t s = (s, t)" for f t and s :: "unit pm"
    by (simp add: addLatency_def exFive_def exDevice_def)
  note q = exFive_quiet [unfolded needsGC_def]
  show "PageMapping_write exFive (exPage 4) 0 (exFiveState Map.empty [(0, 3, 0), (0, 3, 0)] 0 0 0) =
     Inr (exFiveState [4 \<mapsto> [(0, 0), (0, 0)]] [(3, 0, 4), (0, 3, 0)] 1 0 3, 1)"
    using exFive_ok(3) [of 4] q by (simp add: PageMapping_write_def writeInternal_def exFive_run lat)
  show "PageMapping_write exFive (exPage 5) 1 (exFiveState [4 \<mapsto> [(0, 0), (0, 0)]] [(3, 0, 4), (0, 3, 0)] 1 0 3) = Inr (exFiveFull, 2)"
    using exFive_ok(3) [of 5] q by (simp add: PageMapping_write_def writeInternal_def exFive_run(3) [unfolded One_nat_def] lat exFiveFull_def)
qed

lemma exFive_requested: "requested exFive (exPage lpn) = {lpn} \<times> {0, 1}"
proof -
  have "requested exFive (exPage lpn) = {(lpn, i) | i. i < 2}"
    by (auto simp: requested_def selected_def exPage_def bitsetSize_def exFive_def exCtx_def run_simps less_2_cases_iff)
  then show ?thesis by (auto simp: less_2_cases_iff)
qed

lemma exFive_history: "ftl_run exFive ({4, 5} \<times> {0, 1}) exFiveFull"
proof -
  have "ftl_run exFive ({} \<union> requested exFive (exPage 4)) (exFiveState [4 \<mapsto> [(0, 0), (0, 0)]] [(3, 0, 4), (0, 3, 0)] 1 0 3)"
    by (rule run_write [OF run_new [OF exFive_run(1)] exFive_ok(2) _ exFive_ok(3) _ exFive_writes(1)])
      (simp_all add: exFive_run exFive_quiet, simp add: exFiveState_def exState_def)
  then have "ftl_run exFive ({} \<union> requested exFive (exPage 4) \<union> requested exFive (exPage 5)) exFiveFull"
    by (rule run_write [OF _ exFive_ok(2) _ exFive_ok(3) _ exFive_writes(2)])
      (simp_all add: exFive_run(3) [unfolded One_nat_def] exFive_quiet exFiveFull_def, simp add: exFiveState_def exState_def)
  moreover have "{} \<union> requested exFive (exPage 4) \<union> requested exFive (exPage 5) = {4, 5} \<times> {0, 1}"
    by (auto simp: exFive_requested)
  ultimately show ?thesis by simp
qed

lemma exFive_collected: "\<exists>s. ftl_run exFive ({4, 5, 6} \<times> {0, 1}) s"
proof -
  have n: "0 < nFreeBlocks exFiveFull" by (simp add: exFiveFull_def exFiveState_def exState_def)
  have g: "gcReady exFive s1" if "writeMapping exFive (exPage 6) 2 True exFiveFull = Inr (s1, t1)" for s1 t1
    using that exFive_collects(2) by (simp add: exFive_run)
  have "runs_to (PageMapping_write exFive (exPage 6) 2 exFiveFull)
      (\<lambda>(s', t'). pm_inv exFive s' \<and> stored exFive s' = stored exFive exFiveFull \<union> requested exFive (exPage 6))"
    by (rule PageMapping_write_ok [OF exFiveFull_inv exFive_ok(1,2) n exFive_ok(3) g])
  then obtain s t where w: "PageMapping_write exFive (exPage 6) 2 exFiveFull = Inr (s, t)" by (auto simp: runs_to_iff)
  have "ftl_run exFive ({4, 5} \<times> {0, 1} \<union> requested exFive (exPage 6)) s"
    by (rule run_write [OF exFive_history exFive_ok(2) n exFive_ok(3) g w])
  moreover have "{4, 5} \<times> {0, 1} \<union> requested exFive (exPage 6) = {4, 5, 6} \<times> {0, 1}" by (auto simp: exFive_requested)
  ultimately show ?thesis by auto
qed

lemma exFive_bounds: "pageCountToMaxPerf exFive \<le> totalPhysicalBlocks exFive"
  by (simp add: exFive_def exCtx_def)

lemma exFive_trimmed: "\<exists>s. ftl_run exFive ({4, 6} \<times> {0, 1}) s"
proof -
  obtain s where r: "ftl_run exFive ({4, 5, 6} \<times> {0, 1}) s" using exFive_collected by blast
  have I: "pm_inv exFive s" "stored exFive s = {4, 5, 6} \<times> {0, 1}" using ftl_run_inv [OF r exFive_ok(1) exFive_bounds] by simp_all
  have "(5, i) \<in> stored exFive s" if "i < 2" for i using that I(2) by (auto simp: less_2_cases_iff)
  then have w: "whole exFive s (frLpn (exPage 5))"
    by (auto simp: whole_def stored_def bitsetSize_def exFive_def exCtx_def exPage_def)
  then obtain s' t where t: "PageMapping_trim exFive (exPage 5) 9 s = Inr (s', t)"
    using PageMapping_trim_ok [OF I(1), of "exPage 5" 9] by (auto simp: runs_to_iff)
  have "ftl_run exFive ({4, 5, 6} \<times> {0, 1} - {frLpn (exPage 5)} \<times> UNIV) s'" by (rule run_trim [OF r _ t]) (use w in simp)
  moreover have "{4, 5, 6} \<times> {0, 1} - {frLpn (exPage 5)} \<times> UNIV = {4, 6} \<times> {0, 1 :: nat}" by (auto simp: exPage_def)
  ultimately show ?thesis by auto
qed

theorem ftl_stores_written_units_witness:
  "\<exists>s. ftl_run exFive ({4, 6} \<times> {0, 1}) s \<and> (\<exists>k p. lookup exFive s 6 1 = Some (k, p) \<and> unitAt s (k, p, 1) = Valid 6) \<and>
     unitAt s (0, 1, 0) \<noteq> Valid 5"
proof -
  obtain s where r: "ftl_run exFive ({4, 6} \<times> {0, 1}) s" using exFive_trimmed by blast
  note T = ftl_stores_written_units [OF r exFive_ok(1) exFive_bounds]
  have "(6, 1) \<in> {4, 6 :: u64} \<times> {0, 1 :: nat}" "(5, 0) \<notin> {4, 6 :: u64} \<times> {0, 1 :: nat}" by simp_all
  with r show ?thesis using T [of 6 1 _ _ 0 0] T [of 5 0 _ _ 0 1] by blast
qed

text \<open>
  C8. \<open>trimInternal\<close> of a logical page whose units are all stored, or of an unmapped one,
  returns, forgets all its units and changes no other mapping.
\<close>

theorem trimInternal_correct:
  assumes "pm_inv P s" "table s (frLpn req) = None \<or> whole P s (frLpn req)"
  shows "runs_to (trimInternal P req t s) (\<lambda>(s', t'). pm_inv P s' \<and> table s' = (table s)(frLpn req := None) \<and>
    stored P s' = stored P s - {frLpn req} \<times> UNIV)"
proof (rule trimInternal_ok [OF assms(1)])
  show "whole P s (frLpn req)" if "table s (frLpn req) \<noteq> None" using assms(2) that by blast
  fix s' t' assume "trimInternal P req t s = Inr (s', t')" "pm_inv P s'"
    and l: "lookup P s' = (\<lambda>x. if x = frLpn req then (\<lambda>_. None) else lookup P s x)" and "table s' = (table s)(frLpn req := None)"
  moreover have "stored P s' = stored P s - {frLpn req} \<times> UNIV" by (auto simp: stored_def l split: if_splits)
  ultimately show ?thesis by simp
qed

theorem trimInternal_correct_witness:
  "runs_to (trimInternal (exCtx 1) (exPage 5) 3 exFull) (\<lambda>(s', t'). pm_inv (exCtx 1) s' \<and>
     table s' = (table exFull)(frLpn (exPage 5) := None) \<and> stored (exCtx 1) s' = stored (exCtx 1) exFull - {frLpn (exPage 5)} \<times> UNIV)"
proof (rule trimInternal_correct [OF exFull_inv])
  have "lookup (exCtx 1) exFull 5 i \<noteq> None" if "i < 2" for i
    using that by (auto simp: lookup_def exFull_def exDefs mapped_def nth_Cons')
  then show "table exFull (frLpn (exPage 5)) = None \<or> whole (exCtx 1) exFull (frLpn (exPage 5))"
    by (simp add: whole_def exPage_def bitsetSize_def exCtx_def)
qed

lemma mapped_used:
  assumes "pm_inv P s" "table s lpn = Some ml" "j < bitsetSize P" "mapped P (ml ! j)"
  obtains b where "blocks s (fst (ml ! j)) = Some b" "geometry P b" "j < blkIoUnit b" "snd (ml ! j) < blkPageCount b"
proof -
  have len: "length ml = bitsetSize P" using assms(1,2) by (auto simp: pm_inv_but_def table_inv_def)
  then have "lookup P s lpn j = Some (ml ! j)" using assms(2-4) by (simp add: lookup_def)
  then have "unitAt s (fst (ml ! j), snd (ml ! j), j) = Valid lpn" using mapping_holds [OF assms(1)] by simp
  then obtain b where b: "blocks s (fst (ml ! j)) = Some b" by (auto simp: unitAt_def split: option.splits)
  then have g: "geometry P b" using assms(1) by (auto simp: pm_inv_but_def pool_inv_def)
  then have "j < blkIoUnit b" "snd (ml ! j) < blkPageCount b"
    using assms(3,4) by (auto simp: geometry_def mapped_def bitsetSize_def Block_inv_def block_layout_def split: if_splits)
  with b g that show thesis by blast
qed

text \<open>A trim goes through the units it finds mapped and stops at the first that is not.\<close>

lemma trimUnits_stop:
  fixes s u :: "'w pm"
  assumes I: "pm_inv P s" and ml: "table s lpn = Some ml" and m: "\<forall>j<i. mapped P (ml ! j)" and i: "i \<le> bitsetSize P"
    and u: "blocks u = blocks s"
  shows "runs_to (foldR (trimUnit ml) [0..<i] u) (\<lambda>u'. dom (blocks u') = dom (blocks s))"
proof -
  define K where "K s' \<longleftrightarrow> (\<forall>k. rel_option (\<lambda>b b'. block_frame b b' \<and> (Block_inv b \<longrightarrow> Block_inv b')) (blocks s k) (blocks s' k))" for s' :: "'w pm"
  have len: "length ml = bitsetSize P" using I ml by (auto simp: pm_inv_but_def table_inv_def)
  have "runs_to (foldR (trimUnit ml) [0..<i] u) K"
  proof (rule foldR_runs_to_prefix [where I = "\<lambda>_. K"])
    show "K u" by (auto simp: K_def u block_frame_def intro!: option.rel_refl)
    fix ys j zs s' assume xs: "[0..<i] = ys @ j # zs" and s': "K s'"
    have j: "j < i" by (rule upt_prefix(2) [OF xs])
    obtain b where b: "blocks s (fst (ml ! j)) = Some b" "geometry P b" "j < blkIoUnit b" "snd (ml ! j) < blkPageCount b"
      using mapped_used [OF I ml, of j] m j i by auto
    obtain b1 where b1: "blocks s' (fst (ml ! j)) = Some b1" "block_frame b b1" "Block_inv b1"
    proof -
      have "rel_option (\<lambda>b b'. block_frame b b' \<and> (Block_inv b \<longrightarrow> Block_inv b')) (blocks s (fst (ml ! j))) (blocks s' (fst (ml ! j)))"
        using s' unfolding K_def by blast
      then show thesis using that b(1,2) by (auto simp: option_rel_Some1 geometry_def)
    qed
    obtain b2 where b2: "Block_invalidate b1 (snd (ml ! j)) j = Inr b2" "Block_inv b2" "block_frame b1 b2"
      using Block_invalidate_unit [OF b1(3), of "snd (ml ! j)" j] b b1(2) by (auto simp: block_frame_def)
    have "K (s'\<lparr>blocks := (blocks s')(fst (ml ! j) \<mapsto> b2)\<rparr>)"
      using s' b(1) b1(2) b2 by (auto simp: K_def block_frame_def)
    then show "runs_to (trimUnit ml j s') K"
      using len j i b1(1) b2(1) by (simp add: trimUnit_def Let_def updBlock_def)
  qed
  moreover have "dom (blocks s') = dom (blocks s)" if "K s'" for s'
  proof -
    have "blocks s' k = None \<longleftrightarrow> blocks s k = None" for k
    proof -
      have "rel_option (\<lambda>b b'. block_frame b b' \<and> (Block_inv b \<longrightarrow> Block_inv b')) (blocks s k) (blocks s' k)"
        using that unfolding K_def by blast
      then show ?thesis by (cases "blocks s k"; cases "blocks s' k") simp_all
    qed
    then show ?thesis by (auto simp: dom_def)
  qed
  ultimately show ?thesis by (rule runs_to_mono)
qed

lemma trimUnit_unmapped:
  fixes s u :: "'w pm"
  assumes I: "pm_inv P s" and ml: "table s lpn = Some ml" and i: "i < bitsetSize P" "\<not> mapped P (ml ! i)"
    and d: "dom (blocks u) = dom (blocks s)"
  shows "trimUnit ml i u = Inl (Panic ''Block is not in use'')"
proof -
  have len: "length ml = bitsetSize P" using I ml by (auto simp: pm_inv_but_def table_inv_def)
  then have "ml ! i \<in> set ml" using i(1) by simp
  then have "ml ! i = (totalPhysicalBlocks P, pagesInBlock P)" using I ml i(2) unfolding pm_inv_but_def table_inv_def by blast
  moreover have "totalPhysicalBlocks P \<notin> dom (blocks s)"
    using I by (fastforce simp: pm_inv_but_def pool_inv_def geometry_def)
  ultimately show ?thesis using len i(1) d by (auto simp: trimUnit_def Let_def split: option.splits)
qed

text \<open>
  Trimming a logical page that was written only in part panics, on the unit that was never
  written (with the random I/O tweak, which maps units separately).
\<close>

theorem trim_partial_panics:
  assumes "pm_inv P s" "table s (frLpn req) = Some ml" "i < bitsetSize P" "\<not> mapped P (ml ! i)" "\<forall>j<i. mapped P (ml ! j)"
  shows "trimInternal P req t s = Inl (Panic ''Block is not in use'')"
proof -
  obtain u t1 where d: "dramRead P (if bRandomTweak P then 8 * Bitset_count (frIoFlag req) else 8) t s = (u, t1)" by fastforce
  then have u: "blocks u = blocks s" by (auto simp: dramRead_def Let_def split_beta)
  have split: "[0..<bitsetSize P] = [0..<i] @ i # [Suc i..<bitsetSize P]"
    using upt_add_eq_append [of 0 i "bitsetSize P - i"] assms(3) by (simp add: upt_conv_Cons [of i])
  have "foldR (trimUnit ml) [0..<bitsetSize P] u = Inl (Panic ''Block is not in use'')"
    unfolding split foldR_append
    using trimUnits_stop [OF assms(1,2,5) less_imp_le [OF assms(3)] u] trimUnit_unmapped [OF assms(1-4)]
    by (auto simp: runs_to_iff)
  then show ?thesis using assms(2) d by (simp add: trimInternal_def Let_def)
qed

definition exPart :: "unit pm" where
  "exPart = exState [5 \<mapsto> [(0, 0), (4, 1)]] [0 \<mapsto> (exBlock 0 [(1, 2, 0)] 0 0)\<lparr>ppLPNs := [[5, 0]], pNextWritePageIndex := [1, 0]\<rparr>]
     [exBlock 1 [(0, 3, 0)] 0 0, exBlock 2 [(0, 3, 0)] 0 0, exBlock 3 [(0, 3, 0)] 0 0] 0 1 False"

lemma exPart_run: "writeMapping (exCtx 1) (exUnit 5 0) 0 True (exStart [(0, 3, 0)]) = Inr (exPart, 1)"
  by (simp add: run_simps exDefs exStart_def exPart_def)

theorem trim_partial_panics_witness:
  "trimInternal (exCtx 1) (exPage 5) 3 exPart = Inl (Panic ''Block is not in use'')"
proof (rule trim_partial_panics [where ml = "[(0, 0), (4, 1)]" and i = 1])
  show "pm_inv (exCtx 1) exPart"
    by (rule writeMapping_keeps [OF exStart_inv(1) exCtx_ok(1) exReq_ok(2) _ exPart_run]) (simp_all add: exStart_def exState_def)
qed (simp_all add: exPart_def exDefs bitsetSize_def mapped_def)

section \<open>Garbage collection and wear\<close>



text \<open>
  The greedy policy selects, of the full blocks, as many as asked for (all, if there are
  fewer), and none of the others has fewer valid units than a selected one.
\<close>

theorem selectVictimBlock_greedy_correct:
  assumes "cfgGcMode P = GC_MODE_0" "cfgEvictPolicy P = POLICY_GREEDY" "order_ok P s"
    "\<forall>k b. blocks s k = Some b \<longrightarrow> Block_getValidPageCountRaw b < 2 ^ 24"
  shows "runs_to (selectVictimBlock P t s) (\<lambda>(vs, s', t'). untouched s s' \<and> distinct vs \<and>
    length vs = min (unat (reclaimCount P s)) (length (fullBlocks P s)) \<and> set vs \<subseteq> fst ` set (fullBlocks P s) \<and>
    (\<forall>k b k' b'. k \<in> set vs \<longrightarrow> blocks s k = Some b \<longrightarrow> (k', b') \<in> set (fullBlocks P s) \<longrightarrow> k' \<notin> set vs \<longrightarrow>
       Block_getValidPageCountRaw b \<le> Block_getValidPageCountRaw b'))"
proof (rule selectVictimBlock_greedy [OF assms(1-3)])
  show "Block_getValidPageCountRaw b < 2 ^ 24" if "blocks s k = Some b" for k b using assms(4) that by blast
  fix vs s' t' assume "selectVictimBlock P t s = Inr (vs, s', t')" "untouched s s'" "distinct vs"
    "length vs = min (unat (reclaimCount P s)) (length (fullBlocks P s))" "set vs \<subseteq> fst ` set (fullBlocks P s)"
    "\<And>k b k' b'. k \<in> set vs \<Longrightarrow> blocks s k = Some b \<Longrightarrow> (k', b') \<in> set (fullBlocks P s) \<Longrightarrow> k' \<notin> set vs \<Longrightarrow>
       Block_getValidPageCountRaw b \<le> Block_getValidPageCountRaw b'"
  then show ?thesis by (simp only: runs_to_Inr prod.case) blast
qed

lemma exFull_raw: "\<forall>k b. blocks exFull k = Some b \<longrightarrow> Block_getValidPageCountRaw b < 2 ^ 24"
proof -
  have "Block_getValidPageCountRaw (exBlock k [(3, 0, l)] n t) = 2" for k l n t
    by (simp add: Block_getValidPageCountRaw_def exBlock_def exBits_def run_simps)
  then show ?thesis by (auto simp: exFull_def exState_def split: if_splits)
qed

theorem selectVictimBlock_greedy_correct_witness:
  "runs_to (selectVictimBlock (exCtx 1) 9 exFull) (\<lambda>(vs, s', t'). distinct vs \<and> length vs = 2)"
proof -
  have "order_ok (exCtx 1) exFull" by (auto simp: order_ok_def exFull_def exDefs)
  moreover have "length (fullBlocks (exCtx 1) exFull) = 2"
    by (simp add: fullBlocks_def map_filter_simps exFull_def exDefs Block_getNextWritePageIndex_def upt_rec nth_Cons')
  moreover have "reclaimCount (exCtx 1) exFull = 2" by (simp add: reclaimCount_def exFull_def exDefs)
  ultimately show ?thesis
    using selectVictimBlock_greedy_correct [OF _ _ _ exFull_raw, of "exCtx 1" 9] 
    by (auto simp: exCtx_def elim!: runs_to_mono)
qed

text \<open>
  C12. For an index in range and a pool that is not empty \<open>getFreeBlock\<close> takes the block of the
  wanted parallel unit with the fewest erases, or of all blocks if none belongs to it, moves
  it from the free list to the blocks in use and changes nothing else; for an index out of
  range, or without a free block, it panics, each with its own message, and never otherwise.
\<close>

theorem getFreeBlock_least_worn:
  assumes "pool_inv P s"
  shows "case getFreeBlock P i s of
      Inl e \<Rightarrow> pageCountToMaxPerf P \<le> i \<and> e = Panic ''Index out of range'' \<or>
               i < pageCountToMaxPerf P \<and> freeBlocks s = [] \<and> e = Panic ''No free block left''
    | Inr (k, s') \<Rightarrow> i < pageCountToMaxPerf P \<and> (\<exists>b\<in>set (freeBlocks s). blkIdx b = k \<and>
        s' = s\<lparr>blocks := (blocks s)(k \<mapsto> b), freeBlocks := remove1 b (freeBlocks s), nFreeBlocks := nFreeBlocks s - 1\<rparr> \<and>
        (let own = filter (\<lambda>c. convertBlockIdx P (blkIdx c) = i) (freeBlocks s)
         in if own = [] then \<forall>c\<in>set (freeBlocks s). eraseCount b \<le> eraseCount c
            else convertBlockIdx P k = i \<and> (\<forall>c\<in>set own. eraseCount b \<le> eraseCount c)))"
proof (cases "i < pageCountToMaxPerf P \<and> 0 < nFreeBlocks s")
  case True
  show ?thesis
  proof (rule getFreeBlock_takes [OF assms, of i])
    fix pre b post assume f: "freeBlocks s = pre @ b # post" and e: "getFreeBlock P i s = Inr (blkIdx b,
           s\<lparr>blocks := (blocks s)(blkIdx b \<mapsto> b), freeBlocks := pre @ post, nFreeBlocks := nFreeBlocks s - 1\<rparr>)"
      and own: "\<And>c. c \<in> set (freeBlocks s) \<Longrightarrow> convertBlockIdx P (blkIdx c) = i \<Longrightarrow>
           convertBlockIdx P (blkIdx b) = i \<and> eraseCount b \<le> eraseCount c"
      and any: "(\<forall>c\<in>set (freeBlocks s). convertBlockIdx P (blkIdx c) \<noteq> i) \<Longrightarrow> (\<forall>c\<in>set (freeBlocks s). eraseCount b \<le> eraseCount c)"
    have "distinct (map blkIdx (freeBlocks s))" using assms by (simp add: pool_inv_def)
    then have "b \<notin> set pre" unfolding f by auto
    then have r: "pre @ post = remove1 b (freeBlocks s)" unfolding f by (simp add: remove1_append)
    have "let own = filter (\<lambda>c. convertBlockIdx P (blkIdx c) = i) (freeBlocks s)
         in if own = [] then \<forall>c\<in>set (freeBlocks s). eraseCount b \<le> eraseCount c
            else convertBlockIdx P (blkIdx b) = i \<and> (\<forall>c\<in>set own. eraseCount b \<le> eraseCount c)"
      using own any by (auto simp: Let_def filter_empty_conv)
    moreover have "b \<in> set (freeBlocks s)" by (simp add: f)
    ultimately show ?thesis unfolding e using r True by (simp only: sum.case prod.case) (rule conjI, blast, rule bexI [of _ b], simp_all)
  qed (use True in simp_all)
next
  case False
  then show ?thesis using getFreeBlock_panics [of P i s] assms by (auto simp: pool_inv_def)
qed

theorem getFreeBlock_least_worn_witness:
  "\<exists>b\<in>set (freeBlocks exFull). getFreeBlock (exCtx 1) 0 exFull = Inr (blkIdx b, exFull\<lparr>blocks := (blocks exFull)(2 \<mapsto> b),
      freeBlocks := remove1 b (freeBlocks exFull), nFreeBlocks := 1\<rparr>)"
proof -
  have "pool_inv (exCtx 1) exFull" using exFull_inv by (simp add: pm_inv_but_def)
  from getFreeBlock_least_worn [OF this, of 0] show ?thesis
    by (simp add: getFreeBlock_def takeFreeBlock_def extract_Cons_code exFull_def exDefs)
qed

text \<open>
  Erasing a block in use without valid pages, which is no write stream, returns and keeps
  the invariant; the block leaves the blocks in use and is free again unless it is worn out.
\<close>

theorem eraseInternal_correct:
  assumes "pm_inv P s" "blocks s (prBlockIndex req) = Some b" "Block_getValidPageCount b = 0"
    "prBlockIndex req \<notin> set (lastFreeBlock s)" "freeBlocks s \<noteq> []"
  shows "runs_to (eraseInternal P req t s) (\<lambda>(s', t'). pm_inv P s' \<and> blocks s' = (blocks s)(prBlockIndex req := None) \<and>
    table s' = table s \<and> nFreeBlocks s' = nFreeBlocks s + (if (eraseCount b + 1) mod 2 ^ 32 < cfgBadBlockThreshold P then 1 else 0))"
proof -
  have "Block_inv b" using assms(1,2) by (auto simp: pm_inv_but_def pool_inv_def geometry_def)
  then have "block_view b x \<noteq> Valid lpn" for x lpn using assms(3) Block_getValidPageCount_0 by blast
  from assms(1,2) this assms(4,5) refl show ?thesis by (rule eraseInternal_ok [of _ P s _ b req t]) simp
qed

text \<open>A logical page moved away leaves a block that can be erased.\<close>

definition exStale :: "unit pm" where
  "exStale = exState [5 \<mapsto> [(1, 0), (1, 0)]] [0 \<mapsto> exBlock 0 [(0, 0, 5)] 1 0, 1 \<mapsto> exBlock 1 [(3, 0, 5)] 1 1]
     [exBlock 2 [(0, 3, 0)] 0 0, exBlock 3 [(0, 3, 0)] 0 0] 1 3 True"

lemma exStale_run: "writeMapping (exCtx 1) (exPage 5) 1 True exHalf = Inr (exStale, 2)"
  by (simp add: run_simps exDefs exHalf_def exStale_def)

lemma exStale_inv: "pm_inv (exCtx 1) exStale"
  by (rule writeMapping_keeps [OF exHalf_inv exCtx_ok(1) exReq_ok(1) _ exStale_run]) (simp_all add: exHalf_def exState_def)

theorem eraseInternal_correct_witness:
  "runs_to (eraseInternal (exCtx 1) ((PAL_Request_new 2)\<lparr>prBlockIndex := 0\<rparr>) 7 exStale) (\<lambda>(s', t'). pm_inv (exCtx 1) s' \<and> nFreeBlocks s' = 3)"
proof -
  let ?r = "(PAL_Request_new 2)\<lparr>prBlockIndex := 0\<rparr>" and ?b = "exBlock 0 [(0, 0, 5)] 1 0"
  have "blocks exStale (prBlockIndex ?r) = Some ?b" "Block_getValidPageCount ?b = 0" "prBlockIndex ?r \<notin> set (lastFreeBlock exStale)"
    "freeBlocks exStale \<noteq> []"
    by (simp_all add: exStale_def exDefs Block_getValidPageCount_def Bitset_any_def Bitset_none_def upt_rec)
  from eraseInternal_correct [OF exStale_inv this, of 7] show ?thesis
    by (auto simp: exStale_def exBlock_def exState_def exCtx_def elim!: runs_to_mono)
qed

text \<open>
  The wear levelling figure, computed by a loop that leaves out free blocks never erased,
  equals the quotient of the squared sum and the sum of squares over all blocks.
\<close>

theorem calculateWearLeveling_correct:
  assumes "pool_inv P s"
  shows "calculateWearLeveling P s = wearIndex P (usedEraseCounts P s @ map eraseCount (freeBlocks s))"
  using assms by (rule calculateWearLeveling_all)

theorem calculateWearLeveling_correct_witness:
  "calculateWearLeveling (exCtx 1) exFull = wearIndex (exCtx 1) [0, 0, 0, 0]"
proof -
  have "pool_inv (exCtx 1) exFull" using exFull_inv by (simp add: pm_inv_but_def)
  from calculateWearLeveling_correct [OF this] show ?thesis
    by (simp add: usedEraseCounts_def map_filter_simps exFull_def exDefs)
qed

text \<open>
  With one unit per page, \<open>Block::getPageInfo\<close> reports every page as valid, whatever its
  state, even an erased one.
\<close>

theorem getPageInfo_single_unit:
  assumes "Block_inv b" "blkIoUnit b = 1" "p < blkPageCount b" "Bitset_wf m" "dataSize m = 1"
  shows "Block_getPageInfo b p m = Inr (True, [block_lpn b p 0], Bitset_set_all m)"
  using Block_getPageInfo_single [OF Block_inv_layout [OF assms(1)] assms(2-5)] assms(2) by (simp add: block_lpn_def)

theorem getPageInfo_single_unit_witness:
  "\<exists>b. Block_new 0 4 1 = Inr b \<and> block_view b (2, 0) = Erased \<and>
     Block_getPageInfo b 2 (Bitset_new 1) = Inr (True, [block_lpn b 2 0], Bitset_set_all (Bitset_new 1))"
proof -
  obtain b where b: "Block_new 0 4 1 = Inr b" "Block_inv b" "block_view b = (\<lambda>_. Erased)" "blkPageCount b = 4" "blkIoUnit b = 1"
    using Block_new_block [of 4 1 0] by auto
  then show ?thesis using getPageInfo_single_unit [OF b(2,5), of 2 "Bitset_new 1"] Bitset_new_wf [of 1] by simp
qed

end
