(* ===== verification/Cache.thy ===== *)
theory Cache
  imports Device Fp Algorithm
begin

text \<open>
  The cache of the internal cache layer, \<^verbatim>\<open>icl/generic_cache.cc\<close>: the class
  \<^verbatim>\<open>GenericCache\<close> with its constructor and every operation. Definitions only; the theory
  \<open>Cache_Inv\<close> holds the properties. A pointer to a cache line is the pair of its set and
  its way.
\<close>

section \<open>Lines, configuration and state\<close>

record cline =
  lnTag :: u64
  lnLastAccessed :: tick
  lnInsertedAt :: tick
  lnDirty :: bool
  lnValid :: bool

definition Line_new :: cline where
  "Line_new = \<lparr>lnTag = 0, lnLastAccessed = 0, lnInsertedAt = 0, lnDirty = False, lnValid = False\<rparr>"

type_synonym line_ptr = "nat \<times> nat"

datatype cache_policy = CPOLICY_RANDOM | CPOLICY_FIFO | CPOLICY_LEAST_RECENTLY_USED | CPOLICY_INVALID

datatype granularity = MODE_SUPERPAGE | MODE_ALL | MODE_OTHER

text \<open>The calls the cache makes: FTL (which may fail), DRAM, CPU model and random generator.\<close>

record 'w cache_dev =
  cdFtlRead :: "'w \<Rightarrow> ftl_request \<Rightarrow> tick \<Rightarrow> ('w \<times> tick) res"
  cdFtlWrite :: "'w \<Rightarrow> ftl_request \<Rightarrow> tick \<Rightarrow> ('w \<times> tick) res"
  cdFtlTrim :: "'w \<Rightarrow> ftl_request \<Rightarrow> tick \<Rightarrow> ('w \<times> tick) res"
  cdFtlFormat :: "'w \<Rightarrow> lpn_range \<Rightarrow> tick \<Rightarrow> ('w \<times> tick) res"
  cdDramRead :: "'w \<Rightarrow> u64 \<Rightarrow> tick \<Rightarrow> 'w \<times> tick"
  cdDramWrite :: "'w \<Rightarrow> u64 \<Rightarrow> tick \<Rightarrow> 'w \<times> tick"
  cdDramScheduling :: "'w \<Rightarrow> bool \<Rightarrow> 'w"
  cdApplyLatency :: "'w \<Rightarrow> cpu_namespace \<Rightarrow> cpu_function \<Rightarrow> 'w \<times> tick"
  cdRandom :: "'w \<Rightarrow> nat \<Rightarrow> nat \<Rightarrow> 'w \<times> nat"

record seq_detect =
  sdEnabled :: bool
  sdLastRequest :: icl_request
  sdHitCounter :: u32
  sdAccessCounter :: u32

text \<open>
  The members that stay fixed after construction. \<open>evictFunction\<close> and \<open>compareFunction\<close> are the
  \<^verbatim>\<open>std::function\<close> members; they read the lines and may draw random numbers.
\<close>

record 'w cache_ctx =
  ccSuperPageSize :: nat
  ccParallelIO :: nat
  ccLineCountInSuperPage :: nat
  ccLineCountInMaxIO :: nat
  ccLineSize :: nat
  ccSetSize :: nat
  ccWaySize :: nat
  ccPrefetchIOCount :: u32
  ccPrefetchIORatio :: fl
  ccUseReadCaching :: bool
  ccUseWriteCaching :: bool
  ccUseReadPrefetch :: bool
  ccSuperPage :: bool
  ccPrefetchMode :: granularity
  ccEvictMode :: granularity
  ccCacheLatency :: u64
  ccCores :: u64
  evictFunction :: "cline list list \<Rightarrow> nat \<Rightarrow> tick \<Rightarrow> 'w \<Rightarrow> (nat \<times> tick \<times> 'w) res"
  compareFunction :: "cline list list \<Rightarrow> line_ptr option \<Rightarrow> line_ptr option \<Rightarrow> 'w \<Rightarrow> line_ptr option \<times> 'w"
  ccDev :: "'w cache_dev"

record 'w cache =
  cacheData :: "cline list list"
  evictData :: "line_ptr option list list"
  readDetect :: seq_detect
  prefetchTrigger :: u64
  lastPrefetched :: u64
  statRequest :: "u64 \<times> u64"
  statCache :: "u64 \<times> u64"
  cworld :: 'w

definition lineAt :: "cline list list \<Rightarrow> line_ptr \<Rightarrow> cline" where
  "lineAt ls p = ls ! fst p ! snd p"

definition updLine :: "line_ptr \<Rightarrow> (cline \<Rightarrow> cline) \<Rightarrow> 'w cache \<Rightarrow> 'w cache" where
  "updLine p f c =
     c\<lparr>cacheData := (cacheData c)[fst p := (cacheData c ! fst p)[snd p := f (cacheData c ! fst p ! snd p)]]\<rparr>"

definition setEvict :: "nat \<times> nat \<Rightarrow> line_ptr option \<Rightarrow> 'w cache \<Rightarrow> 'w cache" where
  "setEvict q v c = c\<lparr>evictData := (evictData c)[fst q := (evictData c ! fst q)[snd q := v]]\<rparr>"

definition evictAt :: "'w cache \<Rightarrow> nat \<times> nat \<Rightarrow> line_ptr option" where
  "evictAt c q = evictData c ! fst q ! snd q"

section \<open>Calls to the layers below\<close>

definition ftlRead :: "'w cache_ctx \<Rightarrow> ftl_request \<Rightarrow> tick \<Rightarrow> 'w cache \<Rightarrow> ('w cache \<times> tick) res" where
  "ftlRead C r t c = bindR (cdFtlRead (ccDev C) (cworld c) r t) (\<lambda>(w, t). Inr (c\<lparr>cworld := w\<rparr>, t))"

definition ftlWrite :: "'w cache_ctx \<Rightarrow> ftl_request \<Rightarrow> tick \<Rightarrow> 'w cache \<Rightarrow> ('w cache \<times> tick) res" where
  "ftlWrite C r t c = bindR (cdFtlWrite (ccDev C) (cworld c) r t) (\<lambda>(w, t). Inr (c\<lparr>cworld := w\<rparr>, t))"

definition ftlTrim :: "'w cache_ctx \<Rightarrow> ftl_request \<Rightarrow> tick \<Rightarrow> 'w cache \<Rightarrow> ('w cache \<times> tick) res" where
  "ftlTrim C r t c = bindR (cdFtlTrim (ccDev C) (cworld c) r t) (\<lambda>(w, t). Inr (c\<lparr>cworld := w\<rparr>, t))"

definition cdramRead :: "'w cache_ctx \<Rightarrow> u64 \<Rightarrow> tick \<Rightarrow> 'w cache \<Rightarrow> 'w cache \<times> tick" where
  "cdramRead C sz t c = (let (w, t) = cdDramRead (ccDev C) (cworld c) sz t in (c\<lparr>cworld := w\<rparr>, t))"

definition cdramWrite :: "'w cache_ctx \<Rightarrow> u64 \<Rightarrow> tick \<Rightarrow> 'w cache \<Rightarrow> 'w cache \<times> tick" where
  "cdramWrite C sz t c = (let (w, t) = cdDramWrite (ccDev C) (cworld c) sz t in (c\<lparr>cworld := w\<rparr>, t))"

definition cdramScheduling :: "'w cache_ctx \<Rightarrow> bool \<Rightarrow> 'w cache \<Rightarrow> 'w cache" where
  "cdramScheduling C b c = c\<lparr>cworld := cdDramScheduling (ccDev C) (cworld c) b\<rparr>"

definition caddLatency :: "'w cache_ctx \<Rightarrow> cpu_function \<Rightarrow> tick \<Rightarrow> 'w cache \<Rightarrow> 'w cache \<times> tick" where
  "caddLatency C f t c =
     (let (w, l) = cdApplyLatency (ccDev C) (cworld c) NS_ICL__GENERIC_CACHE f in (c\<lparr>cworld := w\<rparr>, t + l))"

section \<open>Address computations and searches\<close>

definition getCacheLatency :: "'w cache_ctx \<Rightarrow> u64" where
  "getCacheLatency C = (if ccCores C = 0 then 0 else ccCacheLatency C div ccCores C)"

definition calcSetIndex :: "'w cache_ctx \<Rightarrow> u64 \<Rightarrow> nat" where
  "calcSetIndex C lca = unat lca mod ccSetSize C"

definition calcIOPosition :: "'w cache_ctx \<Rightarrow> u64 \<Rightarrow> nat \<times> nat" where
  "calcIOPosition C lca =
     (let tmp = unat lca mod ccLineCountInMaxIO C
      in (tmp mod ccLineCountInSuperPage C, tmp div ccLineCountInSuperPage C))"

text \<open>The loop of \<^verbatim>\<open>getEmptyWay\<close>: way counter, index found so far, least insertion time so far, tick.\<close>

fun emptyScan :: "u64 \<Rightarrow> cline list \<Rightarrow> nat \<Rightarrow> nat \<Rightarrow> u64 \<Rightarrow> tick \<Rightarrow> nat \<times> tick" where
  "emptyScan lat [] wayIdx retIdx minInsertedAt t = (retIdx, t)"
| "emptyScan lat (l # ls) wayIdx retIdx minInsertedAt t =
     (if \<not> lnValid l then
        if minInsertedAt > lnInsertedAt l then emptyScan lat ls (Suc wayIdx) wayIdx (lnInsertedAt l) (t + lat * 8)
        else emptyScan lat ls (Suc wayIdx) retIdx minInsertedAt (t + lat * 8)
      else emptyScan lat ls (Suc wayIdx) retIdx minInsertedAt t)"

definition getEmptyWay :: "'w cache_ctx \<Rightarrow> nat \<Rightarrow> tick \<Rightarrow> 'w cache \<Rightarrow> nat \<times> tick" where
  "getEmptyWay C setIdx t c =
     emptyScan (getCacheLatency C) (take (ccWaySize C) (cacheData c ! setIdx)) 0 (ccWaySize C) (- 1) t"

fun validScan :: "u64 \<Rightarrow> u64 \<Rightarrow> cline list \<Rightarrow> nat \<Rightarrow> tick \<Rightarrow> nat \<times> tick" where
  "validScan lat lca [] wayIdx t = (wayIdx, t)"
| "validScan lat lca (l # ls) wayIdx t =
     (if lnValid l \<and> lnTag l = lca then (wayIdx, t + lat * 8) else validScan lat lca ls (Suc wayIdx) (t + lat * 8))"

definition getValidWay :: "'w cache_ctx \<Rightarrow> u64 \<Rightarrow> tick \<Rightarrow> 'w cache \<Rightarrow> nat \<times> tick" where
  "getValidWay C lca t c =
     validScan (getCacheLatency C) lca (take (ccWaySize C) (cacheData c ! calcSetIndex C lca)) 0 t"

text \<open>The loop of the FIFO and LRU eviction functions, over the insertion or the access time.\<close>

fun leastScan :: "(cline \<Rightarrow> u64) \<Rightarrow> u64 \<Rightarrow> cline list \<Rightarrow> nat \<Rightarrow> nat \<Rightarrow> u64 \<Rightarrow> tick \<Rightarrow> nat \<times> tick" where
  "leastScan key lat [] i wayIdx least t = (wayIdx, t)"
| "leastScan key lat (l # ls) i wayIdx least t =
     (if key l < least then leastScan key lat ls (Suc i) i (key l) (t + lat * 8)
      else leastScan key lat ls (Suc i) wayIdx least (t + lat * 8))"

definition evictLeast :: "(cline \<Rightarrow> u64) \<Rightarrow> u64 \<Rightarrow> nat \<Rightarrow> cline list list \<Rightarrow> nat \<Rightarrow> tick \<Rightarrow> 'w \<Rightarrow> (nat \<times> tick \<times> 'w) res" where
  "evictLeast key lat ways ls setIdx t w =
     (let (i, t) = leastScan key lat (take ways (ls ! setIdx)) 0 0 (- 1) t in Inr (i, t, w))"

text \<open>
  The random policy draws from \<open>0..hi\<close>, the range of the distribution the constructor builds. The
  caller reads the line of the way drawn, so a way outside the set is an access outside the
  array of lines.
\<close>

definition evictRandom :: "('w \<Rightarrow> nat \<Rightarrow> nat \<Rightarrow> 'w \<times> nat) \<Rightarrow> nat \<Rightarrow> nat \<Rightarrow> cline list list \<Rightarrow> nat \<Rightarrow> tick \<Rightarrow> 'w \<Rightarrow> (nat \<times> tick \<times> 'w) res" where
  "evictRandom rnd hi ways ls setIdx t w =
     (let (w, i) = rnd w 0 hi
      in if \<not> i \<le> hi then Inl (Undefined ''uniform_int_distribution out of its range'')
         else if i < ways then Inr (i, t, w) else Inl (Undefined ''line outside the set''))"

fun compareLeast :: "(cline \<Rightarrow> u64) \<Rightarrow> cline list list \<Rightarrow> line_ptr option \<Rightarrow> line_ptr option \<Rightarrow> 'w \<Rightarrow> line_ptr option \<times> 'w" where
  "compareLeast key ls (Some a) (Some b) w = (if key (lineAt ls a) < key (lineAt ls b) then Some a else Some b, w)"
| "compareLeast key ls (Some a) None w = (Some a, w)"
| "compareLeast key ls None b w = (b, w)"

fun compareRandom :: "('w \<Rightarrow> nat \<Rightarrow> nat \<Rightarrow> 'w \<times> nat) \<Rightarrow> nat \<Rightarrow> nat \<Rightarrow> cline list list \<Rightarrow> line_ptr option \<Rightarrow> line_ptr option \<Rightarrow> 'w \<Rightarrow> line_ptr option \<times> 'w" where
  "compareRandom rnd hi ways ls (Some a) (Some b) w =
     (let (w, i) = rnd w 0 hi in (if i > ways div 2 then Some a else Some b, w))"
| "compareRandom rnd hi ways ls (Some a) None w = (Some a, w)"
| "compareRandom rnd hi ways ls None b w = (b, w)"

section \<open>The constructor\<close>

record icl_cfg =
  cgPageSize :: nat
  cgPageCountToMaxPerf :: nat
  cgIoUnitInPage :: nat
  cgRandomTweak :: bool
  cgCacheSize :: nat
  cgWaySize :: nat
  cgPrefetchCount :: u32
  cgPrefetchRatio :: fl
  cgReadCache :: bool
  cgWriteCache :: bool
  cgReadPrefetch :: bool
  cgPrefetchMode :: granularity
  cgEvictMode :: granularity
  cgPolicy :: cache_policy
  cgLatency :: u64
  cgCores :: u64

definition SequentialDetect_new :: seq_detect where
  "SequentialDetect_new =
     \<lparr>sdEnabled = False, sdLastRequest = ICL_Request_new\<lparr>icReqID := 1\<rparr>, sdHitCounter = 0, sdAccessCounter = 0\<rparr>"

text \<open>
  The sizes: without the random I/O tweak a line is a whole super page; a way size of zero
  asks for a fully associative cache. 32-bit members wrap.
\<close>

definition cacheSizes :: "icl_cfg \<Rightarrow> nat \<times> nat \<times> nat \<times> nat \<times> nat" where
  "cacheSizes g =
     (let lines = (if cgRandomTweak g then cgIoUnitInPage g else 1);
          maxIO = (if cgRandomTweak g then cgPageCountToMaxPerf g * cgIoUnitInPage g mod 2 ^ 32 else cgPageCountToMaxPerf g);
          lsize = (if cgRandomTweak g then cgPageSize g div cgIoUnitInPage g else cgPageSize g);
          sets = (if cgWaySize g = 0 then 1 else cMAX (cgCacheSize g div lsize div cgWaySize g) 1 mod 2 ^ 32);
          ways = (if cgWaySize g = 0 then cMAX (cgCacheSize g div lsize) 1 mod 2 ^ 32 else cgWaySize g)
      in (lines, maxIO, lsize, sets, ways))"

text \<open>
  The initializer list builds the distribution \<open>dist(0, waySize - 1)\<close> from the configured way
  size, before the body replaces a way size of zero by the number of lines; the subtraction has
  32 bits, so a fully associative cache draws from the whole 32-bit range. The constructor
  leaves some members without a value: \<open>bSuperPage\<close> unless a super page has
  several units, \<open>lastPrefetched\<close> always, and the statistics, the trigger and the sizes when
  both kinds of caching are off. \<open>b0\<close> and \<open>c0\<close> hold what the memory contains.
\<close>

definition distMax :: "icl_cfg \<Rightarrow> nat" where
  "distMax g = (if cgWaySize g = 0 then 2 ^ 32 - 1 else cgWaySize g - 1)"

definition cacheContext :: "icl_cfg \<Rightarrow> 'w cache_dev \<Rightarrow> bool \<Rightarrow> 'w cache_ctx" where
  "cacheContext g D b0 =
     (let (lines, maxIO, lsize, sets, ways) = cacheSizes g;
          lat = (if cgCores g = 0 then 0 else cgLatency g div cgCores g)
      in \<lparr>ccSuperPageSize = cgPageSize g, ccParallelIO = cgPageCountToMaxPerf g,
          ccLineCountInSuperPage = lines, ccLineCountInMaxIO = maxIO, ccLineSize = lsize,
          ccSetSize = sets, ccWaySize = ways,
          ccPrefetchIOCount = cgPrefetchCount g, ccPrefetchIORatio = cgPrefetchRatio g,
          ccUseReadCaching = cgReadCache g, ccUseWriteCaching = cgWriteCache g, ccUseReadPrefetch = cgReadPrefetch g,
          ccSuperPage = (if cgPageSize g div cgIoUnitInPage g \<noteq> cgPageSize g then True else b0),
          ccPrefetchMode = cgPrefetchMode g, ccEvictMode = cgEvictMode g,
          ccCacheLatency = cgLatency g, ccCores = cgCores g,
          evictFunction = (case cgPolicy g of
              CPOLICY_RANDOM \<Rightarrow> evictRandom (cdRandom D) (distMax g) ways
            | CPOLICY_FIFO \<Rightarrow> evictLeast lnInsertedAt lat ways
            | _ \<Rightarrow> evictLeast lnLastAccessed lat ways),
          compareFunction = (case cgPolicy g of
              CPOLICY_RANDOM \<Rightarrow> compareRandom (cdRandom D) (distMax g) ways
            | CPOLICY_FIFO \<Rightarrow> compareLeast lnInsertedAt
            | _ \<Rightarrow> compareLeast lnLastAccessed),
          ccDev = D\<rparr>)"

definition GenericCache_new :: "icl_cfg \<Rightarrow> 'w cache_dev \<Rightarrow> bool \<Rightarrow> 'w cache \<Rightarrow> ('w cache_ctx \<times> 'w cache) res" where
  "GenericCache_new g D b0 c0 =
     (let C = cacheContext g D b0
      in if \<not> cgReadCache g \<and> \<not> cgWriteCache g then
           Inr (C, c0\<lparr>cacheData := [], evictData := [], readDetect := SequentialDetect_new\<rparr>)
         else if cgPolicy g = CPOLICY_INVALID then Inl (Panic ''Undefined cache evict policy'')
         else Inr (C, c0\<lparr>cacheData := replicate (ccSetSize C) (replicate (ccWaySize C) Line_new),
                evictData := replicate (ccLineCountInSuperPage C) (replicate (ccParallelIO C) None),
                readDetect := SequentialDetect_new, prefetchTrigger := - 1, statRequest := (0, 0), statCache := (0, 0)\<rparr>))"

section \<open>Sequential detection and eviction\<close>

text \<open>Addresses are compared in bytes, modulo \<open>2^64\<close>; the access counter has 32 bits.\<close>

definition checkSequential :: "'w cache_ctx \<Rightarrow> icl_request \<Rightarrow> seq_detect \<Rightarrow> seq_detect" where
  "checkSequential C req d =
     (let p = sdLastRequest d;
          lineSz = word_of_nat (ccLineSize C);
          d = (if slpn (icRange p) * lineSz + icOffset p + icLength p = slpn (icRange req) * lineSz + icOffset req then
                 if sdEnabled d then d
                 else
                   (let h = sdHitCounter d + 1;
                        a = ucast (ucast (sdAccessCounter d) + (icOffset p + icLength p))
                    in d\<lparr>sdHitCounter := h, sdAccessCounter := a,
                         sdEnabled := ccPrefetchIOCount C \<le> h \<and>
                           fl_le (ccPrefetchIORatio C) (fl_div f32 (fl_of_nat f32 (unat a)) (fl_of_nat f32 (ccSuperPageSize C)))\<rparr>)
               else d\<lparr>sdEnabled := False, sdHitCounter := 0, sdAccessCounter := 0\<rparr>)
      in d\<lparr>sdLastRequest := req\<rparr>)"

definition ioPositions :: "'w cache_ctx \<Rightarrow> (nat \<times> nat) list" where
  "ioPositions C = concat (map (\<lambda>row. map (Pair row) [0..<ccParallelIO C]) [0..<ccLineCountInSuperPage C])"

definition evictOne :: "'w cache_ctx \<Rightarrow> tick \<Rightarrow> bool \<Rightarrow> nat \<times> nat \<Rightarrow> 'w cache \<Rightarrow> 'w cache res" where
  "evictOne C t doFlush q c =
     (case evictAt c q of
        None \<Rightarrow> Inr c
      | Some p \<Rightarrow>
          (let l = lineAt (cacheData c) p
           in bindR (if lnValid l \<and> lnDirty l then
                       ftlWrite C ((FTL_Request_new (ccLineCountInSuperPage C))
                           \<lparr>frLpn := lnTag l div word_of_nat (ccLineCountInSuperPage C),
                            frIoFlag := Bitset_set (Bitset_new (ccLineCountInSuperPage C)) (fst q)\<rparr>) t c
                     else Inr (c, t)) (\<lambda>(c, beginAt).
              Inr (setEvict q None (updLine p (\<lambda>l.
                (if doFlush then l\<lparr>lnValid := False, lnTag := 0\<rparr> else l)
                  \<lparr>lnInsertedAt := beginAt, lnLastAccessed := beginAt, lnDirty := False\<rparr>) c)))))"

definition evictCache :: "'w cache_ctx \<Rightarrow> tick \<Rightarrow> bool \<Rightarrow> 'w cache \<Rightarrow> 'w cache res" where
  "evictCache C t doFlush c = foldR (evictOne C t doFlush) (ioPositions C) c"

section \<open>Reading\<close>

text \<open>
  The body of the first loop of the miss path: skip an address that is cached, otherwise
  claim a line for it. The list collects the claimed lines; \<open>fin\<close> is \<^verbatim>\<open>finishedAt\<close>.
\<close>

definition claimLine :: "'w cache_ctx \<Rightarrow> tick \<Rightarrow> u64 \<Rightarrow> (u64 \<times> line_ptr) list \<times> tick \<times> 'w cache \<Rightarrow>
    ((u64 \<times> line_ptr) list \<times> tick \<times> 'w cache) res" where
  "claimLine C t lca = (\<lambda>(readList, fin, c).
     let (way, beginAt) = getValidWay C lca t c
     in if way \<noteq> ccWaySize C then Inr (readList, fin, c)
        else
          (let setIdx = calcSetIndex C lca;
               (way, beginAt) = getEmptyWay C setIdx beginAt c
           in bindR (if way = ccWaySize C then
                       bindR (evictFunction C (cacheData c) setIdx beginAt (cworld c)) (\<lambda>(way, beginAt, w).
                         let c = c\<lparr>cworld := w\<rparr>; l = lineAt (cacheData c) (setIdx, way)
                         in Inr (way, beginAt,
                              if lnDirty l then setEvict (calcIOPosition C (lnTag l)) (Some (setIdx, way)) c else c))
                     else Inr (way, beginAt, c)) (\<lambda>(way, beginAt, c).
              Inr (readList @ [(lca, (setIdx, way))], cMAX fin beginAt,
                   updLine (setIdx, way) (\<lambda>l. l\<lparr>lnInsertedAt := beginAt, lnLastAccessed := beginAt,
                                                 lnValid := True, lnDirty := False\<rparr>) c))))"

text \<open>The second loop reads each claimed line from the FTL and fills it.\<close>

definition fillLine :: "'w cache_ctx \<Rightarrow> ftl_request \<Rightarrow> u64 \<Rightarrow> tick \<Rightarrow> u64 \<times> line_ptr \<Rightarrow> tick \<times> 'w cache \<Rightarrow> (tick \<times> 'w cache) res" where
  "fillLine C req target t = (\<lambda>(lca, p) (fin, c).
     let n = ccLineCountInSuperPage C
     in bindR (ftlRead C (req\<lparr>frLpn := lca div word_of_nat n,
                frIoFlag := Bitset_set (Bitset_reset_all (frIoFlag req)) (unat (lca mod word_of_nat n))\<rparr>) t c) (\<lambda>(c, beginAt).
        let dramAt = lnInsertedAt (lineAt (cacheData c) p);
            (c, dramAt) = cdramWrite C (word_of_nat (ccLineSize C)) dramAt c;
            beginAt = cMAX beginAt dramAt
        in Inr (if lca = target then beginAt else fin,
             updLine p (\<lambda>l. l\<lparr>lnInsertedAt := beginAt, lnLastAccessed := beginAt, lnTag := lca\<rparr>) c)))"

text \<open>The range of addresses to read: one line, or a read-ahead of the configured granularity.\<close>

definition readAhead :: "'w cache_ctx \<Rightarrow> u64 \<Rightarrow> 'w cache \<Rightarrow> u64 \<times> 'w cache" where
  "readAhead C beginLCA c =
     (if sdEnabled (readDetect c) then
        (let c = cdramScheduling C False c;
             n = (if ccPrefetchMode C = MODE_ALL \<or> \<not> ccSuperPage C then ccLineCountInMaxIO C else ccLineCountInSuperPage C);
             endLCA = beginLCA + word_of_nat n
         in (endLCA, c\<lparr>prefetchTrigger := beginLCA + word_of_nat (n div 2), lastPrefetched := endLCA\<rparr>))
      else (beginLCA + 1, c))"

definition addresses :: "u64 \<Rightarrow> u64 \<Rightarrow> u64 list" where
  "addresses b e = map word_of_nat [unat b..<unat e]"

text \<open>
  The code behind the label \<^verbatim>\<open>ICL_GENERIC_CACHE_READ\<close>. \<open>ret\<close> tells that it was entered from a
  hit, to prefetch; then \<open>arrived\<close> is the tick to restore.
\<close>

definition readMiss :: "'w cache_ctx \<Rightarrow> icl_request \<Rightarrow> bool \<Rightarrow> tick \<Rightarrow> tick \<Rightarrow> 'w cache \<Rightarrow> ('w cache \<times> tick) res" where
  "readMiss C req ret arrived t c =
     (let reqInternal = FTL_Request_icl (ccLineCountInSuperPage C) req;
          beginLCA = slpn (icRange req);
          (endLCA, c) = readAhead C beginLCA c
      in bindR (foldR (claimLine C t) (addresses beginLCA endLCA) ([], t, c)) (\<lambda>(readList, t, c).
         bindR (evictCache C t True c) (\<lambda>c.
         bindR (foldR (fillLine C reqInternal beginLCA t) readList (t, c)) (\<lambda>(t, c).
           if sdEnabled (readDetect c) then Inr (cdramScheduling C True c, if ret then arrived else t)
           else Inr (c, t)))))"

definition countRead :: "bool \<Rightarrow> 'w cache \<Rightarrow> 'w cache" where
  "countRead ret c = c\<lparr>statRequest := (fst (statRequest c) + 1, snd (statRequest c)),
     statCache := (if ret then (fst (statCache c) + 1, snd (statCache c)) else statCache c)\<rparr>"

text \<open>The result tells a hit. A hit on the trigger address goes on to prefetch.\<close>

definition GenericCache_read :: "'w cache_ctx \<Rightarrow> icl_request \<Rightarrow> tick \<Rightarrow> 'w cache \<Rightarrow> (bool \<times> 'w cache \<times> tick) res" where
  "GenericCache_read C req t c =
     (if ccUseReadCaching C then
        (let lca = slpn (icRange req);
             setIdx = calcSetIndex C lca;
             c = (if ccUseReadPrefetch C then c\<lparr>readDetect := checkSequential C req (readDetect c)\<rparr> else c);
             (way, t) = getValidWay C lca t c
         in bindR
              (if way \<noteq> ccWaySize C then
                 (let tickBackup = t;
                      t = cMAX (lnInsertedAt (lineAt (cacheData c) (setIdx, way))) t;
                      c = updLine (setIdx, way) (\<lambda>l. l\<lparr>lnLastAccessed := t\<rparr>) c;
                      (c, t) = cdramRead C (icLength req) t c
                  in if ccUseReadPrefetch C \<and> lca = prefetchTrigger c then
                       bindR (readMiss C (req\<lparr>icRange := (icRange req)\<lparr>slpn := lastPrefetched c\<rparr>\<rparr>) True t tickBackup c)
                         (\<lambda>(c, t). Inr (True, c, t))
                     else Inr (True, c, t))
               else bindR (readMiss C req False t t c) (\<lambda>(c, t). Inr (False, c, t)))
              (\<lambda>(ret, c, t). let (c, t) = caddLatency C FN_READ t c in Inr (ret, countRead ret c, t)))
      else
        (let (c, t) = cdramWrite C (icLength req) t c
         in bindR (ftlRead C (FTL_Request_icl (ccLineCountInSuperPage C) req) t c) (\<lambda>(c, t).
              Inr (False, countRead False c, t))))"

section \<open>Writing\<close>

text \<open>The update of the line a write goes to, on a hit and in an empty way.\<close>

definition stampLine :: "bool \<Rightarrow> tick \<Rightarrow> tick \<Rightarrow> cline \<Rightarrow> cline" where
  "stampLine dirty flash t l =
     (let when = (if dirty then t else flash) in l\<lparr>lnInsertedAt := when, lnLastAccessed := when, lnDirty := dirty\<rparr>)"

text \<open>The search for victims over the whole cache: per I/O position the line the policy prefers.\<close>

definition collectVictim :: "'w cache_ctx \<Rightarrow> line_ptr \<Rightarrow> 'w cache \<Rightarrow> 'w cache" where
  "collectVictim C p c =
     (let l = lineAt (cacheData c) p
      in if lnValid l then
           (let q = calcIOPosition C (lnTag l);
                (v, w) = compareFunction C (cacheData c) (evictAt c q) (Some p) (cworld c)
            in setEvict q v (c\<lparr>cworld := w\<rparr>))
         else c)"

definition linePtrs :: "'w cache_ctx \<Rightarrow> line_ptr list" where
  "linePtrs C = concat (map (\<lambda>i. map (Pair i) [0..<ccWaySize C]) [0..<ccSetSize C])"

definition collectVictims :: "'w cache_ctx \<Rightarrow> 'w cache \<Rightarrow> 'w cache" where
  "collectVictims C c = fold (collectVictim C) (linePtrs C) c"

text \<open>With super page granularity the victims of a row are merged into its last column.\<close>

definition mergeVictim :: "'w cache_ctx \<Rightarrow> nat \<times> nat \<Rightarrow> 'w cache \<Rightarrow> 'w cache" where
  "mergeVictim C q c =
     (let (v, w) = compareFunction C (cacheData c) (evictAt c q) (evictAt c (fst q, Suc (snd q))) (cworld c)
      in setEvict q None (setEvict (fst q, Suc (snd q)) v (c\<lparr>cworld := w\<rparr>)))"

definition mergeVictims :: "'w cache_ctx \<Rightarrow> 'w cache \<Rightarrow> 'w cache" where
  "mergeVictims C c =
     (if ccEvictMode C = MODE_SUPERPAGE then
        fold (mergeVictim C)
          (concat (map (\<lambda>row. map (Pair row) [0..<ccParallelIO C - 1]) [0..<ccLineCountInSuperPage C])) c
      else c)"

definition haveVictim :: "'w cache_ctx \<Rightarrow> nat \<Rightarrow> 'w cache \<Rightarrow> bool" where
  "haveVictim C setToFlush c =
     list_ex (\<lambda>q. case evictAt c q of None \<Rightarrow> False
                   | Some p \<Rightarrow> calcSetIndex C (lnTag (lineAt (cacheData c) p)) = setToFlush) (ioPositions C)"

definition pickInSet :: "'w cache_ctx \<Rightarrow> nat \<Rightarrow> 'w cache \<Rightarrow> line_ptr option \<times> 'w" where
  "pickInSet C setToFlush c =
     fold (\<lambda>way (v, w). if lnValid (lineAt (cacheData c) (setToFlush, way))
                           then compareFunction C (cacheData c) v (Some (setToFlush, way)) w else (v, w))
       [0..<ccWaySize C] (None, cworld c)"

definition ensureVictim :: "'w cache_ctx \<Rightarrow> nat \<Rightarrow> 'w cache \<Rightarrow> 'w cache" where
  "ensureVictim C setToFlush c =
     (if haveVictim C setToFlush c then c
      else
        (let (v, w) = pickInSet C setToFlush c; c = c\<lparr>cworld := w\<rparr>
         in case v of None \<Rightarrow> c
            | Some p \<Rightarrow> setEvict (calcIOPosition C (lnTag (lineAt (cacheData c) p))) (Some p) c))"

definition writeFlush :: "'w cache_ctx \<Rightarrow> icl_request \<Rightarrow> tick \<Rightarrow> 'w cache \<Rightarrow> ('w cache \<times> tick) res" where
  "writeFlush C req t c =
     (let setToFlush = calcSetIndex C (slpn (icRange req));
          c = ensureVictim C setToFlush (mergeVictims C (collectVictims C c));
          t = t + getCacheLatency C * word_of_nat (ccSetSize C) * word_of_nat (ccWaySize C) * 8
      in bindR (evictCache C t True c) (\<lambda>c.
         let (way, t) = getEmptyWay C setToFlush t c
         in if way = ccWaySize C then Inl (Panic ''Cache corrupted!'')
            else
              (let (c, t) = cdramWrite C (icLength req) t c
               in Inr (updLine (setToFlush, way) (\<lambda>l. l\<lparr>lnInsertedAt := t, lnLastAccessed := t, lnValid := True,
                          lnDirty := True, lnTag := slpn (icRange req)\<rparr>) c, t))))"

definition countWrite :: "bool \<Rightarrow> 'w cache \<Rightarrow> 'w cache" where
  "countWrite ret c = c\<lparr>statRequest := (fst (statRequest c), snd (statRequest c) + 1),
     statCache := (if ret then (fst (statCache c), snd (statCache c) + 1) else statCache c)\<rparr>"

definition cachedWrite :: "'w cache_ctx \<Rightarrow> icl_request \<Rightarrow> bool \<Rightarrow> tick \<Rightarrow> tick \<Rightarrow> 'w cache \<Rightarrow> (bool \<times> 'w cache \<times> tick) res" where
  "cachedWrite C req dirty flash t c =
     (let lca = slpn (icRange req);
          setIdx = calcSetIndex C lca;
          (way, t) = getValidWay C lca t c
      in if way \<noteq> ccWaySize C then
           (let t = cMAX (lnInsertedAt (lineAt (cacheData c) (setIdx, way))) t;
                c = updLine (setIdx, way) (stampLine dirty flash t) c;
                (c, t) = cdramWrite C (icLength req) t c
            in Inr (True, c, t))
         else
           (let (way, t) = getEmptyWay C setIdx t c
            in if way \<noteq> ccWaySize C then
                 (let t = cMAX (lnInsertedAt (lineAt (cacheData c) (setIdx, way))) t;
                      c = updLine (setIdx, way) (\<lambda>l. (stampLine dirty flash t l)\<lparr>lnValid := True, lnTag := lca\<rparr>) c;
                      (c, t) = cdramWrite C (icLength req) t c
                  in Inr (True, c, t))
               else bindR (writeFlush C req t c) (\<lambda>(c, t). Inr (False, c, t))))"

text \<open>
  The result tells a hit or a cold miss. A write of a whole line goes to the FTL at once; the
  shorter ones only make the line dirty.
\<close>

definition GenericCache_write :: "'w cache_ctx \<Rightarrow> icl_request \<Rightarrow> tick \<Rightarrow> 'w cache \<Rightarrow> (bool \<times> 'w cache \<times> tick) res" where
  "GenericCache_write C req t c =
     (let reqInternal = FTL_Request_icl (ccLineCountInSuperPage C) req;
          dirty = (icLength req < word_of_nat (ccLineSize C))
      in bindR (if dirty then Inr (c, t) else ftlWrite C reqInternal t c) (\<lambda>(c, flash).
         if ccUseWriteCaching C then
           bindR (cachedWrite C req dirty flash t c) (\<lambda>(ret, c, t).
             let (c, t) = caddLatency C FN_WRITE t c in Inr (ret, countWrite ret c, t))
         else
           bindR (if dirty then ftlWrite C reqInternal t c else Inr (c, flash)) (\<lambda>(c, t).
             let (c, t) = cdramRead C (icLength req) t (cdramScheduling C False c)
             in Inr (False, countWrite False (cdramScheduling C True c), t))))"

section \<open>Flush, trim, format and statistics\<close>

text \<open>
  The loops of \<^verbatim>\<open>flush\<close> and \<^verbatim>\<open>trim\<close> over all lines: the one FTL request collects the flags
  of every line it is used for.
\<close>

definition inRange :: "lpn_range \<Rightarrow> u64 \<Rightarrow> bool" where
  "inRange r lca \<longleftrightarrow> slpn r \<le> lca \<and> lca < slpn r + nlp r"

definition aimRequest :: "'w cache_ctx \<Rightarrow> u64 \<Rightarrow> ftl_request \<Rightarrow> ftl_request" where
  "aimRequest C lca req =
     (let n = word_of_nat (ccLineCountInSuperPage C)
      in req\<lparr>frLpn := lca div n, frIoFlag := Bitset_set (frIoFlag req) (unat (lca mod n))\<rparr>)"

definition flushLine :: "'w cache_ctx \<Rightarrow> lpn_range \<Rightarrow> line_ptr \<Rightarrow> ftl_request \<times> tick \<times> tick \<times> 'w cache \<Rightarrow>
    (ftl_request \<times> tick \<times> tick \<times> 'w cache) res" where
  "flushLine C rng p = (\<lambda>(req, fin, t, c).
     let l = lineAt (cacheData c) p;
         t = t + getCacheLatency C * 8
     in if inRange rng (lnTag l) then
          bindR (if lnDirty l then
                   (let req = aimRequest C (lnTag l) req
                    in bindR (ftlWrite C req t c) (\<lambda>(c, ft). Inr (req, cMAX fin ft, t, c)))
                 else Inr (req, fin, t, c)) (\<lambda>(req, fin, t, c).
            Inr (req, fin, t, updLine p (\<lambda>l. l\<lparr>lnValid := False\<rparr>) c))
        else Inr (req, fin, t, c))"

definition GenericCache_flush :: "'w cache_ctx \<Rightarrow> lpn_range \<Rightarrow> tick \<Rightarrow> 'w cache \<Rightarrow> ('w cache \<times> tick) res" where
  "GenericCache_flush C rng t c =
     (if ccUseReadCaching C \<or> ccUseWriteCaching C then
        bindR (foldR (flushLine C rng) (linePtrs C) (FTL_Request_new (ccLineCountInSuperPage C), t, t, c))
          (\<lambda>(req, fin, t, c). Inr (caddLatency C FN_FLUSH (cMAX t fin) c))
      else Inr (c, t))"

definition trimLine :: "'w cache_ctx \<Rightarrow> lpn_range \<Rightarrow> line_ptr \<Rightarrow> ftl_request \<times> tick \<times> tick \<times> 'w cache \<Rightarrow>
    (ftl_request \<times> tick \<times> tick \<times> 'w cache) res" where
  "trimLine C rng p = (\<lambda>(req, fin, t, c).
     let l = lineAt (cacheData c) p;
         t = t + getCacheLatency C * 8
     in if inRange rng (lnTag l) then
          (let req = aimRequest C (lnTag l) req
           in bindR (ftlTrim C req t c) (\<lambda>(c, ft).
                Inr (req, cMAX fin ft, t, updLine p (\<lambda>l. l\<lparr>lnValid := False\<rparr>) c)))
        else Inr (req, fin, t, c))"

definition GenericCache_trim :: "'w cache_ctx \<Rightarrow> lpn_range \<Rightarrow> tick \<Rightarrow> 'w cache \<Rightarrow> ('w cache \<times> tick) res" where
  "GenericCache_trim C rng t c =
     (if ccUseReadCaching C \<or> ccUseWriteCaching C then
        bindR (foldR (trimLine C rng) (linePtrs C) (FTL_Request_new (ccLineCountInSuperPage C), t, t, c))
          (\<lambda>(req, fin, t, c). Inr (caddLatency C FN_TRIM (cMAX t fin) c))
      else Inr (c, t))"

definition dropLine :: "'w cache_ctx \<Rightarrow> u64 \<Rightarrow> 'w cache \<times> tick \<Rightarrow> 'w cache \<times> tick" where
  "dropLine C lpn = (\<lambda>(c, t).
     let (way, t) = getValidWay C lpn t c
     in (if way \<noteq> ccWaySize C then updLine (calcSetIndex C lpn, way) (\<lambda>l. l\<lparr>lnValid := False\<rparr>) c else c, t))"

definition GenericCache_format :: "'w cache_ctx \<Rightarrow> lpn_range \<Rightarrow> tick \<Rightarrow> 'w cache \<Rightarrow> ('w cache \<times> tick) res" where
  "GenericCache_format C rng t c =
     (let (c, t) = (if ccUseReadCaching C \<or> ccUseWriteCaching C then
                      fold (\<lambda>i. dropLine C (slpn rng + word_of_nat i)) [0..<unat (nlp rng)] (c, t)
                    else (c, t));
          n = word_of_nat (ccLineCountInSuperPage C)
      in bindR (cdFtlFormat (ccDev C) (cworld c) \<lparr>slpn = slpn rng div n, nlp = (nlp rng - 1) div n + 1\<rparr> t) (\<lambda>(w, t).
           Inr (caddLatency C FN_FORMAT t (c\<lparr>cworld := w\<rparr>))))"

definition GenericCache_getStatValues :: "'w cache \<Rightarrow> fl list" where
  "GenericCache_getStatValues c =
     map (fl_of_nat f64 \<circ> unat) [fst (statRequest c), fst (statCache c), snd (statRequest c), snd (statCache c)]"

definition GenericCache_resetStatValues :: "'w cache \<Rightarrow> 'w cache" where
  "GenericCache_resetStatValues c = c\<lparr>statRequest := (0, 0), statCache := (0, 0)\<rparr>"

end
