(* ===== verification/Cache_Inv.thy ===== *)
theory Cache_Inv
  imports Cache
begin

text \<open>
  Properties of the cache: its searches, the invariant that every operation keeps (at most
  one valid line per address, stored in the set of the address), what a write leaves in the
  cache, which lines an eviction takes and what a flush writes back.
\<close>

section \<open>Lines and eviction slots\<close>

definition cctx_ok :: "'w cache_ctx \<Rightarrow> bool" where
  "cctx_ok C \<longleftrightarrow> 0 < ccSetSize C \<and> 0 < ccWaySize C \<and> 0 < ccLineCountInSuperPage C \<and> 0 < ccParallelIO C \<and>
     ccLineCountInSuperPage C < 2 ^ 32 \<and> ccLineCountInMaxIO C = ccParallelIO C * ccLineCountInSuperPage C"

definition ptrs :: "'w cache_ctx \<Rightarrow> line_ptr set" where
  "ptrs C = {..<ccSetSize C} \<times> {..<ccWaySize C}"

definition slots :: "'w cache_ctx \<Rightarrow> (nat \<times> nat) set" where
  "slots C = {..<ccLineCountInSuperPage C} \<times> {..<ccParallelIO C}"

definition cgeom :: "'w cache_ctx \<Rightarrow> 'w cache \<Rightarrow> bool" where
  "cgeom C c \<longleftrightarrow> length (cacheData c) = ccSetSize C \<and> (\<forall>r\<in>set (cacheData c). length r = ccWaySize C) \<and>
     length (evictData c) = ccLineCountInSuperPage C \<and> (\<forall>r\<in>set (evictData c). length r = ccParallelIO C)"

text \<open>The line a pointer points to.\<close>

abbreviation lineOf :: "'w cache \<Rightarrow> line_ptr \<Rightarrow> cline" where
  "lineOf c \<equiv> lineAt (cacheData c)"

lemma set_ioPositions [simp]: "set (ioPositions C) = slots C"
  by (auto simp: ioPositions_def slots_def)

lemma set_linePtrs [simp]: "set (linePtrs C) = ptrs C"
  by (auto simp: linePtrs_def ptrs_def)

lemma cgeom_row: "cgeom C c \<Longrightarrow> i < ccSetSize C \<Longrightarrow> length (cacheData c ! i) = ccWaySize C"
  by (simp add: cgeom_def)

lemma cgeom_erow: "cgeom C c \<Longrightarrow> i < ccLineCountInSuperPage C \<Longrightarrow> length (evictData c ! i) = ccParallelIO C"
  by (simp add: cgeom_def)

lemma lineOf_updLine:
  assumes "cgeom C c" "p \<in> ptrs C" "p' \<in> ptrs C"
  shows "lineOf (updLine p f c) p' = (if p' = p then f (lineOf c p) else lineOf c p')"
  using assms cgeom_row [OF assms(1)]
  by (cases p; cases p') (auto simp: updLine_def lineAt_def ptrs_def cgeom_def nth_list_update)

lemma evictAt_setEvict:
  assumes "cgeom C c" "q \<in> slots C" "q' \<in> slots C"
  shows "evictAt (setEvict q v c) q' = (if q' = q then v else evictAt c q')"
  using assms cgeom_erow [OF assms(1)]
  by (cases q; cases q') (auto simp: setEvict_def evictAt_def slots_def cgeom_def nth_list_update)

lemma cgeom_updLine [intro]: "cgeom C c \<Longrightarrow> p \<in> ptrs C \<Longrightarrow> cgeom C (updLine p f c)"
  using cgeom_row [of C c] by (auto simp: cgeom_def updLine_def ptrs_def dest!: set_update_subset_insert [THEN subsetD])

lemma cgeom_setEvict [intro]: "cgeom C c \<Longrightarrow> q \<in> slots C \<Longrightarrow> cgeom C (setEvict q v c)"
  using cgeom_erow [of C c] by (auto simp: cgeom_def setEvict_def slots_def dest!: set_update_subset_insert [THEN subsetD])

text \<open>Updates that leave the lines and the slots alone.\<close>

lemma cache_frame [simp]:
  "cacheData (setEvict q v c) = cacheData c" "evictData (updLine p f c) = evictData c"
  "evictAt (updLine p f c) q = evictAt c q"
  "cworld (updLine p f c) = cworld c" "cworld (setEvict q v c) = cworld c"
  "readDetect (updLine p f c) = readDetect c" "readDetect (setEvict q v c) = readDetect c"
  "evictAt (c\<lparr>cworld := w\<rparr>) q = evictAt c q" "evictAt (c\<lparr>readDetect := d\<rparr>) q = evictAt c q"
  "evictAt (c\<lparr>prefetchTrigger := x\<rparr>) q = evictAt c q" "evictAt (c\<lparr>lastPrefetched := x\<rparr>) q = evictAt c q"
  "evictAt (c\<lparr>statRequest := y\<rparr>) q = evictAt c q" "evictAt (c\<lparr>statCache := y\<rparr>) q = evictAt c q"
  by (simp_all add: setEvict_def updLine_def evictAt_def)

lemma cgeom_frame [simp]:
  "cgeom C (c\<lparr>cworld := w\<rparr>) = cgeom C c" "cgeom C (c\<lparr>readDetect := d\<rparr>) = cgeom C c"
  "cgeom C (c\<lparr>prefetchTrigger := x\<rparr>) = cgeom C c" "cgeom C (c\<lparr>lastPrefetched := x\<rparr>) = cgeom C c"
  "cgeom C (c\<lparr>statRequest := y\<rparr>) = cgeom C c" "cgeom C (c\<lparr>statCache := y\<rparr>) = cgeom C c"
  by (simp_all add: cgeom_def)

section \<open>Searches\<close>

lemma validScan_ok:
  "fst (validScan lat lca ls k t) = k + length (takeWhile (\<lambda>l. \<not> (lnValid l \<and> lnTag l = lca)) ls)"
  by (induction ls arbitrary: k t) auto

lemma emptyScan_ok:
  assumes "fst (emptyScan lat ls k r m t) = i"
  shows "(i = r \<and> (\<forall>l\<in>set ls. \<not> lnValid l \<longrightarrow> m \<le> lnInsertedAt l)) \<or>
    (k \<le> i \<and> i < k + length ls \<and> \<not> lnValid (ls ! (i - k)) \<and> lnInsertedAt (ls ! (i - k)) < m \<and>
     (\<forall>l\<in>set ls. \<not> lnValid l \<longrightarrow> lnInsertedAt (ls ! (i - k)) \<le> lnInsertedAt l))"
  using assms
proof (induction ls arbitrary: k r m t)
  case Nil
  then show ?case by simp
next
  case (Cons l ls)
  show ?case
  proof (cases "\<not> lnValid l \<and> lnInsertedAt l < m")
    case True
    then have "fst (emptyScan lat ls (Suc k) k (lnInsertedAt l) (t + lat * 8)) = i" using Cons.prems by simp
    from Cons.IH [OF this] show ?thesis
    proof
      assume "i = k \<and> (\<forall>l'\<in>set ls. \<not> lnValid l' \<longrightarrow> lnInsertedAt l \<le> lnInsertedAt l')"
      then show ?thesis using True by auto
    next
      assume A: "Suc k \<le> i \<and> i < Suc k + length ls \<and> \<not> lnValid (ls ! (i - Suc k)) \<and>
        lnInsertedAt (ls ! (i - Suc k)) < lnInsertedAt l \<and>
        (\<forall>l'\<in>set ls. \<not> lnValid l' \<longrightarrow> lnInsertedAt (ls ! (i - Suc k)) \<le> lnInsertedAt l')"
      then have "(l # ls) ! (i - k) = ls ! (i - Suc k)" by (simp add: nth_Cons' Suc_diff_le)
      with A True show ?thesis by auto
    qed
  next
    case False
    then obtain t' where "fst (emptyScan lat ls (Suc k) r m t') = i" using Cons.prems by (auto split: if_splits)
    from Cons.IH [OF this] show ?thesis
    proof
      assume "i = r \<and> (\<forall>l'\<in>set ls. \<not> lnValid l' \<longrightarrow> m \<le> lnInsertedAt l')"
      then show ?thesis using False by auto
    next
      assume A: "Suc k \<le> i \<and> i < Suc k + length ls \<and> \<not> lnValid (ls ! (i - Suc k)) \<and>
        lnInsertedAt (ls ! (i - Suc k)) < m \<and>
        (\<forall>l'\<in>set ls. \<not> lnValid l' \<longrightarrow> lnInsertedAt (ls ! (i - Suc k)) \<le> lnInsertedAt l')"
      then have "(l # ls) ! (i - k) = ls ! (i - Suc k)" by (simp add: nth_Cons' Suc_diff_le)
      with A False show ?thesis by auto
    qed
  qed
qed

lemma leastScan_bound: "j < n \<Longrightarrow> i + length ls \<le> n \<Longrightarrow> fst (leastScan key lat ls i j m t) < n"
  by (induction ls arbitrary: i j m t) auto

lemma calcSetIndex_less: "cctx_ok C \<Longrightarrow> calcSetIndex C lca < ccSetSize C"
  by (simp add: calcSetIndex_def cctx_ok_def)

lemma calcIOPosition_slot: "cctx_ok C \<Longrightarrow> calcIOPosition C lca \<in> slots C"
  by (simp add: calcIOPosition_def cctx_ok_def slots_def Let_def less_mult_imp_div_less)

lemma in_ptrs: "(i, j) \<in> ptrs C \<longleftrightarrow> i < ccSetSize C \<and> j < ccWaySize C"
  by (simp add: ptrs_def)

text \<open>A hit names a way of the address's set that is valid and holds the address; a miss means there is none.\<close>

lemma getValidWay_cases:
  assumes "cgeom C c" "cctx_ok C"
  obtains (hit) w where "fst (getValidWay C lca t c) = w" "w < ccWaySize C"
      "lnValid (lineOf c (calcSetIndex C lca, w))" "lnTag (lineOf c (calcSetIndex C lca, w)) = lca"
  | (miss) "fst (getValidWay C lca t c) = ccWaySize C"
      "\<And>w. w < ccWaySize C \<Longrightarrow> lnValid (lineOf c (calcSetIndex C lca, w)) \<Longrightarrow> lnTag (lineOf c (calcSetIndex C lca, w)) \<noteq> lca"
proof -
  let ?i = "calcSetIndex C lca"
  let ?r = "cacheData c ! ?i"
  let ?n = "length (takeWhile (\<lambda>l. \<not> (lnValid l \<and> lnTag l = lca)) ?r)"
  have len: "length ?r = ccWaySize C" using assms cgeom_row calcSetIndex_less by blast
  have f: "fst (getValidWay C lca t c) = ?n" by (simp add: getValidWay_def validScan_ok len)
  show thesis
  proof (cases "?n < length ?r")
    case True
    then have "lnValid (?r ! ?n) \<and> lnTag (?r ! ?n) = lca"
      using nth_length_takeWhile [of "\<lambda>l. \<not> (lnValid l \<and> lnTag l = lca)" ?r] by blast
    with True f len show thesis by (intro hit [of ?n]) (simp_all add: lineAt_def)
  next
    case False
    then have n: "?n = length ?r" using length_takeWhile_le [of _ ?r] by (simp add: le_antisym not_less)
    have "takeWhile (\<lambda>l. \<not> (lnValid l \<and> lnTag l = lca)) ?r = ?r" by (subst takeWhile_eq_take) (simp only: n take_all)
    then have none: "\<not> (lnValid l \<and> lnTag l = lca)" if "l \<in> set ?r" for l using that by (simp add: takeWhile_eq_all_conv)
    show thesis
    proof (rule miss)
      show "fst (getValidWay C lca t c) = ccWaySize C" using f n len by simp
      show "lnTag (lineOf c (?i, w)) \<noteq> lca" if "w < ccWaySize C" "lnValid (lineOf c (?i, w))" for w
        using none [of "?r ! w"] that len by (simp add: lineAt_def)
    qed
  qed
qed

text \<open>The empty way is invalid and the one inserted first; there is none only if every invalid line carries the largest time.\<close>

lemma getEmptyWay_cases:
  assumes "cgeom C c" "i < ccSetSize C"
  obtains (found) w where "fst (getEmptyWay C i t c) = w" "w < ccWaySize C" "\<not> lnValid (lineOf c (i, w))"
      "\<And>v. v < ccWaySize C \<Longrightarrow> \<not> lnValid (lineOf c (i, v)) \<Longrightarrow> lnInsertedAt (lineOf c (i, w)) \<le> lnInsertedAt (lineOf c (i, v))"
  | (none) "fst (getEmptyWay C i t c) = ccWaySize C"
      "\<And>w. w < ccWaySize C \<Longrightarrow> \<not> lnValid (lineOf c (i, w)) \<Longrightarrow> lnInsertedAt (lineOf c (i, w)) = - 1"
proof -
  let ?r = "cacheData c ! i"
  have len: "length ?r = ccWaySize C" using assms cgeom_row by blast
  obtain w where w: "fst (emptyScan (getCacheLatency C) ?r 0 (ccWaySize C) (- 1) t) = w" by blast
  have g: "fst (getEmptyWay C i t c) = w" by (simp add: getEmptyWay_def len w)
  from emptyScan_ok [OF w] show thesis
  proof
    assume A: "w = ccWaySize C \<and> (\<forall>l\<in>set ?r. \<not> lnValid l \<longrightarrow> - 1 \<le> lnInsertedAt l)"
    have "lnInsertedAt (lineOf c (i, v)) = - 1" if "v < ccWaySize C" "\<not> lnValid (lineOf c (i, v))" for v
    proof -
      have "?r ! v \<in> set ?r" using that(1) len by simp
      then have "- 1 \<le> lnInsertedAt (?r ! v)" using A that(2) by (auto simp: lineAt_def)
      then show ?thesis by (simp add: lineAt_def word_order.extremum_unique)
    qed
    with A g show thesis by (intro none) auto
  next
    assume A: "0 \<le> w \<and> w < 0 + length ?r \<and> \<not> lnValid (?r ! (w - 0)) \<and> lnInsertedAt (?r ! (w - 0)) < - 1 \<and>
      (\<forall>l\<in>set ?r. \<not> lnValid l \<longrightarrow> lnInsertedAt (?r ! (w - 0)) \<le> lnInsertedAt l)"
    then have "lnInsertedAt (lineOf c (i, w)) \<le> lnInsertedAt (lineOf c (i, v))"
      if "v < ccWaySize C" "\<not> lnValid (lineOf c (i, v))" for v
      using that len by (simp add: lineAt_def)
    with A g len show thesis by (intro found [of w]) (auto simp: lineAt_def)
  qed
qed

section \<open>The invariant\<close>

definition validLines :: "'w cache_ctx \<Rightarrow> 'w cache \<Rightarrow> line_ptr set" where
  "validLines C c = {p \<in> ptrs C. lnValid (lineOf c p)}"

text \<open>Every valid line is in the set of its address, and no address is valid twice.\<close>

definition placed :: "'w cache_ctx \<Rightarrow> 'w cache \<Rightarrow> bool" where
  "placed C c \<longleftrightarrow> (\<forall>p\<in>validLines C c. calcSetIndex C (lnTag (lineOf c p)) = fst p) \<and>
     inj_on (\<lambda>p. lnTag (lineOf c p)) (validLines C c)"

definition noVictims :: "'w cache_ctx \<Rightarrow> 'w cache \<Rightarrow> bool" where
  "noVictims C c \<longleftrightarrow> (\<forall>q\<in>slots C. evictAt c q = None)"

definition cache_inv :: "'w cache_ctx \<Rightarrow> 'w cache \<Rightarrow> bool" where
  "cache_inv C c \<longleftrightarrow> cgeom C c \<and> placed C c \<and> noVictims C c"

text \<open>The address is cached: a lookup finds it.\<close>

definition cached :: "'w cache_ctx \<Rightarrow> 'w cache \<Rightarrow> u64 \<Rightarrow> bool" where
  "cached C c lca \<longleftrightarrow> (\<exists>p\<in>validLines C c. lnTag (lineOf c p) = lca)"

lemma inv_frame [simp]:
  "placed C (c\<lparr>cworld := w\<rparr>) = placed C c" "placed C (c\<lparr>readDetect := d\<rparr>) = placed C c"
  "placed C (c\<lparr>prefetchTrigger := x\<rparr>) = placed C c" "placed C (c\<lparr>lastPrefetched := x\<rparr>) = placed C c"
  "placed C (c\<lparr>statRequest := y\<rparr>) = placed C c" "placed C (c\<lparr>statCache := y\<rparr>) = placed C c"
  "noVictims C (c\<lparr>cworld := w\<rparr>) = noVictims C c" "noVictims C (c\<lparr>readDetect := d\<rparr>) = noVictims C c"
  "noVictims C (c\<lparr>prefetchTrigger := x\<rparr>) = noVictims C c" "noVictims C (c\<lparr>lastPrefetched := x\<rparr>) = noVictims C c"
  "noVictims C (c\<lparr>statRequest := y\<rparr>) = noVictims C c" "noVictims C (c\<lparr>statCache := y\<rparr>) = noVictims C c"
  "noVictims C (updLine p f c) = noVictims C c"
  "validLines C (c\<lparr>cworld := w\<rparr>) = validLines C c" "validLines C (c\<lparr>readDetect := d\<rparr>) = validLines C c"
  "validLines C (c\<lparr>prefetchTrigger := x\<rparr>) = validLines C c" "validLines C (c\<lparr>lastPrefetched := x\<rparr>) = validLines C c"
  "validLines C (c\<lparr>statRequest := y\<rparr>) = validLines C c" "validLines C (c\<lparr>statCache := y\<rparr>) = validLines C c"
  by (simp_all add: placed_def noVictims_def validLines_def)

lemma cache_inv_frame [simp]:
  "cache_inv C (c\<lparr>cworld := w\<rparr>) = cache_inv C c" "cache_inv C (c\<lparr>readDetect := d\<rparr>) = cache_inv C c"
  "cache_inv C (c\<lparr>prefetchTrigger := x\<rparr>) = cache_inv C c" "cache_inv C (c\<lparr>lastPrefetched := x\<rparr>) = cache_inv C c"
  "cache_inv C (c\<lparr>statRequest := y\<rparr>) = cache_inv C c" "cache_inv C (c\<lparr>statCache := y\<rparr>) = cache_inv C c"
  by (simp_all add: cache_inv_def)

lemma cached_frame [simp]:
  "cached C (c\<lparr>cworld := w\<rparr>) = cached C c" "cached C (c\<lparr>readDetect := d\<rparr>) = cached C c"
  "cached C (c\<lparr>statRequest := y\<rparr>) = cached C c" "cached C (c\<lparr>statCache := y\<rparr>) = cached C c"
  by (simp_all add: cached_def fun_eq_iff)

text \<open>Lookup is exact: it finds a way if and only if the address is cached.\<close>

lemma getValidWay_cached:
  assumes "cgeom C c" "placed C c" "cctx_ok C"
  shows "fst (getValidWay C lca t c) \<noteq> ccWaySize C \<longleftrightarrow> cached C c lca"
  using assms(1,3)
proof (cases rule: getValidWay_cases [where lca = lca and t = t])
  case (hit w)
  then show ?thesis using calcSetIndex_less [OF assms(3)] by (auto simp: cached_def validLines_def in_ptrs intro!: bexI)
next
  case miss
  have False if "p \<in> validLines C c" "lnTag (lineOf c p) = lca" for p
  proof -
    have "calcSetIndex C lca = fst p" using assms(2) that by (auto simp: placed_def)
    then show False using miss(2) [of "snd p"] that by (cases p) (auto simp: validLines_def in_ptrs)
  qed
  then show ?thesis using miss(1) by (auto simp: cached_def)
qed

text \<open>Changes of one line that keep the invariant.\<close>

lemma placed_updLine_keep:
  assumes "cgeom C c" "p \<in> ptrs C" "placed C c"
    and "lnTag (f (lineOf c p)) = lnTag (lineOf c p)" "lnValid (f (lineOf c p)) \<Longrightarrow> lnValid (lineOf c p)"
  shows "placed C (updLine p f c)"
proof -
  have sub: "validLines C (updLine p f c) \<subseteq> validLines C c"
    using assms(5) lineOf_updLine [OF assms(1,2)] by (auto simp: validLines_def split: if_splits)
  have tag: "lnTag (lineOf (updLine p f c) p') = lnTag (lineOf c p')" if "p' \<in> ptrs C" for p'
    using assms(4) lineOf_updLine [OF assms(1,2) that] by simp
  have "\<forall>p'\<in>validLines C c. p' \<in> ptrs C" by (simp add: validLines_def)
  with sub tag assms(3) show ?thesis
    unfolding placed_def inj_on_def by (metis (no_types, lifting) subsetD)
qed

lemma placed_updLine_new:
  assumes "cgeom C c" "p \<in> ptrs C" "placed C c"
    and "lnTag (f (lineOf c p)) = lca" "fst p = calcSetIndex C lca" "\<not> cached C c lca"
  shows "placed C (updLine p f c)"
proof -
  let ?c = "updLine p f c"
  have L: "lineOf ?c p' = (if p' = p then f (lineOf c p) else lineOf c p')" if "p' \<in> validLines C ?c" for p'
    using that by (intro lineOf_updLine [OF assms(1,2)]) (simp add: validLines_def)
  have old: "p' \<in> validLines C c" if "p' \<in> validLines C ?c" "p' \<noteq> p" for p'
    using that(1) L [OF that(1)] that(2) by (simp add: validLines_def)
  have fresh: "lnTag (lineOf c p') \<noteq> lca" if "p' \<in> validLines C ?c" "p' \<noteq> p" for p'
    using old [OF that] assms(6) by (auto simp: cached_def)
  have set: "calcSetIndex C (lnTag (lineOf ?c p')) = fst p'" if "p' \<in> validLines C ?c" for p'
    using L [OF that] old [OF that] assms(3,4,5) by (cases "p' = p") (auto simp: placed_def)
  have "a = b" if "a \<in> validLines C ?c" "b \<in> validLines C ?c" "lnTag (lineOf ?c a) = lnTag (lineOf ?c b)" for a b
  proof (cases "a = p \<or> b = p")
    case True
    then show ?thesis using fresh that L [OF that(1)] L [OF that(2)] assms(4) by metis
  next
    case False
    then have "a \<in> validLines C c" "b \<in> validLines C c" using old that by auto
    moreover have "lnTag (lineOf c a) = lnTag (lineOf c b)" using False that L [OF that(1)] L [OF that(2)] by simp
    ultimately show ?thesis using assms(3) by (simp add: placed_def inj_on_def)
  qed
  with set show ?thesis unfolding placed_def inj_on_def by blast
qed

section \<open>Eviction\<close>

text \<open>The lines the eviction slots point to.\<close>

definition victims :: "'w cache_ctx \<Rightarrow> 'w cache \<Rightarrow> line_ptr set" where
  "victims C c = {p. \<exists>q\<in>slots C. evictAt c q = Some p}"

lemma victims_frame [simp]: "victims C (c\<lparr>cworld := w\<rparr>) = victims C c" "victims C (updLine p f c) = victims C c"
  by (simp_all add: victims_def)

lemma noVictims_iff: "noVictims C c \<longleftrightarrow> victims C c = {}"
proof
  assume "victims C c = {}"
  then have "evictAt c q \<noteq> Some p" if "q \<in> slots C" for q p using that unfolding victims_def by blast
  then show "noVictims C c" unfolding noVictims_def using option.exhaust by metis
qed (simp add: noVictims_def victims_def)

lemma victims_setEvict:
  assumes "cgeom C c" "q \<in> slots C" shows "victims C (setEvict q v c) \<subseteq> victims C c \<union> set_option v"
proof -
  have "evictAt c q' = Some p \<or> v = Some p" if "q' \<in> slots C" "evictAt (setEvict q v c) q' = Some p" for p q'
    using that evictAt_setEvict [OF assms that(1), of v] by (cases "q' = q") simp_all
  then show ?thesis by (fastforce simp: victims_def)
qed

text \<open>One slot: the line it points to is written back if dirty, then dropped.\<close>

lemma evictOne_ok:
  assumes g: "cgeom C c" "q \<in> slots C" "victims C c \<subseteq> ptrs C"
    and P: "P t" "\<And>w r w' t'. cdFtlWrite (ccDev C) w r t = Inr (w', t') \<Longrightarrow> P t'"
  shows "on_ok (evictOne C t True q c) (\<lambda>c'. cgeom C c' \<and> readDetect c' = readDetect c \<and>
      (\<forall>q'\<in>slots C. evictAt c' q' = (if q' = q then None else evictAt c q')) \<and>
      (\<forall>p\<in>ptrs C. if evictAt c q = Some p
         then \<not> lnValid (lineOf c' p) \<and> \<not> lnDirty (lineOf c' p) \<and> P (lnInsertedAt (lineOf c' p))
         else lineOf c' p = lineOf c p))"
proof (cases "evictAt c q")
  case None
  then show ?thesis using g by (auto simp: evictOne_def)
next
  case (Some p)
  then have p: "p \<in> ptrs C" using g(2,3) by (auto simp: victims_def)
  let ?new = "\<lambda>b l. l\<lparr>lnValid := False, lnTag := 0, lnInsertedAt := b, lnLastAccessed := b, lnDirty := False\<rparr>"
  have step: "cgeom C c' \<and> readDetect c' = readDetect c \<and>
      (\<forall>q'\<in>slots C. evictAt c' q' = (if q' = q then None else evictAt c q')) \<and>
      (\<forall>p'\<in>ptrs C. if evictAt c q = Some p'
         then \<not> lnValid (lineOf c' p') \<and> \<not> lnDirty (lineOf c' p') \<and> P (lnInsertedAt (lineOf c' p'))
         else lineOf c' p' = lineOf c p')"
    if "c' = setEvict q None (updLine p (?new b) (c\<lparr>cworld := w\<rparr>))" "P b" for c' w b
  proof -
    have u: "cgeom C (updLine p (?new b) (c\<lparr>cworld := w\<rparr>))" using g p by (intro cgeom_updLine) simp_all
    have "lineOf c' p' = (if p' = p then ?new b (lineOf c p) else lineOf c p')" if "p' \<in> ptrs C" for p'
      unfolding \<open>c' = _\<close> using lineOf_updLine [of C "c\<lparr>cworld := w\<rparr>", OF _ p that] g by simp
    then show ?thesis
      using that u g(2) Some by (auto simp: evictAt_setEvict)
  qed
  show ?thesis
  proof (cases "lnValid (lineOf c p) \<and> lnDirty (lineOf c p)")
    case True
    show ?thesis
    proof (rule on_okI)
      fix c' assume "evictOne C t True q c = Inr c'"
      then obtain w b where "cdFtlWrite (ccDev C) (cworld c) ((FTL_Request_new (ccLineCountInSuperPage C))
          \<lparr>frLpn := lnTag (lineOf c p) div word_of_nat (ccLineCountInSuperPage C),
           frIoFlag := Bitset_set (Bitset_new (ccLineCountInSuperPage C)) (fst q)\<rparr>) t = Inr (w, b)"
        "c' = setEvict q None (updLine p (?new b) (c\<lparr>cworld := w\<rparr>))"
        using True Some by (auto simp: evictOne_def ftlWrite_def Let_def bindR_eq_Inr split: prod.splits)
      with step [OF this(2)] P(2) show "cgeom C c' \<and> readDetect c' = readDetect c \<and>
          (\<forall>q'\<in>slots C. evictAt c' q' = (if q' = q then None else evictAt c q')) \<and>
          (\<forall>p'\<in>ptrs C. if evictAt c q = Some p'
             then \<not> lnValid (lineOf c' p') \<and> \<not> lnDirty (lineOf c' p') \<and> P (lnInsertedAt (lineOf c' p'))
             else lineOf c' p' = lineOf c p')" by blast
    qed
  next
    case False
    then have e: "evictOne C t True q c = Inr (setEvict q None (updLine p (?new t) (c\<lparr>cworld := cworld c\<rparr>)))"
      using Some by (auto simp: evictOne_def Let_def)
    show ?thesis unfolding e on_ok_Inr by (rule step [OF refl P(1)])
  qed
qed

lemma evictCache_ok:
  assumes g: "cgeom C c" "victims C c \<subseteq> ptrs C"
    and P: "P t" "\<And>w r w' t'. cdFtlWrite (ccDev C) w r t = Inr (w', t') \<Longrightarrow> P t'"
  shows "on_ok (evictCache C t True c) (\<lambda>c'. cgeom C c' \<and> readDetect c' = readDetect c \<and> noVictims C c' \<and>
      (\<forall>p\<in>ptrs C. if p \<in> victims C c
         then \<not> lnValid (lineOf c' p) \<and> \<not> lnDirty (lineOf c' p) \<and> P (lnInsertedAt (lineOf c' p))
         else lineOf c' p = lineOf c p))"
proof -
  define I where "I ys c' \<longleftrightarrow> cgeom C c' \<and> readDetect c' = readDetect c \<and>
      (\<forall>q\<in>slots C. evictAt c' q = (if q \<in> set ys then None else evictAt c q)) \<and>
      (\<forall>p\<in>ptrs C. if \<exists>q\<in>set ys. evictAt c q = Some p
         then \<not> lnValid (lineOf c' p) \<and> \<not> lnDirty (lineOf c' p) \<and> P (lnInsertedAt (lineOf c' p))
         else lineOf c' p = lineOf c p)" for ys c'
  have "on_ok (evictCache C t True c) (I (ioPositions C))"
    unfolding evictCache_def
  proof (rule foldR_on_ok_prefix)
    show "I [] c" using g by (simp add: I_def)
    fix ys q zs c' assume xs: "ioPositions C = ys @ q # zs" and I: "I ys c'"
    then have q: "q \<in> slots C" by (metis in_set_conv_decomp set_ioPositions)
    have v: "victims C c' \<subseteq> ptrs C" using I g(2) by (fastforce simp: I_def victims_def split: if_splits)
    have "cgeom C c'" using I by (simp add: I_def)
    from evictOne_ok [OF this q v, of P, OF P(1) P(2)] show "on_ok (evictOne C t True q c') (I (ys @ [q]))"
    proof (rule on_ok_mono)
      fix c'' assume A: "cgeom C c'' \<and> readDetect c'' = readDetect c' \<and>
        (\<forall>q'\<in>slots C. evictAt c'' q' = (if q' = q then None else evictAt c' q')) \<and>
        (\<forall>p\<in>ptrs C. if evictAt c' q = Some p
           then \<not> lnValid (lineOf c'' p) \<and> \<not> lnDirty (lineOf c'' p) \<and> P (lnInsertedAt (lineOf c'' p))
           else lineOf c'' p = lineOf c' p)"
      have L: "if \<exists>q\<in>set (ys @ [q]). evictAt c q = Some p
           then \<not> lnValid (lineOf c'' p) \<and> \<not> lnDirty (lineOf c'' p) \<and> P (lnInsertedAt (lineOf c'' p))
           else lineOf c'' p = lineOf c p" if "p \<in> ptrs C" for p
      proof -
        have a: "if \<exists>q\<in>set ys. evictAt c q = Some p
           then \<not> lnValid (lineOf c' p) \<and> \<not> lnDirty (lineOf c' p) \<and> P (lnInsertedAt (lineOf c' p))
           else lineOf c' p = lineOf c p" using I that unfolding I_def by blast
        have b: "if evictAt c' q = Some p
           then \<not> lnValid (lineOf c'' p) \<and> \<not> lnDirty (lineOf c'' p) \<and> P (lnInsertedAt (lineOf c'' p))
           else lineOf c'' p = lineOf c' p" using A that by blast
        have "evictAt c' q = (if q \<in> set ys then None else evictAt c q)" using I q unfolding I_def by blast
        then show ?thesis using a b by (cases "q \<in> set ys"; cases "evictAt c q = Some p") (simp_all split: if_splits)
      qed
      show "I (ys @ [q]) c''" using A I L unfolding I_def by simp
    qed
  qed
  then show ?thesis
    by (rule on_ok_mono) (auto simp: I_def noVictims_def victims_def)
qed

section \<open>Eviction policies\<close>

text \<open>
  What the operations rely on of the two policy functions: the victim is a way of the set,
  and the preferred one of two lines is one of them.
\<close>

locale evict_policy =
  fixes C :: "'w cache_ctx"
  assumes evict_way: "0 < ccWaySize C \<Longrightarrow> on_ok (evictFunction C ls i t w) (\<lambda>(way, t', w'). way < ccWaySize C)"
    and compare_either: "fst (compareFunction C ls a b w) \<in> {a, b}"
    and compare_some: "a \<noteq> None \<or> b \<noteq> None \<Longrightarrow> fst (compareFunction C ls a b w) \<noteq> None"
begin

text \<open>The state of the read miss path while lines are claimed, relative to the state it started in.\<close>

definition claiming :: "'w cache \<Rightarrow> u64 list \<Rightarrow> (u64 \<times> line_ptr) list \<times> tick \<times> 'w cache \<Rightarrow> bool" where
  "claiming c0 ys = (\<lambda>(rl, fin, c).
     cgeom C c \<and> readDetect c = readDetect c0 \<and> victims C c \<subseteq> snd ` set rl \<and> snd ` set rl \<subseteq> ptrs C \<and>
     fst ` set rl \<subseteq> set ys \<and> distinct (map fst rl) \<and>
     (\<forall>(lca, p)\<in>set rl. fst p = calcSetIndex C lca) \<and>
     (\<forall>p\<in>ptrs C. p \<notin> snd ` set rl \<longrightarrow> lineOf c p = lineOf c0 p) \<and>
     (\<forall>p\<in>snd ` set rl. \<not> lnDirty (lineOf c p)) \<and>
     (\<forall>lca\<in>fst ` set rl. \<forall>p\<in>validLines C c0. p \<notin> snd ` set rl \<longrightarrow> lnTag (lineOf c0 p) \<noteq> lca))"

lemma claiming_step:
  assumes ok: "cctx_ok C" "placed C c0"
    and I: "claiming c0 ys (rl, fin, c)" "lca \<notin> set ys"
    and miss: "\<And>w. w < ccWaySize C \<Longrightarrow> lnValid (lineOf c (calcSetIndex C lca, w)) \<Longrightarrow> lnTag (lineOf c (calcSetIndex C lca, w)) \<noteq> lca"
    and c': "cgeom C c'" "readDetect c' = readDetect c" "cacheData c' = cacheData c"
      "victims C c' \<subseteq> insert p (victims C c)"
    and p: "p \<in> ptrs C" "fst p = calcSetIndex C lca"
    and f: "\<And>l. \<not> lnDirty (f l)"
  shows "claiming c0 (ys @ [lca]) (rl @ [(lca, p)], fin', updLine p f c')"
proof -
  have D: "lineOf c' = lineOf c" by (simp add: c'(3))
  have L: "lineOf (updLine p f c') p' = (if p' = p then f (lineOf c p) else lineOf c p')" if "p' \<in> ptrs C" for p'
    using lineOf_updLine [OF c'(1) p(1) that] by (simp add: D)
  have new: "lnTag (lineOf c0 p') \<noteq> lca" if "p' \<in> validLines C c0" "p' \<notin> insert p (snd ` set rl)" for p'
  proof (cases "fst p' = calcSetIndex C lca")
    case True
    have "p' \<in> ptrs C" using that(1) by (simp add: validLines_def)
    moreover have "lineOf c p' = lineOf c0 p'" using I(1) that(2) \<open>p' \<in> ptrs C\<close> by (simp add: claiming_def)
    ultimately show ?thesis using miss [of "snd p'"] that(1) True by (cases p') (auto simp: validLines_def in_ptrs)
  next
    case False
    then show ?thesis using ok(2) that(1) by (auto simp: placed_def)
  qed
  have clean: "\<not> lnDirty (lineOf (updLine p f c') p')" if "p' \<in> insert p (snd ` set rl)" for p'
  proof -
    have "p' \<in> ptrs C" using that p(1) I(1) by (auto simp: claiming_def)
    then show ?thesis using L [of p'] f that I(1) by (auto simp: claiming_def split: if_splits)
  qed
  have keep: "lineOf (updLine p f c') p' = lineOf c0 p'" if "p' \<in> ptrs C" "p' \<notin> insert p (snd ` set rl)" for p'
    using L [OF that(1)] that I(1) by (auto simp: claiming_def)
  have other: "lnTag (lineOf c0 p') \<noteq> l" if "l \<in> fst ` set rl" "p' \<in> validLines C c0" "p' \<notin> insert p (snd ` set rl)" for l p'
  proof -
    have "\<forall>lca\<in>fst ` set rl. \<forall>p\<in>validLines C c0. p \<notin> snd ` set rl \<longrightarrow> lnTag (lineOf c0 p) \<noteq> lca"
      using I(1) unfolding claiming_def prod.case by (elim conjE)
    moreover have "p' \<notin> snd ` set rl" using that(3) by simp
    ultimately show ?thesis using that(1,2) by blast
  qed
  have parts: "victims C c \<subseteq> snd ` set rl" "snd ` set rl \<subseteq> ptrs C" "fst ` set rl \<subseteq> set ys" "distinct (map fst rl)"
      "\<forall>(lca, p)\<in>set rl. fst p = calcSetIndex C lca" "readDetect c = readDetect c0"
    using I(1) unfolding claiming_def prod.case by - (elim conjE, assumption)+
  show ?thesis
    unfolding claiming_def prod.case
  proof (intro conjI)
    show "cgeom C (updLine p f c')" using c'(1) p(1) by (rule cgeom_updLine)
    show "readDetect (updLine p f c') = readDetect c0" using c'(2) parts by simp
    show "victims C (updLine p f c') \<subseteq> snd ` set (rl @ [(lca, p)])" using c'(4) parts(1) by auto
    show "snd ` set (rl @ [(lca, p)]) \<subseteq> ptrs C" using parts(2) p(1) by simp
    show "fst ` set (rl @ [(lca, p)]) \<subseteq> set (ys @ [lca])" using parts(3) by auto
    show "distinct (map fst (rl @ [(lca, p)]))" using parts(3,4) I(2) by auto
    show "\<forall>(lca, p)\<in>set (rl @ [(lca, p)]). fst p = calcSetIndex C lca" using parts(5) p(2) by simp
    show "\<forall>p'\<in>ptrs C. p' \<notin> snd ` set (rl @ [(lca, p)]) \<longrightarrow> lineOf (updLine p f c') p' = lineOf c0 p'" using keep by simp
    show "\<forall>p'\<in>snd ` set (rl @ [(lca, p)]). \<not> lnDirty (lineOf (updLine p f c') p')" using clean by auto
    show "\<forall>l\<in>fst ` set (rl @ [(lca, p)]). \<forall>p'\<in>validLines C c0. p' \<notin> snd ` set (rl @ [(lca, p)]) \<longrightarrow> lnTag (lineOf c0 p') \<noteq> l"
    proof (intro ballI impI)
      fix l p' assume A: "l \<in> fst ` set (rl @ [(lca, p)])" "p' \<in> validLines C c0" "p' \<notin> snd ` set (rl @ [(lca, p)])"
      then have "p' \<notin> insert p (snd ` set rl)" by simp
      moreover have "l = lca \<or> l \<in> fst ` set rl" using A(1) by auto
      ultimately show "lnTag (lineOf c0 p') \<noteq> l" using new other A(2) by metis
    qed
  qed
qed

lemma claimLine_ok:
  assumes ok: "cctx_ok C" "placed C c0" and I: "claiming c0 ys st" "lca \<notin> set ys"
  shows "on_ok (claimLine C t lca st) (claiming c0 (ys @ [lca]))"
proof -
  obtain rl fin c where st: "st = (rl, fin, c)" by (cases st)
  have g: "cgeom C c" using I by (simp add: st claiming_def)
  let ?i = "calcSetIndex C lca"
  have i: "?i < ccSetSize C" using ok(1) by (rule calcSetIndex_less)
  obtain w b where vw: "getValidWay C lca t c = (w, b)" by fastforce
  obtain e b2 where ew: "getEmptyWay C ?i b c = (e, b2)" by fastforce
  from g ok(1) show ?thesis
  proof (cases rule: getValidWay_cases [where lca = lca and t = t])
    case (hit w')
    then have "claimLine C t lca st = Inr st" by (simp add: claimLine_def st vw)
    moreover have "claiming c0 (ys @ [lca]) st" using I(1) unfolding st claiming_def by auto
    ultimately show ?thesis by simp
  next
    case miss
    note step = claiming_step [OF ok I(1) [unfolded st] I(2) miss(2)]
    have w: "w = ccWaySize C" using miss(1) vw by simp
    from g i show ?thesis
    proof (cases rule: getEmptyWay_cases [where t = b])
      case (found w')
      then have e: "e < ccWaySize C" using ew by simp
      have "claiming c0 (ys @ [lca]) (rl @ [(lca, (?i, e))], fin', updLine (?i, e) (\<lambda>l. l\<lparr>lnInsertedAt := x, lnLastAccessed := x,
          lnValid := True, lnDirty := False\<rparr>) c)" for x fin'
        using g e i by (intro step) (auto simp: in_ptrs)
      then show ?thesis using w e by (simp add: claimLine_def st vw ew Let_def)
    next
      case none
      then have e: "e = ccWaySize C" using ew by simp
      have way: "0 < ccWaySize C" using ok(1) by (simp add: cctx_ok_def)
      have "claiming c0 (ys @ [lca]) (rl @ [(lca, (?i, v))], fin', updLine (?i, v) (\<lambda>l. l\<lparr>lnInsertedAt := x, lnLastAccessed := x,
          lnValid := True, lnDirty := False\<rparr>) c')"
        if v: "v < ccWaySize C" and c': "c' = (if b then setEvict (calcIOPosition C u) (Some (?i, v)) (c\<lparr>cworld := w'\<rparr>) else c\<lparr>cworld := w'\<rparr>)"
        for x fin' v c' w' u b
      proof -
        have s: "calcIOPosition C u \<in> slots C" using ok(1) by (rule calcIOPosition_slot)
        have "cgeom C c'" using g s unfolding c' by auto
        moreover have "victims C c' \<subseteq> insert (?i, v) (victims C c)"
          using victims_setEvict [of C "c\<lparr>cworld := w'\<rparr>" "calcIOPosition C u" "Some (?i, v)"] g s unfolding c' by auto
        moreover have "cacheData c' = cacheData c" "readDetect c' = readDetect c" unfolding c' by simp_all
        ultimately show ?thesis using v i by (intro step) (auto simp: in_ptrs)
      qed
      then show ?thesis
        using evict_way [OF way, of "cacheData c" ?i b2 "cworld c"] w e
        by (auto simp: claimLine_def st vw ew on_ok_bindR Let_def elim!: on_ok_mono)
    qed
  qed
qed

text \<open>The fill loop, over the lines \<open>rl\<close> claimed in the state \<open>c1\<close> after the eviction.\<close>

definition filling :: "'w cache \<Rightarrow> line_ptr set \<Rightarrow> (u64 \<times> line_ptr) list \<Rightarrow> tick \<times> 'w cache \<Rightarrow> bool" where
  "filling c1 F ys = (\<lambda>(fin, c). cgeom C c \<and> readDetect c = readDetect c1 \<and> noVictims C c \<and>
     (\<forall>p\<in>ptrs C. p \<notin> F \<longrightarrow> lineOf c p = lineOf c1 p) \<and>
     (\<forall>p\<in>snd ` set ys. (lnTag (lineOf c p), p) \<in> set ys))"

lemma fillLine_ok:
  assumes I: "filling c1 F ys st" and x: "x = (lca, p)" "p \<in> ptrs C" "p \<in> F" and ys: "snd ` set ys \<subseteq> ptrs C"
  shows "on_ok (fillLine C req target t x st) (filling c1 F (ys @ [x]))"
proof -
  obtain fin c where st: "st = (fin, c)" by (cases st)
  let ?f = "\<lambda>b l. l\<lparr>lnInsertedAt := b, lnLastAccessed := b, lnTag := lca\<rparr>"
  have step: "filling c1 F (ys @ [x]) (fin', updLine p (?f b) (c\<lparr>cworld := w\<rparr>))" for fin' b w
  proof -
    let ?c = "updLine p (?f b) (c\<lparr>cworld := w\<rparr>)"
    have g: "cgeom C (c\<lparr>cworld := w\<rparr>)" using I by (simp add: filling_def st)
    have L: "lineOf ?c p' = (if p' = p then ?f b (lineOf c p) else lineOf c p')" if "p' \<in> ptrs C" for p'
      using lineOf_updLine [OF g x(2) that] by simp
    have "(lnTag (lineOf ?c p'), p') \<in> set (ys @ [x])" if "p' \<in> snd ` set (ys @ [x])" for p'
    proof (cases "p' = p")
      case True
      then show ?thesis using L [OF x(2)] by (simp add: x(1))
    next
      case False
      then have "p' \<in> snd ` set ys" using that by (auto simp: x(1))
      moreover have "lineOf ?c p' = lineOf c p'" using L [of p'] False calculation ys by auto
      moreover have "\<forall>p\<in>snd ` set ys. (lnTag (lineOf c p), p) \<in> set ys" using I unfolding st filling_def prod.case by (elim conjE)
      ultimately have "(lnTag (lineOf ?c p'), p') \<in> set ys" by (metis (no_types))
      then show ?thesis by simp
    qed
    moreover have "lineOf ?c p' = lineOf c1 p'" if "p' \<in> ptrs C" "p' \<notin> F" for p'
      using L [OF that(1)] that x(3) I by (auto simp: filling_def st)
    moreover have "cgeom C ?c" using g x(2) by (rule cgeom_updLine)
    ultimately show ?thesis using I by (simp add: filling_def st)
  qed
  then show ?thesis
    by (auto simp: fillLine_def st x(1) ftlRead_def cdramWrite_def on_ok_bindR Let_def split: prod.splits intro!: on_okI)
qed

lemma distinct_addresses: "distinct (addresses a b)"
proof -
  have "inj_on (word_of_nat :: nat \<Rightarrow> u64) {unat a..<unat b}"
  proof (rule inj_onI)
    fix x y assume "x \<in> {unat a..<unat b}" "y \<in> {unat a..<unat b}" and e: "(word_of_nat x :: u64) = word_of_nat y"
    then have "x < 2 ^ 64" "y < 2 ^ 64" using unsigned_less [where ?'a = nat, of b] by simp_all
    then show "x = y" using arg_cong [OF e, of unat] by (simp add: unat_of_nat)
  qed
  then show ?thesis by (simp add: addresses_def distinct_map)
qed

text \<open>After the fill: the claimed lines hold the addresses they were claimed for, the others are as before.\<close>

lemma filled_placed:
  assumes ok: "placed C c0" and I: "claiming c0 ys (rl, fin, c)" and F: "filling c1 (snd ` set rl) rl (fin', c2)"
    and keep: "\<And>p. p \<in> ptrs C \<Longrightarrow> p \<notin> snd ` set rl \<Longrightarrow> lineOf c1 p = lineOf c p"
  shows "placed C c2"
proof -
  let ?F = "snd ` set rl"
  have in_F: "(lnTag (lineOf c2 p), p) \<in> set rl" if "p \<in> ?F" for p using F that by (auto simp: filling_def)
  have out: "lineOf c2 p = lineOf c0 p" if "p \<in> ptrs C" "p \<notin> ?F" for p
  proof -
    have "lineOf c2 p = lineOf c1 p" using F that unfolding filling_def by blast
    also have "\<dots> = lineOf c p" using keep that .
    also have "\<dots> = lineOf c0 p" using I that unfolding claiming_def by blast
    finally show ?thesis .
  qed
  have val: "p \<in> validLines C c0" if "p \<in> validLines C c2" "p \<notin> ?F" for p
    using out [of p] that by (simp add: validLines_def)
  have "calcSetIndex C (lnTag (lineOf c2 p)) = fst p" if "p \<in> validLines C c2" for p
  proof (cases "p \<in> ?F")
    case True
    then show ?thesis using in_F [OF True] I by (auto simp: claiming_def)
  next
    case False
    have "p \<in> ptrs C" using that by (simp add: validLines_def)
    moreover have "\<forall>p\<in>validLines C c0. calcSetIndex C (lnTag (lineOf c0 p)) = fst p" using ok unfolding placed_def by (elim conjE)
    ultimately show ?thesis using val [OF that False] out [of p] False by simp
  qed
  moreover have mixed: "False" if "a \<in> ?F" "b \<in> validLines C c2" "b \<notin> ?F" "lnTag (lineOf c2 a) = lnTag (lineOf c2 b)" for a b
  proof -
    have "lnTag (lineOf c2 a) \<in> fst ` set rl" using in_F [OF that(1)] by force
    then have "lnTag (lineOf c0 b) \<noteq> lnTag (lineOf c2 a)" using I val [OF that(2,3)] that(3) unfolding claiming_def by blast
    then show False using out [of b] that by (simp add: validLines_def)
  qed
  moreover have "a = b" if "a \<in> validLines C c2" "b \<in> validLines C c2" "lnTag (lineOf c2 a) = lnTag (lineOf c2 b)" for a b
  proof (cases "a \<in> ?F \<or> b \<in> ?F")
    case True
    then have "a \<in> ?F" "b \<in> ?F" using mixed that by metis+
    then have "(lnTag (lineOf c2 a), a) \<in> set rl" "(lnTag (lineOf c2 a), b) \<in> set rl" using in_F that(3) by metis+
    moreover have "distinct (map fst rl)" using I by (simp add: claiming_def)
    ultimately show ?thesis using eq_key_imp_eq_value by metis
  next
    case False
    then have v: "a \<in> validLines C c0" "b \<in> validLines C c0" using val that by auto
    then have "a \<in> ptrs C" "b \<in> ptrs C" by (simp_all add: validLines_def)
    then have "lnTag (lineOf c0 a) = lnTag (lineOf c0 b)" using out False that(3) by simp
    moreover have "inj_on (\<lambda>p. lnTag (lineOf c0 p)) (validLines C c0)" using ok unfolding placed_def by (elim conjE)
    ultimately show ?thesis using v by (simp add: inj_onD)
  qed
  ultimately show ?thesis unfolding placed_def inj_on_def by blast
qed

lemma fillPhase_inv:
  assumes p0: "placed C c0" and I: "claiming c0 ys (rl, t1, c1)"
  shows "on_ok (bindR (evictCache C t1 True c1) (\<lambda>c. bindR (foldR (fillLine C r target t1) rl (t1, c)) (\<lambda>(t, c).
      if sdEnabled (readDetect c) then Inr (cdramScheduling C True c, if ret then arrived else t) else Inr (c, t))))
    (\<lambda>(c', t'). cache_inv C c')"
proof -
  have v: "cgeom C c1" "victims C c1 \<subseteq> snd ` set rl" "snd ` set rl \<subseteq> ptrs C" using I by (simp_all add: claiming_def)
  then have "victims C c1 \<subseteq> ptrs C" by blast
  from evictCache_ok [OF v(1) this, of "\<lambda>_. True" t1] show ?thesis
    unfolding on_ok_bindR
  proof (rule on_ok_mono)
    fix c2 assume E: "cgeom C c2 \<and> readDetect c2 = readDetect c1 \<and> noVictims C c2 \<and>
      (\<forall>p\<in>ptrs C. if p \<in> victims C c1
         then \<not> lnValid (lineOf c2 p) \<and> \<not> lnDirty (lineOf c2 p) \<and> True else lineOf c2 p = lineOf c1 p)"
    have keep: "lineOf c2 p = lineOf c1 p" if "p \<in> ptrs C" "p \<notin> snd ` set rl" for p
    proof -
      have "p \<notin> victims C c1" using that(2) v(2) by blast
      then show ?thesis using E that(1) by simp
    qed
    have "filling c2 (snd ` set rl) [] (t1, c2)" using E by (simp add: filling_def)
    then have "on_ok (foldR (fillLine C r target t1) rl (t1, c2)) (filling c2 (snd ` set rl) rl)"
    proof (rule foldR_on_ok_prefix)
      fix ys x zs st assume A: "rl = ys @ x # zs" "filling c2 (snd ` set rl) ys st"
      show "on_ok (fillLine C r target t1 x st) (filling c2 (snd ` set rl) (ys @ [x]))"
        using A(1) v(3) by (intro fillLine_ok [OF A(2), of x "fst x" "snd x"]) auto
    qed
    then show "on_ok (foldR (fillLine C r target t1) rl (t1, c2)) (\<lambda>x. on_ok (case x of (t, c) \<Rightarrow>
        if sdEnabled (readDetect c) then Inr (cdramScheduling C True c, if ret then arrived else t) else Inr (c, t))
      (\<lambda>(c', t'). cache_inv C c'))"
    proof (rule on_ok_mono)
      fix x assume Fx: "filling c2 (snd ` set rl) rl x"
      obtain t3 c3 where x: "x = (t3, c3)" by (cases x)
      note F = Fx [unfolded x]
      from filled_placed [OF p0 I F keep] have "placed C c3" .
      then have "cache_inv C c3" using F by (simp add: cache_inv_def filling_def)
      then show "on_ok (case x of (t, c) \<Rightarrow>
        if sdEnabled (readDetect c) then Inr (cdramScheduling C True c, if ret then arrived else t) else Inr (c, t))
        (\<lambda>(c', t'). cache_inv C c')" by (simp add: x cdramScheduling_def)
    qed
  qed simp_all
qed

lemma claimAll_ok:
  assumes "cctx_ok C" "cache_inv C c0"
  shows "on_ok (foldR (claimLine C t) (addresses a e) ([], t, c0)) (claiming c0 (addresses a e))"
proof (rule foldR_on_ok_prefix)
  show "claiming c0 [] ([], t, c0)" using assms(2) by (auto simp: claiming_def cache_inv_def noVictims_iff)
  fix ys x zs st assume A: "addresses a e = ys @ x # zs" "claiming c0 ys st"
  have "x \<notin> set ys" using distinct_addresses [of a e] A(1) by simp
  then show "on_ok (claimLine C t x st) (claiming c0 (ys @ [x]))"
    using claimLine_ok A(2) assms by (simp add: cache_inv_def)
qed

lemma readMiss_inv:
  assumes ok: "cctx_ok C" and inv: "cache_inv C c"
  shows "on_ok (readMiss C req ret arrived t c) (\<lambda>(c', t'). cache_inv C c')"
proof -
  obtain e c0 where ra: "readAhead C (slpn (icRange req)) c = (e, c0)" by fastforce
  have c0: "cache_inv C c0" using ra inv by (auto simp: readAhead_def cdramScheduling_def Let_def split: if_splits)
  then have p0: "placed C c0" by (simp add: cache_inv_def)
  show ?thesis
    unfolding readMiss_def Let_def ra prod.case on_ok_bindR [of "foldR (claimLine C t) _ _"]
  proof (rule on_ok_mono [OF claimAll_ok [OF ok c0]])
    fix x assume I: "claiming c0 (addresses (slpn (icRange req)) e) x"
    obtain rl t1 c1 where x: "x = (rl, t1, c1)" by (cases x)
    show "on_ok (case x of (readList, t, c) \<Rightarrow> bindR (evictCache C t True c) (\<lambda>c.
        bindR (foldR (fillLine C (FTL_Request_icl (ccLineCountInSuperPage C) req) (slpn (icRange req)) t) readList (t, c)) (\<lambda>(t, c).
          if sdEnabled (readDetect c) then Inr (cdramScheduling C True c, if ret then arrived else t) else Inr (c, t))))
      (\<lambda>(c', t'). cache_inv C c')"
      unfolding x prod.case by (rule fillPhase_inv [OF p0 I [unfolded x]])
  qed
qed

lemma touch_inv:
  assumes "cache_inv C c" "p \<in> ptrs C"
    and "\<And>l. lnTag (f l) = lnTag l" "\<And>l. lnValid (f l) \<Longrightarrow> lnValid l"
  shows "cache_inv C (updLine p f c)"
  using assms placed_updLine_keep [of C c p f] by (auto simp: cache_inv_def)

lemma read_inv:
  assumes ok: "cctx_ok C" and inv: "cache_inv C c"
  shows "on_ok (GenericCache_read C req t c) (\<lambda>(ret, c', t'). cache_inv C c')"
proof (cases "ccUseReadCaching C")
  case False
  then show ?thesis using inv
    by (auto simp: GenericCache_read_def cdramWrite_def ftlRead_def countRead_def on_ok_bindR Let_def split: prod.splits intro!: on_okI)
next
  case True
  define c1 where "c1 = (if ccUseReadPrefetch C then c\<lparr>readDetect := checkSequential C req (readDetect c)\<rparr> else c)"
  have c1: "cache_inv C c1" using inv by (simp add: c1_def)
  let ?lca = "slpn (icRange req)"
  obtain w b where vw: "getValidWay C ?lca t c1 = (w, b)" by fastforce
  have fin: "on_ok m (\<lambda>(ret, c', t'). cache_inv C c') \<Longrightarrow>
    on_ok (bindR m (\<lambda>(ret, c, t). let (c, t) = caddLatency C FN_READ t c in Inr (ret, countRead ret c, t)))
      (\<lambda>(ret, c', t'). cache_inv C c')" for m
    by (cases m) (auto simp: caddLatency_def countRead_def Let_def split: prod.splits)
  have R: "GenericCache_read C req t c = bindR
              (if w \<noteq> ccWaySize C then
                 (let b2 = cMAX (lnInsertedAt (lineOf c1 (calcSetIndex C ?lca, w))) b;
                      c = updLine (calcSetIndex C ?lca, w) (\<lambda>l. l\<lparr>lnLastAccessed := b2\<rparr>) c1;
                      (c, t) = cdramRead C (icLength req) b2 c
                  in if ccUseReadPrefetch C \<and> ?lca = prefetchTrigger c then
                       bindR (readMiss C (req\<lparr>icRange := (icRange req)\<lparr>slpn := lastPrefetched c\<rparr>\<rparr>) True t b c)
                         (\<lambda>(c, t). Inr (True, c, t))
                     else Inr (True, c, t))
               else bindR (readMiss C req False b b c1) (\<lambda>(c, t). Inr (False, c, t)))
              (\<lambda>(ret, c, t). let (c, t) = caddLatency C FN_READ t c in Inr (ret, countRead ret c, t))"
    using True by (simp add: GenericCache_read_def c1_def [symmetric] vw Let_def)
  have g: "cgeom C c1" using c1 by (simp add: cache_inv_def)
  have miss: "on_ok (bindR (readMiss C r ret a t' c') (\<lambda>(c, t). Inr (ret, c, t))) (\<lambda>(ret, c', t'). cache_inv C c')"
    if "cache_inv C c'" for r ret a t' c'
    using readMiss_inv [OF ok that, of r ret a t'] by (auto simp: on_ok_bindR elim!: on_ok_mono)
  from g ok show ?thesis
  proof (cases rule: getValidWay_cases [where lca = ?lca and t = t])
    case (hit v)
    then have "(calcSetIndex C ?lca, w) \<in> ptrs C" using vw calcSetIndex_less [OF ok] by (simp add: in_ptrs)
    then have touched: "cache_inv C (updLine (calcSetIndex C ?lca, w) (\<lambda>l. l\<lparr>lnLastAccessed := x\<rparr>) c1)" for x
      using c1 by (intro touch_inv) auto
    define b2 where "b2 = cMAX (lnInsertedAt (lineOf c1 (calcSetIndex C ?lca, w))) b"
    obtain c2 t2 where dr: "cdramRead C (icLength req) b2 (updLine (calcSetIndex C ?lca, w) (\<lambda>l. l\<lparr>lnLastAccessed := b2\<rparr>) c1) = (c2, t2)"
      by fastforce
    then have "cache_inv C c2" using touched [of b2] by (auto simp: cdramRead_def Let_def split: prod.splits)
    then show ?thesis
      using miss [of c2] hit vw unfolding R b2_def [symmetric]
      by (simp only: Let_def dr prod.case) (rule fin [unfolded Let_def], auto)
  next
    case miss': miss
    then show ?thesis using miss [OF c1] vw unfolding R by (intro fin) auto
  qed
qed

text \<open>Collecting victims only moves pointers to valid lines.\<close>

definition collecting :: "'w cache \<Rightarrow> 'w cache \<Rightarrow> bool" where
  "collecting c0 c \<longleftrightarrow> cgeom C c \<and> cacheData c = cacheData c0 \<and> victims C c \<subseteq> validLines C c0"

lemma collecting_step:
  assumes "collecting c0 c" "q \<in> slots C" "set_option v \<subseteq> validLines C c0"
  shows "collecting c0 (setEvict q v (c\<lparr>cworld := w\<rparr>))"
proof -
  have "cgeom C (c\<lparr>cworld := w\<rparr>)" using assms(1) by (simp add: collecting_def)
  from victims_setEvict [OF this assms(2), of v] cgeom_setEvict [OF this assms(2), of v] show ?thesis
    using assms(1,3) by (auto simp: collecting_def)
qed

lemma evictAt_victims: "q \<in> slots C \<Longrightarrow> set_option (evictAt c q) \<subseteq> victims C c"
  by (fastforce simp: victims_def)

lemma compare_sub: "set_option (fst (compareFunction C ls a b w)) \<subseteq> set_option a \<union> set_option b"
  using compare_either [of ls a b w] by auto

lemma collectVictim_ok:
  assumes "cctx_ok C" "collecting c0 c" "p \<in> ptrs C"
  shows "collecting c0 (collectVictim C p c)"
proof (cases "lnValid (lineOf c p)")
  case True
  let ?q = "calcIOPosition C (lnTag (lineOf c p))"
  have q: "?q \<in> slots C" using assms(1) by (rule calcIOPosition_slot)
  have "p \<in> validLines C c0" using True assms by (simp add: validLines_def collecting_def)
  then have "set_option (fst (compareFunction C (cacheData c) (evictAt c ?q) (Some p) (cworld c))) \<subseteq> validLines C c0"
    using compare_sub [of "cacheData c" "evictAt c ?q" "Some p" "cworld c"] evictAt_victims [OF q, of c] assms(2)
    unfolding collecting_def by auto
  from collecting_step [OF assms(2) q this] show ?thesis using True by (simp add: collectVictim_def Let_def split_beta)
next
  case False
  then show ?thesis using assms(2) by (simp add: collectVictim_def)
qed

lemma mergeVictim_ok:
  assumes "collecting c0 c" "q \<in> slots C" "(fst q, Suc (snd q)) \<in> slots C"
  shows "collecting c0 (mergeVictim C q c)"
proof -
  let ?q = "(fst q, Suc (snd q))"
  let ?v = "compareFunction C (cacheData c) (evictAt c q) (evictAt c ?q) (cworld c)"
  have "set_option (fst ?v) \<subseteq> validLines C c0"
    using compare_sub [of "cacheData c" "evictAt c q" "evictAt c ?q" "cworld c"]
      evictAt_victims [OF assms(2), of c] evictAt_victims [OF assms(3), of c] assms(1) unfolding collecting_def by blast
  from collecting_step [OF assms(1,3) this] have "collecting c0 (setEvict ?q (fst ?v) (c\<lparr>cworld := snd ?v\<rparr>))" .
  from collecting_step [OF this assms(2), of None "snd ?v"] show ?thesis
    by (simp add: mergeVictim_def Let_def split_beta setEvict_def)
qed

lemma chooseVictims_ok:
  assumes "cctx_ok C" "cache_inv C c"
  shows "collecting c (mergeVictims C (collectVictims C c))"
proof -
  have "collecting c c" using assms(2) by (simp add: collecting_def cache_inv_def noVictims_iff)
  then have "collecting c (collectVictims C c)"
    unfolding collectVictims_def
    by (rule fold_invariant [of "linePtrs C" "\<lambda>p. p \<in> ptrs C", rotated]) (auto intro: collectVictim_ok [OF assms(1)])
  then show ?thesis
    unfolding mergeVictims_def
    by (auto intro!: fold_invariant [where Q = "\<lambda>q. q \<in> slots C \<and> (fst q, Suc (snd q)) \<in> slots C" and P = "collecting c"]
        intro: mergeVictim_ok simp: slots_def)
qed

lemma pickInSet_ok:
  assumes "i < ccSetSize C"
  shows "set_option (fst (pickInSet C i c)) \<subseteq> {p \<in> validLines C c. fst p = i}"
    and "fst (pickInSet C i c) = None \<Longrightarrow> j < ccWaySize C \<Longrightarrow> \<not> lnValid (lineOf c (i, j))"
proof -
  define g where "g = (\<lambda>way (v, w). if lnValid (lineOf c (i, way)) then compareFunction C (cacheData c) v (Some (i, way)) w else (v, w))"
  have sub: "set_option (fst (fold g xs (v, w))) \<subseteq> {p \<in> validLines C c. fst p = i}"
    if "\<forall>x\<in>set xs. x < ccWaySize C" "set_option v \<subseteq> {p \<in> validLines C c. fst p = i}" for xs v w
    using that
  proof (induction xs arbitrary: v w)
    case (Cons x xs)
    obtain v' w' where g: "g x (v, w) = (v', w')" by fastforce
    have x: "lnValid (lineOf c (i, x)) \<Longrightarrow> (i, x) \<in> validLines C c" using Cons.prems(1) assms by (simp add: validLines_def in_ptrs)
    have "set_option v' \<subseteq> {p \<in> validLines C c. fst p = i}"
      using g x Cons.prems(2) compare_sub [of "cacheData c" v "Some (i, x)" w] by (auto simp: g_def split: if_splits)
    then show ?case using Cons.IH Cons.prems(1) g by simp
  qed simp
  have none: "v = None \<and> (\<forall>x\<in>set xs. \<not> lnValid (lineOf c (i, x)))" if "fst (fold g xs (v, w)) = None" for xs v w
    using that
  proof (induction xs arbitrary: v w)
    case (Cons x xs)
    obtain v' w' where g: "g x (v, w) = (v', w')" by fastforce
    have "v' = None \<and> (\<forall>x\<in>set xs. \<not> lnValid (lineOf c (i, x)))" using Cons.IH [of v' w'] Cons.prems g by simp
    moreover have "\<not> lnValid (lineOf c (i, x)) \<and> v = None" if "v' = None"
      using g that compare_some [of v "Some (i, x)" "cacheData c" w] by (auto simp: g_def split: if_splits)
    ultimately show ?case by simp
  qed simp
  have P: "pickInSet C i c = fold g [0..<ccWaySize C] (None, cworld c)" by (simp add: pickInSet_def g_def)
  show "set_option (fst (pickInSet C i c)) \<subseteq> {p \<in> validLines C c. fst p = i}" unfolding P by (rule sub) simp_all
  show "\<not> lnValid (lineOf c (i, j))" if "fst (pickInSet C i c) = None" "j < ccWaySize C"
    using none [OF that(1) [unfolded P]] that(2) by simp
qed

text \<open>Whatever the policy, a full set gets a victim.\<close>

lemma ensureVictim_ok:
  assumes ok: "cctx_ok C" "placed C c0" "collecting c0 c" and i: "i < ccSetSize C"
  shows "collecting c0 (ensureVictim C i c)"
    and "j < ccWaySize C \<Longrightarrow> lnValid (lineOf c0 (i, j)) \<Longrightarrow> \<exists>p\<in>victims C (ensureVictim C i c). fst p = i"
proof -
  have D: "cacheData c = cacheData c0" "validLines C c = validLines C c0" using ok(3) by (simp_all add: collecting_def validLines_def)
  obtain v w where pv: "pickInSet C i c = (v, w)" by fastforce
  note pick = pickInSet_ok [OF i, of c, unfolded pv fst_conv D(2)]
  let ?q = "\<lambda>p. calcIOPosition C (lnTag (lineOf c p))"
  have q: "?q p \<in> slots C" for p using ok(1) by (rule calcIOPosition_slot)
  have col: "collecting c0 (setEvict (?q p) (Some p) (c\<lparr>cworld := w\<rparr>))" if "v = Some p" for p
    using pick(1) that q by (intro collecting_step [OF ok(3)]) auto
  show "collecting c0 (ensureVictim C i c)"
    using ok(3) col by (auto simp: ensureVictim_def Let_def pv collecting_def split: option.splits)
  assume j: "j < ccWaySize C" "lnValid (lineOf c0 (i, j))"
  show "\<exists>p\<in>victims C (ensureVictim C i c). fst p = i"
  proof (cases "haveVictim C i c")
    case True
    then obtain q p where h: "q \<in> slots C" "evictAt c q = Some p" "calcSetIndex C (lnTag (lineOf c p)) = i"
      by (auto simp: haveVictim_def list_ex_iff split: option.splits)
    then have "p \<in> victims C c" "p \<in> validLines C c0" using ok(3) by (auto simp: victims_def collecting_def)
    moreover have "fst p = i" using ok(2) h(3) D(1) calculation(2) by (auto simp: placed_def)
    ultimately show ?thesis using True by (auto simp: ensureVictim_def)
  next
    case False
    have "v \<noteq> None" using pick(2) [of j] j unfolding D(1) by blast
    then obtain p where v: "v = Some p" by blast
    have e: "ensureVictim C i c = setEvict (?q p) (Some p) (c\<lparr>cworld := w\<rparr>)"
      using False by (simp add: ensureVictim_def pv v Let_def)
    have "evictAt (ensureVictim C i c) (?q p) = Some p"
      using ok(3) q unfolding e by (subst evictAt_setEvict [of C]) (auto simp: collecting_def)
    then have "p \<in> victims C (ensureVictim C i c)" using q [of p] unfolding victims_def by blast
    moreover have "fst p = i" using pick(1) v by simp
    ultimately show ?thesis by blast
  qed
qed

text \<open>After a forced eviction the written address is cached and the invariant holds.\<close>

lemma writeFlush_inv:
  assumes ok: "cctx_ok C" "cache_inv C c" and new: "\<not> cached C c (slpn (icRange req))"
  shows "on_ok (writeFlush C req t c) (\<lambda>(c', t'). cache_inv C c' \<and> cached C c' (slpn (icRange req)))"
proof -
  let ?lca = "slpn (icRange req)" and ?i = "calcSetIndex C (slpn (icRange req))"
  define c1 where "c1 = ensureVictim C ?i (mergeVictims C (collectVictims C c))"
  define t1 where "t1 = t + getCacheLatency C * word_of_nat (ccSetSize C) * word_of_nat (ccWaySize C) * 8"
  have i: "?i < ccSetSize C" using ok(1) by (rule calcSetIndex_less)
  have p0: "placed C c" using ok(2) by (simp add: cache_inv_def)
  have col: "collecting c c1" unfolding c1_def by (rule ensureVictim_ok(1) [OF ok(1) p0 chooseVictims_ok [OF ok] i])
  then have v: "cgeom C c1" "victims C c1 \<subseteq> ptrs C" by (auto simp: collecting_def validLines_def)
  have L1: "lineOf c1 = lineOf c" using col by (simp add: collecting_def)
  show ?thesis
    unfolding writeFlush_def Let_def c1_def [symmetric] t1_def [symmetric] on_ok_bindR
  proof (rule on_ok_mono [OF evictCache_ok [OF v, of "\<lambda>_. True" t1]])
    fix c2 assume E: "cgeom C c2 \<and> readDetect c2 = readDetect c1 \<and> noVictims C c2 \<and>
        (\<forall>p\<in>ptrs C. if p \<in> victims C c1
           then \<not> lnValid (lineOf c2 p) \<and> \<not> lnDirty (lineOf c2 p) \<and> True else lineOf c2 p = lineOf c1 p)"
    have sub: "p \<in> validLines C c \<and> lineOf c2 p = lineOf c p" if "p \<in> validLines C c2" for p
    proof -
      have p: "p \<in> ptrs C" "lnValid (lineOf c2 p)" using that by (simp_all add: validLines_def)
      then have "p \<notin> victims C c1" using E by metis
      then show ?thesis using E p L1 by (simp add: validLines_def)
    qed
    have p2: "placed C c2" using p0 sub unfolding placed_def inj_on_def by metis
    have new2: "\<not> cached C c2 ?lca" using new sub unfolding cached_def by metis
    have g2: "cgeom C c2" "noVictims C c2" using E by simp_all
    obtain e t2 where ew: "getEmptyWay C ?i t1 c2 = (e, t2)" by fastforce
    obtain w t3 where dw: "cdDramWrite (ccDev C) (cworld c2) (icLength req) t2 = (w, t3)" by fastforce
    let ?f = "\<lambda>l. l\<lparr>lnInsertedAt := t3, lnLastAccessed := t3, lnValid := True, lnDirty := True, lnTag := ?lca\<rparr>"
    let ?c = "updLine (?i, e) ?f (c2\<lparr>cworld := w\<rparr>)"
    have "cache_inv C ?c \<and> cached C ?c ?lca" if "e \<noteq> ccWaySize C"
    proof -
      have p: "(?i, e) \<in> ptrs C"
        using g2(1) i
      proof (cases rule: getEmptyWay_cases [where t = t1])
        case (found w')
        then show ?thesis using ew i by (simp add: in_ptrs)
      next
        case none
        then show ?thesis using ew that by simp
      qed
      have g: "cgeom C (c2\<lparr>cworld := w\<rparr>)" using g2 by simp
      have "placed C ?c" using g p p2 new2 by (intro placed_updLine_new [of C _ _ _ ?lca]) simp_all
      moreover have "cached C ?c ?lca"
        unfolding cached_def validLines_def using lineOf_updLine [OF g p p, of ?f] p by (intro bexI [of _ "(?i, e)"]) simp_all
      ultimately show ?thesis using g2 p by (auto simp: cache_inv_def)
    qed
    then show "on_ok (case getEmptyWay C ?i t1 c2 of (way, t) \<Rightarrow>
        if way = ccWaySize C then Inl (Panic ''Cache corrupted!'')
        else case cdramWrite C (icLength req) t c2 of (c, t) \<Rightarrow>
          Inr (updLine (?i, way) (\<lambda>l. l\<lparr>lnInsertedAt := t, lnLastAccessed := t, lnValid := True, lnDirty := True, lnTag := ?lca\<rparr>) c, t))
      (\<lambda>(c', t'). cache_inv C c' \<and> cached C c' ?lca)"
      by (simp add: ew cdramWrite_def dw)
  qed simp_all
qed

text \<open>
  The forced eviction always makes room: with an FTL that accepts every write and no line
  stamped with the largest time, the panic is not reached.
\<close>

definition evictionTick :: "u64 \<Rightarrow> tick \<Rightarrow> 'w cache \<Rightarrow> tick" where
  "evictionTick lca t c = snd (getEmptyWay C (calcSetIndex C lca) (snd (getValidWay C lca t c)) c) +
     getCacheLatency C * word_of_nat (ccSetSize C) * word_of_nat (ccWaySize C) * 8"

lemma evictCache_total:
  assumes "\<And>w r. \<exists>w' t'. cdFtlWrite (ccDev C) w r t = Inr (w', t')"
  shows "\<exists>c'. evictCache C t True c = Inr c'"
proof -
  have one: "\<exists>c'. evictOne C t b q c = Inr c'" for b q c
  proof -
    have "\<exists>c' t'. ftlWrite C r t c = Inr (c', t')" for r using assms [of "cworld c" r] by (auto simp: ftlWrite_def)
    then show ?thesis by (auto simp: evictOne_def Let_def bindR_def split: option.splits sum.splits) (metis sum.simps(4))
  qed
  have "\<exists>c'. foldR (evictOne C t True) qs c = Inr c'" for qs
    by (induction qs arbitrary: c) (use one in \<open>fastforce simp: bindR_eq_Inr\<close>)+
  then show ?thesis by (simp add: evictCache_def)
qed

lemma writeFlush_total:
  assumes ok: "cctx_ok C" "cache_inv C c" "j < ccWaySize C" "lnValid (lineOf c (calcSetIndex C (slpn (icRange req)), j))"
    and t1: "t1 = t + getCacheLatency C * word_of_nat (ccSetSize C) * word_of_nat (ccWaySize C) * 8" "t1 \<noteq> - 1"
    and ftl: "\<And>w r. \<exists>w' t'. cdFtlWrite (ccDev C) w r t1 = Inr (w', t') \<and> t' \<noteq> - 1"
  shows "\<exists>c' t'. writeFlush C req t c = Inr (c', t')"
proof -
  let ?i = "calcSetIndex C (slpn (icRange req))"
  define c1 where "c1 = ensureVictim C ?i (mergeVictims C (collectVictims C c))"
  have i: "?i < ccSetSize C" using ok(1) by (rule calcSetIndex_less)
  have p0: "placed C c" using ok(2) by (simp add: cache_inv_def)
  note ens = ensureVictim_ok [OF ok(1) p0 chooseVictims_ok [OF ok(1,2)] i]
  have "collecting c c1" unfolding c1_def by (rule ens(1))
  then have v: "cgeom C c1" "victims C c1 \<subseteq> ptrs C" by (auto simp: collecting_def validLines_def)
  obtain p where p: "p \<in> victims C c1" "fst p = ?i" unfolding c1_def using ens(2) [OF ok(3,4)] by blast
  then have pp: "p = (?i, snd p)" "snd p < ccWaySize C" using v(2) by (cases p, auto simp: in_ptrs)+
  obtain c2 where e: "evictCache C t1 True c1 = Inr c2" using evictCache_total ftl by metis
  have "t' \<noteq> - 1" if "cdFtlWrite (ccDev C) w r t1 = Inr (w', t')" for w r w' t' using ftl [of w r] that by auto
  from evictCache_ok [OF v, of "\<lambda>x. x \<noteq> - 1", OF t1(2) this] have E: "cgeom C c2"
      "\<not> lnValid (lineOf c2 p)" "lnInsertedAt (lineOf c2 p) \<noteq> - 1"
    unfolding e on_ok_Inr using p(1) v(2) by auto
  obtain w t2 where ew: "getEmptyWay C ?i t1 c2 = (w, t2)" by fastforce
  have "w \<noteq> ccWaySize C"
    using E(1) i
  proof (cases rule: getEmptyWay_cases [where t = t1])
    case (found w')
    then show ?thesis using ew by simp
  next
    case none
    then show ?thesis using E(2,3) pp by metis
  qed
  then show ?thesis
    unfolding writeFlush_def Let_def c1_def [symmetric] t1(1) [symmetric] e by (simp add: ew split_beta)
qed

lemma cachedWrite_inv:
  assumes ok: "cctx_ok C" "cache_inv C c"
  shows "on_ok (cachedWrite C req dirty flash t c) (\<lambda>(ret, c', t'). cache_inv C c' \<and> cached C c' (slpn (icRange req)))"
proof -
  let ?lca = "slpn (icRange req)" and ?i = "calcSetIndex C (slpn (icRange req))"
  have g: "cgeom C c" "placed C c" using ok(2) by (simp_all add: cache_inv_def)
  have i: "?i < ccSetSize C" using ok(1) by (rule calcSetIndex_less)
  obtain w t1 where vw: "getValidWay C ?lca t c = (w, t1)" by fastforce
  obtain e t2 where ew: "getEmptyWay C ?i t1 c = (e, t2)" by fastforce
  have hitOk: "cache_inv C (updLine (?i, w) (stampLine dirty flash x) c) \<and> cached C (updLine (?i, w) (stampLine dirty flash x) c) ?lca"
    if "w < ccWaySize C" "lnValid (lineOf c (?i, w))" "lnTag (lineOf c (?i, w)) = ?lca" for x
  proof -
    have p: "(?i, w) \<in> ptrs C" using that(1) i by (simp add: in_ptrs)
    have "cache_inv C (updLine (?i, w) (stampLine dirty flash x) c)"
      using ok(2) p by (rule touch_inv) (auto simp: stampLine_def Let_def)
    moreover have "cached C (updLine (?i, w) (stampLine dirty flash x) c) ?lca"
      unfolding cached_def validLines_def using lineOf_updLine [OF g(1) p p] that p
      by (intro bexI [of _ "(?i, w)"]) (simp_all add: stampLine_def Let_def)
    ultimately show ?thesis ..
  qed
  have emptyOk: "cache_inv C (updLine (?i, e) f c) \<and> cached C (updLine (?i, e) f c) ?lca"
    if "e < ccWaySize C" "\<not> cached C c ?lca" "\<And>l. lnTag (f l) = ?lca" "\<And>l. lnValid (f l)" for f
  proof -
    have p: "(?i, e) \<in> ptrs C" using that(1) i by (simp add: in_ptrs)
    have "placed C (updLine (?i, e) f c)" using g p that by (intro placed_updLine_new [of C _ _ _ ?lca]) simp_all
    moreover have "cached C (updLine (?i, e) f c) ?lca"
      unfolding cached_def validLines_def using lineOf_updLine [OF g(1) p p] that p by (intro bexI [of _ "(?i, e)"]) simp_all
    ultimately show ?thesis using ok(2) p by (auto simp: cache_inv_def)
  qed
  show ?thesis
    using g(1) ok(1)
  proof (cases rule: getValidWay_cases [where lca = ?lca and t = t])
    case (hit v)
    then show ?thesis using hitOk vw by (simp add: cachedWrite_def cdramWrite_def Let_def split_beta)
  next
    case miss
    then have new: "\<not> cached C c ?lca" using getValidWay_cached [OF g ok(1), of ?lca t] by simp
    show ?thesis
    proof (cases "e = ccWaySize C")
      case True
      then show ?thesis using miss vw ew writeFlush_inv [OF ok new, of t2]
        by (auto simp: cachedWrite_def Let_def on_ok_bindR elim!: on_ok_mono)
    next
      case False
      have "e < ccWaySize C"
        using g(1) i
      proof (cases rule: getEmptyWay_cases [where t = t1])
        case (found w')
        then show ?thesis using ew by simp
      next
        case none
        then show ?thesis using ew False by simp
      qed
      then show ?thesis using False miss vw ew emptyOk [OF _ new]
        by (simp add: cachedWrite_def cdramWrite_def Let_def split_beta stampLine_def)
    qed
  qed
qed

lemma write_inv:
  assumes ok: "cctx_ok C" "cache_inv C c"
  shows "on_ok (GenericCache_write C req t c)
    (\<lambda>(ret, c', t'). cache_inv C c' \<and> (ccUseWriteCaching C \<longrightarrow> cached C c' (slpn (icRange req))))"
proof -
  have w: "on_ok (ftlWrite C r t c) (\<lambda>(c', t'). cache_inv C c')" if "cache_inv C c" for r t c
    using that by (auto simp: ftlWrite_def on_ok_bindR intro!: on_okI)
  define dirty where "dirty = (icLength req < word_of_nat (ccLineSize C))"
  have first: "on_ok (if dirty then Inr (c, t) else ftlWrite C (FTL_Request_icl (ccLineCountInSuperPage C) req) t c)
      (\<lambda>(c', t'). cache_inv C c')" using ok(2) w by simp
  show ?thesis
    unfolding GenericCache_write_def Let_def dirty_def [symmetric]
  proof (subst on_ok_bindR, rule on_ok_mono [OF first], clarify)
    fix c1 flash assume c1: "cache_inv C c1"
    show "on_ok (if ccUseWriteCaching C then bindR (cachedWrite C req dirty flash t c1)
          (\<lambda>(ret, c, t). case caddLatency C FN_WRITE t c of (c, t) \<Rightarrow> Inr (ret, countWrite ret c, t))
        else bindR (if dirty then ftlWrite C (FTL_Request_icl (ccLineCountInSuperPage C) req) t c1 else Inr (c1, flash))
          (\<lambda>(c, t). case cdramRead C (icLength req) t (cdramScheduling C False c) of
             (c, t) \<Rightarrow> Inr (False, countWrite False (cdramScheduling C True c), t)))
      (\<lambda>(ret, c', t'). cache_inv C c' \<and> (ccUseWriteCaching C \<longrightarrow> cached C c' (slpn (icRange req))))"
      using cachedWrite_inv [OF ok(1) c1, of req dirty flash t] w [OF c1, unfolded split_beta] c1
      by (auto simp: on_ok_bindR caddLatency_def countWrite_def cdramRead_def cdramScheduling_def split_beta Let_def elim!: on_ok_mono)
  qed
qed

text \<open>With a cached address and no prefetching, a read returns a hit without a call to the FTL.\<close>

lemma read_hit:
  assumes "cctx_ok C" "cache_inv C c" "cached C c (slpn (icRange req))" "ccUseReadCaching C" "\<not> ccUseReadPrefetch C"
  shows "runs_to (GenericCache_read C req t c) (\<lambda>(ret, c', t'). ret)"
proof -
  have g: "cgeom C c" "placed C c" using assms(2) by (simp_all add: cache_inv_def)
  have "fst (getValidWay C (slpn (icRange req)) t c) \<noteq> ccWaySize C" using getValidWay_cached [OF g assms(1)] assms(3) by simp
  then show ?thesis using assms(4,5) by (simp add: GenericCache_read_def Let_def split_beta)
qed

text \<open>
  A read makes no FTL write: the claimed lines lose their dirty mark before the eviction looks at it.
\<close>

definition withWrite :: "('w \<Rightarrow> ftl_request \<Rightarrow> tick \<Rightarrow> ('w \<times> tick) res) \<Rightarrow> 'w cache_ctx" where
  "withWrite f = C\<lparr>ccDev := (ccDev C)\<lparr>cdFtlWrite := f\<rparr>\<rparr>"

lemma withWrite_sel:
  "ccSetSize (withWrite f) = ccSetSize C" "ccWaySize (withWrite f) = ccWaySize C" "ccLineSize (withWrite f) = ccLineSize C"
  "ccLineCountInSuperPage (withWrite f) = ccLineCountInSuperPage C" "ccLineCountInMaxIO (withWrite f) = ccLineCountInMaxIO C"
  "ccParallelIO (withWrite f) = ccParallelIO C" "ccSuperPageSize (withWrite f) = ccSuperPageSize C"
  "ccPrefetchIOCount (withWrite f) = ccPrefetchIOCount C" "ccPrefetchIORatio (withWrite f) = ccPrefetchIORatio C"
  "ccUseReadCaching (withWrite f) = ccUseReadCaching C" "ccUseReadPrefetch (withWrite f) = ccUseReadPrefetch C"
  "ccPrefetchMode (withWrite f) = ccPrefetchMode C" "ccSuperPage (withWrite f) = ccSuperPage C"
  "ccCores (withWrite f) = ccCores C" "ccCacheLatency (withWrite f) = ccCacheLatency C"
  "evictFunction (withWrite f) = evictFunction C"
  "cdFtlRead (ccDev (withWrite f)) = cdFtlRead (ccDev C)" "cdDramRead (ccDev (withWrite f)) = cdDramRead (ccDev C)"
  "cdDramWrite (ccDev (withWrite f)) = cdDramWrite (ccDev C)" "cdDramScheduling (ccDev (withWrite f)) = cdDramScheduling (ccDev C)"
  "cdApplyLatency (ccDev (withWrite f)) = cdApplyLatency (ccDev C)"
  by (simp_all add: withWrite_def)

lemma withWrite_searches:
  "getValidWay (withWrite f) = getValidWay C" "getEmptyWay (withWrite f) = getEmptyWay C"
  "calcSetIndex (withWrite f) = calcSetIndex C" "calcIOPosition (withWrite f) = calcIOPosition C"
  "ioPositions (withWrite f) = ioPositions C" "checkSequential (withWrite f) = checkSequential C"
  "ftlRead (withWrite f) = ftlRead C" "cdramRead (withWrite f) = cdramRead C" "cdramWrite (withWrite f) = cdramWrite C"
  "cdramScheduling (withWrite f) = cdramScheduling C" "caddLatency (withWrite f) = caddLatency C"
  unfolding getValidWay_def [abs_def] getEmptyWay_def [abs_def] getCacheLatency_def [abs_def] calcSetIndex_def [abs_def]
    calcIOPosition_def [abs_def] ioPositions_def [abs_def] checkSequential_def [abs_def] ftlRead_def [abs_def]
    cdramRead_def [abs_def] cdramWrite_def [abs_def] cdramScheduling_def [abs_def] caddLatency_def [abs_def] withWrite_sel
  by (rule refl)+

lemma withWrite_steps:
  "claimLine (withWrite f) = claimLine C" "fillLine (withWrite f) = fillLine C" "readAhead (withWrite f) = readAhead C"
  unfolding claimLine_def [abs_def] fillLine_def [abs_def] readAhead_def [abs_def] withWrite_sel withWrite_searches by (rule refl)+

lemmas withWrite_calls = withWrite_sel withWrite_searches withWrite_steps

lemma evictCache_clean:
  assumes "cgeom C c" "victims C c \<subseteq> ptrs C" "\<And>p. p \<in> victims C c \<Longrightarrow> \<not> lnDirty (lineOf c p)"
  shows "evictCache (withWrite f) t True c = evictCache C t True c"
proof -
  have "foldR (evictOne (withWrite f) t True) qs c = foldR (evictOne C t True) qs c" if "set qs \<subseteq> slots C" for qs
    using that assms
  proof (induction qs arbitrary: c)
    case (Cons q qs)
    have same: "evictOne (withWrite f) t True q c = evictOne C t True q c"
    proof (cases "evictAt c q")
      case (Some p)
      then have "p \<in> victims C c" using Cons.prems(1) unfolding victims_def by auto
      then have "\<not> lnDirty (lineOf c p)" by (rule Cons.prems(4))
      then show ?thesis using Some by (simp add: evictOne_def Let_def)
    qed (simp add: evictOne_def)
    have "foldR (evictOne (withWrite f) t True) qs c' = foldR (evictOne C t True) qs c'" if "evictOne C t True q c = Inr c'" for c'
    proof (rule Cons.IH)
      have q: "q \<in> slots C" using Cons.prems(1) by simp
      from evictOne_ok [OF Cons.prems(2) q Cons.prems(3), of "\<lambda>_. True" t] that
      have E: "cgeom C c'" "\<forall>q'\<in>slots C. evictAt c' q' = (if q' = q then None else evictAt c q')"
        "\<forall>p\<in>ptrs C. if evictAt c q = Some p then \<not> lnValid (lineOf c' p) \<and> \<not> lnDirty (lineOf c' p) \<and> True else lineOf c' p = lineOf c p"
        by simp_all
      have sub: "victims C c' \<subseteq> victims C c" using E(2) by (auto simp: victims_def split: if_splits)
      show "set qs \<subseteq> slots C" "cgeom C c'" "victims C c' \<subseteq> ptrs C" using Cons.prems E(1) sub by auto
      fix p assume "p \<in> victims C c'"
      then have "p \<in> ptrs C" "\<not> lnDirty (lineOf c p)" using sub Cons.prems by blast+
      then show "\<not> lnDirty (lineOf c' p)" using E(3) by metis
    qed
    then show ?case using same by (auto intro: bindR_cong)
  qed simp
  then show ?thesis by (simp add: evictCache_def withWrite_calls)
qed

lemma readMiss_no_write:
  assumes ok: "cctx_ok C" and inv: "cache_inv C c"
  shows "readMiss (withWrite f) req ret arrived t c = readMiss C req ret arrived t c"
proof -
  obtain e c0 where ra: "readAhead C (slpn (icRange req)) c = (e, c0)" by fastforce
  have c0: "cache_inv C c0" using ra inv by (auto simp: readAhead_def cdramScheduling_def Let_def split: if_splits)
  have clean: "evictCache (withWrite f) t1 True c1 = evictCache C t1 True c1"
    if "foldR (claimLine C t) (addresses (slpn (icRange req)) e) ([], t, c0) = Inr (rl, t1, c1)" for rl t1 c1
  proof -
    have I: "claiming c0 (addresses (slpn (icRange req)) e) (rl, t1, c1)"
      using on_okD [OF claimAll_ok [OF ok c0] that] .
    then have "cgeom C c1" "victims C c1 \<subseteq> snd ` set rl" "snd ` set rl \<subseteq> ptrs C" "\<forall>p\<in>snd ` set rl. \<not> lnDirty (lineOf c1 p)"
      unfolding claiming_def prod.case by - (elim conjE, assumption)+
    then show ?thesis by (intro evictCache_clean) blast+
  qed
  show ?thesis
    unfolding readMiss_def withWrite_calls Let_def ra prod.case
    by (rule bindR_cong) (auto simp: clean)
qed

lemma read_no_write:
  assumes ok: "cctx_ok C" and inv: "cache_inv C c"
  shows "GenericCache_read (withWrite f) req t c = GenericCache_read C req t c"
proof -
  let ?lca = "slpn (icRange req)"
  define c1 where "c1 = (if ccUseReadPrefetch C then c\<lparr>readDetect := checkSequential C req (readDetect c)\<rparr> else c)"
  have c1: "cache_inv C c1" using inv by (simp add: c1_def)
  obtain w b where vw: "getValidWay C ?lca t c1 = (w, b)" by fastforce
  define b2 where "b2 = cMAX (lnInsertedAt (lineOf c1 (calcSetIndex C ?lca, w))) b"
  obtain c2 t2 where dr: "cdramRead C (icLength req) b2 (updLine (calcSetIndex C ?lca, w) (\<lambda>l. l\<lparr>lnLastAccessed := b2\<rparr>) c1) = (c2, t2)"
    by fastforce
  have "cache_inv C c2" if "w \<noteq> ccWaySize C"
  proof -
    have g: "cgeom C c1" using c1 by (simp add: cache_inv_def)
    from g ok have "(calcSetIndex C ?lca, w) \<in> ptrs C"
    proof (cases rule: getValidWay_cases [where lca = ?lca and t = t])
      case (hit v)
      then show ?thesis using vw calcSetIndex_less [OF ok] by (simp add: in_ptrs)
    next
      case miss
      then show ?thesis using vw that by simp
    qed
    then have "cache_inv C (updLine (calcSetIndex C ?lca, w) (\<lambda>l. l\<lparr>lnLastAccessed := b2\<rparr>) c1)" using c1 by (intro touch_inv) auto
    then show ?thesis using dr by (auto simp: cdramRead_def Let_def split: prod.splits)
  qed
  then have "readMiss (withWrite f) r True t2 b c2 = readMiss C r True t2 b c2" if "w \<noteq> ccWaySize C" for r
    using that readMiss_no_write [OF ok] by blast
  then show ?thesis
    unfolding GenericCache_read_def withWrite_calls Let_def c1_def [symmetric] vw prod.case b2_def [symmetric] dr
    using readMiss_no_write [OF ok c1] by (auto intro: bindR_cong)
qed

end
section \<open>The policies of the code\<close>

interpretation gc: evict_policy "cacheContext g D b0" for g D b0
proof
  fix ls i t w a b
  show "on_ok (evictFunction (cacheContext g D b0) ls i t w) (\<lambda>(way, t', w'). way < ccWaySize (cacheContext g D b0))"
    if "0 < ccWaySize (cacheContext g D b0)"
    using that leastScan_bound [of 0 "ccWaySize (cacheContext g D b0)" 0 "take (ccWaySize (cacheContext g D b0)) (ls ! i)"]
    by (auto simp: cacheContext_def evictRandom_def evictLeast_def Let_def split_beta split: cache_policy.splits)
  show "fst (compareFunction (cacheContext g D b0) ls a b w) \<in> {a, b}"
    by (cases a; cases b) (auto simp: cacheContext_def Let_def split_beta split: cache_policy.splits)
  show "fst (compareFunction (cacheContext g D b0) ls a b w) \<noteq> None" if "a \<noteq> None \<or> b \<noteq> None"
    using that by (cases a; cases b) (auto simp: cacheContext_def Let_def split_beta split: cache_policy.splits)
qed

text \<open>Configurations whose sizes are positive and fit the 32-bit members.\<close>

definition icl_cfg_ok :: "icl_cfg \<Rightarrow> bool" where
  "icl_cfg_ok g \<longleftrightarrow> 0 < cgPageCountToMaxPerf g \<and> 0 < cgIoUnitInPage g \<and>
     cgPageCountToMaxPerf g * cgIoUnitInPage g < 2 ^ 32 \<and> cgIoUnitInPage g \<le> cgPageSize g \<and> cgCacheSize g < 2 ^ 32"

lemma cacheContext_ok: "icl_cfg_ok g \<Longrightarrow> cctx_ok (cacheContext g D b0)"
proof -
  assume g: "icl_cfg_ok g"
  have m: "0 < max n (Suc 0) mod 4294967296" if "n \<le> cgCacheSize g" for n
    using that g by (simp add: icl_cfg_ok_def max_def)
  have d: "cgCacheSize g div k \<le> cgCacheSize g" "cgCacheSize g div k div j \<le> cgCacheSize g" for k j
    by (meson div_le_dividend order_trans)+
  have "1 * cgIoUnitInPage g \<le> cgPageCountToMaxPerf g * cgIoUnitInPage g" using g by (intro mult_le_mono1) (auto simp: icl_cfg_ok_def)
  also have "\<dots> < 2 ^ 32" using g unfolding icl_cfg_ok_def by (elim conjE)
  finally have "cgIoUnitInPage g < 2 ^ 32" by simp
  then show ?thesis
    using g d unfolding cctx_ok_def cacheContext_def cacheSizes_def Let_def prod.case
    by (auto simp: icl_cfg_ok_def intro!: m)
qed

lemma GenericCache_new_inv:
  assumes "cgReadCache g \<or> cgWriteCache g" "cgPolicy g \<noteq> CPOLICY_INVALID"
  obtains c where "GenericCache_new g D b0 c0 = Inr (cacheContext g D b0, c)" "cache_inv (cacheContext g D b0) c" "cworld c = cworld c0"
    "validLines (cacheContext g D b0) c = {}"
proof -
  define C where "C = cacheContext g D b0"
  define c where "c = c0\<lparr>cacheData := replicate (ccSetSize C) (replicate (ccWaySize C) Line_new),
                evictData := replicate (ccLineCountInSuperPage C) (replicate (ccParallelIO C) None),
                readDetect := SequentialDetect_new, prefetchTrigger := - 1, statRequest := (0, 0), statCache := (0, 0)\<rparr>"
  have new: "GenericCache_new g D b0 c0 = Inr (C, c)" using assms by (auto simp: GenericCache_new_def C_def c_def Let_def)
  have no: "validLines C c = {}" by (auto simp: validLines_def c_def lineAt_def ptrs_def Line_new_def)
  have "cgeom C c" by (simp add: cgeom_def c_def)
  moreover have "noVictims C c" by (auto simp: noVictims_def evictAt_def c_def slots_def)
  ultimately have "cache_inv C c" using no by (simp add: cache_inv_def placed_def)
  with new no that show thesis by (simp add: C_def c_def)
qed

section \<open>Flush, trim and format\<close>

text \<open>The lines \<open>ps\<close> have been visited: those in the range are invalid, nothing else changed.\<close>

definition dropped :: "'w cache_ctx \<Rightarrow> lpn_range \<Rightarrow> 'w cache \<Rightarrow> line_ptr set \<Rightarrow> 'w cache \<Rightarrow> bool" where
  "dropped C rng c ps c' \<longleftrightarrow> cgeom C c' \<and> noVictims C c' \<and>
     (\<forall>p\<in>ptrs C. lineOf c' p = (if p \<in> ps \<and> inRange rng (lnTag (lineOf c p)) then (lineOf c p)\<lparr>lnValid := False\<rparr> else lineOf c p))"

lemma dropped_frame [simp]: "dropped C rng c ps (c'\<lparr>cworld := w\<rparr>) = dropped C rng c ps c'"
  by (simp add: dropped_def)

lemma dropped_tag: "dropped C rng c ps c' \<Longrightarrow> p \<in> ptrs C \<Longrightarrow> lnTag (lineOf c' p) = lnTag (lineOf c p) \<and> lnDirty (lineOf c' p) = lnDirty (lineOf c p)"
  by (simp add: dropped_def)

lemma dropped_in:
  assumes "dropped C rng c ps c'" "p \<in> ptrs C" "inRange rng (lnTag (lineOf c p))"
  shows "dropped C rng c (insert p ps) (updLine p (\<lambda>l. l\<lparr>lnValid := False\<rparr>) c')"
proof -
  have g: "cgeom C c'" using assms(1) by (simp add: dropped_def)
  have "lineOf (updLine p (\<lambda>l. l\<lparr>lnValid := False\<rparr>) c') p' =
      (if p' \<in> insert p ps \<and> inRange rng (lnTag (lineOf c p')) then (lineOf c p')\<lparr>lnValid := False\<rparr> else lineOf c p')" if "p' \<in> ptrs C" for p'
    using lineOf_updLine [OF g assms(2) that, of "\<lambda>l. l\<lparr>lnValid := False\<rparr>"] assms that by (auto simp: dropped_def)
  then show ?thesis using assms(1,2) g unfolding dropped_def by auto
qed

lemma dropped_out: "dropped C rng c ps c' \<Longrightarrow> \<not> inRange rng (lnTag (lineOf c p)) \<Longrightarrow> dropped C rng c (insert p ps) c'"
  by (auto simp: dropped_def)

lemma dropped_inv:
  assumes "dropped C rng c (ptrs C) c'" "cache_inv C c"
  shows "cache_inv C c'" "validLines C c' = {p \<in> validLines C c. \<not> inRange rng (lnTag (lineOf c p))}"
proof -
  show v: "validLines C c' = {p \<in> validLines C c. \<not> inRange rng (lnTag (lineOf c p))}"
  proof (rule set_eqI)
    fix p
    show "p \<in> validLines C c' \<longleftrightarrow> p \<in> {p \<in> validLines C c. \<not> inRange rng (lnTag (lineOf c p))}"
    proof (cases "p \<in> ptrs C")
      case True
      then have "lineOf c' p = (if inRange rng (lnTag (lineOf c p)) then (lineOf c p)\<lparr>lnValid := False\<rparr> else lineOf c p)"
        using assms(1) by (simp add: dropped_def)
      then show ?thesis by (simp add: validLines_def)
    qed (simp add: validLines_def)
  qed
  have "lnTag (lineOf c' p) = lnTag (lineOf c p)" if "p \<in> validLines C c'" for p
    using dropped_tag [OF assms(1)] that by (simp add: validLines_def)
  then have "placed C c'" using assms(2) v by (auto simp: cache_inv_def placed_def inj_on_def)
  then show "cache_inv C c'" using assms(1) by (simp add: cache_inv_def dropped_def)
qed

text \<open>The request of a flush or trim names the unit of the line it is sent for.\<close>

definition names :: "'w cache_ctx \<Rightarrow> u64 \<Rightarrow> ftl_request \<Rightarrow> bool" where
  "names C lca r \<longleftrightarrow> frLpn r = lca div word_of_nat (ccLineCountInSuperPage C) \<and>
     Bitset_test (frIoFlag r) (unat (lca mod word_of_nat (ccLineCountInSuperPage C)))"

definition flag_ok :: "'w cache_ctx \<Rightarrow> ftl_request \<Rightarrow> bool" where
  "flag_ok C r \<longleftrightarrow> Bitset_wf (frIoFlag r) \<and> dataSize (frIoFlag r) = ccLineCountInSuperPage C"

lemma unat_mod_lines: "cctx_ok C \<Longrightarrow> unat (lca mod (word_of_nat (ccLineCountInSuperPage C) :: u64)) < ccLineCountInSuperPage C"
  by (simp add: cctx_ok_def unat_mod unat_of_nat)

lemma aimRequest_ok:
  assumes "cctx_ok C" "flag_ok C r"
  shows "flag_ok C (aimRequest C lca r)" "names C lca (aimRequest C lca r)"
proof -
  let ?i = "unat (lca mod (word_of_nat (ccLineCountInSuperPage C) :: u64))"
  have i: "?i < dataSize (frIoFlag r)" using assms unat_mod_lines by (simp add: flag_ok_def)
  show "flag_ok C (aimRequest C lca r)" using assms Bitset_set_to(1) [OF _ i] by (simp add: flag_ok_def aimRequest_def Let_def)
  show "names C lca (aimRequest C lca r)"
    using assms bv.test_set_to [of "frIoFlag r" ?i ?i True] i by (simp add: names_def flag_ok_def aimRequest_def Let_def)
qed

lemma new_flag_ok: "cctx_ok C \<Longrightarrow> flag_ok C (FTL_Request_new (ccLineCountInSuperPage C))"
  by (simp add: flag_ok_def FTL_Request_new_def Bitset_new_wf cctx_ok_def)

text \<open>
  A flush: every line of the range becomes invalid, and whatever the FTL keeps of a write for a
  dirty line of the range is there at the end.
\<close>

lemma flush_loop:
  assumes ok: "cctx_ok C" "cache_inv C c"
    and Q: "\<And>w r t w' t'. cdFtlWrite (ccDev C) w r t = Inr (w', t') \<Longrightarrow> names C (lnTag (lineOf c p0)) r \<or> Q w \<Longrightarrow> Q w'"
    and p0: "lnDirty (lineOf c p0)" "inRange rng (lnTag (lineOf c p0))"
  shows "on_ok (foldR (flushLine C rng) (linePtrs C) (FTL_Request_new (ccLineCountInSuperPage C), t, t, c))
     (\<lambda>(req, fin, t', c'). dropped C rng c (ptrs C) c' \<and> (p0 \<in> ptrs C \<longrightarrow> Q (cworld c')))"
proof -
  define I where "I ys = (\<lambda>(req, fin :: tick, t' :: tick, c'). flag_ok C req \<and> dropped C rng c (set ys) c' \<and> (p0 \<in> set ys \<longrightarrow> Q (cworld c')))" for ys
  have "on_ok (foldR (flushLine C rng) (linePtrs C) (FTL_Request_new (ccLineCountInSuperPage C), t, t, c)) (I (linePtrs C))"
  proof (rule foldR_on_ok_prefix)
    show "I [] (FTL_Request_new (ccLineCountInSuperPage C), t, t, c)"
      using ok new_flag_ok [OF ok(1)] by (simp add: I_def dropped_def cache_inv_def)
    fix ys p zs st assume xs: "linePtrs C = ys @ p # zs" and I: "I ys st"
    obtain req fin t' c' where st: "st = (req, fin, t', c')" by (cases st)
    have D: "dropped C rng c (set ys) c'" "flag_ok C req" "p0 \<in> set ys \<Longrightarrow> Q (cworld c')" using I by (simp_all add: I_def st)
    have p: "p \<in> ptrs C" by (metis xs in_set_conv_decomp set_linePtrs)
    have tg: "lnTag (lineOf c' p) = lnTag (lineOf c p)" "lnDirty (lineOf c' p) = lnDirty (lineOf c p)" using dropped_tag [OF D(1) p] by simp_all
    show "on_ok (flushLine C rng p st) (I (ys @ [p]))"
    proof (cases "inRange rng (lnTag (lineOf c p))")
      case False
      then show ?thesis using D dropped_out [OF D(1) False] p0(2) by (auto simp: flushLine_def st Let_def tg I_def)
    next
      case True
      let ?r = "aimRequest C (lnTag (lineOf c p)) req"
      note aim = aimRequest_ok [OF ok(1) D(2), of "lnTag (lineOf c p)"]
      have "Q w'" if "cdFtlWrite (ccDev C) (cworld c') ?r x = Inr (w', t'')" "p0 \<in> insert p (set ys)" for x w' t''
        using Q [OF that(1)] that(2) aim(2) D(3) by blast
      then show ?thesis
        using True D p0 aim(1) dropped_in [OF _ p True, of "set ys"]
        by (auto simp: flushLine_def st Let_def tg I_def ftlWrite_def on_ok_bindR intro!: on_okI)
    qed
  qed
  then show ?thesis by (rule on_ok_mono) (auto simp: I_def)
qed

lemma dropped_result:
  assumes "dropped C rng c (ptrs C) c'" "cache_inv C c"
  shows "cache_inv C c' \<and> validLines C c' = {p \<in> validLines C c. \<not> inRange rng (lnTag (lineOf c p))} \<and>
    (\<forall>p\<in>ptrs C. \<not> inRange rng (lnTag (lineOf c p)) \<longrightarrow> lineOf c' p = lineOf c p)"
  using dropped_inv [OF assms] assms(1) by (simp add: dropped_def)

lemma flush_ok:
  assumes ok: "cctx_ok C" "cache_inv C c" "ccUseReadCaching C \<or> ccUseWriteCaching C"
    and Q: "\<And>w r t w' t'. cdFtlWrite (ccDev C) w r t = Inr (w', t') \<Longrightarrow> names C (lnTag (lineOf c p0)) r \<or> Q w \<Longrightarrow> Q w'"
      "\<And>w ns fn. Q w \<Longrightarrow> Q (fst (cdApplyLatency (ccDev C) w ns fn))"
    and p0: "p0 \<in> ptrs C" "lnDirty (lineOf c p0)" "inRange rng (lnTag (lineOf c p0))"
  shows "on_ok (GenericCache_flush C rng t c) (\<lambda>(c', t'). dropped C rng c (ptrs C) c' \<and> Q (cworld c'))"
proof -
  have "on_ok (foldR (flushLine C rng) (linePtrs C) (FTL_Request_new (ccLineCountInSuperPage C), t, t, c))
     (\<lambda>(req, fin, t', c'). dropped C rng c (ptrs C) c' \<and> (p0 \<in> ptrs C \<longrightarrow> Q (cworld c')))"
    by (rule flush_loop [where Q = Q and ?p0.0 = p0]) (fact ok Q(1) p0)+
  then show ?thesis using ok(3) Q(2) p0(1)
    by (auto simp: GenericCache_flush_def on_ok_bindR caddLatency_def split_beta Let_def elim!: on_ok_mono)
qed

lemma flush_inv:
  assumes ok: "cctx_ok C" "cache_inv C c" "ccUseReadCaching C \<or> ccUseWriteCaching C"
  shows "on_ok (GenericCache_flush C rng t c) (\<lambda>(c', t'). dropped C rng c (ptrs C) c')"
proof -
  define I where "I ys = (\<lambda>(req :: ftl_request, fin :: tick, t' :: tick, c'). dropped C rng c (set ys) c')" for ys
  have "on_ok (foldR (flushLine C rng) (linePtrs C) (FTL_Request_new (ccLineCountInSuperPage C), t, t, c)) (I (linePtrs C))"
  proof (rule foldR_on_ok_prefix)
    show "I [] (FTL_Request_new (ccLineCountInSuperPage C), t, t, c)" using ok by (simp add: I_def dropped_def cache_inv_def)
    fix ys p zs st assume xs: "linePtrs C = ys @ p # zs" and I: "I ys st"
    obtain req fin t' c' where st: "st = (req, fin, t', c')" by (cases st)
    have D: "dropped C rng c (set ys) c'" using I by (simp add: I_def st)
    have p: "p \<in> ptrs C" by (metis xs in_set_conv_decomp set_linePtrs)
    have tg: "lnTag (lineOf c' p) = lnTag (lineOf c p)" "lnDirty (lineOf c' p) = lnDirty (lineOf c p)" using dropped_tag [OF D p] by simp_all
    show "on_ok (flushLine C rng p st) (I (ys @ [p]))"
      using dropped_in [OF _ p, of rng c "set ys"] dropped_out [OF D, of p] D
      by (auto simp: flushLine_def st Let_def tg I_def ftlWrite_def on_ok_bindR intro!: on_okI)
  qed
  then show ?thesis using ok(3)
    by (auto simp: GenericCache_flush_def on_ok_bindR caddLatency_def split_beta Let_def I_def elim!: on_ok_mono)
qed

lemma trim_inv:
  assumes ok: "cctx_ok C" "cache_inv C c" "ccUseReadCaching C \<or> ccUseWriteCaching C"
  shows "on_ok (GenericCache_trim C rng t c) (\<lambda>(c', t'). dropped C rng c (ptrs C) c')"
proof -
  define I where "I ys = (\<lambda>(req :: ftl_request, fin :: tick, t' :: tick, c'). dropped C rng c (set ys) c')" for ys
  have "on_ok (foldR (trimLine C rng) (linePtrs C) (FTL_Request_new (ccLineCountInSuperPage C), t, t, c)) (I (linePtrs C))"
  proof (rule foldR_on_ok_prefix)
    show "I [] (FTL_Request_new (ccLineCountInSuperPage C), t, t, c)" using ok by (simp add: I_def dropped_def cache_inv_def)
    fix ys p zs st assume xs: "linePtrs C = ys @ p # zs" and I: "I ys st"
    obtain req fin t' c' where st: "st = (req, fin, t', c')" by (cases st)
    have D: "dropped C rng c (set ys) c'" using I by (simp add: I_def st)
    have p: "p \<in> ptrs C" by (metis xs in_set_conv_decomp set_linePtrs)
    have tg: "lnTag (lineOf c' p) = lnTag (lineOf c p)" using dropped_tag [OF D p] by simp
    show "on_ok (trimLine C rng p st) (I (ys @ [p]))"
      using dropped_in [OF _ p, of rng c "set ys"] dropped_out [OF D, of p] D
      by (auto simp: trimLine_def st Let_def tg I_def ftlTrim_def on_ok_bindR intro!: on_okI)
  qed
  then show ?thesis using ok(3)
    by (auto simp: GenericCache_trim_def on_ok_bindR caddLatency_def split_beta Let_def I_def elim!: on_ok_mono)
qed

text \<open>A format drops exactly the lines of the range.\<close>

lemma dropLine_ok:
  assumes ok: "cctx_ok C" "cache_inv C c"
  shows "cache_inv C (fst (dropLine C lpn (c, t)))"
    and "validLines C (fst (dropLine C lpn (c, t))) = {p \<in> validLines C c. lnTag (lineOf c p) \<noteq> lpn}"
    and "p \<in> ptrs C \<Longrightarrow> lnTag (lineOf (fst (dropLine C lpn (c, t))) p) = lnTag (lineOf c p)"
proof -
  have g: "cgeom C c" "placed C c" using ok(2) by (simp_all add: cache_inv_def)
  obtain w t1 where vw: "getValidWay C lpn t c = (w, t1)" by fastforce
  have "cache_inv C (fst (dropLine C lpn (c, t))) \<and>
      validLines C (fst (dropLine C lpn (c, t))) = {p \<in> validLines C c. lnTag (lineOf c p) \<noteq> lpn} \<and>
      (\<forall>p\<in>ptrs C. lnTag (lineOf (fst (dropLine C lpn (c, t))) p) = lnTag (lineOf c p))"
  proof (cases "w = ccWaySize C")
    case True
    then have "\<not> cached C c lpn" using getValidWay_cached [OF g ok(1), of lpn t] vw by simp
    then show ?thesis using True vw ok(2) by (auto simp: dropLine_def cached_def)
  next
    case False
    let ?p = "(calcSetIndex C lpn, w)" and ?f = "\<lambda>l. l\<lparr>lnValid := False\<rparr>"
    have d: "fst (dropLine C lpn (c, t)) = updLine ?p ?f c" using False vw by (simp add: dropLine_def)
    have h: "?p \<in> validLines C c" "lnTag (lineOf c ?p) = lpn"
      using getValidWay_cases [OF g(1) ok(1), of lpn t] False vw calcSetIndex_less [OF ok(1), of lpn]
      by (auto simp: validLines_def in_ptrs)
    then have p: "?p \<in> ptrs C" by (simp add: validLines_def)
    have L: "lineOf (updLine ?p ?f c) q = (if q = ?p then ?f (lineOf c ?p) else lineOf c q)" if "q \<in> ptrs C" for q
      by (rule lineOf_updLine [OF g(1) p that])
    have only: "q = ?p" if "q \<in> validLines C c" "lnTag (lineOf c q) = lpn" for q
      using g(2) h that unfolding placed_def inj_on_def by metis
    have "q \<in> validLines C (updLine ?p ?f c) \<longleftrightarrow> q \<in> validLines C c \<and> lnTag (lineOf c q) \<noteq> lpn" for q
    proof (cases "q \<in> ptrs C")
      case True
      show ?thesis
      proof (cases "q = ?p")
        case False
        then have "q \<in> validLines C (updLine ?p ?f c) \<longleftrightarrow> q \<in> validLines C c" using L [OF True] True by (simp add: validLines_def)
        then show ?thesis using only False by blast
      qed (use L [OF True] h(2) in \<open>simp add: validLines_def\<close>)
    qed (simp add: validLines_def)
    then have "validLines C (updLine ?p ?f c) = {p \<in> validLines C c. lnTag (lineOf c p) \<noteq> lpn}" by blast
    moreover have "cache_inv C (updLine ?p ?f c)"
      using ok(2) p placed_updLine_keep [OF g(1) p g(2), of ?f] by (auto simp: cache_inv_def)
    moreover have "\<forall>q\<in>ptrs C. lnTag (lineOf (updLine ?p ?f c) q) = lnTag (lineOf c q)" using L by simp
    ultimately show ?thesis unfolding d by blast
  qed
  then show "cache_inv C (fst (dropLine C lpn (c, t)))"
    "validLines C (fst (dropLine C lpn (c, t))) = {p \<in> validLines C c. lnTag (lineOf c p) \<noteq> lpn}"
    "p \<in> ptrs C \<Longrightarrow> lnTag (lineOf (fst (dropLine C lpn (c, t))) p) = lnTag (lineOf c p)" by blast+
qed

lemma dropLines_ok:
  assumes "cctx_ok C" "cache_inv C c"
  shows "case fold (dropLine C) lpns (c, t) of (c', t') \<Rightarrow> cache_inv C c' \<and>
    validLines C c' = {p \<in> validLines C c. lnTag (lineOf c p) \<notin> set lpns}"
  using assms(2)
proof (induction lpns arbitrary: c t)
  case (Cons l ls)
  obtain c1 t1 where d: "dropLine C l (c, t) = (c1, t1)" by fastforce
  have "validLines C c \<subseteq> ptrs C" by (auto simp: validLines_def)
  then show ?case
    using Cons.IH [of c1 t1] dropLine_ok [OF assms(1) Cons.prems, where lpn = l and t = t] d by (auto split: prod.splits)
qed simp

lemma format_ok:
  assumes "cctx_ok C" "cache_inv C c" "ccUseReadCaching C \<or> ccUseWriteCaching C"
  shows "on_ok (GenericCache_format C rng t c) (\<lambda>(c', t'). cache_inv C c' \<and>
     validLines C c' = {p \<in> validLines C c. lnTag (lineOf c p) \<notin> (\<lambda>i. slpn rng + word_of_nat i) ` {..<unat (nlp rng)}})"
proof -
  let ?ls = "map (\<lambda>i. slpn rng + word_of_nat i) [0..<unat (nlp rng)]"
  obtain c1 t1 where d: "fold (dropLine C) ?ls (c, t) = (c1, t1)" by fastforce
  have "fold (\<lambda>i. dropLine C (slpn rng + word_of_nat i)) [0..<unat (nlp rng)] (c, t) = (c1, t1)"
    using d by (simp add: fold_map comp_def)
  moreover have "set ?ls = (\<lambda>i. slpn rng + word_of_nat i) ` {..<unat (nlp rng)}" by (auto simp: lessThan_atLeast0)
  ultimately show ?thesis
    using dropLines_ok [OF assms(1,2), of ?ls t] d assms(3)
    by (auto simp: GenericCache_format_def Let_def on_ok_bindR caddLatency_def split_beta intro!: on_okI)
qed

end
