(* ===== verification/Cache_Props.thy ===== *)
theory Cache_Props
  imports Cache_Inv
begin

text \<open>
  The properties of the cache layer's cache. Each theorem with hypotheses is followed by an
  instance on a small cache over an FTL that records the requests it gets.
\<close>

section \<open>A small cache\<close>

text \<open>The world is the list of FTL calls: whether a write, the logical page and the flags.\<close>

definition exLog :: "bool \<Rightarrow> (bool \<times> u64 \<times> u8 list) list \<Rightarrow> ftl_request \<Rightarrow> tick \<Rightarrow> ((bool \<times> u64 \<times> u8 list) list \<times> tick) res" where
  "exLog wr w r t = Inr (w @ [(wr, frLpn r, data (frIoFlag r))], t + 10)"

definition exFtl :: "(bool \<times> u64 \<times> u8 list) list cache_dev" where
  "exFtl = \<lparr>cdFtlRead = exLog False, cdFtlWrite = exLog True, cdFtlTrim = (\<lambda>w r t. Inr (w, t)), cdFtlFormat = (\<lambda>w r t. Inr (w, t)),
     cdDramRead = (\<lambda>w n t. (w, t + 1)), cdDramWrite = (\<lambda>w n t. (w, t + 1)), cdDramScheduling = (\<lambda>w b. w),
     cdApplyLatency = (\<lambda>w ns fn. (w, 0)), cdRandom = (\<lambda>w lo hi. (w, lo))\<rparr>"

lemma exFtl_sel [simp]:
  "cdFtlRead exFtl = exLog False" "cdFtlWrite exFtl = exLog True" "cdDramRead exFtl w n t = (w, t + 1)" "cdDramWrite exFtl w n t = (w, t + 1)"
  "cdDramScheduling exFtl w b = w" "cdApplyLatency exFtl w ns fn = (w, 0)"
  by (simp_all add: exFtl_def)

text \<open>Two units per super page, one parallel unit, one set of one way with least recently used replacement.\<close>

definition exCfg :: icl_cfg where
  "exCfg = \<lparr>cgPageSize = 8192, cgPageCountToMaxPerf = 1, cgIoUnitInPage = 2, cgRandomTweak = True, cgCacheSize = 4096,
     cgWaySize = 1, cgPrefetchCount = 1, cgPrefetchRatio = Fin 1, cgReadCache = True, cgWriteCache = True, cgReadPrefetch = False,
     cgPrefetchMode = MODE_ALL, cgEvictMode = MODE_ALL, cgPolicy = CPOLICY_LEAST_RECENTLY_USED, cgLatency = 0, cgCores = 1\<rparr>"

abbreviation exC :: "(bool \<times> u64 \<times> u8 list) list cache_ctx" where
  "exC \<equiv> cacheContext exCfg exFtl False"

definition exReq :: "u64 \<Rightarrow> u64 \<Rightarrow> icl_request" where
  "exReq lca len = ICL_Request_new\<lparr>icRange := \<lparr>slpn = lca, nlp = 1\<rparr>, icLength := len\<rparr>"

text \<open>The cache whose one line is empty, and the one that holds address 5, dirty.\<close>

definition exCacheOn :: "cline \<Rightarrow> 'w \<Rightarrow> 'w cache" where
  "exCacheOn l w = \<lparr>cacheData = [[l]], evictData = [[None], [None]], readDetect = SequentialDetect_new, prefetchTrigger = - 1,
     lastPrefetched = 0, statRequest = (0, 0), statCache = (0, 0), cworld = w\<rparr>"

abbreviation exCache :: "cline \<Rightarrow> (bool \<times> u64 \<times> u8 list) list \<Rightarrow> (bool \<times> u64 \<times> u8 list) list cache" where
  "exCache \<equiv> exCacheOn"

definition exDirty :: cline where
  "exDirty = \<lparr>lnTag = 5, lnLastAccessed = 3, lnInsertedAt = 3, lnDirty = True, lnValid = True\<rparr>"

lemma zero_less_max [simp]: "(0 :: u64) < - 1"
  unfolding word_neq_0_conv [symmetric] by simp

lemma exCfg_ok: "icl_cfg_ok exCfg"
  by (simp add: icl_cfg_ok_def exCfg_def)

lemma exC_ok: "cctx_ok exC"
  using exCfg_ok by (rule cacheContext_ok)

lemma exCfg_sel [simp]: "cgReadCache exCfg" "cgWriteCache exCfg" "\<not> cgReadPrefetch exCfg" "cgLatency exCfg = 0" "cgPolicy exCfg = CPOLICY_LEAST_RECENTLY_USED"
  by (simp_all add: exCfg_def)

lemma exC_sel [simp]:
  "ccSetSize (cacheContext exCfg D b0) = 1" "ccWaySize (cacheContext exCfg D b0) = 1" "ccLineCountInSuperPage (cacheContext exCfg D b0) = 2"
  "ccParallelIO (cacheContext exCfg D b0) = 1" "ccLineCountInMaxIO (cacheContext exCfg D b0) = 2" "ccLineSize (cacheContext exCfg D b0) = 4096"
  "ccUseReadCaching (cacheContext exCfg D b0)" "ccUseWriteCaching (cacheContext exCfg D b0)" "\<not> ccUseReadPrefetch (cacheContext exCfg D b0)"
  "getCacheLatency (cacheContext exCfg D b0) = 0" "ccDev (cacheContext exCfg D b0) = D" "ccEvictMode (cacheContext exCfg D b0) = MODE_ALL"
  "evictFunction (cacheContext exCfg D b0) = evictLeast lnLastAccessed 0 1" "compareFunction (cacheContext exCfg D b0) = compareLeast lnLastAccessed"
  by (simp_all add: cacheContext_def cacheSizes_def exCfg_def Let_def getCacheLatency_def)

lemma exC_calc [simp]:
  "calcSetIndex (cacheContext exCfg D b0) lca = 0" "ptrs (cacheContext exCfg D b0) = {(0, 0)}" "slots (cacheContext exCfg D b0) = {(0, 0), (1, 0)}"
  by (auto simp: calcSetIndex_def ptrs_def slots_def)

lemma cworld_exCacheOn [simp]: "cworld (exCacheOn l w) = w"
  by (simp add: exCacheOn_def)

lemma exCacheOn_inv: "cache_inv (cacheContext exCfg D b0) (exCacheOn l w)"
  by (auto simp: cache_inv_def cgeom_def placed_def noVictims_def validLines_def exCacheOn_def evictAt_def inj_on_def)

lemma exCache_inv: "cache_inv exC (exCache l w)"
  by (rule exCacheOn_inv)

section \<open>Construction and the invariant\<close>

text \<open>
  The constructor of a cache with a defined eviction policy and any caching on returns an
  empty cache that satisfies the invariant: arrays of the configured sizes, every valid line
  in the set of its address, no address valid twice, no pending victim.
\<close>

theorem GenericCache_new_correct:
  assumes "icl_cfg_ok g" "cgReadCache g \<or> cgWriteCache g" "cgPolicy g \<noteq> CPOLICY_INVALID"
  shows "runs_to (GenericCache_new g D b0 c0) (\<lambda>(C, c). cctx_ok C \<and> cache_inv C c \<and> (\<forall>lca. \<not> cached C c lca))"
  by (rule GenericCache_new_inv [OF assms(2,3), of D b0 c0]) (use cacheContext_ok [OF assms(1)] in \<open>auto simp: cached_def\<close>)

theorem GenericCache_new_correct_witness:
  "runs_to (GenericCache_new exCfg exFtl False (exCache Line_new [])) (\<lambda>(C, c). cctx_ok C \<and> cache_inv C c \<and> (\<forall>lca. \<not> cached C c lca))"
  by (rule GenericCache_new_correct [OF exCfg_ok]) (simp_all add: exCfg_def)

text \<open>
  C17. Every read, write, flush, trim and format of the cache that returns keeps the invariant, for
  each of the three eviction policies. A draw of the random policy outside the set, which a fully
  associative cache allows, is undefined and does not return.
\<close>

theorem cache_operations_keep_inv:
  assumes "icl_cfg_ok g" "cgReadCache g \<or> cgWriteCache g" "cache_inv (cacheContext g D b0) c"
  shows "on_ok (GenericCache_read (cacheContext g D b0) req t c) (\<lambda>(r, c', t'). cache_inv (cacheContext g D b0) c') \<and>
    on_ok (GenericCache_write (cacheContext g D b0) req t c) (\<lambda>(r, c', t'). cache_inv (cacheContext g D b0) c') \<and>
    on_ok (GenericCache_flush (cacheContext g D b0) rng t c) (\<lambda>(c', t'). cache_inv (cacheContext g D b0) c') \<and>
    on_ok (GenericCache_trim (cacheContext g D b0) rng t c) (\<lambda>(c', t'). cache_inv (cacheContext g D b0) c') \<and>
    on_ok (GenericCache_format (cacheContext g D b0) rng t c) (\<lambda>(c', t'). cache_inv (cacheContext g D b0) c')"
proof -
  let ?C = "cacheContext g D b0"
  have ok: "cctx_ok ?C" using assms(1) by (rule cacheContext_ok)
  have use: "ccUseReadCaching ?C \<or> ccUseWriteCaching ?C" using assms(2) by (simp add: cacheContext_def Let_def split_beta)
  have "on_ok (GenericCache_write ?C req t c) (\<lambda>(r, c', t'). cache_inv ?C c')"
    by (rule on_ok_mono [OF gc.write_inv [OF ok assms(3)]]) auto
  moreover have "on_ok (GenericCache_flush ?C rng t c) (\<lambda>(c', t'). cache_inv ?C c')"
    by (rule on_ok_mono [OF flush_inv [OF ok assms(3) use]]) (auto dest: dropped_inv(1) [OF _ assms(3)])
  moreover have "on_ok (GenericCache_trim ?C rng t c) (\<lambda>(c', t'). cache_inv ?C c')"
    by (rule on_ok_mono [OF trim_inv [OF ok assms(3) use]]) (auto dest: dropped_inv(1) [OF _ assms(3)])
  moreover have "on_ok (GenericCache_format ?C rng t c) (\<lambda>(c', t'). cache_inv ?C c')"
    by (rule on_ok_mono [OF format_ok [OF ok assms(3) use]]) auto
  ultimately show ?thesis using gc.read_inv [OF ok assms(3)] by blast
qed

theorem cache_operations_keep_inv_witness:
  "on_ok (GenericCache_read exC (exReq 7 4096) 9 (exCache exDirty [])) (\<lambda>(r, c', t'). cache_inv exC c')"
  using cache_operations_keep_inv [OF exCfg_ok _ exCache_inv] by (simp add: exCfg_def)

section \<open>Reads and writes\<close>



text \<open>
  A write never ends in the panic for a corrupted cache: if the FTL accepts every write and
  neither its answers nor the lines carry the largest time, the write returns. The tick stays
  below the largest time as the latency of the cache's own searches is zero here.
\<close>

lemma scan_ticks: "snd (validScan 0 lca ls i t) = t" "snd (emptyScan 0 ls i j m t) = t"
  by (induction ls arbitrary: i j m) auto

lemma cachedWrite_returns:
  assumes "cctx_ok C" "evict_policy C" "cache_inv C c" "getCacheLatency C = 0" "t \<noteq> - 1"
    and ftl: "\<And>w r. \<exists>w' t'. cdFtlWrite (ccDev C) w r t = Inr (w', t') \<and> t' \<noteq> - 1"
    and ins: "\<forall>p\<in>ptrs C. lnInsertedAt (lineOf c p) \<noteq> - 1"
  shows "\<exists>r c' t'. cachedWrite C req dirty flash t c = Inr (r, c', t')"
proof -
  let ?lca = "slpn (icRange req)" and ?i = "calcSetIndex C (slpn (icRange req))"
  have g: "cgeom C c" and i: "?i < ccSetSize C" using assms by (simp_all add: cache_inv_def calcSetIndex_less)
  obtain w where vw: "getValidWay C ?lca t c = (w, t)"
    using scan_ticks(1) assms(4) by (metis getValidWay_def prod.collapse)
  obtain e where ew: "getEmptyWay C ?i t c = (e, t)"
    using scan_ticks(2) assms(4) by (metis getEmptyWay_def prod.collapse)
  show ?thesis
  proof (cases "w = ccWaySize C \<and> e = ccWaySize C")
    case False
    then show ?thesis using vw ew by (auto simp: cachedWrite_def Let_def split_beta)
  next
    case True
    have "lnValid (lineOf c (?i, 0))"
      using g i
    proof (cases rule: getEmptyWay_cases [where t = t])
      case (found v)
      then show ?thesis using ew True by simp
    next
      case none
      then show ?thesis using ins i assms(1) by (auto simp: in_ptrs cctx_ok_def)
    qed
    then have "\<exists>c' t'. writeFlush C req t c = Inr (c', t')"
      using assms ftl by (intro evict_policy.writeFlush_total [where t = t and j = 0, OF _ _ _ _ _ refl]) (simp_all add: cctx_ok_def)
    then show ?thesis using vw ew True by (auto simp: cachedWrite_def Let_def)
  qed
qed

theorem GenericCache_write_returns:
  assumes "icl_cfg_ok g" "cache_inv (cacheContext g D b0) c"
    and "\<And>w r. \<exists>w' t'. cdFtlWrite D w r t = Inr (w', t') \<and> t' \<noteq> - 1"
    and "\<forall>p\<in>ptrs (cacheContext g D b0). lnInsertedAt (lineOf c p) \<noteq> - 1"
    and "cgLatency g = 0" "t \<noteq> - 1"
  shows "\<exists>r c' t'. GenericCache_write (cacheContext g D b0) req t c = Inr (r, c', t')"
proof -
  let ?C = "cacheContext g D b0"
  have dev: "ccDev ?C = D" "getCacheLatency ?C = 0" using assms(5) by (simp_all add: cacheContext_def getCacheLatency_def Let_def split_beta)
  have ok: "cctx_ok ?C" using assms(1) by (rule cacheContext_ok)
  have cw: "\<exists>r c' t'. cachedWrite ?C req d x t (c\<lparr>cworld := w\<rparr>) = Inr (r, c', t')" for d x w
    by (rule cachedWrite_returns [OF ok gc.evict_policy_axioms _ dev(2) assms(6)]) (use assms(2-4) dev in \<open>simp_all\<close>)
  have fw: "\<exists>w x. ftlWrite ?C r t c = Inr (c\<lparr>cworld := w\<rparr>, x)" for r
    using assms(3) [of "cworld c" r] dev by (auto simp: ftlWrite_def)
  have cw0: "\<exists>r c' t'. cachedWrite ?C req d x t c = Inr (r, c', t')" for d x
    using cw [of d x "cworld c"] by simp
  define dirty where "dirty \<longleftrightarrow> icLength req < word_of_nat (ccLineSize ?C)"
  let ?req = "FTL_Request_icl (ccLineCountInSuperPage ?C) req"
  obtain w x where first: "(if dirty then Inr (c, t) else ftlWrite ?C ?req t c) = Inr (c\<lparr>cworld := w\<rparr>, x)"
    using fw [of ?req] by (cases dirty) (auto intro: that [of "cworld c" t])
  obtain w' x' where second: "(if dirty then ftlWrite ?C ?req t (c\<lparr>cworld := w\<rparr>) else Inr (c\<lparr>cworld := w\<rparr>, x)) = Inr (c\<lparr>cworld := w'\<rparr>, x')"
    using fw [of ?req] first by (cases dirty) auto
  obtain r c' t' where "cachedWrite ?C req dirty x t (c\<lparr>cworld := w\<rparr>) = Inr (r, c', t')" using cw by blast
  then show ?thesis
    unfolding GenericCache_write_def Let_def dirty_def [symmetric] first bindR_Inr prod.case second by (auto simp: split_beta)
qed

theorem GenericCache_write_returns_witness:
  "\<exists>r c' t'. GenericCache_write exC (exReq 7 4096) 9 (exCache exDirty []) = Inr (r, c', t')"
  by (rule GenericCache_write_returns [OF exCfg_ok exCache_inv])
    (simp_all add: exLog_def exDirty_def exCacheOn_def lineAt_def)

text \<open>
  The result of a read does not depend on the FTL's write operation. A read that takes over a
  dirty line clears the dirty mark of the line before \<^verbatim>\<open>evictCache\<close> tests it, so the data written
  to that line is lost, although \<^verbatim>\<open>evictCache\<close> is called to write it back.
\<close>

theorem GenericCache_read_never_writes_back:
  assumes "icl_cfg_ok g" "cache_inv (cacheContext g D b0) c"
  shows "GenericCache_read (cacheContext g (D\<lparr>cdFtlWrite := f\<rparr>) b0) req t c = GenericCache_read (cacheContext g D b0) req t c"
proof -
  have "evict_policy.withWrite (cacheContext g D b0) f = cacheContext g (D\<lparr>cdFtlWrite := f\<rparr>) b0"
    unfolding evict_policy.withWrite_def [OF gc.evict_policy_axioms] by (cases "cgPolicy g") (simp_all add: cacheContext_def Let_def split_beta)
  then show ?thesis using gc.read_no_write [OF cacheContext_ok [OF assms(1)] assms(2), of f req t] by metis
qed

lemma flag_numerals [simp]: "unat (7 mod 2 :: u64) = 1" "(7 div 2 :: u64) = 3"
  by (simp_all add: unat_mod)

theorem GenericCache_read_never_writes_back_witness:
  "GenericCache_read (cacheContext exCfg (exFtl\<lparr>cdFtlWrite := (\<lambda>w r t. Inl (Panic ''write''))\<rparr>) False) (exReq 7 4096) 9 (exCache exDirty []) =
     GenericCache_read exC (exReq 7 4096) 9 (exCache exDirty []) \<and>
   runs_to (GenericCache_read exC (exReq 7 4096) 9 (exCache exDirty [])) (\<lambda>(r, c', t'). \<not> cached exC c' 5)"
proof
  show "GenericCache_read (cacheContext exCfg (exFtl\<lparr>cdFtlWrite := (\<lambda>w r t. Inl (Panic ''write''))\<rparr>) False) (exReq 7 4096) 9 (exCache exDirty []) =
     GenericCache_read exC (exReq 7 4096) 9 (exCache exDirty [])"
    by (rule GenericCache_read_never_writes_back [OF exCfg_ok exCache_inv])
  show "runs_to (GenericCache_read exC (exReq 7 4096) 9 (exCache exDirty [])) (\<lambda>(r, c', t'). \<not> cached exC c' 5)"
    by (simp add: GenericCache_read_def readMiss_def getValidWay_def getEmptyWay_def exReq_def ICL_Request_new_def exCacheOn_def exDirty_def
        readAhead_def SequentialDetect_new_def addresses_def claimLine_def evictLeast_def evictCache_def evictOne_def ioPositions_def
        calcIOPosition_def setEvict_def evictAt_def fillLine_def FTL_Request_icl_def ftlRead_def exLog_def
        cdramWrite_def caddLatency_def lineAt_def updLine_def countRead_def cached_def validLines_def Let_def upt_rec)
qed

section \<open>Flush, trim and format\<close>

text \<open>
  C21. A flush invalidates exactly the cached lines of the range and writes every dirty line of
  the range back: a predicate on the world that any FTL write naming the line's unit
  establishes and later writes keep holds afterwards.
\<close>

theorem GenericCache_flush_correct:
  assumes "icl_cfg_ok g" "cgReadCache g \<or> cgWriteCache g" "cache_inv (cacheContext g D b0) c"
    and "\<And>w r t w' t'. cdFtlWrite D w r t = Inr (w', t') \<Longrightarrow> names (cacheContext g D b0) (lnTag (lineOf c p0)) r \<or> Q w \<Longrightarrow> Q w'"
    and "\<And>w ns fn. Q w \<Longrightarrow> Q (fst (cdApplyLatency D w ns fn))"
    and "p0 \<in> ptrs (cacheContext g D b0)" "lnDirty (lineOf c p0)" "inRange rng (lnTag (lineOf c p0))"
  shows "on_ok (GenericCache_flush (cacheContext g D b0) rng t c) (\<lambda>(c', t'). Q (cworld c') \<and>
    validLines (cacheContext g D b0) c' = {p \<in> validLines (cacheContext g D b0) c. \<not> inRange rng (lnTag (lineOf c p))})"
proof -
  let ?C = "cacheContext g D b0"
  have dev: "ccDev ?C = D" and use: "ccUseReadCaching ?C \<or> ccUseWriteCaching ?C"
    using assms(2) by (simp_all add: cacheContext_def Let_def split_beta)
  have "on_ok (GenericCache_flush ?C rng t c) (\<lambda>(c', t'). dropped ?C rng c (ptrs ?C) c' \<and> Q (cworld c'))"
    by (rule flush_ok [OF cacheContext_ok [OF assms(1)] assms(3) use _ _ assms(6-8)])
      (unfold dev, erule (1) assms(4), erule assms(5))
  then show ?thesis
    by (rule on_ok_mono) (auto dest: dropped_inv(2) [OF _ assms(3)])
qed

theorem GenericCache_flush_correct_witness:
  "on_ok (GenericCache_flush exC \<lparr>slpn = 4, nlp = 4\<rparr> 9 (exCache exDirty [])) (\<lambda>(c', t').
     (\<exists>e\<in>set (cworld c'). fst e \<and> fst (snd e) = 2) \<and>
     validLines exC c' = {p \<in> validLines exC (exCache exDirty []). \<not> inRange \<lparr>slpn = 4, nlp = 4\<rparr> (lnTag (lineOf (exCache exDirty []) p))})"
  by (rule GenericCache_flush_correct [OF exCfg_ok _ exCache_inv, where ?p0.0 = "(0, 0)"])
    (auto simp: exLog_def names_def exDirty_def exCacheOn_def lineAt_def inRange_def)


text \<open>
  A trim and a format invalidate the cached lines of their range and no other line, and
  change nothing else of the lines outside the range.
\<close>

theorem GenericCache_trim_correct:
  assumes "icl_cfg_ok g" "cgReadCache g \<or> cgWriteCache g" "cache_inv (cacheContext g D b0) c"
  shows "on_ok (GenericCache_trim (cacheContext g D b0) rng t c) (\<lambda>(c', t').
      validLines (cacheContext g D b0) c' = {p \<in> validLines (cacheContext g D b0) c. \<not> inRange rng (lnTag (lineOf c p))} \<and>
      (\<forall>p\<in>ptrs (cacheContext g D b0). \<not> inRange rng (lnTag (lineOf c p)) \<longrightarrow> lineOf c' p = lineOf c p)) \<and>
    on_ok (GenericCache_format (cacheContext g D b0) rng t c) (\<lambda>(c', t').
      validLines (cacheContext g D b0) c' =
        {p \<in> validLines (cacheContext g D b0) c. lnTag (lineOf c p) \<notin> (\<lambda>i. slpn rng + word_of_nat i) ` {..<unat (nlp rng)}})"
proof -
  let ?C = "cacheContext g D b0"
  have use: "ccUseReadCaching ?C \<or> ccUseWriteCaching ?C" using assms(2) by (simp add: cacheContext_def Let_def split_beta)
  note ok = cacheContext_ok [OF assms(1)] assms(3) use
  show ?thesis
    by (intro conjI on_ok_mono [OF trim_inv [OF ok]] on_ok_mono [OF format_ok [OF ok]]) (auto dest!: dropped_result [OF _ assms(3)])
qed

theorem GenericCache_trim_correct_witness:
  "on_ok (GenericCache_trim exC \<lparr>slpn = 4, nlp = 4\<rparr> 9 (exCache exDirty [])) (\<lambda>(c', t').
     validLines exC c' = {p \<in> validLines exC (exCache exDirty []). \<not> inRange \<lparr>slpn = 4, nlp = 4\<rparr> (lnTag (lineOf (exCache exDirty []) p))})"
  using GenericCache_trim_correct [OF exCfg_ok _ exCache_inv] by (fastforce elim: on_ok_mono)

text \<open>
  In a fully associative cache the random policy draws from all 32-bit numbers: the line it evicts
  may lie outside the array.
\<close>

lemma fully_associative_draws_outside:
  assumes "cgPolicy g = CPOLICY_RANDOM" "cgWaySize g = 0" "cdRandom D w 0 (2 ^ 32 - 1) = (w', i)" "i < 2 ^ 32"
    "ccWaySize (cacheContext g D b0) \<le> i"
  shows "evictFunction (cacheContext g D b0) ls setIdx t w = Inl (Undefined ''line outside the set'')"
  using assms by (auto simp: cacheContext_def Let_def split_beta evictRandom_def distMax_def)

text \<open>The scan for the least insertion or access time of a set.\<close>

lemma leastScan_least:
  assumes "leastScan key lat ls i j m t = (k, t')"
  shows "(k = j \<and> (\<forall>l\<in>set ls. m \<le> key l)) \<or>
    (\<exists>n<length ls. k = i + n \<and> key (ls ! n) < m \<and> (\<forall>l\<in>set ls. key (ls ! n) \<le> key l) \<and> (\<forall>h<n. key (ls ! n) < key (ls ! h)))"
  using assms
proof (induction key lat ls i j m t rule: leastScan.induct)
  case (2 key lat l ls i j m t)
  show ?case
  proof (cases "key l < m")
    case True
    have "leastScan key lat ls (Suc i) i (key l) (t + lat * 8) = (k, t')" using 2(3) True by simp
    from 2(1) [OF True this] show ?thesis
    proof (elim disjE exE conjE)
      assume "k = i" "\<forall>x\<in>set ls. key l \<le> key x"
      then show ?thesis using True by (intro disjI2 exI [of _ 0]) auto
    next
      fix n assume n: "n < length ls" "k = Suc i + n" "key (ls ! n) < key l" "\<forall>x\<in>set ls. key (ls ! n) \<le> key x" "\<forall>h<n. key (ls ! n) < key (ls ! h)"
      show ?thesis
        using n True by (intro disjI2 exI [of _ "Suc n"]) (auto simp: nth_Cons' less_Suc_eq_0_disj)
    qed
  next
    case False
    have "leastScan key lat ls (Suc i) j m (t + lat * 8) = (k, t')" using 2(3) False by simp
    from 2(2) [OF False this] show ?thesis
    proof (elim disjE exE conjE)
      assume "k = j" "\<forall>x\<in>set ls. m \<le> key x"
      then show ?thesis using False by (intro disjI1) auto
    next
      fix n assume n: "n < length ls" "k = Suc i + n" "key (ls ! n) < m" "\<forall>x\<in>set ls. key (ls ! n) \<le> key x" "\<forall>h<n. key (ls ! n) < key (ls ! h)"
      show ?thesis
        using n False by (intro disjI2 exI [of _ "Suc n"]) (auto simp: nth_Cons' less_Suc_eq_0_disj)
    qed
  qed
qed simp

lemma evictLeast_least:
  assumes "length (ls ! i) = n" "0 < n"
  obtains way t' where "evictLeast key lat n ls i t w = Inr (way, t', w)" "way < n"
    "\<And>j. j < n \<Longrightarrow> key (ls ! i ! way) \<le> key (ls ! i ! j)" "\<And>j. j < way \<Longrightarrow> key (ls ! i ! way) < key (ls ! i ! j)"
proof -
  obtain way t' where s: "leastScan key lat (ls ! i) 0 0 (- 1) t = (way, t')" by fastforce
  have top: "key (ls ! i ! j) = - 1" if "\<forall>l\<in>set (ls ! i). - 1 \<le> key l" "j < n" for j
    using that assms(1) by (meson nth_mem order_antisym word_n1_ge)
  have "way < n \<and> (\<forall>j<n. key (ls ! i ! way) \<le> key (ls ! i ! j)) \<and> (\<forall>j<way. key (ls ! i ! way) < key (ls ! i ! j))"
    using leastScan_least [OF s] assms top by auto
  moreover have "evictLeast key lat n ls i t w = Inr (way, t', w)" using s assms(1) by (simp add: evictLeast_def)
  ultimately show thesis using that by blast
qed

text \<open>
  C20. In a cache that satisfies the invariant the FIFO and least recently used policies return, for
  every set, a way of the set whose time of insertion or of last access is least among the ways of
  the set, the first one of several; they leave the world alone.
\<close>

theorem evictFunction_least:
  assumes "icl_cfg_ok g" "cgPolicy g = CPOLICY_FIFO \<and> key = lnInsertedAt \<or> cgPolicy g = CPOLICY_LEAST_RECENTLY_USED \<and> key = lnLastAccessed"
    "cache_inv (cacheContext g D b0) c" "setIdx < ccSetSize (cacheContext g D b0)"
  shows "\<exists>way t'. evictFunction (cacheContext g D b0) (cacheData c) setIdx t w = Inr (way, t', w) \<and> way < ccWaySize (cacheContext g D b0) \<and>
     (\<forall>j<ccWaySize (cacheContext g D b0). key (lineOf c (setIdx, way)) \<le> key (lineOf c (setIdx, j))) \<and>
     (\<forall>j<way. key (lineOf c (setIdx, way)) < key (lineOf c (setIdx, j)))"
proof -
  let ?C = "cacheContext g D b0"
  have n: "length (cacheData c ! setIdx) = ccWaySize ?C" "0 < ccWaySize ?C"
    using assms(3,4) cacheContext_ok [OF assms(1), of D b0] by (auto simp: cache_inv_def cctx_ok_def intro: cgeom_row)
  have fn: "evictFunction ?C = evictLeast key (getCacheLatency ?C) (ccWaySize ?C)"
    using assms(2) by (auto simp: cacheContext_def getCacheLatency_def Let_def split_beta)
  obtain way t' where "evictLeast key (getCacheLatency ?C) (ccWaySize ?C) (cacheData c) setIdx t w = Inr (way, t', w)" "way < ccWaySize ?C"
    "\<And>j. j < ccWaySize ?C \<Longrightarrow> key (cacheData c ! setIdx ! way) \<le> key (cacheData c ! setIdx ! j)"
    "\<And>j. j < way \<Longrightarrow> key (cacheData c ! setIdx ! way) < key (cacheData c ! setIdx ! j)"
    by (rule evictLeast_least [OF n, of key "getCacheLatency ?C" t w]) blast
  then show ?thesis unfolding fn by (auto simp: lineAt_def)
qed

theorem evictFunction_least_witness:
  "\<exists>way t'. evictFunction exC (cacheData (exCache exDirty [])) 0 9 [] = Inr (way, t', []) \<and> way < ccWaySize exC \<and>
     lnLastAccessed (lineOf (exCache exDirty []) (0, way)) \<le> lnLastAccessed (lineOf (exCache exDirty []) (0, 0))"
  using evictFunction_least [OF exCfg_ok _ exCache_inv, where setIdx = 0 and key = lnLastAccessed and t = 9 and w = "[]"] by fastforce

end
