(* ===== verification/Credit.thy ===== *)
theory Credit
  imports Device Fp Algorithm
begin

text \<open>
  The credit scheduler of the host interface (\<^verbatim>\<open>hil/scheduler/credit_scheduler.cc\<close>): a token
  bucket per user refilled at fixed phases, deferral of requests that cannot be paid and
  round-robin dispatch. Definitions only; \<open>Credit_Inv\<close> holds the properties.
\<close>

section \<open>State\<close>

datatype slo_mode = SLO_NONE | IOPS_TARGET | TAIL_TARGET

text \<open>\<^verbatim>\<open>struct UserAccount\<close>; the queue of latency samples is never used and left out.\<close>

record account =
  weight :: u64
  creditCap :: u64
  credit :: u64
  carry :: fl
  totalConsumed :: u64
  consumedHost :: u64
  consumedISC :: u64
  isSLO :: bool
  isActive :: bool
  lastRefillTick :: tick
  idlePeriods :: u32
  pendingGates :: u64
  queueHost :: "hil_request list"
  queueISC :: "hil_request list"
  sloMode :: slo_mode
  targetIOPS :: fl
  winStartTick :: tick
  winHostPages :: u64
  winHostIOs :: u64
  tailPercentile :: fl
  tailTargetUs :: u64
  budgetBoost :: fl

record deferred_request =
  drReq :: hil_request
  drPages :: u64
  drDeferTime :: tick

text \<open>Contexts and callbacks of the callers are identified by numbers; \<open>dcResume\<close> tells a callback that is not null.\<close>

record deferred_custom =
  dcUid :: u32
  dcPages :: u64
  dcDeferTime :: tick
  dcCtx :: nat
  dcResume :: bool

record deferred_icl =
  diReq :: icl_request
  diUid :: u32
  diTick :: tick
  diLatency :: u64
  diPages :: u64
  diDeferTime :: tick

record isc_deferred =
  idUid :: u32
  idPages :: u64
  idContext :: nat
  idSubmitTick :: tick
  idLatency :: u64

text \<open>
  What the scheduler calls: the cache layer, the simulator (\<^verbatim>\<open>getTick\<close>, \<^verbatim>\<open>schedule\<close>) and
  the callbacks of its clients, which act on a state of their own; and the traversal order
  of the \<^verbatim>\<open>std::unordered_map\<close> of users, given the keys in the order of their insertion.
\<close>

record 'w cs_env =
  eICLRead :: "'w \<Rightarrow> icl_request \<Rightarrow> tick \<Rightarrow> 'w \<times> tick"
  eICLWrite :: "'w \<Rightarrow> icl_request \<Rightarrow> tick \<Rightarrow> 'w \<times> tick"
  eGetTick :: "'w \<Rightarrow> tick"
  eSchedule :: "'w \<Rightarrow> tick \<Rightarrow> 'w"
  eResume :: "'w \<Rightarrow> nat \<Rightarrow> tick \<Rightarrow> 'w"
  eCallback :: "'w \<Rightarrow> nat \<Rightarrow> tick \<Rightarrow> 'w"
  eOrder :: "u32 list \<Rightarrow> u32 list"

text \<open>\<open>lastStatTick\<close> and \<open>statInitialized\<close> are the static variables of \<^verbatim>\<open>tick()\<close>.\<close>

record 'w cs =
  adminQueue :: "hil_request list"
  users :: "u32 \<rightharpoonup> account"
  userKeys :: "u32 list"
  lastChosenUid :: u32
  lastChosenUidISC :: u32
  inTick :: bool
  timerStarted :: bool
  periodTicks :: u64
  ticksPerSec :: u64
  statUsers :: "u32 list"
  pagesPerPeriod :: fl
  totalWeight :: u64
  lastGlobalRefillTick :: tick
  lastStatTick :: tick
  statInitialized :: bool
  deferredQueue :: "deferred_request list"
  deferredISC :: "deferred_custom list"
  deferredICL :: "deferred_icl list"
  deferredISCRequests :: "isc_deferred list"
  csWorld :: 'w

definition PageSz :: u64 where "PageSz = 4096"
definition PagesPerSec :: nat where "PagesPerSec = 12000"

definition pagesOf :: "u64 \<Rightarrow> u64" where
  "pagesOf len = (len + PageSz - 1) div PageSz"

abbreviation isHostOp :: "op_type \<Rightarrow> bool" where
  "isHostOp op \<equiv> op = OP_READ \<or> op = OP_WRITE"

definition keysInOrder :: "'w cs_env \<Rightarrow> 'w cs \<Rightarrow> u32 list" where
  "keysInOrder E s = eOrder E (userKeys s)"

definition updAcc :: "u32 \<Rightarrow> (account \<Rightarrow> account) \<Rightarrow> 'w cs \<Rightarrow> 'w cs" where
  "updAcc uid f s = s\<lparr>users := (users s)(uid := map_option f (users s uid))\<rparr>"

definition fl_u64 :: "u64 \<Rightarrow> fl" where
  "fl_u64 x = fl_of_nat f64 (unat x)"

section \<open>User accounts\<close>

text \<open>The account of a user; a new one is inserted on first use.\<close>

definition newAccount :: "u64 \<Rightarrow> tick \<Rightarrow> account" where
  "newAccount cap now =
     \<lparr>weight = 1, creditCap = (if cap < 50 then 50 else cap), credit = 0, carry = Fin 0,
      totalConsumed = 0, consumedHost = 0, consumedISC = 0, isSLO = False, isActive = False,
      lastRefillTick = 0, idlePeriods = 0, pendingGates = 0, queueHost = [], queueISC = [],
      sloMode = SLO_NONE, targetIOPS = Fin 0, winStartTick = now, winHostPages = 0, winHostIOs = 0,
      tailPercentile = Fin 0, tailTargetUs = 0, budgetBoost = Fin 1\<rparr>"

definition getOrCreateUser :: "'w cs_env \<Rightarrow> u32 \<Rightarrow> 'w cs \<Rightarrow> (account \<times> 'w cs) res" where
  "getOrCreateUser E uid s =
     (case users s uid of
        Some acc \<Rightarrow> Inr (acc, s)
      | None \<Rightarrow>
          bindR (fl_to_u64 (fl_mul f64 (pagesPerPeriod s) (Fin 2000))) (\<lambda>cap.
            let acc = newAccount cap (eGetTick E (csWorld s));
                keys = userKeys s @ [uid];
                us = (users s)(uid \<mapsto> acc)
            in Inr (acc, s\<lparr>users := us, userKeys := keys,
                           totalWeight := (\<Sum>k\<leftarrow>keys. case us k of None \<Rightarrow> 0 | Some a \<Rightarrow> weight a)\<rparr>)))"

definition activate :: "'w cs_env \<Rightarrow> u32 \<Rightarrow> 'w cs \<Rightarrow> 'w cs" where
  "activate E uid s =
     (case users s uid of
        None \<Rightarrow> s
      | Some acc \<Rightarrow>
          if isActive acc then s
          else
            let s = updAcc uid (\<lambda>a. a\<lparr>isActive := True, credit := 0, idlePeriods := 0,
                                      lastRefillTick := eGetTick E (csWorld s)\<rparr>) s
            in if timerStarted s then s
               else
                 let first = eGetTick E (csWorld s) + periodTicks s
                 in s\<lparr>lastGlobalRefillTick := first, csWorld := eSchedule E (csWorld s) first, timerStarted := True\<rparr>)"

definition ensureActiveUser :: "'w cs_env \<Rightarrow> u32 \<Rightarrow> 'w cs \<Rightarrow> 'w cs res" where
  "ensureActiveUser E uid s = bindR (getOrCreateUser E uid s) (\<lambda>(_, s). Inr (activate E uid s))"

definition CreditScheduler_new :: "'w cs_env \<Rightarrow> u64 \<Rightarrow> u64 \<Rightarrow> tick \<Rightarrow> bool \<Rightarrow> 'w \<Rightarrow> 'w cs res" where
  "CreditScheduler_new E period_ticks ticks_per_sec statTick statInit w =
     (let s = \<lparr>adminQueue = [], users = Map.empty, userKeys = [], lastChosenUid = 0, lastChosenUidISC = 0,
               inTick = False, timerStarted = False, periodTicks = period_ticks, ticksPerSec = ticks_per_sec,
               statUsers = [1001, 1002, 1003],
               pagesPerPeriod = fl_div f64 (fl_mul f64 (fl_of_nat f64 PagesPerSec) (fl_u64 period_ticks)) (fl_u64 ticks_per_sec),
               totalWeight = 0, lastGlobalRefillTick = 0, lastStatTick = statTick, statInitialized = statInit,
               deferredQueue = [], deferredISC = [], deferredICL = [], deferredISCRequests = [], csWorld = w\<rparr>
      in foldR (\<lambda>uid s. bindR (getOrCreateUser E uid s) (\<lambda>(_, s).
           Inr (updAcc uid (\<lambda>a. a\<lparr>isActive := False, credit := 0, lastRefillTick := eGetTick E (csWorld s)\<rparr>) s)))
         (statUsers s) s)"

definition submitRequest :: "'w cs_env \<Rightarrow> hil_request \<Rightarrow> 'w cs \<Rightarrow> 'w cs res" where
  "submitRequest E req s =
     (if hrUserID req = 0 then Inr (s\<lparr>adminQueue := adminQueue s @ [req]\<rparr>)
      else
        bindR (getOrCreateUser E (hrUserID req) s) (\<lambda>(_, s).
          let s = (if hrOp req = OP_CREDIT_ONLY \<or> hrOp req = OP_ISC_RESULT then
                     updAcc (hrUserID req) (\<lambda>a. a\<lparr>
                       pendingGates := (if hrOp req = OP_CREDIT_ONLY then pendingGates a + 1 else pendingGates a),
                       queueISC := req # queueISC a\<rparr>) s
                   else updAcc (hrUserID req) (\<lambda>a. a\<lparr>queueHost := queueHost a @ [req]\<rparr>) s)
          in Inr (activate E (hrUserID req) s)))"

section \<open>Paying and dispatching\<close>

text \<open>Takes \<open>pages\<close> from the credit; \<open>host\<close> tells which class is charged.\<close>

definition pay :: "bool \<Rightarrow> u64 \<Rightarrow> account \<Rightarrow> account" where
  "pay host pages a =
     a\<lparr>credit := credit a - pages, totalConsumed := totalConsumed a + pages,
       consumedHost := (if host then consumedHost a + pages else consumedHost a),
       consumedISC := (if host then consumedISC a else consumedISC a + pages)\<rparr>"

definition tryDispatchWithCredit :: "'w cs_env \<Rightarrow> hil_request \<Rightarrow> tick \<Rightarrow> 'w cs \<Rightarrow> (bool \<times> 'w cs) res" where
  "tryDispatchWithCredit E req now s =
     (let pages = pagesOf (hrLength req)
      in bindR (getOrCreateUser E (hrUserID req) s) (\<lambda>(acc, s).
           if credit acc < pages then
             Inr (False, s\<lparr>deferredQueue := deferredQueue s @ [\<lparr>drReq = req, drPages = pages, drDeferTime = now\<rparr>]\<rparr>)
           else Inr (True, updAcc (hrUserID req) (pay (isHostOp (hrOp req)) pages) s)))"

definition dispatchICL :: "'w cs_env \<Rightarrow> hil_request \<Rightarrow> 'w cs \<times> tick \<Rightarrow> ('w cs \<times> tick) res" where
  "dispatchICL E req = (\<lambda>(s, t).
     let (w, t) = (case hrOp req of
                     OP_READ \<Rightarrow> eICLRead E (csWorld s) (ICL_Request_hil req) t
                   | OP_WRITE \<Rightarrow> eICLWrite E (csWorld s) (ICL_Request_hil req) t
                   | _ \<Rightarrow> (csWorld s, t));
         s = s\<lparr>csWorld := w\<rparr>
     in if isHostOp (hrOp req) then
          bindR (getOrCreateUser E (hrUserID req) s) (\<lambda>(_, s).
            Inr (updAcc (hrUserID req) (\<lambda>a. a\<lparr>winHostPages := winHostPages a + pagesOf (hrLength req),
                                               winHostIOs := winHostIOs a + 1\<rparr>) s, t))
        else Inr (s, t))"

section \<open>Refilling at a phase\<close>

definition idleStep :: "account \<Rightarrow> account" where
  "idleStep a =
     (if isActive a then
        a\<lparr>idlePeriods := (if queueHost a = [] \<and> queueISC a = [] then
                            (if idlePeriods a < - 1 then idlePeriods a + 1 else idlePeriods a)
                          else 0)\<rparr>
      else a)"

definition headroom :: "account \<Rightarrow> u64" where
  "headroom a = (if credit a \<ge> creditCap a then 0 else creditCap a - credit a)"

text \<open>The active weight of the users with a service level objective, or of the others.\<close>

definition activeWeight :: "'w cs_env \<Rightarrow> bool \<Rightarrow> 'w cs \<Rightarrow> u64" where
  "activeWeight E slo s =
     (\<Sum>k\<leftarrow>keysInOrder E s. case users s k of
        None \<Rightarrow> 0
      | Some a \<Rightarrow> if isActive a \<and> isSLO a = slo then weight a else 0)"

record slo_demand =
  sdUid :: u32
  sdDemand :: u64
  sdHeadroom :: u64
  sdGrant :: u64
  sdCarry :: fl

text \<open>The first round: what each active user with an objective asks for.\<close>

definition sloDemandOf :: "'w cs \<Rightarrow> u64 \<Rightarrow> u32 \<Rightarrow> account \<Rightarrow> slo_demand res" where
  "sloDemandOf s wSLO uid a =
     (let periodSec = fl_div f64 (fl_u64 (periodTicks s)) (fl_u64 (ticksPerSec s));
          byWeight = fl_div f64 (fl_mul f64 (pagesPerPeriod s) (fl_u64 (weight a))) (fl_u64 wSLO);
          demandRaw = (case sloMode a of
                         IOPS_TARGET \<Rightarrow> fl_mul f64 (targetIOPS a) periodSec
                       | TAIL_TARGET \<Rightarrow> fl_mul f64 byWeight (budgetBoost a)
                       | SLO_NONE \<Rightarrow> byWeight);
          sm = fl_add f64 demandRaw (carry a)
      in bindR (fl_to_u64 sm) (\<lambda>target.
           Inr \<lparr>sdUid = uid, sdDemand = target, sdHeadroom = headroom a, sdGrant = 0,
                sdCarry = fl_sub f64 sm (fl_floor sm)\<rparr>))"

definition sloDemands :: "'w cs_env \<Rightarrow> u64 \<Rightarrow> 'w cs \<Rightarrow> slo_demand list res" where
  "sloDemands E wSLO s =
     foldR (\<lambda>k ds. case users s k of
         None \<Rightarrow> Inr ds
       | Some a \<Rightarrow> if isActive a \<and> isSLO a then bindR (sloDemandOf s wSLO k a) (\<lambda>d. Inr (ds @ [d])) else Inr ds)
       (keysInOrder E s) []"

text \<open>The second round: all demands are granted up to the cap, or all are scaled down.\<close>

definition sloGrants :: "fl \<Rightarrow> slo_demand list \<Rightarrow> (slo_demand list \<times> fl) res" where
  "sloGrants budget ds =
     bindR (fl_to_u64 budget) (\<lambda>capacityInt.
       let totalDemand = (\<Sum>d\<leftarrow>ds. sdDemand d)
       in if totalDemand \<le> capacityInt then
            (let ds = map (\<lambda>d. d\<lparr>sdGrant := min (sdDemand d) (sdHeadroom d)\<rparr>) ds
             in Inr (ds, fl_u64 (capacityInt - (\<Sum>d\<leftarrow>ds. sdGrant d))))
          else
            (let scale = (if totalDemand > 0 then fl_div f64 (fl_u64 capacityInt) (fl_u64 totalDemand) else Fin 1)
             in bindR (foldR (\<lambda>d out. bindR (fl_to_u64 (fl_floor (fl_mul f64 (fl_u64 (sdDemand d)) scale))) (\<lambda>scaled.
                         Inr (out @ [d\<lparr>sdGrant := min scaled (sdHeadroom d)\<rparr>]))) ds []) (\<lambda>ds. Inr (ds, Fin 0))))"

text \<open>The third round.\<close>

definition applyGrants :: "slo_demand list \<Rightarrow> 'w cs \<Rightarrow> 'w cs" where
  "applyGrants ds s =
     foldl (\<lambda>s d. updAcc (sdUid d) (\<lambda>a. a\<lparr>credit := credit a + sdGrant d, carry := sdCarry d,
                                         lastRefillTick := lastGlobalRefillTick s\<rparr>) s) s ds"

text \<open>The share of a best-effort user in what is left.\<close>

definition beRefill :: "fl \<Rightarrow> u64 \<Rightarrow> tick \<Rightarrow> account \<Rightarrow> account res" where
  "beRefill spillToBE wBE phase a =
     (let exact = fl_mul f64 spillToBE (fl_div f64 (fl_u64 (weight a)) (fl_u64 wBE));
          sm = fl_add f64 exact (carry a)
      in bindR (fl_to_u64 sm) (\<lambda>target.
           let add = (if target > headroom a then headroom a else target)
           in Inr (a\<lparr>carry := fl_sub f64 sm (fl_u64 add), credit := credit a + add, lastRefillTick := phase\<rparr>)))"

definition beRefillAll :: "'w cs_env \<Rightarrow> fl \<Rightarrow> u64 \<Rightarrow> 'w cs \<Rightarrow> 'w cs res" where
  "beRefillAll E spillToBE wBE s =
     foldR (\<lambda>k s. case users s k of
         None \<Rightarrow> Inr s
       | Some a \<Rightarrow>
           if \<not> isActive a \<or> isSLO a then Inr s
           else bindR (beRefill spillToBE wBE (lastGlobalRefillTick s) a) (\<lambda>a. Inr (s\<lparr>users := (users s)(k \<mapsto> a)\<rparr>)))
       (keysInOrder E s) s"

definition refillPhase :: "'w cs_env \<Rightarrow> 'w cs \<Rightarrow> 'w cs res" where
  "refillPhase E s =
     (let s = s\<lparr>users := map_option idleStep \<circ> users s\<rparr>;
          activeWSLO = activeWeight E True s;
          activeWBE = activeWeight E False s
      in bindR (if activeWSLO > 0 then
                  bindR (sloDemands E activeWSLO s) (\<lambda>ds.
                  bindR (sloGrants (pagesPerPeriod s) ds) (\<lambda>(ds, spill). Inr (applyGrants ds s, spill)))
                else Inr (s, pagesPerPeriod s)) (\<lambda>(s, spillToBE).
         bindR (if fl_lt (Fin 0) spillToBE \<and> activeWBE > 0 then beRefillAll E spillToBE activeWBE s else Inr s) (\<lambda>s.
           Inr (s\<lparr>lastGlobalRefillTick := lastGlobalRefillTick s + periodTicks s\<rparr>))))"

text \<open>
  The loop over the phases that are due. The number of rounds allowed is one more than the
  number of periods up to \<open>now\<close>; a loop that needs more has wrapped around or has a zero
  period and does not end.
\<close>

fun refillLoop :: "nat \<Rightarrow> 'w cs_env \<Rightarrow> tick \<Rightarrow> 'w cs \<Rightarrow> 'w cs res" where
  "refillLoop n E now s =
     (if timerStarted s \<and> now \<ge> lastGlobalRefillTick s then
        (case n of
           0 \<Rightarrow> Inl (Undefined ''refill loop does not end'')
         | Suc m \<Rightarrow> bindR (refillPhase E s) (refillLoop m E now))
      else Inr s)"

declare refillLoop.simps [simp del]

definition refillFuel :: "tick \<Rightarrow> 'w cs \<Rightarrow> nat" where
  "refillFuel now s = (if periodTicks s = 0 then 0 else Suc (unat now div unat (periodTicks s)))"

section \<open>One tick\<close>

text \<open>The measuring window of the users with an objective.\<close>

definition measureWindow :: "tick \<Rightarrow> 'w cs \<Rightarrow> 'w cs" where
  "measureWindow now s =
     (let s = (if statInitialized s then s else s\<lparr>lastStatTick := now, statInitialized := True\<rparr>)
      in if now - lastStatTick s \<ge> ticksPerSec s then
           s\<lparr>users := (\<lambda>k. map_option (\<lambda>a. if isActive a \<and> isSLO a then a\<lparr>winHostPages := 0, winHostIOs := 0\<rparr> else a)
                                 (users s k)),
             lastStatTick := now\<rparr>
         else s)"

definition dispatchAdmin :: "'w cs_env \<Rightarrow> 'w cs \<times> tick \<Rightarrow> ('w cs \<times> tick) res" where
  "dispatchAdmin E = (\<lambda>(s, now). foldR (dispatchICL E) (adminQueue s) (s\<lparr>adminQueue := []\<rparr>, now))"

text \<open>Each request that was deferred before is tried once, in order; who cannot pay waits on.\<close>

fun runDeferred :: "nat \<Rightarrow> 'w cs_env \<Rightarrow> 'w cs \<times> tick \<Rightarrow> ('w cs \<times> tick) res" where
  "runDeferred 0 E sn = Inr sn"
| "runDeferred (Suc n) E (s, now) =
     (case deferredQueue s of
        [] \<Rightarrow> Inl (Undefined ''front of an empty queue'')
      | dr # rest \<Rightarrow>
          bindR (getOrCreateUser E (hrUserID (drReq dr)) (s\<lparr>deferredQueue := rest\<rparr>)) (\<lambda>(acc, s).
          if credit acc \<ge> drPages dr then
            (let s = updAcc (hrUserID (drReq dr)) (pay (isHostOp (hrOp (drReq dr))) (drPages dr)) s
             in bindR (dispatchICL E (drReq dr) (s\<lparr>inTick := False\<rparr>, now)) (\<lambda>(s, now).
                  runDeferred n E (s\<lparr>inTick := True\<rparr>, now)))
          else runDeferred n E (s\<lparr>deferredQueue := deferredQueue s @ [dr]\<rparr>, now)))"

fun runDeferredISC :: "nat \<Rightarrow> 'w cs_env \<Rightarrow> tick \<Rightarrow> 'w cs \<Rightarrow> 'w cs res" where
  "runDeferredISC 0 E now s = Inr s"
| "runDeferredISC (Suc n) E now s =
     (case deferredISC s of
        [] \<Rightarrow> Inl (Undefined ''front of an empty queue'')
      | dc # rest \<Rightarrow>
          bindR (getOrCreateUser E (dcUid dc) (s\<lparr>deferredISC := rest\<rparr>)) (\<lambda>(acc, s).
          if credit acc \<ge> dcPages dc then
            (let s = updAcc (dcUid dc) (pay False (dcPages dc)) s;
                 s = (if dcResume dc then s\<lparr>csWorld := eResume E (csWorld s) (dcCtx dc) now, inTick := True\<rparr> else s)
             in runDeferredISC n E now s)
          else runDeferredISC n E now (s\<lparr>deferredISC := deferredISC s @ [dc]\<rparr>)))"

text \<open>The callback of the request's context runs, if there is one, and the context is freed.\<close>

definition executeISCRequest :: "'w cs_env \<Rightarrow> nat option \<Rightarrow> tick \<Rightarrow> 'w cs \<Rightarrow> 'w cs" where
  "executeISCRequest E ctx t s =
     (case ctx of None \<Rightarrow> s | Some c \<Rightarrow> s\<lparr>csWorld := eCallback E (csWorld s) c t\<rparr>)"

definition processISCRequests :: "'w cs_env \<Rightarrow> tick \<Rightarrow> 'w cs \<Rightarrow> 'w cs res" where
  "processISCRequests E currentTick s =
     bindR (foldR (\<lambda>req (s, remaining).
         bindR (getOrCreateUser E (idUid req) s) (\<lambda>(acc, s).
           if credit acc \<ge> idPages req then
             (let waitTime = currentTick - idSubmitTick req;
                  executionTick = idSubmitTick req + waitTime;
                  s = updAcc (idUid req) (pay False (idPages req)) s
              in Inr (executeISCRequest E (Some (idContext req)) executionTick s, remaining))
           else Inr (s, remaining @ [req]))) (deferredISCRequests s) (s\<lparr>deferredISCRequests := []\<rparr>, []))
       (\<lambda>(s, remaining). Inr (s\<lparr>deferredISCRequests := remaining\<rparr>))"

text \<open>The users in the order of the round robin: from the one behind the last chosen, around the table.\<close>

definition scanOrder :: "u32 list \<Rightarrow> u32 \<Rightarrow> u32 list" where
  "scanOrder keys lastUid =
     (case List.extract (\<lambda>k. k = lastUid) keys of
        None \<Rightarrow> keys
      | Some (pre, k, post) \<Rightarrow> if post = [] then keys else post @ pre @ [k])"

fun scanHost :: "'w cs_env \<Rightarrow> u32 list \<Rightarrow> 'w cs \<times> tick \<Rightarrow> (bool \<times> 'w cs \<times> tick) res" where
  "scanHost E [] (s, now) = Inr (False, s, now)"
| "scanHost E (k # ks) (s, now) =
     (case users s k of
        None \<Rightarrow> Inl (Undefined ''dereference of users.end()'')
      | Some acc \<Rightarrow>
          (case queueHost acc of
             [] \<Rightarrow> scanHost E ks (s, now)
           | req # rest \<Rightarrow>
               bindR (tryDispatchWithCredit E req now s) (\<lambda>(ok, s).
               if ok then
                 bindR (dispatchICL E req ((updAcc k (\<lambda>a. a\<lparr>queueHost := tl (queueHost a)\<rparr>) s)
                                             \<lparr>lastChosenUid := k, inTick := False\<rparr>, now)) (\<lambda>(s, now).
                   Inr (True, s\<lparr>inTick := True\<rparr>, now))
               else scanHost E ks (updAcc k (\<lambda>a. a\<lparr>queueHost := tl (queueHost a)\<rparr>) s, now))))"

fun scanISC :: "u32 list \<Rightarrow> 'w cs \<times> tick \<Rightarrow> (bool \<times> 'w cs \<times> tick) res" where
  "scanISC [] (s, now) = Inr (False, s, now)"
| "scanISC (k # ks) (s, now) =
     (case users s k of
        None \<Rightarrow> Inl (Undefined ''dereference of users.end()'')
      | Some acc \<Rightarrow>
          (case queueISC acc of
             [] \<Rightarrow> scanISC ks (s, now)
           | req # rest \<Rightarrow>
               let need = pagesOf (hrLength req)
               in if credit acc \<ge> need then
                    Inr (True, (updAcc k (\<lambda>a. (pay False need a)\<lparr>queueISC := tl (queueISC a)\<rparr>) s)\<lparr>lastChosenUidISC := k\<rparr>, now)
                  else
                    scanISC ks ((updAcc k (\<lambda>a. a\<lparr>queueISC := tl (queueISC a)\<rparr>) s)
                      \<lparr>deferredQueue := deferredQueue s @ [\<lparr>drReq = req, drPages = need, drDeferTime = now\<rparr>]\<rparr>, now)))"

definition dispatchOne :: "'w cs_env \<Rightarrow> 'w cs \<times> tick \<Rightarrow> (bool \<times> 'w cs \<times> tick) res" where
  "dispatchOne E = (\<lambda>(s, now).
     bindR (scanISC (scanOrder (keysInOrder E s) (lastChosenUidISC s)) (s, now)) (\<lambda>(ok, s, now).
       if ok then Inr (True, s, now)
       else scanHost E (scanOrder (keysInOrder E s) (lastChosenUid s)) (s, now)))"

fun dispatchRounds :: "nat \<Rightarrow> 'w cs_env \<Rightarrow> 'w cs \<times> tick \<Rightarrow> ('w cs \<times> tick) res" where
  "dispatchRounds 0 E sn = Inr sn"
| "dispatchRounds (Suc n) E sn =
     bindR (dispatchOne E sn) (\<lambda>(ok, sn). if ok then dispatchRounds n E sn else Inr sn)"

definition MAX_DISPATCH_PER_TICK :: nat where "MAX_DISPATCH_PER_TICK = 4096"

text \<open>Steps (2) and (3) of a tick: everything that is paid from the credit.\<close>

definition dispatchAll :: "'w cs_env \<Rightarrow> 'w cs \<times> tick \<Rightarrow> ('w cs \<times> tick) res" where
  "dispatchAll E = (\<lambda>(s, now).
     bindR (runDeferred (length (deferredQueue s)) E (s, now)) (\<lambda>(s, now).
     bindR (runDeferredISC (length (deferredISC s)) E now s) (\<lambda>s.
     bindR (processISCRequests E now s) (\<lambda>s.
       if userKeys s = [] then Inr (s, now) else dispatchRounds MAX_DISPATCH_PER_TICK E (s, now)))))"

definition CreditScheduler_tick :: "'w cs_env \<Rightarrow> 'w cs \<times> tick \<Rightarrow> ('w cs \<times> tick) res" where
  "CreditScheduler_tick E = (\<lambda>(s, now).
     if inTick s then Inr (s, now)
     else
       bindR (dispatchAdmin E (measureWindow now (s\<lparr>inTick := True\<rparr>), now)) (\<lambda>(s, now).
       bindR (refillLoop (refillFuel now s) E now s) (\<lambda>s.
       bindR (dispatchAll E (s, now)) (\<lambda>(s, now).
         Inr (s\<lparr>inTick := False\<rparr>, now)))))"

definition processEvent :: "'w cs_env \<Rightarrow> tick \<Rightarrow> 'w cs \<Rightarrow> 'w cs res" where
  "processEvent E now s =
     bindR (CreditScheduler_tick E (s, now)) (\<lambda>(s, _).
       Inr (s\<lparr>csWorld := eSchedule E (csWorld s) (lastGlobalRefillTick s)\<rparr>))"

section \<open>Deferred work of the in-storage computing runtime\<close>

definition submitISCDeferred :: "'w cs_env \<Rightarrow> u32 \<Rightarrow> u64 \<Rightarrow> nat \<Rightarrow> bool \<Rightarrow> 'w cs \<Rightarrow> 'w cs" where
  "submitISCDeferred E uid pages ctx cb s =
     s\<lparr>deferredISC := deferredISC s @
        [\<lparr>dcUid = uid, dcPages = pages, dcDeferTime = eGetTick E (csWorld s), dcCtx = ctx, dcResume = cb\<rparr>]\<rparr>"

definition predictISCLatency :: "u64 \<Rightarrow> 'w cs \<Rightarrow> u64" where
  "predictISCLatency pages s =
     (let refillPeriod = 10000000;
          avgRefillAmount = 100;
          estimatedCycles = (pages + avgRefillAmount - 1) div avgRefillAmount;
          queuePenalty = word_of_nat (length (deferredISCRequests s)) * refillPeriod div 2
      in estimatedCycles * refillPeriod + queuePenalty)"

definition submitISCRequest :: "'w cs_env \<Rightarrow> u32 \<Rightarrow> u64 \<Rightarrow> nat option \<Rightarrow> 'w cs \<Rightarrow> (bool \<times> 'w cs) res" where
  "submitISCRequest E uid pages iscContext s =
     (case iscContext of
        None \<Rightarrow> Inr (False, s)
      | Some ctx \<Rightarrow>
          bindR (ensureActiveUser E uid s) (\<lambda>s.
          bindR (getOrCreateUser E uid s) (\<lambda>(acc, s).
            if credit acc \<ge> pages then
              (let s = updAcc uid (pay False pages) s
               in Inr (True, executeISCRequest E (Some ctx) (eGetTick E (csWorld s)) s))
            else
              Inr (True, s\<lparr>deferredISCRequests := deferredISCRequests s @
                [\<lparr>idUid = uid, idPages = pages, idContext = ctx, idSubmitTick = eGetTick E (csWorld s),
                  idLatency = predictISCLatency pages s\<rparr>]\<rparr>))))"

definition predictICLLatency :: "icl_request \<Rightarrow> u64" where
  "predictICLLatency req = nlp (icRange req) * 100"

definition submitICLDeferred :: "'w cs_env \<Rightarrow> icl_request \<Rightarrow> u32 \<Rightarrow> tick \<Rightarrow> u64 \<Rightarrow> u64 \<Rightarrow> 'w cs \<Rightarrow> 'w cs" where
  "submitICLDeferred E req uid t latency pages s =
     s\<lparr>deferredICL := deferredICL s @
        [\<lparr>diReq = req, diUid = uid, diTick = t, diLatency = latency, diPages = pages,
          diDeferTime = eGetTick E (csWorld s)\<rparr>]\<rparr>"

section \<open>Queries and charges from outside\<close>

definition pendingForUser :: "u32 \<Rightarrow> 'w cs \<Rightarrow> bool" where
  "pendingForUser uid s = (case users s uid of None \<Rightarrow> False | Some a \<Rightarrow> pendingGates a \<noteq> 0)"

definition checkCredit :: "u32 \<Rightarrow> u64 \<Rightarrow> 'w cs \<Rightarrow> bool" where
  "checkCredit uid need s =
     (case users s uid of
        None \<Rightarrow> True
      | Some acc \<Rightarrow>
          if credit acc \<ge> need then True
          else if credit acc = 0 \<and> creditCap acc > 0 \<and> totalConsumed acc = 0 then True
          else False)"

definition useCredit :: "'w cs_env \<Rightarrow> u32 \<Rightarrow> u64 \<Rightarrow> 'w cs \<Rightarrow> 'w cs res" where
  "useCredit E uid used s =
     bindR (getOrCreateUser E uid s) (\<lambda>(acc, s).
       let take = (if used > credit acc then credit acc else used)
       in Inr (updAcc uid (\<lambda>a. a\<lparr>credit := credit a - take, totalConsumed := totalConsumed a + take\<rparr>) s))"

definition useCreditISC :: "'w cs_env \<Rightarrow> u32 \<Rightarrow> u64 \<Rightarrow> 'w cs \<Rightarrow> 'w cs res" where
  "useCreditISC E uid used s =
     bindR (getOrCreateUser E uid s) (\<lambda>(acc, s).
       let take = (if used > credit acc then credit acc else used)
       in Inr (updAcc uid (pay False take) s))"

definition getUserCredit :: "u32 \<Rightarrow> 'w cs \<Rightarrow> u64" where
  "getUserCredit uid s = (case users s uid of None \<Rightarrow> 0 | Some a \<Rightarrow> credit a)"

definition getUserWeight :: "u32 \<Rightarrow> 'w cs \<Rightarrow> u64" where
  "getUserWeight uid s = (case users s uid of None \<Rightarrow> 1 | Some a \<Rightarrow> weight a)"

text \<open>
  The request is referenced after it was popped from the queue (an invalid reference in
  C++); the model reads the popped value.
\<close>

definition processDeferredICL :: "'w cs_env \<Rightarrow> 'w cs \<Rightarrow> 'w cs res" where
  "processDeferredICL E s =
     bindR (foldR (\<lambda>d (s, remaining).
         if checkCredit (diUid d) (diPages d) s then
           bindR (useCreditISC E (diUid d) (diPages d) s) (\<lambda>s.
             Inr (s\<lparr>csWorld := fst (eICLRead E (csWorld s) (diReq d) (diTick d))\<rparr>, remaining))
         else Inr (s, remaining @ [d])) (deferredICL s) (s\<lparr>deferredICL := []\<rparr>, []))
       (\<lambda>(s, remaining). Inr (s\<lparr>deferredICL := remaining\<rparr>))"

definition setUserIopsTarget :: "'w cs_env \<Rightarrow> u32 \<Rightarrow> fl \<Rightarrow> 'w cs \<Rightarrow> 'w cs res" where
  "setUserIopsTarget E uid iops s =
     bindR (getOrCreateUser E uid s) (\<lambda>(_, s).
       Inr (updAcc uid (\<lambda>a. a\<lparr>sloMode := IOPS_TARGET, targetIOPS := iops, winStartTick := eGetTick E (csWorld s)\<rparr>) s))"

definition setUserTailTarget :: "'w cs_env \<Rightarrow> u32 \<Rightarrow> fl \<Rightarrow> u64 \<Rightarrow> 'w cs \<Rightarrow> 'w cs res" where
  "setUserTailTarget E uid percentile target_us s =
     bindR (getOrCreateUser E uid s) (\<lambda>(_, s).
       Inr (updAcc uid (\<lambda>a. a\<lparr>sloMode := TAIL_TARGET, tailPercentile := percentile, tailTargetUs := target_us,
                              winStartTick := eGetTick E (csWorld s)\<rparr>) s))"

text \<open>
  The statistics: the totals, the figures of the published users, and an estimate of the
  requests that wait for credit and of those that could go.
\<close>

fun readyPrefix :: "u64 \<Rightarrow> hil_request list \<Rightarrow> nat \<times> u64 \<times> hil_request list" where
  "readyPrefix left [] = (0, left, [])"
| "readyPrefix left (r # rs) =
     (if left \<ge> pagesOf (hrLength r) then
        (let (n, left, rest) = readyPrefix (left - pagesOf (hrLength r)) rs in (n + 1, left, rest))
      else (0, left, r # rs))"

definition readyPending :: "account \<Rightarrow> nat \<times> nat" where
  "readyPending a =
     (let (n, left, rest) = readyPrefix (credit a) (queueISC a)
      in if rest \<noteq> [] then (n, length rest)
         else let (m, _, rest) = readyPrefix left (queueHost a) in (n + m, length rest))"

definition getStatValues :: "'w cs_env \<Rightarrow> 'w cs \<Rightarrow> fl list" where
  "getStatValues E s =
     (let accs = List.map_filter (users s) (keysInOrder E s);
          per = (\<lambda>f. map (\<lambda>uid. case users s uid of None \<Rightarrow> Fin 0 | Some a \<Rightarrow> f a) (statUsers s));
          pending = length (deferredQueue s) + length (deferredISC s) + (\<Sum>a\<leftarrow>accs. snd (readyPending a));
          ready = length (adminQueue s) + (\<Sum>a\<leftarrow>accs. fst (readyPending a))
      in [fl_u64 (\<Sum>a\<leftarrow>accs. totalConsumed a)] @ per (\<lambda>a. fl_u64 (totalConsumed a)) @
         [fl_u64 (\<Sum>a\<leftarrow>accs. consumedHost a), fl_u64 (\<Sum>a\<leftarrow>accs. consumedISC a)] @
         per (\<lambda>a. fl_u64 (consumedHost a)) @ per (\<lambda>a. fl_u64 (consumedISC a)) @
         per (\<lambda>a. fl_of_nat f64 (length (queueHost a) + length (queueISC a))) @
         [fl_of_nat f64 pending, fl_of_nat f64 ready])"

definition resetStatValues :: "'w cs_env \<Rightarrow> 'w cs \<Rightarrow> 'w cs" where
  "resetStatValues E s =
     s\<lparr>users := (\<lambda>k. map_option (\<lambda>a. a\<lparr>credit := 0, carry := Fin 0, totalConsumed := 0, consumedHost := 0, consumedISC := 0,
                  isActive := False, lastRefillTick := eGetTick E (csWorld s), pendingGates := 0, queueISC := []\<rparr>)
                  (users s k)),
       adminQueue := [], lastChosenUid := 0, lastGlobalRefillTick := 0\<rparr>"

section \<open>Synchronous processing\<close>

definition hasPending :: "u32 \<Rightarrow> 'w cs \<Rightarrow> bool" where
  "hasPending uid s \<longleftrightarrow>
     (case users s uid of None \<Rightarrow> False | Some a \<Rightarrow> queueHost a \<noteq> [] \<or> queueISC a \<noteq> []) \<or>
     deferredQueue s \<noteq> [] \<or> deferredISC s \<noteq> []"

fun processLoop :: "nat \<Rightarrow> 'w cs_env \<Rightarrow> u32 \<Rightarrow> 'w cs \<times> tick \<Rightarrow> ('w cs \<times> tick) res" where
  "processLoop 0 E uid sn = Inr sn"
| "processLoop (Suc n) E uid sn =
     bindR (CreditScheduler_tick E sn) (\<lambda>(s, t).
       if hasPending uid s then processLoop n E uid (s, t + periodTicks s div 10) else Inr (s, t))"

definition maxIterations :: nat where "maxIterations = 1000000"

definition processUntil :: "'w cs_env \<Rightarrow> hil_request \<Rightarrow> tick \<Rightarrow> 'w cs \<Rightarrow> ('w cs \<times> tick) res" where
  "processUntil E req completionTick s =
     bindR (submitRequest E req s) (\<lambda>s. processLoop maxIterations E (hrUserID req) (s, completionTick))"

end
