(* ===== verification/Credit_Inv.thy ===== *)
theory Credit_Inv
  imports Credit
begin

text \<open>
  Properties of the credit scheduler: the account invariant in every reachable state, the
  books of a dispatch (what a user pays is what left the user's queues), the bounds of a
  refill and the end of the refill loop.
\<close>

section \<open>The account invariant\<close>

definition acc_ok :: "u32 \<Rightarrow> account \<Rightarrow> bool" where
  "acc_ok k a \<longleftrightarrow> credit a \<le> creditCap a \<and> \<not> isSLO a \<and> weight a = 1 \<and>
     (\<forall>r\<in>set (queueHost a) \<union> set (queueISC a). hrUserID r = k)"

definition cs_inv :: "'w cs \<Rightarrow> bool" where
  "cs_inv s \<longleftrightarrow> (\<forall>k a. users s k = Some a \<longrightarrow> acc_ok k a) \<and> set (userKeys s) = dom (users s) \<and> distinct (userKeys s)"

lemma cs_inv_frame [simp]:
  "cs_inv (s\<lparr>adminQueue := a\<rparr>) = cs_inv s" "cs_inv (s\<lparr>lastChosenUid := b\<rparr>) = cs_inv s"
  "cs_inv (s\<lparr>lastChosenUidISC := b\<rparr>) = cs_inv s" "cs_inv (s\<lparr>inTick := c\<rparr>) = cs_inv s"
  "cs_inv (s\<lparr>timerStarted := c\<rparr>) = cs_inv s" "cs_inv (s\<lparr>totalWeight := d\<rparr>) = cs_inv s"
  "cs_inv (s\<lparr>lastGlobalRefillTick := d\<rparr>) = cs_inv s" "cs_inv (s\<lparr>lastStatTick := d\<rparr>) = cs_inv s"
  "cs_inv (s\<lparr>statInitialized := c\<rparr>) = cs_inv s" "cs_inv (s\<lparr>deferredQueue := e\<rparr>) = cs_inv s"
  "cs_inv (s\<lparr>deferredISC := f\<rparr>) = cs_inv s" "cs_inv (s\<lparr>deferredICL := g\<rparr>) = cs_inv s"
  "cs_inv (s\<lparr>deferredISCRequests := h\<rparr>) = cs_inv s" "cs_inv (s\<lparr>csWorld := w\<rparr>) = cs_inv s"
  by (simp_all add: cs_inv_def)

lemma updAcc_inv:
  assumes "cs_inv s" "\<And>a. users s k = Some a \<Longrightarrow> acc_ok k a \<Longrightarrow> acc_ok k (f a)"
  shows "cs_inv (updAcc k f s)"
  using assms unfolding cs_inv_def updAcc_def by (cases "users s k") (auto simp: domIff)

lemma mapAcc_inv:
  assumes "cs_inv s" "\<And>k a. acc_ok k a \<Longrightarrow> acc_ok k (f a)"
    "users s' = (\<lambda>k. map_option f (users s k))" "userKeys s' = userKeys s"
  shows "cs_inv s'"
  using assms by (auto simp: cs_inv_def dom_def)

lemma users_updAcc [simp]: "users (updAcc k f s) = (users s)(k := map_option f (users s k))"
  by (simp add: updAcc_def)

lemma updAcc_fields [simp]:
  "adminQueue (updAcc k f s) = adminQueue s" "userKeys (updAcc k f s) = userKeys s"
  "deferredQueue (updAcc k f s) = deferredQueue s" "deferredISC (updAcc k f s) = deferredISC s"
  "deferredISCRequests (updAcc k f s) = deferredISCRequests s" "csWorld (updAcc k f s) = csWorld s"
  "timerStarted (updAcc k f s) = timerStarted s" "lastGlobalRefillTick (updAcc k f s) = lastGlobalRefillTick s"
  "periodTicks (updAcc k f s) = periodTicks s" "pagesPerPeriod (updAcc k f s) = pagesPerPeriod s"
  "ticksPerSec (updAcc k f s) = ticksPerSec s"
  by (simp_all add: updAcc_def)

lemma acc_ok_pay: "acc_ok k a \<Longrightarrow> pages \<le> credit a \<Longrightarrow> acc_ok k (pay h pages a)"
  by (auto simp: acc_ok_def pay_def intro: order_trans [OF word_sub_le])

text \<open>Creating the account of a user leaves all other accounts and all queues alone.\<close>

lemma getOrCreateUser_cases:
  assumes "getOrCreateUser E uid s = Inr (a, s')"
  obtains "users s uid = Some a" "s' = s"
  | cap ts where "users s uid = None" "a = newAccount cap (eGetTick E (csWorld s))"
      "s' = s\<lparr>users := (users s)(uid \<mapsto> a), userKeys := userKeys s @ [uid], totalWeight := ts\<rparr>"
  using assms by (auto simp: getOrCreateUser_def bindR_eq_Inr Let_def split: option.splits)

lemma acc_ok_new: "acc_ok k (newAccount cap t)"
  by (simp add: acc_ok_def newAccount_def)

lemma getOrCreateUser_inv:
  assumes "cs_inv s"
  shows "on_ok (getOrCreateUser E uid s) (\<lambda>(a, s'). cs_inv s' \<and> users s' uid = Some a)"
proof (rule on_okI)
  fix x assume x: "getOrCreateUser E uid s = Inr x"
  obtain a s' where as: "x = (a, s')" by (cases x)
  from x [unfolded as] show "case x of (a, s') \<Rightarrow> cs_inv s' \<and> users s' uid = Some a"
  proof (cases rule: getOrCreateUser_cases)
    case (2 cap ts)
    have "uid \<notin> set (userKeys s)" using assms 2(1) by (auto simp: cs_inv_def)
    with assms show ?thesis unfolding as 2(3) by (auto simp: cs_inv_def 2(2) acc_ok_new)
  qed (use assms as in simp)
qed

lemma activate_inv: "cs_inv s \<Longrightarrow> cs_inv (activate E uid s)"
  unfolding activate_def Let_def
  by (auto split: option.splits if_splits intro!: updAcc_inv simp: acc_ok_def)

text \<open>A rule for a call whose account is created on demand and then updated.\<close>

lemma on_ok_user:
  assumes "cs_inv s" and "\<And>a s'. cs_inv s' \<Longrightarrow> users s' uid = Some a \<Longrightarrow> on_ok (f (a, s')) Q"
  shows "on_ok (bindR (getOrCreateUser E uid s) f) Q"
  unfolding on_ok_bindR
  by (rule on_ok_mono [OF getOrCreateUser_inv [OF assms(1), of E uid]]) (use assms(2) in auto)

lemma submitRequest_inv: "cs_inv s \<Longrightarrow> on_ok (submitRequest E req s) cs_inv"
  unfolding submitRequest_def Let_def
  by (auto intro!: on_ok_user activate_inv updAcc_inv simp: acc_ok_def)

lemma dispatchICL_inv: "cs_inv s \<Longrightarrow> on_ok (dispatchICL E req (s, t)) (\<lambda>(s', _). cs_inv s')"
  unfolding dispatchICL_def Let_def prod.case
  by (auto split: prod.splits intro!: on_ok_user updAcc_inv simp: acc_ok_def)

lemma dispatchAdmin_inv: "cs_inv s \<Longrightarrow> on_ok (dispatchAdmin E (s, t)) (\<lambda>(s', _). cs_inv s')"
  unfolding dispatchAdmin_def prod.case
  by (rule foldR_on_ok [where I = "\<lambda>(s', _). cs_inv s'"]) (auto split: prod.splits intro: dispatchICL_inv)

lemma measureWindow_inv: "cs_inv s \<Longrightarrow> cs_inv (measureWindow t s)"
proof -
  assume I: "cs_inv s"
  define u where "u = (if statInitialized s then s else s\<lparr>lastStatTick := t, statInitialized := True\<rparr>)"
  have u: "cs_inv u" using I by (simp add: u_def)
  have "cs_inv (u\<lparr>users := (\<lambda>k. map_option (\<lambda>a. if isActive a \<and> isSLO a then a\<lparr>winHostPages := 0, winHostIOs := 0\<rparr> else a)
      (users u k)), lastStatTick := t\<rparr>)"
    by (rule mapAcc_inv [OF u]) (simp_all add: acc_ok_def)
  then show ?thesis using u by (simp add: measureWindow_def u_def [symmetric] Let_def)
qed

section \<open>Refilling\<close>

lemma headroom_le: "credit a \<le> creditCap a \<Longrightarrow> add \<le> headroom a \<Longrightarrow> unat (credit a + add) = unat (credit a) + unat add \<and> credit a + add \<le> creditCap a"
proof -
  assume c: "credit a \<le> creditCap a" and h: "add \<le> headroom a"
  have "unat add \<le> unat (creditCap a) - unat (credit a)"
  proof (cases "credit a \<ge> creditCap a")
    case True
    then have "add = 0" using h by (simp add: headroom_def)
    then show ?thesis by simp
  next
    case False
    then have "add \<le> creditCap a - credit a" using h by (simp add: headroom_def)
    then show ?thesis using c by (simp add: word_le_nat_alt unat_sub)
  qed
  moreover have "unat (credit a) \<le> unat (creditCap a)" using c by (simp add: word_le_nat_alt)
  ultimately have le: "unat (credit a) + unat add \<le> unat (creditCap a)" by simp
  moreover have "unat (creditCap a) < 2 ^ 64" using unsigned_less [where ?'a = nat and w = "creditCap a"] by simp
  ultimately have "unat (credit a + add) = unat (credit a) + unat add" by (simp add: unat_word_ariths(1))
  with le show ?thesis by (simp add: word_le_nat_alt)
qed

lemma beRefill_ok:
  assumes "acc_ok k a"
  shows "on_ok (beRefill spill w t a) (\<lambda>a'. acc_ok k a' \<and> credit a \<le> credit a' \<and>
    queueHost a' = queueHost a \<and> queueISC a' = queueISC a \<and> creditCap a' = creditCap a)"
proof -
  have c: "credit a \<le> creditCap a" using assms by (simp add: acc_ok_def)
  have "credit a \<le> credit a + add \<and> credit a + add \<le> creditCap a" if "add \<le> headroom a" for add
    using headroom_le [OF c that] by (simp add: word_le_nat_alt)
  note B = this
  show ?thesis
    unfolding beRefill_def Let_def on_ok_bindR
    by (rule on_okI) (use assms B in \<open>auto simp: acc_ok_def\<close>)
qed

lemma beRefillAll_inv: "cs_inv s \<Longrightarrow> on_ok (beRefillAll E spill w s) cs_inv"
  unfolding beRefillAll_def
proof (rule foldR_on_ok)
  fix k and s :: "'a cs" assume I: "cs_inv s"
  show "on_ok (case users s k of None \<Rightarrow> Inr s
       | Some a \<Rightarrow> if \<not> isActive a \<or> isSLO a then Inr s
           else bindR (beRefill spill w (lastGlobalRefillTick s) a) (\<lambda>a. Inr (s\<lparr>users := (users s)(k \<mapsto> a)\<rparr>))) cs_inv"
  proof (cases "users s k")
    case (Some a)
    then have "acc_ok k a" using I by (simp add: cs_inv_def)
    then have "on_ok (beRefill spill w (lastGlobalRefillTick s) a) (acc_ok k)" using beRefill_ok on_ok_mono by fast
    then show ?thesis using Some I
      by (auto simp: on_ok_bindR cs_inv_def elim!: on_ok_mono)
  qed (use I in simp)
qed

text \<open>Without a user that is marked for an objective the first branch of a phase is not taken.\<close>

lemma activeWeight_SLO: "cs_inv s \<Longrightarrow> activeWeight E True s = 0"
proof -
  assume "cs_inv s"
  then have "(case users s k of None \<Rightarrow> 0 | Some a \<Rightarrow> if isActive a \<and> isSLO a = True then weight a else 0) = 0" for k
    by (auto simp: cs_inv_def acc_ok_def split: option.splits)
  then show ?thesis by (simp add: activeWeight_def cong: map_cong)
qed

lemma idle_inv: "cs_inv s \<Longrightarrow> cs_inv (s\<lparr>users := map_option idleStep \<circ> users s\<rparr>)"
  by (erule mapAcc_inv [where f = idleStep]) (simp_all add: acc_ok_def idleStep_def comp_def)

definition bestEffortPhase :: "'w cs_env \<Rightarrow> 'w cs \<Rightarrow> 'w cs res" where
  "bestEffortPhase E s =
     (let s = s\<lparr>users := map_option idleStep \<circ> users s\<rparr>; wBE = activeWeight E False s
      in bindR (if fl_lt (Fin 0) (pagesPerPeriod s) \<and> wBE > 0 then beRefillAll E (pagesPerPeriod s) wBE s else Inr s) (\<lambda>s.
           Inr (s\<lparr>lastGlobalRefillTick := lastGlobalRefillTick s + periodTicks s\<rparr>)))"

lemma refillPhase_best_effort: "cs_inv s \<Longrightarrow> refillPhase E s = bestEffortPhase E s"
  using activeWeight_SLO [OF idle_inv, of s E] by (simp add: refillPhase_def bestEffortPhase_def Let_def)

lemma refillPhase_inv: "cs_inv s \<Longrightarrow> on_ok (refillPhase E s) cs_inv"
  unfolding refillPhase_best_effort bestEffortPhase_def Let_def
  using idle_inv [of s] by (auto simp: on_ok_bindR intro!: on_ok_mono [OF beRefillAll_inv])

lemma refillLoop_inv: "cs_inv s \<Longrightarrow> on_ok (refillLoop n E now s) cs_inv"
proof (induction n arbitrary: s)
  case 0
  then show ?case by (simp add: refillLoop.simps [of 0])
next
  case (Suc n)
  show ?case
    using Suc.prems
    by (simp add: refillLoop.simps [of "Suc n"] on_ok_bindR on_ok_mono [OF refillPhase_inv [OF Suc.prems]] Suc.IH)
qed

section \<open>The books of a dispatch\<close>

text \<open>The pages that the waiting requests of a user need.\<close>

definition queueDemand :: "u32 \<Rightarrow> 'w cs \<Rightarrow> u64" where
  "queueDemand k s = (case users s k of None \<Rightarrow> 0
     | Some a \<Rightarrow> (\<Sum>r\<leftarrow>queueHost a. pagesOf (hrLength r)) + (\<Sum>r\<leftarrow>queueISC a. pagesOf (hrLength r)))"

definition demand :: "u32 \<Rightarrow> 'w cs \<Rightarrow> u64" where
  "demand k s = queueDemand k s + (\<Sum>d\<leftarrow>deferredQueue s. if hrUserID (drReq d) = k then drPages d else 0) +
     (\<Sum>d\<leftarrow>deferredISC s. if dcUid d = k then dcPages d else 0) +
     (\<Sum>d\<leftarrow>deferredISCRequests s. if idUid d = k then idPages d else 0)"

definition consumedBy :: "u32 \<Rightarrow> 'w cs \<Rightarrow> u64" where
  "consumedBy k s = (case users s k of None \<Rightarrow> 0 | Some a \<Rightarrow> totalConsumed a)"

definition sameBooks :: "'w cs \<Rightarrow> 'w cs \<Rightarrow> bool" where
  "sameBooks s s' \<longleftrightarrow> (\<forall>k. getUserCredit k s' = getUserCredit k s \<and> consumedBy k s' = consumedBy k s \<and> demand k s' = demand k s)"

text \<open>
  Every page taken from a credit is a page of a request that left the queues, and is booked
  as consumed; no credit grows and none goes below zero.
\<close>

definition settles :: "'w cs \<Rightarrow> 'w cs \<Rightarrow> bool" where
  "settles s s' \<longleftrightarrow> (\<forall>k.
     getUserCredit k s' - demand k s' = getUserCredit k s - demand k s \<and>
     getUserCredit k s' + consumedBy k s' = getUserCredit k s + consumedBy k s \<and>
     getUserCredit k s' \<le> getUserCredit k s)"

lemma settles_refl: "settles s s"
  by (simp add: settles_def)

lemma settles_trans: "settles a b \<Longrightarrow> settles b c \<Longrightarrow> settles a c"
  unfolding settles_def by (metis order_trans)

lemma sameBooks_settles: "sameBooks s s' \<Longrightarrow> settles s s'"
  by (simp add: sameBooks_def settles_def)

lemma sameBooks_trans: "sameBooks a b \<Longrightarrow> sameBooks b c \<Longrightarrow> sameBooks a c"
  by (simp add: sameBooks_def)

lemma books_frame [simp]:
  "sameBooks s (s'\<lparr>csWorld := w\<rparr>) = sameBooks s s'" "sameBooks s (s'\<lparr>inTick := b\<rparr>) = sameBooks s s'"
  "sameBooks s (s'\<lparr>lastChosenUid := u\<rparr>) = sameBooks s s'" "sameBooks s (s'\<lparr>lastChosenUidISC := u\<rparr>) = sameBooks s s'"
  "sameBooks s (s'\<lparr>totalWeight := x\<rparr>) = sameBooks s s'" "sameBooks s (s'\<lparr>userKeys := ks\<rparr>) = sameBooks s s'"
  by (simp_all add: sameBooks_def getUserCredit_def consumedBy_def demand_def queueDemand_def)

lemma sameBooks_refl [simp]: "sameBooks s s"
  by (simp add: sameBooks_def)

lemma sameBooks_upd:
  assumes "users s k = Some a" "users s' = (users s)(k \<mapsto> a')" "credit a' = credit a" "totalConsumed a' = totalConsumed a"
    "queueHost a' = queueHost a" "queueISC a' = queueISC a" "deferredQueue s' = deferredQueue s" "deferredISC s' = deferredISC s"
    "deferredISCRequests s' = deferredISCRequests s"
  shows "sameBooks s s'"
  using assms by (simp add: sameBooks_def getUserCredit_def consumedBy_def demand_def queueDemand_def)

text \<open>A payment of what leaves the queues of one user.\<close>

lemma settles_pay:
  assumes "users s k = Some a" "pages \<le> credit a" "users s' k = Some a'" "\<And>j. j \<noteq> k \<Longrightarrow> users s' j = users s j"
    "credit a' = credit a - pages" "totalConsumed a' = totalConsumed a + pages"
    and d: "\<And>j. demand j s = demand j s' + (if j = k then pages else 0)"
  shows "settles s s'"
  unfolding settles_def
proof (intro allI conjI)
  fix j
  show "getUserCredit j s' - demand j s' = getUserCredit j s - demand j s"
    using assms by (cases "j = k") (simp_all add: getUserCredit_def)
  show "getUserCredit j s' + consumedBy j s' = getUserCredit j s + consumedBy j s"
    using assms by (cases "j = k") (simp_all add: getUserCredit_def consumedBy_def)
  show "getUserCredit j s' \<le> getUserCredit j s"
    using assms by (cases "j = k") (simp_all add: getUserCredit_def word_sub_le)
qed

lemma getOrCreateUser_books:
  assumes "getOrCreateUser E uid s = Inr (a, s')"
  shows "sameBooks s s'" "users s' uid = Some a" "deferredQueue s' = deferredQueue s" "deferredISC s' = deferredISC s"
    "deferredISCRequests s' = deferredISCRequests s" "adminQueue s' = adminQueue s"
  using assms
  by (cases rule: getOrCreateUser_cases;
      simp add: sameBooks_def getUserCredit_def consumedBy_def demand_def queueDemand_def newAccount_def)+

lemma dispatchICL_books:
  assumes "dispatchICL E req (s, t) = Inr (s', t')"
  shows "sameBooks s s'" "deferredQueue s' = deferredQueue s" "deferredISC s' = deferredISC s"
    "deferredISCRequests s' = deferredISCRequests s"
proof -
  have "sameBooks s s' \<and> deferredQueue s' = deferredQueue s \<and> deferredISC s' = deferredISC s \<and>
    deferredISCRequests s' = deferredISCRequests s"
  proof (cases "isHostOp (hrOp req)")
    case False
    then show ?thesis using assms by (auto simp: dispatchICL_def Let_def split: op_type.splits)
  next
    case True
    then obtain w a u where g: "getOrCreateUser E (hrUserID req) (s\<lparr>csWorld := w\<rparr>) = Inr (a, u)"
      and s': "s' = updAcc (hrUserID req) (\<lambda>a. a\<lparr>winHostPages := winHostPages a + pagesOf (hrLength req), winHostIOs := winHostIOs a + 1\<rparr>) u"
      using assms by (auto simp: dispatchICL_def Let_def bindR_eq_Inr split: prod.splits)
    note G = getOrCreateUser_books [OF g]
    have "sameBooks u s'" by (rule sameBooks_upd [OF G(2), where a' = "a\<lparr>winHostPages := winHostPages a + pagesOf (hrLength req), winHostIOs := winHostIOs a + 1\<rparr>"])
        (simp_all add: s' G(2))
    moreover have "sameBooks s u" using G(1) by (simp add: sameBooks_def getUserCredit_def consumedBy_def demand_def queueDemand_def)
    ultimately show ?thesis using G sameBooks_trans by (auto simp: s')
  qed
  then show "sameBooks s s'" "deferredQueue s' = deferredQueue s" "deferredISC s' = deferredISC s"
    "deferredISCRequests s' = deferredISCRequests s" by blast+
qed

text \<open>The state during a dispatch that started in \<open>s0\<close>.\<close>

definition settling :: "'w cs \<Rightarrow> 'w cs \<Rightarrow> bool" where
  "settling s0 s \<longleftrightarrow> cs_inv s \<and> settles s0 s"

lemma settling_step: "settling s0 s \<Longrightarrow> cs_inv s' \<Longrightarrow> settles s s' \<Longrightarrow> settling s0 s'"
  using settles_trans by (auto simp: settling_def)

lemma inv_pay: "cs_inv s \<Longrightarrow> users s k = Some a \<Longrightarrow> pages \<le> credit a \<Longrightarrow> cs_inv (updAcc k (pay h pages) s)"
  by (rule updAcc_inv) (auto intro: acc_ok_pay)

text \<open>Taking a request off a queue and putting it back behind.\<close>

lemma demand_push:
  "demand j (s\<lparr>deferredQueue := deferredQueue s @ [d]\<rparr>) = demand j s + (if j = hrUserID (drReq d) then drPages d else 0)"
  "demand j (s\<lparr>deferredISC := deferredISC s @ [c]\<rparr>) = demand j s + (if j = dcUid c then dcPages c else 0)"
  by (simp_all add: demand_def queueDemand_def)

lemma demand_pop:
  "deferredQueue s = d # ds \<Longrightarrow> demand j s = demand j (s\<lparr>deferredQueue := ds\<rparr>) + (if j = hrUserID (drReq d) then drPages d else 0)"
  "deferredISC s = c # cs \<Longrightarrow> demand j s = demand j (s\<lparr>deferredISC := cs\<rparr>) + (if j = dcUid c then dcPages c else 0)"
  by (simp_all add: demand_def queueDemand_def)

lemma books_after_get:
  assumes "getOrCreateUser E k s1 = Inr (a, u)" "users s1 = users s"
  shows "getUserCredit j u = getUserCredit j s" "consumedBy j u = consumedBy j s" "demand j u = demand j s1"
    "getUserCredit k s = credit a" "consumedBy k s = totalConsumed a"
proof -
  note G = getOrCreateUser_books [OF assms(1)]
  show 1: "getUserCredit j u = getUserCredit j s" "consumedBy j u = consumedBy j s" "demand j u = demand j s1" for j
    using G(1) assms(2) by (simp_all add: sameBooks_def getUserCredit_def consumedBy_def)
  show "getUserCredit k s = credit a" "consumedBy k s = totalConsumed a"
    using 1(1,2) [of k] G(2) by (simp_all add: getUserCredit_def consumedBy_def)
qed

lemma settles_paid:
  assumes g: "getOrCreateUser E k s1 = Inr (a, u)" and s1: "users s1 = users s" and le: "pages \<le> credit a"
    and dem: "\<And>j. demand j s = demand j s1 + (if j = k then pages else 0)"
  shows "settles s (updAcc k (pay h pages) u)"
proof -
  note G = getOrCreateUser_books [OF g] and C = books_after_get [OF g s1]
  let ?v = "updAcc k (pay h pages) u"
  have dv: "demand j ?v = demand j u" for j using G(2) by (simp add: demand_def queueDemand_def pay_def)
  have cv: "getUserCredit j ?v = (if j = k then credit a - pages else getUserCredit j u)"
    "consumedBy j ?v = (if j = k then totalConsumed a + pages else consumedBy j u)" for j
    using G(2) by (simp_all add: getUserCredit_def consumedBy_def pay_def)
  show ?thesis
    unfolding settles_def cv dv C(1-3) dem using C(4,5) le by (auto simp: word_sub_le)
qed

lemma settles_put_back:
  assumes g: "getOrCreateUser E k s1 = Inr (a, u)" and s1: "users s1 = users s" and u': "users u' = users u"
    and dem: "\<And>j. demand j u' = demand j u + x j" "\<And>j. demand j s = demand j s1 + x j"
  shows "settles s u'"
  using books_after_get [OF g s1] u' dem by (intro sameBooks_settles) (simp add: sameBooks_def getUserCredit_def consumedBy_def)

text \<open>The rule for one entry of a queue.\<close>

lemma settling_user:
  assumes S: "settling s0 s" and I: "cs_inv s1"
    and step: "\<And>a u. getOrCreateUser E k s1 = Inr (a, u) \<Longrightarrow> cs_inv u \<Longrightarrow> users u k = Some a \<Longrightarrow> on_ok (f (a, u)) Q"
  shows "on_ok (bindR (getOrCreateUser E k s1) f) Q"
  unfolding on_ok_bindR
proof (rule on_okI)
  fix x assume x: "getOrCreateUser E k s1 = Inr x"
  obtain a u where au: "x = (a, u)" by (cases x)
  have "cs_inv u \<and> users u k = Some a" using getOrCreateUser_inv [OF I, of E k] x au by simp
  with step [of a u] x show "on_ok (f x) Q" by (simp add: au)
qed

lemma dispatchICL_settling:
  assumes S: "settling s0 s"
  shows "on_ok (dispatchICL E req (s, now)) (\<lambda>(s', _). settling s0 s')"
proof (rule on_okI)
  fix x assume x: "dispatchICL E req (s, now) = Inr x"
  obtain z tz where z: "x = (z, tz)" by (cases x)
  have "cs_inv s" using S by (simp add: settling_def)
  then have "cs_inv z" using dispatchICL_inv [of s E req now] x z by simp
  moreover have "settles s z" using dispatchICL_books(1) [OF x [unfolded z]] by (rule sameBooks_settles)
  ultimately show "case x of (s', _) \<Rightarrow> settling s0 s'" using settling_step [OF S] by (simp add: z)
qed

lemma settling_frame [simp]:
  "settling s0 (s\<lparr>inTick := b\<rparr>) = settling s0 s" "settling s0 (s\<lparr>csWorld := w\<rparr>) = settling s0 s"
  "settling s0 (s\<lparr>lastChosenUid := u\<rparr>) = settling s0 s" "settling s0 (s\<lparr>lastChosenUidISC := u\<rparr>) = settling s0 s"
  by (simp_all add: settling_def settles_def getUserCredit_def consumedBy_def demand_def queueDemand_def)

lemma runDeferred_settling: "settling s0 s \<Longrightarrow> on_ok (runDeferred n E (s, now)) (\<lambda>(s', _). settling s0 s')"
proof (induction n arbitrary: s now)
  case (Suc n)
  have I: "cs_inv s" using Suc.prems by (simp add: settling_def)
  show ?case
  proof (cases "deferredQueue s")
    case (Cons dr rest)
    show ?thesis
      unfolding runDeferred.simps Cons list.case
    proof (rule settling_user [OF Suc.prems], simp add: I)
      fix a u assume g: "getOrCreateUser E (hrUserID (drReq dr)) (s\<lparr>deferredQueue := rest\<rparr>) = Inr (a, u)" and iu: "cs_inv u"
        and ua: "users u (hrUserID (drReq dr)) = Some a"
      let ?v = "updAcc (hrUserID (drReq dr)) (pay (isHostOp (hrOp (drReq dr))) (drPages dr)) u"
      let ?b = "u\<lparr>deferredQueue := deferredQueue u @ [dr]\<rparr>"
      have "settling s0 ?v" if "drPages dr \<le> credit a"
        using settling_step [OF Suc.prems inv_pay [OF iu ua that]] settles_paid [OF g _ that demand_pop(1) [OF Cons]] by simp
      then have "on_ok (dispatchICL E (drReq dr) (?v\<lparr>inTick := False\<rparr>, now)) (\<lambda>(s', _). settling s0 s')" if "drPages dr \<le> credit a"
        using dispatchICL_settling [of s0 "?v\<lparr>inTick := False\<rparr>"] that by simp
      moreover have "settling s0 ?b"
        using settling_step [OF Suc.prems, of ?b] iu
          settles_put_back [OF g _ _ demand_push(1) demand_pop(1) [OF Cons]] by simp
      ultimately show "on_ok (case (a, u) of (acc, s) \<Rightarrow>
          if credit acc \<ge> drPages dr then
            (let s = updAcc (hrUserID (drReq dr)) (pay (isHostOp (hrOp (drReq dr))) (drPages dr)) s
             in bindR (dispatchICL E (drReq dr) (s\<lparr>inTick := False\<rparr>, now)) (\<lambda>(s, now).
                  runDeferred n E (s\<lparr>inTick := True\<rparr>, now)))
          else runDeferred n E (s\<lparr>deferredQueue := deferredQueue s @ [dr]\<rparr>, now)) (\<lambda>(s', _). settling s0 s')"
        using Suc.IH by (auto simp: Let_def on_ok_bindR elim!: on_ok_mono)
    qed
  qed simp
qed simp

lemma runDeferredISC_settling: "settling s0 s \<Longrightarrow> on_ok (runDeferredISC n E now s) (settling s0)"
proof (induction n arbitrary: s)
  case (Suc n)
  have I: "cs_inv s" using Suc.prems by (simp add: settling_def)
  show ?case
  proof (cases "deferredISC s")
    case (Cons dc rest)
    show ?thesis
      unfolding runDeferredISC.simps Cons list.case
    proof (rule settling_user [OF Suc.prems], simp add: I)
      fix a u assume g: "getOrCreateUser E (dcUid dc) (s\<lparr>deferredISC := rest\<rparr>) = Inr (a, u)" and iu: "cs_inv u"
        and ua: "users u (dcUid dc) = Some a"
      let ?v = "updAcc (dcUid dc) (pay False (dcPages dc)) u" and ?b = "u\<lparr>deferredISC := deferredISC u @ [dc]\<rparr>"
      have "settling s0 ?v" if "dcPages dc \<le> credit a"
        using settling_step [OF Suc.prems inv_pay [OF iu ua that]] settles_paid [OF g _ that demand_pop(2) [OF Cons]] by simp
      moreover have "settling s0 ?b"
        using settling_step [OF Suc.prems, of ?b] iu settles_put_back [OF g _ _ demand_push(2) demand_pop(2) [OF Cons]] by simp
      ultimately show "on_ok (case (a, u) of (acc, s) \<Rightarrow>
          if credit acc \<ge> dcPages dc then
            (let s = updAcc (dcUid dc) (pay False (dcPages dc)) s;
                 s = (if dcResume dc then s\<lparr>csWorld := eResume E (csWorld s) (dcCtx dc) now, inTick := True\<rparr> else s)
             in runDeferredISC n E now s)
          else runDeferredISC n E now (s\<lparr>deferredISC := deferredISC s @ [dc]\<rparr>)) (settling s0)"
        using Suc.IH by (auto simp: Let_def)
    qed
  qed simp
qed simp

lemma getOrCreateUser_frame:
  "getOrCreateUser E k s = Inr (a, u) \<Longrightarrow>
   getOrCreateUser E k (s\<lparr>deferredISCRequests := x\<rparr>) = Inr (a, u\<lparr>deferredISCRequests := x\<rparr>)"
  by (auto simp: getOrCreateUser_def bindR_eq_Inr Let_def split: option.splits)

lemma updAcc_deferred: "(updAcc k f s)\<lparr>deferredISCRequests := x\<rparr> = updAcc k f (s\<lparr>deferredISCRequests := x\<rparr>)"
  by (simp add: updAcc_def)

lemma settling_world:
  "settling s0 (s\<lparr>csWorld := w, deferredISCRequests := x\<rparr>) = settling s0 (s\<lparr>deferredISCRequests := x\<rparr>)"
  by (simp add: settling_def settles_def getUserCredit_def consumedBy_def demand_def queueDemand_def)

lemma processISCRequests_settling: 
  assumes S: "settling s0 s"
  shows "on_ok (processISCRequests E now s) (settling s0)"
proof -
  let ?xs = "deferredISCRequests s"
  let ?step = "\<lambda>req (s, remaining).
         bindR (getOrCreateUser E (idUid req) s) (\<lambda>(acc, s).
           if credit acc \<ge> idPages req then
             (let waitTime = now - idSubmitTick req;
                  executionTick = idSubmitTick req + waitTime;
                  s = updAcc (idUid req) (pay False (idPages req)) s
              in Inr (executeISCRequest E (Some (idContext req)) executionTick s, remaining))
           else Inr (s, remaining @ [req]))"
  let ?I = "\<lambda>ys (s', rem). settling s0 (s'\<lparr>deferredISCRequests := rem @ drop (length ys) ?xs\<rparr>)"
  have "on_ok (foldR ?step ?xs (s\<lparr>deferredISCRequests := []\<rparr>, [])) (?I ?xs)"
  proof (rule foldR_on_ok_prefix [where I = ?I])
    fix ys r zs and x :: "'a cs \<times> isc_deferred list"
    assume xs: "?xs = ys @ r # zs" and A: "?I ys x"
    obtain t rem where x: "x = (t, rem)" by (cases x)
    have dr: "drop (length ys) ?xs = r # zs" "drop (Suc (length ys)) ?xs = zs" using xs by simp_all
    let ?q = "t\<lparr>deferredISCRequests := rem @ r # zs\<rparr>" and ?q1 = "t\<lparr>deferredISCRequests := rem @ zs\<rparr>"
    have S: "settling s0 ?q" using A dr x by simp
    have dem: "demand j ?q = demand j ?q1 + (if j = idUid r then idPages r else 0)" for j
      by (simp add: demand_def queueDemand_def)
    have it: "cs_inv t" using S by (simp add: settling_def)
    show "on_ok (?step r x) (?I (ys @ [r]))"
      unfolding x prod.case
    proof (rule settling_user [OF S it])
      fix a u assume g: "getOrCreateUser E (idUid r) t = Inr (a, u)" and iu: "cs_inv u" and ua: "users u (idUid r) = Some a"
      let ?w = "u\<lparr>deferredISCRequests := rem @ zs\<rparr>"
      have gw: "getOrCreateUser E (idUid r) ?q1 = Inr (a, ?w)" by (rule getOrCreateUser_frame [OF g])
      have "settling s0 (updAcc (idUid r) (pay False (idPages r)) ?w)" if "idPages r \<le> credit a"
        using settling_step [OF S inv_pay [of ?w "idUid r" a "idPages r" False]] settles_paid [OF gw _ that dem] that iu ua by simp
      moreover have "settling s0 (u\<lparr>deferredISCRequests := rem @ r # zs\<rparr>)"
      proof -
        have "demand j (u\<lparr>deferredISCRequests := rem @ r # zs\<rparr>) = demand j ?w + (if j = idUid r then idPages r else 0)" for j
          by (simp add: demand_def queueDemand_def)
        then show ?thesis
          using settling_step [OF S, of "u\<lparr>deferredISCRequests := rem @ r # zs\<rparr>"] iu settles_put_back [OF gw _ _ _ dem] by simp
      qed
      ultimately show "on_ok (case (a, u) of (acc, s) \<Rightarrow>
           if credit acc \<ge> idPages r then
             (let waitTime = now - idSubmitTick r;
                  executionTick = idSubmitTick r + waitTime;
                  s = updAcc (idUid r) (pay False (idPages r)) s
              in Inr (executeISCRequest E (Some (idContext r)) executionTick s, rem))
           else Inr (s, rem @ [r])) (?I (ys @ [r]))"
        by (simp add: Let_def executeISCRequest_def dr settling_world updAcc_deferred)
    qed
  qed (use S in simp)
  then show ?thesis
    unfolding processISCRequests_def on_ok_bindR by (rule on_ok_mono) (auto split: prod.splits)
qed

lemma queue_user:
  "cs_inv s \<Longrightarrow> users s k = Some a \<Longrightarrow> r \<in> set (queueHost a) \<union> set (queueISC a) \<Longrightarrow> hrUserID r = k"
  by (auto simp: cs_inv_def acc_ok_def)

lemma scanISC_settling: "settling s0 s \<Longrightarrow> on_ok (scanISC ks (s, now)) (\<lambda>(_, s', _). settling s0 s')"
proof (induction ks arbitrary: s)
  case (Cons k ks)
  have I: "cs_inv s" using Cons.prems by (simp add: settling_def)
  show ?case
  proof (cases "users s k")
    case (Some a)
    show ?thesis
    proof (cases "queueISC a")
      case Nil
      then show ?thesis using Some Cons by simp
    next
      case (Cons r rs)
      let ?n = "pagesOf (hrLength r)"
      have rk: "hrUserID r = k" using queue_user [OF I Some] Cons by simp
      have ok: "acc_ok k a" using I Some by (simp add: cs_inv_def)
      show ?thesis
      proof (cases "credit a \<ge> ?n")
        case True
        let ?v = "updAcc k (\<lambda>a. (pay False ?n a)\<lparr>queueISC := tl (queueISC a)\<rparr>) s"
        have "cs_inv ?v" using I Some True Cons acc_ok_pay [OF ok True, of False]
          by (intro updAcc_inv) (auto simp: acc_ok_def pay_def)
        moreover have "settles s ?v"
          by (rule settles_pay [OF Some True]) (use Some Cons in \<open>auto simp: pay_def demand_def queueDemand_def\<close>)
        ultimately show ?thesis using settling_step [OF Cons.prems] Some Cons True by simp
      next
        case False
        let ?v = "(updAcc k (\<lambda>a. a\<lparr>queueISC := tl (queueISC a)\<rparr>) s)\<lparr>deferredQueue := deferredQueue s @
            [\<lparr>drReq = r, drPages = ?n, drDeferTime = now\<rparr>]\<rparr>"
        have "cs_inv ?v" using I Some Cons by (auto intro!: updAcc_inv simp: acc_ok_def)
        moreover have "sameBooks s ?v"
          using Some Cons rk by (auto simp: sameBooks_def getUserCredit_def consumedBy_def demand_def queueDemand_def)
        ultimately have "settling s0 ?v" using settling_step [OF Cons.prems] sameBooks_settles by blast
        from Cons.IH [OF this] show ?thesis using Some Cons False by simp
      qed
    qed
  qed simp
qed simp

lemma tryDispatch_known:
  assumes "users s (hrUserID r) = Some a"
  shows "tryDispatchWithCredit E r now s =
    (if credit a < pagesOf (hrLength r) then
       Inr (False, s\<lparr>deferredQueue := deferredQueue s @ [\<lparr>drReq = r, drPages = pagesOf (hrLength r), drDeferTime = now\<rparr>]\<rparr>)
     else Inr (True, updAcc (hrUserID r) (pay (isHostOp (hrOp r)) (pagesOf (hrLength r))) s))"
  using assms by (simp add: tryDispatchWithCredit_def getOrCreateUser_def Let_def)

lemma updAcc_updAcc: "updAcc k f (updAcc k g s) = updAcc k (f \<circ> g) s"
  by (cases "users s k") (simp_all add: updAcc_def)

lemma scanHost_settling: "settling s0 s \<Longrightarrow> on_ok (scanHost E ks (s, now)) (\<lambda>(_, s', _). settling s0 s')"
proof (induction ks arbitrary: s)
  case (Cons k ks)
  have I: "cs_inv s" using Cons.prems by (simp add: settling_def)
  show ?case
  proof (cases "users s k")
    case (Some a)
    show ?thesis
    proof (cases "queueHost a")
      case Nil
      then show ?thesis using Some Cons by simp
    next
      case (Cons r rs)
      let ?n = "pagesOf (hrLength r)"
      have rk: "hrUserID r = k" using queue_user [OF I Some] Cons by simp
      have ok: "acc_ok k a" using I Some by (simp add: cs_inv_def)
      note T = tryDispatch_known [of s r a E now, unfolded rk, OF Some]
      show ?thesis
      proof (cases "credit a < ?n")
        case False
        then have le: "?n \<le> credit a" by simp
        let ?v = "updAcc k ((\<lambda>a. a\<lparr>queueHost := tl (queueHost a)\<rparr>) \<circ> pay (isHostOp (hrOp r)) ?n) s"
        have "cs_inv ?v" using I Some Cons acc_ok_pay [OF ok le, of "isHostOp (hrOp r)"]
          by (intro updAcc_inv) (auto simp: acc_ok_def pay_def)
        moreover have "settles s ?v"
          by (rule settles_pay [OF Some le]) (use Some Cons in \<open>auto simp: pay_def demand_def queueDemand_def\<close>)
        ultimately have "settling s0 (?v\<lparr>lastChosenUid := k, inTick := False\<rparr>)" using settling_step [OF Cons.prems] by simp
        from dispatchICL_settling [OF this, of E r now] show ?thesis
          using Some Cons False T by (simp add: updAcc_updAcc on_ok_bindR) (erule on_ok_mono, auto)
      next
        case True
        let ?v = "updAcc k (\<lambda>a. a\<lparr>queueHost := tl (queueHost a)\<rparr>) (s\<lparr>deferredQueue := deferredQueue s @
            [\<lparr>drReq = r, drPages = ?n, drDeferTime = now\<rparr>]\<rparr>)"
        have "cs_inv ?v" using I Some Cons by (auto intro!: updAcc_inv simp: acc_ok_def)
        moreover have "sameBooks s ?v"
          using Some Cons rk by (auto simp: sameBooks_def getUserCredit_def consumedBy_def demand_def queueDemand_def)
        ultimately have "settling s0 ?v" using settling_step [OF Cons.prems] sameBooks_settles by blast
        from Cons.IH [OF this] show ?thesis using Some Cons True T by simp
      qed
    qed
  qed simp
qed simp

lemma dispatchOne_settling: "settling s0 s \<Longrightarrow> on_ok (dispatchOne E (s, now)) (\<lambda>(_, s', _). settling s0 s')"
  unfolding dispatchOne_def prod.case on_ok_bindR
  by (rule on_ok_mono [OF scanISC_settling]) (auto intro: scanHost_settling)

lemma dispatchRounds_settling: "settling s0 s \<Longrightarrow> on_ok (dispatchRounds n E (s, now)) (\<lambda>(s', _). settling s0 s')"
proof (induction n arbitrary: s now)
  case (Suc n)
  show ?case
    unfolding dispatchRounds.simps on_ok_bindR
    by (rule on_ok_mono [OF dispatchOne_settling [OF Suc.prems]]) (auto intro: Suc.IH)
qed simp

lemma dispatchAll_settling: "settling s0 s \<Longrightarrow> on_ok (dispatchAll E (s, now)) (\<lambda>(s', _). settling s0 s')"
  unfolding dispatchAll_def prod.case on_ok_bindR
  by (rule on_ok_mono [OF runDeferred_settling], assumption)
    (auto simp: on_ok_bindR intro!: on_ok_mono [OF runDeferredISC_settling] on_ok_mono [OF processISCRequests_settling]
       dispatchRounds_settling)

lemma CreditScheduler_tick_inv: "cs_inv s \<Longrightarrow> on_ok (CreditScheduler_tick E (s, now)) (\<lambda>(s', _). cs_inv s')"
proof -
  assume I: "cs_inv s"
  have d: "on_ok (dispatchAll E (u, n)) (\<lambda>(s', _). cs_inv s')" if "cs_inv u" for u n
  proof (rule on_ok_mono [OF dispatchAll_settling])
    show "settling u u" using that settles_refl [of u] by (simp add: settling_def)
  qed (auto simp: settling_def)
  have "cs_inv (measureWindow now (s\<lparr>inTick := True\<rparr>))" using I by (simp add: measureWindow_inv)
  from dispatchAdmin_inv [OF this, of E now] show ?thesis
    using I unfolding CreditScheduler_tick_def prod.case on_ok_bindR
    by (auto simp: on_ok_bindR elim!: on_ok_mono intro!: on_ok_mono [OF refillLoop_inv] on_ok_mono [OF d])
qed

section \<open>Every reachable state\<close>

lemma ensureActiveUser_inv: "cs_inv s \<Longrightarrow> on_ok (ensureActiveUser E uid s) cs_inv"
  unfolding ensureActiveUser_def by (rule on_ok_user) (auto intro: activate_inv)

lemma CreditScheduler_new_inv: "on_ok (CreditScheduler_new E p t st si w) cs_inv"
  unfolding CreditScheduler_new_def Let_def
proof (rule foldR_on_ok)
  fix uid and s :: "'a cs" assume "cs_inv s"
  then show "on_ok (bindR (getOrCreateUser E uid s) (\<lambda>(_, s).
      Inr (updAcc uid (\<lambda>a. a\<lparr>isActive := False, credit := 0, lastRefillTick := eGetTick E (csWorld s)\<rparr>) s))) cs_inv"
    by (rule on_ok_user) (auto intro!: updAcc_inv simp: acc_ok_def)
qed (simp add: cs_inv_def)

lemma submitISCRequest_inv: "cs_inv s \<Longrightarrow> on_ok (submitISCRequest E uid pages ctx s) (\<lambda>(_, s'). cs_inv s')"
  unfolding submitISCRequest_def
  by (auto simp: on_ok_bindR Let_def executeISCRequest_def split: option.splits
      intro!: on_ok_mono [OF ensureActiveUser_inv] on_ok_user [unfolded on_ok_bindR] inv_pay)

lemma useCredit_inv: "cs_inv s \<Longrightarrow> on_ok (useCredit E uid used s) cs_inv"
  unfolding useCredit_def Let_def
  by (rule on_ok_user) (auto intro!: updAcc_inv simp: acc_ok_def not_less intro: order_trans [OF word_sub_le])

lemma useCreditISC_inv: "cs_inv s \<Longrightarrow> on_ok (useCreditISC E uid used s) cs_inv"
  unfolding useCreditISC_def Let_def
  by (rule on_ok_user) (auto intro!: inv_pay)

lemma processDeferredICL_inv: "cs_inv s \<Longrightarrow> on_ok (processDeferredICL E s) cs_inv"
proof -
  assume I: "cs_inv s"
  have "on_ok (foldR (\<lambda>d (s, remaining).
         if checkCredit (diUid d) (diPages d) s then
           bindR (useCreditISC E (diUid d) (diPages d) s) (\<lambda>s.
             Inr (s\<lparr>csWorld := fst (eICLRead E (csWorld s) (diReq d) (diTick d))\<rparr>, remaining))
         else Inr (s, remaining @ [d])) (deferredICL s) (s\<lparr>deferredICL := []\<rparr>, [])) (\<lambda>(s', _). cs_inv s')"
    by (rule foldR_on_ok) (use I in \<open>auto simp: on_ok_bindR intro!: on_ok_mono [OF useCreditISC_inv]\<close>)
  then show ?thesis unfolding processDeferredICL_def on_ok_bindR by (rule on_ok_mono) auto
qed

lemma setUserTarget_inv:
  "cs_inv s \<Longrightarrow> on_ok (setUserIopsTarget E uid x s) cs_inv"
  "cs_inv s \<Longrightarrow> on_ok (setUserTailTarget E uid y z s) cs_inv"
  unfolding setUserIopsTarget_def setUserTailTarget_def
  by (rule on_ok_user; auto intro!: updAcc_inv simp: acc_ok_def)+

lemma resetStatValues_inv: "cs_inv s \<Longrightarrow> cs_inv (resetStatValues E s)"
  unfolding resetStatValues_def by (erule mapAcc_inv) (auto simp: acc_ok_def)

lemma processLoop_inv: "cs_inv s \<Longrightarrow> on_ok (processLoop n E uid (s, t)) (\<lambda>(s', _). cs_inv s')"
proof (induction n arbitrary: s t)
  case (Suc n)
  show ?case
    unfolding processLoop.simps on_ok_bindR
    by (rule on_ok_mono [OF CreditScheduler_tick_inv [OF Suc.prems]]) (auto intro: Suc.IH)
qed simp

text \<open>Every public operation of the scheduler, with any arguments, as a step that returns.\<close>

inductive cs_step :: "'w cs_env \<Rightarrow> 'w cs \<Rightarrow> 'w cs \<Rightarrow> bool" for E where
  step_submit: "submitRequest E req s = Inr s' \<Longrightarrow> cs_step E s s'"
| step_event: "processEvent E now s = Inr s' \<Longrightarrow> cs_step E s s'"
| step_process: "processUntil E req t s = Inr (s', t') \<Longrightarrow> cs_step E s s'"
| step_isc_deferred: "cs_step E s (submitISCDeferred E uid pages ctx cb s)"
| step_isc: "submitISCRequest E uid pages ictx s = Inr (r, s') \<Longrightarrow> cs_step E s s'"
| step_process_isc: "processISCRequests E now s = Inr s' \<Longrightarrow> cs_step E s s'"
| step_icl_deferred: "cs_step E s (submitICLDeferred E ireq uid t latency pages s)"
| step_process_icl: "processDeferredICL E s = Inr s' \<Longrightarrow> cs_step E s s'"
| step_try: "tryDispatchWithCredit E req now s = Inr (r, s') \<Longrightarrow> cs_step E s s'"
| step_use: "useCredit E uid used s = Inr s' \<Longrightarrow> cs_step E s s'"
| step_use_isc: "useCreditISC E uid used s = Inr s' \<Longrightarrow> cs_step E s s'"
| step_ensure: "ensureActiveUser E uid s = Inr s' \<Longrightarrow> cs_step E s s'"
| step_iops: "setUserIopsTarget E uid x s = Inr s' \<Longrightarrow> cs_step E s s'"
| step_tail: "setUserTailTarget E uid x y s = Inr s' \<Longrightarrow> cs_step E s s'"
| step_reset: "cs_step E s (resetStatValues E s)"
| step_world: "cs_step E s (s\<lparr>csWorld := w\<rparr>)"

inductive cs_reachable :: "'w cs_env \<Rightarrow> 'w cs \<Rightarrow> bool" for E where
  reach_new: "CreditScheduler_new E p t st si w = Inr s \<Longrightarrow> cs_reachable E s"
| reach_step: "cs_reachable E s \<Longrightarrow> cs_step E s s' \<Longrightarrow> cs_reachable E s'"

lemma tryDispatch_inv: "cs_inv s \<Longrightarrow> on_ok (tryDispatchWithCredit E req now s) (\<lambda>(_, s'). cs_inv s')"
  unfolding tryDispatchWithCredit_def Let_def by (rule on_ok_user) (auto intro!: inv_pay)

lemma processISCRequests_inv: "cs_inv s \<Longrightarrow> on_ok (processISCRequests E now s) cs_inv"
  using processISCRequests_settling [of s s E now] settles_refl [of s]
  by (auto simp: settling_def elim!: on_ok_mono)

lemma cs_step_inv: "cs_step E s s' \<Longrightarrow> cs_inv s \<Longrightarrow> cs_inv s'"
proof (induction rule: cs_step.induct)
  case (step_event now s s')
  then show ?case using CreditScheduler_tick_inv [of s E now] by (auto simp: processEvent_def bindR_eq_Inr)
next
  case (step_process req t s s' t')
  then obtain u where "submitRequest E req s = Inr u" "processLoop maxIterations E (hrUserID req) (u, t) = Inr (s', t')"
    by (auto simp: processUntil_def bindR_eq_Inr)
  then show ?case using submitRequest_inv [OF step_process.prems, of E req] processLoop_inv [of u maxIterations E "hrUserID req" t] by simp
qed (auto dest: on_okD [OF submitRequest_inv] on_okD [OF submitISCRequest_inv] on_okD [OF processISCRequests_inv]
      on_okD [OF processDeferredICL_inv] on_okD [OF tryDispatch_inv] on_okD [OF useCredit_inv] on_okD [OF useCreditISC_inv]
      on_okD [OF ensureActiveUser_inv] on_okD [OF setUserTarget_inv(1)] on_okD [OF setUserTarget_inv(2)]
      simp: submitISCDeferred_def submitICLDeferred_def resetStatValues_inv)

lemma cs_reachable_inv: "cs_reachable E s \<Longrightarrow> cs_inv s"
proof (induction rule: cs_reachable.induct)
  case (reach_new p t st si w s)
  then show ?case using CreditScheduler_new_inv [of E p t st si w] by simp
next
  case (reach_step s s')
  then show ?case using cs_step_inv by blast
qed

section \<open>The refill loop ends\<close>

lemma refillPhase_frame:
  assumes "refillPhase E s = Inr s'" "cs_inv s"
  shows "lastGlobalRefillTick s' = lastGlobalRefillTick s + periodTicks s" "periodTicks s' = periodTicks s" "timerStarted s' = timerStarted s"
proof -
  have fold: "on_ok (beRefillAll E sp w u) (\<lambda>v. lastGlobalRefillTick v = lastGlobalRefillTick u \<and> periodTicks v = periodTicks u \<and>
      timerStarted v = timerStarted u)" for sp w u
    unfolding beRefillAll_def
    by (rule foldR_on_ok [where I = "\<lambda>v. lastGlobalRefillTick v = lastGlobalRefillTick u \<and> periodTicks v = periodTicks u \<and>
      timerStarted v = timerStarted u"]) (auto simp: on_ok_bindR intro!: on_okI split: option.splits)
  have "on_ok (refillPhase E s) (\<lambda>s'. lastGlobalRefillTick s' = lastGlobalRefillTick s + periodTicks s \<and>
      periodTicks s' = periodTicks s \<and> timerStarted s' = timerStarted s)"
    unfolding refillPhase_best_effort [OF assms(2)] bestEffortPhase_def Let_def
    by (auto simp: on_ok_bindR intro!: on_ok_mono [OF fold])
  then show "lastGlobalRefillTick s' = lastGlobalRefillTick s + periodTicks s" "periodTicks s' = periodTicks s" "timerStarted s' = timerStarted s"
    using assms(1) by auto
qed

lemma fl_to_u64_failure: "fl_to_u64 x = Inl e \<Longrightarrow> e = Undefined ''float to uint64_t out of range''"
  by (cases x) (auto split: if_splits)

lemma beRefillAll_failure: "beRefillAll E sp w s = Inl e \<Longrightarrow> e = Undefined ''float to uint64_t out of range''"
proof -
  have f: "foldR f xs s = Inl e \<Longrightarrow> (\<And>x s e. f x s = Inl e \<Longrightarrow> e = e0) \<Longrightarrow> e = e0" for f xs and s :: "'a cs" and e e0
  proof (induction xs arbitrary: s)
    case (Cons x xs)
    then show ?case by (cases "f x s") auto
  qed simp
  have b: "beRefill sp w t a = Inl e \<Longrightarrow> e = Undefined ''float to uint64_t out of range''" for t a e
    by (cases "fl_to_u64 (fl_add f64 (fl_mul f64 sp (fl_div f64 (fl_u64 (weight a)) (fl_u64 w))) (carry a))")
      (auto simp: beRefill_def Let_def dest: fl_to_u64_failure)
  assume "beRefillAll E sp w s = Inl e"
  then show ?thesis
    unfolding beRefillAll_def
  proof (rule f)
    fix k and s :: "'a cs" and e
    assume "(case users s k of None \<Rightarrow> Inr s | Some a \<Rightarrow> if \<not> isActive a \<or> isSLO a then Inr s
           else bindR (beRefill sp w (lastGlobalRefillTick s) a) (\<lambda>a. Inr (s\<lparr>users := (users s)(k \<mapsto> a)\<rparr>))) = Inl e"
    then show "e = Undefined ''float to uint64_t out of range''"
      using b by (auto simp: bindR_def split: option.splits if_splits sum.splits)
  qed
qed

text \<open>
  With a positive period and a time that stays clear of the wrap-around the loop reaches
  the phase behind \<open>now\<close> within its rounds; it can only fail by a share that is no page number.
\<close>

lemma refillLoop_ends_aux:
  assumes "cs_inv s" "0 < periodTicks s" "unat now + unat (periodTicks s) < 2 ^ 64"
    and "timerStarted s \<Longrightarrow> lastGlobalRefillTick s \<le> now \<Longrightarrow> unat now - unat (lastGlobalRefillTick s) < n * unat (periodTicks s)"
  shows "case refillLoop n E now s of
      Inl e \<Rightarrow> e = Undefined ''float to uint64_t out of range''
    | Inr s' \<Rightarrow> timerStarted s \<longrightarrow> now < lastGlobalRefillTick s'"
  using assms
proof (induction n arbitrary: s)
  case 0
  then show ?case by (cases "timerStarted s \<and> lastGlobalRefillTick s \<le> now") (auto simp: refillLoop.simps [of 0] not_le)
next
  case (Suc n)
  show ?case
  proof (cases "timerStarted s \<and> lastGlobalRefillTick s \<le> now")
    case False
    then show ?thesis by (auto simp: refillLoop.simps [of "Suc n"] not_le)
  next
    case True
    show ?thesis
    proof (cases "refillPhase E s")
      case (Inl e)
      then have "e = Undefined ''float to uint64_t out of range''"
        unfolding refillPhase_best_effort [OF Suc.prems(1)] bestEffortPhase_def Let_def
        by (auto simp: bindR_def dest: beRefillAll_failure split: if_splits sum.splits)
      then show ?thesis using True Inl by (simp add: refillLoop.simps [of "Suc n"])
    next
      case (Inr u)
      note F = refillPhase_frame [OF Inr Suc.prems(1)]
      have iu: "cs_inv u" using refillPhase_inv [OF Suc.prems(1), of E] Inr by simp
      have le: "unat (lastGlobalRefillTick s) \<le> unat now" using True by (simp add: word_le_nat_alt)
      have sum: "unat (lastGlobalRefillTick u) = unat (lastGlobalRefillTick s) + unat (periodTicks s)"
        using F(1) le Suc.prems(3) by (simp add: unat_word_ariths(1))
      have "unat now - unat (lastGlobalRefillTick s) < Suc n * unat (periodTicks s)" using Suc.prems(4) True by blast
      then have "unat now - unat (lastGlobalRefillTick u) < n * unat (periodTicks u)" if "lastGlobalRefillTick u \<le> now"
        using sum that F(2) by (simp add: word_le_nat_alt)
      then have "case refillLoop n E now u of
          Inl e \<Rightarrow> e = Undefined ''float to uint64_t out of range''
        | Inr s' \<Rightarrow> timerStarted u \<longrightarrow> now < lastGlobalRefillTick s'"
        by (intro Suc.IH iu) (use F(2) Suc.prems(2,3) in simp_all)
      then show ?thesis using True Inr F(3) by (simp add: refillLoop.simps [of "Suc n"] split: sum.splits)
    qed
  qed
qed

lemma refillLoop_ends:
  assumes "cs_inv s" "0 < periodTicks s" "unat now + unat (periodTicks s) < 2 ^ 64"
  shows "case refillLoop (refillFuel now s) E now s of
      Inl e \<Rightarrow> e = Undefined ''float to uint64_t out of range''
    | Inr s' \<Rightarrow> timerStarted s \<longrightarrow> now < lastGlobalRefillTick s'"
proof (rule refillLoop_ends_aux [OF assms])
  have p: "0 < unat (periodTicks s)" using assms(2) by (simp add: word_less_nat_alt)
  have "unat now < Suc (unat now div unat (periodTicks s)) * unat (periodTicks s)"
    using dividend_less_div_times [OF p, of "unat now"] by simp
  then show "unat now - unat (lastGlobalRefillTick s) < refillFuel now s * unat (periodTicks s)"
    using assms(2) by (auto simp: refillFuel_def)
qed

end
