(* ===== verification/Credit_Wait.thy ===== *)
theory Credit_Wait
  imports Credit_Inv
begin

text \<open>
  Requests that can never be paid: a request of more pages than the credit cap of its user
  stays in a queue of its user or among the deferred requests through every operation of the
  scheduler. Most operations only add to the queues (\<open>keepsQueues\<close>); the three places that pay
  (\<^verbatim>\<open>runDeferred\<close>, \<^verbatim>\<open>scanISC\<close>, \<^verbatim>\<open>scanHost\<close>) test the credit first, which never exceeds the cap.
\<close>

section \<open>Requests that wait\<close>

text \<open>The request is in a queue of its user, or among the deferred requests.\<close>

definition waiting :: "hil_request \<Rightarrow> 'w cs \<Rightarrow> bool" where
  "waiting r s \<longleftrightarrow> (\<exists>a. users s (hrUserID r) = Some a \<and> r \<in> set (queueHost a) \<union> set (queueISC a)) \<or>
     (\<exists>t. \<lparr>drReq = r, drPages = pagesOf (hrLength r), drDeferTime = t\<rparr> \<in> set (deferredQueue s))"

text \<open>The account keeps its cap, and nothing leaves its queues or the deferred requests.\<close>

definition keepsQueues :: "u32 \<Rightarrow> 'w cs \<Rightarrow> 'w cs \<Rightarrow> bool" where
  "keepsQueues k s s' \<longleftrightarrow> (\<forall>a. users s k = Some a \<longrightarrow> (\<exists>a'. users s' k = Some a' \<and> creditCap a' = creditCap a \<and>
     set (queueHost a) \<subseteq> set (queueHost a') \<and> set (queueISC a) \<subseteq> set (queueISC a'))) \<and>
     set (deferredQueue s) \<subseteq> set (deferredQueue s')"

text \<open>The request waits, and its user's cap is too small for it.\<close>

definition stuck :: "hil_request \<Rightarrow> u64 \<Rightarrow> 'w cs \<Rightarrow> bool" where
  "stuck r cap s \<longleftrightarrow> cs_inv s \<and> waiting r s \<and> cap < pagesOf (hrLength r) \<and>
     (\<exists>a. users s (hrUserID r) = Some a \<and> creditCap a = cap)"

lemma keeps_refl [simp]: "keepsQueues k s s"
  by (simp add: keepsQueues_def)

lemma keeps_trans: "keepsQueues k s t \<Longrightarrow> keepsQueues k t u \<Longrightarrow> keepsQueues k s u"
proof -
  assume st: "keepsQueues k s t" and tu: "keepsQueues k t u"
  show "keepsQueues k s u"
    unfolding keepsQueues_def
  proof (intro conjI allI impI)
    fix a assume "users s k = Some a"
    then obtain b where b: "users t k = Some b" "creditCap b = creditCap a" "set (queueHost a) \<subseteq> set (queueHost b)" "set (queueISC a) \<subseteq> set (queueISC b)"
      using st unfolding keepsQueues_def by blast
    obtain c where c: "users u k = Some c" "creditCap c = creditCap b" "set (queueHost b) \<subseteq> set (queueHost c)" "set (queueISC b) \<subseteq> set (queueISC c)"
      using tu b(1) unfolding keepsQueues_def by blast
    show "\<exists>c. users u k = Some c \<and> creditCap c = creditCap a \<and> set (queueHost a) \<subseteq> set (queueHost c) \<and> set (queueISC a) \<subseteq> set (queueISC c)"
      by (intro exI [of _ c] conjI c(1) subset_trans [OF b(3) c(3)] subset_trans [OF b(4) c(4)]) (simp add: b(2) c(2))
  qed (use st tu in \<open>auto simp: keepsQueues_def\<close>)
qed

lemma keeps_frame [simp]:
  "keepsQueues k s (s'\<lparr>csWorld := w\<rparr>) = keepsQueues k s s'" "keepsQueues k s (s'\<lparr>inTick := b\<rparr>) = keepsQueues k s s'"
  "keepsQueues k s (s'\<lparr>adminQueue := q\<rparr>) = keepsQueues k s s'" "keepsQueues k s (s'\<lparr>lastChosenUid := u\<rparr>) = keepsQueues k s s'"
  "keepsQueues k s (s'\<lparr>lastChosenUidISC := u\<rparr>) = keepsQueues k s s'" "keepsQueues k s (s'\<lparr>timerStarted := b\<rparr>) = keepsQueues k s s'"
  "keepsQueues k s (s'\<lparr>lastGlobalRefillTick := t\<rparr>) = keepsQueues k s s'" "keepsQueues k s (s'\<lparr>lastStatTick := t\<rparr>) = keepsQueues k s s'"
  "keepsQueues k s (s'\<lparr>statInitialized := b\<rparr>) = keepsQueues k s s'" "keepsQueues k s (s'\<lparr>deferredISC := e\<rparr>) = keepsQueues k s s'"
  "keepsQueues k s (s'\<lparr>deferredICL := f\<rparr>) = keepsQueues k s s'" "keepsQueues k s (s'\<lparr>deferredISCRequests := g\<rparr>) = keepsQueues k s s'"
  by (simp_all add: keepsQueues_def)

lemma keeps_updAcc:
  assumes "keepsQueues k s s'" "\<And>a. creditCap (f a) = creditCap a"
    "\<And>a. set (queueHost a) \<subseteq> set (queueHost (f a))" "\<And>a. set (queueISC a) \<subseteq> set (queueISC (f a))"
  shows "keepsQueues k s (updAcc j f s')"
  unfolding keepsQueues_def
proof (intro conjI allI impI)
  fix a assume "users s k = Some a"
  then obtain a' where a': "users s' k = Some a'" "creditCap a' = creditCap a" "set (queueHost a) \<subseteq> set (queueHost a')"
    "set (queueISC a) \<subseteq> set (queueISC a')" using assms(1) unfolding keepsQueues_def by blast
  have "users (updAcc j f s') k = Some (if j = k then f a' else a')" using a'(1) by (cases "j = k") auto
  moreover have "creditCap (f a') = creditCap a" "set (queueHost a) \<subseteq> set (queueHost (f a'))" "set (queueISC a) \<subseteq> set (queueISC (f a'))"
    using a'(2-) assms(2-) [of a'] by (simp_all add: subset_trans [OF a'(3)] subset_trans [OF a'(4)])
  ultimately show "\<exists>a'. users (updAcc j f s') k = Some a' \<and> creditCap a' = creditCap a \<and>
      set (queueHost a) \<subseteq> set (queueHost a') \<and> set (queueISC a) \<subseteq> set (queueISC a')"
    using a' by (cases "j = k") simp_all
qed (use assms(1) in \<open>simp add: keepsQueues_def\<close>)

lemma keeps_get: "getOrCreateUser E j s = Inr (a, s') \<Longrightarrow> keepsQueues k s s'"
  by (erule getOrCreateUser_cases) (auto simp: keepsQueues_def)

lemma keeps_map:
  assumes "users s' = (\<lambda>k. map_option f (users s k))" "deferredQueue s' = deferredQueue s"
    "\<And>a. creditCap (f a) = creditCap a" "\<And>a. queueHost (f a) = queueHost a" "\<And>a. queueISC (f a) = queueISC a"
  shows "keepsQueues k s s'"
  using assms by (auto simp: keepsQueues_def)

lemma stuck_keeps: "stuck r cap s \<Longrightarrow> keepsQueues (hrUserID r) s s' \<Longrightarrow> cs_inv s' \<Longrightarrow> stuck r cap s'"
  unfolding stuck_def keepsQueues_def waiting_def by (auto; blast)

lemma stuck_on_ok:
  assumes "stuck r cap s" "on_ok m (keepsQueues (hrUserID r) s)" "on_ok m cs_inv"
  shows "on_ok m (stuck r cap)"
  using assms by (cases m) (auto intro: stuck_keeps)

lemma stuck_frame [simp]:
  "stuck r cap (s\<lparr>csWorld := w\<rparr>) = stuck r cap s" "stuck r cap (s\<lparr>inTick := b\<rparr>) = stuck r cap s"
  "stuck r cap (s\<lparr>lastChosenUid := u\<rparr>) = stuck r cap s" "stuck r cap (s\<lparr>lastChosenUidISC := u\<rparr>) = stuck r cap s"
  "stuck r cap (s\<lparr>deferredISC := e\<rparr>) = stuck r cap s" "stuck r cap (s\<lparr>deferredISCRequests := g\<rparr>) = stuck r cap s"
  by (simp_all add: stuck_def waiting_def)

text \<open>No account of the user can pay for it.\<close>

lemma stuck_poor: "stuck r cap s \<Longrightarrow> users s (hrUserID r) = Some a \<Longrightarrow> credit a < pagesOf (hrLength r)"
  by (auto simp: stuck_def cs_inv_def acc_ok_def intro: le_less_trans)

lemma keeps_activate: "keepsQueues k s (activate E uid s)"
  unfolding activate_def Let_def by (auto split: option.splits intro!: keeps_updAcc)

lemma keeps_bind_user:
  assumes "\<And>a s'. keepsQueues k s s' \<Longrightarrow> on_ok (f (a, s')) Q"
  shows "on_ok (bindR (getOrCreateUser E j s) f) Q"
  unfolding on_ok_bindR by (rule on_okI) (auto intro: assms keeps_get)

lemma keeps_dispatchICL: "on_ok (dispatchICL E req (s, t)) (\<lambda>(s', _). keepsQueues k s s')"
  unfolding dispatchICL_def Let_def prod.case
  by (auto split: prod.splits intro!: keeps_bind_user keeps_updAcc) (auto simp: keepsQueues_def)

lemma stuck_dispatchICL:
  assumes "stuck r cap s" shows "on_ok (dispatchICL E req (s, t)) (\<lambda>(s', _). stuck r cap s')"
proof (rule on_okI)
  fix x assume x: "dispatchICL E req (s, t) = Inr x"
  have "cs_inv s" using assms by (simp add: stuck_def)
  from on_okD [OF dispatchICL_inv [OF this] x] on_okD [OF keeps_dispatchICL x]
  show "case x of (s', _) \<Rightarrow> stuck r cap s'" by (auto intro: stuck_keeps [OF assms])
qed

lemma keeps_dispatchAdmin: "on_ok (dispatchAdmin E (s, t)) (\<lambda>(s', _). keepsQueues k s s')"
  unfolding dispatchAdmin_def prod.case
  by (rule foldR_on_ok [where I = "\<lambda>(s', _). keepsQueues k s s'"])
    (auto split: prod.splits intro!: on_ok_mono [OF keeps_dispatchICL] intro: keeps_trans)

lemma keeps_measure: "keepsQueues k s (measureWindow t s)"
  unfolding measureWindow_def Let_def by (auto simp: keepsQueues_def)

lemma keeps_refillAll: "on_ok (beRefillAll E x w s) (keepsQueues k s)"
  unfolding beRefillAll_def
  by (rule foldR_on_ok [where I = "keepsQueues k s"])
    (auto simp: on_ok_bindR beRefill_def Let_def keepsQueues_def split: option.splits intro!: on_okI)

lemma keeps_refillPhase:
  assumes "cs_inv s" shows "on_ok (refillPhase E s) (keepsQueues k s)"
proof -
  let ?i = "s\<lparr>users := map_option idleStep \<circ> users s\<rparr>"
  have i: "keepsQueues k s ?i" by (rule keeps_map [where f = idleStep]) (simp_all add: idleStep_def comp_def)
  show ?thesis
    unfolding refillPhase_best_effort [OF assms] bestEffortPhase_def Let_def on_ok_bindR
    using i keeps_trans [OF i] by (auto intro!: on_ok_mono [OF keeps_refillAll])
qed

lemma keeps_refillLoop: "cs_inv s \<Longrightarrow> on_ok (refillLoop n E now s) (keepsQueues k s)"
proof (induction n arbitrary: s)
  case 0
  then show ?case by (simp add: refillLoop.simps [of 0])
next
  case (Suc n)
  have "on_ok (refillLoop n E now u) (keepsQueues k s)" if "refillPhase E s = Inr u" for u
  proof (rule on_ok_mono [OF Suc.IH])
    show "cs_inv u" using refillPhase_inv [OF Suc.prems, of E] that by simp
    show "keepsQueues k s x" if "keepsQueues k u x" for x
      using keeps_trans [OF _ that] keeps_refillPhase [OF Suc.prems, of E k] \<open>refillPhase E s = Inr u\<close> by simp
  qed
  then show ?case by (auto simp: refillLoop.simps [of "Suc n"] on_ok_bindR intro!: on_okI)
qed

text \<open>The three places that pay from the credit.\<close>

lemma stuck_runDeferred: "stuck r cap s \<Longrightarrow> on_ok (runDeferred n E (s, now)) (\<lambda>(s', _). stuck r cap s')"
proof (induction n arbitrary: s now)
  case (Suc n)
  let ?k = "hrUserID r"
  have I: "cs_inv s" using Suc.prems by (simp add: stuck_def)
  show ?case
  proof (cases "deferredQueue s")
    case (Cons dr rest)
    show ?thesis
      unfolding runDeferred.simps Cons list.case
    proof (rule settling_user [where s = s and ?s0.0 = s])
      fix a u assume g: "getOrCreateUser E (hrUserID (drReq dr)) (s\<lparr>deferredQueue := rest\<rparr>) = Inr (a, u)" and iu: "cs_inv u"
        and ua: "users u (hrUserID (drReq dr)) = Some a"
      have k: "keepsQueues ?k (s\<lparr>deferredQueue := rest\<rparr>) u" by (rule keeps_get [OF g])
      then have put: "keepsQueues ?k s (u\<lparr>deferredQueue := deferredQueue u @ [dr]\<rparr>)"
        using Cons getOrCreateUser_books(3) [OF g] by (simp add: keepsQueues_def)
      then have S: "stuck r cap (u\<lparr>deferredQueue := deferredQueue u @ [dr]\<rparr>)"
        using stuck_keeps [OF Suc.prems] iu by simp
      have paid: "stuck r cap (updAcc (hrUserID (drReq dr)) (pay h (drPages dr)) u)" if "drPages dr \<le> credit a" for h
      proof -
        have "\<not> (drReq dr = r \<and> drPages dr = pagesOf (hrLength r))"
          using stuck_poor [OF S, of a] ua that by auto
        then have "stuck r cap u"
          using S iu unfolding stuck_def waiting_def by auto
        moreover have "keepsQueues ?k u (updAcc (hrUserID (drReq dr)) (pay h (drPages dr)) u)"
          by (rule keeps_updAcc) (simp_all add: pay_def)
        ultimately show ?thesis using inv_pay [OF iu ua that] by (rule stuck_keeps)
      qed
      show "on_ok (case (a, u) of (acc, s) \<Rightarrow>
          if credit acc \<ge> drPages dr then
            (let s = updAcc (hrUserID (drReq dr)) (pay (isHostOp (hrOp (drReq dr))) (drPages dr)) s
             in bindR (dispatchICL E (drReq dr) (s\<lparr>inTick := False\<rparr>, now)) (\<lambda>(s, now).
                  runDeferred n E (s\<lparr>inTick := True\<rparr>, now)))
          else runDeferred n E (s\<lparr>deferredQueue := deferredQueue s @ [dr]\<rparr>, now)) (\<lambda>(s', _). stuck r cap s')"
        using S paid by (auto simp: Let_def on_ok_bindR intro!: Suc.IH on_ok_mono [OF stuck_dispatchICL])
    qed (use I settles_refl [of s] in \<open>simp_all add: settling_def\<close>)
  qed simp
qed simp

lemma stuck_runDeferredISC:
  assumes "stuck r cap s" shows "on_ok (runDeferredISC n E now s) (stuck r cap)"
proof -
  have "on_ok (runDeferredISC n E now u) (keepsQueues k s)" if "keepsQueues k s u" for u k
    using that
  proof (induction n arbitrary: u)
    case (Suc n)
    show ?case
    proof (cases "deferredISC u")
      case (Cons dc rest)
      show ?thesis
        unfolding runDeferredISC.simps Cons list.case
      proof (rule keeps_bind_user)
        fix a v assume "keepsQueues k (u\<lparr>deferredISC := rest\<rparr>) v"
        moreover have "keepsQueues k s (u\<lparr>deferredISC := rest\<rparr>)" using Suc.prems by simp
        ultimately have v: "keepsQueues k s v" by (rule keeps_trans [rotated])
        have "keepsQueues k s (updAcc (dcUid dc) (pay False (dcPages dc)) v)" by (rule keeps_updAcc [OF v]) (simp_all add: pay_def)
        with v show "on_ok (case (a, v) of (acc, s) \<Rightarrow>
            if credit acc \<ge> dcPages dc then
              (let s = updAcc (dcUid dc) (pay False (dcPages dc)) s;
                   s = (if dcResume dc then s\<lparr>csWorld := eResume E (csWorld s) (dcCtx dc) now, inTick := True\<rparr> else s)
               in runDeferredISC n E now s)
            else runDeferredISC n E now (s\<lparr>deferredISC := deferredISC s @ [dc]\<rparr>)) (keepsQueues k s)"
          by (auto simp: Let_def intro!: Suc.IH)
      qed
    qed simp
  qed simp
  moreover have "on_ok (runDeferredISC n E now s) cs_inv"
    using runDeferredISC_settling [of s s n E now] assms settles_refl [of s]
    by (auto simp: settling_def stuck_def elim!: on_ok_mono)
  ultimately show ?thesis using stuck_on_ok [OF assms] by simp
qed

lemma stuck_processISC:
  assumes "stuck r cap s" shows "on_ok (processISCRequests E now s) (stuck r cap)"
proof -
  have "on_ok (processISCRequests E now s) (keepsQueues k s)" for k
    unfolding processISCRequests_def on_ok_bindR
    by (rule on_ok_mono [OF foldR_on_ok [where I = "\<lambda>(u, rem). keepsQueues k s u"]])
      (auto split: prod.splits intro!: keeps_bind_user keeps_updAcc simp: Let_def executeISCRequest_def pay_def elim: keeps_trans)
  then show ?thesis using stuck_on_ok [OF assms] processISCRequests_inv [of s E now] assms by (simp add: stuck_def)
qed

text \<open>A request moved from a queue of its user to the deferred requests still waits.\<close>

lemma stuck_moved:
  assumes S: "stuck r cap s" and a: "users s k = Some a"
    and q: "set (queueHost a) \<union> set (queueISC a) \<subseteq> set (queueHost a') \<union> set (queueISC a') \<union> {x}" and c: "creditCap a' = creditCap a"
    and s': "users s' = (users s)(k \<mapsto> a')" "cs_inv s'"
    and d: "set (deferredQueue s) \<subseteq> set (deferredQueue s')"
      "x = r \<Longrightarrow> \<lparr>drReq = x, drPages = pagesOf (hrLength x), drDeferTime = t\<rparr> \<in> set (deferredQueue s')"
  shows "stuck r cap s'"
proof -
  have "waiting r s'"
    using S a q d s'(1) unfolding stuck_def waiting_def by (cases "k = hrUserID r") (auto; blast)+
  then show ?thesis using S a c s' by (auto simp: stuck_def)
qed

lemma stuck_acc: "stuck r cap s \<Longrightarrow> users s k = Some a \<Longrightarrow> acc_ok k a"
  by (simp add: stuck_def cs_inv_def)

lemma stuck_scanISC: "stuck r cap s \<Longrightarrow> on_ok (scanISC ks (s, now)) (\<lambda>(_, s', _). stuck r cap s')"
proof (induction ks arbitrary: s)
  case (Cons k ks)
  have I: "cs_inv s" using Cons.prems by (simp add: stuck_def)
  show ?case
  proof (cases "users s k")
    case (Some a)
    show ?thesis
    proof (cases "queueISC a")
      case Nil
      then show ?thesis using Some Cons by simp
    next
      case (Cons q qs)
      let ?n = "pagesOf (hrLength q)"
      have qk: "hrUserID q = k" using queue_user [OF I Some] Cons by simp
      note ok = stuck_acc [OF Cons.prems Some]
      show ?thesis
      proof (cases "credit a \<ge> ?n")
        case True
        then have "q \<noteq> r" using stuck_poor [OF Cons.prems, of a] Some qk by auto
        moreover have "cs_inv (updAcc k (\<lambda>a. (pay False ?n a)\<lparr>queueISC := tl (queueISC a)\<rparr>) s)"
          using I Some True Cons acc_ok_pay [OF ok True, of False] by (intro updAcc_inv) (auto simp: acc_ok_def pay_def)
        ultimately have "stuck r cap (updAcc k (\<lambda>a. (pay False ?n a)\<lparr>queueISC := tl (queueISC a)\<rparr>) s)"
          by (intro stuck_moved [OF Cons.prems Some, where x = q]) (use Some Cons in \<open>auto simp: pay_def\<close>)
        then show ?thesis using Some Cons True by simp
      next
        case False
        let ?v = "(updAcc k (\<lambda>a. a\<lparr>queueISC := tl (queueISC a)\<rparr>) s)\<lparr>deferredQueue := deferredQueue s @
            [\<lparr>drReq = q, drPages = ?n, drDeferTime = now\<rparr>]\<rparr>"
        have "cs_inv ?v" using I Some Cons by (auto intro!: updAcc_inv simp: acc_ok_def)
        then have "stuck r cap ?v"
          by (intro stuck_moved [OF Cons.prems Some, where x = q and t = now]) (use Some Cons in auto)
        from Cons.IH [OF this] show ?thesis using Some Cons False by simp
      qed
    qed
  qed simp
qed simp

lemma stuck_scanHost: "stuck r cap s \<Longrightarrow> on_ok (scanHost E ks (s, now)) (\<lambda>(_, s', _). stuck r cap s')"
proof (induction ks arbitrary: s)
  case (Cons k ks)
  have I: "cs_inv s" using Cons.prems by (simp add: stuck_def)
  show ?case
  proof (cases "users s k")
    case (Some a)
    show ?thesis
    proof (cases "queueHost a")
      case Nil
      then show ?thesis using Some Cons by simp
    next
      case (Cons q qs)
      let ?n = "pagesOf (hrLength q)"
      have qk: "hrUserID q = k" using queue_user [OF I Some] Cons by simp
      note ok = stuck_acc [OF Cons.prems Some]
      note T = tryDispatch_known [of s q a E now, unfolded qk, OF Some]
      show ?thesis
      proof (cases "credit a < ?n")
        case False
        then have le: "?n \<le> credit a" by simp
        then have "q \<noteq> r" using stuck_poor [OF Cons.prems, of a] Some qk by auto
        let ?v = "updAcc k ((\<lambda>a. a\<lparr>queueHost := tl (queueHost a)\<rparr>) \<circ> pay (isHostOp (hrOp q)) ?n) s"
        have "cs_inv ?v" using I Some Cons acc_ok_pay [OF ok le, of "isHostOp (hrOp q)"]
          by (intro updAcc_inv) (auto simp: acc_ok_def pay_def)
        with \<open>q \<noteq> r\<close> have "stuck r cap ?v"
          by (intro stuck_moved [OF Cons.prems Some, where x = q]) (use Some Cons in \<open>auto simp: pay_def\<close>)
        then have "stuck r cap (?v\<lparr>lastChosenUid := k, inTick := False\<rparr>)" by simp
        from stuck_dispatchICL [OF this, of E q now] show ?thesis
          using Some Cons False T by (simp add: updAcc_updAcc on_ok_bindR) (erule on_ok_mono, auto)
      next
        case True
        let ?v = "updAcc k (\<lambda>a. a\<lparr>queueHost := tl (queueHost a)\<rparr>) (s\<lparr>deferredQueue := deferredQueue s @
            [\<lparr>drReq = q, drPages = ?n, drDeferTime = now\<rparr>]\<rparr>)"
        have "cs_inv ?v" using I Some Cons by (auto intro!: updAcc_inv simp: acc_ok_def)
        then have "stuck r cap ?v"
          by (intro stuck_moved [OF Cons.prems Some, where x = q and t = now]) (use Some Cons in auto)
        from Cons.IH [OF this] show ?thesis using Some Cons True T by simp
      qed
    qed
  qed simp
qed simp

lemma stuck_dispatchRounds: "stuck r cap s \<Longrightarrow> on_ok (dispatchRounds n E (s, now)) (\<lambda>(s', _). stuck r cap s')"
proof (induction n arbitrary: s now)
  case (Suc n)
  have "on_ok (dispatchOne E (s, now)) (\<lambda>(_, s', _). stuck r cap s')"
    unfolding dispatchOne_def prod.case on_ok_bindR
    by (rule on_ok_mono [OF stuck_scanISC [OF Suc.prems]]) (auto intro: stuck_scanHost)
  then show ?case
    unfolding dispatchRounds.simps on_ok_bindR by (rule on_ok_mono) (auto intro: Suc.IH)
qed simp

lemma stuck_dispatchAll: "stuck r cap s \<Longrightarrow> on_ok (dispatchAll E (s, now)) (\<lambda>(s', _). stuck r cap s')"
  unfolding dispatchAll_def prod.case on_ok_bindR
  by (rule on_ok_mono [OF stuck_runDeferred], assumption)
    (auto simp: on_ok_bindR intro!: on_ok_mono [OF stuck_runDeferredISC] on_ok_mono [OF stuck_processISC] stuck_dispatchRounds)

lemma stuck_tick:
  assumes "stuck r cap s" shows "on_ok (CreditScheduler_tick E (s, now)) (\<lambda>(s', _). stuck r cap s')"
proof -
  let ?m = "measureWindow now (s\<lparr>inTick := True\<rparr>)"
  have I: "cs_inv s" using assms by (simp add: stuck_def)
  have m: "stuck r cap ?m"
    by (rule stuck_keeps [where s = "s\<lparr>inTick := True\<rparr>"]) (use assms I in \<open>simp_all add: keeps_measure measureWindow_inv\<close>)
  have "on_ok (dispatchAdmin E (?m, now)) (\<lambda>(s', _). stuck r cap s')"
  proof (rule on_okI)
    fix x assume x: "dispatchAdmin E (?m, now) = Inr x"
    have "cs_inv ?m" using m by (simp add: stuck_def)
    from on_okD [OF dispatchAdmin_inv [OF this] x] on_okD [OF keeps_dispatchAdmin x]
    show "case x of (s', _) \<Rightarrow> stuck r cap s'" by (auto intro: stuck_keeps [OF m])
  qed
  moreover have refill: "on_ok (refillLoop n E t u) (stuck r cap)" if "stuck r cap u" for n t u
    using that by (intro stuck_on_ok [OF that] keeps_refillLoop refillLoop_inv) (simp_all add: stuck_def)
  ultimately show ?thesis
    unfolding CreditScheduler_tick_def prod.case on_ok_bindR
    using assms by (auto simp: on_ok_bindR elim!: on_ok_mono intro!: on_ok_mono [OF refill] on_ok_mono [OF stuck_dispatchAll])
qed

lemma stuck_processLoop: "stuck r cap s \<Longrightarrow> on_ok (processLoop n E uid (s, t)) (\<lambda>(s', _). stuck r cap s')"
proof (induction n arbitrary: s t)
  case (Suc n)
  show ?case
    unfolding processLoop.simps on_ok_bindR
    by (rule on_ok_mono [OF stuck_tick [OF Suc.prems]]) (auto intro: Suc.IH)
qed simp

lemma keeps_submit: "on_ok (submitRequest E q s) (keepsQueues k s)"
  unfolding submitRequest_def Let_def
  by (auto intro!: keeps_bind_user keeps_trans [OF _ keeps_activate] keeps_updAcc)

lemma keeps_ensure: "on_ok (ensureActiveUser E uid s) (keepsQueues k s)"
  unfolding ensureActiveUser_def by (auto intro!: keeps_bind_user keeps_trans [OF _ keeps_activate])

lemma keeps_use:
  "on_ok (useCredit E uid used s) (keepsQueues k s)" "on_ok (useCreditISC E uid used s) (keepsQueues k s)"
  unfolding useCredit_def useCreditISC_def Let_def
  by (auto intro!: keeps_bind_user keeps_updAcc simp: pay_def)

lemma keeps_targets:
  "on_ok (setUserIopsTarget E uid x s) (keepsQueues k s)" "on_ok (setUserTailTarget E uid x y s) (keepsQueues k s)"
  unfolding setUserIopsTarget_def setUserTailTarget_def by (auto intro!: keeps_bind_user keeps_updAcc)

lemma keeps_submitISC: "on_ok (submitISCRequest E uid pages c s) (\<lambda>(_, s'). keepsQueues k s s')"
  unfolding submitISCRequest_def
  by (auto simp: on_ok_bindR Let_def executeISCRequest_def split: option.splits
      intro!: on_ok_mono [OF keeps_ensure] keeps_bind_user [unfolded on_ok_bindR] keeps_updAcc elim: keeps_trans simp: pay_def)

lemma keeps_try: "on_ok (tryDispatchWithCredit E q now s) (\<lambda>(_, s'). keepsQueues k s s')"
  unfolding tryDispatchWithCredit_def Let_def
  by (auto intro!: keeps_bind_user keeps_updAcc simp: pay_def) (auto simp: keepsQueues_def)

lemma keeps_processICL: "on_ok (processDeferredICL E s) (keepsQueues k s)"
  unfolding processDeferredICL_def on_ok_bindR
  by (rule on_ok_mono [OF foldR_on_ok [where I = "\<lambda>(u, rem). keepsQueues k s u"]])
    (auto split: prod.splits simp: on_ok_bindR intro!: on_ok_mono [OF keeps_use(2)] elim: keeps_trans)

lemma stuck_inv: "stuck r cap s \<Longrightarrow> cs_inv s"
  by (simp add: stuck_def)

lemma stuck_on_okD: "stuck r cap s \<Longrightarrow> on_ok m (keepsQueues (hrUserID r) s) \<Longrightarrow> on_ok m cs_inv \<Longrightarrow> m = Inr s' \<Longrightarrow> stuck r cap s'"
  using stuck_on_ok by fastforce

text \<open>Every operation but the reset of the statistics, which empties the second queue of every user.\<close>

lemma stuck_step:
  assumes "cs_step E s s'" "stuck r cap s" "s' \<noteq> resetStatValues E s"
  shows "stuck r cap s'"
  using assms
proof (induction rule: cs_step.induct)
  case (step_event now s s')
  then show ?case using stuck_tick [of r cap s E now] by (auto simp: processEvent_def bindR_eq_Inr)
next
  case (step_process req t s s' t')
  then obtain u where u: "submitRequest E req s = Inr u" "processLoop maxIterations E (hrUserID req) (u, t) = Inr (s', t')"
    by (auto simp: processUntil_def bindR_eq_Inr)
  have "cs_inv s" using step_process.prems by (simp add: stuck_def)
  then have "stuck r cap u"
    using stuck_on_okD [OF step_process.prems(1) keeps_submit submitRequest_inv u(1)] by blast
  then show ?case using stuck_processLoop [of r cap u maxIterations E "hrUserID req" t] u(2) by simp
next
  case (step_submit req s s')
  show ?case by (rule stuck_on_okD [OF step_submit.prems(1) keeps_submit submitRequest_inv [OF stuck_inv [OF step_submit.prems(1)]] step_submit.hyps])
next
  case (step_isc uid pages c s b s')
  have "cs_inv s" using step_isc.prems by (simp add: stuck_def)
  from on_okD [OF submitISCRequest_inv [OF this] step_isc.hyps] on_okD [OF keeps_submitISC step_isc.hyps]
  show ?case using stuck_keeps [OF step_isc.prems(1)] by simp
next
  case (step_try q now s b s')
  have "cs_inv s" using step_try.prems by (simp add: stuck_def)
  from on_okD [OF tryDispatch_inv [OF this] step_try.hyps] on_okD [OF keeps_try step_try.hyps]
  show ?case using stuck_keeps [OF step_try.prems(1)] by simp
next
  case (step_process_isc now s s')
  then show ?case using stuck_processISC [of r cap s E now] by simp
next
  case (step_process_icl s s')
  show ?case by (rule stuck_on_okD [OF step_process_icl.prems(1) keeps_processICL processDeferredICL_inv [OF stuck_inv [OF step_process_icl.prems(1)]] step_process_icl.hyps])
next
  case (step_use uid used s s')
  show ?case by (rule stuck_on_okD [OF step_use.prems(1) keeps_use(1) useCredit_inv [OF stuck_inv [OF step_use.prems(1)]] step_use.hyps])
next
  case (step_use_isc uid used s s')
  show ?case by (rule stuck_on_okD [OF step_use_isc.prems(1) keeps_use(2) useCreditISC_inv [OF stuck_inv [OF step_use_isc.prems(1)]] step_use_isc.hyps])
next
  case (step_ensure uid s s')
  show ?case by (rule stuck_on_okD [OF step_ensure.prems(1) keeps_ensure ensureActiveUser_inv [OF stuck_inv [OF step_ensure.prems(1)]] step_ensure.hyps])
next
  case (step_iops uid x s s')
  show ?case by (rule stuck_on_okD [OF step_iops.prems(1) keeps_targets(1) setUserTarget_inv(1) [OF stuck_inv [OF step_iops.prems(1)]] step_iops.hyps])
next
  case (step_tail uid x y s s')
  show ?case by (rule stuck_on_okD [OF step_tail.prems(1) keeps_targets(2) setUserTarget_inv(2) [OF stuck_inv [OF step_tail.prems(1)]] step_tail.hyps])
qed (simp_all add: submitISCDeferred_def submitICLDeferred_def stuck_def waiting_def)

text \<open>A reset that drops the request with the second queue of its user.\<close>

definition dropped_by_reset :: "'w cs_env \<Rightarrow> hil_request \<Rightarrow> 'w cs \<Rightarrow> 'w cs \<Rightarrow> bool" where
  "dropped_by_reset E r s s' \<longleftrightarrow> s' = resetStatValues E s \<and> (\<exists>a. users s (hrUserID r) = Some a \<and> r \<in> set (queueISC a))"

lemma stuck_kept:
  assumes "stuck r cap s" "cs_step E s s'" "\<not> dropped_by_reset E r s s'"
  shows "stuck r cap s'"
proof (cases "s' = resetStatValues E s")
  case True
  have "waiting r s'" "\<exists>a. users s' (hrUserID r) = Some a \<and> creditCap a = cap"
    using assms(1,3) True by (auto simp: stuck_def dropped_by_reset_def waiting_def resetStatValues_def)
  then show ?thesis using assms(1,2) cs_step_inv by (auto simp: stuck_def)
next
  case False
  then show ?thesis using stuck_step [OF assms(2,1)] by blast
qed

end
