(* ===== verification/Credit_Props.thy ===== *)
theory Credit_Props
  imports Credit_Wait
begin

text \<open>
  The properties of the credit scheduler. Each theorem with hypotheses is followed by an
  instance on a scheduler with a refill of one page per period.
\<close>

section \<open>A small scheduler\<close>

definition exEnv :: "nat cs_env" where
  "exEnv = \<lparr>eICLRead = (\<lambda>w r t. (Suc w, t + 1)), eICLWrite = (\<lambda>w r t. (Suc w, t + 1)), eGetTick = (\<lambda>w. 0), eSchedule = (\<lambda>w t. w),
     eResume = (\<lambda>w c t. w), eCallback = (\<lambda>w c t. w), eOrder = (\<lambda>ks. ks)\<rparr>"

definition exHost :: "u64 \<Rightarrow> hil_request" where
  "exHost n = HIL_Request_new\<lparr>hrUserID := 1001, hrOp := OP_READ, hrLength := n\<rparr>"

text \<open>The state after construction.\<close>

definition exAcc :: account where
  "exAcc = newAccount 2000 0"

definition exSched :: "nat cs" where
  "exSched = \<lparr>adminQueue = [], users = [1001 \<mapsto> exAcc, 1002 \<mapsto> exAcc, 1003 \<mapsto> exAcc], userKeys = [1001, 1002, 1003],
     lastChosenUid = 0, lastChosenUidISC = 0, inTick = False, timerStarted = False, periodTicks = 1, ticksPerSec = 12000,
     statUsers = [1001, 1002, 1003], pagesPerPeriod = Fin 1, totalWeight = 3, lastGlobalRefillTick = 0, lastStatTick = 0,
     statInitialized = False, deferredQueue = [], deferredISC = [], deferredICL = [], deferredISCRequests = [], csWorld = 0\<rparr>"

lemma fround_f64_numeral: "numeral n < (2 :: nat) ^ 53 \<Longrightarrow> fround f64 (numeral n) = Fin (numeral n)"
  using fl_of_nat_f64 [of "numeral n"] by (simp add: fl_of_nat_def)

lemma fround_f64_1: "fround f64 1 = Fin 1"
  using fl_of_nat_f64 [of 1] by (simp add: fl_of_nat_def)

lemma exSched_new: "CreditScheduler_new exEnv 1 12000 0 False 0 = Inr exSched"
  by (simp add: CreditScheduler_new_def exSched_def Let_def PagesPerSec_def fl_u64_def fl_of_nat_def fround_f64_numeral fround_f64_1
      getOrCreateUser_def updAcc_def exEnv_def exAcc_def newAccount_def word_less_nat_alt fun_eq_iff)

lemma exSched_reachable: "cs_reachable exEnv exSched"
  using exSched_new by (rule reach_new)

section \<open>Accounts\<close>

text \<open>
  C24. In every state reachable by the operations of the scheduler, no account holds more
  credit than its cap, every request waits in the queue of its own user, and the table of
  users has no duplicate.
\<close>

theorem credit_within_cap:
  assumes "cs_reachable E s" "users s uid = Some a"
  shows "credit a \<le> creditCap a \<and> (\<forall>r\<in>set (queueHost a) \<union> set (queueISC a). hrUserID r = uid) \<and>
    uid \<in> set (userKeys s) \<and> distinct (userKeys s)"
  using cs_reachable_inv [OF assms(1)] assms(2) by (auto simp: cs_inv_def acc_ok_def)

theorem credit_within_cap_witness:
  "credit exAcc \<le> creditCap exAcc \<and> 1001 \<in> set (userKeys exSched) \<and> distinct (userKeys exSched)"
  using credit_within_cap [OF exSched_reachable, of 1001 exAcc] by (simp add: exSched_def)

text \<open>
  The branch of the refill for users with a service level objective is never taken: in
  every reachable state a phase is the best-effort refill alone. No operation sets \<open>isSLO\<close>, so
  \<^verbatim>\<open>setUserIopsTarget\<close> and \<^verbatim>\<open>setUserTailTarget\<close> have no effect on the distribution of credit.
\<close>

theorem refill_never_serves_objectives:
  assumes "cs_reachable E s"
  shows "refillPhase E s = bestEffortPhase E s"
  using cs_reachable_inv [OF assms] by (rule refillPhase_best_effort)

theorem refill_never_serves_objectives_witness:
  "refillPhase exEnv exSched = bestEffortPhase exEnv exSched"
  using exSched_reachable by (rule refill_never_serves_objectives)

text \<open>
  The loop over the due phases ends when the period is positive and the time of the next
  phase fits 64 bits: the rounds the model allows are enough, the next phase then lies in the
  future, and the only failure is an amount of credit that does not fit 64 bits.
\<close>

theorem refillLoop_terminates:
  assumes "cs_reachable E s" "0 < periodTicks s" "unat now + unat (periodTicks s) < 2 ^ 64"
  shows "case refillLoop (refillFuel now s) E now s of
      Inl e \<Rightarrow> e = Undefined ''float to uint64_t out of range''
    | Inr s' \<Rightarrow> timerStarted s \<longrightarrow> now < lastGlobalRefillTick s'"
  using cs_reachable_inv [OF assms(1)] assms(2,3) by (rule refillLoop_ends)

theorem refillLoop_terminates_witness:
  "\<exists>s. submitRequest exEnv (exHost 4096) exSched = Inr s \<and> timerStarted s \<and>
     (case refillLoop (refillFuel 7 s) exEnv 7 s of
        Inl e \<Rightarrow> e = Undefined ''float to uint64_t out of range''
      | Inr s' \<Rightarrow> 7 < lastGlobalRefillTick s')"
proof -
  obtain s where s: "submitRequest exEnv (exHost 4096) exSched = Inr s" and t: "timerStarted s" "periodTicks s = 1"
    by (simp add: submitRequest_def exHost_def HIL_Request_new_def getOrCreateUser_def exSched_def activate_def updAcc_def exAcc_def newAccount_def Let_def)
  have "cs_reachable exEnv s" by (rule reach_step [OF exSched_reachable step_submit [OF s]])
  from refillLoop_terminates [OF this, of 7] s t show ?thesis by (auto split: sum.splits)
qed

section \<open>Dispatching\<close>

text \<open>
  C27. The dispatching part of a tick keeps the books of every user: what is taken from the
  credit is what is booked as consumed, and it is the size of the requests that left the
  queues of the user; no credit is created.
\<close>

theorem dispatchAll_keeps_books:
  assumes "cs_inv s" "dispatchAll E (s, now) = Inr (s', now')"
  shows "getUserCredit uid s - getUserCredit uid s' = demand uid s - demand uid s' \<and>
    consumedBy uid s' - consumedBy uid s = getUserCredit uid s - getUserCredit uid s' \<and>
    getUserCredit uid s' \<le> getUserCredit uid s"
proof -
  have "settling s s" using assms(1) by (simp add: settling_def settles_refl)
  then have "settling s s'" using on_okD [OF dispatchAll_settling assms(2)] by simp
  then have "getUserCredit uid s' - demand uid s' = getUserCredit uid s - demand uid s"
    "getUserCredit uid s' + consumedBy uid s' = getUserCredit uid s + consumedBy uid s" "getUserCredit uid s' \<le> getUserCredit uid s"
    by (simp_all add: settling_def settles_def)
  then show ?thesis by (simp add: algebra_simps)
qed

text \<open>A state with three pages of credit and a request of one page, and the state after its dispatch.\<close>

definition exFunded :: "u64 \<Rightarrow> hil_request list \<Rightarrow> nat cs" where
  "exFunded n q = exSched\<lparr>users := (users exSched)(1001 \<mapsto> exAcc\<lparr>isActive := True, credit := n, queueHost := q\<rparr>)\<rparr>"

definition exPaid :: "nat cs" where
  "exPaid = (updAcc 1001 (\<lambda>a. a\<lparr>winHostPages := 1, winHostIOs := 1\<rparr>) (updAcc 1001 (pay True 1) (exFunded 3 [])))\<lparr>lastChosenUid := 1001, inTick := True, csWorld := 1\<rparr>"

lemma exFunded_inv: "n \<le> 2000 \<Longrightarrow> cs_inv (exFunded n [exHost l])"
  by (auto simp: exFunded_def exSched_def cs_inv_def acc_ok_def exAcc_def newAccount_def exHost_def HIL_Request_new_def split: if_splits)

lemma exFunded_first:
  "dispatchOne exEnv (exFunded 3 [exHost 4096], 5) =
     Inr (True, exPaid, 6)"
  by (simp add: dispatchOne_def keysInOrder_def exFunded_def exSched_def exEnv_def scanOrder_def extract_Cons_code extract_Nil_code exAcc_def newAccount_def
      tryDispatchWithCredit_def getOrCreateUser_def exHost_def HIL_Request_new_def pagesOf_def PageSz_def exPaid_def updAcc_def pay_def dispatchICL_def ICL_Request_hil_def)

lemma exFunded_last:
  "dispatchOne exEnv (exPaid, 6) =
     Inr (False, exPaid, 6)"
  by (simp add: dispatchOne_def keysInOrder_def exFunded_def exSched_def exEnv_def scanOrder_def extract_Cons_code extract_Nil_code exAcc_def newAccount_def
      exPaid_def updAcc_def pay_def)

lemma exFunded_dispatch:
  "dispatchAll exEnv (exFunded 3 [exHost 4096], 5) =
     Inr (exPaid, 6)"
proof -
  have "dispatchRounds (Suc (Suc n)) exEnv (exFunded 3 [exHost 4096], 5) =
     Inr (exPaid, 6)" for n
    using exFunded_first exFunded_last by simp
  from this [of 4094] show ?thesis
    by (simp add: dispatchAll_def MAX_DISPATCH_PER_TICK_def processISCRequests_def exFunded_def exSched_def)
qed

theorem dispatchAll_keeps_books_witness:
  "\<exists>s' now'. dispatchAll exEnv (exFunded 3 [exHost 4096], 5) = Inr (s', now') \<and>
     getUserCredit 1001 (exFunded 3 [exHost 4096]) - getUserCredit 1001 s' = demand 1001 (exFunded 3 [exHost 4096]) - demand 1001 s' \<and>
     consumedBy 1001 s' - consumedBy 1001 (exFunded 3 [exHost 4096]) = getUserCredit 1001 (exFunded 3 [exHost 4096]) - getUserCredit 1001 s' \<and>
     getUserCredit 1001 s' = 2"
proof -
  have "(3 :: u64) \<le> 2000" by simp
  moreover have "getUserCredit 1001 exPaid = 2" by (simp add: exPaid_def exFunded_def getUserCredit_def pay_def)
  ultimately show ?thesis
    using dispatchAll_keeps_books [OF exFunded_inv exFunded_dispatch] exFunded_dispatch by blast
qed

text \<open>Five pages more than the cap are deferred, and still deferred after a timer event.\<close>

definition exBig :: hil_request where "exBig = exHost 8212480"

definition exDeferred :: "nat cs" where
  "exDeferred = exSched\<lparr>deferredQueue := [\<lparr>drReq = exBig, drPages = pagesOf (hrLength exBig), drDeferTime = 0\<rparr>]\<rparr>"

lemma exBig_pages: "pagesOf (hrLength exBig) = 2005"
  by (simp add: exBig_def exHost_def HIL_Request_new_def pagesOf_def PageSz_def)

lemma exDeferred_step: "cs_step exEnv exSched exDeferred"
  by (rule step_try [where req = exBig and now = 0 and r = False])
    (simp add: pagesOf_def PageSz_def tryDispatchWithCredit_def getOrCreateUser_def Let_def exDeferred_def exSched_def exBig_def exHost_def HIL_Request_new_def
      exAcc_def newAccount_def)

lemma exDeferred_event: "processEvent exEnv 0 exDeferred = Inr (exDeferred\<lparr>statInitialized := True\<rparr>)"
proof -
  have "dispatchRounds (Suc n) exEnv (exDeferred\<lparr>statInitialized := True, inTick := True\<rparr>, 0) =
      Inr (exDeferred\<lparr>statInitialized := True, inTick := True\<rparr>, 0)" for n
    by (simp add: dispatchOne_def keysInOrder_def exDeferred_def exSched_def exEnv_def scanOrder_def extract_Cons_code extract_Nil_code
      exAcc_def newAccount_def)
  from this [of 4095] show ?thesis
    by (simp add: pagesOf_def PageSz_def processEvent_def CreditScheduler_tick_def measureWindow_def dispatchAdmin_def refillLoop.simps dispatchAll_def
       processISCRequests_def MAX_DISPATCH_PER_TICK_def getOrCreateUser_def Let_def exDeferred_def exSched_def exBig_def exHost_def HIL_Request_new_def
      exAcc_def newAccount_def exEnv_def)
qed

text \<open>
  C28. A request of more pages than the credit cap of its user that is in a queue of its user
  or deferred in a reachable state waits forever: after any sequence of operations of the
  scheduler (timer events with their attempts to dispatch deferred, host and storage
  computing requests, synchronous processing, submissions, charges, changes of objectives)
  it is still in a queue or deferred, the cap is unchanged, and an attempt to dispatch it
  defers it again. The one exception is a reset of the statistics while the request is in
  the second queue of its user, which the reset empties.
\<close>

theorem oversized_request_never_dispatched:
  assumes "cs_reachable E s" "users s (hrUserID req) = Some a" "creditCap a < pagesOf (hrLength req)" "waiting req s"
    "(\<lambda>u v. cs_step E u v \<and> \<not> dropped_by_reset E req u v)\<^sup>*\<^sup>* s s'"
  shows "waiting req s' \<and> (\<exists>a'. users s' (hrUserID req) = Some a' \<and> creditCap a' = creditCap a) \<and>
    tryDispatchWithCredit E req now s' =
      Inr (False, s'\<lparr>deferredQueue := deferredQueue s' @ [\<lparr>drReq = req, drPages = pagesOf (hrLength req), drDeferTime = now\<rparr>]\<rparr>)"
proof -
  have "stuck req (creditCap a) s" using cs_reachable_inv [OF assms(1)] assms(2-4) by (simp add: stuck_def)
  with assms(5) have S: "stuck req (creditCap a) s'"
    by (induction rule: rtranclp_induct) (auto intro: stuck_kept)
  then obtain b where "users s' (hrUserID req) = Some b" by (auto simp: stuck_def)
  with stuck_poor [OF S this] tryDispatch_known [OF this] S show ?thesis by (simp add: stuck_def)
qed

theorem oversized_request_never_dispatched_witness:
  "waiting exBig (exDeferred\<lparr>statInitialized := True\<rparr>) \<and>
   tryDispatchWithCredit exEnv exBig 7 (exDeferred\<lparr>statInitialized := True\<rparr>) = Inr (False, exDeferred\<lparr>statInitialized := True,
     deferredQueue := deferredQueue exDeferred @ [\<lparr>drReq = exBig, drPages = pagesOf (hrLength exBig), drDeferTime = 7\<rparr>]\<rparr>)"
proof -
  let ?s = "exDeferred\<lparr>statInitialized := True\<rparr>"
  have u: "users exDeferred (hrUserID exBig) = Some exAcc" "creditCap exAcc < pagesOf (hrLength exBig)" "waiting exBig exDeferred"
    unfolding exBig_pages
    by (simp_all add: exDeferred_def exSched_def exBig_def exHost_def HIL_Request_new_def exAcc_def newAccount_def waiting_def)
  have "\<not> dropped_by_reset exEnv exBig exDeferred ?s"
    using u(1) by (simp add: dropped_by_reset_def exAcc_def newAccount_def)
  with step_event [OF exDeferred_event]
  have "(\<lambda>u v. cs_step exEnv u v \<and> \<not> dropped_by_reset exEnv exBig u v)\<^sup>*\<^sup>* exDeferred ?s" by blast
  from oversized_request_never_dispatched [OF reach_step [OF exSched_reachable exDeferred_step] u this, of 7] show ?thesis by simp
qed

text \<open>
  A request of user 0 is appended to the administrative queue and changes no account. A
  request of another user goes to the queues of its account alone: gates and results of
  in-storage computing in front of the one queue, host requests behind the other; the
  user is active afterwards and the timer runs.
\<close>

theorem submitRequest_correct:
  assumes "submitRequest E req s = Inr s'" "users s uid = Some a"
  shows "(hrUserID req = 0 \<longrightarrow> s' = s\<lparr>adminQueue := adminQueue s @ [req]\<rparr>) \<and>
    (hrUserID req \<noteq> 0 \<and> uid \<noteq> hrUserID req \<longrightarrow> users s' uid = Some a) \<and>
    (hrUserID req \<noteq> 0 \<and> uid = hrUserID req \<longrightarrow> (\<exists>a'. users s' uid = Some a' \<and> isActive a' \<and>
       queueISC a' = (if hrOp req = OP_CREDIT_ONLY \<or> hrOp req = OP_ISC_RESULT then req # queueISC a else queueISC a) \<and>
       queueHost a' = (if hrOp req = OP_CREDIT_ONLY \<or> hrOp req = OP_ISC_RESULT then queueHost a else queueHost a @ [req]) \<and>
       credit a' = (if isActive a then credit a else 0) \<and> (isActive a \<or> timerStarted s')))"
proof -
  let ?new = "if hrOp req = OP_CREDIT_ONLY \<or> hrOp req = OP_ISC_RESULT then
      updAcc (hrUserID req) (\<lambda>a. a\<lparr>pendingGates := (if hrOp req = OP_CREDIT_ONLY then pendingGates a + 1 else pendingGates a),
        queueISC := req # queueISC a\<rparr>)
    else updAcc (hrUserID req) (\<lambda>a. a\<lparr>queueHost := queueHost a @ [req]\<rparr>)"
  show ?thesis
  proof (cases "hrUserID req = 0")
    case True
    then show ?thesis using assms(1) by (simp add: submitRequest_def)
  next
    case False
    obtain b u where g: "getOrCreateUser E (hrUserID req) s = Inr (b, u)" and s': "s' = activate E (hrUserID req) (?new u)"
      using assms(1) False by (auto simp: submitRequest_def bindR_eq_Inr Let_def split: if_splits)
    have same: "users u uid = Some a"
      using g assms(2) by (auto elim!: getOrCreateUser_cases)
    show ?thesis
    proof (cases "uid = hrUserID req")
      case True
      then show ?thesis using False same s' by (auto simp: activate_def Let_def)
    next
      case other: False
      have "users s' uid = users u uid" using other unfolding s' by (auto simp: activate_def Let_def split: option.splits)
      then show ?thesis using False other same by simp
    qed
  qed
qed

theorem submitRequest_correct_witness:
  "\<exists>s' a'. submitRequest exEnv (exHost 4096) exSched = Inr s' \<and> users s' 1001 = Some a' \<and> isActive a' \<and> queueHost a' = [exHost 4096] \<and> timerStarted s'"
proof -
  obtain s' where s': "submitRequest exEnv (exHost 4096) exSched = Inr s'"
    by (simp add: submitRequest_def exHost_def HIL_Request_new_def getOrCreateUser_def exSched_def)
  from submitRequest_correct [OF s', of 1001 exAcc] s' show ?thesis
    by (auto simp: exSched_def exHost_def HIL_Request_new_def exAcc_def newAccount_def)
qed

text \<open>
  Charging credit from outside saturates: it takes the credit there is at most, so the
  64-bit balance never wraps, and what is taken is booked.
\<close>

theorem useCredit_saturates:
  assumes "users s uid = Some a"
  shows "\<exists>s1 s2 b c. useCredit E uid used s = Inr s1 \<and> useCreditISC E uid used s = Inr s2 \<and>
    users s1 = (users s)(uid \<mapsto> b) \<and> users s2 = (users s)(uid \<mapsto> c) \<and>
    unat (credit b) = unat (credit a) - unat used \<and> credit c = credit b \<and>
    totalConsumed b - totalConsumed a = credit a - credit b \<and> totalConsumed c = totalConsumed b \<and>
    consumedISC c - consumedISC a = credit a - credit c \<and> consumedISC b = consumedISC a"
  using assms
  by (auto simp: useCredit_def useCreditISC_def getOrCreateUser_def pay_def Let_def fun_eq_iff unat_sub word_less_nat_alt word_le_nat_alt not_less)

theorem useCredit_saturates_witness:
  "\<exists>s1 s2. useCredit exEnv 1001 7 (exFunded 3 []) = Inr s1 \<and> useCreditISC exEnv 1001 7 (exFunded 3 []) = Inr s2 \<and>
    getUserCredit 1001 s1 = 0 \<and> getUserCredit 1001 s2 = 0"
  using useCredit_saturates [of "exFunded 3 []" 1001 "exAcc\<lparr>isActive := True, credit := 3, queueHost := []\<rparr>" exEnv 7]
  by (fastforce simp: exFunded_def getUserCredit_def unat_eq_0)

text \<open>
  The round robin considers every user once and the user served last is considered
  last.
\<close>

theorem scanOrder_round_robin:
  assumes "distinct keys" "lastUid \<in> set keys"
  shows "distinct (scanOrder keys lastUid) \<and> set (scanOrder keys lastUid) = set keys \<and> last (scanOrder keys lastUid) = lastUid \<and>
    (\<exists>n. scanOrder keys lastUid = rotate n keys)"
proof -
  obtain pre post where keys: "keys = pre @ lastUid # post" using assms(2) by (meson split_list)
  with assms(1) have pre: "lastUid \<notin> set pre" by simp
  have "List.extract (\<lambda>k. k = lastUid) keys = Some (pre, lastUid, post)" using keys pre by (simp add: extract_Some_iff)
  then have order: "scanOrder keys lastUid = post @ pre @ [lastUid]" if "post \<noteq> []" using that by (simp add: scanOrder_def)
  have same: "scanOrder keys lastUid = keys" if "post = []"
    using that \<open>List.extract (\<lambda>k. k = lastUid) keys = Some (pre, lastUid, post)\<close> by (simp add: scanOrder_def)
  have rot: "rotate (Suc (length pre)) keys = post @ pre @ [lastUid]"
    using rotate_append [of "pre @ [lastUid]" post] keys by simp
  show ?thesis
  proof (cases "post = []")
    case True
    then show ?thesis using same assms keys by (auto intro: exI [of _ 0])
  next
    case False
    then show ?thesis using order assms keys rot by (auto intro: exI [of _ "Suc (length pre)"])
  qed
qed

theorem scanOrder_round_robin_witness:
  "scanOrder [4, 9, 7] 9 = [7, 4, 9] \<and> last (scanOrder [4, 9, 7] 9) = (9 :: u32)"
  using scanOrder_round_robin [of "[4, 9, 7]" 9] by (simp add: scanOrder_def extract_Cons_code)

end
