(* ===== verification/OrdMap.thy ===== *)
theory OrdMap
  imports Prelude
begin

text \<open>
  \<^verbatim>\<open>std::map\<close>: a list of pairs in ascending order of the keys. Its operations and the facts about
  them that the schedulers and the flash timing use.
\<close>

definition om_wf :: "('k::linorder \<times> 'v) list \<Rightarrow> bool" where
  "om_wf m \<longleftrightarrow> sorted_wrt (<) (map fst m)"

text \<open>\<open>m[k] = v\<close>, and \<open>insert\<close>, which keeps an entry that is there.\<close>

fun omPut :: "'k::linorder \<Rightarrow> 'v \<Rightarrow> ('k \<times> 'v) list \<Rightarrow> ('k \<times> 'v) list" where
  "omPut k v [] = [(k, v)]"
| "omPut k v (x # xs) = (if k < fst x then (k, v) # x # xs else if k = fst x then (k, v) # xs else x # omPut k v xs)"

definition omInsert :: "'k::linorder \<Rightarrow> 'v \<Rightarrow> ('k \<times> 'v) list \<Rightarrow> ('k \<times> 'v) list" where
  "omInsert k v m = (if map_of m k = None then omPut k v m else m)"

definition omErase :: "'k \<Rightarrow> ('k \<times> 'v) list \<Rightarrow> ('k \<times> 'v) list" where
  "omErase k m = filter (\<lambda>x. fst x \<noteq> k) m"

text \<open>\<open>upper_bound\<close> as a split: the entries up to the key, and the rest, which starts at the bound.\<close>

definition omUpper :: "'k::linorder \<Rightarrow> ('k \<times> 'v) list \<Rightarrow> ('k \<times> 'v) list \<times> ('k \<times> 'v) list" where
  "omUpper k m = (takeWhile (\<lambda>x. fst x \<le> k) m, dropWhile (\<lambda>x. fst x \<le> k) m)"

lemma om_wf_Nil [simp]: "om_wf []"
  by (simp add: om_wf_def)

lemma om_wf_Cons: "om_wf (x # xs) \<longleftrightarrow> (\<forall>y\<in>set xs. fst x < fst y) \<and> om_wf xs"
  by (simp add: om_wf_def)

lemma om_wf_append: "om_wf (xs @ ys) \<longleftrightarrow> om_wf xs \<and> om_wf ys \<and> (\<forall>x\<in>set xs. \<forall>y\<in>set ys. fst x < fst y)"
  by (auto simp: om_wf_def sorted_wrt_append)

lemma om_wf_distinct: "om_wf m \<Longrightarrow> distinct (map fst m)"
  by (induction m) (auto simp: om_wf_Cons)

lemma map_of_below: "\<forall>y\<in>set xs. (k :: 'k::linorder) < fst y \<Longrightarrow> map_of xs k = None"
  by (induction xs) auto

lemma map_of_omPut [simp]: "om_wf m \<Longrightarrow> map_of (omPut k v m) = (map_of m)(k \<mapsto> v)"
proof (induction k v m rule: omPut.induct)
  case (2 k v x xs)
  have "map_of xs (fst x) = None" using 2(2) by (intro map_of_below) (auto simp: om_wf_Cons)
  then show ?case using 2 by (cases x) (auto simp: om_wf_Cons fun_eq_iff)
qed simp

lemma set_omPut_keys: "fst ` set (omPut k v m) = insert k (fst ` set m)"
  by (induction k v m rule: omPut.induct) auto

lemma om_wf_omPut [simp]: "om_wf m \<Longrightarrow> om_wf (omPut k v m)"
proof (induction k v m rule: omPut.induct)
  case (2 k v x xs)
  have "fst x < fst y" if "fst x < k" "y \<in> set (omPut k v xs)" for y
  proof -
    have "fst y \<in> insert k (fst ` set xs)" using that(2) set_omPut_keys [of k v xs] by (metis image_eqI)
    then show ?thesis using that(1) 2(2) by (auto simp: om_wf_Cons)
  qed
  then show ?case using 2 by (auto simp: om_wf_Cons not_less)
qed (simp add: om_wf_Cons)

lemma set_omPut_new: "map_of m k = None \<Longrightarrow> set (omPut k v m) = insert (k, v) (set m)"
  by (induction k v m rule: omPut.induct) (auto split: if_splits)

lemma om_wf_omInsert [simp]: "om_wf m \<Longrightarrow> om_wf (omInsert k v m)"
  by (simp add: omInsert_def)

lemma set_omInsert: "set (omInsert k v m) \<subseteq> insert (k, v) (set m)"
  by (auto simp: omInsert_def set_omPut_new)

lemma om_wf_omErase [simp]: "om_wf m \<Longrightarrow> om_wf (omErase k m)"
  by (induction m) (auto simp: omErase_def om_wf_Cons)

lemma set_omErase [simp]: "set (omErase k m) = {x \<in> set m. fst x \<noteq> k}"
  by (simp add: omErase_def)

lemma om_wf_lookup: "om_wf m \<Longrightarrow> map_of m k = Some v \<longleftrightarrow> (k, v) \<in> set m"
  by (rule map_of_eq_Some_iff) (rule om_wf_distinct)

lemma omUpper_split:
  assumes "om_wf m" "omUpper k m = (lo, hi)"
  shows "m = lo @ hi" "\<And>x. x \<in> set lo \<Longrightarrow> fst x \<le> k" "\<And>x. x \<in> set hi \<Longrightarrow> k < fst x"
proof -
  have lo: "lo = takeWhile (\<lambda>x. fst x \<le> k) m" and hi: "hi = dropWhile (\<lambda>x. fst x \<le> k) m" using assms(2) by (auto simp: omUpper_def)
  show m: "m = lo @ hi" by (simp add: lo hi)
  show "fst x \<le> k" if "x \<in> set lo" for x using set_takeWhileD [OF that [unfolded lo]] by simp
  show "k < fst x" if "x \<in> set hi" for x
  proof (cases hi)
    case (Cons y ys)
    have "hd hi = y" "dropWhile (\<lambda>x. fst x \<le> k) m \<noteq> []" using Cons hi by auto
    then have "k < fst y" using hd_dropWhile [of "\<lambda>x. fst x \<le> k" m] hi by (simp add: not_le)
    moreover have "om_wf hi" using assms(1) m by (simp add: om_wf_append)
    ultimately show ?thesis using that by (auto simp: Cons om_wf_Cons)
  qed (use that in simp)
qed

lemma set_omPut: "om_wf m \<Longrightarrow> set (omPut k v m) = insert (k, v) {x \<in> set m. fst x \<noteq> k}"
  by (induction k v m rule: omPut.induct) (auto simp: om_wf_Cons)

lemma map_fst_omPut: "om_wf m \<Longrightarrow> k \<in> fst ` set m \<Longrightarrow> map fst (omPut k v m) = map fst m"
  by (induction k v m rule: omPut.induct) (auto simp: om_wf_Cons)

lemma om_wf_last: "om_wf m \<Longrightarrow> x \<in> set m \<Longrightarrow> x = last m \<or> fst x < fst (last m)"
  by (induction m) (auto simp: om_wf_Cons split: if_splits)

end
