(* ===== verification/Fcfs.thy ===== *)
theory Fcfs
  imports Credit OrdMap
begin

text \<open>
  The first-come first-served scheduler of the host interface
  (\<^verbatim>\<open>hil/scheduler/fcfs_scheduler.cc\<close>): a queue pair per user, one host and one in-storage
  computing request dispatched per tick in a round robin over the users, and its properties.
\<close>

section \<open>State and operations\<close>

record fcfs_account =
  faTotal :: u64
  faHost :: u64
  faISC :: u64
  faActive :: bool
  faQueue :: "hil_request list"
  faQueueISC :: "hil_request list"

text \<open>What the scheduler calls: the cache layer, which may fail, and the CPU model.\<close>

record 'w fcfs_env =
  feICLRead :: "'w \<Rightarrow> icl_request \<Rightarrow> tick \<Rightarrow> ('w \<times> tick) res"
  feICLWrite :: "'w \<Rightarrow> icl_request \<Rightarrow> tick \<Rightarrow> ('w \<times> tick) res"
  feApplyLatency :: "'w \<Rightarrow> cpu_namespace \<Rightarrow> cpu_function \<Rightarrow> 'w \<times> tick"

record 'w fcfs =
  fcUsers :: "(u32 \<times> fcfs_account) list"
  fcStatUsers :: "u32 list"
  fcCurrentTick :: tick
  fcLastChosenUid :: u32
  fcLastChosenUidISC :: u32
  fcLastReportTick :: tick
  fcWorld :: 'w

definition FCFS_newAccount :: fcfs_account where
  "FCFS_newAccount = \<lparr>faTotal = 0, faHost = 0, faISC = 0, faActive = False, faQueue = [], faQueueISC = []\<rparr>"

definition FCFS_getOrCreateUser :: "u32 \<Rightarrow> 'w fcfs \<Rightarrow> 'w fcfs" where
  "FCFS_getOrCreateUser uid s = s\<lparr>fcUsers := omInsert uid FCFS_newAccount (fcUsers s)\<rparr>"

text \<open>An update of the account of a user through the reference \<^verbatim>\<open>getOrCreateUser\<close> returns.\<close>

definition FCFS_account :: "u32 \<Rightarrow> (fcfs_account \<Rightarrow> fcfs_account) \<Rightarrow> 'w fcfs \<Rightarrow> 'w fcfs" where
  "FCFS_account uid f s =
     (let s = FCFS_getOrCreateUser uid s
      in case map_of (fcUsers s) uid of None \<Rightarrow> s | Some a \<Rightarrow> s\<lparr>fcUsers := omPut uid (f a) (fcUsers s)\<rparr>)"

definition FCFS_new :: "'w \<Rightarrow> 'w fcfs" where
  "FCFS_new w = fold (\<lambda>uid. FCFS_account uid (\<lambda>a. a\<lparr>faActive := False\<rparr>)) [1001, 1002]
     \<lparr>fcUsers = [], fcStatUsers = [1001, 1002], fcCurrentTick = 0, fcLastChosenUid = 0, fcLastChosenUidISC = 0,
      fcLastReportTick = 0, fcWorld = w\<rparr>"

definition FCFS_submitRequest :: "hil_request \<Rightarrow> 'w fcfs \<Rightarrow> 'w fcfs" where
  "FCFS_submitRequest req = FCFS_account (hrUserID req) (\<lambda>a. a\<lparr>faQueue := faQueue a @ [req], faActive := True\<rparr>)"

definition FCFS_submitRequestISC :: "u32 \<Rightarrow> hil_request \<Rightarrow> 'w fcfs \<Rightarrow> 'w fcfs" where
  "FCFS_submitRequestISC uid req = FCFS_account uid (\<lambda>a. a\<lparr>faQueueISC := faQueueISC a @ [req], faActive := True\<rparr>)"

definition recordPageConsumptionByOpType :: "u32 \<Rightarrow> u64 \<Rightarrow> op_type \<Rightarrow> 'w fcfs \<Rightarrow> 'w fcfs" where
  "recordPageConsumptionByOpType uid pages op = FCFS_account uid (\<lambda>a.
     (if isHostOp op then a\<lparr>faTotal := faTotal a + pages, faHost := faHost a + pages\<rparr>
      else a\<lparr>faTotal := faTotal a + pages, faISC := faISC a + pages\<rparr>))"

definition recordPageConsumption :: "u32 \<Rightarrow> u64 \<Rightarrow> bool \<Rightarrow> 'w fcfs \<Rightarrow> 'w fcfs" where
  "recordPageConsumption uid pages isISC = FCFS_account uid (\<lambda>a.
     (if isISC then a\<lparr>faTotal := faTotal a + pages, faISC := faISC a + pages\<rparr>
      else a\<lparr>faTotal := faTotal a + pages, faHost := faHost a + pages\<rparr>))"

definition FCFS_dispatchICL :: "'w fcfs_env \<Rightarrow> hil_request \<Rightarrow> 'w fcfs \<Rightarrow> 'w fcfs res" where
  "FCFS_dispatchICL E req s =
     bindR (case hrOp req of
              OP_READ \<Rightarrow> feICLRead E (fcWorld s) (ICL_Request_hil req) (fcCurrentTick s)
            | OP_WRITE \<Rightarrow> feICLWrite E (fcWorld s) (ICL_Request_hil req) (fcCurrentTick s)
            | _ \<Rightarrow> Inr (fcWorld s, fcCurrentTick s)) (\<lambda>(w, t).
       Inr (s\<lparr>fcWorld := w, fcCurrentTick := t\<rparr>))"

definition FCFS_dispatchRequest :: "'w fcfs_env \<Rightarrow> hil_request \<Rightarrow> 'w fcfs \<Rightarrow> 'w fcfs res" where
  "FCFS_dispatchRequest E req s =
     FCFS_dispatchICL E req (recordPageConsumptionByOpType (hrUserID req) (pagesOf (hrLength req)) (hrOp req) s)"

text \<open>The loops over the users; the first user with a request is served.\<close>

definition queueOf :: "(fcfs_account \<Rightarrow> hil_request list) \<Rightarrow> u32 \<Rightarrow> 'w fcfs \<Rightarrow> hil_request list" where
  "queueOf q uid s = (case map_of (fcUsers s) uid of None \<Rightarrow> [] | Some a \<Rightarrow> q a)"

definition tryDispatchHost :: "'w fcfs_env \<Rightarrow> 'w fcfs \<Rightarrow> (bool \<times> 'w fcfs) res" where
  "tryDispatchHost E s =
     (case List.find (\<lambda>k. queueOf faQueue k s \<noteq> []) (scanOrder (map fst (fcUsers s)) (fcLastChosenUid s)) of
        None \<Rightarrow> Inr (False, s)
      | Some k \<Rightarrow>
          let req = hd (queueOf faQueue k s);
              s = (FCFS_account k (\<lambda>a. a\<lparr>faQueue := tl (faQueue a)\<rparr>) s)\<lparr>fcLastChosenUid := k\<rparr>
          in bindR (FCFS_dispatchRequest E req s) (\<lambda>s. Inr (True, s)))"

definition tryDispatchISC :: "'w fcfs_env \<Rightarrow> 'w fcfs \<Rightarrow> (bool \<times> 'w fcfs) res" where
  "tryDispatchISC E s =
     (case List.find (\<lambda>k. queueOf faQueueISC k s \<noteq> []) (scanOrder (map fst (fcUsers s)) (fcLastChosenUidISC s)) of
        None \<Rightarrow> Inr (False, s)
      | Some k \<Rightarrow>
          let req = hd (queueOf faQueueISC k s);
              s = (FCFS_account k (\<lambda>a. a\<lparr>faQueueISC := tl (faQueueISC a)\<rparr>) s)\<lparr>fcLastChosenUidISC := k\<rparr>
          in bindR (FCFS_dispatchRequest E req s) (\<lambda>s. Inr (True, s)))"

definition FCFS_schedule :: "'w fcfs_env \<Rightarrow> 'w fcfs \<Rightarrow> 'w fcfs res" where
  "FCFS_schedule E s = bindR (tryDispatchHost E s) (\<lambda>(_, s). bindR (tryDispatchISC E s) (\<lambda>(_, s). Inr s))"

definition REPORT_INTERVAL_TICKS :: u64 where "REPORT_INTERVAL_TICKS = 1000000000"

definition FCFS_tick :: "'w fcfs_env \<Rightarrow> tick \<Rightarrow> 'w fcfs \<Rightarrow> 'w fcfs res" where
  "FCFS_tick E now s =
     (let s = s\<lparr>fcCurrentTick := now\<rparr>;
          s = (if now - fcLastReportTick s \<ge> REPORT_INTERVAL_TICKS then s\<lparr>fcLastReportTick := now\<rparr> else s)
      in FCFS_schedule E s)"

definition FCFS_pendingForUser :: "u32 \<Rightarrow> 'w fcfs \<Rightarrow> bool" where
  "FCFS_pendingForUser uid s = (case map_of (fcUsers s) uid of None \<Rightarrow> False | Some a \<Rightarrow> faQueue a \<noteq> [] \<or> faQueueISC a \<noteq> [])"

definition FCFS_getStatValues :: "'w fcfs \<Rightarrow> fl list" where
  "FCFS_getStatValues s =
     concat (map (\<lambda>n. case map_of (fcUsers s) (word_of_nat n) of
         Some a \<Rightarrow> [fl_u64 (faTotal a), fl_u64 (faHost a), fl_u64 (faISC a)]
       | None \<Rightarrow> [Fin 0, Fin 0, Fin 0]) [1001..<1021]) @
     [fl_u64 (\<Sum>x\<leftarrow>fcUsers s. faTotal (snd x)), fl_of_nat f64 (length (filter (\<lambda>x. faActive (snd x)) (fcUsers s)))]"

definition FCFS_resetStatValues :: "'w fcfs \<Rightarrow> 'w fcfs" where
  "FCFS_resetStatValues s =
     fold FCFS_getOrCreateUser (fcStatUsers s)
       (s\<lparr>fcUsers := [], fcLastReportTick := 0, fcLastChosenUid := 0, fcLastChosenUidISC := 0\<rparr>)"

definition FCFS_processUntil :: "'w fcfs_env \<Rightarrow> hil_request \<Rightarrow> tick \<Rightarrow> 'w fcfs \<Rightarrow> ('w fcfs \<times> tick) res" where
  "FCFS_processUntil E req completionTick s =
     bindR (FCFS_tick E completionTick (FCFS_submitRequest req s)) (\<lambda>s.
       let (w, l) = feApplyLatency E (fcWorld s) NS_FCFS_SCHEDULER FN_SCHEDULE
       in Inr (s\<lparr>fcWorld := w\<rparr>, completionTick + l))"

section \<open>The invariant\<close>

definition fcfs_inv :: "'w fcfs \<Rightarrow> bool" where
  "fcfs_inv s \<longleftrightarrow> om_wf (fcUsers s) \<and> (\<forall>k a. map_of (fcUsers s) k = Some a \<longrightarrow> (\<forall>r\<in>set (faQueue a). hrUserID r = k))"

definition accountOf :: "u32 \<Rightarrow> 'w fcfs \<Rightarrow> fcfs_account" where
  "accountOf uid s = (case map_of (fcUsers s) uid of None \<Rightarrow> FCFS_newAccount | Some a \<Rightarrow> a)"

lemma queueOf_account: "queueOf faQueue uid s = faQueue (accountOf uid s)" "queueOf faQueueISC uid s = faQueueISC (accountOf uid s)"
  by (simp_all add: queueOf_def accountOf_def FCFS_newAccount_def split: option.splits)

lemma FCFS_account_users:
  assumes "om_wf (fcUsers s)"
  shows "map_of (fcUsers (FCFS_account uid f s)) = (map_of (fcUsers s))(uid \<mapsto> f (accountOf uid s))"
    "om_wf (fcUsers (FCFS_account uid f s))"
    "accountOf k (FCFS_account uid f s) = (if k = uid then f (accountOf uid s) else accountOf k s)"
  using assms
  by (auto simp: FCFS_account_def FCFS_getOrCreateUser_def accountOf_def omInsert_def Let_def fun_eq_iff split: option.splits)

lemma FCFS_account_frame [simp]:
  "fcWorld (FCFS_account uid f s) = fcWorld s" "fcCurrentTick (FCFS_account uid f s) = fcCurrentTick s"
  "fcLastChosenUid (FCFS_account uid f s) = fcLastChosenUid s" "fcLastChosenUidISC (FCFS_account uid f s) = fcLastChosenUidISC s"
  by (simp_all add: FCFS_account_def FCFS_getOrCreateUser_def Let_def split: option.splits)

lemma fcfs_frame [simp]:
  "accountOf k (s\<lparr>fcWorld := w\<rparr>) = accountOf k s" "accountOf k (s\<lparr>fcCurrentTick := t\<rparr>) = accountOf k s"
  "accountOf k (s\<lparr>fcLastChosenUid := u\<rparr>) = accountOf k s" "accountOf k (s\<lparr>fcLastChosenUidISC := u\<rparr>) = accountOf k s"
  "accountOf k (s\<lparr>fcLastReportTick := t\<rparr>) = accountOf k s"
  by (simp_all add: accountOf_def)

lemma fcfs_inv_account:
  assumes "fcfs_inv s" "\<And>r. r \<in> set (faQueue (f (accountOf uid s))) \<Longrightarrow> r \<in> set (faQueue (accountOf uid s)) \<or> hrUserID r = uid"
  shows "fcfs_inv (FCFS_account uid f s)"
proof -
  have wf: "om_wf (fcUsers s)" using assms(1) by (simp add: fcfs_inv_def)
  have "hrUserID r = uid" if "r \<in> set (faQueue (accountOf uid s))" for r
    using that assms(1) by (auto simp: fcfs_inv_def accountOf_def FCFS_newAccount_def split: option.splits)
  then show ?thesis using assms FCFS_account_users [OF wf, where uid = uid and f = f] by (auto simp: fcfs_inv_def)
qed

end
