(* ===== verification/Fcfs_Props.thy ===== *)
theory Fcfs_Props
  imports Fcfs
begin

text \<open>
  The properties of the first-come first-served scheduler: what one dispatch does, that no user
  with a waiting request is overtaken for ever, and the time \<^verbatim>\<open>processUntil\<close> reports.
\<close>

section \<open>One dispatch\<close>

definition booked :: "hil_request \<Rightarrow> fcfs_account \<Rightarrow> fcfs_account" where
  "booked r a = (if isHostOp (hrOp r) then a\<lparr>faTotal := faTotal a + pagesOf (hrLength r), faHost := faHost a + pagesOf (hrLength r)\<rparr>
     else a\<lparr>faTotal := faTotal a + pagesOf (hrLength r), faISC := faISC a + pagesOf (hrLength r)\<rparr>)"

lemma dispatchRequest_accounts:
  assumes "om_wf (fcUsers s)" "FCFS_dispatchRequest E req s = Inr s'"
  shows "accountOf k s' = (if k = hrUserID req then booked req (accountOf k s) else accountOf k s)"
    "om_wf (fcUsers s')" "map_of (fcUsers s') = (map_of (fcUsers s))(hrUserID req \<mapsto> booked req (accountOf (hrUserID req) s))"
    "fcLastChosenUid s' = fcLastChosenUid s" "fcLastChosenUidISC s' = fcLastChosenUidISC s"
proof -
  let ?s = "recordPageConsumptionByOpType (hrUserID req) (pagesOf (hrLength req)) (hrOp req) s"
  obtain w t where s': "s' = ?s\<lparr>fcWorld := w, fcCurrentTick := t\<rparr>"
    using assms(2) by (auto simp: FCFS_dispatchRequest_def FCFS_dispatchICL_def bindR_eq_Inr)
  have rec: "?s = FCFS_account (hrUserID req) (booked req) s"
    unfolding recordPageConsumptionByOpType_def by (rule arg_cong [where f = "\<lambda>f. FCFS_account _ f s"]) (auto simp: booked_def fun_eq_iff)
  show "accountOf k s' = (if k = hrUserID req then booked req (accountOf k s) else accountOf k s)"
    "om_wf (fcUsers s')" "map_of (fcUsers s') = (map_of (fcUsers s))(hrUserID req \<mapsto> booked req (accountOf (hrUserID req) s))"
    "fcLastChosenUid s' = fcLastChosenUid s" "fcLastChosenUidISC s' = fcLastChosenUidISC s"
    using FCFS_account_users [OF assms(1), where uid = "hrUserID req" and f = "booked req"] by (simp_all add: s' rec)
qed

lemma in_set_tl: "x \<in> set (tl xs) \<Longrightarrow> x \<in> set xs"
  by (cases xs) auto

lemma find_first:
  assumes "List.find Q xs = Some k"
  obtains ys zs where "xs = ys @ k # zs" "Q k" "\<And>j. j \<in> set ys \<Longrightarrow> \<not> Q j"
proof -
  obtain i where i: "i < length xs" "Q (xs ! i)" "k = xs ! i" "\<forall>j<i. \<not> Q (xs ! j)" using assms by (auto simp: find_Some_iff)
  show thesis
  proof (rule that)
    show "xs = take i xs @ k # drop (Suc i) xs" using i(1,3) by (simp add: id_take_nth_drop [symmetric])
    show "Q k" using i by simp
    show "\<not> Q j" if "j \<in> set (take i xs)" for j using that i(4) by (auto simp: in_set_conv_nth)
  qed
qed

lemma scanOrder_set: "set (scanOrder keys l) = set keys"
  by (auto simp: scanOrder_def extract_Some_iff split: option.splits)

lemma accountOf_unknown: "k \<notin> set (map fst (fcUsers s)) \<Longrightarrow> accountOf k s = FCFS_newAccount"
  by (auto simp: accountOf_def map_of_eq_None_iff split: option.splits) (metis domI dom_map_of_conv_image_fst list.set_map)

lemma tryDispatchHost_ok:
  assumes I: "fcfs_inv s" and r: "tryDispatchHost E s = Inr (ok, s')"
  shows "fcfs_inv s' \<and> (if ok then \<exists>k req ys zs. scanOrder (map fst (fcUsers s)) (fcLastChosenUid s) = ys @ k # zs \<and>
      (\<forall>j\<in>set ys. faQueue (accountOf j s) = []) \<and> faQueue (accountOf k s) = req # faQueue (accountOf k s') \<and>
      accountOf k s' = (booked req (accountOf k s))\<lparr>faQueue := tl (faQueue (accountOf k s))\<rparr> \<and>
      (\<forall>j. j \<noteq> k \<longrightarrow> accountOf j s' = accountOf j s) \<and> fcLastChosenUid s' = k \<and> map fst (fcUsers s') = map fst (fcUsers s)
    else s' = s \<and> (\<forall>k. faQueue (accountOf k s) = []))"
proof (cases "List.find (\<lambda>k. queueOf faQueue k s \<noteq> []) (scanOrder (map fst (fcUsers s)) (fcLastChosenUid s))")
  case None
  then have "faQueue (accountOf k s) = []" for k
  proof (cases "k \<in> set (map fst (fcUsers s))")
    case True
    then have "k \<in> set (scanOrder (map fst (fcUsers s)) (fcLastChosenUid s))" by (simp add: scanOrder_set)
    then show ?thesis using None by (simp add: find_None_iff queueOf_account)
  qed (simp add: accountOf_unknown FCFS_newAccount_def)
  then show ?thesis using None r I by (simp add: tryDispatchHost_def)
next
  case (Some k)
  obtain ys zs where order: "scanOrder (map fst (fcUsers s)) (fcLastChosenUid s) = ys @ k # zs" "queueOf faQueue k s \<noteq> []"
    "\<And>j. j \<in> set ys \<Longrightarrow> queueOf faQueue j s = []"
    using find_first [OF Some] by metis
  define req where "req = hd (queueOf faQueue k s)"
  define u where "u = (FCFS_account k (\<lambda>a. a\<lparr>faQueue := tl (faQueue a)\<rparr>) s)\<lparr>fcLastChosenUid := k\<rparr>"
  have d: "FCFS_dispatchRequest E req u = Inr s'" "ok"
    using r Some by (auto simp: tryDispatchHost_def Let_def bindR_eq_Inr req_def u_def)
  have wf: "om_wf (fcUsers s)" using I by (simp add: fcfs_inv_def)
  have q: "faQueue (accountOf k s) = req # tl (faQueue (accountOf k s))" using order(2) by (simp add: req_def queueOf_account)
  have kin: "k \<in> set (map fst (fcUsers s))" using order(1) scanOrder_set [of "map fst (fcUsers s)" "fcLastChosenUid s"] by auto
  obtain a where a: "map_of (fcUsers s) k = Some a" using kin by (metis domD dom_map_of_conv_image_fst list.set_map)
  have uid: "hrUserID req = k"
  proof -
    have "req \<in> set (faQueue a)" using q a by (metis accountOf_def list.set_intros(1) option.simps(5))
    then show ?thesis using I a by (auto simp: fcfs_inv_def)
  qed
  have Iu: "fcfs_inv u"
  proof -
    have "fcfs_inv (FCFS_account k (\<lambda>a. a\<lparr>faQueue := tl (faQueue a)\<rparr>) s)"
      using I by (rule fcfs_inv_account) (auto dest: in_set_tl)
    then show ?thesis by (simp add: u_def fcfs_inv_def)
  qed
  have wfu: "om_wf (fcUsers u)" using Iu by (simp add: fcfs_inv_def)
  have au: "accountOf j u = (if j = k then (accountOf k s)\<lparr>faQueue := tl (faQueue (accountOf k s))\<rparr> else accountOf j s)" for j
    using FCFS_account_users(3) [OF wf] by (simp add: u_def)
  note D = dispatchRequest_accounts [OF wfu d(1), unfolded uid]
  have acc: "accountOf j s' = (if j = k then (booked req (accountOf k s))\<lparr>faQueue := tl (faQueue (accountOf k s))\<rparr> else accountOf j s)" for j
    using D(1) [of j] au [of j] by (cases "j = k") (auto simp: booked_def)
  have dom: "dom (map_of (fcUsers s')) = dom (map_of (fcUsers s))"
    using D(3) FCFS_account_users(1) [OF wf, of k "\<lambda>a. a\<lparr>faQueue := tl (faQueue a)\<rparr>"] a by (auto simp: u_def)
  have keys: "map fst (fcUsers s') = map fst (fcUsers s)"
  proof (rule sorted_distinct_set_unique)
    show "sorted (map fst (fcUsers s'))" "distinct (map fst (fcUsers s'))" "sorted (map fst (fcUsers s))" "distinct (map fst (fcUsers s))"
      using D(2) wf by (auto simp: om_wf_def strict_sorted_iff)
    show "set (map fst (fcUsers s')) = set (map fst (fcUsers s))" using dom by (simp add: dom_map_of_conv_image_fst)
  qed
  have "fcfs_inv s'"
  proof -
    have "hrUserID r = j" if "map_of (fcUsers s') j = Some b" "r \<in> set (faQueue b)" for j b r
    proof -
      have b: "b = accountOf j s'" using that(1) by (simp add: accountOf_def)
      have "r \<in> set (faQueue (accountOf j s))" using that(2) acc [of j] by (auto simp: b booked_def dest: in_set_tl split: if_splits)
      then show ?thesis using I by (auto simp: accountOf_def fcfs_inv_def FCFS_newAccount_def split: option.splits)
    qed
    then show ?thesis using D(2) by (simp add: fcfs_inv_def)
  qed
  moreover have "fcLastChosenUid s' = k" using D(4) by (simp add: u_def)
  moreover have "\<forall>j\<in>set ys. faQueue (accountOf j s) = []" using order(3) by (simp add: queueOf_account)
  moreover have "faQueue (accountOf k s) = req # faQueue (accountOf k s')" using q acc [of k] by simp
  ultimately show ?thesis using d(2) order(1) acc keys
    by (intro conjI) (simp_all, metis)
qed

section \<open>No starvation\<close>

lemma scanOrder_known:
  assumes "distinct keys" "keys = pre @ l # post"
  shows "scanOrder keys l = post @ pre @ [l]"
proof -
  have "List.extract (\<lambda>k. k = l) keys = Some (pre, l, post)" using assms by (auto simp: extract_Some_iff)
  then show ?thesis using assms(2) by (simp add: scanOrder_def)
qed

lemma scanOrder_rotation: "distinct keys \<Longrightarrow> \<exists>n. scanOrder keys l = rotate n keys"
proof (cases "l \<in> set keys")
  case True
  assume d: "distinct keys"
  obtain pre post where k: "keys = pre @ l # post" using True by (meson split_list)
  show ?thesis using scanOrder_known [OF d k] rotate_append [of "pre @ [l]" post] k by (intro exI [of _ "length (pre @ [l])"]) simp
next
  case False
  then have "List.extract (\<lambda>k. k = l) keys = None" by (auto simp: extract_None_iff)
  then show ?thesis by (intro exI [of _ 0]) (simp add: scanOrder_def)
qed

text \<open>A rotation of a list without duplicates is determined by its last element.\<close>

lemma rotation_unique:
  assumes "distinct xs" "last (rotate n xs) = last (rotate m xs)" "xs \<noteq> []"
  shows "rotate n xs = rotate m xs"
proof -
  let ?l = "length xs"
  have l: "0 < ?l" using assms(3) by simp
  have nth: "last (rotate k xs) = xs ! ((?l - 1 + k) mod ?l)" for k
    using l assms(3) by (simp add: last_conv_nth nth_rotate add.commute)
  have "(?l - 1 + n) mod ?l = (?l - 1 + m) mod ?l"
    using l by (intro nth_eq_iff_index_eq [OF assms(1), THEN iffD1] assms(2) [unfolded nth]) simp_all
  then have "(?l - 1 + n + 1) mod ?l = (?l - 1 + m + 1) mod ?l" by (metis mod_add_left_eq)
  then have "n mod ?l = m mod ?l" using l by simp
  then show ?thesis by (metis rotate_conv_mod)
qed

lemma scanOrder_step:
  assumes "distinct keys" "scanOrder keys l = ys @ k # zs"
  shows "scanOrder keys k = zs @ ys @ [k]"
proof -
  obtain n where n: "ys @ k # zs = rotate n keys" using scanOrder_rotation [OF assms(1), of l] assms(2) by auto
  have "k \<in> set keys" using assms(2) scanOrder_set [of keys l] by auto
  then obtain pre post where k: "keys = pre @ k # post" by (meson split_list)
  obtain m where m: "scanOrder keys k = rotate m keys" using scanOrder_rotation [OF assms(1), of k] by auto
  have "zs @ ys @ [k] = rotate (Suc (length ys)) (ys @ k # zs)" using rotate_append [of "ys @ [k]" zs] by simp
  also have "\<dots> = rotate (Suc (length ys) + n) keys" by (simp only: n rotate_rotate)
  finally have z: "zs @ ys @ [k] = rotate (Suc (length ys) + n) keys" .
  have "last (scanOrder keys k) = k" using scanOrder_known [OF assms(1) k] by simp
  then have "last (rotate m keys) = last (rotate (Suc (length ys) + n) keys)" unfolding m [symmetric] z [symmetric] by simp
  from rotation_unique [OF assms(1) this] k show ?thesis unfolding m z by simp
qed

fun hostRun :: "nat \<Rightarrow> 'w fcfs_env \<Rightarrow> 'w fcfs \<Rightarrow> 'w fcfs res" where
  "hostRun 0 E s = Inr s"
| "hostRun (Suc n) E s = bindR (tryDispatchHost E s) (\<lambda>(_, s). hostRun n E s)"

lemma queues_shrink:
  assumes "fcfs_inv s" "hostRun n E s = Inr s'"
  shows "length (faQueue (accountOf k s')) \<le> length (faQueue (accountOf k s))"
  using assms
proof (induction n arbitrary: s)
  case (Suc n)
  obtain ok u where d: "tryDispatchHost E s = Inr (ok, u)" "hostRun n E u = Inr s'" using Suc.prems(2) by (auto simp: bindR_eq_Inr)
  note U = tryDispatchHost_ok [OF Suc.prems(1) d(1)]
  have "length (faQueue (accountOf k u)) \<le> length (faQueue (accountOf k s))"
  proof (cases ok)
    case True
    then obtain j req where "faQueue (accountOf j s) = req # faQueue (accountOf j u)" "\<And>i. i \<noteq> j \<Longrightarrow> accountOf i u = accountOf i s"
      using U by auto
    then show ?thesis by (cases "k = j") auto
  qed (use U in simp)
  then show ?case using Suc.IH [OF _ d(2)] U by (meson le_trans)
qed simp

lemma hostRun_serves:
  assumes "fcfs_inv s" "scanOrder (map fst (fcUsers s)) (fcLastChosenUid s) = pre @ k # post" "faQueue (accountOf k s) \<noteq> []"
    "length pre < n" "hostRun n E s = Inr s'"
  shows "length (faQueue (accountOf k s')) < length (faQueue (accountOf k s))"
  using assms
proof (induction n arbitrary: s pre post)
  case (Suc n)
  obtain ok u where d: "tryDispatchHost E s = Inr (ok, u)" "hostRun n E u = Inr s'" using Suc.prems(5) by (auto simp: bindR_eq_Inr)
  note U = tryDispatchHost_ok [OF Suc.prems(1) d(1)]
  have ok using U Suc.prems(3) by (cases ok) auto
  then obtain j req ys zs where o: "scanOrder (map fst (fcUsers s)) (fcLastChosenUid s) = ys @ j # zs"
    and e: "\<forall>i\<in>set ys. faQueue (accountOf i s) = []" and q: "faQueue (accountOf j s) = req # faQueue (accountOf j u)"
    and same: "\<forall>i. i \<noteq> j \<longrightarrow> accountOf i u = accountOf i s" and l: "fcLastChosenUid u = j" and keys: "map fst (fcUsers u) = map fst (fcUsers s)"
    using U by auto
  have dist: "distinct (map fst (fcUsers s))" using Suc.prems(1) by (simp add: fcfs_inv_def om_wf_distinct)
  show ?case
  proof (cases "k = j")
    case True
    then show ?thesis using q queues_shrink [OF _ d(2), of k] U by fastforce
  next
    case False
    have "k \<notin> set ys" using e Suc.prems(3) by blast
    moreover have "k \<in> set (ys @ j # zs)" using o Suc.prems(2) by (metis in_set_conv_decomp)
    ultimately have "k \<in> set zs" using False by simp
    then obtain as bs where zs: "zs = as @ k # bs" by (meson split_list)
    have "distinct (ys @ j # zs)" using o scanOrder_rotation [OF dist, of "fcLastChosenUid s"] dist by (metis distinct_rotate)
    moreover have "(ys @ j # as) @ k # bs = pre @ k # post" using Suc.prems(2) o zs by simp
    ultimately have "pre = ys @ j # as" using append_Cons_eq_iff [of k "ys @ j # as" bs pre post] False by (auto simp: zs)
    then have "length as < n" using Suc.prems(4) by simp
    moreover have "scanOrder (map fst (fcUsers u)) (fcLastChosenUid u) = as @ k # (bs @ ys @ [j])"
      using scanOrder_step [OF dist o] by (simp add: keys l zs)
    moreover have "accountOf k u = accountOf k s" using same False by blast
    ultimately show ?thesis using Suc.IH [OF _ _ _ _ d(2)] U Suc.prems(3) by metis
  qed
qed simp

lemma hostRun_total:
  assumes "\<And>w r t. \<exists>x. feICLRead E w r t = Inr x" "\<And>w r t. \<exists>x. feICLWrite E w r t = Inr x"
  shows "\<exists>s'. hostRun n E s = Inr s'"
proof (induction n arbitrary: s)
  case (Suc n)
  have disp: "\<exists>s'. FCFS_dispatchRequest E r u = Inr s'" for r u
    unfolding FCFS_dispatchRequest_def FCFS_dispatchICL_def
    using assms by (auto simp: bindR_eq_Inr split: op_type.splits)
  have "\<exists>ok s'. tryDispatchHost E s = Inr (ok, s')"
    using disp by (auto simp: tryDispatchHost_def bindR_eq_Inr Let_def split: option.splits)
  then show ?case using Suc by (auto simp: bindR_eq_Inr)
qed simp

section \<open>Properties\<close>

text \<open>
  A dispatch of the host class serves the first user, in the round robin order, that has a
  request: it takes the oldest request of that user, books its pages to the user, and leaves
  every other account alone. It reports that nothing was dispatched exactly when every host
  queue is empty.
\<close>

theorem tryDispatchHost_correct:
  assumes "fcfs_inv s" "tryDispatchHost E s = Inr (ok, s')"
  shows "fcfs_inv s' \<and> (if ok then \<exists>k req ys zs. scanOrder (map fst (fcUsers s)) (fcLastChosenUid s) = ys @ k # zs \<and>
      (\<forall>j\<in>set ys. faQueue (accountOf j s) = []) \<and> faQueue (accountOf k s) = req # faQueue (accountOf k s') \<and>
      accountOf k s' = (booked req (accountOf k s))\<lparr>faQueue := tl (faQueue (accountOf k s))\<rparr> \<and>
      (\<forall>j. j \<noteq> k \<longrightarrow> accountOf j s' = accountOf j s) \<and> fcLastChosenUid s' = k \<and> map fst (fcUsers s') = map fst (fcUsers s)
    else s' = s \<and> (\<forall>k. faQueue (accountOf k s) = []))"
  using assms by (rule tryDispatchHost_ok)

definition exFEnv :: "nat fcfs_env" where
  "exFEnv = \<lparr>feICLRead = (\<lambda>w r t. Inr (Suc w, t + 5)), feICLWrite = (\<lambda>w r t. Inr (Suc w, t + 5)), feApplyLatency = (\<lambda>w ns fn. (w, 1))\<rparr>"

definition exFReq :: "u32 \<Rightarrow> hil_request" where
  "exFReq uid = HIL_Request_new\<lparr>hrUserID := uid, hrLength := 4096\<rparr>"

definition exFcfs :: "nat fcfs" where
  "exFcfs = FCFS_submitRequest (exFReq 1002) (FCFS_submitRequest (exFReq 1001) (FCFS_new 0))"

lemma FCFS_new_inv: "fcfs_inv (FCFS_new w)"
  by (auto simp: FCFS_new_def FCFS_account_def FCFS_getOrCreateUser_def omInsert_def fcfs_inv_def om_wf_Cons FCFS_newAccount_def Let_def split: if_splits)

lemma FCFS_submitRequest_inv: "fcfs_inv s \<Longrightarrow> fcfs_inv (FCFS_submitRequest r s)"
  unfolding FCFS_submitRequest_def by (rule fcfs_inv_account) auto

lemma exFcfs_inv: "fcfs_inv exFcfs"
  unfolding exFcfs_def by (intro FCFS_submitRequest_inv FCFS_new_inv)

lemma exFcfs_accounts: "faQueue (accountOf 1001 exFcfs) = [exFReq 1001]" "faQueue (accountOf 1002 exFcfs) = [exFReq 1002]"
  "length (fcUsers exFcfs) = 2"
  by (simp_all add: exFcfs_def FCFS_submitRequest_def FCFS_new_def FCFS_account_def FCFS_getOrCreateUser_def omInsert_def accountOf_def
      FCFS_newAccount_def Let_def exFReq_def HIL_Request_new_def)

theorem tryDispatchHost_correct_witness:
  "\<exists>s'. tryDispatchHost exFEnv exFcfs = Inr (True, s') \<and> fcfs_inv s'"
proof -
  have "\<exists>s'. hostRun (Suc 0) exFEnv exFcfs = Inr s'" by (rule hostRun_total) (simp_all add: exFEnv_def)
  then obtain ok s' where d: "tryDispatchHost exFEnv exFcfs = Inr (ok, s')" by (auto simp: bindR_eq_Inr)
  note T = tryDispatchHost_correct [OF exFcfs_inv d]
  have ok using T exFcfs_accounts(1) by (cases ok) auto
  with T d show ?thesis by auto
qed

text \<open>
  C35. No user starves: while the cache layer answers, as many dispatches as there are users
  serve every user that has a request.
\<close>

theorem FCFS_no_starvation:
  assumes "fcfs_inv s" "faQueue (accountOf uid s) \<noteq> []"
    and "\<And>w r t. \<exists>x. feICLRead E w r t = Inr x" "\<And>w r t. \<exists>x. feICLWrite E w r t = Inr x"
  shows "runs_to (hostRun (length (fcUsers s)) E s) (\<lambda>s'. length (faQueue (accountOf uid s')) < length (faQueue (accountOf uid s)))"
proof -
  obtain s' where r: "hostRun (length (fcUsers s)) E s = Inr s'" using hostRun_total assms(3,4) by blast
  let ?o = "scanOrder (map fst (fcUsers s)) (fcLastChosenUid s)"
  have "uid \<in> set (map fst (fcUsers s))" using assms(2) accountOf_unknown [of uid s] by (force simp: FCFS_newAccount_def)
  then have "uid \<in> set ?o" by (simp add: scanOrder_set)
  then obtain pre post where o: "?o = pre @ uid # post" by (meson split_list)
  have "distinct (map fst (fcUsers s))" using assms(1) by (simp add: fcfs_inv_def om_wf_distinct)
  then have "length ?o = length (fcUsers s)" using scanOrder_rotation [of "map fst (fcUsers s)" "fcLastChosenUid s"] by auto
  then have "length pre < length (fcUsers s)" using o by simp
  from hostRun_serves [OF assms(1) o assms(2) this r] r show ?thesis by simp
qed

theorem FCFS_no_starvation_witness:
  "runs_to (hostRun 2 exFEnv exFcfs) (\<lambda>s'. faQueue (accountOf 1002 s') = [])"
  using FCFS_no_starvation [OF exFcfs_inv, of 1002 exFEnv] by (auto simp: exFcfs_accounts exFEnv_def elim!: runs_to_mono)

text \<open>
  The completion time of \<^verbatim>\<open>processUntil\<close> contains the scheduling latency only: \<^verbatim>\<open>tick\<close> takes the
  time by value, so the time the cache layer needs is not in it.
\<close>

lemma FCFS_processUntil_ignores_io:
  assumes "\<And>w. snd (feApplyLatency E w NS_FCFS_SCHEDULER FN_SCHEDULE) = l"
  shows "on_ok (FCFS_processUntil E req t s) (\<lambda>(s', t'). t' = t + l)"
  using assms by (auto simp: FCFS_processUntil_def on_ok_bindR split_beta Let_def intro!: on_okI)

end
