(* ===== verification/Timeline.thy ===== *)
theory Timeline
  imports Device OrdMap
begin

text \<open>
  The flash timeline of \<^verbatim>\<open>pal/old/PAL2.cc\<close>: for every channel and every die a calendar of
  free time, kept as free slots sorted by their length into buckets, and the scheduling of a flash
  operation on them (command transfer, memory operation, data transfer).
\<close>

section \<open>Calendars\<close>

text \<open>
  A calendar is a \<^verbatim>\<open>std::map\<close> from a length to a \<^verbatim>\<open>std::map\<close> from the first to the last tick of
  a free slot. A slot is kept in the bucket of the greatest length that is not above its own. From
  the start point on, all time is free.
\<close>

type_synonym slots = "(u64 \<times> (u64 \<times> u64) list) list"

datatype probe = Now u64 | Later u64 | Nothing

text \<open>The search in one bucket: the slot around \<open>tickFrom\<close>, or the first later one that is long enough.\<close>

definition probeBucket :: "u64 \<Rightarrow> u64 \<Rightarrow> (u64 \<times> u64) list \<Rightarrow> probe" where
  "probeBucket tickLen tickFrom m =
     (let (lo, hi) = omUpper tickFrom m
      in if lo \<noteq> [] \<and> snd (last lo) \<ge> tickLen + tickFrom - 1 then Now (fst (last lo))
         else case List.find (\<lambda>f. snd f \<ge> tickLen + fst f - 1) hi of Some f \<Rightarrow> Later (fst f) | None \<Rightarrow> Nothing)"

text \<open>The loop over the buckets; \<open>-1\<close> stands for no slot found so far.\<close>

fun findBuckets :: "u64 \<Rightarrow> u64 \<Rightarrow> slots \<Rightarrow> u64 \<Rightarrow> u64 option \<times> bool" where
  "findBuckets tickLen tickFrom [] minTick = (if minTick = - 1 then (None, False) else (Some minTick, True))"
| "findBuckets tickLen tickFrom (e # es) minTick =
     (case probeBucket tickLen tickFrom (snd e) of
        Now t \<Rightarrow> (Some t, False)
      | Later t \<Rightarrow> findBuckets tickLen tickFrom es (if minTick = - 1 \<or> minTick > t then t else minTick)
      | Nothing \<Rightarrow> findBuckets tickLen tickFrom es minTick)"

text \<open>The buckets a search visits: from the greatest length up to \<open>len\<close>, or from the first one, to the end.\<close>

definition visited :: "slots \<Rightarrow> u64 \<Rightarrow> slots" where
  "visited S len = (let (lo, hi) = omUpper len S in if lo = [] then hi else last lo # hi)"

text \<open>The start tick of the slot that was found, if any, and whether it starts late.\<close>

definition FindFreeTime :: "slots \<Rightarrow> u64 \<Rightarrow> u64 \<Rightarrow> (u64 option \<times> bool) res" where
  "FindFreeTime tgtFreeSlot tickLen tickFrom =
     (let (lo, hi) = omUpper tickLen tgtFreeSlot
      in if hi = [] then
           (if lo = [] then Inl (Undefined ''decrement of begin'')
            else case probeBucket tickLen tickFrom (snd (last lo)) of
              Now t \<Rightarrow> Inr (Some t, False) | Later t \<Rightarrow> Inr (Some t, True) | Nothing \<Rightarrow> Inr (None, False))
         else Inr (findBuckets tickLen tickFrom (visited tgtFreeSlot tickLen) (- 1)))"

definition AddFreeSlot :: "slots \<Rightarrow> u64 \<Rightarrow> u64 \<Rightarrow> slots" where
  "AddFreeSlot tgtFreeSlot tickLen tickFrom =
     (let lo = fst (omUpper tickLen tgtFreeSlot)
      in if lo = [] then tgtFreeSlot
         else omPut (fst (last lo)) (omInsert tickFrom (tickFrom + tickLen - 1) (snd (last lo))) tgtFreeSlot)"

text \<open>The pieces of a slot that are left, or set apart, when \<open>tickLen\<close> ticks are taken from it at \<open>tickFrom\<close>.\<close>

definition splitSlot :: "slots \<Rightarrow> u64 \<Rightarrow> u64 \<Rightarrow> bool \<Rightarrow> u64 \<Rightarrow> u64 \<Rightarrow> slots res" where
  "splitSlot S tickLen tickFrom split tmpStartTick tmpEndTick =
     (if tmpStartTick < tickFrom then
        let S = AddFreeSlot S (tickFrom - tmpStartTick) tmpStartTick;
            S = (if split then AddFreeSlot S tickLen tickFrom else S)
        in if \<not> tmpEndTick - tickFrom + 1 \<ge> tickLen then Inl (Panic ''assert'')
           else Inr (if tmpEndTick > tickLen + tickFrom - 1
             then AddFreeSlot S (tmpEndTick - (tickFrom + tickLen - 1)) (tickFrom + tickLen) else S)
      else if tmpStartTick \<noteq> tickFrom \<or> \<not> tmpEndTick - tickFrom + 1 \<ge> tickLen then Inl (Panic ''assert'')
      else let S = (if split then AddFreeSlot S tickLen tmpStartTick else S)
           in Inr (if tmpEndTick > tickLen + tickFrom - 1
             then AddFreeSlot S (tmpEndTick - (tickFrom + tickLen - 1)) (tmpStartTick + tickLen) else S))"

text \<open>The calendar and the start point after \<open>tickLen\<close> ticks were taken from the slot that starts at \<open>startTick\<close>.\<close>

definition InsertFreeSlot :: "slots \<Rightarrow> u64 \<Rightarrow> u64 \<Rightarrow> u64 \<Rightarrow> u64 \<Rightarrow> bool \<Rightarrow> (slots \<times> u64) res" where
  "InsertFreeSlot S tickLen tickFrom startTick startPoint split =
     (if startTick = startPoint then
        if tickFrom = startTick then
          Inr (if split then AddFreeSlot S tickLen startPoint else S, startPoint + tickLen)
        else if \<not> tickFrom > startTick then Inl (Panic ''assert'')
        else let S = (if split then AddFreeSlot S tickLen tickFrom else S)
             in Inr (AddFreeSlot S (tickFrom - startTick) startTick, tickFrom + tickLen)
      else
        case List.find (\<lambda>e. map_of (snd e) startTick \<noteq> None) (visited S tickLen) of
          None \<Rightarrow> Inr (S, startPoint)
        | Some e \<Rightarrow> bindR (splitSlot (omPut (fst e) (omErase startTick (snd e)) S) tickLen tickFrom split
                            startTick (the (map_of (snd e) startTick))) (\<lambda>S. Inr (S, startPoint)))"

definition FlushAFreeSlot :: "slots \<Rightarrow> u64 \<Rightarrow> slots" where
  "FlushAFreeSlot tgtFreeSlot currentTick = map (\<lambda>(k, m). (k, dropWhile (\<lambda>f. snd f < currentTick) m)) tgtFreeSlot"

section \<open>Busy time\<close>

record timeslot =
  StartTick :: u64
  EndTick :: u64

definition TimeSlot :: "u64 \<Rightarrow> u64 \<Rightarrow> timeslot" where
  "TimeSlot startTick duration = \<lparr>StartTick = startTick, EndTick = startTick + duration - 1\<rparr>"

text \<open>
  The position of a tick in the list of busy slots, and whether it is right of the slot. The
  source's loop only ends without a position on an empty list.
\<close>

fun slotPosition :: "u64 \<Rightarrow> nat \<Rightarrow> timeslot list \<Rightarrow> (nat \<times> bool) option" where
  "slotPosition x i [] = None"
| "slotPosition x i (c # cs) =
     (if StartTick c \<le> x \<and> x \<le> EndTick c then Some (i, False)
      else if (case cs of [] \<Rightarrow> True | c' # _ \<Rightarrow> x < StartTick c') then Some (i, True)
      else slotPosition x (Suc i) cs)"

text \<open>The slots \<open>i + 1\<close> to \<open>j\<close> are dropped; their time goes to slot \<open>i\<close>.\<close>

definition absorb :: "nat \<Rightarrow> nat \<Rightarrow> u64 \<Rightarrow> timeslot list \<Rightarrow> timeslot list" where
  "absorb i j e ms = take (Suc i) (ms[i := (ms ! i)\<lparr>EndTick := e\<rparr>]) @ drop (Suc j) ms"

definition mergeTimeSlot :: "timeslot \<Rightarrow> timeslot list \<Rightarrow> timeslot list res" where
  "mergeTimeSlot ts ms =
     (let tmp = TimeSlot (StartTick ts) (EndTick ts - StartTick ts + 1)
      in case (slotPosition (StartTick ts) 0 ms, slotPosition (EndTick ts) 0 ms) of
        (Some (spos, sright), Some (epos, eright)) \<Rightarrow>
          if spos = epos \<and> \<not> sright \<and> \<not> eright then Inr ms
          else if sright then
            if epos < spos then Inl (Undefined ''erase past the end'')
            else let ms' = take (Suc spos) ms @ tmp # drop (Suc spos) ms
                 in Inr (absorb spos (Suc epos) (if eright then EndTick ts else EndTick (ms' ! Suc epos)) ms')
          else
            let ms' = TimeSlot (StartTick ts) 999 # ms
            in Inr (absorb 0 (Suc epos) (if eright then EndTick ts else EndTick (ms' ! Suc epos)) ms')
      | _ \<Rightarrow> Inr [tmp])"

text \<open>The busy slots that ended before \<open>currentTick\<close> are dropped and counted.\<close>

fun FlushATimeSlotBusyTime :: "timeslot list \<Rightarrow> u64 \<Rightarrow> u64 \<Rightarrow> timeslot list \<times> u64" where
  "FlushATimeSlotBusyTime [] currentTick TimeSum = ([], TimeSum)"
| "FlushATimeSlotBusyTime (c # cs) currentTick TimeSum =
     (if EndTick c < currentTick then FlushATimeSlotBusyTime cs currentTick (TimeSum + (EndTick c - StartTick c + 1))
      else (c # cs, TimeSum))"

text \<open>One round of \<^verbatim>\<open>FlushOpTimeStamp\<close>, with the running slot and the busy time of the operation.\<close>

fun flushStamps :: "(u64 \<times> u64) list \<Rightarrow> u64 \<Rightarrow> u64 \<Rightarrow> u64 \<Rightarrow> u64" where
  "flushStamps [] start_tick end_tick busy = busy + (end_tick - start_tick + 1)"
| "flushStamps (e # es) start_tick end_tick busy =
     (if start_tick = - 1 \<and> end_tick = - 1 then flushStamps es (fst e) (snd e) busy
      else if fst e < end_tick \<and> snd e \<le> end_tick then flushStamps es start_tick end_tick busy
      else if fst e < end_tick \<and> snd e > end_tick then flushStamps es start_tick (snd e) busy
      else flushStamps es (fst e) (snd e) (busy + (end_tick - start_tick + 1)))"

section \<open>Addresses, latencies and commands\<close>

record cpdpbp =
  cpChannel :: u32
  cpPackage :: u32
  cpDie :: u32
  cpPlane :: u32
  cpBlock :: u32
  cpPage :: u32
  cpSlpn :: u64

datatype pal_operation = OPER_READ | OPER_WRITE | OPER_ERASE

record command =
  cmArrived :: tick
  cmFinished :: tick
  cmPpn :: u64
  cmOperation :: pal_operation
  cmMergeSnapshot :: bool
  cmSize :: u64

definition Command :: "tick \<Rightarrow> u64 \<Rightarrow> pal_operation \<Rightarrow> u64 \<Rightarrow> command" where
  "Command t a op s = \<lparr>cmArrived = t, cmFinished = 0, cmPpn = a, cmOperation = op, cmMergeSnapshot = False, cmSize = s\<rparr>"

text \<open>\<^verbatim>\<open>PAL::Parameter\<close>, \<^verbatim>\<open>Config::NANDTiming\<close>, and the three latency classes.\<close>

record flash_param =
  fpChannel :: u32
  fpPackage :: u32
  fpDie :: u32
  fpPlane :: u32
  fpBlock :: u32
  fpPage :: u32
  fpSuperBlock :: u32
  fpPageSize :: u32
  fpSuperPageSize :: u32
  fpPageInSuperPage :: u32

record page_timing =
  ptRead :: u64
  ptWrite :: u64

record dma_timing =
  dtRead :: u64
  dtWrite :: u64
  dtErase :: u64

record nand_timing =
  ntLsb :: page_timing
  ntCsb :: page_timing
  ntMsb :: page_timing
  ntDma0 :: dma_timing
  ntDma1 :: dma_timing
  ntErase :: u64

datatype nand_type = NAND_SLC | NAND_MLC | NAND_TLC
datatype busy_type = BUSY_DMA0 | BUSY_MEM | BUSY_DMA1
datatype page_type = PAGE_LSB | PAGE_CSB | PAGE_MSB

definition LatencyMLC_GetPageType :: "u32 \<Rightarrow> u32" where
  "LatencyMLC_GetPageType AddrPage = AddrPage mod 2"

definition LatencyTLC_GetPageType :: "u32 \<Rightarrow> page_type" where
  "LatencyTLC_GetPageType AddrPage =
     (if AddrPage \<le> 5 then PAGE_LSB else if AddrPage \<le> 7 then PAGE_CSB
      else let k = drop_bit 1 (AddrPage - 8) mod 3 in if k = 0 then PAGE_LSB else if k = 1 then PAGE_CSB else PAGE_MSB)"

definition dmaLatency :: "dma_timing \<Rightarrow> pal_operation \<Rightarrow> u64" where
  "dmaLatency d op = (case op of OPER_READ \<Rightarrow> dtRead d | OPER_WRITE \<Rightarrow> dtWrite d | OPER_ERASE \<Rightarrow> dtErase d)"

definition LatencySLC_GetLatency :: "nand_timing \<Rightarrow> u32 \<Rightarrow> pal_operation \<Rightarrow> busy_type \<Rightarrow> u64" where
  "LatencySLC_GetLatency timing AddrPage op busy =
     (case busy of
        BUSY_DMA0 \<Rightarrow> dmaLatency (ntDma0 timing) op
      | BUSY_DMA1 \<Rightarrow> dmaLatency (ntDma1 timing) op
      | BUSY_MEM \<Rightarrow> case op of OPER_READ \<Rightarrow> ptRead (ntLsb timing) | OPER_WRITE \<Rightarrow> ptWrite (ntLsb timing) | OPER_ERASE \<Rightarrow> ntErase timing)"

definition LatencyMLC_GetLatency :: "nand_timing \<Rightarrow> u32 \<Rightarrow> pal_operation \<Rightarrow> busy_type \<Rightarrow> u64" where
  "LatencyMLC_GetLatency timing AddrPage op busy =
     (case busy of
        BUSY_DMA0 \<Rightarrow> dmaLatency (ntDma0 timing) op
      | BUSY_DMA1 \<Rightarrow> dmaLatency (ntDma1 timing) op
      | BUSY_MEM \<Rightarrow>
          let pTiming = (if LatencyMLC_GetPageType AddrPage = 0 then ntLsb timing else ntMsb timing)
          in case op of OPER_READ \<Rightarrow> ptRead pTiming | OPER_WRITE \<Rightarrow> ptWrite pTiming | OPER_ERASE \<Rightarrow> ntErase timing)"

definition LatencyTLC_GetLatency :: "nand_timing \<Rightarrow> u32 \<Rightarrow> pal_operation \<Rightarrow> busy_type \<Rightarrow> u64" where
  "LatencyTLC_GetLatency timing AddrPage op busy =
     (case busy of
        BUSY_DMA0 \<Rightarrow> dmaLatency (ntDma0 timing) op
      | BUSY_DMA1 \<Rightarrow> dmaLatency (ntDma1 timing) op
      | BUSY_MEM \<Rightarrow>
          let pTiming = (case LatencyTLC_GetPageType AddrPage of PAGE_LSB \<Rightarrow> ntLsb timing | PAGE_CSB \<Rightarrow> ntCsb timing | PAGE_MSB \<Rightarrow> ntMsb timing)
          in case op of OPER_READ \<Rightarrow> ptRead pTiming | OPER_WRITE \<Rightarrow> ptWrite pTiming | OPER_ERASE \<Rightarrow> ntErase timing)"

text \<open>The virtual call.\<close>

definition GetLatency :: "nand_type \<Rightarrow> nand_timing \<Rightarrow> u32 \<Rightarrow> pal_operation \<Rightarrow> busy_type \<Rightarrow> u64" where
  "GetLatency n = (case n of NAND_SLC \<Rightarrow> LatencySLC_GetLatency | NAND_MLC \<Rightarrow> LatencyMLC_GetLatency | NAND_TLC \<Rightarrow> LatencyTLC_GetLatency)"

lemmas latency_defs = GetLatency_def LatencySLC_GetLatency_def LatencyMLC_GetLatency_def LatencyTLC_GetLatency_def

lemma GetLatency_dma [simp]:
  "GetLatency n timing pg op BUSY_DMA0 = dmaLatency (ntDma0 timing) op" "GetLatency n timing pg op BUSY_DMA1 = dmaLatency (ntDma1 timing) op"
  by (simp_all add: latency_defs split: nand_type.split)

end
