(* ===== verification/PAL2.thy ===== *)
theory PAL2
  imports Timeline
begin

text \<open>
  The class \<^verbatim>\<open>PAL2\<close> of \<^verbatim>\<open>pal/old/PAL2.cc\<close>: the calendars of all channels and dies, the
  scheduling of a command on them, busy time and the conversion of page numbers.
\<close>

section \<open>State\<close>

text \<open>
  The calls into \<^verbatim>\<open>PALStatistics\<close>, which keeps its own state and returns nothing. Its members
  \<^verbatim>\<open>OpBusyTime\<close> and \<^verbatim>\<open>ExactBusyTime\<close>, which \<^verbatim>\<open>PAL2\<close> changes itself, are part of the state below.
\<close>

record 'st pal_stats =
  psUpdateLastTick :: "'st \<Rightarrow> u64 \<Rightarrow> 'st"
  psAddLatency :: "'st \<Rightarrow> command \<Rightarrow> cpdpbp \<Rightarrow> u32 \<Rightarrow> timeslot \<Rightarrow> timeslot \<Rightarrow> timeslot \<Rightarrow> u8 \<Rightarrow> 'st"
  psMergeSnapshot :: "'st \<Rightarrow> 'st"
  psAccessUpdate :: "'st \<Rightarrow> 'st"
  psTicksUpdate :: "'st \<Rightarrow> 'st"

record 'st pal_ctx =
  pcParam :: flash_param
  pcNand :: nand_type
  pcTiming :: nand_timing
  pcMultiPlane :: bool
  pcDmaSpeed :: u64
  pcStats :: "'st pal_stats"

record 'st pal2 =
  chFreeSlots :: "slots list"
  chStartPoint :: "u64 list"
  dieFreeSlots :: "slots list"
  dieStartPoint :: "u64 list"
  mergedTimeSlots :: "timeslot list"
  opTimeStamp :: "(u64 \<times> u64) list list"
  opBusyTime :: "u64 list"
  exactBusyTime :: u64
  palStats :: 'st

text \<open>The lengths of the buckets, hard coded per kind of flash.\<close>

definition chBuckets :: "u32 \<Rightarrow> u32 \<Rightarrow> u64 list" where
  "chBuckets SPDIV PGDIV =
     [ucast (100000 div SPDIV), ucast (100000 div SPDIV + 100000 div SPDIV), ucast (185000000 div (PGDIV * SPDIV)),
      ucast (185000000 div (PGDIV * SPDIV) + 100000 div SPDIV), ucast (1500000 div SPDIV)]"

definition dieBuckets :: "nand_type \<Rightarrow> u32 \<Rightarrow> u64 list" where
  "dieBuckets n SPDIV =
     map (\<lambda>t. t + ucast (100000 div SPDIV))
      (case n of
         NAND_SLC \<Rightarrow> [25000000, 300000000, 2000000000]
       | NAND_MLC \<Rightarrow> [40000000, 90000000, 500000000, 1300000000, 3500000000]
       | NAND_TLC \<Rightarrow> [58000000, 78000000, 107000000, 558000000, 2201000000, 5001000000, 2274000000])"

definition emptySlots :: "u64 list \<Rightarrow> slots" where
  "emptySlots ks = fold (\<lambda>k. omPut k []) ks []"

definition totalDie :: "flash_param \<Rightarrow> u64" where
  "totalDie p = ucast (fpChannel p * fpPackage p * fpDie p)"

definition PAL2_new :: "'st pal_ctx \<Rightarrow> 'st \<Rightarrow> 'st pal2 res" where
  "PAL2_new C st =
     (if fpPageSize (pcParam C) = 0 then Inl (Undefined ''division by zero'')
      else
        let SPDIV = ucast (pcDmaSpeed C div 50) :: u32; PGDIV = 16384 div fpPageSize (pcParam C);
            nch = unat (fpChannel (pcParam C)); ndie = unat (totalDie (pcParam C))
        in if SPDIV = 0 \<or> PGDIV = 0 then Inl (Panic ''SPDIV or PGDIV is 0'')
           else if PGDIV * SPDIV = 0 then Inl (Undefined ''division by zero'')
           else Inr
             \<lparr>chFreeSlots = replicate nch (emptySlots (chBuckets SPDIV PGDIV)), chStartPoint = replicate nch 0,
              dieFreeSlots = replicate ndie (emptySlots (dieBuckets (pcNand C) SPDIV)), dieStartPoint = replicate ndie 0,
              mergedTimeSlots = [], opTimeStamp = [[], [], []], opBusyTime = [0, 0, 0], exactBusyTime = 0, palStats = st\<rparr>)"

section \<open>Scheduling a command\<close>

text \<open>
  Where an operation of \<open>len\<close> ticks can start at \<open>from\<close> or later: the tick, the start of the
  free slot (the start point when no slot fits) and whether the resource was busy. The source
  writes this block out at each of its four uses.
\<close>

definition seekSlot :: "slots \<Rightarrow> u64 \<Rightarrow> u64 \<Rightarrow> u64 \<Rightarrow> (u64 \<times> u64 \<times> bool) res" where
  "seekSlot S startPoint len from =
     bindR (FindFreeTime S len from) (\<lambda>(r, conflicts).
       case r of
         None \<Rightarrow> Inr (if from < startPoint then (startPoint, startPoint, True) else (from, startPoint, False))
       | Some t \<Rightarrow> Inr (if conflicts then t else from, t, conflicts))"

definition verifySlot :: "slots \<Rightarrow> u64 \<Rightarrow> u64 \<Rightarrow> u64 \<Rightarrow> (u64 \<times> bool) res" where
  "verifySlot S startPoint len from =
     bindR (FindFreeTime S len from) (\<lambda>(r, conflicts).
       Inr (case r of None \<Rightarrow> startPoint | Some t \<Rightarrow> t, conflicts))"

definition CONFLICT_DMA0 :: u8 where "CONFLICT_DMA0 = 1"
definition CONFLICT_MEM :: u8 where "CONFLICT_MEM = 2"
definition CONFLICT_DMA1 :: u8 where "CONFLICT_DMA1 = 4"

text \<open>
  The two calendars an operation needs and its latencies. The calendars do not change while
  the loops search.
\<close>

record flash_demand =
  dmCh :: slots
  dmChStart :: u64
  dmDie :: slots
  dmDieStart :: u64
  latDMA0 :: u64
  latMEM :: u64
  latDMA1 :: u64
  latANTI :: u64

unbundle bit_operations_syntax

text \<open>LOOP1: a time at which the channel is free for the first transfer and the die for transfer and operation.\<close>

fun loop1 :: "nat \<Rightarrow> flash_demand \<Rightarrow> u64 \<Rightarrow> u8 \<Rightarrow> (u64 \<times> u64 \<times> u64 \<times> u8) res" where
  "loop1 0 D from conf = Inl (Undefined ''LOOP1 does not end'')"
| "loop1 (Suc n) D from conf =
     bindR (seekSlot (dmCh D) (dmChStart D) (latDMA0 D) from) (\<lambda>(from, tickDMA0, conflicts).
     let conf = (if conflicts \<and> conf AND CONFLICT_MEM = 0 then conf OR CONFLICT_DMA0 else conf)
     in bindR (seekSlot (dmDie D) (dmDieStart D) (latDMA0 D + latMEM D) from) (\<lambda>(memFrom, tickMEM, _).
       if tickMEM = tickDMA0 then Inr (from, tickDMA0, tickMEM, conf)
       else bindR (verifySlot (dmCh D) (dmChStart D) (latDMA0 D) memFrom) (\<lambda>(vrfy, conflicts).
         if vrfy = tickDMA0 then Inr (memFrom, tickDMA0, tickMEM, conf)
         else loop1 n D memFrom (if conflicts \<and> conf AND CONFLICT_DMA0 = 0 then conf OR CONFLICT_MEM else conf))))"

record placement =
  plDMA0 :: u64
  plTickDMA0 :: u64
  plTickMEM :: u64
  plDMA1 :: u64
  plTotal :: u64
  plConf :: u8

text \<open>LOOP0: the second transfer, and the die free from the first transfer to the end of the second.\<close>

fun loop0 :: "nat \<Rightarrow> nat \<Rightarrow> flash_demand \<Rightarrow> u64 \<Rightarrow> u8 \<Rightarrow> placement res" where
  "loop0 0 m D from conf = Inl (Undefined ''LOOP0 does not end'')"
| "loop0 (Suc n) m D from conf =
     bindR (loop1 m D from conf) (\<lambda>(from, tickDMA0, tickMEM, conf).
     bindR (seekSlot (dmCh D) (dmChStart D) (latDMA1 D + latANTI D) (from + (latDMA0 D + latMEM D))) (\<lambda>(dma1From, _, _).
     let total = (dma1From + latDMA1 D + latANTI D) - from
     in bindR (verifySlot (dmDie D) (dmDieStart D) total from) (\<lambda>(vrfy, _).
       if vrfy = tickMEM then
         Inr \<lparr>plDMA0 = from, plTickDMA0 = tickDMA0, plTickMEM = tickMEM, plDMA1 = dma1From, plTotal = total, plConf = conf\<rparr>
       else loop0 n m D vrfy (conf OR CONFLICT_DMA1))))"

text \<open>The number of free slots of a calendar; the loops visit each at most once.\<close>

definition slotCount :: "slots \<Rightarrow> nat" where
  "slotCount S = (\<Sum>e\<leftarrow>S. length (snd e))"

definition loopBound :: "slots \<Rightarrow> nat" where
  "loopBound S = slotCount S + 2"

text \<open>
  Step 5: the time is taken out of both calendars. The result holds the calendar and the start
  point of the channel, those of the die, and the time slots of the three phases.
\<close>

record booking =
  bkCh :: slots
  bkChStart :: u64
  bkDie :: slots
  bkDieStart :: u64
  tsDMA0 :: timeslot
  tsMEM :: timeslot
  tsDMA1 :: timeslot

definition book :: "flash_demand \<Rightarrow> placement \<Rightarrow> booking res" where
  "book D p =
     bindR (InsertFreeSlot (dmCh D) (latDMA0 D) (plDMA0 p) (plTickDMA0 p) (dmChStart D) False) (\<lambda>(ch, chStart).
     bindR (seekSlot ch chStart (latDMA1 D + latANTI D) (plDMA1 p)) (\<lambda>(dma1From, tickDMA1, _).
     bindR (InsertFreeSlot ch (latDMA1 D) ((if dma1From > tickDMA1 then dma1From else tickDMA1) + latANTI D) tickDMA1 chStart False)
       (\<lambda>(ch, chStart).
     bindR (InsertFreeSlot (dmDie D) (plTotal p) (plDMA0 p) (plTickMEM p) (dmDieStart D) False) (\<lambda>(die, dieStart).
     let ts0 = TimeSlot (if plDMA0 p < plTickDMA0 p then plTickDMA0 p else plDMA0 p) (latDMA0 D);
         ts1 = TimeSlot ((if dma1From < tickDMA1 then tickDMA1 else dma1From) + latANTI D) (latDMA1 D);
         tsm = TimeSlot (if plDMA0 p < plTickMEM p then plTickMEM p else plDMA0 p) (plTotal p);
         next = (if plDMA0 p > plTickDMA0 p then plDMA0 p else plTickDMA0 p) + latDMA0 D
     in bindR (seekSlot ch chStart (latANTI D * 2) next) (\<lambda>(from, tick, _).
        bindR (if from = next then InsertFreeSlot ch (latANTI D * 2) from tick chStart True else Inr (ch, chStart)) (\<lambda>(ch, chStart).
        Inr \<lparr>bkCh = ch, bkChStart = chStart, bkDie = die, bkDieStart = dieStart, tsDMA0 = ts0, tsMEM = tsm, tsDMA1 = ts1\<rparr>))))))"

definition operIdx :: "pal_operation \<Rightarrow> nat" where
  "operIdx op = (case op of OPER_READ \<Rightarrow> 0 | OPER_WRITE \<Rightarrow> 1 | OPER_ERASE \<Rightarrow> 2)"

definition FlushOpTimeStamp :: "'st pal2 \<Rightarrow> 'st pal2" where
  "FlushOpTimeStamp s = s\<lparr>opBusyTime := map2 (\<lambda>m b. flushStamps m (- 1) (- 1) b) (opTimeStamp s) (opBusyTime s),
     opTimeStamp := map (\<lambda>_. []) (opTimeStamp s)\<rparr>"

definition stampOp :: "pal_operation \<Rightarrow> u64 \<Rightarrow> u64 \<Rightarrow> 'st pal2 \<Rightarrow> 'st pal2" where
  "stampOp op start end s =
     (let m = opTimeStamp s ! operIdx op
      in case map_of m start of
           Some e \<Rightarrow> if e < end then s\<lparr>opTimeStamp := (opTimeStamp s)[operIdx op := omPut start end m]\<rparr> else s
         | None \<Rightarrow> s\<lparr>opTimeStamp := (opTimeStamp s)[operIdx op := omPut start end m]\<rparr>)"

definition CPDPBPtoDieIdx :: "flash_param \<Rightarrow> cpdpbp \<Rightarrow> u32" where
  "CPDPBPtoDieIdx p a = cpDie a + cpPackage a * fpDie p + cpChannel a * fpDie p * fpPackage p"

definition demandOf :: "'st pal_ctx \<Rightarrow> command \<Rightarrow> cpdpbp \<Rightarrow> 'st pal2 \<Rightarrow> flash_demand" where
  "demandOf C req a s =
     (let lat = GetLatency (pcNand C) (pcTiming C) (cpPage a); ch = unat (cpChannel a); d = unat (CPDPBPtoDieIdx (pcParam C) a)
      in \<lparr>dmCh = chFreeSlots s ! ch, dmChStart = chStartPoint s ! ch, dmDie = dieFreeSlots s ! d, dmDieStart = dieStartPoint s ! d,
          latDMA0 = lat (cmOperation req) BUSY_DMA0, latMEM = lat (cmOperation req) BUSY_MEM,
          latDMA1 = lat (cmOperation req) BUSY_DMA1, latANTI = lat OPER_READ BUSY_DMA0\<rparr>)"

definition TimelineScheduling :: "'st pal_ctx \<Rightarrow> command \<Rightarrow> cpdpbp \<Rightarrow> 'st pal2 \<Rightarrow> ('st pal2 \<times> command) res" where
  "TimelineScheduling C req a s =
     (let ch = unat (cpChannel a); d = unat (CPDPBPtoDieIdx (pcParam C) a)
      in if ch \<ge> length (chFreeSlots s) \<or> d \<ge> length (dieFreeSlots s) then Inl (Undefined ''index'')
         else
           let D = demandOf C req a s
           in bindR (loop0 (loopBound (dmDie D)) (loopBound (dmCh D)) D (cmArrived req) 0) (\<lambda>p.
              bindR (book D p) (\<lambda>b.
              bindR (if mergedTimeSlots s = []
                     then Inr [TimeSlot (StartTick (tsMEM b)) (EndTick (tsMEM b) - StartTick (tsMEM b) + 1)]
                     else mergeTimeSlot (tsMEM b) (mergedTimeSlots s)) (\<lambda>ms.
              let req = req\<lparr>cmFinished := EndTick (tsDMA1 b)\<rparr>;
                  s = s\<lparr>chFreeSlots := (chFreeSlots s)[ch := bkCh b], chStartPoint := (chStartPoint s)[ch := bkChStart b],
                        dieFreeSlots := (dieFreeSlots s)[d := bkDie b], dieStartPoint := (dieStartPoint s)[d := bkDieStart b],
                        mergedTimeSlots := ms\<rparr>;
                  s = FlushOpTimeStamp (stampOp (cmOperation req) (StartTick (tsDMA0 b)) (EndTick (tsDMA1 b)) s);
                  st = psUpdateLastTick (pcStats C) (palStats s) (EndTick (tsDMA1 b));
                  st = psAddLatency (pcStats C) st req a (CPDPBPtoDieIdx (pcParam C) a) (tsDMA0 b) (tsMEM b) (tsDMA1 b) (plConf p);
                  st = (if cmOperation req = OPER_ERASE \<or> cmMergeSnapshot req then psMergeSnapshot (pcStats C) st else st)
              in Inr (s\<lparr>palStats := st\<rparr>, req)))))"

definition PAL2_submit :: "'st pal_ctx \<Rightarrow> command \<Rightarrow> cpdpbp \<Rightarrow> 'st pal2 \<Rightarrow> ('st pal2 \<times> command) res" where
  "PAL2_submit C cmd addr s = TimelineScheduling C cmd addr s"

section \<open>Flushing old slots\<close>

definition FlushTimeSlots :: "'st pal_ctx \<Rightarrow> u64 \<Rightarrow> 'st pal2 \<Rightarrow> 'st pal2" where
  "FlushTimeSlots C currentTick s =
     (let (ms, t) = FlushATimeSlotBusyTime (mergedTimeSlots s) currentTick (exactBusyTime s)
      in s\<lparr>mergedTimeSlots := ms, exactBusyTime := t,
           palStats := psTicksUpdate (pcStats C) (psAccessUpdate (pcStats C) (palStats s))\<rparr>)"

definition FlushFreeSlots :: "'st pal_ctx \<Rightarrow> u64 \<Rightarrow> 'st pal2 \<Rightarrow> 'st pal2" where
  "FlushFreeSlots C currentTick s =
     FlushTimeSlots C currentTick
       (s\<lparr>chFreeSlots := map (\<lambda>S. FlushAFreeSlot S currentTick) (chFreeSlots s),
          dieFreeSlots := map (\<lambda>S. FlushAFreeSlot S currentTick) (dieFreeSlots s)\<rparr>)"

section \<open>Page numbers\<close>

text \<open>
  \<^verbatim>\<open>AddrRemap\<close> is fixed, so \<^verbatim>\<open>RearrangedSizes\<close> are page, block, plane, die, package, channel from 0 to
  5; the seventh is always zero, so the branch for misaligned sizes is dead. The products are
  computed in 32 bits.
\<close>

definition planeSize :: "'st pal_ctx \<Rightarrow> u32" where
  "planeSize C = (if pcMultiPlane C then 1 else fpPlane (pcParam C))"

definition AssemblePPN :: "'st pal_ctx \<Rightarrow> cpdpbp \<Rightarrow> u64" where
  "AssemblePPN C a =
     (let RS5 = fpChannel (pcParam C); RS4 = fpPackage (pcParam C); RS3 = fpDie (pcParam C); RS2 = planeSize C;
          RS1 = fpBlock (pcParam C)
      in ucast (cpChannel a) + ucast (cpPackage a * RS5) + ucast (cpDie a * (RS5 * RS4)) + ucast (cpPlane a * (RS5 * RS4 * RS3)) +
         ucast (cpBlock a * (RS5 * RS4 * RS3 * RS2)) + ucast (cpPage a * (RS5 * RS4 * RS3 * RS2 * RS1)))"

definition PPNdisassemble :: "'st pal_ctx \<Rightarrow> u64 \<Rightarrow> cpdpbp \<Rightarrow> cpdpbp res" where
  "PPNdisassemble C pPPN a =
     (let RS5 = fpChannel (pcParam C); RS4 = fpPackage (pcParam C); RS3 = fpDie (pcParam C); RS2 = planeSize C;
          RS1 = fpBlock (pcParam C);
          d0 = ucast (RS5 * RS4 * RS3 * RS2 * RS1) :: u64; d1 = ucast (RS5 * RS4 * RS3 * RS2) :: u64;
          d2 = ucast (RS5 * RS4 * RS3) :: u64; d3 = ucast (RS5 * RS4) :: u64; d4 = ucast RS5 :: u64;
          m0 = pPPN mod d0; m1 = m0 mod d1; m2 = m1 mod d2; m3 = m2 mod d3; m4 = m3 mod d4
      in if d0 = 0 \<or> d1 = 0 \<or> d2 = 0 \<or> d3 = 0 \<or> d4 = 0 then Inl (Undefined ''division by zero'')
         else Inr (a\<lparr>cpPage := ucast (pPPN div d0), cpBlock := ucast (m0 div d1), cpPlane := ucast (m1 div d2),
           cpDie := ucast (m2 div d3), cpPackage := ucast (m3 div d4), cpChannel := ucast m4\<rparr>))"

end
