(* ===== verification/PALOld.thy ===== *)
theory PALOld
  imports PAL2
begin

text \<open>
  The parallelism abstraction layer: the parameters of \<^verbatim>\<open>pal/pal.cc\<close> and the class \<^verbatim>\<open>PALOLD\<close> of
  \<^verbatim>\<open>pal/pal_old.cc\<close>, which turns a request for a page of a super block into commands for the flash
  pages of it and submits them to the timeline.
\<close>

unbundle bit_operations_syntax

section \<open>Parameters\<close>

definition INDEX_CHANNEL :: u8 where "INDEX_CHANNEL = 1"
definition INDEX_PACKAGE :: u8 where "INDEX_PACKAGE = 2"
definition INDEX_DIE :: u8 where "INDEX_DIE = 4"
definition INDEX_PLANE :: u8 where "INDEX_PLANE = 8"

text \<open>The configuration values the layer reads.\<close>

record pal_config =
  pcfChannel :: u32
  pcfPackage :: u32
  pcfDie :: u32
  pcfPlane :: u32
  pcfBlock :: u32
  pcfPage :: u32
  pcfPageSize :: u32
  pcfMultiPlane :: bool
  pcfSuperblock :: u8
  pcfPageAllocation :: u32
  pcfRandomTweak :: bool

text \<open>A dimension either widens the super page or multiplies the number of super blocks.\<close>

definition superDim :: "bool \<Rightarrow> u32 \<Rightarrow> flash_param \<Rightarrow> flash_param" where
  "superDim inPage n p =
     (if inPage then p\<lparr>fpSuperPageSize := fpSuperPageSize p * n\<rparr> else p\<lparr>fpSuperBlock := fpSuperBlock p * n\<rparr>)"

definition PAL_parameter :: "pal_config \<Rightarrow> flash_param res" where
  "PAL_parameter c =
     (let superblock = pcfSuperblock c;
          p = \<lparr>fpChannel = pcfChannel c, fpPackage = pcfPackage c, fpDie = pcfDie c, fpPlane = pcfPlane c, fpBlock = pcfBlock c,
               fpPage = pcfPage c, fpSuperBlock = pcfBlock c, fpPageSize = pcfPageSize c, fpSuperPageSize = pcfPageSize c,
               fpPageInSuperPage = 0\<rparr>;
          p = superDim (superblock AND INDEX_CHANNEL \<noteq> 0) (pcfChannel c) p;
          p = superDim (superblock AND INDEX_PACKAGE \<noteq> 0) (pcfPackage c) p;
          p = superDim (superblock AND INDEX_DIE \<noteq> 0) (pcfDie c) p;
          p = superDim (pcfMultiPlane c \<or> superblock AND INDEX_PLANE \<noteq> 0) (pcfPlane c) p
      in if pcfPageSize c = 0 \<or> pcfMultiPlane c \<and> pcfPlane c = 0 then Inl (Undefined ''division by zero'')
         else let n = fpSuperPageSize p div pcfPageSize c
              in Inr (p\<lparr>fpPageInSuperPage := if pcfMultiPlane c then n div pcfPlane c else n\<rparr>))"

section \<open>Addresses of a request\<close>

datatype cp_field = F_Channel | F_Package | F_Die | F_Plane

definition setField :: "cp_field \<Rightarrow> u32 \<Rightarrow> cpdpbp \<Rightarrow> cpdpbp" where
  "setField f v a = (case f of F_Channel \<Rightarrow> a\<lparr>cpChannel := v\<rparr> | F_Package \<Rightarrow> a\<lparr>cpPackage := v\<rparr> | F_Die \<Rightarrow> a\<lparr>cpDie := v\<rparr> | F_Plane \<Rightarrow> a\<lparr>cpPlane := v\<rparr>)"

definition fieldSize :: "flash_param \<Rightarrow> cp_field \<Rightarrow> u32" where
  "fieldSize p f = (case f of F_Channel \<Rightarrow> fpChannel p | F_Package \<Rightarrow> fpPackage p | F_Die \<Rightarrow> fpDie p | F_Plane \<Rightarrow> fpPlane p)"

definition fieldIndex :: "cp_field \<Rightarrow> u8" where
  "fieldIndex f = (case f of F_Channel \<Rightarrow> INDEX_CHANNEL | F_Package \<Rightarrow> INDEX_PACKAGE | F_Die \<Rightarrow> INDEX_DIE | F_Plane \<Rightarrow> INDEX_PLANE)"

definition fieldOf :: "u8 \<Rightarrow> cp_field option" where
  "fieldOf idx = (if idx = INDEX_CHANNEL then Some F_Channel else if idx = INDEX_PACKAGE then Some F_Package
     else if idx = INDEX_DIE then Some F_Die else if idx = INDEX_PLANE then Some F_Plane else None)"

definition allocIndex :: "pal_config \<Rightarrow> nat \<Rightarrow> u8" where
  "allocIndex c i = ucast (drop_bit (i * 8) (pcfPageAllocation c) AND 0xFF)"

text \<open>
  One round of the loop over the page allocation: the address, what is left of the block index
  and the dimensions of the super page so far, the fastest first.
\<close>

definition splitDim :: "pal_config \<Rightarrow> flash_param \<Rightarrow> nat \<Rightarrow> cpdpbp \<times> u64 \<times> (u32 \<times> cp_field) list \<Rightarrow>
    (cpdpbp \<times> u64 \<times> (u32 \<times> cp_field) list) res" where
  "splitDim c p i = (\<lambda>(addr, tmp, dims).
     case fieldOf (allocIndex c i) of
       None \<Rightarrow> Inr (addr, tmp, dims)
     | Some f \<Rightarrow>
         if f = F_Plane \<and> pcfMultiPlane c then Inr (addr, tmp, dims)
         else if pcfSuperblock c AND fieldIndex f \<noteq> 0 then Inr (addr, tmp, dims @ [(fieldSize p f, f)])
         else if fieldSize p f = 0 then Inl (Undefined ''division by zero'')
         else Inr (setField f (ucast (tmp mod ucast (fieldSize p f))) addr, tmp div ucast (fieldSize p f), dims))"

text \<open>
  The nested loops over the dimensions, the first one innermost: the values of the counters in
  the order of the loops, and the addresses, whose fields are set in the order of the dimensions.
\<close>

fun loopIndices :: "u32 list \<Rightarrow> nat list list" where
  "loopIndices [] = [[]]"
| "loopIndices (v # vs) = concat (map (\<lambda>is. map (\<lambda>l. l # is) [0..<unat v]) (loopIndices vs))"

definition superPage :: "(u32 \<times> cp_field) list \<Rightarrow> cpdpbp \<Rightarrow> cpdpbp list" where
  "superPage dims addr =
     map (\<lambda>is. fold (\<lambda>(d, l). setField (snd d) (word_of_nat l)) (zip dims is) addr) (loopIndices (map fst dims))"

text \<open>
  \<open>addr0\<close> is the content of the uninitialised local variable; the page allocation names all
  four dimensions, so nothing of it is left.
\<close>

definition convertCPDPBP :: "pal_config \<Rightarrow> flash_param \<Rightarrow> cpdpbp \<Rightarrow> pal_request \<Rightarrow> cpdpbp list res" where
  "convertCPDPBP c p addr0 req =
     (let n = unat (fpPageInSuperPage p)
      in if pcfRandomTweak c \<and> dataSize (prIoFlag req) \<noteq> n then Inl (Panic ''Invalid size of I/O flag'')
         else
           let ioFlag = (if dataSize (prIoFlag req) \<noteq> n then Bitset_set_all (Bitset_new n) else prIoFlag req);
               addr = addr0\<lparr>cpSlpn := slpn (icRange (frIclReq (prFtlReq req))), cpPlane := 0\<rparr>
           in bindR (foldR (splitDim c p) [0..<4] (addr, word_of_nat (prBlockIndex req), [])) (\<lambda>(addr, tmp, dims).
                let addr = addr\<lparr>cpBlock := ucast tmp, cpPage := word_of_nat (prPageIndex req)\<rparr>;
                    pages = superPage dims addr
                in if length pages \<noteq> n then Inl (Panic ''I/O flag size != # pages in super page'')
                   else Inr (map snd (filter (\<lambda>x. Bitset_test ioFlag (fst x)) (enumerate 0 pages)))))"

section \<open>Operations\<close>

record 'st palold =
  poPal :: "'st pal2"
  poReadCount :: u64
  poWriteCount :: u64
  poEraseCount :: u64
  poLastResetTick :: u8

record 'st palold_ctx =
  pxConfig :: pal_config
  pxCtx :: "'st pal_ctx"
  pxAddr0 :: cpdpbp

definition PALOLD_new :: "'st palold_ctx \<Rightarrow> 'st \<Rightarrow> 'st palold res" where
  "PALOLD_new X st = bindR (PAL2_new (pxCtx X) st) (\<lambda>s.
     Inr \<lparr>poPal = s, poReadCount = 0, poWriteCount = 0, poEraseCount = 0, poLastResetTick = 0\<rparr>)"

text \<open>The loop over the addresses of a request; the command is reused from one page to the next.\<close>

definition submitPage :: "'st palold_ctx \<Rightarrow> ('st palold \<Rightarrow> 'st palold) \<Rightarrow> cpdpbp \<Rightarrow>
    command \<times> tick \<times> 'st palold \<Rightarrow> (command \<times> tick \<times> 'st palold) res" where
  "submitPage X count addr = (\<lambda>(cmd, finishedAt, s).
     bindR (PAL2_submit (pxCtx X) cmd addr (poPal s)) (\<lambda>(s2, cmd).
       Inr (cmd, max finishedAt (cmFinished cmd), count (s\<lparr>poPal := s2\<rparr>))))"

definition submitAll :: "'st palold_ctx \<Rightarrow> ('st palold \<Rightarrow> 'st palold) \<Rightarrow> command \<Rightarrow> pal_request \<Rightarrow> tick \<Rightarrow> 'st palold \<Rightarrow> ('st palold \<times> tick) res" where
  "submitAll X count cmd req t s =
     bindR (convertCPDPBP (pxConfig X) (pcParam (pxCtx X)) (pxAddr0 X) req) (\<lambda>list.
     bindR (foldR (submitPage X count) list (cmd, t, s)) (\<lambda>(_, finishedAt, s). Inr (s, finishedAt)))"

definition palCountRead :: "'st palold \<Rightarrow> 'st palold" where "palCountRead s = s\<lparr>poReadCount := poReadCount s + 1\<rparr>"
definition palCountWrite :: "'st palold \<Rightarrow> 'st palold" where "palCountWrite s = s\<lparr>poWriteCount := poWriteCount s + 1\<rparr>"
definition palCountErase :: "'st palold \<Rightarrow> 'st palold" where "palCountErase s = s\<lparr>poEraseCount := poEraseCount s + 1\<rparr>"

definition PALOLD_read :: "'st palold_ctx \<Rightarrow> pal_request \<Rightarrow> tick \<Rightarrow> 'st palold \<Rightarrow> ('st palold \<times> tick) res" where
  "PALOLD_read X req t s = submitAll X palCountRead (Command t 0 OPER_READ (ucast (fpSuperPageSize (pcParam (pxCtx X))))) req t s"

definition PALOLD_write :: "'st palold_ctx \<Rightarrow> pal_request \<Rightarrow> tick \<Rightarrow> 'st palold \<Rightarrow> ('st palold \<times> tick) res" where
  "PALOLD_write X req t s = submitAll X palCountWrite (Command t 0 OPER_WRITE (ucast (fpSuperPageSize (pcParam (pxCtx X))))) req t s"

definition PALOLD_erase :: "'st palold_ctx \<Rightarrow> pal_request \<Rightarrow> tick \<Rightarrow> 'st palold \<Rightarrow> ('st palold \<times> tick) res" where
  "PALOLD_erase X req t s =
     submitAll X palCountErase (Command t 0 OPER_ERASE (ucast (fpSuperPageSize (pcParam (pxCtx X)) * fpPage (pcParam (pxCtx X))))) req t s"

text \<open>The direct interface for open-channel devices.\<close>

definition submitOne :: "'st palold_ctx \<Rightarrow> ('st palold \<Rightarrow> 'st palold) \<Rightarrow> command \<Rightarrow> cpdpbp \<Rightarrow> 'st palold \<Rightarrow> ('st palold \<times> tick) res" where
  "submitOne X count cmd addr s =
     bindR (PAL2_submit (pxCtx X) cmd addr (poPal s)) (\<lambda>(s2, cmd). Inr (count (s\<lparr>poPal := s2\<rparr>), cmFinished cmd))"

definition PALOLD_readDirect :: "'st palold_ctx \<Rightarrow> cpdpbp \<Rightarrow> tick \<Rightarrow> 'st palold \<Rightarrow> ('st palold \<times> tick) res" where
  "PALOLD_readDirect X addr t = submitOne X palCountRead (Command t 0 OPER_READ (ucast (fpSuperPageSize (pcParam (pxCtx X))))) addr"

definition PALOLD_writeDirect :: "'st palold_ctx \<Rightarrow> cpdpbp \<Rightarrow> tick \<Rightarrow> 'st palold \<Rightarrow> ('st palold \<times> tick) res" where
  "PALOLD_writeDirect X addr t = submitOne X palCountWrite (Command t 0 OPER_WRITE (ucast (fpSuperPageSize (pcParam (pxCtx X))))) addr"

definition PALOLD_eraseDirect :: "'st palold_ctx \<Rightarrow> cpdpbp \<Rightarrow> tick \<Rightarrow> 'st palold \<Rightarrow> ('st palold \<times> tick) res" where
  "PALOLD_eraseDirect X addr t =
     submitOne X palCountErase (Command t 0 OPER_ERASE (ucast (fpSuperPageSize (pcParam (pxCtx X)) * fpPage (pcParam (pxCtx X))))) addr"

text \<open>The periodic flush, and the tick at which it is scheduled again.\<close>

definition FLUSH_PERIOD :: u64 where "FLUSH_PERIOD = 100000000000"
definition FLUSH_RANGE :: u64 where "FLUSH_RANGE = 10000000000"

definition PALOLD_flush :: "'st palold_ctx \<Rightarrow> tick \<Rightarrow> 'st palold \<Rightarrow> 'st palold \<times> tick" where
  "PALOLD_flush X t s =
     (s\<lparr>poPal := FlushTimeSlots (pxCtx X) (t - FLUSH_RANGE) (FlushFreeSlots (pxCtx X) (t - FLUSH_RANGE) (poPal s))\<rparr>, t + FLUSH_PERIOD)"

text \<open>The tick of the reset is kept in eight bits; \<open>reset\<close> stands for the statistics object's own reset.\<close>

definition PALOLD_resetStatValues :: "('st pal2 \<Rightarrow> 'st pal2) \<Rightarrow> tick \<Rightarrow> 'st palold \<Rightarrow> 'st palold" where
  "PALOLD_resetStatValues reset now s =
     \<lparr>poPal = reset (poPal s), poReadCount = 0, poWriteCount = 0, poEraseCount = 0, poLastResetTick = ucast now\<rparr>"

end
