(* ===== verification/Timeline_Inv.thy ===== *)
theory Timeline_Inv
  imports Timeline
begin

text \<open>
  The calendars of the flash timeline: the invariant of their buckets, the search for free time
  (it returns the first slot that fits) and the booking of time (what is taken was free and is
  free no longer).
\<close>

section \<open>The invariant of a calendar\<close>

definition slotsOf :: "slots \<Rightarrow> (u64 \<times> u64) set" where
  "slotsOf S = (\<Union>e\<in>set S. set (snd e))"

definition bucketFor :: "slots \<Rightarrow> u64 \<Rightarrow> nat \<Rightarrow> bool" where
  "bucketFor S k n \<longleftrightarrow> unat k \<le> n \<and> (\<forall>e\<in>set S. unat (fst e) \<le> n \<longrightarrow> fst e \<le> k)"

definition apart :: "u64 \<times> u64 \<Rightarrow> u64 \<times> u64 \<Rightarrow> bool" where
  "apart x y \<longleftrightarrow> snd x < fst y \<or> snd y < fst x"

definition slotLength :: "u64 \<times> u64 \<Rightarrow> nat" where
  "slotLength x = unat (snd x) + 1 - unat (fst x)"

definition cal_inv :: "slots \<Rightarrow> u64 \<Rightarrow> bool" where
  "cal_inv S sp \<longleftrightarrow> om_wf S \<and> S \<noteq> [] \<and>
     (\<forall>e\<in>set S. om_wf (snd e) \<and> (\<forall>x\<in>set (snd e). bucketFor S (fst e) (slotLength x))) \<and>
     (\<forall>x\<in>slotsOf S. fst x \<le> snd x \<and> snd x < sp) \<and>
     (\<forall>x\<in>slotsOf S. \<forall>y\<in>slotsOf S. x \<noteq> y \<longrightarrow> apart x y)"

text \<open>Whether a tick is free: in a free slot, or behind the start point.\<close>

definition freeAt :: "slots \<Rightarrow> u64 \<Rightarrow> nat \<Rightarrow> bool" where
  "freeAt S sp t \<longleftrightarrow> (\<exists>x\<in>slotsOf S. unat (fst x) \<le> t \<and> t \<le> unat (snd x)) \<or> unat sp \<le> t"

definition fits :: "u64 \<Rightarrow> u64 \<Rightarrow> u64 \<times> u64 \<Rightarrow> bool" where
  "fits len from x \<longleftrightarrow> unat (max (fst x) from) + unat len \<le> unat (snd x) + 1"

lemma cal_invD:
  assumes "cal_inv S sp"
  shows "om_wf S" "S \<noteq> []" "\<And>e. e \<in> set S \<Longrightarrow> om_wf (snd e)" "\<And>e x. e \<in> set S \<Longrightarrow> x \<in> set (snd e) \<Longrightarrow> bucketFor S (fst e) (slotLength x)"
    "\<And>x. x \<in> slotsOf S \<Longrightarrow> fst x \<le> snd x" "\<And>x. x \<in> slotsOf S \<Longrightarrow> snd x < sp"
    "\<And>x y. x \<in> slotsOf S \<Longrightarrow> y \<in> slotsOf S \<Longrightarrow> x \<noteq> y \<Longrightarrow> apart x y"
  using assms by (auto simp: cal_inv_def)

lemma unat_u64: "unat (x :: u64) < 2 ^ 64"
  using unsigned_less [where ?'a = nat, of x] by simp

lemma unat_pred: "a < (x :: u64) \<Longrightarrow> unat (x - 1) = unat x - 1"
  by (subst unat_sub) (auto simp: word_le_nat_alt word_less_nat_alt)

lemma pred_less: "a < (x :: u64) \<Longrightarrow> x - 1 < x"
  using unat_pred [of a x] by (simp add: word_less_nat_alt)

lemma unat_end:
  assumes "0 < unat (len :: u64)" "unat x + unat len \<le> 2 ^ 64"
  shows "unat (len + x - 1) = unat x + unat len - 1"
proof -
  have "len + x - 1 = word_of_nat (unat x + unat len - 1)" using assms(1) by (simp add: of_nat_diff)
  then show ?thesis using assms(2) by (simp add: unat_of_nat take_bit_nat_eq_self)
qed

lemma end_le_iff:
  assumes "0 < unat (len :: u64)" "unat x + unat len \<le> 2 ^ 64"
  shows "len + x - 1 \<le> y \<longleftrightarrow> unat x + unat len \<le> unat y + 1"
  using assms by (auto simp: word_le_nat_alt unat_end)

section \<open>Finding a slot\<close>

text \<open>What a search in a bucket returns.\<close>

definition probed :: "u64 \<Rightarrow> u64 \<Rightarrow> (u64 \<times> u64) list \<Rightarrow> bool" where
  "probed len from m \<longleftrightarrow> (case probeBucket len from m of
      Now t \<Rightarrow> t \<le> from \<and> (\<exists>x\<in>set m. fst x = t \<and> fits len from x)
    | Later t \<Rightarrow> from < t \<and> t \<noteq> - 1 \<and> (\<exists>x\<in>set m. fst x = t \<and> fits len from x) \<and> (\<forall>x\<in>set m. fits len from x \<longrightarrow> t \<le> fst x)
    | Nothing \<Rightarrow> (\<forall>x\<in>set m. \<not> fits len from x))"

lemma probeBucket_cases:
  fixes m :: "(u64 \<times> u64) list"
  assumes wf: "om_wf m" and ord: "\<And>x. x \<in> set m \<Longrightarrow> fst x \<le> snd x"
    and apart: "\<And>x y. x \<in> set m \<Longrightarrow> y \<in> set m \<Longrightarrow> x \<noteq> y \<Longrightarrow> apart x y"
    and len: "0 < unat len" "unat from + unat len \<le> 2 ^ 64" "\<And>x. x \<in> set m \<Longrightarrow> unat (fst x) + unat len < 2 ^ 64"
  shows "probed len from m"
proof -
  obtain lo hi where lh: "omUpper from m = (lo, hi)" by force
  note sp = omUpper_split [OF wf lh]
  have wflo: "om_wf lo" and wfhi: "om_wf hi" using wf sp(1) by (simp_all add: om_wf_append)
  have hiF: "fits len from x \<longleftrightarrow> len + fst x - 1 \<le> snd x" if "x \<in> set hi" for x
    using sp(3) [OF that] len(3) [of x] that sp(1) by (auto simp: fits_def max_def end_le_iff [OF len(1)] less_imp_le)
  show ?thesis
  proof (cases "lo \<noteq> [] \<and> len + from - 1 \<le> snd (last lo)")
    case True
    then have l: "last lo \<in> set lo" "last lo \<in> set m" using sp(1) by simp_all
    have "probeBucket len from m = Now (fst (last lo))" using True by (simp add: probeBucket_def lh)
    moreover have "fits len from (last lo)" using True sp(2) [OF l(1)] by (simp add: fits_def max_def end_le_iff [OF len(1,2)])
    ultimately show ?thesis using sp(2) [OF l(1)] l(2) by (auto simp: probed_def)
  next
    case False
    have noLo: "\<not> fits len from x" if x: "x \<in> set lo" for x
    proof
      assume f: "fits len from x"
      have le: "fst x \<le> from" using sp(2) [OF x] .
      have "x \<noteq> last lo" using f le False x by (auto simp: fits_def max_def end_le_iff [OF len(1,2)] split: if_splits)
      moreover have lastin: "last lo \<in> set lo" using x by (cases lo) auto
      ultimately have "apart x (last lo)" using x sp(1) by (intro apart) auto
      moreover have "fst x \<le> fst (last lo)" using om_wf_last [OF wflo x] by auto
      moreover have "unat from + unat len \<le> unat (snd x) + 1" using f le by (simp add: fits_def max_absorb2)
      then have "from \<le> snd x" using len(1) unfolding word_le_nat_alt by linarith
      moreover have "fst (last lo) \<le> from" "fst (last lo) \<le> snd (last lo)" using sp(2) [OF lastin] ord [of "last lo"] lastin sp(1) by auto
      ultimately show False unfolding apart_def by (meson leD order_trans)
    qed
    show ?thesis
    proof (cases "List.find (\<lambda>f. len + fst f - 1 \<le> snd f) hi")
      case None
      then have "\<not> fits len from x" if "x \<in> set hi" for x using that hiF [OF that] by (auto simp: find_None_iff)
      moreover have "probeBucket len from m = Nothing" using False None by (auto simp: probeBucket_def lh)
      ultimately show ?thesis using noLo sp(1) by (auto simp: probed_def)
    next
      case (Some f)
      then obtain i where i: "i < length hi" "len + fst (hi ! i) - 1 \<le> snd (hi ! i)" "f = hi ! i"
        "\<And>j. j < i \<Longrightarrow> \<not> len + fst (hi ! j) - 1 \<le> snd (hi ! j)" by (auto simp: find_Some_iff)
      have pb: "probeBucket len from m = Later (fst f)" using False Some by (auto simp: probeBucket_def lh)
      have fin: "f \<in> set hi" using i by simp
      have least: "fst f \<le> fst x" if "x \<in> set m" "fits len from x" for x
      proof -
        have "x \<in> set hi" using that noLo [of x] sp(1) by auto
        then obtain j where j: "j < length hi" "x = hi ! j" by (auto simp: in_set_conv_nth)
        have "i \<le> j" using i(4) [of j] hiF [of x] that j by (cases "i \<le> j") auto
        then have "i = j \<or> fst (hi ! i) < fst (hi ! j)"
          using wfhi j(1) by (cases "i = j") (auto simp: om_wf_def sorted_wrt_iff_nth_less)
        then show ?thesis using i(3) j(2) by auto
      qed
      have "fst f \<noteq> - 1"
      proof
        assume "fst f = - 1"
        then show False using len(1) len(3) [of f] fin sp(1) by (simp add: unsigned_minus_1_eq_mask mask_eq_exp_minus_1)
      qed
      then show ?thesis using fin hiF [OF fin] i(2,3) sp(3) [OF fin] sp(1) least unfolding probed_def pb by auto
    qed
  qed
qed

lemma slotsOf_Cons [simp]: "slotsOf (e # es) = set (snd e) \<union> slotsOf es"
  by (simp add: slotsOf_def)

lemma slotsOf_Nil [simp]: "slotsOf [] = {}"
  by (simp add: slotsOf_def)

lemma findBuckets_now:
  assumes "\<And>e. e \<in> set es \<Longrightarrow> probed len from (snd e)" "findBuckets len from es mt = (Some t, False)"
  shows "t \<le> from \<and> (\<exists>x\<in>slotsOf es. fst x = t \<and> fits len from x)"
  using assms
proof (induction es arbitrary: mt)
  case (Cons e es)
  have "probed len from (snd e)" using Cons.prems(1) by simp
  then show ?case using Cons.prems(2) Cons.IH [OF Cons.prems(1)]
    by (auto simp: probed_def split: probe.splits)
qed (simp split: if_splits)

lemma findBuckets_none:
  assumes "\<And>e. e \<in> set es \<Longrightarrow> probed len from (snd e)" "findBuckets len from es mt = (None, c)"
  shows "\<not> c \<and> mt = - 1 \<and> (\<forall>x\<in>slotsOf es. \<not> fits len from x)"
  using assms
proof (induction es arbitrary: mt)
  case (Cons e es)
  have p: "probed len from (snd e)" using Cons.prems(1) by simp
  show ?case
  proof (cases "probeBucket len from (snd e)")
    case (Later u)
    let ?mt = "if mt = - 1 \<or> mt > u then u else mt"
    have "findBuckets len from es ?mt = (None, c)" using Cons.prems(2) by (simp add: Later)
    note IH = Cons.IH [OF Cons.prems(1) this, simplified]
    moreover have "u \<noteq> - 1" using p by (auto simp: probed_def Later)
    ultimately show ?thesis by (auto split: if_splits)
  next
    case Nothing
    then show ?thesis using p Cons.prems(2) Cons.IH [OF Cons.prems(1), of mt] by (auto simp: probed_def)
  qed (use Cons.prems(2) in simp)
qed (simp split: if_splits)

lemma findBuckets_later:
  assumes "\<And>e. e \<in> set es \<Longrightarrow> probed len from (snd e)" "findBuckets len from es mt = (Some t, True)"
  shows "(t = mt \<or> from < t \<and> (\<exists>x\<in>slotsOf es. fst x = t \<and> fits len from x)) \<and> (mt \<noteq> - 1 \<longrightarrow> t \<le> mt) \<and>
    (\<forall>x\<in>slotsOf es. fits len from x \<longrightarrow> t \<le> fst x) \<and> t \<noteq> - 1"
  using assms
proof (induction es arbitrary: mt)
  case (Cons e es)
  have p: "probed len from (snd e)" using Cons.prems(1) by simp
  show ?case
  proof (cases "probeBucket len from (snd e)")
    case (Later u)
    let ?mt = "if mt = - 1 \<or> mt > u then u else mt"
    have "findBuckets len from es ?mt = (Some t, True)" using Cons.prems(2) by (simp add: Later)
    note IH = Cons.IH [OF Cons.prems(1) this, simplified]
    have u: "from < u" "u \<noteq> - 1" "\<exists>x\<in>set (snd e). fst x = u \<and> fits len from x" "\<forall>x\<in>set (snd e). fits len from x \<longrightarrow> u \<le> fst x"
      using p by (auto simp: probed_def Later)
    have "t \<le> u" "mt \<noteq> - 1 \<longrightarrow> t \<le> mt" using IH u(2) by (auto split: if_splits)
    then show ?thesis using IH u by (auto split: if_splits)
  next
    case Nothing
    then show ?thesis using p Cons.prems(2) Cons.IH [OF Cons.prems(1), of mt] by (auto simp: probed_def)
  qed (use Cons.prems(2) in simp)
qed (simp split: if_splits)

lemma fits_now_least:
  assumes "cal_inv S sp" "x \<in> slotsOf S" "y \<in> slotsOf S" "fits len from x" "fits len from y" "fst x \<le> from" "0 < unat len"
  shows "fst x \<le> fst y"
proof (rule ccontr)
  assume "\<not> fst x \<le> fst y"
  then have lt: "fst y < fst x" by simp
  then have "unat from + unat len \<le> unat (snd y) + 1" using assms(5,6) by (simp add: fits_def max_absorb2)
  then have "from \<le> snd y" using assms(7) unfolding word_le_nat_alt by linarith
  moreover have "apart x y" using lt by (intro cal_invD(7) [OF assms(1-3)]) auto
  moreover have "fst x \<le> snd x" using cal_invD(5) [OF assms(1,2)] .
  ultimately show False using lt assms(6) unfolding apart_def by (meson leD order_trans order_less_trans order_le_less_trans)
qed

text \<open>The buckets a search for a length visits hold every slot of at least that length.\<close>

lemma visited_subset: "om_wf S \<Longrightarrow> set (visited S len) \<subseteq> set S"
proof -
  assume wf: "om_wf S"
  obtain lo hi where lh: "omUpper len S = (lo, hi)" by force
  have "visited S len = (if lo = [] then hi else last lo # hi)" by (simp add: visited_def lh)
  then show ?thesis using omUpper_split(1) [OF wf lh] by auto
qed

lemma visited_complete:
  assumes "om_wf S" "e \<in> set S" "bucketFor S (fst e) n" "unat len \<le> n"
  shows "e \<in> set (visited S len)"
proof -
  obtain lo hi where lh: "omUpper len S = (lo, hi)" by force
  note sp = omUpper_split [OF assms(1) lh]
  have v: "visited S len = (if lo = [] then hi else last lo # hi)" by (simp add: visited_def lh)
  show ?thesis
  proof (cases "lo = []")
    case True
    then show ?thesis using assms(2) sp(1) v by simp
  next
    case False
    have l: "last lo \<in> set lo" using False by simp
    have "unat (fst (last lo)) \<le> n" using sp(2) [OF l] assms(4) by (simp add: word_le_nat_alt)
    then have ge: "fst (last lo) \<le> fst e" using assms(3) l sp(1) by (auto simp: bucketFor_def)
    have "e \<in> set hi \<or> e = last lo"
    proof (rule ccontr)
      assume n: "\<not> (e \<in> set hi \<or> e = last lo)"
      have "e \<in> set lo" using n assms(2) sp(1) by auto
      moreover have "om_wf lo" using assms(1) sp(1) by (simp add: om_wf_append)
      ultimately have "fst e < fst (last lo)" using om_wf_last n by blast
      then show False using ge by simp
    qed
    then show ?thesis using False v by auto
  qed
qed

lemma fits_length: "fits len from x \<Longrightarrow> unat len \<le> slotLength x"
proof -
  assume "fits len from x"
  moreover have "unat (fst x) \<le> unat (max (fst x) from)" by (simp add: word_le_nat_alt [symmetric])
  ultimately show ?thesis unfolding fits_def slotLength_def by linarith
qed

definition earliest :: "slots \<Rightarrow> u64 \<Rightarrow> u64 \<Rightarrow> u64 option \<Rightarrow> bool \<Rightarrow> bool" where
  "earliest S len from r c \<longleftrightarrow> (case r of
      None \<Rightarrow> \<not> c \<and> (\<forall>x\<in>slotsOf S. \<not> fits len from x)
    | Some t \<Rightarrow> (c \<longleftrightarrow> from < t) \<and> (\<exists>x\<in>slotsOf S. fst x = t \<and> fits len from x) \<and> (\<forall>x\<in>slotsOf S. fits len from x \<longrightarrow> t \<le> fst x))"

lemma FindFreeTime_visited:
  assumes "S \<noteq> []" "\<And>e. e \<in> set (visited S len) \<Longrightarrow> probed len from (snd e)"
  shows "FindFreeTime S len from = Inr (findBuckets len from (visited S len) (- 1))"
proof -
  obtain lo hi where lh: "omUpper len S = (lo, hi)" by force
  have "lo \<noteq> [] \<or> hi \<noteq> []" using lh assms(1) by (metis Pair_inject append_Nil omUpper_def takeWhile_dropWhile_id)
  moreover have "probed len from (snd (last lo))" if "lo \<noteq> []" using assms(2) that by (simp add: visited_def lh)
  ultimately show ?thesis by (auto simp: FindFreeTime_def visited_def lh probed_def split: probe.splits)
qed

lemma FindFreeTime_earliest:
  assumes inv: "cal_inv S sp" and len: "0 < unat len" "unat from + unat len \<le> 2 ^ 64" "unat sp + unat len \<le> 2 ^ 64"
  shows "\<exists>r c. FindFreeTime S len from = Inr (r, c) \<and> earliest S len from r c"
proof -
  let ?V = "visited S len"
  note D = cal_invD [OF inv]
  have sub: "slotsOf ?V \<subseteq> slotsOf S" using visited_subset [OF D(1), of len] by (auto simp: slotsOf_def)
  have comp: "x \<in> slotsOf ?V" if xs: "x \<in> slotsOf S" and f: "fits len from x" for x
  proof -
    obtain e where e: "e \<in> set S" "x \<in> set (snd e)" using xs unfolding slotsOf_def by blast
    have "e \<in> set ?V" by (rule visited_complete [OF D(1) e(1) D(4) [OF e] fits_length [OF f]])
    then show ?thesis using e(2) by (auto simp: slotsOf_def)
  qed
  have pr: "probed len from (snd e)" if "e \<in> set ?V" for e
  proof (rule probeBucket_cases)
    have e: "e \<in> set S" using that visited_subset [OF D(1)] by auto
    then have s: "x \<in> slotsOf S" if "x \<in> set (snd e)" for x using that by (auto simp: slotsOf_def)
    show "om_wf (snd e)" using D(3) e .
    show "fst x \<le> snd x" if "x \<in> set (snd e)" for x using D(5) s that by blast
    show "apart x y" if "x \<in> set (snd e)" "y \<in> set (snd e)" "x \<noteq> y" for x y using D(7) s that by blast
    show "unat (fst x) + unat len < 2 ^ 64" if "x \<in> set (snd e)" for x
      using D(5) [OF s [OF that]] D(6) [OF s [OF that]] len(3) by (simp add: word_le_nat_alt word_less_nat_alt)
  qed (use len in auto)
  obtain r c where rc: "findBuckets len from ?V (- 1) = (r, c)" by force
  have "earliest S len from r c"
  proof (cases r)
    case None
    then show ?thesis using findBuckets_none [OF pr, of _ "- 1" c] rc comp by (auto simp: earliest_def)
  next
    case (Some t)
    show ?thesis
    proof (cases c)
      case True
      then have "findBuckets len from ?V (- 1) = (Some t, True)" using rc Some by simp
      from findBuckets_later [OF pr this] obtain x where x: "from < t" "x \<in> slotsOf ?V" "fst x = t" "fits len from x"
        "\<forall>x\<in>slotsOf ?V. fits len from x \<longrightarrow> t \<le> fst x" by auto
      then show ?thesis using comp sub Some True unfolding earliest_def by auto
    next
      case False
      then have "findBuckets len from ?V (- 1) = (Some t, False)" using rc Some by simp
      from findBuckets_now [OF pr this] obtain x where x: "t \<le> from" "x \<in> slotsOf ?V" "fst x = t" "fits len from x" by auto
      then have "t \<le> fst y" if "y \<in> slotsOf S" "fits len from y" for y
        using fits_now_least [OF inv _ that(1) x(4) that(2) _ len(1)] sub by auto
      then show ?thesis using x sub Some False by (auto simp: earliest_def not_less)
    qed
  qed
  then show ?thesis using FindFreeTime_visited [OF D(2) pr] rc by simp
qed

section \<open>Adding a slot\<close>

lemma cal_inv_mono: "cal_inv S sp \<Longrightarrow> sp \<le> sp' \<Longrightarrow> cal_inv S sp'"
  unfolding cal_inv_def using order_less_le_trans by blast

lemma bucketFor_omPut:
  assumes "om_wf S" "k' \<in> fst ` set S"
  shows "bucketFor (omPut k' m S) k n \<longleftrightarrow> bucketFor S k n"
proof -
  have *: "bucketFor T k n \<longleftrightarrow> unat k \<le> n \<and> (\<forall>j\<in>fst ` set T. unat j \<le> n \<longrightarrow> j \<le> k)" for T by (auto simp: bucketFor_def)
  have "fst ` set (omPut k' m S) = fst ` set S" using map_fst_omPut [OF assms] by (metis set_map)
  then show ?thesis unfolding * by simp
qed

lemma slotsOf_omPut:
  assumes "om_wf S" "(k, m) \<in> set S"
  shows "slotsOf (omPut k m' S) = set m' \<union> (\<Union>e\<in>set S - {(k, m)}. set (snd e))"
proof -
  have "fst x \<noteq> k \<longleftrightarrow> x \<noteq> (k, m)" if "x \<in> set S" for x
    using om_wf_distinct [OF assms(1)] that assms(2) eq_key_imp_eq_value [of S k "snd x" m] by (cases x) auto
  then have "{x \<in> set S. fst x \<noteq> k} = set S - {(k, m)}" by blast
  then show ?thesis by (simp add: slotsOf_def set_omPut [OF assms(1)])
qed

text \<open>Replacing a bucket: what has to hold of the new one.\<close>

lemma cal_inv_replace:
  assumes inv: "cal_inv S sp" and km: "(k, m) \<in> set S" and wf: "om_wf m'"
    and b: "\<And>x. x \<in> set m' \<Longrightarrow> x \<notin> set m \<Longrightarrow> bucketFor S k (slotLength x) \<and> fst x \<le> snd x \<and> snd x < sp \<and> (\<forall>y\<in>slotsOf S. apart x y)"
    and u: "\<And>x y. x \<in> set m' \<Longrightarrow> x \<notin> set m \<Longrightarrow> y \<in> set m' \<Longrightarrow> y \<notin> set m \<Longrightarrow> x = y"
  shows "cal_inv (omPut k m' S) sp"
proof -
  note D = cal_invD [OF inv]
  have keys: "k \<in> fst ` set S" using km by force
  have sl: "x \<in> slotsOf S \<or> x \<in> set m' \<and> x \<notin> set m" if "x \<in> slotsOf (omPut k m' S)" for x
    using that km unfolding slotsOf_omPut [OF D(1) km] unfolding slotsOf_def by (cases "x \<in> set m") force+
  have el: "e \<in> set S \<or> e = (k, m')" if "e \<in> set (omPut k m' S)" for e
    using that by (auto simp: set_omPut [OF D(1)])
  have "bucketFor S (fst e) (slotLength x)" "om_wf (snd e)" if "e \<in> set (omPut k m' S)" "x \<in> set (snd e)" for e x
    using el [OF that(1)] that(2) D(3,4) b [of x] wf D(4) [OF km, of x] by (cases "x \<in> set m"; auto)+
  moreover have "om_wf (snd e)" if "e \<in> set (omPut k m' S)" for e using el [OF that] D(3) [of e] wf by auto
  moreover have "fst x \<le> snd x \<and> snd x < sp" if "x \<in> slotsOf (omPut k m' S)" for x
    using sl [OF that] D(5,6) b by blast
  moreover have "apart x y" if xy: "x \<in> slotsOf (omPut k m' S)" "y \<in> slotsOf (omPut k m' S)" "x \<noteq> y" for x y
    using sl [OF xy(1)] sl [OF xy(2)] D(7) b u xy(3) unfolding apart_def by blast
  moreover have "omPut k m' S \<noteq> []" using keys set_omPut [OF D(1), of k m'] by force
  ultimately show ?thesis unfolding cal_inv_def bucketFor_omPut [OF D(1) keys] using D(1) by (simp add: bucketFor_omPut)
qed

lemma AddFreeSlot_correct:
  assumes inv: "cal_inv S sp" and len: "0 < unat len" and lim: "unat from + unat len \<le> unat sp"
    and ap: "\<And>y. y \<in> slotsOf S \<Longrightarrow> apart (from, from + len - 1) y"
  shows "cal_inv (AddFreeSlot S len from) sp" "slotsOf (AddFreeSlot S len from) \<subseteq> insert (from, from + len - 1) (slotsOf S)"
proof -
  let ?x = "(from, from + len - 1)"
  have ue: "unat (from + len - 1) = unat from + unat len - 1"
    using unat_end [OF len, of "from"] lim unat_u64 [of sp] by (simp add: ac_simps)
  obtain lo hi where lh: "omUpper len S = (lo, hi)" by force
  note D = cal_invD [OF inv]
  note sp = omUpper_split [OF D(1) lh]
  have "cal_inv (AddFreeSlot S len from) sp \<and> slotsOf (AddFreeSlot S len from) \<subseteq> insert ?x (slotsOf S)"
  proof (cases "lo = []")
    case True
    then show ?thesis using inv by (auto simp: AddFreeSlot_def lh)
  next
    case False
    let ?k = "fst (last lo)" and ?m = "snd (last lo)" and ?m' = "omInsert from (from + len - 1) (snd (last lo))"
    have A: "AddFreeSlot S len from = omPut ?k ?m' S" using False by (simp add: AddFreeSlot_def lh)
    have l: "last lo \<in> set lo" using False by simp
    have km: "(?k, ?m) \<in> set S" using l sp(1) by simp
    have "unat ?k \<le> slotLength ?x" using sp(2) [OF l] len by (simp add: slotLength_def ue word_le_nat_alt)
    moreover have "fst e \<le> ?k" if "e \<in> set S" "unat (fst e) \<le> slotLength ?x" for e
    proof -
      have "fst e \<le> len" using that(2) len by (simp add: slotLength_def ue word_le_nat_alt)
      then have "e \<in> set lo" using sp(1) sp(3) [of e] that(1) by force
      moreover have "om_wf lo" using D(1) sp(1) by (simp add: om_wf_append)
      ultimately show ?thesis using om_wf_last [of lo e] by auto
    qed
    ultimately have bk: "bucketFor S ?k (slotLength ?x)" by (simp add: bucketFor_def)
    have new: "x = ?x" if "x \<in> set ?m'" "x \<notin> set ?m" for x using that set_omInsert [of "from" "from + len - 1" ?m] by blast
    have le: "from \<le> from + len - 1" "from + len - 1 < sp" using len lim by (simp_all add: word_le_nat_alt word_less_nat_alt ue)
    have "cal_inv (omPut ?k ?m' S) sp"
    proof (rule cal_inv_replace [OF inv km])
      show "om_wf ?m'" using D(3) [OF km] by simp
      show "bucketFor S ?k (slotLength x) \<and> fst x \<le> snd x \<and> snd x < sp \<and> (\<forall>y\<in>slotsOf S. apart x y)"
        if "x \<in> set ?m'" "x \<notin> set ?m" for x unfolding new [OF that] using bk le ap by simp
    qed (use new in blast)
    moreover have "slotsOf (omPut ?k ?m' S) \<subseteq> insert ?x (slotsOf S)"
      unfolding slotsOf_omPut [OF D(1) km] using new km by (auto simp: slotsOf_def)
    ultimately show ?thesis unfolding A by simp
  qed
  then show "cal_inv (AddFreeSlot S len from) sp" "slotsOf (AddFreeSlot S len from) \<subseteq> insert ?x (slotsOf S)" by simp_all
qed

lemma add_piece:
  assumes inv: "cal_inv S sp" and sub: "slotsOf S \<subseteq> R \<union> P" and R: "\<And>y. y \<in> R \<Longrightarrow> apart x y"
    and len: "0 < unat len" "unat a + unat len \<le> unat (snd x) + 1" "fst x \<le> a" "snd x < sp"
    and P: "\<And>p. p \<in> P \<Longrightarrow> apart (a, a + len - 1) p"
  shows "cal_inv (AddFreeSlot S len a) sp" "slotsOf (AddFreeSlot S len a) \<subseteq> R \<union> insert (a, a + len - 1) P"
proof -
  have lim: "unat a + unat len \<le> unat sp" using len(2,4) unfolding word_less_nat_alt by linarith
  then have "unat (a + len - 1) = unat a + unat len - 1" using unat_end [OF len(1), of a] unat_u64 [of sp] by (simp add: ac_simps)
  then have "a + len - 1 \<le> snd x" using len(2) unfolding word_le_nat_alt by linarith
  then have "apart (a, a + len - 1) y" if "y \<in> R" for y using R [OF that] len(3) unfolding apart_def by auto
  then have ap: "apart (a, a + len - 1) y" if "y \<in> slotsOf S" for y using that sub P by blast
  show "cal_inv (AddFreeSlot S len a) sp" by (rule AddFreeSlot_correct(1) [OF inv len(1) lim ap])
  show "slotsOf (AddFreeSlot S len a) \<subseteq> R \<union> insert (a, a + len - 1) P"
    using AddFreeSlot_correct(2) [OF inv len(1) lim ap] sub by blast
qed

section \<open>Taking time out of a calendar\<close>

text \<open>The slots that may be there after \<open>len\<close> ticks at \<open>from\<close> were taken from the slot \<open>x\<close>.\<close>

definition leftOver :: "u64 \<times> u64 \<Rightarrow> u64 \<Rightarrow> u64 \<Rightarrow> bool \<Rightarrow> u64 \<times> u64 \<Rightarrow> bool" where
  "leftOver x len from split z \<longleftrightarrow> fst x \<le> fst z \<and> snd z \<le> snd x \<and> (split \<or> snd z < from \<or> unat from + unat len \<le> unat (fst z))"

lemma splitSlot_correct:
  assumes inv: "cal_inv S sp" and ap: "\<And>y. y \<in> slotsOf S \<Longrightarrow> apart (a, b) y"
    and len: "0 < unat len" "a \<le> from" "unat from + unat len \<le> unat b + 1" "b < sp"
  shows "\<exists>S'. splitSlot S len from split a b = Inr S' \<and> cal_inv S' sp \<and> (\<forall>z\<in>slotsOf S'. z \<in> slotsOf S \<or> leftOver (a, b) len from split z)"
proof -
  let ?e = "from + len - 1"
  have b1: "unat b + 1 < 2 ^ 64" using len(4) unat_u64 [of sp] unfolding word_less_nat_alt by linarith
  have ue: "unat ?e = unat from + unat len - 1" using unat_end [OF len(1), of "from"] len(3) b1 by (simp add: ac_simps)
  have uf: "unat (from + len) = unat from + unat len" using len(3) b1 by (simp add: unat_plus_if_size word_size)
  have fb: "from \<le> b" using len(1,3) unfolding word_le_nat_alt by linarith
  have ul: "unat (b - from + 1) = unat b - unat from + 1"
    using b1 unat_sub [OF fb] by (simp add: unat_plus_if_size word_size)
  have assert: "b - from + 1 \<ge> len" unfolding word_le_nat_alt ul using len(3) fb by (simp add: word_le_nat_alt)
  have ef: "from \<le> ?e" "?e \<le> b" using len(1,3) unfolding word_le_nat_alt ue by linarith+
  define S1 where "S1 = (if a < from then AddFreeSlot S (from - a) a else S)"
  define P1 where "P1 = (if a < from then {(a, from - 1)} else {})"
  have 1: "cal_inv S1 sp \<and> slotsOf S1 \<subseteq> slotsOf S \<union> P1"
  proof (cases "a < from")
    case True
    have u: "unat (from - a) = unat from - unat a" using True by (simp add: unat_sub less_imp_le)
    have g: "0 < unat (from - a)" "unat a + unat (from - a) \<le> unat b + 1" using True fb unfolding u word_less_nat_alt word_le_nat_alt by linarith+
    have "a + (from - a) - 1 = from - 1" by simp
    then show ?thesis using add_piece [OF inv, where R = "slotsOf S" and P = "{}" and x = "(a, b)" and a = a and len = "from - a"] ap g len(4) True
      by (simp add: S1_def P1_def)
  qed (use inv in \<open>simp add: S1_def P1_def\<close>)
  define S2 where "S2 = (if split then AddFreeSlot S1 len from else S1)"
  define P2 where "P2 = (if split then insert (from, ?e) P1 else P1)"
  have below: "snd p < from" if "p \<in> P1" for p
    using that by (auto simp: P1_def pred_less split: if_splits)
  have 2: "cal_inv S2 sp \<and> slotsOf S2 \<subseteq> slotsOf S \<union> P2"
  proof (cases split)
    case True
    have "apart (from, ?e) p" if "p \<in> P1" for p using below [OF that] by (simp add: apart_def)
    then show ?thesis using add_piece [of S1 sp "slotsOf S" P1 "(a, b)" len "from"] 1 ap len True by (simp add: S2_def P2_def)
  qed (use 1 in \<open>simp add: S2_def P2_def\<close>)
  define S3 where "S3 = (if b > len + from - 1 then AddFreeSlot S2 (b - ?e) (from + len) else S2)"
  have 3: "cal_inv S3 sp \<and> slotsOf S3 \<subseteq> slotsOf S \<union> insert (from + len, b) P2"
  proof (cases "?e < b")
    case True
    have u: "unat (b - ?e) = unat b - unat ?e" using True by (simp add: unat_sub less_imp_le)
    have g: "0 < unat (b - ?e)" "unat (from + len) + unat (b - ?e) \<le> unat b + 1" "a \<le> from + len"
      using True len(1,2) unfolding u uf ue word_less_nat_alt word_le_nat_alt by linarith+
    have "?e < from + len" using len(1) unfolding word_less_nat_alt uf ue by linarith
    then have "apart (from + len, b) p" if "p \<in> P2" for p
      using that below [of p] ef(1) by (auto simp: apart_def P2_def split: if_splits)
    moreover have "from + len + (b - ?e) - 1 = b" by simp
    ultimately show ?thesis using add_piece [of S2 sp "slotsOf S" P2 "(a, b)" "b - ?e" "from + len"] 2 ap len(4) g True
      by (simp add: S3_def ac_simps)
  qed (use 2 in \<open>auto simp: S3_def ac_simps\<close>)
  have "splitSlot S len from split a b = Inr S3"
    using assert len(2) by (auto simp: splitSlot_def S1_def S2_def S3_def Let_def)
  moreover have "leftOver (a, b) len from split z" if "z \<in> P1" for z
    using that below [OF that] fb by (auto simp: P1_def leftOver_def split: if_splits)
  moreover have "leftOver (a, b) len from split (from, ?e)" if split using that len(2) ef(2) by (simp add: leftOver_def)
  moreover have "leftOver (a, b) len from split (from + len, b)"
    unfolding leftOver_def fst_conv snd_conv uf using len(2) unfolding word_le_nat_alt uf by simp
  ultimately show ?thesis using 3 by (auto simp: P2_def split: if_splits)
qed

text \<open>The slot, or the open end, an operation of \<open>len\<close> ticks at \<open>from\<close> is taken from.\<close>

definition placed :: "slots \<Rightarrow> u64 \<Rightarrow> u64 \<Rightarrow> u64 \<Rightarrow> u64 \<Rightarrow> bool" where
  "placed S sp len from start \<longleftrightarrow> start \<le> from \<and>
     (start = sp \<or> (\<exists>b. (start, b) \<in> slotsOf S \<and> unat from + unat len \<le> unat b + 1))"

definition window :: "u64 \<Rightarrow> u64 \<Rightarrow> nat set" where
  "window from len = {unat from ..< unat from + unat len}"

definition taken :: "slots \<Rightarrow> u64 \<Rightarrow> u64 \<Rightarrow> u64 \<Rightarrow> bool \<Rightarrow> slots \<Rightarrow> u64 \<Rightarrow> bool" where
  "taken S sp len from split S' sp' \<longleftrightarrow> cal_inv S' sp' \<and> sp \<le> sp' \<and> unat sp' \<le> max (unat sp) (unat from + unat len) \<and>
     (\<forall>t. freeAt S' sp' t \<longrightarrow> freeAt S sp t \<and> (split \<or> t \<notin> window from len))"

lemma insert_tail:
  assumes inv: "cal_inv S sp" and len: "0 < unat len" "unat from + unat len < 2 ^ 64" "sp \<le> from"
  shows "\<exists>S' sp'. InsertFreeSlot S len from sp sp split = Inr (S', sp') \<and> taken S sp len from split S' sp'"
proof -
  note D = cal_invD [OF inv]
  let ?e = "from + len - 1" and ?sp' = "from + len"
  have uf: "unat ?sp' = unat from + unat len" using len(2) by (simp add: unat_plus_if_size word_size)
  have ue: "unat ?e = unat from + unat len - 1" using unat_end [OF len(1), of "from"] len(2) by (simp add: ac_simps)
  have sp': "sp \<le> ?sp'" "from \<le> ?e" "?e < ?sp'" using len(1,3) unfolding word_le_nat_alt word_less_nat_alt uf ue by linarith+
  have ap: "apart (sp, ?e) y" if "y \<in> slotsOf S" for y using D(6) [OF that] by (simp add: apart_def)
  have inv': "cal_inv S ?sp'" by (rule cal_inv_mono [OF inv sp'(1)])
  define S1 where "S1 = (if split then AddFreeSlot S len from else S)"
  define P1 where "P1 = (if split then {(from, ?e)} else {})"
  have 1: "cal_inv S1 ?sp' \<and> slotsOf S1 \<subseteq> slotsOf S \<union> P1"
    using add_piece [OF inv', where R = "slotsOf S" and P = "{}" and x = "(sp, ?e)" and a = "from" and len = len] ap len sp' inv' ue
    by (simp add: S1_def P1_def)
  define S2 where "S2 = (if from = sp then S1 else AddFreeSlot S1 (from - sp) sp)"
  define P2 where "P2 = (if from = sp then P1 else insert (sp, from - 1) P1)"
  have 2: "cal_inv S2 ?sp' \<and> slotsOf S2 \<subseteq> slotsOf S \<union> P2"
  proof (cases "from = sp")
    case False
    then have lt: "sp < from" using len(3) by simp
    have u: "unat (from - sp) = unat from - unat sp" using len(3) by (simp add: unat_sub)
    have g: "0 < unat (from - sp)" "unat sp + unat (from - sp) \<le> unat ?e + 1" using lt len(1) unfolding u ue word_less_nat_alt by linarith+
    have "from - 1 < from" using lt by (rule pred_less)
    then have "apart (sp, sp + (from - sp) - 1) p" if "p \<in> P1" for p using that by (auto simp: apart_def P1_def split: if_splits)
    moreover have "sp + (from - sp) - 1 = from - 1" by simp
    ultimately show ?thesis using add_piece [of S1 ?sp' "slotsOf S" P1 "(sp, ?e)" "from - sp" sp] 1 ap g sp' False
      by (simp add: S2_def P2_def)
  qed (use 1 in \<open>simp add: S2_def P2_def\<close>)
  have "InsertFreeSlot S len from sp sp split = Inr (S2, ?sp')"
    using len(3) by (auto simp: InsertFreeSlot_def S1_def S2_def Let_def)
  moreover have "freeAt S sp t \<and> (split \<or> t \<notin> window from len)" if t: "freeAt S2 ?sp' t" for t
  proof -
    consider x where "x \<in> slotsOf S" "unat (fst x) \<le> t" "t \<le> unat (snd x)" | x where "x \<in> P2" "unat (fst x) \<le> t" "t \<le> unat (snd x)" | "unat ?sp' \<le> t"
      using t 2 unfolding freeAt_def by blast
    then show ?thesis
    proof cases
      case 1
      then show ?thesis using D(6) [OF 1(1)] len(3) by (auto simp: freeAt_def window_def word_less_nat_alt word_le_nat_alt)
    next
      case 2
      have "sp \<le> fst x \<and> (split \<or> sp < from \<and> snd x = from - 1)" using 2(1) len(3) by (auto simp: P2_def P1_def split: if_splits)
      then show ?thesis using 2(2,3) unat_pred [of sp "from"] by (auto simp: freeAt_def window_def word_le_nat_alt word_less_nat_alt)
    next
      case 3
      then show ?thesis using len(3) by (simp add: freeAt_def window_def uf word_le_nat_alt)
    qed
  qed
  ultimately show ?thesis using 2 sp' by (auto simp: taken_def uf)
qed

lemma slotsOf_remove:
  assumes inv: "cal_inv S sp" and e: "e \<in> set S" "x \<in> set (snd e)"
  shows "slotsOf (omPut (fst e) (omErase (fst x) (snd e)) S) = slotsOf S - {x}" "cal_inv (omPut (fst e) (omErase (fst x) (snd e)) S) sp"
proof -
  note D = cal_invD [OF inv]
  let ?m = "omErase (fst x) (snd e)"
  have inS: "y \<in> slotsOf S" if "f \<in> set S" "y \<in> set (snd f)" for f y using that by (auto simp: slotsOf_def)
  have uniq: "y = x" if "y \<in> slotsOf S" "fst y = fst x" for y
    using D(7) [OF that(1) inS [OF e]] D(5) [OF that(1)] D(5) [OF inS [OF e]] that(2) unfolding apart_def by (cases "y = x") auto
  have other: "x \<notin> set (snd f)" if f: "f \<in> set S" "f \<noteq> e" for f
  proof
    assume x: "x \<in> set (snd f)"
    have b: "bucketFor S (fst e) (slotLength x)" "bucketFor S (fst f) (slotLength x)" using D(4) e f(1) x by blast+
    then have "fst f = fst e" using e(1) f(1) by (auto simp: bucketFor_def intro!: order_antisym)
    then show False using om_wf_distinct [OF D(1)] f e(1) eq_key_imp_eq_value [of S "fst e" "snd e" "snd f"] by (metis prod.collapse)
  qed
  have km: "(fst e, snd e) \<in> set S" using e(1) by simp
  have m: "set ?m = set (snd e) - {x}" using uniq inS [OF e(1)] by force
  show "slotsOf (omPut (fst e) ?m S) = slotsOf S - {x}"
    unfolding slotsOf_omPut [OF D(1) km] m using other e(1) by (auto simp: slotsOf_def)
  show "cal_inv (omPut (fst e) ?m S) sp"
    by (rule cal_inv_replace [OF inv km]) (use D(3) [OF e(1)] m in auto)
qed

lemma insert_slot:
  assumes inv: "cal_inv S sp" and x: "(start, b) \<in> slotsOf S" and len: "0 < unat len" "start \<le> from" "unat from + unat len \<le> unat b + 1"
  shows "\<exists>S' sp'. InsertFreeSlot S len from start sp split = Inr (S', sp') \<and> taken S sp len from split S' sp'"
proof -
  note D = cal_invD [OF inv]
  obtain e0 where e0: "e0 \<in> set S" "(start, b) \<in> set (snd e0)" using x unfolding slotsOf_def by blast
  have uniq: "c = b" if "(start, c) \<in> slotsOf S" for c
    using D(7) [OF that x] D(5) [OF that] D(5) [OF x] unfolding apart_def by (cases "c = b") auto
  have nsp: "start \<noteq> sp" using D(5,6) [OF x] by auto
  have "unat len \<le> slotLength (start, b)" using len(2,3) unfolding slotLength_def word_le_nat_alt by simp
  then have v: "e0 \<in> set (visited S len)" by (rule visited_complete [OF D(1) e0(1) D(4) [OF e0]])
  obtain e where e: "List.find (\<lambda>e. map_of (snd e) start \<noteq> None) (visited S len) = Some e" "e \<in> set (visited S len)" "map_of (snd e) start \<noteq> None"
  proof (cases "List.find (\<lambda>e. map_of (snd e) start \<noteq> None) (visited S len)")
    case None
    moreover have "map_of (snd e0) start = Some b" using e0(2) om_wf_lookup [OF D(3) [OF e0(1)]] by blast
    ultimately show ?thesis using v unfolding find_None_iff by (metis option.distinct(1))
  next
    case (Some e)
    then show ?thesis using that [of e] by (auto simp: find_Some_iff)
  qed
  have eS: "e \<in> set S" using e(2) visited_subset [OF D(1)] by auto
  then obtain c where c: "map_of (snd e) start = Some c" using e(3) by auto
  then have cin: "(start, c) \<in> set (snd e)" by (rule map_of_SomeD)
  then have cb: "c = b" using uniq eS unfolding slotsOf_def by blast
  let ?S = "omPut (fst e) (omErase start (snd e)) S"
  have rm: "slotsOf ?S = slotsOf S - {(start, b)}" "cal_inv ?S sp" using slotsOf_remove [OF inv eS cin] by (simp_all add: cb)
  have "\<exists>S'. splitSlot ?S len from split start b = Inr S' \<and> cal_inv S' sp \<and> (\<forall>z\<in>slotsOf S'. z \<in> slotsOf ?S \<or> leftOver (start, b) len from split z)"
    by (rule splitSlot_correct [OF rm(2)]) (use rm(1) D(6,7) x len in auto)
  then obtain S' where S': "splitSlot ?S len from split start b = Inr S'" "cal_inv S' sp"
    "\<And>z. z \<in> slotsOf S' \<Longrightarrow> z \<in> slotsOf S - {(start, b)} \<or> leftOver (start, b) len from split z" unfolding rm(1) by blast
  have "InsertFreeSlot S len from start sp split = Inr (S', sp)"
    using nsp e(1) c cb S'(1) by (simp add: InsertFreeSlot_def)
  moreover have "freeAt S sp t \<and> (split \<or> t \<notin> window from len)" if t: "freeAt S' sp t" for t
  proof -
    have bsp: "unat b < unat sp" "unat start \<le> unat from" using D(6) [OF x] len(2) by (simp_all add: word_less_nat_alt word_le_nat_alt)
    consider z where "z \<in> slotsOf S - {(start, b)}" "unat (fst z) \<le> t" "t \<le> unat (snd z)"
      | z where "leftOver (start, b) len from split z" "unat (fst z) \<le> t" "t \<le> unat (snd z)" | "unat sp \<le> t"
      using t S'(3) unfolding freeAt_def by blast
    then show ?thesis
    proof cases
      case 1
      then have "apart z (start, b)" using D(7) [OF _ x] by blast
      then have "t \<notin> window from len" using 1 bsp len(3) by (auto simp: apart_def window_def word_less_nat_alt)
      then show ?thesis using 1 by (auto simp: freeAt_def)
    next
      case 2
      then have "unat start \<le> t" "t \<le> unat b" "split \<or> t \<notin> window from len"
        by (auto simp: leftOver_def window_def word_less_nat_alt word_le_nat_alt)
      then show ?thesis using x by (auto simp: freeAt_def intro!: bexI [of _ "(start, b)"])
    next
      case 3
      then show ?thesis using bsp len(3) by (auto simp: freeAt_def window_def)
    qed
  qed
  ultimately show ?thesis using S'(2) by (auto simp: taken_def)
qed

lemma InsertFreeSlot_taken:
  assumes "cal_inv S sp" "0 < unat len" "unat from + unat len < 2 ^ 64" "placed S sp len from start"
  shows "\<exists>S' sp'. InsertFreeSlot S len from start sp split = Inr (S', sp') \<and> taken S sp len from split S' sp'"
  using assms insert_tail [OF assms(1-3)] insert_slot [OF assms(1) _ assms(2)] by (auto simp: placed_def)

end
