(* ===== verification/PAL2_Inv.thy ===== *)
theory PAL2_Inv
  imports PAL2 Timeline_Inv
begin

text \<open>
  Scheduling on the flash timeline: the search as a monotone function, the end of its two loops
  within the number of free slots, and what a command books on its channel and its die.
\<close>

section \<open>The search as a function\<close>

definition nextSlot :: "slots \<Rightarrow> u64 \<Rightarrow> u64 \<Rightarrow> u64 \<Rightarrow> u64" where
  "nextSlot S sp len from = (case FindFreeTime S len from of Inr (Some t, _) \<Rightarrow> t | _ \<Rightarrow> sp)"

definition okLen :: "u64 \<Rightarrow> u64 \<Rightarrow> u64 \<Rightarrow> bool" where
  "okLen sp len from \<longleftrightarrow> 0 < unat len \<and> unat from + unat len \<le> 2 ^ 64 \<and> unat sp + unat len \<le> 2 ^ 64"

text \<open>The start of the slot the search finds, or of the open end.\<close>

lemma nextSlot_cases:
  assumes "cal_inv S sp" "okLen sp len from"
  obtains (slot) x where "x \<in> slotsOf S" "fst x = nextSlot S sp len from" "fits len from x"
      "\<And>y. y \<in> slotsOf S \<Longrightarrow> fits len from y \<Longrightarrow> nextSlot S sp len from \<le> fst y"
    | (tail) "nextSlot S sp len from = sp" "\<And>y. y \<in> slotsOf S \<Longrightarrow> \<not> fits len from y"
proof -
  obtain r c where "FindFreeTime S len from = Inr (r, c)" "earliest S len from r c"
    using FindFreeTime_earliest [OF assms(1)] assms(2) unfolding okLen_def by blast
  then show ?thesis using that by (cases r) (auto simp: nextSlot_def earliest_def)
qed

lemma seekSlot_next:
  assumes "cal_inv S sp" "okLen sp len from"
  shows "\<exists>c. seekSlot S sp len from = Inr (max from (nextSlot S sp len from), nextSlot S sp len from, c)"
    "\<exists>c. verifySlot S sp len from = Inr (nextSlot S sp len from, c)"
proof -
  obtain r c where r: "FindFreeTime S len from = Inr (r, c)" "earliest S len from r c"
    using FindFreeTime_earliest [OF assms(1)] assms(2) unfolding okLen_def by blast
  show "\<exists>c. seekSlot S sp len from = Inr (max from (nextSlot S sp len from), nextSlot S sp len from, c)"
    using r by (cases r) (auto simp: seekSlot_def nextSlot_def earliest_def max_def)
  show "\<exists>c. verifySlot S sp len from = Inr (nextSlot S sp len from, c)"
    using r by (cases r) (auto simp: verifySlot_def nextSlot_def)
qed

definition starts :: "slots \<Rightarrow> u64 \<Rightarrow> u64 set" where
  "starts S sp = insert sp (fst ` slotsOf S)"

lemma nextSlot_starts: "cal_inv S sp \<Longrightarrow> okLen sp len from \<Longrightarrow> nextSlot S sp len from \<in> starts S sp"
  by (erule (1) nextSlot_cases) (simp_all add: starts_def rev_image_eqI)

lemma nextSlot_least: "cal_inv S sp \<Longrightarrow> okLen sp len from \<Longrightarrow> y \<in> slotsOf S \<Longrightarrow> fits len from y \<Longrightarrow> nextSlot S sp len from \<le> fst y"
  by (erule (1) nextSlot_cases) simp_all

lemma starts_le: "cal_inv S sp \<Longrightarrow> u \<in> starts S sp \<Longrightarrow> u \<le> sp"
  unfolding starts_def using cal_invD(5,6) by fastforce

lemma starts_card: "finite (starts S sp)" "card (starts S sp) \<le> slotCount S + 1"
proof -
  have s: "slotsOf S = set (concat (map snd S))" by (auto simp: slotsOf_def)
  show "finite (starts S sp)" by (simp add: starts_def s)
  have "length (concat (map snd S)) = slotCount S" by (simp add: slotCount_def length_concat comp_def)
  then have "card (slotsOf S) \<le> slotCount S" unfolding s using card_length [of "concat (map snd S)"] by simp
  moreover have "card (fst ` slotsOf S) \<le> card (slotsOf S)" unfolding s by (rule card_image_le) (rule finite_set)
  moreover have "card (insert sp (fst ` slotsOf S)) \<le> Suc (card (fst ` slotsOf S))"
    unfolding s by (subst card_insert_if) (simp_all only: finite_set finite_imageI le_Suc_eq split: if_split, simp)
  ultimately show "card (starts S sp) \<le> slotCount S + 1" unfolding starts_def by linarith
qed

lemma nextSlot_placed:
  assumes "cal_inv S sp" "okLen sp len from"
  shows "placed S sp len (max from (nextSlot S sp len from)) (nextSlot S sp len from)"
  using assms
proof (cases rule: nextSlot_cases)
  case (slot x)
  then show ?thesis by (cases x) (auto simp: placed_def fits_def max.commute)
next
  case tail
  then show ?thesis by (simp add: placed_def)
qed

lemma fits_antimono:
  assumes "fits len' from' x" "unat len \<le> unat len'" "from \<le> from'"
  shows "fits len from x"
proof -
  have "unat (max (fst x) from) \<le> unat (max (fst x) from')" using assms(3) by (auto simp: word_le_nat_alt [symmetric] max_def)
  then show ?thesis using assms(1,2) unfolding fits_def by linarith
qed

lemma nextSlot_mono:
  assumes "cal_inv S sp" "okLen sp len from" "okLen sp len' from'" "unat len \<le> unat len'" "from \<le> from'"
  shows "nextSlot S sp len from \<le> nextSlot S sp len' from'"
  using assms(1,3)
proof (cases rule: nextSlot_cases)
  case x: (slot x)
  have "fits len from x" by (rule fits_antimono [OF x(3) assms(4,5)])
  then show ?thesis using nextSlot_least [OF assms(1,2) x(1)] x(2) by simp
next
  case tail
  then show ?thesis using starts_le [OF assms(1) nextSlot_starts [OF assms(1,2)]] by simp
qed

lemma nextSlot_idem:
  assumes "cal_inv S sp" "okLen sp len from" "okLen sp len (max from (nextSlot S sp len from))"
  shows "nextSlot S sp len (max from (nextSlot S sp len from)) = nextSlot S sp len from"
proof (rule order_antisym)
  let ?n = "nextSlot S sp len from"
  show "?n \<le> nextSlot S sp len (max from ?n)" by (rule nextSlot_mono [OF assms]) simp_all
  show "nextSlot S sp len (max from ?n) \<le> ?n"
    using assms(1,2)
  proof (cases rule: nextSlot_cases)
    case x: (slot x)
    have f: "fits len (max from ?n) x" using x(2,3) by (simp add: fits_def max.commute max.left_commute)
    then show ?thesis using nextSlot_least [OF assms(1,3) x(1)] x(2) by simp
  next
    case tail
    then show ?thesis using starts_le [OF assms(1) nextSlot_starts [OF assms(1,3)]] by simp
  qed
qed

text \<open>A longer operation that does not find the same slot finds one that starts later than \<open>from\<close>.\<close>

lemma nextSlot_longer:
  assumes inv: "cal_inv S sp" and ok: "okLen sp len from" "okLen sp len' from" and le: "unat len \<le> unat len'"
    and ne: "nextSlot S sp len' from \<noteq> nextSlot S sp len from"
  shows "from < nextSlot S sp len' from"
proof (rule ccontr)
  assume "\<not> from < nextSlot S sp len' from"
  then have n: "nextSlot S sp len' from \<le> from" by simp
  have "nextSlot S sp len' from \<le> nextSlot S sp len from"
    using inv ok(2)
  proof (cases rule: nextSlot_cases)
    case x: (slot x)
    have fx: "fits len from x" by (rule fits_antimono [OF x(3) le]) simp
    have xf: "fst x \<le> from" using n x(2) by simp
    have lp: "0 < unat len" using ok(1) by (simp add: okLen_def)
    from inv ok(1) show ?thesis
    proof (cases rule: nextSlot_cases)
      case (slot y)
      then show ?thesis using fits_now_least [OF inv x(1) slot(1) fx slot(3) xf lp] x(2) by simp
    next
      case tail
      then show ?thesis using fx x(1) by simp
    qed
  next
    case tail
    from inv ok(1) show ?thesis
    proof (cases rule: nextSlot_cases)
      case (slot y)
      have "snd y < from" using cal_invD(6) [OF inv slot(1)] n tail(1) by simp
      then have "unat (snd y) + 1 \<le> unat (max (fst y) from)" by (auto simp: word_less_nat_alt max_def word_le_nat_alt)
      then show ?thesis using slot(3) ok(1) unfolding fits_def okLen_def by linarith
    qed (use tail in simp)
  qed
  moreover have "nextSlot S sp len from \<le> nextSlot S sp len' from" by (rule nextSlot_mono [OF inv ok le]) simp
  ultimately show False using ne by simp
qed

section \<open>The loops\<close>

definition latSum :: "flash_demand \<Rightarrow> nat" where
  "latSum D = unat (latDMA0 D) + unat (latMEM D) + unat (latDMA1 D) + 2 * unat (latANTI D)"

text \<open>
  A demand the timeline can serve: both calendars are in order, the transfers take time, and the
  ticks up to \<open>M\<close> and the latencies stay below half of the range of a tick.
\<close>

definition servable :: "nat \<Rightarrow> flash_demand \<Rightarrow> bool" where
  "servable M D \<longleftrightarrow> cal_inv (dmCh D) (dmChStart D) \<and> cal_inv (dmDie D) (dmDieStart D) \<and>
     0 < unat (latDMA0 D) \<and> 0 < unat (latDMA1 D) \<and> 0 < unat (latANTI D) \<and>
     unat (dmChStart D) \<le> M \<and> unat (dmDieStart D) \<le> M \<and> M + latSum D < 2 ^ 63"

lemma unat_sum: "unat (a :: u64) + unat b < 2 ^ 64 \<Longrightarrow> unat (a + b) = unat a + unat b"
  by (simp add: unat_plus_if_size word_size)

lemma servable_lengths:
  assumes "servable M D"
  shows "unat (latDMA0 D + latMEM D) = unat (latDMA0 D) + unat (latMEM D)" "unat (latDMA1 D + latANTI D) = unat (latDMA1 D) + unat (latANTI D)"
    "unat (latANTI D * 2) = unat (latANTI D) * 2"
proof -
  have "latSum D < 2 ^ 63" using assms by (simp add: servable_def)
  then show "unat (latDMA0 D + latMEM D) = unat (latDMA0 D) + unat (latMEM D)" "unat (latDMA1 D + latANTI D) = unat (latDMA1 D) + unat (latANTI D)"
    by (simp_all add: unat_sum latSum_def)
  have "unat (latANTI D + latANTI D) = unat (latANTI D) + unat (latANTI D)"
    by (rule unat_sum) (use \<open>latSum D < 2 ^ 63\<close> in \<open>simp add: latSum_def\<close>)
  then show "unat (latANTI D * 2) = unat (latANTI D) * 2" by (simp only: mult_2_right)
qed

lemma servable_okLen:
  assumes "servable M D" "unat from \<le> M"
  shows "okLen (dmChStart D) (latDMA0 D) from" "okLen (dmDieStart D) (latDMA0 D + latMEM D) from"
  using assms unfolding okLen_def servable_lengths [OF assms(1)] by (auto simp: servable_def latSum_def)

lemma unat_max: "unat (max a b :: u64) = max (unat a) (unat b)"
  by (auto simp: max_def word_le_nat_alt)

lemma nextSlot_le:
  assumes "cal_inv S sp" "okLen sp len from"
  shows "unat (nextSlot S sp len from) \<le> unat sp"
  using starts_le [OF assms(1) nextSlot_starts [OF assms]] by (simp add: word_le_nat_alt)

lemma card_later:
  assumes "v \<in> starts S sp" "u < v" shows "card {w \<in> starts S sp. v < w} < card {w \<in> starts S sp. u < w}"
  by (rule psubset_card_mono) (use assms starts_card(1) [of S sp] in auto)

lemma loop1_result:
  assumes sv: "servable M D" and "unat from \<le> M"
    and "card {u \<in> starts (dmCh D) (dmChStart D). nextSlot (dmCh D) (dmChStart D) (latDMA0 D) from < u} < n"
  shows "\<exists>f t0 tm c. loop1 n D from conf = Inr (f, t0, tm, c) \<and> from \<le> f \<and> unat f \<le> M \<and>
    placed (dmCh D) (dmChStart D) (latDMA0 D) f t0 \<and> tm = nextSlot (dmDie D) (dmDieStart D) (latDMA0 D + latMEM D) f \<and> tm \<le> f"
  using assms(2,3)
proof (induction n arbitrary: "from" conf)
  case (Suc n)
  let ?nc = "nextSlot (dmCh D) (dmChStart D) (latDMA0 D)" and ?nd = "nextSlot (dmDie D) (dmDieStart D) (latDMA0 D + latMEM D)"
  have ch: "cal_inv (dmCh D) (dmChStart D)" and die: "cal_inv (dmDie D) (dmDieStart D)"
    and lim: "unat (dmChStart D) \<le> M" "unat (dmDieStart D) \<le> M" using sv by (simp_all add: servable_def)
  note ok = servable_okLen [OF sv]
  define f1 where "f1 = max from (?nc from)"
  define mf where "mf = max f1 (?nd f1)"
  have f1: "unat f1 \<le> M" "from \<le> f1" using Suc.prems(1) lim(1) nextSlot_le [OF ch ok(1) [OF Suc.prems(1)]] by (simp_all add: f1_def unat_max)
  have mf: "unat mf \<le> M" "f1 \<le> mf" using f1 lim(2) nextSlot_le [OF die ok(2) [OF f1(1)]] by (simp_all add: mf_def unat_max)
  have p1: "placed (dmCh D) (dmChStart D) (latDMA0 D) f1 (?nc from)" unfolding f1_def by (rule nextSlot_placed [OF ch ok(1) [OF Suc.prems(1)]])
  have nd: "?nd mf = ?nd f1" unfolding mf_def by (rule nextSlot_idem [OF die ok(2) [OF f1(1)]]) (use mf ok(2) in \<open>simp add: mf_def\<close>)
  obtain c1 where s1: "seekSlot (dmCh D) (dmChStart D) (latDMA0 D) from = Inr (f1, ?nc from, c1)"
    using seekSlot_next(1) [OF ch ok(1) [OF Suc.prems(1)]] by (auto simp: f1_def)
  obtain c2 where s2: "seekSlot (dmDie D) (dmDieStart D) (latDMA0 D + latMEM D) f1 = Inr (mf, ?nd f1, c2)"
    using seekSlot_next(1) [OF die ok(2) [OF f1(1)]] by (auto simp: mf_def)
  obtain c3 where s3: "verifySlot (dmCh D) (dmChStart D) (latDMA0 D) mf = Inr (?nc mf, c3)"
    using seekSlot_next(2) [OF ch ok(1) [OF mf(1)]] by auto
  let ?conf = "if c1 \<and> conf AND CONFLICT_MEM = 0 then conf OR CONFLICT_DMA0 else conf"
  consider "?nd f1 = ?nc from" | "?nd f1 \<noteq> ?nc from" "?nc mf = ?nc from" | "?nd f1 \<noteq> ?nc from" "?nc mf \<noteq> ?nc from" by blast
  then show ?case
  proof cases
    case 1
    then have "loop1 (Suc n) D from conf = Inr (f1, ?nc from, ?nd f1, ?conf)" by (simp add: s1 s2)
    moreover have "?nd f1 \<le> f1" using p1 1 by (simp add: placed_def)
    ultimately show ?thesis using f1 p1 by blast
  next
    case 2
    then have "loop1 (Suc n) D from conf = Inr (mf, ?nc from, ?nd f1, ?conf)" by (simp add: s1 s2 s3)
    moreover have "?nc from \<le> mf" using p1 mf(2) unfolding placed_def by (meson order_trans)
    then have "placed (dmCh D) (dmChStart D) (latDMA0 D) mf (?nc from)"
      using nextSlot_placed [OF ch ok(1) [OF mf(1)]] unfolding 2(2) by (simp add: max_absorb1)
    moreover have "?nd f1 \<le> mf" by (simp add: mf_def)
    moreover have "from \<le> mf" using f1(2) mf(2) by (rule order_trans)
    ultimately show ?thesis using mf(1) nd by simp
  next
    case 3
    have "?nc from \<le> ?nc mf" by (rule nextSlot_mono [OF ch ok(1) [OF Suc.prems(1)] ok(1) [OF mf(1)]]) (use f1 mf in auto)
    then have "?nc from < ?nc mf" using 3(2) by simp
    then have "card {u \<in> starts (dmCh D) (dmChStart D). ?nc mf < u} < n"
      using card_later [OF nextSlot_starts [OF ch ok(1) [OF mf(1)]]] Suc.prems(2) by fastforce
    from Suc.IH [OF mf(1) this] show ?thesis using 3 f1 mf by (fastforce simp: s1 s2 s3 Let_def)
  qed
qed simp

definition placement_ok :: "nat \<Rightarrow> flash_demand \<Rightarrow> u64 \<Rightarrow> placement \<Rightarrow> bool" where
  "placement_ok M D from p \<longleftrightarrow> from \<le> plDMA0 p \<and> unat (plDMA0 p) \<le> M \<and>
     placed (dmCh D) (dmChStart D) (latDMA0 D) (plDMA0 p) (plTickDMA0 p) \<and>
     placed (dmDie D) (dmDieStart D) (plTotal p) (plDMA0 p) (plTickMEM p) \<and>
     unat (plDMA0 p) + unat (latDMA0 D) + unat (latMEM D) \<le> unat (plDMA1 p) \<and> unat (plDMA1 p) \<le> M + unat (latDMA0 D) + unat (latMEM D) \<and>
     unat (plDMA0 p) + unat (plTotal p) = unat (plDMA1 p) + unat (latDMA1 D) + unat (latANTI D)"

lemma loop1_enough:
  assumes "servable M D" "unat from \<le> M" "loopBound (dmCh D) \<le> m"
  shows "\<exists>f t0 tm c. loop1 m D from conf = Inr (f, t0, tm, c) \<and> from \<le> f \<and> unat f \<le> M \<and>
    placed (dmCh D) (dmChStart D) (latDMA0 D) f t0 \<and> tm = nextSlot (dmDie D) (dmDieStart D) (latDMA0 D + latMEM D) f \<and> tm \<le> f"
proof (rule loop1_result [OF assms(1,2)])
  have "card {u \<in> starts (dmCh D) (dmChStart D). nextSlot (dmCh D) (dmChStart D) (latDMA0 D) from < u} \<le> card (starts (dmCh D) (dmChStart D))"
    by (rule card_mono) (auto simp: starts_card)
  then show "card {u \<in> starts (dmCh D) (dmChStart D). nextSlot (dmCh D) (dmChStart D) (latDMA0 D) from < u} < m"
    using starts_card(2) [of "dmCh D" "dmChStart D"] assms(3) unfolding loopBound_def by linarith
qed

lemma loop0_result:
  assumes sv: "servable M D" and m: "loopBound (dmCh D) \<le> m"
    and "unat from \<le> M" "card {u \<in> starts (dmDie D) (dmDieStart D). from < u} < n"
  shows "\<exists>p. loop0 n m D from conf = Inr p \<and> placement_ok M D from p"
  using assms(3,4)
proof (induction n arbitrary: "from" conf)
  case (Suc n)
  let ?S = "dmDie D" and ?sp = "dmDieStart D" and ?l = "latDMA0 D + latMEM D" and ?l1 = "latDMA1 D + latANTI D"
  have ch: "cal_inv (dmCh D) (dmChStart D)" and die: "cal_inv ?S ?sp" and lim: "unat (dmChStart D) \<le> M" "unat ?sp \<le> M" "M + latSum D < 2 ^ 63"
    and pos: "0 < unat (latDMA0 D)" "0 < unat (latDMA1 D)" using sv by (simp_all add: servable_def)
  obtain f t0 tm c where l1: "loop1 m D from conf = Inr (f, t0, tm, c)" and f: "from \<le> f" "unat f \<le> M"
    and p0: "placed (dmCh D) (dmChStart D) (latDMA0 D) f t0" and tm: "tm = nextSlot ?S ?sp ?l f" "tm \<le> f"
    using loop1_enough [OF sv Suc.prems(1) m] by blast
  note len = servable_lengths [OF sv]
  have e0: "unat (f + ?l) = unat f + unat (latDMA0 D) + unat (latMEM D)" using f lim(3) len(1) by (simp add: unat_sum latSum_def)
  define d1 where "d1 = max (f + ?l) (nextSlot (dmCh D) (dmChStart D) ?l1 (f + ?l))"
  have ok1: "okLen (dmChStart D) ?l1 (f + ?l)" using f lim pos unfolding okLen_def e0 len latSum_def by simp
  obtain t1 c1 where s1: "seekSlot (dmCh D) (dmChStart D) ?l1 (f + ?l) = Inr (d1, t1, c1)"
    using seekSlot_next(1) [OF ch ok1] by (auto simp: d1_def)
  have d1: "unat f + unat (latDMA0 D) + unat (latMEM D) \<le> unat d1" "unat d1 \<le> M + unat (latDMA0 D) + unat (latMEM D)"
    using nextSlot_le [OF ch ok1] lim(1) f(2) by (simp_all add: d1_def unat_max e0)
  define total where "total = (d1 + latDMA1 D + latANTI D) - f"
  have e1: "unat (d1 + latDMA1 D) = unat d1 + unat (latDMA1 D)" by (rule unat_sum) (use d1 lim(3) in \<open>simp add: latSum_def\<close>)
  have e2: "unat (d1 + latDMA1 D + latANTI D) = unat d1 + unat (latDMA1 D) + unat (latANTI D)"
    using unat_sum [of "d1 + latDMA1 D" "latANTI D"] e1 d1 lim(3) by (simp add: latSum_def)
  then have tot: "unat f + unat total = unat d1 + unat (latDMA1 D) + unat (latANTI D)"
    using d1(1) unfolding total_def by (subst unat_sub) (simp_all add: word_le_nat_alt)
  have okt: "okLen ?sp total f" using tot d1 lim pos unfolding okLen_def latSum_def by simp
  have okl: "okLen ?sp ?l f" by (rule servable_okLen(2) [OF sv f(2)])
  have le: "unat ?l \<le> unat total" using tot d1(1) unfolding len by linarith
  let ?v = "nextSlot ?S ?sp total f"
  obtain c2 where s2: "verifySlot ?S ?sp total f = Inr (?v, c2)" using seekSlot_next(2) [OF die okt] by auto
  show ?case
  proof (cases "?v = tm")
    case True
    let ?p = "\<lparr>plDMA0 = f, plTickDMA0 = t0, plTickMEM = tm, plDMA1 = d1, plTotal = total, plConf = c\<rparr>"
    have "loop0 (Suc n) m D from conf = Inr ?p" using True by (simp add: l1 s1 s2 total_def [symmetric])
    moreover have "placed ?S ?sp total f tm" using nextSlot_placed [OF die okt] tm(2) unfolding True by (simp add: max_absorb1)
    ultimately show ?thesis using f p0 d1 tot by (simp add: placement_ok_def)
  next
    case False
    have v: "f < ?v" using nextSlot_longer [OF die okl okt le] False tm(1) by simp
    then have "from < ?v" using f(1) by simp
    then have "card {u \<in> starts ?S ?sp. ?v < u} < n" using card_later [OF nextSlot_starts [OF die okt]] Suc.prems(2) by fastforce
    moreover have "unat ?v \<le> M" using nextSlot_le [OF die okt] lim(2) by simp
    ultimately obtain p where "loop0 n m D ?v (c OR CONFLICT_DMA1) = Inr p" "placement_ok M D ?v p" using Suc.IH by blast
    then show ?thesis using False \<open>from < ?v\<close> by (auto simp: l1 s1 s2 total_def [symmetric] placement_ok_def)
  qed
qed simp

lemma loop0_enough:
  assumes "servable M D" "unat from \<le> M"
  shows "\<exists>p. loop0 (loopBound (dmDie D)) (loopBound (dmCh D)) D from conf = Inr p \<and> placement_ok M D from p"
proof (rule loop0_result [OF assms(1) order_refl assms(2)])
  have "card {u \<in> starts (dmDie D) (dmDieStart D). from < u} \<le> card (starts (dmDie D) (dmDieStart D))"
    by (rule card_mono) (auto simp: starts_card)
  then show "card {u \<in> starts (dmDie D) (dmDieStart D). from < u} < loopBound (dmDie D)"
    using starts_card(2) [of "dmDie D" "dmDieStart D"] unfolding loopBound_def by linarith
qed

section \<open>Booking\<close>

lemma placed_free: "placed S sp len from start \<Longrightarrow> t \<in> window from len \<Longrightarrow> freeAt S sp t"
  by (force simp: placed_def window_def freeAt_def word_le_nat_alt)

lemma takenD:
  assumes "taken S sp len from split S' sp'"
  shows "cal_inv S' sp'" "unat sp' \<le> max (unat sp) (unat from + unat len)" "\<And>t. freeAt S' sp' t \<Longrightarrow> freeAt S sp t"
    "\<And>t. \<not> split \<Longrightarrow> freeAt S' sp' t \<Longrightarrow> t \<notin> window from len"
  using assms by (auto simp: taken_def)

definition ticksOf :: "timeslot \<Rightarrow> nat set" where
  "ticksOf ts = {unat (StartTick ts)..unat (EndTick ts)}"

lemma ticksOf_TimeSlot:
  assumes "0 < unat len" "unat from + unat len < 2 ^ 64"
  shows "ticksOf (TimeSlot from len) = window from len" "StartTick (TimeSlot from len) = from"
    "unat (EndTick (TimeSlot from len)) = unat from + unat len - 1"
  using unat_end [OF assms(1), of "from"] assms by (auto simp: ticksOf_def TimeSlot_def window_def ac_simps)

definition booking_ok :: "nat \<Rightarrow> flash_demand \<Rightarrow> u64 \<Rightarrow> booking \<Rightarrow> bool" where
  "booking_ok M D from b \<longleftrightarrow>
     cal_inv (bkCh b) (bkChStart b) \<and> cal_inv (bkDie b) (bkDieStart b) \<and>
     unat (bkChStart b) \<le> M + latSum D \<and> unat (bkDieStart b) \<le> M + latSum D \<and>
     from \<le> StartTick (tsDMA0 b) \<and> unat (EndTick (tsDMA0 b)) + 1 = unat (StartTick (tsDMA0 b)) + unat (latDMA0 D) \<and>
     unat (EndTick (tsDMA0 b)) + unat (latMEM D) < unat (StartTick (tsDMA1 b)) \<and>
     unat (EndTick (tsDMA1 b)) + 1 = unat (StartTick (tsDMA1 b)) + unat (latDMA1 D) \<and>
     StartTick (tsMEM b) = StartTick (tsDMA0 b) \<and>
     unat (StartTick (tsMEM b)) + unat (latDMA0 D) + unat (latMEM D) + unat (latDMA1 D) + unat (latANTI D) \<le> unat (EndTick (tsMEM b)) + 1 \<and>
     (\<forall>t\<in>ticksOf (tsDMA0 b) \<union> ticksOf (tsDMA1 b). freeAt (dmCh D) (dmChStart D) t) \<and>
     (\<forall>t. freeAt (bkCh b) (bkChStart b) t \<longrightarrow> freeAt (dmCh D) (dmChStart D) t \<and> t \<notin> ticksOf (tsDMA0 b) \<union> ticksOf (tsDMA1 b)) \<and>
     (\<forall>t\<in>ticksOf (tsMEM b). freeAt (dmDie D) (dmDieStart D) t) \<and>
     (\<forall>t. freeAt (bkDie b) (bkDieStart b) t \<longrightarrow> freeAt (dmDie D) (dmDieStart D) t \<and> t \<notin> ticksOf (tsMEM b))"

text \<open>The channel: both transfers, and a slot set apart behind the first one for the next command.\<close>

lemma book_channel:
  assumes sv: "servable M D" and p: "placement_ok M D from p"
  obtains ch1 sp1 g t1 c1 ch2 sp2 where
    "InsertFreeSlot (dmCh D) (latDMA0 D) (plDMA0 p) (plTickDMA0 p) (dmChStart D) False = Inr (ch1, sp1)"
    "seekSlot ch1 sp1 (latDMA1 D + latANTI D) (plDMA1 p) = Inr (g, t1, c1)" "t1 \<le> g" "plDMA1 p \<le> g"
    "unat g \<le> M + unat (latDMA0 D) + unat (latMEM D)"
    "InsertFreeSlot ch1 (latDMA1 D) (g + latANTI D) t1 sp1 False = Inr (ch2, sp2)"
    "cal_inv ch2 sp2" "unat sp2 \<le> M + latSum D - unat (latANTI D)"
    "\<And>t. freeAt ch2 sp2 t \<Longrightarrow> freeAt (dmCh D) (dmChStart D) t \<and> t \<notin> window (plDMA0 p) (latDMA0 D) \<and> t \<notin> window (g + latANTI D) (latDMA1 D)"
    "\<And>t. t \<in> window (plDMA0 p) (latDMA0 D) \<union> window (g + latANTI D) (latDMA1 D) \<Longrightarrow> freeAt (dmCh D) (dmChStart D) t"
proof -
  have ch: "cal_inv (dmCh D) (dmChStart D)" and lim: "unat (dmChStart D) \<le> M" "M + latSum D < 2 ^ 63"
    and pos: "0 < unat (latDMA0 D)" "0 < unat (latDMA1 D)" using sv by (simp_all add: servable_def)
  have f: "unat (plDMA0 p) \<le> M" and p0: "placed (dmCh D) (dmChStart D) (latDMA0 D) (plDMA0 p) (plTickDMA0 p)"
    and d1: "unat (plDMA1 p) \<le> M + unat (latDMA0 D) + unat (latMEM D)" using p by (simp_all add: placement_ok_def)
  have "unat (plDMA0 p) + unat (latDMA0 D) < 2 ^ 64" using f lim by (simp add: latSum_def)
  from InsertFreeSlot_taken [OF ch pos(1) this p0] obtain ch1 sp1 where i1:
    "InsertFreeSlot (dmCh D) (latDMA0 D) (plDMA0 p) (plTickDMA0 p) (dmChStart D) False = Inr (ch1, sp1)"
    "taken (dmCh D) (dmChStart D) (latDMA0 D) (plDMA0 p) False ch1 sp1" by blast
  note t1 = takenD [OF i1(2)]
  have sp1: "unat sp1 \<le> M + unat (latDMA0 D)" using t1(2) lim f by simp
  note len = servable_lengths [OF sv]
  have ok: "okLen sp1 (latDMA1 D + latANTI D) (plDMA1 p)" using d1 lim sp1 pos unfolding okLen_def len latSum_def by simp
  define tk where "tk = nextSlot ch1 sp1 (latDMA1 D + latANTI D) (plDMA1 p)"
  define g where "g = max (plDMA1 p) tk"
  obtain c1 where s1: "seekSlot ch1 sp1 (latDMA1 D + latANTI D) (plDMA1 p) = Inr (g, tk, c1)"
    using seekSlot_next(1) [OF t1(1) ok] by (auto simp: g_def tk_def)
  have pl: "placed ch1 sp1 (latDMA1 D + latANTI D) g tk" using nextSlot_placed [OF t1(1) ok] by (simp add: g_def tk_def)
  have g: "unat g \<le> M + unat (latDMA0 D) + unat (latMEM D)" using nextSlot_le [OF t1(1) ok] sp1 d1 by (simp add: g_def tk_def [symmetric] unat_max)
  have ga: "unat (g + latANTI D) = unat g + unat (latANTI D)" by (rule unat_sum) (use g lim in \<open>simp add: latSum_def\<close>)
  have lg: "unat (g + latANTI D) + unat (latDMA1 D) < 2 ^ 64" using ga g lim by (simp add: latSum_def)
  have "placed ch1 sp1 (latDMA1 D) (g + latANTI D) tk" using pl ga len(2) unfolding placed_def word_le_nat_alt by (auto simp: ga)
  from InsertFreeSlot_taken [OF t1(1) pos(2) lg this] obtain ch2 sp2 where i2:
    "InsertFreeSlot ch1 (latDMA1 D) (g + latANTI D) tk sp1 False = Inr (ch2, sp2)"
    "taken ch1 sp1 (latDMA1 D) (g + latANTI D) False ch2 sp2" by blast
  note t2 = takenD [OF i2(2)]
  have "unat sp2 \<le> M + latSum D - unat (latANTI D)" using t2(2) sp1 g ga by (simp add: latSum_def)
  moreover have "freeAt (dmCh D) (dmChStart D) t \<and> t \<notin> window (plDMA0 p) (latDMA0 D) \<and> t \<notin> window (g + latANTI D) (latDMA1 D)" if "freeAt ch2 sp2 t" for t
    using t1(3,4) t2(3,4) that by blast
  moreover have "freeAt (dmCh D) (dmChStart D) t" if "t \<in> window (plDMA0 p) (latDMA0 D) \<union> window (g + latANTI D) (latDMA1 D)" for t
    using that placed_free [OF p0] placed_free [OF \<open>placed ch1 sp1 (latDMA1 D) (g + latANTI D) tk\<close>] t1(3) by blast
  ultimately show thesis using that [OF i1(1) s1 _ _ g i2(1) t2(1)] pl by (simp add: g_def placed_def)
qed

lemma book_result:
  assumes sv: "servable M D" and p: "placement_ok M D from p"
  shows "\<exists>b. book D p = Inr b \<and> booking_ok M D from b"
proof -
  obtain ch1 sp1 g t1 c1 ch2 sp2 where
    i1: "InsertFreeSlot (dmCh D) (latDMA0 D) (plDMA0 p) (plTickDMA0 p) (dmChStart D) False = Inr (ch1, sp1)"
    and s1: "seekSlot ch1 sp1 (latDMA1 D + latANTI D) (plDMA1 p) = Inr (g, t1, c1)" and t1g: "t1 \<le> g" and dg: "plDMA1 p \<le> g"
    and g: "unat g \<le> M + unat (latDMA0 D) + unat (latMEM D)"
    and i2: "InsertFreeSlot ch1 (latDMA1 D) (g + latANTI D) t1 sp1 False = Inr (ch2, sp2)"
    and inv2: "cal_inv ch2 sp2" and sp2: "unat sp2 \<le> M + latSum D - unat (latANTI D)"
    and free2: "\<And>t. freeAt ch2 sp2 t \<Longrightarrow> freeAt (dmCh D) (dmChStart D) t \<and> t \<notin> window (plDMA0 p) (latDMA0 D) \<and> t \<notin> window (g + latANTI D) (latDMA1 D)"
    and was: "\<And>t. t \<in> window (plDMA0 p) (latDMA0 D) \<union> window (g + latANTI D) (latDMA1 D) \<Longrightarrow> freeAt (dmCh D) (dmChStart D) t"
    by (rule book_channel [OF sv p]) blast
  let ?f = "plDMA0 p" and ?T = "plTotal p"
  have die: "cal_inv (dmDie D) (dmDieStart D)" and lim: "unat (dmDieStart D) \<le> M" "M + latSum D < 2 ^ 63"
    and pos: "0 < unat (latDMA0 D)" "0 < unat (latDMA1 D)" "0 < unat (latANTI D)" using sv by (simp_all add: servable_def)
  have f: "from \<le> ?f" "unat ?f \<le> M" "plTickDMA0 p \<le> ?f" "plTickMEM p \<le> ?f"
    and pm: "placed (dmDie D) (dmDieStart D) ?T ?f (plTickMEM p)"
    and d1: "unat ?f + unat (latDMA0 D) + unat (latMEM D) \<le> unat (plDMA1 p)" "unat (plDMA1 p) \<le> M + unat (latDMA0 D) + unat (latMEM D)"
    and tot: "unat ?f + unat ?T = unat (plDMA1 p) + unat (latDMA1 D) + unat (latANTI D)" using p unfolding placement_ok_def placed_def by blast+
  have T: "0 < unat ?T" "unat ?f + unat ?T < 2 ^ 64" using tot d1 lim pos by (simp_all add: latSum_def)
  from InsertFreeSlot_taken [OF die T pm] obtain die' dsp where i3:
    "InsertFreeSlot (dmDie D) ?T ?f (plTickMEM p) (dmDieStart D) False = Inr (die', dsp)"
    and "taken (dmDie D) (dmDieStart D) ?T ?f False die' dsp" by blast
  note td = takenD [OF this(2)]
  define nx where "nx = ?f + latDMA0 D"
  have unx: "unat nx = unat ?f + unat (latDMA0 D)" unfolding nx_def by (rule unat_sum) (use f lim in \<open>simp add: latSum_def\<close>)
  note len = servable_lengths [OF sv]
  have ok: "okLen sp2 (latANTI D * 2) nx" using f sp2 lim pos unfolding okLen_def len unx latSum_def by simp
  let ?n = "nextSlot ch2 sp2 (latANTI D * 2) nx"
  obtain c where s2: "seekSlot ch2 sp2 (latANTI D * 2) nx = Inr (max nx ?n, ?n, c)" using seekSlot_next(1) [OF inv2 ok] by auto
  have "\<exists>ch3 sp3. (if max nx ?n = nx then InsertFreeSlot ch2 (latANTI D * 2) (max nx ?n) ?n sp2 True else Inr (ch2, sp2)) = Inr (ch3, sp3) \<and>
    cal_inv ch3 sp3 \<and> unat sp3 \<le> M + latSum D \<and> (\<forall>t. freeAt ch3 sp3 t \<longrightarrow> freeAt ch2 sp2 t)"
  proof (cases "max nx ?n = nx")
    case True
    have "placed ch2 sp2 (latANTI D * 2) nx ?n" using nextSlot_placed [OF inv2 ok] True by simp
    moreover have "0 < unat (latANTI D * 2)" "unat nx + unat (latANTI D * 2) < 2 ^ 64" using pos f lim unfolding len unx latSum_def by simp_all
    ultimately obtain ch3 sp3 where "InsertFreeSlot ch2 (latANTI D * 2) nx ?n sp2 True = Inr (ch3, sp3)" "taken ch2 sp2 (latANTI D * 2) nx True ch3 sp3"
      using InsertFreeSlot_taken [OF inv2] by blast
    then show ?thesis using True takenD [of ch2 sp2 "latANTI D * 2" nx True ch3 sp3] sp2 f unfolding len unx latSum_def by auto
  qed (use inv2 sp2 in auto)
  then obtain ch3 sp3 where i4: "(if max nx ?n = nx then InsertFreeSlot ch2 (latANTI D * 2) (max nx ?n) ?n sp2 True else Inr (ch2, sp2)) = Inr (ch3, sp3)"
    and inv3: "cal_inv ch3 sp3" "unat sp3 \<le> M + latSum D" "\<And>t. freeAt ch3 sp3 t \<Longrightarrow> freeAt ch2 sp2 t" by blast
  define b where "b = \<lparr>bkCh = ch3, bkChStart = sp3, bkDie = die', bkDieStart = dsp, tsDMA0 = TimeSlot ?f (latDMA0 D), tsMEM = TimeSlot ?f ?T,
    tsDMA1 = TimeSlot (g + latANTI D) (latDMA1 D)\<rparr>"
  have sel: "(if g > t1 then g else t1) = g" "(if g < t1 then t1 else g) = g" "(if ?f < plTickDMA0 p then plTickDMA0 p else ?f) = ?f"
    "(if ?f < plTickMEM p then plTickMEM p else ?f) = ?f" "(if ?f > plTickDMA0 p then ?f else plTickDMA0 p) = ?f" using t1g f(3,4) by auto
  have "book D p = Inr b" unfolding book_def sel i1 bindR_Inr prod.case s1 i2 i3 Let_def nx_def [symmetric] s2 i4 b_def ..
  moreover have ga: "unat (g + latANTI D) = unat g + unat (latANTI D)" by (rule unat_sum) (use g lim in \<open>simp add: latSum_def\<close>)
  have "unat ?f + unat (latDMA0 D) < 2 ^ 64" "unat (g + latANTI D) + unat (latDMA1 D) < 2 ^ 64" using f g ga lim by (simp_all add: latSum_def)
  note ts = ticksOf_TimeSlot [OF pos(1) this(1)] ticksOf_TimeSlot [OF pos(2) this(2)] ticksOf_TimeSlot [OF T]
  have "booking_ok M D from b"
    unfolding booking_ok_def b_def booking.simps ts
  proof (intro conjI)
    show "unat dsp \<le> M + latSum D" using td(2) lim tot d1 by (simp add: latSum_def)
    show "unat ?f + unat (latDMA0 D) - 1 + unat (latMEM D) < unat (g + latANTI D)" using ga dg d1(1) pos by (simp add: word_le_nat_alt)
    show "unat ?f + unat (latDMA0 D) + unat (latMEM D) + unat (latDMA1 D) + unat (latANTI D) \<le> unat ?f + unat ?T - 1 + 1" using tot d1(1) T(1) by simp
    show "\<forall>t\<in>window ?f (latDMA0 D) \<union> window (g + latANTI D) (latDMA1 D). freeAt (dmCh D) (dmChStart D) t" using was by blast
    show "\<forall>t. freeAt ch3 sp3 t \<longrightarrow> freeAt (dmCh D) (dmChStart D) t \<and> t \<notin> window ?f (latDMA0 D) \<union> window (g + latANTI D) (latDMA1 D)"
      using inv3(3) free2 by blast
    show "\<forall>t\<in>window ?f ?T. freeAt (dmDie D) (dmDieStart D) t" using placed_free [OF pm] by blast
    show "\<forall>t. freeAt die' dsp t \<longrightarrow> freeAt (dmDie D) (dmDieStart D) t \<and> t \<notin> window ?f ?T" using td(3,4) by blast
  qed (use inv3 td(1) f(1) pos in simp_all)
  ultimately show ?thesis by blast
qed

section \<open>Commands\<close>

text \<open>
  The timeline is in order: a start point for each calendar, and each calendar with its invariant.
  \<open>horizon\<close> bounds the start points.
\<close>

definition pal2_inv :: "nat \<Rightarrow> 'st pal2 \<Rightarrow> bool" where
  "pal2_inv M s \<longleftrightarrow> length (chStartPoint s) = length (chFreeSlots s) \<and> length (dieStartPoint s) = length (dieFreeSlots s) \<and>
     (\<forall>i<length (chFreeSlots s). cal_inv (chFreeSlots s ! i) (chStartPoint s ! i) \<and> unat (chStartPoint s ! i) \<le> M) \<and>
     (\<forall>i<length (dieFreeSlots s). cal_inv (dieFreeSlots s ! i) (dieStartPoint s ! i) \<and> unat (dieStartPoint s ! i) \<le> M) \<and>
     length (mergedTimeSlots s) \<le> 1"

definition chFree :: "'st pal2 \<Rightarrow> nat \<Rightarrow> nat \<Rightarrow> bool" where
  "chFree s i t \<longleftrightarrow> freeAt (chFreeSlots s ! i) (chStartPoint s ! i) t"

definition dieFree :: "'st pal2 \<Rightarrow> nat \<Rightarrow> nat \<Rightarrow> bool" where
  "dieFree s i t \<longleftrightarrow> freeAt (dieFreeSlots s ! i) (dieStartPoint s ! i) t"

lemma stampOp_frame [simp]:
  "chFreeSlots (stampOp op a e s) = chFreeSlots s" "chStartPoint (stampOp op a e s) = chStartPoint s"
  "dieFreeSlots (stampOp op a e s) = dieFreeSlots s" "dieStartPoint (stampOp op a e s) = dieStartPoint s"
  "mergedTimeSlots (stampOp op a e s) = mergedTimeSlots s"
  by (simp_all add: stampOp_def Let_def split: option.splits)

lemma FlushOpTimeStamp_frame [simp]:
  "chFreeSlots (FlushOpTimeStamp s) = chFreeSlots s" "chStartPoint (FlushOpTimeStamp s) = chStartPoint s"
  "dieFreeSlots (FlushOpTimeStamp s) = dieFreeSlots s" "dieStartPoint (FlushOpTimeStamp s) = dieStartPoint s"
  "mergedTimeSlots (FlushOpTimeStamp s) = mergedTimeSlots s"
  by (simp_all add: FlushOpTimeStamp_def)

text \<open>With one slot at most, the list of busy slots stays one slot.\<close>

lemma mergeTimeSlot_single: "\<exists>m. mergeTimeSlot ts [c] = Inr [m]"
  by (simp add: mergeTimeSlot_def absorb_def Let_def)

definition latencies_ok :: "'st pal_ctx \<Rightarrow> bool" where
  "latencies_ok C \<longleftrightarrow> (\<forall>op. 0 < unat (dmaLatency (ntDma0 (pcTiming C)) op) \<and> 0 < unat (dmaLatency (ntDma1 (pcTiming C)) op))"

lemma demandOf_servable:
  assumes inv: "pal2_inv M s" and lat: "latencies_ok C"
    and idx: "unat (cpChannel a) < length (chFreeSlots s)" "unat (CPDPBPtoDieIdx (pcParam C) a) < length (dieFreeSlots s)"
    and lim: "M + latSum (demandOf C req a s) < 2 ^ 63"
  shows "servable M (demandOf C req a s)"
  using assms by (simp add: servable_def demandOf_def Let_def pal2_inv_def latencies_ok_def)

lemma merged_single:
  assumes "length ms \<le> 1"
  shows "\<exists>ms'. (if ms = [] then Inr [c] else mergeTimeSlot ts ms) = Inr ms' \<and> length ms' \<le> 1"
proof (cases ms)
  case (Cons m ms')
  then have "ms = [m]" using assms by (cases ms') auto
  then show ?thesis using mergeTimeSlot_single [of ts m] by auto
qed simp

lemma TimelineScheduling_result:
  fixes s :: "'st pal2"
  assumes inv: "pal2_inv M s" and lat: "latencies_ok C"
    and idx: "unat (cpChannel a) < length (chFreeSlots s)" "unat (CPDPBPtoDieIdx (pcParam C) a) < length (dieFreeSlots s)"
    and arr: "unat (cmArrived req) \<le> M" and lim: "M + latSum (demandOf C req a s) < 2 ^ 63"
  shows "\<exists>b s'. TimelineScheduling C req a s = Inr (s', req\<lparr>cmFinished := EndTick (tsDMA1 b)\<rparr>) \<and>
    booking_ok M (demandOf C req a s) (cmArrived req) b \<and> length (mergedTimeSlots s') \<le> 1 \<and>
    chFreeSlots s' = (chFreeSlots s)[unat (cpChannel a) := bkCh b] \<and> chStartPoint s' = (chStartPoint s)[unat (cpChannel a) := bkChStart b] \<and>
    dieFreeSlots s' = (dieFreeSlots s)[unat (CPDPBPtoDieIdx (pcParam C) a) := bkDie b] \<and>
    dieStartPoint s' = (dieStartPoint s)[unat (CPDPBPtoDieIdx (pcParam C) a) := bkDieStart b]"
proof -
  let ?D = "demandOf C req a s"
  have sv: "servable M ?D" by (rule demandOf_servable [OF inv lat idx lim])
  obtain p where p: "loop0 (loopBound (dmDie ?D)) (loopBound (dmCh ?D)) ?D (cmArrived req) 0 = Inr p" "placement_ok M ?D (cmArrived req) p"
    using loop0_enough [OF sv arr] by blast
  obtain b where b: "book ?D p = Inr b" "booking_ok M ?D (cmArrived req) b" using book_result [OF sv p(2)] by blast
  have "length (mergedTimeSlots s) \<le> 1" using inv by (simp add: pal2_inv_def)
  from merged_single [OF this] obtain ms where ms: "length ms \<le> 1"
    "(if mergedTimeSlots s = [] then Inr [TimeSlot (StartTick (tsMEM b)) (EndTick (tsMEM b) - StartTick (tsMEM b) + 1)]
      else mergeTimeSlot (tsMEM b) (mergedTimeSlots s)) = Inr ms" by blast
  show ?thesis
    using idx b(2) ms(1) unfolding TimelineScheduling_def Let_def p(1) bindR_Inr b(1) ms(2) by (auto simp: not_le)
qed

end
