(* ===== verification/PALOld_Inv.thy ===== *)
theory PALOld_Inv
  imports PALOld PAL2_Inv
begin

text \<open>
  The addresses of a request: the super blocks divide the flash, so that the flash pages of a
  request are distinct, inside the device and no part of another super page. The three
  operations therefore always return.
\<close>

section \<open>Fields\<close>

definition getField :: "cp_field \<Rightarrow> cpdpbp \<Rightarrow> u32" where
  "getField f a = (case f of F_Channel \<Rightarrow> cpChannel a | F_Package \<Rightarrow> cpPackage a | F_Die \<Rightarrow> cpDie a | F_Plane \<Rightarrow> cpPlane a)"

lemma getField_setField [simp]: "getField f (setField g v a) = (if f = g then v else getField f a)"
  by (cases f; cases g) (simp_all add: getField_def setField_def)

lemma setField_frame [simp]: "cpBlock (setField f v a) = cpBlock a" "cpPage (setField f v a) = cpPage a" "cpSlpn (setField f v a) = cpSlpn a"
  by (cases f; simp add: setField_def)+

lemma getField_frame [simp]: "getField f (a\<lparr>cpBlock := b, cpPage := q\<rparr>) = getField f a"
  by (cases f) (simp_all add: getField_def)

text \<open>The dimensions in the order of the page allocation: those a super page spans, and those that number the super blocks.\<close>

definition skipped :: "pal_config \<Rightarrow> cp_field \<Rightarrow> bool" where
  "skipped c f \<longleftrightarrow> f = F_Plane \<and> pcfMultiPlane c"

definition inSuper :: "pal_config \<Rightarrow> cp_field \<Rightarrow> bool" where
  "inSuper c f \<longleftrightarrow> pcfSuperblock c AND fieldIndex f \<noteq> 0"

definition fieldsAt :: "pal_config \<Rightarrow> nat list \<Rightarrow> cp_field list" where
  "fieldsAt c is = List.map_filter (\<lambda>i. fieldOf (allocIndex c i)) is"

definition spanDims :: "pal_config \<Rightarrow> cp_field list \<Rightarrow> cp_field list" where
  "spanDims c fs = filter (\<lambda>f. \<not> skipped c f \<and> inSuper c f) fs"

definition ownDims :: "pal_config \<Rightarrow> cp_field list \<Rightarrow> cp_field list" where
  "ownDims c fs = filter (\<lambda>f. \<not> skipped c f \<and> \<not> inSuper c f) fs"

text \<open>The number of the super block an address belongs to.\<close>

definition radixNumber :: "flash_param \<Rightarrow> cp_field list \<Rightarrow> cpdpbp \<Rightarrow> nat \<Rightarrow> nat" where
  "radixNumber p fs a rest = foldr (\<lambda>f acc. unat (getField f a) + unat (fieldSize p f) * acc) fs rest"

lemma fieldsAt_Cons: "fieldsAt c (i # is) = (case fieldOf (allocIndex c i) of None \<Rightarrow> fieldsAt c is | Some f \<Rightarrow> f # fieldsAt c is)"
  by (simp add: fieldsAt_def map_filter_simps split: option.splits)

lemma radixNumber_cong: "(\<And>f. f \<in> set fs \<Longrightarrow> getField f a = getField f b) \<Longrightarrow> radixNumber p fs a n = radixNumber p fs b n"
  by (induction fs) (simp_all add: radixNumber_def)

lemma splitDims_result:
  assumes "distinct (fieldsAt c is)" "\<And>f. 0 < unat (fieldSize p f)"
  shows "\<exists>addr' tmp'. foldR (splitDim c p) is (addr, tmp, dims) =
      Inr (addr', tmp', dims @ map (\<lambda>f. (fieldSize p f, f)) (spanDims c (fieldsAt c is))) \<and>
    unat tmp = radixNumber p (ownDims c (fieldsAt c is)) addr' (unat tmp') \<and>
    (\<forall>f\<in>set (ownDims c (fieldsAt c is)). unat (getField f addr') < unat (fieldSize p f)) \<and>
    (\<forall>f. f \<notin> set (ownDims c (fieldsAt c is)) \<longrightarrow> getField f addr' = getField f addr)"
  using assms(1)
proof (induction "is" arbitrary: addr tmp dims)
  case Nil
  then show ?case by (simp add: fieldsAt_def map_filter_simps spanDims_def ownDims_def radixNumber_def)
next
  case (Cons i "is")
  show ?case
  proof (cases "fieldOf (allocIndex c i)")
    case None
    then have fa: "fieldsAt c (i # is) = fieldsAt c is" and st: "splitDim c p i (addr, tmp, dims) = Inr (addr, tmp, dims)"
      by (simp_all add: fieldsAt_Cons splitDim_def)
    then show ?thesis using Cons.IH [of addr tmp dims] Cons.prems by simp
  next
    case (Some f)
    then have fa: "fieldsAt c (i # is) = f # fieldsAt c is" by (simp add: fieldsAt_Cons)
    have d: "distinct (fieldsAt c is)" "f \<notin> set (fieldsAt c is)" using Cons.prems by (simp_all add: fa)
    consider "skipped c f" | "\<not> skipped c f" "inSuper c f" | "\<not> skipped c f" "\<not> inSuper c f" by blast
    then show ?thesis
    proof cases
      case 1
      then have "splitDim c p i (addr, tmp, dims) = Inr (addr, tmp, dims)" by (simp add: splitDim_def Some skipped_def)
      then show ?thesis using Cons.IH [OF d(1), of addr tmp dims] 1 by (simp add: fa spanDims_def ownDims_def)
    next
      case 2
      then have "splitDim c p i (addr, tmp, dims) = Inr (addr, tmp, dims @ [(fieldSize p f, f)])"
        by (auto simp: splitDim_def Some skipped_def inSuper_def)
      then show ?thesis using Cons.IH [OF d(1), of addr tmp "dims @ [(fieldSize p f, f)]"] 2 by (simp add: fa spanDims_def ownDims_def)
    next
      case 3
      let ?n = "ucast (fieldSize p f) :: u64" and ?v = "ucast (tmp mod ucast (fieldSize p f)) :: u32"
      have "fieldSize p f \<noteq> 0" using assms(2) [of f] by auto
      then have st: "splitDim c p i (addr, tmp, dims) = Inr (setField f ?v addr, tmp div ?n, dims)"
        using 3 by (auto simp: splitDim_def Some skipped_def inSuper_def)
      have b: "unat (fieldSize p f) < 2 ^ 32" using unsigned_less [where ?'a = nat, of "fieldSize p f"] by simp
      then have n: "unat ?n = unat (fieldSize p f)" by (simp add: unsigned_ucast_eq take_bit_nat_eq_self)
      have "unat (tmp mod ?n) < unat (fieldSize p f)" using assms(2) [of f] by (simp add: unat_mod n)
      with b have v: "unat ?v = unat tmp mod unat (fieldSize p f)" "unat ?v < unat (fieldSize p f)"
        by (simp_all add: unsigned_ucast_eq take_bit_nat_eq_self unat_mod n)
      obtain addr' tmp' where r: "foldR (splitDim c p) is (setField f ?v addr, tmp div ?n, dims) =
          Inr (addr', tmp', dims @ map (\<lambda>f. (fieldSize p f, f)) (spanDims c (fieldsAt c is)))"
        "unat (tmp div ?n) = radixNumber p (ownDims c (fieldsAt c is)) addr' (unat tmp')"
        "\<forall>f\<in>set (ownDims c (fieldsAt c is)). unat (getField f addr') < unat (fieldSize p f)"
        "\<forall>g. g \<notin> set (ownDims c (fieldsAt c is)) \<longrightarrow> getField g addr' = getField g (setField f ?v addr)"
        using Cons.IH [OF d(1), of "setField f ?v addr" "tmp div ?n" dims] by blast
      have gf: "getField f addr' = ?v" using r(4) d(2) by (simp add: ownDims_def)
      have "unat tmp = unat ?v + unat (fieldSize p f) * unat (tmp div ?n)" by (simp add: v(1) unat_div n)
      then have "unat tmp = radixNumber p (f # ownDims c (fieldsAt c is)) addr' (unat tmp')"
        unfolding r(2) by (simp add: radixNumber_def gf)
      then show ?thesis using r 3 gf v(2) st by (auto simp: fa spanDims_def ownDims_def)
    qed
  qed
qed

section \<open>The pages of a super page\<close>

lemma loopIndices_set: "x \<in> set (loopIndices vs) \<longleftrightarrow> list_all2 (\<lambda>l v. l < unat v) x vs"
proof (induction vs arbitrary: x)
  case (Cons v vs)
  have "l # is \<in> set (loopIndices (v # vs)) \<longleftrightarrow> l < unat v \<and> is \<in> set (loopIndices vs)" for l "is" by (auto simp: image_iff)
  moreover have "[] \<notin> set (loopIndices (v # vs))" by auto
  ultimately show ?case using Cons by (cases x) simp_all
qed simp

lemma loopIndices_length: "length (loopIndices vs) = prod_list (map unat vs)"
  by (induction vs) (simp_all add: length_concat comp_def sum_list_triv mult.commute)

lemma loopIndices_distinct: "distinct (loopIndices vs)"
proof (induction vs)
  case (Cons v vs)
  have "distinct (concat (map (\<lambda>is. map (\<lambda>l. l # is) [0..<n]) xs))" if "distinct xs" for n :: nat and xs :: "nat list list"
    using that by (induction xs) (auto simp: distinct_map inj_on_def)
  then show ?case using Cons by simp
qed simp

lemma fold_setField_other:
  "f \<notin> set (map (snd \<circ> fst) ps) \<Longrightarrow> getField f (fold (\<lambda>(d, l). setField (snd d) (word_of_nat l)) ps a) = getField f a"
  by (induction ps arbitrary: a) (auto split: prod.splits)

lemma fold_setField_frame:
  "cpBlock (fold (\<lambda>(d, l). setField (snd d) (word_of_nat l)) ps a) = cpBlock a"
  "cpPage (fold (\<lambda>(d, l). setField (snd d) (word_of_nat l)) ps a) = cpPage a"
  by (induction ps arbitrary: a) (auto split: prod.splits)

lemma fold_setField_get:
  assumes "distinct fs" "length is = length fs" "k < length fs"
  shows "getField (fs ! k) (fold (\<lambda>(d, l). setField (snd d) (word_of_nat l)) (zip (map (\<lambda>f. (g f, f)) fs) is) a) = word_of_nat (is ! k)"
  using assms
proof (induction fs arbitrary: "is" k a)
  case (Cons f fs)
  then obtain i is' where i: "is = i # is'" by (cases "is") auto
  show ?case
  proof (cases k)
    case 0
    have "f \<notin> set (map (snd \<circ> fst) (zip (map (\<lambda>f. (g f, f)) fs) is'))" using Cons.prems(1) by (auto dest: set_zip_leftD)
    then show ?thesis by (simp add: i 0 fold_setField_other del: set_map)
  next
    case (Suc k')
    then show ?thesis using Cons by (simp add: i)
  qed
qed simp

lemma superPage_pages:
  fixes p :: flash_param and addr :: cpdpbp
  assumes "distinct fs"
  defines "S \<equiv> superPage (map (\<lambda>f. (fieldSize p f, f)) fs) addr"
  shows "length S = (\<Prod>f\<leftarrow>fs. unat (fieldSize p f))" "distinct S"
    "\<And>a. a \<in> set S \<Longrightarrow> cpBlock a = cpBlock addr \<and> cpPage a = cpPage addr \<and>
       (\<forall>f. if f \<in> set fs then unat (getField f a) < unat (fieldSize p f) else getField f a = getField f addr)"
proof -
  let ?vs = "map (fieldSize p) fs" and ?ap = "\<lambda>is. fold (\<lambda>(d, l). setField (snd d) (word_of_nat l)) (zip (map (\<lambda>f. (fieldSize p f, f)) fs) is) addr"
  have S: "S = map ?ap (loopIndices ?vs)" by (simp add: S_def superPage_def comp_def)
  show "length S = (\<Prod>f\<leftarrow>fs. unat (fieldSize p f))" by (simp add: S loopIndices_length comp_def)
  have li: "length is = length fs" "is ! k < unat (fieldSize p (fs ! k))" if "is \<in> set (loopIndices ?vs)" "k < length fs" for "is" k
    using that by (auto simp: loopIndices_set list_all2_conv_all_nth)
  have ln: "length is = length fs" if "is \<in> set (loopIndices ?vs)" for "is" using that by (auto simp: loopIndices_set dest: list_all2_lengthD)
  have get: "unat (getField (fs ! k) (?ap is)) = is ! k" if "is \<in> set (loopIndices ?vs)" "k < length fs" for "is" k
  proof -
    have "unat (fieldSize p (fs ! k)) < 2 ^ 32" using unsigned_less [where ?'a = nat, of "fieldSize p (fs ! k)"] by simp
    then show ?thesis unfolding fold_setField_get [OF assms(1) ln [OF that(1)] that(2), where g = "fieldSize p" and a = addr]
      using li [OF that] by (simp add: unat_of_nat take_bit_nat_eq_self)
  qed
  have "inj_on ?ap (set (loopIndices ?vs))"
  proof (rule inj_onI)
    fix x y assume x: "x \<in> set (loopIndices ?vs)" and y: "y \<in> set (loopIndices ?vs)" and eq: "?ap x = ?ap y"
    show "x = y"
    proof (rule nth_equalityI)
      show "x ! k = y ! k" if "k < length x" for k using get [OF x, of k] get [OF y, of k] that ln [OF x] eq by simp
    qed (use ln x y in simp)
  qed
  then show "distinct S" by (simp add: S distinct_map loopIndices_distinct)
  fix a assume "a \<in> set S"
  then obtain "is" where i: "is \<in> set (loopIndices ?vs)" "a = ?ap is" by (auto simp: S)
  have "unat (getField f a) < unat (fieldSize p f)" if "f \<in> set fs" for f
    using that get [OF i(1)] li [OF i(1)] by (auto simp: i(2) in_set_conv_nth)
  moreover have "getField f a = getField f addr" if "f \<notin> set fs" for f
    unfolding i(2) by (rule fold_setField_other) (use that in \<open>auto dest: set_zip_leftD\<close>)
  ultimately show "cpBlock a = cpBlock addr \<and> cpPage a = cpPage addr \<and>
      (\<forall>f. if f \<in> set fs then unat (getField f a) < unat (fieldSize p f) else getField f a = getField f addr)"
    by (simp add: i(2) fold_setField_frame)
qed

section \<open>The addresses of a request\<close>

definition allocation_ok :: "pal_config \<Rightarrow> bool" where
  "allocation_ok c \<longleftrightarrow> distinct (fieldsAt c [0..<4]) \<and> set (fieldsAt c [0..<4]) = UNIV"

text \<open>The number of the super block of an address, and the number of super blocks.\<close>

definition blockNumber :: "pal_config \<Rightarrow> flash_param \<Rightarrow> cpdpbp \<Rightarrow> nat" where
  "blockNumber c p a = radixNumber p (ownDims c (fieldsAt c [0..<4])) a (unat (cpBlock a))"

definition pagesPerSuper :: "pal_config \<Rightarrow> flash_param \<Rightarrow> nat" where
  "pagesPerSuper c p = (\<Prod>f\<leftarrow>spanDims c (fieldsAt c [0..<4]). unat (fieldSize p f))"

definition in_flash :: "flash_param \<Rightarrow> cpdpbp \<Rightarrow> bool" where
  "in_flash p a \<longleftrightarrow> (\<forall>f. unat (getField f a) < unat (fieldSize p f))"

lemma radixNumber_rest: "rest \<le> radixNumber p fs a rest" if "\<And>f. 0 < unat (fieldSize p f)"
proof (induction fs)
  case (Cons f fs)
  have "rest \<le> 1 * radixNumber p fs a rest" using Cons by simp
  also have "\<dots> \<le> unat (fieldSize p f) * radixNumber p fs a rest" by (rule mult_le_mono1) (use that [of f] in linarith)
  finally show ?case by (simp add: radixNumber_def)
qed (simp add: radixNumber_def)

lemma convert_result:
  assumes ok: "allocation_ok c" and sz: "\<And>f. 0 < unat (fieldSize p f)" and blk: "prBlockIndex req < 2 ^ 32" and pg: "prPageIndex req < 2 ^ 32"
    and n: "unat (fpPageInSuperPage p) = pagesPerSuper c p" and fl: "pcfRandomTweak c \<longrightarrow> dataSize (prIoFlag req) = unat (fpPageInSuperPage p)"
  shows "\<exists>pages flag. convertCPDPBP c p addr0 req = Inr (map snd (filter (\<lambda>x. Bitset_test flag (fst x)) (enumerate 0 pages))) \<and>
    flag = (if dataSize (prIoFlag req) \<noteq> pagesPerSuper c p then Bitset_set_all (Bitset_new (pagesPerSuper c p)) else prIoFlag req) \<and>
    length pages = pagesPerSuper c p \<and> distinct pages \<and>
    (\<forall>a\<in>set pages. in_flash p a \<and> blockNumber c p a = prBlockIndex req \<and> unat (cpPage a) = prPageIndex req)"
proof -
  let ?fs = "fieldsAt c [0..<4]"
  let ?a0 = "addr0\<lparr>cpSlpn := slpn (icRange (frIclReq (prFtlReq req))), cpPlane := 0\<rparr>" and ?t0 = "word_of_nat (prBlockIndex req) :: u64"
  have d: "distinct ?fs" "set ?fs = UNIV" using ok by (simp_all add: allocation_ok_def)
  obtain addr tmp where r: "foldR (splitDim c p) [0..<4] (?a0, ?t0, []) = Inr (addr, tmp, map (\<lambda>f. (fieldSize p f, f)) (spanDims c ?fs))"
    and num: "unat ?t0 = radixNumber p (ownDims c ?fs) addr (unat tmp)"
    and lt: "\<And>f. f \<in> set (ownDims c ?fs) \<Longrightarrow> unat (getField f addr) < unat (fieldSize p f)"
    and oth: "\<And>f. f \<notin> set (ownDims c ?fs) \<Longrightarrow> getField f addr = getField f ?a0"
    using splitDims_result [OF d(1) sz, of ?a0 ?t0 "[]"] by auto
  have t0: "unat ?t0 = prBlockIndex req" using blk by (simp add: unat_of_nat take_bit_nat_eq_self)
  have "unat tmp < 2 ^ 32" using radixNumber_rest [OF sz, of "unat tmp" "ownDims c ?fs" addr] num t0 blk by simp
  then have ut: "unat (ucast tmp :: u32) = unat tmp" by (simp add: unsigned_ucast_eq take_bit_nat_eq_self)
  define addr1 where "addr1 = addr\<lparr>cpBlock := ucast tmp, cpPage := word_of_nat (prPageIndex req)\<rparr>"
  define pages where "pages = superPage (map (\<lambda>f. (fieldSize p f, f)) (spanDims c ?fs)) addr1"
  have ds: "distinct (spanDims c ?fs)" using d(1) by (simp add: spanDims_def)
  note sp = superPage_pages [OF ds, where p = p and addr = addr1, folded pages_def]
  have len: "length pages = pagesPerSuper c p" by (simp add: sp(1) pagesPerSuper_def)
  have "in_flash p a \<and> blockNumber c p a = prBlockIndex req \<and> unat (cpPage a) = prPageIndex req" if "a \<in> set pages" for a
  proof -
    note a = sp(3) [OF that]
    have own: "getField f a = getField f addr" if "f \<in> set (ownDims c ?fs)" for f
      using a that by (auto simp: ownDims_def spanDims_def addr1_def split: if_splits)
    have "unat (getField f a) < unat (fieldSize p f)" for f
    proof -
      consider "f \<in> set (spanDims c ?fs)" | "f \<in> set (ownDims c ?fs)" | "skipped c f" using d(2) by (auto simp: spanDims_def ownDims_def)
      then show ?thesis
      proof cases
        case 1
        then show ?thesis using a by auto
      next
        case 2
        then show ?thesis using own lt by simp
      next
        case 3
        then have "f \<notin> set (spanDims c ?fs)" "f \<notin> set (ownDims c ?fs)" by (simp_all add: spanDims_def ownDims_def)
        then have "getField f a = getField f ?a0" using a oth by (auto simp: addr1_def)
        then show ?thesis using 3 sz by (simp add: skipped_def getField_def)
      qed
    qed
    moreover have "blockNumber c p a = prBlockIndex req"
      using radixNumber_cong [of "ownDims c ?fs" a addr p "unat tmp", OF own] num t0 a ut by (simp add: blockNumber_def addr1_def)
    moreover have "unat (cpPage a) = prPageIndex req" using a pg by (simp add: addr1_def unat_of_nat take_bit_nat_eq_self)
    ultimately show ?thesis by (simp add: in_flash_def)
  qed
  moreover have "convertCPDPBP c p addr0 req = Inr (map snd (filter (\<lambda>x. Bitset_test (if dataSize (prIoFlag req) \<noteq> pagesPerSuper c p
      then Bitset_set_all (Bitset_new (pagesPerSuper c p)) else prIoFlag req) (fst x)) (enumerate 0 pages)))"
    using fl len unfolding convertCPDPBP_def Let_def r bindR_Inr prod.case addr1_def [symmetric] pages_def [symmetric] n by simp
  ultimately show ?thesis using len sp(2) by blast
qed

section \<open>The operations return\<close>

definition latencyTotal :: "'st pal_ctx \<Rightarrow> u32 \<Rightarrow> pal_operation \<Rightarrow> nat" where
  "latencyTotal C pg op = unat (GetLatency (pcNand C) (pcTiming C) pg op BUSY_DMA0) + unat (GetLatency (pcNand C) (pcTiming C) pg op BUSY_MEM) +
     unat (GetLatency (pcNand C) (pcTiming C) pg op BUSY_DMA1) + 2 * unat (GetLatency (pcNand C) (pcTiming C) pg OPER_READ BUSY_DMA0)"

lemma latSum_demandOf: "latSum (demandOf C req a s) = latencyTotal C (cpPage a) (cmOperation req)"
  by (simp add: latSum_def demandOf_def Let_def latencyTotal_def)

definition sized :: "flash_param \<Rightarrow> 'st pal2 \<Rightarrow> bool" where
  "sized p s \<longleftrightarrow> length (chFreeSlots s) = unat (fpChannel p) \<and> length (dieFreeSlots s) = unat (fpChannel p) * unat (fpPackage p) * unat (fpDie p)"

lemma unat_mult32: "unat (a :: u32) * unat b < 2 ^ 32 \<Longrightarrow> unat (a * b) = unat a * unat b"
  by (simp add: unat_word_ariths)

lemma dieIdx_bound:
  assumes "in_flash p a" "unat (fpChannel p) * unat (fpPackage p) * unat (fpDie p) < 2 ^ 32"
  shows "unat (CPDPBPtoDieIdx p a) < unat (fpChannel p) * unat (fpPackage p) * unat (fpDie p)"
proof -
  let ?C = "unat (fpChannel p)" and ?P = "unat (fpPackage p)" and ?D = "unat (fpDie p)"
  let ?c = "unat (cpChannel a)" and ?k = "unat (cpPackage a)" and ?d = "unat (cpDie a)"
  have lt: "?c < ?C" "?k < ?P" "?d < ?D"
    using assms(1) unfolding in_flash_def by (metis cp_field.simps fieldSize_def getField_def)+
  have 1: "?d + ?k * ?D < ?P * ?D" using mult_le_mono1 [of "Suc ?k" ?P ?D] lt by simp
  have 2: "?d + ?k * ?D + ?c * ?D * ?P < ?C * ?P * ?D" using mult_le_mono1 [of "Suc ?c" ?C "?P * ?D"] lt 1 by (simp add: algebra_simps)
  have "unat (cpPackage a * fpDie p) = ?k * ?D" by (rule unat_mult32) (use 2 assms(2) in simp)
  moreover have "unat (cpChannel a * fpDie p) = ?c * ?D"
  proof (rule unat_mult32)
    have "?c * ?D * 1 \<le> ?c * ?D * ?P" by (rule mult_le_mono2) (use lt(2) in linarith)
    then show "?c * ?D < 2 ^ 32" using 2 assms(2) by linarith
  qed
  moreover from this have "unat (cpChannel a * fpDie p * fpPackage p) = ?c * ?D * ?P"
    using unat_mult32 [of "cpChannel a * fpDie p" "fpPackage p"] 2 assms(2) by simp
  ultimately have "unat (CPDPBPtoDieIdx p a) = ?d + ?k * ?D + ?c * ?D * ?P"
    using 2 assms(2) unfolding CPDPBPtoDieIdx_def by (simp add: unat_plus_if_size word_size)
  then show ?thesis using 2 by simp
qed

lemma sized_index:
  assumes "sized p s" "in_flash p a" "unat (fpChannel p) * unat (fpPackage p) * unat (fpDie p) < 2 ^ 32"
  shows "unat (cpChannel a) < length (chFreeSlots s)" "unat (CPDPBPtoDieIdx p a) < length (dieFreeSlots s)"
proof -
  show "unat (cpChannel a) < length (chFreeSlots s)"
    using assms(1,2) unfolding sized_def in_flash_def by (metis cp_field.simps(13) fieldSize_def getField_def)
  show "unat (CPDPBPtoDieIdx p a) < length (dieFreeSlots s)" using dieIdx_bound [OF assms(2,3)] assms(1) by (simp add: sized_def)
qed

lemma TimelineScheduling_keeps:
  fixes s :: "'st pal2"
  assumes inv: "pal2_inv M s" and sz: "sized (pcParam C) s" and fl: "in_flash (pcParam C) a" and lat: "latencies_ok C"
    and lim: "unat (fpChannel (pcParam C)) * unat (fpPackage (pcParam C)) * unat (fpDie (pcParam C)) < 2 ^ 32"
    and arr: "unat (cmArrived req) \<le> M" and L: "latencyTotal C (cpPage a) (cmOperation req) \<le> L" "M + L < 2 ^ 63"
  shows "runs_to (TimelineScheduling C req a s) (\<lambda>(s', req'). pal2_inv (M + L) s' \<and> sized (pcParam C) s' \<and>
    cmArrived req' = cmArrived req \<and> cmOperation req' = cmOperation req \<and> cmArrived req \<le> cmFinished req')"
proof -
  note idx = sized_index [OF sz fl lim]
  have "M + latSum (demandOf C req a s) < 2 ^ 63" using L by (simp add: latSum_demandOf)
  from TimelineScheduling_result [OF inv lat idx arr this] obtain b s' where
    r: "TimelineScheduling C req a s = Inr (s', req\<lparr>cmFinished := EndTick (tsDMA1 b)\<rparr>)"
    and b: "booking_ok M (demandOf C req a s) (cmArrived req) b" and ms: "length (mergedTimeSlots s') \<le> 1"
    and s': "chFreeSlots s' = (chFreeSlots s)[unat (cpChannel a) := bkCh b]" "chStartPoint s' = (chStartPoint s)[unat (cpChannel a) := bkChStart b]"
      "dieFreeSlots s' = (dieFreeSlots s)[unat (CPDPBPtoDieIdx (pcParam C) a) := bkDie b]"
      "dieStartPoint s' = (dieStartPoint s)[unat (CPDPBPtoDieIdx (pcParam C) a) := bkDieStart b]"
    by blast
  have bk: "cal_inv (bkCh b) (bkChStart b)" "cal_inv (bkDie b) (bkDieStart b)" "unat (bkChStart b) \<le> M + L" "unat (bkDieStart b) \<le> M + L"
    using b L(1) by (auto simp: booking_ok_def latSum_demandOf)
  have "pal2_inv (M + L) s'"
    using inv bk ms idx unfolding pal2_inv_def s' by (auto simp: nth_list_update intro: trans_le_add1)
  moreover have "cmArrived req \<le> EndTick (tsDMA1 b)"
  proof -
    have "0 < unat (latDMA0 (demandOf C req a s))" "0 < unat (latDMA1 (demandOf C req a s))"
      using lat by (simp_all add: demandOf_def Let_def latencies_ok_def)
    moreover have "unat (cmArrived req) \<le> unat (StartTick (tsDMA0 b))"
      "unat (EndTick (tsDMA0 b)) + 1 = unat (StartTick (tsDMA0 b)) + unat (latDMA0 (demandOf C req a s))"
      "unat (EndTick (tsDMA0 b)) + unat (latMEM (demandOf C req a s)) < unat (StartTick (tsDMA1 b))"
      "unat (EndTick (tsDMA1 b)) + 1 = unat (StartTick (tsDMA1 b)) + unat (latDMA1 (demandOf C req a s))"
      using b unfolding booking_ok_def word_le_nat_alt by blast+
    ultimately show ?thesis unfolding word_le_nat_alt by linarith
  qed
  ultimately show ?thesis using sz by (simp add: r sized_def s')
qed

text \<open>A configuration and a request the layer is built for.\<close>

definition pal_ok :: "'st palold_ctx \<Rightarrow> nat \<Rightarrow> bool" where
  "pal_ok X L \<longleftrightarrow> (let p = pcParam (pxCtx X) in
     allocation_ok (pxConfig X) \<and> (\<forall>f. 0 < unat (fieldSize p f)) \<and> unat (fpPageInSuperPage p) = pagesPerSuper (pxConfig X) p \<and>
     unat (fpChannel p) * unat (fpPackage p) * unat (fpDie p) < 2 ^ 32 \<and> latencies_ok (pxCtx X) \<and>
     (\<forall>pg op. latencyTotal (pxCtx X) pg op \<le> L))"

definition request_ok :: "'st palold_ctx \<Rightarrow> pal_request \<Rightarrow> bool" where
  "request_ok X req \<longleftrightarrow> prBlockIndex req < 2 ^ 32 \<and> prPageIndex req < 2 ^ 32 \<and>
     (pcfRandomTweak (pxConfig X) \<longrightarrow> dataSize (prIoFlag req) = unat (fpPageInSuperPage (pcParam (pxCtx X))))"

lemma submitAll_returns:
  fixes s :: "'st palold"
  assumes ok: "pal_ok X L" and rq: "request_ok X req" and cmd: "cmArrived cmd = t"
    and inv: "pal2_inv M (poPal s)" "sized (pcParam (pxCtx X)) (poPal s)" and t: "unat t \<le> M"
    and lim: "M + pagesPerSuper (pxConfig X) (pcParam (pxCtx X)) * L < 2 ^ 63"
    and cnt: "\<And>s. poPal (count s) = poPal s"
  shows "runs_to (submitAll X count cmd req t s) (\<lambda>(s', t'). t \<le> t' \<and> sized (pcParam (pxCtx X)) (poPal s') \<and>
    pal2_inv (M + pagesPerSuper (pxConfig X) (pcParam (pxCtx X)) * L) (poPal s'))"
proof -
  let ?p = "pcParam (pxCtx X)" and ?c = "pxConfig X"
  let ?n = "pagesPerSuper ?c ?p"
  have P: "allocation_ok ?c" "\<And>f. 0 < unat (fieldSize ?p f)" "unat (fpPageInSuperPage ?p) = ?n"
    "unat (fpChannel ?p) * unat (fpPackage ?p) * unat (fpDie ?p) < 2 ^ 32" "latencies_ok (pxCtx X)" "\<And>pg op. latencyTotal (pxCtx X) pg op \<le> L"
    using ok by (simp_all add: pal_ok_def Let_def)
  obtain pages flag where cv: "convertCPDPBP ?c ?p (pxAddr0 X) req = Inr (map snd (filter (\<lambda>x. Bitset_test flag (fst x)) (enumerate 0 pages)))"
    and pg: "length pages = ?n" "\<forall>a\<in>set pages. in_flash ?p a"
    using convert_result [OF P(1,2) _ _ P(3), of req "pxAddr0 X"] rq unfolding request_ok_def by blast
  define as where "as = map snd (filter (\<lambda>x. Bitset_test flag (fst x)) (enumerate 0 pages))"
  have as: "length as \<le> ?n" "\<And>a. a \<in> set as \<Longrightarrow> in_flash ?p a"
    using pg length_filter_le [of _ "enumerate 0 pages"] by (auto simp: as_def enumerate_eq_zip dest: set_zip_rightD)
  define I where "I = (\<lambda>ys (cmd :: command, fin :: tick, s :: 'st palold). cmArrived cmd = t \<and> t \<le> fin \<and> sized ?p (poPal s) \<and> pal2_inv (M + length (ys :: cpdpbp list) * L) (poPal s))"
  have "runs_to (foldR (submitPage X count) as (cmd, t, s)) (I as)"
  proof (rule foldR_runs_to_prefix)
    show "I [] (cmd, t, s)" using cmd inv by (simp add: I_def)
    fix ys a zs st assume s: "as = ys @ a # zs" and "I ys st"
    then obtain cmd fin s where st: "st = (cmd, fin, s)" and J: "cmArrived cmd = t" "t \<le> fin" "sized ?p (poPal s)" "pal2_inv (M + length ys * L) (poPal s)"
      by (cases st) (auto simp: I_def)
    have "Suc (length ys) * L \<le> ?n * L" using as(1) s by (intro mult_le_mono1) simp
    then have l: "M + length ys * L + L < 2 ^ 63" using lim by simp
    have "runs_to (TimelineScheduling (pxCtx X) cmd a (poPal s)) (\<lambda>(s', req'). pal2_inv (M + length ys * L + L) s' \<and> sized ?p s' \<and>
      cmArrived req' = cmArrived cmd \<and> cmOperation req' = cmOperation cmd \<and> cmArrived cmd \<le> cmFinished req')"
      by (rule TimelineScheduling_keeps [OF J(4,3) _ P(5,4) _ P(6) l]) (use as(2) s J(1) t in auto)
    moreover have e: "M + length (ys @ [a]) * L = M + length ys * L + L" by simp
    ultimately show "runs_to (submitPage X count a st) (I (ys @ [a]))"
      unfolding st submitPage_def prod.case PAL2_submit_def runs_to_bindR I_def e
      by (elim runs_to_mono) (use J in \<open>auto simp: cnt le_max_iff_disj\<close>)
  qed
  then show ?thesis
  proof (rule runs_to_iff [THEN iffD1, THEN exE], elim conjE)
    fix r assume r: "foldR (submitPage X count) as (cmd, t, s) = Inr r" "I as r"
    have "M + length as * L \<le> M + ?n * L" using as(1) by simp
    then have "pal2_inv (M + length as * L) q \<Longrightarrow> pal2_inv (M + ?n * L) q" for q :: "'st pal2"
      unfolding pal2_inv_def by (meson order_trans)
    then show ?thesis using r by (cases r) (auto simp: submitAll_def cv as_def [symmetric] I_def)
  qed
qed

section \<open>Construction and flushing\<close>

lemma emptySlots_inv:
  assumes "ks \<noteq> []"
  shows "cal_inv (emptySlots ks) sp"
proof -
  have *: "om_wf (fold (\<lambda>k. omPut k []) ks S) \<and> (\<forall>e\<in>set (fold (\<lambda>k. omPut k []) ks S). snd e = []) \<and> (ks \<noteq> [] \<or> S \<noteq> [] \<longrightarrow> fold (\<lambda>k. omPut k []) ks S \<noteq> [])"
    if "om_wf S" "\<forall>e\<in>set S. snd e = []" for S :: slots
    using that
  proof (induction ks arbitrary: S)
    case (Cons k ks)
    have "omPut k [] S \<noteq> []" by (cases S) auto
    then show ?case using Cons.IH [of "omPut k [] S"] Cons.prems by (simp add: set_omPut)
  qed simp
  have "slotsOf (emptySlots ks) = {}" "om_wf (emptySlots ks)" "emptySlots ks \<noteq> []" "\<And>e. e \<in> set (emptySlots ks) \<Longrightarrow> snd e = []"
    using * [of "[]"] assms unfolding emptySlots_def slotsOf_def by auto
  then show ?thesis by (simp add: cal_inv_def)
qed

lemma PAL2_new_inv:
  assumes "PAL2_new C st = Inr s" "unat (fpChannel (pcParam C)) * unat (fpPackage (pcParam C)) * unat (fpDie (pcParam C)) < 2 ^ 32"
    "0 < unat (fpDie (pcParam C))"
  shows "pal2_inv 0 s" "sized (pcParam C) s"
proof -
  let ?C = "fpChannel (pcParam C)" and ?P = "fpPackage (pcParam C)" and ?D = "fpDie (pcParam C)"
  have "unat ?C * unat ?P * 1 \<le> unat ?C * unat ?P * unat ?D" by (rule mult_le_mono2) (use assms(3) in linarith)
  then have cp: "unat (?C * ?P) = unat ?C * unat ?P" by (intro unat_mult32) (use assms(2) in linarith)
  then have "unat (?C * ?P * ?D) = unat ?C * unat ?P * unat ?D" using unat_mult32 [of "?C * ?P" ?D] assms(2) by simp
  then have td: "unat (totalDie (pcParam C)) = unat ?C * unat ?P * unat ?D" using assms(2) by (simp add: totalDie_def unsigned_ucast_eq take_bit_nat_eq_self)
  have ne: "chBuckets x y \<noteq> []" "dieBuckets n x \<noteq> []" for x y n by (simp_all add: chBuckets_def dieBuckets_def split: nand_type.splits)
  show "pal2_inv 0 s" "sized (pcParam C) s"
    using assms(1) emptySlots_inv [OF ne(1)] emptySlots_inv [OF ne(2)]
    by (auto simp: PAL2_new_def Let_def pal2_inv_def sized_def td split: if_splits)
qed

lemma FlushAFreeSlot_inv:
  assumes "cal_inv S sp"
  shows "cal_inv (FlushAFreeSlot S t) sp" "freeAt (FlushAFreeSlot S t) sp u \<Longrightarrow> freeAt S sp u"
proof -
  note D = cal_invD [OF assms]
  have fst_eq: "map fst (FlushAFreeSlot S t) = map fst S" by (simp add: FlushAFreeSlot_def comp_def case_prod_unfold)
  have el: "\<exists>e0\<in>set S. fst e = fst e0 \<and> set (snd e) \<subseteq> set (snd e0) \<and> om_wf (snd e)" if e: "e \<in> set (FlushAFreeSlot S t)" for e
  proof -
    obtain e0 where e0: "e0 \<in> set S" "e = (fst e0, dropWhile (\<lambda>f. snd f < t) (snd e0))" using e by (auto simp: FlushAFreeSlot_def)
    have "om_wf (takeWhile (\<lambda>f. snd f < t) (snd e0) @ dropWhile (\<lambda>f. snd f < t) (snd e0))" using D(3) [OF e0(1)] by simp
    then have "om_wf (dropWhile (\<lambda>f. snd f < t) (snd e0))" unfolding om_wf_append by blast
    then show ?thesis using e0 by (auto intro!: bexI [of _ e0] dest: set_dropWhileD)
  qed
  have sub: "slotsOf (FlushAFreeSlot S t) \<subseteq> slotsOf S" using el unfolding slotsOf_def by fastforce
  have bk: "bucketFor (FlushAFreeSlot S t) k n \<longleftrightarrow> bucketFor S k n" for k n
  proof -
    have *: "bucketFor T k n \<longleftrightarrow> unat k \<le> n \<and> (\<forall>j\<in>set (map fst T). unat j \<le> n \<longrightarrow> j \<le> k)" for T by (auto simp: bucketFor_def)
    show ?thesis unfolding * fst_eq ..
  qed
  have "om_wf (FlushAFreeSlot S t)" using D(1) fst_eq by (simp add: om_wf_def)
  moreover have "FlushAFreeSlot S t \<noteq> []" using D(2) by (simp add: FlushAFreeSlot_def)
  moreover have "om_wf (snd e) \<and> (\<forall>x\<in>set (snd e). bucketFor S (fst e) (slotLength x))" if "e \<in> set (FlushAFreeSlot S t)" for e
  proof -
    from el [OF that] obtain e0 where "e0 \<in> set S" "fst e = fst e0" "set (snd e) \<subseteq> set (snd e0)" "om_wf (snd e)" by blast
    then show ?thesis using D(4) [of e0] by auto
  qed
  ultimately show "cal_inv (FlushAFreeSlot S t) sp" unfolding cal_inv_def bk using sub D(5,6,7) by blast
  show "freeAt (FlushAFreeSlot S t) sp u \<Longrightarrow> freeAt S sp u" using sub unfolding freeAt_def by blast
qed

lemma FlushATimeSlot_length: "length (fst (FlushATimeSlotBusyTime ms t b)) \<le> length ms"
  by (induction ms t b rule: FlushATimeSlotBusyTime.induct) auto

lemma FlushTimeSlots_frame [simp]:
  "chFreeSlots (FlushTimeSlots C t s) = chFreeSlots s" "chStartPoint (FlushTimeSlots C t s) = chStartPoint s"
  "dieFreeSlots (FlushTimeSlots C t s) = dieFreeSlots s" "dieStartPoint (FlushTimeSlots C t s) = dieStartPoint s"
  "length (mergedTimeSlots (FlushTimeSlots C t s)) \<le> length (mergedTimeSlots s)"
  using FlushATimeSlot_length [of "mergedTimeSlots s" t "exactBusyTime s"] by (simp_all add: FlushTimeSlots_def Let_def case_prod_unfold)

lemma FlushTimeSlots_inv: "pal2_inv M s \<Longrightarrow> pal2_inv M (FlushTimeSlots C t s)"
  using FlushTimeSlots_frame(5) [of C t s] unfolding pal2_inv_def FlushTimeSlots_frame(1-4) by (elim conjE) (intro conjI, assumption+, linarith)

lemma flush_keeps_inv:
  assumes "pal2_inv M s"
  shows "pal2_inv M (FlushFreeSlots C t s)"
    "i < length (chFreeSlots s) \<Longrightarrow> chFree (FlushFreeSlots C t s) i u \<Longrightarrow> chFree s i u"
    "i < length (dieFreeSlots s) \<Longrightarrow> dieFree (FlushFreeSlots C t s) i u \<Longrightarrow> dieFree s i u"
proof -
  have "pal2_inv M (s\<lparr>chFreeSlots := map (\<lambda>S. FlushAFreeSlot S t) (chFreeSlots s), dieFreeSlots := map (\<lambda>S. FlushAFreeSlot S t) (dieFreeSlots s)\<rparr>)"
    using assms FlushAFreeSlot_inv(1) by (simp add: pal2_inv_def)
  then show "pal2_inv M (FlushFreeSlots C t s)" unfolding FlushFreeSlots_def by (rule FlushTimeSlots_inv)
  show "i < length (chFreeSlots s) \<Longrightarrow> chFree (FlushFreeSlots C t s) i u \<Longrightarrow> chFree s i u"
    "i < length (dieFreeSlots s) \<Longrightarrow> dieFree (FlushFreeSlots C t s) i u \<Longrightarrow> dieFree s i u"
    using assms FlushAFreeSlot_inv(2) by (simp_all add: pal2_inv_def chFree_def dieFree_def FlushFreeSlots_def)
qed

section \<open>Page numbers\<close>

lemma radix_step:
  fixes r :: nat assumes "r < n" shows "(r + n * q) div n = q" "(r + n * q) mod n = r"
  using assms by auto

lemma radix_lt: "c < s \<Longrightarrow> y < n \<Longrightarrow> c + s * y < s * (n :: nat)"
  using mult_le_mono2 [of "Suc y" n s] by simp

lemma ucast_nat: "(ucast (w :: u32) :: u64) = word_of_nat (unat w)"
  by simp

text \<open>The sizes do not overflow, and the address lies inside them.\<close>

definition ppn_ok :: "'st pal_ctx \<Rightarrow> cpdpbp \<Rightarrow> bool" where
  "ppn_ok C a \<longleftrightarrow> (let p = pcParam C in
     unat (cpChannel a) < unat (fpChannel p) \<and> unat (cpPackage a) < unat (fpPackage p) \<and> unat (cpDie a) < unat (fpDie p) \<and>
     unat (cpPlane a) < unat (planeSize C) \<and> unat (cpBlock a) < unat (fpBlock p) \<and> unat (cpPage a) < unat (fpPage p) \<and>
     unat (fpChannel p) * unat (fpPackage p) * unat (fpDie p) * unat (planeSize C) * unat (fpBlock p) * unat (fpPage p) < 2 ^ 32)"

lemma PPN_products:
  fixes C :: "'st pal_ctx"
  assumes "ppn_ok C a"
  obtains c k d l b g where
    "c = unat (fpChannel (pcParam C))" "k = unat (fpPackage (pcParam C))" "d = unat (fpDie (pcParam C))" "l = unat (planeSize C)" "b = unat (fpBlock (pcParam C))"
    "g = unat (fpPage (pcParam C))" "0 < c" "0 < k" "0 < d" "0 < l" "0 < b"
    "unat (fpChannel (pcParam C) * fpPackage (pcParam C)) = c * k"
    "unat (fpChannel (pcParam C) * fpPackage (pcParam C) * fpDie (pcParam C)) = c * k * d"
    "unat (fpChannel (pcParam C) * fpPackage (pcParam C) * fpDie (pcParam C) * planeSize C) = c * k * d * l"
    "unat (fpChannel (pcParam C) * fpPackage (pcParam C) * fpDie (pcParam C) * planeSize C * fpBlock (pcParam C)) = c * k * d * l * b"
    "c * k * d * l * b * g < 2 ^ 32"
proof -
  define c k d l b g where "c = unat (fpChannel (pcParam C))" "k = unat (fpPackage (pcParam C))" "d = unat (fpDie (pcParam C))" "l = unat (planeSize C)"
    "b = unat (fpBlock (pcParam C))" "g = unat (fpPage (pcParam C))"
  have pos: "0 < c" "0 < k" "0 < d" "0 < l" "0 < b" "0 < g" and lim: "c * k * d * l * b * g < 2 ^ 32"
    using assms by (auto simp: ppn_ok_def Let_def c_k_d_l_b_g_def)
  have mono: "x \<le> x * y" if "0 < y" for x y :: nat using that by simp
  have 5: "c * k * d * l * b < 2 ^ 32" using mono [of g "c * k * d * l * b"] pos(6) lim by linarith
  have 4: "c * k * d * l < 2 ^ 32" using mono [of b "c * k * d * l"] pos(5) 5 by linarith
  have 3: "c * k * d < 2 ^ 32" using mono [of l "c * k * d"] pos(4) 4 by linarith
  have 2: "c * k < 2 ^ 32" using mono [of d "c * k"] pos(3) 3 by linarith
  note u2 = unat_mult32 [of "fpChannel (pcParam C)" "fpPackage (pcParam C)", folded c_k_d_l_b_g_def, OF 2]
  note u3 = unat_mult32 [of "fpChannel (pcParam C) * fpPackage (pcParam C)" "fpDie (pcParam C)", folded c_k_d_l_b_g_def, unfolded u2, OF 3]
  note u4 = unat_mult32 [of "fpChannel (pcParam C) * fpPackage (pcParam C) * fpDie (pcParam C)" "planeSize C", folded c_k_d_l_b_g_def, unfolded u3, OF 4]
  note u5 = unat_mult32 [of "fpChannel (pcParam C) * fpPackage (pcParam C) * fpDie (pcParam C) * planeSize C" "fpBlock (pcParam C)", folded c_k_d_l_b_g_def, unfolded u4, OF 5]
  show thesis by (rule that [OF c_k_d_l_b_g_def pos(1-5) u2 u3 u4 u5 lim])
qed

lemma PPN_roundtrip:
  assumes ok: "ppn_ok C a"
  shows "unat (AssemblePPN C a) < 2 ^ 32" "PPNdisassemble C (AssemblePPN C a) a' = Inr (a\<lparr>cpSlpn := cpSlpn a'\<rparr>)"
proof -
  obtain c k d l b g where s: "c = unat (fpChannel (pcParam C))" "k = unat (fpPackage (pcParam C))" "d = unat (fpDie (pcParam C))" "l = unat (planeSize C)"
      "b = unat (fpBlock (pcParam C))" "g = unat (fpPage (pcParam C))" and pos: "0 < c" "0 < k" "0 < d" "0 < l" "0 < b"
    and u: "unat (fpChannel (pcParam C) * fpPackage (pcParam C)) = c * k"
      "unat (fpChannel (pcParam C) * fpPackage (pcParam C) * fpDie (pcParam C)) = c * k * d"
      "unat (fpChannel (pcParam C) * fpPackage (pcParam C) * fpDie (pcParam C) * planeSize C) = c * k * d * l"
      "unat (fpChannel (pcParam C) * fpPackage (pcParam C) * fpDie (pcParam C) * planeSize C * fpBlock (pcParam C)) = c * k * d * l * b"
    and lim: "c * k * d * l * b * g < 2 ^ 32" by (rule PPN_products [OF ok]) blast
  define v1 v2 v3 v4 v5 v6 where v: "v1 = unat (cpChannel a)" "v2 = unat (cpPackage a)" "v3 = unat (cpDie a)" "v4 = unat (cpPlane a)" "v5 = unat (cpBlock a)" "v6 = unat (cpPage a)"
  have lt: "v1 < c" "v2 < k" "v3 < d" "v4 < l" "v5 < b" "v6 < g" using ok by (simp_all add: ppn_ok_def Let_def s v)
  have r2: "v1 + c * v2 < c * k" using radix_lt lt by blast
  have r3: "v1 + c * v2 + c * k * v3 < c * k * d" using radix_lt [OF r2 lt(3)] .
  have r4: "v1 + c * v2 + c * k * v3 + c * k * d * v4 < c * k * d * l" using radix_lt [OF r3 lt(4)] .
  have r5: "v1 + c * v2 + c * k * v3 + c * k * d * v4 + c * k * d * l * v5 < c * k * d * l * b" using radix_lt [OF r4 lt(5)] .
  have r6: "v1 + c * v2 + c * k * v3 + c * k * d * v4 + c * k * d * l * v5 + c * k * d * l * b * v6 < c * k * d * l * b * g" using radix_lt [OF r5 lt(6)] .
  have p: "unat (cpPackage a * fpChannel (pcParam C)) = c * v2"
    "unat (cpDie a * (fpChannel (pcParam C) * fpPackage (pcParam C))) = c * k * v3"
    "unat (cpPlane a * (fpChannel (pcParam C) * fpPackage (pcParam C) * fpDie (pcParam C))) = c * k * d * v4"
    "unat (cpBlock a * (fpChannel (pcParam C) * fpPackage (pcParam C) * fpDie (pcParam C) * planeSize C)) = c * k * d * l * v5"
    "unat (cpPage a * (fpChannel (pcParam C) * fpPackage (pcParam C) * fpDie (pcParam C) * planeSize C * fpBlock (pcParam C))) = c * k * d * l * b * v6"
    by (subst unat_mult32; use r6 lim in \<open>simp add: u s(1) [symmetric] v [symmetric] mult.commute [of v2] mult.commute [of v3] mult.commute [of v4] mult.commute [of v5] mult.commute [of v6]\<close>)+
  define x where "x = v1 + c * v2 + c * k * v3 + c * k * d * v4 + c * k * d * l * v5 + c * k * d * l * b * v6"
  have x32: "x < 2 ^ 32" using r6 lim by (simp add: x_def)
  have "AssemblePPN C a = word_of_nat x" unfolding AssemblePPN_def Let_def ucast_nat p x_def by (simp add: v)
  then have ux: "unat (AssemblePPN C a) = x" using x32 by (simp add: unat_of_nat take_bit_nat_eq_self)
  then show "unat (AssemblePPN C a) < 2 ^ 32" using x32 by simp
  have dv: "unat (ucast w :: u64) = unat w" for w :: u32
    using unsigned_less [where ?'a = nat, of w] by (simp add: unsigned_ucast_eq take_bit_nat_eq_self)
  have narrow: "ucast (w :: u64) = (y :: u32)" if "unat w = unat y" for w y
    using that unsigned_less [where ?'a = nat, of y] by (simp add: word_unat_eq_iff unsigned_ucast_eq take_bit_nat_eq_self)
  let ?x = "AssemblePPN C a"
  let ?d0 = "ucast (fpChannel (pcParam C) * fpPackage (pcParam C) * fpDie (pcParam C) * planeSize C * fpBlock (pcParam C)) :: u64"
    and ?d1 = "ucast (fpChannel (pcParam C) * fpPackage (pcParam C) * fpDie (pcParam C) * planeSize C) :: u64"
    and ?d2 = "ucast (fpChannel (pcParam C) * fpPackage (pcParam C) * fpDie (pcParam C)) :: u64"
    and ?d3 = "ucast (fpChannel (pcParam C) * fpPackage (pcParam C)) :: u64" and ?d4 = "ucast (fpChannel (pcParam C)) :: u64"
  have d0: "unat ?d0 = c * k * d * l * b" "unat ?d1 = c * k * d * l" "unat ?d2 = c * k * d" "unat ?d3 = c * k" "unat ?d4 = c"
    unfolding dv by (simp_all add: u s(1))
  have nz: "?d0 \<noteq> 0" "?d1 \<noteq> 0" "?d2 \<noteq> 0" "?d3 \<noteq> 0" "?d4 \<noteq> 0" using d0 pos by auto
  have q0: "unat (?x div ?d0) = v6" "unat (?x mod ?d0) = v1 + c * v2 + c * k * v3 + c * k * d * v4 + c * k * d * l * v5"
    unfolding unat_div unat_mod ux d0 x_def using radix_step [OF r5, of v6] by simp_all
  have q1: "unat (?x mod ?d0 div ?d1) = v5" "unat (?x mod ?d0 mod ?d1) = v1 + c * v2 + c * k * v3 + c * k * d * v4"
    unfolding unat_div [of "?x mod ?d0"] unat_mod [of "?x mod ?d0"] q0(2) d0 using radix_step [OF r4, of v5] by simp_all
  have q2: "unat (?x mod ?d0 mod ?d1 div ?d2) = v4" "unat (?x mod ?d0 mod ?d1 mod ?d2) = v1 + c * v2 + c * k * v3"
    unfolding unat_div [of "?x mod ?d0 mod ?d1"] unat_mod [of "?x mod ?d0 mod ?d1"] q1(2) d0 using radix_step [OF r3, of v4] by simp_all
  have q3: "unat (?x mod ?d0 mod ?d1 mod ?d2 div ?d3) = v3" "unat (?x mod ?d0 mod ?d1 mod ?d2 mod ?d3) = v1 + c * v2"
    unfolding unat_div [of "?x mod ?d0 mod ?d1 mod ?d2"] unat_mod [of "?x mod ?d0 mod ?d1 mod ?d2"] q2(2) d0 using radix_step [OF r2, of v3] by simp_all
  have q4: "unat (?x mod ?d0 mod ?d1 mod ?d2 mod ?d3 div ?d4) = v2" "unat (?x mod ?d0 mod ?d1 mod ?d2 mod ?d3 mod ?d4) = v1"
    unfolding unat_div [of "?x mod ?d0 mod ?d1 mod ?d2 mod ?d3"] unat_mod [of "?x mod ?d0 mod ?d1 mod ?d2 mod ?d3"] q3(2) d0
    using radix_step [OF lt(1), of v2] by simp_all
  note f = narrow [OF q0(1) [unfolded v]] narrow [OF q1(1) [unfolded v]] narrow [OF q2(1) [unfolded v]] narrow [OF q3(1) [unfolded v]]
    narrow [OF q4(1) [unfolded v]] narrow [OF q4(2) [unfolded v]]
  show "PPNdisassemble C (AssemblePPN C a) a' = Inr (a\<lparr>cpSlpn := cpSlpn a'\<rparr>)"
    using nz unfolding PPNdisassemble_def Let_def f by simp
qed

section \<open>The parameters of a configuration\<close>

text \<open>Dimensions for which the products of \<open>PAL_parameter\<close> stay within 32 bits.\<close>

definition dims_ok :: "pal_config \<Rightarrow> bool" where
  "dims_ok c \<longleftrightarrow> 0 < pcfPageSize c \<and> 0 < pcfChannel c \<and> 0 < pcfPackage c \<and> 0 < pcfDie c \<and> 0 < pcfPlane c \<and>
     unat (pcfPageSize c) * unat (pcfChannel c) * unat (pcfPackage c) * unat (pcfDie c) * unat (pcfPlane c) < 2 ^ 32 \<and>
     unat (pcfBlock c) * unat (pcfChannel c) * unat (pcfPackage c) * unat (pcfDie c) * unat (pcfPlane c) < 2 ^ 32"

definition in_device :: "flash_param \<Rightarrow> cpdpbp \<Rightarrow> bool" where
  "in_device p a \<longleftrightarrow> cpChannel a < fpChannel p \<and> cpPackage a < fpPackage p \<and> cpDie a < fpDie p \<and> cpPlane a < fpPlane p \<and>
     cpBlock a < fpBlock p \<and> cpPage a < fpPage p"

lemma in_device_flash: "in_flash p a \<Longrightarrow> cpBlock a < fpBlock p \<Longrightarrow> cpPage a < fpPage p \<Longrightarrow> in_device p a"
  unfolding in_flash_def in_device_def word_less_nat_alt by (metis cp_field.simps(13-16) fieldSize_def getField_def)

lemma UNIV_field: "(UNIV :: cp_field set) = {F_Channel, F_Package, F_Die, F_Plane}"
proof -
  have "x \<in> {F_Channel, F_Package, F_Die, F_Plane}" for x by (cases x) auto
  then show ?thesis by auto
qed

text \<open>The product over chosen dimensions, in whatever order the page allocation names them.\<close>

lemma dims_product:
  assumes "allocation_ok c"
  shows "(\<Prod>f\<leftarrow>filter Q (fieldsAt c [0..<4]). g f) =
    (if Q F_Channel then g F_Channel else 1) * (if Q F_Package then g F_Package else 1) *
    (if Q F_Die then g F_Die else 1) * (if Q F_Plane then g F_Plane else (1 :: nat))"
proof -
  let ?fs = "fieldsAt c [0..<4]"
  have d: "distinct ?fs" "set ?fs = UNIV" using assms by (simp_all add: allocation_ok_def)
  have "(\<Prod>f\<leftarrow>filter Q ?fs. g f) = prod g (set (filter Q ?fs))"
    by (rule prod.distinct_set_conv_list [symmetric]) (simp add: d(1))
  also have "\<dots> = prod g {f \<in> UNIV. Q f}" using d(2) by simp
  also have "\<dots> = (\<Prod>f\<in>UNIV. if Q f then g f else 1)" by (rule prod.inter_filter) (simp add: UNIV_field)
  finally show ?thesis by (simp add: UNIV_field mult.assoc)
qed

lemma radixNumber_rest_product: "(\<Prod>f\<leftarrow>fs. unat (fieldSize p f)) * rest \<le> radixNumber p fs a rest"
proof (induction fs)
  case (Cons f fs)
  have "(\<Prod>f\<leftarrow>f # fs. unat (fieldSize p f)) * rest = unat (fieldSize p f) * ((\<Prod>f\<leftarrow>fs. unat (fieldSize p f)) * rest)" by simp
  also have "\<dots> \<le> unat (fieldSize p f) * radixNumber p fs a rest" using Cons by (rule mult_le_mono2)
  also have "\<dots> \<le> radixNumber p (f # fs) a rest" unfolding radixNumber_def foldr.simps comp_def by (rule le_add2)
  finally show ?case .
qed (simp add: radixNumber_def)

lemma superDim_unat:
  assumes "unat (fpSuperPageSize p) * unat n < 2 ^ 32" "unat (fpSuperBlock p) * unat n < 2 ^ 32"
  shows "unat (fpSuperPageSize (superDim b n p)) = unat (fpSuperPageSize p) * (if b then unat n else 1)"
    "unat (fpSuperBlock (superDim b n p)) = unat (fpSuperBlock p) * (if b then 1 else unat n)"
  using assms by (simp_all add: superDim_def unat_mult32)

lemma superDim_frame [simp]:
  "fpChannel (superDim b n p) = fpChannel p" "fpPackage (superDim b n p) = fpPackage p" "fpDie (superDim b n p) = fpDie p"
  "fpPlane (superDim b n p) = fpPlane p" "fpBlock (superDim b n p) = fpBlock p" "fpPage (superDim b n p) = fpPage p"
  by (simp_all add: superDim_def)

lemma PAL_parameter_values:
  assumes "PAL_parameter c = Inr p" "dims_ok c"
  shows "fpChannel p = pcfChannel c" "fpPackage p = pcfPackage c" "fpDie p = pcfDie c" "fpPlane p = pcfPlane c"
    "fpBlock p = pcfBlock c" "fpPage p = pcfPage c"
    and "unat (fpSuperBlock p) = unat (pcfBlock c) * (if inSuper c F_Channel then 1 else unat (pcfChannel c)) *
       (if inSuper c F_Package then 1 else unat (pcfPackage c)) * (if inSuper c F_Die then 1 else unat (pcfDie c)) *
       (if pcfMultiPlane c \<or> inSuper c F_Plane then 1 else unat (pcfPlane c))"
    and "unat (fpPageInSuperPage p) = (if inSuper c F_Channel then unat (pcfChannel c) else 1) *
       (if inSuper c F_Package then unat (pcfPackage c) else 1) * (if inSuper c F_Die then unat (pcfDie c) else 1) *
       (if \<not> pcfMultiPlane c \<and> inSuper c F_Plane then unat (pcfPlane c) else 1)"
proof -
  define p0 where "p0 = \<lparr>fpChannel = pcfChannel c, fpPackage = pcfPackage c, fpDie = pcfDie c, fpPlane = pcfPlane c, fpBlock = pcfBlock c,
               fpPage = pcfPage c, fpSuperBlock = pcfBlock c, fpPageSize = pcfPageSize c, fpSuperPageSize = pcfPageSize c,
               fpPageInSuperPage = 0\<rparr>"
  define p1 where "p1 = superDim (inSuper c F_Channel) (pcfChannel c) p0"
  define p2 where "p2 = superDim (inSuper c F_Package) (pcfPackage c) p1"
  define p3 where "p3 = superDim (inSuper c F_Die) (pcfDie c) p2"
  define p4 where "p4 = superDim (pcfMultiPlane c \<or> inSuper c F_Plane) (pcfPlane c) p3"
  let ?C = "unat (pcfChannel c)" and ?K = "unat (pcfPackage c)" and ?D = "unat (pcfDie c)" and ?L = "unat (pcfPlane c)"
    and ?P = "unat (pcfPageSize c)" and ?B = "unat (pcfBlock c)"
  have pos: "0 < ?C" "0 < ?K" "0 < ?D" "0 < ?L" "0 < ?P" using assms(2) by (simp_all add: dims_ok_def word_less_nat_alt)
  have grow: "x \<le> x * y" if "0 < y" for x y :: nat using that by (cases y) auto
  have bound: "X * ?C < 2 ^ 32" "X * ?C * ?K < 2 ^ 32" "X * ?C * ?K * ?D < 2 ^ 32" "X * ?C * ?K * ?D * ?L < 2 ^ 32"
    if "X * ?C * ?K * ?D * ?L < 2 ^ 32" for X
    using that grow [OF pos(2), of "X * ?C"] grow [OF pos(3), of "X * ?C * ?K"] grow [OF pos(4), of "X * ?C * ?K * ?D"] by linarith+
  have BP: "?P * ?C * ?K * ?D * ?L < 2 ^ 32" "?B * ?C * ?K * ?D * ?L < 2 ^ 32" using assms(2) by (simp_all add: dims_ok_def)
  note bP = bound [OF BP(1)] and bB = bound [OF BP(2)]
  have step: "unat (fpSuperPageSize (superDim b n q)) = unat (fpSuperPageSize q) * (if b then unat n else 1) \<and>
      unat (fpSuperBlock (superDim b n q)) = unat (fpSuperBlock q) * (if b then 1 else unat n) \<and>
      unat (fpSuperPageSize (superDim b n q)) \<le> X * unat n \<and> unat (fpSuperBlock (superDim b n q)) \<le> Y * unat n"
    if "unat (fpSuperPageSize q) \<le> X" "unat (fpSuperBlock q) \<le> Y" "X * unat n < 2 ^ 32" "Y * unat n < 2 ^ 32" "0 < unat n"
    for b n q X Y
  proof -
    have l: "unat (fpSuperPageSize q) * unat n \<le> X * unat n" "unat (fpSuperBlock q) * unat n \<le> Y * unat n"
      using that(1,2) by (simp_all add: mult_le_mono1)
    have "unat (fpSuperPageSize q) \<le> unat (fpSuperPageSize q) * unat n" "unat (fpSuperBlock q) \<le> unat (fpSuperBlock q) * unat n"
      using grow [OF that(5)] by blast+
    note g = this
    note e = superDim_unat [OF le_less_trans [OF l(1) that(3)] le_less_trans [OF l(2) that(4)], of b]
    have "unat (fpSuperPageSize q) \<le> X * unat n" "unat (fpSuperBlock q) \<le> Y * unat n" using l g by (blast intro: order_trans)+
    then show ?thesis unfolding e using l by (cases b) simp_all
  qed
  have s0: "unat (fpSuperPageSize p0) = ?P" "unat (fpSuperBlock p0) = ?B" by (simp_all add: p0_def)
  have s1: "unat (fpSuperPageSize p1) = ?P * (if inSuper c F_Channel then ?C else 1) \<and>
      unat (fpSuperBlock p1) = ?B * (if inSuper c F_Channel then 1 else ?C) \<and> unat (fpSuperPageSize p1) \<le> ?P * ?C \<and> unat (fpSuperBlock p1) \<le> ?B * ?C"
    unfolding p1_def using step [of p0 ?P ?B "pcfChannel c"] s0 bP(1) bB(1) pos(1) by simp
  have s2: "unat (fpSuperPageSize p2) = unat (fpSuperPageSize p1) * (if inSuper c F_Package then ?K else 1) \<and>
      unat (fpSuperBlock p2) = unat (fpSuperBlock p1) * (if inSuper c F_Package then 1 else ?K) \<and>
      unat (fpSuperPageSize p2) \<le> ?P * ?C * ?K \<and> unat (fpSuperBlock p2) \<le> ?B * ?C * ?K"
    unfolding p2_def by (rule step) (use s1 bP(2) bB(2) pos(2) in blast)+
  have s3: "unat (fpSuperPageSize p3) = unat (fpSuperPageSize p2) * (if inSuper c F_Die then ?D else 1) \<and>
      unat (fpSuperBlock p3) = unat (fpSuperBlock p2) * (if inSuper c F_Die then 1 else ?D) \<and>
      unat (fpSuperPageSize p3) \<le> ?P * ?C * ?K * ?D \<and> unat (fpSuperBlock p3) \<le> ?B * ?C * ?K * ?D"
    unfolding p3_def by (rule step) (use s2 bP(3) bB(3) pos(3) in blast)+
  have s4: "unat (fpSuperPageSize p4) = unat (fpSuperPageSize p3) * (if pcfMultiPlane c \<or> inSuper c F_Plane then ?L else 1) \<and>
      unat (fpSuperBlock p4) = unat (fpSuperBlock p3) * (if pcfMultiPlane c \<or> inSuper c F_Plane then 1 else ?L) \<and>
      unat (fpSuperPageSize p4) \<le> ?P * ?C * ?K * ?D * ?L \<and> unat (fpSuperBlock p4) \<le> ?B * ?C * ?K * ?D * ?L"
    unfolding p4_def by (rule step) (use s3 bP(4) bB(4) pos(4) in blast)+
  have p: "p = p4\<lparr>fpPageInSuperPage := if pcfMultiPlane c then fpSuperPageSize p4 div pcfPageSize c div pcfPlane c
      else fpSuperPageSize p4 div pcfPageSize c\<rparr>"
    using assms(1) unfolding PAL_parameter_def p4_def p3_def p2_def p1_def p0_def inSuper_def fieldIndex_def Let_def
    by (auto split: if_splits)
  have f4: "fpChannel p4 = pcfChannel c" "fpPackage p4 = pcfPackage c" "fpDie p4 = pcfDie c" "fpPlane p4 = pcfPlane c"
    "fpBlock p4 = pcfBlock c" "fpPage p4 = pcfPage c"
    by (simp_all add: p4_def p3_def p2_def p1_def p0_def)
  then show "fpChannel p = pcfChannel c" "fpPackage p = pcfPackage c" "fpDie p = pcfDie c" "fpPlane p = pcfPlane c"
    "fpBlock p = pcfBlock c" "fpPage p = pcfPage c" by (simp_all add: p)
  show "unat (fpSuperBlock p) = ?B * (if inSuper c F_Channel then 1 else ?C) *
       (if inSuper c F_Package then 1 else ?K) * (if inSuper c F_Die then 1 else ?D) *
       (if pcfMultiPlane c \<or> inSuper c F_Plane then 1 else ?L)"
    using s1 s2 s3 s4 by (simp add: p)
  have "unat (fpSuperPageSize p4) = ?P * ((if inSuper c F_Channel then ?C else 1) * (if inSuper c F_Package then ?K else 1) *
      (if inSuper c F_Die then ?D else 1) * (if pcfMultiPlane c \<or> inSuper c F_Plane then ?L else 1))"
    using s1 s2 s3 s4 by (simp add: mult.assoc)
  then have "unat (fpSuperPageSize p4 div pcfPageSize c) = (if inSuper c F_Channel then ?C else 1) * (if inSuper c F_Package then ?K else 1) *
      (if inSuper c F_Die then ?D else 1) * (if pcfMultiPlane c \<or> inSuper c F_Plane then ?L else 1)"
    using pos(5) by (simp add: unat_div)
  then show "unat (fpPageInSuperPage p) = (if inSuper c F_Channel then ?C else 1) *
       (if inSuper c F_Package then ?K else 1) * (if inSuper c F_Die then ?D else 1) *
       (if \<not> pcfMultiPlane c \<and> inSuper c F_Plane then ?L else 1)"
    using pos(4) by (simp add: p unat_div)
qed

text \<open>The super page has as many pages as the parameters say, and block numbers below the number of super blocks are blocks of the device.\<close>

lemma fieldSize_values:
  assumes "PAL_parameter c = Inr p" "dims_ok c"
  shows "fieldSize p F_Channel = pcfChannel c" "fieldSize p F_Package = pcfPackage c" "fieldSize p F_Die = pcfDie c" "fieldSize p F_Plane = pcfPlane c"
  using PAL_parameter_values(1-4) [OF assms] by (simp_all add: fieldSize_def)

lemma pagesPerSuper_parameter:
  assumes "PAL_parameter c = Inr p" "dims_ok c" "allocation_ok c"
  shows "unat (fpPageInSuperPage p) = pagesPerSuper c p"
  unfolding pagesPerSuper_def spanDims_def dims_product [OF assms(3)] fieldSize_values [OF assms(1,2)] PAL_parameter_values(8) [OF assms(1,2)]
  by (simp add: skipped_def)

lemma block_in_device:
  assumes "PAL_parameter c = Inr p" "dims_ok c" "allocation_ok c" "blockNumber c p a < unat (fpSuperBlock p)"
  shows "cpBlock a < fpBlock p"
proof -
  let ?own = "(\<Prod>f\<leftarrow>ownDims c (fieldsAt c [0..<4]). unat (fieldSize p f))"
  have "?own * unat (cpBlock a) \<le> blockNumber c p a" unfolding blockNumber_def by (rule radixNumber_rest_product)
  moreover have "unat (fpSuperBlock p) = ?own * unat (fpBlock p)"
    unfolding ownDims_def dims_product [OF assms(3)] fieldSize_values [OF assms(1,2)] PAL_parameter_values(5,7) [OF assms(1,2)]
    by (simp add: skipped_def ac_simps)
  ultimately have "?own * unat (cpBlock a) < ?own * unat (fpBlock p)" using assms(4) by linarith
  then show ?thesis by (simp add: word_less_nat_alt)
qed

end
