(* ===== verification/PAL_Props.thy ===== *)
theory PAL_Props
  imports PALOld_Inv
begin

text \<open>
  The properties of the parallelism abstraction layer: addresses, the flash timeline and page
  numbers. Each theorem with hypotheses is followed by an instance on a small device.
\<close>

section \<open>A small device\<close>

text \<open>Two channels in a super page, four blocks of four pages, 16 KiB pages at 400 MT/s, single-level cells.\<close>

definition exParam :: flash_param where
  "exParam = \<lparr>fpChannel = 2, fpPackage = 1, fpDie = 1, fpPlane = 1, fpBlock = 4, fpPage = 4, fpSuperBlock = 4, fpPageSize = 16384,
     fpSuperPageSize = 32768, fpPageInSuperPage = 2\<rparr>"

definition exPCfg :: pal_config where
  "exPCfg = \<lparr>pcfChannel = 2, pcfPackage = 1, pcfDie = 1, pcfPlane = 1, pcfBlock = 4, pcfPage = 4, pcfPageSize = 16384, pcfMultiPlane = False,
     pcfSuperblock = 1, pcfPageAllocation = 0x08040201, pcfRandomTweak = False\<rparr>"

definition exTiming :: nand_timing where
  "exTiming = \<lparr>ntLsb = \<lparr>ptRead = 25, ptWrite = 300\<rparr>, ntCsb = \<lparr>ptRead = 25, ptWrite = 300\<rparr>, ntMsb = \<lparr>ptRead = 25, ptWrite = 300\<rparr>,
     ntDma0 = \<lparr>dtRead = 1, dtWrite = 185, dtErase = 2\<rparr>, ntDma1 = \<lparr>dtRead = 185, dtWrite = 1, dtErase = 1\<rparr>, ntErase = 2000\<rparr>"

definition exStats :: "nat pal_stats" where
  "exStats = \<lparr>psUpdateLastTick = (\<lambda>n t. Suc n), psAddLatency = (\<lambda>n c a i t0 tm t1 cf. Suc n), psMergeSnapshot = Suc, psAccessUpdate = Suc, psTicksUpdate = Suc\<rparr>"

definition exPal :: "nat pal_ctx" where
  "exPal = \<lparr>pcParam = exParam, pcNand = NAND_SLC, pcTiming = exTiming, pcMultiPlane = False, pcDmaSpeed = 400, pcStats = exStats\<rparr>"

definition exAddr :: cpdpbp where
  "exAddr = \<lparr>cpChannel = 1, cpPackage = 0, cpDie = 0, cpPlane = 0, cpBlock = 3, cpPage = 2, cpSlpn = 0\<rparr>"

definition exX :: "nat palold_ctx" where
  "exX = \<lparr>pxConfig = exPCfg, pxCtx = exPal, pxAddr0 = exAddr\<rparr>"

definition exReq :: pal_request where
  "exReq = (PAL_Request_new 2)\<lparr>prBlockIndex := 3, prPageIndex := 2, prIoFlag := Bitset_set_all (Bitset_new 2)\<rparr>"

definition exPal2 :: "nat pal2" where
  "exPal2 = (case PAL2_new exPal 0 of Inr s \<Rightarrow> s | Inl _ \<Rightarrow> undefined)"

definition exState :: "nat palold" where
  "exState = \<lparr>poPal = exPal2, poReadCount = 0, poWriteCount = 0, poEraseCount = 0, poLastResetTick = 0\<rparr>"

lemma exPal_new: "PAL2_new exPal 0 = Inr exPal2"
  by (simp add: exPal2_def PAL2_new_def exPal_def exParam_def Let_def)

lemma exPal2_inv: "pal2_inv 0 exPal2" "sized exParam exPal2"
  using PAL2_new_inv [OF exPal_new] by (simp_all add: exPal_def exParam_def)

lemma ex_fields: "fieldsAt exPCfg [0..<4] = [F_Channel, F_Package, F_Die, F_Plane]"
  by (simp add: fieldsAt_def upt_rec allocIndex_def exPCfg_def fieldOf_def INDEX_CHANNEL_def INDEX_PACKAGE_def INDEX_DIE_def INDEX_PLANE_def map_filter_simps)

lemma ex_dims: "pagesPerSuper exPCfg exParam = 2" "allocation_ok exPCfg" "0 < unat (fieldSize exParam f)"
proof -
  show "pagesPerSuper exPCfg exParam = 2"
    unfolding pagesPerSuper_def ex_fields spanDims_def
    by (simp add: skipped_def inSuper_def fieldIndex_def exPCfg_def exParam_def fieldSize_def
        INDEX_CHANNEL_def INDEX_PACKAGE_def INDEX_DIE_def INDEX_PLANE_def)
  have "x \<in> {F_Channel, F_Package, F_Die, F_Plane}" for x by (cases x) auto
  then show "allocation_ok exPCfg" unfolding allocation_ok_def ex_fields by auto
  show "0 < unat (fieldSize exParam f)" by (cases f) (simp_all add: fieldSize_def exParam_def)
qed

lemma ex_simps: "\<not> pcfRandomTweak exPCfg" "unat (fpPageInSuperPage exParam) = 2" "prBlockIndex exReq = 3" "prPageIndex exReq = 2"
  "dataSize (prIoFlag exReq) = 2" "prIoFlag exReq = Bitset_set_all (Bitset_new 2)"
  by (simp_all add: exPCfg_def exParam_def exReq_def Bitset_set_all_def Bitset_new_def Let_def)

section \<open>Addresses\<close>

text \<open>
  C36. The super blocks divide the flash: with the parameters that \<^verbatim>\<open>PAL::PAL\<close> computes from a
  configuration, a request for a page of a super block is turned into one address for each
  flagged unit. The addresses are different, each lies inside the device (channel, package,
  die, plane, block and page), has the requested page index, and the block index can be
  computed back from it, so no two super blocks share a flash page. The page allocation has
  to name all four dimensions, the dimensions to be positive with products that fit 32 bits,
  the request to be within the super blocks and pages, and with the random I/O tweak its
  flags to have the size of a super page (otherwise the code panics).
\<close>

theorem convertCPDPBP_correct:
  assumes "allocation_ok c" "dims_ok c" "PAL_parameter c = Inr p" "prBlockIndex req < unat (fpSuperBlock p)" "prPageIndex req < unat (fpPage p)"
    and "pcfRandomTweak c \<longrightarrow> dataSize (prIoFlag req) = unat (fpPageInSuperPage p)"
  defines "n \<equiv> unat (fpPageInSuperPage p)"
  defines "flag \<equiv> if dataSize (prIoFlag req) \<noteq> n then Bitset_set_all (Bitset_new n) else prIoFlag req"
  shows "runs_to (convertCPDPBP c p addr0 req) (\<lambda>as. distinct as \<and> length as = length (filter (Bitset_test flag) [0..<n]) \<and>
    (\<forall>a\<in>set as. in_device p a \<and> blockNumber c p a = prBlockIndex req \<and> unat (cpPage a) = prPageIndex req))"
proof -
  have n: "n = pagesPerSuper c p" unfolding n_def by (rule pagesPerSuper_parameter [OF assms(3,2,1)])
  have sz: "0 < unat (fieldSize p f)" for f
    using assms(2) fieldSize_values [OF assms(3,2)] by (cases f) (simp_all add: dims_ok_def word_less_nat_alt)
  have lt: "prBlockIndex req < 2 ^ 32" "prPageIndex req < 2 ^ 32"
    using assms(4,5) unsigned_less [where ?'a = nat, of "fpSuperBlock p"] unsigned_less [where ?'a = nat, of "fpPage p"] by simp_all
  obtain pages where cv: "convertCPDPBP c p addr0 req = Inr (map snd (filter (\<lambda>x. Bitset_test flag (fst x)) (enumerate 0 pages)))"
    and pg: "length pages = n" "distinct pages"
      "\<forall>a\<in>set pages. in_flash p a \<and> blockNumber c p a = prBlockIndex req \<and> unat (cpPage a) = prPageIndex req"
    using convert_result [OF assms(1) sz lt n [unfolded n_def] assms(6), of addr0] unfolding flag_def n by auto
  have dev: "in_device p a" if "a \<in> set pages" for a
  proof (rule in_device_flash)
    show "in_flash p a" using pg(3) that by blast
    show "cpBlock a < fpBlock p" using block_in_device [OF assms(3,2,1), of a] pg(3) that assms(4) by auto
    show "cpPage a < fpPage p" using pg(3) that assms(5) by (auto simp: word_less_nat_alt)
  qed
  have e: "enumerate 0 pages = zip [0..<n] pages" using pg(1) by (simp add: enumerate_eq_zip)
  have "distinct (map snd (enumerate 0 pages))" using pg(1,2) by (simp add: e)
  then have "distinct (map snd (filter (\<lambda>x. Bitset_test flag (fst x)) (enumerate 0 pages)))" by (rule distinct_map_filter)
  moreover have "map fst (filter (\<lambda>x. Bitset_test flag (fst x)) (enumerate 0 pages)) = filter (Bitset_test flag) (map fst (enumerate 0 pages))"
    by (simp only: filter_map comp_def)
  from arg_cong [OF this, of length] have "length (filter (\<lambda>x. Bitset_test flag (fst x)) (enumerate 0 pages)) = length (filter (Bitset_test flag) [0..<n])"
    using pg(1) by (simp add: e)
  ultimately show ?thesis using pg(3) dev unfolding cv runs_to_Inr by (auto simp: e dest: set_zip_rightD)
qed

lemma ex_parameter: "PAL_parameter exPCfg = Inr exParam" "dims_ok exPCfg"
  by (simp_all add: PAL_parameter_def superDim_def exPCfg_def exParam_def dims_ok_def Let_def
      INDEX_CHANNEL_def INDEX_PACKAGE_def INDEX_DIE_def INDEX_PLANE_def)

theorem convertCPDPBP_correct_witness:
  "\<exists>as. convertCPDPBP exPCfg exParam exAddr exReq = Inr as \<and> distinct as \<and> length as = 2 \<and> list_all (in_device exParam) as"
proof -
  have "runs_to (convertCPDPBP exPCfg exParam exAddr exReq) (\<lambda>as. distinct as \<and> length as = length (filter (Bitset_test
      (if dataSize (prIoFlag exReq) \<noteq> unat (fpPageInSuperPage exParam) then Bitset_set_all (Bitset_new (unat (fpPageInSuperPage exParam))) else prIoFlag exReq))
        [0..<unat (fpPageInSuperPage exParam)]) \<and>
    (\<forall>a\<in>set as. in_device exParam a \<and> blockNumber exPCfg exParam a = prBlockIndex exReq \<and> unat (cpPage a) = prPageIndex exReq))"
    by (rule convertCPDPBP_correct [OF ex_dims(2) ex_parameter(2,1)]) (simp_all add: ex_simps, simp_all add: exParam_def)
  moreover have "length (filter (Bitset_test (Bitset_set_all (Bitset_new 2))) [0..<2]) = 2"
    by (simp add: Bitset_set_all_def Bitset_new_def Bitset_test_def Let_def upt_rec)
  ultimately show ?thesis by (auto simp: runs_to_iff ex_simps list_all_iff)
qed

section \<open>The timeline\<close>

text \<open>
  C37. The search for free time returns the first slot in which the operation fits at the asked
  time or later, and nothing when there is none; it reports a conflict exactly when that slot
  starts later than asked.
\<close>

theorem FindFreeTime_correct:
  assumes "cal_inv S sp" "0 < unat len" "unat from + unat len \<le> 2 ^ 64" "unat sp + unat len \<le> 2 ^ 64"
  shows "runs_to (FindFreeTime S len from) (\<lambda>(r, conflict). case r of
      None \<Rightarrow> \<not> conflict \<and> (\<forall>x\<in>slotsOf S. \<not> fits len from x)
    | Some t \<Rightarrow> (conflict \<longleftrightarrow> from < t) \<and> (\<exists>x\<in>slotsOf S. fst x = t \<and> fits len from x) \<and> (\<forall>x\<in>slotsOf S. fits len from x \<longrightarrow> t \<le> fst x))"
  using FindFreeTime_earliest [OF assms] by (auto simp: runs_to_iff earliest_def)

definition exSlots :: slots where
  "exSlots = [(5, [(10, 14), (100, 106)]), (20, [(30, 59)])]"

lemma exSlots_inv: "cal_inv exSlots 200"
  by (simp add: cal_inv_def exSlots_def om_wf_def slotsOf_def bucketFor_def slotLength_def apart_def)

theorem FindFreeTime_correct_witness:
  "\<exists>t. FindFreeTime exSlots 6 12 = Inr (Some t, True) \<and> 12 < t \<and> t \<le> 30"
proof -
  have "runs_to (FindFreeTime exSlots 6 12) (\<lambda>(r, conflict). case r of
      None \<Rightarrow> \<not> conflict \<and> (\<forall>x\<in>slotsOf exSlots. \<not> fits 6 12 x)
    | Some t \<Rightarrow> (conflict \<longleftrightarrow> 12 < t) \<and> (\<exists>x\<in>slotsOf exSlots. fst x = t \<and> fits 6 12 x) \<and> (\<forall>x\<in>slotsOf exSlots. fits 6 12 x \<longrightarrow> t \<le> fst x))"
    by (rule FindFreeTime_correct [OF exSlots_inv]) simp_all
  then show ?thesis by (auto simp: runs_to_iff exSlots_def slotsOf_def fits_def max_def split: option.splits)
qed

text \<open>
  C38. A flash command is scheduled on free time only. The scheduling loops end; the command
  transfer starts no earlier than the command arrived, the data transfer follows the memory
  operation, and the command finishes with it. Both transfers were free on the channel and the
  whole operation on the die; afterwards they are not, and no other time became free.
\<close>

theorem TimelineScheduling_no_double_booking:
  fixes s :: "'st pal2"
  assumes "pal2_inv M s" "latencies_ok C" "unat (cmArrived req) \<le> M" "M + latencyTotal C (cpPage a) (cmOperation req) < 2 ^ 63"
    and "unat (cpChannel a) < length (chFreeSlots s)" "unat (CPDPBPtoDieIdx (pcParam C) a) < length (dieFreeSlots s)"
  defines "lat \<equiv> GetLatency (pcNand C) (pcTiming C) (cpPage a) (cmOperation req)"
    and "ch \<equiv> unat (cpChannel a)" and "die \<equiv> unat (CPDPBPtoDieIdx (pcParam C) a)"
  shows "runs_to (TimelineScheduling C req a s) (\<lambda>(s', req'). \<exists>dma0 mem dma1.
      cmArrived req \<le> StartTick dma0 \<and> unat (EndTick dma0) + 1 = unat (StartTick dma0) + unat (lat BUSY_DMA0) \<and>
      unat (EndTick dma0) + unat (lat BUSY_MEM) < unat (StartTick dma1) \<and> unat (EndTick dma1) + 1 = unat (StartTick dma1) + unat (lat BUSY_DMA1) \<and>
      StartTick mem = StartTick dma0 \<and>
      unat (StartTick mem) + unat (lat BUSY_DMA0) + unat (lat BUSY_MEM) + unat (lat BUSY_DMA1) \<le> unat (EndTick mem) + 1 \<and>
      cmFinished req' = EndTick dma1 \<and>
      (\<forall>t\<in>ticksOf dma0 \<union> ticksOf dma1. chFree s ch t) \<and> (\<forall>t\<in>ticksOf mem. dieFree s die t) \<and>
      (\<forall>i t. chFree s' i t \<longrightarrow> chFree s i t \<and> (i = ch \<longrightarrow> t \<notin> ticksOf dma0 \<union> ticksOf dma1)) \<and>
      (\<forall>i t. dieFree s' i t \<longrightarrow> dieFree s i t \<and> (i = die \<longrightarrow> t \<notin> ticksOf mem)))"
proof -
  let ?D = "demandOf C req a s"
  have "M + latSum ?D < 2 ^ 63" using assms(4) by (simp add: latSum_demandOf)
  from TimelineScheduling_result [OF assms(1,2,5,6,3) this] obtain b s' where
    r: "TimelineScheduling C req a s = Inr (s', req\<lparr>cmFinished := EndTick (tsDMA1 b)\<rparr>)" and b: "booking_ok M ?D (cmArrived req) b"
    and s': "chFreeSlots s' = (chFreeSlots s)[ch := bkCh b]" "chStartPoint s' = (chStartPoint s)[ch := bkChStart b]"
      "dieFreeSlots s' = (dieFreeSlots s)[die := bkDie b]" "dieStartPoint s' = (dieStartPoint s)[die := bkDieStart b]"
    unfolding ch_def die_def by blast
  have D: "latDMA0 ?D = lat BUSY_DMA0" "latMEM ?D = lat BUSY_MEM" "latDMA1 ?D = lat BUSY_DMA1"
    "freeAt (dmCh ?D) (dmChStart ?D) = chFree s ch" "freeAt (dmDie ?D) (dmDieStart ?D) = dieFree s die"
    by (simp_all add: demandOf_def Let_def lat_def ch_def die_def chFree_def dieFree_def fun_eq_iff)
  have len: "ch < length (chStartPoint s)" "die < length (dieStartPoint s)" using assms(1,5,6) by (simp_all add: pal2_inv_def ch_def die_def)
  have f': "chFree s' ch t = freeAt (bkCh b) (bkChStart b) t" "dieFree s' die t = freeAt (bkDie b) (bkDieStart b) t"
    "i \<noteq> ch \<Longrightarrow> chFree s' i t = chFree s i t" "i \<noteq> die \<Longrightarrow> dieFree s' i t = dieFree s i t" for i t
    using assms(5,6) len unfolding chFree_def dieFree_def s' by (simp_all add: ch_def die_def)
  show ?thesis
    unfolding r runs_to_Inr prod.case
  proof (rule exI [of _ "tsDMA0 b"], rule exI [of _ "tsMEM b"], rule exI [of _ "tsDMA1 b"], intro conjI)
    show "\<forall>i t. chFree s' i t \<longrightarrow> chFree s i t \<and> (i = ch \<longrightarrow> t \<notin> ticksOf (tsDMA0 b) \<union> ticksOf (tsDMA1 b))"
      using b f' unfolding booking_ok_def D by metis
    show "\<forall>i t. dieFree s' i t \<longrightarrow> dieFree s i t \<and> (i = die \<longrightarrow> t \<notin> ticksOf (tsMEM b))"
      using b f' unfolding booking_ok_def D by metis
  qed (use b in \<open>auto simp: booking_ok_def D\<close>)
qed

definition exCmd :: command where "exCmd = Command 7 0 OPER_READ 32768"

lemma exPal_lat: "latencies_ok exPal" "latencyTotal exPal pg op \<le> 3000"
proof -
  show "latencies_ok exPal" by (auto simp: latencies_ok_def exPal_def exTiming_def dmaLatency_def split: pal_operation.splits)
  show "latencyTotal exPal pg op \<le> 3000" by (cases op) (simp_all add: latencyTotal_def latency_defs exPal_def exTiming_def dmaLatency_def)
qed

theorem TimelineScheduling_no_double_booking_witness:
  "\<exists>s' req'. TimelineScheduling exPal exCmd exAddr exPal2 = Inr (s', req') \<and> 7 \<le> cmFinished req'"
proof -
  have inv: "pal2_inv 7 exPal2" using exPal2_inv(1) unfolding pal2_inv_def by fastforce
  have idx: "unat (cpChannel exAddr) < length (chFreeSlots exPal2)" "unat (CPDPBPtoDieIdx (pcParam exPal) exAddr) < length (dieFreeSlots exPal2)"
    using exPal2_inv(2) by (simp_all add: sized_def exAddr_def exPal_def exParam_def CPDPBPtoDieIdx_def)
  have lim: "unat (cmArrived exCmd) \<le> 7" "7 + latencyTotal exPal (cpPage exAddr) (cmOperation exCmd) < 2 ^ 63"
    using exPal_lat(2) [of "cpPage exAddr" "cmOperation exCmd"] by (simp_all add: exCmd_def Command_def)
  have "runs_to (TimelineScheduling exPal exCmd exAddr exPal2) (\<lambda>(s', req'). 7 \<le> cmFinished req')"
    by (rule runs_to_mono [OF TimelineScheduling_no_double_booking [OF inv exPal_lat(1) lim idx]])
      (auto simp: word_le_nat_alt exCmd_def Command_def latency_defs dmaLatency_def exPal_def exTiming_def)
  then show ?thesis by (auto simp: runs_to_iff)
qed

text \<open>
  C39. Reading, writing and erasing a super page always return: every address of the request is
  inside the calendars, the scheduling of every flash page ends, and the timeline stays in
  order. The work is never finished before it was requested.
\<close>

theorem PALOLD_returns:
  assumes "pal_ok X L" "request_ok X req" "pal2_inv M (poPal s)" "sized (pcParam (pxCtx X)) (poPal s)" "unat t \<le> M"
    and "M + pagesPerSuper (pxConfig X) (pcParam (pxCtx X)) * L < 2 ^ 63"
    and "f \<in> {PALOLD_read, PALOLD_write, PALOLD_erase}"
  shows "runs_to (f X req t s) (\<lambda>(s', t'). t \<le> t' \<and> sized (pcParam (pxCtx X)) (poPal s') \<and>
    pal2_inv (M + pagesPerSuper (pxConfig X) (pcParam (pxCtx X)) * L) (poPal s'))"
  using assms(7) unfolding PALOLD_read_def PALOLD_write_def PALOLD_erase_def
  by (auto simp: fun_eq_iff PALOLD_read_def PALOLD_write_def PALOLD_erase_def Command_def palCountRead_def palCountWrite_def palCountErase_def
      intro!: submitAll_returns [OF assms(1,2) _ assms(3-6)])

theorem PALOLD_returns_witness:
  "\<exists>s' t'. PALOLD_read exX exReq 0 exState = Inr (s', t') \<and> sized exParam (poPal s')"
proof -
  have "pal_ok exX 3000" unfolding pal_ok_def Let_def
    using ex_dims exPal_lat by (simp add: exX_def exPal_def ex_simps) (simp add: exParam_def)
  moreover have "request_ok exX exReq" by (simp add: request_ok_def ex_simps exX_def)
  moreover have "pal2_inv 0 (poPal exState)" "sized (pcParam (pxCtx exX)) (poPal exState)" using exPal2_inv by (simp_all add: exState_def exX_def exPal_def)
  moreover have "0 + pagesPerSuper (pxConfig exX) (pcParam (pxCtx exX)) * 3000 < 2 ^ 63" by (simp add: exX_def exPal_def ex_dims(1))
  ultimately have "runs_to (PALOLD_read exX exReq 0 exState) (\<lambda>(s', t'). 0 \<le> t' \<and> sized (pcParam (pxCtx exX)) (poPal s') \<and>
    pal2_inv (0 + pagesPerSuper (pxConfig exX) (pcParam (pxCtx exX)) * 3000) (poPal s'))" by (intro PALOLD_returns) simp_all
  then show ?thesis by (auto simp: runs_to_iff exX_def exPal_def)
qed

section \<open>Page numbers\<close>

text \<open>
  A page number can be taken apart again: for an address inside a device of fewer than
  \<open>2\<^sup>3\<^sup>2\<close> pages, disassembling the assembled number gives the address back, and the number fits
  in 32 bits.
\<close>

theorem AssemblePPN_roundtrip:
  assumes "ppn_ok C a"
  shows "unat (AssemblePPN C a) < 2 ^ 32 \<and> PPNdisassemble C (AssemblePPN C a) a' = Inr (a\<lparr>cpSlpn := cpSlpn a'\<rparr>)"
  using PPN_roundtrip [OF assms] by blast

theorem AssemblePPN_roundtrip_witness:
  "PPNdisassemble exPal (AssemblePPN exPal exAddr) exAddr = Inr exAddr"
proof -
  have "ppn_ok exPal exAddr" by (simp add: ppn_ok_def exPal_def exParam_def exAddr_def planeSize_def)
  then show ?thesis using AssemblePPN_roundtrip [of exPal exAddr exAddr] by simp
qed

end
