(* ===== verification/NvmeNs.thy ===== *)
theory NvmeNs
  imports Device
begin

text \<open>
  Namespaces of the NVMe subsystem (\<^verbatim>\<open>hil/nvme/subsystem.cc\<close>, \<^verbatim>\<open>hil/nvme/namespace.hh\<close>): how
  logical pages are given to a namespace and taken back, the namespaces made at start-up, and
  the conversion of logical blocks to logical pages. Definitions only; \<open>NvmeNs_Inv\<close> holds
  the properties.
\<close>

section \<open>State\<close>

record ns_info =
  nsSize :: u64
  nsCapacity :: u64
  nsUtilization :: u64
  nsSizeInByteL :: u64
  nsSizeInByteH :: u64
  nsLbaFormatIndex :: u8
  nsDataProtection :: u8
  nsSharing :: u8
  nsLbaSize :: u32
  nsRange :: lpn_range

text \<open>
  \<^verbatim>\<open>class Namespace\<close>; the disk image and the health counters, which no modelled operation
  reads, are left out.
\<close>

record nvme_ns =
  nsNSID :: u32
  nsInfo :: ns_info
  nsAttached :: bool
  nsAllocated :: bool
  nsFormatFinishedAt :: tick

record subsys =
  lNamespaces :: "nvme_ns list"
  queueAllocated :: u32
  ssPageSize :: u32
  ssTotalPages :: u64
  ssAllocatedPages :: u64
  commandCount :: u64

definition NSID_NONE :: u32 where "NSID_NONE = 0"
definition NSID_LOWEST :: u32 where "NSID_LOWEST = 1"
definition NSID_ALL :: u32 where "NSID_ALL = 0xFFFFFFFF"

definition lbaFormat :: "u32 list" where
  "lbaFormat = [0x02090000, 0x020A0000, 0x010B0000, 0x000C0000]"

definition lbaSize :: "u32 list" where
  "lbaSize = [512, 1024, 2048, 4096]"

definition nLBAFormat :: nat where "nLBAFormat = 4"

text \<open>
  A fresh \<^verbatim>\<open>Namespace::Information\<close>: its page range starts empty by its constructor; the
  other fields are assigned before they are read, and are zero in the model until then.
\<close>

definition Information_new :: ns_info where
  "Information_new = \<lparr>nsSize = 0, nsCapacity = 0, nsUtilization = 0, nsSizeInByteL = 0,
     nsSizeInByteH = 0, nsLbaFormatIndex = 0, nsDataProtection = 0, nsSharing = 0, nsLbaSize = 0,
     nsRange = \<lparr>slpn = 0, nlp = 0\<rparr>\<rparr>"

definition Namespace_new :: nvme_ns where
  "Namespace_new = \<lparr>nsNSID = NSID_NONE, nsInfo = Information_new, nsAttached = False,
     nsAllocated = False, nsFormatFinishedAt = 0\<rparr>"

definition Namespace_setData :: "u32 \<Rightarrow> ns_info \<Rightarrow> nvme_ns \<Rightarrow> nvme_ns" where
  "Namespace_setData nid dat n = n\<lparr>nsNSID := nid, nsInfo := dat, nsAllocated := True\<rparr>"

section \<open>Giving pages to a namespace\<close>

text \<open>
  The loop that is to join neighbouring ranges: \<open>iter\<close> is the first element and \<open>nxt\<close> the
  second when its test is made, and the test leaves the loop as soon as \<open>iter\<close> is not the
  end of the list. Going on would use the end iterator.
\<close>

definition mergeAllocated :: "lpn_range list \<Rightarrow> lpn_range list res" where
  "mergeAllocated allocated =
     (if allocated = [] then Inr allocated
      else let iter = (0 :: nat); nxt = iter + 1
           in if iter \<noteq> length allocated \<or> nxt = length allocated then Inr allocated
              else Inl (Undefined ''end iterator''))"

definition invertStep :: "lpn_range \<Rightarrow> lpn_range list \<Rightarrow> lpn_range list res" where
  "invertStep iter unallocated =
     (if unallocated = [] then Inl (Undefined ''back of an empty list'')
      else let lst = last unallocated
           in if slpn lst \<le> slpn iter \<and> slpn lst + nlp lst \<ge> slpn iter + nlp iter
              then Inr (butlast unallocated @
                [lst\<lparr>nlp := slpn iter - slpn lst\<rparr>,
                 \<lparr>slpn = slpn iter + nlp iter, nlp = slpn lst + nlp lst - slpn iter - nlp iter\<rparr>])
              else Inl (Panic ''BUG''))"

definition invertRanges :: "u64 \<Rightarrow> lpn_range list \<Rightarrow> lpn_range list res" where
  "invertRanges totalPages allocated = foldR invertStep allocated [\<lparr>slpn = 0, nlp = totalPages\<rparr>]"

definition requestedPages :: "ns_info \<Rightarrow> subsys \<Rightarrow> u64 res" where
  "requestedPages info s =
     (if ssPageSize s = 0 then Inl (Undefined ''division by zero'')
      else if unat (nsLbaFormatIndex info) \<ge> length lbaSize then Inl (Undefined ''lbaSize index'')
      else Inr (nsSize info div ucast (ssPageSize s) * ucast (lbaSize ! unat (nsLbaFormatIndex info))))"

text \<open>\<^verbatim>\<open>createNamespace\<close> returns whether it succeeded; \<open>info\<close> is changed in place.\<close>

definition createNamespace :: "u32 \<Rightarrow> ns_info \<Rightarrow> subsys \<Rightarrow> (bool \<times> ns_info \<times> subsys) res" where
  "createNamespace nsid info s =
     bindR (requestedPages info s) (\<lambda>requested.
       if requested > ssTotalPages s - ssAllocatedPages s then Inr (False, info, s)
       else
         bindR (mergeAllocated (sort_key slpn (map (\<lambda>n. nsRange (nsInfo n)) (lNamespaces s)))) (\<lambda>allocated.
         bindR (invertRanges (ssTotalPages s) allocated) (\<lambda>unallocated.
           let info = (case find (\<lambda>r. nlp r \<ge> requested) unallocated of
                         None \<Rightarrow> info
                       | Some r \<Rightarrow> info\<lparr>nsRange := r\<lparr>nlp := requested\<rparr>\<rparr>)
           in if nlp (nsRange info) = 0 then Inr (False, info, s)
              else
                let info = info\<lparr>nsSizeInByteL := requested * ucast (ssPageSize s), nsSizeInByteH := 0\<rparr>;
                    pNS = Namespace_setData nsid info Namespace_new
                in Inr (True, info,
                     s\<lparr>ssAllocatedPages := ssAllocatedPages s + requested,
                       lNamespaces := sort_key nsNSID (lNamespaces s @ [pNS])\<rparr>))))"

fun removeFirst :: "('a \<Rightarrow> bool) \<Rightarrow> 'a list \<Rightarrow> 'a list" where
  "removeFirst P [] = []"
| "removeFirst P (x # xs) = (if P x then xs else x # removeFirst P xs)"

definition destroyNamespace :: "u32 \<Rightarrow> subsys \<Rightarrow> (bool \<times> subsys) res" where
  "destroyNamespace nsid s =
     (case find (\<lambda>n. nsNSID n = nsid) (lNamespaces s) of
        None \<Rightarrow> Inr (False, s)
      | Some n \<Rightarrow>
          if ssPageSize s = 0 then Inl (Undefined ''division by zero'')
          else Inr (True,
            s\<lparr>ssAllocatedPages := ssAllocatedPages s -
                 nsSize (nsInfo n) * ucast (nsLbaSize (nsInfo n)) div ucast (ssPageSize s),
              lNamespaces := removeFirst (\<lambda>n. nsNSID n = nsid) (lNamespaces s)\<rparr>))"

section \<open>Start-up\<close>

definition attachLast :: "subsys \<Rightarrow> subsys" where
  "attachLast s =
     s\<lparr>lNamespaces := butlast (lNamespaces s) @ [(last (lNamespaces s))\<lparr>nsAttached := True\<rparr>]\<rparr>"

definition initOne :: "u64 \<Rightarrow> nat \<Rightarrow> ns_info \<times> subsys \<Rightarrow> (ns_info \<times> subsys) res" where
  "initOne sz i = (\<lambda>(info, s).
     let info = info\<lparr>nsSize := sz, nsCapacity := sz\<rparr>
     in bindR (createNamespace (NSID_LOWEST + of_nat i) info s) (\<lambda>(ok, info, s).
          if ok then Inr (info, attachLast s)
          else Inl (Panic ''Failed to create namespace'')))"

text \<open>
  \<^verbatim>\<open>Subsystem::init\<close> with the page count and page size that the host interface layer reports,
  the configured number of namespaces and the configured block size. The loop uses one
  \<^verbatim>\<open>Information\<close> for all namespaces.
\<close>

definition Subsystem_init :: "u64 \<Rightarrow> u32 \<Rightarrow> u16 \<Rightarrow> u32 \<Rightarrow> subsys res" where
  "Subsystem_init totalPages pageSize nNamespaces lba =
     (let s = \<lparr>lNamespaces = [], queueAllocated = 0, ssPageSize = pageSize, ssTotalPages = totalPages,
               ssAllocatedPages = 0, commandCount = 0\<rparr>
      in if nNamespaces = 0 then Inr s
         else case find (\<lambda>i. lbaSize ! i = lba) [0..<nLBAFormat] of
                None \<Rightarrow> Inl (Panic ''Failed to setting LBA size (512B ~ 4KB)'')
              | Some i \<Rightarrow>
                  let info = Information_new\<lparr>nsLbaFormatIndex := of_nat i, nsLbaSize := lba\<rparr>;
                      totalSize = totalPages * ucast pageSize div ucast lba
                  in bindR (foldR (initOne (totalSize div ucast nNamespaces)) [0..<unat nNamespaces] (info, s))
                       (\<lambda>(info, s). Inr s))"

section \<open>Blocks and pages\<close>

text \<open>\<^verbatim>\<open>convertUnit\<close> fills the page range, the offset and the length of a request.\<close>

definition convertUnit :: "subsys \<Rightarrow> nvme_ns \<Rightarrow> u64 \<Rightarrow> u64 \<Rightarrow> hil_request \<Rightarrow> hil_request res" where
  "convertUnit s ns slba nlblk req =
     (let info = nsInfo ns
      in if nsLbaSize info = 0 then Inl (Undefined ''division by zero'')
         else let lbaratio = ssPageSize s div nsLbaSize info
         in if lbaratio = 0 then
              if ssPageSize s = 0 then Inl (Undefined ''division by zero'')
              else let r = ucast (nsLbaSize info div ssPageSize s)
              in Inr (req\<lparr>hrRange := \<lparr>slpn = slba * r + slpn (nsRange info), nlp = nlblk * r\<rparr>,
                          hrOffset := 0, hrLength := nlblk * ucast (nsLbaSize info)\<rparr>)
            else let r = ucast lbaratio; off = slba mod r
              in Inr (req\<lparr>hrRange := \<lparr>slpn = slba div r + slpn (nsRange info),
                                      nlp = (nlblk + off + r - 1) div r\<rparr>,
                          hrOffset := off * ucast (nsLbaSize info),
                          hrLength := nlblk * ucast (nsLbaSize info)\<rparr>))"

definition getNVMCapacity :: "subsys \<Rightarrow> u64 \<times> u64" where
  "getNVMCapacity s = (ssTotalPages s * ucast (ssPageSize s), ssAllocatedPages s * ucast (ssPageSize s))"

definition validNamespaceCount :: "subsys \<Rightarrow> u32" where
  "validNamespaceCount s = of_nat (length (lNamespaces s))"

definition getNamespaceLbaSize :: "subsys \<Rightarrow> u32 \<Rightarrow> u32" where
  "getNamespaceLbaSize s nsid =
     (case find (\<lambda>n. nsNSID n = nsid \<and> nsLbaSize (nsInfo n) \<noteq> 0) (lNamespaces s) of
        None \<Rightarrow> 4096
      | Some n \<Rightarrow> nsLbaSize (nsInfo n))"

end
