(* ===== verification/NvmeIdentify.thy ===== *)
theory NvmeIdentify
  imports NvmeNs
begin

text \<open>
  The data structures that the identify command returns: the controller's
  (\<^verbatim>\<open>Controller::identify\<close> of \<^verbatim>\<open>hil/nvme/controller.cc\<close>) and a namespace's
  (\<^verbatim>\<open>Subsystem::fillIdentifyNamespace\<close> of \<^verbatim>\<open>hil/nvme/subsystem.cc\<close>). A buffer is a function from
  offsets to bytes; a data structure is the sequence of its stores.
\<close>

section \<open>Buffers\<close>

type_synonym buffer = "nat \<Rightarrow> u8"
type_synonym stores = "(nat \<times> u8 list) list"

definition bufStore :: "nat \<times> u8 list \<Rightarrow> buffer \<Rightarrow> buffer" where
  "bufStore = (\<lambda>(off, bs) b i. if off \<le> i \<and> i < off + length bs then bs ! (i - off) else b i)"

definition bufStores :: "stores \<Rightarrow> buffer \<Rightarrow> buffer" where
  "bufStores = fold bufStore"

text \<open>The bytes of a word in memory, the lowest first, and a word read from a buffer.\<close>

definition leBytes :: "nat \<Rightarrow> u64 \<Rightarrow> u8 list" where
  "leBytes n w = map (\<lambda>i. ucast (drop_bit (8 * i) w)) [0..<n]"

fun leWord :: "u8 list \<Rightarrow> u64" where
  "leWord [] = 0"
| "leWord (b # bs) = ucast b OR push_bit 8 (leWord bs)"

definition bufRead :: "nat \<Rightarrow> nat \<Rightarrow> buffer \<Rightarrow> u64" where
  "bufRead off n b = leWord (map (\<lambda>i. b (off + i)) [0..<n])"

definition zeroBuffer :: buffer where "zeroBuffer = (\<lambda>i. 0)"

definition charBytes :: "string \<Rightarrow> u8 list" where
  "charBytes = map (\<lambda>c. of_nat (of_char c))"

abbreviation zeros :: "nat \<Rightarrow> u8 list" where
  "zeros n \<equiv> replicate n 0"

section \<open>The controller\<close>

text \<open>What \<^verbatim>\<open>identify\<close> asks: the identifiers of the interface, the two capacities, the kind of subsystem, the write cache.\<close>

record identify_env =
  idVID :: u16
  idSSVID :: u16
  idTotalSize :: u64
  idUsed :: u64
  idUseOCSSD :: bool
  idWriteCache :: bool

definition identifyCapabilities :: "identify_env \<Rightarrow> stores" where
  "identifyCapabilities E =
    [(0x0000, leBytes 2 (ucast (idVID E))),
     (0x0002, leBytes 2 (ucast (idSSVID E))),
     (0x0004, charBytes ''00000000000000000000''),
     (0x0018, charBytes (if idUseOCSSD E then ''SimpleSSD OCSSD Controller by CAMELab   ''
                         else ''SimpleSSD NVMe Controller by CAMELab    '')),
     (0x0040, charBytes ''02.01.03''),
     (0x0048, zeros 1),
     (0x0049, zeros 3),
     (0x004C, zeros 1),
     (0x004D, zeros 1),
     (0x004E, zeros 2),
     (0x0050, [0x01, 0x04, 0x00, 0x00]),
     (0x0054, zeros 4),
     (0x0058, zeros 4),
     (0x005C, zeros 4),
     (0x0060, zeros 4),
     (0x0064, zeros 2),
     (0x0066, zeros 9),
     (0x006F, [0x01]),
     (0x0070, zeros 16),
     (0x0080, zeros 2),
     (0x0082, zeros 2),
     (0x0084, zeros 2),
     (0x0086, zeros 106),
     (0x00F0, zeros 16)]"

definition identifyAdmin :: "identify_env \<Rightarrow> stores" where
  "identifyAdmin E =
    [(0x0100, [if idUseOCSSD E then 0x00 else 0x0A, 0x00]),
     (0x0102, [0x03]),
     (0x0103, [0x03]),
     (0x0104, [0x00]),
     (0x0105, [0x01]),
     (0x0106, [0x63]),
     (0x0107, [0x00]),
     (0x0108, [0x00]),
     (0x0109, [0x00]),
     (0x010A, zeros 2),
     (0x010C, zeros 2),
     (0x010E, zeros 2),
     (0x0110, zeros 4),
     (0x0114, zeros 4),
     (0x0118, leBytes 8 (idTotalSize E)),
     (0x0120, zeros 8),
     (0x0118, leBytes 8 (idTotalSize E - idUsed E)),
     (0x0120, zeros 8),
     (0x0138, zeros 4),
     (0x013C, zeros 2),
     (0x013E, zeros 1),
     (0x013F, zeros 1),
     (0x0140, zeros 2),
     (0x0142, zeros 2),
     (0x0144, zeros 2),
     (0x0146, zeros 2),
     (0x0148, zeros 4),
     (0x014C, zeros 4),
     (0x0150, zeros 2),
     (0x0152, zeros 2),
     (0x0154, zeros 2),
     (0x0156, zeros 1),
     (0x0157, zeros 1),
     (0x0158, zeros 4),
     (0x015C, zeros 4),
     (0x0160, zeros 4),
     (0x0164, zeros 156)]"

definition identifyNVM :: "identify_env \<Rightarrow> stores" where
  "identifyNVM E =
    [(0x0200, [0x66]),
     (0x0201, [0x44]),
     (0x0202, zeros 2),
     (0x0204, leBytes 4 1024),
     (0x0208, [0x05, 0x00]),
     (0x020A, zeros 2),
     (0x020C, [0x00]),
     (0x020D, [(if idWriteCache E then 0x01 else 0x00) OR 0x06]),
     (0x020E, zeros 2),
     (0x0210, zeros 2),
     (0x0212, zeros 1),
     (0x0213, zeros 1),
     (0x0214, zeros 2),
     (0x0216, zeros 2),
     (0x0218, [0x01, 0x00, 0x17, 0x00]),
     (0x021C, leBytes 4 0),
     (0x0220, zeros 224),
     (0x0300, zeros 0x100),
     (0x0300, charBytes ''nqn.2014-08.org.nvmexpress:uuid:270a1c70-962c-4116-6f1e340b9321'' @ zeros 5),
     (0x0400, zeros 768),
     (0x0700, zeros 256)]"

definition identifyPower :: stores where
  "identifyPower =
    [(0x0800, [0xC4, 0x09]),
     (0x0802, zeros 1),
     (0x0803, zeros 1),
     (0x0804, zeros 4),
     (0x0808, zeros 4),
     (0x080C, zeros 1),
     (0x080D, zeros 1),
     (0x080E, zeros 1),
     (0x080E, zeros 1),
     (0x080F, zeros 2),
     (0x0811, zeros 1),
     (0x0812, zeros 1),
     (0x0813, zeros 2),
     (0x0815, zeros 1),
     (0x0816, zeros 9),
     (0x0820, zeros 992),
     (0x0C00, zeros 1024)]"

definition Controller_identify :: "identify_env \<Rightarrow> buffer \<Rightarrow> buffer" where
  "Controller_identify E = bufStores (identifyCapabilities E @ identifyAdmin E @ identifyNVM E @ identifyPower)"

section \<open>A namespace\<close>

text \<open>
  \<open>used\<close> is the number of used pages that the host interface layer reports for a range; the
  subsystem has a host interface layer, so the branch for an open-channel device is not taken.
\<close>

definition fillIdentifyNamespace :: "(u64 \<Rightarrow> u64 \<Rightarrow> u64) \<Rightarrow> u32 \<Rightarrow> ns_info \<Rightarrow> buffer \<Rightarrow> (ns_info \<times> buffer) res" where
  "fillIdentifyNamespace used pageSize info b =
     (if nsLbaSize info = 0 then Inl (Undefined ''division by zero'')
      else
        let r = nsRange info;
            info = info\<lparr>nsUtilization := used (slpn r) (slpn r + nlp r) * ucast pageSize div ucast (nsLbaSize info)\<rparr>
        in Inr (info, bufStores
             ([(0, leBytes 8 (nsSize info)), (8, leBytes 8 (nsCapacity info)), (16, leBytes 8 (nsUtilization info)),
               (24, [0x04]), (25, [of_nat (nLBAFormat - 1)]), (26, [nsLbaFormatIndex info]),
               (28, [nsDataProtection info]), (30, [nsSharing info]),
               (48, leBytes 8 (nsSizeInByteL info)), (56, leBytes 8 (nsSizeInByteH info))] @
              map (\<lambda>i. (128 + i * 4, leBytes 4 (ucast (lbaFormat ! i)))) [0..<nLBAFormat]) b))"

section \<open>Properties\<close>

lemma leWord_leBytes: "leWord (leBytes n w) = take_bit (8 * n) w"
proof (induction n arbitrary: w)
  case (Suc n)
  have "leBytes (Suc n) w = ucast w # leBytes n (drop_bit 8 w)"
    by (simp add: leBytes_def upt_conv_Cons map_Suc_upt [symmetric] drop_bit_drop_bit ac_simps del: upt_Suc)
  moreover have "ucast (ucast w :: u8) OR push_bit 8 (take_bit (8 * n) (drop_bit 8 w)) = take_bit (8 + 8 * n) w"
    by (rule bit_word_eqI) (auto simp: bit_simps)
  ultimately show ?case using Suc by simp
qed (simp add: leBytes_def)

lemma length_leBytes [simp]: "length (leBytes n w) = n"
  by (simp add: leBytes_def)

text \<open>A store is read back when no later store meets it.\<close>

definition misses :: "nat \<Rightarrow> nat \<Rightarrow> nat \<times> u8 list \<Rightarrow> bool" where
  "misses off n st \<longleftrightarrow> off + n \<le> fst st \<or> fst st + length (snd st) \<le> off"

lemma bufRead_store_miss: "misses off n st \<Longrightarrow> bufRead off n (bufStore st b) = bufRead off n b"
  unfolding bufRead_def bufStore_def misses_def by (cases st) (auto intro!: arg_cong [of _ _ leWord])

lemma bufRead_store_hit: "bufRead off (length bs) (bufStore (off, bs) b) = leWord bs"
  unfolding bufRead_def bufStore_def by (auto intro!: arg_cong [of _ _ leWord] nth_equalityI)

lemma bufRead_stores_miss: "list_all (misses off n) sts \<Longrightarrow> bufRead off n (bufStores sts b) = bufRead off n b"
  by (induction sts arbitrary: b) (simp_all add: bufStores_def bufRead_store_miss)

lemma bufRead_stores_hit:
  assumes "list_all (misses off (length bs)) post"
  shows "bufRead off (length bs) (bufStores (pre @ (off, bs) # post) b) = leWord bs"
proof -
  have "bufStores (pre @ (off, bs) # post) b = bufStores post (bufStore (off, bs) (bufStores pre b))" by (simp add: bufStores_def)
  then show ?thesis using bufRead_stores_miss [OF assms] bufRead_store_hit by simp
qed

lemma bufRead_stores_bytes:
  assumes "list_all (misses off n) post" "8 * n \<le> 64"
  shows "bufRead off n (bufStores (pre @ (off, leBytes n w) # post) b) = take_bit (8 * n) w"
  using bufRead_stores_hit [of off "leBytes n w" post pre b] assms by (simp add: leWord_leBytes)

end
