(* ===== verification/NvmeQueue.thy ===== *)
theory NvmeQueue
  imports Prelude
begin

text \<open>
  The submission and completion queues of the NVMe controller (\<^verbatim>\<open>hil/nvme/queue.cc\<close>,
  \<^verbatim>\<open>hil/nvme/queue.hh\<close>): the entries, their wrappers, and the two rings in host memory.
  The host memory is reached by DMA; a call that starts a transfer returns the transfer.
  Definitions only; \<open>NvmeQueue_Inv\<close> holds the properties.
\<close>

section \<open>Entries\<close>

text \<open>
  \<^verbatim>\<open>union _SQEntry\<close> and \<^verbatim>\<open>union _CQEntry\<close> by their fields; the byte views are used for
  the transfers only.
\<close>

record sq_entry =
  opcode :: u8
  fuse :: u8
  commandID :: u16
  namespaceID :: u32
  reserved1 :: u32
  reserved2 :: u32
  metadata :: u64
  data1 :: u64
  data2 :: u64
  dword10 :: u32
  dword11 :: u32
  dword12 :: u32
  dword13 :: u32
  dword14 :: u32
  dword15 :: u32

record cq_entry =
  cqDword0 :: u32
  cqReserved :: u32
  cqSqHead :: u16
  cqSqID :: u16
  cqCommandID :: u16
  cqStatus :: u16

definition SQEntry_new :: sq_entry where
  "SQEntry_new = \<lparr>opcode = 0, fuse = 0, commandID = 0, namespaceID = 0, reserved1 = 0,
     reserved2 = 0, metadata = 0, data1 = 0, data2 = 0, dword10 = 0, dword11 = 0,
     dword12 = 0, dword13 = 0, dword14 = 0, dword15 = 0\<rparr>"

definition CQEntry_new :: cq_entry where
  "CQEntry_new = \<lparr>cqDword0 = 0, cqReserved = 0, cqSqHead = 0, cqSqID = 0, cqCommandID = 0,
     cqStatus = 0\<rparr>"

record sq_wrapper =
  swEntry :: sq_entry
  swSubmitTick :: tick
  swSqID :: u16
  swCqID :: u16
  swSqHead :: u16
  swSqUID :: u16
  swUseSGL :: bool

record cq_wrapper =
  cwEntry :: cq_entry
  cwSqSubmitTick :: tick
  cwSubmitAt :: tick
  cwCqID :: u16
  cwSqUID :: u16

text \<open>The constructors leave the time stamps unset; the model sets them to zero.\<close>

definition SQEntryWrapper :: "sq_entry \<Rightarrow> u16 \<Rightarrow> u16 \<Rightarrow> u16 \<Rightarrow> u16 \<Rightarrow> sq_wrapper" where
  "SQEntryWrapper sqdata sqid cqid sqhead squid =
     \<lparr>swEntry = sqdata, swSubmitTick = 0, swSqID = sqid, swCqID = cqid, swSqHead = sqhead,
      swSqUID = squid, swUseSGL = (drop_bit 6 (fuse sqdata) \<noteq> 0)\<rparr>"

definition CQEntryWrapper :: "sq_wrapper \<Rightarrow> cq_wrapper" where
  "CQEntryWrapper sqew =
     \<lparr>cwEntry = CQEntry_new\<lparr>cqSqHead := swSqHead sqew, cqSqID := swSqID sqew,
        cqCommandID := commandID (swEntry sqew)\<rparr>,
      cwSqSubmitTick = swSubmitTick sqew, cwSubmitAt = 0, cwCqID = swCqID sqew,
      cwSqUID = swSqUID sqew\<rparr>"

datatype status_code_type =
  TYPE_GENERIC_COMMAND_STATUS | TYPE_COMMAND_SPECIFIC_STATUS | TYPE_MEDIA_AND_DATA_INTEGRITY_ERROR

fun sctCode :: "status_code_type \<Rightarrow> u16" where
  "sctCode TYPE_GENERIC_COMMAND_STATUS = 0"
| "sctCode TYPE_COMMAND_SPECIFIC_STATUS = 1"
| "sctCode TYPE_MEDIA_AND_DATA_INTEGRITY_ERROR = 2"

definition statusWord :: "bool \<Rightarrow> bool \<Rightarrow> status_code_type \<Rightarrow> u16 \<Rightarrow> u16" where
  "statusWord dnr moreErr sct sc =
     push_bit 15 (if dnr then 1 else 0) OR push_bit 14 (if moreErr then 1 else 0)
     OR push_bit 9 (sctCode sct AND 7) OR push_bit 1 (sc AND 255)"

definition makeStatus :: "bool \<Rightarrow> bool \<Rightarrow> status_code_type \<Rightarrow> u16 \<Rightarrow> cq_wrapper \<Rightarrow> cq_wrapper" where
  "makeStatus dnr moreErr sct sc w =
     w\<lparr>cwEntry := (cwEntry w)\<lparr>cqStatus := statusWord dnr moreErr sct sc\<rparr>\<rparr>"

section \<open>The rings\<close>

text \<open>
  \<open>qBase\<close> is the DMA object given to \<^verbatim>\<open>setBase\<close>, named by the host address it maps; a
  queue without one has a null pointer there.
\<close>

record nvme_queue =
  qID :: u16
  qHead :: u16
  qTail :: u16
  qSize :: u16
  qStride :: u64
  qBase :: "u64 option"

record cqueue = nvme_queue +
  cqIen :: bool
  cqPhase :: bool
  cqInterruptVector :: u16

record squeue = nvme_queue +
  sqCQID :: u16
  sqPriority :: u8

definition getItemCount :: "'a nvme_queue_scheme \<Rightarrow> u16" where
  "getItemCount q =
     (if qHead q \<le> qTail q then qTail q - qHead q else (qSize q - qHead q) + qTail q)"

definition setBase :: "u64 \<Rightarrow> u64 \<Rightarrow> 'a nvme_queue_scheme \<Rightarrow> 'a nvme_queue_scheme" where
  "setBase p s q = q\<lparr>qBase := Some p, qStride := s\<rparr>"

definition CQueue_new :: "u16 \<Rightarrow> bool \<Rightarrow> u16 \<Rightarrow> u16 \<Rightarrow> cqueue" where
  "CQueue_new iv en qid len =
     \<lparr>qID = qid, qHead = 0, qTail = 0, qSize = len, qStride = 0, qBase = None,
      cqIen = en, cqPhase = True, cqInterruptVector = iv\<rparr>"

definition SQueue_new :: "u16 \<Rightarrow> u8 \<Rightarrow> u16 \<Rightarrow> u16 \<Rightarrow> squeue" where
  "SQueue_new cqid pri qid len =
     \<lparr>qID = qid, qHead = 0, qTail = 0, qSize = len, qStride = 0, qBase = None,
      sqCQID = cqid, sqPriority = pri\<rparr>"

text \<open>A transfer between the controller and a slot of a ring: the mapped region and the offset in it.\<close>

record slot_dma =
  sdBase :: u64
  sdOffset :: u64

text \<open>\<^verbatim>\<open>head++; if (head == size) head = 0;\<close>, for either end of a ring.\<close>

definition ringNext :: "u16 \<Rightarrow> u16 \<Rightarrow> u16" where
  "ringNext len i = (if i + 1 = len then 0 else i + 1)"

definition withPhase :: "bool \<Rightarrow> cq_entry \<Rightarrow> cq_entry" where
  "withPhase ph e = e\<lparr>cqStatus := (cqStatus e AND 0xFFFE) OR (if ph then 1 else 0)\<rparr>"

text \<open>
  \<^verbatim>\<open>CQueue::setData\<close> writes the entry with the phase tag into the tail slot. The check for
  an overflow comes after the slot was written. The callers never pass a null entry.
\<close>

definition CQueue_setData :: "cq_entry \<Rightarrow> cqueue \<Rightarrow> (slot_dma \<times> cq_entry \<times> cqueue) res" where
  "CQueue_setData entry q =
     (case qBase q of
        None \<Rightarrow> Inl (Undefined ''null queue base'')
      | Some b \<Rightarrow>
          (let entry' = withPhase (cqPhase q) entry;
               w = \<lparr>sdBase = b, sdOffset = ucast (qTail q) * qStride q\<rparr>;
               tail = qTail q + 1;
               wrap = (tail = qSize q);
               q' = q\<lparr>qTail := (if wrap then 0 else tail),
                      cqPhase := (if wrap then \<not> cqPhase q else cqPhase q)\<rparr>
           in if qHead q' = qTail q' then Inl (Panic ''Completion queue overflow'')
              else Inr (w, entry', q')))"

definition CQueue_incHead :: "cqueue \<Rightarrow> cqueue" where
  "CQueue_incHead q = q\<lparr>qHead := ringNext (qSize q) (qHead q)\<rparr>"

definition CQueue_setHead :: "u16 \<Rightarrow> cqueue \<Rightarrow> cqueue" where
  "CQueue_setHead newHead q = q\<lparr>qHead := newHead\<rparr>"

definition SQueue_setTail :: "u16 \<Rightarrow> squeue \<Rightarrow> squeue" where
  "SQueue_setTail newTail q = q\<lparr>qTail := newTail\<rparr>"

text \<open>\<^verbatim>\<open>SQueue::getData\<close>: nothing happens on an empty ring, otherwise the head slot is fetched.\<close>

definition SQueue_getData :: "squeue \<Rightarrow> (slot_dma option \<times> squeue) res" where
  "SQueue_getData q =
     (if qHead q = qTail q then Inr (None, q)
      else case qBase q of
        None \<Rightarrow> Inl (Undefined ''null queue base'')
      | Some b \<Rightarrow>
          Inr (Some \<lparr>sdBase = b, sdOffset = ucast (qHead q) * qStride q\<rparr>,
               q\<lparr>qHead := ringNext (qSize q) (qHead q)\<rparr>))"

end
