(* ===== verification/NvmeCtrl.thy ===== *)
theory NvmeCtrl
  imports NvmeQueue "HOL-Library.AList"
begin

text \<open>
  The NVMe controller (\<^verbatim>\<open>hil/nvme/controller.cc\<close>): doorbells, creation and deletion of queues,
  collecting commands from the submission queues, the queues per user with their round robin,
  and the completion path with interrupt coalescing. The controller acts on the outside by
  events, interrupts and transfers that the simulator carries out later; an operation returns
  them as a list of actions, and the callback of a transfer is an operation of its own.
  The loops over the tables count with 16 bits; the tables have fewer than \<open>2 ^ 16\<close> slots.
  Definitions only; \<open>NvmeCtrl_Inv\<close> holds the properties.
\<close>

section \<open>State\<close>

record aggregation_info =
  agNextTime :: u64
  agRequestCount :: u32
  agValid :: bool
  agPending :: bool

datatype event = WorkEvent | RequestEvent | CompletionEvent

text \<open>
  A fetch of a submission queue entry: the queue, the head before the fetch, and the slot.
\<close>

record fetch =
  feQueue :: nat
  feOldHead :: u16
  feSlot :: slot_dma

datatype action =
    Schedule event tick
  | Deschedule event
  | Interrupt u16 bool
  | FetchSlot fetch
  | WriteSlot slot_dma cq_entry
  | Execute_submitCommand sq_wrapper
  | Execute_handleRequest
  | Execute_send "u16 list"
  | CollectDone

text \<open>
  \<^verbatim>\<open>class Controller\<close>. The hash maps are association lists with one entry per key; the
  operations do not depend on their order. \<open>ctCounter\<close> is the counter of the DMA context of
  the collection that is under way, the number of fetches that have not come back; \<open>ctOut\<close>
  collects the actions of the running operation.
\<close>

record nvme_ctrl =
  capabilities :: u64
  configuration :: u32
  ctStatus :: u32
  subsystemReset :: u32
  adminQueueAttributes :: u32
  adminSQueueBaseAddress :: u64
  adminCQueueBaseAddress :: u64
  sqstride :: u64
  cqstride :: u64
  adminQueueInited :: u8
  arbitration :: u16
  interruptMask :: u32
  memoryPageSize :: u64
  memoryPageSizeOrder :: u8
  ppCQueue :: "cqueue option list"
  ppSQueue :: "squeue option list"
  lSQFIFO :: "sq_wrapper list"
  lCQFIFO :: "cq_wrapper list"
  lSQByUser :: "(u32 \<times> sq_wrapper list) list"
  rrUsers :: "u32 list"
  lastUid :: u32
  uidSQMap :: "(u32 \<times> u16 list) list"
  bootstrappedUsers :: "u32 list"
  shutdownReserved :: bool
  aggregationTime :: u64
  aggregationThreshold :: u32
  aggregationMap :: "(u16 \<times> aggregation_info) list"
  requestCounter :: u32
  lastWorkAt :: tick
  ctCounter :: nat
  ctOut :: "action list"

text \<open>The configuration values the controller reads.\<close>

record nvme_config =
  ncMaxIOCQueue :: u16
  ncMaxIOSQueue :: u16
  ncWrrHigh :: u16
  ncWrrMedium :: u16
  ncMaxRequest :: u32
  ncWorkInterval :: u64

definition requestInterval :: "nvme_config \<Rightarrow> u64" where
  "requestInterval g = ncWorkInterval g div ucast (ncMaxRequest g)"

definition act :: "action \<Rightarrow> nvme_ctrl \<Rightarrow> nvme_ctrl" where
  "act a s = s\<lparr>ctOut := ctOut s @ [a]\<rparr>"

definition Controller_new :: "nvme_config \<Rightarrow> nvme_ctrl" where
  "Controller_new g =
     \<lparr>capabilities = 0x0020002028010FFF, configuration = 0, ctStatus = 0, subsystemReset = 0,
      adminQueueAttributes = 0, adminSQueueBaseAddress = 0, adminCQueueBaseAddress = 0,
      sqstride = 0, cqstride = 0, adminQueueInited = 0, arbitration = 0, interruptMask = 0,
      memoryPageSize = 0, memoryPageSizeOrder = 0,
      ppCQueue = replicate (unat (ncMaxIOCQueue g) + 1) None,
      ppSQueue = replicate (unat (ncMaxIOSQueue g) + 1) None,
      lSQFIFO = [], lCQFIFO = [], lSQByUser = [], rrUsers = [], lastUid = 0, uidSQMap = [],
      bootstrappedUsers = [], shutdownReserved = False, aggregationTime = 0,
      aggregationThreshold = 0, aggregationMap = [], requestCounter = 0, lastWorkAt = 0, ctCounter = 0, ctOut = []\<rparr>"

section \<open>Registers\<close>

text \<open>
  \<^verbatim>\<open>writeRegister\<close>: the offsets of \<^verbatim>\<open>enum COMMAND_REGISTER\<close> that can be written. The powers of
  two are computed there with \<^verbatim>\<open>powf\<close>, which is exact for the exponents that can occur.
\<close>

datatype register_write =
    W_INTERRUPT_MASK_SET u32
  | W_INTERRUPT_MASK_CLEAR u32
  | W_CONTROLLER_CONFIG u32
  | W_CONTROLLER_STATUS u32
  | W_NVM_SUBSYSTEM_RESET u32
  | W_ADMIN_QUEUE_ATTRIBUTE u32
  | W_ADMIN_CQUEUE_BASE_LOW u32
  | W_ADMIN_CQUEUE_BASE_HIGH u32
  | W_ADMIN_SQUEUE_BASE_LOW u32
  | W_ADMIN_SQUEUE_BASE_HIGH u32
  | W_ADMIN_CQUEUE_BASE u64
  | W_ADMIN_SQUEUE_BASE u64
  | W_OTHER

fun decodeWrite :: "u64 \<Rightarrow> u64 \<Rightarrow> u64 \<Rightarrow> register_write res" where
  "decodeWrite offs sz v =
     (let w = ucast v in
      if sz = 4 then
        Inr (if offs = 0x0C then W_INTERRUPT_MASK_SET w
             else if offs = 0x10 then W_INTERRUPT_MASK_CLEAR w
             else if offs = 0x14 then W_CONTROLLER_CONFIG w
             else if offs = 0x1C then W_CONTROLLER_STATUS w
             else if offs = 0x20 then W_NVM_SUBSYSTEM_RESET w
             else if offs = 0x24 then W_ADMIN_QUEUE_ATTRIBUTE w
             else if offs = 0x30 then W_ADMIN_CQUEUE_BASE_LOW w
             else if offs = 0x34 then W_ADMIN_CQUEUE_BASE_HIGH w
             else if offs = 0x28 then W_ADMIN_SQUEUE_BASE_LOW w
             else if offs = 0x2C then W_ADMIN_SQUEUE_BASE_HIGH w
             else W_OTHER)
      else if sz = 8 then
        Inr (if offs = 0x30 then W_ADMIN_CQUEUE_BASE v
             else if offs = 0x28 then W_ADMIN_SQUEUE_BASE v
             else W_OTHER)
      else Inl (Panic ''nvme_ctrl: Invalid read size(%d) on controller register''))"

definition setLow :: "u32 \<Rightarrow> u64 \<Rightarrow> u64" where
  "setLow w v = (v AND 0xFFFFFFFF00000000) OR ucast w"

definition setHigh :: "u32 \<Rightarrow> u64 \<Rightarrow> u64" where
  "setHigh w v = (v AND 0x00000000FFFFFFFF) OR push_bit 32 (ucast w)"

definition configWrite :: "nvme_config \<Rightarrow> tick \<Rightarrow> u32 \<Rightarrow> nvme_ctrl \<Rightarrow> nvme_ctrl" where
  "configWrite g now w s =
     (let c = (configuration s AND 0xFF00000E) OR (w AND 0x00FFFFF1);
          sqst = 2 ^ unat (drop_bit 16 (c AND 0x000F0000));
          cqst = 2 ^ unat (drop_bit 20 (c AND 0x00F00000));
          order = drop_bit 7 (c AND 0x780) + 11;
          s = s\<lparr>configuration := c, sqstride := sqst, cqstride := cqst,
                memoryPageSizeOrder := ucast order, memoryPageSize := 2 ^ (unat order + 1),
                arbitration := ucast (drop_bit 11 (c AND 0x3800)),
                ppCQueue := (case ppCQueue s of
                    Some q # qs \<Rightarrow> Some (setBase (adminCQueueBaseAddress s) cqst q) # qs | qs \<Rightarrow> qs),
                ppSQueue := (case ppSQueue s of
                    Some q # qs \<Rightarrow> Some (setBase (adminSQueueBaseAddress s) sqst q) # qs | qs \<Rightarrow> qs)\<rparr>
      in if c AND 0xC000 \<noteq> 0 then
           s\<lparr>ctStatus := (ctStatus s AND 0xFFFFFFF2) OR 5, shutdownReserved := True\<rparr>
         else if c AND 1 \<noteq> 0 then
           act (Schedule WorkEvent (now + ncWorkInterval g)) (s\<lparr>ctStatus := ctStatus s OR 1\<rparr>)
         else act (Deschedule WorkEvent) (s\<lparr>ctStatus := ctStatus s AND 0xFFFFFFFE\<rparr>))"

definition createAdminQueues :: "nvme_ctrl \<Rightarrow> nvme_ctrl" where
  "createAdminQueues s =
     (if adminQueueInited s = 4 then
        s\<lparr>adminQueueInited := 0,
          ppCQueue := (ppCQueue s)[0 := Some (CQueue_new 0 True 0
             (ucast (drop_bit 16 (adminQueueAttributes s AND 0x0FFF0000) + 1)))],
          ppSQueue := (ppSQueue s)[0 := Some (SQueue_new 0 0 0
             (ucast ((adminQueueAttributes s AND 0x0FFF) + 1)))]\<rparr>
      else s)"

fun registerWrite :: "nvme_config \<Rightarrow> tick \<Rightarrow> register_write \<Rightarrow> nvme_ctrl \<Rightarrow> nvme_ctrl res" where
  "registerWrite g now (W_INTERRUPT_MASK_SET w) s = Inr (s\<lparr>interruptMask := interruptMask s OR w\<rparr>)"
| "registerWrite g now (W_INTERRUPT_MASK_CLEAR w) s = Inr (s\<lparr>interruptMask := interruptMask s AND NOT w\<rparr>)"
| "registerWrite g now (W_CONTROLLER_CONFIG w) s = Inr (configWrite g now w s)"
| "registerWrite g now (W_CONTROLLER_STATUS w) s =
     Inr (if w AND 0x10 \<noteq> 0 then s\<lparr>ctStatus := ctStatus s AND 0xFFFFFFEF\<rparr> else s)"
| "registerWrite g now (W_NVM_SUBSYSTEM_RESET w) s = Inr (s\<lparr>subsystemReset := w\<rparr>)"
| "registerWrite g now (W_ADMIN_QUEUE_ATTRIBUTE w) s =
     Inr (s\<lparr>adminQueueAttributes := (adminQueueAttributes s AND 0xF000F000) OR (w AND 0x0FFF0FFF)\<rparr>)"
| "registerWrite g now (W_ADMIN_CQUEUE_BASE_LOW w) s =
     Inr (s\<lparr>adminCQueueBaseAddress := setLow w (adminCQueueBaseAddress s), adminQueueInited := adminQueueInited s + 1\<rparr>)"
| "registerWrite g now (W_ADMIN_CQUEUE_BASE_HIGH w) s =
     Inr (s\<lparr>adminCQueueBaseAddress := setHigh w (adminCQueueBaseAddress s), adminQueueInited := adminQueueInited s + 1\<rparr>)"
| "registerWrite g now (W_ADMIN_SQUEUE_BASE_LOW w) s =
     Inr (s\<lparr>adminSQueueBaseAddress := setLow w (adminSQueueBaseAddress s), adminQueueInited := adminQueueInited s + 1\<rparr>)"
| "registerWrite g now (W_ADMIN_SQUEUE_BASE_HIGH w) s =
     Inr (s\<lparr>adminSQueueBaseAddress := setHigh w (adminSQueueBaseAddress s), adminQueueInited := adminQueueInited s + 1\<rparr>)"
| "registerWrite g now (W_ADMIN_CQUEUE_BASE v) s =
     Inr (s\<lparr>adminCQueueBaseAddress := v, adminQueueInited := adminQueueInited s + 2\<rparr>)"
| "registerWrite g now (W_ADMIN_SQUEUE_BASE v) s =
     Inr (s\<lparr>adminSQueueBaseAddress := v, adminQueueInited := adminQueueInited s + 2\<rparr>)"
| "registerWrite g now W_OTHER s = Inl (Panic ''nvme_ctrl: Write on read only register'')"

definition writeRegister :: "nvme_config \<Rightarrow> tick \<Rightarrow> u64 \<Rightarrow> u64 \<Rightarrow> u64 \<Rightarrow> nvme_ctrl \<Rightarrow> nvme_ctrl res" where
  "writeRegister g now offs sz v s =
     bindR (decodeWrite offs sz v) (\<lambda>w.
     bindR (registerWrite g now w s) (\<lambda>s. Inr (createAdminQueues s)))"

section \<open>Doorbells and interrupts\<close>

text \<open>Reading a pointer of one of the two tables.\<close>

definition queueAt :: "'q option list \<Rightarrow> nat \<Rightarrow> 'q option res" where
  "queueAt qs i = (if i < length qs then Inr (qs ! i) else Inl (Undefined ''queue table index''))"

definition notFinished :: "u16 \<Rightarrow> cqueue option list \<Rightarrow> u16" where
  "notFinished iv qs =
     sum_list (map (\<lambda>q. case q of None \<Rightarrow> 0
        | Some q \<Rightarrow> if cqInterruptVector q = iv then getItemCount q else 0) qs)"

definition clearInterrupt :: "u16 \<Rightarrow> nvme_ctrl \<Rightarrow> nvme_ctrl" where
  "clearInterrupt iv s = act (Interrupt iv (notFinished iv (ppCQueue s) > 0)) s"

definition ringCQHeadDoorbell :: "u16 \<Rightarrow> u16 \<Rightarrow> nvme_ctrl \<Rightarrow> nvme_ctrl res" where
  "ringCQHeadDoorbell qid newHead s =
     bindR (queueAt (ppCQueue s) (unat qid)) (\<lambda>pq. case pq of
        None \<Rightarrow> Inr s
      | Some q \<Rightarrow>
          let s = s\<lparr>ppCQueue := (ppCQueue s)[unat qid := Some (CQueue_setHead newHead q)]\<rparr>
          in Inr (if cqIen q then clearInterrupt (cqInterruptVector q) s else s))"

definition ringSQTailDoorbell :: "u16 \<Rightarrow> u16 \<Rightarrow> nvme_ctrl \<Rightarrow> nvme_ctrl res" where
  "ringSQTailDoorbell qid newTail s =
     bindR (queueAt (ppSQueue s) (unat qid)) (\<lambda>pq. case pq of
        None \<Rightarrow> Inr s
      | Some q \<Rightarrow> Inr (s\<lparr>ppSQueue := (ppSQueue s)[unat qid := Some (SQueue_setTail newTail q)]\<rparr>))"

section \<open>Submitting a completion\<close>

text \<open>
  \<^verbatim>\<open>reserveCompletion\<close> schedules the completion event at the earliest time at which an entry is
  due or a coalesced interrupt is.
\<close>

definition pendingTimes :: "nvme_ctrl \<Rightarrow> tick list" where
  "pendingTimes s =
     map (\<lambda>x. agNextTime (snd x)) (filter (\<lambda>x. agValid (snd x) \<and> agPending (snd x)) (aggregationMap s))"

definition reserveTime :: "nvme_ctrl \<Rightarrow> tick option" where
  "reserveTime s =
     foldl (\<lambda>acc t. case acc of None \<Rightarrow> Some t | Some u \<Rightarrow> if u > t then Some t else Some u)
       (case lCQFIFO s of [] \<Rightarrow> None | e # _ \<Rightarrow> Some (cwSubmitAt e)) (pendingTimes s)"

definition reserveCompletion :: "nvme_ctrl \<Rightarrow> nvme_ctrl" where
  "reserveCompletion s = (case reserveTime s of None \<Rightarrow> s | Some t \<Rightarrow> act (Schedule CompletionEvent t) s)"

fun insertCQ :: "cq_wrapper \<Rightarrow> cq_wrapper list \<Rightarrow> cq_wrapper list" where
  "insertCQ e [] = [e]"
| "insertCQ e (x # xs) = (if cwSubmitAt x > cwSubmitAt e then e # x # xs else x # insertCQ e xs)"

definition submitCQ :: "tick \<Rightarrow> cq_wrapper \<Rightarrow> nvme_ctrl \<Rightarrow> nvme_ctrl res" where
  "submitCQ now entry s =
     bindR (queueAt (ppCQueue s) (unat (cwCqID entry))) (\<lambda>pq. case pq of
        None \<Rightarrow> Inl (Panic ''nvme_ctrl: Completion Queue not created! CQID %d'')
      | Some q \<Rightarrow>
          Inr (reserveCompletion (s\<lparr>lCQFIFO := insertCQ (entry\<lparr>cwSubmitAt := now\<rparr>) (lCQFIFO s)\<rparr>)))"

section \<open>Creating and deleting queues\<close>

definition createCQueue :: "u16 \<Rightarrow> u16 \<Rightarrow> u16 \<Rightarrow> bool \<Rightarrow> u64 \<Rightarrow> nvme_ctrl \<Rightarrow> (int \<times> nvme_ctrl) res" where
  "createCQueue cqid len iv ien prp1 s =
     bindR (queueAt (ppCQueue s) (unat cqid)) (\<lambda>pq. case pq of
        Some q \<Rightarrow> Inr (1, s)
      | None \<Rightarrow>
          Inr (0, s\<lparr>ppCQueue := (ppCQueue s)[unat cqid := Some (setBase prp1 (cqstride s) (CQueue_new iv ien cqid len))],
                    aggregationMap := AList.update iv
                      \<lparr>agNextTime = 0, agRequestCount = 0, agValid = False, agPending = False\<rparr> (aggregationMap s)\<rparr>))"

definition createSQueue :: "u16 \<Rightarrow> u16 \<Rightarrow> u16 \<Rightarrow> u8 \<Rightarrow> u64 \<Rightarrow> nvme_ctrl \<Rightarrow> (int \<times> nvme_ctrl) res" where
  "createSQueue sqid cqid len pri prp1 s =
     bindR (queueAt (ppSQueue s) (unat sqid)) (\<lambda>psq. case psq of
        Some q \<Rightarrow> Inr (1, s)
      | None \<Rightarrow>
          bindR (queueAt (ppCQueue s) (unat cqid)) (\<lambda>pcq. case pcq of
             None \<Rightarrow> Inr (2, s)
           | Some _ \<Rightarrow>
               Inr (0, s\<lparr>ppSQueue := (ppSQueue s)[unat sqid :=
                         Some (setBase prp1 (sqstride s) (SQueue_new cqid pri sqid len))]\<rparr>)))"

text \<open>A search through a table that stops at the first hit.\<close>

fun anyQueue :: "('q \<Rightarrow> bool) \<Rightarrow> 'q option list \<Rightarrow> nat list \<Rightarrow> bool res" where
  "anyQueue P qs [] = Inr False"
| "anyQueue P qs (i # ks) =
     bindR (queueAt qs i) (\<lambda>pq. case pq of
        None \<Rightarrow> anyQueue P qs ks
      | Some q \<Rightarrow> if P q then Inr True else anyQueue P qs ks)"

text \<open>
  \<^verbatim>\<open>deleteCQueue\<close> looks for submission queues that use the queue, at the indices of the
  completion queues.
\<close>

definition deleteCQueue :: "u16 \<Rightarrow> nvme_ctrl \<Rightarrow> (int \<times> nvme_ctrl) res" where
  "deleteCQueue cqid s =
     bindR (queueAt (ppCQueue s) (unat cqid)) (\<lambda>pq. case pq of
        None \<Rightarrow> Inr (1, s)
      | Some q \<Rightarrow>
          if cqid = 0 then Inr (1, s)
          else bindR (anyQueue (\<lambda>sq. sqCQID sq = cqid) (ppSQueue s) [1..<length (ppCQueue s)]) (\<lambda>used.
            if used then Inr (2, s)
            else
              let iv = cqInterruptVector q;
                  s = s\<lparr>ppCQueue := (ppCQueue s)[unat cqid := None]\<rparr>
              in bindR (anyQueue (\<lambda>cq. cqInterruptVector cq = iv) (ppCQueue s) [1..<length (ppCQueue s)]) (\<lambda>sameIV.
                   if sameIV then Inr (0, s)
                   else if map_of (aggregationMap s) iv = None then Inl (Undefined ''erase of the end iterator'')
                   else Inr (0, s\<lparr>aggregationMap := AList.delete iv (aggregationMap s)\<rparr>))))"

text \<open>
  The loop of \<^verbatim>\<open>deleteSQueue\<close> over the list of collected commands: erasing returns the next
  element, and the loop header then steps over it.
\<close>

fun abortLoop :: "u16 \<Rightarrow> sq_wrapper list \<Rightarrow> (sq_wrapper list \<times> sq_wrapper list) res" where
  "abortLoop sqid [] = Inr ([], [])"
| "abortLoop sqid (x # xs) =
     (if swSqID x = sqid then
        case xs of [] \<Rightarrow> Inl (Undefined ''increment of the end iterator'')
        | y # ys \<Rightarrow> bindR (abortLoop sqid ys) (\<lambda>(kept, gone). Inr (y # kept, x # gone))
      else bindR (abortLoop sqid xs) (\<lambda>(kept, gone). Inr (x # kept, gone)))"

definition abortEntry :: "u16 \<Rightarrow> u16 \<Rightarrow> sq_wrapper \<Rightarrow> cq_wrapper" where
  "abortEntry sqHd status w =
     (let c = CQEntryWrapper w in c\<lparr>cwEntry := (cwEntry c)\<lparr>cqSqHead := sqHd, cqStatus := status\<rparr>\<rparr>)"

definition STATUS_ABORT_REQUESTED :: u16 where "STATUS_ABORT_REQUESTED = 7"
definition STATUS_ABORT_DUE_TO_SQ_DELETE :: u16 where "STATUS_ABORT_DUE_TO_SQ_DELETE = 8"

definition abortStatus :: "u16 \<Rightarrow> u16" where
  "abortStatus sc = 0x8000 OR push_bit 9 (sctCode TYPE_GENERIC_COMMAND_STATUS) OR push_bit 1 sc"

text \<open>
  \<^verbatim>\<open>purgeSQFromUserQueues\<close>: the staged commands of the queue are dropped; a user without staged
  commands and without queues leaves the round robin.
\<close>

definition purgeUser :: "u16 \<Rightarrow> u32 \<times> u16 list \<Rightarrow> nvme_ctrl \<Rightarrow> nvme_ctrl" where
  "purgeUser sqid = (\<lambda>(uid, sqs) s.
     let sqs' = filter (\<lambda>q. q \<noteq> sqid) sqs;
         s = (if map_of (lSQByUser s) uid = None then s\<lparr>lSQByUser := AList.update uid [] (lSQByUser s)\<rparr> else s)
     in if map_of (lSQByUser s) uid = Some [] \<and> sqs' = []
        then s\<lparr>rrUsers := remove1 uid (rrUsers s),
               bootstrappedUsers := filter (\<lambda>u. u \<noteq> uid) (bootstrappedUsers s)\<rparr>
        else s\<lparr>uidSQMap := uidSQMap s @ [(uid, sqs')]\<rparr>)"

definition purgeSQFromUserQueues :: "u16 \<Rightarrow> nvme_ctrl \<Rightarrow> nvme_ctrl" where
  "purgeSQFromUserQueues sqid s =
     (let s = s\<lparr>lSQByUser := map (\<lambda>(uid, dq). (uid, filter (\<lambda>w. swSqID w \<noteq> sqid) dq)) (lSQByUser s)\<rparr>
      in fold (purgeUser sqid) (uidSQMap s) (s\<lparr>uidSQMap := []\<rparr>))"

definition deleteSQueue :: "tick \<Rightarrow> u16 \<Rightarrow> nvme_ctrl \<Rightarrow> (int \<times> nvme_ctrl) res" where
  "deleteSQueue now sqid s =
     bindR (queueAt (ppSQueue s) (unat sqid)) (\<lambda>pq. case pq of
        None \<Rightarrow> Inr (1, s)
      | Some q \<Rightarrow>
          if sqid = 0 then Inr (1, s)
          else bindR (abortLoop sqid (lSQFIFO s)) (\<lambda>(kept, gone).
            bindR (foldR (\<lambda>w s. submitCQ now (abortEntry (qHead q) (abortStatus STATUS_ABORT_DUE_TO_SQ_DELETE) w) s)
                     gone (s\<lparr>lSQFIFO := kept\<rparr>)) (\<lambda>s.
            Inr (0, purgeSQFromUserQueues sqid (s\<lparr>ppSQueue := (ppSQueue s)[unat sqid := None]\<rparr>)))))"

fun removeCommand :: "u16 \<Rightarrow> u16 \<Rightarrow> sq_wrapper list \<Rightarrow> (sq_wrapper \<times> sq_wrapper list) option" where
  "removeCommand sqid cid [] = None"
| "removeCommand sqid cid (x # xs) =
     (if swSqID x = sqid \<and> commandID (swEntry x) = cid then Some (x, xs)
      else map_option (\<lambda>(y, ys). (y, x # ys)) (removeCommand sqid cid xs))"

definition abortCommand :: "tick \<Rightarrow> u16 \<Rightarrow> u16 \<Rightarrow> nvme_ctrl \<Rightarrow> (int \<times> nvme_ctrl) res" where
  "abortCommand now sqid cid s =
     (case removeCommand sqid cid (lSQFIFO s) of
        None \<Rightarrow> Inr (0, s)
      | Some (w, rest) \<Rightarrow>
          bindR (queueAt (ppSQueue s) (unat sqid)) (\<lambda>pq. case pq of
             None \<Rightarrow> Inl (Undefined ''null submission queue'')
           | Some q \<Rightarrow>
               bindR (submitCQ now (abortEntry (qHead q) (abortStatus STATUS_ABORT_REQUESTED) w) s) (\<lambda>s.
               Inr (1, s\<lparr>lSQFIFO := rest\<rparr>))))"

section \<open>Interrupt coalescing\<close>

text \<open>The product is computed as a signed 32-bit number; where that overflows C++ gives no meaning to it.\<close>

definition setCoalescingParameter :: "u8 \<Rightarrow> u8 \<Rightarrow> nvme_ctrl \<Rightarrow> nvme_ctrl res" where
  "setCoalescingParameter time thres s =
     (if unat time * 100000000 \<ge> 2 ^ 31 then Inl (Undefined ''signed overflow'')
      else Inr (s\<lparr>aggregationTime := ucast time * 100000000, aggregationThreshold := ucast thres\<rparr>))"

definition getCoalescingParameter :: "nvme_ctrl \<Rightarrow> u8 \<times> u8" where
  "getCoalescingParameter s = (ucast (aggregationTime s div 100000000), ucast (aggregationThreshold s))"

definition setCoalescing :: "u16 \<Rightarrow> bool \<Rightarrow> nvme_ctrl \<Rightarrow> nvme_ctrl" where
  "setCoalescing iv enable s =
     (if map_of (aggregationMap s) iv = None then s
      else s\<lparr>aggregationMap := AList.update iv
             \<lparr>agNextTime = 0, agRequestCount = 0, agValid = enable, agPending = False\<rparr> (aggregationMap s)\<rparr>)"

definition getCoalescing :: "u16 \<Rightarrow> nvme_ctrl \<Rightarrow> bool" where
  "getCoalescing iv s = (case map_of (aggregationMap s) iv of None \<Rightarrow> False | Some i \<Rightarrow> agValid i)"

end
