(* ===== verification/NvmeWork.thy ===== *)
theory NvmeWork
  imports NvmeCtrl
begin

text \<open>
  The two paths of a command through the NVMe controller (\<^verbatim>\<open>hil/nvme/controller.cc\<close>): collecting
  the submission queues under the two arbitration methods, staging the commands per user and
  handing one at a time to the subsystem; and posting completions with coalesced interrupts.
  Definitions only; \<open>NvmeCollect\<close> and \<open>NvmeWork_Inv\<close> hold the properties.
\<close>

section \<open>Collecting commands\<close>

type_synonym collect = "squeue option list \<times> fetch list"

text \<open>\<^verbatim>\<open>checkQueue\<close>: one entry of a queue is fetched when it has one.\<close>

definition checkQueue :: "nat \<Rightarrow> collect \<Rightarrow> (bool \<times> collect) res" where
  "checkQueue i = (\<lambda>(qs, out).
     bindR (queueAt qs i) (\<lambda>pq. case pq of
        None \<Rightarrow> Inl (Undefined ''null submission queue'')
      | Some q \<Rightarrow>
          if getItemCount q > 0 then
            bindR (SQueue_getData q) (\<lambda>(d, q').
              Inr (True, qs[i := Some q'],
                   case d of None \<Rightarrow> out
                   | Some d \<Rightarrow> out @ [\<lparr>feQueue = i, feOldHead = qHead q, feSlot = d\<rparr>]))
          else Inr (False, qs, out)))"

text \<open>One round over the given queues, of those the arbitration considers.\<close>

fun rrPass :: "(squeue \<Rightarrow> bool) \<Rightarrow> nat list \<Rightarrow> u16 \<Rightarrow> collect \<Rightarrow> (u16 \<times> collect) res" where
  "rrPass P [] updated st = Inr (updated, st)"
| "rrPass P (i # ks) updated st =
     bindR (queueAt (fst st) i) (\<lambda>pq. case pq of
        None \<Rightarrow> rrPass P ks updated st
      | Some q \<Rightarrow>
          if P q then bindR (checkQueue i st) (\<lambda>(b, st). rrPass P ks (if b then updated + 1 else updated) st)
          else rrPass P ks updated st)"

text \<open>
  A round over the queues of one priority that ends when the count of fetched commands
  reaches the weight; \<open>updated\<close> is carried from one round to the next.
\<close>

fun weightedPass :: "u8 \<Rightarrow> u16 \<Rightarrow> nat list \<Rightarrow> u16 \<Rightarrow> u32 \<Rightarrow> collect \<Rightarrow> (u16 \<times> u32 \<times> collect) res" where
  "weightedPass pri weight [] updated total_updated st = Inr (updated, total_updated, st)"
| "weightedPass pri weight (i # ks) updated total_updated st =
     bindR (queueAt (fst st) i) (\<lambda>pq. case pq of
        None \<Rightarrow> weightedPass pri weight ks updated total_updated st
      | Some q \<Rightarrow>
          if sqPriority q = pri then
            bindR (checkQueue i st) (\<lambda>(b, st).
              if b then
                if updated + 1 = weight then Inr (0, total_updated + 1, st)
                else weightedPass pri weight ks (updated + 1) (total_updated + 1) st
              else weightedPass pri weight ks updated total_updated st)
          else weightedPass pri weight ks updated total_updated st)"

text \<open>The last of the three rounds; it ends after one command.\<close>

fun singlePass :: "u8 \<Rightarrow> nat list \<Rightarrow> u32 \<Rightarrow> collect \<Rightarrow> (u32 \<times> collect) res" where
  "singlePass pri [] total_updated st = Inr (total_updated, st)"
| "singlePass pri (i # ks) total_updated st =
     bindR (queueAt (fst st) i) (\<lambda>pq. case pq of
        None \<Rightarrow> singlePass pri ks total_updated st
      | Some q \<Rightarrow>
          if sqPriority q = pri then
            bindR (checkQueue i st) (\<lambda>(b, st). if b then Inr (total_updated + 1, st) else singlePass pri ks total_updated st)
          else singlePass pri ks total_updated st)"

definition PRIORITY_URGENT :: u8 where "PRIORITY_URGENT = 0"
definition PRIORITY_HIGH :: u8 where "PRIORITY_HIGH = 1"
definition PRIORITY_MEDIUM :: u8 where "PRIORITY_MEDIUM = 2"
definition PRIORITY_LOW :: u8 where "PRIORITY_LOW = 3"

text \<open>
  The loops of \<^verbatim>\<open>collectSQueue\<close>: a round is repeated as long as it fetches something. They do
  not end for every content of the queues; then the result is \<open>None\<close>.
\<close>

partial_function (option) whileFetched :: "('s \<Rightarrow> (bool \<times> 's) res) \<Rightarrow> 's \<Rightarrow> 's res option" where
  "whileFetched rnd s =
     (case rnd s of
        Inl e \<Rightarrow> Some (Inl e)
      | Inr (b, s') \<Rightarrow> if b then whileFetched rnd s' else Some (Inr s'))"

definition rrRound :: "(squeue \<Rightarrow> bool) \<Rightarrow> nat list \<Rightarrow> collect \<Rightarrow> (bool \<times> collect) res" where
  "rrRound P ks st = bindR (rrPass P ks 0 st) (\<lambda>(updated, st). Inr (updated \<noteq> 0, st))"

definition weightedRound :: "nvme_config \<Rightarrow> nat list \<Rightarrow> u16 \<times> collect \<Rightarrow> (bool \<times> u16 \<times> collect) res" where
  "weightedRound g ks = (\<lambda>(updated, st).
     bindR (weightedPass PRIORITY_HIGH (ncWrrHigh g) ks updated 0 st) (\<lambda>(updated, total_updated, st).
     bindR (weightedPass PRIORITY_MEDIUM (ncWrrMedium g) ks updated total_updated st) (\<lambda>(updated, total_updated, st).
     bindR (singlePass PRIORITY_MEDIUM ks total_updated st) (\<lambda>(total_updated, st).
     Inr (total_updated \<noteq> 0, updated, st)))))"

definition thenLoop :: "'s res option \<Rightarrow> ('s \<Rightarrow> 't res option) \<Rightarrow> 't res option" where
  "thenLoop m f = (case m of None \<Rightarrow> None | Some (Inl e) \<Rightarrow> Some (Inl e) | Some (Inr x) \<Rightarrow> f x)"

definition collectRR :: "collect \<Rightarrow> collect res option" where
  "collectRR st = whileFetched (rrRound (\<lambda>q. True) [0..<length (fst st)]) st"

definition collectWRR :: "nvme_config \<Rightarrow> collect \<Rightarrow> collect res option" where
  "collectWRR g st =
     thenLoop (whileFetched (checkQueue 0) st) (\<lambda>st.
     thenLoop (whileFetched (rrRound (\<lambda>q. sqPriority q = PRIORITY_URGENT) [1..<length (fst st)]) st) (\<lambda>st.
     thenLoop (whileFetched (weightedRound g [1..<length (fst st)]) (0, st)) (\<lambda>(_, st). Some (Inr st))))"

definition collectSQueue :: "nvme_config \<Rightarrow> nvme_ctrl \<Rightarrow> nvme_ctrl res option" where
  "collectSQueue g s =
     (if ctStatus s AND 1 = 0 then Some (Inr s)
      else thenLoop
        (if arbitration s = 0 then collectRR (ppSQueue s, [])
         else if arbitration s = 1 then collectWRR g (ppSQueue s, [])
         else Some (Inl (Panic ''nvme_ctrl: Invalid arbitration method'')))
        (\<lambda>(qs, out).
           let s = s\<lparr>ppSQueue := qs, ctCounter := length out, ctOut := ctOut s @ map FetchSlot out\<rparr>
           in Some (Inr (if out = [] then act CollectDone s else s))))"

text \<open>
  The callback of a fetch: the command joins the queue of its user, whose number the host puts
  into a reserved word, and the list of all commands. The queue object is used then.
\<close>

definition userQueue :: "u32 \<Rightarrow> nvme_ctrl \<Rightarrow> sq_wrapper list" where
  "userQueue uid s = (case map_of (lSQByUser s) uid of None \<Rightarrow> [] | Some dq \<Rightarrow> dq)"

definition setInsert :: "'a \<Rightarrow> 'a list \<Rightarrow> 'a list" where
  "setInsert x xs = (if x \<in> set xs then xs else xs @ [x])"

definition fetchDone :: "fetch \<Rightarrow> sq_entry \<Rightarrow> nvme_ctrl \<Rightarrow> nvme_ctrl res" where
  "fetchDone f e s =
     bindR (queueAt (ppSQueue s) (feQueue f)) (\<lambda>pq. case pq of
        None \<Rightarrow> Inl (Undefined ''deleted submission queue'')
      | Some q \<Rightarrow>
          let uid = reserved2 e;
              w = SQEntryWrapper e (qID q) (sqCQID q) (qHead q) (feOldHead f);
              s = s\<lparr>lSQByUser := AList.update uid (userQueue uid s @ [w]) (lSQByUser s),
                    uidSQMap := AList.update uid
                      (setInsert (qID q) (case map_of (uidSQMap s) uid of None \<Rightarrow> [] | Some sqs \<Rightarrow> sqs)) (uidSQMap s),
                    rrUsers := setInsert uid (rrUsers s),
                    lSQFIFO := lSQFIFO s @ [w],
                    ctCounter := ctCounter s - 1\<rparr>
          in Inr (if ctCounter s = 0 then act CollectDone s else s))"

definition work :: "nvme_config \<Rightarrow> nvme_ctrl \<Rightarrow> nvme_ctrl res option" where
  "work g s = (if ctStatus s AND 1 = 0 then Some (Inr s) else collectSQueue g s)"

definition collectDone :: "tick \<Rightarrow> nvme_ctrl \<Rightarrow> nvme_ctrl" where
  "collectDone now s =
     (let s = s\<lparr>lastWorkAt := now\<rparr>;
          s = (if shutdownReserved s then
                 (act (Deschedule WorkEvent) s)\<lparr>ctStatus := (ctStatus s AND 0xFFFFFFF2) OR 8,
                    shutdownReserved := False, lSQFIFO := []\<rparr>
               else s)
      in act Execute_handleRequest (s\<lparr>requestCounter := 0\<rparr>))"

section \<open>Handing out commands\<close>

text \<open>
  What the controller asks the subsystem: the block size of a namespace and whether a user can
  be served with so many pages.
\<close>

record nvme_env =
  neLbaSize :: "u32 \<Rightarrow> u32"
  neCanServe :: "u32 \<Rightarrow> u64 \<Rightarrow> bool"

definition needPages :: "nvme_env \<Rightarrow> sq_wrapper \<Rightarrow> u64" where
  "needPages E w =
     (let nlb = (ucast (dword12 (swEntry w) AND 0xFFFF) + 1 :: u16);
          needBytes = (ucast nlb * ucast (neLbaSize E (namespaceID (swEntry w))) :: u64);
          need = (needBytes + 4096 - 1) div 4096
      in if need = 0 then 1 else need)"

definition startIdx :: "nvme_ctrl \<Rightarrow> nat" where
  "startIdx s =
     (if lastUid s \<noteq> 0 \<and> lastUid s \<in> set (rrUsers s)
      then (length (takeWhile (\<lambda>u. u \<noteq> lastUid s) (rrUsers s)) + 1) mod length (rrUsers s)
      else 0)"

definition rrOrder :: "nvme_ctrl \<Rightarrow> u32 list" where
  "rrOrder s = map (\<lambda>i. rrUsers s ! ((startIdx s + i) mod length (rrUsers s))) [0..<length (rrUsers s)]"

fun pickUser :: "nvme_env \<Rightarrow> u32 list \<Rightarrow> nvme_ctrl \<Rightarrow> sq_wrapper option \<times> nvme_ctrl" where
  "pickUser E [] s = (None, s)"
| "pickUser E (uid # us) s =
     (case userQueue uid s of
        [] \<Rightarrow> pickUser E us s
      | w # ws \<Rightarrow>
          let isFirstPick = (uid \<notin> set (bootstrappedUsers s));
              s = s\<lparr>bootstrappedUsers := setInsert uid (bootstrappedUsers s)\<rparr>
          in if isFirstPick \<or> neCanServe E uid (needPages E w)
             then (Some w, s\<lparr>lSQByUser := AList.update uid ws (lSQByUser s), lastUid := uid\<rparr>)
             else pickUser E us s)"

definition selectRequest :: "nvme_env \<Rightarrow> nvme_ctrl \<Rightarrow> sq_wrapper option \<times> nvme_ctrl" where
  "selectRequest E s =
     (case userQueue 0 s of
        w # ws \<Rightarrow> (Some w, s\<lparr>lSQByUser := AList.update 0 ws (lSQByUser s)\<rparr>)
      | [] \<Rightarrow> pickUser E (rrOrder s) s)"

definition handleRequest :: "nvme_config \<Rightarrow> nvme_env \<Rightarrow> tick \<Rightarrow> nvme_ctrl \<Rightarrow> nvme_ctrl" where
  "handleRequest g E now s =
     (let (sel, s) = selectRequest E s;
          s = (case sel of None \<Rightarrow> s | Some w \<Rightarrow> act (Execute_submitCommand w) s);
          s = s\<lparr>requestCounter := requestCounter s + 1\<rparr>;
          hasMoreWork = list_ex (\<lambda>(uid, dq). dq \<noteq> []) (lSQByUser s)
      in if sel \<noteq> None \<and> hasMoreWork \<and> requestCounter s < ncMaxRequest g
         then act (Schedule RequestEvent (now + requestInterval g)) s
         else act (Schedule WorkEvent (max (now + requestInterval g) (lastWorkAt s + ncWorkInterval g))) s)"

section \<open>Posting completions\<close>

text \<open>
  The decision whether an entry raises its interrupt at once; it updates the coalescing state.
\<close>

definition coalesce :: "tick \<Rightarrow> cq_wrapper \<Rightarrow> u16 \<Rightarrow> nvme_ctrl \<Rightarrow> bool \<times> nvme_ctrl" where
  "coalesce now e iv s =
     (if cwCqID e = 0 then (True, s)
      else case map_of (aggregationMap s) iv of
        None \<Rightarrow> (True, s)
      | Some i \<Rightarrow>
          if \<not> agValid i then (True, s)
          else
            let i = i\<lparr>agRequestCount := agRequestCount i + 1\<rparr>;
                post = \<not> (cwSubmitAt e < agNextTime i \<and> agRequestCount i \<le> aggregationThreshold s);
                i = (if post then i\<lparr>agNextTime := now + aggregationTime s, agRequestCount := 0\<rparr>
                     else i\<lparr>agPending := True\<rparr>)
            in (post, s\<lparr>aggregationMap := AList.update iv i (aggregationMap s)\<rparr>))"

definition postEntry :: "tick \<Rightarrow> cq_wrapper \<Rightarrow> nvme_ctrl \<times> u16 list \<Rightarrow> (nvme_ctrl \<times> u16 list) res" where
  "postEntry now e = (\<lambda>(s, ivs).
     bindR (queueAt (ppCQueue s) (unat (cwCqID e))) (\<lambda>pq. case pq of
        None \<Rightarrow> Inl (Undefined ''null completion queue'')
      | Some q \<Rightarrow>
          bindR (CQueue_setData (cwEntry e) q) (\<lambda>(d, entry, q').
            let s = act (WriteSlot d entry) (s\<lparr>ppCQueue := (ppCQueue s)[unat (cwCqID e) := Some q']\<rparr>)
            in if cqIen q' then
                 let (post, s) = coalesce now e (cqInterruptVector q') s
                 in Inr (s, if post then ivs @ [cqInterruptVector q'] else ivs)
               else Inr (s, ivs))))"

definition isTimedOut :: "tick \<Rightarrow> aggregation_info \<Rightarrow> bool" where
  "isTimedOut now i \<longleftrightarrow> agValid i \<and> agNextTime i \<le> now \<and> agPending i"

definition timedOut :: "tick \<Rightarrow> nvme_ctrl \<times> u16 list \<Rightarrow> nvme_ctrl \<times> u16 list" where
  "timedOut now = (\<lambda>(s, ivs).
     (s\<lparr>aggregationMap := map (\<lambda>(iv, i). (iv, if isTimedOut now i
            then i\<lparr>agNextTime := now + aggregationTime s, agRequestCount := 0, agPending := False\<rparr> else i))
          (aggregationMap s)\<rparr>,
      ivs @ map fst (filter (\<lambda>(iv, i). isTimedOut now i) (aggregationMap s))))"

text \<open>
  \<^verbatim>\<open>completion\<close>. The interrupts are sent by the callback of the last of the transfers; without a
  transfer the list of interrupts is deleted.
\<close>

definition completion :: "tick \<Rightarrow> nvme_ctrl \<Rightarrow> nvme_ctrl res" where
  "completion now s =
     (let entryToPost = filter (\<lambda>e. cwSubmitAt e \<le> now) (lCQFIFO s);
          s = s\<lparr>lCQFIFO := filter (\<lambda>e. \<not> cwSubmitAt e \<le> now) (lCQFIFO s)\<rparr>
      in bindR (foldR (postEntry now) entryToPost (s, [])) (\<lambda>x.
           let (s, ivs) = timedOut now x
           in Inr (if entryToPost = [] then s else act (Execute_send ivs) s)))"

definition completionSend :: "u16 list \<Rightarrow> nvme_ctrl \<Rightarrow> nvme_ctrl" where
  "completionSend ivs s =
     reserveCompletion (fold (\<lambda>iv. act (Interrupt iv True)) (remdups_adj (sort ivs)) s)"

end
