(* ===== verification/NvmeAdmin.thy ===== *)
theory NvmeAdmin
  imports NvmeIdentify NvmeWork
begin

text \<open>
  The commands that the NVMe subsystem handles itself (\<^verbatim>\<open>hil/nvme/subsystem.cc\<close>) and the commands
  of the admin queue that a namespace handles (\<^verbatim>\<open>hil/nvme/namespace.cc\<close>). A handler returns whether
  it has processed the command, and how the command is answered; an answer that waits for a transfer
  from the host has a continuation of its own. Definitions only; \<open>NvmeAdmin_Inv\<close> holds the properties.
\<close>

section \<open>Codes\<close>

definition OPCODE_DELETE_IO_SQUEUE :: u8 where "OPCODE_DELETE_IO_SQUEUE = 0x00"
definition OPCODE_CREATE_IO_SQUEUE :: u8 where "OPCODE_CREATE_IO_SQUEUE = 0x01"
definition OPCODE_GET_LOG_PAGE :: u8 where "OPCODE_GET_LOG_PAGE = 0x02"
definition OPCODE_DELETE_IO_CQUEUE :: u8 where "OPCODE_DELETE_IO_CQUEUE = 0x04"
definition OPCODE_CREATE_IO_CQUEUE :: u8 where "OPCODE_CREATE_IO_CQUEUE = 0x05"
definition OPCODE_IDENTIFY :: u8 where "OPCODE_IDENTIFY = 0x06"
definition OPCODE_ABORT :: u8 where "OPCODE_ABORT = 0x08"
definition OPCODE_SET_FEATURES :: u8 where "OPCODE_SET_FEATURES = 0x09"
definition OPCODE_GET_FEATURES :: u8 where "OPCODE_GET_FEATURES = 0x0A"
definition OPCODE_NAMESPACE_MANAGEMENT :: u8 where "OPCODE_NAMESPACE_MANAGEMENT = 0x0D"
definition OPCODE_NAMESPACE_ATTACHMENT :: u8 where "OPCODE_NAMESPACE_ATTACHMENT = 0x15"
definition OPCODE_FORMAT_NVM :: u8 where "OPCODE_FORMAT_NVM = 0x80"

datatype status_code =
    STATUS_SUCCESS | STATUS_INVALID_OPCODE | STATUS_INVALID_FIELD | STATUS_ABORT_INVALID_NAMESPACE
  | STATUS_FORMAT_IN_PROGRESS | STATUS_INVALID_COMPLETION_QUEUE | STATUS_INVALID_QUEUE_ID | STATUS_INVALID_QUEUE_SIZE
  | STATUS_INVALID_LOG_PAGE | STATUS_INVALID_FORMAT | STATUS_INVALID_QUEUE_DELETE | STATUS_FEATURE_ID_NOT_SAVEABLE
  | STATUS_NAMESPACE_INSUFFICIENT_CAPACITY | STATUS_NAMESPACE_ID_UNAVAILABLE | STATUS_NAMESPACE_ALREADY_ATTACHED
  | STATUS_NAMESPACE_IS_PRIVATE | STATUS_NAMESPACE_NOT_ATTACHED | STATUS_CONTROLLER_LIST_INVALID | STATUS_COMPARE_FAILURE

fun scCode :: "status_code \<Rightarrow> u16" where
  "scCode STATUS_SUCCESS = 0x00"
| "scCode STATUS_INVALID_OPCODE = 0x01"
| "scCode STATUS_INVALID_FIELD = 0x02"
| "scCode STATUS_ABORT_INVALID_NAMESPACE = 0x0B"
| "scCode STATUS_FORMAT_IN_PROGRESS = 0x84"
| "scCode STATUS_INVALID_COMPLETION_QUEUE = 0x00"
| "scCode STATUS_INVALID_QUEUE_ID = 0x01"
| "scCode STATUS_INVALID_QUEUE_SIZE = 0x02"
| "scCode STATUS_INVALID_LOG_PAGE = 0x09"
| "scCode STATUS_INVALID_FORMAT = 0x0A"
| "scCode STATUS_INVALID_QUEUE_DELETE = 0x0C"
| "scCode STATUS_FEATURE_ID_NOT_SAVEABLE = 0x0D"
| "scCode STATUS_NAMESPACE_INSUFFICIENT_CAPACITY = 0x15"
| "scCode STATUS_NAMESPACE_ID_UNAVAILABLE = 0x16"
| "scCode STATUS_NAMESPACE_ALREADY_ATTACHED = 0x18"
| "scCode STATUS_NAMESPACE_IS_PRIVATE = 0x19"
| "scCode STATUS_NAMESPACE_NOT_ATTACHED = 0x1A"
| "scCode STATUS_CONTROLLER_LIST_INVALID = 0x1C"
| "scCode STATUS_COMPARE_FAILURE = 0x85"

abbreviation status :: "bool \<Rightarrow> status_code_type \<Rightarrow> status_code \<Rightarrow> cq_wrapper \<Rightarrow> cq_wrapper" where
  "status dnr sct sc \<equiv> makeStatus dnr False sct (scCode sc)"

definition setDword0 :: "u32 \<Rightarrow> cq_wrapper \<Rightarrow> cq_wrapper" where
  "setDword0 v w = w\<lparr>cwEntry := (cwEntry w)\<lparr>cqDword0 := v\<rparr>\<rparr>"

section \<open>State and answers\<close>

record nvme_sys =
  sysCtrl :: nvme_ctrl
  sysSub :: subsys

text \<open>
  What the handlers ask of the rest: the configuration of the write cache, the identifiers of the
  interface, and the number of used pages in a range.
\<close>

record admin_env =
  aeConfig :: nvme_config
  aeWriteCache :: bool
  aeVID :: u16
  aeSSVID :: u16
  aeUsedPages :: "u64 \<Rightarrow> u64 \<Rightarrow> u64"

datatype admin_job = CreateNs u32 | AttachNs u8 u32

text \<open>
  The ways an answer takes: at once; when the memory of a new queue is mapped; when a buffer has
  been sent to the host; when a buffer has come from the host and the job is done with it; when the
  host interface layer has formatted the pages; from the namespace the command is passed to.
\<close>

datatype reply =
    Respond cq_wrapper
  | RespondMapped u64 cq_wrapper
  | SendData sq_wrapper u64 u64 buffer cq_wrapper
  | FetchData sq_wrapper admin_job cq_wrapper
  | FormatPages lpn_range bool cq_wrapper
  | ToNamespace u32 sq_wrapper

type_synonym handled = "(bool \<times> reply list \<times> nvme_sys) res"

definition maxQueueEntry :: "nvme_sys \<Rightarrow> u16" where
  "maxQueueEntry s = ucast ((capabilities (sysCtrl s) AND 0xFFFF) + 1)"

section \<open>Queues\<close>

definition admin_deleteSQueue :: "tick \<Rightarrow> sq_wrapper \<Rightarrow> nvme_sys \<Rightarrow> handled" where
  "admin_deleteSQueue now req s =
     (let resp = CQEntryWrapper req; sqid = ucast (dword10 (swEntry req) AND 0xFFFF)
      in bindR (deleteSQueue now sqid (sysCtrl s)) (\<lambda>(ret, c).
           let resp = (if ret = 1 then status False TYPE_COMMAND_SPECIFIC_STATUS STATUS_INVALID_QUEUE_ID resp else resp)
           in Inr (True, [Respond resp], s\<lparr>sysCtrl := c\<rparr>)))"

definition admin_createSQueue :: "sq_wrapper \<Rightarrow> nvme_sys \<Rightarrow> handled" where
  "admin_createSQueue req s =
     (let e = swEntry req; resp = CQEntryWrapper req;
          sqid = ucast (dword10 e AND 0xFFFF);
          entrySize = ucast (drop_bit 16 (dword10 e AND 0xFFFF0000) + 1);
          cqid = ucast (drop_bit 16 (dword11 e AND 0xFFFF0000));
          priority = ucast (drop_bit 1 (dword11 e AND 0x06))
      in if entrySize > maxQueueEntry s
         then Inr (True, [Respond (status False TYPE_COMMAND_SPECIFIC_STATUS STATUS_INVALID_QUEUE_SIZE resp)], s)
         else bindR (createSQueue sqid cqid entrySize priority (data1 e) (sysCtrl s)) (\<lambda>(ret, c).
                Inr (True, if ret = 0 then [RespondMapped (data1 e) resp] else [], s\<lparr>sysCtrl := c\<rparr>)))"

definition admin_deleteCQueue :: "sq_wrapper \<Rightarrow> nvme_sys \<Rightarrow> handled" where
  "admin_deleteCQueue req s =
     (let resp = CQEntryWrapper req; cqid = ucast (dword10 (swEntry req) AND 0xFFFF)
      in bindR (deleteCQueue cqid (sysCtrl s)) (\<lambda>(ret, c).
           let resp = (if ret = 1 then status False TYPE_COMMAND_SPECIFIC_STATUS STATUS_INVALID_QUEUE_ID resp
                       else if ret = 2 then status False TYPE_COMMAND_SPECIFIC_STATUS STATUS_INVALID_QUEUE_DELETE resp
                       else resp)
           in Inr (True, [Respond resp], s\<lparr>sysCtrl := c\<rparr>)))"

definition admin_createCQueue :: "sq_wrapper \<Rightarrow> nvme_sys \<Rightarrow> handled" where
  "admin_createCQueue req s =
     (let e = swEntry req; resp = CQEntryWrapper req;
          cqid = ucast (dword10 e AND 0xFFFF);
          entrySize = ucast (drop_bit 16 (dword10 e AND 0xFFFF0000) + 1);
          iv = ucast (drop_bit 16 (dword11 e AND 0xFFFF0000));
          ien = (dword11 e AND 0x02 \<noteq> 0)
      in if entrySize > maxQueueEntry s
         then Inr (True, [Respond (status False TYPE_COMMAND_SPECIFIC_STATUS STATUS_INVALID_QUEUE_SIZE resp)], s)
         else bindR (createCQueue cqid entrySize iv ien (data1 e) (sysCtrl s)) (\<lambda>(ret, c).
                Inr (True, if ret = 0 then [RespondMapped (data1 e) resp] else [], s\<lparr>sysCtrl := c\<rparr>)))"

definition admin_abort :: "tick \<Rightarrow> sq_wrapper \<Rightarrow> nvme_sys \<Rightarrow> handled" where
  "admin_abort now req s =
     (let e = swEntry req; sqid = ucast (dword10 e AND 0xFFFF); cid = ucast (drop_bit 16 (dword10 e AND 0xFFFF0000))
      in bindR (abortCommand now sqid cid (sysCtrl s)) (\<lambda>(ret, c).
           let resp = status True TYPE_GENERIC_COMMAND_STATUS STATUS_SUCCESS (CQEntryWrapper req)
           in Inr (True, [Respond (setDword0 (if ret = 0 then 1 else 0) resp)], s\<lparr>sysCtrl := c\<rparr>)))"

section \<open>Log pages\<close>

definition logSize :: "sq_entry \<Rightarrow> u32" where
  "logSize e = ((push_bit 16 (dword11 e AND 0xFFFF) OR drop_bit 16 (dword10 e AND 0xFFFF0000)) + 1) * 4"

definition logOffset :: "sq_entry \<Rightarrow> u64" where
  "logOffset e = push_bit 32 (ucast (dword13 e)) OR ucast (dword12 e)"

text \<open>
  The health data of the subsystem and of a namespace are never written after their constructors
  cleared them.
\<close>

definition admin_getLogPage :: "sq_wrapper \<Rightarrow> nvme_sys \<Rightarrow> handled" where
  "admin_getLogPage req s =
     (let e = swEntry req; resp = CQEntryWrapper req; lid = dword10 e AND 0xFFFF
      in if lid = 1 then Inr (True, [Respond resp], s)
         else if lid = 2 then
           if namespaceID e = NSID_ALL then Inr (True, [SendData req (logOffset e) 512 zeroBuffer resp], s)
           else Inr (False, [Respond resp], s)
         else if lid = 3 then Inr (True, [Respond resp], s)
         else Inr (True, [Respond (status True TYPE_COMMAND_SPECIFIC_STATUS STATUS_INVALID_LOG_PAGE resp)], s))"

section \<open>Identify\<close>

definition nsidList :: "u32 list \<Rightarrow> buffer res" where
  "nsidList ids =
     (if length ids > 1024 then Inl (Undefined ''write behind the identify buffer'')
      else Inr (bufStores (map (\<lambda>(i, nid). (4 * i, leBytes 4 (ucast nid))) (enumerate 0 ids)) zeroBuffer))"

fun identifyMatching :: "admin_env \<Rightarrow> u32 \<Rightarrow> (nvme_ns \<Rightarrow> bool) \<Rightarrow> nvme_ns list \<Rightarrow> buffer \<Rightarrow> (nvme_ns list \<times> buffer) res" where
  "identifyMatching E pageSize P [] b = Inr ([], b)"
| "identifyMatching E pageSize P (n # ns) b =
     (if P n then
        bindR (fillIdentifyNamespace (aeUsedPages E) pageSize (nsInfo n) b) (\<lambda>(info, b).
        bindR (identifyMatching E pageSize P ns b) (\<lambda>(ns, b). Inr (n\<lparr>nsInfo := info\<rparr> # ns, b)))
      else bindR (identifyMatching E pageSize P ns b) (\<lambda>(ns, b). Inr (n # ns, b)))"

definition identifyEnv :: "admin_env \<Rightarrow> subsys \<Rightarrow> identify_env" where
  "identifyEnv E b = \<lparr>idVID = aeVID E, idSSVID = aeSSVID E, idTotalSize = fst (getNVMCapacity b),
     idUsed = snd (getNVMCapacity b), idUseOCSSD = False, idWriteCache = aeWriteCache E\<rparr>"

definition admin_identify :: "admin_env \<Rightarrow> sq_wrapper \<Rightarrow> nvme_sys \<Rightarrow> handled" where
  "admin_identify E req s =
     (let e = swEntry req; resp = CQEntryWrapper req; b = sysSub s; nid = namespaceID e;
          cns = dword10 e AND 0xFF; cntid = drop_bit 16 (dword10 e AND 0xFFFF0000);
          invalid = Inr (True, [Respond (status True TYPE_GENERIC_COMMAND_STATUS STATUS_ABORT_INVALID_NAMESPACE resp)], s);
          send = (\<lambda>ns buf. Inr (True, [SendData req 0 0x1000 buf resp], s\<lparr>sysSub := b\<lparr>lNamespaces := ns\<rparr>\<rparr>));
          same = (\<lambda>buf. send (lNamespaces b) buf);
          controllers = same (if cntid = 0 then bufStore (0, leBytes 2 1) zeroBuffer else zeroBuffer)
      in if cns = 0x00 then
           if nid = NSID_ALL then same zeroBuffer
           else bindR (identifyMatching E (ssPageSize b) (\<lambda>n. nsAttached n \<and> nsNSID n = nid) (lNamespaces b) zeroBuffer)
                  (\<lambda>(ns, buf). send ns buf)
         else if cns = 0x01 then same (Controller_identify (identifyEnv E b) zeroBuffer)
         else if cns = 0x02 then
           if nid \<ge> NSID_ALL - 1 then invalid
           else bindR (nsidList (map nsNSID (filter (\<lambda>n. nsAttached n \<and> nsNSID n > nid) (lNamespaces b)))) same
         else if cns = 0x10 then
           if nid \<ge> NSID_ALL - 1 then invalid
           else bindR (nsidList (map nsNSID (filter (\<lambda>n. nsNSID n > nid) (lNamespaces b)))) same
         else if cns = 0x11 then
           bindR (identifyMatching E (ssPageSize b) (\<lambda>n. nsNSID n = nid) (lNamespaces b) zeroBuffer) (\<lambda>(ns, buf). send ns buf)
         else if cns = 0x12 \<or> cns = 0x13 then controllers
         else same zeroBuffer)"

section \<open>Features\<close>

definition limitQueues :: "nvme_config \<Rightarrow> u32 \<Rightarrow> u32" where
  "limitQueues g v =
     (let sqsize = ucast (ncMaxIOSQueue g); cqsize = ucast (ncMaxIOCQueue g);
          v = (if v AND 0xFFFF \<ge> sqsize then (v AND 0xFFFF0000) OR (sqsize - 1) else v)
      in if drop_bit 16 (v AND 0xFFFF0000) \<ge> cqsize then (v AND 0xFFFF) OR push_bit 16 (cqsize - 1) else v)"

definition admin_setFeatures :: "admin_env \<Rightarrow> sq_wrapper \<Rightarrow> nvme_sys \<Rightarrow> handled" where
  "admin_setFeatures E req s =
     (let e = swEntry req; resp = CQEntryWrapper req; fid = dword10 e AND 0x00FF; v = dword11 e
      in if dword10 e AND 0x80000000 \<noteq> 0
         then Inr (True, [Respond (status False TYPE_COMMAND_SPECIFIC_STATUS STATUS_FEATURE_ID_NOT_SAVEABLE resp)], s)
         else if fid = 0x07 then
           if v AND 0xFFFF = 0xFFFF \<or> v AND 0xFFFF0000 = 0xFFFF0000
           then Inr (True, [Respond (status False TYPE_GENERIC_COMMAND_STATUS STATUS_INVALID_FIELD resp)], s)
           else let q = limitQueues (aeConfig E) v
                in Inr (True, [Respond (setDword0 q resp)], s\<lparr>sysSub := (sysSub s)\<lparr>queueAllocated := q\<rparr>\<rparr>)
         else if fid = 0x08 then
           bindR (setCoalescingParameter (ucast (drop_bit 8 v AND 0xFF)) (ucast (v AND 0xFF)) (sysCtrl s)) (\<lambda>c.
             Inr (True, [Respond resp], s\<lparr>sysCtrl := c\<rparr>))
         else if fid = 0x09 then
           Inr (True, [Respond resp], s\<lparr>sysCtrl := setCoalescing (ucast (v AND 0xFFFF)) (v AND 0x10000 \<noteq> 0) (sysCtrl s)\<rparr>)
         else Inr (True, [Respond (status True TYPE_GENERIC_COMMAND_STATUS STATUS_INVALID_FIELD resp)], s))"

text \<open>The shift of a signed byte may set the sign; the bits above 32 that this sets are cut off.\<close>

definition arbitrationFeature :: "nvme_config \<Rightarrow> u32" where
  "arbitrationFeature g =
     (let high = ucast (ncWrrHigh g) :: u64; medium = ucast (ncWrrMedium g) :: u64;
          top = ucast (high * medium - 1) :: u8
      in ucast (push_bit 24 (ucast top) OR push_bit 16 (medium - 1) OR 0x03 :: u64))"

definition admin_getFeatures :: "admin_env \<Rightarrow> sq_wrapper \<Rightarrow> nvme_sys \<Rightarrow> handled" where
  "admin_getFeatures E req s =
     (let e = swEntry req; resp = CQEntryWrapper req; fid = dword10 e AND 0x00FF; v = dword11 e;
          answer = (\<lambda>d. Inr (True, [Respond (setDword0 d resp)], s))
      in if fid = 0x01 then answer (arbitrationFeature (aeConfig E))
         else if fid = 0x06 then answer (if aeWriteCache E then 0x01 else 0x00)
         else if fid = 0x07 then answer (queueAllocated (sysSub s))
         else if fid = 0x08 then
           let (time, thres) = getCoalescingParameter (sysCtrl s) in answer (push_bit 8 (ucast time) OR ucast thres)
         else if fid = 0x09 then
           answer ((v AND 0xFFFF) OR (if getCoalescing (ucast (v AND 0xFFFF)) (sysCtrl s) then 0x10000 else 0))
         else Inr (True, [Respond (status True TYPE_GENERIC_COMMAND_STATUS STATUS_INVALID_FIELD resp)], s))"

section \<open>Managing namespaces\<close>

fun freeNsid :: "u32 \<Rightarrow> nvme_ns list \<Rightarrow> u32" where
  "freeNsid nid [] = nid"
| "freeNsid nid (n # ns) = (if nsNSID n = nid then freeNsid (nid + 1) ns else nid)"

definition admin_namespaceManagement :: "sq_wrapper \<Rightarrow> nvme_sys \<Rightarrow> handled" where
  "admin_namespaceManagement req s =
     (let e = swEntry req; resp = CQEntryWrapper req; sel = dword10 e AND 0x0F
      in if (sel = 0x00 \<and> namespaceID e \<noteq> NSID_NONE) \<or> sel > 0x01 then Inr (True, [], s)
         else if sel = 0x00 then
           let nid = freeNsid NSID_LOWEST (lNamespaces (sysSub s))
           in if nid = NSID_ALL
              then Inr (True, [Respond (status False TYPE_COMMAND_SPECIFIC_STATUS STATUS_NAMESPACE_ID_UNAVAILABLE resp)], s)
              else Inr (True, [FetchData req (CreateNs nid) resp], s)
         else bindR (destroyNamespace (namespaceID e) (sysSub s)) (\<lambda>(found, b).
                Inr (True, [Respond (if found then resp
                       else status False TYPE_GENERIC_COMMAND_STATUS STATUS_ABORT_INVALID_NAMESPACE resp)], s\<lparr>sysSub := b\<rparr>)))"

text \<open>
  The continuation: a wrong format or attribute sets the status but does not end the function. The
  fields of the information that are not read from the buffer are those of the constructor.
\<close>

definition createNsDone :: "u32 \<Rightarrow> buffer \<Rightarrow> cq_wrapper \<Rightarrow> subsys \<Rightarrow> (cq_wrapper \<times> subsys) res" where
  "createNsDone nid buf resp b =
     (let info = Information_new\<lparr>nsSize := bufRead 0 8 buf, nsCapacity := bufRead 8 8 buf,
            nsLbaFormatIndex := buf 26, nsDataProtection := buf 29, nsSharing := buf 30\<rparr>;
          resp = (if unat (nsLbaFormatIndex info) \<ge> nLBAFormat
                  then status False TYPE_GENERIC_COMMAND_STATUS STATUS_ABORT_INVALID_NAMESPACE resp
                  else if nsSharing info \<noteq> 0 \<or> nsDataProtection info \<noteq> 0
                  then status False TYPE_GENERIC_COMMAND_STATUS STATUS_INVALID_FIELD resp
                  else resp)
      in if unat (nsLbaFormatIndex info) \<ge> length lbaSize then Inl (Undefined ''lbaSize index'')
         else bindR (createNamespace nid (info\<lparr>nsLbaSize := lbaSize ! unat (nsLbaFormatIndex info)\<rparr>) b) (\<lambda>(ok, info, b).
           Inr (if ok then setDword0 nid resp
                else status False TYPE_COMMAND_SPECIFIC_STATUS STATUS_NAMESPACE_INSUFFICIENT_CAPACITY resp, b)))"

definition admin_namespaceAttachment :: "sq_wrapper \<Rightarrow> nvme_sys \<Rightarrow> handled" where
  "admin_namespaceAttachment req s =
     (let e = swEntry req
      in Inr (True, [FetchData req (AttachNs (ucast (dword10 e AND 0x0F)) (namespaceID e)) (CQEntryWrapper req)], s))"

text \<open>
  The list of controllers: its length and its elements, words of the buffer of \<open>0x1000\<close> bytes.
\<close>

definition controllerList :: "buffer \<Rightarrow> u16 list res" where
  "controllerList buf =
     (let n = unat (bufRead 0 2 buf)
      in if n > 2047 then Inl (Undefined ''read behind the controller list'')
         else Inr (map (\<lambda>i. ucast (bufRead (2 * i) 2 buf)) [1..<Suc n]))"

fun attachAll :: "u32 \<Rightarrow> bool \<Rightarrow> nvme_ns list \<Rightarrow> cq_wrapper \<Rightarrow> nvme_ns list \<times> cq_wrapper" where
  "attachAll nid att [] resp = ([], resp)"
| "attachAll nid att (n # ns) resp =
     (let (n', resp) =
        (if nsNSID n = nid then
           if nsAttached n = att
           then (n, status True TYPE_COMMAND_SPECIFIC_STATUS
                  (if att then STATUS_NAMESPACE_ALREADY_ATTACHED else STATUS_NAMESPACE_NOT_ATTACHED) resp)
           else (n\<lparr>nsAttached := att\<rparr>, resp)
         else (n, resp));
        (ns', resp) = attachAll nid att ns resp
      in (n' # ns', resp))"

definition attachNsDone :: "u8 \<Rightarrow> u32 \<Rightarrow> buffer \<Rightarrow> cq_wrapper \<Rightarrow> subsys \<Rightarrow> (cq_wrapper \<times> subsys) res" where
  "attachNsDone sel nid buf resp b =
     bindR (controllerList buf) (\<lambda>ctrls.
       if length ctrls > 1 \<and> sel = 0x00 then Inr (status False TYPE_COMMAND_SPECIFIC_STATUS STATUS_NAMESPACE_IS_PRIVATE resp, b)
       else if ctrls = [] \<or> ctrls ! 0 \<noteq> 0 then Inr (status False TYPE_COMMAND_SPECIFIC_STATUS STATUS_CONTROLLER_LIST_INVALID resp, b)
       else if sel = 0x00 then
         let (ns, resp) = attachAll nid True (lNamespaces b) resp
         in Inr (if \<exists>n\<in>set (lNamespaces b). nsNSID n = nid then resp
                 else status True TYPE_GENERIC_COMMAND_STATUS STATUS_ABORT_INVALID_NAMESPACE resp, b\<lparr>lNamespaces := ns\<rparr>)
       else if sel = 0x01 then
         let (ns, resp) = attachAll nid False (lNamespaces b) resp in Inr (resp, b\<lparr>lNamespaces := ns\<rparr>)
       else Inr (status False TYPE_GENERIC_COMMAND_STATUS STATUS_INVALID_FIELD resp, b))"

definition jobDone :: "admin_job \<Rightarrow> buffer \<Rightarrow> cq_wrapper \<Rightarrow> nvme_sys \<Rightarrow> (cq_wrapper \<times> nvme_sys) res" where
  "jobDone job buf resp s =
     bindR (case job of CreateNs nid \<Rightarrow> createNsDone nid buf resp (sysSub s)
                      | AttachNs sel nid \<Rightarrow> attachNsDone sel nid buf resp (sysSub s))
       (\<lambda>(resp, b). Inr (resp, s\<lparr>sysSub := b\<rparr>))"

section \<open>Format\<close>

definition Namespace_format :: "tick \<Rightarrow> nvme_ns \<Rightarrow> nvme_ns" where
  "Namespace_format now n = n\<lparr>nsFormatFinishedAt := now\<rparr>"

fun updateFirst :: "('a \<Rightarrow> bool) \<Rightarrow> ('a \<Rightarrow> 'a) \<Rightarrow> 'a list \<Rightarrow> 'a list" where
  "updateFirst P f [] = []"
| "updateFirst P f (x # xs) = (if P x then f x # xs else x # updateFirst P f xs)"

definition formatInfo :: "admin_env \<Rightarrow> u8 \<Rightarrow> subsys \<Rightarrow> ns_info \<Rightarrow> ns_info" where
  "formatInfo E lbaf b info =
     (let l = lbaSize ! unat lbaf; sz = ssTotalPages b * ucast (ssPageSize b) div ucast l; r = nsRange info
      in info\<lparr>nsLbaFormatIndex := lbaf, nsLbaSize := l, nsSize := sz, nsCapacity := sz,
              nsUtilization := aeUsedPages E (slpn r) (slpn r + nlp r) * ucast (ssPageSize b) div ucast l\<rparr>)"

definition admin_formatNVM :: "admin_env \<Rightarrow> tick \<Rightarrow> sq_wrapper \<Rightarrow> nvme_sys \<Rightarrow> handled" where
  "admin_formatNVM E now req s =
     (let e = swEntry req; resp = CQEntryWrapper req; v = dword10 e; b = sysSub s;
          ses = drop_bit 9 (v AND 0x0E00); pi = drop_bit 5 (v AND 0xE0); lbaf = ucast (v AND 0x0F) :: u8;
          mine = (\<lambda>n. nsNSID n = namespaceID e)
      in if (ses \<noteq> 0 \<and> ses \<noteq> 1) \<or> v AND 0x0100 \<noteq> 0 \<or> v AND 0x10 \<noteq> 0 \<or> pi \<noteq> 0 \<or> unat lbaf \<ge> nLBAFormat
         then Inr (True, [Respond (status False TYPE_GENERIC_COMMAND_STATUS STATUS_INVALID_FORMAT resp)], s)
         else case find mine (lNamespaces b) of
                None \<Rightarrow> Inr (True, [Respond (status False TYPE_GENERIC_COMMAND_STATUS STATUS_ABORT_INVALID_NAMESPACE resp)], s)
              | Some n \<Rightarrow>
                  Inr (True, [FormatPages (nsRange (nsInfo n)) (ses = 1) resp],
                    s\<lparr>sysSub := b\<lparr>lNamespaces := updateFirst mine
                        (\<lambda>n. Namespace_format now (n\<lparr>nsInfo := formatInfo E lbaf b (nsInfo n)\<rparr>)) (lNamespaces b)\<rparr>\<rparr>))"

section \<open>The dispatch\<close>

definition adminCommand :: "admin_env \<Rightarrow> tick \<Rightarrow> sq_wrapper \<Rightarrow> nvme_sys \<Rightarrow> handled" where
  "adminCommand E now req s =
     (let oc = opcode (swEntry req)
      in if oc = OPCODE_DELETE_IO_SQUEUE then admin_deleteSQueue now req s
         else if oc = OPCODE_CREATE_IO_SQUEUE then admin_createSQueue req s
         else if oc = OPCODE_GET_LOG_PAGE then admin_getLogPage req s
         else if oc = OPCODE_DELETE_IO_CQUEUE then admin_deleteCQueue req s
         else if oc = OPCODE_CREATE_IO_CQUEUE then admin_createCQueue req s
         else if oc = OPCODE_IDENTIFY then admin_identify E req s
         else if oc = OPCODE_ABORT then admin_abort now req s
         else if oc = OPCODE_SET_FEATURES then admin_setFeatures E req s
         else if oc = OPCODE_GET_FEATURES then admin_getFeatures E req s
         else if oc = OPCODE_NAMESPACE_MANAGEMENT then admin_namespaceManagement req s
         else if oc = OPCODE_NAMESPACE_ATTACHMENT then admin_namespaceAttachment req s
         else if oc = OPCODE_FORMAT_NVM then admin_formatNVM E now req s
         else Inr (False, [], s))"

text \<open>The namespace that takes a command which the subsystem has not processed.\<close>

definition targetNamespace :: "u32 \<Rightarrow> nvme_ns list \<Rightarrow> u32 option" where
  "targetNamespace nid ns =
     (if nid < NSID_ALL then map_option nsNSID (find (\<lambda>n. nsNSID n = nid) ns)
      else case ns of [] \<Rightarrow> None | n # _ \<Rightarrow> Some (nsNSID n))"

definition Subsystem_submitCommand :: "admin_env \<Rightarrow> tick \<Rightarrow> sq_wrapper \<Rightarrow> nvme_sys \<Rightarrow> (reply list \<times> nvme_sys) res" where
  "Subsystem_submitCommand E now req s =
     (let s = s\<lparr>sysSub := (sysSub s)\<lparr>commandCount := commandCount (sysSub s) + 1\<rparr>\<rparr>
      in bindR (if swSqID req = 0 then adminCommand E now req s else Inr (False, [], s)) (\<lambda>(processed, out, s).
           if processed then Inr (out, s)
           else case targetNamespace (namespaceID (swEntry req)) (lNamespaces (sysSub s)) of
                  Some nid \<Rightarrow> Inr (out @ [ToNamespace nid req], s)
                | None \<Rightarrow> Inr (out @ [Respond (status False TYPE_GENERIC_COMMAND_STATUS
                           STATUS_ABORT_INVALID_NAMESPACE (CQEntryWrapper req))], s)))"

section \<open>A namespace and the admin queue\<close>

definition namespace_getLogPage :: "sq_wrapper \<Rightarrow> nvme_ns \<Rightarrow> reply list" where
  "namespace_getLogPage req n =
     (let e = swEntry req; resp = CQEntryWrapper req
      in if dword10 e AND 0xFFFF = 2 then
           if namespaceID e = nsNSID n then [SendData req (logOffset e) 512 zeroBuffer resp]
           else [Respond (status True TYPE_COMMAND_SPECIFIC_STATUS STATUS_NAMESPACE_NOT_ATTACHED resp)]
         else [Respond (status True TYPE_COMMAND_SPECIFIC_STATUS STATUS_INVALID_LOG_PAGE resp)])"

definition namespace_adminCommand :: "tick \<Rightarrow> sq_wrapper \<Rightarrow> nvme_ns \<Rightarrow> reply list" where
  "namespace_adminCommand now req n =
     (let resp = CQEntryWrapper req
      in if now < nsFormatFinishedAt n then [Respond (status False TYPE_GENERIC_COMMAND_STATUS STATUS_FORMAT_IN_PROGRESS resp)]
         else if opcode (swEntry req) = OPCODE_GET_LOG_PAGE then namespace_getLogPage req n
         else [Respond (status True TYPE_GENERIC_COMMAND_STATUS STATUS_INVALID_OPCODE resp)])"

end
