(* ===== verification/NvmeCtrl_Inv.thy ===== *)
theory NvmeCtrl_Inv
  imports NvmeCtrl
begin

text \<open>
  Properties of the queue tables of the NVMe controller: every submission queue has its
  completion queue, and creating and deleting queues keeps that.
\<close>

section \<open>Searching a table\<close>

lemma anyQueue_eq:
  "\<forall>i\<in>set ks. i < length qs \<Longrightarrow> anyQueue P qs ks = Inr (\<exists>i\<in>set ks. \<exists>q. qs ! i = Some q \<and> P q)"
  by (induction ks) (auto simp: queueAt_def split: option.splits)

section \<open>The invariant\<close>

text \<open>
  The two tables have the same length, which \<^verbatim>\<open>deleteCQueue\<close> relies on. The vectors of the
  completion queues for I/O have a coalescing state.
\<close>

definition tables_ok :: "nvme_ctrl \<Rightarrow> bool" where
  "tables_ok s \<longleftrightarrow> length (ppSQueue s) = length (ppCQueue s) \<and>
     (\<forall>i<length (ppSQueue s). \<forall>q. ppSQueue s ! i = Some q \<longrightarrow>
        unat (sqCQID q) < length (ppCQueue s) \<and> ppCQueue s ! unat (sqCQID q) \<noteq> None \<and> (i = 0 \<longrightarrow> sqCQID q = 0)) \<and>
     (\<forall>i<length (ppCQueue s). \<forall>q. 0 < i \<longrightarrow> ppCQueue s ! i = Some q \<longrightarrow> cqInterruptVector q \<in> dom (map_of (aggregationMap s)))"

lemma tables_okD:
  assumes "tables_ok s"
  shows "length (ppSQueue s) = length (ppCQueue s)"
    and "\<And>i q. i < length (ppCQueue s) \<Longrightarrow> ppSQueue s ! i = Some q \<Longrightarrow>
      unat (sqCQID q) < length (ppCQueue s) \<and> ppCQueue s ! unat (sqCQID q) \<noteq> None \<and> (i = 0 \<longrightarrow> sqCQID q = 0)"
    and "\<And>i q. i < length (ppCQueue s) \<Longrightarrow> 0 < i \<Longrightarrow> ppCQueue s ! i = Some q \<Longrightarrow> cqInterruptVector q \<in> dom (map_of (aggregationMap s))"
proof -
  from assms show l: "length (ppSQueue s) = length (ppCQueue s)" unfolding tables_ok_def by blast
  from assms show "unat (sqCQID q) < length (ppCQueue s) \<and> ppCQueue s ! unat (sqCQID q) \<noteq> None \<and> (i = 0 \<longrightarrow> sqCQID q = 0)"
    if "i < length (ppCQueue s)" "ppSQueue s ! i = Some q" for i q
    using that l unfolding tables_ok_def by metis
  from assms show "cqInterruptVector q \<in> dom (map_of (aggregationMap s))"
    if "i < length (ppCQueue s)" "0 < i" "ppCQueue s ! i = Some q" for i q
    using that unfolding tables_ok_def by blast
qed

lemma tables_okI:
  assumes "length (ppSQueue s) = length (ppCQueue s)"
    and "\<And>i q. i < length (ppCQueue s) \<Longrightarrow> ppSQueue s ! i = Some q \<Longrightarrow>
      unat (sqCQID q) < length (ppCQueue s) \<and> ppCQueue s ! unat (sqCQID q) \<noteq> None \<and> (i = 0 \<longrightarrow> sqCQID q = 0)"
    and "\<And>i q. i < length (ppCQueue s) \<Longrightarrow> 0 < i \<Longrightarrow> ppCQueue s ! i = Some q \<Longrightarrow> cqInterruptVector q \<in> dom (map_of (aggregationMap s))"
  shows "tables_ok s"
  using assms unfolding tables_ok_def by metis

lemma tables_ok_new: "ncMaxIOCQueue g = ncMaxIOSQueue g \<Longrightarrow> tables_ok (Controller_new g)"
  by (auto intro!: tables_okI simp: Controller_new_def simp del: replicate_Suc)

text \<open>The fields the invariant looks at.\<close>

lemma tables_ok_cong:
  "ppSQueue s' = ppSQueue s \<Longrightarrow> ppCQueue s' = ppCQueue s \<Longrightarrow> aggregationMap s' = aggregationMap s \<Longrightarrow> tables_ok s' = tables_ok s"
  by (simp add: tables_ok_def)

lemma createCQueue_tables:
  assumes "tables_ok s" shows "on_ok (createCQueue cqid len iv ien prp1 s) (\<lambda>(r, s'). tables_ok s')"
proof (cases "unat cqid < length (ppCQueue s) \<and> ppCQueue s ! unat cqid = None")
  case True
  define q where "q = setBase prp1 (cqstride s) (CQueue_new iv ien cqid len)"
  define s' where "s' = s\<lparr>ppCQueue := (ppCQueue s)[unat cqid := Some q],
    aggregationMap := AList.update iv \<lparr>agNextTime = 0, agRequestCount = 0, agValid = False, agPending = False\<rparr> (aggregationMap s)\<rparr>"
  have iv: "cqInterruptVector q = iv" by (simp add: q_def setBase_def CQueue_new_def)
  note T = tables_okD [OF assms]
  have "tables_ok s'"
  proof (rule tables_okI)
    fix i r assume "i < length (ppCQueue s')" "ppSQueue s' ! i = Some r"
    then show "unat (sqCQID r) < length (ppCQueue s') \<and> ppCQueue s' ! unat (sqCQID r) \<noteq> None \<and> (i = 0 \<longrightarrow> sqCQID r = 0)"
      using T(2) [of i r] True by (auto simp: s'_def nth_list_update)
  next
    fix i r assume "i < length (ppCQueue s')" "0 < i" "ppCQueue s' ! i = Some r"
    then show "cqInterruptVector r \<in> dom (map_of (aggregationMap s'))"
      using T(3) [of i r] True iv by (cases "i = unat cqid") (auto simp: s'_def update_conv')
  qed (simp add: s'_def T(1))
  then show ?thesis using True by (simp add: createCQueue_def queueAt_def s'_def q_def)
qed (use assms in \<open>auto simp: createCQueue_def queueAt_def split: option.splits\<close>)

lemma createSQueue_tables:
  assumes "tables_ok s" "ppSQueue s ! 0 \<noteq> None" shows "on_ok (createSQueue sqid cqid len pri prp1 s) (\<lambda>(r, s'). tables_ok s')"
proof -
  let ?q = "setBase prp1 (sqstride s) (SQueue_new cqid pri sqid len)"
  let ?s = "s\<lparr>ppSQueue := (ppSQueue s)[unat sqid := Some ?q]\<rparr>"
  note T = tables_okD [OF assms(1)]
  have "tables_ok ?s" if "unat cqid < length (ppCQueue s)" "ppCQueue s ! unat cqid \<noteq> None" "unat sqid < length (ppSQueue s)" "ppSQueue s ! unat sqid = None"
  proof (rule tables_okI)
    fix i r assume "i < length (ppCQueue ?s)" "ppSQueue ?s ! i = Some r"
    then show "unat (sqCQID r) < length (ppCQueue ?s) \<and> ppCQueue ?s ! unat (sqCQID r) \<noteq> None \<and> (i = 0 \<longrightarrow> sqCQID r = 0)"
    proof (cases "i = unat sqid")
      case True
      then have "i \<noteq> 0" using assms(2) that(4) by metis
      then show ?thesis using True that \<open>ppSQueue ?s ! i = Some r\<close> by (auto simp: setBase_def SQueue_new_def)
    next
      case False
      then show ?thesis using T(2) [of i r] \<open>i < _\<close> \<open>ppSQueue ?s ! i = Some r\<close> by simp
    qed
  qed (use T in auto)
  then show ?thesis using assms(1) by (auto simp: createSQueue_def queueAt_def split: option.splits)
qed

text \<open>A completion queue is deleted exactly when no submission queue uses it.\<close>

definition cqUsed :: "u16 \<Rightarrow> nvme_ctrl \<Rightarrow> bool" where
  "cqUsed cqid s \<longleftrightarrow> (\<exists>i<length (ppSQueue s). \<exists>q. ppSQueue s ! i = Some q \<and> sqCQID q = cqid)"

lemma deleteCQueue_tables:
  assumes "tables_ok s" "unat cqid < length (ppCQueue s)"
  shows "runs_to (deleteCQueue cqid s) (\<lambda>(r, s'). tables_ok s' \<and>
    r = (if cqid = 0 \<or> ppCQueue s ! unat cqid = None then 1 else if cqUsed cqid s then 2 else 0) \<and>
    ppCQueue s' = (if r = 0 then (ppCQueue s)[unat cqid := None] else ppCQueue s) \<and> ppSQueue s' = ppSQueue s)"
proof (cases "cqid = 0 \<or> ppCQueue s ! unat cqid = None")
  case True
  then show ?thesis using assms by (auto simp: deleteCQueue_def queueAt_def split: option.splits)
next
  case False
  note T = tables_okD [OF assms(1)]
  obtain q where q: "ppCQueue s ! unat cqid = Some q" using False by auto
  have used: "anyQueue (\<lambda>sq. sqCQID sq = cqid) (ppSQueue s) [1..<length (ppCQueue s)] = Inr (cqUsed cqid s)"
  proof -
    have "(\<exists>i\<in>set [1..<length (ppCQueue s)]. \<exists>q. ppSQueue s ! i = Some q \<and> sqCQID q = cqid) \<longleftrightarrow> cqUsed cqid s"
      using T(1,2) False by (fastforce simp: cqUsed_def)
    then show ?thesis using T(1) by (subst anyQueue_eq) auto
  qed
  let ?s = "s\<lparr>ppCQueue := (ppCQueue s)[unat cqid := None]\<rparr>" and ?iv = "cqInterruptVector q"
  have same: "anyQueue (\<lambda>cq. cqInterruptVector cq = ?iv) (ppCQueue ?s) [1..<length (ppCQueue ?s)] =
      Inr (\<exists>i\<in>{1..<length (ppCQueue s)}. \<exists>r. ppCQueue ?s ! i = Some r \<and> cqInterruptVector r = ?iv)"
    by (subst anyQueue_eq) auto
  have c0: "0 < unat cqid" using False by (simp add: unat_gt_0)
  obtain y where iv: "map_of (aggregationMap s) ?iv = Some y" using T(3) [OF assms(2) c0 q] by auto
  have "tables_ok (?s\<lparr>aggregationMap := m\<rparr>)" if "\<not> cqUsed cqid s"
    "\<And>i r. 0 < i \<Longrightarrow> i < length (ppCQueue s) \<Longrightarrow> ppCQueue ?s ! i = Some r \<Longrightarrow> cqInterruptVector r \<in> dom (map_of m)" for m
  proof (rule tables_okI)
    fix i r assume r: "i < length (ppCQueue (?s\<lparr>aggregationMap := m\<rparr>))" "ppSQueue (?s\<lparr>aggregationMap := m\<rparr>) ! i = Some r"
    then have "unat (sqCQID r) \<noteq> unat cqid" using T(1) that(1) by (auto simp: cqUsed_def dest: word_unat_eq_iff [THEN iffD2])
    then show "unat (sqCQID r) < length (ppCQueue (?s\<lparr>aggregationMap := m\<rparr>)) \<and>
        ppCQueue (?s\<lparr>aggregationMap := m\<rparr>) ! unat (sqCQID r) \<noteq> None \<and> (i = 0 \<longrightarrow> sqCQID r = 0)"
      using r T(2) [of i r] by simp
  qed (use T(1) that(2) in auto)
  note tab = this [of "aggregationMap s"] this [of "AList.delete ?iv (aggregationMap s)"]
  show ?thesis
  proof (cases "cqUsed cqid s")
    case True
    then show ?thesis using used q False assms by (simp add: deleteCQueue_def queueAt_def)
  next
    case nu: False
    have keep: "cqInterruptVector r \<in> dom (map_of (aggregationMap s))" if "0 < i" "i < length (ppCQueue s)" "ppCQueue ?s ! i = Some r" for i r
      using T(3) [of i r] that by (cases "i = unat cqid") auto
    have t1: "tables_ok ?s" using tab(1) [OF nu keep] by simp
    show ?thesis
    proof (cases "\<exists>i\<in>{1..<length (ppCQueue s)}. \<exists>r. ppCQueue ?s ! i = Some r \<and> cqInterruptVector r = ?iv")
      case True
      then show ?thesis using t1 used same q False nu assms(2) by (simp add: deleteCQueue_def queueAt_def Let_def)
    next
      case no: False
      have "cqInterruptVector r \<in> dom (map_of (AList.delete ?iv (aggregationMap s)))"
        if "0 < i" "i < length (ppCQueue s)" "ppCQueue ?s ! i = Some r" for i r
        using keep [OF that] no that by (auto simp: delete_conv')
      then have "tables_ok (?s\<lparr>aggregationMap := AList.delete ?iv (aggregationMap s)\<rparr>)" using tab(2) nu by blast
      then show ?thesis using t1 used same q False nu assms(2) iv by (simp add: deleteCQueue_def queueAt_def Let_def)
    qed
  qed
qed

text \<open>
  Deleting a submission queue changes its own slot of the table only.
\<close>

lemma submitCQ_tables: "on_ok (submitCQ now e s) (\<lambda>s'. ppSQueue s' = ppSQueue s \<and> ppCQueue s' = ppCQueue s \<and> aggregationMap s' = aggregationMap s)"
  by (auto simp: submitCQ_def queueAt_def reserveCompletion_def act_def split: option.splits)

lemma purgeUser_tables [simp]:
  "ppSQueue (purgeUser q x s) = ppSQueue s" "ppCQueue (purgeUser q x s) = ppCQueue s" "aggregationMap (purgeUser q x s) = aggregationMap s"
  "lSQFIFO (purgeUser q x s) = lSQFIFO s"
  by (simp_all add: purgeUser_def Let_def split: prod.splits)

lemma purge_tables [simp]:
  "ppSQueue (purgeSQFromUserQueues q s) = ppSQueue s" "ppCQueue (purgeSQFromUserQueues q s) = ppCQueue s"
  "aggregationMap (purgeSQFromUserQueues q s) = aggregationMap s" "lSQFIFO (purgeSQFromUserQueues q s) = lSQFIFO s"
proof -
  have *: "ppSQueue (fold (purgeUser q) xs t) = ppSQueue t \<and> ppCQueue (fold (purgeUser q) xs t) = ppCQueue t \<and>
    aggregationMap (fold (purgeUser q) xs t) = aggregationMap t \<and> lSQFIFO (fold (purgeUser q) xs t) = lSQFIFO t" for xs t
    by (induction xs arbitrary: t) simp_all
  show "ppSQueue (purgeSQFromUserQueues q s) = ppSQueue s" "ppCQueue (purgeSQFromUserQueues q s) = ppCQueue s"
    "aggregationMap (purgeSQFromUserQueues q s) = aggregationMap s" "lSQFIFO (purgeSQFromUserQueues q s) = lSQFIFO s"
    using * by (simp_all add: purgeSQFromUserQueues_def Let_def)
qed

lemma tables_ok_dropSQ:
  assumes "tables_ok s" "ppSQueue s' = (ppSQueue s)[i := None]" "ppCQueue s' = ppCQueue s" "aggregationMap s' = aggregationMap s"
  shows "tables_ok s'"
proof (rule tables_okI)
  note T = tables_okD [OF assms(1)]
  show "length (ppSQueue s') = length (ppCQueue s')" using T(1) assms by simp
  fix j q assume "j < length (ppCQueue s')" "ppSQueue s' ! j = Some q"
  then have "j < length (ppCQueue s)" "ppSQueue s ! j = Some q" using assms(2,3) T(1) by (cases "j = i"; simp)+
  from T(2) [OF this] assms(3)
  show "unat (sqCQID q) < length (ppCQueue s') \<and> ppCQueue s' ! unat (sqCQID q) \<noteq> None \<and> (j = 0 \<longrightarrow> sqCQID q = 0)" by simp
qed (use tables_okD(3) [OF assms(1)] assms(3,4) in simp)

lemma deleteSQueue_tables:
  assumes "tables_ok s"
  shows "on_ok (deleteSQueue now sqid s) (\<lambda>(r, s'). tables_ok s' \<and> ppSQueue s' ! 0 = ppSQueue s ! 0 \<and> ppCQueue s' = ppCQueue s)"
proof (cases "unat sqid < length (ppSQueue s) \<and> ppSQueue s ! unat sqid \<noteq> None \<and> sqid \<noteq> 0")
  case False
  then show ?thesis using assms by (auto simp: deleteSQueue_def queueAt_def split: option.splits)
next
  case True
  then obtain q where q: "unat sqid < length (ppSQueue s)" "ppSQueue s ! unat sqid = Some q" "sqid \<noteq> 0" by auto
  let ?e = "\<lambda>w. abortEntry (qHead q) (abortStatus STATUS_ABORT_DUE_TO_SQ_DELETE) w"
  let ?same = "\<lambda>s'. ppSQueue s' = ppSQueue s \<and> ppCQueue s' = ppCQueue s \<and> aggregationMap s' = aggregationMap s"
  have post: "on_ok (foldR (\<lambda>w s. submitCQ now (?e w) s) gone (s\<lparr>lSQFIFO := kept\<rparr>)) ?same" for kept gone
    by (rule foldR_on_ok) (auto intro!: on_ok_mono [OF submitCQ_tables])
  have "unat sqid \<noteq> 0" using q(3) by (simp add: unat_eq_0)
  then have gone0: "tables_ok (purgeSQFromUserQueues sqid (s'\<lparr>ppSQueue := (ppSQueue s')[unat sqid := None]\<rparr>)) \<and>
      ppSQueue (purgeSQFromUserQueues sqid (s'\<lparr>ppSQueue := (ppSQueue s')[unat sqid := None]\<rparr>)) ! 0 = ppSQueue s ! 0 \<and>
      ppCQueue (purgeSQFromUserQueues sqid (s'\<lparr>ppSQueue := (ppSQueue s')[unat sqid := None]\<rparr>)) = ppCQueue s" if "?same s'" for s'
    using that by (auto intro!: tables_ok_dropSQ [OF assms, of _ "unat sqid"])
  have "on_ok (bindR (foldR (\<lambda>w s. submitCQ now (?e w) s) gone (s\<lparr>lSQFIFO := kept\<rparr>)) (\<lambda>s. Inr (0, purgeSQFromUserQueues sqid
      (s\<lparr>ppSQueue := (ppSQueue s)[unat sqid := None]\<rparr>)))) (\<lambda>(r::int, s'). tables_ok s' \<and> ppSQueue s' ! 0 = ppSQueue s ! 0 \<and> ppCQueue s' = ppCQueue s)" for kept gone
    unfolding on_ok_bindR by (rule on_ok_mono [OF post]) (use gone0 in simp)
  then show ?thesis using q by (simp add: deleteSQueue_def queueAt_def on_ok_bindR [of "abortLoop _ _"] split_beta on_okI)
qed

section \<open>The controller under its host\<close>

text \<open>
  The queue tables of a controller that the host sets up by writing registers, ringing doorbells
  and sending the commands that create and delete queues. Such a command arrives through the
  admin queue, which therefore exists.
\<close>

inductive table_step :: "nvme_config \<Rightarrow> nvme_ctrl \<Rightarrow> nvme_ctrl \<Rightarrow> bool" for g where
  register: "writeRegister g now offs sz v s = Inr s' \<Longrightarrow> table_step g s s'"
| cqDoorbell: "ringCQHeadDoorbell qid hd' s = Inr s' \<Longrightarrow> table_step g s s'"
| sqDoorbell: "ringSQTailDoorbell qid tl' s = Inr s' \<Longrightarrow> table_step g s s'"
| newCQ: "ppSQueue s ! 0 \<noteq> None \<Longrightarrow> createCQueue cqid len iv ien prp1 s = Inr (r, s') \<Longrightarrow> table_step g s s'"
| newSQ: "ppSQueue s ! 0 \<noteq> None \<Longrightarrow> createSQueue sqid cqid len pri prp1 s = Inr (r, s') \<Longrightarrow> table_step g s s'"
| delCQ: "ppSQueue s ! 0 \<noteq> None \<Longrightarrow> deleteCQueue cqid s = Inr (r, s') \<Longrightarrow> table_step g s s'"
| delSQ: "ppSQueue s ! 0 \<noteq> None \<Longrightarrow> deleteSQueue now sqid s = Inr (r, s') \<Longrightarrow> table_step g s s'"

text \<open>The admin queues come in pairs, and with them the invariant.\<close>

lemma tables_ok_admin:
  assumes "tables_ok s" "0 < length (ppCQueue s)" "sqCQID q = 0"
    "ppSQueue s' = (ppSQueue s)[0 := Some q]" "ppCQueue s' = (ppCQueue s)[0 := Some c]" "aggregationMap s' = aggregationMap s"
  shows "tables_ok s'"
proof (rule tables_okI)
  note T = tables_okD [OF assms(1)]
  show "length (ppSQueue s') = length (ppCQueue s')" using T(1) assms by simp
  show "unat (sqCQID r) < length (ppCQueue s') \<and> ppCQueue s' ! unat (sqCQID r) \<noteq> None \<and> (j = 0 \<longrightarrow> sqCQID r = 0)"
    if "j < length (ppCQueue s')" "ppSQueue s' ! j = Some r" for j r
  proof (cases "j = 0")
    case True
    then show ?thesis using that assms(2-5) T(1) by auto
  next
    case False
    then show ?thesis using that assms(2-5) T(2) [of j r] by (cases "unat (sqCQID r) = 0") auto
  qed
  show "cqInterruptVector r \<in> dom (map_of (aggregationMap s'))" if "j < length (ppCQueue s')" "0 < j" "ppCQueue s' ! j = Some r" for j r
    using that T(3) [of j r] assms(5,6) by simp
qed

definition ctrl_ok :: "nvme_ctrl \<Rightarrow> bool" where
  "ctrl_ok s \<longleftrightarrow> tables_ok s \<and> 0 < length (ppCQueue s)"

lemma ctrl_ok_new: "ncMaxIOCQueue g = ncMaxIOSQueue g \<Longrightarrow> ctrl_ok (Controller_new g)"
  by (simp add: ctrl_ok_def tables_ok_new) (simp add: Controller_new_def)

lemma configWrite_ok:
  assumes "ctrl_ok s" shows "ctrl_ok (configWrite g now w s)"
proof -
  let ?s = "configWrite g now w s"
  note T = tables_okD [OF assms [unfolded ctrl_ok_def, THEN conjunct1]]
  have agg: "aggregationMap ?s = aggregationMap s" by (simp add: configWrite_def Let_def act_def)
  have cq: "length (ppCQueue ?s) = length (ppCQueue s)" "\<And>i. 0 < i \<Longrightarrow> ppCQueue ?s ! i = ppCQueue s ! i"
    "ppCQueue ?s ! 0 = None \<longleftrightarrow> ppCQueue s ! 0 = None" "length (ppSQueue ?s) = length (ppSQueue s)"
    using T(1) assms by (auto simp: configWrite_def ctrl_ok_def Let_def act_def split: list.splits option.splits)
  have sq: "\<exists>r. ppSQueue s ! i = Some r \<and> sqCQID q = sqCQID r" if "ppSQueue ?s ! i = Some q" "i < length (ppCQueue s)" for i q
    using that T(1) by (cases i; cases "ppSQueue s"; cases "hd (ppSQueue s)") (auto simp: configWrite_def Let_def act_def setBase_def split: if_splits)
  have "tables_ok ?s"
  proof (rule tables_okI)
    fix i q assume "i < length (ppCQueue ?s)" "ppSQueue ?s ! i = Some q"
    then obtain r where "i < length (ppCQueue s)" "ppSQueue s ! i = Some r" "sqCQID q = sqCQID r" using sq cq(1) by fastforce
    then show "unat (sqCQID q) < length (ppCQueue ?s) \<and> ppCQueue ?s ! unat (sqCQID q) \<noteq> None \<and> (i = 0 \<longrightarrow> sqCQID q = 0)"
      using T(2) [of i r] cq by (cases "unat (sqCQID r) = 0") auto
  qed (use T(1,3) cq agg in auto)
  then show ?thesis using assms cq by (simp add: ctrl_ok_def)
qed

lemma createAdminQueues_ok:
  assumes "ctrl_ok s" shows "ctrl_ok (createAdminQueues s)"
proof (cases "adminQueueInited s = 4")
  case True
  have "tables_ok (createAdminQueues s)"
    by (rule tables_ok_admin [of s]) (use assms True in \<open>auto simp: ctrl_ok_def createAdminQueues_def SQueue_new_def\<close>)
  then show ?thesis using assms True by (simp add: ctrl_ok_def createAdminQueues_def)
qed (use assms in \<open>simp add: createAdminQueues_def\<close>)

lemma ctrl_ok_cong:
  "ppSQueue s' = ppSQueue s \<Longrightarrow> ppCQueue s' = ppCQueue s \<Longrightarrow> aggregationMap s' = aggregationMap s \<Longrightarrow> ctrl_ok s \<Longrightarrow> ctrl_ok s'"
  by (simp add: ctrl_ok_def tables_ok_cong [of s' s])

lemma registerWrite_ok: "ctrl_ok s \<Longrightarrow> on_ok (registerWrite g now w s) ctrl_ok"
  by (cases w) (auto intro: configWrite_ok ctrl_ok_cong [of _ s] simp del: tables_ok_cong)

lemma writeRegister_ok: "ctrl_ok s \<Longrightarrow> on_ok (writeRegister g now offs sz v s) ctrl_ok"
  unfolding writeRegister_def on_ok_bindR
  by (rule on_okI, rule on_ok_mono [OF registerWrite_ok]) (auto intro: createAdminQueues_ok)

text \<open>Doorbells change a queue in place.\<close>

lemma ringCQHeadDoorbell_ok:
  assumes "ctrl_ok s" shows "on_ok (ringCQHeadDoorbell qid h s) ctrl_ok"
proof (cases "unat qid < length (ppCQueue s) \<and> ppCQueue s ! unat qid \<noteq> None")
  case True
  then obtain q where q: "unat qid < length (ppCQueue s)" "ppCQueue s ! unat qid = Some q" by auto
  note T = tables_okD [OF assms [unfolded ctrl_ok_def, THEN conjunct1]]
  let ?s = "s\<lparr>ppCQueue := (ppCQueue s)[unat qid := Some (CQueue_setHead h q)]\<rparr>"
  have "tables_ok ?s"
  proof (rule tables_okI)
    fix i r assume "i < length (ppCQueue ?s)" "ppSQueue ?s ! i = Some r"
    then show "unat (sqCQID r) < length (ppCQueue ?s) \<and> ppCQueue ?s ! unat (sqCQID r) \<noteq> None \<and> (i = 0 \<longrightarrow> sqCQID r = 0)"
      using T(2) [of i r] q by (cases "unat (sqCQID r) = unat qid") auto
  next
    fix i r assume "i < length (ppCQueue ?s)" "0 < i" "ppCQueue ?s ! i = Some r"
    then show "cqInterruptVector r \<in> dom (map_of (aggregationMap ?s))"
      using T(3) [of i] q by (cases "i = unat qid") (auto simp: CQueue_setHead_def)
  qed (simp add: T(1))
  then have "ctrl_ok ?s" using assms by (simp add: ctrl_ok_def)
  then show ?thesis using q by (auto simp: ringCQHeadDoorbell_def queueAt_def clearInterrupt_def act_def Let_def intro: ctrl_ok_cong [of _ ?s])
qed (use assms in \<open>auto simp: ringCQHeadDoorbell_def queueAt_def split: option.splits\<close>)

lemma ringSQTailDoorbell_ok:
  assumes "ctrl_ok s" shows "on_ok (ringSQTailDoorbell qid t s) ctrl_ok"
proof (cases "unat qid < length (ppSQueue s) \<and> ppSQueue s ! unat qid \<noteq> None")
  case True
  then obtain q where q: "unat qid < length (ppSQueue s)" "ppSQueue s ! unat qid = Some q" by auto
  note T = tables_okD [OF assms [unfolded ctrl_ok_def, THEN conjunct1]]
  let ?s = "s\<lparr>ppSQueue := (ppSQueue s)[unat qid := Some (SQueue_setTail t q)]\<rparr>"
  have "tables_ok ?s"
  proof (rule tables_okI)
    fix i r assume "i < length (ppCQueue ?s)" "ppSQueue ?s ! i = Some r"
    then show "unat (sqCQID r) < length (ppCQueue ?s) \<and> ppCQueue ?s ! unat (sqCQID r) \<noteq> None \<and> (i = 0 \<longrightarrow> sqCQID r = 0)"
      using T(2) [of i] q by (cases "i = unat qid") (auto simp: SQueue_setTail_def)
  qed (use T in auto)
  then show ?thesis using q assms by (simp add: ringSQTailDoorbell_def queueAt_def ctrl_ok_def)
qed (use assms in \<open>auto simp: ringSQTailDoorbell_def queueAt_def split: option.splits\<close>)

lemma createQueue_lengths:
  "on_ok (createCQueue cqid len iv ien prp1 s) (\<lambda>(r, s'). length (ppCQueue s') = length (ppCQueue s))"
  "on_ok (createSQueue sqid cqid' len pri prp1 s) (\<lambda>(r, s'). ppCQueue s' = ppCQueue s)"
  by (auto simp: createCQueue_def createSQueue_def queueAt_def split: option.splits)

lemma table_step_ok:
  assumes "table_step g s s'" "ctrl_ok s" shows "ctrl_ok s'"
  using assms
proof (induction rule: table_step.induct)
  case (newCQ s cqid len iv ien prp1 r s')
  then show ?case using createCQueue_tables createQueue_lengths(1) by (fastforce simp: ctrl_ok_def dest: on_okD)
next
  case (newSQ s sqid cqid len pri prp1 r s')
  then show ?case using createSQueue_tables createQueue_lengths(2) by (fastforce simp: ctrl_ok_def dest: on_okD)
next
  case (delCQ s cqid r s')
  then have "tables_ok s" "unat cqid < length (ppCQueue s)" by (simp_all add: ctrl_ok_def deleteCQueue_def queueAt_def split: if_splits)
  from deleteCQueue_tables [OF this] delCQ show ?case by (auto simp: ctrl_ok_def split: if_splits)
next
  case (delSQ s now sqid r s')
  then show ?case using deleteSQueue_tables by (fastforce simp: ctrl_ok_def dest: on_okD)
qed (use writeRegister_ok ringCQHeadDoorbell_ok ringSQTailDoorbell_ok in \<open>blast dest: on_okD\<close>)+

end
