(* ===== verification/NvmeNs_Inv.thy ===== *)
theory NvmeNs_Inv
  imports NvmeNs
begin

text \<open>
  Properties of the namespaces: the page ranges stay disjoint and inside the device, the
  inverted list of ranges is the list of gaps, the first gap that is large enough is taken,
  and the pages of a request.
\<close>

section \<open>Page ranges\<close>

definition rangeEnd :: "lpn_range \<Rightarrow> nat" where
  "rangeEnd r = unat (slpn r) + unat (nlp r)"

definition rangePages :: "lpn_range \<Rightarrow> nat set" where
  "rangePages r = {unat (slpn r)..<rangeEnd r}"

abbreviation nsPages :: "nvme_ns \<Rightarrow> nat set" where
  "nsPages n \<equiv> rangePages (nsRange (nsInfo n))"

lemma rangePages_disjoint_iff:
  "0 < nlp a \<Longrightarrow> 0 < nlp b \<Longrightarrow>
    rangePages a \<inter> rangePages b = {} \<longleftrightarrow> rangeEnd a \<le> unat (slpn b) \<or> rangeEnd b \<le> unat (slpn a)"
  by (auto simp: rangePages_def rangeEnd_def word_less_nat_alt disjoint_iff)

text \<open>The ranges in order of their start, one after the other, between two bounds.\<close>

fun inOrder :: "nat \<Rightarrow> nat \<Rightarrow> lpn_range list \<Rightarrow> bool" where
  "inOrder lo hi [] \<longleftrightarrow> lo \<le> hi"
| "inOrder lo hi (r # rs) \<longleftrightarrow> lo \<le> unat (slpn r) \<and> inOrder (rangeEnd r) hi rs"

text \<open>The gaps between them: the reference for the inverted list.\<close>

definition mkRange :: "nat \<Rightarrow> nat \<Rightarrow> lpn_range" where
  "mkRange lo hi = \<lparr>slpn = of_nat lo, nlp = of_nat (hi - lo)\<rparr>"

fun gaps :: "nat \<Rightarrow> nat \<Rightarrow> lpn_range list \<Rightarrow> lpn_range list" where
  "gaps lo hi [] = [mkRange lo hi]"
| "gaps lo hi (r # rs) = mkRange lo (unat (slpn r)) # gaps (rangeEnd r) hi rs"

lemma inOrder_le: "inOrder lo hi rs \<Longrightarrow> lo \<le> hi"
  by (induction lo hi rs rule: inOrder.induct) (auto simp: rangeEnd_def)

lemma mkRange_simps:
  assumes "lo \<le> hi" "hi < 2 ^ 64"
  shows "unat (slpn (mkRange lo hi)) = lo" "unat (nlp (mkRange lo hi)) = hi - lo" "rangeEnd (mkRange lo hi) = hi"
  using assms by (simp_all add: mkRange_def rangeEnd_def unat_of_nat take_bit_nat_eq_self del: of_nat_diff)

lemma word_sub_mkRange:
  assumes "unat a \<le> unat (b :: u64)" shows "of_nat (unat b - unat a) = b - a"
  using assms by (simp add: word_unat_eq_iff unat_of_nat take_bit_nat_eq_self unat_sub word_le_nat_alt
      less_imp_diff_less [OF unsigned_less])

lemma invertStep_gap:
  assumes "lo \<le> unat (slpn r)" "rangeEnd r \<le> hi" "hi < 2 ^ 64"
  shows "invertStep r (pre @ [mkRange lo hi]) =
    Inr (pre @ [mkRange lo (unat (slpn r)), mkRange (rangeEnd r) hi])"
proof -
  have lohi: "lo \<le> hi" using assms by (simp add: rangeEnd_def)
  note m = mkRange_simps [OF lohi assms(3)]
  have e: "unat (slpn r + nlp r) = rangeEnd r" using assms(2,3)
    by (simp add: rangeEnd_def unat_word_ariths)
  have l: "unat (slpn (mkRange lo hi) + nlp (mkRange lo hi)) = hi" using m lohi assms(3)
    by (simp add: unat_word_ariths)
  have c: "slpn (mkRange lo hi) \<le> slpn r" "slpn r + nlp r \<le> slpn (mkRange lo hi) + nlp (mkRange lo hi)"
    unfolding word_le_nat_alt e l m using assms by simp_all
  have s: "slpn r - slpn (mkRange lo hi) = of_nat (unat (slpn r) - lo)"
    using word_sub_mkRange [of "slpn (mkRange lo hi)" "slpn r"] assms(1) by (simp add: m)
  have t: "slpn (mkRange lo hi) + nlp (mkRange lo hi) - slpn r - nlp r = of_nat (hi - rangeEnd r)"
    using word_sub_mkRange [of "slpn r + nlp r" "slpn (mkRange lo hi) + nlp (mkRange lo hi)"] c(2)
    by (simp add: word_le_nat_alt e l diff_diff_eq)
  have u: "slpn r + nlp r = of_nat (rangeEnd r)" by (simp add: rangeEnd_def)
  show ?thesis using c s t u
    by (simp add: invertStep_def Let_def mkRange_def)
qed

lemma invertRanges_gaps:
  assumes "inOrder lo hi rs" "hi < 2 ^ 64"
  shows "foldR invertStep rs (pre @ [mkRange lo hi]) = Inr (pre @ gaps lo hi rs)"
  using assms(1)
proof (induction rs arbitrary: lo pre)
  case Nil
  then show ?case by simp
next
  case (Cons r rs)
  then have "lo \<le> unat (slpn r)" "rangeEnd r \<le> hi" using inOrder_le by auto
  from invertStep_gap [OF this assms(2), of pre]
  show ?case using Cons.IH [of "rangeEnd r" "pre @ [mkRange lo (unat (slpn r))]"] Cons.prems by simp
qed

text \<open>A gap is free of the ranges, and a free stretch lies in one gap.\<close>

definition freeStretch :: "nat \<Rightarrow> nat \<Rightarrow> lpn_range list \<Rightarrow> nat \<Rightarrow> nat \<Rightarrow> bool" where
  "freeStretch lo hi rs x k \<longleftrightarrow> {x..<x + k} \<subseteq> {lo..<hi} \<and> (\<forall>r\<in>set rs. {x..<x + k} \<inter> rangePages r = {})"

lemma inOrder_below: "inOrder lo hi rs \<Longrightarrow> r \<in> set rs \<Longrightarrow> lo \<le> unat (slpn r) \<and> rangeEnd r \<le> hi"
  by (induction lo hi rs rule: inOrder.induct) (auto simp: rangeEnd_def dest: inOrder_le)

lemma gaps_start: "r \<in> set (gaps lo hi rs) \<Longrightarrow> inOrder lo hi rs \<Longrightarrow> hi < 2 ^ 64 \<Longrightarrow>
    lo \<le> unat (slpn r) \<and> rangeEnd r \<le> hi \<and> unat (slpn r) \<le> rangeEnd r"
proof (induction lo hi rs rule: gaps.induct)
  case (1 lo hi)
  then show ?case using mkRange_simps [of lo hi] by auto
next
  case (2 lo hi a as)
  have le: "lo \<le> unat (slpn a)" "rangeEnd a \<le> hi" using 2(3) inOrder_le by auto
  then have "unat (slpn a) \<le> hi" "lo \<le> rangeEnd a" by (simp_all add: rangeEnd_def)
  then show ?case using 2 le mkRange_simps [of lo "unat (slpn a)"] by auto
qed

lemma gaps_disjoint:
  assumes "r \<in> set (gaps lo hi rs)" "inOrder lo hi rs" "hi < 2 ^ 64" "a \<in> set rs"
  shows "rangeEnd r \<le> unat (slpn a) \<or> rangeEnd a \<le> unat (slpn r)"
  using assms
proof (induction lo hi rs rule: gaps.induct)
  case (2 lo hi b bs)
  have le: "lo \<le> unat (slpn b)" "rangeEnd b \<le> hi" and ord: "inOrder (rangeEnd b) hi bs"
    using 2(3) inOrder_le by auto
  show ?case
  proof (cases "r = mkRange lo (unat (slpn b))")
    case True
    then have "rangeEnd r = unat (slpn b)"
      using le 2(4) mkRange_simps(3) [of lo "unat (slpn b)"] unsigned_less [where ?'a = nat, of "slpn b"] by simp
    moreover have "unat (slpn b) \<le> unat (slpn a)"
      using 2(5) inOrder_below [OF ord, of a] by (auto simp: rangeEnd_def)
    ultimately show ?thesis by simp
  next
    case False
    then have r: "r \<in> set (gaps (rangeEnd b) hi bs)" using 2(2) by simp
    show ?thesis
    proof (cases "a \<in> set bs")
      case False
      then have "a = b" using 2(5) by simp
      then show ?thesis using gaps_start [OF r ord 2(4)] by simp
    qed (use 2(1) [OF r ord 2(4)] in simp)
  qed
qed simp

lemma freeStretch_gap:
  assumes "inOrder lo hi rs" "hi < 2 ^ 64" "0 < k" "freeStretch lo hi rs x k"
    and "\<forall>a\<in>set rs. 0 < nlp a"
  shows "\<exists>r\<in>set (gaps lo hi rs). unat (slpn r) \<le> x \<and> x + k \<le> rangeEnd r"
  using assms
proof (induction lo hi rs rule: gaps.induct)
  case (1 lo hi)
  then show ?case using mkRange_simps [of lo hi] by (auto simp: freeStretch_def)
next
  case (2 lo hi a as)
  have le: "lo \<le> unat (slpn a)" "rangeEnd a \<le> hi" and ord: "inOrder (rangeEnd a) hi as"
    using 2(2) inOrder_le by auto
  have a: "0 < unat (nlp a)" using 2(6) by (simp add: word_less_nat_alt)
  have x: "lo \<le> x" "x + k \<le> hi" using 2(4,5) by (auto simp: freeStretch_def)
  have "{x..<x + k} \<inter> {unat (slpn a)..<rangeEnd a} = {}" using 2(5) by (simp add: freeStretch_def rangePages_def)
  then have "x + k \<le> unat (slpn a) \<or> rangeEnd a \<le> x"
    using 2(4) a by (auto simp: disjoint_iff rangeEnd_def not_le)
  then show ?case
  proof
    assume "x + k \<le> unat (slpn a)"
    then show ?thesis using x(1) le mkRange_simps [of lo "unat (slpn a)"] unsigned_less [where ?'a = nat, of "slpn a"] by auto
  next
    assume "rangeEnd a \<le> x"
    then have "freeStretch (rangeEnd a) hi as x k" using 2(5) x(2) by (auto simp: freeStretch_def)
    then show ?thesis using 2(1) [OF ord 2(3,4)] 2(6) by auto
  qed
qed

section \<open>The invariant of the subsystem\<close>

definition range_ok :: "u64 \<Rightarrow> lpn_range \<Rightarrow> bool" where
  "range_ok tot r \<longleftrightarrow> 0 < nlp r \<and> rangeEnd r \<le> unat tot"

definition ns_inv :: "subsys \<Rightarrow> bool" where
  "ns_inv s \<longleftrightarrow>
     sorted_wrt (<) (map nsNSID (lNamespaces s)) \<and>
     (\<forall>n\<in>set (lNamespaces s). range_ok (ssTotalPages s) (nsRange (nsInfo n))) \<and>
     (\<forall>n\<in>set (lNamespaces s). \<forall>m\<in>set (lNamespaces s). nsNSID n \<noteq> nsNSID m \<longrightarrow> nsPages n \<inter> nsPages m = {})"

abbreviation usedRanges :: "subsys \<Rightarrow> lpn_range list" where
  "usedRanges s \<equiv> sort_key slpn (map (\<lambda>n. nsRange (nsInfo n)) (lNamespaces s))"

text \<open>Disjoint non-empty ranges in order of their start follow one another.\<close>

lemma inOrder_sorted:
  assumes "sorted (map slpn rs)" "\<forall>r\<in>set rs. 0 < nlp r \<and> rangeEnd r \<le> hi" "lo \<le> hi"
    and "sorted_wrt (\<lambda>a b. rangePages a \<inter> rangePages b = {}) rs" "\<forall>r\<in>set rs. lo \<le> unat (slpn r)"
  shows "inOrder lo hi rs"
  using assms
proof (induction rs arbitrary: lo)
  case (Cons r rs)
  have "rangeEnd r \<le> unat (slpn b)" if b: "b \<in> set rs" for b
  proof -
    have "rangeEnd r \<le> unat (slpn b) \<or> rangeEnd b \<le> unat (slpn r)"
      using Cons.prems(2,4) b rangePages_disjoint_iff [of r b] by auto
    moreover have "unat (slpn r) < rangeEnd b"
      using Cons.prems(1,2) b by (fastforce simp: word_le_nat_alt word_less_nat_alt rangeEnd_def)
    ultimately show ?thesis by simp
  qed
  then show ?case using Cons by simp
qed simp

lemma sorted_wrt_distinct:
  "distinct xs \<Longrightarrow> (\<And>a b. a \<in> set xs \<Longrightarrow> b \<in> set xs \<Longrightarrow> a \<noteq> b \<Longrightarrow> P a b) \<Longrightarrow> sorted_wrt P xs"
  by (induction xs) auto

lemma usedRanges_inOrder:
  assumes "ns_inv s" shows "inOrder 0 (unat (ssTotalPages s)) (usedRanges s)"
proof -
  let ?ns = "lNamespaces s" and ?r = "\<lambda>n. nsRange (nsInfo n)"
  have sep: "n = m \<or> nsPages n \<inter> nsPages m = {}" if "n \<in> set ?ns" "m \<in> set ?ns" for n m
  proof (cases "nsNSID n = nsNSID m")
    case True
    have "distinct (map nsNSID ?ns)" using assms by (simp add: ns_inv_def strict_sorted_iff)
    then show ?thesis using True that by (auto simp: distinct_map inj_on_def)
  qed (use assms that in \<open>simp add: ns_inv_def\<close>)
  have ne: "nsPages n \<noteq> {}" if "n \<in> set ?ns" for n
    using assms that by (auto simp: ns_inv_def range_ok_def rangePages_def rangeEnd_def word_less_nat_alt)
  have "distinct ?ns" using assms by (simp add: ns_inv_def strict_sorted_iff distinct_map)
  moreover have "inj_on ?r (set ?ns)" using sep ne by (force intro: inj_onI)
  ultimately have "distinct (map ?r ?ns)" by (simp add: distinct_map)
  then have "sorted_wrt (\<lambda>a b. rangePages a \<inter> rangePages b = {}) (usedRanges s)"
    by (intro sorted_wrt_distinct) (use sep in auto)
  moreover have "\<forall>r\<in>set (usedRanges s). 0 < nlp r \<and> rangeEnd r \<le> unat (ssTotalPages s)"
    using assms by (auto simp: ns_inv_def range_ok_def)
  ultimately show ?thesis by (intro inOrder_sorted) simp_all
qed

lemma invertRanges_used:
  assumes "ns_inv s"
  shows "invertRanges (ssTotalPages s) (usedRanges s) = Inr (gaps 0 (unat (ssTotalPages s)) (usedRanges s))"
  using invertRanges_gaps [OF usedRanges_inOrder [OF assms], of "[]"] unsigned_less [where ?'a = nat, of "ssTotalPages s"]
  by (simp add: invertRanges_def mkRange_def)

text \<open>The first gap that is large enough, and nothing when there is no free stretch.\<close>

lemma gaps_sorted: "inOrder lo hi rs \<Longrightarrow> hi < 2 ^ 64 \<Longrightarrow> sorted (map (\<lambda>r. unat (slpn r)) (gaps lo hi rs))"
proof (induction lo hi rs rule: gaps.induct)
  case (2 lo hi a as)
  have le: "lo \<le> unat (slpn a)" and ord: "inOrder (rangeEnd a) hi as" using 2(2) by auto
  have "unat (slpn (mkRange lo (unat (slpn a)))) = lo"
    using le mkRange_simps(1) [of lo "unat (slpn a)"] unsigned_less [where ?'a = nat, of "slpn a"] by simp
  moreover have "lo \<le> unat (slpn r)" if "r \<in> set (gaps (rangeEnd a) hi as)" for r
    using gaps_start [OF that ord 2(3)] le by (simp add: rangeEnd_def)
  ultimately show ?case using 2(1) [OF ord 2(3)] by auto
qed simp

definition freePages :: "subsys \<Rightarrow> nat \<Rightarrow> nat \<Rightarrow> bool" where
  "freePages s x k \<longleftrightarrow> x + k \<le> unat (ssTotalPages s) \<and> (\<forall>n\<in>set (lNamespaces s). {x..<x + k} \<inter> nsPages n = {})"

lemma first_fit:
  assumes "ns_inv s" "0 < k"
  defines "G \<equiv> gaps 0 (unat (ssTotalPages s)) (usedRanges s)"
  shows "find (\<lambda>r. k \<le> nlp r) G = None \<Longrightarrow> \<not> freePages s x (unat k)"
    and "find (\<lambda>r. k \<le> nlp r) G = Some r \<Longrightarrow>
      freePages s (unat (slpn r)) (unat k) \<and> (\<forall>x. freePages s x (unat k) \<longrightarrow> unat (slpn r) \<le> x)"
proof -
  let ?hi = "unat (ssTotalPages s)"
  have hi: "?hi < 2 ^ 64" using unsigned_less [where ?'a = nat, of "ssTotalPages s"] by simp
  note ord = usedRanges_inOrder [OF assms(1)]
  have k: "0 < unat k" using assms(2) by (simp add: word_less_nat_alt)
  have "\<forall>a\<in>set (usedRanges s). 0 < nlp a" using assms(1) by (auto simp: ns_inv_def range_ok_def)
  note gap = freeStretch_gap [OF ord hi k _ this, folded G_def]
  have stretch: "\<exists>r\<in>set G. unat (slpn r) \<le> x \<and> k \<le> nlp r" if "freePages s x (unat k)" for x
  proof -
    have "freeStretch 0 ?hi (usedRanges s) x (unat k)"
      using that by (auto simp: freePages_def freeStretch_def)
    from gap [OF this] show ?thesis by (auto simp: rangeEnd_def word_le_nat_alt intro!: bexI)
  qed
  show "\<not> freePages s x (unat k)" if "find (\<lambda>r. k \<le> nlp r) G = None"
    using that stretch by (auto simp: find_None_iff)
  assume "find (\<lambda>r. k \<le> nlp r) G = Some r"
  then obtain i where i: "i < length G" "G ! i = r" "k \<le> nlp r" "\<forall>j<i. \<not> k \<le> nlp (G ! j)"
    by (auto simp: find_Some_iff)
  then have r: "r \<in> set G" using nth_mem by blast
  have "freePages s (unat (slpn r)) (unat k)"
    unfolding freePages_def
  proof
    have "unat (slpn r) + unat k \<le> rangeEnd r" using i(3) by (simp add: rangeEnd_def word_le_nat_alt)
    then show "unat (slpn r) + unat k \<le> ?hi" using gaps_start [OF r [unfolded G_def] ord hi] by simp
    show "\<forall>n\<in>set (lNamespaces s). {unat (slpn r)..<unat (slpn r) + unat k} \<inter> nsPages n = {}"
    proof
      fix n assume "n \<in> set (lNamespaces s)"
      then have "nsRange (nsInfo n) \<in> set (usedRanges s)" by simp
      from gaps_disjoint [OF r [unfolded G_def] ord hi this] \<open>unat (slpn r) + unat k \<le> rangeEnd r\<close>
      show "{unat (slpn r)..<unat (slpn r) + unat k} \<inter> nsPages n = {}" by (auto simp: rangePages_def)
    qed
  qed
  moreover have "unat (slpn r) \<le> x" if fr: "freePages s x (unat k)" for x
  proof -
    obtain r' where "r' \<in> set G" "unat (slpn r') \<le> x" "k \<le> nlp r'" using stretch [OF fr] by blast
    then obtain j where j: "j < length G" "G ! j = r'" by (auto simp: in_set_conv_nth)
    then have "i \<le> j" using i(4) \<open>k \<le> nlp r'\<close> by (meson not_le)
    then have "unat (slpn r) \<le> unat (slpn r')"
      using gaps_sorted [OF ord hi, folded G_def] i j by (auto simp: sorted_iff_nth_mono)
    then show ?thesis using \<open>unat (slpn r') \<le> x\<close> by simp
  qed
  ultimately show "freePages s (unat (slpn r)) (unat k) \<and> (\<forall>x. freePages s x (unat k) \<longrightarrow> unat (slpn r) \<le> x)" by blast
qed

section \<open>Creating and destroying\<close>

lemma mergeAllocated_id [simp]: "mergeAllocated xs = Inr xs"
  by (cases xs) (simp_all add: mergeAllocated_def Let_def)

text \<open>Adding a namespace on free pages with a new identifier.\<close>

lemma ns_inv_add:
  assumes "ns_inv s" "nsNSID n \<notin> nsNSID ` set (lNamespaces s)" "0 < nlp (nsRange (nsInfo n))"
    and "freePages s (unat (slpn (nsRange (nsInfo n)))) (unat (nlp (nsRange (nsInfo n))))"
    and "lNamespaces s' = sort_key nsNSID (lNamespaces s @ [n])" "ssTotalPages s' = ssTotalPages s"
  shows "ns_inv s'"
proof -
  have "distinct (map nsNSID (lNamespaces s @ [n]))" using assms(1,2) by (auto simp: ns_inv_def strict_sorted_iff)
  then have "distinct (map nsNSID (sort_key nsNSID (lNamespaces s @ [n])))"
    by (metis distinct_map distinct_sort set_sort)
  then have "sorted_wrt (<) (map nsNSID (lNamespaces s'))" by (simp add: strict_sorted_iff assms(5))
  moreover have pn: "nsPages n \<inter> nsPages m = {}" if "m \<in> set (lNamespaces s)" for m
    using assms(4) that by (simp add: freePages_def rangePages_def rangeEnd_def)
  moreover have "nsPages m \<inter> nsPages n = {}" if "m \<in> set (lNamespaces s)" for m using pn [OF that] by blast
  moreover have "range_ok (ssTotalPages s) (nsRange (nsInfo n))"
    using assms(3,4) by (simp add: range_ok_def freePages_def rangeEnd_def)
  ultimately show ?thesis using assms(1) by (simp add: ns_inv_def assms(5,6))
qed

lemma createNamespace_cases:
  assumes "ns_inv s" "requestedPages info s = Inr k"
    and "nlp (nsRange info) = 0 \<or> k = 0 \<or> (\<exists>x. freePages s x (unat k))"
    and "nsid \<notin> nsNSID ` set (lNamespaces s)"
  shows "if k \<noteq> 0 \<and> k \<le> ssTotalPages s - ssAllocatedPages s \<and> (\<exists>x. freePages s x (unat k))
    then \<exists>n s'. createNamespace nsid info s = Inr (True, nsInfo n, s') \<and> ns_inv s' \<and>
      s' = s\<lparr>ssAllocatedPages := ssAllocatedPages s + k, lNamespaces := sort_key nsNSID (lNamespaces s @ [n])\<rparr> \<and>
      nsNSID n = nsid \<and> nlp (nsRange (nsInfo n)) = k \<and>
      nsSize (nsInfo n) = nsSize info \<and> nsLbaSize (nsInfo n) = nsLbaSize info \<and>
      nsLbaFormatIndex (nsInfo n) = nsLbaFormatIndex info \<and>
      freePages s (unat (slpn (nsRange (nsInfo n)))) (unat k) \<and>
      (\<forall>x. freePages s x (unat k) \<longrightarrow> unat (slpn (nsRange (nsInfo n))) \<le> x)
    else \<exists>info'. createNamespace nsid info s = Inr (False, info', s)"
proof -
  let ?G = "gaps 0 (unat (ssTotalPages s)) (usedRanges s)"
  note inv = invertRanges_used [OF assms(1)]
  consider "k > ssTotalPages s - ssAllocatedPages s" | "k \<le> ssTotalPages s - ssAllocatedPages s" "k = 0"
    | "k \<le> ssTotalPages s - ssAllocatedPages s" "k \<noteq> 0" by (meson not_le)
  then show ?thesis
  proof cases
    case 1
    then have "\<not> k \<le> ssTotalPages s - ssAllocatedPages s" by (simp add: not_le)
    then show ?thesis using assms 1 by (simp add: createNamespace_def)
  next
    case 2
    have "?G \<noteq> []" by (cases "usedRanges s") simp_all
    then obtain r where "find (\<lambda>r. k \<le> nlp r) ?G = Some r" using 2(2) by (cases ?G) auto
    then show ?thesis using assms inv 2 by (simp add: createNamespace_def Let_def)
  next
    case 3
    then have pos: "0 < k" by (simp add: word_neq_0_conv)
    note ff = first_fit [OF assms(1) pos]
    show ?thesis
    proof (cases "find (\<lambda>r. k \<le> nlp r) ?G")
      case None
      then have "\<not> (\<exists>x. freePages s x (unat k))" "nlp (nsRange info) = 0" using ff(1) [OF None] assms(3) 3 by auto
      then show ?thesis using assms(2) inv 3 None by (simp add: createNamespace_def Let_def)
    next
      case (Some r)
      note fr = ff(2) [OF Some]
      define n where "n = Namespace_setData nsid (info\<lparr>nsRange := r\<lparr>nlp := k\<rparr>,
        nsSizeInByteL := k * ucast (ssPageSize s), nsSizeInByteH := 0\<rparr>) Namespace_new"
      define s' where "s' = s\<lparr>ssAllocatedPages := ssAllocatedPages s + k,
        lNamespaces := sort_key nsNSID (lNamespaces s @ [n])\<rparr>"
      have c: "createNamespace nsid info s = Inr (True, nsInfo n, s')"
        using assms inv 3 Some by (simp add: createNamespace_def Let_def n_def s'_def Namespace_setData_def)
      have n: "nsNSID n = nsid" "nsRange (nsInfo n) = r\<lparr>nlp := k\<rparr>" "nsSize (nsInfo n) = nsSize info"
        "nsLbaSize (nsInfo n) = nsLbaSize info" "nsLbaFormatIndex (nsInfo n) = nsLbaFormatIndex info"
        by (simp_all add: n_def Namespace_setData_def)
      have "ns_inv s'" by (rule ns_inv_add [OF assms(1), of n]) (use fr pos n assms(4) in \<open>simp_all add: s'_def\<close>)
      then show ?thesis using c n fr 3 by (auto simp: s'_def)
    qed
  qed
qed

lemma createNamespace_success:
  assumes "ns_inv s" "requestedPages info s = Inr k" "nsid \<notin> nsNSID ` set (lNamespaces s)"
    and "k \<noteq> 0" "k \<le> ssTotalPages s - ssAllocatedPages s" "freePages s x (unat k)"
  obtains n s' where "createNamespace nsid info s = Inr (True, nsInfo n, s')" "ns_inv s'"
    "s' = s\<lparr>ssAllocatedPages := ssAllocatedPages s + k, lNamespaces := sort_key nsNSID (lNamespaces s @ [n])\<rparr>"
    "nsNSID n = nsid" "nlp (nsRange (nsInfo n)) = k" "nsLbaFormatIndex (nsInfo n) = nsLbaFormatIndex info"
    "unat (slpn (nsRange (nsInfo n))) \<le> x"
proof -
  have ex: "\<exists>x. freePages s x (unat k)" using assms(6) by blast
  then show ?thesis
    using createNamespace_cases [OF assms(1,2) _ assms(3)] assms(4-6) that by (auto simp only: if_True simp_thms)
qed

lemma removeFirst_distinct:
  "distinct (map f xs) \<Longrightarrow> removeFirst (\<lambda>x. f x = k) xs = filter (\<lambda>x. f x \<noteq> k) xs"
proof (induction xs)
  case (Cons x xs)
  show ?case
  proof (cases "f x = k")
    case True
    then have "\<forall>y\<in>set xs. f y \<noteq> k" using Cons.prems by (auto simp: image_iff)
    then show ?thesis using True by simp
  qed (use Cons in simp)
qed simp

lemma destroyNamespace_inv:
  assumes "ns_inv s" "destroyNamespace nsid s = Inr (ok, s')"
  shows "ns_inv s'" "lNamespaces s' = filter (\<lambda>n. nsNSID n \<noteq> nsid) (lNamespaces s)"
    "ok \<longleftrightarrow> nsid \<in> nsNSID ` set (lNamespaces s)"
proof -
  have d: "distinct (map nsNSID (lNamespaces s))" using assms(1) by (simp add: ns_inv_def strict_sorted_iff)
  show l: "lNamespaces s' = filter (\<lambda>n. nsNSID n \<noteq> nsid) (lNamespaces s)"
    using assms(2) removeFirst_distinct [OF d]
    by (auto simp: destroyNamespace_def find_None_iff intro!: filter_True [symmetric] split: option.splits if_splits)
  have "ssTotalPages s' = ssTotalPages s" using assms(2) by (auto simp: destroyNamespace_def split: option.splits if_splits)
  moreover have "sorted_wrt (<) (map nsNSID (lNamespaces s'))"
    using assms(1) by (simp add: ns_inv_def l sorted_wrt_map sorted_wrt_filter)
  ultimately show "ns_inv s'" using assms(1) by (simp add: ns_inv_def l)
  show "ok \<longleftrightarrow> nsid \<in> nsNSID ` set (lNamespaces s)"
    using assms(2) by (fastforce simp: destroyNamespace_def find_None_iff find_Some_iff split: option.splits if_splits)
qed

text \<open>The two ways the pages of a namespace are computed agree when its size is a multiple of the page size.\<close>

lemma unat_u32 [simp]: "unat (ucast (x :: u32) :: u64) = unat x"
  using unsigned_less [where ?'a = nat, of x] by (simp add: unsigned_ucast_eq take_bit_nat_eq_self)

lemma pages_agree:
  fixes sz :: u64 and p l :: u32
  assumes "unat p dvd unat sz" "unat sz * unat l < 2 ^ 64" "p \<noteq> 0"
  shows "sz div ucast p * ucast l = sz * ucast l div ucast p"
proof -
  obtain q where q: "unat sz = unat p * q" using assms(1) by blast
  have p: "0 < unat p" using assms(3) by (simp add: unat_gt_0)
  have "q * unat l \<le> unat p * q * unat l" using p by simp
  also have "\<dots> < 2 ^ 64" using assms(2) q by simp
  finally have "q * unat l < 2 ^ 64" .
  moreover have "unat (sz div ucast p) = q" using p by (simp add: unat_div q)
  ultimately have "unat (sz div ucast p * ucast l) = q * unat l" unfolding unat_word_ariths by simp
  moreover have "unat (sz * ucast l div ucast p) = q * unat l"
    using p assms(2) by (simp add: unat_div unat_word_ariths q mult.assoc)
  ultimately show ?thesis by (simp add: word_unat_eq_iff)
qed

lemma create_destroy:
  assumes "ns_inv s" "nsid \<notin> nsNSID ` set (lNamespaces s)" "nlp (nsRange info) = 0"
    and "createNamespace nsid info s = Inr (True, info', s')"
    and "nsLbaSize info = lbaSize ! unat (nsLbaFormatIndex info)"
    and "unat (ssPageSize s) dvd unat (nsSize info)" "unat (nsSize info) * unat (nsLbaSize info) < 2 ^ 64"
  shows "destroyNamespace nsid s' = Inr (True, s)"
proof -
  obtain k where k: "requestedPages info s = Inr k" using assms(4) by (cases "requestedPages info s") (simp_all add: createNamespace_def)
  have p: "ssPageSize s \<noteq> 0" and kv: "k = nsSize info div ucast (ssPageSize s) * ucast (nsLbaSize info)"
    using k assms(5) by (auto simp: requestedPages_def split: if_splits)
  obtain n where n: "nsNSID n = nsid" "nsSize (nsInfo n) = nsSize info" "nsLbaSize (nsInfo n) = nsLbaSize info"
    and s': "s' = s\<lparr>ssAllocatedPages := ssAllocatedPages s + k, lNamespaces := sort_key nsNSID (lNamespaces s @ [n])\<rparr>"
    using createNamespace_cases [OF assms(1) k _ assms(2)] assms(3,4) by (auto split: if_splits)
  have srt: "sort_key nsNSID (lNamespaces s) = lNamespaces s"
    using assms(1) by (intro sort_key_id_if_sorted) (simp add: ns_inv_def strict_sorted_imp_sorted)
  have d: "distinct (map nsNSID (sort_key nsNSID (lNamespaces s @ [n])))"
    using assms(1,2) n(1) by (auto simp: ns_inv_def strict_sorted_iff distinct_map)
  have "filter (\<lambda>m. nsNSID m \<noteq> nsid) (lNamespaces s) = lNamespaces s" using assms(2) by (auto intro!: filter_True)
  then have rm: "removeFirst (\<lambda>m. nsNSID m = nsid) (lNamespaces s') = lNamespaces s"
    using removeFirst_distinct [OF d, of nsid] n(1) srt by (simp add: s' filter_sort)
  have "find (\<lambda>m. nsNSID m = nsid) (lNamespaces s') = Some n"
  proof (cases "find (\<lambda>m. nsNSID m = nsid) (lNamespaces s')")
    case None
    then show ?thesis using n(1) by (auto simp: s' find_None_iff)
  next
    case (Some m)
    then have "nsNSID m = nsid" "m \<in> set (lNamespaces s')" by (auto simp: find_Some_iff)
    then show ?thesis using Some assms(2) by (auto simp: s')
  qed
  then show ?thesis
    using rm pages_agree [OF assms(6,7) p] p by (simp add: destroyNamespace_def n kv s')
qed

section \<open>Blocks to pages\<close>

text \<open>The pages that the bytes from \<open>x\<close> to \<open>y\<close> touch.\<close>

lemma touched_pages:
  assumes "0 < (p :: nat)" "x < y"
  shows "(\<lambda>b. b div p) ` {x..<y} = {x div p..(y - 1) div p}"
proof
  show "(\<lambda>b. b div p) ` {x..<y} \<subseteq> {x div p..(y - 1) div p}" by (auto intro!: div_le_mono)
  show "{x div p..(y - 1) div p} \<subseteq> (\<lambda>b. b div p) ` {x..<y}"
  proof
    fix c assume c: "c \<in> {x div p..(y - 1) div p}"
    define b where "b = max x (c * p)"
    have "b div p = c"
    proof (cases "x \<le> c * p")
      case False
      then have "x div p \<ge> c" using assms(1) by (simp add: less_eq_div_iff_mult_less_eq)
      then show ?thesis using False c by (simp add: b_def max_def)
    qed (use assms(1) in \<open>simp add: b_def max_def\<close>)
    moreover have "c * p \<le> y - 1" using c assms(1) by (simp add: less_eq_div_iff_mult_less_eq)
    ultimately show "c \<in> (\<lambda>b. b div p) ` {x..<y}" using assms(2) by (intro image_eqI [of _ _ b]) (auto simp: b_def)
  qed
qed

lemma last_page:
  assumes "0 < (r :: nat)" "0 < l" "0 < k"
  shows "((a + k) * l - 1) div (r * l) = (a + k - 1) div r"
proof -
  obtain j m where "k = Suc j" "l = Suc m" using assms by (metis gr0_implies_Suc)
  then have "(a + k) * l - 1 = m + (a + j) * l" by simp
  then have "((a + k) * l - 1) div l = a + j" using \<open>l = Suc m\<close> div_mult_self1 [of l m "a + j"] by simp
  then show ?thesis using \<open>k = Suc j\<close> by (simp add: mult.commute [of r] div_mult2_eq)
qed

lemma page_count:
  assumes "0 < (r :: nat)" "0 < k"
  shows "a div r + (k + a mod r + r - 1) div r = Suc ((a + k - 1) div r)"
proof -
  obtain j where j: "k = Suc j" using assms by (metis gr0_implies_Suc)
  have "a + j = a mod r + j + a div r * r" by simp
  then have "(a + j) div r = a div r + (a mod r + j) div r" using assms(1) by (metis div_mult_self1 add.commute less_numeral_extra(3))
  moreover have "(k + a mod r + r - 1) div r = Suc ((a mod r + j) div r)"
    using assms(1) div_add_self2 [of r "a mod r + j"] by (simp add: j algebra_simps)
  ultimately show ?thesis by (simp add: j)
qed

lemma rangePages_touched:
  assumes "0 < p" "x < y" "unat (slpn r) = b + x div p" "rangeEnd r = b + Suc ((y - 1) div p)"
  shows "rangePages r = (\<lambda>c. b + c div p) ` {x..<y}"
proof -
  have "(\<lambda>c. b + c div p) ` {x..<y} = (+) b ` (\<lambda>c. c div p) ` {x..<y}" by (simp add: image_image)
  also have "\<dots> = {b + x div p..b + (y - 1) div p}" unfolding touched_pages [OF assms(1,2)] by simp
  finally show ?thesis using assms(3,4) by (auto simp: rangePages_def)
qed

lemma convertUnit_ge:
  assumes "0 < l" "l dvd p" "0 < p" "l = unat (nsLbaSize (nsInfo ns))" "p = unat (ssPageSize s)"
    and "(unat slba + unat nlblk) * l + 2 * p < 2 ^ 64"
    and "b + unat slba + unat nlblk < 2 ^ 64" "b = unat (slpn (nsRange (nsInfo ns)))" "0 < unat nlblk"
  shows "\<exists>req'. convertUnit s ns slba nlblk req = Inr req' \<and>
    unat (hrOffset req') = unat slba * l mod p \<and> unat (hrLength req') = unat nlblk * l \<and>
    unat (slpn (hrRange req')) = b + unat slba * l div p \<and>
    rangeEnd (hrRange req') = b + Suc (((unat slba + unat nlblk) * l - 1) div p)"
proof -
  let ?L = "nsLbaSize (nsInfo ns)" and ?P = "ssPageSize s" and ?a = "unat slba" and ?k = "unat nlblk"
  define r where "r = p div l"
  have r: "p = r * l" "0 < r" using assms(1-3) by (auto simp: r_def)
  have rat: "unat (?P div ?L) = r" using assms(4,5) by (simp add: unat_div r_def)
  define R :: u64 where "R = ucast (?P div ?L)"
  have ur: "unat R = r" by (simp add: R_def rat)
  have ne: "?L \<noteq> 0" "?P div ?L \<noteq> 0" using assms(1,4) rat r(2) by auto
  define off where "off = slba mod R"
  have off: "unat off = ?a mod r" by (simp add: off_def unat_mod ur)
  have small: "?a * l + ?k * l < 2 ^ 64" "?k + 2 * r < 2 ^ 64" "?a mod r < r"
  proof -
    show "?a * l + ?k * l < 2 ^ 64" using assms(6) by (simp add: distrib_right)
    have "?k \<le> (?a + ?k) * l" "r \<le> p" using assms(1) r by (simp_all add: trans_le_add2 distrib_right)
    then show "?k + 2 * r < 2 ^ 64" using assms(6) by linarith
  qed (use r(2) in simp)
  let ?n = "(nlblk + off + R - 1) div R"
  have n: "unat ?n = (?k + ?a mod r + r - 1) div r"
  proof -
    have s1: "unat (nlblk + off) = ?k + ?a mod r" using small by (simp add: unat_word_ariths off)
    have s2: "unat (nlblk + off + R) = ?k + ?a mod r + r"
      using small by (simp add: unat_word_ariths(1) [of "nlblk + off"] s1 ur)
    have "1 \<le> nlblk + off + R" using r(2) by (simp add: word_le_nat_alt s2)
    then show ?thesis by (simp add: unat_div unat_sub s2 ur)
  qed
  have first: "unat (slba div R + slpn (nsRange (nsInfo ns))) = b + ?a div r"
  proof -
    have "?a div r + b < 2 ^ 64" using assms(7) div_le_dividend [of ?a r] by linarith
    then have "unat (slba div R + slpn (nsRange (nsInfo ns))) = ?a div r + b"
      using assms(8) by (simp add: unat_word_ariths unat_div ur)
    then show ?thesis by linarith
  qed
  have dm: "?a * l div p = ?a div r" "?a * l mod p = ?a mod r * l"
    using assms(1) by (simp_all add: r(1) mult_mod_left)
  have o: "unat (off * ucast ?L) = ?a mod r * l"
  proof -
    have "?a mod r * l \<le> ?a * l" by simp
    then have "?a mod r * l < 2 ^ 64" using small(1) by linarith
    then show ?thesis using assms(4) by (simp add: unat_word_ariths off)
  qed
  have len: "unat (nlblk * ucast ?L) = ?k * l" using small(1) assms(4) by (simp add: unat_word_ariths)
  have e: "?a div r + (?k + ?a mod r + r - 1) div r = Suc (((?a + ?k) * l - 1) div p)"
    using page_count [OF r(2) assms(9)] last_page [OF r(2) assms(1,9)] by (simp add: r(1))
  have "convertUnit s ns slba nlblk req = Inr (req\<lparr>
      hrRange := \<lparr>slpn = slba div R + slpn (nsRange (nsInfo ns)), nlp = ?n\<rparr>,
      hrOffset := off * ucast ?L, hrLength := nlblk * ucast ?L\<rparr>)"
    using ne by (simp add: convertUnit_def Let_def off_def R_def)
  then show ?thesis using first n o len dm e by (simp add: rangeEnd_def add.assoc)
qed

lemma convertUnit_lt:
  assumes "0 < p" "p dvd l" "p < l" "l = unat (nsLbaSize (nsInfo ns))" "p = unat (ssPageSize s)"
    and "(unat slba + unat nlblk) * l < 2 ^ 64" "b + (unat slba + unat nlblk) * l < 2 ^ 64"
    and "b = unat (slpn (nsRange (nsInfo ns)))" "0 < unat nlblk"
  shows "\<exists>req'. convertUnit s ns slba nlblk req = Inr req' \<and>
    unat (hrOffset req') = unat slba * l mod p \<and> unat (hrLength req') = unat nlblk * l \<and>
    unat (slpn (hrRange req')) = b + unat slba * l div p \<and>
    rangeEnd (hrRange req') = b + Suc (((unat slba + unat nlblk) * l - 1) div p)"
proof -
  let ?L = "nsLbaSize (nsInfo ns)" and ?P = "ssPageSize s" and ?a = "unat slba" and ?k = "unat nlblk"
  obtain r where r: "l = p * r" using assms(2) by blast
  have z: "?P div ?L = 0" using assms(3-5) by (simp add: word_unat_eq_iff unat_div)
  have rat: "unat (?L div ?P) = r" using assms(1) unfolding unat_div assms(4,5) [symmetric] r by simp
  define R :: u64 where "R = ucast (?L div ?P)"
  have ur: "unat R = r" by (simp add: R_def rat)
  have ne: "?L \<noteq> 0" "?P \<noteq> 0" using assms(1,3-5) by auto
  have "(?a + ?k) * r \<le> (?a + ?k) * l" using assms(1) r by simp
  then have small: "?a * r + ?k * r < 2 ^ 64" "b + (?a * r + ?k * r) < 2 ^ 64"
    using assms(6,7) by (simp_all add: distrib_right)
  have "?k * l < 2 ^ 64" using assms(6) by (simp add: distrib_right)
  then have len: "unat (nlblk * ucast ?L) = ?k * l" using assms(4) by (simp add: unat_word_ariths)
  have n: "unat (nlblk * R) = ?k * r" using small(1) by (simp add: unat_word_ariths ur)
  have f: "unat (slba * R) = ?a * r" using small(1) by (simp add: unat_word_ariths ur)
  have first: "unat (slba * R + slpn (nsRange (nsInfo ns))) = b + ?a * r"
  proof -
    have "?a * r + b < 2 ^ 64" using small(2) by linarith
    then have "unat (slba * R + slpn (nsRange (nsInfo ns))) = ?a * r + b"
      using assms(8) by (simp add: unat_word_ariths(1) [of "slba * R"] f)
    then show ?thesis by linarith
  qed
  have "Suc (((?a + ?k) * l - 1) div p) = (?a + ?k) * r"
  proof -
    have "0 < r" using assms(3) r by (cases r) simp_all
    then have pos: "0 < (?a + ?k) * r" using assms(9) by simp
    have l: "(?a + ?k) * l = (0 + (?a + ?k) * r) * p" by (simp add: r)
    have "((?a + ?k) * l - 1) div p = (?a + ?k) * r - 1"
      unfolding l using last_page [of 1 p "(?a + ?k) * r" 0] assms(1) pos by simp
    then show ?thesis using pos by linarith
  qed
  then have e: "b + ?a * r + ?k * r = b + Suc (((?a + ?k) * l - 1) div p)" by (simp add: distrib_right)
  have "convertUnit s ns slba nlblk req = Inr (req\<lparr>
      hrRange := \<lparr>slpn = slba * R + slpn (nsRange (nsInfo ns)), nlp = nlblk * R\<rparr>,
      hrOffset := 0, hrLength := nlblk * ucast ?L\<rparr>)"
    using ne z by (simp add: convertUnit_def Let_def R_def)
  then show ?thesis using first n len e assms(1) by (simp add: rangeEnd_def r)
qed

text \<open>The request for a run of blocks: its pages are those that hold the bytes of the blocks.\<close>

lemma convertUnit_pages:
  assumes "0 < l" "0 < p" "l dvd p \<or> p dvd l" "l = unat (nsLbaSize (nsInfo ns))" "p = unat (ssPageSize s)"
    and "(unat slba + unat nlblk) * l + 2 * p < 2 ^ 64" "b + (unat slba + unat nlblk) * l < 2 ^ 64"
    and "b = unat (slpn (nsRange (nsInfo ns)))" "0 < unat nlblk"
  shows "\<exists>req'. convertUnit s ns slba nlblk req = Inr req' \<and>
    unat (hrOffset req') = unat slba * l mod p \<and> unat (hrLength req') = unat nlblk * l \<and>
    unat (slpn (hrRange req')) = b + unat slba * l div p \<and>
    rangePages (hrRange req') = (\<lambda>c. b + c div p) ` {unat slba * l..<(unat slba + unat nlblk) * l}"
proof -
  have "\<exists>req'. convertUnit s ns slba nlblk req = Inr req' \<and>
    unat (hrOffset req') = unat slba * l mod p \<and> unat (hrLength req') = unat nlblk * l \<and>
    unat (slpn (hrRange req')) = b + unat slba * l div p \<and>
    rangeEnd (hrRange req') = b + Suc (((unat slba + unat nlblk) * l - 1) div p)"
  proof (cases "l dvd p")
    case True
    have "unat slba + unat nlblk \<le> (unat slba + unat nlblk) * l" using assms(1) by simp
    then have "b + unat slba + unat nlblk < 2 ^ 64" using assms(7) by linarith
    then show ?thesis by (rule convertUnit_ge [OF assms(1) True assms(2,4-6) _ assms(8,9)])
  next
    case False
    then have "p dvd l" "p < l" using assms(1,3) by (auto dest: dvd_imp_le simp: order.order_iff_strict)
    then show ?thesis by (intro convertUnit_lt) (use assms in simp_all)
  qed
  moreover have "unat slba * l < (unat slba + unat nlblk) * l" using assms(1,9) by simp
  ultimately show ?thesis using rangePages_touched [OF assms(2)] by blast
qed

text \<open>The blocks of a namespace whose size is a multiple of the page size stay on its pages.\<close>

lemma blocks_on_own_pages:
  assumes "0 < l" "0 < p" "p dvd sz" "rangeEnd rng = b + sz div p * l" "b = unat (slpn rng)" "a + k \<le> sz"
  shows "(\<lambda>c. b + c div p) ` {a * l..<(a + k) * l} \<subseteq> rangePages rng"
proof
  fix x assume "x \<in> (\<lambda>c. b + c div p) ` {a * l..<(a + k) * l}"
  then obtain c where c: "x = b + c div p" "c < (a + k) * l" by auto
  have "(a + k) * l \<le> sz * l" using assms(6) by simp
  then have "c < sz * l" using c(2) by linarith
  also have "sz * l = sz div p * l * p" using assms(3) by (metis dvd_div_mult_self mult.assoc mult.commute)
  finally have "c div p < sz div p * l" using assms(2) by (simp add: div_less_iff_less_mult)
  then show "x \<in> rangePages rng" using assms(4,5) c(1) by (simp add: rangePages_def)
qed

section \<open>Start-up\<close>

lemma ns_inv_cong:
  assumes "map (\<lambda>n. (nsNSID n, nsInfo n)) (lNamespaces s) = map (\<lambda>n. (nsNSID n, nsInfo n)) (lNamespaces s')"
    and "ssTotalPages s = ssTotalPages s'"
  shows "ns_inv s \<longleftrightarrow> ns_inv s'"
proof -
  have eq: "ns_inv s \<longleftrightarrow> (let F = map (\<lambda>n. (nsNSID n, nsInfo n)) (lNamespaces s) in
      sorted_wrt (<) (map fst F) \<and> (\<forall>x\<in>set F. range_ok (ssTotalPages s) (nsRange (snd x))) \<and>
      (\<forall>x\<in>set F. \<forall>y\<in>set F. fst x \<noteq> fst y \<longrightarrow> rangePages (nsRange (snd x)) \<inter> rangePages (nsRange (snd y)) = {}))" for s
    by (simp add: ns_inv_def Let_def comp_def)
  show ?thesis unfolding eq [of s] eq [of s'] assms ..
qed

lemma ns_inv_attachLast:
  assumes "ns_inv s" "lNamespaces s \<noteq> []"
  shows "ns_inv (attachLast s)" "map nsNSID (lNamespaces (attachLast s)) = map nsNSID (lNamespaces s)"
    "map nsInfo (lNamespaces (attachLast s)) = map nsInfo (lNamespaces s)"
proof -
  show id: "map nsNSID (lNamespaces (attachLast s)) = map nsNSID (lNamespaces s)"
    using assms(2) by (cases "lNamespaces s" rule: rev_cases) (simp_all add: attachLast_def)
  show "map nsInfo (lNamespaces (attachLast s)) = map nsInfo (lNamespaces s)"
    using assms(2) by (cases "lNamespaces s" rule: rev_cases) (simp_all add: attachLast_def)
  have "map (\<lambda>n. (nsNSID n, nsInfo n)) (lNamespaces (attachLast s)) = map (\<lambda>n. (nsNSID n, nsInfo n)) (lNamespaces s)"
    using assms(2) by (cases "lNamespaces s" rule: rev_cases) (simp_all add: attachLast_def)
  then show "ns_inv (attachLast s)" using assms(1) ns_inv_cong [of "attachLast s" s] by (simp add: attachLast_def)
qed

definition initState :: "u64 \<Rightarrow> u64 \<Rightarrow> u32 \<Rightarrow> u8 \<Rightarrow> nat \<Rightarrow> ns_info \<times> subsys \<Rightarrow> bool" where
  "initState T sz p f i = (\<lambda>(info, s). ns_inv s \<and> ssTotalPages s = T \<and> ssPageSize s = p \<and> nsLbaFormatIndex info = f \<and>
     set (map nsNSID (lNamespaces s)) = (\<lambda>j. NSID_LOWEST + of_nat j) ` {..<i} \<and>
     (\<forall>n\<in>set (lNamespaces s). rangeEnd (nsRange (nsInfo n)) \<le> unat (ssAllocatedPages s)) \<and> ssAllocatedPages s \<le> T)"

lemma initOne_step:
  assumes "initState T sz p f i x" "i < 2 ^ 16"
  shows "on_ok (initOne sz i x) (initState T sz p f (Suc i))"
proof (cases x)
  case (Pair info s)
  note I = assms(1) [unfolded Pair initState_def prod.case]
  let ?info = "info\<lparr>nsSize := sz, nsCapacity := sz\<rparr>" and ?id = "NSID_LOWEST + of_nat i :: u32"
  show ?thesis
  proof (cases "requestedPages ?info s")
    case (Inr k)
    have new: "?id \<notin> nsNSID ` set (lNamespaces s)"
    proof
      assume "?id \<in> nsNSID ` set (lNamespaces s)"
      then obtain j where "j < i" "(of_nat j :: u32) = of_nat i" using I by auto
      then show False using assms(2) by (simp add: word_of_nat_eq_iff take_bit_nat_eq_self)
    qed
    show ?thesis
    proof (cases "k \<le> ssTotalPages s - ssAllocatedPages s")
      case True
      have "unat (ssAllocatedPages s) + unat k \<le> unat (ssTotalPages s)"
      proof -
        have "unat k \<le> unat T - unat (ssAllocatedPages s)" "unat (ssAllocatedPages s) \<le> unat T"
          using True I by (simp_all add: word_le_nat_alt unat_sub)
        then show ?thesis using I by simp
      qed
      then have free: "freePages s (unat (ssAllocatedPages s)) (unat k)"
        using I by (fastforce simp: freePages_def rangePages_def)
      show ?thesis
      proof (cases "k = 0")
        case True
        then show ?thesis using createNamespace_cases [OF _ Inr _ new] I
          by (auto simp: Pair initOne_def Let_def)
      next
        case False
        have "ns_inv s" using I by simp
        from createNamespace_success [OF this Inr new False \<open>k \<le> _\<close> free]
        obtain n s' where c: "createNamespace ?id ?info s = Inr (True, nsInfo n, s')" "ns_inv s'"
          "s' = s\<lparr>ssAllocatedPages := ssAllocatedPages s + k, lNamespaces := sort_key nsNSID (lNamespaces s @ [n])\<rparr>"
          "nsNSID n = ?id" "nlp (nsRange (nsInfo n)) = k" "nsLbaFormatIndex (nsInfo n) = nsLbaFormatIndex ?info"
          "unat (slpn (nsRange (nsInfo n))) \<le> unat (ssAllocatedPages s)" .
        have A: "unat (ssAllocatedPages s + k) = unat (ssAllocatedPages s) + unat k"
          using \<open>_ \<le> unat (ssTotalPages s)\<close> unsigned_less [where ?'a = nat, of "ssTotalPages s"] by (simp add: unat_word_ariths)
        have ne: "lNamespaces s' \<noteq> []" using c(3) by (metis append_is_Nil_conv length_0_conv length_sort list.simps(3) subsys.select_convs(1) subsys.surjective subsys.update_convs(1))
        note att = ns_inv_attachLast [OF c(2) ne]
        have "nsInfo ` set (lNamespaces (attachLast s')) = nsInfo ` set (lNamespaces s')"
          using arg_cong [OF att(3), of set] by simp
        moreover have "\<forall>i\<in>nsInfo ` set (lNamespaces s'). rangeEnd (nsRange i) \<le> unat (ssAllocatedPages s + k)"
          using I c(3,5,7) A by (auto simp: rangeEnd_def intro: trans_le_add1)
        ultimately have "\<forall>m\<in>set (lNamespaces (attachLast s')). rangeEnd (nsRange (nsInfo m)) \<le> unat (ssAllocatedPages s + k)"
          by (metis image_eqI)
        moreover have "set (map nsNSID (lNamespaces (attachLast s'))) = insert ?id ((\<lambda>j. NSID_LOWEST + of_nat j) ` {..<i})"
          unfolding att(2) using I c(3,4) by simp
        moreover have "ssAllocatedPages s + k \<le> T" using A \<open>_ \<le> unat (ssTotalPages s)\<close> I by (simp add: word_le_nat_alt)
        ultimately show ?thesis using c(1,6) I att(1)
          by (simp add: Pair initOne_def Let_def initState_def lessThan_Suc) (simp add: c(3) attachLast_def)
      qed
    next
      case False
      then have "ssTotalPages s - ssAllocatedPages s < k" by (simp add: not_le)
      then show ?thesis using Inr by (simp add: Pair initOne_def Let_def createNamespace_def)
    qed
  qed (simp add: Pair initOne_def createNamespace_def)
qed

lemma Subsystem_init_inv: "on_ok (Subsystem_init T p n lba) ns_inv"
proof (cases "find (\<lambda>i. lbaSize ! i = lba) [0..<nLBAFormat]")
  case (Some f)
  let ?info = "Information_new\<lparr>nsLbaFormatIndex := of_nat f, nsLbaSize := lba\<rparr>"
  let ?s = "\<lparr>lNamespaces = [], queueAllocated = 0, ssPageSize = p, ssTotalPages = T, ssAllocatedPages = 0, commandCount = 0\<rparr>"
  let ?sz = "T * ucast p div ucast lba div ucast n"
  have "unat n < 2 ^ 16" using unsigned_less [where ?'a = nat, of n] by simp
  have "on_ok (foldR (initOne ?sz) [0..<unat n] (?info, ?s)) (initState T ?sz p (of_nat f) (length [0..<unat n]))"
  proof (rule foldR_on_ok_prefix [where I = "\<lambda>ys. initState T ?sz p (of_nat f) (length ys)"])
    show "initState T ?sz p (of_nat f) (length []) (?info, ?s)" by (simp add: initState_def ns_inv_def)
    fix ys x zs y assume "[0..<unat n] = ys @ x # zs" and I: "initState T ?sz p (of_nat f) (length ys) y"
    from upt_prefix [OF this(1)] have "ys = [0..<x]" "x < unat n" .
    then show "on_ok (initOne ?sz x y) (initState T ?sz p (of_nat f) (length (ys @ [x])))"
      using initOne_step [of T ?sz p "of_nat f" x y] I \<open>unat n < _\<close> by simp
  qed
  then show ?thesis using Some
    by (auto simp: Subsystem_init_def Let_def on_ok_bindR ns_inv_def initState_def elim!: on_ok_mono)
qed (simp add: Subsystem_init_def Let_def ns_inv_def)

end
