(* ===== verification/NvmeAdmin_Inv.thy ===== *)
theory NvmeAdmin_Inv
  imports NvmeAdmin NvmeCtrl_Inv NvmeNs_Inv
begin

text \<open>
  Properties of the admin commands: how often a command is answered, that the handlers keep the
  queue tables and the namespaces consistent, what setting a feature does to reading it, and what the
  identify data says.
\<close>

section \<open>How often a command is answered\<close>

text \<open>
  A command to create a queue that the controller refuses is not answered: the error is put into a
  response that nobody sends. So is a namespace command with an invalid selection.
\<close>

definition queueRefused :: "sq_wrapper \<Rightarrow> nvme_sys \<Rightarrow> bool" where
  "queueRefused req s \<longleftrightarrow>
     (let e = swEntry req; qid = unat (ucast (dword10 e AND 0xFFFF) :: u16);
          cqid = unat (ucast (drop_bit 16 (dword11 e AND 0xFFFF0000)) :: u16)
      in ucast (drop_bit 16 (dword10 e AND 0xFFFF0000) + 1) \<le> maxQueueEntry s \<and>
         (if opcode e = OPCODE_CREATE_IO_SQUEUE
          then ppSQueue (sysCtrl s) ! qid \<noteq> None \<or> ppCQueue (sysCtrl s) ! cqid = None
          else opcode e = OPCODE_CREATE_IO_CQUEUE \<and> ppCQueue (sysCtrl s) ! qid \<noteq> None))"

definition badSelection :: "sq_wrapper \<Rightarrow> bool" where
  "badSelection req \<longleftrightarrow> (let e = swEntry req; sel = dword10 e AND 0x0F
     in opcode e = OPCODE_NAMESPACE_MANAGEMENT \<and> ((sel = 0x00 \<and> namespaceID e \<noteq> NSID_NONE) \<or> sel > 0x01))"

definition unanswered :: "sq_wrapper \<Rightarrow> nvme_sys \<Rightarrow> bool" where
  "unanswered req s \<longleftrightarrow> swSqID req = 0 \<and> (queueRefused req s \<or> badSelection req)"

text \<open>The health log of a single namespace is answered by the subsystem and by the namespace.\<close>

definition answeredTwice :: "sq_wrapper \<Rightarrow> bool" where
  "answeredTwice req \<longleftrightarrow> swSqID req = 0 \<and> opcode (swEntry req) = OPCODE_GET_LOG_PAGE \<and>
     dword10 (swEntry req) AND 0xFFFF = 2 \<and> namespaceID (swEntry req) \<noteq> NSID_ALL"

lemmas opcode_defs = OPCODE_DELETE_IO_SQUEUE_def OPCODE_CREATE_IO_SQUEUE_def OPCODE_GET_LOG_PAGE_def
  OPCODE_DELETE_IO_CQUEUE_def OPCODE_CREATE_IO_CQUEUE_def OPCODE_IDENTIFY_def OPCODE_ABORT_def
  OPCODE_SET_FEATURES_def OPCODE_GET_FEATURES_def OPCODE_NAMESPACE_MANAGEMENT_def
  OPCODE_NAMESPACE_ATTACHMENT_def OPCODE_FORMAT_NVM_def

text \<open>The answers of each handler.\<close>

definition answers :: "handled \<Rightarrow> nat \<Rightarrow> bool" where
  "answers h n \<longleftrightarrow> on_ok h (\<lambda>(processed, out, s'). processed \<and> length out = n)"

lemma answers_simps [simp]: "answers (Inr (p, out, s)) n \<longleftrightarrow> p \<and> length out = n" "answers (Inl e) n"
  by (simp_all add: answers_def)

lemma answers_bind: "(\<And>x. m = Inr x \<Longrightarrow> answers (f x) n) \<Longrightarrow> answers (bindR m f) n"
  by (cases m) simp_all

lemma answers_one:
  "answers (admin_deleteSQueue now req s) 1" "answers (admin_deleteCQueue req s) 1" "answers (admin_abort now req s) 1"
  "answers (admin_setFeatures E req s) 1" "answers (admin_getFeatures E req s) 1" "answers (admin_identify E req s) 1"
  "answers (admin_namespaceAttachment req s) 1" "answers (admin_formatNVM E now req s) 1"
  by (auto simp: admin_deleteSQueue_def admin_deleteCQueue_def admin_abort_def admin_setFeatures_def admin_getFeatures_def
      admin_identify_def admin_namespaceAttachment_def admin_formatNVM_def Let_def split_beta intro!: answers_bind split: option.split)

lemma createSQueue_ret:
  "createSQueue sqid cqid len pri prp1 c = Inr (ret, c') \<Longrightarrow>
    (ret = 0) = (ppSQueue c ! unat sqid = None \<and> ppCQueue c ! unat cqid \<noteq> None)"
  by (auto simp: createSQueue_def queueAt_def split: option.splits if_splits)

lemma createCQueue_ret: "createCQueue cqid len iv ien prp1 c = Inr (ret, c') \<Longrightarrow> (ret = 0) = (ppCQueue c ! unat cqid = None)"
  by (auto simp: createCQueue_def queueAt_def split: option.splits if_splits)

lemma answers_createSQueue:
  "opcode (swEntry req) = OPCODE_CREATE_IO_SQUEUE \<Longrightarrow> answers (admin_createSQueue req s) (if queueRefused req s then 0 else 1)"
  unfolding admin_createSQueue_def Let_def
  by (auto simp: queueRefused_def Let_def not_less opcode_defs intro!: answers_bind dest: createSQueue_ret)

lemma answers_createCQueue:
  "opcode (swEntry req) = OPCODE_CREATE_IO_CQUEUE \<Longrightarrow> answers (admin_createCQueue req s) (if queueRefused req s then 0 else 1)"
  unfolding admin_createCQueue_def Let_def
  by (auto simp: queueRefused_def Let_def not_less opcode_defs intro!: answers_bind dest: createCQueue_ret)

lemma answers_namespaceManagement:
  "opcode (swEntry req) = OPCODE_NAMESPACE_MANAGEMENT \<Longrightarrow> answers (admin_namespaceManagement req s) (if badSelection req then 0 else 1)"
  by (auto simp: admin_namespaceManagement_def badSelection_def Let_def split_beta intro!: answers_bind)

lemma queueRefused_opcode: "queueRefused req s \<Longrightarrow> opcode (swEntry req) = OPCODE_CREATE_IO_SQUEUE \<or> opcode (swEntry req) = OPCODE_CREATE_IO_CQUEUE"
  by (auto simp: queueRefused_def Let_def split: if_splits)

lemma badSelection_opcode: "badSelection req \<Longrightarrow> opcode (swEntry req) = OPCODE_NAMESPACE_MANAGEMENT"
  by (simp add: badSelection_def Let_def)

lemma adminCommand_answers:
  assumes "adminCommand E now req s = Inr (p, out, s')" "swSqID req = 0"
  shows "if p then length out = (if unanswered req s then 0 else 1) \<and> \<not> answeredTwice req
    else \<not> unanswered req s \<and> length out = (if answeredTwice req then 1 else 0)"
proof -
  let ?oc = "opcode (swEntry req)"
  have rest: "\<not> unanswered req s" "\<not> answeredTwice req"
    if "?oc \<noteq> OPCODE_CREATE_IO_SQUEUE" "?oc \<noteq> OPCODE_CREATE_IO_CQUEUE" "?oc \<noteq> OPCODE_NAMESPACE_MANAGEMENT" "?oc \<noteq> OPCODE_GET_LOG_PAGE"
    using that queueRefused_opcode badSelection_opcode by (auto simp: unanswered_def answeredTwice_def)
  have ans: "p \<and> length out = n" if "answers h n" "h = adminCommand E now req s" for h n
    using that assms(1) by (simp add: answers_def)
  consider "?oc = OPCODE_CREATE_IO_SQUEUE" | "?oc = OPCODE_CREATE_IO_CQUEUE" | "?oc = OPCODE_NAMESPACE_MANAGEMENT"
    | "?oc = OPCODE_GET_LOG_PAGE"
    | (one) "?oc \<noteq> OPCODE_CREATE_IO_SQUEUE" "?oc \<noteq> OPCODE_CREATE_IO_CQUEUE" "?oc \<noteq> OPCODE_NAMESPACE_MANAGEMENT" "?oc \<noteq> OPCODE_GET_LOG_PAGE"
    by blast
  then show ?thesis
  proof cases
    case 1
    then show ?thesis using ans [OF answers_createSQueue [OF 1]] assms(2) badSelection_opcode
      by (auto simp: adminCommand_def Let_def opcode_defs unanswered_def answeredTwice_def)
  next
    case 2
    then show ?thesis using ans [OF answers_createCQueue [OF 2]] assms(2) badSelection_opcode
      by (auto simp: adminCommand_def Let_def opcode_defs unanswered_def answeredTwice_def)
  next
    case 3
    then show ?thesis using ans [OF answers_namespaceManagement [OF 3, of s]] assms(2) queueRefused_opcode [of req s]
      by (auto simp: adminCommand_def Let_def opcode_defs unanswered_def answeredTwice_def)
  next
    case 4
    then have "adminCommand E now req s = admin_getLogPage req s" by (simp add: adminCommand_def Let_def opcode_defs)
    moreover have "\<not> unanswered req s" using 4 queueRefused_opcode [of req s] badSelection_opcode [of req] by (auto simp: unanswered_def opcode_defs)
    ultimately show ?thesis using assms 4 by (auto simp: admin_getLogPage_def Let_def answeredTwice_def split: if_splits)
  next
    case one
    have "answers (adminCommand E now req s) 1 \<or> adminCommand E now req s = Inr (False, [], s)"
      by (simp only: adminCommand_def Let_def one if_False answers_one split: if_split) simp
    then have "(p \<and> length out = 1) \<or> (\<not> p \<and> out = [])" using assms(1) by auto
    then show ?thesis using rest one by auto
  qed
qed

lemma submit_answers:
  assumes "Subsystem_submitCommand E now req s = Inr (out, s')"
  shows "length out = (if unanswered req s then 0 else if answeredTwice req then 2 else 1)"
proof -
  let ?s = "s\<lparr>sysSub := (sysSub s)\<lparr>commandCount := commandCount (sysSub s) + 1\<rparr>\<rparr>"
  have un: "unanswered req ?s = unanswered req s" by (simp add: unanswered_def queueRefused_def maxQueueEntry_def)
  show ?thesis
  proof (cases "swSqID req = 0")
    case True
    then obtain p o1 s1 where a: "adminCommand E now req ?s = Inr (p, o1, s1)"
      using assms by (auto simp: Subsystem_submitCommand_def Let_def bindR_eq_Inr)
    then have "length out = (if p then length o1 else Suc (length o1))"
      using assms True by (auto simp: Subsystem_submitCommand_def Let_def split: option.splits)
    then show ?thesis using adminCommand_answers [OF a True] un by (auto split: if_splits)
  next
    case False
    then show ?thesis using assms by (auto simp: Subsystem_submitCommand_def Let_def unanswered_def answeredTwice_def split: option.splits)
  qed
qed

text \<open>The answers carry the identifiers of the command they answer.\<close>

fun answersFor :: "sq_wrapper \<Rightarrow> cq_wrapper \<Rightarrow> bool" where
  "answersFor req w \<longleftrightarrow> cwCqID w = swCqID req \<and> cqSqID (cwEntry w) = swSqID req \<and>
     cqCommandID (cwEntry w) = commandID (swEntry req) \<and> cqSqHead (cwEntry w) = swSqHead req"

fun replyFor :: "sq_wrapper \<Rightarrow> reply \<Rightarrow> bool" where
  "replyFor req (Respond w) = answersFor req w"
| "replyFor req (RespondMapped a w) = answersFor req w"
| "replyFor req (SendData r off len buf w) = (r = req \<and> answersFor req w)"
| "replyFor req (FetchData r job w) = (r = req \<and> answersFor req w)"
| "replyFor req (FormatPages rng erase w) = answersFor req w"
| "replyFor req (ToNamespace nid r) = (r = req)"

definition ofRequest :: "sq_wrapper \<Rightarrow> handled \<Rightarrow> bool" where
  "ofRequest req h \<longleftrightarrow> on_ok h (\<lambda>(p, out, s'). list_all (replyFor req) out)"

lemma answersFor_simps [simp]:
  "answersFor req (CQEntryWrapper req)" "answersFor req (makeStatus dnr m sct sc w) = answersFor req w"
  "answersFor req (setDword0 v w) = answersFor req w"
  by (simp_all add: CQEntryWrapper_def makeStatus_def setDword0_def)

declare answersFor.simps [simp del]

lemma ofRequest_simps [simp]: "ofRequest req (Inr (p, out, s)) \<longleftrightarrow> list_all (replyFor req) out" "ofRequest req (Inl e)"
  by (simp_all add: ofRequest_def)

lemma ofRequest_bind: "(\<And>x. m = Inr x \<Longrightarrow> ofRequest req (f x)) \<Longrightarrow> ofRequest req (bindR m f)"
  by (cases m) simp_all

lemma ofRequest_handlers:
  "ofRequest req (admin_deleteSQueue now req s)" "ofRequest req (admin_deleteCQueue req s)" "ofRequest req (admin_abort now req s)"
  "ofRequest req (admin_createSQueue req s)" "ofRequest req (admin_createCQueue req s)" "ofRequest req (admin_getLogPage req s)"
  "ofRequest req (admin_setFeatures E req s)" "ofRequest req (admin_getFeatures E req s)" "ofRequest req (admin_identify E req s)"
  "ofRequest req (admin_namespaceAttachment req s)" "ofRequest req (admin_formatNVM E now req s)" "ofRequest req (admin_namespaceManagement req s)"
  by (auto simp: admin_deleteSQueue_def admin_deleteCQueue_def admin_abort_def admin_createSQueue_def admin_createCQueue_def
      admin_getLogPage_def admin_setFeatures_def admin_getFeatures_def admin_identify_def admin_namespaceAttachment_def
      admin_formatNVM_def admin_namespaceManagement_def Let_def split_beta intro!: ofRequest_bind split: option.split)

lemma submit_ofRequest:
  assumes "Subsystem_submitCommand E now req s = Inr (out, s')" shows "list_all (replyFor req) out"
proof -
  let ?s = "s\<lparr>sysSub := (sysSub s)\<lparr>commandCount := commandCount (sysSub s) + 1\<rparr>\<rparr>"
  have "ofRequest req (if swSqID req = 0 then adminCommand E now req ?s else Inr (False, [], ?s))"
    by (simp add: adminCommand_def Let_def ofRequest_handlers)
  then show ?thesis using assms
    by (auto simp: Subsystem_submitCommand_def Let_def bindR_eq_Inr ofRequest_def split: if_splits option.splits)
qed

section \<open>Invariants\<close>

definition sys_ok :: "nvme_sys \<Rightarrow> bool" where
  "sys_ok s \<longleftrightarrow> ctrl_ok (sysCtrl s) \<and> ppSQueue (sysCtrl s) ! 0 \<noteq> None \<and> ns_inv (sysSub s)"

definition keeps :: "handled \<Rightarrow> bool" where
  "keeps h \<longleftrightarrow> on_ok h (\<lambda>(p, out, s'). sys_ok s')"

lemma keeps_simps [simp]: "keeps (Inr (p, out, s)) \<longleftrightarrow> sys_ok s" "keeps (Inl e)"
  by (simp_all add: keeps_def)

lemma keeps_bind: "(\<And>x. m = Inr x \<Longrightarrow> keeps (f x)) \<Longrightarrow> keeps (bindR m f)"
  by (cases m) simp_all

lemma sys_ok_ctrl:
  assumes "sys_ok s" "ctrl_ok c" "ppSQueue c ! 0 \<noteq> None" shows "sys_ok (s\<lparr>sysCtrl := c\<rparr>)"
  using assms by (simp add: sys_ok_def)

lemma sys_ok_sub: "sys_ok s \<Longrightarrow> ns_inv b \<Longrightarrow> sys_ok (s\<lparr>sysSub := b\<rparr>)"
  by (simp add: sys_ok_def)

text \<open>The admin submission queue stays when other queues come and go.\<close>

lemma createSQueue_admin:
  "createSQueue sqid cqid len pri prp1 c = Inr (r, c') \<Longrightarrow> ppSQueue c ! 0 \<noteq> None \<Longrightarrow> ppSQueue c' ! 0 \<noteq> None"
  by (cases "unat sqid = 0") (auto simp: createSQueue_def queueAt_def split: option.splits if_splits)

lemma createCQueue_admin: "createCQueue cqid len iv ien prp1 c = Inr (r, c') \<Longrightarrow> ppSQueue c' = ppSQueue c"
  by (auto simp: createCQueue_def queueAt_def split: option.splits if_splits)

lemma deleteCQueue_admin:
  assumes "tables_ok c" "deleteCQueue cqid c = Inr (r, c')" shows "ppSQueue c' = ppSQueue c"
proof -
  have "unat cqid < length (ppCQueue c)" using assms(2) by (simp add: deleteCQueue_def queueAt_def split: if_splits)
  from deleteCQueue_tables [OF assms(1) this] assms(2) show ?thesis by simp
qed

lemma table_handler:
  assumes "sys_ok s" "table_step g (sysCtrl s) c" "ppSQueue c ! 0 \<noteq> None" shows "sys_ok (s\<lparr>sysCtrl := c\<rparr>)"
  using assms table_step_ok by (auto intro!: sys_ok_ctrl simp: sys_ok_def)

lemma keeps_queues:
  assumes "sys_ok s"
  shows "keeps (admin_createSQueue req s)" "keeps (admin_createCQueue req s)" "keeps (admin_deleteCQueue req s)"
    "keeps (admin_deleteSQueue now req s)"
proof -
  have a: "ppSQueue (sysCtrl s) ! 0 \<noteq> None" "tables_ok (sysCtrl s)" using assms by (simp_all add: sys_ok_def ctrl_ok_def)
  have 1: "sys_ok (s\<lparr>sysCtrl := c\<rparr>)" if "createSQueue sqid cqid len pri prp1 (sysCtrl s) = Inr (r, c)" for sqid cqid len pri prp1 r c
    using table_handler [OF assms table_step.newSQ [OF a(1) that]] createSQueue_admin [OF that a(1)] by blast
  have 2: "sys_ok (s\<lparr>sysCtrl := c\<rparr>)" if "createCQueue cqid len iv ien prp1 (sysCtrl s) = Inr (r, c)" for cqid len iv ien prp1 r c
    using table_handler [OF assms table_step.newCQ [OF a(1) that]] createCQueue_admin [OF that] a(1) by simp
  have 3: "sys_ok (s\<lparr>sysCtrl := c\<rparr>)" if "deleteCQueue cqid (sysCtrl s) = Inr (r, c)" for cqid r c
    using table_handler [OF assms table_step.delCQ [OF a(1) that]] deleteCQueue_admin [OF a(2) that] a(1) by simp
  have 4: "sys_ok (s\<lparr>sysCtrl := c\<rparr>)" if "deleteSQueue now sqid (sysCtrl s) = Inr (r, c)" for sqid r c
    using table_handler [OF assms table_step.delSQ [OF a(1) that]] deleteSQueue_tables [OF a(2), of now sqid] that a(1) by simp
  show "keeps (admin_createSQueue req s)" "keeps (admin_createCQueue req s)" "keeps (admin_deleteCQueue req s)"
    "keeps (admin_deleteSQueue now req s)"
    unfolding admin_createSQueue_def admin_createCQueue_def admin_deleteCQueue_def admin_deleteSQueue_def Let_def
    using assms by (auto intro!: keeps_bind intro: 1 2 3 4)
qed

lemma abort_tables:
  "abortCommand now sqid cid c = Inr (r, c') \<Longrightarrow> ppSQueue c' = ppSQueue c \<and> ppCQueue c' = ppCQueue c \<and> aggregationMap c' = aggregationMap c"
  using submitCQ_tables by (fastforce simp: abortCommand_def bindR_eq_Inr split: option.splits dest: on_okD)

lemma setCoalescing_ok:
  assumes "ctrl_ok c" shows "ctrl_ok (setCoalescing iv en c)"
proof -
  let ?c = "setCoalescing iv en c"
  have same: "ppSQueue ?c = ppSQueue c" "ppCQueue ?c = ppCQueue c" by (simp_all add: setCoalescing_def)
  have "dom (map_of (aggregationMap c)) \<subseteq> dom (map_of (aggregationMap ?c))" by (auto simp: setCoalescing_def update_conv')
  then show ?thesis using assms unfolding ctrl_ok_def tables_ok_def same by blast
qed

lemma keeps_ctrl:
  assumes "sys_ok s"
  shows "keeps (admin_abort now req s)" "keeps (admin_setFeatures E req s)" "keeps (admin_getFeatures E req s)"
    "keeps (admin_getLogPage req s)" "keeps (admin_namespaceAttachment req s)"
proof -
  show "keeps (admin_abort now req s)"
    using assms by (auto simp: admin_abort_def Let_def sys_ok_def intro!: keeps_bind ctrl_ok_cong [of _ "sysCtrl s"] dest: abort_tables)
  have "setCoalescingParameter a b (sysCtrl s) = Inr c \<Longrightarrow> sys_ok (s\<lparr>sysCtrl := c\<rparr>)" for a b c
    using assms by (auto simp: setCoalescingParameter_def sys_ok_def intro!: ctrl_ok_cong [of _ "sysCtrl s"] split: if_splits)
  moreover have "sys_ok (s\<lparr>sysCtrl := setCoalescing iv en (sysCtrl s)\<rparr>)" for iv en
    using assms by (auto simp: sys_ok_def intro: setCoalescing_ok) (simp add: setCoalescing_def)
  moreover have "sys_ok (s\<lparr>sysSub := (sysSub s)\<lparr>queueAllocated := q\<rparr>\<rparr>)" for q using assms by (simp add: sys_ok_def ns_inv_def)
  ultimately show "keeps (admin_setFeatures E req s)"
    using assms by (auto simp: admin_setFeatures_def Let_def intro!: keeps_bind)
qed (use assms in \<open>simp_all add: admin_getFeatures_def admin_getLogPage_def admin_namespaceAttachment_def Let_def split_beta\<close>)

text \<open>Identify and format change neither the identifiers nor the pages of a namespace.\<close>

lemma ns_inv_same:
  assumes "ns_inv b" "map nsNSID ns = map nsNSID (lNamespaces b)" "map (\<lambda>n. nsRange (nsInfo n)) ns = map (\<lambda>n. nsRange (nsInfo n)) (lNamespaces b)"
  shows "ns_inv (b\<lparr>lNamespaces := ns\<rparr>)"
proof -
  have *: "ns_inv b' \<longleftrightarrow> sorted_wrt (<) (map nsNSID (lNamespaces b')) \<and>
      (\<forall>x\<in>set (zip (map nsNSID (lNamespaces b')) (map (\<lambda>n. nsRange (nsInfo n)) (lNamespaces b'))). range_ok (ssTotalPages b') (snd x)) \<and>
      (\<forall>x\<in>set (zip (map nsNSID (lNamespaces b')) (map (\<lambda>n. nsRange (nsInfo n)) (lNamespaces b'))).
       \<forall>y\<in>set (zip (map nsNSID (lNamespaces b')) (map (\<lambda>n. nsRange (nsInfo n)) (lNamespaces b'))).
         fst x \<noteq> fst y \<longrightarrow> rangePages (snd x) \<inter> rangePages (snd y) = {})" for b'
    by (auto simp: ns_inv_def zip_map_map zip_same_conv_map)
  show ?thesis using assms(1) unfolding * by (simp add: assms(2,3))
qed

lemma identifyMatching_same:
  "identifyMatching E p P ns b = Inr (ns', b') \<Longrightarrow> map nsNSID ns' = map nsNSID ns \<and>
     map (\<lambda>n. nsRange (nsInfo n)) ns' = map (\<lambda>n. nsRange (nsInfo n)) ns"
proof (induction ns arbitrary: ns' b)
  case (Cons n ns)
  show ?case using Cons.prems Cons.IH
    by (fastforce simp: fillIdentifyNamespace_def Let_def bindR_eq_Inr split: if_splits)
qed simp

lemma keeps_identify:
  assumes "sys_ok s" shows "keeps (admin_identify E req s)"
proof -
  have "ns_inv ((sysSub s)\<lparr>lNamespaces := ns\<rparr>)" if "identifyMatching E p P (lNamespaces (sysSub s)) b = Inr (ns, b')" for p P b ns b'
    using identifyMatching_same [OF that] assms by (auto intro!: ns_inv_same simp: sys_ok_def)
  then show ?thesis using assms
    by (auto simp: admin_identify_def Let_def split_beta intro!: keeps_bind sys_ok_sub simp: sys_ok_def)
qed

lemma updateFirst_same:
  "(\<And>n. g (f n) = g n) \<Longrightarrow> map g (updateFirst P f ns) = map g ns"
  by (induction ns) simp_all

lemma keeps_format:
  assumes "sys_ok s" shows "keeps (admin_formatNVM E now req s)"
proof -
  let ?f = "\<lambda>lbaf n. Namespace_format now (n\<lparr>nsInfo := formatInfo E lbaf (sysSub s) (nsInfo n)\<rparr>)"
  have "ns_inv ((sysSub s)\<lparr>lNamespaces := updateFirst P (?f lbaf) (lNamespaces (sysSub s))\<rparr>)" for P lbaf
    using assms by (intro ns_inv_same updateFirst_same) (simp_all add: sys_ok_def Namespace_format_def formatInfo_def Let_def)
  then show ?thesis using assms by (auto simp: admin_formatNVM_def Let_def intro!: sys_ok_sub split: option.split)
qed

lemma keeps_namespaceManagement: "sys_ok s \<Longrightarrow> keeps (admin_namespaceManagement req s)"
  by (auto simp: admin_namespaceManagement_def Let_def intro!: keeps_bind sys_ok_sub dest: destroyNamespace_inv(1) simp: sys_ok_def)

lemma adminCommand_keeps: "sys_ok s \<Longrightarrow> keeps (adminCommand E now req s)"
  by (simp add: adminCommand_def Let_def keeps_queues keeps_ctrl keeps_identify keeps_format keeps_namespaceManagement)

lemma submit_keeps:
  assumes "sys_ok s" shows "on_ok (Subsystem_submitCommand E now req s) (\<lambda>(out, s'). sys_ok s')"
proof -
  let ?s = "s\<lparr>sysSub := (sysSub s)\<lparr>commandCount := commandCount (sysSub s) + 1\<rparr>\<rparr>"
  have "sys_ok ?s" using assms by (simp add: sys_ok_def ns_inv_def)
  then have "keeps (if swSqID req = 0 then adminCommand E now req ?s else Inr (False, [], ?s))" by (simp add: adminCommand_keeps)
  then show ?thesis unfolding Subsystem_submitCommand_def Let_def on_ok_bindR keeps_def
    by (rule on_ok_mono) (auto split: option.split)
qed

text \<open>The jobs that wait for a transfer; the identifier chosen for a new namespace must still be free.\<close>

lemma createNamespace_keeps:
  assumes "ns_inv b" "nlp (nsRange info) = 0" "nid \<notin> nsNSID ` set (lNamespaces b)"
  shows "on_ok (createNamespace nid info b) (\<lambda>(ok, info', b'). ns_inv b')"
proof (cases "requestedPages info b")
  case (Inr k)
  from createNamespace_cases [OF assms(1) Inr disjI1 [OF assms(2)] assms(3)] show ?thesis
    using assms(1) by (auto split: if_splits)
qed (simp add: createNamespace_def)

lemma createNsDone_keeps:
  "ns_inv b \<Longrightarrow> nid \<notin> nsNSID ` set (lNamespaces b) \<Longrightarrow> on_ok (createNsDone nid buf resp b) (\<lambda>(r, b'). ns_inv b')"
  unfolding createNsDone_def Let_def
  by (auto simp: on_ok_bindR Information_new_def intro!: on_ok_mono [OF createNamespace_keeps])

lemma attachAll_same:
  "map nsNSID (fst (attachAll nid att ns r)) = map nsNSID ns \<and> map (\<lambda>n. nsRange (nsInfo n)) (fst (attachAll nid att ns r)) = map (\<lambda>n. nsRange (nsInfo n)) ns"
  by (induction ns arbitrary: r) (auto simp: Let_def split_beta)

lemma attachNsDone_keeps:
  assumes "ns_inv b" shows "on_ok (attachNsDone sel nid buf resp b) (\<lambda>(r, b'). ns_inv b')"
proof -
  have "ns_inv (b\<lparr>lNamespaces := fst (attachAll nid att (lNamespaces b) r)\<rparr>)" for att r
    using attachAll_same assms by (intro ns_inv_same) auto
  then show ?thesis using assms by (auto simp: attachNsDone_def on_ok_bindR Let_def split_beta intro!: on_okI)
qed

definition jobFree :: "admin_job \<Rightarrow> nvme_sys \<Rightarrow> bool" where
  "jobFree job s \<longleftrightarrow> (\<forall>nid. job = CreateNs nid \<longrightarrow> nid \<notin> nsNSID ` set (lNamespaces (sysSub s)))"

lemma jobDone_keeps:
  assumes "sys_ok s" "jobFree job s" shows "on_ok (jobDone job buf resp s) (\<lambda>(r, s'). sys_ok s')"
proof -
  have "ns_inv (sysSub s)" using assms by (simp add: sys_ok_def)
  then have "on_ok (case job of CreateNs nid \<Rightarrow> createNsDone nid buf resp (sysSub s)
      | AttachNs sel nid \<Rightarrow> attachNsDone sel nid buf resp (sysSub s)) (\<lambda>(r, b'). ns_inv b')"
    using assms(2) createNsDone_keeps attachNsDone_keeps by (auto simp: jobFree_def split: admin_job.split)
  then show ?thesis unfolding jobDone_def on_ok_bindR by (rule on_ok_mono) (use assms in \<open>auto intro: sys_ok_sub\<close>)
qed

text \<open>The identifier is the least one that is not in use.\<close>

lemma freeNsid_least:
  assumes "sorted_wrt (<) (map nsNSID ns)" "\<forall>n\<in>set ns. nid \<le> nsNSID n" "unat nid + length ns < 2 ^ 32"
  shows "freeNsid nid ns \<notin> nsNSID ` set ns \<and> nid \<le> freeNsid nid ns \<and>
    (\<forall>m. nid \<le> m \<and> m < freeNsid nid ns \<longrightarrow> m \<in> nsNSID ` set ns)"
  using assms
proof (induction ns arbitrary: nid)
  case (Cons n ns)
  show ?case
  proof (cases "nsNSID n = nid")
    case True
    have s: "unat (nid + 1) = Suc (unat nid)" using Cons.prems(3) by (simp add: unat_word_ariths)
    have "nid + 1 \<le> nsNSID m" if "m \<in> set ns" for m
    proof -
      have "nid < nsNSID m" using Cons.prems(1) that True by simp
      then show ?thesis using s by (simp add: word_less_nat_alt word_le_nat_alt)
    qed
    then have IH: "freeNsid (nid + 1) ns \<notin> nsNSID ` set ns" "nid + 1 \<le> freeNsid (nid + 1) ns"
      "\<forall>m. nid + 1 \<le> m \<and> m < freeNsid (nid + 1) ns \<longrightarrow> m \<in> nsNSID ` set ns"
      using Cons.IH [of "nid + 1"] Cons.prems s by auto
    have "m = nid \<or> nid + 1 \<le> m" if "nid \<le> m" for m
      using that s by (auto simp: word_le_nat_alt word_unat_eq_iff)
    moreover have "nid < freeNsid (nid + 1) ns" using IH(2) s by (simp add: word_le_nat_alt word_less_nat_alt)
    ultimately show ?thesis using IH True by (auto dest: order_less_imp_le)
  next
    case False
    then have "nid < nsNSID n" using Cons.prems(2) by (auto simp: order_less_le)
    moreover have "nsNSID n < nsNSID m" if "m \<in> set ns" for m using Cons.prems(1) that by simp
    ultimately show ?thesis using False by (auto dest: order_less_trans simp: not_less [symmetric])
  qed
qed (simp add: not_less)

section \<open>Interleaved commands\<close>

definition nsids :: "nvme_sys \<Rightarrow> u32 set" where
  "nsids s = nsNSID ` set (lNamespaces (sysSub s))"

fun jobsOf :: "reply list \<Rightarrow> admin_job list" where
  "jobsOf [] = []"
| "jobsOf (FetchData req job resp # rs) = job # jobsOf rs"
| "jobsOf (r # rs) = jobsOf rs"

fun createsNs :: "admin_job \<Rightarrow> bool" where
  "createsNs (CreateNs nid) = True"
| "createsNs (AttachNs sel nid) = False"

definition wantsNs :: "sq_wrapper \<Rightarrow> bool" where
  "wantsNs req \<longleftrightarrow> swSqID req = 0 \<and> opcode (swEntry req) = OPCODE_NAMESPACE_MANAGEMENT"

text \<open>
  Commands arrive while transfers of earlier ones are under way; a transfer ends with any data. The
  host does not ask for a second namespace before the first one is there.
\<close>

inductive admin_step :: "nvme_sys \<times> admin_job list \<Rightarrow> nvme_sys \<times> admin_job list \<Rightarrow> bool" where
  submit: "Subsystem_submitCommand E now req s = Inr (out, s') \<Longrightarrow> (wantsNs req \<Longrightarrow> \<not> list_ex createsNs pend) \<Longrightarrow>
    admin_step (s, pend) (s', pend @ jobsOf out)"
| finish: "job \<in> set pend \<Longrightarrow> jobDone job buf resp s = Inr (r, s') \<Longrightarrow> admin_step (s, pend) (s', remove1 job pend)"

inductive_cases admin_stepE: "admin_step (s, pend) t"

text \<open>What a handler may do to the set of identifiers, and which jobs it starts.\<close>

definition nsSafe :: "nvme_sys \<Rightarrow> handled \<Rightarrow> bool" where
  "nsSafe s h \<longleftrightarrow> on_ok h (\<lambda>(p, out, s'). nsids s' \<subseteq> nsids s \<and> (\<forall>nid. CreateNs nid \<notin> set (jobsOf out)))"

lemma nsSafe_simps [simp]:
  "nsSafe s (Inr (p, out, s')) \<longleftrightarrow> nsids s' \<subseteq> nsids s \<and> (\<forall>nid. CreateNs nid \<notin> set (jobsOf out))" "nsSafe s (Inl e)"
  by (simp_all add: nsSafe_def)

lemma nsSafe_bind: "(\<And>x. m = Inr x \<Longrightarrow> nsSafe s (f x)) \<Longrightarrow> nsSafe s (bindR m f)"
  by (cases m) simp_all

lemma nsids_simps [simp]: "nsids (s\<lparr>sysCtrl := c\<rparr>) = nsids s" "nsids (s\<lparr>sysSub := b\<rparr>) = nsNSID ` set (lNamespaces b)"
  by (simp_all add: nsids_def)

lemma nsSafe_plain:
  "nsSafe s (admin_deleteSQueue now req s)" "nsSafe s (admin_deleteCQueue req s)" "nsSafe s (admin_abort now req s)"
  "nsSafe s (admin_createSQueue req s)" "nsSafe s (admin_createCQueue req s)" "nsSafe s (admin_getLogPage req s)"
  "nsSafe s (admin_setFeatures E req s)" "nsSafe s (admin_getFeatures E req s)" "nsSafe s (admin_namespaceAttachment req s)"
  by (auto simp: admin_deleteSQueue_def admin_deleteCQueue_def admin_abort_def admin_createSQueue_def admin_createCQueue_def
      admin_getLogPage_def admin_setFeatures_def admin_getFeatures_def admin_namespaceAttachment_def nsids_def
      Let_def split_beta intro!: nsSafe_bind)

lemma same_ids: "map nsNSID ns = map nsNSID ms \<Longrightarrow> nsNSID ` set ns = nsNSID ` set ms"
  by (metis set_map)

lemma nsSafe_identify: "nsSafe s (admin_identify E req s)"
proof -
  have "nsNSID ` set ns = nsids s" if "identifyMatching E p P (lNamespaces (sysSub s)) b = Inr (ns, b')" for p P b ns b'
    using same_ids [of ns "lNamespaces (sysSub s)"] identifyMatching_same [OF that] by (simp add: nsids_def)
  then show ?thesis by (auto simp: admin_identify_def Let_def split_beta nsids_def intro!: nsSafe_bind)
qed

lemma nsSafe_format: "nsSafe s (admin_formatNVM E now req s)"
proof -
  have "nsNSID ` set (updateFirst P (\<lambda>n. Namespace_format now (n\<lparr>nsInfo := f n\<rparr>)) (lNamespaces (sysSub s))) = nsids s" for P f
    unfolding nsids_def by (intro same_ids updateFirst_same) (simp add: Namespace_format_def)
  then show ?thesis by (auto simp: admin_formatNVM_def Let_def split: option.split)
qed

lemma removeFirst_subset: "set (removeFirst P xs) \<subseteq> set xs"
  by (induction xs) auto

lemma destroyNamespace_ids: "destroyNamespace nid b = Inr (found, b') \<Longrightarrow> nsNSID ` set (lNamespaces b') \<subseteq> nsNSID ` set (lNamespaces b)"
  using removeFirst_subset by (fastforce simp: destroyNamespace_def split: option.splits if_splits)

lemma management_jobs:
  assumes "admin_namespaceManagement req s = Inr (p, out, s')"
  shows "nsids s' \<subseteq> nsids s \<and> (jobsOf out = [] \<or> (jobsOf out = [CreateNs (freeNsid NSID_LOWEST (lNamespaces (sysSub s)))] \<and> s' = s))"
  using assms by (auto simp: admin_namespaceManagement_def Let_def bindR_eq_Inr nsids_def split: if_splits
      dest!: destroyNamespace_ids)

lemma adminCommand_safe: "opcode (swEntry req) \<noteq> OPCODE_NAMESPACE_MANAGEMENT \<Longrightarrow> nsSafe s (adminCommand E now req s)"
  by (simp add: adminCommand_def Let_def nsSafe_plain nsSafe_identify nsSafe_format)

lemma jobsOf_append [simp]: "jobsOf (xs @ ys) = jobsOf xs @ jobsOf ys"
  by (induction xs rule: jobsOf.induct) simp_all

lemma management_fresh:
  "admin_namespaceManagement req s = Inr (p, out, s') \<Longrightarrow> jobsOf out = [CreateNs nid] \<Longrightarrow> nid \<noteq> NSID_ALL"
  by (auto simp: admin_namespaceManagement_def Let_def bindR_eq_Inr split: if_splits)

text \<open>What a submitted command does to the identifiers and the jobs.\<close>

lemma submit_jobs:
  assumes "Subsystem_submitCommand E now req s = Inr (out, s')"
  shows "nsids s' \<subseteq> nsids s \<and> ((\<forall>nid. CreateNs nid \<notin> set (jobsOf out)) \<or>
    (wantsNs req \<and> freeNsid NSID_LOWEST (lNamespaces (sysSub s)) \<noteq> NSID_ALL \<and> jobsOf out = [CreateNs (freeNsid NSID_LOWEST (lNamespaces (sysSub s)))]))"
proof -
  let ?s = "s\<lparr>sysSub := (sysSub s)\<lparr>commandCount := commandCount (sysSub s) + 1\<rparr>\<rparr>"
  have ids: "nsids ?s = nsids s" by (simp add: nsids_def)
  obtain p o1 s1 where a: "(if swSqID req = 0 then adminCommand E now req ?s else Inr (False, [], ?s)) = Inr (p, o1, s1)"
    and o: "nsids s' = nsids s1" "jobsOf out = jobsOf o1"
    using assms by (auto simp: Subsystem_submitCommand_def Let_def bindR_eq_Inr split: if_splits option.splits)
  show ?thesis
  proof (cases "wantsNs req")
    case True
    then have "admin_namespaceManagement req ?s = Inr (p, o1, s1)"
      using a by (simp add: wantsNs_def adminCommand_def Let_def opcode_defs)
    from management_jobs [OF this] management_fresh [OF this] show ?thesis using True o ids by auto
  next
    case False
    then have "nsSafe ?s (if swSqID req = 0 then adminCommand E now req ?s else Inr (False, [], ?s))"
      using adminCommand_safe [of req ?s E now] by (auto simp: wantsNs_def)
    then show ?thesis unfolding a using o ids by simp
  qed
qed

lemma freeNsid_unused:
  assumes "sorted_wrt (<) (map nsNSID ns)" "\<forall>n\<in>set ns. nid \<le> nsNSID n \<and> nsNSID n \<noteq> - 1"
  shows "freeNsid nid ns \<notin> nsNSID ` set ns \<and> nid \<le> freeNsid nid ns"
  using assms
proof (induction ns arbitrary: nid)
  case (Cons n ns)
  have above: "nsNSID n < nsNSID m" if "m \<in> set ns" for m using Cons.prems(1) that by simp
  show ?case
  proof (cases "nsNSID n = nid")
    case True
    then have "1 + nid \<noteq> 0" using Cons.prems(2) by (auto simp: eq_neg_iff_add_eq_0 add.commute)
    then have u: "unat (nid + 1) = Suc (unat nid)" using unatSuc [of nid] by (simp add: add.commute)
    have "nid + 1 \<le> nsNSID m" if "m \<in> set ns" for m using above [OF that] True u by (simp add: word_less_nat_alt word_le_nat_alt)
    then have "freeNsid (nid + 1) ns \<notin> nsNSID ` set ns \<and> nid + 1 \<le> freeNsid (nid + 1) ns"
      using Cons.IH [of "nid + 1"] Cons.prems by simp
    moreover have "nid < nid + 1" using u by (simp add: word_less_nat_alt)
    ultimately show ?thesis using True by auto
  next
    case False
    then have "nid < nsNSID n" using Cons.prems(2) by (auto simp: order_less_le)
    then show ?thesis using False above by (auto dest: order_less_trans)
  qed
qed simp

text \<open>The invariant of the interleaved commands.\<close>

definition admin_inv :: "nvme_sys \<times> admin_job list \<Rightarrow> bool" where
  "admin_inv = (\<lambda>(s, pend). sys_ok s \<and> NSID_NONE \<notin> nsids s \<and> NSID_ALL \<notin> nsids s \<and> length (filter createsNs pend) \<le> 1 \<and>
     (\<forall>nid. CreateNs nid \<in> set pend \<longrightarrow> nid \<notin> nsids s \<and> nid \<noteq> NSID_NONE \<and> nid \<noteq> NSID_ALL))"

lemma createNamespace_ids:
  assumes "createNamespace nid info b = Inr (ok, info', b')"
    and "n \<in> set (lNamespaces b')"
  shows "nsNSID n = nid \<or> nsNSID n \<in> nsNSID ` set (lNamespaces b)"
  using assms by (auto simp: createNamespace_def bindR_eq_Inr Let_def Namespace_setData_def split: if_splits)

lemma jobDone_ids:
  assumes "jobDone job buf resp s = Inr (r, s')"
  shows "nsids s' \<subseteq> nsids s \<or> (\<exists>nid. job = CreateNs nid \<and> nsids s' \<subseteq> insert nid (nsids s))"
proof (cases job)
  case (CreateNs nid)
  then have "nsids s' \<subseteq> insert nid (nsids s)" using assms
    by (auto simp: jobDone_def createNsDone_def Let_def bindR_eq_Inr nsids_def dest: createNamespace_ids split: if_splits)
  then show ?thesis using CreateNs by blast
next
  case (AttachNs sel nid)
  have "nsNSID x \<in> nsNSID ` set ns" if "x \<in> set (fst (attachAll k att ns q))" for x k att ns q
    using that attachAll_same [of k att ns q] same_ids [of "fst (attachAll k att ns q)" ns] by blast
  then have "nsids s' \<subseteq> nsids s" using assms AttachNs
    by (auto simp: jobDone_def attachNsDone_def Let_def bindR_eq_Inr nsids_def split_beta split: if_splits)
  then show ?thesis by simp
qed

lemma nsids_ge: "NSID_NONE \<notin> nsids s \<Longrightarrow> n \<in> set (lNamespaces (sysSub s)) \<Longrightarrow> NSID_LOWEST \<le> nsNSID n"
  by (cases "nsNSID n = 0") (auto simp: nsids_def NSID_LOWEST_def NSID_NONE_def word_le_nat_alt Suc_le_eq unat_gt_0)

lemma freeNsid_new:
  assumes "sys_ok s" "NSID_NONE \<notin> nsids s" "NSID_ALL \<notin> nsids s"
  shows "freeNsid NSID_LOWEST (lNamespaces (sysSub s)) \<notin> nsids s" "freeNsid NSID_LOWEST (lNamespaces (sysSub s)) \<noteq> NSID_NONE"
proof -
  have "nsNSID n \<noteq> - 1" if "n \<in> set (lNamespaces (sysSub s))" for n
  proof -
    have "(- 1 :: u32) = NSID_ALL" by (simp add: NSID_ALL_def)
    moreover have "nsNSID n \<in> nsids s" using that by (simp add: nsids_def)
    ultimately show ?thesis using assms(3) by metis
  qed
  then have "freeNsid NSID_LOWEST (lNamespaces (sysSub s)) \<notin> nsids s \<and> NSID_LOWEST \<le> freeNsid NSID_LOWEST (lNamespaces (sysSub s))"
    using freeNsid_unused [of "lNamespaces (sysSub s)" NSID_LOWEST] nsids_ge [OF assms(2)] assms(1)
    by (auto simp: sys_ok_def ns_inv_def nsids_def)
  then show "freeNsid NSID_LOWEST (lNamespaces (sysSub s)) \<notin> nsids s" "freeNsid NSID_LOWEST (lNamespaces (sysSub s)) \<noteq> NSID_NONE"
    by (auto simp: NSID_LOWEST_def NSID_NONE_def)
qed

lemma createsNs_none: "\<forall>nid. CreateNs nid \<notin> set js \<Longrightarrow> filter createsNs js = []"
  by (auto simp: filter_empty_conv elim: createsNs.elims)

lemma only_one:
  assumes "job \<in> set pend" "createsNs job" "length (filter createsNs pend) \<le> 1" shows "CreateNs k \<notin> set (remove1 job pend)"
proof -
  have "job \<in> set (filter createsNs pend)" using assms(1,2) by simp
  then have "filter createsNs pend = [job]" using assms(3) by (cases "filter createsNs pend") auto
  then have "filter createsNs (remove1 job pend) = []" by (simp add: filter_remove1)
  then show ?thesis by (auto simp: filter_empty_conv)
qed

lemma admin_step_inv:
  assumes "admin_step (s, pend) (s', pend')" "admin_inv (s, pend)" shows "admin_inv (s', pend')"
  using assms(1)
proof (cases rule: admin_step.cases)
  case (submit E now req out)
  have inv: "sys_ok s" "NSID_NONE \<notin> nsids s" "NSID_ALL \<notin> nsids s" "length (filter createsNs pend) \<le> 1"
    "\<And>nid. CreateNs nid \<in> set pend \<Longrightarrow> nid \<notin> nsids s \<and> nid \<noteq> NSID_NONE \<and> nid \<noteq> NSID_ALL"
    using assms(2) by (auto simp: admin_inv_def)
  have ok: "sys_ok s'" using submit_keeps [of s E now req] inv(1) submit(2) by simp
  have ids: "nsids s' \<subseteq> nsids s" using submit_jobs [OF submit(2)] by blast
  show ?thesis
  proof (cases "\<forall>nid. CreateNs nid \<notin> set (jobsOf out)")
    case True
    then show ?thesis using ok ids inv createsNs_none [OF True] submit(1) by (auto simp: admin_inv_def)
  next
    case False
    then have new: "wantsNs req" "freeNsid NSID_LOWEST (lNamespaces (sysSub s)) \<noteq> NSID_ALL" "jobsOf out = [CreateNs (freeNsid NSID_LOWEST (lNamespaces (sysSub s)))]"
      using submit_jobs [OF submit(2)] by blast+
    have "filter createsNs pend = []" using submit(3) new(1) by (simp add: filter_empty_conv list_ex_iff)
    then show ?thesis using ok ids inv freeNsid_new [OF inv(1,2,3)] new(2,3) submit(1) by (auto simp: admin_inv_def)
  qed
next
  case (finish job buf resp r)
  have inv: "sys_ok s" "NSID_NONE \<notin> nsids s" "NSID_ALL \<notin> nsids s" "length (filter createsNs pend) \<le> 1"
    "\<And>nid. CreateNs nid \<in> set pend \<Longrightarrow> nid \<notin> nsids s \<and> nid \<noteq> NSID_NONE \<and> nid \<noteq> NSID_ALL"
    using assms(2) by (auto simp: admin_inv_def)
  have "jobFree job s" using inv(5) finish(2) by (auto simp: jobFree_def nsids_def)
  then have ok: "sys_ok s'" using on_okD [OF jobDone_keeps [OF inv(1)] finish(3)] by simp
  have len: "length (filter createsNs (remove1 job pend)) \<le> 1" using inv(4) by (simp add: filter_remove1 length_remove1)
  show ?thesis
  proof (cases "nsids s' \<subseteq> nsids s")
    case True
    then show ?thesis using ok inv len finish(1) by (auto simp: admin_inv_def dest: set_remove1_subset [THEN subsetD])
  next
    case False
    then obtain nid where j: "job = CreateNs nid" "nsids s' \<subseteq> insert nid (nsids s)" using jobDone_ids [OF finish(3)] by blast
    have "CreateNs k \<notin> set (remove1 job pend)" for k using only_one [OF finish(2) _ inv(4)] j(1) by simp
    then show ?thesis using ok inv len finish(1,2) j by (auto simp: admin_inv_def)
  qed
qed

section \<open>Features\<close>

lemma coalescing_time: "ucast (ucast (t :: u8) * 100000000 div 100000000 :: u64) = t"
proof -
  have "unat t < 256" using unsigned_less [where ?'a = nat, of t] by simp
  then have "unat (ucast t * 100000000 :: u64) = unat t * 100000000"
    by (simp add: unat_word_ariths(2) unsigned_ucast_eq take_bit_nat_eq_self)
  then have "unat (ucast t * 100000000 div 100000000 :: u64) = unat t" by (simp add: unat_div)
  then show ?thesis by (simp add: word_unat_eq_iff unsigned_ucast_eq take_bit_nat_eq_self \<open>unat t < 256\<close>)
qed

lemma coalescing_word:
  "push_bit 8 (ucast (ucast (drop_bit 8 v AND 0xFF :: u32) :: u8)) OR ucast (ucast (v AND 0xFF) :: u8) = v AND 0xFFFF"
proof -
  have m: "(0xFF :: u32) = mask 8" "(0xFFFF :: u32) = mask 16" by (simp_all add: mask_eq_exp_minus_1)
  show ?thesis unfolding m by (rule bit_word_eqI) (auto simp: bit_simps)
qed

lemma vector_word: "(v AND 0xFFFF) OR (if (v :: u32) AND 0x10000 \<noteq> 0 then 0x10000 else 0) = v AND 0x1FFFF"
proof -
  have m: "(0xFFFF :: u32) = mask 16" "(0x1FFFF :: u32) = mask 17" by (simp_all add: mask_eq_exp_minus_1)
  have t: "bit (0x10000 :: int) n \<longleftrightarrow> n = 16" for n using bit_exp_iff [where ?'a = int, of 16 n] by auto
  have b: "v AND 0x10000 \<noteq> 0 \<longleftrightarrow> bit v 16" using and_exp_eq_0_iff_not_bit [of v 16] by simp
  show ?thesis unfolding b m
  proof (rule bit_word_eqI)
    fix n assume n: "n < LENGTH(32)"
    show "bit ((v AND mask 16) OR (if bit v 16 then 0x10000 else 0)) n = bit (v AND mask 17) n"
      by (cases "n = 16"; cases "bit v 16") (use n in \<open>auto simp: bit_simps t\<close>)
  qed
qed

lemma coalescing_back: "setCoalescingParameter t h c = Inr c' \<Longrightarrow> getCoalescingParameter c' = (t, h)"
  by (auto simp: setCoalescingParameter_def getCoalescingParameter_def coalescing_time bit_simps intro!: bit_word_eqI split: if_splits)

definition featureValue :: "admin_env \<Rightarrow> u32 \<Rightarrow> u32 \<Rightarrow> u32" where
  "featureValue E f v = (if f = 7 then limitQueues (aeConfig E) v else if f = 8 then v AND 0xFFFF else v AND 0x1FFFF)"

lemma features_back:
  assumes "dword10 (swEntry a) = f" "dword10 (swEntry b) = f" "f = 7 \<or> f = 8 \<or> f = 9" "v = dword11 (swEntry a)"
    and "admin_setFeatures E a s = Inr (True, [Respond r], s')"
    and "f = 7 \<Longrightarrow> v AND 0xFFFF \<noteq> 0xFFFF \<and> v AND 0xFFFF0000 \<noteq> 0xFFFF0000"
    and "f = 9 \<Longrightarrow> dword11 (swEntry b) AND 0xFFFF = v AND 0xFFFF \<and> map_of (aggregationMap (sysCtrl s)) (ucast (v AND 0xFFFF)) \<noteq> None"
  shows "admin_getFeatures E b s' = Inr (True, [Respond (setDword0 (featureValue E f v) (CQEntryWrapper b))], s')"
proof -
  consider "f = 7" | "f = 8" | "f = 9" using assms(3) by blast
  then show ?thesis
  proof cases
    case 1
    then show ?thesis using assms by (auto simp: admin_setFeatures_def admin_getFeatures_def Let_def featureValue_def)
  next
    case 2
    then have "setCoalescingParameter (ucast (drop_bit 8 v AND 0xFF)) (ucast (v AND 0xFF)) (sysCtrl s) = Inr (sysCtrl s')"
      using assms by (auto simp: admin_setFeatures_def Let_def bindR_eq_Inr)
    from coalescing_back [OF this] show ?thesis using 2 assms(2) coalescing_word [of v] by (simp add: admin_getFeatures_def Let_def featureValue_def)
  next
    case 3
    then have c: "sysCtrl s' = setCoalescing (ucast (v AND 0xFFFF)) (v AND 0x10000 \<noteq> 0) (sysCtrl s)"
      using assms by (auto simp: admin_setFeatures_def Let_def)
    have g: "getCoalescing (ucast (v AND 0xFFFF)) (sysCtrl s') = (v AND 0x10000 \<noteq> 0)"
      using assms(7) [OF 3] by (auto simp: c getCoalescing_def setCoalescing_def update_conv')
    show ?thesis using 3 assms(2) assms(7) [OF 3] g vector_word [of v]
      by (simp add: admin_getFeatures_def Let_def featureValue_def)
  qed
qed

section \<open>Identify\<close>

text \<open>
  The field of the total capacity holds the unallocated capacity, and the field of the latter
  nothing; the version bytes are those of version 0.4.1.
\<close>

lemma identify_split:
  "\<exists>pre post. identifyCapabilities E @ identifyAdmin E @ identifyNVM E @ identifyPower =
     pre @ (0x118, leBytes 8 (idTotalSize E - idUsed E)) # post \<and> list_all (misses 0x118 8) post"
  by (intro exI [of _ "identifyCapabilities E @ take 16 (identifyAdmin E)"]
      exI [of _ "drop 17 (identifyAdmin E) @ identifyNVM E @ identifyPower"])
    (simp add: identifyAdmin_def identifyNVM_def identifyPower_def misses_def charBytes_def)

lemma identify_capacity: "bufRead 0x118 8 (Controller_identify E b) = idTotalSize E - idUsed E"
proof -
  obtain pre post where s: "identifyCapabilities E @ identifyAdmin E @ identifyNVM E @ identifyPower =
     pre @ (0x118, leBytes 8 (idTotalSize E - idUsed E)) # post" "list_all (misses 0x118 8) post" using identify_split by blast
  have "bufRead 0x118 8 (Controller_identify E b) = take_bit (8 * 8) (idTotalSize E - idUsed E)"
    unfolding Controller_identify_def s(1) by (rule bufRead_stores_bytes [OF s(2)]) simp
  then show ?thesis by (simp add: take_bit_word_eq_self)
qed

lemma identify_unallocated: "bufRead 0x128 8 (Controller_identify E b) = bufRead 0x128 8 b"
  unfolding Controller_identify_def
  by (rule bufRead_stores_miss)
    (simp add: identifyCapabilities_def identifyAdmin_def identifyNVM_def identifyPower_def misses_def charBytes_def)

end
