(* ===== verification/NvmeQueue_Inv.thy ===== *)
theory NvmeQueue_Inv
  imports NvmeQueue
begin

text \<open>
  Properties of the NVMe rings: the positions as counters modulo the ring size, the number
  of waiting entries, and the completion ring together with a host that follows the phase
  tags, as a transition system with its invariant.
\<close>

section \<open>Positions\<close>

text \<open>A ring position that has been advanced \<open>k\<close> times from the first slot.\<close>

definition ring_pos :: "u16 \<Rightarrow> nat \<Rightarrow> u16" where
  "ring_pos len k = of_nat (k mod unat len)"

lemma mod_unat_less: "0 < (len :: u16) \<Longrightarrow> k mod unat len < unat len"
  by (simp add: word_less_nat_alt)

lemma unat_ring_pos [simp]: "0 < len \<Longrightarrow> unat (ring_pos len k) = k mod unat len"
  using mod_unat_less [of len k] unsigned_less [where ?'a = nat, of len]
  by (simp add: ring_pos_def unat_of_nat take_bit_nat_eq_self)

lemma ring_pos_0 [simp]: "ring_pos len 0 = 0"
  by (simp add: ring_pos_def)

lemma unat_Suc_less: "i < (len :: u16) \<Longrightarrow> unat (i + 1) = Suc (unat i)"
  using unsigned_less [where ?'a = nat, of len]
  by (simp add: word_less_nat_alt unat_word_ariths)

lemma ringNext_pos [simp]:
  assumes "0 < len"
  shows "ringNext len (ring_pos len k) = ring_pos len (Suc k)"
proof -
  have lt: "ring_pos len k < len" using assms mod_unat_less by (simp add: word_less_nat_alt)
  have "unat (ringNext len (ring_pos len k)) = Suc k mod unat len"
    using assms lt by (simp add: ringNext_def mod_Suc unat_Suc_less word_unat_eq_iff)
  then show ?thesis using assms by (simp add: word_unat_eq_iff)
qed

lemma ring_wrap:
  assumes "0 < len" shows "ring_pos len k + 1 = len \<longleftrightarrow> Suc k mod unat len = 0"
proof -
  have "ring_pos len k < len" using assms mod_unat_less by (simp add: word_less_nat_alt)
  then show ?thesis using assms by (simp add: mod_Suc unat_Suc_less word_unat_eq_iff)
qed

lemma ring_pos_eq_iff: "0 < len \<Longrightarrow> ring_pos len i = ring_pos len j \<longleftrightarrow> i mod unat len = j mod unat len"
  by (simp add: word_unat_eq_iff)

text \<open>Two positions less than a lap apart are equal only when the counters are.\<close>

lemma mod_eq_window:
  assumes "(i :: nat) mod n = j mod n" "i \<le> j" "j < i + n" shows "i = j"
proof -
  have "n dvd j - i" using assms(1,2) by (simp add: mod_eq_dvd_iff_nat [symmetric])
  then show ?thesis using assms(2,3) by (auto dest: dvd_imp_le)
qed

lemma mod_add_less2:
  assumes "d < n" "(a :: nat) < n"
  shows "(a + d) mod n = (if a + d < n then a + d else a + d - n)"
proof (cases "a + d < n")
  case False
  then have "(a + d) mod n = (a + d - n) mod n" by (simp add: le_mod_geq)
  also have "\<dots> = a + d - n" using assms by (intro mod_less) linarith
  finally show ?thesis using False by simp
qed simp

text \<open>The number of waiting entries, from the counters of the two ends.\<close>

lemma getItemCount_pos:
  assumes "0 < qSize q" "qHead q = ring_pos (qSize q) i" "qTail q = ring_pos (qSize q) j"
    and "i \<le> j" "j < i + unat (qSize q)"
  shows "unat (getItemCount q) = j - i"
proof -
  let ?n = "unat (qSize q)"
  have n: "0 < ?n" "?n < 2 ^ 16"
    using assms(1) unsigned_less [where ?'a = nat, of "qSize q"] by (simp_all add: word_less_nat_alt)
  have h: "unat (qHead q) = i mod ?n" and t: "unat (qTail q) = j mod ?n" using assms by simp_all
  have hn: "i mod ?n < ?n" "j mod ?n < ?n" using n by simp_all
  obtain d where d: "j = i + d" "d < ?n" using assms(4,5) by (metis add_less_cancel_left le_Suc_ex)
  have jm: "j mod ?n = (if i mod ?n + d < ?n then i mod ?n + d else i mod ?n + d - ?n)"
  proof -
    have "j mod ?n = (i mod ?n + d) mod ?n" unfolding d(1) by (simp add: mod_add_left_eq)
    also have "\<dots> = (if i mod ?n + d < ?n then i mod ?n + d else i mod ?n + d - ?n)"
      using d(2) hn(1) by (rule mod_add_less2)
    finally show ?thesis .
  qed
  show ?thesis
  proof (cases "qHead q \<le> qTail q")
    case True
    then have "unat (getItemCount q) = j mod ?n - i mod ?n"
      by (simp add: getItemCount_def unat_sub h t)
    moreover have "i mod ?n \<le> j mod ?n" using True by (simp add: word_le_nat_alt h t)
    ultimately show ?thesis using jm d hn by (simp split: if_splits)
  next
    case False
    have "qHead q \<le> qSize q" using hn h by (simp add: word_le_nat_alt)
    then have s: "unat (qSize q - qHead q) = ?n - i mod ?n" by (simp add: unat_sub h)
    have lt: "j mod ?n < i mod ?n" using False by (simp add: word_le_nat_alt h t)
    have "unat (getItemCount q) = (?n - i mod ?n + j mod ?n) mod 2 ^ 16"
      using False by (simp add: getItemCount_def unat_word_ariths s t)
    also have "\<dots> = ?n - i mod ?n + j mod ?n" using lt n hn by (intro mod_less) linarith
    finally show ?thesis using jm d hn lt by (simp split: if_splits)
  qed
qed

section \<open>Fetching from a submission ring\<close>

lemma SQueue_getData_pos:
  assumes "0 < qSize q" "qHead q = ring_pos (qSize q) i" "qTail q = ring_pos (qSize q) j"
    and "i < j" "j < i + unat (qSize q)" "qBase q = Some b"
  shows "SQueue_getData q =
    Inr (Some \<lparr>sdBase = b, sdOffset = ucast (qHead q) * qStride q\<rparr>,
         q\<lparr>qHead := ring_pos (qSize q) (Suc i)\<rparr>)"
proof -
  have "qHead q \<noteq> qTail q" using assms mod_eq_window [of i "unat (qSize q)" j] by (auto simp: ring_pos_eq_iff)
  then show ?thesis using assms by (simp add: SQueue_getData_def)
qed

section \<open>The completion ring and its host\<close>

definition phaseTag :: "cq_entry \<Rightarrow> bool" where
  "phaseTag e = bit (cqStatus e) 0"

lemma phaseTag_withPhase [simp]: "phaseTag (withPhase ph e) = ph"
  by (simp add: phaseTag_def withPhase_def bit_simps)

text \<open>
  The controller's ring, the slots in host memory by their offset, and the host: the
  position it reads next, the phase it expects there, and what it has read. The posted
  entries and the number of released slots are recorded for the specification.
\<close>

record cq_sys =
  syQueue :: cqueue
  syMem :: "u64 \<Rightarrow> cq_entry"
  syHostHead :: u16
  syHostPhase :: bool
  syPosted :: "cq_entry list"
  syConsumed :: "cq_entry list"
  syReleased :: nat

definition slotOffset :: "cqueue \<Rightarrow> u16 \<Rightarrow> u64" where
  "slotOffset q i = ucast i * qStride q"

definition hostSees :: "cq_sys \<Rightarrow> bool" where
  "hostSees s = (phaseTag (syMem s (slotOffset (syQueue s) (syHostHead s))) = syHostPhase s)"

text \<open>
  The controller posts an entry; the host takes the entry at its position when the tag has
  the expected phase, which changes at the end of the ring; the host rings the doorbell
  with its position.
\<close>

inductive cq_step :: "cq_sys \<Rightarrow> cq_sys \<Rightarrow> bool" where
  post: "CQueue_setData e (syQueue s) = Inr (w, e', q') \<Longrightarrow>
    cq_step s (s\<lparr>syQueue := q', syMem := (syMem s)(sdOffset w := e'),
                syPosted := syPosted s @ [e']\<rparr>)"
| consume: "hostSees s \<Longrightarrow>
    cq_step s (s\<lparr>syHostHead := ringNext (qSize (syQueue s)) (syHostHead s),
                syHostPhase := (if syHostHead s + 1 = qSize (syQueue s) then \<not> syHostPhase s
                                else syHostPhase s),
                syConsumed := syConsumed s @ [syMem s (slotOffset (syQueue s) (syHostHead s))]\<rparr>)"
| doorbell: "cq_step s (s\<lparr>syQueue := CQueue_setHead (syHostHead s) (syQueue s),
                syReleased := length (syConsumed s)\<rparr>)"

inductive_cases cq_stepE: "cq_step s s'"

definition cq_start :: "u16 \<Rightarrow> bool \<Rightarrow> u16 \<Rightarrow> u16 \<Rightarrow> u64 \<Rightarrow> u64 \<Rightarrow> (u64 \<Rightarrow> cq_entry) \<Rightarrow> cq_sys" where
  "cq_start iv ien qid len prp1 stride m =
     \<lparr>syQueue = setBase prp1 stride (CQueue_new iv ien qid len), syMem = m, syHostHead = 0,
      syHostPhase = True, syPosted = [], syConsumed = [], syReleased = 0\<rparr>"

text \<open>
  A slot holds the last entry that was posted there; one that was never written has a
  cleared tag, as the host leaves it.
\<close>

definition slotOf :: "cqueue \<Rightarrow> (u64 \<Rightarrow> cq_entry) \<Rightarrow> nat \<Rightarrow> cq_entry" where
  "slotOf q m k = m (slotOffset q (ring_pos (qSize q) k))"

definition mem_ok :: "cqueue \<Rightarrow> (u64 \<Rightarrow> cq_entry) \<Rightarrow> cq_entry list \<Rightarrow> bool" where
  "mem_ok q m ps =
     ((\<forall>k < length ps. length ps \<le> k + unat (qSize q) \<longrightarrow> slotOf q m k = ps ! k) \<and>
      (\<forall>k < unat (qSize q). length ps \<le> k \<longrightarrow> \<not> phaseTag (slotOf q m k)))"

definition cq_inv :: "cq_sys \<Rightarrow> bool" where
  "cq_inv s = (let q = syQueue s; n = unat (qSize q); P = length (syPosted s);
       C = length (syConsumed s); R = syReleased s in
     0 < n \<and> qBase q \<noteq> None \<and> 16 \<le> qStride q \<and> qStride q \<le> 2 ^ 32 \<and>
     R \<le> C \<and> C \<le> P \<and> P < R + n \<and>
     qTail q = ring_pos (qSize q) P \<and> qHead q = ring_pos (qSize q) R \<and>
     syHostHead s = ring_pos (qSize q) C \<and>
     cqPhase q = even (P div n) \<and> syHostPhase s = even (C div n) \<and>
     syConsumed s = take C (syPosted s) \<and>
     (\<forall>k < P. phaseTag (syPosted s ! k) = even (k div n)) \<and>
     mem_ok q (syMem s) (syPosted s))"

lemma unat_slotOffset:
  assumes "qStride q \<le> 2 ^ 32"
  shows "unat (slotOffset q i) = unat i * unat (qStride q)"
proof -
  have i: "unat i < 2 ^ 16" using unsigned_less [where ?'a = nat, of i] by simp
  then have u: "unat (ucast i :: u64) = unat i" by (simp add: unsigned_ucast_eq take_bit_nat_eq_self)
  note i moreover have "unat (qStride q) \<le> 2 ^ 32" using assms by (simp add: word_le_nat_alt)
  ultimately have "unat i * unat (qStride q) \<le> 2 ^ 16 * 2 ^ 32" by (intro mult_mono) simp_all
  also have "\<dots> < 2 ^ 64" by simp
  finally show ?thesis by (simp add: slotOffset_def unat_word_ariths u)
qed

lemma slotOffset_inj:
  assumes "16 \<le> qStride q" "qStride q \<le> 2 ^ 32" "slotOffset q i = slotOffset q j" shows "i = j"
proof -
  from assms(3) have "unat i * unat (qStride q) = unat j * unat (qStride q)"
    using assms(2) by (metis unat_slotOffset)
  moreover have "0 < unat (qStride q)" using assms(1) by (simp add: word_le_nat_alt)
  ultimately show ?thesis by (simp add: word_unat_eq_iff)
qed

lemma cq_inv_start:
  assumes "0 < len" "16 \<le> stride" "stride \<le> 2 ^ 32"
    and "\<And>i. i < len \<Longrightarrow> \<not> phaseTag (m (ucast i * stride))"
  shows "cq_inv (cq_start iv ien qid len prp1 stride m)"
proof -
  have "\<not> phaseTag (m (ucast (ring_pos len k) * stride))" for k
    using assms(1) mod_unat_less by (intro assms(4)) (simp add: word_less_nat_alt)
  then show ?thesis using assms
    by (simp add: cq_inv_def mem_ok_def slotOf_def Let_def cq_start_def setBase_def CQueue_new_def slotOffset_def word_less_nat_alt)
qed

text \<open>What posting does, in terms of the counters.\<close>

lemma setData_pos:
  assumes "0 < qSize q" "qTail q = ring_pos (qSize q) P" "qHead q = ring_pos (qSize q) R"
    and "R \<le> P" "P < R + unat (qSize q)" "qBase q = Some b" "cqPhase q = even (P div unat (qSize q))"
  shows "CQueue_setData e q =
    (if Suc P = R + unat (qSize q) then Inl (Panic ''Completion queue overflow'')
     else Inr (\<lparr>sdBase = b, sdOffset = slotOffset q (ring_pos (qSize q) P)\<rparr>, withPhase (cqPhase q) e,
               q\<lparr>qTail := ring_pos (qSize q) (Suc P), cqPhase := even (Suc P div unat (qSize q))\<rparr>))"
proof -
  let ?n = "unat (qSize q)"
  have n: "0 < ?n" using assms(1) by (simp add: word_less_nat_alt)
  have tail: "(if qTail q + 1 = qSize q then 0 else qTail q + 1) = ring_pos (qSize q) (Suc P)"
    using ringNext_pos [OF assms(1), of P] unfolding ringNext_def assms(2) .
  have wrap: "qTail q + 1 = qSize q \<longleftrightarrow> Suc P mod ?n = 0" unfolding assms(2) by (rule ring_wrap [OF assms(1)])
  have phase: "(if qTail q + 1 = qSize q then \<not> cqPhase q else cqPhase q) = even (Suc P div ?n)"
    by (simp add: wrap assms(7) div_Suc)
  have full: "ring_pos (qSize q) R = ring_pos (qSize q) (Suc P) \<longleftrightarrow> Suc P = R + ?n"
  proof
    assume "ring_pos (qSize q) R = ring_pos (qSize q) (Suc P)"
    then have "R mod ?n = Suc P mod ?n" using assms(1) by (simp add: ring_pos_eq_iff)
    then show "Suc P = R + ?n" using mod_eq_window [of R ?n "Suc P"] assms(4,5) by linarith
  qed (use assms(1) in \<open>simp add: ring_pos_eq_iff\<close>)
  show ?thesis
    using assms(3,6) full by (simp add: CQueue_setData_def Let_def tail phase assms(2) [symmetric] slotOffset_def)
qed

text \<open>Writing the next slot keeps the slots of the last lap.\<close>

lemma slot_eq_iff:
  assumes "0 < qSize q" "16 \<le> qStride q" "qStride q \<le> 2 ^ 32"
  shows "slotOffset q (ring_pos (qSize q) k) = slotOffset q (ring_pos (qSize q) j) \<longleftrightarrow>
    k mod unat (qSize q) = j mod unat (qSize q)"
  using slotOffset_inj [OF assms(2,3)] ring_pos_eq_iff [OF assms(1)] by metis

lemma mem_ok_post:
  assumes "0 < qSize q" "16 \<le> qStride q" "qStride q \<le> 2 ^ 32" "mem_ok q m ps"
  shows "mem_ok q (m(slotOffset q (ring_pos (qSize q) (length ps)) := e)) (ps @ [e])"
proof -
  let ?n = "unat (qSize q)" and ?P = "length ps"
  let ?m = "m(slotOffset q (ring_pos (qSize q) ?P) := e)"
  have slot: "slotOf q ?m k = (if k mod ?n = ?P mod ?n then e else slotOf q m k)" for k
    using slot_eq_iff [OF assms(1-3), of k ?P] by (simp add: slotOf_def)
  have "slotOf q ?m k = (ps @ [e]) ! k" if k: "k < Suc ?P" "Suc ?P \<le> k + ?n" for k
  proof (cases "k = ?P")
    case False
    then have "k mod ?n \<noteq> ?P mod ?n" using mod_eq_window [of k ?n ?P] k by auto
    then show ?thesis using assms(4) k False by (simp add: slot mem_ok_def nth_append)
  qed (simp add: slot)
  moreover have "\<not> phaseTag (slotOf q ?m k)" if "k < ?n" "Suc ?P \<le> k" for k
    using assms(4) that by (simp add: slot mem_ok_def)
  ultimately show ?thesis by (simp add: mem_ok_def)
qed

lemma cq_inv_post:
  assumes "cq_inv s" "CQueue_setData e (syQueue s) = Inr (w, e', q')"
  shows "cq_inv (s\<lparr>syQueue := q', syMem := (syMem s)(sdOffset w := e'), syPosted := syPosted s @ [e']\<rparr>)"
proof -
  define q n P R where "q = syQueue s" and "n = unat (qSize q)" and "P = length (syPosted s)"
    and "R = syReleased s"
  have I: "0 < n" "16 \<le> qStride q" "qStride q \<le> 2 ^ 32" "R \<le> length (syConsumed s)"
      "length (syConsumed s) \<le> P" "P < R + n" "qTail q = ring_pos (qSize q) P" "qHead q = ring_pos (qSize q) R"
      "cqPhase q = even (P div n)" "syConsumed s = take (length (syConsumed s)) (syPosted s)"
      "\<forall>k < P. phaseTag (syPosted s ! k) = even (k div n)" "mem_ok q (syMem s) (syPosted s)"
    using assms(1) by (simp_all add: cq_inv_def Let_def q_def n_def P_def R_def)
  obtain b where b: "qBase q = Some b" using assms(1) by (auto simp: cq_inv_def Let_def q_def)
  have pos: "0 < qSize q" using I(1) by (simp add: n_def word_less_nat_alt)
  have RP: "R \<le> P" using I(4,5) by simp
  from setData_pos [OF pos I(7,8) RP I(6) [unfolded n_def] b I(9) [unfolded n_def], of e]
  have nf: "Suc P < R + n"
    and w: "sdOffset w = slotOffset q (ring_pos (qSize q) P)" "e' = withPhase (cqPhase q) e"
    and q': "q' = q\<lparr>qTail := ring_pos (qSize q) (Suc P), cqPhase := even (Suc P div n)\<rparr>"
    using assms(2) I(6) by (auto simp: n_def q_def [symmetric] split: if_splits)
  have "mem_ok q ((syMem s)(sdOffset w := e')) (syPosted s @ [e'])"
    unfolding w(1) P_def by (rule mem_ok_post [OF pos I(2,3,12)])
  then have M: "mem_ok q' ((syMem s)(sdOffset w := e')) (syPosted s @ [e'])"
    by (simp add: mem_ok_def slotOf_def slotOffset_def q')
  have "phaseTag ((syPosted s @ [e']) ! k) = even (k div n)" if "k < Suc P" for k
    using that I(9,11) w(2) by (cases "k = P") (simp_all add: nth_append P_def)
  then show ?thesis
    using assms(1) I b nf M by (simp add: cq_inv_def Let_def q_def [symmetric] q' n_def [symmetric]
        P_def [symmetric] R_def [symmetric])
qed

text \<open>The host sees an entry exactly when one is waiting, and it is the oldest one it has not read.\<close>

lemma hostSees_iff:
  assumes "cq_inv s"
  shows "hostSees s \<longleftrightarrow> length (syConsumed s) < length (syPosted s)"
    and "hostSees s \<Longrightarrow> syMem s (slotOffset (syQueue s) (syHostHead s)) = syPosted s ! length (syConsumed s)"
proof -
  define q n P C where "q = syQueue s" and "n = unat (qSize q)" and "P = length (syPosted s)"
    and "C = length (syConsumed s)"
  have I: "0 < n" "C \<le> P" "P < C + n" "syHostHead s = ring_pos (qSize q) C"
      "syHostPhase s = even (C div n)" "\<forall>k < P. phaseTag (syPosted s ! k) = even (k div n)"
      "mem_ok q (syMem s) (syPosted s)"
    using assms by (simp_all add: cq_inv_def Let_def q_def n_def P_def C_def)
  have pos: "0 < qSize q" using I(1) by (simp add: n_def word_less_nat_alt)
  have m: "syMem s (slotOffset (syQueue s) (syHostHead s)) = slotOf q (syMem s) C"
    by (simp add: slotOf_def I(4) q_def)
  have old: "slotOf q (syMem s) k = syPosted s ! k" if "k < P" "P \<le> k + n" for k
    using I(7) that by (simp add: mem_ok_def P_def n_def)
  have lt: "slotOf q (syMem s) C = syPosted s ! C" "hostSees s" if "C < P"
  proof -
    show e: "slotOf q (syMem s) C = syPosted s ! C" using old [of C] that I(3) by simp
    show "hostSees s" unfolding hostSees_def m e using I(5,6) that by simp
  qed
  have "\<not> hostSees s" if "C = P"
  proof (cases "P < n")
    case True
    then have "\<not> phaseTag (slotOf q (syMem s) C)" using I(7) that by (simp add: mem_ok_def P_def n_def)
    then show ?thesis unfolding hostSees_def m using True that I(5) by simp
  next
    case False
    then have eq: "ring_pos (qSize q) P = ring_pos (qSize q) (P - n)"
      using pos by (simp add: ring_pos_eq_iff n_def le_mod_geq)
    then have "slotOf q (syMem s) C = syPosted s ! (P - n)"
      using old [of "P - n"] False I(1) that by (simp add: slotOf_def)
    moreover have "P div n = Suc ((P - n) div n)" using False I(1) by (simp add: le_div_geq)
    ultimately show ?thesis unfolding hostSees_def m using I(1,5,6) False that by simp
  qed
  then show "hostSees s \<longleftrightarrow> length (syConsumed s) < length (syPosted s)"
    using lt(2) I(2) unfolding P_def C_def by fastforce
  then show "hostSees s \<Longrightarrow> syMem s (slotOffset (syQueue s) (syHostHead s)) = syPosted s ! length (syConsumed s)"
    using lt(1) by (simp add: m P_def C_def)
qed

lemma cq_inv_consume:
  assumes "cq_inv s" "hostSees s"
  shows "cq_inv (s\<lparr>syHostHead := ringNext (qSize (syQueue s)) (syHostHead s),
      syHostPhase := (if syHostHead s + 1 = qSize (syQueue s) then \<not> syHostPhase s else syHostPhase s),
      syConsumed := syConsumed s @ [syMem s (slotOffset (syQueue s) (syHostHead s))]\<rparr>)"
proof -
  let ?C = "length (syConsumed s)" and ?q = "syQueue s"
  have C: "?C < length (syPosted s)" and e: "syMem s (slotOffset ?q (syHostHead s)) = syPosted s ! ?C"
    using hostSees_iff [OF assms(1)] assms(2) by simp_all
  have pos: "0 < qSize ?q" and hd: "syHostHead s = ring_pos (qSize ?q) ?C"
    and ph: "syHostPhase s = even (?C div unat (qSize ?q))" and tk: "syConsumed s = take ?C (syPosted s)"
    using assms(1) by (simp_all add: cq_inv_def Let_def word_less_nat_alt)
  have "syConsumed s @ [syPosted s ! ?C] = take (Suc ?C) (syPosted s)"
    using C by (simp add: take_Suc_conv_app_nth tk [symmetric])
  moreover have "(if syHostHead s + 1 = qSize ?q then \<not> syHostPhase s else syHostPhase s)
      = even (Suc ?C div unat (qSize ?q))"
    unfolding hd ring_wrap [OF pos] ph by (simp add: div_Suc)
  moreover have "ringNext (qSize ?q) (syHostHead s) = ring_pos (qSize ?q) (Suc ?C)"
    unfolding hd by (rule ringNext_pos [OF pos])
  ultimately show ?thesis
    using assms(1) C unfolding e by (simp add: cq_inv_def Let_def)
qed

lemma cq_inv_doorbell:
  assumes "cq_inv s"
  shows "cq_inv (s\<lparr>syQueue := CQueue_setHead (syHostHead s) (syQueue s), syReleased := length (syConsumed s)\<rparr>)"
  using assms by (simp add: cq_inv_def Let_def CQueue_setHead_def mem_ok_def slotOf_def slotOffset_def)

lemma cq_inv_step: "cq_step s s' \<Longrightarrow> cq_inv s \<Longrightarrow> cq_inv s'"
  by (induction rule: cq_step.induct) (blast intro: cq_inv_post cq_inv_consume cq_inv_doorbell)+

lemma cq_inv_reachable: "cq_step\<^sup>*\<^sup>* s s' \<Longrightarrow> cq_inv s \<Longrightarrow> cq_inv s'"
  by (induction rule: rtranclp_induct) (auto intro: cq_inv_step)

text \<open>Posting fails exactly when every slot but one holds an entry the host has not released.\<close>

lemma setData_overflow_iff:
  assumes "cq_inv s"
  shows "CQueue_setData e (syQueue s) = Inl (Panic ''Completion queue overflow'') \<longleftrightarrow>
      length (syPosted s) - syReleased s = unat (qSize (syQueue s)) - 1"
    and "length (syPosted s) - syReleased s \<noteq> unat (qSize (syQueue s)) - 1 \<Longrightarrow> \<exists>x. CQueue_setData e (syQueue s) = Inr x"
proof -
  let ?q = "syQueue s" and ?P = "length (syPosted s)" and ?R = "syReleased s"
  have I: "0 < qSize ?q" "qTail ?q = ring_pos (qSize ?q) ?P" "qHead ?q = ring_pos (qSize ?q) ?R"
      "?R \<le> ?P" "?P < ?R + unat (qSize ?q)" "cqPhase ?q = even (?P div unat (qSize ?q))"
    using assms by (simp_all add: cq_inv_def Let_def word_less_nat_alt)
  obtain b where b: "qBase ?q = Some b" using assms by (auto simp: cq_inv_def Let_def)
  have "0 < unat (qSize ?q)" using I(1) by (simp add: word_less_nat_alt)
  then have "Suc ?P = ?R + unat (qSize ?q) \<longleftrightarrow> ?P - ?R = unat (qSize ?q) - 1" using I(4,5) by linarith
  then show "CQueue_setData e ?q = Inl (Panic ''Completion queue overflow'') \<longleftrightarrow> ?P - ?R = unat (qSize ?q) - 1"
    and "?P - ?R \<noteq> unat (qSize ?q) - 1 \<Longrightarrow> \<exists>x. CQueue_setData e ?q = Inr x"
    using setData_pos [OF I(1-5) b I(6), of e] by simp_all
qed

end
