(* ===== verification/NvmeCollect.thy ===== *)
theory NvmeCollect
  imports NvmeWork NvmeQueue_Inv
begin

text \<open>
  Collecting commands from the submission queues: it empties the queues the arbitration
  considers and fetches each waiting entry once and in order; a tail outside the ring keeps it
  from ending.
\<close>

section \<open>A submission queue being emptied\<close>

definition sq_ok :: "squeue \<Rightarrow> bool" where
  "sq_ok q \<longleftrightarrow> qHead q < qSize q \<and> qTail q < qSize q \<and> qBase q \<noteq> None"

definition items :: "squeue \<Rightarrow> nat" where
  "items q = unat (getItemCount q)"

text \<open>The queue after \<open>n\<close> fetches, and the fetch of the entry number \<open>k\<close>.\<close>

definition adv :: "nat \<Rightarrow> squeue \<Rightarrow> squeue" where
  "adv n q = q\<lparr>qHead := ring_pos (qSize q) (unat (qHead q) + n)\<rparr>"

definition fetchAt :: "nat \<Rightarrow> squeue \<Rightarrow> nat \<Rightarrow> fetch" where
  "fetchAt i q k = (let h = ring_pos (qSize q) (unat (qHead q) + k) in
     \<lparr>feQueue = i, feOldHead = h, feSlot = \<lparr>sdBase = the (qBase q), sdOffset = ucast h * qStride q\<rparr>\<rparr>)"

lemma ring_pos_unat: "x < len \<Longrightarrow> ring_pos len (unat x) = x"
  by (simp add: ring_pos_def word_less_nat_alt)

lemma ring_pos_add_size: "0 < len \<Longrightarrow> ring_pos len (k + unat len) = ring_pos len k"
  by (simp add: ring_pos_eq_iff)

lemma ring_pos_less: "0 < len \<Longrightarrow> ring_pos len k < len"
  using mod_unat_less [of len k] by (simp add: word_less_nat_alt)

lemma ring_pos_add_mod: "0 < len \<Longrightarrow> ring_pos len (a mod unat len + b) = ring_pos len (a + b)"
  by (simp add: ring_pos_eq_iff mod_add_left_eq)

lemma sq_ok_tail:
  assumes "sq_ok q"
  shows "0 < qSize q" "qHead q = ring_pos (qSize q) (unat (qHead q))"
    "qTail q = ring_pos (qSize q) (unat (qHead q) + items q)" "items q < unat (qSize q)"
proof -
  show pos: "0 < qSize q" using assms by (auto simp: sq_ok_def word_less_nat_alt)
  show h: "qHead q = ring_pos (qSize q) (unat (qHead q))" using assms by (simp add: sq_ok_def ring_pos_unat)
  define j where "j = (if qHead q \<le> qTail q then unat (qTail q) else unat (qTail q) + unat (qSize q))"
  have t: "qTail q = ring_pos (qSize q) j"
    using assms pos by (simp add: j_def sq_ok_def ring_pos_unat ring_pos_add_size)
  have j: "unat (qHead q) \<le> j" "j < unat (qHead q) + unat (qSize q)"
    using assms by (auto simp: j_def sq_ok_def word_less_nat_alt word_le_nat_alt)
  from getItemCount_pos [OF pos h t j] have i: "items q = j - unat (qHead q)" by (simp add: items_def)
  then show "qTail q = ring_pos (qSize q) (unat (qHead q) + items q)" "items q < unat (qSize q)"
    using t j by simp_all
qed

lemma adv_simps [simp]:
  "qSize (adv n q) = qSize q" "qTail (adv n q) = qTail q" "qBase (adv n q) = qBase q" "qStride (adv n q) = qStride q"
  "qID (adv n q) = qID q" "sqCQID (adv n q) = sqCQID q" "sqPriority (adv n q) = sqPriority q"
  "qHead (adv n q) = ring_pos (qSize q) (unat (qHead q) + n)"
  by (simp_all add: adv_def)

lemma adv_0 [simp]: "sq_ok q \<Longrightarrow> adv 0 q = q"
  using sq_ok_tail(2) [of q] by (simp add: adv_def)

lemma adv_adv: "0 < qSize q \<Longrightarrow> adv n (adv m q) = adv (m + n) q"
  by (simp add: adv_def ring_pos_add_mod add.assoc)

lemma sq_ok_adv [simp]: "sq_ok q \<Longrightarrow> sq_ok (adv n q)"
  using sq_ok_tail(1) [of q] by (simp add: sq_ok_def ring_pos_less)

lemma items_adv: "sq_ok q \<Longrightarrow> n \<le> items q \<Longrightarrow> items (adv n q) = items q - n"
  using getItemCount_pos [of "adv n q" "unat (qHead q) + n" "unat (qHead q) + items q"] sq_ok_tail [of q]
  by (simp add: items_def)

lemma fetchAt_adv: "0 < qSize q \<Longrightarrow> fetchAt i (adv m q) k = fetchAt i q (m + k)"
  by (simp add: fetchAt_def Let_def ring_pos_add_mod add.assoc)

lemma getData_adv:
  assumes "sq_ok q" "0 < items q"
  shows "SQueue_getData q = Inr (Some (feSlot (fetchAt i q 0)), adv 1 q)"
proof -
  note T = sq_ok_tail [OF assms(1)]
  obtain b where b: "qBase q = Some b" using assms(1) by (auto simp: sq_ok_def)
  from SQueue_getData_pos [OF T(1-3) _ _ b] assms(2) T(4)
  show ?thesis using T(2) by (simp add: fetchAt_def Let_def adv_def b)
qed

section \<open>One step of collecting\<close>

text \<open>The queues that a part of the arbitration considers are given by index and priority.\<close>

type_synonym eligible = "nat \<Rightarrow> u8 \<Rightarrow> bool"

definition tab_ok :: "collect \<Rightarrow> bool" where
  "tab_ok st \<longleftrightarrow> (\<forall>q. Some q \<in> set (fst st) \<longrightarrow> sq_ok q)"

definition fetched :: "nat \<Rightarrow> collect \<Rightarrow> fetch list" where
  "fetched i st = filter (\<lambda>f. feQueue f = i) (snd st)"

definition loadAt :: "eligible \<Rightarrow> collect \<Rightarrow> nat \<Rightarrow> nat" where
  "loadAt E st i = (case fst st ! i of None \<Rightarrow> 0 | Some q \<Rightarrow> if E i (sqPriority q) then items q else 0)"

definition load :: "eligible \<Rightarrow> collect \<Rightarrow> nat" where
  "load E st = (\<Sum>i<length (fst st). loadAt E st i)"

text \<open>Some first entries of the considered queues have been fetched, in order; nothing else happened.\<close>

definition collectedAt :: "eligible \<Rightarrow> nat \<Rightarrow> collect \<Rightarrow> collect \<Rightarrow> bool" where
  "collectedAt E i st st' = (case fst st ! i of
     None \<Rightarrow> fst st' ! i = None \<and> fetched i st' = fetched i st
   | Some q \<Rightarrow> \<exists>n. n \<le> items q \<and> (E i (sqPriority q) \<or> n = 0) \<and> fst st' ! i = Some (adv n q) \<and>
       fetched i st' = fetched i st @ map (fetchAt i q) [0..<n])"

definition collected :: "eligible \<Rightarrow> collect \<Rightarrow> collect \<Rightarrow> bool" where
  "collected E st st' \<longleftrightarrow> length (fst st') = length (fst st) \<and> (\<forall>i<length (fst st). collectedAt E i st st')"

lemma tab_okD: "tab_ok st \<Longrightarrow> i < length (fst st) \<Longrightarrow> fst st ! i = Some q \<Longrightarrow> sq_ok q"
  unfolding tab_ok_def by (metis nth_mem)

lemma collected_refl: "tab_ok st \<Longrightarrow> collected E st st"
  unfolding collected_def collectedAt_def
  by (auto split: option.splits intro!: exI [of _ 0] dest: tab_okD)

lemma collected_trans:
  assumes "tab_ok st" "collected E st st'" "collected E st' st''"
  shows "collected E st st''"
proof -
  have "collectedAt E i st st''" if i: "i < length (fst st)" for i
  proof (cases "fst st ! i")
    case None
    then show ?thesis using assms(2,3) i by (force simp: collected_def collectedAt_def)
  next
    case (Some q)
    have q: "sq_ok q" using tab_okD [OF assms(1) i Some] .
    have "collectedAt E i st st'" using assms(2) i by (simp add: collected_def)
    then obtain n where n: "n \<le> items q" "E i (sqPriority q) \<or> n = 0" "fst st' ! i = Some (adv n q)"
      "fetched i st' = fetched i st @ map (fetchAt i q) [0..<n]"
      using Some by (auto simp: collectedAt_def)
    have "collectedAt E i st' st''" using assms(2,3) i by (simp add: collected_def)
    then obtain m where m: "m \<le> items q - n" "E i (sqPriority q) \<or> m = 0" "fst st'' ! i = Some (adv m (adv n q))"
      "fetched i st'' = fetched i st' @ map (fetchAt i (adv n q)) [0..<m]"
      using n q by (auto simp: collectedAt_def items_adv)
    have pos: "0 < qSize q" by (rule sq_ok_tail [OF q])
    have "map (fetchAt i (adv n q)) [0..<m] = map (fetchAt i q) [n..<n + m]"
      using pos by (simp add: fetchAt_adv map_add_upt [symmetric, of n] add.commute comp_def del: map_add_upt)
    then show ?thesis using n m Some pos
      by (auto simp: collectedAt_def adv_adv upt_add_eq_append [of 0 n m] intro!: exI [of _ "n + m"])
  qed
  then show ?thesis using assms(2,3) by (simp add: collected_def)
qed

lemma checkQueue_step:
  assumes "tab_ok st" "i < length (fst st)" "fst st ! i = Some q" "E i (sqPriority q)"
  shows "items q = 0 \<Longrightarrow> checkQueue i st = Inr (False, st)"
    and "items q \<noteq> 0 \<Longrightarrow> \<exists>st'. checkQueue i st = Inr (True, st') \<and> tab_ok st' \<and> collected E st st' \<and>
      Suc (load E st') = load E st"
proof -
  obtain qs out where st: "st = (qs, out)" by (cases st)
  have q: "sq_ok q" by (rule tab_okD [OF assms(1-3)])
  have cnt: "0 < getItemCount q \<longleftrightarrow> items q \<noteq> 0" by (simp add: items_def word_less_nat_alt)
  show "items q = 0 \<Longrightarrow> checkQueue i st = Inr (False, st)"
    using assms(2,3) cnt by (simp add: st checkQueue_def queueAt_def)
  assume ne: "items q \<noteq> 0"
  define st' where "st' = (qs[i := Some (adv 1 q)], out @ [fetchAt i q 0])"
  have "\<lparr>feQueue = i, feOldHead = qHead q, feSlot = feSlot (fetchAt i q 0)\<rparr> = fetchAt i q 0"
    using sq_ok_tail(2) [OF q] by (simp add: fetchAt_def Let_def)
  then have "checkQueue i st = Inr (True, st')"
    using assms(2,3) cnt ne getData_adv [OF q, of i] by (simp add: st st'_def checkQueue_def queueAt_def)
  moreover have "tab_ok st'"
    using assms(1) q set_update_subset_insert [of qs i "Some (adv 1 q)"] by (auto simp: tab_ok_def st st'_def)
  moreover have "collected E st st'"
    unfolding collected_def
  proof (intro conjI allI impI)
    fix j assume j: "j < length (fst st)"
    show "collectedAt E j st st'"
    proof (cases "j = i")
      case True
      then show ?thesis using assms(2-4) ne
        by (auto simp: collectedAt_def st st'_def fetched_def fetchAt_def Let_def intro!: exI [of _ 1])
    next
      case False
      then have "fetched j st' = fetched j st" by (simp add: fetched_def st st'_def fetchAt_def Let_def)
      then show ?thesis using False j assms(1) tab_okD [OF assms(1) j]
        by (auto simp: collectedAt_def st st'_def split: option.splits intro!: exI [of _ 0])
    qed
  qed (simp add: st st'_def)
  moreover have "Suc (load E st') = load E st"
  proof -
    have i: "i \<in> {..<length qs}" using assms(2) by (simp add: st)
    have oth: "(\<Sum>j\<in>{..<length qs} - {i}. loadAt E st' j) = (\<Sum>j\<in>{..<length qs} - {i}. loadAt E st j)"
      by (rule sum.cong) (auto simp: loadAt_def st st'_def)
    have "loadAt E st' i = items q - 1" "loadAt E st i = items q"
      using assms(2-4) q ne by (simp_all add: loadAt_def st st'_def items_adv)
    then show ?thesis
      using ne oth sum.remove [OF _ i, of "loadAt E st'"] sum.remove [OF _ i, of "loadAt E st"]
      by (simp add: load_def st st'_def)
  qed
  ultimately show "\<exists>st'. checkQueue i st = Inr (True, st') \<and> tab_ok st' \<and> collected E st st' \<and> Suc (load E st') = load E st"
    by blast
qed

text \<open>
  What a round of collecting guarantees: \<open>c\<close> entries of the considered queues were fetched, and
  when there was none, the queues it went through have nothing to fetch.
\<close>

definition roundOk :: "eligible \<Rightarrow> eligible \<Rightarrow> nat list \<Rightarrow> collect \<Rightarrow> nat \<Rightarrow> collect \<Rightarrow> bool" where
  "roundOk E F ks st c st' \<longleftrightarrow> tab_ok st' \<and> collected E st st' \<and> load E st' + c = load E st \<and> c \<le> length ks \<and>
     (c = 0 \<longrightarrow> st' = st \<and> (\<forall>i\<in>set ks. loadAt F st i = 0))"

lemma roundOk_count: "roundOk E F ks st c st' \<Longrightarrow> c \<le> length ks"
  by (simp add: roundOk_def)

lemma roundOk_Nil: "tab_ok st \<Longrightarrow> roundOk E F [] st 0 st"
  by (simp add: roundOk_def collected_refl)

lemma roundOk_skip: "roundOk E F ks st c st' \<Longrightarrow> loadAt F st i = 0 \<Longrightarrow> roundOk E F (i # ks) st c st'"
  by (auto simp: roundOk_def)

lemma roundOk_fetch:
  assumes "tab_ok st" "collected E st st1" "Suc (load E st1) = load E st" "roundOk E F ks st1 c st'"
  shows "roundOk E F (i # ks) st (Suc c) st'"
  using assms collected_trans [OF assms(1,2)] by (auto simp: roundOk_def)

lemma roundOk_one:
  assumes "tab_ok st'" "collected E st st'" "Suc (load E st') = load E st"
  shows "roundOk E F (i # ks) st 1 st'"
  using assms by (simp add: roundOk_def)

text \<open>The considered queue at an index, if there is one.\<close>

lemma eligible_cases:
  assumes "tab_ok st" "i < length (fst st)" "\<forall>q. P q \<longleftrightarrow> F i (sqPriority q)" "\<forall>p. F i p \<longrightarrow> E i p"
  obtains (null) "fst st ! i = None" "loadAt F st i = 0"
  | (other) q where "fst st ! i = Some q" "\<not> P q" "loadAt F st i = 0"
  | (empty) q where "fst st ! i = Some q" "P q" "loadAt F st i = 0" "checkQueue i st = Inr (False, st)"
  | (item) q st1 where "fst st ! i = Some q" "P q" "checkQueue i st = Inr (True, st1)" "tab_ok st1"
      "collected E st st1" "Suc (load E st1) = load E st"
proof (cases "fst st ! i")
  case None
  then show ?thesis using null by (simp add: loadAt_def)
next
  case (Some q)
  show ?thesis
  proof (cases "P q")
    case True
    then have e: "E i (sqPriority q)" "F i (sqPriority q)" using assms(3,4) Some by simp_all
    show ?thesis using checkQueue_step [where E = E, OF assms(1,2) Some e(1)] Some True empty item e
      by (cases "items q = 0") (auto simp: loadAt_def)
  qed (use other Some assms(3) in \<open>auto simp: loadAt_def\<close>)
qed

lemma collected_length: "collected E st st' \<Longrightarrow> length (fst st') = length (fst st)"
  by (simp add: collected_def)

lemma rrPass_ok:
  assumes "tab_ok st" "\<forall>i\<in>set ks. i < length (fst st)" "\<And>i q. i \<in> set ks \<Longrightarrow> P q \<longleftrightarrow> F i (sqPriority q)"
    and sub: "\<And>i p. F i p \<Longrightarrow> E i p"
  shows "\<exists>c st'. rrPass P ks u st = Inr (u + of_nat c, st') \<and> roundOk E F ks st c st'"
  using assms(1-3)
proof (induction ks arbitrary: u st)
  case Nil
  then show ?case by (auto intro!: exI [of _ 0] roundOk_Nil)
next
  case (Cons i ks)
  have i: "i < length (fst st)" and elig: "\<forall>q. P q \<longleftrightarrow> F i (sqPriority q)" using Cons.prems by auto
  have IH: "\<exists>c st'. rrPass P ks u st = Inr (u + of_nat c, st') \<and> roundOk E F ks st c st'"
    if "tab_ok st" "\<forall>i\<in>set ks. i < length (fst st)" for u st
    using Cons.IH [OF that] Cons.prems(3) by simp
  obtain c st' where r: "rrPass P ks u st = Inr (u + of_nat c, st')" "roundOk E F ks st c st'"
    using IH [of st u] Cons.prems(1,2) by auto
  note skip = roundOk_skip [OF r(2), of i]
  have at: "queueAt (fst st) i = Inr (fst st ! i)" using i by (simp add: queueAt_def)
  have "\<forall>p. F i p \<longrightarrow> E i p" using sub by blast
  with Cons.prems(1) i elig show ?case
  proof (cases rule: eligible_cases [where P = P and F = F and E = E])
    case (item q st1)
    obtain c st' where "rrPass P ks (u + 1) st1 = Inr (u + 1 + of_nat c, st')" "roundOk E F ks st1 c st'"
      using IH [of st1 "u + 1"] item(4) Cons.prems(2) collected_length [OF item(5)] by auto
    then show ?thesis using at item roundOk_fetch [OF Cons.prems(1) item(5,6)]
      by (intro exI [of _ "Suc c"] exI [of _ st']) (simp add: add.assoc)
  next
    case null
    then show ?thesis using at r(1) skip by auto
  next
    case (other q)
    then show ?thesis using at r(1) skip by auto
  next
    case (empty q)
    then show ?thesis using at r(1) skip by auto
  qed
qed

lemma weightedPass_ok:
  assumes "tab_ok st" "\<forall>i\<in>set ks. i < length (fst st)" "\<And>i p. i \<in> set ks \<Longrightarrow> p = pri \<longleftrightarrow> F i p"
    and sub: "\<And>i p. F i p \<Longrightarrow> E i p"
  shows "\<exists>c u' st'. weightedPass pri w ks u n st = Inr (u', n + of_nat c, st') \<and> roundOk E F ks st c st'"
  using assms(1-3)
proof (induction ks arbitrary: u n st)
  case Nil
  then show ?case by (auto intro!: exI [of _ 0] roundOk_Nil)
next
  case (Cons i ks)
  have i: "i < length (fst st)" and elig: "\<forall>q. sqPriority q = pri \<longleftrightarrow> F i (sqPriority q)" using Cons.prems by auto
  have IH: "\<exists>c u' st'. weightedPass pri w ks u n st = Inr (u', n + of_nat c, st') \<and> roundOk E F ks st c st'"
    if "tab_ok st" "\<forall>i\<in>set ks. i < length (fst st)" for u n st
    using Cons.IH [OF that] Cons.prems(3) by simp
  obtain c u' st' where r: "weightedPass pri w ks u n st = Inr (u', n + of_nat c, st')" "roundOk E F ks st c st'"
    using IH [of st u n] Cons.prems(1,2) by auto
  note skip = roundOk_skip [OF r(2), of i]
  have at: "queueAt (fst st) i = Inr (fst st ! i)" using i by (simp add: queueAt_def)
  have "\<forall>p. F i p \<longrightarrow> E i p" using sub by blast
  with Cons.prems(1) i elig show ?case
  proof (cases rule: eligible_cases [where P = "\<lambda>q. sqPriority q = pri" and F = F and E = E])
    case (item q st1)
    obtain c u' st' where "weightedPass pri w ks (u + 1) (n + 1) st1 = Inr (u', n + 1 + of_nat c, st')" "roundOk E F ks st1 c st'"
      using IH [of st1 "u + 1" "n + 1"] item(4) Cons.prems(2) collected_length [OF item(5)] by auto
    then have "weightedPass pri w ks (u + 1) (n + 1) st1 = Inr (u', n + of_nat (Suc c), st')"
      and "roundOk E F (i # ks) st (Suc c) st'"
      using roundOk_fetch [OF Cons.prems(1) item(5,6)] by (simp_all add: add.assoc)
    moreover have "roundOk E F (i # ks) st (Suc 0) st1" using roundOk_one [OF item(4-6)] by simp
    moreover have "weightedPass pri w (i # ks) u n st =
        (if u + 1 = w then Inr (0, n + of_nat (Suc 0), st1) else weightedPass pri w ks (u + 1) (n + 1) st1)"
      using at item(1-3) by simp
    ultimately show ?thesis by (cases "u + 1 = w") (metis (full_types))+
  next
    case null
    then show ?thesis using at r(1) skip by auto
  next
    case (other q)
    then show ?thesis using at r(1) skip by auto
  next
    case (empty q)
    then show ?thesis using at r(1) skip by auto
  qed
qed

lemma singlePass_ok:
  assumes "tab_ok st" "\<forall>i\<in>set ks. i < length (fst st)" "\<And>i p. i \<in> set ks \<Longrightarrow> p = pri \<longleftrightarrow> F i p"
    and sub: "\<And>i p. F i p \<Longrightarrow> E i p"
  shows "\<exists>c st'. singlePass pri ks n st = Inr (n + of_nat c, st') \<and> roundOk E F ks st c st'"
  using assms(1-3)
proof (induction ks)
  case Nil
  then show ?case by (auto intro!: exI [of _ 0] roundOk_Nil)
next
  case (Cons i ks)
  have i: "i < length (fst st)" and elig: "\<forall>q. sqPriority q = pri \<longleftrightarrow> F i (sqPriority q)" using Cons.prems by auto
  obtain c st' where r: "singlePass pri ks n st = Inr (n + of_nat c, st')" "roundOk E F ks st c st'"
    using Cons.IH [OF Cons.prems(1)] Cons.prems(2,3) by auto
  note skip = roundOk_skip [OF r(2), of i]
  have at: "queueAt (fst st) i = Inr (fst st ! i)" using i by (simp add: queueAt_def)
  have "\<forall>p. F i p \<longrightarrow> E i p" using sub by blast
  with Cons.prems(1) i elig show ?case
  proof (cases rule: eligible_cases [where P = "\<lambda>q. sqPriority q = pri" and F = F and E = E])
    case (item q st1)
    then show ?thesis using at roundOk_one [OF item(4-6)] by (intro exI [of _ 1] exI [of _ st1]) simp
  next
    case null
    then show ?thesis using at r(1) skip by auto
  next
    case (other q)
    then show ?thesis using at r(1) skip by auto
  next
    case (empty q)
    then show ?thesis using at r(1) skip by auto
  qed
qed

section \<open>The loops\<close>

text \<open>
  A round that is repeated while it fetches something: as long as it keeps the state in order and
  lowers the load, the loop ends, and nothing is left that the round considers.
\<close>

locale fetch_round =
  fixes rnd :: "'s \<Rightarrow> (bool \<times> 's) res" and ok :: "'s \<Rightarrow> bool" and rel :: "'s \<Rightarrow> 's \<Rightarrow> bool" and todo :: "'s \<Rightarrow> nat"
  assumes rel_refl: "ok s \<Longrightarrow> rel s s"
    and rel_trans: "ok s \<Longrightarrow> rel s s' \<Longrightarrow> rel s' s'' \<Longrightarrow> rel s s''"
    and round_law: "ok s \<Longrightarrow> \<exists>b s'. rnd s = Inr (b, s') \<and> ok s' \<and> rel s s' \<and> (if b then todo s' < todo s else todo s' = 0)"
begin

lemma loop_ends:
  "ok s \<Longrightarrow> \<exists>s'. whileFetched rnd s = Some (Inr s') \<and> ok s' \<and> rel s s' \<and> todo s' = 0"
proof (induction "todo s" arbitrary: s rule: less_induct)
  case less
  obtain b s' where r: "rnd s = Inr (b, s')" "ok s'" "rel s s'" "if b then todo s' < todo s else todo s' = 0"
    using round_law [OF less.prems] by blast
  show ?case
  proof (cases b)
    case True
    then obtain s'' where "whileFetched rnd s' = Some (Inr s'')" "ok s''" "rel s' s''" "todo s'' = 0"
      using less.hyps [of s'] r by auto
    then show ?thesis using r True rel_trans [OF less.prems r(3)] by (simp add: whileFetched.simps [of rnd s])
  next
    case False
    then show ?thesis using r by (simp add: whileFetched.simps [of rnd s])
  qed
qed

end

lemma load_zero: "load E st = 0 \<longleftrightarrow> (\<forall>i<length (fst st). loadAt E st i = 0)"
  by (auto simp: load_def)

text \<open>A round that goes through all considered queues.\<close>

definition covers :: "nat list \<Rightarrow> eligible \<Rightarrow> nat \<Rightarrow> bool" where
  "covers ks E n \<longleftrightarrow> (\<forall>i\<in>set ks. i < n) \<and> (\<forall>i p. i < n \<longrightarrow> E i p \<longrightarrow> i \<in> set ks)"

lemma roundOk_done:
  assumes "roundOk E F ks st 0 st'" "covers ks F (length (fst st))" shows "load F st' = 0"
proof -
  have "loadAt F st i = 0" if "i < length (fst st)" for i
  proof (cases "i \<in> set ks")
    case False
    then show ?thesis using assms(2) that by (auto simp: covers_def loadAt_def split: option.splits)
  qed (use assms(1) in \<open>simp add: roundOk_def\<close>)
  then show ?thesis using assms(1) by (simp add: load_zero roundOk_def)
qed

definition tabOk :: "nat \<Rightarrow> collect \<Rightarrow> bool" where
  "tabOk n st \<longleftrightarrow> tab_ok st \<and> length (fst st) = n \<and> n < 2 ^ 16"

lemma tabOk_roundOk: "tabOk n st \<Longrightarrow> roundOk E F ks st c st' \<Longrightarrow> tabOk n st'"
  by (auto simp: tabOk_def roundOk_def dest: collected_length)

lemma of_nat_word_eq_0: "c < 2 ^ LENGTH('a::len) \<Longrightarrow> (of_nat c :: 'a word) = 0 \<longleftrightarrow> c = 0"
  by (simp add: word_of_nat_eq_0_iff) (metis dvd_imp_le not_le neq0_conv dvd_0_right)

lemma rrRound_law:
  assumes "tabOk n st" "covers ks E n" "\<And>i q. i \<in> set ks \<Longrightarrow> P q \<longleftrightarrow> E i (sqPriority q)" "length ks \<le> n"
  shows "\<exists>b st'. rrRound P ks st = Inr (b, st') \<and> tabOk n st' \<and> collected E st st' \<and>
    (if b then load E st' < load E st else load E st' = 0)"
proof -
  have st: "tab_ok st" "length (fst st) = n" using assms(1) by (simp_all add: tabOk_def)
  obtain c st' where c: "rrPass P ks 0 st = Inr (0 + of_nat c, st')" "roundOk E E ks st c st'"
    using rrPass_ok [OF st(1), of ks P E E 0] assms(2,3) st(2) by (auto simp: covers_def)
  have "c < 2 ^ LENGTH(16)" using c(2) assms(1,4) by (simp add: roundOk_def tabOk_def)
  from of_nat_word_eq_0 [OF this] show ?thesis
    using c tabOk_roundOk [OF assms(1) c(2)] roundOk_done [of E E ks st st'] assms(2) st(2)
    by (auto simp: rrRound_def roundOk_def intro!: exI [of _ "c \<noteq> 0"])
qed

interpretation rr: fetch_round "rrRound (\<lambda>q. True) [0..<n]" "tabOk n" "collected (\<lambda>i p. True)" "load (\<lambda>i p. True)" for n
proof unfold_locales
  fix st assume "tabOk n st"
  then show "\<exists>b st'. rrRound (\<lambda>q. True) [0..<n] st = Inr (b, st') \<and> tabOk n st' \<and> collected (\<lambda>i p. True) st st' \<and>
      (if b then load (\<lambda>i p. True) st' < load (\<lambda>i p. True) st else load (\<lambda>i p. True) st' = 0)"
    by (rule rrRound_law) (auto simp: covers_def)
qed (auto simp: tabOk_def collected_refl intro: collected_trans)

abbreviation isUrgent :: eligible where
  "isUrgent \<equiv> \<lambda>i p. 0 < i \<and> p = PRIORITY_URGENT"

interpretation urgent: fetch_round "rrRound (\<lambda>q. sqPriority q = PRIORITY_URGENT) [1..<n]" "tabOk n" "collected isUrgent" "load isUrgent" for n
proof unfold_locales
  fix st assume "tabOk n st"
  then show "\<exists>b st'. rrRound (\<lambda>q. sqPriority q = PRIORITY_URGENT) [1..<n] st = Inr (b, st') \<and> tabOk n st' \<and>
      collected isUrgent st st' \<and> (if b then load isUrgent st' < load isUrgent st else load isUrgent st' = 0)"
    by (rule rrRound_law) (auto simp: covers_def)
qed (auto simp: tabOk_def collected_refl intro: collected_trans)

abbreviation isAdmin :: eligible where
  "isAdmin \<equiv> \<lambda>i p. i = 0"

definition adminOk :: "nat \<Rightarrow> collect \<Rightarrow> bool" where
  "adminOk n st \<longleftrightarrow> tabOk n st \<and> 0 < n \<and> fst st ! 0 \<noteq> None"

interpretation admin: fetch_round "checkQueue 0" "adminOk n" "collected isAdmin" "load isAdmin" for n
proof unfold_locales
  fix st assume a: "adminOk n st"
  then obtain q where q: "tab_ok st" "0 < length (fst st)" "fst st ! 0 = Some q" by (auto simp: adminOk_def tabOk_def)
  note C = checkQueue_step [where E = isAdmin, OF q]
  show "\<exists>b st'. checkQueue 0 st = Inr (b, st') \<and> adminOk n st' \<and> collected isAdmin st st' \<and>
      (if b then load isAdmin st' < load isAdmin st else load isAdmin st' = 0)"
  proof (cases "items q = 0")
    case True
    then have "load isAdmin st = 0" using q by (auto simp: load_zero loadAt_def split: option.splits)
    then show ?thesis using True C(1) a q(1) by (auto simp: collected_refl)
  next
    case False
    then obtain st' where "checkQueue 0 st = Inr (True, st')" "tab_ok st'" "collected isAdmin st st'"
      "Suc (load isAdmin st') = load isAdmin st" using C(2) by auto
    moreover have "collectedAt isAdmin 0 st st'" using calculation q(2) by (simp add: collected_def)
    ultimately show ?thesis using a q collected_length [of isAdmin st st']
      by (auto simp: adminOk_def tabOk_def collectedAt_def intro!: exI [of _ True])
  qed
qed (auto simp: adminOk_def tabOk_def collected_refl intro: collected_trans)

abbreviation isWeighted :: eligible where
  "isWeighted \<equiv> \<lambda>i p. 0 < i \<and> (p = PRIORITY_HIGH \<or> p = PRIORITY_MEDIUM)"

lemma loadAt_or: "loadAt (\<lambda>i p. 0 < i \<and> p = a) st i = 0 \<Longrightarrow> loadAt (\<lambda>i p. 0 < i \<and> p = b) st i = 0 \<Longrightarrow>
    loadAt (\<lambda>i p. 0 < i \<and> (p = a \<or> p = b)) st i = 0"
  by (auto simp: loadAt_def split: option.splits)

lemma weightedRound_law:
  assumes "tabOk n (snd x)"
  shows "\<exists>b x'. weightedRound g [1..<n] x = Inr (b, x') \<and> tabOk n (snd x') \<and> collected isWeighted (snd x) (snd x') \<and>
    (if b then load isWeighted (snd x') < load isWeighted (snd x) else load isWeighted (snd x') = 0)"
proof -
  let ?ks = "[1..<n]" and ?H = "\<lambda>i p. 0 < i \<and> p = PRIORITY_HIGH" and ?M = "\<lambda>i p. 0 < i \<and> p = PRIORITY_MEDIUM"
  obtain u st where x: "x = (u, st)" by (cases x)
  have st: "tab_ok st" "length (fst st) = n" "tabOk n st" using assms by (simp_all add: tabOk_def x)
  obtain c1 u1 st1 where 1: "weightedPass PRIORITY_HIGH (ncWrrHigh g) ?ks u 0 st = Inr (u1, 0 + of_nat c1, st1)"
    "roundOk isWeighted ?H ?ks st c1 st1"
    using weightedPass_ok [OF st(1), of ?ks PRIORITY_HIGH ?H isWeighted "ncWrrHigh g" u 0] st(2) by auto
  have t1: "tabOk n st1" by (rule tabOk_roundOk [OF st(3) 1(2)])
  obtain c2 u2 st2 where 2: "weightedPass PRIORITY_MEDIUM (ncWrrMedium g) ?ks u1 (of_nat c1) st1 = Inr (u2, of_nat c1 + of_nat c2, st2)"
    "roundOk isWeighted ?M ?ks st1 c2 st2"
    using weightedPass_ok [of st1 ?ks PRIORITY_MEDIUM ?M isWeighted "ncWrrMedium g" u1 "of_nat c1"] t1 by (auto simp: tabOk_def)
  have t2: "tabOk n st2" by (rule tabOk_roundOk [OF t1 2(2)])
  obtain c3 st3 where 3: "singlePass PRIORITY_MEDIUM ?ks (of_nat c1 + of_nat c2) st2 = Inr (of_nat c1 + of_nat c2 + of_nat c3, st3)"
    "roundOk isWeighted ?M ?ks st2 c3 st3"
    using singlePass_ok [of st2 ?ks PRIORITY_MEDIUM ?M isWeighted "of_nat c1 + of_nat c2"] t2 by (auto simp: tabOk_def)
  have t3: "tabOk n st3" by (rule tabOk_roundOk [OF t2 3(2)])
  define c where "c = c1 + c2 + c3"
  have r: "weightedRound g ?ks x = Inr ((of_nat c :: u32) \<noteq> 0, u2, st3)" using 1(1) 2(1) 3(1) by (simp add: weightedRound_def x c_def)
  have "c1 \<le> n" "c2 \<le> n" "c3 \<le> n" "n < 2 ^ 16"
    using roundOk_count [OF 1(2)] roundOk_count [OF 2(2)] roundOk_count [OF 3(2)] st(3) by (simp_all add: tabOk_def)
  then have "c < 2 ^ LENGTH(32)" by (simp add: c_def)
  note z = of_nat_word_eq_0 [OF this]
  have col: "collected isWeighted st st3"
  proof (rule collected_trans [OF st(1)])
    show "collected isWeighted st st1" "collected isWeighted st1 st3"
      using 1(2) 2(2) 3(2) t1 collected_trans [of st1 isWeighted st2 st3] by (simp_all add: roundOk_def tabOk_def)
  qed
  have ld: "load isWeighted st3 + c = load isWeighted st" using 1(2) 2(2) 3(2) by (simp add: c_def roundOk_def)
  have "load isWeighted st3 = 0" if "c = 0"
  proof -
    have "st1 = st" "st2 = st" "st3 = st" "\<forall>i\<in>set ?ks. loadAt ?H st i = 0 \<and> loadAt ?M st i = 0"
      using that 1(2) 2(2) by (auto simp: c_def roundOk_def 3(2) [unfolded roundOk_def])
    moreover have "loadAt isWeighted st i = 0" if "i < n" for i
      using calculation(4) loadAt_or [of PRIORITY_HIGH st i PRIORITY_MEDIUM] that
      by (cases "i = 0") (auto simp: loadAt_def split: option.splits)
    ultimately show ?thesis using st(2) by (simp add: load_zero)
  qed
  then show ?thesis using r z t3 col ld by (auto simp: x)
qed

interpretation weighted: fetch_round "weightedRound g [1..<n]" "\<lambda>x. tabOk n (snd x)"
  "\<lambda>x y. collected isWeighted (snd x) (snd y)" "\<lambda>x. load isWeighted (snd x)" for g n
proof unfold_locales
  fix x :: "u16 \<times> collect" assume "tabOk n (snd x)"
  then show "\<exists>b x'. weightedRound g [1..<n] x = Inr (b, x') \<and> tabOk n (snd x') \<and> collected isWeighted (snd x) (snd x') \<and>
    (if b then load isWeighted (snd x') < load isWeighted (snd x) else load isWeighted (snd x') = 0)"
    by (rule weightedRound_law)
qed (auto simp: tabOk_def collected_refl intro: collected_trans)

lemma collected_mono: "collected E st st' \<Longrightarrow> (\<And>i p. E i p \<Longrightarrow> F i p) \<Longrightarrow> collected F st st'"
  unfolding collected_def collectedAt_def by (fastforce split: option.splits)

lemma load_mono:
  assumes "tab_ok st" "collected E st st'" shows "load F st' \<le> load F st"
proof -
  have "loadAt F st' i \<le> loadAt F st i" if i: "i < length (fst st)" for i
  proof -
    have "collectedAt E i st st'" using assms(2) i by (simp add: collected_def)
    then show ?thesis using tabOk_def tab_okD [OF assms(1) i]
      by (auto simp: collectedAt_def loadAt_def items_adv split: option.splits)
  qed
  then show ?thesis unfolding load_def collected_length [OF assms(2)] by (intro sum_mono) simp
qed

text \<open>With nothing left, the fetches of a considered queue are all that waited in it.\<close>

lemma collected_all:
  assumes "tab_ok st" "collected E st st'" "load E st' = 0" "i < length (fst st)" "fst st ! i = Some q"
  defines "n \<equiv> (if E i (sqPriority q) then items q else 0)"
  shows "fst st' ! i = Some (adv n q)" "fetched i st' = fetched i st @ map (fetchAt i q) [0..<n]"
proof -
  have "collectedAt E i st st'" using assms(2,4) by (simp add: collected_def)
  then obtain k where k: "k \<le> items q" "E i (sqPriority q) \<or> k = 0" "fst st' ! i = Some (adv k q)"
    "fetched i st' = fetched i st @ map (fetchAt i q) [0..<k]"
    using assms(5) by (auto simp: collectedAt_def)
  have "loadAt E st' i = 0" using assms(3,4) collected_length [OF assms(2)] by (simp add: load_zero)
  then have "k = n" using k tab_okD [OF assms(1,4,5)] by (auto simp: n_def loadAt_def items_adv split: if_splits)
  then show "fst st' ! i = Some (adv n q)" "fetched i st' = fetched i st @ map (fetchAt i q) [0..<n]" using k by simp_all
qed

abbreviation notLow :: eligible where
  "notLow \<equiv> \<lambda>i p. i = 0 \<or> p = PRIORITY_URGENT \<or> p = PRIORITY_HIGH \<or> p = PRIORITY_MEDIUM"

lemma loadAt_notLow:
  assumes "loadAt isAdmin st i = 0" "loadAt isUrgent st i = 0" "loadAt isWeighted st i = 0"
  shows "loadAt notLow st i = 0"
  using assms by (cases "fst st ! i") (auto simp: loadAt_def split: if_splits)

lemma collectRR_ok:
  assumes "tabOk n st"
  shows "\<exists>st'. collectRR st = Some (Inr st') \<and> collected (\<lambda>i p. True) st st' \<and> load (\<lambda>i p. True) st' = 0"
  using rr.loop_ends [OF assms] assms by (auto simp: collectRR_def tabOk_def)

lemma collectWRR_ok:
  assumes "adminOk n st"
  shows "\<exists>st'. collectWRR g st = Some (Inr st') \<and> collected notLow st st' \<and> load notLow st' = 0"
proof -
  obtain st1 where 1: "whileFetched (checkQueue 0) st = Some (Inr st1)" "adminOk n st1" "collected isAdmin st st1" "load isAdmin st1 = 0"
    using admin.loop_ends [OF assms] by blast
  then have t1: "tabOk n st1" by (simp add: adminOk_def)
  obtain st2 where 2: "whileFetched (rrRound (\<lambda>q. sqPriority q = PRIORITY_URGENT) [1..<n]) st1 = Some (Inr st2)"
    "tabOk n st2" "collected isUrgent st1 st2" "load isUrgent st2 = 0"
    using urgent.loop_ends [OF t1] by blast
  obtain u st3 where 3: "whileFetched (weightedRound g [1..<n]) (0, st2) = Some (Inr (u, st3))"
    "tabOk n st3" "collected isWeighted st2 st3" "load isWeighted st3 = 0"
    using weighted.loop_ends [of n "(0, st2)" g] 2(2) by auto
  have "collectWRR g st = Some (Inr st3)"
    using 1(1) 2(1) 3(1) t1 2(2) by (simp add: collectWRR_def thenLoop_def tabOk_def)
  moreover have "collected notLow st st3"
  proof (rule collected_trans)
    show "tab_ok st" using assms by (simp add: adminOk_def tabOk_def)
    show "collected notLow st st1" by (rule collected_mono [OF 1(3)]) simp
    show "collected notLow st1 st3"
      by (rule collected_trans [OF _ collected_mono [OF 2(3)] collected_mono [OF 3(3)]]) (use t1 in \<open>auto simp: tabOk_def\<close>)
  qed
  moreover have "load notLow st3 = 0"
  proof -
    have t: "tab_ok st1" "tab_ok st2" "length (fst st3) = n" using t1 2(2) 3(2) by (simp_all add: tabOk_def)
    have "load isAdmin st3 = 0" "load isUrgent st3 = 0"
      using load_mono [OF t(1) 2(3), of isAdmin] load_mono [OF t(2) 3(3), of isAdmin]
        load_mono [OF t(2) 3(3), of isUrgent] 1(4) 2(4) by simp_all
    then have "\<forall>i<n. loadAt isAdmin st3 i = 0 \<and> loadAt isUrgent st3 i = 0 \<and> loadAt isWeighted st3 i = 0"
      using 3(4) t(3) by (simp add: load_zero)
    then show ?thesis using t(3) loadAt_notLow by (simp add: load_zero)
  qed
  ultimately show ?thesis by blast
qed

section \<open>A tail outside the ring\<close>

text \<open>A loop whose rounds always fetch something never returns.\<close>

lemma whileFetched_diverges:
  assumes "\<And>s. I s \<Longrightarrow> \<exists>s'. rnd s = Inr (True, s') \<and> I s'" "I s"
  shows "whileFetched rnd s = None"
proof -
  have "r = rnd \<longrightarrow> \<not> I s" if "whileFetched r s = Some y" for r s y
  proof (rule whileFetched.raw_induct [where P = "\<lambda>r s y. r = rnd \<longrightarrow> \<not> I s", OF _ that])
    fix loop :: "('a \<Rightarrow> (bool \<times> 'a) res) \<Rightarrow> 'a \<Rightarrow> 'a res option" and r s y
    assume IH: "\<And>r s y. loop r s = Some y \<Longrightarrow> r = rnd \<longrightarrow> \<not> I s"
      and eq: "(case r s of Inl e \<Rightarrow> Some (Inl e) | Inr (b, s') \<Rightarrow> if b then loop r s' else Some (Inr s')) = Some y"
    show "r = rnd \<longrightarrow> \<not> I s"
    proof (intro impI notI)
      assume r: "r = rnd" "I s"
      obtain s' where "rnd s = Inr (True, s')" "I s'" using assms(1) [OF r(2)] by blast
      then show False using IH [of rnd s'] eq r(1) by auto
    qed
  qed
  then show ?thesis using assms(2) by (cases "whileFetched rnd s") auto
qed

definition head_ok :: "squeue \<Rightarrow> bool" where
  "head_ok q \<longleftrightarrow> qHead q < qSize q \<and> qBase q \<noteq> None"

definition stuckAt :: "nat \<Rightarrow> collect \<Rightarrow> bool" where
  "stuckAt i st \<longleftrightarrow> i < length (fst st) \<and> (\<exists>q. fst st ! i = Some q \<and> qSize q \<le> qTail q) \<and>
     (\<forall>q. Some q \<in> set (fst st) \<longrightarrow> head_ok q)"

lemma ringNext_less: "i < len \<Longrightarrow> ringNext len i < len"
  using ringNext_pos [of len "unat i"] ring_pos_less [of len "Suc (unat i)"] ring_pos_unat [of i len]
  by (metis word_coorder.not_eq_extremum word_not_simps(1))

lemma checkQueue_stuck:
  assumes "stuckAt i st" "k < length (fst st)" "fst st ! k = Some q"
  shows "\<exists>b st'. checkQueue k st = Inr (b, st') \<and> stuckAt i st' \<and> length (fst st') = length (fst st) \<and> (k = i \<longrightarrow> b)"
proof (cases "0 < getItemCount q")
  case False
  have "k \<noteq> i"
  proof
    assume "k = i"
    then have "qSize q \<le> qTail q" "qHead q < qSize q" using assms nth_mem [of k "fst st"] by (auto simp: stuckAt_def head_ok_def)
    then have "qHead q < qTail q" by (rule order_less_le_trans [rotated])
    then show False using False by (simp add: getItemCount_def word_gt_0 order_less_imp_le)
  qed
  then show ?thesis using False assms by (cases st) (auto simp: checkQueue_def queueAt_def)
next
  case True
  then have ne: "qHead q \<noteq> qTail q" by (auto simp: getItemCount_def)
  have h: "head_ok q" using assms nth_mem [of k "fst st"] by (auto simp: stuckAt_def)
  then obtain b where b: "qBase q = Some b" by (auto simp: head_ok_def)
  let ?q = "q\<lparr>qHead := ringNext (qSize q) (qHead q)\<rparr>"
  have "head_ok ?q" using h by (simp add: head_ok_def ringNext_less)
  then have "stuckAt i ((fst st)[k := Some ?q], out)" for out
    using assms set_update_subset_insert [of "fst st" k "Some ?q"]
    by (cases "k = i") (auto simp: stuckAt_def nth_list_update)
  then show ?thesis using True assms(2,3) ne b
    by (cases st) (auto simp: checkQueue_def queueAt_def SQueue_getData_def)
qed

lemma rrPass_stuck:
  assumes "stuckAt i st" "\<forall>k\<in>set ks. k < length (fst st)"
  shows "\<exists>c st'. rrPass (\<lambda>q. True) ks u st = Inr (u + of_nat c, st') \<and> c \<le> length ks \<and> stuckAt i st' \<and>
    length (fst st') = length (fst st) \<and> (i \<in> set ks \<longrightarrow> 0 < c)"
  using assms
proof (induction ks arbitrary: u st)
  case Nil
  then show ?case by (auto intro!: exI [of _ 0])
next
  case (Cons k ks)
  have at: "queueAt (fst st) k = Inr (fst st ! k)" using Cons.prems by (simp add: queueAt_def)
  show ?case
  proof (cases "fst st ! k")
    case None
    then have "k \<noteq> i" using Cons.prems by (auto simp: stuckAt_def)
    then show ?thesis using Cons.IH [of st u] Cons.prems at None by (auto intro: le_SucI)
  next
    case (Some q)
    obtain b st1 where 1: "checkQueue k st = Inr (b, st1)" "stuckAt i st1" "length (fst st1) = length (fst st)" "k = i \<longrightarrow> b"
      using checkQueue_stuck [OF Cons.prems(1) _ Some] Cons.prems(2) by auto
    define d where "d = (if b then 1 else 0 :: nat)"
    obtain c st' where "rrPass (\<lambda>q. True) ks (u + of_nat d) st1 = Inr (u + of_nat d + of_nat c, st')" "c \<le> length ks"
      "stuckAt i st'" "length (fst st') = length (fst st1)" "i \<in> set ks \<longrightarrow> 0 < c"
      using Cons.IH [of st1 "u + of_nat d"] 1 Cons.prems(2) by auto
    then show ?thesis using at Some 1
      by (intro exI [of _ "d + c"] exI [of _ st']) (auto simp: d_def add.assoc split: if_splits)
  qed
qed

lemma collectRR_diverges:
  assumes "stuckAt i st" "length (fst st) < 2 ^ 16"
  shows "collectRR st = None"
  unfolding collectRR_def
proof (rule whileFetched_diverges [where I = "\<lambda>x. stuckAt i x \<and> length (fst x) = length (fst st)"])
  fix x assume I: "stuckAt i x \<and> length (fst x) = length (fst st)"
  then have i: "i \<in> set [0..<length (fst st)]" by (auto simp: stuckAt_def)
  obtain c x' where c: "rrPass (\<lambda>q. True) [0..<length (fst st)] 0 x = Inr (0 + of_nat c, x')" "c \<le> length [0..<length (fst st)]"
    "stuckAt i x'" "length (fst x') = length (fst x)" "0 < c"
    using rrPass_stuck [of i x "[0..<length (fst st)]" 0] I i by auto
  have "c < 2 ^ LENGTH(16)" using c(2) assms(2) by simp
  from of_nat_word_eq_0 [OF this] c(5) have "(of_nat c :: u16) \<noteq> 0" by simp
  then show "\<exists>x'. rrRound (\<lambda>q. True) [0..<length (fst st)] x = Inr (True, x') \<and> stuckAt i x' \<and> length (fst x') = length (fst st)"
    using c I by (simp add: rrRound_def)
qed (use assms(1) in simp)

end
