(* ===== verification/RoundRobin.thy ===== *)
theory RoundRobin
  imports Prelude
begin

text \<open>
  Round robin as an interface: a step serves the first user of the current order that it can
  serve and moves that user to the end of the order; between two steps work arrives and users
  join the order at any place. Whoever waits and can be served is reached before there were as
  many steps as there are users, those that joined meanwhile included. The NVMe controller
  provides the interface.
\<close>

section \<open>Rotations\<close>

lemma map_mod_rotate: "map (\<lambda>i. xs ! ((k + i) mod length xs)) [0..<length xs] = rotate k xs"
  by (rule nth_equalityI) (simp_all add: nth_rotate)

text \<open>A rotation of a list without duplicates is determined by its last element.\<close>

lemma rotate_last:
  assumes "distinct xs" "rotate n xs = ys @ j # zs" "last (rotate m xs) = j"
  shows "rotate m xs = zs @ ys @ [j]"
proof -
  let ?l = "length xs"
  have ne: "xs \<noteq> []" using assms(2) by (metis append_is_Nil_conv list.simps(3) rotate_is_Nil_conv)
  then have l: "0 < ?l" by simp
  have nth: "last (rotate k xs) = xs ! ((?l - 1 + k) mod ?l)" for k
    using l ne by (simp add: last_conv_nth nth_rotate add.commute)
  have z: "zs @ ys @ [j] = rotate (n + Suc (length ys)) xs"
  proof -
    have "zs @ ys @ [j] = rotate (Suc (length ys)) (ys @ j # zs)" using rotate_append [of "ys @ [j]" zs] by simp
    also have "\<dots> = rotate (n + Suc (length ys)) xs" by (simp only: assms(2) [symmetric] rotate_rotate add.commute)
    finally show ?thesis .
  qed
  have e: "last (rotate m xs) = last (rotate (n + Suc (length ys)) xs)" unfolding z [symmetric] using assms(3) by simp
  have "(?l - 1 + m) mod ?l = (?l - 1 + (n + Suc (length ys))) mod ?l"
    using l by (intro nth_eq_iff_index_eq [OF assms(1), THEN iffD1] e [unfolded nth]) simp_all
  then have "(?l - 1 + m + 1) mod ?l = (?l - 1 + (n + Suc (length ys)) + 1) mod ?l" by (metis mod_add_left_eq)
  moreover have "(?l - 1 + a + 1) mod ?l = a mod ?l" for a
  proof -
    have "?l - 1 + a + 1 = ?l + a" using l by simp
    then show ?thesis by (metis mod_add_self1)
  qed
  ultimately have "m mod ?l = (n + Suc (length ys)) mod ?l" by metis
  then show ?thesis unfolding z by (metis rotate_conv_mod)
qed

section \<open>The interface\<close>

text \<open>
  \<open>k\<close> is the user whose progress is followed; a step is one at which \<open>k\<close> can be served.
\<close>

locale round_robin =
  fixes ok :: "'s \<Rightarrow> bool" and order :: "'s \<Rightarrow> 'k list" and queue :: "'s \<Rightarrow> 'k \<Rightarrow> 'a list"
    and step :: "'s \<Rightarrow> 's \<Rightarrow> bool" and arrival :: "'s \<Rightarrow> 's \<Rightarrow> bool" and k :: 'k
  assumes order_distinct: "ok s \<Longrightarrow> distinct (order s)"
    and step_law: "ok s \<Longrightarrow> step s s' \<Longrightarrow> queue s k \<noteq> [] \<Longrightarrow> k \<in> set (order s) \<Longrightarrow>
      ok s' \<and> (\<exists>ys j zs. order s = ys @ j # zs \<and> k \<notin> set ys \<and> order s' = zs @ ys @ [j] \<and>
        (j \<noteq> k \<longrightarrow> queue s' k = queue s k))"
    and arrival_law: "ok s \<Longrightarrow> arrival s s' \<Longrightarrow> ok s' \<and> (\<exists>ws. queue s' k = queue s k @ ws) \<and>
      (order s' = order s \<or> (\<exists>xs x ys. order s = xs @ ys \<and> order s' = xs @ x # ys))"
begin

text \<open>The users that are considered before \<open>k\<close>, and those from \<open>k\<close> on.\<close>

definition ahead :: "'s \<Rightarrow> nat" where
  "ahead s = length (takeWhile (\<lambda>j. j \<noteq> k) (order s))"

definition waits :: "'a \<Rightarrow> 's \<Rightarrow> bool" where
  "waits w s \<longleftrightarrow> ok s \<and> k \<in> set (order s) \<and> (\<exists>ws. queue s k = w # ws)"

lemma ahead_split: "order s = xs @ k # ys \<Longrightarrow> k \<notin> set xs \<Longrightarrow> ahead s = length xs"
  unfolding ahead_def by (rule arg_cong [of _ _ length], simp, rule takeWhile_append2 [THEN trans]) auto

lemma order_split:
  assumes "k \<in> set (order s)"
  obtains xs ys where "order s = xs @ k # ys" "k \<notin> set xs" "ahead s = length xs"
  using split_list_first [OF assms] ahead_split by blast

lemma step_ahead:
  assumes "waits w s" "step s s'" "last (order s') \<noteq> k"
  shows "waits w s' \<and> length (order s') = length (order s) \<and> ahead s' < ahead s"
proof -
  have w: "ok s" "k \<in> set (order s)" "queue s k \<noteq> []" using assms(1) by (auto simp: waits_def)
  from step_law [OF w(1) assms(2) w(3,2)]
  obtain ys j zs where 1: "ok s'" "order s = ys @ j # zs" "k \<notin> set ys" "order s' = zs @ ys @ [j]" "j \<noteq> k \<longrightarrow> queue s' k = queue s k" by blast
  have j: "j \<noteq> k" using assms(3) 1(4) by simp
  then have "k \<in> set zs" using w(2) 1(2,3) by auto
  then obtain as bs where zs: "zs = as @ k # bs" "k \<notin> set as" by (meson split_list_first)
  have "ahead s = length (ys @ j # as)" by (rule ahead_split [of _ _ bs]) (use 1(2,3) zs j in auto)
  moreover have "ahead s' = length as" by (rule ahead_split [of _ _ "bs @ ys @ [j]"]) (use 1(4) zs in auto)
  ultimately show ?thesis using 1 zs j assms(1) by (auto simp: waits_def)
qed

lemma arrival_ahead:
  assumes "arrival\<^sup>*\<^sup>* s s'" "waits w s"
  shows "waits w s' \<and> ahead s' + length (order s) \<le> ahead s + length (order s')"
  using assms
proof (induction rule: rtranclp_induct)
  case (step t u)
  then have t: "waits w t" "ahead t + length (order s) \<le> ahead s + length (order t)" by simp_all
  then have ok: "ok t" "k \<in> set (order t)" by (auto simp: waits_def)
  note L = arrival_law [OF ok(1) step.hyps(2)]
  have "k \<in> set (order u) \<and> ahead u + length (order t) \<le> ahead t + length (order u)"
  proof (cases "order u = order t")
    case True
    then show ?thesis using ok(2) by (simp add: ahead_def)
  next
    case False
    then obtain xs x ys where "order t = xs @ ys" "order u = xs @ x # ys" using L by blast
    then show ?thesis using ok(2) by (cases "k \<in> set xs") (auto simp: ahead_def takeWhile_append)
  qed
  moreover have "\<exists>ws. queue u k = w # ws" using L t(1) by (auto simp: waits_def)
  ultimately show ?case using L t(2) by (auto simp: waits_def)
qed simp

lemma served_in_turn:
  assumes "waits w (r 0)" "\<And>i. step (r i) (t i)" "\<And>i. arrival\<^sup>*\<^sup>* (t i) (r (Suc i))" "length (order (r n)) \<le> n"
  shows "\<exists>i<n. last (order (t i)) = k \<and> waits w (r i)"
proof -
  have I: "waits w (r m) \<and> m + ahead (r m) < length (order (r m))" if "\<forall>i<m. last (order (t i)) \<noteq> k" for m
    using that
  proof (induction m)
    case 0
    have "k \<in> set (order (r 0))" using assms(1) by (simp add: waits_def)
    then show ?case using assms(1) by (elim order_split) simp
  next
    case (Suc m)
    then have w: "waits w (r m)" "m + ahead (r m) < length (order (r m))" "last (order (t m)) \<noteq> k" by auto
    from step_ahead [OF w(1) assms(2) w(3)] arrival_ahead [OF assms(3) [of m], of w] w(2) show ?case by auto
  qed
  let ?served = "\<lambda>i. last (order (t i)) = k"
  obtain j where j: "j < n" "?served j" using I [of n] assms(4) by fastforce
  define i where "i = (LEAST i. ?served i)"
  have "?served i" "i \<le> j" "\<forall>l<i. \<not> ?served l"
    unfolding i_def by (rule LeastI [of ?served, OF j(2)], rule Least_le [of ?served, OF j(2)]) (blast dest: not_less_Least)
  then show ?thesis using I [of i] j(1) by (intro exI [of _ i] conjI) (linarith, assumption, blast)
qed

end

end
