(* ===== verification/NvmeWork_Inv.thy ===== *)
theory NvmeWork_Inv
  imports NvmeWork RoundRobin
begin

text \<open>
  Properties of handing out commands and of posting completions: the user that is served is the
  first in the round robin that can be, every user that can be served is served within one turn,
  the list of completions stays in order of time, and what becomes of coalesced interrupts.
\<close>

section \<open>Whom the controller serves\<close>

definition servable :: "nvme_env \<Rightarrow> nvme_ctrl \<Rightarrow> u32 \<Rightarrow> bool" where
  "servable E s uid \<longleftrightarrow> userQueue uid s \<noteq> [] \<and>
     (uid \<notin> set (bootstrappedUsers s) \<or> neCanServe E uid (needPages E (hd (userQueue uid s))))"

definition served :: "u32 \<Rightarrow> nvme_ctrl \<Rightarrow> nvme_ctrl" where
  "served uid s = s\<lparr>bootstrappedUsers := setInsert uid (bootstrappedUsers s),
     lSQByUser := AList.update uid (tl (userQueue uid s)) (lSQByUser s), lastUid := uid\<rparr>"

lemma setInsert_id: "x \<in> set xs \<Longrightarrow> setInsert x xs = xs"
  by (simp add: setInsert_def)

lemma bootstrapped_same: "s\<lparr>bootstrappedUsers := bootstrappedUsers s\<rparr> = s"
  by simp

lemma pickUser_eq:
  "pickUser E us s = (case find (servable E s) us of None \<Rightarrow> (None, s)
     | Some uid \<Rightarrow> (Some (hd (userQueue uid s)), served uid s))"
proof (induction us)
  case (Cons uid us)
  show ?case
  proof (cases "userQueue uid s")
    case Nil
    then show ?thesis using Cons.IH by (simp add: servable_def)
  next
    case (Cons w ws)
    then show ?thesis using Cons.IH
      by (cases "uid \<in> set (bootstrappedUsers s)")
        (auto simp: servable_def served_def Let_def setInsert_id userQueue_def)
  qed
qed simp

lemma userQueue_update:
  "userQueue v (s\<lparr>lSQByUser := AList.update uid dq (lSQByUser s)\<rparr>) = (if v = uid then dq else userQueue v s)"
  by (simp add: userQueue_def update_conv')

lemma userQueue_served: "userQueue v (served uid s) = (if v = uid then tl (userQueue uid s) else userQueue v s)"
  by (simp add: userQueue_def served_def update_conv')

lemma rrOrder_rotate: "rrOrder s = rotate (startIdx s) (rrUsers s)"
  unfolding rrOrder_def by (rule map_mod_rotate)

lemma rrOrder_set [simp]: "set (rrOrder s) = set (rrUsers s)"
  by (simp add: rrOrder_rotate)

lemma rrOrder_length: "length (rrOrder s) = length (rrUsers s)"
  by (simp add: rrOrder_rotate)

lemma rrOrder_split:
  assumes "lastUid s \<noteq> 0" "rrUsers s = pre @ lastUid s # post" "lastUid s \<notin> set pre"
  shows "rrOrder s = post @ pre @ [lastUid s]"
proof -
  have "takeWhile (\<lambda>u. u \<noteq> lastUid s) (rrUsers s) = pre"
    using assms(2,3) by (metis (mono_tags, lifting) takeWhile_append2 takeWhile.simps(2) append_Nil2)
  then have "startIdx s = Suc (length pre) mod length (rrUsers s)" using assms(1,2) by (simp add: startIdx_def)
  then have "rrOrder s = rotate (Suc (length pre)) (rrUsers s)" unfolding rrOrder_rotate by (metis rotate_conv_mod)
  then show ?thesis using rotate_append [of "pre @ [lastUid s]" post] assms(2) by simp
qed

lemma rrOrder_plain: "lastUid s = 0 \<or> lastUid s \<notin> set (rrUsers s) \<Longrightarrow> rrOrder s = rrUsers s"
  by (auto simp: rrOrder_rotate startIdx_def)

lemma rrOrder_last: "lastUid s \<noteq> 0 \<Longrightarrow> lastUid s \<in> set (rrUsers s) \<Longrightarrow> last (rrOrder s) = lastUid s"
  by (metis rrOrder_split split_list_first last_appendR last_snoc not_Cons_self2 append_is_Nil_conv)

text \<open>A user that joins the list of users joins the order somewhere.\<close>

lemma rrOrder_join:
  assumes "rrUsers s' = rrUsers s @ [x]" "x \<notin> set (rrUsers s)" "lastUid s' = lastUid s"
  shows "\<exists>xs ys. rrOrder s = xs @ ys \<and> rrOrder s' = xs @ x # ys"
proof (cases "lastUid s \<noteq> 0 \<and> lastUid s \<in> set (rrUsers s)")
  case True
  then obtain pre post where d: "rrUsers s = pre @ lastUid s # post" "lastUid s \<notin> set pre" by (meson split_list_first)
  have "rrOrder s = post @ pre @ [lastUid s]" using True d by (intro rrOrder_split) auto
  moreover have "rrOrder s' = (post @ [x]) @ pre @ [lastUid s]"
    using rrOrder_split [of s' pre "post @ [x]"] True d assms by simp
  ultimately show ?thesis by (intro exI [of _ post] exI [of _ "pre @ [lastUid s]"]) simp
next
  case False
  then have o: "rrOrder s = rrUsers s" by (auto intro: rrOrder_plain)
  have "rrOrder s' = rrUsers s @ [x]"
  proof (cases "lastUid s = x \<and> x \<noteq> 0")
    case True
    then show ?thesis using rrOrder_split [of s' "rrUsers s" "[]"] assms by simp
  next
    case False
    then show ?thesis using rrOrder_plain [of s'] assms \<open>\<not> (lastUid s \<noteq> 0 \<and> lastUid s \<in> set (rrUsers s))\<close> by auto
  qed
  then show ?thesis using o by (intro exI [of _ "rrUsers s"] exI [of _ "[]"]) simp
qed

text \<open>The request events of a run, with what the subsystem answers at each.\<close>

lemma handleRequest_state:
  "userQueue v (handleRequest g E now s) = userQueue v (snd (selectRequest E s))"
  "rrUsers (handleRequest g E now s) = rrUsers (snd (selectRequest E s))"
  "lastUid (handleRequest g E now s) = lastUid (snd (selectRequest E s))"
  "bootstrappedUsers (handleRequest g E now s) = bootstrappedUsers (snd (selectRequest E s))"
  by (auto simp: handleRequest_def Let_def act_def userQueue_def split_beta split: option.splits)

lemma handleRequest_users: "rrUsers (handleRequest g E now s) = rrUsers s"
proof -
  have "rrUsers (snd (pickUser E us s)) = rrUsers s" for us by (simp add: pickUser_eq served_def split: option.splits)
  then show ?thesis by (auto simp: handleRequest_state selectRequest_def split: list.splits)
qed

lemma handleRequest_hands_out:
  assumes "fst (selectRequest E s) = Some w"
  shows "\<exists>acts. ctOut (handleRequest g E now s) = ctOut s @ Execute_submitCommand w # acts"
proof -
  have "ctOut (snd (pickUser E us s)) = ctOut s" for us by (simp add: pickUser_eq served_def split: option.splits)
  then have "ctOut (snd (selectRequest E s)) = ctOut s" by (auto simp: selectRequest_def split: list.splits)
  then show ?thesis using assms by (simp add: handleRequest_def Let_def act_def split_beta)
qed

definition request_step :: "nvme_config \<Rightarrow> u32 \<Rightarrow> nvme_ctrl \<Rightarrow> nvme_ctrl \<Rightarrow> bool" where
  "request_step g k s s' \<longleftrightarrow> (\<exists>E now. (\<forall>n. neCanServe E k n) \<and> s' = handleRequest g E now s)"

text \<open>
  What happens between two request events: a command of a user other than 0 is fetched, or
  something that leaves the staged commands and the turn alone.
\<close>

definition arrival :: "nvme_ctrl \<Rightarrow> nvme_ctrl \<Rightarrow> bool" where
  "arrival s s' \<longleftrightarrow> (\<exists>f e. reserved2 e \<noteq> 0 \<and> fetchDone f e s = Inr s') \<or>
     (lSQByUser s' = lSQByUser s \<and> rrUsers s' = rrUsers s \<and> lastUid s' = lastUid s)"

lemma fetchDone_staged:
  assumes "fetchDone f e s = Inr s'"
  shows "\<exists>w. userQueue v s' = userQueue v s @ (if v = reserved2 e then [w] else [])"
    and "rrUsers s' = setInsert (reserved2 e) (rrUsers s)" and "lastUid s' = lastUid s"
proof -
  obtain pq where "queueAt (ppSQueue s) (feQueue f) = Inr pq" using assms unfolding fetchDone_def bindR_eq_Inr by blast
  moreover from this obtain q where "pq = Some q" using assms by (cases pq) (simp_all add: fetchDone_def)
  ultimately have "lSQByUser s' = AList.update (reserved2 e) (userQueue (reserved2 e) s @ [SQEntryWrapper e (qID q) (sqCQID q) (qHead q) (feOldHead f)]) (lSQByUser s)"
    "rrUsers s' = setInsert (reserved2 e) (rrUsers s)" "lastUid s' = lastUid s"
    using assms by (simp_all add: fetchDone_def Let_def act_def split: if_splits) auto
  then show "\<exists>w. userQueue v s' = userQueue v s @ (if v = reserved2 e then [w] else [])"
    and "rrUsers s' = setInsert (reserved2 e) (rrUsers s)" and "lastUid s' = lastUid s"
    by (simp_all add: userQueue_def [of v] update_conv') (simp add: userQueue_def)
qed

definition users_ok :: "nvme_ctrl \<Rightarrow> bool" where
  "users_ok s \<longleftrightarrow> distinct (rrUsers s) \<and> userQueue 0 s = []"

lemma arrival_users:
  assumes "users_ok s" "arrival s s'"
  shows "users_ok s' \<and> (\<exists>ws. userQueue k s' = userQueue k s @ ws) \<and>
    (rrOrder s' = rrOrder s \<or> (\<exists>xs x ys. rrOrder s = xs @ ys \<and> rrOrder s' = xs @ x # ys))"
proof (cases "\<exists>f e. reserved2 e \<noteq> 0 \<and> fetchDone f e s = Inr s'")
  case True
  then obtain f e where fe: "reserved2 e \<noteq> 0" "fetchDone f e s = Inr s'" by blast
  note F = fetchDone_staged [OF fe(2)]
  have "users_ok s'" using assms(1) F(1) [of 0] F(2) fe(1) by (auto simp: users_ok_def setInsert_def)
  moreover have "rrOrder s' = rrOrder s \<or> (\<exists>xs x ys. rrOrder s = xs @ ys \<and> rrOrder s' = xs @ x # ys)"
  proof (cases "reserved2 e \<in> set (rrUsers s)")
    case True
    then show ?thesis using F(2,3) by (simp add: rrOrder_rotate startIdx_def setInsert_def)
  next
    case False
    then show ?thesis using rrOrder_join [of s' s "reserved2 e"] F(2,3) by (auto simp: setInsert_def)
  qed
  ultimately show ?thesis using F(1) [of k] by blast
next
  case False
  then have "lSQByUser s' = lSQByUser s" "rrUsers s' = rrUsers s" "lastUid s' = lastUid s" using assms(2) by (auto simp: arrival_def)
  then show ?thesis using assms(1) by (simp add: users_ok_def userQueue_def rrOrder_rotate startIdx_def)
qed

text \<open>When some user can be served, the event hands out the first command of one of them, whose turn it was.\<close>

lemma request_served:
  assumes "users_ok s" "servable E s k" "k \<in> set (rrOrder s)" "s' = handleRequest g E now s"
  shows "\<exists>ys j zs. rrOrder s = ys @ j # zs \<and> k \<notin> set ys \<and> rrOrder s' = zs @ ys @ [j] \<and> users_ok s' \<and>
    (j \<noteq> k \<longrightarrow> userQueue k s' = userQueue k s) \<and> fst (selectRequest E s) = Some (hd (userQueue j s)) \<and> lastUid s' = j"
proof -
  obtain j where f: "find (servable E s) (rrOrder s) = Some j"
    using assms(2,3) by (cases "find (servable E s) (rrOrder s)") (auto simp: find_None_iff)
  then obtain i where i: "i < length (rrOrder s)" "servable E s j" "j = rrOrder s ! i" "\<forall>l<i. \<not> servable E s (rrOrder s ! l)"
    by (auto simp: find_Some_iff)
  define ys zs where "ys = take i (rrOrder s)" and "zs = drop (Suc i) (rrOrder s)"
  have o: "rrOrder s = ys @ j # zs" using i(1,3) by (simp add: ys_def zs_def id_take_nth_drop [symmetric])
  have k: "k \<notin> set ys" using i(4) assms(2) i(1) by (auto simp: ys_def in_set_conv_nth)
  have j0: "j \<noteq> 0" using i(2) assms(1) by (auto simp: servable_def users_ok_def)
  have sel: "selectRequest E s = (Some (hd (userQueue j s)), served j s)" using assms(1) f by (simp add: selectRequest_def users_ok_def pickUser_eq)
  have s': "userQueue v s' = (if v = j then tl (userQueue j s) else userQueue v s)" "rrUsers s' = rrUsers s" "lastUid s' = j" for v
    using assms(4) sel by (simp_all add: handleRequest_state userQueue_served) (simp_all add: served_def)
  have "j \<in> set (rrUsers s)" using o by (metis in_set_conv_decomp rrOrder_set)
  then have "last (rrOrder s') = j" using rrOrder_last [of s'] s' j0 by simp
  then have "rrOrder s' = zs @ ys @ [j]"
    using rotate_last [of "rrUsers s" "startIdx s" ys j zs "startIdx s'"] o assms(1) s'(2) by (simp add: rrOrder_rotate users_ok_def)
  moreover have "users_ok s'" using assms(1) s' j0 by (simp add: users_ok_def)
  ultimately show ?thesis using o k s'(1,3) sel by (intro exI [of _ ys] exI [of _ j] exI [of _ zs]) simp
qed

lemma rrOrder_distinct: "users_ok s \<Longrightarrow> distinct (rrOrder s)"
  by (simp add: users_ok_def rrOrder_rotate)

interpretation users: round_robin users_ok rrOrder "\<lambda>s u. userQueue u s" "request_step g k" arrival k for g k
proof unfold_locales
  show "distinct (rrOrder s)" if "users_ok s" for s using that by (rule rrOrder_distinct)
  show "users_ok s' \<and> (\<exists>ws. userQueue k s' = userQueue k s @ ws) \<and>
    (rrOrder s' = rrOrder s \<or> (\<exists>xs x ys. rrOrder s = xs @ ys \<and> rrOrder s' = xs @ x # ys))"
    if "users_ok s" "arrival s s'" for s s' using that by (rule arrival_users)
next
  fix s s' assume ok: "users_ok s" and st: "request_step g k s s'" and w: "userQueue k s \<noteq> []" and k: "k \<in> set (rrOrder s)"
  obtain E now where E: "\<forall>n. neCanServe E k n" "s' = handleRequest g E now s" using st by (auto simp: request_step_def)
  have "servable E s k" using w E(1) by (simp add: servable_def)
  from request_served [OF ok this k E(2)] show "users_ok s' \<and> (\<exists>ys j zs. rrOrder s = ys @ j # zs \<and> k \<notin> set ys \<and>
      rrOrder s' = zs @ ys @ [j] \<and> (j \<noteq> k \<longrightarrow> userQueue k s' = userQueue k s))" by blast
qed

section \<open>The list of completions\<close>

definition cq_sorted :: "nvme_ctrl \<Rightarrow> bool" where
  "cq_sorted s \<longleftrightarrow> sorted (map cwSubmitAt (lCQFIFO s))"

text \<open>A completion is put behind those of the same or an earlier time.\<close>

lemma insertCQ_eq:
  "sorted (map cwSubmitAt xs) \<Longrightarrow> insertCQ e xs =
     filter (\<lambda>x. cwSubmitAt x \<le> cwSubmitAt e) xs @ e # filter (\<lambda>x. \<not> cwSubmitAt x \<le> cwSubmitAt e) xs"
proof (induction xs)
  case (Cons x xs)
  show ?case
  proof (cases "cwSubmitAt e < cwSubmitAt x")
    case True
    have "\<not> cwSubmitAt y \<le> cwSubmitAt e" if "y \<in> set xs" for y
    proof -
      have "cwSubmitAt x \<le> cwSubmitAt y" using Cons.prems that by simp
      with True show ?thesis by (simp add: not_le order_less_le_trans)
    qed
    then show ?thesis using True by (simp add: not_le filter_empty_conv)
  qed (use Cons in \<open>simp add: not_less not_le\<close>)
qed simp

lemma insertCQ_sorted: "sorted (map cwSubmitAt xs) \<Longrightarrow> sorted (map cwSubmitAt (insertCQ e xs))"
  by (auto simp: insertCQ_eq sorted_append sorted_filter not_le dest: order_less_imp_le)

lemma lCQFIFO_act [simp]: "lCQFIFO (act a s) = lCQFIFO s" "lCQFIFO (reserveCompletion s) = lCQFIFO s"
  by (simp_all add: act_def reserveCompletion_def split: option.splits)

lemma submitCQ_sorted: "cq_sorted s \<Longrightarrow> submitCQ now e s = Inr s' \<Longrightarrow> cq_sorted s'"
  by (auto simp: submitCQ_def cq_sorted_def bindR_eq_Inr intro!: insertCQ_sorted split: option.splits)

section \<open>Posting\<close>

text \<open>
  The ring after \<open>n\<close> entries were put into it, and the transfer of the entry that follows them:
  \<open>n\<close> slots behind the tail, with the phase tag inverted behind the end of the ring.
\<close>

definition tailAfter :: "cqueue \<Rightarrow> nat \<Rightarrow> nat" where
  "tailAfter q n = (unat (qTail q) + n) mod unat (qSize q)"

definition phaseAfter :: "cqueue \<Rightarrow> nat \<Rightarrow> bool" where
  "phaseAfter q n = (if unat (qTail q) + n < unat (qSize q) then cqPhase q else \<not> cqPhase q)"

definition ringAfter :: "cqueue \<Rightarrow> nat \<Rightarrow> cqueue" where
  "ringAfter q n = q\<lparr>qTail := of_nat (tailAfter q n), cqPhase := phaseAfter q n\<rparr>"

definition slotWrite :: "cqueue \<Rightarrow> nat \<Rightarrow> cq_entry \<Rightarrow> action" where
  "slotWrite q n e = WriteSlot \<lparr>sdBase = the (qBase q), sdOffset = of_nat (tailAfter q n) * qStride q\<rparr> (withPhase (phaseAfter q n) e)"

text \<open>Both ends lie in the ring and one slot stays free behind \<open>n\<close> more entries.\<close>

definition ringFits :: "cqueue \<Rightarrow> nat \<Rightarrow> bool" where
  "ringFits q n \<longleftrightarrow> qBase q \<noteq> None \<and> qHead q < qSize q \<and> qTail q < qSize q \<and>
     (unat (qTail q) + unat (qSize q) - unat (qHead q)) mod unat (qSize q) + n < unat (qSize q)"

lemma ring_used:
  fixes len h t :: nat
  assumes "h < len" "t < len"
  shows "(t + len - h) mod len = (if h \<le> t then t - h else t + len - h)"
proof (cases "h \<le> t")
  case True
  then have e: "t + len - h = (t - h) + len" by simp
  show ?thesis unfolding e mod_add_self2 using True assms by simp
qed (use assms in simp)

lemma tailAfter_bound: "ringFits q n \<Longrightarrow> k \<le> n \<Longrightarrow> unat (qTail q) < unat (qSize q) \<and> k < unat (qSize q) \<and> tailAfter q k < unat (qSize q) \<and>
   unat (of_nat (tailAfter q k) :: u16) = tailAfter q k"
proof -
  assume a: "ringFits q n" "k \<le> n"
  then have "unat (qTail q) < unat (qSize q)" "k < unat (qSize q)" by (auto simp: ringFits_def word_less_nat_alt)
  moreover from this have "tailAfter q k < unat (qSize q)" by (simp add: tailAfter_def)
  moreover have "unat (qSize q) < 2 ^ 16" using unsigned_less [of "qSize q"] by simp
  ultimately show ?thesis by (simp add: unsigned_of_nat take_bit_nat_eq_self)
qed

lemma ringAfter_0 [simp]: "ringFits q n \<Longrightarrow> ringAfter q 0 = q"
  by (simp add: ringAfter_def tailAfter_def phaseAfter_def ringFits_def word_less_nat_alt)

lemma ringAfter_1:
  assumes "ringFits q (Suc n)" "k \<le> n"
  shows "tailAfter (ringAfter q 1) k = tailAfter q (Suc k)" "phaseAfter (ringAfter q 1) k = phaseAfter q (Suc k)"
proof -
  have b: "unat (qTail q) < unat (qSize q)" "Suc k < unat (qSize q)" "unat (of_nat (tailAfter q 1) :: u16) = tailAfter q 1"
    using tailAfter_bound [OF assms(1), of "Suc k"] tailAfter_bound [OF assms(1), of 1] assms(2) by auto
  show "tailAfter (ringAfter q 1) k = tailAfter q (Suc k)"
    unfolding tailAfter_def [of "ringAfter q 1"] using b(3) by (simp add: ringAfter_def) (simp add: tailAfter_def mod_add_left_eq)
  show "phaseAfter (ringAfter q 1) k = phaseAfter q (Suc k)"
    unfolding phaseAfter_def [of "ringAfter q 1"] using b
    by (cases "Suc (unat (qTail q)) = unat (qSize q)") (auto simp: ringAfter_def tailAfter_def phaseAfter_def)
qed

lemma ringAfter_Suc:
  assumes "ringFits q (Suc n)" "k \<le> n"
  shows "ringAfter (ringAfter q 1) k = ringAfter q (Suc k)" "slotWrite (ringAfter q 1) k e = slotWrite q (Suc k) e"
  using ringAfter_1 [OF assms] by (simp_all add: ringAfter_def [of "ringAfter q 1"] slotWrite_def) (simp_all add: ringAfter_def)

lemma ringFits_step:
  assumes "ringFits q (Suc n)"
  shows "CQueue_setData e q = Inr (\<lparr>sdBase = the (qBase q), sdOffset = ucast (qTail q) * qStride q\<rparr>, withPhase (cqPhase q) e, ringAfter q 1)"
    and "ringFits (ringAfter q 1) n"
proof -
  define h t l where "h = unat (qHead q)" and "t = unat (qTail q)" and "l = unat (qSize q)"
  have b: "h < l" "t < l" "(if h \<le> t then t - h else t + l - h) + Suc n < l"
    using assms ring_used [of h l t] by (auto simp: ringFits_def word_less_nat_alt h_def t_def l_def)
  have tl: "unat (qTail (ringAfter q 1)) = (if Suc t = l then 0 else Suc t)"
    using tailAfter_bound [OF assms, of 1] b(2) by (simp add: ringAfter_def) (auto simp: tailAfter_def t_def l_def)
  have "l < 2 ^ 16" using unsigned_less [of "qSize q"] by (simp add: l_def)
  then have s: "unat (qTail q + 1) = Suc t" using b(2) by (simp add: t_def unat_word_ariths)
  have "qTail q + 1 = qSize q \<longleftrightarrow> Suc t = l" unfolding l_def s [symmetric] by (rule word_unat_eq_iff)
  moreover have "qTail (ringAfter q 1) = (if Suc t = l then 0 else qTail q + 1)" by (rule word_unat_eq_iff [THEN iffD2]) (simp add: tl [unfolded One_nat_def] s)
  moreover have "phaseAfter q 1 = (if Suc t = l then \<not> cqPhase q else cqPhase q)" using b(2) by (auto simp: phaseAfter_def t_def l_def)
  moreover have "unat (qTail (ringAfter q 1)) \<noteq> h" using b tl by (auto split: if_splits)
  then have "qHead q \<noteq> qTail (ringAfter q 1)" by (auto simp: h_def)
  moreover obtain d where "qBase q = Some d" using assms by (auto simp: ringFits_def)
  ultimately show "CQueue_setData e q = Inr (\<lparr>sdBase = the (qBase q), sdOffset = ucast (qTail q) * qStride q\<rparr>, withPhase (cqPhase q) e, ringAfter q 1)"
    by (auto simp: CQueue_setData_def Let_def ringAfter_def)
  have "(unat (qTail (ringAfter q 1)) + l - h) mod l + n < l"
    using b tl ring_used [of h l "unat (qTail (ringAfter q 1))"] by (auto split: if_splits)
  moreover have "unat (qTail (ringAfter q 1)) < l" using b tl by auto
  ultimately show "ringFits (ringAfter q 1) n" using assms
    by (simp add: ringFits_def word_less_nat_alt h_def l_def) (simp add: ringAfter_def)
qed

text \<open>
  Posting a list of completions: the \<open>j\<close>-th entry goes into the ring of its queue, behind the
  earlier ones for the same ring, and every ring moves on by the number of its entries.
\<close>

definition dueFor :: "nat \<Rightarrow> cq_wrapper list \<Rightarrow> nat" where
  "dueFor c es = length (filter (\<lambda>e. unat (cwCqID e) = c) es)"

definition slotWrites :: "cq_wrapper list \<Rightarrow> nvme_ctrl \<Rightarrow> action list" where
  "slotWrites es s = map (\<lambda>j. let c = unat (cwCqID (es ! j)) in
     slotWrite (the (ppCQueue s ! c)) (dueFor c (take j es)) (cwEntry (es ! j))) [0..<length es]"

definition ringsAfter :: "cq_wrapper list \<Rightarrow> nvme_ctrl \<Rightarrow> cqueue option list" where
  "ringsAfter es s = map (\<lambda>c. map_option (\<lambda>q. ringAfter q (dueFor c es)) (ppCQueue s ! c)) [0..<length (ppCQueue s)]"

definition ringsFit :: "cq_wrapper list \<Rightarrow> nvme_ctrl \<Rightarrow> bool" where
  "ringsFit es s \<longleftrightarrow>
    (\<forall>e\<in>set es. unat (cwCqID e) < length (ppCQueue s) \<and> ppCQueue s ! unat (cwCqID e) \<noteq> None) \<and>
    (\<forall>c<length (ppCQueue s). \<forall>q. ppCQueue s ! c = Some q \<longrightarrow> ringFits q (dueFor c es))"

lemma dueFor_simps [simp]: "dueFor c [] = 0"
  "dueFor c (e # es) = (if unat (cwCqID e) = c then Suc (dueFor c es) else dueFor c es)"
  by (simp_all add: dueFor_def)

lemma dueFor_append: "dueFor c (es @ fs) = dueFor c es + dueFor c fs"
  by (simp add: dueFor_def)

lemma dueFor_take: "dueFor c (take j es) \<le> dueFor c es"
  by (metis append_take_drop_id dueFor_append le_add1)

lemma ringsAfter_Nil: "ringsFit [] s \<Longrightarrow> ringsAfter [] s = ppCQueue s"
proof (rule nth_equalityI)
  fix i assume "ringsFit [] s" "i < length (ringsAfter [] s)"
  then show "ringsAfter [] s ! i = ppCQueue s ! i"
    by (cases "ppCQueue s ! i") (auto simp: ringsAfter_def ringsFit_def)
qed (simp add: ringsAfter_def)

text \<open>Posting the first entry leaves the others as the posting of the shorter list.\<close>

lemma ringsFit_Cons:
  assumes "ringsFit (e # es) s" "c = unat (cwCqID e)" "ppCQueue s ! c = Some q"
    and "ppCQueue s1 = (ppCQueue s)[c := Some (ringAfter q 1)]"
  shows "c < length (ppCQueue s)" "ringFits q (Suc (dueFor c es))" "ringsFit es s1"
    and "ringsAfter es s1 = ringsAfter (e # es) s" "slotWrite q 0 (cwEntry e) # slotWrites es s1 = slotWrites (e # es) s"
proof -
  show c: "c < length (ppCQueue s)" using assms(1,2) by (simp add: ringsFit_def)
  show q: "ringFits q (Suc (dueFor c es))" using assms(1,2,3) c by (auto simp: ringsFit_def)
  have rest: "ringFits r (dueFor i es)" if "i < length (ppCQueue s)" "ppCQueue s1 ! i = Some r" for i r
    using assms(1,2,4) c that ringFits_step(2) [OF q] by (cases "i = c") (auto simp: ringsFit_def)
  show "ringsFit es s1" unfolding ringsFit_def
    using assms(1,2,4) c rest by (auto simp: ringsFit_def nth_list_update)
  show "ringsAfter es s1 = ringsAfter (e # es) s" unfolding ringsAfter_def
  proof (intro map_cong)
    fix i assume "i \<in> set [0..<length (ppCQueue s)]"
    then show "map_option (\<lambda>q. ringAfter q (dueFor i es)) (ppCQueue s1 ! i) = map_option (\<lambda>q. ringAfter q (dueFor i (e # es))) (ppCQueue s ! i)"
      using assms(2-4) c ringAfter_Suc(1) [OF q, of "dueFor c es"] by (cases "i = c") auto
  qed (simp add: assms(4))
  have w: "slotWrite (the (ppCQueue s1 ! i)) (dueFor i (take j es)) x = slotWrite (the (ppCQueue s ! i)) (dueFor i (e # take j es)) x" for i j x
    using assms(2-4) c ringAfter_Suc(2) [OF q dueFor_take] by (cases "i = c") auto
  have "slotWrites es s1 = map (\<lambda>j. let c = unat (cwCqID ((e # es) ! j)) in
      slotWrite (the (ppCQueue s ! c)) (dueFor c (take j (e # es))) (cwEntry ((e # es) ! j))) (map Suc [0..<length es])"
    unfolding slotWrites_def by (simp add: w Let_def)
  moreover have "[0..<length (e # es)] = 0 # map Suc [0..<length es]" by (simp add: upt_conv_Cons map_Suc_upt del: upt_Suc)
  ultimately show "slotWrite q 0 (cwEntry e) # slotWrites es s1 = slotWrites (e # es) s"
    unfolding slotWrites_def [of "e # es"] using assms(2,3) by simp
qed

lemma coalesce_state [simp]: "ppCQueue (snd (coalesce now e iv s)) = ppCQueue s" "lCQFIFO (snd (coalesce now e iv s)) = lCQFIFO s"
  "ctOut (snd (coalesce now e iv s)) = ctOut s"
  by (auto simp: coalesce_def Let_def split: option.splits)

lemma slotWrite_0: "ringFits q n \<Longrightarrow> slotWrite q 0 e = WriteSlot \<lparr>sdBase = the (qBase q), sdOffset = ucast (qTail q) * qStride q\<rparr> (withPhase (cqPhase q) e)"
  by (simp add: slotWrite_def tailAfter_def phaseAfter_def ringFits_def word_less_nat_alt)

lemma postEntry_ok:
  assumes "unat (cwCqID e) < length (ppCQueue s)" "ppCQueue s ! unat (cwCqID e) = Some q" "CQueue_setData (cwEntry e) q = Inr (d, e', q')"
  shows "\<exists>s' ivs'. postEntry now e (s, ivs) = Inr (s', ivs') \<and> ppCQueue s' = (ppCQueue s)[unat (cwCqID e) := Some q'] \<and>
    lCQFIFO s' = lCQFIFO s \<and> ctOut s' = ctOut s @ [WriteSlot d e']"
  using assms by (auto simp: postEntry_def queueAt_def Let_def split_beta act_def)

lemma post_first:
  assumes "ringsFit (e # es) s"
  shows "\<exists>s1 ivs1. postEntry now e (s, ivs) = Inr (s1, ivs1) \<and> ringsFit es s1 \<and> lCQFIFO s1 = lCQFIFO s \<and>
    ringsAfter es s1 = ringsAfter (e # es) s \<and> ctOut s1 @ slotWrites es s1 = ctOut s @ slotWrites (e # es) s"
proof -
  let ?c = "unat (cwCqID e)"
  obtain q where q: "?c < length (ppCQueue s)" "ppCQueue s ! ?c = Some q" using assms by (auto simp: ringsFit_def)
  have f: "ringFits q (Suc (dueFor ?c es))" using assms q by (auto simp: ringsFit_def)
  note d = ringFits_step(1) [OF f, of "cwEntry e"]
  obtain s1 ivs1 where 1: "postEntry now e (s, ivs) = Inr (s1, ivs1)" "ppCQueue s1 = (ppCQueue s)[?c := Some (ringAfter q 1)]"
    "lCQFIFO s1 = lCQFIFO s" "ctOut s1 = ctOut s @ [slotWrite q 0 (cwEntry e)]"
    using postEntry_ok [OF q d] unfolding slotWrite_0 [OF f] by blast
  from ringsFit_Cons(3-5) [OF assms refl q(2) 1(2)] 1 show ?thesis by auto
qed

lemma post_all:
  "ringsFit es s \<Longrightarrow> \<exists>s' ivs'. foldR (postEntry now) es (s, ivs) = Inr (s', ivs') \<and> lCQFIFO s' = lCQFIFO s \<and>
     ppCQueue s' = ringsAfter es s \<and> ctOut s' = ctOut s @ slotWrites es s"
proof (induction es arbitrary: s ivs)
  case Nil
  then show ?case by (simp add: ringsAfter_Nil slotWrites_def)
next
  case (Cons e es)
  obtain s1 ivs1 where 1: "postEntry now e (s, ivs) = Inr (s1, ivs1)" "ringsFit es s1" "lCQFIFO s1 = lCQFIFO s"
    "ringsAfter es s1 = ringsAfter (e # es) s" "ctOut s1 @ slotWrites es s1 = ctOut s @ slotWrites (e # es) s"
    using post_first [OF Cons.prems] by blast
  obtain s' ivs' where "foldR (postEntry now) es (s1, ivs1) = Inr (s', ivs')" "lCQFIFO s' = lCQFIFO s1"
    "ppCQueue s' = ringsAfter es s1" "ctOut s' = ctOut s1 @ slotWrites es s1" using Cons.IH [OF 1(2)] by blast
  then show ?case using 1 by (intro exI [of _ s'] exI [of _ ivs']) simp
qed

section \<open>The completion event\<close>

lemma timedOut_rings: "lCQFIFO (fst (timedOut now x)) = lCQFIFO (fst x)" "ppCQueue (fst (timedOut now x)) = ppCQueue (fst x)"
  "ctOut (fst (timedOut now x)) = ctOut (fst x)"
  by (simp_all add: timedOut_def split_beta)

lemma completion_ok:
  assumes "due = filter (\<lambda>e. cwSubmitAt e \<le> now) (lCQFIFO s)" "ringsFit due s"
  shows "\<exists>s' ivs. completion now s = Inr s' \<and> lCQFIFO s' = filter (\<lambda>e. \<not> cwSubmitAt e \<le> now) (lCQFIFO s) \<and>
    ppCQueue s' = ringsAfter due s \<and>
    ctOut s' = ctOut s @ slotWrites due s @ (if due = [] then [] else [Execute_send ivs])"
proof -
  let ?s = "s\<lparr>lCQFIFO := filter (\<lambda>e. \<not> cwSubmitAt e \<le> now) (lCQFIFO s)\<rparr>"
  have "ringsFit due ?s" "ringsAfter due ?s = ringsAfter due s" "slotWrites due ?s = slotWrites due s"
    using assms(2) by (simp_all add: ringsFit_def ringsAfter_def slotWrites_def)
  with post_all [of due ?s now "[]"] obtain s1 ivs where 1: "foldR (postEntry now) due (?s, []) = Inr (s1, ivs)" "lCQFIFO s1 = lCQFIFO ?s"
    "ppCQueue s1 = ringsAfter due s" "ctOut s1 = ctOut s @ slotWrites due s" by auto
  define s2 ivs2 where "s2 = fst (timedOut now (s1, ivs))" and "ivs2 = snd (timedOut now (s1, ivs))"
  have "completion now s = Inr (if due = [] then s2 else act (Execute_send ivs2) s2)"
    using 1(1) by (simp add: completion_def Let_def split_beta s2_def ivs2_def assms(1))
  moreover have "ppCQueue s2 = ppCQueue s1" "lCQFIFO s2 = lCQFIFO s1" "ctOut s2 = ctOut s1"
    using timedOut_rings [of now "(s1, ivs)"] by (simp_all add: s2_def)
  ultimately show ?thesis using 1 by (auto simp: act_def)
qed

text \<open>
  Without an entry to post, the coalesced interrupts that have timed out are reset but not sent.
\<close>

lemma completion_nothing_due:
  assumes "\<forall>e\<in>set (lCQFIFO s). now < cwSubmitAt e"
  shows "completion now s = Inr (fst (timedOut now (s, [])))"
proof -
  have "filter (\<lambda>e. cwSubmitAt e \<le> now) (lCQFIFO s) = []" "filter (\<lambda>e. \<not> cwSubmitAt e \<le> now) (lCQFIFO s) = lCQFIFO s"
    using assms by (auto simp: filter_empty_conv not_le intro!: filter_True)
  then show ?thesis by (simp add: completion_def Let_def split_beta)
qed

lemma timedOut_lookup:
  "map_of (aggregationMap (fst (timedOut now (s, ivs)))) iv = map_option (\<lambda>i. if isTimedOut now i
     then i\<lparr>agNextTime := now + aggregationTime s, agRequestCount := 0, agPending := False\<rparr> else i) (map_of (aggregationMap s) iv)"
  by (simp add: timedOut_def map_of_map comp_def)

end
