(* ===== verification/Nvme_Props.thy ===== *)
theory Nvme_Props
  imports NvmeQueue_Inv NvmeNs_Inv NvmeCtrl_Inv NvmeCollect NvmeWork_Inv
begin

text \<open>
  The properties of the NVMe layer: the completion rings, the tables of queues, namespaces and
  their pages, collecting and handing out commands, and posting completions.
\<close>

section \<open>The completion ring\<close>

lemma cq_step_size: "cq_step s s' \<Longrightarrow> qSize (syQueue s') = qSize (syQueue s)"
  by (erule cq_stepE) (auto simp: CQueue_setData_def CQueue_setHead_def Let_def split: option.splits if_splits)

lemma cq_steps_size: "cq_step\<^sup>*\<^sup>* s s' \<Longrightarrow> qSize (syQueue s') = qSize (syQueue s)"
  by (induction rule: rtranclp_induct) (simp_all add: cq_step_size)

text \<open>
  C3. In every state that posting by the controller, reading by the host and ringing the
  doorbell can reach, what the host has read is what was posted, in order; it sees an entry by
  the phase tag exactly when one is unread, and that is the oldest unread one; and posting
  panics exactly when all slots but one hold entries that the host has not released.
\<close>

theorem completion_ring_delivers:
  assumes "0 < len" "16 \<le> stride" "stride \<le> 2 ^ 32" "\<forall>i. i < len \<longrightarrow> \<not> phaseTag (m (ucast i * stride))"
    and "cq_step\<^sup>*\<^sup>* (cq_start iv ien qid len prp1 stride m) s"
  shows "syConsumed s = take (length (syConsumed s)) (syPosted s) \<and>
    (hostSees s \<longleftrightarrow> length (syConsumed s) < length (syPosted s)) \<and>
    (hostSees s \<longrightarrow> syMem s (slotOffset (syQueue s) (syHostHead s)) = syPosted s ! length (syConsumed s)) \<and>
    (CQueue_setData e (syQueue s) = Inl (Panic ''Completion queue overflow'') \<longleftrightarrow>
       length (syPosted s) - syReleased s = unat len - 1) \<and>
    (length (syPosted s) - syReleased s \<noteq> unat len - 1 \<longrightarrow> (\<exists>x. CQueue_setData e (syQueue s) = Inr x))"
proof -
  have "cq_inv (cq_start iv ien qid len prp1 stride m)" using assms by (intro cq_inv_start) auto
  then have inv: "cq_inv s" by (rule cq_inv_reachable [OF assms(5)])
  have len: "qSize (syQueue s) = len" using cq_steps_size [OF assms(5)] by (simp add: cq_start_def setBase_def CQueue_new_def)
  have "syConsumed s = take (length (syConsumed s)) (syPosted s)" using inv by (simp add: cq_inv_def Let_def)
  then show ?thesis using hostSees_iff [OF inv] setData_overflow_iff [OF inv, of e] len by simp
qed

text \<open>A ring of two slots: one entry is posted, and the next one does not fit.\<close>

definition ringExample :: cq_sys where
  "ringExample = (cq_start 0 True 1 2 0 16 (\<lambda>_. CQEntry_new))\<lparr>
     syQueue := \<lparr>qID = 1, qHead = 0, qTail = 1, qSize = 2, qStride = 16, qBase = Some 0,
                 cqIen = True, cqPhase = True, cqInterruptVector = 0\<rparr>,
     syMem := (\<lambda>_. CQEntry_new)(0 := CQEntry_new\<lparr>cqStatus := 1\<rparr>), syPosted := [CQEntry_new\<lparr>cqStatus := 1\<rparr>]\<rparr>"

lemma ringExample_reached: "cq_step\<^sup>*\<^sup>* (cq_start 0 True 1 2 0 16 (\<lambda>_. CQEntry_new)) ringExample"
proof -
  have "CQueue_setData CQEntry_new (syQueue (cq_start 0 True 1 2 0 16 (\<lambda>_. CQEntry_new))) =
      Inr (\<lparr>sdBase = 0, sdOffset = 0\<rparr>, CQEntry_new\<lparr>cqStatus := 1\<rparr>, syQueue ringExample)"
    by (simp add: cq_start_def CQueue_setData_def setBase_def CQueue_new_def Let_def withPhase_def CQEntry_new_def ringExample_def)
  from cq_step.post [OF this] show ?thesis by (intro r_into_rtranclp) (simp add: ringExample_def cq_start_def)
qed

theorem completion_ring_delivers_witness:
  "hostSees ringExample \<and> CQueue_setData CQEntry_new (syQueue ringExample) = Inl (Panic ''Completion queue overflow'')"
  using completion_ring_delivers [of 2 16 "\<lambda>_. CQEntry_new" 0 True 1 0 ringExample CQEntry_new] ringExample_reached
  by (simp add: phaseTag_def CQEntry_new_def) (simp add: ringExample_def cq_start_def)

section \<open>The tables of queues\<close>

text \<open>
  C23. With as many submission as completion queues, whatever registers the host writes,
  doorbells it rings and queues it creates and deletes: every submission queue has its completion
  queue, and deleting a completion queue returns, succeeds exactly when it is an existing queue for
  I/O that no submission queue uses, and then changes nothing but its slot.
\<close>

theorem queue_tables_consistent:
  assumes "ncMaxIOCQueue g = ncMaxIOSQueue g" "(table_step g)\<^sup>*\<^sup>* (Controller_new g) s" "unat cqid < length (ppCQueue s)"
  shows "(\<forall>i q. i < length (ppSQueue s) \<and> ppSQueue s ! i = Some q \<longrightarrow>
      unat (sqCQID q) < length (ppCQueue s) \<and> ppCQueue s ! unat (sqCQID q) \<noteq> None) \<and>
    (\<exists>r s'. deleteCQueue cqid s = Inr (r, s') \<and> ppSQueue s' = ppSQueue s \<and>
      r = (if cqid = 0 \<or> ppCQueue s ! unat cqid = None then 1 else if cqUsed cqid s then 2 else 0) \<and>
      ppCQueue s' = (if r = 0 then (ppCQueue s)[unat cqid := None] else ppCQueue s))"
proof -
  have "ctrl_ok s" using assms(2) by (induction rule: rtranclp_induct) (auto intro: ctrl_ok_new assms(1) table_step_ok)
  then have t: "tables_ok s" by (simp add: ctrl_ok_def)
  note T = tables_okD [OF t]
  have "unat (sqCQID q) < length (ppCQueue s) \<and> ppCQueue s ! unat (sqCQID q) \<noteq> None"
    if "i < length (ppSQueue s)" "ppSQueue s ! i = Some q" for i q using T(1) T(2) [of i q] that by simp
  moreover from deleteCQueue_tables [OF t assms(3)] obtain r s' where "deleteCQueue cqid s = Inr (r, s')" "ppSQueue s' = ppSQueue s"
      "r = (if cqid = 0 \<or> ppCQueue s ! unat cqid = None then 1 else if cqUsed cqid s then 2 else 0)"
      "ppCQueue s' = (if r = 0 then (ppCQueue s)[unat cqid := None] else ppCQueue s)"
    by (cases "deleteCQueue cqid s") auto
  ultimately show ?thesis by auto
qed

text \<open>The host sets up the admin queues, and tries to delete a queue that does not exist.\<close>

definition configExample :: nvme_config where
  "configExample = \<lparr>ncMaxIOCQueue = 1, ncMaxIOSQueue = 1, ncWrrHigh = 2, ncWrrMedium = 2, ncMaxRequest = 4, ncWorkInterval = 8\<rparr>"

definition adminExample :: nvme_ctrl where
  "adminExample = createAdminQueues ((Controller_new configExample)\<lparr>adminCQueueBaseAddress := 4096,
     adminSQueueBaseAddress := 8192, adminQueueInited := 4\<rparr>)"

lemma adminExample_reached: "(table_step configExample)\<^sup>*\<^sup>* (Controller_new configExample) adminExample"
proof -
  let ?s = "(Controller_new configExample)\<lparr>adminCQueueBaseAddress := 4096, adminQueueInited := 2\<rparr>"
  have "writeRegister configExample 0 0x30 8 4096 (Controller_new configExample) = Inr ?s"
    by (simp add: writeRegister_def createAdminQueues_def Controller_new_def Let_def)
  moreover have "writeRegister configExample 0 0x28 8 8192 ?s = Inr adminExample"
    by (simp add: writeRegister_def adminExample_def Let_def)
  ultimately show ?thesis by (blast intro: table_step.register rtranclp.rtrancl_into_rtrancl)
qed

theorem queue_tables_consistent_witness:
  "\<exists>s'. deleteCQueue 1 adminExample = Inr (1, s') \<and> ppSQueue s' = ppSQueue adminExample \<and> ppCQueue s' = ppCQueue adminExample"
proof -
  have q: "length (ppCQueue adminExample) = 2" "ppCQueue adminExample ! 1 = None"
    by (simp_all add: adminExample_def createAdminQueues_def Controller_new_def configExample_def)
  show ?thesis
    using queue_tables_consistent [of configExample adminExample 1] adminExample_reached q by (auto simp: configExample_def)
qed

section \<open>Namespaces\<close>

text \<open>
  C15. Creating a namespace with a new identifier succeeds exactly when it needs at least one
  page, that many are not allocated and they are free in one stretch; it then gets the first
  such stretch, the accounts grow by its pages and all namespaces stay apart. Otherwise the
  subsystem is unchanged.
\<close>

theorem createNamespace_first_fit:
  assumes "ns_inv s" "requestedPages info s = Inr k" "nlp (nsRange info) = 0" "nsid \<notin> nsNSID ` set (lNamespaces s)"
  shows "if k \<noteq> 0 \<and> k \<le> ssTotalPages s - ssAllocatedPages s \<and> (\<exists>x. freePages s x (unat k))
    then \<exists>n s'. createNamespace nsid info s = Inr (True, nsInfo n, s') \<and> ns_inv s' \<and>
      s' = s\<lparr>ssAllocatedPages := ssAllocatedPages s + k, lNamespaces := sort_key nsNSID (lNamespaces s @ [n])\<rparr> \<and>
      nsNSID n = nsid \<and> nsSize (nsInfo n) = nsSize info \<and> nsLbaSize (nsInfo n) = nsLbaSize info \<and>
      nlp (nsRange (nsInfo n)) = k \<and> freePages s (unat (slpn (nsRange (nsInfo n)))) (unat k) \<and>
      (\<forall>x. freePages s x (unat k) \<longrightarrow> unat (slpn (nsRange (nsInfo n))) \<le> x)
    else \<exists>info'. createNamespace nsid info s = Inr (False, info', s)"
  using createNamespace_cases [OF assms(1,2) _ assms(4)] assms(3) by (auto split: if_splits)

definition nsExample :: "u64 \<Rightarrow> ns_info" where
  "nsExample sz = Information_new\<lparr>nsSize := sz, nsCapacity := sz, nsLbaSize := 512\<rparr>"

definition subsysExample :: subsys where
  "subsysExample = \<lparr>lNamespaces = [], queueAllocated = 0, ssPageSize = 4096, ssTotalPages = 2048, ssAllocatedPages = 0, commandCount = 0\<rparr>"

lemma subsysExample_free: "ns_inv subsysExample" "freePages subsysExample 0 512"
  by (simp_all add: ns_inv_def freePages_def subsysExample_def)

lemma nsExample_pages: "requestedPages (nsExample 4096) subsysExample = Inr 512"
  by (simp add: requestedPages_def nsExample_def subsysExample_def Information_new_def lbaSize_def)

theorem createNamespace_first_fit_witness:
  "\<exists>(n :: nvme_ns) s'. createNamespace 1 (nsExample 4096) subsysExample = Inr (True, nsInfo n, s') \<and> nlp (nsRange (nsInfo n)) = 512"
proof -
  have c: "(512 :: u64) \<noteq> 0 \<and> 512 \<le> ssTotalPages subsysExample - ssAllocatedPages subsysExample \<and> (\<exists>x. freePages subsysExample x (unat (512 :: u64)))"
    using subsysExample_free(2) by (auto simp: subsysExample_def)
  have "nlp (nsRange (nsExample 4096)) = 0" "1 \<notin> nsNSID ` set (lNamespaces subsysExample)"
    by (simp_all add: nsExample_def Information_new_def subsysExample_def)
  from createNamespace_first_fit [OF subsysExample_free(1) nsExample_pages this] show ?thesis unfolding if_P [OF c] by (elim exE conjE) (rule exI, rule exI, rule conjI, assumption, assumption)
qed

text \<open>
  C16. A namespace whose number of blocks is a multiple of the page size, as it was created: a
  request within its blocks is turned into exactly the pages its bytes lie on, these pages
  belong to the namespace and none belongs to another one.
\<close>

theorem namespace_isolation:
  assumes "ns_inv s" "nsid \<notin> nsNSID ` set (lNamespaces s)" "nlp (nsRange info) = 0"
    and "createNamespace nsid info s = Inr (True, info', s')"
    and "nsLbaSize info = lbaSize ! unat (nsLbaFormatIndex info)" "l = unat (nsLbaSize info)" "p = unat (ssPageSize s)"
    and "l dvd p \<or> p dvd l" "p dvd unat (nsSize info)" "unat (ssTotalPages s) + unat (nsSize info) * l + 2 * p < 2 ^ 64"
    and "0 < unat nlblk" "unat slba + unat nlblk \<le> unat (nsSize info)"
  shows "\<exists>n req'. n \<in> set (lNamespaces s') \<and> nsNSID n = nsid \<and> convertUnit s' n slba nlblk req = Inr req' \<and>
    unat (hrOffset req') = unat slba * l mod p \<and> unat (hrLength req') = unat nlblk * l \<and>
    rangePages (hrRange req') = (\<lambda>c. unat (slpn (nsRange info')) + c div p) ` {unat slba * l..<(unat slba + unat nlblk) * l} \<and>
    rangePages (hrRange req') \<subseteq> nsPages n \<and>
    (\<forall>m\<in>set (lNamespaces s'). nsNSID m \<noteq> nsid \<longrightarrow> rangePages (hrRange req') \<inter> nsPages m = {})"
proof -
  obtain k where k: "requestedPages info s = Inr k" using assms(4) by (cases "requestedPages info s") (auto simp: createNamespace_def)
  then have p0: "ssPageSize s \<noteq> 0" and f: "unat (nsLbaFormatIndex info) < 4"
    and kv: "k = nsSize info div ucast (ssPageSize s) * ucast (nsLbaSize info)"
    using assms(5) by (auto simp: requestedPages_def lbaSize_def split: if_splits)
  have "nsLbaSize info \<in> set lbaSize" using f unfolding assms(5) by (intro nth_mem) (simp add: lbaSize_def)
  then have l: "0 < l" unfolding assms(6) by (auto simp: lbaSize_def)
  have p: "0 < p" using p0 assms(7) by (simp add: unat_gt_0)
  from createNamespace_cases [OF assms(1) k _ assms(2)] assms(3,4)
  obtain n where n: "nsInfo n = info'" "ns_inv s'" "nsNSID n = nsid" "nlp (nsRange info') = k" "nsLbaSize info' = nsLbaSize info"
      "freePages s (unat (slpn (nsRange info'))) (unat k)"
    and s': "s' = s\<lparr>ssAllocatedPages := ssAllocatedPages s + k, lNamespaces := sort_key nsNSID (lNamespaces s @ [n])\<rparr>"
    by (auto split: if_splits)
  have "unat k = unat (nsSize info) div p * l"
  proof -
    have "unat (nsSize info) div p * l \<le> unat (nsSize info) * l" by simp
    also have "\<dots> < 2 ^ 64" using assms(10) by simp
    finally show ?thesis using assms(6,7) by (simp add: kv unat_word_ariths(2) unat_div)
  qed
  then have e: "rangeEnd (nsRange info') = unat (slpn (nsRange info')) + unat (nsSize info) div p * l" using n(4) by (simp add: rangeEnd_def)
  have b: "unat (slpn (nsRange info')) \<le> unat (ssTotalPages s)" using n(6) by (simp add: freePages_def)
  have le: "(unat slba + unat nlblk) * l \<le> unat (nsSize info) * l" using assms(12) by simp
  have h: "(unat slba + unat nlblk) * l + 2 * p < 2 ^ 64"
    "unat (slpn (nsRange (nsInfo n))) + (unat slba + unat nlblk) * l < 2 ^ 64" using b le assms(10) unfolding n(1) by linarith+
  have lp: "l = unat (nsLbaSize (nsInfo n))" "p = unat (ssPageSize s')" using assms(6,7) n(1,5) s' by simp_all
  obtain req' where r: "convertUnit s' n slba nlblk req = Inr req'" "unat (hrOffset req') = unat slba * l mod p" "unat (hrLength req') = unat nlblk * l"
    "rangePages (hrRange req') = (\<lambda>c. unat (slpn (nsRange info')) + c div p) ` {unat slba * l..<(unat slba + unat nlblk) * l}"
    using convertUnit_pages [OF l p assms(8) lp h refl assms(11)] unfolding n(1) by blast
  have sub: "rangePages (hrRange req') \<subseteq> nsPages n" unfolding r(4) n(1)
    by (rule blocks_on_own_pages [OF l p assms(9) e refl assms(12)])
  have mem: "n \<in> set (lNamespaces s')" using s' by simp
  have "rangePages (hrRange req') \<inter> nsPages m = {}" if "m \<in> set (lNamespaces s')" "nsNSID m \<noteq> nsid" for m
    using n(2,3) mem that sub by (fastforce simp: ns_inv_def)
  then show ?thesis using r sub n(3) mem by (intro exI [of _ n] exI [of _ req']) simp
qed

definition hilExample :: hil_request where
  "hilExample = \<lparr>hrReqID = 0, hrReqSubID = 0, hrOffset = 0, hrLength = 0, hrRange = \<lparr>slpn = 0, nlp = 0\<rparr>,
     hrUserID = 0, hrPrio = 0, hrOp = OP_READ, hrFinishedAt = 0\<rparr>"

theorem namespace_isolation_witness:
  "\<exists>n info' s' req'. createNamespace 1 (nsExample 4096) subsysExample = Inr (True, info', s') \<and> n \<in> set (lNamespaces s') \<and>
     convertUnit s' n 4088 8 hilExample = Inr req' \<and> rangePages (hrRange req') \<subseteq> nsPages n"
proof -
  have n: "nlp (nsRange (nsExample 4096)) = 0" "1 \<notin> nsNSID ` set (lNamespaces subsysExample)"
    "nsLbaSize (nsExample 4096) = lbaSize ! unat (nsLbaFormatIndex (nsExample 4096))"
    "nsLbaSize (nsExample 4096) = 512" "ssPageSize subsysExample = 4096" "nsSize (nsExample 4096) = 4096" "ssTotalPages subsysExample = 2048"
    by (simp_all add: nsExample_def Information_new_def subsysExample_def lbaSize_def)
  have f: "(512 :: u64) \<noteq> 0" "512 \<le> ssTotalPages subsysExample - ssAllocatedPages subsysExample" "freePages subsysExample 0 (unat (512 :: u64))"
    using subsysExample_free(2) by (simp_all add: subsysExample_def)
  obtain n :: nvme_ns and s' where "createNamespace 1 (nsExample 4096) subsysExample = Inr (True, nsInfo n, s')"
    by (rule createNamespace_success [OF subsysExample_free(1) nsExample_pages n(2) f])
  then show ?thesis
    using namespace_isolation [OF subsysExample_free(1) n(2,1) _ n(3) refl refl, of _ s' 8 4088 hilExample] n(4-7) by auto
qed

section \<open>Collecting commands\<close>

text \<open>How many entries of a queue a collection takes: all, but none of low priority under weighted arbitration.\<close>

definition taken :: "nvme_ctrl \<Rightarrow> nat \<Rightarrow> squeue \<Rightarrow> nat" where
  "taken s i q = (if arbitration s = 0 \<or> notLow i (sqPriority q) then items q else 0)"

definition rings_ok :: "nvme_ctrl \<Rightarrow> bool" where
  "rings_ok s \<longleftrightarrow> 0 < length (ppSQueue s) \<and> length (ppSQueue s) < 2 ^ 16 \<and> ppSQueue s ! 0 \<noteq> None \<and>
     (\<forall>q. Some q \<in> set (ppSQueue s) \<longrightarrow> sq_ok q)"

definition fetchesOf :: "nat \<Rightarrow> action list \<Rightarrow> fetch list" where
  "fetchesOf i as = concat (map (\<lambda>a. case a of FetchSlot f \<Rightarrow> if feQueue f = i then [f] else [] | _ \<Rightarrow> []) as)"

lemma fetchesOf_map: "fetchesOf i (map FetchSlot out) = filter (\<lambda>f. feQueue f = i) out"
  by (induction out) (simp_all add: fetchesOf_def)

lemma fetchesOf_append [simp]: "fetchesOf i (xs @ ys) = fetchesOf i xs @ fetchesOf i ys" "fetchesOf i [CollectDone] = []" "fetchesOf i [] = []"
  by (simp_all add: fetchesOf_def)

lemma collect_methods:
  assumes "rings_ok s" "arbitration s = 0 \<or> arbitration s = 1"
  obtains qs out where "(if arbitration s = 0 then collectRR (ppSQueue s, []) else collectWRR g (ppSQueue s, [])) = Some (Inr (qs, out))"
    "length qs = length (ppSQueue s)"
    "\<And>i. i < length qs \<Longrightarrow> ppSQueue s ! i = None \<Longrightarrow> qs ! i = None \<and> filter (\<lambda>f. feQueue f = i) out = []"
    "\<And>i q. i < length qs \<Longrightarrow> ppSQueue s ! i = Some q \<Longrightarrow>
       qs ! i = Some (adv (taken s i q) q) \<and> filter (\<lambda>f. feQueue f = i) out = map (fetchAt i q) [0..<taken s i q]"
proof -
  let ?st = "(ppSQueue s, []) :: collect" and ?E = "\<lambda>i p. arbitration s = 0 \<or> notLow i p"
  have t: "tab_ok ?st" "adminOk (length (ppSQueue s)) ?st" using assms(1) by (auto simp: rings_ok_def tab_ok_def adminOk_def tabOk_def)
  obtain qs out where r: "(if arbitration s = 0 then collectRR ?st else collectWRR g ?st) = Some (Inr (qs, out))"
    "collected ?E ?st (qs, out)" "load ?E (qs, out) = 0"
    using collectRR_ok [of "length (ppSQueue s)" ?st] collectWRR_ok [OF t(2), of g] t(2) assms(2)
    by (cases "arbitration s = 0") (auto simp: adminOk_def)
  have len: "length qs = length (ppSQueue s)" using r(2) by (simp add: collected_def)
  moreover have "qs ! i = None \<and> filter (\<lambda>f. feQueue f = i) out = []" if "i < length qs" "ppSQueue s ! i = None" for i
    using r(2) that len by (force simp: collected_def collectedAt_def fetched_def)
  moreover have "qs ! i = Some (adv (taken s i q) q) \<and> filter (\<lambda>f. feQueue f = i) out = map (fetchAt i q) [0..<taken s i q]"
    if "i < length qs" "ppSQueue s ! i = Some q" for i q
    using collected_all [OF t(1) r(2,3), of i q] that len by (simp add: taken_def fetched_def)
  ultimately show ?thesis using r(1) that by blast
qed

lemma collectSQueue_ok:
  assumes "ctStatus s AND 1 \<noteq> 0" "arbitration s = 0 \<or> arbitration s = 1" "rings_ok s"
  shows "\<exists>s' new. collectSQueue g s = Some (Inr s') \<and> ctOut s' = ctOut s @ new \<and>
      length (ppSQueue s') = length (ppSQueue s) \<and>
      (CollectDone \<in> set new \<longleftrightarrow> (\<forall>f. FetchSlot f \<notin> set new)) \<and>
      (\<forall>i. i < length (ppSQueue s) \<longrightarrow> (case ppSQueue s ! i of
          None \<Rightarrow> ppSQueue s' ! i = None \<and> fetchesOf i new = []
        | Some q \<Rightarrow> ppSQueue s' ! i = Some (adv (taken s i q) q) \<and> fetchesOf i new = map (fetchAt i q) [0..<taken s i q]))"
proof -
  obtain qs out where r: "(if arbitration s = 0 then collectRR (ppSQueue s, []) else collectWRR g (ppSQueue s, [])) = Some (Inr (qs, out))"
    and len: "length qs = length (ppSQueue s)"
    and none: "\<And>i. i < length qs \<Longrightarrow> ppSQueue s ! i = None \<Longrightarrow> qs ! i = None \<and> filter (\<lambda>f. feQueue f = i) out = []"
    and some: "\<And>i q. i < length qs \<Longrightarrow> ppSQueue s ! i = Some q \<Longrightarrow>
       qs ! i = Some (adv (taken s i q) q) \<and> filter (\<lambda>f. feQueue f = i) out = map (fetchAt i q) [0..<taken s i q]"
    using collect_methods [OF assms(3,2), of g] by blast
  let ?new = "map FetchSlot out @ (if out = [] then [CollectDone] else [])"
  let ?s = "(if out = [] then act CollectDone else id) (s\<lparr>ppSQueue := qs, ctCounter := length out, ctOut := ctOut s @ map FetchSlot out\<rparr>)"
  have c: "collectSQueue g s = Some (Inr ?s)" using r assms by (auto simp: collectSQueue_def thenLoop_def Let_def split: if_splits)
  have "case ppSQueue s ! i of None \<Rightarrow> ppSQueue ?s ! i = None \<and> fetchesOf i ?new = []
      | Some q \<Rightarrow> ppSQueue ?s ! i = Some (adv (taken s i q) q) \<and> fetchesOf i ?new = map (fetchAt i q) [0..<taken s i q]"
    if "i < length (ppSQueue s)" for i
    using none [of i] some [of i] that len by (cases "ppSQueue s ! i") (auto simp: fetchesOf_map act_def)
  moreover have "CollectDone \<in> set ?new \<longleftrightarrow> (\<forall>f. FetchSlot f \<notin> set ?new)" by (cases out) auto
  moreover have "ctOut ?s = ctOut s @ ?new" "length (ppSQueue ?s) = length (ppSQueue s)" using len by (auto simp: act_def)
  ultimately show "\<exists>s' new. collectSQueue g s = Some (Inr s') \<and> ctOut s' = ctOut s @ new \<and>
      length (ppSQueue s') = length (ppSQueue s) \<and>
      (CollectDone \<in> set new \<longleftrightarrow> (\<forall>f. FetchSlot f \<notin> set new)) \<and>
      (\<forall>i. i < length (ppSQueue s) \<longrightarrow> (case ppSQueue s ! i of
          None \<Rightarrow> ppSQueue s' ! i = None \<and> fetchesOf i new = []
        | Some q \<Rightarrow> ppSQueue s' ! i = Some (adv (taken s i q) q) \<and> fetchesOf i new = map (fetchAt i q) [0..<taken s i q]))"
    using c by blast
qed

text \<open>
  With a tail behind the end of its ring, which the doorbell does not check, a collection under
  round robin does not return; under weighted arbitration the queues of low priority are not touched.
\<close>

lemma collectSQueue_diverges:
  assumes "ctStatus s AND 1 \<noteq> 0" "arbitration s = 0" "length (ppSQueue s) < 2 ^ 16" "stuckAt i (ppSQueue s, [])"
  shows "collectSQueue g s = None"
  using assms collectRR_diverges [of i "(ppSQueue s, [])"] by (simp add: collectSQueue_def thenLoop_def)

lemma low_priority_never_fetched:
  assumes "ctStatus s AND 1 \<noteq> 0" "arbitration s = 1" "rings_ok s"
    and "0 < i" "i < length (ppSQueue s)" "ppSQueue s ! i = Some q" "sqPriority q = PRIORITY_LOW"
  shows "\<exists>s' new. collectSQueue g s = Some (Inr s') \<and> ctOut s' = ctOut s @ new \<and> ppSQueue s' ! i = Some q \<and> fetchesOf i new = []"
proof -
  have "sq_ok q" using assms(3,5,6) by (auto simp: rings_ok_def) (metis nth_mem)
  moreover have "taken s i q = 0" using assms(2,4,7)
    by (simp add: taken_def PRIORITY_LOW_def PRIORITY_URGENT_def PRIORITY_HIGH_def PRIORITY_MEDIUM_def)
  moreover obtain s' new where "collectSQueue g s = Some (Inr s')" "ctOut s' = ctOut s @ new"
    "ppSQueue s' ! i = Some (adv (taken s i q) q) \<and> fetchesOf i new = map (fetchAt i q) [0..<taken s i q]"
    using collectSQueue_ok [OF assms(1) disjI2 [OF assms(2)] assms(3), of g] assms(5,6) by fastforce
  ultimately show ?thesis by auto
qed

text \<open>
  C22. A collection on rings whose heads and tails lie in the ring returns; from every queue, under
  weighted arbitration from the admin queue and every queue of urgent, high or medium priority, it
  fetches all waiting entries, oldest first, and moves the head behind them; it is over at once
  exactly when nothing was fetched.
\<close>

theorem collectSQueue_correct:
  assumes "ctStatus s AND 1 \<noteq> 0" "arbitration s = 0 \<or> arbitration s = 1" "rings_ok s"
  shows "\<exists>s' new. collectSQueue g s = Some (Inr s') \<and> ctOut s' = ctOut s @ new \<and>
      length (ppSQueue s') = length (ppSQueue s) \<and>
      (CollectDone \<in> set new \<longleftrightarrow> (\<forall>f. FetchSlot f \<notin> set new)) \<and>
      (\<forall>i. i < length (ppSQueue s) \<longrightarrow> (case ppSQueue s ! i of
          None \<Rightarrow> ppSQueue s' ! i = None \<and> fetchesOf i new = []
        | Some q \<Rightarrow> arbitration s = 0 \<or> notLow i (sqPriority q) \<longrightarrow>
            ppSQueue s' ! i = Some (adv (items q) q) \<and> fetchesOf i new = map (fetchAt i q) [0..<items q]))"
proof -
  obtain s' new where c: "collectSQueue g s = Some (Inr s')" "ctOut s' = ctOut s @ new" "length (ppSQueue s') = length (ppSQueue s)"
    "CollectDone \<in> set new \<longleftrightarrow> (\<forall>f. FetchSlot f \<notin> set new)"
    and q: "\<And>i. i < length (ppSQueue s) \<Longrightarrow> case ppSQueue s ! i of
          None \<Rightarrow> ppSQueue s' ! i = None \<and> fetchesOf i new = []
        | Some q \<Rightarrow> ppSQueue s' ! i = Some (adv (taken s i q) q) \<and> fetchesOf i new = map (fetchAt i q) [0..<taken s i q]"
    using collectSQueue_ok [OF assms, of g] by blast
  have "case ppSQueue s ! i of None \<Rightarrow> ppSQueue s' ! i = None \<and> fetchesOf i new = []
      | Some q \<Rightarrow> arbitration s = 0 \<or> notLow i (sqPriority q) \<longrightarrow>
          ppSQueue s' ! i = Some (adv (items q) q) \<and> fetchesOf i new = map (fetchAt i q) [0..<items q]"
    if "i < length (ppSQueue s)" for i
    using q [OF that] by (cases "ppSQueue s ! i") (auto simp: taken_def)
  then show ?thesis using c by blast
qed

text \<open>A controller with two queues of two waiting entries; the second one has high priority.\<close>

definition sqExample :: "u8 \<Rightarrow> squeue" where
  "sqExample pri = (setBase 0 64 (SQueue_new 0 pri 0 4))\<lparr>qTail := 2\<rparr>"

definition ctrlExample :: nvme_ctrl where
  "ctrlExample = (Controller_new configExample)\<lparr>ctStatus := 1, arbitration := 1,
     ppSQueue := [Some (sqExample 0), Some (sqExample 1)]\<rparr>"

theorem collectSQueue_correct_witness:
  "\<exists>s' new. collectSQueue configExample ctrlExample = Some (Inr s') \<and> ctOut s' = ctOut ctrlExample @ new \<and>
     ppSQueue s' ! 0 = Some (adv 2 (sqExample 0)) \<and> fetchesOf 0 new = map (fetchAt 0 (sqExample 0)) [0..<2] \<and>
     ppSQueue s' ! 1 = Some (adv 2 (sqExample 1)) \<and> fetchesOf 1 new = map (fetchAt 1 (sqExample 1)) [0..<2]"
proof -
  have q: "items (sqExample p) = 2" "sq_ok (sqExample p)" "sqPriority (sqExample p) = p" for p
    by (simp_all add: items_def sq_ok_def sqExample_def setBase_def SQueue_new_def getItemCount_def)
  have s: "ctStatus ctrlExample AND 1 \<noteq> 0" "arbitration ctrlExample = 1" "ppSQueue ctrlExample = [Some (sqExample 0), Some (sqExample 1)]"
    by (simp_all add: ctrlExample_def)
  have r: "rings_ok ctrlExample" using q(2) by (auto simp: rings_ok_def s(3))
  have len: "length (ppSQueue ctrlExample) = 2" by (simp add: s(3))
  from collectSQueue_correct [OF s(1) disjI2 [OF s(2)] r, of configExample]
  obtain s' new where c: "collectSQueue configExample ctrlExample = Some (Inr s')" "ctOut s' = ctOut ctrlExample @ new"
    and e: "\<forall>i. i < 2 \<longrightarrow> (case ppSQueue ctrlExample ! i of
          None \<Rightarrow> ppSQueue s' ! i = None \<and> fetchesOf i new = []
        | Some q \<Rightarrow> arbitration ctrlExample = 0 \<or> notLow i (sqPriority q) \<longrightarrow>
            ppSQueue s' ! i = Some (adv (items q) q) \<and> fetchesOf i new = map (fetchAt i q) [0..<items q])"
    unfolding len by (elim exE conjE) (rule that)
  show ?thesis using c spec [OF e, of 0] spec [OF e, of 1] q(1,3) by (intro exI [of _ s'] exI [of _ new]) (simp add: s(3) PRIORITY_HIGH_def)
qed

section \<open>Handing out commands\<close>

text \<open>
  C31. A staged command of a user that the subsystem can serve is handed out before there were as
  many request events as users, those that joined meanwhile included, whatever the other users may
  do with their turns and whatever commands of users other than 0 are fetched between the events;
  no command of the user 0, who goes first, is staged.
\<close>

theorem handleRequest_no_starvation:
  assumes "distinct (rrUsers (r 0))" "k \<in> set (rrUsers (r 0))" "userQueue 0 (r 0) = []" "userQueue k (r 0) = w # ws"
    and "\<forall>i n. neCanServe (E i) k n" "\<forall>i. arrival\<^sup>*\<^sup>* (handleRequest g (E i) (now i) (r i)) (r (Suc i))"
    and "length (rrUsers (r n)) \<le> n"
  shows "\<exists>i<n. lastUid (handleRequest g (E i) (now i) (r i)) = k \<and>
    (\<exists>acts. ctOut (handleRequest g (E i) (now i) (r i)) = ctOut (r i) @ Execute_submitCommand w # acts)"
proof -
  let ?t = "\<lambda>i. handleRequest g (E i) (now i) (r i)"
  have "users.waits k w (r 0)" using assms(1-4) by (simp add: users.waits_def users_ok_def)
  moreover have "request_step g k (r i) (?t i)" for i using assms(5) by (auto simp: request_step_def)
  ultimately obtain i where i: "i < n" "last (rrOrder (?t i)) = k" "users.waits k w (r i)"
    using users.served_in_turn [of k w r g ?t n] assms(6,7) by (metis rrOrder_length)
  have s: "users_ok (r i)" "k \<in> set (rrOrder (r i))" "hd (userQueue k (r i)) = w" "servable (E i) (r i) k"
    using i(3) assms(5) unfolding users.waits_def servable_def by auto
  obtain j where "last (rrOrder (?t i)) = j" "fst (selectRequest (E i) (r i)) = Some (hd (userQueue j (r i)))" "lastUid (?t i) = j"
    using request_served [OF s(1,4,2) refl, of g "now i"] by (metis last_appendR last_snoc append_is_Nil_conv not_Cons_self2)
  then have "fst (selectRequest (E i) (r i)) = Some w" "lastUid (?t i) = k" using i(2) s(3) by auto
  then show ?thesis using i(1) handleRequest_hands_out [of "E i" "r i" w g "now i"] by blast
qed

definition staged :: nvme_ctrl where
  "staged = (Controller_new configExample)\<lparr>rrUsers := [5, 7],
     lSQByUser := [(5, [SQEntryWrapper SQEntry_new 1 1 0 0]), (7, [SQEntryWrapper SQEntry_new 2 1 0 0])]\<rparr>"

definition stagedEnv :: nvme_env where
  "stagedEnv = \<lparr>neLbaSize = \<lambda>n. 512, neCanServe = \<lambda>u n. u = 7\<rparr>"

fun stagedRun :: "nat \<Rightarrow> nvme_ctrl" where
  "stagedRun 0 = staged"
| "stagedRun (Suc i) = handleRequest configExample stagedEnv 0 (stagedRun i)"

theorem handleRequest_no_starvation_witness:
  "lastUid (stagedRun 1) = 7 \<or> lastUid (stagedRun 2) = 7"
proof -
  have q: "rrUsers staged = [5, 7]" "userQueue 7 staged = [SQEntryWrapper SQEntry_new 2 1 0 0]" "userQueue 0 staged = []"
    by (simp_all add: staged_def userQueue_def)
  have s: "length (rrUsers (stagedRun 2)) = 2" "neCanServe stagedEnv 7 n" for n
    using q(1) by (simp_all add: numeral_2_eq_2 handleRequest_users stagedEnv_def)
  obtain i where "i < 2" "lastUid (stagedRun (Suc i)) = 7"
    using handleRequest_no_starvation [of stagedRun 7 _ _ "\<lambda>_. stagedEnv" configExample "\<lambda>_. 0" 2] q s by auto
  then have "i = 0 \<or> i = 1" by auto
  then show ?thesis using \<open>lastUid (stagedRun (Suc i)) = 7\<close> by (auto simp: numeral_2_eq_2)
qed

section \<open>Posting completions\<close>

text \<open>
  C40. When every ring has its ends in the ring and room for the completions that are due, the
  completion event writes each of them, in the order of the list, into the slot behind the earlier
  ones of its ring, with the phase tag of that slot, and then sends the interrupts; the tails move
  on by the number of entries and the other completions stay. The list is in order of time, and is
  kept so by submitting a completion.
\<close>

theorem completion_posts_due:
  assumes "due = filter (\<lambda>e. cwSubmitAt e \<le> now) (lCQFIFO s)" "ringsFit due s"
  shows "\<exists>s' ivs. completion now s = Inr s' \<and> lCQFIFO s' = filter (\<lambda>e. \<not> cwSubmitAt e \<le> now) (lCQFIFO s) \<and>
    ppCQueue s' = ringsAfter due s \<and>
    ctOut s' = ctOut s @ slotWrites due s @ (if due = [] then [] else [Execute_send ivs]) \<and>
    (cq_sorted s \<longrightarrow> cq_sorted s' \<and> (\<forall>t e s''. submitCQ t e s = Inr s'' \<longrightarrow> cq_sorted s''))"
proof -
  obtain s' ivs where s': "completion now s = Inr s'" "lCQFIFO s' = filter (\<lambda>e. \<not> cwSubmitAt e \<le> now) (lCQFIFO s)"
    "ppCQueue s' = ringsAfter due s" "ctOut s' = ctOut s @ slotWrites due s @ (if due = [] then [] else [Execute_send ivs])"
    using completion_ok [OF assms] by blast
  moreover have "cq_sorted s \<Longrightarrow> cq_sorted s'" unfolding cq_sorted_def s'(2) by (rule sorted_filter)
  ultimately show ?thesis using submitCQ_sorted by blast
qed

definition doneExample :: nvme_ctrl where
  "doneExample = adminExample\<lparr>lCQFIFO := [CQEntryWrapper (SQEntryWrapper SQEntry_new 0 0 0 0), CQEntryWrapper (SQEntryWrapper SQEntry_new 3 0 0 0)],
     ppCQueue := [Some (setBase 64 16 (CQueue_new 0 True 0 4)\<lparr>qHead := 3, qTail := 3\<rparr>), None]\<rparr>"

text \<open>Two entries, the second one behind the end of the ring and with the other phase tag.\<close>

theorem completion_posts_due_witness:
  "\<exists>s' ivs. completion 5 doneExample = Inr s' \<and> lCQFIFO s' = [] \<and>
     ctOut s' = ctOut doneExample @ [WriteSlot \<lparr>sdBase = 64, sdOffset = 48\<rparr> (CQEntry_new\<lparr>cqStatus := 1\<rparr>),
       WriteSlot \<lparr>sdBase = 64, sdOffset = 0\<rparr> (CQEntry_new\<lparr>cqSqID := 3\<rparr>), Execute_send ivs]"
proof -
  let ?q = "setBase 64 16 (CQueue_new 0 True 0 4)\<lparr>qHead := 3, qTail := 3\<rparr>"
  let ?e = "CQEntryWrapper (SQEntryWrapper SQEntry_new 0 0 0 0)" and ?f = "CQEntryWrapper (SQEntryWrapper SQEntry_new 3 0 0 0)"
  have e: "lCQFIFO doneExample = [?e, ?f]" "cwSubmitAt ?e = 0" "cwSubmitAt ?f = 0" "cwCqID ?e = 0" "cwCqID ?f = 0"
    "cwEntry ?e = CQEntry_new" "cwEntry ?f = CQEntry_new\<lparr>cqSqID := 3\<rparr>"
    by (simp_all add: doneExample_def CQEntryWrapper_def SQEntryWrapper_def SQEntry_new_def CQEntry_new_def)
  have q: "ppCQueue doneExample = [Some ?q, None]" "ringFits ?q 2"
    by (simp_all add: doneExample_def ringFits_def setBase_def CQueue_new_def)
  have w: "slotWrite ?q 0 CQEntry_new = WriteSlot \<lparr>sdBase = 64, sdOffset = 48\<rparr> (CQEntry_new\<lparr>cqStatus := 1\<rparr>)"
    "slotWrite ?q 1 (CQEntry_new\<lparr>cqSqID := 3\<rparr>) = WriteSlot \<lparr>sdBase = 64, sdOffset = 0\<rparr> (CQEntry_new\<lparr>cqSqID := 3\<rparr>)"
    by (simp_all add: slotWrite_def tailAfter_def phaseAfter_def setBase_def CQueue_new_def withPhase_def CQEntry_new_def)
  have "slotWrites [?e, ?f] doneExample = [slotWrite ?q 0 CQEntry_new, slotWrite ?q 1 (CQEntry_new\<lparr>cqSqID := 3\<rparr>)]"
    using e q(1) by (simp add: slotWrites_def upt_rec)
  moreover have "ringsFit [?e, ?f] doneExample" using e q by (auto simp: ringsFit_def less_Suc_eq numeral_2_eq_2)
  moreover have "[?e, ?f] = filter (\<lambda>e. cwSubmitAt e \<le> 5) (lCQFIFO doneExample)" "filter (\<lambda>e. \<not> cwSubmitAt e \<le> 5) (lCQFIFO doneExample) = []" using e by simp_all
  ultimately show ?thesis using completion_posts_due [of "[?e, ?f]" 5 doneExample] w by fastforce
qed

end
