(* ===== verification/NvmeAdmin_Props.thy ===== *)
theory NvmeAdmin_Props
  imports NvmeAdmin_Inv Nvme_Props
begin

text \<open>The properties of the admin commands of the NVMe subsystem.\<close>

section \<open>Answers\<close>

text \<open>
  C9. Every command handed to the subsystem is answered once, under its own identifiers, with
  these exceptions: a queue creation that the controller refuses and a namespace command with an
  invalid selection are never answered, and the health log of a single namespace is answered twice.
\<close>

theorem submitCommand_answers:
  assumes "Subsystem_submitCommand E now req s = Inr (out, s')"
  shows "length out = (if unanswered req s then 0 else if answeredTwice req then 2 else 1) \<and> list_all (replyFor req) out"
  using submit_answers [OF assms] submit_ofRequest [OF assms] by blast

definition adminEnvExample :: admin_env where
  "adminEnvExample = \<lparr>aeConfig = configExample, aeWriteCache = True, aeVID = 1, aeSSVID = 2, aeUsedPages = \<lambda>a b. 0\<rparr>"

definition sysExample :: nvme_sys where
  "sysExample = \<lparr>sysCtrl = adminExample, sysSub = subsysExample\<rparr>"

text \<open>The creation of a submission queue whose completion queue does not exist.\<close>

definition createExample :: sq_wrapper where
  "createExample = SQEntryWrapper (SQEntry_new\<lparr>opcode := OPCODE_CREATE_IO_SQUEUE, dword10 := 1, dword11 := 0x10000\<rparr>) 0 0 0 0"

lemma createExample_refused:
  "Subsystem_submitCommand adminEnvExample 0 createExample sysExample = Inr ([], sysExample\<lparr>sysSub := subsysExample\<lparr>commandCount := 1\<rparr>\<rparr>)"
  by (simp add: Subsystem_submitCommand_def adminCommand_def admin_createSQueue_def createExample_def SQEntryWrapper_def
      SQEntry_new_def opcode_defs sysExample_def maxQueueEntry_def adminExample_def createAdminQueues_def Controller_new_def
      configExample_def createSQueue_def queueAt_def subsysExample_def Let_def)

theorem submitCommand_answers_witness: "unanswered createExample sysExample"
  using submitCommand_answers [OF createExample_refused] by (auto split: if_splits)

section \<open>Consistency\<close>

text \<open>
  C14. Whatever commands are submitted and in whatever order the transfers they wait for end, the
  queue tables stay consistent and the namespaces apart, as long as the host does not ask for a
  second namespace while the first is being made; the identifier kept for it is not in use when
  its transfer ends.
\<close>

theorem admin_commands_consistent:
  assumes "sys_ok s" "NSID_NONE \<notin> nsids s" "NSID_ALL \<notin> nsids s" "admin_step\<^sup>*\<^sup>* (s, []) (s', pend)"
  shows "sys_ok s' \<and> NSID_NONE \<notin> nsids s' \<and> NSID_ALL \<notin> nsids s' \<and> (\<forall>nid. CreateNs nid \<in> set pend \<longrightarrow> nid \<notin> nsids s')"
proof -
  have "admin_inv (s, [])" using assms(1-3) by (simp add: admin_inv_def)
  with assms(4) have "admin_inv (s', pend)"
    by (induction rule: rtranclp_induct2) (auto intro: admin_step_inv)
  then show ?thesis by (simp add: admin_inv_def)
qed

lemma sysExample_ok: "sys_ok sysExample"
proof -
  have eq: "ncMaxIOCQueue configExample = ncMaxIOSQueue configExample" by (simp add: configExample_def)
  from adminExample_reached have "ctrl_ok adminExample"
    by (induction rule: rtranclp_induct) (auto intro: ctrl_ok_new [OF eq] table_step_ok)
  then show ?thesis using subsysExample_free(1)
    by (simp add: sys_ok_def sysExample_def adminExample_def createAdminQueues_def Controller_new_def configExample_def)
qed

definition newNsExample :: sq_wrapper where
  "newNsExample = SQEntryWrapper (SQEntry_new\<lparr>opcode := OPCODE_NAMESPACE_MANAGEMENT\<rparr>) 0 0 0 0"

lemma newNsExample_submitted:
  "Subsystem_submitCommand adminEnvExample 0 newNsExample sysExample =
    Inr ([FetchData newNsExample (CreateNs 1) (CQEntryWrapper newNsExample)], sysExample\<lparr>sysSub := subsysExample\<lparr>commandCount := 1\<rparr>\<rparr>)"
  by (simp add: Subsystem_submitCommand_def adminCommand_def admin_namespaceManagement_def newNsExample_def SQEntryWrapper_def
      SQEntry_new_def opcode_defs sysExample_def subsysExample_def Let_def NSID_NONE_def NSID_LOWEST_def NSID_ALL_def)

theorem admin_commands_consistent_witness:
  "sys_ok (sysExample\<lparr>sysSub := subsysExample\<lparr>commandCount := 1\<rparr>\<rparr>)"
proof -
  have "admin_step\<^sup>*\<^sup>* (sysExample, []) (sysExample\<lparr>sysSub := subsysExample\<lparr>commandCount := 1\<rparr>\<rparr>, [CreateNs 1])"
    using admin_step.submit [OF newNsExample_submitted, of "[]"] by (simp add: r_into_rtranclp)
  moreover have "nsids sysExample = {}" by (simp add: nsids_def sysExample_def subsysExample_def)
  ultimately show ?thesis using admin_commands_consistent [OF sysExample_ok] by blast
qed

section \<open>Features\<close>

text \<open>
  After a successful Set Features of the number of queues, the interrupt coalescing or an
  interrupt vector, Get Features returns the value that was set: the number of queues cut to what the
  controller has, the others with their reserved bits cleared.
\<close>

theorem features_read_back:
  assumes "dword10 (swEntry a) = f" "dword10 (swEntry b) = f" "f = 7 \<or> f = 8 \<or> f = 9" "v = dword11 (swEntry a)"
    and "admin_setFeatures E a s = Inr (True, [Respond r], s')"
    and "f = 7 \<longrightarrow> v AND 0xFFFF \<noteq> 0xFFFF \<and> v AND 0xFFFF0000 \<noteq> 0xFFFF0000"
    and "f = 9 \<longrightarrow> dword11 (swEntry b) AND 0xFFFF = v AND 0xFFFF \<and> map_of (aggregationMap (sysCtrl s)) (ucast (v AND 0xFFFF)) \<noteq> None"
  shows "admin_getFeatures E b s' = Inr (True, [Respond (setDword0 (featureValue E f v) (CQEntryWrapper b))], s')"
  using features_back [OF assms(1-5)] assms(6,7) by blast

definition setExample :: sq_wrapper where
  "setExample = SQEntryWrapper (SQEntry_new\<lparr>opcode := OPCODE_SET_FEATURES, dword10 := 7, dword11 := 0x00040004\<rparr>) 0 0 0 0"

definition getExample :: sq_wrapper where
  "getExample = SQEntryWrapper (SQEntry_new\<lparr>opcode := OPCODE_GET_FEATURES, dword10 := 7\<rparr>) 0 0 0 0"

theorem features_read_back_witness:
  "admin_getFeatures adminEnvExample getExample (sysExample\<lparr>sysSub := subsysExample\<lparr>queueAllocated := 0\<rparr>\<rparr>) =
    Inr (True, [Respond (setDword0 0 (CQEntryWrapper getExample))], sysExample\<lparr>sysSub := subsysExample\<lparr>queueAllocated := 0\<rparr>\<rparr>)"
proof -
  have l: "limitQueues configExample 0x00040004 = 0" by (simp add: limitQueues_def configExample_def Let_def)
  have "admin_setFeatures adminEnvExample setExample sysExample =
      Inr (True, [Respond (setDword0 0 (CQEntryWrapper setExample))], sysExample\<lparr>sysSub := subsysExample\<lparr>queueAllocated := 0\<rparr>\<rparr>)"
    using l by (simp add: admin_setFeatures_def setExample_def SQEntryWrapper_def SQEntry_new_def adminEnvExample_def sysExample_def Let_def)
  from features_read_back [OF _ _ _ refl this, of 7 getExample] l show ?thesis
    by (simp add: setExample_def getExample_def SQEntryWrapper_def SQEntry_new_def featureValue_def adminEnvExample_def)
qed

end
