(* ===== verification/HIL.thy ===== *)
theory HIL
  imports Fcfs
begin

text \<open>
  The host interface layer (\<^verbatim>\<open>hil/hil.cc\<close>): requests are passed to the scheduler or to the cache
  layer, wait in a queue ordered by their time of completion, and an event calls their completion
  functions. The CPU model calls an operation at the time it has charged for it, which is an argument
  here. Definitions only; \<open>HIL_Inv\<close> holds the properties.
\<close>

section \<open>State\<close>

datatype scheduler_type = TYPE_FCFS | TYPE_CREDIT | TYPE_FLIN

datatype 'w scheduler = FCFSScheduler "'w fcfs" | CreditScheduler "'w cs"

text \<open>
  A request with its completion function and context, which are named by a number, and the
  two fields of the context that the layer reads: the start block, which carries the subcommand of
  in-storage computing, and whether there is a buffer.
\<close>

record hil_job =
  hjReq :: hil_request
  hjContext :: nat
  hjSlba :: u64
  hjBuffer :: bool

abbreviation finishedAt :: "hil_job \<Rightarrow> tick" where
  "finishedAt j \<equiv> hrFinishedAt (hjReq j)"

datatype hil_action = ScheduleCompletion tick | CallBack tick hil_job

text \<open>
  \<^verbatim>\<open>class HIL\<close>. \<open>hlGlobalLive\<close> tells whether the global pointer \<^verbatim>\<open>gScheduler\<close> points to the scheduler in
  use or to a deleted one; \<open>hlStatic\<close> are the static variables of the credit scheduler, which outlive its
  objects, while there is none. The three figures of the statistics are those of reads, writes and both.
  \<open>hlOut\<close> collects what the layer asks of the simulator and calls.
\<close>

record 'w hil =
  hlSched :: "'w scheduler"
  hlType :: scheduler_type
  hlGlobalLive :: bool
  hlStatic :: "tick \<times> bool"
  hlReqCount :: u64
  hlLastScheduled :: tick
  hlQueue :: "hil_job list"
  hlRequests :: "u64 list"
  hlIoSize :: "u64 list"
  hlBusy :: "u64 list"
  hlLastBusyAt :: "tick list"
  hlOut :: "hil_action list"

text \<open>
  What the layer calls: the environments of the schedulers, the cache layer, and the runtime of
  in-storage computing. Adding the predefined slets fails or moves the time.
\<close>

record 'w hil_env =
  heFcfs :: "'w fcfs_env"
  heCredit :: "'w cs_env"
  heICLFlush :: "'w \<Rightarrow> lpn_range \<Rightarrow> tick \<Rightarrow> ('w \<times> tick) res"
  heICLTrim :: "'w \<Rightarrow> lpn_range \<Rightarrow> tick \<Rightarrow> ('w \<times> tick) res"
  heICLFormat :: "'w \<Rightarrow> lpn_range \<Rightarrow> tick \<Rightarrow> ('w \<times> tick) res"
  heAddSlets :: "'w \<Rightarrow> tick \<Rightarrow> ('w \<times> tick) option"
  heDestroy :: "'w \<Rightarrow> 'w"
  heSetOpt :: "'w \<Rightarrow> u64 \<Rightarrow> nat \<Rightarrow> tick \<Rightarrow> 'w \<times> tick"
  heStartSlet :: "'w \<Rightarrow> u64 \<Rightarrow> tick \<Rightarrow> 'w \<times> tick"
  heICLStat :: "'w \<Rightarrow> fl list"
  heICLResetStat :: "'w \<Rightarrow> 'w"

definition schedWorld :: "'w scheduler \<Rightarrow> 'w" where
  "schedWorld p = (case p of FCFSScheduler s \<Rightarrow> fcWorld s | CreditScheduler s \<Rightarrow> csWorld s)"

definition setWorld :: "'w \<Rightarrow> 'w scheduler \<Rightarrow> 'w scheduler" where
  "setWorld w p = (case p of FCFSScheduler s \<Rightarrow> FCFSScheduler (s\<lparr>fcWorld := w\<rparr>) | CreditScheduler s \<Rightarrow> CreditScheduler (s\<lparr>csWorld := w\<rparr>))"

section \<open>Schedulers\<close>

text \<open>The constructors; \<open>stat\<close> are the values of the static variables of the credit scheduler.\<close>

definition newScheduler :: "'w hil_env \<Rightarrow> scheduler_type \<Rightarrow> tick \<times> bool \<Rightarrow> 'w \<Rightarrow> 'w scheduler res" where
  "newScheduler E ty stat w =
     (case ty of
        TYPE_FCFS \<Rightarrow> Inr (FCFSScheduler (FCFS_new w))
      | TYPE_CREDIT \<Rightarrow>
          bindR (CreditScheduler_new (heCredit E) (1 * 1000000000) 1000000000000 (fst stat) (snd stat) w) (\<lambda>s. Inr (CreditScheduler s))
      | TYPE_FLIN \<Rightarrow> Inl (Panic ''Unknown scheduler type''))"

definition processRequest :: "'w hil_env \<Rightarrow> hil_request \<Rightarrow> tick \<Rightarrow> 'w scheduler \<Rightarrow> ('w scheduler \<times> tick) res" where
  "processRequest E req t p =
     (case p of
        FCFSScheduler s \<Rightarrow> bindR (FCFS_processUntil (heFcfs E) req t s) (\<lambda>(s, t). Inr (FCFSScheduler s, t))
      | CreditScheduler s \<Rightarrow> bindR (processUntil (heCredit E) req t s) (\<lambda>(s, t). Inr (CreditScheduler s, t)))"

text \<open>The constructor of the layer; a configured type other than 0 and 1 leaves the pointer to the scheduler unset.\<close>

definition HIL_new :: "'w hil_env \<Rightarrow> u8 \<Rightarrow> tick \<times> bool \<Rightarrow> 'w \<Rightarrow> 'w hil res" where
  "HIL_new E cfg stat w =
     (if cfg > 1 then Inl (Undefined ''scheduler not set'')
      else let ty = (if cfg = 0 then TYPE_FCFS else TYPE_CREDIT)
           in bindR (newScheduler E ty stat w) (\<lambda>p.
                Inr \<lparr>hlSched = p, hlType = ty, hlGlobalLive = True, hlStatic = stat, hlReqCount = 0, hlLastScheduled = 0, hlQueue = [],
                     hlRequests = [0, 0], hlIoSize = [0, 0], hlBusy = [0, 0, 0], hlLastBusyAt = [0, 0, 0], hlOut = []\<rparr>))"

text \<open>
  Switching deletes the old scheduler with the requests it holds. The global pointer is set by the
  branch of the credit scheduler only.
\<close>

definition switchScheduler :: "'w hil_env \<Rightarrow> scheduler_type \<Rightarrow> 'w hil \<Rightarrow> 'w hil res" where
  "switchScheduler E ty h =
     (if ty = hlType h then Inr h
      else let stat = (case hlSched h of FCFSScheduler s \<Rightarrow> hlStatic h | CreditScheduler s \<Rightarrow> (lastStatTick s, statInitialized s))
           in bindR (newScheduler E ty stat (schedWorld (hlSched h))) (\<lambda>p.
                Inr (h\<lparr>hlSched := p, hlType := ty, hlGlobalLive := (ty = TYPE_CREDIT), hlStatic := stat\<rparr>)))"

definition canServe :: "u32 \<Rightarrow> u64 \<Rightarrow> 'w hil \<Rightarrow> bool" where
  "canServe uid need h = (case hlSched h of CreditScheduler s \<Rightarrow> checkCredit uid need s | FCFSScheduler s \<Rightarrow> True)"

text \<open>The variant without a size asks for one page.\<close>

definition canServeAny :: "u32 \<Rightarrow> 'w hil \<Rightarrow> bool" where
  "canServeAny uid h = canServe uid 1 h"

section \<open>Statistics and completion\<close>

definition HIL_getStatValues :: "'w hil_env \<Rightarrow> 'w hil \<Rightarrow> fl list" where
  "HIL_getStatValues E h =
     [fl_u64 (hlRequests h ! 0), fl_u64 (hlIoSize h ! 0), fl_u64 (hlBusy h ! 0),
      fl_u64 (hlRequests h ! 1), fl_u64 (hlIoSize h ! 1), fl_u64 (hlBusy h ! 1),
      fl_u64 (hlRequests h ! 0 + hlRequests h ! 1), fl_u64 (hlIoSize h ! 0 + hlIoSize h ! 1), fl_u64 (hlBusy h ! 2)] @
     (case hlSched h of FCFSScheduler s \<Rightarrow> FCFS_getStatValues s | CreditScheduler s \<Rightarrow> getStatValues (heCredit E) s) @
     heICLStat E (schedWorld (hlSched h))"

definition HIL_resetStatValues :: "'w hil_env \<Rightarrow> 'w hil \<Rightarrow> 'w hil" where
  "HIL_resetStatValues E h =
     (let p = (case hlSched h of FCFSScheduler s \<Rightarrow> FCFSScheduler (FCFS_resetStatValues s)
               | CreditScheduler s \<Rightarrow> CreditScheduler (resetStatValues (heCredit E) s))
      in h\<lparr>hlRequests := [0, 0], hlIoSize := [0, 0], hlBusy := [0, 0, 0], hlLastBusyAt := [0, 0, 0],
           hlSched := setWorld (heICLResetStat E (schedWorld p)) p\<rparr>)"

definition updateBusyTime :: "nat \<Rightarrow> tick \<Rightarrow> tick \<Rightarrow> 'w hil \<Rightarrow> 'w hil" where
  "updateBusyTime i beg en h =
     (let busyUntil = hlLastBusyAt h ! i
      in if en \<le> busyUntil then h
         else h\<lparr>hlBusy := (hlBusy h)[i := hlBusy h ! i + (if beg < busyUntil then en - busyUntil else en - beg)],
                hlLastBusyAt := (hlLastBusyAt h)[i := en]\<rparr>)"

text \<open>
  The priority queue: the request that finishes first is on top. The standard does not say which of
  several with the same time is; the model takes the one pushed first.
\<close>

fun pqPush :: "hil_job \<Rightarrow> hil_job list \<Rightarrow> hil_job list" where
  "pqPush j [] = [j]"
| "pqPush j (x # xs) = (if finishedAt j < finishedAt x then j # x # xs else x # pqPush j xs)"

definition updateCompletion :: "'w hil \<Rightarrow> 'w hil" where
  "updateCompletion h =
     (case hlQueue h of
        [] \<Rightarrow> h
      | j # _ \<Rightarrow>
          if hlLastScheduled h \<noteq> finishedAt j
          then h\<lparr>hlLastScheduled := finishedAt j, hlOut := hlOut h @ [ScheduleCompletion (finishedAt j)]\<rparr>
          else h)"

fun completionLoop :: "tick \<Rightarrow> 'w hil \<Rightarrow> hil_job list \<Rightarrow> 'w hil" where
  "completionLoop now h [] = h\<lparr>hlQueue := []\<rparr>"
| "completionLoop now h (j # q) =
     (if finishedAt j \<le> now then completionLoop now (h\<lparr>hlOut := hlOut h @ [CallBack now j]\<rparr>) q
      else h\<lparr>hlQueue := j # q\<rparr>)"

definition HIL_completion :: "tick \<Rightarrow> 'w hil \<Rightarrow> 'w hil" where
  "HIL_completion now h = updateCompletion (completionLoop now h (hlQueue h))"

text \<open>The end of every operation: the request gets its time and waits for the completion event.\<close>

definition finishRequest :: "hil_request \<Rightarrow> hil_job \<Rightarrow> tick \<Rightarrow> 'w hil \<Rightarrow> 'w hil" where
  "finishRequest req j t h =
     updateCompletion (h\<lparr>hlQueue := pqPush (j\<lparr>hjReq := req\<lparr>hrFinishedAt := t\<rparr>\<rparr>) (hlQueue h)\<rparr>)"

definition bookRequest :: "nat \<Rightarrow> u64 \<Rightarrow> tick \<Rightarrow> tick \<Rightarrow> 'w hil \<Rightarrow> 'w hil" where
  "bookRequest i len beg t h =
     updateBusyTime 2 beg t (updateBusyTime i beg t
       (h\<lparr>hlRequests := (hlRequests h)[i := hlRequests h ! i + 1], hlIoSize := (hlIoSize h)[i := hlIoSize h ! i + len]\<rparr>))"

definition numbered :: "hil_job \<Rightarrow> 'w hil \<Rightarrow> hil_request \<times> 'w hil" where
  "numbered j h = ((hjReq j)\<lparr>hrReqID := hlReqCount h + 1\<rparr>, h\<lparr>hlReqCount := hlReqCount h + 1\<rparr>)"

section \<open>Operations\<close>

definition HIL_read :: "'w hil_env \<Rightarrow> tick \<Rightarrow> hil_job \<Rightarrow> 'w hil \<Rightarrow> 'w hil res" where
  "HIL_read E beg j h =
     (let (req, h) = numbered j h; req = req\<lparr>hrOp := OP_READ\<rparr>
      in bindR (processRequest E req beg (hlSched h)) (\<lambda>(p, t).
           Inr (finishRequest req j t (bookRequest 0 (hrLength req) beg t (h\<lparr>hlSched := p\<rparr>)))))"

definition HIL_write :: "'w hil_env \<Rightarrow> tick \<Rightarrow> hil_job \<Rightarrow> 'w hil \<Rightarrow> 'w hil res" where
  "HIL_write E beg j h =
     (let (req, h) = numbered j h; req = req\<lparr>hrOp := OP_WRITE\<rparr>
      in bindR (processRequest E req beg (hlSched h)) (\<lambda>(p, t).
           Inr (finishRequest req j t (bookRequest 1 (hrLength req) beg t (h\<lparr>hlSched := p\<rparr>)))))"

text \<open>A call of the cache layer that by-passes the scheduler.\<close>

definition direct :: "('w \<Rightarrow> lpn_range \<Rightarrow> tick \<Rightarrow> ('w \<times> tick) res) \<Rightarrow> hil_request \<Rightarrow> tick \<Rightarrow> hil_job \<Rightarrow> 'w hil \<Rightarrow> 'w hil res" where
  "direct f req beg j h =
     bindR (f (schedWorld (hlSched h)) (hrRange req) beg) (\<lambda>(w, t).
       Inr (finishRequest req j t (h\<lparr>hlSched := setWorld w (hlSched h)\<rparr>)))"

definition HIL_flush :: "'w hil_env \<Rightarrow> tick \<Rightarrow> hil_job \<Rightarrow> 'w hil \<Rightarrow> 'w hil res" where
  "HIL_flush E beg j h = (let (req, h) = numbered j h in direct (heICLFlush E) req beg j h)"

definition HIL_trim :: "'w hil_env \<Rightarrow> tick \<Rightarrow> hil_job \<Rightarrow> 'w hil \<Rightarrow> 'w hil res" where
  "HIL_trim E beg j h = (let (req, h) = numbered j h in direct (heICLTrim E) req beg j h)"

definition HIL_format :: "'w hil_env \<Rightarrow> bool \<Rightarrow> tick \<Rightarrow> hil_job \<Rightarrow> 'w hil \<Rightarrow> 'w hil res" where
  "HIL_format E erase beg j h = direct (if erase then heICLFormat E else heICLTrim E) (hjReq j) beg j h"

section \<open>In-storage computing\<close>

definition ISC_SUBCMD :: "u64 \<Rightarrow> u64" where
  "ISC_SUBCMD slba = drop_bit 32 (0xFFFF00000000 AND slba)"

definition ISC_SUBCMD_OPT :: "u64 \<Rightarrow> u64" where
  "ISC_SUBCMD_OPT slba = 0x0000FFFFFFFF AND slba"

definition ISC_SUBCMD_INIT :: u64 where "ISC_SUBCMD_INIT = 0x0000"
definition ISC_SUBCMD_FREE :: u64 where "ISC_SUBCMD_FREE = 0x0FFF"
definition ISC_SUBCMD_SLET_OPT :: u64 where "ISC_SUBCMD_SLET_OPT = 0x0001"
definition ISC_SUBCMD_SLET_RES :: u64 where "ISC_SUBCMD_SLET_RES = 0x0002"
definition ISC_SUBCMD_SLET_RESSZ :: u64 where "ISC_SUBCMD_SLET_RESSZ = 0x0003"
definition ISC_SUBCMD_SLET_RUN :: u64 where "ISC_SUBCMD_SLET_RUN = 0x1000"
definition ISC_SUBCMD_SCHEDULER :: u64 where "ISC_SUBCMD_SCHEDULER = 0x0010"

definition schedulerOption :: "u64 \<Rightarrow> scheduler_type res" where
  "schedulerOption opt =
     (if opt = 0x0001 then Inr TYPE_FCFS else if opt = 0x0002 then Inr TYPE_CREDIT else if opt = 0x0003 then Inr TYPE_FLIN
      else Inl (Panic ''Unknown scheduler type: 0x%x''))"

definition onRuntime :: "('w \<Rightarrow> 'w \<times> tick) \<Rightarrow> 'w hil \<Rightarrow> 'w hil \<times> tick" where
  "onRuntime f h = (let (w, t) = f (schedWorld (hlSched h)) in (h\<lparr>hlSched := setWorld w (hlSched h)\<rparr>, t))"

definition HIL_isc_set :: "'w hil_env \<Rightarrow> tick \<Rightarrow> hil_job \<Rightarrow> 'w hil \<Rightarrow> 'w hil res" where
  "HIL_isc_set E beg j h =
     (let (req, h) = numbered j h; cmd = ISC_SUBCMD (hjSlba j); opt = ISC_SUBCMD_OPT (hjSlba j)
      in bindR
          (if cmd = ISC_SUBCMD_INIT then
             case heAddSlets E (schedWorld (hlSched h)) beg of
               None \<Rightarrow> Inl (Panic ''Failed to setup predefined slets'')
             | Some (w, t) \<Rightarrow> Inr (h\<lparr>hlSched := setWorld w (hlSched h)\<rparr>, t)
           else if cmd = ISC_SUBCMD_FREE then
             Inr (h\<lparr>hlSched := setWorld (heDestroy E (schedWorld (hlSched h))) (hlSched h)\<rparr>, beg)
           else if cmd = ISC_SUBCMD_SCHEDULER then
             bindR (schedulerOption opt) (\<lambda>ty. bindR (switchScheduler E ty h) (\<lambda>h. Inr (h, beg)))
           else if cmd = ISC_SUBCMD_SLET_OPT then
             if \<not> hjBuffer j then Inl (Undefined ''null buffer'')
             else Inr (onRuntime (\<lambda>w. heSetOpt E w opt (hjContext j) beg) h)
           else Inl (Panic ''Unexpected ISC-SET CMD: 0x%x'')) (\<lambda>(h, t).
         Inr (finishRequest req j t (bookRequest 1 (hrLength req) beg t h))))"

definition HIL_isc_get :: "'w hil_env \<Rightarrow> tick \<Rightarrow> hil_job \<Rightarrow> 'w hil \<Rightarrow> 'w hil res" where
  "HIL_isc_get E beg j h =
     (let (req, h) = numbered j h; cmd = ISC_SUBCMD (hjSlba j); opt = ISC_SUBCMD_OPT (hjSlba j)
      in bindR
          (if cmd = ISC_SUBCMD_SLET_RUN then Inr (onRuntime (\<lambda>w. heStartSlet E w opt beg) h)
           else if cmd = ISC_SUBCMD_SLET_RES \<or> cmd = ISC_SUBCMD_SLET_RESSZ then Inr (h, beg)
           else Inl (Panic ''Unexpected ISC-GET SUBCMD: 0x%x'')) (\<lambda>(h, t).
         Inr (finishRequest req j t (bookRequest 0 (hrLength req) beg t h))))"

text \<open>All operations, for statements about any of them.\<close>

datatype hil_op = OpRead | OpWrite | OpFlush | OpTrim | OpFormat bool | OpISCSet | OpISCGet

fun HIL_operation :: "'w hil_env \<Rightarrow> hil_op \<Rightarrow> tick \<Rightarrow> hil_job \<Rightarrow> 'w hil \<Rightarrow> 'w hil res" where
  "HIL_operation E OpRead = HIL_read E"
| "HIL_operation E OpWrite = HIL_write E"
| "HIL_operation E OpFlush = HIL_flush E"
| "HIL_operation E OpTrim = HIL_trim E"
| "HIL_operation E (OpFormat erase) = HIL_format E erase"
| "HIL_operation E OpISCSet = HIL_isc_set E"
| "HIL_operation E OpISCGet = HIL_isc_get E"

end
