(* ===== verification/NvmeIO.thy ===== *)
theory NvmeIO
  imports NvmeAdmin HIL
begin

text \<open>
  The I/O commands of an NVMe namespace (\<^verbatim>\<open>hil/nvme/namespace.cc\<close>) and the calls of the subsystem
  they make (\<^verbatim>\<open>hil/nvme/subsystem.cc\<close>). A command runs in pieces: functions that are called back
  when its list of host pages is set up, a transfer has ended, the host interface layer has
  finished, or credit has been granted. A piece returns the calls it makes; a call that will call back is
  awaited. The context object of a command is an option that is \<open>None\<close> once it is deleted.
  Definitions only; \<open>NvmeIO_Inv\<close> holds the properties.
\<close>

section \<open>State\<close>

definition OPCODE_FLUSH :: u8 where "OPCODE_FLUSH = 0x00"
definition OPCODE_WRITE :: u8 where "OPCODE_WRITE = 0x01"
definition OPCODE_READ :: u8 where "OPCODE_READ = 0x02"
definition OPCODE_COMPARE :: u8 where "OPCODE_COMPARE = 0x05"
definition OPCODE_DATASET_MANAGEMEMT :: u8 where "OPCODE_DATASET_MANAGEMEMT = 0x09"
definition OPCODE_ISC_SET :: u8 where "OPCODE_ISC_SET = 0xC1"
definition OPCODE_ISC_GET :: u8 where "OPCODE_ISC_GET = 0xC2"

record io_context =
  ioResp :: cq_wrapper
  ioBeginAt :: u64
  ioSlba :: u64
  ioNlb :: u64
  ioTick :: tick
  ioUid :: u32
  ioPrio :: u32
  ioBuffer :: "u8 list option"
  ioHostContent :: "u8 list option"

definition IOContext :: "cq_wrapper \<Rightarrow> io_context" where
  "IOContext resp = \<lparr>ioResp = resp, ioBeginAt = 0, ioSlba = 0, ioNlb = 0, ioTick = 0, ioUid = 0, ioPrio = 0,
     ioBuffer = None, ioHostContent = None\<rparr>"

datatype io_command = CMD_FLUSH | CMD_WRITE | CMD_READ | CMD_ISC_SET | CMD_ISC_GET | CMD_COMPARE | CMD_TRIM

text \<open>
  A command in flight: its context, and the counter of the context object that the ranges of a
  trim share.
\<close>

record io_state =
  isCmd :: io_command
  isCtx :: "io_context option"
  isTrim :: "nat option"

text \<open>
  What a piece calls: answer the command, have the CPU model call the first piece, set up the list of host pages, read from or write to the
  host, the host interface layer, the disk image, and the scheduler to wait for credit.
\<close>

datatype io_call =
    Answer cq_wrapper
  | Execute
  | OpenList bool u64 u64 u64
  | ListRead u64
  | ListWrite u64 "u8 list option"
  | HilSubmit io_command hil_request
  | DiskWrite u64 u64 "u8 list"
  | DeferISC u32 u64

datatype io_wait = WaitList | WaitTransfer | WaitHil | WaitCredit

fun awaits :: "io_call \<Rightarrow> io_wait list" where
  "awaits (OpenList sgl a b len) = [WaitList]"
| "awaits Execute = [WaitList]"
| "awaits (ListRead len) = [WaitTransfer]"
| "awaits (ListWrite len buf) = [WaitTransfer]"
| "awaits (HilSubmit c req) = [WaitHil]"
| "awaits (DeferISC uid pages) = [WaitCredit]"
| "awaits (Answer resp) = []"
| "awaits (DiskWrite slba nlb buf) = []"

text \<open>
  What the commands ask: the disk image if there is one, and the result of a slet and its size, where
  a slet that does not exist gives a null pointer.
\<close>

record io_env =
  ieSub :: subsys
  ieNs :: nvme_ns
  ieDiskRead :: "(u64 \<Rightarrow> u64 \<Rightarrow> u8 list) option"
  ieResultSize :: "u64 \<Rightarrow> tick \<Rightarrow> u64 option"
  ieResult :: "u64 \<Rightarrow> tick \<Rightarrow> u8 list"

definition ioLba :: "io_env \<Rightarrow> u64" where
  "ioLba I = ucast (nsLbaSize (nsInfo (ieNs I)))"

definition ioBytes :: "io_env \<Rightarrow> io_context \<Rightarrow> u64" where
  "ioBytes I c = ioNlb c * ioLba I"

text \<open>\<^verbatim>\<open>calloc\<close> of the blocks of a command.\<close>

definition blankBuffer :: "io_env \<Rightarrow> io_context \<Rightarrow> u8 list" where
  "blankBuffer I c = replicate (unat (ioBytes I c)) 0"

section \<open>Submission\<close>

definition ioSlbaOf :: "sq_entry \<Rightarrow> u64" where
  "ioSlbaOf e = push_bit 32 (ucast (dword11 e)) OR ucast (dword10 e)"

text \<open>The number of blocks is a field that counts from zero, plus one, in 16 bits.\<close>

definition ioNlbOf :: "sq_entry \<Rightarrow> u16" where
  "ioNlbOf e = ucast ((dword12 e AND 0xFFFF) + 1)"

definition notAttached :: "cq_wrapper \<Rightarrow> cq_wrapper" where
  "notAttached = status True TYPE_COMMAND_SPECIFIC_STATUS STATUS_NAMESPACE_NOT_ATTACHED"

definition Namespace_flush :: "io_env \<Rightarrow> tick \<Rightarrow> sq_wrapper \<Rightarrow> io_call list \<times> io_state option" where
  "Namespace_flush I now req =
     (let resp = CQEntryWrapper req
      in if \<not> nsAttached (ieNs I) then ([Answer (notAttached resp)], None)
         else ([Execute], Some \<lparr>isCmd = CMD_FLUSH, isCtx = Some ((IOContext resp)\<lparr>ioBeginAt := now\<rparr>), isTrim = None\<rparr>))"

text \<open>
  The common beginning of read, write, compare and the commands for in-storage computing. The list of
  host pages covers the blocks of the command.
\<close>

definition blockCommand :: "io_command \<Rightarrow> io_env \<Rightarrow> tick \<Rightarrow> sq_wrapper \<Rightarrow> io_call list \<times> io_state option" where
  "blockCommand cmd I now req =
     (let e = swEntry req; resp = CQEntryWrapper req; slba = ioSlbaOf e; nlb = ioNlbOf e;
          resp = (if nsAttached (ieNs I) then resp else notAttached resp)
      in if \<not> nsAttached (ieNs I) \<or> nlb = 0 then ([Answer resp], None)
         else ([OpenList (swUseSGL req) (data1 e) (data2 e) (ucast nlb * ioLba I)],
               Some \<lparr>isCmd = cmd,
                 isCtx = Some ((IOContext resp)\<lparr>ioBeginAt := now, ioSlba := slba, ioNlb := ucast nlb,
                   ioUid := reserved2 e, ioPrio := reserved1 e, ioTick := (if cmd = CMD_ISC_GET then now else 0)\<rparr>),
                 isTrim = None\<rparr>))"

definition Namespace_write where "Namespace_write = blockCommand CMD_WRITE"
definition Namespace_read where "Namespace_read = blockCommand CMD_READ"
definition Namespace_isc_get where "Namespace_isc_get = blockCommand CMD_ISC_GET"
definition Namespace_isc_set where "Namespace_isc_set = blockCommand CMD_ISC_SET"
definition Namespace_compare where "Namespace_compare = blockCommand CMD_COMPARE"

text \<open>The context keeps the number of ranges in its field for the start block.\<close>

definition trimRanges :: "sq_entry \<Rightarrow> u64" where
  "trimRanges e = ucast ((dword10 e AND 0xFF) + 1)"

definition Namespace_datasetManagement :: "io_env \<Rightarrow> tick \<Rightarrow> sq_wrapper \<Rightarrow> io_call list \<times> io_state option" where
  "Namespace_datasetManagement I now req =
     (let e = swEntry req; resp = CQEntryWrapper req; nr = trimRanges e; ad = (dword11 e AND 0x04 \<noteq> 0);
          resp = (if nsAttached (ieNs I) then resp else notAttached resp)
      in if \<not> nsAttached (ieNs I) \<or> \<not> ad then ([Answer resp], None)
         else ([OpenList (swUseSGL req) (data1 e) (data2 e) (nr * 0x10)],
               Some \<lparr>isCmd = CMD_TRIM, isCtx = Some ((IOContext resp)\<lparr>ioBeginAt := now, ioSlba := nr\<rparr>), isTrim = None\<rparr>))"

definition namespace_ioCommand :: "io_env \<Rightarrow> tick \<Rightarrow> sq_wrapper \<Rightarrow> io_call list \<times> io_state option" where
  "namespace_ioCommand I now req =
     (let oc = opcode (swEntry req); resp = CQEntryWrapper req
      in if now < nsFormatFinishedAt (ieNs I)
         then ([Answer (status False TYPE_GENERIC_COMMAND_STATUS STATUS_FORMAT_IN_PROGRESS resp)], None)
         else if oc = OPCODE_FLUSH then Namespace_flush I now req
         else if oc = OPCODE_WRITE then Namespace_write I now req
         else if oc = OPCODE_READ then Namespace_read I now req
         else if oc = OPCODE_ISC_SET then Namespace_isc_set I now req
         else if oc = OPCODE_ISC_GET then Namespace_isc_get I now req
         else if oc = OPCODE_COMPARE then Namespace_compare I now req
         else if oc = OPCODE_DATASET_MANAGEMEMT then Namespace_datasetManagement I now req
         else ([Answer (status True TYPE_GENERIC_COMMAND_STATUS STATUS_INVALID_OPCODE resp)], None))"

section \<open>The subsystem\<close>

text \<open>
  \<^verbatim>\<open>read\<close>, \<^verbatim>\<open>write\<close>, \<^verbatim>\<open>isc_get\<close>, \<^verbatim>\<open>isc_set\<close> and \<^verbatim>\<open>trim\<close> of the subsystem: the blocks become pages, and
  the host interface layer gets the request after the time that the CPU model charges for that.
\<close>

definition Subsystem_request :: "io_env \<Rightarrow> io_command \<Rightarrow> u64 \<Rightarrow> u64 \<Rightarrow> u32 \<Rightarrow> io_call res" where
  "Subsystem_request I cmd slba nlb uid =
     bindR (convertUnit (ieSub I) (ieNs I) slba nlb HIL_Request_new) (\<lambda>req. Inr (HilSubmit cmd (req\<lparr>hrUserID := uid\<rparr>)))"

definition Subsystem_flush :: "io_env \<Rightarrow> io_call" where
  "Subsystem_flush I =
     (let r = nsRange (nsInfo (ieNs I))
      in HilSubmit CMD_FLUSH (HIL_Request_new\<lparr>hrRange := r, hrOffset := 0, hrLength := nlp r * ucast (ssPageSize (ieSub I))\<rparr>))"

section \<open>The pieces of a command\<close>

type_synonym 'w io_result = "(io_call list \<times> io_state \<times> 'w hil) res"

definition withCtx :: "io_context \<Rightarrow> io_state \<Rightarrow> io_state" where
  "withCtx c s = s\<lparr>isCtx := Some c\<rparr>"

definition deleted :: "io_state \<Rightarrow> io_state" where
  "deleted s = s\<lparr>isCtx := None\<rparr>"

text \<open>\<^verbatim>\<open>doRead\<close> of a write: the transfer and the request are started together.\<close>

definition write_begin :: "io_env \<Rightarrow> tick \<Rightarrow> io_context \<Rightarrow> io_state \<Rightarrow> 'w hil \<Rightarrow> 'w io_result" where
  "write_begin I now c s h =
     (let c = c\<lparr>ioTick := now, ioBeginAt := 0\<rparr>;
          c = (if ieDiskRead I = None then c else c\<lparr>ioBuffer := Some (blankBuffer I c)\<rparr>)
      in bindR (Subsystem_request I CMD_WRITE (ioSlba c) (ioNlb c) (ioUid c)) (\<lambda>sub.
           Inr ([ListRead (ioBytes I c), sub], withCtx c s, h)))"

definition diskContent :: "io_env \<Rightarrow> io_context \<Rightarrow> u8 list" where
  "diskContent I c = (case ieDiskRead I of None \<Rightarrow> blankBuffer I c | Some rd \<Rightarrow> rd (ioSlba c) (ioNlb c))"

definition read_begin :: "io_env \<Rightarrow> tick \<Rightarrow> io_context \<Rightarrow> io_state \<Rightarrow> 'w hil \<Rightarrow> 'w io_result" where
  "read_begin I now c s h =
     (let c = c\<lparr>ioTick := now, ioBeginAt := 0\<rparr>
      in bindR (Subsystem_request I CMD_READ (ioSlba c) (ioNlb c) (ioUid c)) (\<lambda>sub.
           let c = c\<lparr>ioBuffer := Some (diskContent I c)\<rparr>
           in Inr ([sub, ListWrite (ioBytes I c) (ioBuffer c)], withCtx c s, h)))"

definition compare_begin :: "io_env \<Rightarrow> tick \<Rightarrow> io_context \<Rightarrow> io_state \<Rightarrow> 'w hil \<Rightarrow> 'w io_result" where
  "compare_begin I now c s h =
     (let c = c\<lparr>ioTick := now, ioBeginAt := 0\<rparr>
      in bindR (Subsystem_request I CMD_READ (ioSlba c) (ioNlb c) (ioUid c)) (\<lambda>sub.
           let c = c\<lparr>ioBuffer := Some (diskContent I c), ioHostContent := Some (blankBuffer I c)\<rparr>
           in Inr ([sub, ListRead (ioBytes I c)], withCtx c s, h)))"

definition isc_set_begin :: "io_env \<Rightarrow> tick \<Rightarrow> io_context \<Rightarrow> io_state \<Rightarrow> 'w hil \<Rightarrow> 'w io_result" where
  "isc_set_begin I now c s h =
     (let c = c\<lparr>ioTick := now, ioBeginAt := 0, ioBuffer := None\<rparr>;
          c = (if ieDiskRead I = None then c else c\<lparr>ioBuffer := Some (blankBuffer I c)\<rparr>)
      in Inr ([ListRead (ioBytes I c)], withCtx c s, h))"

text \<open>\<^verbatim>\<open>memcpy\<close> of the first bytes.\<close>

definition copyBytes :: "u64 \<Rightarrow> u8 list \<Rightarrow> u8 list \<Rightarrow> u8 list" where
  "copyBytes n src dst = take (unat n) src @ drop (unat n) dst"

definition resultPages :: "u64 \<Rightarrow> u64" where
  "resultPages rsz = (rsz + 4096 - 1) div 4096"

text \<open>
  The credit gate of the results of in-storage computing, through the global pointer to the
  scheduler: \<open>Inl\<close> of an error, or whether the command goes on now.
\<close>

definition creditGate :: "'w hil_env \<Rightarrow> nat \<Rightarrow> u32 \<Rightarrow> u64 \<Rightarrow> 'w hil \<Rightarrow> (bool \<times> 'w hil) res" where
  "creditGate E cid uid pages h =
     (if \<not> hlGlobalLive h then Inl (Undefined ''deleted scheduler'')
      else case hlSched h of
             FCFSScheduler s \<Rightarrow> Inr (True, h)
           | CreditScheduler s \<Rightarrow>
               if checkCredit uid pages s
               then bindR (useCreditISC (heCredit E) uid pages s) (\<lambda>s. Inr (True, h\<lparr>hlSched := CreditScheduler s\<rparr>))
               else Inr (False, h\<lparr>hlSched := CreditScheduler (submitISCDeferred (heCredit E) uid pages cid True s)\<rparr>))"

definition resultSize :: "io_env \<Rightarrow> io_context \<Rightarrow> tick \<Rightarrow> u64 res" where
  "resultSize I c now =
     (case ieResultSize I (ISC_SUBCMD_OPT (ioSlba c)) now of
        None \<Rightarrow> Inl (Undefined ''null result size'')
      | Some n \<Rightarrow> Inr (cMIN (ioBytes I c) n))"

definition isc_get_begin :: "'w hil_env \<Rightarrow> nat \<Rightarrow> io_env \<Rightarrow> tick \<Rightarrow> io_context \<Rightarrow> io_state \<Rightarrow> 'w hil \<Rightarrow> 'w io_result" where
  "isc_get_begin E cid I now c s h =
     (let c = c\<lparr>ioTick := now, ioBeginAt := 0\<rparr>
      in bindR (Subsystem_request I CMD_ISC_GET (ioSlba c) (ioNlb c) (ioUid c)) (\<lambda>sub.
         let blank = blankBuffer I c; c = c\<lparr>ioBuffer := Some blank\<rparr>; id = ISC_SUBCMD_OPT (ioSlba c);
             go = (\<lambda>c h. Inr ([sub, ListWrite (ioBytes I c) (ioBuffer c)], withCtx c s, h))
         in if ISC_SUBCMD (ioSlba c) = ISC_SUBCMD_SLET_RES then
              bindR (resultSize I c now) (\<lambda>rsz.
              bindR (creditGate E cid (ioUid c) (resultPages rsz) h) (\<lambda>(ok, h).
                if ok then go (c\<lparr>ioBuffer := Some (copyBytes rsz (ieResult I id now) blank)\<rparr>) h
                else Inr ([sub, DeferISC (ioUid c) (resultPages rsz)], withCtx c s, h)))
            else if ISC_SUBCMD (ioSlba c) = ISC_SUBCMD_SLET_RESSZ then
              (case ieResultSize I id now of
                 None \<Rightarrow> Inl (Undefined ''null result size'')
               | Some n \<Rightarrow> go (c\<lparr>ioBuffer := Some (copyBytes (cMIN (ioBytes I c) 8) (leBytes 8 n) blank)\<rparr>) h)
            else go c h))"

text \<open>\<^verbatim>\<open>resumeThunk\<close>: the scheduler has charged the credit.\<close>

definition isc_get_resume :: "io_env \<Rightarrow> tick \<Rightarrow> io_context \<Rightarrow> io_state \<Rightarrow> 'w hil \<Rightarrow> 'w io_result" where
  "isc_get_resume I now c s h =
     bindR (resultSize I c now) (\<lambda>rsz.
       let buf = (case ioBuffer c of None \<Rightarrow> blankBuffer I c | Some b \<Rightarrow> b);
           c = c\<lparr>ioBuffer := Some (copyBytes rsz (ieResult I (ISC_SUBCMD_OPT (ioSlba c)) now) buf)\<rparr>
       in Inr ([ListWrite (ioBytes I c) (ioBuffer c)], withCtx c s, h))"

text \<open>
  \<^verbatim>\<open>dmaDone\<close>: the second callback answers. \<open>bytes\<close> are what a transfer from the host has put into the
  buffer it was given.
\<close>

definition received :: "u8 list option \<Rightarrow> io_command \<Rightarrow> io_context \<Rightarrow> io_context" where
  "received bytes cmd c =
     (case bytes of None \<Rightarrow> c
      | Some bs \<Rightarrow>
          if cmd = CMD_COMPARE then c\<lparr>ioHostContent := Some bs\<rparr>
          else if cmd = CMD_WRITE \<or> cmd = CMD_ISC_SET then (if ioBuffer c = None then c else c\<lparr>ioBuffer := Some bs\<rparr>)
          else c)"

definition diskWrites :: "io_context \<Rightarrow> io_call list" where
  "diskWrites c = (case ioBuffer c of None \<Rightarrow> [] | Some b \<Rightarrow> [DiskWrite (ioSlba c) (ioNlb c) b])"

definition io_done :: "io_env \<Rightarrow> io_context \<Rightarrow> io_state \<Rightarrow> 'w hil \<Rightarrow> 'w io_result" where
  "io_done I c s h =
     (let c = c\<lparr>ioBeginAt := ioBeginAt c + 1\<rparr>
      in if isCmd s = CMD_ISC_SET \<and> ioBeginAt c = 1 then
           bindR (Subsystem_request I CMD_ISC_SET (ioSlba c) (ioNlb c) 0) (\<lambda>sub. Inr ([sub], withCtx c s, h))
         else if ioBeginAt c = 2 then
           (let resp = (if isCmd s = CMD_COMPARE \<and> ieDiskRead I \<noteq> None \<and> ioBuffer c \<noteq> ioHostContent c
                        then status False TYPE_MEDIA_AND_DATA_INTEGRITY_ERROR STATUS_COMPARE_FAILURE (ioResp c) else ioResp c)
            in Inr (Answer resp # (if isCmd s = CMD_WRITE \<or> isCmd s = CMD_ISC_SET then diskWrites c else []), deleted s, h))
         else Inr ([], withCtx c s, h))"

text \<open>
  A trim: the ranges are read from the host, every range becomes a request, and the callback of a
  request deletes the context object that the requests share.
\<close>

definition trimRange :: "u8 list \<Rightarrow> nat \<Rightarrow> u64 \<times> u64" where
  "trimRange bytes i =
     (let b = (\<lambda>k. if k < length bytes then bytes ! k else 0)
      in (bufRead (16 * i + 8) 8 b, bufRead (16 * i + 4) 4 b))"

definition trim_ranges :: "io_env \<Rightarrow> u8 list \<Rightarrow> io_context \<Rightarrow> io_state \<Rightarrow> 'w hil \<Rightarrow> 'w io_result" where
  "trim_ranges I bytes c s h =
     bindR (foldR (\<lambda>i subs. bindR (Subsystem_request I CMD_TRIM (fst (trimRange bytes i)) (snd (trimRange bytes i)) 0)
                (\<lambda>sub. Inr (subs @ [sub]))) [0..<unat (ioSlba c)] []) (\<lambda>subs.
       Inr (subs, s\<lparr>isTrim := Some (unat (ioSlba c))\<rparr>, h))"

definition eachTrimDone :: "io_context \<Rightarrow> io_state \<Rightarrow> 'w hil \<Rightarrow> 'w io_result" where
  "eachTrimDone c s h =
     (case isTrim s of
        None \<Rightarrow> Inl (Undefined ''deleted DMA context'')
      | Some n \<Rightarrow>
          if n - 1 = 0 then Inr ([Answer (ioResp c)], deleted (s\<lparr>isTrim := None\<rparr>), h)
          else Inr ([], s\<lparr>isTrim := None\<rparr>, h))"

section \<open>Callbacks\<close>

definition io_begin :: "'w hil_env \<Rightarrow> nat \<Rightarrow> io_env \<Rightarrow> tick \<Rightarrow> io_context \<Rightarrow> io_state \<Rightarrow> 'w hil \<Rightarrow> 'w io_result" where
  "io_begin E cid I now c s h =
     (case isCmd s of
        CMD_FLUSH \<Rightarrow> Inr ([Subsystem_flush I], s, h)
      | CMD_WRITE \<Rightarrow> write_begin I now c s h
      | CMD_READ \<Rightarrow> read_begin I now c s h
      | CMD_ISC_SET \<Rightarrow> isc_set_begin I now c s h
      | CMD_ISC_GET \<Rightarrow> isc_get_begin E cid I now c s h
      | CMD_COMPARE \<Rightarrow> compare_begin I now c s h
      | CMD_TRIM \<Rightarrow> Inr ([ListRead (ioSlba c * 16)], s, h))"

definition io_callback :: "'w hil_env \<Rightarrow> nat \<Rightarrow> io_env \<Rightarrow> tick \<Rightarrow> io_wait \<Rightarrow> u8 list option \<Rightarrow> io_state \<Rightarrow> 'w hil \<Rightarrow> 'w io_result" where
  "io_callback E cid I now w bytes s h =
     (case isCtx s of
        None \<Rightarrow> Inl (Undefined ''deleted context'')
      | Some c \<Rightarrow>
          (case w of
             WaitList \<Rightarrow> io_begin E cid I now c s h
           | WaitTransfer \<Rightarrow>
               if isCmd s = CMD_TRIM then trim_ranges I (case bytes of None \<Rightarrow> [] | Some bs \<Rightarrow> bs) c s h
               else io_done I (received bytes (isCmd s) c) s h
           | WaitHil \<Rightarrow>
               if isCmd s = CMD_FLUSH then Inr ([Answer (ioResp c)], deleted s, h)
               else if isCmd s = CMD_TRIM then eachTrimDone c s h
               else io_done I c s h
           | WaitCredit \<Rightarrow> isc_get_resume I now c s h))"

end
