(* ===== verification/NvmeIO_Inv.thy ===== *)
theory NvmeIO_Inv
  imports NvmeIO NvmeAdmin_Inv "HOL-Library.Multiset"
begin

text \<open>
  Properties of the I/O commands: the callbacks of a command in any order as the step relation
  \<open>io_step\<close>, its invariant and the bound on their number; what a submission does; trims of several
  ranges; the credit gate.
\<close>

section \<open>Commands and their callbacks\<close>

definition awaited :: "io_call list \<Rightarrow> io_wait multiset" where
  "awaited calls = mset (concat (map awaits calls))"

definition answersIn :: "io_call list \<Rightarrow> nat" where
  "answersIn calls = length (filter (\<lambda>x. case x of Answer r \<Rightarrow> True | _ \<Rightarrow> False) calls)"

lemma awaited_simps [simp]:
  "awaited [] = {#}" "awaited (x # xs) = mset (awaits x) + awaited xs" "awaited (xs @ ys) = awaited xs + awaited ys"
  by (simp_all add: awaited_def)

lemma answersIn_simps [simp]:
  "answersIn [] = 0" "answersIn (Answer r # xs) = Suc (answersIn xs)" "answersIn (xs @ ys) = answersIn xs + answersIn ys"
  "answersIn (ListRead l # xs) = answersIn xs" "answersIn (ListWrite l buf # xs) = answersIn xs" "answersIn (HilSubmit m q # xs) = answersIn xs"
  "answersIn (DeferISC u k # xs) = answersIn xs" "answersIn (DiskWrite a b d # xs) = answersIn xs"
  by (simp_all add: answersIn_def)

text \<open>
  A command in flight, the callbacks that are outstanding and the number of answers it has got. Any
  outstanding callback may come next, with any data, at any time, in any state of the layers below.
\<close>

inductive io_step :: "'w hil_env \<Rightarrow> io_state \<times> io_wait multiset \<times> nat \<Rightarrow> io_state \<times> io_wait multiset \<times> nat \<Rightarrow> bool" for E where
  callback: "w \<in># pend \<Longrightarrow> io_callback E cid I now w bytes s h = Inr (calls, s', h') \<Longrightarrow>
    io_step E (s, pend, n) (s', pend - {#w#} + awaited calls, n + answersIn calls)"

fun phase :: "io_command \<Rightarrow> io_context \<Rightarrow> nat option \<Rightarrow> io_wait multiset \<Rightarrow> bool" where
  "phase CMD_FLUSH c tr pend \<longleftrightarrow> pend = {#WaitHil#}"
| "phase CMD_TRIM c tr pend \<longleftrightarrow> ioSlba c = 1 \<and> (pend = {#WaitTransfer#} \<or> (tr = Some 1 \<and> pend = {#WaitHil#}))"
| "phase CMD_ISC_SET c tr pend \<longleftrightarrow> (ioBeginAt c = 0 \<and> pend = {#WaitTransfer#}) \<or> (ioBeginAt c = 1 \<and> pend = {#WaitHil#})"
| "phase CMD_ISC_GET c tr pend \<longleftrightarrow>
     (ioBeginAt c = 0 \<and> (pend = {#WaitTransfer, WaitHil#} \<or> pend = {#WaitCredit, WaitHil#})) \<or>
     (ioBeginAt c = 1 \<and> (pend = {#WaitTransfer#} \<or> pend = {#WaitHil#} \<or> pend = {#WaitCredit#}))"
| "phase cmd c tr pend \<longleftrightarrow> (ioBeginAt c = 0 \<and> pend = {#WaitTransfer, WaitHil#}) \<or>
     (ioBeginAt c = 1 \<and> (pend = {#WaitTransfer#} \<or> pend = {#WaitHil#}))"

definition io_inv :: "io_state \<times> io_wait multiset \<times> nat \<Rightarrow> bool" where
  "io_inv = (\<lambda>(s, pend, n). case isCtx s of
      None \<Rightarrow> pend = {#} \<and> n = 1
    | Some c \<Rightarrow> n = 0 \<and> ((pend = {#WaitList#} \<and> (isCmd s = CMD_TRIM \<longrightarrow> ioSlba c = 1)) \<or> phase (isCmd s) c (isTrim s) pend))"

fun weight :: "io_command \<Rightarrow> io_wait \<Rightarrow> nat" where
  "weight cmd WaitList = 4"
| "weight cmd WaitTransfer = (if cmd = CMD_ISC_SET \<or> cmd = CMD_TRIM then 2 else 1)"
| "weight cmd WaitHil = 1"
| "weight cmd WaitCredit = 2"

definition io_rank :: "io_state \<times> io_wait multiset \<times> nat \<Rightarrow> nat" where
  "io_rank = (\<lambda>(s, pend, n). \<Sum>w\<in>#pend. weight (isCmd s) w)"

lemma withCtx_simps [simp]: "isCtx (withCtx c s) = Some c" "isCmd (withCtx c s) = isCmd s" "isTrim (withCtx c s) = isTrim s"
  "isCtx (deleted s) = None" "isCmd (deleted s) = isCmd s"
  by (simp_all add: withCtx_def deleted_def)

lemma request_awaited: "Subsystem_request I m a b u = Inr sub \<Longrightarrow> awaits sub = [WaitHil] \<and> (\<exists>r. sub = HilSubmit m r)"
  by (auto simp: Subsystem_request_def bindR_eq_Inr)

text \<open>What the first piece of a command leaves behind.\<close>

definition begun :: "io_state \<Rightarrow> 'w io_result \<Rightarrow> bool" where
  "begun s r \<longleftrightarrow> on_ok r (\<lambda>(calls, s', h'). isCmd s' = isCmd s \<and> answersIn calls = 0 \<and>
     (\<exists>c. isCtx s' = Some c \<and> phase (isCmd s) c (isTrim s') (awaited calls)))"

lemma begun_simps [simp]:
  "begun s (Inr (calls, s', h')) \<longleftrightarrow> isCmd s' = isCmd s \<and> answersIn calls = 0 \<and>
     (\<exists>c. isCtx s' = Some c \<and> phase (isCmd s) c (isTrim s') (awaited calls))" "begun s (Inl e)"
  by (simp_all add: begun_def)

lemma begun_bind: "(\<And>x. m = Inr x \<Longrightarrow> begun s (f x)) \<Longrightarrow> begun s (bindR m f)"
  by (cases m) simp_all

lemma io_begin_ok:
  assumes "isCmd s = CMD_TRIM \<Longrightarrow> ioSlba c = 1" "isCtx s = Some c"
  shows "begun s (io_begin E cid I now c s h)"
  using assms
  by (cases "isCmd s")
    (auto simp: io_begin_def write_begin_def read_begin_def compare_begin_def isc_set_begin_def isc_get_begin_def Subsystem_flush_def Let_def
      intro!: begun_bind dest!: request_awaited split: option.split)

lemma received_simps [simp]: "ioBeginAt (received bs m c) = ioBeginAt c" "ioSlba (received bs m c) = ioSlba c"
  by (simp_all add: received_def split: option.split)

lemma answersIn_disk [simp]: "answersIn (diskWrites c) = 0" "awaited (diskWrites c) = {#}"
  by (simp_all add: diskWrites_def split: option.split)

lemma io_done_first:
  assumes "ioBeginAt c = 0"
  shows "on_ok (io_done I c s h) (\<lambda>(calls, s', h'). answersIn calls = 0 \<and> isCmd s' = isCmd s \<and> isTrim s' = isTrim s \<and>
    awaited calls = (if isCmd s = CMD_ISC_SET then {#WaitHil#} else {#}) \<and> (\<exists>c'. isCtx s' = Some c' \<and> ioBeginAt c' = 1))"
  using assms by (auto simp: io_done_def Let_def on_ok_bindR intro!: on_okI dest!: request_awaited)

lemma io_done_second:
  assumes "ioBeginAt c = 1"
  shows "on_ok (io_done I c s h) (\<lambda>(calls, s', h'). answersIn calls = 1 \<and> awaited calls = {#} \<and> isCmd s' = isCmd s \<and> isCtx s' = None)"
  using assms by (auto simp: io_done_def Let_def)

lemma resume_ok:
  "on_ok (isc_get_resume I now c s h) (\<lambda>(calls, s', h'). answersIn calls = 0 \<and> awaited calls = {#WaitTransfer#} \<and> isCmd s' = isCmd s \<and>
     isTrim s' = isTrim s \<and> (\<exists>c'. isCtx s' = Some c' \<and> ioBeginAt c' = ioBeginAt c))"
  by (auto simp: isc_get_resume_def on_ok_bindR Let_def intro!: on_okI)

lemma trim_one:
  assumes "ioSlba c = 1" "isCtx s = Some c"
  shows "on_ok (trim_ranges I bs c s h) (\<lambda>(calls, s', h'). answersIn calls = 0 \<and> awaited calls = {#WaitHil#} \<and> isCmd s' = isCmd s \<and>
     isCtx s' = Some c \<and> isTrim s' = Some 1)"
  using assms by (auto simp: trim_ranges_def on_ok_bindR intro!: on_okI dest!: request_awaited)

lemma phase_rank: "phase (isCmd s) c tr pend \<Longrightarrow> io_rank (s, pend, n) \<le> 3"
  by (cases "isCmd s") (auto simp: io_rank_def)

text \<open>One callback.\<close>

definition good_step :: "io_state \<Rightarrow> io_wait multiset \<Rightarrow> io_wait multiset \<Rightarrow> 'w io_result \<Rightarrow> bool" where
  "good_step s pend rest r \<longleftrightarrow> on_ok r (\<lambda>(calls, s', h'). io_inv (s', rest + awaited calls, answersIn calls) \<and>
     io_rank (s', rest + awaited calls, answersIn calls) < io_rank (s, pend, 0))"

lemma good_done:
  assumes "ioBeginAt c = 0 \<or> ioBeginAt c = 1" "isCmd s \<noteq> CMD_FLUSH" "isCmd s \<noteq> CMD_TRIM" "isCmd s \<noteq> CMD_ISC_SET"
    and "w = WaitTransfer \<or> w = WaitHil" "pend = add_mset w rest" "rest = {#} \<longleftrightarrow> ioBeginAt c = 1"
    and "rest \<noteq> {#} \<Longrightarrow> rest = {#WaitTransfer#} \<or> rest = {#WaitHil#} \<or> (rest = {#WaitCredit#} \<and> isCmd s = CMD_ISC_GET)"
  shows "good_step s pend rest (io_done I c s h)"
proof (cases "ioBeginAt c = 1")
  case True
  show ?thesis unfolding good_step_def
    by (rule on_ok_mono [OF io_done_second [OF True]]) (use assms True in \<open>auto simp: io_inv_def io_rank_def\<close>)
next
  case False
  then have z: "ioBeginAt c = 0" using assms(1) by simp
  show ?thesis unfolding good_step_def
    by (rule on_ok_mono [OF io_done_first [OF z]]) (use assms False in \<open>cases "isCmd s"; auto simp: io_inv_def io_rank_def\<close>)
qed

lemma good_resume:
  assumes "isCmd s = CMD_ISC_GET" "pend = add_mset WaitCredit rest"
    and "(ioBeginAt c = 0 \<and> rest = {#WaitHil#}) \<or> (ioBeginAt c = 1 \<and> rest = {#})"
  shows "good_step s pend rest (isc_get_resume I now c s h)"
  unfolding good_step_def by (rule on_ok_mono [OF resume_ok]) (use assms in \<open>auto simp: io_inv_def io_rank_def\<close>)

lemma good_begin:
  assumes "isCmd s = CMD_TRIM \<longrightarrow> ioSlba c = 1" "isCtx s = Some c"
  shows "good_step s {#WaitList#} {#} (io_begin E cid I now c s h)"
  unfolding good_step_def
proof (rule on_ok_mono [OF io_begin_ok [unfolded begun_def]])
  fix x :: "io_call list \<times> io_state \<times> 'a hil"
  assume *: "case x of (calls, s', h') \<Rightarrow> isCmd s' = isCmd s \<and> answersIn calls = 0 \<and>
     (\<exists>c. isCtx s' = Some c \<and> phase (isCmd s) c (isTrim s') (awaited calls))"
  obtain calls s' h' where x: "x = (calls, s', h')" by (cases x)
  from * x obtain c' where p: "phase (isCmd s') c' (isTrim s') (awaited calls)" "isCtx s' = Some c'" "answersIn calls = 0" by auto
  from phase_rank [OF p(1), of 0] p show "case x of (calls, s', h') \<Rightarrow> io_inv (s', {#} + awaited calls, answersIn calls) \<and>
     io_rank (s', {#} + awaited calls, answersIn calls) < io_rank (s, {#WaitList#}, 0)"
    by (simp add: x io_inv_def) (simp add: io_rank_def)
qed (use assms in auto)

lemma good_trim:
  assumes "isCmd s = CMD_TRIM" "isCtx s = Some c" "ioSlba c = 1"
  shows "good_step s {#WaitTransfer#} {#} (trim_ranges I bs c s h)" "isTrim s = Some 1 \<Longrightarrow> good_step s {#WaitHil#} {#} (eachTrimDone c s h)"
proof -
  show "good_step s {#WaitTransfer#} {#} (trim_ranges I bs c s h)" unfolding good_step_def
    by (rule on_ok_mono [OF trim_one [OF assms(3,2)]]) (use assms in \<open>auto simp: io_inv_def io_rank_def\<close>)
  show "good_step s {#WaitHil#} {#} (eachTrimDone c s h)" if "isTrim s = Some 1"
    using that assms by (auto simp: good_step_def eachTrimDone_def io_inv_def io_rank_def)
qed

lemma good_isc_set:
  assumes "isCmd s = CMD_ISC_SET"
  shows "ioBeginAt c = 0 \<Longrightarrow> good_step s {#WaitTransfer#} {#} (io_done I c s h)" "ioBeginAt c = 1 \<Longrightarrow> good_step s {#WaitHil#} {#} (io_done I c s h)"
proof -
  show "good_step s {#WaitTransfer#} {#} (io_done I c s h)" if "ioBeginAt c = 0" unfolding good_step_def
    by (rule on_ok_mono [OF io_done_first [OF that]]) (use assms in \<open>auto simp: io_inv_def io_rank_def\<close>)
  show "good_step s {#WaitHil#} {#} (io_done I c s h)" if "ioBeginAt c = 1" unfolding good_step_def
    by (rule on_ok_mono [OF io_done_second [OF that]]) (use assms in \<open>auto simp: io_inv_def io_rank_def\<close>)
qed

lemma io_callback_good:
  assumes "io_inv (s, pend, n)" "w \<in># pend"
  shows "n = 0 \<and> isCtx s \<noteq> None \<and> good_step s pend (pend - {#w#}) (io_callback E cid I now w bs s h)"
proof -
  obtain c where c: "isCtx s = Some c" using assms by (cases "isCtx s") (auto simp: io_inv_def)
  then have n: "n = 0" and ph: "(pend = {#WaitList#} \<and> (isCmd s = CMD_TRIM \<longrightarrow> ioSlba c = 1)) \<or> phase (isCmd s) c (isTrim s) pend"
    using assms(1) by (auto simp: io_inv_def)
  have "good_step s pend (pend - {#w#}) (io_callback E cid I now w bs s h)"
  proof (cases "pend = {#WaitList#} \<and> (isCmd s = CMD_TRIM \<longrightarrow> ioSlba c = 1)")
    case True
    then show ?thesis using assms(2) c by (auto simp: io_callback_def intro: good_begin)
  next
    case False
    then have p: "phase (isCmd s) c (isTrim s) pend" using ph by blast
    have fin: "good_step s pend (pend - {#w#}) (io_done I c' s h)"
      if "isCmd s \<noteq> CMD_FLUSH" "isCmd s \<noteq> CMD_TRIM" "isCmd s \<noteq> CMD_ISC_SET" "ioBeginAt c' = ioBeginAt c" "w = WaitTransfer \<or> w = WaitHil" for c'
      by (rule good_done [where w = w]) (use that p assms(2) in \<open>cases "isCmd s"; auto\<close>)+
    show ?thesis
    proof (cases "isCmd s")
      case CMD_FLUSH
      then show ?thesis using p assms(2) c by (simp add: io_callback_def good_step_def io_inv_def io_rank_def)
    next
      case CMD_TRIM
      then show ?thesis using p assms(2) c good_trim [OF CMD_TRIM c] by (auto simp: io_callback_def)
    next
      case CMD_ISC_SET
      then show ?thesis using p assms(2) c by (auto simp: io_callback_def intro!: good_isc_set [OF CMD_ISC_SET])
    next
      case CMD_ISC_GET
      then show ?thesis using p assms(2) c fin
        by (cases w) (auto simp: io_callback_def intro!: good_resume [OF CMD_ISC_GET])
    next
      case CMD_WRITE
      then show ?thesis using p assms(2) c fin by (cases w) (auto simp: io_callback_def)
    next
      case CMD_READ
      then show ?thesis using p assms(2) c fin by (cases w) (auto simp: io_callback_def)
    next
      case CMD_COMPARE
      then show ?thesis using p assms(2) c fin by (cases w) (auto simp: io_callback_def)
    qed
  qed
  then show ?thesis using n c by simp
qed

lemma io_step_inv:
  assumes "io_step E r r'" "io_inv r" shows "io_inv r' \<and> io_rank r' < io_rank r"
  using assms(1)
proof cases
  case (callback w pend cid I now bytes s h calls s' h' n)
  have "n = 0 \<and> good_step s pend (pend - {#w#}) (io_callback E cid I now w bytes s h)"
    using io_callback_good callback(3) assms(2) unfolding callback(1) by blast
  then show ?thesis using callback by (simp add: good_step_def)
qed

lemma io_steps_bounded:
  assumes "(io_step E ^^ k) r r'" "io_inv r" shows "io_inv r' \<and> k + io_rank r' \<le> io_rank r"
  using assms
proof (induction k arbitrary: r')
  case (Suc k)
  then obtain q where q: "(io_step E ^^ k) r q" "io_step E q r'" by auto
  with Suc.IH Suc.prems(2) io_step_inv [OF q(2)] show ?case by fastforce
qed simp

section \<open>Submission\<close>

lemma io_submission:
  assumes "namespace_ioCommand I now req = (calls, st)"
  shows "case st of None \<Rightarrow> \<exists>r. calls = [Answer r] \<and> answersFor req r
    | Some s \<Rightarrow> answersIn calls = 0 \<and> awaited calls = {#WaitList#} \<and>
        (\<exists>c. isCtx s = Some c \<and> answersFor req (ioResp c) \<and> (isCmd s = CMD_TRIM \<longrightarrow> ioSlba c = trimRanges (swEntry req)))"
  using assms
  by (auto simp: namespace_ioCommand_def Namespace_flush_def Namespace_write_def Namespace_read_def Namespace_isc_set_def Namespace_isc_get_def
      Namespace_compare_def Namespace_datasetManagement_def blockCommand_def notAttached_def IOContext_def answersIn_def Let_def split: if_splits)

text \<open>A command for 65536 blocks counts none: it is answered successfully without any transfer.\<close>

lemma all_blocks_ignored:
  assumes "dword12 (swEntry req) AND 0xFFFF = 0xFFFF" "nsAttached (ieNs I)"
  shows "blockCommand cmd I now req = ([Answer (CQEntryWrapper req)], None)"
  using assms by (simp add: blockCommand_def ioNlbOf_def Let_def)

lemma trim_opcode: "namespace_ioCommand I now req = (calls, Some s) \<Longrightarrow> isCmd s = CMD_TRIM \<Longrightarrow> opcode (swEntry req) = OPCODE_DATASET_MANAGEMEMT"
  by (auto simp: namespace_ioCommand_def Namespace_flush_def Namespace_write_def Namespace_read_def Namespace_isc_set_def Namespace_isc_get_def
      Namespace_compare_def blockCommand_def Let_def split: if_splits)

lemma io_inv_outcome:
  assumes "io_inv (s, pend, n)" shows "n \<le> 1 \<and> (n = 1 \<longleftrightarrow> pend = {#}) \<and> (pend \<noteq> {#} \<longrightarrow> isCtx s \<noteq> None)"
  using assms by (cases "isCmd s") (auto simp: io_inv_def split: option.splits)

section \<open>Trims of several ranges\<close>

text \<open>The callback of the first range deletes the object that the callback of the second one uses.\<close>

lemma trim_many:
  assumes "isCmd s = CMD_TRIM" "isCtx s = Some c" "2 \<le> unat (ioSlba c)"
    and "io_callback E cid I now WaitTransfer bs s h = Inr (calls, s1, h1)"
  shows "awaited calls = replicate_mset (unat (ioSlba c)) WaitHil" "answersIn calls = 0"
    "\<exists>s2. io_callback E cid' I' now' WaitHil bs' s1 h1 = Inr ([], s2, h1) \<and>
       io_callback E cid'' I'' now'' WaitHil bs'' s2 h2 = Inl (Undefined ''deleted DMA context'')"
proof -
  let ?f = "\<lambda>i subs. bindR (Subsystem_request I CMD_TRIM (fst (trimRange (case bs of None \<Rightarrow> [] | Some b \<Rightarrow> b) i))
     (snd (trimRange (case bs of None \<Rightarrow> [] | Some b \<Rightarrow> b) i)) 0) (\<lambda>sub. Inr (subs @ [sub]))"
  have fold: "foldR ?f is subs = Inr out \<Longrightarrow> awaited out = awaited subs + replicate_mset (length is) WaitHil \<and> answersIn out = answersIn subs" for "is" subs out
    by (induction "is" arbitrary: subs) (auto simp: bindR_eq_Inr dest!: request_awaited)
  have t: "trim_ranges I (case bs of None \<Rightarrow> [] | Some b \<Rightarrow> b) c s h = Inr (calls, s1, h1)" using assms by (simp add: io_callback_def)
  then obtain subs where f: "foldR ?f [0..<unat (ioSlba c)] [] = Inr subs" "calls = subs" "s1 = s\<lparr>isTrim := Some (unat (ioSlba c))\<rparr>"
    by (auto simp: trim_ranges_def bindR_eq_Inr)
  show "awaited calls = replicate_mset (unat (ioSlba c)) WaitHil" "answersIn calls = 0" using fold [OF f(1)] f(2) by simp_all
  show "\<exists>s2. io_callback E cid' I' now' WaitHil bs' s1 h1 = Inr ([], s2, h1) \<and>
       io_callback E cid'' I'' now'' WaitHil bs'' s2 h2 = Inl (Undefined ''deleted DMA context'')"
    using assms(1-3) by (auto simp: f(3) io_callback_def eachTrimDone_def)
qed

section \<open>Credit\<close>

text \<open>A user with an account: the gate of a result opens exactly when there is credit, and takes it.\<close>

lemma creditGate_charges:
  assumes "hlSched h = CreditScheduler s" "hlGlobalLive h" "users s uid = Some a"
  shows "creditGate E cid uid pages h = Inr (if checkCredit uid pages s
    then (True, h\<lparr>hlSched := CreditScheduler (updAcc uid (pay False (if pages > credit a then credit a else pages)) s)\<rparr>)
    else (False, h\<lparr>hlSched := CreditScheduler (submitISCDeferred (heCredit E) uid pages cid True s)\<rparr>))"
  using assms by (simp add: creditGate_def useCreditISC_def getOrCreateUser_def Let_def)

end
