(* ===== verification/HIL_Inv.thy ===== *)
theory HIL_Inv
  imports HIL Fcfs_Props Credit_Inv "HOL-Library.Multiset"
begin

text \<open>
  Properties of the host interface layer: the invariant of its scheduler, the completion event in
  time as the step relation \<open>hil_step\<close>, and the busy time.
\<close>

section \<open>The schedulers\<close>

fun sched_ok :: "'w scheduler \<Rightarrow> bool" where
  "sched_ok (FCFSScheduler s) = fcfs_inv s"
| "sched_ok (CreditScheduler s) = cs_inv s"

lemma tryDispatchISC_inv:
  assumes I: "fcfs_inv s" and r: "tryDispatchISC E s = Inr (ok, s')" shows "fcfs_inv s'"
proof (cases "List.find (\<lambda>k. queueOf faQueueISC k s \<noteq> []) (scanOrder (map fst (fcUsers s)) (fcLastChosenUidISC s))")
  case None
  then show ?thesis using r I by (simp add: tryDispatchISC_def)
next
  case (Some k)
  define req where "req = hd (queueOf faQueueISC k s)"
  define u where "u = (FCFS_account k (\<lambda>a. a\<lparr>faQueueISC := tl (faQueueISC a)\<rparr>) s)\<lparr>fcLastChosenUidISC := k\<rparr>"
  have d: "FCFS_dispatchRequest E req u = Inr s'"
    using r Some by (auto simp: tryDispatchISC_def Let_def bindR_eq_Inr req_def u_def)
  have "fcfs_inv (FCFS_account k (\<lambda>a. a\<lparr>faQueueISC := tl (faQueueISC a)\<rparr>) s)" using I by (rule fcfs_inv_account) simp
  then have Iu: "fcfs_inv u" by (simp add: u_def fcfs_inv_def)
  have "fcfs_inv (FCFS_account uid f u)" if "\<And>a. faQueue (f a) = faQueue a" for uid f using Iu by (rule fcfs_inv_account) (simp add: that)
  then have R: "fcfs_inv (recordPageConsumptionByOpType uid pages op u)" for uid pages op
    unfolding recordPageConsumptionByOpType_def by simp
  obtain w t where "s' = (recordPageConsumptionByOpType (hrUserID req) (pagesOf (hrLength req)) (hrOp req) u)\<lparr>fcWorld := w, fcCurrentTick := t\<rparr>"
    using d by (auto simp: FCFS_dispatchRequest_def FCFS_dispatchICL_def bindR_eq_Inr)
  then show ?thesis using R by (simp add: fcfs_inv_def)
qed

lemma FCFS_processUntil_inv: "fcfs_inv s \<Longrightarrow> FCFS_processUntil E req t s = Inr (s', t') \<Longrightarrow> fcfs_inv s'"
proof -
  assume I: "fcfs_inv s" and r: "FCFS_processUntil E req t s = Inr (s', t')"
  obtain u where u: "FCFS_tick E t (FCFS_submitRequest req s) = Inr u" "fcUsers s' = fcUsers u"
    using r by (auto simp: FCFS_processUntil_def bindR_eq_Inr split_beta Let_def)
  obtain v ok w ok' where v: "fcUsers v = fcUsers (FCFS_submitRequest req s)" "tryDispatchHost E v = Inr (ok, w)" "tryDispatchISC E w = Inr (ok', u)"
    using u(1) that [of "(FCFS_submitRequest req s)\<lparr>fcCurrentTick := t, fcLastReportTick := t\<rparr>"]
      that [of "(FCFS_submitRequest req s)\<lparr>fcCurrentTick := t\<rparr>"]
    by (auto simp: FCFS_tick_def FCFS_schedule_def bindR_eq_Inr Let_def split: if_splits)
  have "fcfs_inv v" using FCFS_submitRequest_inv [OF I, of req] v(1) by (simp add: fcfs_inv_def)
  then have "fcfs_inv w" using tryDispatchHost_ok [OF _ v(2)] by blast
  then have "fcfs_inv u" using tryDispatchISC_inv [OF _ v(3)] by blast
  then show ?thesis using u(2) by (simp add: fcfs_inv_def)
qed

lemma FCFS_reset_inv: "fcfs_inv s \<Longrightarrow> fcfs_inv (FCFS_resetStatValues s)"
proof -
  have "fcfs_inv (fold FCFS_getOrCreateUser us s)" if "fcfs_inv s" for us and s :: "'a fcfs"
    using that
  proof (induction us arbitrary: s)
    case (Cons u us)
    have "fcfs_inv (FCFS_getOrCreateUser u s)" using Cons.prems
      by (auto simp: FCFS_getOrCreateUser_def omInsert_def fcfs_inv_def FCFS_newAccount_def split: if_splits)
    then show ?case by (simp add: Cons.IH)
  qed simp
  moreover have "fcfs_inv (s\<lparr>fcUsers := [], fcLastReportTick := 0, fcLastChosenUid := 0, fcLastChosenUidISC := 0\<rparr>)"
    by (simp add: fcfs_inv_def)
  ultimately show ?thesis unfolding FCFS_resetStatValues_def by blast
qed

lemma processRequest_ok: "sched_ok p \<Longrightarrow> processRequest E req t p = Inr (p', t') \<Longrightarrow> sched_ok p'"
  by (cases p) (auto simp: processRequest_def bindR_eq_Inr intro: FCFS_processUntil_inv cs_step_inv [OF cs_step.step_process])

lemma setWorld_ok [simp]: "sched_ok (setWorld w p) = sched_ok p"
  by (cases p) (simp_all add: setWorld_def fcfs_inv_def)

lemma newScheduler_ok: "newScheduler E ty stat w = Inr p \<Longrightarrow> sched_ok p"
  by (auto simp: newScheduler_def bindR_eq_Inr FCFS_new_inv split: scheduler_type.splits dest: on_okD [OF CreditScheduler_new_inv])

lemma switchScheduler_ok: "sched_ok (hlSched h) \<Longrightarrow> switchScheduler E ty h = Inr h' \<Longrightarrow> sched_ok (hlSched h')"
  by (auto simp: switchScheduler_def bindR_eq_Inr Let_def dest: newScheduler_ok split: if_splits)

section \<open>What an operation does\<close>

lemma pqPush_mset: "mset (pqPush j q) = add_mset j (mset q)"
  by (induction q) auto

lemma pqPush_sorted: "sorted (map finishedAt q) \<Longrightarrow> sorted (map finishedAt (pqPush j q))"
proof (induction q)
  case (Cons x q)
  have "set (pqPush j q) = insert j (set q)" using pqPush_mset [of j q] by (metis set_mset_add_mset_insert set_mset_mset)
  then show ?case using Cons by auto
qed simp

text \<open>Besides the scheduler and the figures, an operation pushes its request and updates the completion event.\<close>

definition hilCore :: "'w hil \<Rightarrow> hil_job list \<times> tick \<times> hil_action list" where
  "hilCore h = (hlQueue h, hlLastScheduled h, hlOut h)"

lemma updateBusyTime_core [simp]: "hilCore (updateBusyTime i beg en h) = hilCore h" "hlSched (updateBusyTime i beg en h) = hlSched h"
  by (simp_all add: updateBusyTime_def hilCore_def Let_def)

lemma bookRequest_core [simp]: "hilCore (bookRequest i len beg t h) = hilCore h" "hlSched (bookRequest i len beg t h) = hlSched h"
  by (simp_all add: bookRequest_def) (simp add: hilCore_def)

lemma updateCompletion_sched [simp]: "hlSched (updateCompletion h) = hlSched h" "hlQueue (updateCompletion h) = hlQueue h"
  by (auto simp: updateCompletion_def split: list.split)

definition pushed :: "hil_job \<Rightarrow> hil_job \<Rightarrow> 'w hil \<Rightarrow> 'w hil \<Rightarrow> bool" where
  "pushed j j' h h' \<longleftrightarrow> hjContext j' = hjContext j \<and> hilCore h' = hilCore (updateCompletion (h\<lparr>hlQueue := pqPush j' (hlQueue h)\<rparr>))"

lemma updateCompletion_cong: "hilCore g = hilCore h \<Longrightarrow> hilCore (updateCompletion g) = hilCore (updateCompletion h)"
  by (auto simp: updateCompletion_def hilCore_def split: list.split)

definition finishes :: "hil_job \<Rightarrow> 'w hil \<Rightarrow> 'w hil res \<Rightarrow> bool" where
  "finishes j h r \<longleftrightarrow> on_ok r (\<lambda>h'. \<exists>req t g. h' = finishRequest req j t g \<and> hilCore g = hilCore h \<and>
     (sched_ok (hlSched h) \<longrightarrow> sched_ok (hlSched g)))"

text \<open>Steps of an operation before its end.\<close>

definition prepares :: "'w hil \<Rightarrow> 'w hil \<Rightarrow> bool" where
  "prepares h g \<longleftrightarrow> hilCore g = hilCore h \<and> (sched_ok (hlSched h) \<longrightarrow> sched_ok (hlSched g))"

lemma prepares_refl [simp]: "prepares h h"
  by (simp add: prepares_def)

lemma prepares_simps [simp]:
  "prepares h (snd (numbered j h))" "prepares h (bookRequest i len beg t g) = prepares h g"
  by (simp_all add: prepares_def numbered_def) (simp_all add: hilCore_def)

lemma prepares_sched: "prepares h g \<Longrightarrow> (sched_ok (hlSched g) \<Longrightarrow> sched_ok p) \<Longrightarrow> prepares h (g\<lparr>hlSched := p\<rparr>)"
  by (simp add: prepares_def hilCore_def)

lemma prepares_world: "prepares h g \<Longrightarrow> prepares h (g\<lparr>hlSched := setWorld w (hlSched g)\<rparr>)"
  by (simp add: prepares_sched)

lemma prepares_runtime: "prepares h g \<Longrightarrow> onRuntime f g = (g', t) \<Longrightarrow> prepares h g'"
  by (auto simp: onRuntime_def split_beta Let_def intro!: prepares_sched)

lemma prepares_switch: "prepares h g \<Longrightarrow> switchScheduler E ty g = Inr g' \<Longrightarrow> prepares h g'"
  using switchScheduler_ok [of g E ty g']
  by (auto simp: prepares_def switchScheduler_def bindR_eq_Inr Let_def hilCore_def split: if_splits)

lemma finishes_bind: "(\<And>x. m = Inr x \<Longrightarrow> finishes j h (f x)) \<Longrightarrow> finishes j h (bindR m f)"
  by (cases m) (simp_all add: finishes_def)

lemma finishes_end: "prepares h g \<Longrightarrow> finishes j h (Inr (finishRequest req j t g))"
  by (auto simp: finishes_def prepares_def)

lemma finishes_direct: "prepares h g \<Longrightarrow> finishes j h (direct f req beg j g)"
  by (auto simp: direct_def intro!: finishes_bind finishes_end prepares_sched)

lemma finishes_sched:
  assumes "prepares h g"
  shows "finishes j h (bindR (processRequest E req beg (hlSched g)) (\<lambda>(p, t). Inr (finishRequest req j t (bookRequest i len beg t (g\<lparr>hlSched := p\<rparr>)))))"
proof (rule finishes_bind)
  fix x assume "processRequest E req beg (hlSched g) = Inr x"
  then have "sched_ok (hlSched g) \<Longrightarrow> sched_ok (fst x)" by (cases x) (auto intro: processRequest_ok)
  then show "finishes j h (case x of (p, t) \<Rightarrow> Inr (finishRequest req j t (bookRequest i len beg t (g\<lparr>hlSched := p\<rparr>))))"
    using assms by (auto simp: split_beta intro!: finishes_end prepares_sched)
qed

lemma finishes_isc_set: "finishes j h (HIL_isc_set E beg j h)"
proof -
  have n: "prepares h (snd (numbered j h))" by simp
  show ?thesis unfolding HIL_isc_set_def split_beta Let_def
    by (rule finishes_bind, rule finishes_end, unfold prepares_simps)
      (auto simp: bindR_eq_Inr split: if_splits option.splits intro: prepares_switch [OF n] prepares_world [OF n] prepares_runtime [OF n])
qed

lemma finishes_isc_get: "finishes j h (HIL_isc_get E beg j h)"
proof -
  have n: "prepares h (snd (numbered j h))" by simp
  show ?thesis unfolding HIL_isc_get_def split_beta Let_def
    by (rule finishes_bind, rule finishes_end, unfold prepares_simps) (auto split: if_splits intro: prepares_runtime [OF n])
qed

lemma operation_finishes: "finishes j h (HIL_operation E op beg j h)"
  by (cases op) (simp_all add: HIL_read_def HIL_write_def HIL_flush_def HIL_trim_def HIL_format_def split_beta Let_def
      finishes_sched finishes_direct finishes_isc_set finishes_isc_get)

lemma operation_pushes:
  assumes "HIL_operation E op beg j h = Inr h'"
  shows "\<exists>j'. pushed j j' h h'" "sched_ok (hlSched h) \<Longrightarrow> sched_ok (hlSched h')"
proof -
  obtain req t g where g: "h' = finishRequest req j t g" "hilCore g = hilCore h" "sched_ok (hlSched h) \<longrightarrow> sched_ok (hlSched g)"
    using operation_finishes [of j h E op beg] assms by (auto simp: finishes_def)
  have "pushed j (j\<lparr>hjReq := req\<lparr>hrFinishedAt := t\<rparr>\<rparr>) h h'"
    unfolding pushed_def g(1) finishRequest_def by (intro conjI updateCompletion_cong) (use g(2) in \<open>simp_all add: hilCore_def\<close>)
  then show "\<exists>j'. pushed j j' h h'" by blast
  show "sched_ok (hlSched h')" if "sched_ok (hlSched h)" using g that by (simp add: finishRequest_def)
qed

section \<open>The completion event\<close>

text \<open>
  The layer in time: the clock, the time for which the completion event is scheduled (scheduling it
  again moves it), the requests that were accepted and the completion calls.
\<close>

record 'w hil_run =
  ruHil :: "'w hil"
  ruClock :: tick
  ruEvent :: "tick option"
  ruAccepted :: "hil_job list"
  ruCalled :: "(tick \<times> hil_job) list"

fun nextEvent :: "tick option \<Rightarrow> hil_action list \<Rightarrow> tick option" where
  "nextEvent ev [] = ev"
| "nextEvent ev (ScheduleCompletion t # as) = nextEvent (Some t) as"
| "nextEvent ev (CallBack t j # as) = nextEvent ev as"

fun callsOf :: "hil_action list \<Rightarrow> (tick \<times> hil_job) list" where
  "callsOf [] = []"
| "callsOf (ScheduleCompletion t # as) = callsOf as"
| "callsOf (CallBack t j # as) = (t, j) # callsOf as"

definition run_start :: "'w hil \<Rightarrow> 'w hil_run" where
  "run_start h = \<lparr>ruHil = h, ruClock = 0, ruEvent = None, ruAccepted = [], ruCalled = []\<rparr>"

definition silent :: "'w hil \<Rightarrow> 'w hil" where
  "silent h = h\<lparr>hlOut := []\<rparr>"

text \<open>
  An operation starts at the clock and its request, with its time of completion \<open>j'\<close>, waits; the
  clock moves up to the event; the event happens; the statistics are reset; the credit scheduler acts on its own.
\<close>

inductive hil_step :: "'w hil_env \<Rightarrow> 'w hil_run \<Rightarrow> 'w hil_run \<Rightarrow> bool" for E where
  request: "HIL_operation E op (ruClock r) j (silent (ruHil r)) = Inr h \<Longrightarrow> pushed j j' (silent (ruHil r)) h \<Longrightarrow>
    ruClock r < finishedAt j' \<Longrightarrow>
    hil_step E r (r\<lparr>ruHil := h, ruEvent := nextEvent (ruEvent r) (hlOut h), ruAccepted := ruAccepted r @ [j']\<rparr>)"
| advance: "ruClock r \<le> t \<Longrightarrow> (\<And>e. ruEvent r = Some e \<Longrightarrow> t \<le> e) \<Longrightarrow> hil_step E r (r\<lparr>ruClock := t\<rparr>)"
| fire: "ruEvent r = Some (ruClock r) \<Longrightarrow> h = HIL_completion (ruClock r) (silent (ruHil r)) \<Longrightarrow>
    hil_step E r (r\<lparr>ruHil := h, ruEvent := nextEvent None (hlOut h), ruCalled := ruCalled r @ callsOf (hlOut h)\<rparr>)"
| reset: "hil_step E r (r\<lparr>ruHil := HIL_resetStatValues E (ruHil r)\<rparr>)"
| background: "hlSched (ruHil r) = CreditScheduler s \<Longrightarrow> cs_step (heCredit E) s s' \<Longrightarrow>
    hil_step E r (r\<lparr>ruHil := (ruHil r)\<lparr>hlSched := CreditScheduler s'\<rparr>\<rparr>)"

definition event_ok :: "hil_job list \<Rightarrow> tick \<Rightarrow> tick \<Rightarrow> tick option \<Rightarrow> bool" where
  "event_ok q lastSched clock ev \<longleftrightarrow> sorted (map finishedAt q) \<and>
     (case q of [] \<Rightarrow> lastSched \<le> clock \<and> ev = None
      | j # _ \<Rightarrow> ev = Some (finishedAt j) \<and> lastSched = finishedAt j \<and> clock \<le> finishedAt j)"

definition run_inv :: "'w hil_run \<Rightarrow> bool" where
  "run_inv r \<longleftrightarrow> sched_ok (hlSched (ruHil r)) \<and>
     event_ok (hlQueue (ruHil r)) (hlLastScheduled (ruHil r)) (ruClock r) (ruEvent r) \<and>
     mset (ruAccepted r) = mset (map snd (ruCalled r)) + mset (hlQueue (ruHil r)) \<and>
     (\<forall>x\<in>set (ruCalled r). fst x = finishedAt (snd x) \<and> fst x \<le> ruClock r) \<and> sorted (map fst (ruCalled r))"

lemma pqPush_hd: "pqPush j q = (if q = [] \<or> finishedAt j < finishedAt (hd q) then j # q else hd q # pqPush j (tl q))"
  by (cases q) auto

lemma event_push:
  assumes "event_ok q ls clock ev" "clock < finishedAt j"
    and "h' = updateCompletion (h\<lparr>hlQueue := pqPush j q\<rparr>)" "hlLastScheduled h = ls" "hlOut h = []"
  shows "event_ok (hlQueue h') (hlLastScheduled h') clock (nextEvent ev (hlOut h'))"
proof -
  have "sorted (map finishedAt (pqPush j q))" using assms(1) by (simp add: event_ok_def pqPush_sorted)
  then show ?thesis using assms(1,2,4,5) unfolding assms(3)
    by (cases q) (auto simp: event_ok_def updateCompletion_def)
qed

lemma completionLoop_eq:
  "completionLoop now h q = h\<lparr>hlQueue := dropWhile (\<lambda>j. finishedAt j \<le> now) q,
     hlOut := hlOut h @ map (CallBack now) (takeWhile (\<lambda>j. finishedAt j \<le> now) q)\<rparr>"
  by (induction q arbitrary: h) simp_all

lemma outputs_calls [simp]:
  "nextEvent ev (map (CallBack t) js @ as) = nextEvent ev as" "callsOf (map (CallBack t) js @ as) = map (Pair t) js @ callsOf as"
  by (induction js) simp_all

lemma event_after:
  assumes "sorted (map finishedAt rest)" "rest \<noteq> [] \<Longrightarrow> clock < finishedAt (hd rest)"
    and "h' = updateCompletion (h\<lparr>hlQueue := rest, hlOut := map (CallBack clock) called\<rparr>)" "hlLastScheduled h = clock"
  shows "event_ok (hlQueue h') (hlLastScheduled h') clock (nextEvent None (hlOut h'))" "callsOf (hlOut h') = map (Pair clock) called"
    "hlQueue h' = rest"
  using assms outputs_calls(1) [of None clock called "[]"] outputs_calls(2) [of clock called "[]"]
  by (cases rest; auto simp: event_ok_def updateCompletion_def)+

lemma event_fire:
  assumes "event_ok q ls clock (Some clock)" "hlLastScheduled h = ls" "hlOut h = []"
    and "h' = updateCompletion (completionLoop clock h q)"
  shows "event_ok (hlQueue h') (hlLastScheduled h') clock (nextEvent None (hlOut h')) \<and>
    callsOf (hlOut h') = map (Pair clock) (takeWhile (\<lambda>j. finishedAt j \<le> clock) q) \<and>
    hlQueue h' = dropWhile (\<lambda>j. finishedAt j \<le> clock) q \<and> (\<forall>j\<in>set (takeWhile (\<lambda>j. finishedAt j \<le> clock) q). finishedAt j = clock)"
proof -
  let ?rest = "dropWhile (\<lambda>j. finishedAt j \<le> clock) q"
  have "q \<noteq> []" using assms(1) by (auto simp: event_ok_def)
  then obtain j0 q0 where q1: "q = j0 # q0" by (cases q) auto
  have q: "q = j0 # q0" "ls = clock" "finishedAt j0 = clock" "sorted (map finishedAt q)"
    using assms(1) unfolding event_ok_def q1 by auto
  have s: "sorted (map finishedAt ?rest)" 
    using q(4) takeWhile_dropWhile_id [of "\<lambda>j. finishedAt j \<le> clock" q] by (metis map_append sorted_append)
  have later: "?rest \<noteq> [] \<Longrightarrow> clock < finishedAt (hd ?rest)" using hd_dropWhile [of "\<lambda>j. finishedAt j \<le> clock" q] by (simp add: not_le)
  have "finishedAt j = clock" if "j \<in> set (takeWhile (\<lambda>j. finishedAt j \<le> clock) q)" for j
    using set_takeWhileD [OF that] q(1,3,4) by (intro antisym) auto
  moreover have h': "h' = updateCompletion (h\<lparr>hlQueue := ?rest, hlOut := map (CallBack clock) (takeWhile (\<lambda>j. finishedAt j \<le> clock) q)\<rparr>)"
    unfolding assms(4) completionLoop_eq assms(3) by simp
  moreover have l: "hlLastScheduled h = clock" using q(2) assms(2) by simp
  ultimately show ?thesis using event_after [OF s later h' l] by (intro conjI) auto
qed

lemma sorted_const: "sorted (map (\<lambda>x. c) xs)"
  by (induction xs) auto

lemma hil_step_inv:
  assumes "hil_step E r r'" "run_inv r" shows "run_inv r'"
  using assms(1)
proof cases
  case (request op j h j')
  have h: "hlQueue h = pqPush j' (hlQueue (ruHil r))"
    "event_ok (hlQueue h) (hlLastScheduled h) (ruClock r) (nextEvent (ruEvent r) (hlOut h))"
  proof -
    let ?g = "updateCompletion ((silent (ruHil r))\<lparr>hlQueue := pqPush j' (hlQueue (ruHil r))\<rparr>)"
    have core: "hlQueue h = hlQueue ?g" "hlLastScheduled h = hlLastScheduled ?g" "hlOut h = hlOut ?g"
      using request(3) by (simp_all add: pushed_def hilCore_def silent_def)
    then show "hlQueue h = pqPush j' (hlQueue (ruHil r))" by simp
    have "event_ok (hlQueue (ruHil r)) (hlLastScheduled (ruHil r)) (ruClock r) (ruEvent r)" using assms(2) by (simp add: run_inv_def)
    from event_push [OF this request(4), of ?g "silent (ruHil r)"]
    show "event_ok (hlQueue h) (hlLastScheduled h) (ruClock r) (nextEvent (ruEvent r) (hlOut h))"
      unfolding core by (simp add: silent_def [of "ruHil r"])
  qed
  have "sched_ok (hlSched h)" using operation_pushes(2) [OF request(2)] assms(2) by (simp add: run_inv_def silent_def)
  then show ?thesis using assms(2) h by (auto simp: run_inv_def request(1) pqPush_mset)
next
  case (advance t)
  then show ?thesis using assms(2)
    by (auto simp: run_inv_def event_ok_def split: list.splits)
next
  case (fire h)
  let ?q = "hlQueue (ruHil r)"
  have e: "event_ok ?q (hlLastScheduled (ruHil r)) (ruClock r) (Some (ruClock r))" using assms(2) fire(2) by (simp add: run_inv_def)
  have h: "h = updateCompletion (completionLoop (ruClock r) (silent (ruHil r)) ?q)"
    using fire(3) by (simp add: HIL_completion_def silent_def)
  have "hlLastScheduled (silent (ruHil r)) = hlLastScheduled (ruHil r)" "hlOut (silent (ruHil r)) = []" by (simp_all add: silent_def)
  note F = event_fire [OF e this h]
  have "mset ?q = mset (takeWhile (\<lambda>j. finishedAt j \<le> ruClock r) ?q) + mset (hlQueue h)"
    using F by (metis mset_append takeWhile_dropWhile_id)
  moreover have "hlSched h = hlSched (ruHil r)" unfolding h completionLoop_eq by (simp add: silent_def)
  ultimately show ?thesis using assms(2) F by (auto simp: run_inv_def fire(1) sorted_append o_def sorted_const)
next
  case reset
  have "sched_ok (hlSched (HIL_resetStatValues E (ruHil r)))"
    using assms(2) FCFS_reset_inv resetStatValues_inv by (auto simp: run_inv_def HIL_resetStatValues_def Let_def split: scheduler.split)
  then show ?thesis using assms(2) by (auto simp: run_inv_def reset HIL_resetStatValues_def Let_def)
next
  case (background s s')
  then show ?thesis using assms(2) cs_step_inv by (auto simp: run_inv_def)
qed

lemma HIL_new_inv: "HIL_new E cfg stat w = Inr h \<Longrightarrow> run_inv (run_start h)"
  by (auto simp: HIL_new_def bindR_eq_Inr Let_def run_inv_def run_start_def event_ok_def dest: newScheduler_ok split: if_splits)

section \<open>Busy time\<close>

definition busyRun :: "nat \<Rightarrow> (tick \<times> tick) list \<Rightarrow> 'w hil \<Rightarrow> 'w hil" where
  "busyRun i ivs h = fold (\<lambda>(beg, en). updateBusyTime i beg en) ivs h"

definition ticksIn :: "(tick \<times> tick) list \<Rightarrow> nat set" where
  "ticksIn ivs = (\<Union>(beg, en)\<in>set ivs. {unat beg..<unat en})"

text \<open>The figure after some intervals: the busy ticks up to the end of the last busy one.\<close>

definition busy_ok :: "nat \<Rightarrow> (tick \<times> tick) list \<Rightarrow> 'w hil \<Rightarrow> bool" where
  "busy_ok i ivs h \<longleftrightarrow> i < length (hlBusy h) \<and> i < length (hlLastBusyAt h) \<and>
     unat (hlBusy h ! i) = card (ticksIn ivs) \<and> ticksIn ivs \<subseteq> {..<unat (hlLastBusyAt h ! i)} \<and>
     (\<forall>beg. (\<forall>x\<in>set ivs. fst x \<le> beg) \<longrightarrow> {unat beg..<unat (hlLastBusyAt h ! i)} \<subseteq> ticksIn ivs)"

lemma busy_step:
  assumes "busy_ok i ivs h" "beg \<le> en" "\<forall>x\<in>set ivs. fst x \<le> beg"
  shows "busy_ok i (ivs @ [(beg, en)]) (updateBusyTime i beg en h)"
proof -
  let ?L = "hlLastBusyAt h ! i" and ?B = "hlBusy h ! i"
  have len: "i < length (hlBusy h)" "i < length (hlLastBusyAt h)" and B: "unat ?B = card (ticksIn ivs)"
    and sub: "ticksIn ivs \<subseteq> {..<unat ?L}" and full: "{unat beg..<unat ?L} \<subseteq> ticksIn ivs"
    using assms(1,3) by (auto simp: busy_ok_def)
  have T: "ticksIn (ivs @ [(beg, en)]) = ticksIn ivs \<union> {unat beg..<unat en}" by (auto simp: ticksIn_def)
  have le: "unat beg \<le> unat en" using assms(2) by (simp add: word_le_nat_alt)
  show ?thesis
  proof (cases "en \<le> ?L")
    case True
    then have "{unat beg..<unat en} \<subseteq> ticksIn ivs" using full by (auto simp: word_le_nat_alt)
    then have "ticksIn (ivs @ [(beg, en)]) = ticksIn ivs" unfolding T by blast
    then show ?thesis using True assms(1) by (auto simp: busy_ok_def updateBusyTime_def Let_def)
  next
    case False
    define from0 where "from0 = (if beg < ?L then ?L else beg)"
    have f: "unat from0 = max (unat beg) (unat ?L)" by (auto simp: from0_def word_less_nat_alt)
    have fe: "unat from0 \<le> unat en" using False le f by (simp add: word_le_nat_alt)
    have new: "ticksIn (ivs @ [(beg, en)]) = ticksIn ivs \<union> {unat from0..<unat en}" unfolding T f using full by auto
    have "ticksIn ivs \<inter> {unat from0..<unat en} = {}" using sub f by auto
    moreover have "finite (ticksIn ivs)" using sub finite_subset by blast
    ultimately have card: "card (ticksIn (ivs @ [(beg, en)])) = card (ticksIn ivs) + (unat en - unat from0)"
      unfolding new by (simp add: card_Un_disjoint)
    have "card (ticksIn ivs) \<le> unat ?L" using sub card_mono [of "{..<unat ?L}" "ticksIn ivs"] by simp
    then have "card (ticksIn ivs) + (unat en - unat from0) < 2 ^ 64" using f fe unsigned_less [where ?'a = nat, of en] by simp
    moreover have d: "unat (en - from0) = unat en - unat from0" using fe by (simp add: unat_sub word_le_nat_alt)
    ultimately have "unat (?B + (en - from0)) = card (ticksIn (ivs @ [(beg, en)]))"
      using B card by (simp add: unat_word_ariths(1))
    moreover have "updateBusyTime i beg en h = h\<lparr>hlBusy := (hlBusy h)[i := ?B + (en - from0)], hlLastBusyAt := (hlLastBusyAt h)[i := en]\<rparr>"
      using False by (simp add: updateBusyTime_def from0_def Let_def)
    moreover have "ticksIn (ivs @ [(beg, en)]) \<subseteq> {..<unat en}" using sub False unfolding T by (auto simp: word_le_nat_alt)
    moreover have "{unat b..<unat en} \<subseteq> ticksIn (ivs @ [(beg, en)])" if "beg \<le> b" for b
      using that unfolding T by (auto simp: word_le_nat_alt)
    ultimately show ?thesis using len by (auto simp: busy_ok_def)
  qed
qed

lemma busyRun_ok:
  assumes "busy_ok i [] h" "sorted (map fst ivs)" "\<forall>x\<in>set ivs. fst x \<le> snd x"
  shows "busy_ok i ivs (busyRun i ivs h)"
  using assms(2,3)
proof (induction ivs rule: rev_induct)
  case Nil
  then show ?case using assms(1) by (simp add: busyRun_def)
next
  case (snoc x ivs)
  then have "busy_ok i ivs (busyRun i ivs h)" by (simp add: sorted_append)
  from busy_step [OF this, of "fst x" "snd x"] snoc.prems show ?case by (simp add: busyRun_def sorted_append split_beta)
qed

section \<open>A completion that is lost\<close>

text \<open>
  A request that finishes at the time for which the event was scheduled last, after that event has
  happened, does not schedule it; and as long as it is on top no later one does.
\<close>

lemma completion_stalls:
  assumes "hlQueue h = [] \<and> hlLastScheduled h = finishedAt j' \<or>
    (\<exists>k q. hlQueue h = k # q \<and> hlLastScheduled h = finishedAt k \<and> finishedAt k \<le> finishedAt j')"
    and "pushed j j' h h'"
  shows "hlOut h' = hlOut h \<and> (\<exists>k q. hlQueue h' = k # q \<and> hlLastScheduled h' = finishedAt k)"
  using assms by (auto simp: pushed_def hilCore_def updateCompletion_def not_less [symmetric])

end
