(* ===== verification/HIL_Props.thy ===== *)
theory HIL_Props
  imports HIL_Inv
begin

text \<open>The properties of the host interface layer.\<close>

section \<open>Completion\<close>

text \<open>
  C13. From the start of the layer, through any sequence of operations whose requests finish later
  than they begin, of clock ticks, completion events and actions of the credit scheduler: every
  accepted request is either called back exactly once, at its own time of completion and in the
  order of these times, or waits; and while requests wait the event is scheduled for the first of
  them, or earlier, and the clock has not passed it; the scheduler in use keeps its invariant.
\<close>

theorem HIL_completes_on_time:
  assumes "HIL_new E cfg stat w = Inr h" "(hil_step E)\<^sup>*\<^sup>* (run_start h) r"
  shows "mset (ruAccepted r) = mset (map snd (ruCalled r)) + mset (hlQueue (ruHil r)) \<and>
    (\<forall>x\<in>set (ruCalled r). fst x = finishedAt (snd x)) \<and> sorted (map fst (ruCalled r)) \<and>
    (\<forall>j\<in>set (hlQueue (ruHil r)). \<exists>e. ruEvent r = Some e \<and> ruClock r \<le> e \<and> e \<le> finishedAt j) \<and> sched_ok (hlSched (ruHil r))"
proof -
  have "run_inv r" using assms(2) by (induction rule: rtranclp_induct) (auto intro: HIL_new_inv [OF assms(1)] hil_step_inv)
  then show ?thesis by (cases "hlQueue (ruHil r)") (auto simp: run_inv_def event_ok_def)
qed

text \<open>A flush of five ticks under the first-come first-served scheduler.\<close>

definition hilEnvExample :: "nat hil_env" where
  "hilEnvExample = \<lparr>heFcfs = exFEnv,
     heCredit = \<lparr>eICLRead = \<lambda>w r t. (w, t), eICLWrite = \<lambda>w r t. (w, t), eGetTick = \<lambda>w. 0, eSchedule = \<lambda>w t. w,
       eResume = \<lambda>w c t. w, eCallback = \<lambda>w c t. w, eOrder = \<lambda>ks. ks\<rparr>,
     heICLFlush = \<lambda>w r t. Inr (w, t + 5), heICLTrim = \<lambda>w r t. Inr (w, t), heICLFormat = \<lambda>w r t. Inr (w, t),
     heAddSlets = \<lambda>w t. None, heDestroy = \<lambda>w. w, heSetOpt = \<lambda>w i c t. (w, t), heStartSlet = \<lambda>w i t. (w, t),
     heICLStat = \<lambda>w. [], heICLResetStat = \<lambda>w. w\<rparr>"

definition hilStart :: "nat hil" where
  "hilStart = \<lparr>hlSched = FCFSScheduler (FCFS_new 0), hlType = TYPE_FCFS, hlGlobalLive = True, hlStatic = (0, False),
     hlReqCount = 0, hlLastScheduled = 0, hlQueue = [], hlRequests = [0, 0], hlIoSize = [0, 0], hlBusy = [0, 0, 0],
     hlLastBusyAt = [0, 0, 0], hlOut = []\<rparr>"

definition jobExample :: "u64 \<Rightarrow> tick \<Rightarrow> hil_job" where
  "jobExample i t = \<lparr>hjReq = HIL_Request_new\<lparr>hrReqID := i, hrFinishedAt := t\<rparr>, hjContext = 7, hjSlba = 0, hjBuffer = False\<rparr>"

definition hilFlushed :: "nat hil" where
  "hilFlushed = hilStart\<lparr>hlReqCount := 1, hlLastScheduled := 5, hlQueue := [jobExample 1 5], hlOut := [ScheduleCompletion 5]\<rparr>"

lemma hilStart_new: "HIL_new hilEnvExample 0 (0, False) 0 = Inr hilStart"
  by (simp add: HIL_new_def newScheduler_def hilStart_def)

lemma hilExample_flush: "HIL_flush hilEnvExample 0 (jobExample 0 0) hilStart = Inr hilFlushed"
  by (simp add: HIL_flush_def numbered_def direct_def finishRequest_def updateCompletion_def hilEnvExample_def hilStart_def
      hilFlushed_def jobExample_def setWorld_def schedWorld_def FCFS_new_def FCFS_account_def FCFS_getOrCreateUser_def Let_def split: option.split)

definition runExample :: "tick \<Rightarrow> nat hil_run" where
  "runExample t = (run_start hilStart)\<lparr>ruHil := hilFlushed, ruClock := t, ruEvent := Some 5, ruAccepted := [jobExample 1 5]\<rparr>"

definition runDone :: "nat hil_run" where
  "runDone = (runExample 5)\<lparr>ruHil := hilFlushed\<lparr>hlQueue := [], hlOut := [CallBack 5 (jobExample 1 5)]\<rparr>, ruEvent := None, ruCalled := [(5, jobExample 1 5)]\<rparr>"

lemma runDone_reached: "(hil_step hilEnvExample)\<^sup>*\<^sup>* (run_start hilStart) runDone"
proof -
  have s: "silent hilStart = hilStart" by (simp add: silent_def hilStart_def)
  have p: "pushed (jobExample 0 0) (jobExample 1 5) hilStart hilFlushed"
    by (simp add: pushed_def hilCore_def updateCompletion_def hilStart_def hilFlushed_def jobExample_def)
  have "hil_step hilEnvExample (run_start hilStart) (runExample 0)"
    using hil_step.request [of hilEnvExample OpFlush "run_start hilStart" "jobExample 0 0" hilFlushed "jobExample 1 5"] p hilExample_flush
    by (simp add: run_start_def s runExample_def hilFlushed_def) (simp add: jobExample_def)
  moreover have "hil_step hilEnvExample (runExample 0) (runExample 5)"
    using hil_step.advance [of "runExample 0" 5 hilEnvExample] by (simp add: runExample_def run_start_def)
  moreover have "hil_step hilEnvExample (runExample 5) runDone"
  proof -
    have "HIL_completion 5 (silent hilFlushed) = hilFlushed\<lparr>hlQueue := [], hlOut := [CallBack 5 (jobExample 1 5)]\<rparr>"
      by (simp add: HIL_completion_def updateCompletion_def silent_def hilFlushed_def hilStart_def jobExample_def)
    then show ?thesis
      using hil_step.fire [of "runExample 5" _ hilEnvExample] by (simp add: runExample_def runDone_def run_start_def)
  qed
  ultimately show ?thesis by (meson converse_rtranclp_into_rtranclp r_into_rtranclp)
qed

theorem HIL_completes_on_time_witness:
  "mset (ruAccepted runDone) = {#jobExample 1 5#} \<and> map fst (ruCalled runDone) = [finishedAt (jobExample 1 5)]"
  using HIL_completes_on_time [OF hilStart_new runDone_reached] by (simp add: runDone_def runExample_def hilFlushed_def)

section \<open>Busy time\<close>

text \<open>
  C34. The busy time of a kind of request is the number of ticks at which at least one request of that
  kind was under way, for requests whose begins are in order of time; it does not wrap around.
\<close>

theorem updateBusyTime_counts_ticks:
  assumes "i < length (hlBusy h)" "i < length (hlLastBusyAt h)" "hlBusy h ! i = 0" "hlLastBusyAt h ! i = 0"
    and "sorted (map fst ivs)" "\<forall>x\<in>set ivs. fst x \<le> snd x"
  shows "unat (hlBusy (busyRun i ivs h) ! i) = card (ticksIn ivs)"
proof -
  have "busy_ok i [] h" using assms(1-4) by (simp add: busy_ok_def ticksIn_def)
  from busyRun_ok [OF this assms(5,6)] show ?thesis by (simp add: busy_ok_def)
qed

theorem updateBusyTime_counts_ticks_witness: "unat (hlBusy (busyRun 0 [(1, 4), (2, 3), (3, 6), (8, 9)] hilStart) ! 0) = 6"
proof -
  have "ticksIn [(1, 4), (2, 3), (3, 6), (8, 9)] = {1, 2, 3, 4, 5, 8}" by (auto simp: ticksIn_def)
  then show ?thesis using updateBusyTime_counts_ticks [of 0 hilStart "[(1, 4), (2, 3), (3, 6), (8, 9)]"] by (simp add: hilStart_def)
qed

end
