(* ===== verification/NvmeIO_Props.thy ===== *)
theory NvmeIO_Props
  imports NvmeIO_Inv Nvme_Props HIL_Props
begin

text \<open>The properties of the I/O commands of an NVMe namespace.\<close>

text \<open>
  C1. An I/O command is either answered at once, or it starts; then, whatever the order of the
  callbacks it waits for and whatever data and states of the layers below they bring, at most four
  callbacks happen, the command is answered exactly once, and exactly when no callback is
  outstanding, and its context is there as long as one is. This holds for all commands but trims
  of several ranges.
\<close>

theorem io_answered_once:
  assumes "namespace_ioCommand I now req = (calls, st)" "opcode (swEntry req) = OPCODE_DATASET_MANAGEMEMT \<longrightarrow> trimRanges (swEntry req) = 1"
  shows "case st of
      None \<Rightarrow> \<exists>r. calls = [Answer r] \<and> answersFor req r
    | Some s \<Rightarrow> \<forall>k s' pend n. (io_step E ^^ k) (s, awaited calls, answersIn calls) (s', pend, n) \<longrightarrow>
        k \<le> 4 \<and> n \<le> 1 \<and> (n = 1 \<longleftrightarrow> pend = {#}) \<and> (pend \<noteq> {#} \<longrightarrow> isCtx s' \<noteq> None)"
proof (cases st)
  case None
  then show ?thesis using io_submission [OF assms(1)] by simp
next
  case (Some s)
  have "isCmd s = CMD_TRIM \<Longrightarrow> opcode (swEntry req) = OPCODE_DATASET_MANAGEMEMT"
    using assms(1) Some trim_opcode by blast
  then have start: "io_inv (s, awaited calls, answersIn calls)" "io_rank (s, awaited calls, answersIn calls) = 4"
    using io_submission [OF assms(1)] Some assms(2) by (auto simp: io_inv_def io_rank_def)
  have "k \<le> 4 \<and> n \<le> 1 \<and> (n = 1 \<longleftrightarrow> pend = {#}) \<and> (pend \<noteq> {#} \<longrightarrow> isCtx s' \<noteq> None)"
    if "(io_step E ^^ k) (s, awaited calls, answersIn calls) (s', pend, n)" for k s' pend n
  proof -
    from io_steps_bounded [OF that start(1)] start(2) have "io_inv (s', pend, n)" "k \<le> 4" by auto
    then show ?thesis using io_inv_outcome by blast
  qed
  then show ?thesis using Some by simp
qed

text \<open>A flush: the CPU model calls its first piece, and the host interface layer calls back.\<close>

definition ioExample :: io_env where
  "ioExample = \<lparr>ieSub = subsysExample, ieNs = (Namespace_setData 1 (nsExample 4096) Namespace_new)\<lparr>nsAttached := True\<rparr>,
     ieDiskRead = None, ieResultSize = \<lambda>i t. None, ieResult = \<lambda>i t. []\<rparr>"

definition flushCommand :: sq_wrapper where
  "flushCommand = SQEntryWrapper SQEntry_new 1 1 0 0"

definition flushExample :: io_state where
  "flushExample = \<lparr>isCmd = CMD_FLUSH, isCtx = Some (IOContext (CQEntryWrapper flushCommand)), isTrim = None\<rparr>"

lemma flushExample_started: "namespace_ioCommand ioExample 0 flushCommand = ([Execute], Some flushExample)"
  by (simp add: namespace_ioCommand_def Namespace_flush_def ioExample_def flushCommand_def flushExample_def SQEntryWrapper_def SQEntry_new_def
      Namespace_setData_def Namespace_new_def OPCODE_FLUSH_def IOContext_def Let_def)

lemma flushExample_runs: "(io_step hilEnvExample ^^ 2) (flushExample, {#WaitList#}, 0) (deleted flushExample, {#}, 1)"
proof -
  have "io_step hilEnvExample (flushExample, {#WaitList#}, 0) (flushExample, {#WaitHil#}, 0)"
    using io_step.callback [of WaitList "{#WaitList#}" hilEnvExample 0 ioExample 0 None flushExample hilStart "[Subsystem_flush ioExample]" flushExample hilStart 0]
    by (simp add: io_callback_def io_begin_def flushExample_def Subsystem_flush_def Let_def)
  moreover have "io_step hilEnvExample (flushExample, {#WaitHil#}, 0) (deleted flushExample, {#}, 1)"
    using io_step.callback [of WaitHil "{#WaitHil#}" hilEnvExample 0 ioExample 5 None flushExample hilStart "[Answer (CQEntryWrapper flushCommand)]" "deleted flushExample" hilStart 0]
    by (simp add: io_callback_def flushExample_def IOContext_def)
  ultimately show ?thesis by (auto simp: numeral_2_eq_2)
qed

theorem io_answered_once_witness:
  "(io_step hilEnvExample ^^ 2) (flushExample, {#WaitList#}, 0) (deleted flushExample, {#}, 1) \<and> (2 :: nat) \<le> 4"
proof -
  have "trimRanges (swEntry flushCommand) = 1" by (simp add: trimRanges_def flushCommand_def SQEntryWrapper_def SQEntry_new_def)
  then have "\<forall>k s' pend n. (io_step hilEnvExample ^^ k) (flushExample, {#WaitList#}, 0) (s', pend, n) \<longrightarrow>
      k \<le> 4 \<and> n \<le> 1 \<and> (n = 1 \<longleftrightarrow> pend = {#}) \<and> (pend \<noteq> {#} \<longrightarrow> isCtx s' \<noteq> None)"
    using io_answered_once [OF flushExample_started, of hilEnvExample] by (simp add: answersIn_def)
  then show ?thesis using flushExample_runs by blast
qed

end
