(* ===== verification/NvmeDma.thy ===== *)
theory NvmeDma
  imports NvmeIdentify
begin

text \<open>
  The lists of host memory of NVMe commands (\<^verbatim>\<open>hil/nvme/dma.cc\<close>): physical region pages and
  scatter gather lists, how they are read from host memory, and the transfers that reading and
  writing through them make; and their properties. Host memory is a function from addresses to
  bytes; the lists are read from it in pieces that call each other back, in the order of the model.
\<close>

section \<open>Lists\<close>

text \<open>An element of a list: a stretch of host memory, or of no memory (a bit bucket).\<close>

record chunk =
  chAddr :: u64
  chSize :: u64
  chIgnore :: bool

definition PRP :: "u64 \<Rightarrow> u64 \<Rightarrow> chunk" where
  "PRP a s = \<lparr>chAddr = a, chSize = s, chIgnore = False\<rparr>"

type_synonym host_mem = "u64 \<Rightarrow> u8"

definition hostRead :: "host_mem \<Rightarrow> u64 \<Rightarrow> nat \<Rightarrow> u64" where
  "hostRead mem a n = bufRead 0 n (\<lambda>k. mem (a + of_nat k))"

definition getPRPSize :: "u64 \<Rightarrow> u64 \<Rightarrow> u64" where
  "getPRPSize pagesize a = pagesize - (a AND (pagesize - 1))"

definition prpEntry :: "host_mem \<Rightarrow> u64 \<Rightarrow> nat \<Rightarrow> u64" where
  "prpEntry mem base i = hostRead mem (base + of_nat (8 * i)) 8"

text \<open>
  The loop over the entries of one page of the list: the bytes covered so far and the list. An entry
  that is not wholly in the bytes that were read is undefined.
\<close>

fun prpEntries :: "u64 \<Rightarrow> host_mem \<Rightarrow> u64 \<Rightarrow> u64 \<Rightarrow> nat list \<Rightarrow> u64 \<times> chunk list \<Rightarrow> (u64 \<times> chunk list) res" where
  "prpEntries pg mem base todo [] st = Inr st"
| "prpEntries pg mem base todo (i # ks) (cur, l) =
     (if 8 * i + 8 > unat (getPRPSize pg base) then Inl (Undefined ''read behind the PRP list'')
      else let p = prpEntry mem base i; sz = getPRPSize pg p; cur = cur + sz
        in if p = 0 then Inl (Panic ''prp_list: Invalid PRP in PRP List'')
           else if cur \<ge> todo then Inr (cur, l @ [PRP p sz])
           else prpEntries pg mem base todo ks (cur, l @ [PRP p sz]))"

definition entryCount :: "u64 \<Rightarrow> nat" where
  "entryCount n = (unat n + 7) div 8"

text \<open>
  When the page ends before the size is reached, its last entry is taken off the list again and
  points to the next page. The value is None when the chain of pages does not end.
\<close>

partial_function (option) getPRPListFromPRP :: "u64 \<Rightarrow> host_mem \<Rightarrow> u64 \<Rightarrow> u64 \<Rightarrow> chunk list \<Rightarrow> chunk list res option" where
  "getPRPListFromPRP pg mem base todo l =
     (case prpEntries pg mem base todo [0..<entryCount (getPRPSize pg base)] (0, l) of
        Inl e \<Rightarrow> Some (Inl e)
      | Inr (cur, l) \<Rightarrow>
          if cur < todo then
            if l = [] then Some (Inl (Undefined ''back of an empty list''))
            else getPRPListFromPRP pg mem (chAddr (last l)) (todo - cur) (butlast l)
          else Some (Inr l))"

definition PRPList :: "u64 \<Rightarrow> host_mem \<Rightarrow> u64 \<Rightarrow> u64 \<Rightarrow> u64 \<Rightarrow> chunk list res option" where
  "PRPList pg mem prp1 prp2 todo =
     (let s1 = getPRPSize pg prp1; s2 = getPRPSize pg prp2;
          two = Some (if s1 + s2 < todo then Inl (Panic ''prp_list: Invalid DPTR size'') else Inr [PRP prp1 s1, PRP prp2 s2]);
          many = getPRPListFromPRP pg mem prp2 (todo - s1) [PRP prp1 s1]
      in if todo \<le> pg then if todo \<le> s1 then Some (Inr [PRP prp1 todo]) else two
         else if todo \<le> pg * 2 then if s1 = pg then two else many
         else many)"

text \<open>The constructor that the queues use.\<close>

definition PRPList_base :: "u64 \<Rightarrow> host_mem \<Rightarrow> u64 \<Rightarrow> u64 \<Rightarrow> bool \<Rightarrow> chunk list res option" where
  "PRPList_base pg mem base todo cont = (if cont then Some (Inr [PRP base todo]) else getPRPListFromPRP pg mem base todo [])"

section \<open>Scatter gather lists\<close>

record sgl_descriptor =
  sdAddress :: u64
  sdLength :: u32
  sdType :: u8
  sdSubtype :: u8

definition SGLDescriptor :: "(nat \<Rightarrow> u8) \<Rightarrow> sgl_descriptor" where
  "SGLDescriptor b = \<lparr>sdAddress = bufRead 0 8 b, sdLength = ucast (bufRead 8 4 b), sdType = drop_bit 4 (b 15), sdSubtype = b 15 AND 0x0F\<rparr>"

definition sglAt :: "host_mem \<Rightarrow> u64 \<Rightarrow> nat \<Rightarrow> sgl_descriptor" where
  "sglAt mem a i = SGLDescriptor (\<lambda>k. mem (a + of_nat (16 * i + k)))"

definition parseSGLDescriptor :: "sgl_descriptor \<Rightarrow> chunk list \<Rightarrow> chunk list res" where
  "parseSGLDescriptor d l =
     (if sdType d = 0x00 \<or> sdType d = 0x04 \<or> sdType d = 0x01 then
        if sdSubtype d \<noteq> 0x00 then Inl (Panic ''Unexpected SGL subtype'')
        else Inr (l @ [\<lparr>chAddr = sdAddress d, chSize = ucast (sdLength d), chIgnore = (sdType d = 0x01)\<rparr>])
      else Inl (Panic ''Invalid SGL descriptor''))"

text \<open>
  The loop over the descriptors of a segment: whether a further segment follows, the last
  descriptor, and the list. Other types than those of the source's cases are skipped.
\<close>

fun sglEntries :: "host_mem \<Rightarrow> u64 \<Rightarrow> nat \<Rightarrow> nat list \<Rightarrow> bool \<times> sgl_descriptor \<times> chunk list \<Rightarrow> (bool \<times> sgl_descriptor \<times> chunk list) res" where
  "sglEntries mem a len [] st = Inr st"
| "sglEntries mem a len (i # ks) (nxt, d, l) =
     (if 16 * i + 16 > len then Inl (Undefined ''read behind the segment'')
      else let d = sglAt mem a i
        in if sdType d = 0x00 \<or> sdType d = 0x04 \<or> sdType d = 0x01 then
             bindR (parseSGLDescriptor d l) (\<lambda>l. sglEntries mem a len ks (nxt, d, l))
           else if sdType d = 0x02 \<or> sdType d = 0x03 then
             if 16 * i \<noteq> len - 16 then Inl (Panic ''Invalid SGL segment'') else sglEntries mem a len ks (True, d, l)
           else sglEntries mem a len ks (nxt, d, l))"

text \<open>Segments may form a cycle, which the source follows for ever.\<close>

partial_function (option) parseSGLSegment :: "host_mem \<Rightarrow> u64 \<Rightarrow> u32 \<Rightarrow> chunk list \<Rightarrow> chunk list res option" where
  "parseSGLSegment mem a len l =
     (case sglEntries mem a (unat len) [0..<(unat len + 15) div 16] (False, SGLDescriptor (\<lambda>k. 0), l) of
        Inl e \<Rightarrow> Some (Inl e)
      | Inr (nxt, d, l) \<Rightarrow> if nxt then parseSGLSegment mem (sdAddress d) (sdLength d) l else Some (Inr l))"

text \<open>The constructor; a first descriptor of another type starts nothing, and the command is never called back.\<close>

definition SGL :: "host_mem \<Rightarrow> u64 \<Rightarrow> u64 \<Rightarrow> chunk list res option" where
  "SGL mem prp1 prp2 =
     (let d = SGLDescriptor (\<lambda>k. (leBytes 8 prp1 @ leBytes 8 prp2) ! k)
      in if sdType d = 0x00 \<or> sdType d = 0x04 then Some (parseSGLDescriptor d [])
         else if sdType d = 0x02 \<or> sdType d = 0x03 then parseSGLSegment mem (sdAddress d) (sdLength d) []
         else None)"

section \<open>Transfers\<close>

text \<open>A transfer between the host and the buffer of the command, from an offset of the buffer on.\<close>

record dma_piece =
  dpHost :: u64
  dpLen :: u64
  dpBuf :: u64

text \<open>
  The loops of \<^verbatim>\<open>read\<close> and \<^verbatim>\<open>write\<close>, which are the same for both kinds of list: whether the first piece has
  been found, the bytes transferred since, and the position in the list.
\<close>

fun dmaLoop :: "u64 \<Rightarrow> u64 \<Rightarrow> chunk list \<Rightarrow> bool \<times> u64 \<times> u64 \<Rightarrow> dma_piece list" where
  "dmaLoop off len [] st = []"
| "dmaLoop off len (c # cs) (started, sofar, cur) =
     (let piece = (\<lambda>a n b. if chIgnore c then [] else [\<lparr>dpHost = a, dpLen = n, dpBuf = b\<rparr>])
      in if started then
           let n = cMIN (chSize c) (len - sofar)
           in piece (chAddr c) n sofar @ (if sofar + n = len then [] else dmaLoop off len cs (True, sofar + n, cur + chSize c))
         else if cur + chSize c > off then
           let skip = off - cur; n = cMIN (chSize c - skip) len
           in piece (chAddr c + skip) n 0 @ dmaLoop off len cs (True, n, cur + chSize c)
         else dmaLoop off len cs (False, sofar, cur + chSize c))"

definition dmaPieces :: "u64 \<Rightarrow> u64 \<Rightarrow> chunk list \<Rightarrow> dma_piece list" where
  "dmaPieces off len cs = dmaLoop off len cs (False, 0, 0)"

text \<open>The four operations ask the interface to the host for one transfer per piece.\<close>

datatype dma_op = DmaRead (dmaOpPiece: dma_piece) | DmaWrite (dmaOpPiece: dma_piece)

definition PRPList_read :: "u64 \<Rightarrow> u64 \<Rightarrow> chunk list \<Rightarrow> dma_op list" where
  "PRPList_read off len prpList = map DmaRead (dmaPieces off len prpList)"

definition PRPList_write :: "u64 \<Rightarrow> u64 \<Rightarrow> chunk list \<Rightarrow> dma_op list" where
  "PRPList_write off len prpList = map DmaWrite (dmaPieces off len prpList)"

definition SGL_read :: "u64 \<Rightarrow> u64 \<Rightarrow> chunk list \<Rightarrow> dma_op list" where
  "SGL_read off len chunkList = map DmaRead (dmaPieces off len chunkList)"

definition SGL_write :: "u64 \<Rightarrow> u64 \<Rightarrow> chunk list \<Rightarrow> dma_op list" where
  "SGL_write off len chunkList = map DmaWrite (dmaPieces off len chunkList)"

text \<open>
  The counter of callbacks: the function of the command is called when as many callbacks have come as
  pieces were started, or at once when there was none.
\<close>

definition dmaCounter :: "dma_op list \<Rightarrow> nat" where
  "dmaCounter ps = (if ps = [] then 1 else length ps)"

definition commonDMAHandler :: "nat \<Rightarrow> nat \<times> bool" where
  "commonDMAHandler counter = (counter - 1, counter - 1 = 0)"

end
