(* ===== verification/NvmeDma_Inv.thy ===== *)
theory NvmeDma_Inv
  imports NvmeDma
begin

text \<open>
  The transfers through the lists of host memory, the lists that are read from the pages of the host
  and the segments of scatter gather lists: lemmas for \<open>NvmeDma_Props\<close>, and lists that lose data.
\<close>

section \<open>Transfers\<close>

text \<open>
  The specification. The bytes of a list in order, None for one of a bit bucket; the bytes that a
  transfer moves, as pairs of a position in the buffer and an address of the host; and what should
  be moved of a stretch of the list that starts at a position of the buffer.
\<close>

definition chunkBytes :: "chunk \<Rightarrow> u64 option list" where
  "chunkBytes c = map (\<lambda>k. if chIgnore c then None else Some (chAddr c + of_nat k)) [0..<unat (chSize c)]"

definition hostBytes :: "chunk list \<Rightarrow> u64 option list" where
  "hostBytes cs = concat (map chunkBytes cs)"

definition pieceBytes :: "dma_piece \<Rightarrow> (nat \<times> u64) list" where
  "pieceBytes p = map (\<lambda>k. (unat (dpBuf p) + k, dpHost p + of_nat k)) [0..<unat (dpLen p)]"

definition movedBytes :: "dma_piece list \<Rightarrow> (nat \<times> u64) list" where
  "movedBytes ps = concat (map pieceBytes ps)"

definition onHost :: "nat \<Rightarrow> u64 option list \<Rightarrow> (nat \<times> u64) list" where
  "onHost s xs = List.map_filter (\<lambda>(j, x). map_option (Pair j) x) (enumerate s xs)"

lemma onHost_append: "onHost s (xs @ ys) = onHost s xs @ onHost (s + length xs) ys"
  by (simp add: onHost_def enumerate_append_eq map_filter_def)

lemma onHost_Nil [simp]: "onHost s [] = []"
  by (simp add: onHost_def map_filter_def)

lemma movedBytes_simps [simp]:
  "movedBytes [] = []" "movedBytes (ps @ qs) = movedBytes ps @ movedBytes qs" "movedBytes [p] = pieceBytes p"
  by (simp_all add: movedBytes_def)

lemma hostBytes_Cons [simp]: "hostBytes [] = []" "hostBytes (c # cs) = chunkBytes c @ hostBytes cs"
  by (simp_all add: hostBytes_def)

lemma length_chunkBytes [simp]: "length (chunkBytes c) = unat (chSize c)"
  by (simp add: chunkBytes_def)

lemma onHost_map_None: "onHost s (map (\<lambda>k. None) ks) = []"
  by (induction ks arbitrary: s) (auto simp: onHost_def map_filter_simps)

lemma onHost_map_Some: "onHost s (map (\<lambda>k. Some (f k)) ks) = map (\<lambda>(j, k). (j, f k)) (enumerate s ks)"
  by (induction ks arbitrary: s) (auto simp: onHost_def map_filter_simps)

lemma onHost_upt: "onHost s (map (\<lambda>k. Some (f k)) [a..<b]) = map (\<lambda>k. (s + k, f (a + k))) [0..<b - a]"
  unfolding onHost_map_Some by (rule nth_equalityI) (auto simp: nth_enumerate_eq)

lemma take_upt_min: "take m [i..<n] = [i..<min (i + m) n]"
  by (rule nth_equalityI) auto

text \<open>The bytes of a stretch of one element.\<close>

lemma onHost_stretch:
  "onHost (unat b) (take (unat m) (drop (unat d) (chunkBytes c))) =
     (if chIgnore c then [] else pieceBytes \<lparr>dpHost = chAddr c + d, dpLen = cMIN (chSize c - d) m, dpBuf = b\<rparr>)"
  if "unat d \<le> unat (chSize c)"
proof -
  have n: "unat (cMIN (chSize c - d) m) = min (unat (chSize c) - unat d) (unat m)"
    using that by (simp only: unat_cMIN unat_sub word_le_nat_alt)
  have m: "min (unat d + unat m) (unat (chSize c)) - unat d = min (unat (chSize c) - unat d) (unat m)"
    using that by simp
  have "take (unat m) (drop (unat d) (chunkBytes c)) =
    map (\<lambda>k. if chIgnore c then None else Some (chAddr c + of_nat k)) [unat d..<min (unat d + unat m) (unat (chSize c))]"
    by (simp add: chunkBytes_def take_map drop_map take_upt_min min_def)
  then show ?thesis
    by (simp add: pieceBytes_def n onHost_map_None onHost_upt add.assoc m that del: cMIN_min)
qed

text \<open>After the first piece the loop goes through the elements until the length is reached.\<close>

lemma dmaLoop_started:
  "sofar \<le> len \<Longrightarrow>
     movedBytes (dmaLoop off len cs (True, sofar, cur)) = onHost (unat sofar) (take (unat len - unat sofar) (hostBytes cs))"
proof (induction cs arbitrary: sofar cur)
  case (Cons c cs)
  define n where "n = cMIN (chSize c) (len - sofar)"
  have le: "unat (len - sofar) = unat len - unat sofar" "unat sofar \<le> unat len"
    using Cons.prems by (simp_all add: unat_sub word_le_nat_alt)
  have n: "unat n = min (unat (chSize c)) (unat len - unat sofar)"
    by (simp only: n_def unat_cMIN le)
  have s: "unat (sofar + n) = unat sofar + unat n"
    using n le unsigned_less [of len, where ?'a = nat] by (intro unat_add_lem [THEN iffD1]) auto
  have first: "onHost (unat sofar) (take (unat len - unat sofar) (chunkBytes c)) =
      (if chIgnore c then [] else pieceBytes \<lparr>dpHost = chAddr c, dpLen = n, dpBuf = sofar\<rparr>)"
    using onHost_stretch [of 0 c sofar "len - sofar"] by (simp add: le n_def del: cMIN_min)
  have IH: "movedBytes (dmaLoop off len cs (True, sofar + n, cur + chSize c)) =
      onHost (unat sofar + unat n) (take (unat len - (unat sofar + unat n)) (hostBytes cs))"
    using Cons.IH [of "sofar + n" "cur + chSize c"] n le s by (simp add: word_le_nat_alt)
  have e: "sofar + n = len \<longleftrightarrow> unat len \<le> unat sofar + unat n"
    using n le s by (auto simp: word_unat_eq_iff)
  show ?case
    using first IH n le e
    by (cases "unat len \<le> unat sofar + unat n")
      (auto simp: Let_def n_def [symmetric] onHost_append min_def simp del: cMIN_min split: if_splits)
qed simp

text \<open>Before, it skips the elements that end before the offset.\<close>

lemma dmaLoop_before:
  "cur \<le> off \<Longrightarrow> unat cur + (\<Sum>c\<leftarrow>cs. unat (chSize c)) < 2 ^ 64 \<Longrightarrow>
     movedBytes (dmaLoop off len cs (False, 0, cur)) = onHost 0 (take (unat len) (drop (unat off - unat cur) (hostBytes cs)))"
proof (induction cs arbitrary: cur)
  case (Cons c cs)
  have s: "unat (cur + chSize c) = unat cur + unat (chSize c)"
    using Cons.prems by (intro unat_add_lem [THEN iffD1]) auto
  have d: "unat (off - cur) = unat off - unat cur" "unat cur \<le> unat off"
    using Cons.prems by (simp_all add: unat_sub word_le_nat_alt)
  show ?case
  proof (cases "cur + chSize c > off")
    case True
    define n where "n = cMIN (chSize c - (off - cur)) len"
    have lt: "unat off - unat cur < unat (chSize c)"
      using True d s by (simp add: word_less_nat_alt)
    have "unat (chSize c - (off - cur)) = unat (chSize c) - (unat off - unat cur)"
      using lt d by (simp add: unat_sub word_le_nat_alt)
    then have n: "unat n = min (unat (chSize c) - (unat off - unat cur)) (unat len)"
      by (simp only: n_def unat_cMIN)
    have first: "onHost 0 (take (unat len) (drop (unat off - unat cur) (chunkBytes c))) =
        (if chIgnore c then [] else pieceBytes \<lparr>dpHost = chAddr c + (off - cur), dpLen = n, dpBuf = 0\<rparr>)"
      using onHost_stretch [of "off - cur" c 0 len] lt d by (simp add: n_def del: cMIN_min)
    have rest: "movedBytes (dmaLoop off len cs (True, n, cur + chSize c)) = onHost (unat n) (take (unat len - unat n) (hostBytes cs))"
      using n by (intro dmaLoop_started) (simp add: word_le_nat_alt)
    show ?thesis
      using True lt first rest n
      by (auto simp: Let_def n_def [symmetric] onHost_append min_def simp del: cMIN_min split: if_splits)
  next
    case False
    then show ?thesis
      using Cons.IH [of "cur + chSize c"] Cons.prems s d
      by (simp add: word_le_nat_alt word_less_nat_alt not_less)
  qed
qed simp

lemma dmaOps_pieces:
  "f \<in> {PRPList_read, PRPList_write, SGL_read, SGL_write} \<Longrightarrow> map dmaOpPiece (f off len cs) = dmaPieces off len cs"
  by (auto simp: PRPList_read_def PRPList_write_def SGL_read_def SGL_write_def comp_def)

lemma dmaPieces_correct:
  assumes "(\<Sum>c\<leftarrow>cs. unat (chSize c)) < 2 ^ 64"
  shows "movedBytes (dmaPieces off len cs) = onHost 0 (take (unat len) (drop (unat off) (hostBytes cs)))"
  using dmaLoop_before [of 0 off cs len] assms by (simp add: dmaPieces_def)

section \<open>Physical region pages\<close>

lemma unat_exp64: "k < 64 \<Longrightarrow> unat (2 ^ k :: u64) = 2 ^ k"
  using power_strict_increasing [of k 64 "2 :: nat"] unat_of_nat [of "2 ^ k", where ?'a = 64] by simp

lemma unat_getPRPSize:
  assumes "k < 64"
  shows "unat (getPRPSize (2 ^ k) a) = 2 ^ k - unat a mod 2 ^ k"
proof -
  have "a AND (2 ^ k - 1) = take_bit k a"
    by (simp add: take_bit_eq_mask mask_eq_exp_minus_1)
  moreover have "unat (take_bit k a) = unat a mod 2 ^ k"
    unfolding unsigned_take_bit_eq by (simp add: take_bit_eq_mod)
  moreover have "unat (2 ^ k :: u64) = 2 ^ k"
    using assms by (rule unat_exp64)
  ultimately show ?thesis
    by (simp only: getPRPSize_def unat_sub word_le_nat_alt) (simp add: unat_sub word_le_nat_alt order_less_imp_le)
qed

lemma getPRPSize_bounds:
  assumes "k < 64"
  shows "0 < unat (getPRPSize (2 ^ k) a)" "unat (getPRPSize (2 ^ k) a) \<le> 2 ^ k"
  using assms by (simp_all add: unat_getPRPSize)

lemma getPRPSize_aligned: "k < 64 \<Longrightarrow> 2 ^ k dvd unat a \<Longrightarrow> getPRPSize (2 ^ k) a = 2 ^ k"
  using unat_getPRPSize [of k a] unat_exp64 [of k] by (simp add: word_unat_eq_iff)

text \<open>An element of a list: it starts at an address of the host and ends where its page ends.\<close>

definition wfPRP :: "u64 \<Rightarrow> chunk \<Rightarrow> bool" where
  "wfPRP pg c \<longleftrightarrow> chAddr c \<noteq> 0 \<and> chSize c = getPRPSize pg (chAddr c) \<and> \<not> chIgnore c"

lemma prpEntries_wf:
  assumes "prpEntries pg mem base todo ks (cur, l) = Inr (cur', l')"
  shows "\<exists>new. l' = l @ new \<and> list_all (wfPRP pg) new \<and> (cur' < todo \<longrightarrow> length new = length ks)"
  using assms
proof (induction pg mem base todo ks "(cur, l)" arbitrary: cur l rule: prpEntries.induct)
  case (2 pg mem base todo i ks cur l)
  define p where "p = prpEntry mem base i"
  have g: "\<not> 8 * i + 8 > unat (getPRPSize pg base)" "p \<noteq> 0"
    using "2.prems" by (auto simp: p_def Let_def split: if_splits)
  show ?case
  proof (cases "cur + getPRPSize pg p \<ge> todo")
    case True
    then show ?thesis
      using "2.prems" g by (auto simp: Let_def p_def [symmetric] wfPRP_def PRP_def)
  next
    case False
    then have "\<exists>new. l' = (l @ [PRP p (getPRPSize pg p)]) @ new \<and> list_all (wfPRP pg) new \<and> (cur' < todo \<longrightarrow> length new = length ks)"
      using "2.prems" g by (intro "2.hyps") (auto simp: Let_def p_def [symmetric])
    then show ?thesis
      using g by (fastforce simp: wfPRP_def PRP_def)
  qed
qed simp

lemma prpEntries_progress:
  assumes "k < 64" "unat todo + 2 ^ k \<le> 2 ^ 64" "cur < todo"
    "prpEntries (2 ^ k) mem base todo ks (cur, l) = Inr (cur', l')" "ks \<noteq> []"
  shows "unat cur < unat cur'"
  using assms(4,5,3)
proof (induction ks arbitrary: cur l)
  case (Cons i ks)
  define p where "p = prpEntry mem base i"
  define sz where "sz = getPRPSize (2 ^ k) p"
  have b: "0 < unat sz" "unat sz \<le> 2 ^ k"
    using getPRPSize_bounds [OF assms(1)] by (simp_all add: sz_def)
  have s: "unat (cur + sz) = unat cur + unat sz"
    using Cons.prems(3) b assms(2) by (intro unat_add_lem [THEN iffD1]) (simp add: word_less_nat_alt)
  show ?case
  proof (cases "cur + sz \<ge> todo \<or> ks = []")
    case True
    then have "cur' = cur + sz"
      using Cons.prems(1) by (auto simp: Let_def p_def [symmetric] sz_def [symmetric] split: if_splits)
    then show ?thesis using s b by simp
  next
    case False
    then have "unat (cur + sz) < unat cur'"
      using Cons.prems(1) by (intro Cons.IH) (auto simp: Let_def p_def [symmetric] sz_def [symmetric] split: if_splits)
    then show ?thesis using s by simp
  qed
qed simp

lemma entries_nonempty: "k < 64 \<Longrightarrow> [0..<entryCount (getPRPSize (2 ^ k) base)] \<noteq> []"
  using getPRPSize_bounds(1) [of k base] by (simp add: entryCount_def del: upt_eq_Nil_conv) (simp add: upt_eq_Nil_conv)

text \<open>A chain of pages ends, because each of them covers at least one byte of the size.\<close>

lemma getPRPList_returns:
  assumes "k < 64" "unat todo + 2 ^ k \<le> 2 ^ 64"
  shows "\<exists>r. getPRPListFromPRP (2 ^ k) mem base todo l = Some r"
  using assms(2)
proof (induction "unat todo" arbitrary: todo base l rule: less_induct)
  case less
  show ?case
  proof (cases "prpEntries (2 ^ k) mem base todo [0..<entryCount (getPRPSize (2 ^ k) base)] (0, l)")
    case (Inl e)
    then show ?thesis by (simp add: getPRPListFromPRP.simps)
  next
    case (Inr r)
    obtain cur l' where r: "r = (cur, l')" by force
    show ?thesis
    proof (cases "cur < todo \<and> l' \<noteq> []")
      case True
      then have t: "cur < todo" "l' \<noteq> []" by simp_all
      then have "0 < todo" by (simp add: word_gt_0) (metis not_less0 unat_0 word_less_nat_alt)
      then have "unat 0 < unat cur"
        using prpEntries_progress [OF assms(1) less.prems _ _ entries_nonempty [OF assms(1)], of 0 mem base base l cur l'] Inr r by simp
      moreover have "unat (todo - cur) = unat todo - unat cur" "unat cur < unat todo"
        using t by (simp_all add: unat_sub word_less_nat_alt order_less_imp_le)
      ultimately have "unat (todo - cur) < unat todo" "unat (todo - cur) + 2 ^ k \<le> 2 ^ 64"
        using less.prems by simp_all
      from less.hyps [OF this, of "chAddr (last l')" "butlast l'"] show ?thesis
        using t Inr r by (subst getPRPListFromPRP.simps) simp
    next
      case False
      then show ?thesis using Inr r by (subst getPRPListFromPRP.simps) auto
    qed
  qed
qed

text \<open>Every element that is read is well-formed.\<close>

lemma getPRPList_wf:
  assumes "getPRPListFromPRP pg mem base todo l = Some r" "k < 64" "pg = 2 ^ k"
  shows "case r of Inl e \<Rightarrow> True | Inr l' \<Rightarrow> \<exists>new. l' = l @ new \<and> list_all (wfPRP pg) new"
proof -
  have "pg = 2 ^ k \<longrightarrow> (case r of Inl e \<Rightarrow> True | Inr l' \<Rightarrow> \<exists>new. l' = l @ new \<and> list_all (wfPRP pg) new)"
    using assms(1)
  proof (rule getPRPListFromPRP.raw_induct [rotated])
    fix f pg mem base todo l r
    assume IH: "\<And>pg mem base todo l r. f pg mem base todo l = Some r \<Longrightarrow>
        pg = 2 ^ k \<longrightarrow> (case r of Inl e \<Rightarrow> True | Inr l' \<Rightarrow> \<exists>new. l' = l @ new \<and> list_all (wfPRP pg) new)"
      and body: "(case prpEntries pg mem base todo [0..<entryCount (getPRPSize pg base)] (0, l) of
        Inl e \<Rightarrow> Some (Inl e)
      | Inr (cur, l) \<Rightarrow>
          if cur < todo then
            if l = [] then Some (Inl (Undefined ''back of an empty list''))
            else f pg mem (chAddr (last l)) (todo - cur) (butlast l)
          else Some (Inr l)) = Some r"
    have "case r of Inl e \<Rightarrow> True | Inr l' \<Rightarrow> \<exists>new. l' = l @ new \<and> list_all (wfPRP pg) new" if pg: "pg = 2 ^ k"
    proof (cases "prpEntries pg mem base todo [0..<entryCount (getPRPSize pg base)] (0, l)")
      case (Inr a)
      obtain cur l1 where a: "a = (cur, l1)" by force
      obtain new where new: "l1 = l @ new" "list_all (wfPRP pg) new"
          "cur < todo \<longrightarrow> length new = length [0..<entryCount (getPRPSize pg base)]"
        using prpEntries_wf [of pg mem base todo _ 0 l cur l1] Inr a by blast
      show ?thesis
      proof (cases "cur < todo")
        case True
        then have "new \<noteq> []" using new(3) entries_nonempty [OF assms(2), of base] pg by fastforce
        then have b: "butlast l1 = l @ butlast new" "l1 \<noteq> []" "list_all (wfPRP pg) (butlast new)"
          using new(1,2) by (auto simp: butlast_append list_all_iff dest: in_set_butlastD)
        then have "f pg mem (chAddr (last l1)) (todo - cur) (l @ butlast new) = Some r"
          using body Inr a True by simp
        from IH [OF this] b pg show ?thesis by (auto split: sum.splits)
      next
        case False
        then show ?thesis using body Inr a new by auto
      qed
    qed (use body in auto)
    then show "pg = 2 ^ k \<longrightarrow> (case r of Inl e \<Rightarrow> True | Inr l' \<Rightarrow> \<exists>new. l' = l @ new \<and> list_all (wfPRP pg) new)"
      by blast
  qed
  then show ?thesis using assms(3) by blast
qed

lemma ceiling_div_le: "0 < (p :: nat) \<Longrightarrow> (t + p - 1) div p \<le> m \<longleftrightarrow> t \<le> m * p"
  using div_less_iff_less_mult [of p "t + p - 1" "Suc m"] by auto

text \<open>
  A list in one page whose entries are pages of the host: as many of them are taken as the size
  needs, each as a whole page.
\<close>

lemma prpEntries_pages:
  assumes k: "k < 64" and n: "n = (unat todo + 2 ^ k - 1) div 2 ^ k" "n * 2 ^ k < 2 ^ 64"
    and N: "8 * n \<le> unat (getPRPSize (2 ^ k) base)" "n \<le> N"
    and e: "\<forall>i<n. prpEntry mem base i \<noteq> 0 \<and> 2 ^ k dvd unat (prpEntry mem base i)"
    and i: "i < n"
  shows "prpEntries (2 ^ k) mem base todo [i..<N] (of_nat (i * 2 ^ k), l) =
    Inr (of_nat (n * 2 ^ k), l @ map (\<lambda>i. PRP (prpEntry mem base i) (2 ^ k)) [i..<n])"
  using i
proof (induction "n - i" arbitrary: i l)
  case (Suc m)
  let ?p = "prpEntry mem base i"
  have p: "?p \<noteq> 0" "getPRPSize (2 ^ k) ?p = 2 ^ k"
    using e Suc.prems k by (simp_all add: getPRPSize_aligned)
  have cur: "of_nat (i * 2 ^ k) + 2 ^ k = (of_nat (Suc i * 2 ^ k) :: u64)" by (simp add: algebra_simps)
  have "Suc i * 2 ^ k \<le> n * 2 ^ k" using Suc.prems by (intro mult_right_mono) auto
  then have u: "unat (of_nat (Suc i * 2 ^ k) :: u64) = Suc i * 2 ^ k"
    using n(2) by (simp only: unat_of_nat) simp
  have stop: "(of_nat (Suc i * 2 ^ k) :: u64) \<ge> todo \<longleftrightarrow> Suc i = n"
    using Suc.prems n(1) u by (simp only: word_le_nat_alt ceiling_div_le [symmetric, of "2 ^ k"] zero_less_power zero_less_numeral) auto
  have upt: "[i..<N] = i # [Suc i..<N]" "[i..<n] = i # [Suc i..<n]"
    using Suc.prems N(2) by (simp_all add: upt_conv_Cons)
  have g: "\<not> 8 * i + 8 > unat (getPRPSize (2 ^ k) base)" using Suc.prems N(1) by simp
  show ?case
  proof (cases "Suc i = n")
    case True
    then show ?thesis using upt p g cur stop by (simp add: Let_def del: of_nat_mult of_nat_Suc)
  next
    case False
    then have "prpEntries (2 ^ k) mem base todo [Suc i..<N] (of_nat (Suc i * 2 ^ k), l @ [PRP ?p (2 ^ k)]) =
        Inr (of_nat (n * 2 ^ k), (l @ [PRP ?p (2 ^ k)]) @ map (\<lambda>i. PRP (prpEntry mem base i) (2 ^ k)) [Suc i..<n])"
      using Suc.hyps(2) Suc.prems by (intro Suc.hyps(1)) auto
    then show ?thesis using False upt p g stop unfolding cur [symmetric] by (simp add: Let_def del: of_nat_mult of_nat_Suc)
  qed
qed simp

lemma getPRPList_pages:
  assumes k: "k < 64" and n: "n = (unat todo + 2 ^ k - 1) div 2 ^ k" "n * 2 ^ k < 2 ^ 64" "0 < n"
    and N: "8 * n \<le> unat (getPRPSize (2 ^ k) base)"
    and e: "\<forall>i<n. prpEntry mem base i \<noteq> 0 \<and> 2 ^ k dvd unat (prpEntry mem base i)"
  shows "getPRPListFromPRP (2 ^ k) mem base todo l = Some (Inr (l @ map (\<lambda>i. PRP (prpEntry mem base i) (2 ^ k)) [0..<n]))"
proof -
  have "n \<le> entryCount (getPRPSize (2 ^ k) base)" using N by (simp add: entryCount_def)
  from prpEntries_pages [OF k n(1,2) N this e n(3), of l]
  have "prpEntries (2 ^ k) mem base todo [0..<entryCount (getPRPSize (2 ^ k) base)] (0, l) =
      Inr (of_nat (n * 2 ^ k), l @ map (\<lambda>i. PRP (prpEntry mem base i) (2 ^ k)) [0..<n])"
    by (simp del: of_nat_mult)
  moreover have "unat (of_nat (n * 2 ^ k) :: u64) = n * 2 ^ k"
    using n(2) by (simp only: unat_of_nat) simp
  moreover have "unat todo \<le> n * 2 ^ k"
    using ceiling_div_le [of "2 ^ k" "unat todo" n] n(1) by simp
  ultimately show ?thesis
    by (subst getPRPListFromPRP.simps) (simp add: word_less_nat_alt del: of_nat_mult)
qed

text \<open>A list of two pages: both pointers are data.\<close>

lemma PRPList_two:
  assumes "k < 64" "unat todo \<le> 2 ^ k" "unat (getPRPSize (2 ^ k) prp1) < unat todo" "2 ^ k dvd unat prp2" "2 ^ Suc k \<le> (2 ^ 64 :: nat)"
  shows "PRPList (2 ^ k) mem prp1 prp2 todo = Some (Inr [PRP prp1 (getPRPSize (2 ^ k) prp1), PRP prp2 (2 ^ k)])"
proof -
  note u = unat_exp64 [OF assms(1)]
  have "unat (getPRPSize (2 ^ k) prp1 + 2 ^ k) = unat (getPRPSize (2 ^ k) prp1) + 2 ^ k"
    using u assms by (subst unat_add_lem [THEN iffD1]) auto
  then show ?thesis
    using assms u by (simp add: PRPList_def Let_def getPRPSize_aligned word_le_nat_alt word_less_nat_alt)
qed

lemma PRPList_many:
  assumes k: "k < 63" and big: "2 * 2 ^ k < unat todo \<or> 2 ^ k < unat todo \<and> \<not> 2 ^ k dvd unat prp1"
    and n: "n = (unat todo - unat (getPRPSize (2 ^ k) prp1) + 2 ^ k - 1) div 2 ^ k" "n * 2 ^ k < 2 ^ 64"
    and N: "8 * n \<le> unat (getPRPSize (2 ^ k) prp2)"
    and e: "\<forall>i<n. prpEntry mem prp2 i \<noteq> 0 \<and> 2 ^ k dvd unat (prpEntry mem prp2 i)"
  shows "PRPList (2 ^ k) mem prp1 prp2 todo =
    Some (Inr (PRP prp1 (getPRPSize (2 ^ k) prp1) # map (\<lambda>i. PRP (prpEntry mem prp2 i) (2 ^ k)) [0..<n]))"
proof -
  let ?s = "getPRPSize (2 ^ k) prp1"
  have k64: "k < 64" using k by simp
  note b = getPRPSize_bounds [OF k64, of prp1] and u = unat_exp64 [OF k64]
  have u2: "unat (2 ^ k * 2 :: u64) = 2 * 2 ^ k"
    using unat_exp64 [of "Suc k"] k by (simp add: mult.commute)
  have lt: "2 ^ k < unat todo" using big by auto
  have t: "unat (todo - ?s) = unat todo - unat ?s"
    using b lt by (simp add: unat_sub word_le_nat_alt)
  have "0 < n" using b lt n(1) by (simp add: div_greater_zero_iff)
  then have "getPRPListFromPRP (2 ^ k) mem prp2 (todo - ?s) [PRP prp1 ?s] =
      Some (Inr ([PRP prp1 ?s] @ map (\<lambda>i. PRP (prpEntry mem prp2 i) (2 ^ k)) [0..<n]))"
    using n N e t k64 by (intro getPRPList_pages) simp_all
  moreover have "\<not> todo \<le> 2 ^ k" "todo \<le> 2 ^ k * 2 \<longrightarrow> ?s \<noteq> 2 ^ k"
  proof -
    show "\<not> todo \<le> 2 ^ k" using lt u by (simp add: word_le_nat_alt)
    have "\<not> 2 ^ k dvd unat prp1 \<Longrightarrow> unat ?s \<noteq> 2 ^ k"
      unfolding unat_getPRPSize [OF k64] mod_greater_zero_iff_not_dvd [symmetric] by (rule less_imp_neq) (simp add: diff_less)
    then show "todo \<le> 2 ^ k * 2 \<longrightarrow> ?s \<noteq> 2 ^ k" using big u u2 by (auto simp: word_le_nat_alt)
  qed
  ultimately show ?thesis by (auto simp: PRPList_def Let_def)
qed

text \<open>An element of a list stays in one page.\<close>

definition inPage :: "u64 \<Rightarrow> chunk \<Rightarrow> bool" where
  "inPage pg c \<longleftrightarrow> unat (chAddr c) mod unat pg + unat (chSize c) \<le> unat pg \<and> \<not> chIgnore c"

lemma inPage_PRP: "k < 64 \<Longrightarrow> unat n \<le> unat (getPRPSize (2 ^ k) a) \<Longrightarrow> inPage (2 ^ k) (PRP a n)"
  using mod_less_divisor [of "2 ^ k" "unat a"]
  by (auto simp: inPage_def PRP_def unat_exp64 unat_getPRPSize intro: order_less_imp_le simp flip: le_diff_conv2 add.commute [of "unat n"])

lemma wfPRP_inPage: "k < 64 \<Longrightarrow> wfPRP (2 ^ k) c \<Longrightarrow> inPage (2 ^ k) c"
  using inPage_PRP [of k "chSize c" "chAddr c"] by (simp add: wfPRP_def inPage_def PRP_def)

lemma getPRPList_inPage:
  assumes "k < 64" "unat todo + 2 ^ k \<le> 2 ^ 64" "list_all (inPage (2 ^ k)) l"
  shows "\<exists>r. getPRPListFromPRP (2 ^ k) mem base todo l = Some r \<and> (\<forall>cs. r = Inr cs \<longrightarrow> list_all (inPage (2 ^ k)) cs)"
proof -
  obtain r where r: "getPRPListFromPRP (2 ^ k) mem base todo l = Some r"
    using getPRPList_returns [OF assms(1,2)] by blast
  moreover have "list_all (inPage (2 ^ k)) cs" if "r = Inr cs" for cs
    using getPRPList_wf [OF r assms(1) refl] that assms(3) wfPRP_inPage [OF assms(1)] by (auto simp: list_all_iff)
  ultimately show ?thesis by blast
qed

lemma PRPList_inPage:
  assumes k: "k < 64" and t: "unat todo + 2 ^ k \<le> 2 ^ 64"
  shows "\<exists>r. PRPList (2 ^ k) mem prp1 prp2 todo = Some r \<and> (\<forall>cs. r = Inr cs \<longrightarrow> list_all (inPage (2 ^ k)) cs)"
proof -
  let ?s = "getPRPSize (2 ^ k) prp1"
  have two: "list_all (inPage (2 ^ k)) [PRP prp1 ?s, PRP prp2 (getPRPSize (2 ^ k) prp2)]"
    using k by (simp add: inPage_PRP)
  show ?thesis
  proof (cases "2 ^ k < todo")
    case True
    then have "unat (todo - ?s) = unat todo - unat ?s"
      using getPRPSize_bounds [OF k, of prp1] unat_exp64 [OF k] by (simp add: unat_sub word_le_nat_alt word_less_nat_alt)
    then have "\<exists>r. getPRPListFromPRP (2 ^ k) mem prp2 (todo - ?s) [PRP prp1 ?s] = Some r \<and> (\<forall>cs. r = Inr cs \<longrightarrow> list_all (inPage (2 ^ k)) cs)"
      using t two by (intro getPRPList_inPage [OF k]) auto
    then show ?thesis using True two by (auto simp: PRPList_def Let_def)
  next
    case False
    then have "todo \<le> 2 ^ k" by simp
    then show ?thesis using two inPage_PRP [OF k, of todo prp1] by (auto simp: PRPList_def Let_def word_le_nat_alt [of todo ?s])
  qed
qed

lemma upt_split_at: "[0..<n] = ys @ i # zs \<Longrightarrow> i < n \<and> ys = [0..<i]"
proof -
  assume a: "[0..<n] = ys @ i # zs"
  from arg_cong [OF a, of length] have "length ys < n" by simp
  moreover from this have "i = length ys" using arg_cong [OF a, of "\<lambda>xs. xs ! length ys"] by simp
  moreover have "ys = take (length ys) [0..<n]" using a by simp
  ultimately show "i < n \<and> ys = [0..<i]" by (simp add: take_upt)
qed

text \<open>
  A list by the rules of NVMe: the pages of the list are aligned to its entries; of the last one as
  many entries as are needed are pages of the host, of the others all but the last entry, which
  leads to the next page of the list.
\<close>

definition listEntries :: "nat \<Rightarrow> u64 \<Rightarrow> nat" where
  "listEntries k b = (2 ^ k - unat b mod 2 ^ k) div 8"

definition hostPages :: "nat \<Rightarrow> host_mem \<Rightarrow> u64 \<Rightarrow> nat \<Rightarrow> bool" where
  "hostPages k mem b n \<longleftrightarrow> (\<forall>i<n. prpEntry mem b i \<noteq> 0 \<and> 2 ^ k dvd unat (prpEntry mem b i))"

inductive prpChain :: "nat \<Rightarrow> host_mem \<Rightarrow> u64 \<Rightarrow> nat \<Rightarrow> bool" for k mem where
  final: "8 dvd unat b \<Longrightarrow> n \<le> listEntries k b \<Longrightarrow> hostPages k mem b n \<Longrightarrow> t \<le> n * 2 ^ k \<Longrightarrow> prpChain k mem b t"
| further: "8 dvd unat b \<Longrightarrow> listEntries k b = Suc n \<Longrightarrow> hostPages k mem b n \<Longrightarrow> prpEntry mem b n \<noteq> 0 \<Longrightarrow>
    prpChain k mem (prpEntry mem b n) (t - n * 2 ^ k) \<Longrightarrow> prpChain k mem b t"

text \<open>The pages that a list starting at \<open>base\<close> may extend over, and the elements their entries stand for.\<close>

inductive listPage :: "nat \<Rightarrow> host_mem \<Rightarrow> u64 \<Rightarrow> u64 \<Rightarrow> bool" for k mem base where
  first: "listPage k mem base base"
| further: "listPage k mem base b \<Longrightarrow> listPage k mem base (prpEntry mem b (listEntries k b - 1))"

definition prpOf :: "nat \<Rightarrow> host_mem \<Rightarrow> u64 \<Rightarrow> nat \<Rightarrow> chunk" where
  "prpOf k mem b i = PRP (prpEntry mem b i) (getPRPSize (2 ^ k) (prpEntry mem b i))"

definition listElements :: "nat \<Rightarrow> host_mem \<Rightarrow> u64 \<Rightarrow> chunk set" where
  "listElements k mem base = {prpOf k mem b i |b i. listPage k mem base b \<and> i < listEntries k b}"

lemma listPage_trans: "listPage k mem b c \<Longrightarrow> listPage k mem a b \<Longrightarrow> listPage k mem a c"
  by (induction rule: listPage.induct) (simp_all add: listPage.further [simplified])

lemma listElements_further: "listElements k mem (prpEntry mem b (listEntries k b - 1)) \<subseteq> listElements k mem b"
  unfolding listElements_def using listPage_trans [OF _ listPage.further [OF listPage.first]] by blast

lemma listEntries_count:
  assumes "3 \<le> k" "k < 64" "8 dvd unat b"
  shows "entryCount (getPRPSize (2 ^ k) b) = listEntries k b" "8 * listEntries k b = unat (getPRPSize (2 ^ k) b)"
    "0 < listEntries k b"
proof -
  have "8 dvd (2 :: nat) ^ k" using assms(1) le_imp_power_dvd [of 3 k "2 :: nat"] by simp
  then have d: "8 dvd 2 ^ k - unat b mod 2 ^ k" using assms(3) by (intro dvd_diff_nat dvd_mod) auto
  have p: "0 < 2 ^ k - unat b mod 2 ^ k" by simp
  obtain m where m: "2 ^ k - unat b mod 2 ^ k = 8 * m" using d by (elim dvdE)
  then have "0 < m" using p by simp
  then show "entryCount (getPRPSize (2 ^ k) b) = listEntries k b" "8 * listEntries k b = unat (getPRPSize (2 ^ k) b)" "0 < listEntries k b"
    by (simp_all add: entryCount_def unat_getPRPSize [OF assms(2)] listEntries_def m)
qed

definition coveredBy :: "nat \<Rightarrow> host_mem \<Rightarrow> u64 \<Rightarrow> nat list \<Rightarrow> nat" where
  "coveredBy k mem b ks = (\<Sum>i\<leftarrow>ks. unat (getPRPSize (2 ^ k) (prpEntry mem b i)))"

lemma coveredBy_pages: "k < 64 \<Longrightarrow> hostPages k mem b n \<Longrightarrow> coveredBy k mem b [0..<n] = n * 2 ^ k"
proof (induction n)
  case (Suc n)
  then have "getPRPSize (2 ^ k) (prpEntry mem b n) = 2 ^ k" by (simp add: hostPages_def getPRPSize_aligned)
  then show ?case using Suc by (simp add: coveredBy_def hostPages_def unat_exp64)
qed (simp add: coveredBy_def)

text \<open>
  Reading one page of the list: it succeeds when every entry that is reached before the size is
  covered is valid; the page is exhausted when its entries do not cover the size.
\<close>

lemma prpEntries_reads:
  assumes "k < 64" "unat todo + 2 ^ k \<le> 2 ^ 64" "cur < todo" "\<forall>i\<in>set ks. 8 * i + 8 \<le> unat (getPRPSize (2 ^ k) b)"
    and "\<And>ys i zs. ks = ys @ i # zs \<Longrightarrow> prpEntry mem b i \<noteq> 0 \<or> unat todo \<le> unat cur + coveredBy k mem b ys"
  shows "\<exists>cur' new. prpEntries (2 ^ k) mem b todo ks (cur, l) = Inr (cur', l @ new) \<and> set new \<subseteq> prpOf k mem b ` set ks \<and>
    (if cur' < todo then new = map (prpOf k mem b) ks \<and> unat cur' = unat cur + coveredBy k mem b ks else new \<noteq> [])"
  using assms(3-5)
proof (induction ks arbitrary: cur l)
  case (Cons i ks)
  define p sz where "p = prpEntry mem b i" and "sz = getPRPSize (2 ^ k) p"
  have "unat todo \<noteq> 0 \<longrightarrow> p \<noteq> 0" using Cons.prems(1) Cons.prems(3) [of "[]" i ks] by (auto simp: p_def coveredBy_def word_less_nat_alt)
  then have p: "p \<noteq> 0" using Cons.prems(1) by (auto simp: word_less_nat_alt)
  have "unat sz \<le> 2 ^ k" using getPRPSize_bounds [OF assms(1)] by (simp add: sz_def)
  then have s: "unat (cur + sz) = unat cur + unat sz"
    using Cons.prems(1) assms(2) by (intro unat_add_lem [THEN iffD1]) (simp add: word_less_nat_alt)
  have c: "coveredBy k mem b (i # ys) = unat sz + coveredBy k mem b ys" for ys by (simp add: coveredBy_def p_def sz_def)
  have e: "prpOf k mem b i = PRP p sz" by (simp add: prpOf_def p_def sz_def)
  have step: "prpEntries (2 ^ k) mem b todo (i # ks) (cur, l) =
      (if cur + sz \<ge> todo then Inr (cur + sz, l @ [PRP p sz]) else prpEntries (2 ^ k) mem b todo ks (cur + sz, l @ [PRP p sz]))"
    using Cons.prems(2) p by (simp add: Let_def p_def sz_def not_less)
  show ?case
  proof (cases "cur + sz \<ge> todo")
    case True
    then have "\<not> cur + sz < todo" by (simp add: not_less)
    then show ?thesis unfolding step if_P [OF True] by (intro exI [of _ "cur + sz"] exI [of _ "[PRP p sz]"]) (simp add: e)
  next
    case False
    have "prpEntry mem b j \<noteq> 0 \<or> unat todo \<le> unat (cur + sz) + coveredBy k mem b ys" if "ks = ys @ j # zs" for ys j zs
      using Cons.prems(3) [of "i # ys" j zs] that s c by (simp add: add.assoc)
    with Cons.IH [of "cur + sz" "l @ [PRP p sz]"] False Cons.prems(2) obtain cur' new where
      "prpEntries (2 ^ k) mem b todo ks (cur + sz, l @ [PRP p sz]) = Inr (cur', (l @ [PRP p sz]) @ new)" "set new \<subseteq> prpOf k mem b ` set ks"
      "if cur' < todo then new = map (prpOf k mem b) ks \<and> unat cur' = unat (cur + sz) + coveredBy k mem b ks else new \<noteq> []"
      by (auto simp: not_le)
    then show ?thesis using step False s c e by (intro exI [of _ cur'] exI [of _ "PRP p sz # new"]) auto
  qed
qed (simp add: coveredBy_def)

lemma coveredBy_mono: "m \<le> n \<Longrightarrow> coveredBy k mem b [0..<m] \<le> coveredBy k mem b [0..<n]"
  using upt_add_eq_append [of 0 m "n - m"] by (simp add: coveredBy_def)

lemma page_reads:
  assumes "3 \<le> k" "k < 64" "8 dvd unat b" "0 < unat todo" "unat todo + 2 ^ k \<le> 2 ^ 64"
    and "\<And>i. i < listEntries k b \<Longrightarrow> prpEntry mem b i \<noteq> 0 \<or> unat todo \<le> coveredBy k mem b [0..<i]"
  obtains cur' new where "prpEntries (2 ^ k) mem b todo [0..<entryCount (getPRPSize (2 ^ k) b)] (0, l) = Inr (cur', l @ new)"
    "set new \<subseteq> listElements k mem b" "cur' < todo \<Longrightarrow> new = map (prpOf k mem b) [0..<listEntries k b]"
    "cur' < todo \<Longrightarrow> unat cur' = coveredBy k mem b [0..<listEntries k b]" "\<not> cur' < todo \<Longrightarrow> new \<noteq> []"
proof -
  let ?ks = "[0..<listEntries k b]"
  note N = listEntries_count [OF assms(1-3)]
  have "\<exists>cur' new. prpEntries (2 ^ k) mem b todo ?ks (0, l) = Inr (cur', l @ new) \<and> set new \<subseteq> prpOf k mem b ` set ?ks \<and>
    (if cur' < todo then new = map (prpOf k mem b) ?ks \<and> unat cur' = unat (0 :: u64) + coveredBy k mem b ?ks else new \<noteq> [])"
  proof (rule prpEntries_reads [OF assms(2,5)])
    show "(0 :: u64) < todo" using assms(4) by (simp add: word_less_nat_alt)
    show "\<forall>i\<in>set ?ks. 8 * i + 8 \<le> unat (getPRPSize (2 ^ k) b)" unfolding N(2) [symmetric] by auto
    show "prpEntry mem b i \<noteq> 0 \<or> unat todo \<le> unat (0 :: u64) + coveredBy k mem b ys" if "?ks = ys @ i # zs" for ys i zs
      using upt_split_at [OF that] assms(6) [of i] by simp
  qed
  then obtain cur' new where r: "prpEntries (2 ^ k) mem b todo ?ks (0, l) = Inr (cur', l @ new)" "set new \<subseteq> prpOf k mem b ` set ?ks"
    "if cur' < todo then new = map (prpOf k mem b) ?ks \<and> unat cur' = unat (0 :: u64) + coveredBy k mem b ?ks else new \<noteq> []" by blast
  have "set new \<subseteq> listElements k mem b" using r(2) listPage.first by (fastforce simp: listElements_def)
  then show ?thesis using r(1,3) by (intro that [of cur' new]) (simp_all add: N(1) split: if_splits)
qed

text \<open>A list by the rules is read without a panic.\<close>

lemma prpChain_reads:
  assumes "prpChain k mem b t" "3 \<le> k" "k < 64" "0 < unat todo" "unat todo \<le> t" "unat todo + 2 ^ k \<le> 2 ^ 64"
  shows "\<exists>new. getPRPListFromPRP (2 ^ k) mem b todo l = Some (Inr (l @ new)) \<and> new \<noteq> [] \<and> set new \<subseteq> listElements k mem b"
  using assms(1,4-6)
proof (induction arbitrary: todo l rule: prpChain.induct)
  case (final b n t)
  note C = coveredBy_pages [OF assms(3) final.hyps(3)]
  have "prpEntry mem b i \<noteq> 0 \<or> unat todo \<le> coveredBy k mem b [0..<i]" if "i < listEntries k b" for i
    using C coveredBy_mono [of n i k mem b] final.hyps(3,4) final.prems(2) by (cases "i < n") (auto simp: hostPages_def)
  then obtain cur' new where r: "prpEntries (2 ^ k) mem b todo [0..<entryCount (getPRPSize (2 ^ k) b)] (0, l) = Inr (cur', l @ new)"
    "set new \<subseteq> listElements k mem b" "cur' < todo \<Longrightarrow> unat cur' = coveredBy k mem b [0..<listEntries k b]" "\<not> cur' < todo \<Longrightarrow> new \<noteq> []"
    using page_reads [OF assms(2,3) final.hyps(1) final.prems(1,3), of mem l] by metis
  have "\<not> cur' < todo"
    using r(3) coveredBy_mono [OF final.hyps(2), of k mem b] C final.hyps(4) final.prems(2) by (auto simp: word_less_nat_alt)
  then show ?case using r by (subst getPRPListFromPRP.simps) simp
next
  case (further b n t)
  let ?p = "prpEntry mem b n" and ?l = "l @ map (prpOf k mem b) [0..<n]"
  have "prpEntry mem b i \<noteq> 0 \<or> unat todo \<le> coveredBy k mem b [0..<i]" if "i < listEntries k b" for i
    using that further.hyps(2-4) by (auto simp: hostPages_def less_Suc_eq)
  then obtain cur' new where r: "prpEntries (2 ^ k) mem b todo [0..<entryCount (getPRPSize (2 ^ k) b)] (0, l) = Inr (cur', l @ new)"
    "set new \<subseteq> listElements k mem b" "cur' < todo \<Longrightarrow> new = map (prpOf k mem b) [0..<listEntries k b]"
    "cur' < todo \<Longrightarrow> unat cur' = coveredBy k mem b [0..<listEntries k b]" "\<not> cur' < todo \<Longrightarrow> new \<noteq> []"
    using page_reads [OF assms(2,3) further.hyps(1) further.prems(1,3), of mem l] by metis
  show ?case
  proof (cases "cur' < todo")
    case False
    then show ?thesis using r(1,2,5) by (subst getPRPListFromPRP.simps) simp
  next
    case True
    have new: "new = map (prpOf k mem b) [0..<n] @ [prpOf k mem b n]" using r(3) True further.hyps(2) by simp
    have "unat cur' = n * 2 ^ k + unat (getPRPSize (2 ^ k) ?p)"
      using r(4) True coveredBy_pages [OF assms(3) further.hyps(3)] by (simp add: further.hyps(2) coveredBy_def)
    moreover have "unat (todo - cur') = unat todo - unat cur'" "unat cur' < unat todo" using True by (simp_all add: unat_sub word_less_nat_alt order_less_imp_le)
    ultimately have t: "0 < unat (todo - cur')" "unat (todo - cur') \<le> t - n * 2 ^ k" "unat (todo - cur') + 2 ^ k \<le> 2 ^ 64"
      using further.prems by simp_all
    from further.IH [OF t, of ?l] obtain es where m: "getPRPListFromPRP (2 ^ k) mem ?p (todo - cur') ?l = Some (Inr (?l @ es))"
      "es \<noteq> []" "set es \<subseteq> listElements k mem ?p" by blast
    have "listElements k mem ?p \<subseteq> listElements k mem b" using listElements_further [of k mem b] by (simp add: further.hyps(2))
    moreover have "getPRPListFromPRP (2 ^ k) mem b todo l = Some (Inr (?l @ es))"
      using r(1) True m(1) new by (subst getPRPListFromPRP.simps) (simp add: butlast_append prpOf_def PRP_def)
    ultimately show ?thesis using m(2,3) r(2) new by (intro exI [of _ "map (prpOf k mem b) [0..<n] @ es"]) auto
  qed
qed

lemma PRPList_chain:
  assumes "3 \<le> k" "k < 63" "unat todo + 2 ^ k \<le> 2 ^ 64" "unat (getPRPSize (2 ^ k) prp1) + 2 ^ k < unat todo"
    and "prpChain k mem prp2 (unat todo - unat (getPRPSize (2 ^ k) prp1))"
  shows "\<exists>cs. PRPList (2 ^ k) mem prp1 prp2 todo = Some (Inr (PRP prp1 (getPRPSize (2 ^ k) prp1) # cs)) \<and>
    cs \<noteq> [] \<and> set cs \<subseteq> listElements k mem prp2"
proof -
  let ?s = "getPRPSize (2 ^ k) prp1"
  have k: "k < 64" using assms(2) by simp
  note b = getPRPSize_bounds [OF k, of prp1] and u = unat_exp64 [OF k]
  have u2: "unat (2 ^ k * 2 :: u64) = 2 * 2 ^ k" using unat_exp64 [of "Suc k"] assms(2) by (simp add: mult.commute)
  have s: "unat (todo - ?s) = unat todo - unat ?s" using assms(4) by (simp add: unat_sub word_le_nat_alt)
  have "\<not> todo \<le> 2 ^ k" "todo \<le> 2 ^ k * 2 \<longrightarrow> ?s \<noteq> 2 ^ k" using assms(4) u u2 by (auto simp: word_le_nat_alt)
  then have "PRPList (2 ^ k) mem prp1 prp2 todo = getPRPListFromPRP (2 ^ k) mem prp2 (todo - ?s) [PRP prp1 ?s]"
    by (auto simp: PRPList_def Let_def)
  moreover have "0 < unat (todo - ?s)" "unat (todo - ?s) \<le> unat todo - unat ?s" "unat (todo - ?s) + 2 ^ k \<le> 2 ^ 64"
    using assms(3,4) s by linarith+
  note prpChain_reads [OF assms(5,1) k this, of "[PRP prp1 ?s]"]
  ultimately show ?thesis by simp
qed

text \<open>Where a byte of the data is in the host's memory: in the first page, or in a page of the list.\<close>

definition prpAddr :: "nat \<Rightarrow> host_mem \<Rightarrow> u64 \<Rightarrow> u64 \<Rightarrow> nat \<Rightarrow> u64" where
  "prpAddr k mem prp1 prp2 j =
     (let s = unat (getPRPSize (2 ^ k) prp1)
      in if j < s then prp1 + of_nat j else prpEntry mem prp2 ((j - s) div 2 ^ k) + of_nat ((j - s) mod 2 ^ k))"

lemma hostBytes_pages:
  assumes "k < 64"
  shows "hostBytes (PRP prp1 (getPRPSize (2 ^ k) prp1) # map (\<lambda>i. PRP (prpEntry mem prp2 i) (2 ^ k)) [0..<n]) =
    map (\<lambda>j. Some (prpAddr k mem prp1 prp2 j)) [0..<unat (getPRPSize (2 ^ k) prp1) + n * 2 ^ k]"
proof -
  let ?s = "unat (getPRPSize (2 ^ k) prp1)"
  have shift: "prpAddr k mem prp1 prp2 (j + ?s) = prpEntry mem prp2 (j div 2 ^ k) + of_nat (j mod 2 ^ k)" for j
    by (simp only: prpAddr_def Let_def) simp
  have "hostBytes (map (\<lambda>i. PRP (prpEntry mem prp2 i) (2 ^ k)) [0..<n]) =
      concat (map (\<lambda>i. map (\<lambda>j. Some (prpEntry mem prp2 i + of_nat j)) [0..<2 ^ k]) [0..<n])"
    by (simp add: hostBytes_def comp_def chunkBytes_def PRP_def unat_exp64 [OF assms])
  also have "\<dots> = map (\<lambda>j. Some (prpAddr k mem prp1 prp2 j)) (map (\<lambda>j. j + ?s) [0..<n * 2 ^ k])"
    by (simp only: concat_blocks map_map comp_def shift)
  finally have rest: "hostBytes (map (\<lambda>i. PRP (prpEntry mem prp2 i) (2 ^ k)) [0..<n]) =
      map (\<lambda>j. Some (prpAddr k mem prp1 prp2 j)) [?s..<?s + n * 2 ^ k]"
    by (simp only: map_add_upt add.commute [of "n * 2 ^ k"])
  have "chunkBytes (PRP prp1 (getPRPSize (2 ^ k) prp1)) = map (\<lambda>j. Some (prpAddr k mem prp1 prp2 j)) [0..<?s]"
    by (simp add: chunkBytes_def PRP_def prpAddr_def Let_def)
  with rest show ?thesis
    by (simp only: hostBytes_Cons upt_add_eq_append [OF zero_le] map_append)
qed

lemma prp_transfer:
  assumes k: "k < 63" and big: "2 * 2 ^ k < unat todo \<or> 2 ^ k < unat todo \<and> \<not> 2 ^ k dvd unat prp1"
    and n: "n = (unat todo - unat (getPRPSize (2 ^ k) prp1) + 2 ^ k - 1) div 2 ^ k" "Suc n * 2 ^ k < 2 ^ 64"
    and N: "8 * n \<le> unat (getPRPSize (2 ^ k) prp2)"
    and e: "\<forall>i<n. prpEntry mem prp2 i \<noteq> 0 \<and> 2 ^ k dvd unat (prpEntry mem prp2 i)"
    and r: "unat off + unat len \<le> unat todo"
  shows "\<exists>cs. PRPList (2 ^ k) mem prp1 prp2 todo = Some (Inr cs) \<and>
    movedBytes (dmaPieces off len cs) = map (\<lambda>j. (j, prpAddr k mem prp1 prp2 (unat off + j))) [0..<unat len]"
proof -
  let ?s = "getPRPSize (2 ^ k) prp1"
  let ?cs = "PRP prp1 ?s # map (\<lambda>i. PRP (prpEntry mem prp2 i) (2 ^ k)) [0..<n]"
  have k64: "k < 64" using k by simp
  have sum: "(\<Sum>c\<leftarrow>?cs. unat (chSize c)) = unat ?s + n * 2 ^ k"
    by (simp add: PRP_def comp_def unat_exp64 [OF k64] sum_list_triv)
  then have lt: "(\<Sum>c\<leftarrow>?cs. unat (chSize c)) < 2 ^ 64"
    using getPRPSize_bounds(2) [OF k64, of prp1] n(2) by simp
  have "unat todo - unat ?s \<le> n * 2 ^ k"
    using ceiling_div_le [of "2 ^ k" "unat todo - unat ?s" n] n(1) by simp
  then have "unat off + unat len \<le> unat ?s + n * 2 ^ k" using r by simp
  then have "take (unat len) (drop (unat off) (hostBytes ?cs)) =
      map (\<lambda>j. Some (prpAddr k mem prp1 prp2 j)) [unat off..<unat off + unat len]"
    unfolding hostBytes_pages [OF k64] by (simp add: take_map drop_map)
  then have "movedBytes (dmaPieces off len ?cs) = map (\<lambda>j. (j, prpAddr k mem prp1 prp2 (unat off + j))) [0..<unat len]"
    unfolding dmaPieces_correct [OF lt] by (simp add: onHost_upt)
  moreover have "PRPList (2 ^ k) mem prp1 prp2 todo = Some (Inr ?cs)"
    using n(2) by (intro PRPList_many [OF k big n(1) _ N e]) simp
  ultimately show ?thesis by blast
qed

section \<open>Scatter gather lists\<close>

text \<open>A segment of blocks and bit buckets is the list of its descriptors.\<close>

definition sglChunk :: "sgl_descriptor \<Rightarrow> chunk" where
  "sglChunk d = \<lparr>chAddr = sdAddress d, chSize = ucast (sdLength d), chIgnore = (sdType d = 0x01)\<rparr>"

definition sglBlock :: "sgl_descriptor \<Rightarrow> bool" where
  "sglBlock d \<longleftrightarrow> sdType d \<in> {0x00, 0x01, 0x04} \<and> sdSubtype d = 0"

lemma sglEntries_blocks:
  assumes "list_all (\<lambda>i. sglBlock (sglAt mem a i) \<and> 16 * i + 16 \<le> len) ks"
  shows "\<exists>d'. sglEntries mem a len ks (nxt, d, l) = Inr (nxt, d', l @ map (\<lambda>i. sglChunk (sglAt mem a i)) ks)"
  using assms
proof (induction ks arbitrary: d l)
  case (Cons i ks)
  let ?d = "sglAt mem a i"
  obtain d' where "sglEntries mem a len ks (nxt, ?d, l @ [sglChunk ?d]) =
      Inr (nxt, d', (l @ [sglChunk ?d]) @ map (\<lambda>i. sglChunk (sglAt mem a i)) ks)"
    using Cons.IH [of ?d "l @ [sglChunk ?d]"] Cons.prems by auto
  moreover have "parseSGLDescriptor ?d l = Inr (l @ [sglChunk ?d])"
    using Cons.prems by (auto simp: parseSGLDescriptor_def sglBlock_def sglChunk_def)
  ultimately show ?case
    using Cons.prems by (auto simp: Let_def sglBlock_def bindR_def)
qed simp

lemma parseSGLSegment_blocks:
  assumes "unat len = 16 * n" "\<forall>i<n. sglBlock (sglAt mem a i)"
  shows "parseSGLSegment mem a len l = Some (Inr (l @ map (\<lambda>i. sglChunk (sglAt mem a i)) [0..<n]))"
proof -
  have "list_all (\<lambda>i. sglBlock (sglAt mem a i) \<and> 16 * i + 16 \<le> 16 * n) [0..<n]"
    using assms(2) by (auto simp: list_all_iff)
  from sglEntries_blocks [OF this, of False "SGLDescriptor (\<lambda>k. 0)" l] obtain d' where
    "sglEntries mem a (16 * n) [0..<n] (False, SGLDescriptor (\<lambda>k. 0), l) =
      Inr (False, d', l @ map (\<lambda>i. sglChunk (sglAt mem a i)) [0..<n])" by blast
  moreover have "(unat len + 15) div 16 = n" using assms(1) by simp
  ultimately show ?thesis by (subst parseSGLSegment.simps) (simp add: assms(1))
qed

text \<open>A segment that consists of a pointer to itself is followed for ever.\<close>

lemma parseSGLSegment_self:
  assumes "sdType (sglAt mem a 0) = 0x02" "sdAddress (sglAt mem a 0) = a" "sdLength (sglAt mem a 0) = 16"
  shows "parseSGLSegment mem a 16 l = None"
proof -
  have e: "sglEntries mem a 16 [0] (False, d, l) = Inr (True, sglAt mem a 0, l)" for d l
    using assms(1) by (simp add: Let_def)
  have False if "parseSGLSegment m b n l = Some y" "m = mem" "b = a" "n = 16" for m b l y and n :: u32
  proof -
    have "\<not> (m = mem \<and> b = a \<and> n = 16)"
      using that(1)
    proof (rule parseSGLSegment.raw_induct [rotated])
      fix f m b l y and n :: u32
      assume IH: "\<And>m b (n :: u32) l y. f m b n l = Some y \<Longrightarrow> \<not> (m = mem \<and> b = a \<and> n = 16)"
        and body: "(case sglEntries m b (unat n) [0..<(unat n + 15) div 16] (False, SGLDescriptor (\<lambda>k. 0), l) of
            Inl e \<Rightarrow> Some (Inl e)
          | Inr (nxt, d, l) \<Rightarrow> if nxt then f m (sdAddress d) (sdLength d) l else Some (Inr l)) = Some y"
      show "\<not> (m = mem \<and> b = a \<and> n = 16)"
      proof
        assume eq: "m = mem \<and> b = a \<and> n = 16"
        then have "f mem a 16 l = Some y" using body assms(2,3) e by (simp del: sglEntries.simps)
        from IH [OF this] show False by simp
      qed
    qed
    then show False using that by simp
  qed
  then show ?thesis by (metis not_None_eq)
qed

section \<open>Callbacks\<close>

text \<open>The function of a transfer is called once, by the last of its callbacks.\<close>

fun dmaCallbacks :: "nat \<Rightarrow> nat \<Rightarrow> bool list" where
  "dmaCallbacks counter 0 = []"
| "dmaCallbacks counter (Suc m) = (let (c, called) = commonDMAHandler counter in called # dmaCallbacks c m)"

lemma dmaCallbacks_once: "0 < n \<Longrightarrow> dmaCallbacks n n = replicate (n - 1) False @ [True]"
proof (induction n)
  case (Suc n)
  then show ?case by (cases n) (auto simp: commonDMAHandler_def)
qed simp

lemma dmaCounter_pos: "0 < dmaCounter ps"
  by (simp add: dmaCounter_def)

section \<open>Lists that lose data\<close>

text \<open>
  Pages of sixteen bytes hold two entries. The last entry of a page that points to the next page of
  the list has been counted as data: of 64 bytes the list holds 48.
\<close>

definition chainMem :: host_mem where
  "chainMem a = (if a = 32 then 64 else if a = 40 then 80 else if a = 80 then 112 else 0)"

lemma prpEntry_chain:
  "prpEntry chainMem 32 0 = 64" "prpEntry chainMem 32 1 = 80" "prpEntry chainMem 80 0 = 112"
  by (simp_all add: prpEntry_def hostRead_def bufRead_def chainMem_def upt_rec)

lemma chain_sizes:
  "[0..<entryCount 16] = [0, 1]" "getPRPSize 16 32 = 16" "getPRPSize 16 80 = 16" "getPRPSize 16 64 = 16" "getPRPSize 16 112 = 16"
  by (simp_all add: entryCount_def upt_rec getPRPSize_def)

lemma chain_second: "getPRPListFromPRP 16 chainMem 80 16 l = Some (Inr (l @ [PRP 112 16]))"
  by (subst getPRPListFromPRP.simps) (simp add: chain_sizes Let_def prpEntry_chain)

lemma chain_first: "getPRPListFromPRP 16 chainMem 32 48 l = Some (Inr (l @ [PRP 64 16, PRP 112 16]))"
  by (subst getPRPListFromPRP.simps)
    (simp add: chain_sizes Let_def prpEntry_chain [simplified] butlast_append, simp add: PRP_def chain_second [unfolded PRP_def])

lemma chained_list_short:
  "PRPList 16 chainMem 16 32 64 = Some (Inr [PRP 16 16, PRP 64 16, PRP 112 16])"
  by (simp add: PRPList_def getPRPSize_def Let_def chain_first)

text \<open>
  Data of 5000 bytes that starts in the middle of a page ends in the next one, so the second pointer is data;
  the source takes it for a list.
\<close>

lemma prpEntry_zero: "prpEntry (\<lambda>a. 0) base i = 0"
  by (simp add: prpEntry_def hostRead_def bufRead_def upt_rec)

lemma one_boundary_read_as_list:
  "PRPList 4096 (\<lambda>a. 0) 0x1800 0x3000 5000 = Some (Inl (Panic ''prp_list: Invalid PRP in PRP List''))"
proof -
  have "getPRPListFromPRP 4096 (\<lambda>a. 0) 0x3000 2952 l = Some (Inl (Panic ''prp_list: Invalid PRP in PRP List''))" for l
    by (subst getPRPListFromPRP.simps)
      (simp add: getPRPSize_def entryCount_def upt_conv_Cons [of 0 512] Let_def prpEntry_zero)
  then show ?thesis by (simp add: PRPList_def getPRPSize_def Let_def)
qed

end
