(* ===== verification/NvmeDma_Props.thy ===== *)
theory NvmeDma_Props
  imports NvmeDma_Inv
begin

text \<open>The properties of the lists of host memory and of the transfers through them.\<close>

section \<open>Lists of pages\<close>

text \<open>
  C26. For pages of a power of two bytes that hold an entry of a list, and data of at least three pages: reading the list
  of a command always ends, however its pages are chained; when the list follows the rules of NVMe
  for that much data, it does not panic, and the list of the command is the stretch from the first
  pointer to the end of its page and then at least one of the pages that the list's entries name;
  and every element of a list that is built is memory of the host that lies in one page.
\<close>

theorem prp_list_in_pages:
  assumes "3 \<le> k" "k < 63" "unat todo + 2 ^ k \<le> 2 ^ 64" "unat (getPRPSize (2 ^ k) prp1) + 2 ^ k < unat todo"
  shows "\<exists>r. PRPList (2 ^ k) mem prp1 prp2 todo = Some r \<and>
    (prpChain k mem prp2 (unat todo - unat (getPRPSize (2 ^ k) prp1)) \<longrightarrow>
      (\<exists>cs. r = Inr (PRP prp1 (getPRPSize (2 ^ k) prp1) # cs) \<and> cs \<noteq> [] \<and> set cs \<subseteq> listElements k mem prp2)) \<and>
    (\<forall>cs. r = Inr cs \<longrightarrow> list_all (inPage (2 ^ k)) cs)"
proof -
  have k: "k < 64" using assms(2) by simp
  obtain r where r: "PRPList (2 ^ k) mem prp1 prp2 todo = Some r" "\<forall>cs. r = Inr cs \<longrightarrow> list_all (inPage (2 ^ k)) cs"
    using PRPList_inPage [OF k assms(3)] by blast
  moreover have "\<exists>cs. r = Inr (PRP prp1 (getPRPSize (2 ^ k) prp1) # cs) \<and> cs \<noteq> [] \<and> set cs \<subseteq> listElements k mem prp2"
    if "prpChain k mem prp2 (unat todo - unat (getPRPSize (2 ^ k) prp1))"
    using PRPList_chain [OF assms that] r(1) by simp
  ultimately show ?thesis by blast
qed

text \<open>The list over two pages of a list.\<close>

theorem prp_list_in_pages_witness:
  "\<exists>cs. PRPList 16 chainMem 16 32 48 = Some (Inr (PRP 16 16 # cs)) \<and> cs \<noteq> [] \<and> set cs \<subseteq> listElements 4 chainMem 32"
proof -
  have e: "listEntries 4 32 = 2" "listEntries 4 80 = 2" by (simp_all add: listEntries_def)
  have p: "prpChain 4 chainMem 80 16"
    by (rule prpChain.final [where n = 1]) (simp_all add: e hostPages_def prpEntry_chain)
  have c: "prpChain 4 chainMem 32 32"
    by (rule prpChain.further [where n = 1]) (use p in \<open>simp_all add: e hostPages_def prpEntry_chain [unfolded One_nat_def]\<close>)
  have s: "getPRPSize (2 ^ 4) 16 = 16" by (simp add: getPRPSize_def)
  have "\<exists>r. PRPList (2 ^ 4) chainMem 16 32 48 = Some r \<and>
      (prpChain 4 chainMem 32 (unat (48 :: u64) - unat (getPRPSize (2 ^ 4) 16)) \<longrightarrow>
        (\<exists>cs. r = Inr (PRP 16 (getPRPSize (2 ^ 4) 16) # cs) \<and> cs \<noteq> [] \<and> set cs \<subseteq> listElements 4 chainMem 32)) \<and>
      (\<forall>cs. r = Inr cs \<longrightarrow> list_all (inPage (2 ^ 4)) cs)"
    by (rule prp_list_in_pages) (simp_all add: s [simplified])
  then show ?thesis using c unfolding s by auto
qed

text \<open>
  C11. A command whose data takes more than two pages, or crosses a page boundary after an offset: when the
  second pointer is a list of as many aligned pages as the data needs, in one page, the list of the command is built
  and every transfer within the data moves byte \<open>j\<close> of the buffer from or to the place of byte
  \<open>off + j\<close> of the data in the pages of the host, each exactly once and in order.
\<close>

theorem prp_transfer_exact:
  assumes "k < 63" "2 * 2 ^ k < unat todo \<or> 2 ^ k < unat todo \<and> unat prp1 mod 2 ^ k \<noteq> 0"
    "n = (unat todo - unat (getPRPSize (2 ^ k) prp1) + 2 ^ k - 1) div 2 ^ k" "Suc n * 2 ^ k < 2 ^ 64"
    "8 * n \<le> unat (getPRPSize (2 ^ k) prp2)"
    "\<forall>i<n. prpEntry mem prp2 i \<noteq> 0 \<and> 2 ^ k dvd unat (prpEntry mem prp2 i)"
    "unat off + unat len \<le> unat todo"
  shows "\<exists>cs. PRPList (2 ^ k) mem prp1 prp2 todo = Some (Inr cs) \<and>
    movedBytes (map dmaOpPiece (PRPList_read off len cs)) = map (\<lambda>j. (j, prpAddr k mem prp1 prp2 (unat off + j))) [0..<unat len] \<and>
    movedBytes (map dmaOpPiece (PRPList_write off len cs)) = map (\<lambda>j. (j, prpAddr k mem prp1 prp2 (unat off + j))) [0..<unat len]"
  unfolding dmaOps_pieces [OF insertI1] dmaOps_pieces [OF insertI2, OF insertI1] conj_absorb
  using assms(2) by (intro prp_transfer [OF assms(1) _ assms(3-7)]) (simp only: dvd_eq_mod_eq_0)

theorem prp_transfer_exact_witness:
  "\<exists>cs. PRPList 16 chainMem 24 32 40 = Some (Inr cs) \<and>
    movedBytes (map dmaOpPiece (PRPList_read 4 6 cs)) = [(0, 28), (1, 29), (2, 30), (3, 31), (4, 64), (5, 65)]"
proof -
  have pages: "\<forall>i<2. prpEntry chainMem 32 i \<noteq> 0 \<and> 2 ^ 4 dvd unat (prpEntry chainMem 32 i)"
    by (auto simp: less_2_cases_iff prpEntry_chain [simplified])
  have "\<exists>cs. PRPList (2 ^ 4) chainMem 24 32 40 = Some (Inr cs) \<and>
      movedBytes (map dmaOpPiece (PRPList_read 4 6 cs)) = map (\<lambda>j. (j, prpAddr 4 chainMem 24 32 (unat (4 :: u64) + j))) [0..<unat (6 :: u64)] \<and>
      movedBytes (map dmaOpPiece (PRPList_write 4 6 cs)) = map (\<lambda>j. (j, prpAddr 4 chainMem 24 32 (unat (4 :: u64) + j))) [0..<unat (6 :: u64)]"
    by (rule prp_transfer_exact [OF _ _ _ _ _ pages]) (simp_all add: getPRPSize_def)
  moreover have "[0..<unat (6 :: u64)] = [0, 1, 2, 3, 4, 5]" by (simp add: upt_rec)
  ultimately show ?thesis by (auto simp: prpAddr_def getPRPSize_def prpEntry_chain)
qed

section \<open>Transfers\<close>

text \<open>
  C29. Reading and writing through any list of less than 2 to the power of 64 bytes, also with bit
  buckets: the pieces that are started move exactly the asked stretch of the list, cut at its end,
  byte for byte and in order, without the bytes of bit buckets; and when each of them calls back, or
  the one callback that is made without pieces, the function of the transfer is called once, by
  the last callback.
\<close>

theorem dma_moves_exactly:
  assumes "f \<in> {PRPList_read, PRPList_write, SGL_read, SGL_write}" "(\<Sum>c\<leftarrow>cs. unat (chSize c)) < 2 ^ 64"
  shows "movedBytes (map dmaOpPiece (f off len cs)) = onHost 0 (take (unat len) (drop (unat off) (hostBytes cs))) \<and>
    dmaCallbacks (dmaCounter (f off len cs)) (dmaCounter (f off len cs)) = replicate (dmaCounter (f off len cs) - 1) False @ [True]"
  using dmaPieces_correct [OF assms(2)] dmaOps_pieces [OF assms(1)] dmaCallbacks_once [OF dmaCounter_pos] by simp

theorem dma_moves_exactly_witness:
  "movedBytes (map dmaOpPiece (SGL_write 1 5 [PRP 24 2, \<lparr>chAddr = 0, chSize = 2, chIgnore = True\<rparr>, PRP 64 2])) = [(0, 25), (3, 64), (4, 65)] \<and>
   dmaCallbacks 2 2 = [False, True]"
  using dma_moves_exactly [of SGL_write "[PRP 24 2, \<lparr>chAddr = 0, chSize = 2, chIgnore = True\<rparr>, PRP 64 2]" 1 5]
  by (simp add: PRP_def onHost_def chunkBytes_def upt_rec map_filter_simps dmaPieces_def dmaCounter_def SGL_write_def)
    (simp add: eval_nat_numeral)

end
