(* ===== verification/Md5.thy ===== *)
theory Md5
  imports NvmeIdentify
begin

text \<open>
  The task of \<^verbatim>\<open>isc/slet/md5.cc\<close> that hashes a file: the transformation of a block, the update of a
  context piece by piece and the final padding; and that the pieces do not matter. The buffer of a
  new context has any content. The times that the steps take are left out.
\<close>

section \<open>Rounds\<close>

unbundle bit_operations_syntax

definition md5K :: "u32 list" where
  "md5K = [
    0xd76aa478, 0xe8c7b756, 0x242070db, 0xc1bdceee, 0xf57c0faf, 0x4787c62a,
    0xa8304613, 0xfd469501, 0x698098d8, 0x8b44f7af, 0xffff5bb1, 0x895cd7be,
    0x6b901122, 0xfd987193, 0xa679438e, 0x49b40821, 0xf61e2562, 0xc040b340,
    0x265e5a51, 0xe9b6c7aa, 0xd62f105d, 0x02441453, 0xd8a1e681, 0xe7d3fbc8,
    0x21e1cde6, 0xc33707d6, 0xf4d50d87, 0x455a14ed, 0xa9e3e905, 0xfcefa3f8,
    0x676f02d9, 0x8d2a4c8a, 0xfffa3942, 0x8771f681, 0x6d9d6122, 0xfde5380c,
    0xa4beea44, 0x4bdecfa9, 0xf6bb4b60, 0xbebfbc70, 0x289b7ec6, 0xeaa127fa,
    0xd4ef3085, 0x04881d05, 0xd9d4d039, 0xe6db99e5, 0x1fa27cf8, 0xc4ac5665,
    0xf4292244, 0x432aff97, 0xab9423a7, 0xfc93a039, 0x655b59c3, 0x8f0ccc92,
    0xffeff47d, 0x85845dd1, 0x6fa87e4f, 0xfe2ce6e0, 0xa3014314, 0x4e0811a1,
    0xf7537e82, 0xbd3af235, 0x2ad7d2bb, 0xeb86d391]"

definition ROTATE_LEFT :: "u32 \<Rightarrow> nat \<Rightarrow> u32" where
  "ROTATE_LEFT x n = push_bit n x OR drop_bit (32 - n) x"

definition md5F :: "u32 \<Rightarrow> u32 \<Rightarrow> u32 \<Rightarrow> u32" where "md5F x y z = (x AND y) OR (NOT x AND z)"

definition md5G :: "u32 \<Rightarrow> u32 \<Rightarrow> u32 \<Rightarrow> u32" where "md5G x y z = (x AND z) OR (y AND NOT z)"

definition md5H :: "u32 \<Rightarrow> u32 \<Rightarrow> u32 \<Rightarrow> u32" where "md5H x y z = x XOR y XOR z"

definition md5I :: "u32 \<Rightarrow> u32 \<Rightarrow> u32 \<Rightarrow> u32" where "md5I x y z = y XOR (x OR NOT z)"

type_synonym md5_state = "u32 \<times> u32 \<times> u32 \<times> u32"

text \<open>
  A step: the macro \<^verbatim>\<open>XX\<close>, and the registers exchange their parts: the new first register is the
  fourth of before, as the calls of the source write their arguments.
\<close>

definition md5XX :: "(u32 \<Rightarrow> u32 \<Rightarrow> u32 \<Rightarrow> u32) \<Rightarrow> u32 \<Rightarrow> nat \<Rightarrow> u32 \<Rightarrow> md5_state \<Rightarrow> md5_state" where
  "md5XX X x s ac = (\<lambda>(a, b, c, d). (d, ROTATE_LEFT (a + X b c d + x + ac) s + b, b, c))"

text \<open>The four rounds: the function, the word of the block for each step, and the rotations.\<close>

definition md5Rounds :: "((u32 \<Rightarrow> u32 \<Rightarrow> u32 \<Rightarrow> u32) \<times> nat list \<times> nat list) list" where
  "md5Rounds = [
    (md5F, [0, 1, 2, 3, 4, 5, 6, 7, 8, 9, 10, 11, 12, 13, 14, 15], [7, 12, 17, 22]),
    (md5G, [1, 6, 11, 0, 5, 10, 15, 4, 9, 14, 3, 8, 13, 2, 7, 12], [5, 9, 14, 20]),
    (md5H, [5, 8, 11, 14, 1, 4, 7, 10, 13, 0, 3, 6, 9, 12, 15, 2], [4, 11, 16, 23]),
    (md5I, [0, 7, 14, 5, 12, 3, 10, 1, 8, 15, 6, 13, 4, 11, 2, 9], [6, 10, 15, 21])]"

definition md5Step :: "u32 list \<Rightarrow> nat \<Rightarrow> md5_state \<Rightarrow> md5_state" where
  "md5Step x step st = (case md5Rounds ! (step div 16) of (X, ws, ss) \<Rightarrow> md5XX X (x ! (ws ! (step mod 16))) (ss ! (step mod 4)) (md5K ! step) st)"

definition md5Word :: "u8 list \<Rightarrow> nat \<Rightarrow> u32" where
  "md5Word block i = ucast (leWord [block ! (4 * i), block ! (4 * i + 1), block ! (4 * i + 2), block ! (4 * i + 3)])"

definition MD5Transform :: "md5_state \<Rightarrow> u8 list \<Rightarrow> md5_state" where
  "MD5Transform st block =
     (case (st, fold (md5Step (map (md5Word block) [0..<16])) [0..<64] st) of
        ((a, b, c, d), (a', b', c', d')) \<Rightarrow> (a + a', b + b', c + c', d + d'))"

section \<open>Contexts\<close>

record md5_ctx =
  mdState :: md5_state
  mdCount :: "u32 \<times> u32"
  mdBuffer :: "u8 list"

text \<open>The copy of some bytes into the buffer.\<close>

definition bufCopy :: "u8 list \<Rightarrow> nat \<Rightarrow> u8 list \<Rightarrow> u8 list" where
  "bufCopy buf index bs = take index buf @ bs @ drop (index + length bs) buf"

text \<open>The loop over the whole blocks of the input; its counter has 32 bits.\<close>

function md5Blocks :: "u8 list \<Rightarrow> nat \<Rightarrow> md5_state \<Rightarrow> (nat \<times> md5_state) res" where
  "md5Blocks bs i st =
     (if (i + 63) mod 2 ^ 32 < length bs then
        if i + 64 \<le> length bs then md5Blocks bs (i + 64) (MD5Transform st (take 64 (drop i bs)))
        else Inl (Undefined ''read behind the input'')
      else Inr (i, st))"
  by pat_completeness auto

termination by (relation "measure (\<lambda>(bs, i, st). length bs - i)") auto

declare md5Blocks.simps [simp del]

definition md5Index :: "md5_ctx \<Rightarrow> nat" where
  "md5Index c = unat (drop_bit 3 (fst (mdCount c)) AND 0x3F)"

definition MD5Update :: "md5_ctx \<Rightarrow> u8 list \<Rightarrow> md5_ctx res" where
  "MD5Update c bs =
     (let inSz = (of_nat (length bs) :: u32); index = md5Index c;
          c0 = fst (mdCount c) + push_bit 3 inSz;
          c1 = snd (mdCount c) + (if c0 < push_bit 3 inSz then 1 else 0) + drop_bit 29 inSz;
          partLen = 64 - index; c = c\<lparr>mdCount := (c0, c1)\<rparr>
      in if length bs \<ge> partLen then
           let buf = bufCopy (mdBuffer c) index (take partLen bs)
           in case md5Blocks bs partLen (MD5Transform (mdState c) buf) of
                Inl e \<Rightarrow> Inl e
              | Inr (i, st) \<Rightarrow> Inr (c\<lparr>mdState := st, mdBuffer := bufCopy buf 0 (drop i bs)\<rparr>)
         else Inr (c\<lparr>mdBuffer := bufCopy (mdBuffer c) index bs\<rparr>))"

definition Encode :: "u32 list \<Rightarrow> u8 list" where
  "Encode ws = concat (map (\<lambda>w. [ucast (w AND 0xff), ucast (drop_bit 8 w AND 0xff), ucast (drop_bit 16 w AND 0xff), ucast (drop_bit 24 w AND 0xff)]) ws)"

definition PADDING :: "u8 list" where "PADDING = 0x80 # replicate 63 0"

definition MD5Init :: "u8 list \<Rightarrow> md5_ctx" where
  "MD5Init buf = \<lparr>mdState = (0x67452301, 0xefcdab89, 0x98badcfe, 0x10325476), mdCount = (0, 0), mdBuffer = buf\<rparr>"

definition md5sum :: "u8 list \<Rightarrow> u8 list \<Rightarrow> u8 list res" where
  "md5sum buf bs =
     bindR (MD5Update (MD5Init buf) bs) (\<lambda>c.
       let bits = Encode [fst (mdCount c), snd (mdCount c)]; index = md5Index c;
           padLen = (if index < 56 then 56 - index else 120 - index)
       in bindR (MD5Update c (take padLen PADDING)) (\<lambda>c. bindR (MD5Update c bits) (\<lambda>c.
         Inr (case mdState c of (w0, w1, w2, w3) \<Rightarrow> Encode [w0, w1, w2, w3]))))"

section \<open>The pieces do not matter\<close>

text \<open>
  The specification, as in RFC 1321: the message is padded to whole blocks, the last eight bytes
  of which are its length in bits, and the blocks are transformed one after the other.
\<close>

function md5Fold :: "md5_state \<Rightarrow> u8 list \<Rightarrow> md5_state" where
  "md5Fold st xs = (if length xs < 64 then st else md5Fold (MD5Transform st (take 64 xs)) (drop 64 xs))"
  by pat_completeness auto

termination by (relation "measure (\<lambda>(st, xs). length xs)") auto

declare md5Fold.simps [simp del]

definition md5Padded :: "u8 list \<Rightarrow> u8 list" where
  "md5Padded xs = (let n = length xs
    in xs @ 0x80 # replicate ((119 - n mod 64) mod 64) 0 @ Encode [of_nat (8 * n), of_nat (8 * n div 2 ^ 32)])"

definition md5Digest :: "u8 list \<Rightarrow> u8 list" where
  "md5Digest xs = (case md5Fold (0x67452301, 0xefcdab89, 0x98badcfe, 0x10325476) (md5Padded xs) of (w0, w1, w2, w3) \<Rightarrow> Encode [w0, w1, w2, w3])"

lemma md5Fold_short: "length xs < 64 \<Longrightarrow> md5Fold st xs = st"
  by (simp add: md5Fold.simps)

lemma md5Fold_append: "length xs mod 64 = 0 \<Longrightarrow> md5Fold st (xs @ ys) = md5Fold (md5Fold st xs) ys"
proof (induction st xs rule: md5Fold.induct)
  case (1 st xs)
  show ?case
  proof (cases "length xs < 64")
    case True
    then have "xs = []" using "1.prems" by simp
    then show ?thesis by (simp add: md5Fold_short)
  next
    case False
    then have "(length xs - 64) mod 64 = 0" using "1.prems" by (simp add: le_mod_geq)
    then show ?thesis
      using False 1 md5Fold.simps [of st xs] md5Fold.simps [of st "xs @ ys"] by simp
  qed
qed

lemma md5Blocks_fold:
  "i \<le> length bs \<Longrightarrow> length bs + 63 < 2 ^ 32 \<Longrightarrow>
     md5Blocks bs i st = Inr (length bs - (length bs - i) mod 64, md5Fold st (drop i bs))"
proof (induction bs i st rule: md5Blocks.induct)
  case (1 bs i st)
  have m: "(i + 63) mod 2 ^ 32 = i + 63" using "1.prems" by simp
  show ?case
  proof (cases "i + 64 \<le> length bs")
    case True
    then have "(length bs - i) mod 64 = (length bs - (i + 64)) mod 64" using le_mod_geq [of 64 "length bs - i"] by simp
    moreover have "\<not> length bs - i < 64" using True by simp
    ultimately show ?thesis
      using True 1 m md5Blocks.simps [of bs i st] md5Fold.simps [of st "drop i bs"] by (simp add: add.commute)
  next
    case False
    then show ?thesis using "1.prems" m by (simp add: md5Blocks.simps md5Fold_short)
  qed
qed

text \<open>What a context is after some bytes.\<close>

definition md5Has :: "u8 list \<Rightarrow> md5_ctx \<Rightarrow> bool" where
  "md5Has xs c \<longleftrightarrow> mdState c = md5Fold (0x67452301, 0xefcdab89, 0x98badcfe, 0x10325476) xs \<and>
     mdCount c = (of_nat (8 * length xs), of_nat (8 * length xs div 2 ^ 32)) \<and>
     length (mdBuffer c) = 64 \<and> take (length xs mod 64) (mdBuffer c) = drop (length xs - length xs mod 64) xs"

lemma md5Has_Init: "length buf = 64 \<Longrightarrow> md5Has [] (MD5Init buf)"
  by (simp add: md5Has_def MD5Init_def md5Fold_short)

lemma md5Index_mod: "md5Has xs c \<Longrightarrow> md5Index c = length xs mod 64"
proof -
  assume "md5Has xs c"
  then have "md5Index c = unat (take_bit 6 (drop_bit 3 (of_nat (8 * length xs) :: u32)))"
    by (simp add: md5Index_def md5Has_def take_bit_eq_mask mask_eq_exp_minus_1 del: of_nat_mult)
  also have "\<dots> = 8 * length xs mod 2 ^ 32 div 8 mod 64"
    by (simp only: unsigned_take_bit_eq unsigned_drop_bit_eq unat_of_nat) (simp add: take_bit_eq_mod drop_bit_eq_div)
  also have "8 * length xs mod 2 ^ 32 div 8 mod 64 = length xs mod 64"
    using mod_mult_mult1 [of 8 "length xs" "2 ^ 29"] by (simp add: mod_mod_cancel)
  finally show ?thesis .
qed

lemma mod_carry:
  assumes "a < m" "b < (m :: nat)"
  shows "(a + b) mod m < b \<longleftrightarrow> m \<le> a + b" "(a + b) div m = (if m \<le> a + b then 1 else 0)"
proof -
  show "(a + b) mod m < b \<longleftrightarrow> m \<le> a + b"
    using assms le_mod_geq [of m "a + b"] by (cases "m \<le> a + b") simp_all
  show "(a + b) div m = (if m \<le> a + b then 1 else 0)"
    using assms le_div_geq [of m "a + b"] by simp
qed

lemma md5_count:
  fixes n l :: nat
  assumes "n < 2 ^ 32"
  shows "(of_nat (8 * l div 2 ^ 32) :: u32) + (if of_nat (8 * l) + push_bit 3 (of_nat n) < (push_bit 3 (of_nat n) :: u32) then 1 else 0) + drop_bit 29 (of_nat n)
    = of_nat (8 * (l + n) div 2 ^ 32)"
proof -
  define m where "m = (2 ^ 32 :: nat)"
  define a where "a = 8 * l mod m"
  define b where "b = 8 * n mod m"
  have ab: "a < m" "b < m" by (simp_all add: a_def b_def m_def)
  have p: "push_bit 3 (of_nat n) = (of_nat (8 * n) :: u32)" by (simp add: push_bit_eq_mult)
  have u: "unat (of_nat k :: u32) = k mod m" for k by (simp only: unat_of_nat m_def) simp
  have "unat (of_nat (8 * l) + push_bit 3 (of_nat n) :: u32) = (a + b) mod m"
    unfolding p of_nat_add [symmetric] u a_def b_def by (simp only: mod_add_eq)
  moreover have "unat (push_bit 3 (of_nat n) :: u32) = b"
    unfolding p u b_def ..
  ultimately have carry: "of_nat (8 * l) + push_bit 3 (of_nat n) < (push_bit 3 (of_nat n) :: u32) \<longleftrightarrow> m \<le> a + b"
    by (simp only: word_less_nat_alt mod_carry [OF ab])
  have "8 * n div m = n div 2 ^ 29" using div_mult_mult1 [of 8 n "2 ^ 29"] by (simp add: m_def)
  moreover have "unat (drop_bit 29 (of_nat n :: u32)) = n div 2 ^ 29"
    using assms by (simp only: unsigned_drop_bit_eq u) (simp add: drop_bit_eq_div m_def take_bit_nat_eq_self)
  ultimately have d: "drop_bit 29 (of_nat n :: u32) = of_nat (8 * n div m)"
    by (simp only: word_unat_eq_iff u) (use assms in \<open>simp add: m_def less_mult_imp_div_less\<close>)
  have "8 * (l + n) div m = 8 * l div m + 8 * n div m + (if m \<le> a + b then 1 else 0)"
    unfolding mod_carry(2) [OF ab, symmetric] by (simp only: a_def b_def distrib_left div_add1_eq [of "8 * l" "8 * n" m])
  then have "(of_nat (8 * (l + n) div m) :: u32) = of_nat (8 * l div m) + of_nat (8 * n div m) + (if m \<le> a + b then 1 else 0)"
    by (cases "m \<le> a + b") (simp_all only: if_True if_False of_nat_add of_nat_1 add_0_right)
  then show ?thesis unfolding carry d m_def [symmetric] by (simp only: ac_simps)
qed

lemma md5Fold_rest: "md5Fold st (xs @ bs) = md5Fold (md5Fold st xs) (drop (length xs - length xs mod 64) xs @ bs)"
proof -
  let ?k = "length xs - length xs mod 64"
  have k: "length (take ?k xs) mod 64 = 0" by (simp add: minus_mod_eq_mult_div)
  have "md5Fold st xs = md5Fold st (take ?k xs)"
    using md5Fold_append [OF k, of st "drop ?k xs"] by (simp add: md5Fold_short)
  moreover have "md5Fold st (xs @ bs) = md5Fold (md5Fold st (take ?k xs)) (drop ?k xs @ bs)"
    using md5Fold_append [OF k, of st "drop ?k xs @ bs"] by (simp only: append_assoc [symmetric] append_take_drop_id)
  ultimately show ?thesis by simp
qed

lemma bufCopy_0: "length ds \<le> length buf \<Longrightarrow> length (bufCopy buf 0 ds) = length buf" "take (length ds) (bufCopy buf 0 ds) = ds"
  by (simp_all add: bufCopy_def)

lemma MD5Update_has:
  assumes c: "md5Has xs c" and n: "length bs + 63 < 2 ^ 32"
  shows "\<exists>c'. MD5Update c bs = Inr c' \<and> md5Has (xs @ bs) c'"
proof -
  let ?r = "length xs mod 64" and ?st = "(0x67452301, 0xefcdab89, 0x98badcfe, 0x10325476) :: md5_state"
  define rest where "rest = drop (length xs - ?r) xs"
  have r: "md5Index c = ?r" "take ?r (mdBuffer c) = rest" "length (mdBuffer c) = 64" "length rest = ?r" "mdState c = md5Fold ?st xs"
    using c md5Index_mod [OF c] by (simp_all add: md5Has_def rest_def)
  have st: "md5Fold ?st (xs @ bs) = md5Fold (md5Fold ?st xs) (rest @ bs)"
    unfolding rest_def by (rule md5Fold_rest)
  define c0 c1 where "c0 = fst (mdCount c) + push_bit 3 (of_nat (length bs))"
    and "c1 = snd (mdCount c) + (if c0 < push_bit 3 (of_nat (length bs)) then 1 else 0) + drop_bit 29 (of_nat (length bs))"
  have cnt: "c0 = of_nat (8 * length (xs @ bs))" "c1 = of_nat (8 * length (xs @ bs) div 2 ^ 32)"
  proof -
    have m: "fst (mdCount c) = of_nat (8 * length xs)" "snd (mdCount c) = of_nat (8 * length xs div 2 ^ 32)"
      using c by (simp_all add: md5Has_def del: of_nat_mult)
    show "c0 = of_nat (8 * length (xs @ bs))" unfolding c0_def m by (simp add: push_bit_eq_mult distrib_left)
    show "c1 = of_nat (8 * length (xs @ bs) div 2 ^ 32)"
      unfolding c1_def c0_def m length_append using n by (intro md5_count) simp
  qed
  show ?thesis
  proof (cases "64 - ?r \<le> length bs")
    case True
    have buf: "bufCopy (mdBuffer c) ?r (take (64 - ?r) bs) = take 64 (rest @ bs)"
      using True r by (simp add: bufCopy_def)
    have d: "drop (64 - ?r) bs = drop 64 (rest @ bs)" using r by simp
    have "md5Blocks bs (64 - ?r) (MD5Transform (mdState c) (take 64 (rest @ bs))) =
        Inr (length bs - (length bs - (64 - ?r)) mod 64, md5Fold ?st (xs @ bs))"
    proof -
      have "\<not> length (rest @ bs) < 64" using True r(4) by simp
      then have "md5Fold ?st (xs @ bs) = md5Fold (MD5Transform (mdState c) (take 64 (rest @ bs))) (drop (64 - ?r) bs)"
        unfolding st d r(5) by (subst md5Fold.simps) (simp only: if_False)
      then show ?thesis by (simp only: md5Blocks_fold [OF True n])
    qed
    then have "MD5Update c bs = Inr (c\<lparr>mdCount := (c0, c1), mdState := md5Fold ?st (xs @ bs),
        mdBuffer := bufCopy (take 64 (rest @ bs)) 0 (drop (length bs - (length bs - (64 - ?r)) mod 64) bs)\<rparr>)"
      using True buf r(1) by (simp add: MD5Update_def Let_def c0_def c1_def)
    moreover have "md5Has (xs @ bs) (c\<lparr>mdCount := (c0, c1), mdState := md5Fold ?st (xs @ bs),
        mdBuffer := bufCopy (take 64 (rest @ bs)) 0 (drop (length bs - (length bs - (64 - ?r)) mod 64) bs)\<rparr>)"
    proof -
      let ?t = "(length bs - (64 - ?r)) mod 64"
      have "(length xs + length bs) mod 64 = (?r + length bs) mod 64" by (simp add: mod_add_left_eq)
      also have "\<dots> = (?r + length bs - 64) mod 64" using True by (intro le_mod_geq) simp
      finally have t: "(length xs + length bs) mod 64 = ?t" using True by (simp add: add.commute)
      have "?t \<le> length bs" using mod_less_eq_dividend [of "length bs - (64 - ?r)" 64] by linarith
      then have l: "length (drop (length bs - ?t) bs) = ?t" "length xs + length bs - ?t = length xs + (length bs - ?t)" by simp_all
      define ds where "ds = drop (length bs - ?t) bs"
      have "length ds < 64" unfolding ds_def l(1) by simp
      moreover have "length (take 64 (rest @ bs)) = 64" using True r(4) by simp
      ultimately have "length (bufCopy (take 64 (rest @ bs)) 0 ds) = 64" "take ?t (bufCopy (take 64 (rest @ bs)) 0 ds) = ds"
        using bufCopy_0 [of ds "take 64 (rest @ bs)"] l(1) unfolding ds_def [symmetric] by (simp_all only: less_imp_le)
      moreover have "drop (length xs + length bs - ?t) (xs @ bs) = ds" unfolding l(2) ds_def by simp
      ultimately show ?thesis
        unfolding md5Has_def ds_def [symmetric] length_append t using cnt unfolding length_append by (simp only: md5_ctx.simps) simp
    qed
    ultimately show ?thesis by blast
  next
    case False
    then have "MD5Update c bs = Inr (c\<lparr>mdCount := (c0, c1), mdBuffer := bufCopy (mdBuffer c) ?r bs\<rparr>)"
      using r(1) by (simp add: MD5Update_def Let_def c0_def c1_def)
    moreover have "md5Has (xs @ bs) (c\<lparr>mdCount := (c0, c1), mdBuffer := bufCopy (mdBuffer c) ?r bs\<rparr>)"
    proof -
      have "(length xs + length bs) mod 64 = (?r + length bs) mod 64" by (simp add: mod_add_left_eq)
      then have t: "(length xs + length bs) mod 64 = ?r + length bs" using False by simp
      have "length xs + length bs - (?r + length bs) = length xs - ?r" by simp
      then show ?thesis
        using False r st cnt by (simp add: md5Has_def t bufCopy_def md5Fold_short rest_def [symmetric] del: of_nat_mult of_nat_add)
    qed
    ultimately show ?thesis by blast
  qed
qed

lemma length_Encode: "length (Encode ws) = 4 * length ws"
  by (induction ws) (simp_all add: Encode_def)

lemma md5sum_digest:
  assumes "length buf = 64" "length bs + 63 < 2 ^ 32"
  shows "md5sum buf bs = Inr (md5Digest bs)"
proof -
  let ?n = "length bs" and ?bits = "Encode [of_nat (8 * length bs), of_nat (8 * length bs div 2 ^ 32)]"
  define padLen where "padLen = (if ?n mod 64 < 56 then 56 - ?n mod 64 else 120 - ?n mod 64)"
  obtain c where c: "MD5Update (MD5Init buf) bs = Inr c" "md5Has bs c"
    using MD5Update_has [OF md5Has_Init [OF assms(1)] assms(2)] by auto
  have p: "0 < padLen" "padLen \<le> 64" "padLen - 1 = (119 - ?n mod 64) mod 64"
    using mod_less_divisor [of 64 ?n] by (auto simp: padLen_def le_mod_geq)
  have pad: "take padLen PADDING = 0x80 # replicate ((119 - ?n mod 64) mod 64) 0"
    using p by (simp add: PADDING_def take_Cons' min_def)
  obtain c1 where c1: "MD5Update c (take padLen PADDING) = Inr c1" "md5Has (bs @ take padLen PADDING) c1"
    using MD5Update_has [OF c(2), of "take padLen PADDING"] p by (auto simp: PADDING_def)
  obtain c2 where c2: "MD5Update c1 ?bits = Inr c2" "md5Has ((bs @ take padLen PADDING) @ ?bits) c2"
    using MD5Update_has [OF c1(2), of ?bits] by (auto simp: length_Encode)
  have "(bs @ take padLen PADDING) @ ?bits = md5Padded bs"
    by (simp add: pad md5Padded_def Let_def)
  then have "md5Digest bs = (case mdState c2 of (w0, w1, w2, w3) \<Rightarrow> Encode [w0, w1, w2, w3])"
    using c2(2) by (simp only: md5Has_def md5Digest_def)
  moreover have "Encode [fst (mdCount c), snd (mdCount c)] = ?bits" using c(2) by (simp only: md5Has_def fst_conv snd_conv)
  ultimately show ?thesis
    unfolding md5sum_def Let_def using c(1) c1(1) c2(1) md5Index_mod [OF c(2)]
    by (simp only: bindR_Inr padLen_def)
qed

end
