(* ===== verification/Slets.thy ===== *)
theory Slets
  imports Md5
begin

text \<open>
  In-storage computing: the runtime with its slets and their options (\<^verbatim>\<open>isc/runtime.cc\<close>,
  \<^verbatim>\<open>isc/slet/slet.cc\<close>), reading the data of a file from its extents, and the tasks that search, count and read
  (\<^verbatim>\<open>isc/slet/\<close>). The image of the device is a function from addresses to bytes. The times that
  the steps take and the freeing of memory are left out.
\<close>

section \<open>Options\<close>

record 'v slet_opts =
  soName :: "'v option"
  soCwd :: "'v option"
  soExtra :: "string \<rightharpoonup> 'v option"

definition GenericSlet_setOpt :: "string \<Rightarrow> 'v option \<Rightarrow> 'v slet_opts \<Rightarrow> 'v slet_opts" where
  "GenericSlet_setOpt key v o1 =
     (if key = ''name'' then o1\<lparr>soName := v\<rparr>
      else if key = ''cwd'' then o1\<lparr>soCwd := v\<rparr>
      else o1\<lparr>soExtra := (soExtra o1)(key \<mapsto> v)\<rparr>)"

definition GenericSlet_getOpt :: "string \<Rightarrow> 'v slet_opts \<Rightarrow> 'v option" where
  "GenericSlet_getOpt key o1 =
     (let val = (if key = ''name'' then soName o1 else if key = ''cwd'' then soCwd o1 else None)
      in case soExtra o1 key of Some v \<Rightarrow> v | None \<Rightarrow> val)"

section \<open>Runtime\<close>

definition ISC_STS_OK :: int where "ISC_STS_OK = 0"
definition ISC_STS_FAIL :: int where "ISC_STS_FAIL = -1"
definition ISC_STS_EID :: int where "ISC_STS_EID = -2"
definition ISC_STS_EARGS :: int where "ISC_STS_EARGS = -4"

text \<open>Identifiers are counted without bound; the source's counters have 32 bits with a sign.\<close>

record 's isc_runtime =
  nextSletId :: int
  nextFSAId :: int
  lSlet :: "(int \<times> 's) list"
  lFSA :: "(int \<times> 's) list"

definition Runtime_new :: "'s isc_runtime" where
  "Runtime_new = \<lparr>nextSletId = 0, nextFSAId = 0, lSlet = [], lFSA = []\<rparr>"

definition addSlet :: "bool \<Rightarrow> 's \<Rightarrow> 's isc_runtime \<Rightarrow> int \<times> 's isc_runtime" where
  "addSlet fsa x R =
     (if fsa then let k = nextFSAId R + 1 in (k, R\<lparr>nextFSAId := k, lFSA := lFSA R @ [(k, x)]\<rparr>)
      else let k = nextSletId R + 1 in (k, R\<lparr>nextSletId := k, lSlet := lSlet R @ [(k, x)]\<rparr>))"

definition delSlet :: "int \<Rightarrow> 's isc_runtime \<Rightarrow> int \<times> 's isc_runtime" where
  "delSlet k R = (ISC_STS_OK, R\<lparr>lSlet := filter (\<lambda>x. fst x \<noteq> k) (lSlet R)\<rparr>)"

definition findSlet :: "int \<Rightarrow> 's isc_runtime \<Rightarrow> 's option" where
  "findSlet k R = map_option snd (List.find (\<lambda>x. fst x = k) (lSlet R))"

text \<open>The update of a slet through its pointer: the first of the identifier.\<close>

fun updSlet :: "int \<Rightarrow> 's \<Rightarrow> (int \<times> 's) list \<Rightarrow> (int \<times> 's) list" where
  "updSlet k x [] = []"
| "updSlet k x (y # ys) = (if fst y = k then (k, x) # ys else y # updSlet k x ys)"

definition startSlet :: "('s \<Rightarrow> int \<times> 's) \<Rightarrow> int \<Rightarrow> 's isc_runtime \<Rightarrow> int \<times> 's isc_runtime" where
  "startSlet startup k R =
     (case findSlet k R of None \<Rightarrow> (ISC_STS_EID, R)
      | Some x \<Rightarrow> (case startup x of (sts, x') \<Rightarrow> (sts, R\<lparr>lSlet := updSlet k x' (lSlet R)\<rparr>)))"

definition Runtime_setOpt :: "int \<Rightarrow> string \<Rightarrow> 'v option \<Rightarrow> 'v slet_opts isc_runtime \<Rightarrow> int \<times> 'v slet_opts isc_runtime" where
  "Runtime_setOpt k key v R =
     (case findSlet k R of None \<Rightarrow> (ISC_STS_FAIL, R)
      | Some x \<Rightarrow> (ISC_STS_OK, R\<lparr>lSlet := updSlet k (GenericSlet_setOpt key v x) (lSlet R)\<rparr>))"

definition Runtime_getOpt :: "int \<Rightarrow> string \<Rightarrow> 'v slet_opts isc_runtime \<Rightarrow> 'v option" where
  "Runtime_getOpt k key R = (case findSlet k R of None \<Rightarrow> None | Some x \<Rightarrow> GenericSlet_getOpt key x)"

text \<open>The file system of a path is the first whose directory is a prefix of it; a missing directory is undefined.\<close>

fun getExts :: "(int \<times> string slet_opts) list \<Rightarrow> (string slet_opts \<Rightarrow> 'e) \<Rightarrow> 'e \<Rightarrow> string \<Rightarrow> 'e res" where
  "getExts [] ext none path = Inr none"
| "getExts (f # fs) ext none path =
     (case GenericSlet_getOpt ''cwd'' (snd f) of None \<Rightarrow> Inl (Undefined ''length of a null string'')
      | Some cwd \<Rightarrow> if take (length cwd) path = cwd then Inr (ext (snd f)) else getExts fs ext none path)"

definition getInode :: "(int \<times> string slet_opts) list \<Rightarrow> (string slet_opts \<Rightarrow> 'i option) \<Rightarrow> string \<Rightarrow> 'i option res" where
  "getInode fs inode path = getExts fs inode None path"

definition destory :: "'s isc_runtime \<Rightarrow> 's isc_runtime" where
  "destory R = R\<lparr>lSlet := [], lFSA := []\<rparr>"

section \<open>Extents\<close>

record isc_ext =
  exBlock :: u64
  exSlbn :: nat
  exLen :: nat

definition BLK_SIZE :: nat where "BLK_SIZE = 4096"

type_synonym image = "nat \<Rightarrow> u8"

definition FTL_readImage :: "image \<Rightarrow> nat \<Rightarrow> nat \<Rightarrow> u8 list" where
  "FTL_readImage img ofs sz = map img [ofs..<ofs + sz]"

definition extSize :: "isc_ext list \<Rightarrow> nat" where
  "extSize es = (\<Sum>e\<leftarrow>es. exLen e * BLK_SIZE)"

text \<open>
  Reading a file into a new buffer. Its size is counted in an \<^verbatim>\<open>int\<close>: a negative size cannot be
  allocated, and one that has wrapped around is smaller than the data.
\<close>

definition readLoop :: "image \<Rightarrow> isc_ext list \<Rightarrow> u8 list \<Rightarrow> nat \<times> u8 list" where
  "readLoop img es buf = fold (\<lambda>e (ofs, buf). (ofs + exLen e * BLK_SIZE, bufCopy buf ofs (FTL_readImage img (exSlbn e * BLK_SIZE) (exLen e * BLK_SIZE)))) es (0, buf)"

definition readFile :: "image \<Rightarrow> isc_ext list \<Rightarrow> (int + u8 list) res" where
  "readFile img es =
     (let sz = sint (of_nat (extSize es) :: u32)
      in if sz < 0 then Inr (Inl ISC_STS_FAIL)
         else if nat sz < extSize es then Inl (Undefined ''write behind the buffer'')
         else Inr (Inr (snd (readLoop img es (replicate (nat sz) 0)))))"

text \<open>The sequential reader.\<close>

definition SeqRead :: "image \<Rightarrow> isc_ext list \<Rightarrow> u8 list" where
  "SeqRead img es = snd (readLoop img es (replicate (extSize es) 0))"

text \<open>The directory reader puts extent \<open>i\<close> at block \<open>i\<close> of the buffer.\<close>

definition listdirRead :: "image \<Rightarrow> isc_ext list \<Rightarrow> u8 list" where
  "listdirRead img es =
     fold (\<lambda>(ie, e) buf. bufCopy buf (ie * BLK_SIZE) (FTL_readImage img (exSlbn e * BLK_SIZE) (exLen e * BLK_SIZE)))
       (enumerate 0 es) (replicate (extSize es) 0)"

text \<open>The random reader: the extent of an offset, and the data from there on.\<close>

fun seekExt :: "isc_ext list \<Rightarrow> nat \<Rightarrow> (nat \<times> isc_ext list) res" where
  "seekExt [] dist = Inl (Undefined ''read behind the extents'')"
| "seekExt (e # es) dist = (if dist \<ge> exLen e * BLK_SIZE then seekExt es (dist - exLen e * BLK_SIZE) else Inr (dist, e # es))"

fun gatherExt :: "image \<Rightarrow> isc_ext list \<Rightarrow> nat \<Rightarrow> nat \<Rightarrow> u8 list res" where
  "gatherExt img [] dist want = (if want = 0 then Inr [] else Inl (Undefined ''read behind the extents''))"
| "gatherExt img (e # es) dist want =
     (if want = 0 then Inr []
      else let len = min (exLen e * BLK_SIZE - dist) want; bs = FTL_readImage img (exSlbn e * BLK_SIZE + dist) len
        in if want = len then Inr bs else bindR (gatherExt img es 0 (want - len)) (\<lambda>r. Inr (bs @ r)))"

definition RandRead :: "image \<Rightarrow> isc_ext list \<Rightarrow> nat \<Rightarrow> nat \<Rightarrow> nat list \<Rightarrow> u8 list res" where
  "RandRead img es szTotal szEachRead offsets =
     foldR (\<lambda>off out. bindR (seekExt es off) (\<lambda>(dist, es). bindR (gatherExt img es dist szEachRead) (\<lambda>bs.
         if length out + length bs > szTotal then Inl (Undefined ''write behind the result'') else Inr (out @ bs)))) offsets []"

text \<open>The files of a request without a file system: their extents one after the other, each list ended by a mark.\<close>

fun splitExts :: "nat \<Rightarrow> isc_ext list \<Rightarrow> isc_ext list list res" where
  "splitExts 0 es = Inr []"
| "splitExts (Suc n) es =
     (case dropWhile (\<lambda>e. exBlock e \<noteq> - 1) es of
        [] \<Rightarrow> Inl (Undefined ''read behind the extents'')
      | e # rest \<Rightarrow> bindR (splitExts n rest) (\<lambda>fs. Inr (takeWhile (\<lambda>e. exBlock e \<noteq> - 1) es # fs)))"

text \<open>The loop over the files: each is read and given to the task with its size; the first failure ends it.\<close>

fun runFiles :: "image \<Rightarrow> (u8 list \<Rightarrow> nat \<Rightarrow> (int + 'r) res) \<Rightarrow> (isc_ext list \<times> nat) list \<Rightarrow> (int + 'r list) res" where
  "runFiles img task [] = Inr (Inr [])"
| "runFiles img task ((es, bytes) # fs) =
     bindR (readFile img es) (\<lambda>r. case r of Inl sts \<Rightarrow> Inr (Inl sts)
       | Inr buf \<Rightarrow> bindR (task buf bytes) (\<lambda>t. case t of Inl sts \<Rightarrow> Inr (Inl sts)
         | Inr x \<Rightarrow> bindR (runFiles img task fs) (\<lambda>q. case q of Inl sts \<Rightarrow> Inr (Inl sts) | Inr xs \<Rightarrow> Inr (Inr (x # xs)))))"

end
