(* ===== verification/SletTasks.thy ===== *)
theory SletTasks
  imports Slets
begin

text \<open>
  The tasks of in-storage computing that search for a line, that add up the numbers of a file and that
  hash it, and the slets that run them over the files of a request (\<^verbatim>\<open>isc/slet/grep.cc\<close>, \<^verbatim>\<open>stats32.cc\<close>,
  \<^verbatim>\<open>stats64.cc\<close>, \<^verbatim>\<open>md5.cc\<close>).
\<close>

section \<open>Searching\<close>

text \<open>A character of the pattern has a sign, one of the text has none.\<close>

definition charEq :: "u8 \<Rightarrow> u8 \<Rightarrow> bool" where
  "charEq t s \<longleftrightarrow> sint t = uint s"

text \<open>The last place of each character in the pattern, in a \<^verbatim>\<open>char\<close>; -1 for the others.\<close>

definition badChars :: "u8 list \<Rightarrow> u8 \<Rightarrow> u8" where
  "badChars pat = foldl (\<lambda>bad i. bad(pat ! i := of_nat i)) (\<lambda>c. 0xff) [0..<length pat]"

definition toInt :: "nat \<Rightarrow> int" where
  "toInt n = sint (of_nat n :: u32)"

text \<open>The comparison from the end of the pattern: the place of the first difference, or -1.\<close>

fun scanBack :: "u8 list \<Rightarrow> u8 list \<Rightarrow> nat \<Rightarrow> nat \<Rightarrow> int res" where
  "scanBack s t shift 0 = Inr (-1)"
| "scanBack s t shift (Suc k) =
     (if k < length t \<and> shift + k < length s then
        if charEq (t ! k) (s ! (shift + k)) then scanBack s t shift k else Inr (int k)
      else Inl (Undefined ''read behind a string''))"

text \<open>
  The search in the first \<open>slen\<close> characters: the result and the number of places that were compared. The last place is counted
  in 64 bits; a text that is shorter than the pattern is read behind its end.
\<close>

function strstrLoop :: "u8 list \<Rightarrow> u8 list \<Rightarrow> (u8 \<Rightarrow> u8) \<Rightarrow> nat \<Rightarrow> nat \<Rightarrow> nat \<Rightarrow> (int \<times> nat) res" where
  "strstrLoop s t bad limit shift count =
     (if shift \<le> limit then
        case scanBack s t shift (nat (toInt (length t - 1) + 1)) of
          Inl e \<Rightarrow> Inl e
        | Inr notmatch \<Rightarrow>
            if notmatch < 0 then Inr (toInt shift, count + 1)
            else strstrLoop s t bad limit (shift + nat (max 1 (notmatch - sint (bad (s ! (shift + nat notmatch)))))) (count + 1)
      else Inr (-1, count))"
  by pat_completeness auto

termination by (relation "measure (\<lambda>(s, t, bad, limit, shift, count). Suc limit - shift)") auto

declare strstrLoop.simps [simp del]

definition GrepAPP_strstr :: "(u8 \<Rightarrow> u8) \<Rightarrow> u8 list \<Rightarrow> nat \<Rightarrow> u8 list \<Rightarrow> (int \<times> nat) res" where
  "GrepAPP_strstr bad s slen t =
     (if t = [] then Inr (0, 1)
      else strstrLoop s t bad (if length t \<le> slen then slen - length t else 2 ^ 64 + slen - length t) 0 0)"

text \<open>The rest of the line behind a place: the character is read before the place is compared with the end.\<close>

function lineEnd :: "u8 list \<Rightarrow> nat \<Rightarrow> nat \<Rightarrow> nat res" where
  "lineEnd src slen i =
     (if i < length src then if src ! i \<noteq> 10 \<and> i < slen then lineEnd src slen (i + 1) else Inr i
      else Inl (Undefined ''read behind the text''))"
  by pat_completeness auto

termination by (relation "measure (\<lambda>(src, slen, i). length src - i)") auto

declare lineEnd.simps [simp del]

fun lineBegin :: "u8 list \<Rightarrow> nat \<Rightarrow> nat" where
  "lineBegin src 0 = 0"
| "lineBegin src (Suc i) = (if src ! i \<noteq> 10 then lineBegin src i else Suc i)"

text \<open>
  The line of the first match: a status or the line. The source does not ask whether there was a match, and
  copies from before the text when there was none.
\<close>

definition GrepAPP_grep :: "u8 list \<Rightarrow> nat \<Rightarrow> u8 list \<Rightarrow> (int + u8 list) res" where
  "GrepAPP_grep src slen pat =
     (if slen < length pat then Inr (Inl ISC_STS_EARGS)
      else case GrepAPP_strstr (badChars pat) src slen pat of
             Inl e \<Rightarrow> Inl e
           | Inr (ofs, count) \<Rightarrow>
               if ofs < 0 then Inl (Undefined ''read before the text'')
               else bindR (lineEnd src slen (nat ofs + length pat)) (\<lambda>e.
                 let b = lineBegin src (nat ofs) in Inr (Inr (take (e - b) (drop b src)))))"

section \<open>Numbers\<close>

definition MIN_bits :: "'a::len word \<Rightarrow> 'a word \<Rightarrow> 'a word" where
  "MIN_bits a b = b XOR ((a XOR b) AND (if sint a < sint b then - 1 else 0))"

definition MAX_bits :: "'a::len word \<Rightarrow> 'a word \<Rightarrow> 'a word" where
  "MAX_bits a b = b XOR ((a XOR b) AND (if sint a > sint b then - 1 else 0))"

record stats32 =
  s32Sum :: u64
  s32Min :: u32
  s32Max :: u32

definition Stats32_sum :: "u32 list \<Rightarrow> stats32 \<Rightarrow> stats32" where
  "Stats32_sum src res = fold (\<lambda>x r. \<lparr>s32Sum = s32Sum r + scast x, s32Min = MIN_bits (s32Min r) x, s32Max = MAX_bits (s32Max r) x\<rparr>) src res"

record stats64 =
  s64Sum :: u64
  s64Min :: u64
  s64Max :: u64

definition Stats64_sum :: "u64 list \<Rightarrow> stats64 \<Rightarrow> stats64" where
  "Stats64_sum src res = fold (\<lambda>x r. \<lparr>s64Sum = s64Sum r + x, s64Min = MIN_bits (s64Min r) x, s64Max = MAX_bits (s64Max r) x\<rparr>) src res"

text \<open>The numbers of a file, the lowest byte first.\<close>

definition numberAt :: "nat \<Rightarrow> u8 list \<Rightarrow> nat \<Rightarrow> u64" where
  "numberAt w buf i = leWord (take w (drop (w * i) buf))"

definition stats32Task :: "u8 list \<Rightarrow> nat \<Rightarrow> (int + stats32) res" where
  "stats32Task buf bytes =
     (let count = bytes div 4
      in if 4 * count > length buf then Inl (Undefined ''read behind the file'')
         else Inr (Inr (Stats32_sum (map (\<lambda>i. ucast (numberAt 4 buf i)) [0..<count]) \<lparr>s32Sum = 0, s32Min = 0, s32Max = 0\<rparr>)))"

definition stats64Task :: "u8 list \<Rightarrow> nat \<Rightarrow> (int + stats64) res" where
  "stats64Task buf bytes =
     (let count = bytes div 8
      in if 8 * count > length buf then Inl (Undefined ''read behind the file'')
         else Inr (Inr (Stats64_sum (map (numberAt 8 buf) [0..<count]) \<lparr>s64Sum = 0, s64Min = 0, s64Max = 0\<rparr>)))"

text \<open>The size of a file reaches the hash in 32 bits.\<close>

definition md5Task :: "u8 list \<Rightarrow> u8 list \<Rightarrow> nat \<Rightarrow> (int + u8 list) res" where
  "md5Task garbage buf bytes =
     (let inSz = unat (of_nat bytes :: u32)
      in if inSz > length buf then Inl (Undefined ''read behind the file'')
         else bindR (md5sum garbage (take inSz buf)) (\<lambda>h. Inr (Inr h)))"

text \<open>When the search is refused, the length of the line is not set but used.\<close>

definition grepTask :: "u8 list \<Rightarrow> u8 list \<Rightarrow> nat \<Rightarrow> (int + u8 list) res" where
  "grepTask pat buf bytes =
     bindR (GrepAPP_grep buf bytes pat) (\<lambda>r. case r of Inl sts \<Rightarrow> Inl (Undefined ''length without a value'') | Inr line \<Rightarrow> Inr (Inr line))"

text \<open>
  The slets on the files of a request that brings the extents and sizes of its files. The first
  file is always read, unless the path of the request is a directory.
\<close>

definition requestFiles :: "bool \<Rightarrow> nat \<Rightarrow> isc_ext list \<Rightarrow> nat list \<Rightarrow> (isc_ext list \<times> nat) list res" where
  "requestFiles isdir numFiles exts fileSizes =
     bindR (splitExts numFiles exts) (\<lambda>fs. if length fileSizes < numFiles then Inl (Undefined ''read behind the sizes'')
         else if numFiles = 0 \<and> \<not> isdir then Inl (Undefined ''read behind the files'')
         else Inr (zip fs fileSizes))"

definition Stats32_startup :: "bool \<Rightarrow> image \<Rightarrow> nat \<Rightarrow> isc_ext list \<Rightarrow> nat list \<Rightarrow> (int + stats32 list) res" where
  "Stats32_startup isdir img numFiles exts fileSizes = bindR (requestFiles isdir numFiles exts fileSizes) (runFiles img stats32Task)"

definition Stats64_startup :: "bool \<Rightarrow> image \<Rightarrow> nat \<Rightarrow> isc_ext list \<Rightarrow> nat list \<Rightarrow> (int + stats64 list) res" where
  "Stats64_startup isdir img numFiles exts fileSizes = bindR (requestFiles isdir numFiles exts fileSizes) (runFiles img stats64Task)"

definition MD5APP_startup :: "bool \<Rightarrow> u8 list \<Rightarrow> image \<Rightarrow> nat \<Rightarrow> isc_ext list \<Rightarrow> nat list \<Rightarrow> (int + u8 list list) res" where
  "MD5APP_startup isdir garbage img numFiles exts fileSizes = bindR (requestFiles isdir numFiles exts fileSizes) (runFiles img (md5Task garbage))"

definition GrepAPP_startup :: "bool \<Rightarrow> u8 list \<Rightarrow> image \<Rightarrow> nat \<Rightarrow> isc_ext list \<Rightarrow> nat list \<Rightarrow> (int + u8 list list) res" where
  "GrepAPP_startup isdir pat img numFiles exts fileSizes = bindR (requestFiles isdir numFiles exts fileSizes) (runFiles img (grepTask pat))"

end
