(* ===== verification/Isc_Inv.thy ===== *)
theory Isc_Inv
  imports SletTasks
begin

text \<open>The lemmas on in-storage computing: options, the data of extents, the search, and numbers.\<close>

section \<open>Options\<close>

lemma getOpt_setOpt:
  assumes "soExtra o1 ''name'' = None" "soExtra o1 ''cwd'' = None"
  shows "GenericSlet_getOpt k (GenericSlet_setOpt key v o1) = (if k = key then v else GenericSlet_getOpt k o1)"
    "soExtra (GenericSlet_setOpt key v o1) ''name'' = None" "soExtra (GenericSlet_setOpt key v o1) ''cwd'' = None"
  using assms by (auto simp: GenericSlet_getOpt_def GenericSlet_setOpt_def Let_def split: option.splits)

definition sletIds :: "'s isc_runtime \<Rightarrow> int list" where
  "sletIds R = map fst (lSlet R)"

definition runtime_inv :: "'s isc_runtime \<Rightarrow> bool" where
  "runtime_inv R \<longleftrightarrow> distinct (sletIds R) \<and> (\<forall>k\<in>set (sletIds R). 0 < k \<and> k \<le> nextSletId R) \<and> 0 \<le> nextSletId R"

lemma map_fst_updSlet: "map fst (updSlet k x ys) = map fst ys"
  by (induction ys) auto

lemma find_updSlet: "List.find (\<lambda>y. fst y = j) (updSlet k x ys) =
    (if j = k then map_option (\<lambda>y. (k, x)) (List.find (\<lambda>y. fst y = k) ys) else List.find (\<lambda>y. fst y = j) ys)"
  by (induction ys) auto

lemma sletIds_ops:
  "sletIds (snd (addSlet fsa x R)) = sletIds R @ (if fsa then [] else [nextSletId R + 1])"
  "nextSletId (snd (addSlet fsa x R)) = nextSletId R + (if fsa then 0 else 1)"
  "sletIds (snd (delSlet k R)) = filter (\<lambda>j. j \<noteq> k) (sletIds R)" "nextSletId (snd (delSlet k R)) = nextSletId R"
  "sletIds (snd (startSlet f k R)) = sletIds R" "nextSletId (snd (startSlet f k R)) = nextSletId R"
  by (simp_all add: sletIds_def addSlet_def Let_def delSlet_def startSlet_def map_fst_updSlet filter_map comp_def split: option.splits prod.splits)

lemma runtime_inv_ops:
  assumes "runtime_inv R"
  shows "runtime_inv (snd (addSlet fsa x R))" "runtime_inv (snd (delSlet k R))" "runtime_inv (snd (startSlet f k R))" "runtime_inv (destory R)"
  using assms by (auto simp: runtime_inv_def sletIds_ops) (auto simp: destory_def sletIds_def)

lemma runtime_setOpt:
  assumes "findSlet k R = Some x" "soExtra x ''name'' = None" "soExtra x ''cwd'' = None"
  shows "Runtime_getOpt j key' (snd (Runtime_setOpt k key v R)) = (if j = k \<and> key' = key then v else Runtime_getOpt j key' R)"
  using assms getOpt_setOpt [OF assms(2,3)]
  by (auto simp: Runtime_getOpt_def Runtime_setOpt_def findSlet_def find_updSlet)

section \<open>Extents\<close>

definition extBytes :: "image \<Rightarrow> isc_ext \<Rightarrow> u8 list" where
  "extBytes img e = FTL_readImage img (exSlbn e * BLK_SIZE) (exLen e * BLK_SIZE)"

definition fileBytes :: "image \<Rightarrow> isc_ext list \<Rightarrow> u8 list" where
  "fileBytes img es = concat (map (extBytes img) es)"

lemma length_extBytes [simp]: "length (extBytes img e) = exLen e * BLK_SIZE"
  by (simp add: extBytes_def FTL_readImage_def)

lemma length_fileBytes [simp]: "length (fileBytes img es) = extSize es"
  by (induction es) (simp_all add: fileBytes_def extSize_def)

lemma fileBytes_Cons: "fileBytes img (e # es) = extBytes img e @ fileBytes img es"
  by (simp add: fileBytes_def)

lemma extSize_Cons: "extSize (e # es) = exLen e * BLK_SIZE + extSize es"
  by (simp add: extSize_def)

lemma readLoop_from:
  "ofs + extSize es \<le> length buf \<Longrightarrow>
    snd (fold (\<lambda>e (ofs, buf). (ofs + exLen e * BLK_SIZE, bufCopy buf ofs (FTL_readImage img (exSlbn e * BLK_SIZE) (exLen e * BLK_SIZE)))) es (ofs, buf)) =
      take ofs buf @ fileBytes img es @ drop (ofs + extSize es) buf"
proof (induction es arbitrary: ofs buf)
  case Nil
  then show ?case by (simp add: fileBytes_def extSize_def)
next
  case (Cons e es)
  let ?buf = "bufCopy buf ofs (extBytes img e)" and ?n = "exLen e * BLK_SIZE"
  have b: "length ?buf = length buf" "take (ofs + ?n) ?buf = take ofs buf @ extBytes img e"
      "drop (ofs + ?n + extSize es) ?buf = drop (ofs + ?n + extSize es) buf"
    using Cons.prems by (simp_all add: bufCopy_def extSize_Cons add.commute [of "extSize es"])
  show ?case
    using Cons.IH [of "ofs + ?n" ?buf] Cons.prems b
    by (simp add: extBytes_def [symmetric] fileBytes_Cons extSize_Cons add.assoc)
qed

lemma SeqRead_file: "SeqRead img es = fileBytes img es"
  by (simp add: SeqRead_def readLoop_def readLoop_from)

lemma readFile_file:
  assumes "extSize es < 2 ^ 31"
  shows "readFile img es = Inr (Inr (fileBytes img es))"
proof -
  have "sint (of_nat (extSize es) :: u32) = int (extSize es)"
    using assms by (simp add: signed_of_nat signed_take_bit_int_eq_self)
  then show ?thesis by (simp add: readFile_def Let_def readLoop_def readLoop_from)
qed

text \<open>The directory reader loses data when an extent has more than one block.\<close>

lemma listdir_overwrites:
  assumes "exLen e1 = 2" "exLen e2 = 1"
  shows "listdirRead img [e1, e2] = take BLK_SIZE (extBytes img e1) @ extBytes img e2 @ replicate BLK_SIZE 0"
  using assms by (simp add: listdirRead_def extSize_def extBytes_def [symmetric] bufCopy_def)

lemma seekExt_file:
  "off < extSize es \<Longrightarrow> \<exists>dist es'. seekExt es off = Inr (dist, es') \<and> drop off (fileBytes img es) = drop dist (fileBytes img es') \<and>
     es' \<noteq> [] \<and> dist < exLen (hd es') * BLK_SIZE"
proof (induction es arbitrary: off)
  case (Cons e es)
  show ?case
  proof (cases "off \<ge> exLen e * BLK_SIZE")
    case True
    then obtain dist es' where "seekExt es (off - exLen e * BLK_SIZE) = Inr (dist, es')"
        "drop (off - exLen e * BLK_SIZE) (fileBytes img es) = drop dist (fileBytes img es')" "es' \<noteq> []" "dist < exLen (hd es') * BLK_SIZE"
    proof -
      have "off - exLen e * BLK_SIZE < extSize es" using Cons.prems True unfolding extSize_Cons by linarith
      from Cons.IH [OF this] that show ?thesis by blast
    qed
    then show ?thesis using True by (auto simp: fileBytes_Cons)
  qed auto
qed (simp add: extSize_def)

lemma gatherExt_file:
  "dist + want \<le> extSize es \<Longrightarrow> es = [] \<or> dist \<le> exLen (hd es) * BLK_SIZE \<Longrightarrow>
     gatherExt img es dist want = Inr (take want (drop dist (fileBytes img es)))"
proof (induction es arbitrary: dist want)
  case (Cons e es)
  let ?n = "exLen e * BLK_SIZE"
  have bs: "FTL_readImage img (exSlbn e * BLK_SIZE + dist) (min (?n - dist) want) = take want (drop dist (extBytes img e))"
    using Cons.prems(2) by (simp add: FTL_readImage_def extBytes_def drop_map take_map) (auto simp: min_def)
  show ?case
  proof (cases "want \<le> ?n - dist")
    case True
    then have "min (?n - dist) want = want" by simp
    then show ?thesis using bs Cons.prems True by (simp add: fileBytes_Cons Let_def)
  next
    case False
    then have "gatherExt img es 0 (want - (?n - dist)) = Inr (take (want - (?n - dist)) (drop 0 (fileBytes img es)))"
      using Cons.prems by (intro Cons.IH) (auto simp: extSize_Cons)
    moreover have "min (?n - dist) want = ?n - dist" using False by simp
    ultimately show ?thesis using bs False Cons.prems by (simp add: fileBytes_Cons Let_def bindR_def)
  qed
qed (simp add: extSize_def)

lemma RandRead_pieces:
  assumes "list_all (\<lambda>off. off + sz \<le> extSize es) offsets" "0 < sz" "length out + length offsets * sz \<le> szTotal"
  shows "foldR (\<lambda>off out. bindR (seekExt es off) (\<lambda>(dist, es). bindR (gatherExt img es dist sz) (\<lambda>bs.
      if length out + length bs > szTotal then Inl (Undefined ''write behind the result'') else Inr (out @ bs)))) offsets out =
    Inr (out @ concat (map (\<lambda>off. take sz (drop off (fileBytes img es))) offsets))"
  using assms(1,3)
proof (induction offsets arbitrary: out)
  case (Cons off offsets)
  obtain dist es' where s: "seekExt es off = Inr (dist, es')" "drop off (fileBytes img es) = drop dist (fileBytes img es')"
      "es' \<noteq> []" "dist < exLen (hd es') * BLK_SIZE"
    using seekExt_file [of off es img] Cons.prems assms(2) by auto
  have "extSize es - off = extSize es' - dist"
    using arg_cong [OF s(2), of length] by simp
  moreover have fit: "off + sz \<le> extSize es" using Cons.prems by simp
  ultimately have "dist + sz \<le> extSize es'" using assms(2) by linarith
  then have "gatherExt img es' dist sz = Inr (take sz (drop off (fileBytes img es)))"
    using s by (simp add: gatherExt_file)
  moreover have "length (take sz (drop off (fileBytes img es))) = sz" using fit by simp
  ultimately show ?case using Cons s(1) by (simp add: bindR_def)
qed simp

text \<open>The extents of several files in one list.\<close>

definition joinExts :: "isc_ext list list \<Rightarrow> isc_ext list" where
  "joinExts fs = concat (map (\<lambda>es. es @ [\<lparr>exBlock = - 1, exSlbn = 0, exLen = 0\<rparr>]) fs)"

lemma splitExts_join:
  assumes "list_all (list_all (\<lambda>e. exBlock e \<noteq> - 1)) fs"
  shows "splitExts (length fs) (joinExts fs) = Inr fs"
  using assms
proof (induction fs)
  case (Cons es fs)
  then have "dropWhile (\<lambda>e. exBlock e \<noteq> - 1) (joinExts (es # fs)) = \<lparr>exBlock = - 1, exSlbn = 0, exLen = 0\<rparr> # joinExts fs"
    "takeWhile (\<lambda>e. exBlock e \<noteq> - 1) (joinExts (es # fs)) = es"
    by (auto simp: joinExts_def list_all_iff)
  then show ?case using Cons by (simp add: bindR_def)
qed (simp add: joinExts_def)

lemma runFiles_all:
  assumes "list_all (\<lambda>(es, n). extSize es < 2 ^ 31 \<and> task (fileBytes img es) n = Inr (Inr (result (fileBytes img es) n))) fs"
  shows "runFiles img task fs = Inr (Inr (map (\<lambda>(es, n). result (fileBytes img es) n) fs))"
  using assms by (induction fs) (auto simp: readFile_file bindR_def)

section \<open>Searching\<close>

definition occursAt :: "u8 list \<Rightarrow> u8 list \<Rightarrow> nat \<Rightarrow> bool" where
  "occursAt s t i \<longleftrightarrow> take (length t) (drop i s) = t"

lemma occursAt_iff: "i + length t \<le> length s \<Longrightarrow> occursAt s t i \<longleftrightarrow> (\<forall>k<length t. s ! (i + k) = t ! k)"
  by (auto simp: occursAt_def list_eq_iff_nth_eq)

lemma charEq_ascii: "unat t < 128 \<Longrightarrow> charEq t s \<longleftrightarrow> t = s"
proof -
  assume "unat t < 128"
  then have "uint t < 128" by (simp only: uint_nat)
  moreover have "- 128 \<le> uint t" by (rule order_trans [OF _ uint_ge_0]) simp
  ultimately have "sint t = uint t" by (simp add: sint_uint signed_take_bit_int_eq_self)
  then show ?thesis by (simp add: charEq_def word_uint_eq_iff)
qed

lemma scanBack_result:
  assumes "list_all (\<lambda>c. unat c < 128) t" "shift + length t \<le> length s" "n \<le> length t"
  shows "(scanBack s t shift n = Inr (-1) \<and> (\<forall>k<n. s ! (shift + k) = t ! k)) \<or>
    (\<exists>k<n. scanBack s t shift n = Inr (int k) \<and> s ! (shift + k) \<noteq> t ! k)"
  using assms(3)
proof (induction n)
  case (Suc n)
  then have "charEq (t ! n) (s ! (shift + n)) \<longleftrightarrow> t ! n = s ! (shift + n)"
    using assms(1) by (intro charEq_ascii) (auto simp: list_all_length)
  then show ?case using Suc assms(2) by (auto simp: less_Suc_eq)
qed simp

text \<open>The table has at least the last place of a character in the pattern.\<close>

lemma badChars_ge:
  assumes "length pat \<le> 128" "j < length pat"
  shows "int j \<le> sint (badChars pat (pat ! j))"
proof -
  have "\<forall>j<n. int j \<le> sint (foldl (\<lambda>bad i. bad(pat ! i := of_nat i)) (\<lambda>c. 0xff) [0..<n] (pat ! j) :: u8)" if "n \<le> 128" for n
    using that
  proof (induction n)
    case (Suc n)
    have "sint (of_nat n :: u8) = int n" using Suc.prems by (simp add: signed_of_nat signed_take_bit_int_eq_self)
    then show ?case using Suc by (auto simp: less_Suc_eq)
  qed simp
  then show ?thesis using assms by (simp add: badChars_def)
qed

lemma badChars_lower:
  assumes "length pat \<le> 128"
  shows "-1 \<le> sint (badChars pat c)"
proof -
  have "-1 \<le> sint (foldl (\<lambda>bad i. bad(pat ! i := of_nat i)) (\<lambda>c. 0xff) [0..<n] c :: u8)" if "n \<le> 128" for n
    using that
  proof (induction n)
    case (Suc n)
    have "sint (of_nat n :: u8) = int n" using Suc.prems by (simp add: signed_of_nat signed_take_bit_int_eq_self)
    then show ?case using Suc by auto
  qed simp
  then show ?thesis using assms by (simp add: badChars_def)
qed

text \<open>No match is skipped: the character that differs is no later in the pattern than the table says.\<close>

lemma shift_safe:
  assumes "length t \<le> 128" "k < length t" "s ! (shift + k) \<noteq> t ! k" "i + length t \<le> length s"
    "shift \<le> i" "i < shift + nat (max 1 (int k - sint (badChars t (s ! (shift + k)))))"
  shows "\<not> occursAt s t i"
proof
  assume "occursAt s t i"
  then have occ: "\<forall>j<length t. s ! (i + j) = t ! j" using assms(4) by (simp add: occursAt_iff)
  let ?b = "sint (badChars t (s ! (shift + k)))"
  show False
  proof (cases "i = shift")
    case True
    then show ?thesis using occ assms(2,3) by auto
  next
    case False
    then have e: "int (i - shift) < int k - ?b" using assms(5,6) by linarith
    then have le: "i - shift \<le> k" using badChars_lower [OF assms(1), of "s ! (shift + k)"] by linarith
    let ?j = "k - (i - shift)"
    have "?j < length t" "i + ?j = shift + k" using le assms(2,5) by auto
    then have "s ! (shift + k) = t ! ?j" using occ by metis
    then have "int ?j \<le> ?b" using badChars_ge [OF assms(1) \<open>?j < length t\<close>] by simp
    then show ?thesis using e le by linarith
  qed
qed

definition firstMatch :: "u8 list \<Rightarrow> nat \<Rightarrow> u8 list \<Rightarrow> int" where
  "firstMatch s slen t = (case List.find (occursAt s t) [0..<Suc (slen - length t)] of Some i \<Rightarrow> int i | None \<Rightarrow> -1)"

lemma find_upt:
  assumes "\<forall>i<a. \<not> P i" "a \<le> b" "P a"
  shows "List.find P [0..<Suc b] = Some a"
  using assms by (auto simp: find_Some_iff nth_append simp del: upt_Suc intro!: exI [of _ a])

lemma strstrLoop_first:
  assumes t: "t \<noteq> []" "list_all (\<lambda>c. unat c < 128) t" "length t \<le> 128"
    and s: "length t \<le> slen" "slen \<le> length s" "slen < 2 ^ 31"
  shows "\<forall>i. i < shift \<and> i \<le> slen - length t \<longrightarrow> \<not> occursAt s t i \<Longrightarrow>
    \<exists>c. strstrLoop s t (badChars t) (slen - length t) shift count = Inr (firstMatch s slen t, c)"
proof (induction "Suc (slen - length t) - shift" arbitrary: shift count rule: less_induct)
  case less
  let ?limit = "slen - length t"
  show ?case
  proof (cases "shift \<le> ?limit")
    case False
    then have "List.find (occursAt s t) [0..<Suc ?limit] = None" using less.prems by (auto simp: find_None_iff)
    then show ?thesis using False by (simp add: strstrLoop.simps firstMatch_def)
  next
    case True
    have "toInt (length t - 1) = int (length t - 1)"
      using t(3) by (simp add: toInt_def signed_of_nat signed_take_bit_int_eq_self)
    then have m: "nat (toInt (length t - 1) + 1) = length t" using t(1) by (cases t) simp_all
    have fits: "shift + length t \<le> length s" using True s by simp
    consider (match) "scanBack s t shift (length t) = Inr (-1)" "\<forall>k<length t. s ! (shift + k) = t ! k"
      | (differ) k where "k < length t" "scanBack s t shift (length t) = Inr (int k)" "s ! (shift + k) \<noteq> t ! k"
      using scanBack_result [OF t(2) fits order_refl] by blast
    then show ?thesis
    proof cases
      case match
      then have "occursAt s t shift" using fits by (simp add: occursAt_iff)
      then have "List.find (occursAt s t) [0..<Suc ?limit] = Some shift" using less.prems True by (intro find_upt) auto
      moreover have "toInt shift = int shift"
        using True s(3) by (simp add: toInt_def signed_of_nat signed_take_bit_int_eq_self)
      ultimately show ?thesis using match True m by (simp add: strstrLoop.simps firstMatch_def)
    next
      case differ
      let ?d = "nat (max 1 (int k - sint (badChars t (s ! (shift + k)))))"
      have "\<not> occursAt s t i" if "i < shift + ?d" "i \<le> ?limit" for i
      proof (cases "i < shift")
        case True
        then show ?thesis using less.prems that by blast
      next
        case False
        then show ?thesis using shift_safe [OF t(3) differ(1,3), of i] that s by simp
      qed
      moreover have "Suc ?limit - (shift + ?d) < Suc ?limit - shift" using True by linarith
      ultimately have "\<exists>c. strstrLoop s t (badChars t) ?limit (shift + ?d) (count + 1) = Inr (firstMatch s slen t, c)"
        using less.hyps [of "shift + ?d" "count + 1"] by blast
      then show ?thesis using True m differ(2) by (subst strstrLoop.simps) simp
    qed
  qed
qed

lemma strstr_first:
  assumes "t \<noteq> []" "list_all (\<lambda>c. unat c < 128) t" "length t \<le> 128" "length t \<le> slen" "slen \<le> length s" "slen < 2 ^ 31"
  shows "\<exists>c. GrepAPP_strstr (badChars t) s slen t = Inr (firstMatch s slen t, c)"
  using strstrLoop_first [OF assms, of 0 0] assms(1,4) by (simp add: GrepAPP_strstr_def)

text \<open>The line around a place.\<close>

lemma lineBegin_spec: "lineBegin src i = i - length (takeWhile (\<lambda>c. c \<noteq> 10) (rev (take i src)))" if "i \<le> length src"
  using that
proof (induction i)
  case (Suc i)
  then have "rev (take (Suc i) src) = src ! i # rev (take i src)" by (simp add: take_Suc_conv_app_nth)
  then show ?case using Suc by simp
qed simp

lemma lineEnd_spec:
  assumes "slen < length src" "i \<le> slen"
  shows "lineEnd src slen i = Inr (i + length (takeWhile (\<lambda>c. c \<noteq> 10) (drop i (take slen src))))"
  using assms
proof (induction src slen i rule: lineEnd.induct)
  case (1 src slen i)
  show ?case
  proof (cases "i < slen")
    case True
    then have "drop i (take slen src) = src ! i # drop (i + 1) (take slen src)"
      using "1.prems" Cons_nth_drop_Suc [of i "take slen src"] by simp
    then show ?thesis using 1 True by (subst lineEnd.simps) simp
  next
    case False
    then show ?thesis using "1.prems" by (subst lineEnd.simps) simp
  qed
qed

definition lineAround :: "u8 list \<Rightarrow> nat \<Rightarrow> nat \<Rightarrow> u8 list" where
  "lineAround src i n = rev (takeWhile (\<lambda>c. c \<noteq> 10) (rev (take i src))) @ take n (drop i src) @ takeWhile (\<lambda>c. c \<noteq> 10) (drop (i + n) src)"

lemma take_takeWhile: "take (length (takeWhile P xs)) xs = takeWhile P xs"
  by (metis takeWhile_eq_take)

lemma drop_lineBegin:
  assumes "i \<le> length src"
  shows "take (i - lineBegin src i) (drop (lineBegin src i) src) = rev (takeWhile (\<lambda>c. c \<noteq> 10) (rev (take i src)))"
proof -
  let ?w = "takeWhile (\<lambda>c. c \<noteq> 10) (rev (take i src))"
  have l: "length ?w \<le> i" using length_takeWhile_le [of "\<lambda>c. c \<noteq> 10" "rev (take i src)"] assms by simp
  have "take (i - lineBegin src i) (drop (lineBegin src i) src) = drop (i - length ?w) (take i src)"
    unfolding lineBegin_spec [OF assms] using l by (simp add: take_drop)
  also have "\<dots> = rev (take (length ?w) (rev (take i src)))"
    using assms take_rev [of "length ?w" "take i src"] by (simp add: min_def)
  finally show ?thesis unfolding take_takeWhile .
qed

lemma grep_line:
  assumes "t \<noteq> []" "list_all (\<lambda>c. unat c < 128) t" "length t \<le> 128" "length t \<le> slen" "slen < length src" "slen < 2 ^ 31"
    "List.find (occursAt src t) [0..<Suc (slen - length t)] = Some i"
  shows "GrepAPP_grep src slen t = Inr (Inr (lineAround (take slen src) i (length t)))"
proof -
  obtain c where c: "GrepAPP_strstr (badChars t) src slen t = Inr (int i, c)"
    using strstr_first [of t slen src] assms by (auto simp: firstMatch_def)
  have i: "i + length t \<le> slen" using assms(4,7) by (auto simp: find_Some_iff simp del: upt_Suc)
  let ?b = "lineBegin src i" and ?w = "takeWhile (\<lambda>c. c \<noteq> 10) (drop (i + length t) (take slen src))"
  have b: "?b \<le> i" using i assms(5) by (simp add: lineBegin_spec)
  have "take (i + length t + length ?w - ?b) (drop ?b src) = take (i - ?b) (drop ?b src) @ take (length t) (drop i src) @ take (length ?w) (drop (i + length t) src)"
  proof -
    have "i + length t + length ?w - ?b = (i - ?b) + (length t + length ?w)" using b by simp
    then show ?thesis using b by (simp only: take_add drop_drop) (simp add: add.commute)
  qed
  also have "take (length ?w) (drop (i + length t) src) = ?w"
  proof -
    have "length ?w \<le> slen - (i + length t)"
      using length_takeWhile_le [of "\<lambda>c. c \<noteq> 10" "drop (i + length t) (take slen src)"] assms(5) by simp
    then have "take (length ?w) (drop (i + length t) src) = take (length ?w) (drop (i + length t) (take slen src))"
      by (simp only: drop_take take_take min.absorb1)
    then show ?thesis by (simp only: take_takeWhile)
  qed
  finally show ?thesis
    using c i assms(4,5) drop_lineBegin [of i src] lineEnd_spec [OF assms(5) i]
    by (simp add: GrepAPP_grep_def lineAround_def Let_def bindR_def min_def take_drop)
qed

section \<open>Numbers\<close>

lemma MIN_MAX_bits: "MIN_bits a b = (if sint a < sint b then a else b)" "MAX_bits a b = (if sint a > sint b then a else b)"
  by (simp_all add: MIN_bits_def MAX_bits_def xor.left_commute [of b a b])

lemma sint_MIN_MAX: "sint (MIN_bits a b) = min (sint a) (sint b)" "sint (MAX_bits a b) = max (sint a) (sint b)"
  by (auto simp: MIN_MAX_bits)

lemma fold_min_max:
  fixes a :: int
  shows "fold min xs a = Min (insert a (set xs))" "fold max xs a = Max (insert a (set xs))"
proof -
  show "fold min xs a = Min (insert a (set xs))"
    using Min.set_eq_fold [of a xs] by simp
  show "fold max xs a = Max (insert a (set xs))"
    using Max.set_eq_fold [of a xs] by simp
qed

lemma Stats32_sum_all:
  "s32Sum (Stats32_sum src r) = s32Sum r + of_int (\<Sum>x\<leftarrow>src. sint x)"
  "sint (s32Min (Stats32_sum src r)) = Min (insert (sint (s32Min r)) (set (map sint src)))"
  "sint (s32Max (Stats32_sum src r)) = Max (insert (sint (s32Max r)) (set (map sint src)))"
proof -
  show "s32Sum (Stats32_sum src r) = s32Sum r + of_int (\<Sum>x\<leftarrow>src. sint x)"
    unfolding Stats32_sum_def by (induction src arbitrary: r) (simp_all add: add.assoc)
  have "sint (s32Min (Stats32_sum src r)) = fold min (map sint src) (sint (s32Min r))"
    unfolding Stats32_sum_def by (induction src arbitrary: r) (simp_all add: sint_MIN_MAX min.commute)
  then show "sint (s32Min (Stats32_sum src r)) = Min (insert (sint (s32Min r)) (set (map sint src)))"
    by (simp only: fold_min_max)
  have "sint (s32Max (Stats32_sum src r)) = fold max (map sint src) (sint (s32Max r))"
    unfolding Stats32_sum_def by (induction src arbitrary: r) (simp_all add: sint_MIN_MAX max.commute)
  then show "sint (s32Max (Stats32_sum src r)) = Max (insert (sint (s32Max r)) (set (map sint src)))"
    by (simp only: fold_min_max)
qed

text \<open>The result starts with zeros: the least of numbers that are all positive is reported as zero.\<close>

lemma stats32_least_zero: "list_all (\<lambda>x. 0 < sint x) src \<Longrightarrow> s32Min (Stats32_sum src \<lparr>s32Sum = 0, s32Min = 0, s32Max = 0\<rparr>) = 0"
proof -
  assume "list_all (\<lambda>x. 0 < sint x) src"
  then have "sint (s32Min (Stats32_sum src \<lparr>s32Sum = 0, s32Min = 0, s32Max = 0\<rparr>)) = 0"
    unfolding Stats32_sum_all by (intro Min_eqI) (auto simp: list_all_iff)
  then show ?thesis by (intro signed_word_eqI) simp
qed

section \<open>Requests\<close>

lemma requestFiles_join:
  assumes "list_all (\<lambda>(es, n). list_all (\<lambda>e. exBlock e \<noteq> - 1) es) fs" "fs \<noteq> [] \<or> isdir"
  shows "requestFiles isdir (length fs) (joinExts (map fst fs)) (map snd fs) = Inr fs"
proof -
  have "list_all (list_all (\<lambda>e. exBlock e \<noteq> - 1)) (map fst fs)" using assms(1) by (auto simp: list_all_iff)
  from splitExts_join [OF this] assms(2) show ?thesis by (auto simp: requestFiles_def bindR_def zip_map_fst_snd)
qed

lemma md5_files:
  assumes "length garbage = 64"
    "list_all (\<lambda>(es, n). list_all (\<lambda>e. exBlock e \<noteq> - 1) es \<and> n \<le> extSize es \<and> extSize es < 2 ^ 31) fs" "fs \<noteq> [] \<or> isdir"
  shows "MD5APP_startup isdir garbage img (length fs) (joinExts (map fst fs)) (map snd fs) =
    Inr (Inr (map (\<lambda>(es, n). md5Digest (take n (fileBytes img es))) fs))"
proof -
  have task: "md5Task garbage (fileBytes img es) n = Inr (Inr (md5Digest (take n (fileBytes img es))))"
    if "n \<le> extSize es" "extSize es < 2 ^ 31" for es n
  proof -
    have "unat (of_nat n :: u32) = n" using that by (simp add: unat_of_nat take_bit_nat_eq_self)
    then show ?thesis using that assms(1) by (simp add: md5Task_def md5sum_digest bindR_def)
  qed
  have "runFiles img (md5Task garbage) fs = Inr (Inr (map (\<lambda>(es, n). md5Digest (take n (fileBytes img es))) fs))"
    using assms(2) task by (intro runFiles_all [where result = "\<lambda>b n. md5Digest (take n b)"]) (auto simp: list_all_iff)
  moreover have "requestFiles isdir (length fs) (joinExts (map fst fs)) (map snd fs) = Inr fs"
    using assms(2,3) by (intro requestFiles_join) (auto simp: list_all_iff)
  ultimately show ?thesis by (simp add: MD5APP_startup_def bindR_def)
qed

end
