(* ===== verification/B64.thy ===== *)
theory B64
  imports NvmeIdentify
begin

text \<open>
  The base64 coder of \<^verbatim>\<open>util/b64.cc\<close>, which carries the data of in-storage computing requests, and
  its round trip. Characters are bytes; memory is always available.
\<close>

section \<open>Tables\<close>

definition B64MAP :: "u8 list" where
  "B64MAP = charBytes ''ABCDEFGHIJKLMNOPQRSTUVWXYZabcdefghijklmnopqrstuvwxyz0123456789+/''"

definition B64UNMAP :: "u8 list" where
  "B64UNMAP = replicate 43 255 @ [62] @ replicate 3 255 @ [63] @ map of_nat [52..<62] @ replicate 7 255 @
     map of_nat [0..<26] @ replicate 6 255 @ map of_nat [26..<52]"

definition b64Pad :: u8 where "b64Pad = of_char (CHR ''='')"

section \<open>Coding\<close>

text \<open>The union of four bytes and a word, the lowest byte first.\<close>

definition in32 :: "u8 \<Rightarrow> u8 \<Rightarrow> u8 \<Rightarrow> u32" where
  "in32 b0 b1 b2 = ucast b0 OR push_bit 8 (ucast b1) OR push_bit 16 (ucast b2)"

definition encodeGroup :: "u32 \<Rightarrow> u8 list" where
  "encodeGroup w = [B64MAP ! unat (drop_bit 18 (w AND 0xFC0000) AND 0x3F), B64MAP ! unat (drop_bit 12 (w AND 0x3F000) AND 0x3F),
     B64MAP ! unat (drop_bit 6 (w AND 0xFC0) AND 0x3F), B64MAP ! unat (w AND 0x3F)]"

definition encode :: "u8 list \<Rightarrow> u8 list" where
  "encode xs =
     (let isz = length xs; trailing = isz mod 3; nPad = (if trailing \<noteq> 0 then 3 - trailing else 0);
          groups = isz div 3 + (if trailing \<noteq> 0 then 1 else 0); osz = (isz + nPad) div 3 * 4;
          out = concat (map (\<lambda>g. let io = 3 * g
            in encodeGroup (in32 (if io + 2 \<ge> isz then 0 else xs ! (io + 2)) (if io + 1 \<ge> isz then 0 else xs ! (io + 1)) (xs ! io))) [0..<groups])
      in foldl (\<lambda>out iPad. out[osz - 1 - iPad := b64Pad]) out [0..<nPad])"

definition unmapChar :: "u8 \<Rightarrow> u32 res" where
  "unmapChar c = (if unat c < length B64UNMAP then Inr (ucast (B64UNMAP ! unat c) AND 0x3F) else Inl (Undefined ''read behind B64UNMAP''))"

definition decodeGroup :: "u8 \<Rightarrow> u8 \<Rightarrow> u8 \<Rightarrow> u8 \<Rightarrow> u8 list res" where
  "decodeGroup c0 c1 c2 c3 =
     bindR (unmapChar c0) (\<lambda>v0. bindR (unmapChar c1) (\<lambda>v1. bindR (unmapChar c2) (\<lambda>v2. bindR (unmapChar c3) (\<lambda>v3.
       let w = push_bit 18 v0 OR push_bit 12 v1 OR push_bit 6 v2 OR v3
       in Inr [ucast (drop_bit 16 w), ucast (drop_bit 8 w), ucast w]))))"

text \<open>The buffer that is returned and the size that is reported for it.\<close>

definition decode :: "u8 list \<Rightarrow> (u8 list \<times> u64) res" where
  "decode xs =
     (let isz = length xs
      in bindR (foldR (\<lambda>g out. let io = 4 * g
            in bindR (decodeGroup (xs ! io) (xs ! (io + 1)) (xs ! (io + 2)) (xs ! (io + 3))) (\<lambda>bs. Inr (out @ bs))) [0..<isz div 4] [])
          (\<lambda>out. if isz < 2 then Inl (Undefined ''read before the input'')
            else Inr (out, of_nat (isz div 4 * 3) - (if xs ! (isz - 1) = b64Pad then 1 else 0) - (if xs ! (isz - 2) = b64Pad then 1 else 0))))"

section \<open>Round trip\<close>

lemma length_tables [simp]: "length B64MAP = 64" "length B64UNMAP = 123"
  by (simp_all add: B64MAP_def B64UNMAP_def charBytes_def)

lemma B64MAP_codes: "B64MAP = map of_nat ([65..<91] @ [97..<123] @ [48..<58] @ [43, 47])"
  by (simp add: B64MAP_def charBytes_def upt_rec)

text \<open>Each character is at the place of its value, and no value has the padding character.\<close>

lemma unmap_code:
  assumes "v < 64"
  obtains c where "B64MAP ! v = of_nat c" "c < 123" "B64UNMAP ! c = of_nat v" "c \<noteq> 61"
proof -
  consider "v < 26" | d where "v = 26 + d" "d < 26" | d where "v = 52 + d" "d < 10" | "v = 62" | "v = 63"
    using assms le_Suc_ex [of 26 v] le_Suc_ex [of 52 v] by force
  then show ?thesis
  proof cases
    case 1 then show ?thesis by (intro that [of "65 + v"]) (simp_all add: B64MAP_codes B64UNMAP_def nth_append del: upt_rec_numeral)
  next
    case 2 then show ?thesis by (intro that [of "97 + d"]) (simp_all add: B64MAP_codes B64UNMAP_def nth_append del: upt_rec_numeral)
  next
    case 3 then show ?thesis by (intro that [of "48 + d"]) (simp_all add: B64MAP_codes B64UNMAP_def nth_append del: upt_rec_numeral)
  next
    case 4 then show ?thesis by (intro that [of 43]) (simp_all add: B64MAP_codes B64UNMAP_def nth_append del: upt_rec_numeral)
  next
    case 5 then show ?thesis by (intro that [of 47]) (simp_all add: B64MAP_codes B64UNMAP_def nth_append del: upt_rec_numeral)
  qed
qed

lemma unmap_map:
  fixes v :: u32
  assumes "unat v < 64"
  shows "unmapChar (B64MAP ! unat v) = Inr v" "B64MAP ! unat v \<noteq> b64Pad"
proof -
  obtain c where c: "B64MAP ! unat v = of_nat c" "c < 123" "B64UNMAP ! c = of_nat (unat v)" "c \<noteq> 61"
    using unmap_code [OF assms] by blast
  have u: "unat (of_nat c :: u8) = c" using c(2) by (simp add: unat_of_nat)
  have "ucast (of_nat (unat v) :: u8) AND 0x3F = v"
  proof -
    have "unat (of_nat (unat v) :: u8) = unat v" using assms by (simp only: unat_of_nat) simp
    then have "ucast (of_nat (unat v) :: u8) = v"
      using assms by (simp only: word_unat_eq_iff unsigned_ucast_eq) (simp add: take_bit_nat_eq_self)
    moreover have "v AND 0x3F = take_bit 6 v" by (simp add: take_bit_eq_mask mask_eq_exp_minus_1)
    moreover have "take_bit 6 v = v" using assms by (simp only: word_unat_eq_iff unsigned_take_bit_eq) (simp add: take_bit_nat_eq_self)
    ultimately show ?thesis by simp
  qed
  then show "unmapChar (B64MAP ! unat v) = Inr v" using c u by (simp add: unmapChar_def)
  have "unat b64Pad = 61" by (simp add: b64Pad_def)
  then show "B64MAP ! unat v \<noteq> b64Pad" using c u by auto
qed

definition sextet :: "u32 \<Rightarrow> nat \<Rightarrow> u32" where
  "sextet w i = take_bit 6 (drop_bit (18 - 6 * i) w)"

lemma sextet_less: "unat (sextet w i) < 64"
proof -
  have "unat (sextet w i) = take_bit 6 (unat (drop_bit (18 - 6 * i) w))"
    by (simp only: sextet_def unsigned_take_bit_eq)
  then show ?thesis using take_bit_nat_less_exp [of 6 "unat (drop_bit (18 - 6 * i) w)"] by simp
qed

lemma and_masks:
  fixes w :: u32
  shows "w AND 0x3F = take_bit 6 w" "w AND 0xFC0 = push_bit 6 (take_bit 6 (drop_bit 6 w))"
    "w AND 0x3F000 = push_bit 12 (take_bit 6 (drop_bit 12 w))" "w AND 0xFC0000 = push_bit 18 (take_bit 6 (drop_bit 18 w))"
proof -
  have m: "(0x3F :: u32) = mask 6" "(0xFC0 :: u32) = push_bit 6 (mask 6)" "(0x3F000 :: u32) = push_bit 12 (mask 6)" "(0xFC0000 :: u32) = push_bit 18 (mask 6)"
    by (simp_all add: mask_eq_exp_minus_1 push_bit_eq_mult)
  show "w AND 0x3F = take_bit 6 w" unfolding m by (simp add: take_bit_eq_mask)
  show "w AND 0xFC0 = push_bit 6 (take_bit 6 (drop_bit 6 w))" unfolding m
    by (rule bit_word_eqI) (auto simp: bit_simps)
  show "w AND 0x3F000 = push_bit 12 (take_bit 6 (drop_bit 12 w))" unfolding m
    by (rule bit_word_eqI) (auto simp: bit_simps)
  show "w AND 0xFC0000 = push_bit 18 (take_bit 6 (drop_bit 18 w))" unfolding m
    by (rule bit_word_eqI) (auto simp: bit_simps)
qed

lemma drop_push_sextet: "k + 6 \<le> 32 \<Longrightarrow> drop_bit k (push_bit k (take_bit 6 (x :: u32))) = take_bit 6 x"
  by (rule bit_word_eqI) (auto simp: bit_simps)

lemma encodeGroup_sextets: "encodeGroup w = map (\<lambda>i. B64MAP ! unat (sextet w i)) [0, 1, 2, 3]"
  by (simp add: encodeGroup_def and_masks drop_push_sextet sextet_def take_bit_take_bit del: One_nat_def)

text \<open>A byte is in two neighbouring characters.\<close>

definition join :: "(nat \<Rightarrow> u32) \<Rightarrow> u32" where
  "join v = push_bit 18 (v 0) OR push_bit 12 (v 1) OR push_bit 6 (v 2) OR v 3"

lemma bit_join:
  assumes "\<And>i. take_bit 6 (v i) = v i"
  shows "bit (join v) m \<longleftrightarrow> (if m < 6 then bit (v 3) m else if m < 12 then bit (v 2) (m - 6)
    else if m < 18 then bit (v 1) (m - 12) else m < 24 \<and> bit (v 0) (m - 18))"
proof -
  have hi: "\<not> bit (v i) j" if "6 \<le> j" for i j
    using assms [of i] that by (metis bit_take_bit_iff not_less)
  have top: "m < 24" if "bit (v 0) (m - 18)" "18 \<le> m"
    using hi [of "m - 18" 0] that by linarith
  show ?thesis
    using top by (auto simp: join_def bit_or_iff bit_push_bit_iff hi)
qed

lemma bit_sextet: "bit (sextet w i) m \<longleftrightarrow> m < 6 \<and> bit w (18 - 6 * i + m)"
  by (auto simp: sextet_def bit_take_bit_iff bit_drop_bit_eq)

lemma join_byte:
  assumes "\<And>i. take_bit 6 (v i) = v i" "k < 3" "v k = sextet w k" "v (Suc k) = sextet w (Suc k)"
  shows "(ucast (drop_bit (16 - 8 * k) (join v)) :: u8) = ucast (drop_bit (16 - 8 * k) w)"
proof (rule bit_word_eqI)
  fix n assume n: "n < LENGTH(8)"
  have "bit (join v) (16 - 8 * k + n) = bit w (16 - 8 * k + n)"
  proof -
    consider "k = 0" | "k = 1" | "k = 2" using assms(2) by linarith
    then show ?thesis
    proof cases
      case 1 then show ?thesis using n assms(3,4) by (auto simp: bit_join [OF assms(1)] bit_sextet)
    next
      case 2 then show ?thesis using n assms(3,4) by (auto simp: bit_join [OF assms(1)] bit_sextet numeral_2_eq_2 [symmetric])
    next
      case 3 then show ?thesis using n assms(3,4) by (auto simp: bit_join [OF assms(1)] bit_sextet numeral_3_eq_3 [symmetric])
    qed
  qed
  then show "bit (ucast (drop_bit (16 - 8 * k) (join v)) :: u8) n = bit (ucast (drop_bit (16 - 8 * k) w) :: u8) n"
    using n by (simp add: bit_ucast_iff bit_drop_bit_eq)
qed

lemma in32_bytes:
  "ucast (drop_bit 16 (in32 b0 b1 b2)) = b2" "ucast (drop_bit 8 (in32 b0 b1 b2)) = b1" "ucast (in32 b0 b1 b2) = b0"
proof -
  have hi: "\<not> bit (x :: u8) j" if "8 \<le> j" for x j
    using that bit_imp_le_length [of x j] by auto
  show "ucast (drop_bit 16 (in32 b0 b1 b2)) = b2"
    by (rule bit_word_eqI) (auto simp: in32_def bit_ucast_iff bit_drop_bit_eq bit_or_iff bit_push_bit_iff hi)
  show "ucast (drop_bit 8 (in32 b0 b1 b2)) = b1"
    by (rule bit_word_eqI) (auto simp: in32_def bit_ucast_iff bit_drop_bit_eq bit_or_iff bit_push_bit_iff hi)
  show "ucast (in32 b0 b1 b2) = b0"
    by (rule bit_word_eqI) (auto simp: in32_def bit_ucast_iff bit_or_iff bit_push_bit_iff)
qed

text \<open>The groups of an input and the characters of its encoding.\<close>

definition groupWord :: "u8 list \<Rightarrow> nat \<Rightarrow> u32" where
  "groupWord xs g = in32 (if 3 * g + 2 \<ge> length xs then 0 else xs ! (3 * g + 2)) (if 3 * g + 1 \<ge> length xs then 0 else xs ! (3 * g + 1)) (xs ! (3 * g))"

definition groupCount :: "u8 list \<Rightarrow> nat" where
  "groupCount xs = (length xs + 2) div 3"

lemma groupWord_byte:
  assumes "3 * g + k < length xs" "k < 3"
  shows "ucast (drop_bit (16 - 8 * k) (groupWord xs g)) = xs ! (3 * g + k)"
proof -
  consider "k = 0" | "k = 1" | "k = 2" using assms(2) by linarith
  then show ?thesis using assms(1) by cases (simp_all add: groupWord_def in32_bytes)
qed

lemma foldl_update_end:
  "m \<le> n \<Longrightarrow> length out = n \<Longrightarrow> foldl (\<lambda>out i. out[n - 1 - i := c]) out [0..<m] = take (n - m) out @ replicate m c"
proof (induction m)
  case (Suc m)
  then have "foldl (\<lambda>out i. out[n - 1 - i := c]) out [0..<Suc m] = (take (n - m) out @ replicate m c)[n - Suc m := c]" by simp
  also have "\<dots> = take (n - Suc m) out @ replicate (Suc m) c"
    using Suc.prems by (intro nth_equalityI) (auto simp: nth_list_update nth_append)
  finally show ?case .
qed simp

lemma encode_chars:
  shows "length (encode xs) = 4 * groupCount xs"
    and "g < groupCount xs \<Longrightarrow> i < 4 \<Longrightarrow> encode xs ! (4 * g + i) =
      (if 3 * g + i \<le> length xs then B64MAP ! unat (sextet (groupWord xs g) i) else b64Pad)"
proof -
  let ?n = "length xs" and ?G = "groupCount xs"
  define nPad where "nPad = (if ?n mod 3 \<noteq> 0 then 3 - ?n mod 3 else 0)"
  have G: "?n div 3 + (if ?n mod 3 \<noteq> 0 then 1 else 0) = ?G" "?n + nPad = 3 * ?G" "nPad \<le> 2"
    by (auto simp: groupCount_def nPad_def) presburger+
  have G3: "(?n + nPad) div 3 * 4 = ?G * 4" using G(2) by simp
  define out where "out = concat (map (\<lambda>g. encodeGroup (groupWord xs g)) [0..<?G])"
  have len: "length out = ?G * 4" unfolding out_def by (rule length_concat_blocks) (simp add: encodeGroup_def)
  have "encode xs = foldl (\<lambda>out i. out[?G * 4 - 1 - i := b64Pad]) out [0..<nPad]"
    by (simp only: encode_def Let_def nPad_def [symmetric] groupWord_def [symmetric] out_def G(1) G3)
  also have "\<dots> = take (?G * 4 - nPad) out @ replicate nPad b64Pad"
    using G len by (intro foldl_update_end) auto
  finally have e: "encode xs = take (?G * 4 - nPad) out @ replicate nPad b64Pad" .
  show "length (encode xs) = 4 * ?G" using e len G by simp
  assume g: "g < ?G" and i: "i < 4"
  have "out ! (4 * g + i) = encodeGroup (groupWord xs g) ! i"
    using nth_concat_blocks [of ?G "\<lambda>g. encodeGroup (groupWord xs g)" 4 "4 * g + i"] g i
    by (simp add: out_def encodeGroup_def)
  also have "\<dots> = B64MAP ! unat (sextet (groupWord xs g) i)"
    using i by (auto simp: encodeGroup_sextets less_Suc_eq numeral_eq_Suc)
  finally show "encode xs ! (4 * g + i) = (if 3 * g + i \<le> ?n then B64MAP ! unat (sextet (groupWord xs g) i) else b64Pad)"
    using e len G g i by (auto simp: nth_append)
qed

definition codeValue :: "u8 list \<Rightarrow> nat \<Rightarrow> nat \<Rightarrow> u32" where
  "codeValue xs g i = (if 3 * g + i \<le> length xs then sextet (groupWord xs g) i else 63)"

lemma unmap_encode:
  assumes "g < groupCount xs" "i < 4"
  shows "unmapChar (encode xs ! (4 * g + i)) = Inr (codeValue xs g i)"
proof -
  have "unmapChar b64Pad = Inr 63"
    by (simp add: unmapChar_def b64Pad_def B64UNMAP_def nth_append del: upt_rec_numeral)
  then show ?thesis
    by (simp add: encode_chars(2) [OF assms] codeValue_def unmap_map(1) sextet_less)
qed

lemma codeValue_small: "take_bit 6 (codeValue xs g i) = codeValue xs g i"
  by (simp add: codeValue_def sextet_def take_bit_take_bit)

definition groupBytes :: "u8 list \<Rightarrow> nat \<Rightarrow> u8 list" where
  "groupBytes xs g = map (\<lambda>k. ucast (drop_bit (16 - 8 * k) (join (codeValue xs g)))) [0, 1, 2]"

lemma decode_group:
  assumes "g < groupCount xs"
  shows "decodeGroup (encode xs ! (4 * g)) (encode xs ! (4 * g + 1)) (encode xs ! (4 * g + 2)) (encode xs ! (4 * g + 3)) = Inr (groupBytes xs g)"
  using unmap_encode [OF assms, of 0] unmap_encode [OF assms, of 1] unmap_encode [OF assms, of 2] unmap_encode [OF assms, of 3]
  by (simp add: decodeGroup_def bindR_def Let_def groupBytes_def join_def)

lemma groupBytes_nth:
  assumes "3 * g + k < length xs" "k < 3"
  shows "groupBytes xs g ! k = xs ! (3 * g + k)"
proof -
  have "groupBytes xs g ! k = ucast (drop_bit (16 - 8 * k) (join (codeValue xs g)))"
    using assms(2) by (auto simp: groupBytes_def less_Suc_eq numeral_eq_Suc)
  also have "\<dots> = ucast (drop_bit (16 - 8 * k) (groupWord xs g))"
    using assms by (intro join_byte codeValue_small) (simp_all add: codeValue_def)
  also have "\<dots> = xs ! (3 * g + k)" using assms by (rule groupWord_byte)
  finally show ?thesis .
qed

lemma foldR_concat:
  assumes "\<And>g. g \<in> set ks \<Longrightarrow> f g = Inr (h g)"
  shows "foldR (\<lambda>g out. bindR (f g) (\<lambda>bs. Inr (out @ bs))) ks acc = Inr (acc @ concat (map h ks))"
  using assms by (induction ks arbitrary: acc) (auto simp: bindR_def)

lemma decode_encode:
  assumes "xs \<noteq> []"
  shows "\<exists>out. decode (encode xs) = Inr (out, of_nat (length xs)) \<and> take (length xs) out = xs"
proof -
  let ?n = "length xs" and ?G = "groupCount xs"
  define out where "out = concat (map (groupBytes xs) [0..<?G])"
  have n: "?n \<le> 3 * ?G" "3 * ?G \<le> ?n + 2" "0 < ?n" using assms by (auto simp: groupCount_def) 
  have pos: "0 < ?G" using n by linarith
  have len: "length out = ?G * 3" unfolding out_def by (rule length_concat_blocks) (simp add: groupBytes_def)
  have bytes: "take ?n out = xs"
  proof (rule nth_equalityI)
    fix j assume "j < length (take ?n out)"
    then have j: "j < ?n" "j < ?G * 3" using len n by auto
    have "out ! j = groupBytes xs (j div 3) ! (j mod 3)"
      unfolding out_def using j(2) by (intro nth_concat_blocks) (simp add: groupBytes_def)
    also have "\<dots> = xs ! (3 * (j div 3) + j mod 3)" using j(1) by (intro groupBytes_nth) auto
    finally show "take ?n out ! j = xs ! j" using j by simp
  qed (use len n in simp)
  have loop: "foldR (\<lambda>g out. let io = 4 * g
      in bindR (decodeGroup (encode xs ! io) (encode xs ! (io + 1)) (encode xs ! (io + 2)) (encode xs ! (io + 3))) (\<lambda>bs. Inr (out @ bs)))
      [0..<length (encode xs) div 4] [] = Inr out"
    unfolding Let_def encode_chars(1) using foldR_concat [of "[0..<?G]" _ "groupBytes xs" "[]"] decode_group by (simp add: out_def)
  have chars: "encode xs ! (length (encode xs) - 1) = b64Pad \<longleftrightarrow> ?n < 3 * ?G"
      "encode xs ! (length (encode xs) - 2) = b64Pad \<longleftrightarrow> ?n + 1 < 3 * ?G"
  proof -
    have G: "?G - 1 < ?G" "length (encode xs) - 1 = 4 * (?G - 1) + 3" "length (encode xs) - 2 = 4 * (?G - 1) + 2"
      using pos encode_chars(1) [of xs] by linarith+
    have pad: "encode xs ! (4 * (?G - 1) + i) = b64Pad \<longleftrightarrow> \<not> 3 * (?G - 1) + i \<le> ?n" if "i < 4" for i
      unfolding encode_chars(2) [OF G(1) that] by (simp add: unmap_map(2) sextet_less)
    show "encode xs ! (length (encode xs) - 1) = b64Pad \<longleftrightarrow> ?n < 3 * ?G"
      unfolding G(2) using pad [of 3] pos by linarith
    show "encode xs ! (length (encode xs) - 2) = b64Pad \<longleftrightarrow> ?n + 1 < 3 * ?G"
      unfolding G(3) using pad [of 2] pos by linarith
  qed
  have "(of_nat (?G * 3) :: u64) - (if ?n < 3 * ?G then 1 else 0) - (if ?n + 1 < 3 * ?G then 1 else 0) = of_nat ?n"
  proof -
    consider "?G * 3 = ?n" | "?G * 3 = Suc ?n" | "?G * 3 = Suc (Suc ?n)" using n by linarith
    then show ?thesis by cases (simp_all only: mult.commute [of 3], simp_all)
  qed
  then show ?thesis using loop chars bytes n pos encode_chars(1) [of xs] by (simp add: decode_def Let_def)
qed

end
