(* ===== verification/Isc_Props.thy ===== *)
theory Isc_Props
  imports Isc_Inv B64
begin

text \<open>The properties of in-storage computing and of the coding of its requests.\<close>

section \<open>Coding\<close>

text \<open>
  C30. What \<^verbatim>\<open>encode\<close> writes for any bytes, at least one, \<^verbatim>\<open>decode\<close> turns back into these bytes, with
  the padding taken off the size that it reports.
\<close>

theorem base64_roundtrip:
  assumes "xs \<noteq> []"
  shows "\<exists>out. decode (encode xs) = Inr (out, of_nat (length xs)) \<and> take (length xs) out = xs"
  using assms by (rule decode_encode)

theorem base64_roundtrip_witness:
  "\<exists>out. decode (encode [255, 0, 7, 61]) = Inr (out, 4) \<and> take 4 out = [255, 0, 7, 61]"
  using base64_roundtrip [of "[255, 0, 7, 61]"] by (simp add: eval_nat_numeral)

section \<open>Tasks\<close>

text \<open>
  C25. For a pattern of at most 128 characters without the eighth bit, as the table of last places has
  128 entries of signed characters, and a text that is shorter than the buffer it is searched in and
  than two gigabytes: when the pattern occurs, the search with the table finds its first place, and
  the task returns the whole line around that place, from behind the previous line break to before
  the next one or to the end of the text.
\<close>

theorem grep_finds_first_line:
  assumes "t \<noteq> []" "list_all (\<lambda>c. unat c < 128) t" "length t \<le> 128" "length t \<le> slen" "slen < length src" "slen < 2 ^ 31"
    "List.find (occursAt src t) [0..<Suc (slen - length t)] = Some i"
  shows "GrepAPP_grep src slen t = Inr (Inr (lineAround (take slen src) i (length t)))"
  using assms by (rule grep_line)

theorem grep_finds_first_line_witness:
  "GrepAPP_grep [97, 10, 120, 99, 99, 100, 121, 10, 0] 8 [99, 100] = Inr (Inr [120, 99, 99, 100, 121])"
proof -
  have "List.find (occursAt [97, 10, 120, 99, 99, 100, 121, 10, 0] [99, 100]) [0..<Suc (8 - length [99, 100 :: u8])] = Some 4"
    by (simp add: occursAt_def upt_rec)
  from grep_finds_first_line [OF _ _ _ _ _ _ this] show ?thesis by (simp add: lineAround_def)
qed

text \<open>
  C19. A hashing request that brings the extents and sizes of its files, of less than two gigabytes
  each: the extents are assigned to their files, the data is read from the places of the
  image that the extents name, and the results are the MD5 digests of the files in order,
  although the data is hashed piece by piece in a buffer with any content.
\<close>

theorem md5_request_digests:
  assumes "length garbage = 64"
    "list_all (\<lambda>(es, n). list_all (\<lambda>e. exBlock e \<noteq> - 1) es \<and> n \<le> extSize es \<and> extSize es < 2 ^ 31) fs" "fs \<noteq> [] \<or> isdir"
  shows "MD5APP_startup isdir garbage img (length fs) (joinExts (map fst fs)) (map snd fs) =
    Inr (Inr (map (\<lambda>(es, n). md5Digest (take n (fileBytes img es))) fs))"
  using assms by (rule md5_files)

theorem md5_request_digests_witness:
  "MD5APP_startup False (replicate 64 7) (\<lambda>a. of_nat a) 2
     [\<lparr>exBlock = 0, exSlbn = 3, exLen = 1\<rparr>, \<lparr>exBlock = - 1, exSlbn = 0, exLen = 0\<rparr>,
      \<lparr>exBlock = 0, exSlbn = 9, exLen = 1\<rparr>, \<lparr>exBlock = 1, exSlbn = 5, exLen = 2\<rparr>, \<lparr>exBlock = - 1, exSlbn = 0, exLen = 0\<rparr>] [3, 5000] =
   Inr (Inr [md5Digest (take 3 (fileBytes (\<lambda>a. of_nat a) [\<lparr>exBlock = 0, exSlbn = 3, exLen = 1\<rparr>])),
     md5Digest (take 5000 (fileBytes (\<lambda>a. of_nat a) [\<lparr>exBlock = 0, exSlbn = 9, exLen = 1\<rparr>, \<lparr>exBlock = 1, exSlbn = 5, exLen = 2\<rparr>]))])"
  using md5_request_digests [of "replicate 64 7" "[([\<lparr>exBlock = 0, exSlbn = 3, exLen = 1\<rparr>], 3),
      ([\<lparr>exBlock = 0, exSlbn = 9, exLen = 1\<rparr>, \<lparr>exBlock = 1, exSlbn = 5, exLen = 2\<rparr>], 5000)]" False "\<lambda>a. of_nat a"]
  by (simp add: extSize_def BLK_SIZE_def joinExts_def)
    (simp add: numeral_2_eq_2)

end
