(* ===== verification/ICL.thy ===== *)
theory ICL
  imports PageMapping Cache
begin

text \<open>
  The front ends \<^verbatim>\<open>ftl/ftl.cc\<close> and \<^verbatim>\<open>icl/icl.cc\<close>: the layer of the FTL above the page
  mapping, the layer above the cache that cuts a request into cache lines, and the cache's
  services built from the FTL. Definitions only; \<open>ICL_Inv\<close> holds the properties.
\<close>

section \<open>FTL\<close>

text \<open>\<^verbatim>\<open>PAL::Parameter\<close>, as far as the FTL reads it; the PAL computes it from its configuration.\<close>

record pal_param =
  ppSuperBlock :: nat
  ppBlock :: nat
  ppPage :: nat
  ppSuperPageSize :: nat
  ppPageInSuperPage :: nat

text \<open>The parameters of the mapping. A plane without blocks divides by zero.\<close>

definition ftlParameter :: "pal_param \<Rightarrow> fl \<Rightarrow> 'w pm_ctx \<Rightarrow> 'w pm_ctx res" where
  "ftlParameter p overProvision P =
     bindR (fl_to_u64 (fl_mul f32 (fl_of_nat f32 (ppSuperBlock p)) (fl_sub f32 (Fin 1) overProvision))) (\<lambda>logical.
       if ppBlock p = 0 then Inl (Undefined ''division by zero'')
       else Inr (P\<lparr>totalPhysicalBlocks := ppSuperBlock p, totalLogicalBlocks := unat logical, pagesInBlock := ppPage p,
              ioUnitInPage := ppPageInSuperPage p, pageCountToMaxPerf := ppSuperBlock p div ppBlock p\<rparr>))"

definition FTL_new :: "pal_param \<Rightarrow> fl \<Rightarrow> fl \<Rightarrow> fl \<Rightarrow> filling_mode \<Rightarrow> 'w pm_ctx \<Rightarrow> 'w \<Rightarrow> ('w pm_ctx \<times> 'w pm) res" where
  "FTL_new p overProvision fillRatio invalidRatio mode P0 w =
     bindR (ftlParameter p overProvision P0) (\<lambda>P.
     bindR (PageMapping_new P w) (\<lambda>s.
       if totalPhysicalBlocks P \<le> totalLogicalBlocks P + pageCountToMaxPerf P then
         Inl (Panic ''FTL Over-Provision Ratio is too small'')
       else bindR (PageMapping_initialize P fillRatio invalidRatio mode s) (\<lambda>s. Inr (P, s))))"

definition ftlLatency :: "'w pm_ctx \<Rightarrow> cpu_function \<Rightarrow> 'w pm \<times> tick \<Rightarrow> 'w pm \<times> tick" where
  "ftlLatency P f = (\<lambda>(s, t). let (w, l) = dApplyLatency (dev P) (world s) NS_FTL f in (s\<lparr>world := w\<rparr>, t + l))"

definition FTL_read :: "'w pm_ctx \<Rightarrow> 'w pm \<Rightarrow> ftl_request \<Rightarrow> tick \<Rightarrow> ('w pm \<times> tick) res" where
  "FTL_read P s req t = bindR (PageMapping_read P req t s) (\<lambda>st. Inr (ftlLatency P FN_READ st))"

definition FTL_write :: "'w pm_ctx \<Rightarrow> 'w pm \<Rightarrow> ftl_request \<Rightarrow> tick \<Rightarrow> ('w pm \<times> tick) res" where
  "FTL_write P s req t = bindR (PageMapping_write P req t s) (\<lambda>st. Inr (ftlLatency P FN_WRITE st))"

definition FTL_trim :: "'w pm_ctx \<Rightarrow> 'w pm \<Rightarrow> ftl_request \<Rightarrow> tick \<Rightarrow> ('w pm \<times> tick) res" where
  "FTL_trim P s req t = bindR (PageMapping_trim P req t s) (\<lambda>st. Inr (ftlLatency P FN_TRIM st))"

text \<open>\<open>keys\<close> gives the traversal order of the mapping table in a state.\<close>

definition FTL_format :: "'w pm_ctx \<Rightarrow> ('w pm \<Rightarrow> u64 list) \<Rightarrow> 'w pm \<Rightarrow> lpn_range \<Rightarrow> tick \<Rightarrow> ('w pm \<times> tick) res" where
  "FTL_format P keys s rng t = bindR (PageMapping_format P (keys s) rng t s) (\<lambda>st. Inr (ftlLatency P FN_FORMAT st))"

definition FTL_getUsedPageCount :: "'w pm_ctx \<Rightarrow> u64 \<Rightarrow> u64 \<Rightarrow> 'w pm \<Rightarrow> nat" where
  "FTL_getUsedPageCount P lpnBegin lpnEnd s = PageMapping_getStatus P lpnBegin lpnEnd s"

section \<open>The services of the cache\<close>

text \<open>
  The cache calls the FTL object; both share DRAM, CPU model and random generator, whose
  state is the world of the mapping.
\<close>

definition onWorld :: "('w \<Rightarrow> 'w \<times> 'a) \<Rightarrow> 'w pm \<Rightarrow> 'w pm \<times> 'a" where
  "onWorld f s = (let (w, x) = f (world s) in (s\<lparr>world := w\<rparr>, x))"

definition ftlDev :: "'w pm_ctx \<Rightarrow> ('w pm \<Rightarrow> u64 list) \<Rightarrow> 'w pm cache_dev" where
  "ftlDev P keys =
     \<lparr>cdFtlRead = FTL_read P, cdFtlWrite = FTL_write P, cdFtlTrim = FTL_trim P, cdFtlFormat = FTL_format P keys,
      cdDramRead = (\<lambda>s n t. onWorld (\<lambda>w. dDramRead (dev P) w n t) s),
      cdDramWrite = (\<lambda>s n t. onWorld (\<lambda>w. dDramWrite (dev P) w n t) s),
      cdDramScheduling = (\<lambda>s b. s\<lparr>world := dDramScheduling (dev P) (world s) b\<rparr>),
      cdApplyLatency = (\<lambda>s ns fn. onWorld (\<lambda>w. dApplyLatency (dev P) w ns fn) s),
      cdRandom = (\<lambda>s lo hi. onWorld (\<lambda>w. dRandom (dev P) w lo hi) s)\<rparr>"

section \<open>ICL\<close>

text \<open>The members of the class \<^verbatim>\<open>ICL\<close> besides the objects below it.\<close>

record 'w icl =
  iclCache :: "'w cache_ctx"
  totalLogicalPages :: u64
  logicalPageSize :: u32

text \<open>The products are computed in 64 bits, the size of a page in 32.\<close>

definition iclSizes :: "'w pm_ctx \<Rightarrow> nat \<Rightarrow> bool \<Rightarrow> u64 \<times> u32" where
  "iclSizes P pageSz tweak =
     (if tweak then
        (word_of_nat (totalLogicalBlocks P) * word_of_nat (pagesInBlock P) * word_of_nat (ioUnitInPage P),
         word_of_nat pageSz div word_of_nat (ioUnitInPage P))
      else (word_of_nat (totalLogicalBlocks P) * word_of_nat (pagesInBlock P), word_of_nat pageSz))"

text \<open>
  The constructor, with the simple DRAM model: the FTL is built first, then the cache with the
  sizes of the FTL; \<open>g\<close> is the configuration of the cache, of which the FTL's figures replace
  three values.
\<close>

definition ICL_new :: "pal_param \<Rightarrow> fl \<Rightarrow> fl \<Rightarrow> fl \<Rightarrow> filling_mode \<Rightarrow> 'w pm_ctx \<Rightarrow> ('w pm \<Rightarrow> u64 list) \<Rightarrow> icl_cfg \<Rightarrow> bool \<Rightarrow>
    'w pm cache \<Rightarrow> 'w \<Rightarrow> ('w pm icl \<times> 'w pm cache) res" where
  "ICL_new p overProvision fillRatio invalidRatio mode P0 keys g b0 c0 w =
     bindR (FTL_new p overProvision fillRatio invalidRatio mode P0 w) (\<lambda>(P, s).
       let (pages, sz) = iclSizes P (ppSuperPageSize p) (bRandomTweak P);
           g = g\<lparr>cgPageSize := ppSuperPageSize p, cgPageCountToMaxPerf := pageCountToMaxPerf P,
                 cgIoUnitInPage := ioUnitInPage P, cgRandomTweak := bRandomTweak P\<rparr>
       in bindR (GenericCache_new g (ftlDev P keys) b0 (c0\<lparr>cworld := s\<rparr>)) (\<lambda>(C, c).
            Inr (\<lparr>iclCache = C, totalLogicalPages = pages, logicalPageSize = sz\<rparr>, c)))"

text \<open>
  The loops of \<^verbatim>\<open>ICL::read\<close> and \<^verbatim>\<open>ICL::write\<close>: the request of line \<open>i\<close> and the state carried over,
  the bytes that remain, the offset in the line and the time all lines are finished.
\<close>

definition pieceRequest :: "icl_request \<Rightarrow> nat \<Rightarrow> u64 \<Rightarrow> u64 \<Rightarrow> icl_request" where
  "pieceRequest req i off len =
     ICL_Request_new\<lparr>icReqID := icReqID req, icReqSubID := word_of_nat i + 1, icOffset := off, icLength := len,
       icRange := \<lparr>slpn = slpn (icRange req) + word_of_nat i, nlp = 0\<rparr>\<rparr>"

definition iclLine :: "('w cache_ctx \<Rightarrow> icl_request \<Rightarrow> tick \<Rightarrow> 'w cache \<Rightarrow> (bool \<times> 'w cache \<times> tick) res) \<Rightarrow> 'w icl \<Rightarrow> icl_request \<Rightarrow> tick \<Rightarrow>
    nat \<Rightarrow> u64 \<times> u64 \<times> tick \<times> 'w cache \<Rightarrow> (u64 \<times> u64 \<times> tick \<times> 'w cache) res" where
  "iclLine cacheOp L req t i = (\<lambda>(reqRemain, off, finishedAt, c).
     let len = cMIN reqRemain (ucast (logicalPageSize L) - off)
     in bindR (cacheOp (iclCache L) (pieceRequest req i off len) t c) (\<lambda>(_, c, beginAt).
          Inr (reqRemain - len, 0, cMAX finishedAt beginAt, c)))"

definition iclLatency :: "'w icl \<Rightarrow> cpu_function \<Rightarrow> 'w cache \<times> tick \<Rightarrow> 'w cache \<times> tick" where
  "iclLatency L f = (\<lambda>(c, t).
     let (w, l) = cdApplyLatency (ccDev (iclCache L)) (cworld c) NS_ICL f in (c\<lparr>cworld := w\<rparr>, t + l))"

definition ICL_read :: "'w icl \<Rightarrow> icl_request \<Rightarrow> tick \<Rightarrow> 'w cache \<Rightarrow> ('w cache \<times> tick) res" where
  "ICL_read L req t c =
     bindR (foldR (iclLine GenericCache_read L req t) [0..<unat (nlp (icRange req))] (icLength req, icOffset req, t, c))
       (\<lambda>(_, _, finishedAt, c). Inr (iclLatency L FN_READ (c, finishedAt)))"

definition ICL_write :: "'w icl \<Rightarrow> icl_request \<Rightarrow> tick \<Rightarrow> 'w cache \<Rightarrow> ('w cache \<times> tick) res" where
  "ICL_write L req t c =
     bindR (foldR (iclLine GenericCache_write L req t) [0..<unat (nlp (icRange req))] (icLength req, icOffset req, t, c))
       (\<lambda>(_, _, finishedAt, c). Inr (iclLatency L FN_WRITE (c, finishedAt)))"

definition ICL_flush :: "'w icl \<Rightarrow> lpn_range \<Rightarrow> tick \<Rightarrow> 'w cache \<Rightarrow> ('w cache \<times> tick) res" where
  "ICL_flush L rng t c = bindR (GenericCache_flush (iclCache L) rng t c) (\<lambda>ct. Inr (iclLatency L FN_FLUSH ct))"

definition ICL_trim :: "'w icl \<Rightarrow> lpn_range \<Rightarrow> tick \<Rightarrow> 'w cache \<Rightarrow> ('w cache \<times> tick) res" where
  "ICL_trim L rng t c = bindR (GenericCache_trim (iclCache L) rng t c) (\<lambda>ct. Inr (iclLatency L FN_TRIM ct))"

definition ICL_format :: "'w icl \<Rightarrow> lpn_range \<Rightarrow> tick \<Rightarrow> 'w cache \<Rightarrow> ('w cache \<times> tick) res" where
  "ICL_format L rng t c = bindR (GenericCache_format (iclCache L) rng t c) (\<lambda>ct. Inr (iclLatency L FN_FORMAT ct))"

definition ICL_getLPNInfo :: "'w icl \<Rightarrow> u64 \<times> u32" where
  "ICL_getLPNInfo L = (totalLogicalPages L, logicalPageSize L)"

definition ICL_getUsedPageCount :: "'w pm_ctx \<Rightarrow> u64 \<Rightarrow> u64 \<Rightarrow> 'w pm cache \<Rightarrow> u64" where
  "ICL_getUsedPageCount P lcaBegin lcaEnd c =
     (let ratio = word_of_nat (ioUnitInPage P)
      in word_of_nat (FTL_getUsedPageCount P (lcaBegin div ratio) (lcaEnd div ratio) (cworld c)) * ratio)"

end
