(* ===== verification/ICL_Inv.thy ===== *)
theory ICL_Inv
  imports ICL Cache_Inv PM_Victim
begin

text \<open>
  The layers put together. The locale \<open>world_invariant\<close> is the interface between the cache and
  the layers below it: a predicate on their state that every service keeps; it is interpreted
  on the FTL. Then the cutting of requests into lines.
\<close>

section \<open>Reading through an interface\<close>

locale world_invariant =
  fixes C :: "'w cache_ctx" and I :: "'w \<Rightarrow> bool"
  assumes ftlRead_keeps: "I w \<Longrightarrow> runs_to (cdFtlRead (ccDev C) w r t) (\<lambda>(w', t'). I w')"
    and ftlWrite_keeps: "I w \<Longrightarrow> runs_to (cdFtlWrite (ccDev C) w r t) (\<lambda>(w', t'). I w')"
    and dram_keeps: "I w \<Longrightarrow> I (fst (cdDramRead (ccDev C) w n t))" "I w \<Longrightarrow> I (fst (cdDramWrite (ccDev C) w n t))"
      "I w \<Longrightarrow> I (cdDramScheduling (ccDev C) w b)"
    and latency_keeps: "I w \<Longrightarrow> I (fst (cdApplyLatency (ccDev C) w ns fn))"
    and evict_keeps: "I w \<Longrightarrow> runs_to (evictFunction C ls i t w) (\<lambda>(way, t', w'). I w')"
begin

lemma calls_keep:
  assumes "I (cworld c)"
  shows "runs_to (ftlRead C r t c) (\<lambda>(c', t'). I (cworld c'))" "runs_to (ftlWrite C r t c) (\<lambda>(c', t'). I (cworld c'))"
    "I (cworld (fst (cdramRead C n t c)))" "I (cworld (fst (cdramWrite C n t c)))" "I (cworld (cdramScheduling C b c))"
    "I (cworld (fst (caddLatency C fn t c)))"
  using ftlRead_keeps [OF assms, of r t] ftlWrite_keeps [OF assms, of r t] dram_keeps [OF assms] latency_keeps [OF assms]
  by (auto simp: ftlRead_def ftlWrite_def cdramRead_def cdramWrite_def cdramScheduling_def caddLatency_def runs_to_bindR split_beta
      elim!: runs_to_mono)

lemma frame_keeps [simp]: "cworld (updLine p f c) = cworld c" "cworld (setEvict q v c) = cworld c"
  by (simp_all add: updLine_def setEvict_def)

lemma runs_to_foldR:
  assumes "J s" "\<And>x s. J s \<Longrightarrow> runs_to (f x s) J"
  shows "runs_to (foldR f xs s) J"
  using assms by (intro foldR_runs_to_prefix [where I = "\<lambda>_. J"])

lemma evictCache_keeps: "I (cworld c) \<Longrightarrow> runs_to (evictCache C t d c) (\<lambda>c'. I (cworld c'))"
  unfolding evictCache_def
proof (rule runs_to_foldR [where J = "\<lambda>c. I (cworld c)"])
  fix q and c :: "'w cache" assume I: "I (cworld c)"
  show "runs_to (evictOne C t d q c) (\<lambda>c'. I (cworld c'))"
    using I by (auto simp: evictOne_def Let_def runs_to_bindR split: option.splits intro!: runs_to_mono [OF calls_keep(2)])
qed

lemma claimLine_keeps: "I (cworld c) \<Longrightarrow> runs_to (claimLine C t lca (rl, fin, c)) (\<lambda>(rl', fin', c'). I (cworld c'))"
  by (auto simp: claimLine_def Let_def runs_to_bindR split_beta intro!: runs_to_mono [OF evict_keeps])

lemma fillLine_keeps: "I (cworld c) \<Longrightarrow> runs_to (fillLine C r lca t p (fin, c)) (\<lambda>(fin', c'). I (cworld c'))"
  by (auto simp: fillLine_def Let_def runs_to_bindR split_beta intro!: runs_to_mono [OF calls_keep(1)] calls_keep(4))

lemma readMiss_keeps:
  assumes "I (cworld c)"
  shows "runs_to (readMiss C req ret arrived t c) (\<lambda>(c', t'). I (cworld c'))"
proof -
  have ra: "I (cworld (snd (readAhead C a c)))" for a
    using assms calls_keep(5) by (simp add: readAhead_def Let_def)
  have claim: "runs_to (foldR (claimLine C t) xs (rl, fin, c)) (\<lambda>(rl, fin, c). I (cworld c))" if "I (cworld c)" for xs rl fin c
    using that claimLine_keeps by (intro runs_to_foldR) auto
  have fill: "runs_to (foldR (fillLine C r a t) xs (fin, c)) (\<lambda>(fin, c). I (cworld c))" if "I (cworld c)" for r a t xs fin c
    using that fillLine_keeps by (intro runs_to_foldR) auto
  show ?thesis
    unfolding readMiss_def Let_def
    by (auto simp: runs_to_bindR split_beta intro!: runs_to_mono [OF claim [OF ra]] runs_to_mono [OF evictCache_keeps]
        runs_to_mono [OF fill] calls_keep(5))
qed

lemma read_keeps:
  assumes "I (cworld c)"
  shows "runs_to (GenericCache_read C req t c) (\<lambda>(ret, c', t'). I (cworld c'))"
proof (cases "ccUseReadCaching C")
  case False
  then show ?thesis
    using assms by (auto simp: GenericCache_read_def countRead_def Let_def runs_to_bindR split_beta
        intro!: runs_to_mono [OF calls_keep(1)] calls_keep(4))
next
  case True
  have fin: "runs_to m (\<lambda>(ret, c', t'). I (cworld c')) \<Longrightarrow>
    runs_to (bindR m (\<lambda>(ret, c, t). let (c, t) = caddLatency C FN_READ t c in Inr (ret, countRead ret c, t))) (\<lambda>(ret, c', t'). I (cworld c'))" for m
    using calls_keep(6) by (auto simp: runs_to_bindR countRead_def Let_def split_beta elim!: runs_to_mono)
  have miss: "runs_to (bindR (readMiss C r ret a t' c') (\<lambda>(c, t). Inr (ret, c, t))) (\<lambda>(ret, c', t'). I (cworld c'))"
    if "I (cworld c')" for r ret a t' c'
    using readMiss_keeps [OF that] by (auto simp: runs_to_bindR elim!: runs_to_mono)
  let ?lca = "slpn (icRange req)"
  define c1 where "c1 = (if ccUseReadPrefetch C then c\<lparr>readDetect := checkSequential C req (readDetect c)\<rparr> else c)"
  have c1: "I (cworld c1)" using assms by (simp add: c1_def)
  obtain w b where vw: "getValidWay C ?lca t c1 = (w, b)" by fastforce
  define b2 where "b2 = cMAX (lnInsertedAt (lineOf c1 (calcSetIndex C ?lca, w))) b"
  obtain c2 t2 where dr: "cdramRead C (icLength req) b2 (updLine (calcSetIndex C ?lca, w) (\<lambda>l. l\<lparr>lnLastAccessed := b2\<rparr>) c1) = (c2, t2)"
    by fastforce
  have "I (cworld (fst (cdramRead C (icLength req) b2 (updLine (calcSetIndex C ?lca, w) (\<lambda>l. l\<lparr>lnLastAccessed := b2\<rparr>) c1))))"
    using c1 by (intro calls_keep(3)) simp
  then have c2: "I (cworld c2)" unfolding dr by simp
  show ?thesis
    unfolding GenericCache_read_def if_P [OF True] Let_def c1_def [symmetric] vw prod.case b2_def [symmetric] dr
    by (rule fin [unfolded Let_def]) (use c1 c2 miss in auto)
qed

end

section \<open>The page mapping below the cache\<close>

text \<open>
  What a read leaves alone: the mapping keeps its invariant, and every logical unit keeps its
  place and every flash unit its content. The random policy needs a configured way size and
  draws within the range asked for, as the standard promises: a fully associative cache draws
  from the whole 32-bit range.
\<close>

definition draws_ok :: "icl_cfg \<Rightarrow> 'w pm_ctx \<Rightarrow> bool" where
  "draws_ok g P \<longleftrightarrow> cgPolicy g \<noteq> CPOLICY_RANDOM \<or> cgWaySize g \<noteq> 0 \<and> (\<forall>w lo hi. snd (dRandom (dev P) w lo hi) \<le> hi)"

definition readable :: "icl_cfg \<Rightarrow> 'w pm_ctx \<Rightarrow> 'w pm \<Rightarrow> 'w pm \<Rightarrow> bool" where
  "readable g P s0 s \<longleftrightarrow> icl_cfg_ok g \<and> ctx_ok P \<and> draws_ok g P \<and> pm_inv P s \<and> lookup P s = lookup P s0 \<and> unitAt s = unitAt s0"

lemma pm_inv_world: "pm_inv P s \<Longrightarrow> pm_inv P (s\<lparr>world := w\<rparr>) \<and> lookup P (s\<lparr>world := w\<rparr>) = lookup P s \<and> unitAt (s\<lparr>world := w\<rparr>) = unitAt s"
proof -
  assume I: "pm_inv P s"
  have "accessed s (s\<lparr>world := w\<rparr>)" by (rule accessed_world [OF accessed_refl])
  from accessed_inv [OF this I] show ?thesis by simp
qed

lemma readable_world: "readable g P s0 s \<Longrightarrow> readable g P s0 (s\<lparr>world := w\<rparr>)"
  using pm_inv_world [of P s w] by (simp add: readable_def)

lemma FTL_read_keeps:
  assumes "readable g P s0 s"
  shows "runs_to (FTL_read P s req t) (\<lambda>(s', t'). readable g P s0 s')"
proof -
  have I: "pm_inv P s" "ctx_ok P" using assms by (simp_all add: readable_def)
  have lat: "readable g P s0 (fst (addLatency P f x u))" if "readable g P s0 u" for f x u
    using that readable_world by (auto simp: addLatency_def split_beta Let_def)
  have lat2: "readable g P s0 (fst (ftlLatency P f st))" if "readable g P s0 (fst st)" for f st
    using that readable_world by (auto simp: ftlLatency_def split_beta Let_def)
  obtain u x where r: "readInternal P req t s = Inr (u, x)" and a: "accessed s u"
    by (rule readInternal_ok [OF I, of req t]) blast
  have "readable g P s0 u" using assms accessed_inv [OF a I(1)] by (simp add: readable_def)
  with assms r show ?thesis
    by (auto simp: FTL_read_def PageMapping_read_def runs_to_bindR split_beta intro!: lat lat2)
qed

lemma ccDev_cacheContext [simp]: "ccDev (cacheContext g D b0) = D"
  by (simp add: cacheContext_def Let_def split_beta)

lemma ftlDev_sel [simp]:
  "cdFtlRead (ftlDev P keys) = FTL_read P" "cdFtlWrite (ftlDev P keys) = FTL_write P" "cdFtlTrim (ftlDev P keys) = FTL_trim P"
  "cdFtlFormat (ftlDev P keys) = FTL_format P keys" "cdDramRead (ftlDev P keys) s n t = onWorld (\<lambda>w. dDramRead (dev P) w n t) s"
  "cdDramWrite (ftlDev P keys) s n t = onWorld (\<lambda>w. dDramWrite (dev P) w n t) s"
  "cdDramScheduling (ftlDev P keys) s b = s\<lparr>world := dDramScheduling (dev P) (world s) b\<rparr>"
  "cdApplyLatency (ftlDev P keys) s ns fn = onWorld (\<lambda>w. dApplyLatency (dev P) w ns fn) s"
  "cdRandom (ftlDev P keys) s lo hi = onWorld (\<lambda>w. dRandom (dev P) w lo hi) s"
  by (simp_all add: ftlDev_def)

interpretation rd: world_invariant "cacheContext g ((ftlDev P keys)\<lparr>cdFtlWrite := (\<lambda>s r t. Inr (s, t))\<rparr>) b0" "readable g P s0"
  for g P keys b0 s0
proof unfold_locales
  fix w :: "'a pm" and r t n b ns fn ls i
  let ?C = "cacheContext g ((ftlDev P keys)\<lparr>cdFtlWrite := (\<lambda>s r t. Inr (s, t))\<rparr>) b0"
  assume R: "readable g P s0 w"
  show "runs_to (cdFtlRead (ccDev ?C) w r t) (\<lambda>(w', t'). readable g P s0 w')" using FTL_read_keeps [OF R] by simp
  show "runs_to (cdFtlWrite (ccDev ?C) w r t) (\<lambda>(w', t'). readable g P s0 w')" using R by simp
  show "readable g P s0 (fst (cdDramRead (ccDev ?C) w n t))" "readable g P s0 (fst (cdDramWrite (ccDev ?C) w n t))"
    "readable g P s0 (cdDramScheduling (ccDev ?C) w b)" "readable g P s0 (fst (cdApplyLatency (ccDev ?C) w ns fn))"
    using readable_world [OF R] by (simp_all add: onWorld_def split_beta)
  have "cctx_ok ?C" using R by (intro cacheContext_ok) (simp add: readable_def)
  then have ways: "0 < ccWaySize ?C" by (simp add: cctx_ok_def)
  show "runs_to (evictFunction ?C ls i t w) (\<lambda>(way, t', w'). readable g P s0 w')"
  proof (cases "cgPolicy g = CPOLICY_RANDOM")
    case True
    then have fn: "evictFunction ?C = evictRandom (cdRandom (ftlDev P keys)) (ccWaySize ?C - 1) (ccWaySize ?C)"
      using R by (simp add: readable_def draws_ok_def cacheContext_def cacheSizes_def distMax_def Let_def split_beta)
    have "snd (dRandom (dev P) v lo hi) \<le> hi" for v lo hi using R True by (simp add: readable_def draws_ok_def)
    from this [of "world w" 0 "ccWaySize ?C - 1"] have "snd (dRandom (dev P) (world w) 0 (ccWaySize ?C - 1)) < ccWaySize ?C" using ways by linarith
    then show ?thesis unfolding fn using readable_world [OF R] by (simp add: evictRandom_def onWorld_def split_beta Let_def)
  next
    case False
    then show ?thesis using R by (cases "cgPolicy g") (simp_all add: cacheContext_def Let_def split_beta evictLeast_def)
  qed
qed

lemma withWrite_cacheContext: "evict_policy.withWrite (cacheContext g D b0) f = cacheContext g (D\<lparr>cdFtlWrite := f\<rparr>) b0"
  unfolding evict_policy.withWrite_def [OF gc.evict_policy_axioms] by (cases "cgPolicy g") (simp_all add: cacheContext_def Let_def split_beta)

lemma read_below:
  assumes "cache_inv (cacheContext g (ftlDev P keys) b0) c" "readable g P s0 (cworld c)"
  shows "runs_to (GenericCache_read (cacheContext g (ftlDev P keys) b0) req t c)
    (\<lambda>(ret, c', t'). cache_inv (cacheContext g (ftlDev P keys) b0) c' \<and> readable g P s0 (cworld c'))"
proof -
  have ok: "cctx_ok (cacheContext g (ftlDev P keys) b0)" using assms(2) by (intro cacheContext_ok) (simp add: readable_def)
  have "runs_to (GenericCache_read (cacheContext g (ftlDev P keys) b0) req t c) (\<lambda>(ret, c', t'). readable g P s0 (cworld c'))"
    using rd.read_keeps [OF assms(2), of keys b0 req t]
      gc.read_no_write [OF ok assms(1), of "\<lambda>s r t. Inr (s, t)" req t, unfolded withWrite_cacheContext] by simp
  from runs_to_and_on_ok [OF this gc.read_inv [OF ok assms(1), of req t]] show ?thesis by (rule runs_to_mono) auto
qed

section \<open>Cutting a request into lines\<close>

text \<open>
  The bytes of line \<open>i\<close> that a request of \<open>len\<close> bytes from offset \<open>off\<close> of the first line covers:
  the intersection of two intervals.
\<close>

definition coveredBytes :: "nat \<Rightarrow> nat \<Rightarrow> nat \<Rightarrow> nat \<Rightarrow> nat" where
  "coveredBytes sz off len i = card ({off..<off + len} \<inter> {i * sz..<Suc i * sz})"

lemma coveredBytes_eq: "coveredBytes sz off len i = min (off + len) (Suc i * sz) - max off (i * sz)"
  by (simp add: coveredBytes_def Int_atLeastLessThan)

lemma coveredBytes_le: "coveredBytes sz off len i \<le> len"
  by (simp add: coveredBytes_eq)

definition lineRequest :: "'w icl \<Rightarrow> icl_request \<Rightarrow> nat \<Rightarrow> icl_request" where
  "lineRequest L req i = pieceRequest req i (if i = 0 then icOffset req else 0)
     (word_of_nat (coveredBytes (unat (logicalPageSize L)) (unat (icOffset req)) (unat (icLength req)) i))"

lemma coveredBytes_sum: "len + off \<le> n * sz \<Longrightarrow> off < sz \<Longrightarrow> (\<Sum>i<n. coveredBytes sz off len i) = len"
proof -
  assume A: "len + off \<le> n * sz" "off < sz"
  have "(\<Sum>i<k. coveredBytes sz off len i) = min (off + len) (k * sz) - off" for k
  proof (induction k)
    case (Suc k)
    show ?case
    proof (cases k)
      case 0
      then show ?thesis by (simp add: coveredBytes_eq)
    next
      case (Suc j)
      then have "off \<le> k * sz" using A(2) by (metis le_add1 le_trans less_imp_le mult_Suc)
      then show ?thesis using Suc.IH by (auto simp: coveredBytes_eq min_def max_def)
    qed
  qed simp
  then show ?thesis using A by (simp add: min_def)
qed

text \<open>The state of the loop before line \<open>i\<close>.\<close>

definition loopState :: "'w icl \<Rightarrow> icl_request \<Rightarrow> nat \<Rightarrow> u64 \<times> u64" where
  "loopState L req i =
     (if i = 0 then (icLength req, icOffset req)
      else (word_of_nat (unat (icOffset req) + unat (icLength req) - i * unat (logicalPageSize L)), 0))"

lemma pieceLength:
  assumes "unat (icOffset req) < unat (logicalPageSize L)" "unat (icOffset req) + unat (icLength req) < 2 ^ 64"
  shows "cMIN (fst (loopState L req i)) (ucast (logicalPageSize L) - snd (loopState L req i)) = icLength (lineRequest L req i)"
    and "fst (loopState L req i) - icLength (lineRequest L req i) = fst (loopState L req (Suc i))"
proof -
  define sz off len where d: "sz = unat (logicalPageSize L)" "off = unat (icOffset req)" "len = unat (icLength req)"
  note A = assms [folded d]
  have u: "unat (ucast (logicalPageSize L) :: u64) = sz" by (simp add: d unsigned_ucast_eq take_bit_nat_eq_self unsigned_less [THEN order.strict_trans2])
  have req: "icLength (lineRequest L req i) = word_of_nat (coveredBytes sz off len i)" by (simp add: lineRequest_def pieceRequest_def d)
  have n: "unat (icLength (lineRequest L req i)) = coveredBytes sz off len i" using A(2) coveredBytes_le [of sz off len i] by (simp add: req unat_of_nat take_bit_nat_eq_self)
  have later: "off \<le> i * sz" if "i \<noteq> 0" using that A(1) by (cases i) auto
  have st: "unat (fst (loopState L req i)) = (if i = 0 then len else off + len - i * sz)" for i
    using A(2) by (simp add: loopState_def d [symmetric] unat_of_nat take_bit_nat_eq_self)
  have "unat (ucast (logicalPageSize L) - snd (loopState L req i)) = (if i = 0 then sz - off else sz)"
  proof (cases "i = 0")
    case True
    have "icOffset req \<le> ucast (logicalPageSize L)" using A(1) by (simp add: word_le_nat_alt u d(2) [symmetric])
    then show ?thesis using True by (simp add: loopState_def unat_sub u d(2))
  qed (simp add: loopState_def u)
  then have "unat (cMIN (fst (loopState L req i)) (ucast (logicalPageSize L) - snd (loopState L req i))) = coveredBytes sz off len i"
    using st [of i] later A(1) unfolding unat_cMIN by (auto simp: coveredBytes_eq min_def max_def)
  then show "cMIN (fst (loopState L req i)) (ucast (logicalPageSize L) - snd (loopState L req i)) = icLength (lineRequest L req i)"
    using n by (simp only: word_unat_eq_iff)
  have "coveredBytes sz off len i \<le> unat (fst (loopState L req i))" using st [of i] later by (auto simp: coveredBytes_eq)
  then have "unat (fst (loopState L req i) - icLength (lineRequest L req i)) = unat (fst (loopState L req i)) - coveredBytes sz off len i"
    using n by (simp add: unat_sub word_le_nat_alt)
  also have "\<dots> = unat (fst (loopState L req (Suc i)))" using st [of i] st [of "Suc i"] later A by (auto simp: coveredBytes_eq min_def max_def)
  finally show "fst (loopState L req i) - icLength (lineRequest L req i) = fst (loopState L req (Suc i))" by (simp only: word_unat_eq_iff)
qed

definition issue :: "('w cache_ctx \<Rightarrow> icl_request \<Rightarrow> tick \<Rightarrow> 'w cache \<Rightarrow> (bool \<times> 'w cache \<times> tick) res) \<Rightarrow> 'w icl \<Rightarrow> tick \<Rightarrow> icl_request \<Rightarrow>
    tick \<times> 'w cache \<Rightarrow> (tick \<times> 'w cache) res" where
  "issue cacheOp L t r = (\<lambda>(fin, c). bindR (cacheOp (iclCache L) r t c) (\<lambda>(_, c, b). Inr (max fin b, c)))"

lemma iclLine_issue:
  assumes "unat (icOffset req) < unat (logicalPageSize L)" "unat (icOffset req) + unat (icLength req) < 2 ^ 64"
  shows "iclLine cacheOp L req t i (fst (loopState L req i), snd (loopState L req i), st) =
    bindR (issue cacheOp L t (lineRequest L req i) st) (\<lambda>st. Inr (fst (loopState L req (Suc i)), snd (loopState L req (Suc i)), st))"
proof -
  obtain fin c where st: "st = (fin, c)" by (cases st)
  have r: "lineRequest L req i = pieceRequest req i (snd (loopState L req i)) (icLength (lineRequest L req i))"
    by (simp add: lineRequest_def pieceRequest_def loopState_def)
  have next_off: "snd (loopState L req (Suc i)) = 0" by (simp add: loopState_def)
  show ?thesis
    unfolding iclLine_def issue_def st prod.case Let_def pieceLength(1) [OF assms] r [symmetric] pieceLength(2) [OF assms] next_off bindR_assoc
    by (rule bindR_cong) (auto simp: split_beta)
qed

lemma iclLoop_issue:
  assumes "unat (icOffset req) < unat (logicalPageSize L)" "unat (icOffset req) + unat (icLength req) < 2 ^ 64"
  shows "foldR (iclLine cacheOp L req t) [0..<n] (icLength req, icOffset req, st) =
    bindR (foldR (issue cacheOp L t) (map (lineRequest L req) [0..<n]) st) (\<lambda>st. Inr (fst (loopState L req n), snd (loopState L req n), st))"
proof (induction n)
  case 0
  then show ?case by (simp add: loopState_def)
next
  case (Suc n)
  show ?case
    unfolding upt_Suc_append [OF le0] map_append foldR_append Suc bindR_assoc
    by (rule bindR_cong) (simp_all add: iclLine_issue [OF assms] bindR_assoc)
qed

lemma runs_to_issue:
  assumes "J (snd st)" "\<And>r c. J c \<Longrightarrow> runs_to (cacheOp (iclCache L) r t c) (\<lambda>(ret, c', t'). J c')"
  shows "runs_to (foldR (iclLine cacheOp L req t) is (a, b, st)) (\<lambda>(a, b, fin, c). J c)"
proof (rule foldR_runs_to_prefix [where I = "\<lambda>_ (a, b, fin, c). J c"])
  show "case (a, b, st) of (a, b, fin, c) \<Rightarrow> J c" using assms(1) by (simp add: split_beta)
  fix ys zs x and s :: "u64 \<times> u64 \<times> tick \<times> 'a cache" assume "is = ys @ x # zs" and s: "case s of (a, b, fin, c) \<Rightarrow> J c"
  then show "runs_to (iclLine cacheOp L req t x s) (\<lambda>(a, b, fin, c). J c)"
    by (cases s) (auto simp: iclLine_def Let_def runs_to_bindR split_beta intro!: runs_to_mono [OF assms(2)])
qed

end
