(* ===== verification/Spec2Isabelle.thy ===== *)
theory Spec2Isabelle
  imports FTL_Props Cache_Props Credit_Props Fcfs_Props PAL_Props NvmeAdmin_Props NvmeIO_Props NvmeDma_Props Isc_Props ICL_Inv
begin

text \<open>
  The verification of the SSD simulator SimpleSSD with its extensions for in-storage computing and
  credit scheduling.

  \<^bold>\<open>The program.\<close> The NVMe controller fetches commands from rings in host memory, stages them per user
  and hands them to its subsystem, which turns blocks of a namespace into logical pages; completions
  go back through other rings. A host request is queued by a scheduler of the host interface layer (HIL), which
  passes it to the internal cache layer (ICL). The ICL cuts it into cache lines; the cache serves
  a line from DRAM or calls the flash translation layer (FTL), whose page mapping places logical
  pages on flash blocks and collects garbage, and which calls the parallelism abstraction layer
  (PAL) for the flash operations. Every call takes a time and returns the time at which its work
  is done.

  \<^bold>\<open>The model.\<close> Machine integers keep their width as words (\<open>u8\<close> to \<open>u64\<close>); container sizes and
  configuration figures that only index containers are natural numbers. Floating-point figures are
  rounded rationals of the IEEE formats (\<open>Fp\<close>). Every \<^verbatim>\<open>panic\<close>, failed access and endless search
  is an error value of \<open>'a res\<close>. The state of the layers below is an argument of type \<open>'w\<close>
  that each call threads through, so the order of the calls is part of every statement.

  \<^item> \<open>Prelude\<close>: words, errors, sequencing (\<open>bindR\<close>, \<open>foldR\<close>), the statements \<open>runs_to\<close> (the call returns, and
    its result satisfies) and \<open>on_ok\<close>, shared facts. \<open>OrdMap\<close>: \<^verbatim>\<open>std::map\<close> as a sorted list.
  \<^item> \<open>Algorithm\<close>, \<open>Bitset\<close>: \<^verbatim>\<open>util/algorithm.hh\<close>, \<^verbatim>\<open>util/bitset.cc\<close>. The class works on bytes; the
    abstraction is a list of booleans, and the locale \<open>bit_vector\<close> is the interface the clients use.
  \<^item> \<open>Block\<close>: \<^verbatim>\<open>ftl/common/block.cc\<close>, in both representations. The locale \<open>flash_block\<close> states the
    contract (a unit is erased, valid with its logical page, or invalid; writes go forward only).
  \<^item> \<open>Device\<close>: the requests between the layers (\<^verbatim>\<open>util/def.hh\<close>) and the services below the FTL.
  \<^item> \<open>PageMapping\<close>: all of \<^verbatim>\<open>ftl/page_mapping.cc\<close>. \<open>PM_Invariant\<close>: the invariant (block pool, write
    streams, mapping table inverse to the pages stored in flash). \<open>PM_Write\<close>: read, write, trim.
    \<open>PM_GC\<close>, \<open>PM_Victim\<close>: garbage collection and the choice of victims. \<open>FTL_Props\<close>: C2 to C12 but C3, C9 and C11;
    C7 is about the histories \<open>ftl_run\<close> of all operations but format.
  \<^item> \<open>Cache\<close>: all of \<^verbatim>\<open>icl/generic_cache.cc\<close>. \<open>Cache_Inv\<close>: the invariant (an address has at most one
    valid line, in its own set), generic in the eviction policy by the locale \<open>evict_policy\<close>.
    \<open>Cache_Props\<close>: C17 to C21 but C19.
  \<^item> \<open>Credit\<close>: \<^verbatim>\<open>hil/scheduler/credit_scheduler.cc\<close>. \<open>Credit_Inv\<close>: the operations as the step
    relation \<open>cs_step\<close>, the account invariant by rule induction over \<open>cs_reachable\<close>, the books of a
    dispatch, the end of the refill loop. \<open>Credit_Wait\<close>: requests that no account can pay stay
    where they are through every operation. \<open>Credit_Props\<close>: C24, C27 and C28.
  \<^item> \<open>ICL\<close>: the front ends \<^verbatim>\<open>ftl/ftl.cc\<close> and \<^verbatim>\<open>icl/icl.cc\<close>. \<open>ICL_Inv\<close>: the locale \<open>world_invariant\<close> is
    what the cache needs of the layer below, interpreted on the FTL; the cutting of a request.
    C32 and C33, about all layers, are in this theory.
  \<^item> \<open>Fcfs\<close>: \<^verbatim>\<open>hil/scheduler/fcfs_scheduler.cc\<close>. \<open>Fcfs_Props\<close>: C35.
  \<^item> \<open>HIL\<close>: \<^verbatim>\<open>hil/hil.cc\<close>, on top of either scheduler. \<open>HIL_Inv\<close>: the layer in time with its completion event as
    the step relation \<open>hil_step\<close>, the busy time. \<open>HIL_Props\<close>: C13 and C34.
  \<^item> \<open>Timeline\<close>, \<open>PAL2\<close>, \<open>PALOld\<close>: the flash timing of \<^verbatim>\<open>pal/\<close>: calendars of free slots per channel and
    die, the scheduling of a command on them, and the addresses of the flash pages of a super page.
    \<open>Timeline_Inv\<close>: the invariant of a calendar, the search, the booking. \<open>PAL2_Inv\<close>: the search as a
    monotone function, the end of the scheduling loops, what a command books. \<open>PALOld_Inv\<close>: the
    numbering of super blocks, construction, flushing, page numbers. \<open>PAL_Props\<close>: C36 to C39.
  \<^item> \<open>NvmeQueue\<close>, \<open>NvmeNs\<close>, \<open>NvmeCtrl\<close>, \<open>NvmeWork\<close>: the NVMe layer of \<^verbatim>\<open>hil/nvme/\<close>: the rings, the
    namespaces and their pages, registers, doorbells and the tables of queues, and the path of a
    command from a submission ring over the queues per user to the subsystem and back. What the
    controller asks of the outside (events, transfers, interrupts) is a list of actions.
    \<open>NvmeQueue_Inv\<close>: a completion ring and its host as the step relation \<open>cq_step\<close>, positions counted without
    bound. \<open>NvmeNs_Inv\<close>: first fit, the invariant that namespaces share no page, units. \<open>NvmeCtrl_Inv\<close>: the
    queue tables under the step relation \<open>table_step\<close>. \<open>NvmeCollect\<close>: the loops of a collection by the locale
    \<open>fetch_round\<close>. \<open>RoundRobin\<close>, \<open>NvmeWork_Inv\<close>: the locale \<open>round_robin\<close>, with work and users that
    arrive between two turns, and its instance; the slots that posting completions writes.
    \<open>Nvme_Props\<close>: C3, C15, C16, C22, C23, C31 and C40.
  \<^item> \<open>NvmeIdentify\<close>, \<open>NvmeAdmin\<close>: the identify data and the admin commands of \<^verbatim>\<open>subsystem.cc\<close> and
    \<^verbatim>\<open>namespace.cc\<close>. A handler returns its answers; one that waits for a transfer has its
    continuation as a job (\<open>jobDone\<close>). \<open>NvmeAdmin_Inv\<close>: how often a command is answered, the commands and
    jobs interleaved as the step relation \<open>admin_step\<close>, features. \<open>NvmeAdmin_Props\<close>: C9 and C14.
  \<^item> \<open>NvmeIO\<close>: the I/O commands of a namespace with their callbacks, and the credit gate of in-storage computing.
    \<open>NvmeIO_Inv\<close>: the callbacks in any order as the step relation \<open>io_step\<close>. \<open>NvmeIO_Props\<close>: C1.
  \<^item> \<open>NvmeDma\<close>: \<^verbatim>\<open>hil/nvme/dma.cc\<close>: the lists of physical region pages and the scatter gather lists, read from
    host memory as a function from addresses to bytes, and the transfers through them. \<open>NvmeDma_Inv\<close>:
    a list as the sequence of its bytes, which the loops of a transfer refine; the end of a chain of pages and
    the lists by the rules of NVMe (\<open>prpChain\<close>), lists that lose data, a segment that never ends. \<open>NvmeDma_Props\<close>: C11, C26 and C29.
  \<^item> \<open>Slets\<close>, \<open>SletTasks\<close>, \<open>Md5\<close>: in-storage computing of \<^verbatim>\<open>isc/\<close>: the runtime with its slets and their options,
    the data of extents, and the tasks that hash, search, add up and read, for requests that bring the extents
    of their files. \<open>B64\<close>: \<^verbatim>\<open>util/b64.cc\<close> and its round trip. \<open>Isc_Inv\<close>: identifiers and options, the loops that
    read extents, the search with the table of last places, minimum and maximum by bits; hashing piece by piece refines the
    digest of RFC 1321 in \<open>Md5\<close>. \<open>Isc_Props\<close>: C19, C25 and C30.

  \<^bold>\<open>Loops and fuel.\<close> Loops over containers are structural. The sampling loop of the random victim
  policies may run for ever in the source; it has the fuel \<open>cfgFuel\<close>, and running out is the
  error \<open>Undefined\<close> (the loop does not end). The refill loop of the credit scheduler has the
  fuel \<open>refillFuel\<close>, the number of periods up to the current time, which \<open>refillLoop_terminates\<close> shows to be enough for a positive period; the
  bounds \<^verbatim>\<open>maxIterations\<close> and \<^verbatim>\<open>MAX_DISPATCH_PER_TICK\<close> are the source's own. The two loops
  that place a flash command have as fuel the number of free slots of the calendar plus two
  (\<open>loopBound\<close>); \<open>PAL2_Inv\<close> shows that each round moves to a later slot, so C38 and C39 hold without
  a hypothesis on the loops. The loops that collect NVMe commands are partial functions; C22 says when
  they return, \<open>collectSQueue_diverges\<close> when they do not. Reading chained pages and segments of host memory are partial functions too;
  C26 shows that a chain of pages ends, \<open>parseSGLSegment_self\<close> that a cycle of segments does not.

  \<^bold>\<open>Parameters.\<close> The DRAM model, the CPU cost tables, the random generator (where used, with the
  hypothesis \<open>draws_ok\<close> that a draw lies in its range, as the standard promises, and that the range is that of the set) and, for the layers above
  it, the flash timing are arguments of the definitions.

  \<^bold>\<open>Not modelled.\<close> The open-channel subsystem; the SATA
  and UFS controllers and the FIFO, which are callback code around an event queue; the ext4 reader of in-storage computing and the branches of its slets that list directories with it, the configuration
  reader, the log and the statistics names are input and output. \<^verbatim>\<open>hil/scheduler/claude.cc\<close> is
  an older copy of the credit scheduler that no build file names. Completion functions and opaque
  pointers of requests are left out; no modelled code reads them.
\<close>

section \<open>The layers together\<close>

text \<open>
  C32. \<open>ICL::read\<close> and \<open>ICL::write\<close> cut a request into one cache request per line: the requests
  are issued in order, the request of line \<open>i\<close> covers exactly the bytes of the request that lie in
  that line, and together they cover the whole request.
\<close>

theorem ICL_cuts_requests:
  assumes "unat (icOffset req) < unat (logicalPageSize L)" "unat (icOffset req) + unat (icLength req) < 2 ^ 64"
    "unat (icLength req) + unat (icOffset req) \<le> unat (nlp (icRange req)) * unat (logicalPageSize L)"
  shows "ICL_read L req t c = bindR (foldR (issue GenericCache_read L t) (map (lineRequest L req) [0..<unat (nlp (icRange req))]) (t, c))
      (\<lambda>(fin, c). Inr (iclLatency L FN_READ (c, fin))) \<and>
    ICL_write L req t c = bindR (foldR (issue GenericCache_write L t) (map (lineRequest L req) [0..<unat (nlp (icRange req))]) (t, c))
      (\<lambda>(fin, c). Inr (iclLatency L FN_WRITE (c, fin))) \<and>
    (\<Sum>i<unat (nlp (icRange req)). unat (icLength (lineRequest L req i))) = unat (icLength req)"
proof -
  have "unat (icLength (lineRequest L req i)) = coveredBytes (unat (logicalPageSize L)) (unat (icOffset req)) (unat (icLength req)) i" for i
    using assms(2) coveredBytes_le [of "unat (logicalPageSize L)" "unat (icOffset req)" "unat (icLength req)" i]
    by (simp add: lineRequest_def pieceRequest_def unat_of_nat take_bit_nat_eq_self)
  then show ?thesis
    using coveredBytes_sum [OF assms(3,1)]
    by (auto simp: ICL_read_def ICL_write_def iclLoop_issue [OF assms(1,2)] bindR_assoc split_beta intro!: bindR_cong)
qed

theorem ICL_cuts_requests_witness:
  "map (\<lambda>i. (slpn (icRange (lineRequest \<lparr>iclCache = exC, totalLogicalPages = 64, logicalPageSize = 4096\<rparr>
        (ICL_Request_new\<lparr>icOffset := 512, icLength := 8192, icRange := \<lparr>slpn = 7, nlp = 3\<rparr>\<rparr>) i)),
      icLength (lineRequest \<lparr>iclCache = exC, totalLogicalPages = 64, logicalPageSize = 4096\<rparr>
        (ICL_Request_new\<lparr>icOffset := 512, icLength := 8192, icRange := \<lparr>slpn = 7, nlp = 3\<rparr>\<rparr>) i))) [0..<3] =
     [(7, 3584), (8, 4096), (9, 512)] \<and>
   (\<Sum>i<3. unat (icLength (lineRequest \<lparr>iclCache = exC, totalLogicalPages = 64, logicalPageSize = 4096\<rparr>
        (ICL_Request_new\<lparr>icOffset := 512, icLength := 8192, icRange := \<lparr>slpn = 7, nlp = 3\<rparr>\<rparr>) i))) = 8192"
  using ICL_cuts_requests [of "ICL_Request_new\<lparr>icOffset := 512, icLength := 8192, icRange := \<lparr>slpn = 7, nlp = 3\<rparr>\<rparr>"
      "\<lparr>iclCache = exC, totalLogicalPages = 64, logicalPageSize = 4096\<rparr>" 0 "exCache Line_new []"]
  by (simp add: ICL_Request_new_def lineRequest_def pieceRequest_def coveredBytes_eq upt_rec)

text \<open>
  C33. A read through all layers, from the cutting into lines through the cache to the page
  mapping, returns under the least recently used and the FIFO policy, and under the random policy when the
  cache is not fully associative and the generator keeps to its range; afterwards cache and mapping satisfy their invariants, every logical
  unit is stored where it was and every flash unit holds what it held.
\<close>

theorem ICL_read_safe:
  assumes "iclCache L = cacheContext g (ftlDev P keys) b0" "icl_cfg_ok g" "ctx_ok P" "draws_ok g P"
    "cache_inv (iclCache L) c" "pm_inv P (cworld c)"
  shows "runs_to (ICL_read L req t c) (\<lambda>(c', t'). cache_inv (iclCache L) c' \<and> pm_inv P (cworld c') \<and>
    lookup P (cworld c') = lookup P (cworld c) \<and> unitAt (cworld c') = unitAt (cworld c))"
proof -
  let ?J = "\<lambda>c'. cache_inv (iclCache L) c' \<and> readable g P (cworld c) (cworld c')"
  have "?J c" using assms by (simp add: readable_def)
  then have "runs_to (foldR (iclLine GenericCache_read L req t) [0..<unat (nlp (icRange req))] (icLength req, icOffset req, t, c)) (\<lambda>(a, b, fin, c). ?J c)"
    by (intro runs_to_issue [where J = ?J]) (use read_below assms(1) in \<open>auto elim!: runs_to_mono\<close>)
  moreover have "?J (fst (iclLatency L fn ct))" if "?J (fst ct)" for fn ct
    using that assms(1) readable_world by (auto simp: iclLatency_def onWorld_def split_beta Let_def)
  ultimately show ?thesis
    by (auto simp: ICL_read_def runs_to_bindR split_beta readable_def elim!: runs_to_mono)
qed

theorem ICL_read_safe_witness:
  "runs_to (ICL_read \<lparr>iclCache = cacheContext exCfg (ftlDev (exCtx 1) (\<lambda>s. [])) False, totalLogicalPages = 64, logicalPageSize = 4096\<rparr>
       (ICL_Request_new\<lparr>icLength := 8192, icRange := \<lparr>slpn = 10, nlp = 2\<rparr>\<rparr>) 5 (exCacheOn exDirty exFull))
     (\<lambda>(c', t'). pm_inv (exCtx 1) (cworld c') \<and> lookup (exCtx 1) (cworld c') = lookup (exCtx 1) exFull)"
proof -
  let ?L = "\<lparr>iclCache = cacheContext exCfg (ftlDev (exCtx 1) (\<lambda>s. [])) False, totalLogicalPages = 64, logicalPageSize = 4096\<rparr>"
  have "runs_to (ICL_read ?L (ICL_Request_new\<lparr>icLength := 8192, icRange := \<lparr>slpn = 10, nlp = 2\<rparr>\<rparr>) 5 (exCacheOn exDirty exFull))
      (\<lambda>(c', t'). cache_inv (iclCache ?L) c' \<and> pm_inv (exCtx 1) (cworld c') \<and>
        lookup (exCtx 1) (cworld c') = lookup (exCtx 1) (cworld (exCacheOn exDirty exFull)) \<and>
        unitAt (cworld c') = unitAt (cworld (exCacheOn exDirty exFull)))"
    by (rule ICL_read_safe [OF _ exCfg_ok exCtx_ok(1), where keys = "\<lambda>s. []" and ?b0.0 = False])
      (use exFull_inv exCacheOn_inv in \<open>simp_all add: draws_ok_def\<close>)
  then show ?thesis by (rule runs_to_mono) auto
qed

end
